(* ===== verification/Prelude.thy ===== *)
theory Prelude
  imports Main "HOL-Library.Word"
begin

text \<open>
  Shared vocabulary of the development: names for the fixed-width C integers of
  \<open>src/lib/libc/int.h\<close>, the collections the component proofs draw on, and the generic
  facts about 64-bit words, alignment masks, counted loops and bounded searches that more
  than one component needs.
\<close>

unbundle bit_operations_syntax

section \<open>Fixed-width integers\<close>

text \<open>
  The typedefs of \<open>src/lib/libc/int.h\<close>. Arithmetic on a word wraps, as unsigned arithmetic
  of C does. A C pointer is its 64-bit address; the null pointer is 0.
\<close>

type_synonym u8 = "8 word"
type_synonym u16 = "16 word"
type_synonym u32 = "32 word"
type_synonym u64 = "64 word"
type_synonym ptr = "64 word"

section \<open>Collections\<close>

named_theorems unat64 "readings of 64-bit operations as natural numbers"

section \<open>64-bit words as natural numbers\<close>

lemma unat64_lt [simp]: "unat (x :: u64) < 18446744073709551616"
  using unsigned_less [of x, where 'a = nat] by simp

lemma unat64_of_nat [unat64]:
  "n < 18446744073709551616 \<Longrightarrow> unat (of_nat n :: u64) = n"
  by (simp add: unat_of_nat take_bit_eq_mod)

lemma of_nat64_eq_iff [unat64]:
  "a < 18446744073709551616 \<Longrightarrow> b < 18446744073709551616 \<Longrightarrow>
     (of_nat a :: u64) = of_nat b \<longleftrightarrow> a = b"
  by (metis unat64_of_nat)

lemma of_nat64_eq_0_iff [unat64]:
  "a < 18446744073709551616 \<Longrightarrow> (of_nat a :: u64) = 0 \<longleftrightarrow> a = 0"
  using of_nat64_eq_iff [of a 0] by simp

lemma of_nat64_le_iff [unat64]:
  "a < 18446744073709551616 \<Longrightarrow> b < 18446744073709551616 \<Longrightarrow>
     (of_nat a :: u64) \<le> of_nat b \<longleftrightarrow> a \<le> b"
  by (simp add: word_le_nat_alt unat64_of_nat)

lemma of_nat64_less_iff [unat64]:
  "a < 18446744073709551616 \<Longrightarrow> b < 18446744073709551616 \<Longrightarrow>
     (of_nat a :: u64) < of_nat b \<longleftrightarrow> a < b"
  by (simp add: word_less_nat_alt unat64_of_nat)

lemma unat64_plus:
  "unat (x :: u64) + unat y < 18446744073709551616 \<Longrightarrow> unat (x + y) = unat x + unat y"
  by (simp add: unat_word_ariths)

lemma unat64_minus: "(y :: u64) \<le> x \<Longrightarrow> unat (x - y) = unat x - unat y"
  by (rule unat_sub)

lemma unat64_mult:
  "unat (x :: u64) * unat y < 18446744073709551616 \<Longrightarrow> unat (x * y) = unat x * unat y"
  by (simp add: unat_word_ariths)

section \<open>Alignment\<close>

text \<open>
  \<open>ALIGN_UP\<close> and \<open>ALIGN_DOWN\<close> of \<open>pmm.c\<close> and \<open>kheap.c\<close>, for an alignment
  \<open>a\<close> given as a word.
\<close>

definition ALIGN_UP :: "u64 \<Rightarrow> u64 \<Rightarrow> u64" where
  "ALIGN_UP x a = (x + a - 1) AND NOT (a - 1)"

definition ALIGN_DOWN :: "u64 \<Rightarrow> u64 \<Rightarrow> u64" where
  "ALIGN_DOWN x a = x AND NOT (a - 1)"

lemma and_not_mask_eq: "(x :: 'a::len word) AND NOT (mask n) = push_bit n (drop_bit n x)"
  by (rule bit_word_eqI) (auto simp: bit_simps)

lemma unat_and_not_mask: "unat ((x :: u64) AND NOT (mask n)) = (unat x div 2 ^ n) * 2 ^ n"
proof -
  have "(unat x div 2 ^ n) * 2 ^ n \<le> unat x" by simp
  also have "\<dots> < 18446744073709551616" by simp
  finally have lt: "(unat x div 2 ^ n) * 2 ^ n < 18446744073709551616" .
  have "unat (push_bit n (drop_bit n x)) = (unat x div 2 ^ n) * 2 ^ n mod 18446744073709551616"
    unfolding unsigned_push_bit_eq unat_drop_bit_eq
    by (simp add: push_bit_eq_mult drop_bit_eq_div take_bit_eq_mod)
  with lt show ?thesis by (simp add: and_not_mask_eq)
qed

lemma align_masks:
  "(mask 3 :: u64) = 7" "(mask 4 :: u64) = 15" "(mask 12 :: u64) = 4095"
  by (simp_all add: mask_eq_exp_minus_1)

lemma unat_align_down:
  shows "unat (ALIGN_DOWN x 8) = unat x div 8 * 8"
    and "unat (ALIGN_DOWN x 4096) = unat x div 4096 * 4096"
  using unat_and_not_mask [of x 3] unat_and_not_mask [of x 12]
  by (simp_all add: ALIGN_DOWN_def align_masks)

lemma unat64_plus_const:
  "unat (x :: u64) + n < 18446744073709551616 \<Longrightarrow> unat (x + of_nat n) = unat x + n"
  by (subst unat64_plus) (simp_all add: unat64_of_nat)

lemma unat_align_up_mask:
  assumes "unat (x :: u64) + (2 ^ n - 1) < 18446744073709551616"
  shows "unat ((x + of_nat (2 ^ n - 1)) AND NOT (mask n)) = (unat x + (2 ^ n - 1)) div 2 ^ n * 2 ^ n"
  by (simp only: unat_and_not_mask unat64_plus_const [OF assms])

lemma unat_align_up:
  shows "unat x + 7 < 18446744073709551616 \<Longrightarrow> unat (ALIGN_UP x 8) = (unat x + 7) div 8 * 8"
    and "unat x + 4095 < 18446744073709551616 \<Longrightarrow>
           unat (ALIGN_UP x 4096) = (unat x + 4095) div 4096 * 4096"
    and "unat x + 15 < 18446744073709551616 \<Longrightarrow> unat (ALIGN_UP x 16) = (unat x + 15) div 16 * 16"
  using unat_align_up_mask [of x 3] unat_align_up_mask [of x 12] unat_align_up_mask [of x 4]
  by (simp_all add: ALIGN_UP_def align_masks add.commute)

section \<open>Counted loops\<close>

text \<open>
  \<open>for_range a b f s\<close> is the C loop \<^verbatim>\<open>for (i = a; i < b; i++) s = f(i, s)\<close> over an
  index that cannot overflow because it stays below \<open>b\<close>.
\<close>

definition for_range :: "nat \<Rightarrow> nat \<Rightarrow> (nat \<Rightarrow> 's \<Rightarrow> 's) \<Rightarrow> 's \<Rightarrow> 's" where
  "for_range a b f s = fold f [a..<b] s"

lemma for_range_empty [simp]: "b \<le> a \<Longrightarrow> for_range a b f s = s"
  by (simp add: for_range_def)

lemma for_range_Suc: "a \<le> b \<Longrightarrow> for_range a (Suc b) f s = f b (for_range a b f s)"
  by (simp add: for_range_def)

lemma for_range_code [code]:
  "for_range a b f s = (if a < b then for_range (Suc a) b f (f a s) else s)"
  by (simp add: for_range_def upt_rec)

text \<open>The invariant rule for a counted loop.\<close>

lemma for_range_rule:
  assumes "a \<le> b" and "P a s" and "\<And>i t. a \<le> i \<Longrightarrow> i < b \<Longrightarrow> P i t \<Longrightarrow> P (Suc i) (f i t)"
  shows "P b (for_range a b f s)"
  using assms(1,3)
proof (induction b rule: dec_induct)
  case base
  show ?case using assms(2) by simp
next
  case (step n)
  then have "P n (for_range a n f s)" by simp
  with step show ?case by (simp add: for_range_Suc)
qed

lemma for_range_inv:
  assumes "P s" and "\<And>i t. a \<le> i \<Longrightarrow> i < b \<Longrightarrow> P t \<Longrightarrow> P (f i t)"
  shows "P (for_range a b f s)"
proof (cases "a \<le> b")
  case True
  then show ?thesis
    by (rule for_range_rule [where P = "\<lambda>_. P"]) (use assms in auto)
next
  case False
  with assms(1) show ?thesis by simp
qed

section \<open>First-match searches\<close>

text \<open>
  \<open>find_from P a b\<close> is the index at which \<^verbatim>\<open>for (i = a; i < b; i++) if (P(i)) ...\<close>
  stops, if it stops before \<open>b\<close>.
\<close>

function find_from :: "(nat \<Rightarrow> bool) \<Rightarrow> nat \<Rightarrow> nat \<Rightarrow> nat option" where
  "find_from P a b = (if a < b then if P a then Some a else find_from P (Suc a) b else None)"
  by pat_completeness auto
termination
  by (relation "measure (\<lambda>(P, a, b). b - a)") auto

declare find_from.simps [simp del]

lemma find_from_Some_iff:
  "find_from P a b = Some i \<longleftrightarrow> a \<le> i \<and> i < b \<and> P i \<and> (\<forall>j. a \<le> j \<and> j < i \<longrightarrow> \<not> P j)"
proof (induction P a b rule: find_from.induct)
  case (1 P a b)
  show ?case
  proof (cases "a < b \<and> \<not> P a")
    case True
    have split: "a \<le> j \<longleftrightarrow> j = a \<or> Suc a \<le> j" for j by auto
    from True "1.IH" show ?thesis
      by (subst find_from.simps) (auto simp: split)
  next
    case False
    then show ?thesis
      by (subst find_from.simps) (auto simp: order_le_less)
  qed
qed

lemma find_from_None_iff: "find_from P a b = None \<longleftrightarrow> (\<forall>j. a \<le> j \<and> j < b \<longrightarrow> \<not> P j)"
proof (induction P a b rule: find_from.induct)
  case (1 P a b)
  show ?case
  proof (cases "a < b \<and> \<not> P a")
    case True
    have split: "a \<le> j \<longleftrightarrow> j = a \<or> Suc a \<le> j" for j by auto
    from True "1.IH" show ?thesis
      by (subst find_from.simps) (auto simp: split)
  next
    case False
    then show ?thesis
      by (subst find_from.simps) (auto simp: order_le_less)
  qed
qed

lemma find_from_cong: "(\<And>j. a \<le> j \<Longrightarrow> j < b \<Longrightarrow> P j = Q j) \<Longrightarrow> find_from P a b = find_from Q a b"
  by (induction P a b rule: find_from.induct) (subst (1 2) find_from.simps, simp)

end
