(* ===== verification/KLog.thy ===== *)
theory KLog
  imports Prelude
begin

text \<open>
  The kernel logger of \<open>src/kernel/log/klog.c\<close> (x86_64 build): the character ring buffer,
  the COM1 output and the tagged log calls. The ring is an array indexed by
  \<^verbatim>\<open>klog_write_pos % KLOG_RING_SIZE\<close>; terminal output is kept as the sequence of calls made
  on the terminal driver and COM1 output as the sequence of port writes. The main facts relate
  the ring to the history of everything ever logged: a reader that drains the ring gets exactly
  the part of the history it has not seen and that has not been overwritten.
\<close>

section \<open>State\<close>

definition KLOG_RING_SIZE :: nat where
  "KLOG_RING_SIZE = 131072"

definition SERIAL_PORT :: nat where
  "SERIAL_PORT = 1016"

datatype tty_call = Tty_set_color nat nat | Tty_print string | Tty_print_hex u64

record klog_state =
  klog_ring :: "nat \<Rightarrow> char"
  klog_write_pos :: u64
  serial_initialized :: bool
  port_writes :: "(nat \<times> char) list"
  tty_calls :: "tty_call list"

definition outb :: "nat \<Rightarrow> char \<Rightarrow> klog_state \<Rightarrow> klog_state" where
  "outb p c s = s\<lparr>port_writes := port_writes s @ [(p, c)]\<rparr>"

definition tty :: "tty_call \<Rightarrow> klog_state \<Rightarrow> klog_state" where
  "tty c s = s\<lparr>tty_calls := tty_calls s @ [c]\<rparr>"

section \<open>The ring\<close>

definition ring_putchar :: "char \<Rightarrow> klog_state \<Rightarrow> klog_state" where
  "ring_putchar c s =
     s\<lparr>klog_ring := (klog_ring s)(unat (klog_write_pos s) mod KLOG_RING_SIZE := c),
       klog_write_pos := klog_write_pos s + 1\<rparr>"

fun ring_puts :: "string \<Rightarrow> klog_state \<Rightarrow> klog_state" where
  "ring_puts [] s = s"
| "ring_puts (c # cs) s = ring_puts cs (ring_putchar c s)"

definition ring_write_entry :: "string \<Rightarrow> string \<Rightarrow> klog_state \<Rightarrow> klog_state" where
  "ring_write_entry tag msg s =
     (let s = ring_putchar (CHR ''['') s;
          s = ring_puts tag s;
          s = ring_putchar (CHR '']'') s;
          s = ring_putchar (CHR '' '') s;
          s = ring_puts msg s
      in ring_putchar (CHR 0x0A) s)"

text \<open>
  \<open>klog_read_new\<close>: the position and the buffer are pointers, \<open>None\<close> when null. The
  result is the returned count with the contents of \<^verbatim>\<open>*pos\<close> and of the buffer afterwards.
\<close>

definition klog_read_new ::
  "klog_state \<Rightarrow> u64 option \<Rightarrow> string option \<Rightarrow> int \<Rightarrow> int \<times> u64 option \<times> string option" where
  "klog_read_new s pos buf sz =
     (case (pos, buf) of
        (Some p, Some b) \<Rightarrow>
          if sz < 2 then (0, pos, buf)
          else let write = klog_write_pos s in
            if write \<le> p then (0, pos, buf)
            else
              let available = write - p;
                  (p, available) =
                    (if unat available > KLOG_RING_SIZE
                     then (write - of_nat KLOG_RING_SIZE, of_nat KLOG_RING_SIZE)
                     else (p, available));
                  to_copy = (if available < of_int (sz - 1) then available else of_int (sz - 1));
                  n = unat to_copy;
                  bytes = map (\<lambda>i. klog_ring s (unat (p + of_nat i) mod KLOG_RING_SIZE)) [0..<n]
              in (int n, Some (p + to_copy), Some (bytes @ [CHR 0x00] @ drop (Suc n) b))
      | _ \<Rightarrow> (0, pos, buf))"

definition klog_get_write_pos :: "klog_state \<Rightarrow> u64" where
  "klog_get_write_pos s = klog_write_pos s"

section \<open>COM1 output\<close>

definition serial_init :: "klog_state \<Rightarrow> klog_state" where
  "serial_init s =
     (if serial_initialized s then s
      else
        let s = outb (SERIAL_PORT + 1) (CHR 0x00) s;
            s = outb (SERIAL_PORT + 3) (CHR 0x80) s;
            s = outb (SERIAL_PORT + 0) (CHR 0x03) s;
            s = outb (SERIAL_PORT + 1) (CHR 0x00) s;
            s = outb (SERIAL_PORT + 3) (CHR 0x03) s;
            s = outb (SERIAL_PORT + 2) (CHR 0xC7) s;
            s = outb (SERIAL_PORT + 4) (CHR 0x0B) s
        in s\<lparr>serial_initialized := True\<rparr>)"

text \<open>The wait for the transmit-empty bit reads the device only; the byte then goes out.\<close>

definition serial_putchar :: "char \<Rightarrow> klog_state \<Rightarrow> klog_state" where
  "serial_putchar c s =
     outb SERIAL_PORT c (if \<not> serial_initialized s then serial_init s else s)"

fun serial_print_loop :: "string \<Rightarrow> klog_state \<Rightarrow> klog_state" where
  "serial_print_loop [] s = s"
| "serial_print_loop (c # cs) s =
     serial_print_loop cs
       (serial_putchar c (if c = CHR 0x0A then serial_putchar (CHR 0x0D) s else s))"

definition serial_print :: "string \<Rightarrow> klog_state \<Rightarrow> klog_state" where
  "serial_print str s =
     serial_print_loop str (if \<not> serial_initialized s then serial_init s else s)"

text \<open>
  The digit loop shared by \<open>serial_hex\<close> and \<open>klog_hex\<close>: shifts 60, 56, \<dots>, 0, with
  leading zeros suppressed; \<open>k\<close> is the shift divided by four.
\<close>

definition hex_chars :: string where
  "hex_chars = ''0123456789ABCDEF''"

fun hex_loop :: "(char \<Rightarrow> 's \<Rightarrow> 's) \<Rightarrow> u64 \<Rightarrow> nat \<Rightarrow> bool \<Rightarrow> 's \<Rightarrow> 's" where
  "hex_loop put v k started s =
     (let digit = unat (drop_bit (4 * k) v AND 15);
          emit = (digit \<noteq> 0 \<or> started \<or> k = 0);
          s = (if emit then put (hex_chars ! digit) s else s)
      in case k of 0 \<Rightarrow> s | Suc k' \<Rightarrow> hex_loop put v k' (emit \<or> started) s)"

declare hex_loop.simps [simp del]

lemma hex_loop_0: "hex_loop put v 0 st s = put (hex_chars ! unat (v AND 15)) s"
  by (simp add: hex_loop.simps)

lemma hex_loop_Suc:
  "hex_loop put v (Suc k) st s =
     (let digit = unat (drop_bit (4 * Suc k) v AND 15)
      in if digit \<noteq> 0 \<or> st then hex_loop put v k True (put (hex_chars ! digit) s)
         else hex_loop put v k False s)"
  by (subst hex_loop.simps) (simp add: Let_def)

definition serial_hex :: "u64 \<Rightarrow> klog_state \<Rightarrow> klog_state" where
  "serial_hex v s = hex_loop serial_putchar v 15 False (serial_print ''0x'' s)"

section \<open>Log calls\<close>

definition TTY_LIGHT_GREEN :: nat where "TTY_LIGHT_GREEN = 10"
definition TTY_BLACK :: nat where "TTY_BLACK = 0"
definition TTY_LIGHT_GREY :: nat where "TTY_LIGHT_GREY = 7"
definition TTY_YELLOW :: nat where "TTY_YELLOW = 14"
definition TTY_LIGHT_RED :: nat where "TTY_LIGHT_RED = 12"
definition TTY_RED :: nat where "TTY_RED = 4"

definition print_tag :: "string \<Rightarrow> klog_state \<Rightarrow> klog_state" where
  "print_tag tag s =
     (let s = tty (Tty_set_color TTY_LIGHT_GREEN TTY_BLACK) s;
          s = tty (Tty_print ''['') s;
          s = tty (Tty_print tag) s;
          s = tty (Tty_print ''] '') s;
          s = tty (Tty_set_color TTY_LIGHT_GREY TTY_BLACK) s;
          s = serial_print ''['' s;
          s = serial_print tag s
      in serial_print ''] '' s)"

definition klog_init :: "klog_state \<Rightarrow> klog_state" where
  "klog_init s = serial_init s"

text \<open>The message followed by a newline on the terminal and on COM1.\<close>

definition print_line :: "string \<Rightarrow> klog_state \<Rightarrow> klog_state" where
  "print_line msg s =
     (let s = tty (Tty_print msg) s;
          s = tty (Tty_print [CHR 0x0A]) s;
          s = serial_print msg s
      in serial_print [CHR 0x0A] s)"

definition klog_init_msg :: "string \<Rightarrow> klog_state \<Rightarrow> klog_state" where
  "klog_init_msg msg s = ring_write_entry ''INIT '' msg (print_line msg (print_tag ''INIT '' s))"

definition klog_get :: "string \<Rightarrow> klog_state \<Rightarrow> klog_state" where
  "klog_get msg s = ring_write_entry ''GET  '' msg (print_line msg (print_tag ''GET  '' s))"

definition klog_set :: "string \<Rightarrow> klog_state \<Rightarrow> klog_state" where
  "klog_set msg s = ring_write_entry ''SET  '' msg (print_line msg (print_tag ''SET  '' s))"

text \<open>
  The warning, error and failure calls print the bracketed tag in their own colour on the
  terminal before the message and then repeat the line on COM1.
\<close>

definition alert_line :: "nat \<Rightarrow> string \<Rightarrow> string \<Rightarrow> klog_state \<Rightarrow> klog_state" where
  "alert_line colour tag msg s =
     (let s = tty (Tty_set_color colour TTY_BLACK) s;
          s = tty (Tty_print tag) s;
          s = tty (Tty_set_color TTY_LIGHT_GREY TTY_BLACK) s;
          s = tty (Tty_print msg) s;
          s = tty (Tty_print [CHR 0x0A]) s;
          s = serial_print tag s;
          s = serial_print msg s
      in serial_print [CHR 0x0A] s)"

definition klog_warn :: "string \<Rightarrow> klog_state \<Rightarrow> klog_state" where
  "klog_warn msg s = ring_write_entry ''WARN '' msg (alert_line TTY_YELLOW ''[WARN ] '' msg s)"

definition klog_error :: "string \<Rightarrow> klog_state \<Rightarrow> klog_state" where
  "klog_error msg s = ring_write_entry ''ERROR'' msg (alert_line TTY_LIGHT_RED ''[ERROR] '' msg s)"

definition klog_fail :: "string \<Rightarrow> klog_state \<Rightarrow> klog_state" where
  "klog_fail msg s = ring_write_entry ''FAIL '' msg (alert_line TTY_RED ''[FAIL ] '' msg s)"

definition klog_log :: "string \<Rightarrow> klog_state \<Rightarrow> klog_state" where
  "klog_log msg s = ring_puts msg (serial_print msg (tty (Tty_print msg) s))"

definition klog_logn :: "string \<Rightarrow> klog_state \<Rightarrow> klog_state" where
  "klog_logn msg s = ring_write_entry ''LOG  '' msg (print_line msg s)"

definition klog_hex :: "u64 \<Rightarrow> klog_state \<Rightarrow> klog_state" where
  "klog_hex v s =
     (let s = tty (Tty_print_hex v) s;
          s = serial_hex v s;
          s = ring_putchar (CHR ''0'') s;
          s = ring_putchar (CHR ''x'') s
      in hex_loop ring_putchar v 15 False s)"

text \<open>
  Other components record the log calls they make as events; \<open>klog_call\<close> carries one out.
\<close>

datatype klog_event =
    Init_msg string | Get_msg string | Set_msg string | Warn string | Error string
  | Fail string | Log string | Logn string | Hex u64

fun klog_call :: "klog_event \<Rightarrow> klog_state \<Rightarrow> klog_state" where
  "klog_call (Init_msg m) = klog_init_msg m"
| "klog_call (Get_msg m) = klog_get m"
| "klog_call (Set_msg m) = klog_set m"
| "klog_call (Warn m) = klog_warn m"
| "klog_call (Error m) = klog_error m"
| "klog_call (Fail m) = klog_fail m"
| "klog_call (Log m) = klog_log m"
| "klog_call (Logn m) = klog_logn m"
| "klog_call (Hex v) = klog_hex v"

definition klog_initial :: klog_state where
  "klog_initial = \<lparr>klog_ring = (\<lambda>_. CHR 0x00), klog_write_pos = 0, serial_initialized = False,
     port_writes = [], tty_calls = []\<rparr>"

section \<open>The history of the ring\<close>

text \<open>
  \<open>ring_holds h s\<close>: \<open>h\<close> is everything logged since boot, the write position counts it, and
  the ring holds its last \<open>KLOG_RING_SIZE\<close> characters.
\<close>

definition ring_holds :: "string \<Rightarrow> klog_state \<Rightarrow> bool" where
  "ring_holds h s \<longleftrightarrow> length h < 18446744073709551616 \<and> klog_write_pos s = of_nat (length h) \<and>
     (\<forall>i < length h. length h \<le> i + KLOG_RING_SIZE \<longrightarrow> klog_ring s (i mod KLOG_RING_SIZE) = h ! i)"

text \<open>What each call adds to the history.\<close>

definition entry_text :: "string \<Rightarrow> string \<Rightarrow> string" where
  "entry_text tag msg = ''['' @ tag @ ''] '' @ msg @ [CHR 0x0A]"

definition hex_text :: "u64 \<Rightarrow> nat \<Rightarrow> bool \<Rightarrow> string" where
  "hex_text v k started = hex_loop (\<lambda>c cs. cs @ [c]) v k started []"

fun render :: "klog_event \<Rightarrow> string" where
  "render (Init_msg m) = entry_text ''INIT '' m"
| "render (Get_msg m) = entry_text ''GET  '' m"
| "render (Set_msg m) = entry_text ''SET  '' m"
| "render (Warn m) = entry_text ''WARN '' m"
| "render (Error m) = entry_text ''ERROR'' m"
| "render (Fail m) = entry_text ''FAIL '' m"
| "render (Log m) = m"
| "render (Logn m) = entry_text ''LOG  '' m"
| "render (Hex v) = ''0x'' @ hex_text v 15 False"

section \<open>Every call extends the history by its rendering\<close>

lemma ring_holds_putchar:
  assumes "ring_holds h s" and "Suc (length h) < 18446744073709551616"
  shows "ring_holds (h @ [c]) (ring_putchar c s)"
proof -
  let ?N = KLOG_RING_SIZE
  have N: "?N > 0" by (simp add: KLOG_RING_SIZE_def)
  have pos: "unat (klog_write_pos s) = length h"
    using assms by (simp add: ring_holds_def unat64_of_nat)
  have ring: "klog_ring (ring_putchar c s) (i mod ?N) = (h @ [c]) ! i"
    if i: "i < Suc (length h)" and near: "Suc (length h) \<le> i + ?N" for i
  proof (cases "i = length h")
    case True
    then show ?thesis by (simp add: ring_putchar_def pos)
  next
    case False
    with i have less: "i < length h" by simp
    have "i mod ?N \<noteq> length h mod ?N"
    proof
      assume "i mod ?N = length h mod ?N"
      then have "?N dvd length h - i" using less by (metis mod_eq_dvd_iff_nat nat_less_le)
      moreover have "0 < length h - i" "length h - i < ?N" using less near by auto
      ultimately show False using nat_dvd_not_less by blast
    qed
    with less near assms(1) have "klog_ring (ring_putchar c s) (i mod ?N) = klog_ring s (i mod ?N)"
      by (simp add: ring_putchar_def pos)
    with less near assms(1) show ?thesis by (simp add: ring_holds_def nth_append)
  qed
  have "klog_write_pos (ring_putchar c s) = of_nat (length (h @ [c]))"
    using assms by (simp add: ring_putchar_def ring_holds_def add.commute)
  with ring assms(2) show ?thesis by (simp add: ring_holds_def)
qed

lemma ring_holds_puts:
  assumes "ring_holds h s" and "length h + length cs < 18446744073709551616"
  shows "ring_holds (h @ cs) (ring_puts cs s)"
  using assms
proof (induction cs arbitrary: h s)
  case Nil
  then show ?case by simp
next
  case (Cons c cs)
  from Cons.prems have "ring_holds (h @ [c]) (ring_putchar c s)"
    by (simp add: ring_holds_putchar)
  from Cons.IH [OF this] Cons.prems(2) show ?case by simp
qed

text \<open>Writing one character at a time, in sequence, is writing the string.\<close>

lemma ring_puts_append: "ring_puts (xs @ ys) s = ring_puts ys (ring_puts xs s)"
  by (induction xs arbitrary: s) auto

lemma ring_write_entry_eq: "ring_write_entry tag msg s = ring_puts (entry_text tag msg) s"
  by (simp add: ring_write_entry_def entry_text_def ring_puts_append)

lemma hex_loop_ring:
  "hex_loop ring_putchar v k st (ring_puts xs s) =
     ring_puts (hex_loop (\<lambda>c cs. cs @ [c]) v k st xs) s"
proof (induction k arbitrary: st xs)
  case 0
  show ?case by (simp add: hex_loop_0 ring_puts_append)
next
  case (Suc k)
  let ?d = "unat (drop_bit (4 * Suc k) v AND 15)"
  show ?case
    using Suc [of True "xs @ [hex_chars ! ?d]"] Suc [of "False" xs]
    by (simp add: hex_loop_Suc ring_puts_append Let_def)
qed

text \<open>Output to the terminal and to COM1 leaves the ring alone.\<close>

definition same_ring :: "klog_state \<Rightarrow> klog_state \<Rightarrow> bool" where
  "same_ring s t \<longleftrightarrow> klog_ring s = klog_ring t \<and> klog_write_pos s = klog_write_pos t"

lemma same_ring_trans: "same_ring s t \<Longrightarrow> same_ring t u \<Longrightarrow> same_ring s u"
  by (simp add: same_ring_def)

lemma same_ring_refl [simp]: "same_ring s s"
  by (simp add: same_ring_def)

lemma ring_holds_same: "same_ring s t \<Longrightarrow> ring_holds h s \<longleftrightarrow> ring_holds h t"
  by (simp add: ring_holds_def same_ring_def)

lemma same_ring_tty [simp]: "same_ring s (tty c t) \<longleftrightarrow> same_ring s t"
  by (simp add: same_ring_def tty_def)

lemma same_ring_outb [simp]: "same_ring s (outb p c t) \<longleftrightarrow> same_ring s t"
  by (simp add: same_ring_def outb_def)

lemma same_ring_serial_init [simp]: "same_ring s (serial_init t) \<longleftrightarrow> same_ring s t"
  by (simp add: same_ring_def serial_init_def outb_def)

lemma same_ring_serial_putchar [simp]: "same_ring s (serial_putchar c t) \<longleftrightarrow> same_ring s t"
  by (simp add: serial_putchar_def)

lemma same_ring_serial_print_loop [simp]:
  "same_ring s (serial_print_loop cs t) \<longleftrightarrow> same_ring s t"
  by (induction cs arbitrary: t) auto

lemma same_ring_serial_print [simp]: "same_ring s (serial_print cs t) \<longleftrightarrow> same_ring s t"
  by (simp add: serial_print_def)

lemma same_ring_hex_loop [simp]:
  "same_ring s (hex_loop serial_putchar v k st t) \<longleftrightarrow> same_ring s t"
  by (induction k arbitrary: st t) (simp_all add: hex_loop_0 hex_loop_Suc Let_def)

lemma same_ring_output [simp]:
  "same_ring s (print_tag tag t) \<longleftrightarrow> same_ring s t"
  "same_ring s (print_line msg t) \<longleftrightarrow> same_ring s t"
  "same_ring s (alert_line colour tag msg t) \<longleftrightarrow> same_ring s t"
  "same_ring s (serial_hex v t) \<longleftrightarrow> same_ring s t"
  by (simp_all add: print_tag_def print_line_def alert_line_def serial_hex_def)

lemma klog_call_as_puts: "\<exists>t. same_ring s t \<and> klog_call e s = ring_puts (render e) t"
proof (cases e)
  case (Hex v)
  let ?t = "serial_hex v (tty (Tty_print_hex v) s)"
  have "klog_call e s = ring_puts (render e) ?t"
    using hex_loop_ring [of v 15 False "[]"]
    by (simp add: Hex klog_hex_def hex_text_def)
  then show ?thesis by (intro exI [of _ ?t]) simp
qed (auto simp: klog_init_msg_def klog_get_def klog_set_def klog_warn_def klog_error_def
    klog_fail_def klog_log_def klog_logn_def ring_write_entry_eq intro!: exI)

lemma ring_holds_initial: "ring_holds [] klog_initial"
  by (simp add: ring_holds_def klog_initial_def)

lemma ring_holds_call:
  assumes "ring_holds h s" and "length h + length (render e) < 18446744073709551616"
  shows "ring_holds (h @ render e) (klog_call e s)"
proof -
  obtain t where t: "same_ring s t" and e: "klog_call e s = ring_puts (render e) t"
    using klog_call_as_puts by blast
  from t assms(1) have "ring_holds h t" by (simp add: ring_holds_same)
  from ring_holds_puts [OF this assms(2)] show ?thesis by (simp add: e)
qed

lemma ring_holds_calls:
  assumes "ring_holds h s" and "length h + length (concat (map render es)) < 18446744073709551616"
  shows "ring_holds (h @ concat (map render es)) (fold klog_call es s)"
  using assms
proof (induction es arbitrary: h s)
  case Nil
  then show ?case by simp
next
  case (Cons e es)
  from Cons.prems have "ring_holds (h @ render e) (klog_call e s)"
    by (simp add: ring_holds_call)
  from Cons.IH [OF this] Cons.prems(2) show ?case by simp
qed

section \<open>Reading back\<close>

lemma klog_read_new_holds:
  assumes "ring_holds h s" and "p < length h" and "2 \<le> sz" and "sz < 2147483648"
  defines "p' \<equiv> max p (length h - KLOG_RING_SIZE)"
  defines "n \<equiv> min (length h - p') (nat (sz - 1))"
  shows "klog_read_new s (Some (of_nat p)) (Some b) sz =
    (int n, Some (of_nat (p' + n)), Some (take n (drop p' h) @ [CHR 0x00] @ drop (Suc n) b))"
proof -
  let ?N = KLOG_RING_SIZE
  have len: "length h < 18446744073709551616" and pos: "klog_write_pos s = of_nat (length h)"
    using assms(1) by (auto simp: ring_holds_def)
  have p'_lt: "p' < length h" using assms(2) by (auto simp: p'_def KLOG_RING_SIZE_def)
  have le: "\<not> klog_write_pos s \<le> of_nat p" using len assms(2) by (simp add: pos unat64)
  have avail: "klog_write_pos s - of_nat p = of_nat (length h - p)"
    using assms(2) by (simp add: pos)
  have unat_avail: "unat (klog_write_pos s - of_nat p) = length h - p"
    unfolding avail using len by (intro unat64_of_nat) simp
  have skip: "(if unat (klog_write_pos s - of_nat p) > ?N
       then (klog_write_pos s - of_nat ?N, of_nat ?N) else (of_nat p, klog_write_pos s - of_nat p))
     = (of_nat p' :: u64, of_nat (length h - p') :: u64)"
  proof (cases "length h - p > ?N")
    case True
    then have "p' = length h - ?N" "length h - p' = ?N" "?N \<le> length h"
      by (auto simp: p'_def)
    then show ?thesis using True unfolding unat_avail by (simp add: pos)
  next
    case False
    then have "p' = p" using assms(2) by (auto simp: p'_def)
    then show ?thesis using False unat_avail avail by simp
  qed
  have szw: "(of_int (sz - 1) :: u64) = of_nat (nat (sz - 1))" using assms(3) by simp
  have copy: "(if (of_nat (length h - p') :: u64) < of_int (sz - 1) then of_nat (length h - p')
      else of_int (sz - 1)) = (of_nat n :: u64)"
    using len assms(3,4) unfolding szw by (subst of_nat64_less_iff) (auto simp: n_def min_def)
  have n_lt: "n < 18446744073709551616" and np: "p' + n \<le> length h"
    using len p'_lt by (auto simp: n_def)
  have "klog_ring s (unat (of_nat p' + of_nat i :: u64) mod ?N) = take n (drop p' h) ! i"
    if "i < n" for i
  proof -
    have "unat (of_nat (p' + i) :: u64) = p' + i" using that np len by (intro unat64_of_nat) simp
    moreover have "length h \<le> (p' + i) + ?N" by (auto simp: p'_def)
    ultimately show ?thesis using assms(1) that np by (simp add: ring_holds_def)
  qed
  then have bytes: "map (\<lambda>i. klog_ring s (unat (of_nat p' + of_nat i :: u64) mod ?N)) [0..<n]
      = take n (drop p' h)"
    using np by (intro nth_equalityI) auto
  have n_int: "uint (of_nat n :: u64) = int n"
    using unat64_of_nat [OF n_lt] by (metis of_nat_unat)
  show ?thesis
    using assms(3) le skip copy bytes n_lt n_int
    by (simp add: klog_read_new_def Let_def unat64_of_nat)
qed

section \<open>Hexadecimal text\<close>

definition hex_digit_value :: "char \<Rightarrow> nat" where
  "hex_digit_value c = length (takeWhile (\<lambda>d. d \<noteq> c) hex_chars)"

fun hex_value :: "string \<Rightarrow> nat" where
  "hex_value [] = 0"
| "hex_value (c # cs) = hex_digit_value c * 16 ^ length cs + hex_value cs"

lemma hex_chars_values: "list_all (\<lambda>d. hex_digit_value (hex_chars ! d) = d) [0..<16]"
  by code_simp

lemma hex_chars_value: "d < 16 \<Longrightarrow> hex_digit_value (hex_chars ! d) = d"
  using hex_chars_values by (simp add: list_all_iff)

lemma hex_value_snoc: "hex_value (cs @ [c]) = 16 * hex_value cs + hex_digit_value c"
  by (induction cs) auto

lemma nibble: "unat (drop_bit (4 * k) (v :: u64) AND 15) = unat v div 16 ^ k mod 16"
proof -
  have "drop_bit (4 * k) v AND 15 = take_bit 4 (drop_bit (4 * k) v)"
    by (simp add: take_bit_eq_mask mask_eq_exp_minus_1)
  then have "unat (drop_bit (4 * k) v AND 15) = take_bit 4 (drop_bit (4 * k) (unat v))"
    by (simp only: unsigned_take_bit_eq unat_drop_bit_eq)
  then show ?thesis by (simp add: take_bit_eq_mod drop_bit_eq_div power_mult)
qed

lemma hex_loop_value:
  assumes "hex_value acc = unat v div 16 ^ Suc k" and "\<not> st \<Longrightarrow> acc = []"
  shows "hex_value (hex_loop (\<lambda>c cs. cs @ [c]) v k st acc) = unat v"
  using assms
proof (induction k arbitrary: acc st)
  case 0
  then show ?case
    using nibble [of 0 v] by (simp add: hex_loop_0 hex_value_snoc hex_chars_value)
next
  case (Suc k)
  let ?d = "unat (drop_bit (4 * Suc k) v AND 15)"
  have d: "?d = unat v div 16 ^ Suc k mod 16" by (rule nibble)
  have step: "16 * (unat v div 16 ^ Suc (Suc k)) + ?d = unat v div 16 ^ Suc k"
  proof -
    have "unat v div 16 ^ Suc (Suc k) = unat v div 16 ^ Suc k div 16"
      by (simp add: div_mult2_eq [symmetric] mult.commute)
    then show ?thesis unfolding d by (simp only: mult_div_mod_eq)
  qed
  show ?case
  proof (cases "?d \<noteq> 0 \<or> st")
    case True
    have "hex_value (acc @ [hex_chars ! ?d]) = unat v div 16 ^ Suc k"
      using Suc.prems(1) step d by (simp add: hex_value_snoc hex_chars_value)
    from Suc.IH [OF this, of True] True show ?thesis by (simp add: hex_loop_Suc Let_def)
  next
    case False
    then have "acc = []" "unat v div 16 ^ Suc k = 0" using Suc.prems step by auto
    with Suc.IH [of acc False] False show ?thesis by (simp add: hex_loop_Suc Let_def)
  qed
qed

lemma hex_loop_length:
  "length acc < length (hex_loop (\<lambda>c cs. cs @ [c]) v k st acc) \<and>
   length (hex_loop (\<lambda>c cs. cs @ [c]) v k st acc) \<le> Suc (k + length acc)"
proof (induction k arbitrary: acc st)
  case 0
  then show ?case by (simp add: hex_loop_0)
next
  case (Suc k)
  show ?case
    using Suc.IH [of "acc @ [hex_chars ! unat (drop_bit (4 * Suc k) v AND 15)]" True]
      Suc.IH [of acc False]
    by (auto simp: hex_loop_Suc Let_def)
qed

section \<open>Properties\<close>

text \<open>
  C5. After any sequence of log calls made since boot (fewer than \<open>2 ^ 64\<close> characters in all), a
  reader whose position lies \<open>p\<close> characters into the log gets, from one call of
  \<open>klog_read_new\<close> with a buffer of \<open>sz\<close> bytes, exactly the next unread characters of what was
  logged: it starts at \<open>p\<close>, or at the oldest character the ring still holds if it has fallen
  more than a ring behind, copies as many characters as exist and fit, terminates them and
  advances its position by that number.
\<close>

theorem klog_read_back:
  assumes "h = concat (map render es)" and "length h < 18446744073709551616"
    and "p < length h" and "2 \<le> sz" and "sz < 2147483648"
    and "p' = max p (length h - KLOG_RING_SIZE)" and "n = min (length h - p') (nat (sz - 1))"
  shows "klog_read_new (fold klog_call es klog_initial) (Some (of_nat p)) (Some b) sz =
    (int n, Some (of_nat (p' + n)), Some (take n (drop p' h) @ [CHR 0x00] @ drop (Suc n) b))"
proof -
  have "ring_holds h (fold klog_call es klog_initial)"
    using ring_holds_calls [OF ring_holds_initial, of es] assms(1,2) by simp
  from klog_read_new_holds [OF this assms(3-5)] show ?thesis by (simp add: assms(6,7))
qed

theorem klog_read_back_witness:
  "klog_read_new (fold klog_call [Warn ''x'', Log ''abc''] klog_initial) (Some (of_nat 8))
     (Some ''........'') 4 = (int 3, Some (of_nat (8 + 3)), Some (''x'' @ [CHR 0x0A] @ ''a'' @
       [CHR 0x00] @ ''....''))"
proof -
  let ?h = "''[WARN ] x'' @ [CHR 0x0A] @ ''abc''"
  have h: "?h = concat (map render [Warn ''x'', Log ''abc''])"
    by (simp add: entry_text_def)
  have len: "length ?h = 13" by simp
  have prems: "length ?h < 18446744073709551616" "(8::nat) < length ?h" "(2::int) \<le> 4"
      "(4::int) < 2147483648" "(8::nat) = max 8 (length ?h - KLOG_RING_SIZE)"
      "(3::nat) = min (length ?h - 8) (nat (4 - 1))"
    unfolding len by (simp_all add: KLOG_RING_SIZE_def)
  have bytes: "take 3 (drop 8 ?h) @ [CHR 0x00] @ drop (Suc 3) ''........'' =
      ''x'' @ [CHR 0x0A] @ ''a'' @ [CHR 0x00] @ ''....''"
    by simp
  from klog_read_back [OF h prems, of "''........''"] show ?thesis unfolding bytes .
qed

text \<open>
  Printing a 64-bit value with \<open>klog_hex\<close> extends the log by \<open>0x\<close> and between one and
  sixteen hexadecimal digits whose value is the printed number.
\<close>

theorem klog_hex_value:
  assumes "ring_holds h s" and "length h + 18 < 18446744073709551616"
  shows "\<exists>cs. ring_holds (h @ ''0x'' @ cs) (klog_hex v s) \<and> hex_value cs = unat v \<and>
    0 < length cs \<and> length cs \<le> 16"
proof -
  let ?cs = "hex_text v 15 False"
  have len: "length ?cs \<le> 16" "0 < length ?cs"
    using hex_loop_length [of "[]" v 15 False] by (simp_all add: hex_text_def)
  have "hex_value ?cs = unat v"
    using hex_loop_value [of "[]" v 15 False] unsigned_less [of v, where 'a = nat]
    by (simp add: hex_text_def)
  moreover have "ring_holds (h @ ''0x'' @ ?cs) (klog_hex v s)"
    using ring_holds_call [OF assms(1), of "Hex v"] assms(2) len by simp
  ultimately show ?thesis using len by blast
qed

theorem klog_hex_value_witness:
  "\<exists>cs. ring_holds ([] @ ''0x'' @ cs) (klog_hex 0xCAFE klog_initial) \<and>
    hex_value cs = unat (0xCAFE :: u64) \<and> 0 < length cs \<and> length cs \<le> 16"
  by (rule klog_hex_value [OF ring_holds_initial]) simp

end
