(* ===== verification/Allocator.thy ===== *)
theory Allocator
  imports Prelude "HOL-Library.Multiset"
begin

text \<open>
  The contract the kernel's allocators share: an allocation hands out something that is not
  live and makes it live, a failed allocation changes nothing that is live, and freeing takes
  exactly the freed item away. The clients' lemmas are proved once here, for any sequence of
  allocations and frees; the physical page allocator, the kernel heap, the pipe table, the
  process table and the segment handle table interpret the locales on their own operations.
\<close>

locale allocator =
  fixes inv :: "'s \<Rightarrow> bool"
    and live :: "'s \<Rightarrow> 'a set"
    and alloc :: "'r \<Rightarrow> 's \<Rightarrow> 'a option \<times> 's"
    and free :: "'a \<Rightarrow> 's \<Rightarrow> 's"
  assumes alloc_inv: "inv s \<Longrightarrow> inv (snd (alloc r s))"
    and alloc_fresh: "inv s \<Longrightarrow> alloc r s = (Some a, s') \<Longrightarrow> a \<notin> live s"
    and alloc_live: "inv s \<Longrightarrow> alloc r s = (Some a, s') \<Longrightarrow> live s' = insert a (live s)"
    and alloc_fail: "inv s \<Longrightarrow> alloc r s = (None, s') \<Longrightarrow> live s' = live s"
    and free_inv: "inv s \<Longrightarrow> a \<in> live s \<Longrightarrow> inv (free a s)"
    and free_live: "inv s \<Longrightarrow> a \<in> live s \<Longrightarrow> live (free a s) = live s - {a}"
begin

text \<open>A client issues requests and frees what it holds.\<close>

fun alloc_all :: "'r list \<Rightarrow> 's \<Rightarrow> 'a list \<times> 's" where
  "alloc_all [] s = ([], s)"
| "alloc_all (r # rs) s =
     (case alloc r s of
        (None, s') \<Rightarrow> alloc_all rs s'
      | (Some a, s') \<Rightarrow> (case alloc_all rs s' of (as, s'') \<Rightarrow> (a # as, s'')))"

fun free_all :: "'a list \<Rightarrow> 's \<Rightarrow> 's" where
  "free_all [] s = s"
| "free_all (a # as) s = free_all as (free a s)"

lemma alloc_inv': "inv s \<Longrightarrow> alloc r s = (x, s') \<Longrightarrow> inv s'"
  using alloc_inv [of s r] by simp

lemma alloc_all_spec:
  assumes "inv s" and "alloc_all rs s = (as, s')"
  shows "inv s' \<and> distinct as \<and> set as \<inter> live s = {} \<and> live s' = live s \<union> set as"
  using assms
proof (induction rs arbitrary: s as)
  case Nil
  then show ?case by simp
next
  case (Cons r rs)
  show ?case
  proof (cases "alloc r s")
    case (Pair x t)
    with Cons.prems(1) have t: "inv t" by (blast intro: alloc_inv')
    show ?thesis
    proof (cases x)
      case None
      with Pair Cons.prems have "alloc_all rs t = (as, s')" and "live t = live s"
        by (auto dest: alloc_fail)
      with Cons.IH [OF t] show ?thesis by simp
    next
      case (Some a)
      with Pair Cons.prems obtain bs where bs: "alloc_all rs t = (bs, s')" and as: "as = a # bs"
        by (auto split: prod.splits)
      from Pair Some Cons.prems(1) have "a \<notin> live s" "live t = insert a (live s)"
        by (auto dest: alloc_fresh alloc_live)
      with Cons.IH [OF t bs] as show ?thesis by auto
    qed
  qed
qed

lemma free_all_spec:
  assumes "inv s" and "distinct as" and "set as \<subseteq> live s"
  shows "inv (free_all as s) \<and> live (free_all as s) = live s - set as"
  using assms
proof (induction as arbitrary: s)
  case Nil
  then show ?case by simp
next
  case (Cons a as)
  then have "inv (free a s)" "live (free a s) = live s - {a}"
    by (simp_all add: free_inv free_live)
  with Cons.IH [of "free a s"] Cons.prems show ?case by auto
qed

text \<open>Freeing everything a client got gives the live set back: nothing leaks.\<close>

lemma no_leak:
  assumes "inv s" and "alloc_all rs s = (as, s')" and "mset as = mset bs"
  shows "inv (free_all bs s') \<and> live (free_all bs s') = live s"
proof -
  have sets: "set bs = set as" "distinct bs = distinct as"
    using assms(3) by (metis set_mset_mset, metis mset_eq_imp_distinct_iff)
  from alloc_all_spec [OF assms(1,2)] free_all_spec [of s' bs] sets show ?thesis by auto
qed

end

text \<open>An allocator that also tolerates frees of what is not live.\<close>

locale checked_allocator = allocator inv live alloc free
  for inv :: "'s \<Rightarrow> bool" and live :: "'s \<Rightarrow> 'a set"
    and alloc :: "'r \<Rightarrow> 's \<Rightarrow> 'a option \<times> 's" and free :: "'a \<Rightarrow> 's \<Rightarrow> 's" +
  assumes free_dead: "inv s \<Longrightarrow> a \<notin> live s \<Longrightarrow> inv (free a s) \<and> live (free a s) = live s"
begin

lemma free_any: "inv s \<Longrightarrow> inv (free a s) \<and> live (free a s) = live s - {a}"
  by (cases "a \<in> live s") (auto simp: free_dead free_inv free_live)

lemma double_free: "inv s \<Longrightarrow> live (free a (free a s)) = live (free a s)"
  using free_any [of s a] free_any [of "free a s" a] by auto

end

text \<open>An allocator over a fixed finite set of slots that fails only when every slot is live.\<close>

locale slot_allocator = allocator inv live alloc free
  for inv :: "'s \<Rightarrow> bool" and live :: "'s \<Rightarrow> 'a set"
    and alloc :: "'r \<Rightarrow> 's \<Rightarrow> 'a option \<times> 's" and free :: "'a \<Rightarrow> 's \<Rightarrow> 's" +
  fixes slots :: "'a set"
  assumes finite_slots: "finite slots"
    and live_slots: "inv s \<Longrightarrow> live s \<subseteq> slots"
    and fail_full: "inv s \<Longrightarrow> alloc r s = (None, s') \<Longrightarrow> live s = slots"
begin

lemma alloc_all_length:
  assumes "inv s" and "alloc_all rs s = (as, s')"
  shows "length as = min (length rs) (card slots - card (live s))"
  using assms
proof (induction rs arbitrary: s as)
  case Nil
  then show ?case by simp
next
  case (Cons r rs)
  obtain x t where al: "alloc r s = (x, t)" by (cases "alloc r s")
  with Cons.prems(1) have t: "inv t" by (blast intro: alloc_inv')
  show ?case
  proof (cases x)
    case None
    with al Cons.prems have full: "live s = slots" and rest: "alloc_all rs t = (as, s')"
      and "live t = live s"
      by (auto dest: fail_full alloc_fail)
    with Cons.IH [OF t rest] show ?thesis by simp
  next
    case (Some a)
    with al Cons.prems obtain bs where rest: "alloc_all rs t = (bs, s')" and as: "as = a # bs"
      by (auto split: prod.splits)
    have new: "a \<notin> live s" "live t = insert a (live s)"
      using al Some Cons.prems(1) by (auto dest: alloc_fresh alloc_live)
    have "insert a (live s) \<subseteq> slots" using live_slots [OF t] new(2) by simp
    then have "card (insert a (live s)) \<le> card slots" by (rule card_mono [OF finite_slots])
    moreover have "card (insert a (live s)) = Suc (card (live s))"
      using new(1) finite_subset [OF live_slots [OF Cons.prems(1)] finite_slots] by simp
    ultimately show ?thesis using Cons.IH [OF t rest] as new(2) by simp
  qed
qed

end

end
