(* ===== verification/PMM.thy ===== *)
theory PMM
  imports KLog Allocator
begin

text \<open>
  The physical memory manager: the frame bitmap of \<open>src/kernel/mm/pmm/bitmap.c\<close> and the state
  and operations of \<open>src/kernel/mm/pmm/pmm.c\<close>. Frame numbers are read as natural numbers
  (values of \<^verbatim>\<open>uint64_t\<close>); addresses and counters are 64-bit words. The bitmap is the array
  of bytes at \<open>bitmap_addr\<close>. The page allocation calls fall back to the kernel heap and are
  modelled with it in \<open>Phys_Alloc\<close>; their scan of the bitmap is here.
\<close>

section \<open>State\<close>

definition PAGE_SIZE :: nat where
  "PAGE_SIZE = 4096"

record pmm_state =
  bitmap_addr :: ptr
  bitmap :: "nat \<Rightarrow> u8"
  frames :: u64
  max_frames :: u64
  used_frames :: u64
  ready :: bool
  kernel_reserved_end :: u64
  pmm_log :: "klog_event list"

definition pmm_initial :: pmm_state where
  "pmm_initial = \<lparr>bitmap_addr = 0, bitmap = (\<lambda>_. 0), frames = 0, max_frames = 0, used_frames = 0,
     ready = False, kernel_reserved_end = 0, pmm_log = []\<rparr>"

definition pmm_klog :: "klog_event \<Rightarrow> pmm_state \<Rightarrow> pmm_state" where
  "pmm_klog e s = s\<lparr>pmm_log := pmm_log s @ [e]\<rparr>"

section \<open>Bitmap\<close>

definition bitmap_get_size :: "pmm_state \<Rightarrow> u64" where
  "bitmap_get_size s = (frames s + 7) div 8"

definition bitmap_get_total :: "pmm_state \<Rightarrow> u64" where
  "bitmap_get_total s = frames s"

definition bitmap_init :: "ptr \<Rightarrow> u64 \<Rightarrow> pmm_state \<Rightarrow> pmm_state" where
  "bitmap_init addr frame_count s =
     (let s = s\<lparr>bitmap_addr := addr, frames := frame_count\<rparr>;
          sz = (frames s + 7) div 8
      in for_range 0 (unat sz) (\<lambda>i s. s\<lparr>bitmap := (bitmap s)(i := 255)\<rparr>) s)"

definition bitmap_set :: "nat \<Rightarrow> pmm_state \<Rightarrow> pmm_state" where
  "bitmap_set frame s =
     (if frame \<ge> unat (frames s) then s
      else
        let byte = frame div 8; b = frame mod 8
        in s\<lparr>bitmap := (bitmap s)(byte := bitmap s byte OR push_bit b 1)\<rparr>)"

definition bitmap_clear :: "nat \<Rightarrow> pmm_state \<Rightarrow> pmm_state" where
  "bitmap_clear frame s =
     (if frame \<ge> unat (frames s) then s
      else
        let byte = frame div 8; b = frame mod 8
        in s\<lparr>bitmap := (bitmap s)(byte := bitmap s byte AND NOT (push_bit b 1))\<rparr>)"

definition bitmap_test :: "pmm_state \<Rightarrow> nat \<Rightarrow> bool" where
  "bitmap_test s frame =
     (if frame \<ge> unat (frames s) then True
      else
        let byte = frame div 8; b = frame mod 8
        in bitmap s byte AND push_bit b 1 \<noteq> 0)"

section \<open>Frames\<close>

text \<open>The steps of the loops: a frame that changes state is counted.\<close>

definition mark_used :: "nat \<Rightarrow> pmm_state \<Rightarrow> pmm_state" where
  "mark_used i s =
     (if \<not> bitmap_test s i
      then let s = bitmap_set i s in s\<lparr>used_frames := used_frames s + 1\<rparr> else s)"

definition mark_free :: "nat \<Rightarrow> pmm_state \<Rightarrow> pmm_state" where
  "mark_free i s =
     (if bitmap_test s i
      then let s = bitmap_clear i s in s\<lparr>used_frames := used_frames s - 1\<rparr> else s)"

text \<open>
  \<open>pmm_init\<close>: \<open>total_memory\<close> is what \<open>multiboot_get_total_memory\<close> returns and
  \<open>end_addr\<close> the address of the linker symbol \<^verbatim>\<open>end\<close>.
\<close>

definition pmm_init :: "u64 \<Rightarrow> ptr \<Rightarrow> ptr \<Rightarrow> pmm_state \<Rightarrow> pmm_state" where
  "pmm_init total_memory end_addr mb_addr s =
     (let s = pmm_klog (Init_msg ''Starting PMM initialization'') s in
      if mb_addr = 0 \<or> mb_addr < 0x1000
      then pmm_klog (Fail ''Invalid multiboot info address'') s
      else
        let max_addr = total_memory;
            (max_addr, s) =
              (if max_addr = 0
               then (0x8000000, pmm_klog (Warn ''No usable memory regions, using default 128MB'') s)
               else (max_addr, s));
            max_addr = (if max_addr > 0x1000000000 then 0x1000000000 else max_addr);
            s = s\<lparr>max_frames := max_addr div of_nat PAGE_SIZE\<rparr>;
            s = s\<lparr>used_frames := max_frames s\<rparr>;
            bitmap_area = ALIGN_UP end_addr 16;
            s = bitmap_init bitmap_area (max_frames s) s;
            bitmap_size = (max_frames s + 7) div 8;
            kernel_end = bitmap_area + bitmap_size;
            kernel_end_frame = (kernel_end + of_nat PAGE_SIZE - 1) div of_nat PAGE_SIZE;
            s = s\<lparr>kernel_reserved_end := kernel_end_frame * of_nat PAGE_SIZE\<rparr>;
            s = for_range (unat kernel_end_frame) (unat (max_frames s)) mark_free s;
            s = for_range 0 (unat kernel_end_frame) mark_used s;
            s = pmm_klog (Set_msg ''Kernel memory reserved'') s;
            s = s\<lparr>ready := True\<rparr>
        in pmm_klog (Init_msg ''PMM online'') s)"

text \<open>The scan of \<open>pmm_alloc_page\<close> and \<open>pmm_alloc_page_low\<close> below a frame limit.\<close>

definition pmm_scan :: "nat \<Rightarrow> pmm_state \<Rightarrow> u64 option \<times> pmm_state" where
  "pmm_scan limit s =
     (case find_from (\<lambda>i. \<not> bitmap_test s i) 0 limit of
        Some i \<Rightarrow>
          (Some (of_nat i * of_nat PAGE_SIZE),
           (let s = bitmap_set i s in s\<lparr>used_frames := used_frames s + 1\<rparr>))
      | None \<Rightarrow> (None, s))"

definition pmm_free_page :: "u64 \<Rightarrow> pmm_state \<Rightarrow> pmm_state" where
  "pmm_free_page phys_addr s =
     (if \<not> ready s then pmm_klog (Warn ''Free called while PMM offline'') s
      else
        let frame = phys_addr div of_nat PAGE_SIZE in
        if frame \<ge> max_frames s then pmm_klog (Warn ''Attempted to free invalid frame'') s
        else if \<not> bitmap_test s (unat frame) then pmm_klog (Warn ''Double free detected'') s
        else
          let s = bitmap_clear (unat frame) s
          in s\<lparr>used_frames := used_frames s - 1\<rparr>)"

definition pmm_kernel_reserved_end :: "pmm_state \<Rightarrow> u64" where
  "pmm_kernel_reserved_end s = kernel_reserved_end s"

definition pmm_reserve_range :: "u64 \<Rightarrow> u64 \<Rightarrow> pmm_state \<Rightarrow> pmm_state" where
  "pmm_reserve_range phys_start sz s =
     (if \<not> ready s \<or> sz = 0 then s
      else
        let start = phys_start div of_nat PAGE_SIZE;
            end_frame = (phys_start + sz + of_nat PAGE_SIZE - 1) div of_nat PAGE_SIZE
        in for_range (unat start) (unat end_frame) mark_used s)"

definition pmm_total :: "pmm_state \<Rightarrow> u64" where
  "pmm_total s = max_frames s * of_nat PAGE_SIZE"

definition pmm_free :: "pmm_state \<Rightarrow> u64" where
  "pmm_free s = (max_frames s - used_frames s) * of_nat PAGE_SIZE"

definition pmm_ready :: "pmm_state \<Rightarrow> bool" where
  "pmm_ready s = ready s"

section \<open>What the bitmap operations do to the frames\<close>

lemma bitmap_test_bit:
  "bitmap_test s f \<longleftrightarrow> unat (frames s) \<le> f \<or> bit (bitmap s (f div 8)) (f mod 8)"
  by (simp add: bitmap_test_def Let_def bit_iff_and_push_bit_not_eq_0)

lemma frame_eq_iff: "(f :: nat) = g \<longleftrightarrow> f div 8 = g div 8 \<and> f mod 8 = g mod 8"
  by (metis div_mult_mod_eq)

lemma frames_bitmap_set [simp]: "frames (bitmap_set f s) = frames s"
  by (simp add: bitmap_set_def Let_def)

lemma frames_bitmap_clear [simp]: "frames (bitmap_clear f s) = frames s"
  by (simp add: bitmap_clear_def Let_def)

lemma counter_bitmap [simp]:
  "used_frames (bitmap_set f s) = used_frames s" "used_frames (bitmap_clear f s) = used_frames s"
  "max_frames (bitmap_set f s) = max_frames s" "max_frames (bitmap_clear f s) = max_frames s"
  by (simp_all add: bitmap_set_def bitmap_clear_def Let_def)

lemma bitmap_test_set: "bitmap_test (bitmap_set f s) g \<longleftrightarrow> g = f \<or> bitmap_test s g"
  by (cases "g = f")
     (use frame_eq_iff [of g f] in \<open>auto simp: bitmap_test_bit bitmap_set_def Let_def bit_simps\<close>)

lemma bitmap_test_clear:
  "bitmap_test (bitmap_clear f s) g \<longleftrightarrow> bitmap_test s g \<and> (g = f \<longrightarrow> unat (frames s) \<le> f)"
  by (cases "g = f")
     (use frame_eq_iff [of g f] in \<open>auto simp: bitmap_test_bit bitmap_clear_def Let_def bit_simps\<close>)

text \<open>The fields the bitmap operations leave alone.\<close>

definition same_but_bitmap :: "pmm_state \<Rightarrow> pmm_state \<Rightarrow> bool" where
  "same_but_bitmap s t \<longleftrightarrow> frames s = frames t \<and> max_frames s = max_frames t \<and>
     ready s = ready t \<and> kernel_reserved_end s = kernel_reserved_end t \<and>
     bitmap_addr s = bitmap_addr t \<and> pmm_log s = pmm_log t"

lemma same_but_bitmap_mark:
  "same_but_bitmap (mark_used f s) s" "same_but_bitmap (mark_free f s) s"
  by (simp_all add: same_but_bitmap_def mark_used_def mark_free_def bitmap_set_def bitmap_clear_def
      Let_def)

lemma same_but_bitmap_loops:
  "same_but_bitmap (for_range a b mark_used s) s" "same_but_bitmap (for_range a b mark_free s) s"
proof -
  show "same_but_bitmap (for_range a b mark_used s) s"
    by (rule for_range_inv [where P = "\<lambda>t. same_but_bitmap t s"])
       (use same_but_bitmap_mark(1) in \<open>auto simp: same_but_bitmap_def\<close>)
  show "same_but_bitmap (for_range a b mark_free s) s"
    by (rule for_range_inv [where P = "\<lambda>t. same_but_bitmap t s"])
       (use same_but_bitmap_mark(2) in \<open>auto simp: same_but_bitmap_def\<close>)
qed

lemma bitmap_test_counter [simp]:
  "bitmap_test (s\<lparr>used_frames := u\<rparr>) = bitmap_test s"
  "bitmap_test (s\<lparr>kernel_reserved_end := e\<rparr>) = bitmap_test s"
  "bitmap_test (s\<lparr>ready := r\<rparr>) = bitmap_test s"
  "bitmap_test (pmm_klog e' s) = bitmap_test s"
  by (auto simp: bitmap_test_def pmm_klog_def fun_eq_iff)

section \<open>Frame accounting\<close>

text \<open>
  The frames in use, and the invariant that ties the counter to them: the bitmap covers exactly
  the managed frames and \<open>used_frames\<close> is the number of marked ones.
\<close>

definition used :: "pmm_state \<Rightarrow> nat set" where
  "used s = {f. f < unat (max_frames s) \<and> bitmap_test s f}"

definition pmm_inv :: "pmm_state \<Rightarrow> bool" where
  "pmm_inv s \<longleftrightarrow> frames s = max_frames s \<and> unat (max_frames s) \<le> 16777216 \<and>
     used_frames s = of_nat (card (used s))"

lemma finite_used [simp]: "finite (used s)"
  by (simp add: used_def)

lemma card_used_le: "card (used s) \<le> unat (max_frames s)"
  using card_mono [of "{..<unat (max_frames s)}" "used s"] by (auto simp: used_def)

text \<open>Marking one frame, with the counter stepped when the frame changes state.\<close>

lemma used_set_frame:
  assumes "pmm_inv s" and "f < unat (max_frames s)" and "f \<notin> used s"
  shows "used ((bitmap_set f s)\<lparr>used_frames := used_frames s + 1\<rparr>) = insert f (used s)"
    and "pmm_inv ((bitmap_set f s)\<lparr>used_frames := used_frames s + 1\<rparr>)"
proof -
  let ?t = "(bitmap_set f s)\<lparr>used_frames := used_frames s + 1\<rparr>"
  have m: "max_frames ?t = max_frames s" by (simp add: bitmap_set_def Let_def)
  show u: "used ?t = insert f (used s)"
    unfolding used_def m using assms(2) by (auto simp: bitmap_test_set)
  show "pmm_inv ?t"
    using assms unfolding pmm_inv_def m u by (simp add: add.commute)
qed

lemma used_clear_frame:
  assumes "pmm_inv s" and "f \<in> used s"
  shows "used ((bitmap_clear f s)\<lparr>used_frames := used_frames s - 1\<rparr>) = used s - {f}"
    and "pmm_inv ((bitmap_clear f s)\<lparr>used_frames := used_frames s - 1\<rparr>)"
proof -
  let ?t = "(bitmap_clear f s)\<lparr>used_frames := used_frames s - 1\<rparr>"
  have m: "max_frames ?t = max_frames s" by (simp add: bitmap_clear_def Let_def)
  have fr: "frames s = max_frames s" using assms(1) by (simp add: pmm_inv_def)
  show u: "used ?t = used s - {f}"
    unfolding used_def m by (auto simp: bitmap_test_clear fr)
  have "card (used s) = Suc (card (used s - {f}))"
    using assms(2) by (metis card_Suc_Diff1 finite_used)
  then show "pmm_inv ?t"
    using assms unfolding pmm_inv_def m u by simp
qed

lemma mark_used_correct:
  assumes "pmm_inv s"
  shows "used (mark_used f s) = used s \<union> ({f} \<inter> {..<unat (max_frames s)})"
    and "pmm_inv (mark_used f s)"
proof -
  have fr: "frames s = max_frames s" using assms by (simp add: pmm_inv_def)
  have "used (mark_used f s) = used s \<union> ({f} \<inter> {..<unat (max_frames s)}) \<and> pmm_inv (mark_used f s)"
  proof (cases "bitmap_test s f")
    case True
    then show ?thesis using assms by (auto simp: mark_used_def used_def)
  next
    case False
    then have "f < unat (max_frames s)" "f \<notin> used s"
      by (auto simp: bitmap_test_bit fr used_def)
    moreover have "mark_used f s = (bitmap_set f s)\<lparr>used_frames := used_frames s + 1\<rparr>"
      using False by (simp add: mark_used_def Let_def)
    ultimately show ?thesis using used_set_frame [OF assms, of f] by auto
  qed
  then show "used (mark_used f s) = used s \<union> ({f} \<inter> {..<unat (max_frames s)})"
    and "pmm_inv (mark_used f s)" by auto
qed

lemma mark_free_correct:
  assumes "pmm_inv s" and "f < unat (max_frames s)"
  shows "used (mark_free f s) = used s - {f}"
    and "pmm_inv (mark_free f s)"
proof -
  have "used (mark_free f s) = used s - {f} \<and> pmm_inv (mark_free f s)"
  proof (cases "f \<in> used s")
    case True
    then have "mark_free f s = (bitmap_clear f s)\<lparr>used_frames := used_frames s - 1\<rparr>"
      by (simp add: mark_free_def Let_def used_def)
    with used_clear_frame [OF assms(1) True] show ?thesis by simp
  next
    case False
    with assms(2) have "mark_free f s = s" by (simp add: mark_free_def used_def)
    with False assms(1) show ?thesis by simp
  qed
  then show "used (mark_free f s) = used s - {f}" and "pmm_inv (mark_free f s)" by auto
qed

lemma max_frames_loops [simp]:
  "max_frames (for_range a b mark_used s) = max_frames s"
  "max_frames (for_range a b mark_free s) = max_frames s"
  using same_but_bitmap_loops by (auto simp: same_but_bitmap_def)

lemma mark_used_loop:
  assumes "pmm_inv s"
  shows "used (for_range a b mark_used s) = used s \<union> ({a..<b} \<inter> {..<unat (max_frames s)})
    \<and> pmm_inv (for_range a b mark_used s)"
proof (cases "a \<le> b")
  case True
  let ?P = "\<lambda>i t. max_frames t = max_frames s \<and>
    used t = used s \<union> ({a..<i} \<inter> {..<unat (max_frames s)}) \<and> pmm_inv t"
  have "?P b (for_range a b mark_used s)"
  proof (rule for_range_rule [OF True])
    show "?P a s" using assms by simp
    show "?P (Suc i) (mark_used i t)" if "a \<le> i" "?P i t" for i t
      using that mark_used_correct [of t i] same_but_bitmap_mark(1) [of i t]
      by (auto simp: same_but_bitmap_def atLeastLessThanSuc)
  qed
  then show ?thesis by simp
next
  case False
  with assms show ?thesis by simp
qed

lemma mark_free_loop:
  assumes "pmm_inv s" and "b \<le> unat (max_frames s)"
  shows "used (for_range a b mark_free s) = used s - {a..<b} \<and> pmm_inv (for_range a b mark_free s)"
proof (cases "a \<le> b")
  case True
  let ?P = "\<lambda>i t. max_frames t = max_frames s \<and> used t = used s - {a..<i} \<and> pmm_inv t"
  have "?P b (for_range a b mark_free s)"
  proof (rule for_range_rule [OF True])
    show "?P a s" using assms by simp
    show "?P (Suc i) (mark_free i t)" if "a \<le> i" "i < b" "?P i t" for i t
      using that mark_free_correct [of t i] same_but_bitmap_mark(2) [of i t] assms(2)
      by (auto simp: same_but_bitmap_def atLeastLessThanSuc)
  qed
  then show ?thesis by simp
next
  case False
  with assms show ?thesis by simp
qed

section \<open>Initialisation\<close>

lemma bitmap_init_loop:
  "for_range 0 n (\<lambda>i s. s\<lparr>bitmap := (bitmap s)(i := 255)\<rparr>) s =
     s\<lparr>bitmap := (\<lambda>i. if i < n then 255 else bitmap s i)\<rparr>"
proof (induction n)
  case 0
  show ?case by simp
next
  case (Suc n)
  then show ?case by (simp add: for_range_Suc fun_eq_iff less_Suc_eq)
qed

lemma bit_255: "n < 8 \<Longrightarrow> bit (255 :: u8) n"
proof -
  have "(mask 8 :: u8) = 255" by (simp add: mask_eq_exp_minus_1)
  moreover assume "n < 8"
  then have "bit (mask 8 :: u8) n" by (simp add: bit_mask_iff)
  ultimately show ?thesis by metis
qed

lemma bitmap_init_test:
  assumes "unat cnt \<le> 16777216"
  shows "bitmap_test (bitmap_init addr cnt s) f"
proof -
  have "unat ((cnt + 7) div 8) = (unat cnt + 7) div 8"
    using unat64_plus_const [of cnt 7] assms by (simp add: unat_div)
  moreover have "f < unat cnt \<Longrightarrow> f div 8 < (unat cnt + 7) div 8" by linarith
  ultimately show ?thesis
    using bit_255 [of "f mod 8"]
    by (auto simp: bitmap_test_bit bitmap_init_def Let_def bitmap_init_loop)
qed

text \<open>What the memory size reported at boot becomes: a default, a clamp, and whole frames.\<close>

definition managed_frames :: "u64 \<Rightarrow> nat" where
  "managed_frames total_memory =
     (if total_memory = 0 then 32768 else min (unat total_memory) 0x1000000000 div 4096)"

definition kernel_frames :: "u64 \<Rightarrow> ptr \<Rightarrow> nat" where
  "kernel_frames total_memory end_addr =
     ((unat end_addr + 15) div 16 * 16 + (managed_frames total_memory + 7) div 8 + 4095) div 4096"

lemma managed_frames_le: "managed_frames m \<le> 16777216"
  by (auto simp: managed_frames_def min_def)

lemma max_frames_init:
  "unat ((if (if m = 0 then 0x8000000 else m) > (0x1000000000 :: u64) then 0x1000000000
     else (if m = 0 then 0x8000000 else m)) div 4096) = managed_frames m"
  by (auto simp: managed_frames_def unat_div min_def word_less_nat_alt)

lemma used_pmm_klog [simp]: "used (pmm_klog e s) = used s" "pmm_inv (pmm_klog e s) = pmm_inv s"
  "ready (pmm_klog e s) = ready s" "max_frames (pmm_klog e s) = max_frames s"
  "kernel_reserved_end (pmm_klog e s) = kernel_reserved_end s"
  by (auto simp: used_def pmm_inv_def) (auto simp: pmm_klog_def)

lemma used_updates [simp]:
  "used (s\<lparr>ready := r\<rparr>) = used s" "used (s\<lparr>kernel_reserved_end := e\<rparr>) = used s"
  "pmm_inv (s\<lparr>ready := r\<rparr>) = pmm_inv s" "pmm_inv (s\<lparr>kernel_reserved_end := e\<rparr>) = pmm_inv s"
  by (auto simp: used_def pmm_inv_def)

text \<open>The state right after the bitmap is filled: every managed frame is marked used.\<close>

lemma bitmap_init_full:
  assumes "unat m \<le> 16777216" and "max_frames s = m" and "used_frames s = m"
  shows "used (bitmap_init addr m s) = {..<unat m}" and "pmm_inv (bitmap_init addr m s)"
    and "max_frames (bitmap_init addr m s) = m"
proof -
  show m: "max_frames (bitmap_init addr m s) = m"
    using assms(2) by (simp add: bitmap_init_def Let_def bitmap_init_loop)
  show u: "used (bitmap_init addr m s) = {..<unat m}"
    unfolding used_def m using bitmap_init_test [OF assms(1)] by auto
  show "pmm_inv (bitmap_init addr m s)"
    unfolding pmm_inv_def u m using assms
    by (simp add: bitmap_init_def Let_def bitmap_init_loop)
qed

lemma reserve_kernel:
  assumes "used s = {..<unat m}" and "pmm_inv s" and "max_frames s = m"
    and "t = for_range 0 k mark_used (for_range k (unat m) mark_free s)"
  shows "used t = {..<min k (unat m)} \<and> pmm_inv t \<and> max_frames t = m"
proof -
  let ?s1 = "for_range k (unat m) mark_free s"
  have s1: "used ?s1 = {..<unat m} - {k..<unat m}" "pmm_inv ?s1" "max_frames ?s1 = m"
    using mark_free_loop [OF assms(2), of "unat m" k] assms(1,3) by auto
  have "used t = used ?s1 \<union> ({0..<k} \<inter> {..<unat m}) \<and> pmm_inv t"
    using mark_used_loop [OF s1(2), of 0 k] s1(3) by (simp add: assms(4))
  moreover have "({..<unat m} - {k..<unat m}) \<union> ({0..<k} \<inter> {..<unat m}) = {..<min k (unat m)}"
    by auto
  moreover have "max_frames t = m" by (simp add: assms(3,4))
  ultimately show ?thesis by (simp add: s1(1))
qed

lemma kernel_end_frame_init:
  assumes "unat end_addr < 9223372036854775808" and "unat m = managed_frames mem"
  shows "unat ((ALIGN_UP end_addr 16 + (m + 7) div 8 + 4096 - 1) div 4096) = kernel_frames mem end_addr"
proof -
  let ?A = "(unat end_addr + 15) div 16 * 16" and ?B = "(managed_frames mem + 7) div 8"
  have small: "?A \<le> unat end_addr + 15" "?B \<le> 16777216"
    using managed_frames_le [of mem] by linarith+
  have bm: "unat ((m + 7) div 8) = ?B"
    using unat64_plus_const [of m 7] assms(2) managed_frames_le [of mem] by (simp add: unat_div)
  have al: "unat (ALIGN_UP end_addr 16) = ?A"
    using assms(1) by (intro unat_align_up) simp
  have sum: "unat (ALIGN_UP end_addr 16 + (m + 7) div 8) = ?A + ?B"
    using unat64_plus [of "ALIGN_UP end_addr 16" "(m + 7) div 8"] assms(1) small
    unfolding al bm by simp
  have "unat (ALIGN_UP end_addr 16 + (m + 7) div 8 + 4095) = ?A + ?B + 4095"
    using unat64_plus_const [of "ALIGN_UP end_addr 16 + (m + 7) div 8" 4095] assms(1) small
    unfolding sum by simp
  moreover have "ALIGN_UP end_addr 16 + (m + 7) div 8 + 4096 - 1
      = ALIGN_UP end_addr 16 + (m + 7) div 8 + 4095" by simp
  ultimately show ?thesis by (simp only: unat_div kernel_frames_def) simp
qed

text \<open>\<open>pmm_init\<close> on a valid multiboot address, with the boot-time values named.\<close>

lemma pmm_init_shape:
  assumes "0x1000 \<le> mb_addr" and "unat end_addr < 9223372036854775808"
    and "t = pmm_init mem end_addr mb_addr s"
  shows "ready t \<and> pmm_inv t \<and> unat (max_frames t) = managed_frames mem \<and>
    used t = {..<min (kernel_frames mem end_addr) (managed_frames mem)} \<and>
    kernel_reserved_end t = of_nat (kernel_frames mem end_addr * PAGE_SIZE)"
proof -
  have mb: "\<not> (mb_addr = 0 \<or> mb_addr < 0x1000)" using assms(1) by auto
  define a :: u64 where "a = (if mem = 0 then 0x8000000 else mem)"
  define m :: u64 where "m = (if a > 0x1000000000 then 0x1000000000 else a) div 4096"
  have m: "unat m = managed_frames mem" unfolding m_def a_def by (rule max_frames_init)
  define s0 where "s0 = (let s = pmm_klog (Init_msg ''Starting PMM initialization'') s;
      s = (if mem = 0 then pmm_klog (Warn ''No usable memory regions, using default 128MB'') s
           else s) in s\<lparr>max_frames := m, used_frames := m\<rparr>)"
  let ?k = "(ALIGN_UP end_addr 16 + (m + 7) div 8 + 4096 - 1) div 4096"
  let ?b = "(bitmap_init (ALIGN_UP end_addr 16) m s0)\<lparr>kernel_reserved_end := ?k * 4096\<rparr>"
  let ?r = "for_range 0 (unat ?k) mark_used (for_range (unat ?k) (unat m) mark_free ?b)"
  have s0: "max_frames s0 = m" "used_frames s0 = m" by (simp_all add: s0_def Let_def)
  note full = bitmap_init_full [OF _ s0, of "ALIGN_UP end_addr 16"]
  have k: "unat ?k = kernel_frames mem end_addr"
    by (rule kernel_end_frame_init [OF assms(2) m])
  have t: "t = pmm_klog (Init_msg ''PMM online'')
      ((pmm_klog (Set_msg ''Kernel memory reserved'') ?r)\<lparr>ready := True\<rparr>)"
    using mb full(3) m managed_frames_le [of mem]
    by (simp add: assms(3) pmm_init_def Let_def PAGE_SIZE_def s0_def m_def a_def split: if_splits)
  have r: "used ?r = {..<min (unat ?k) (unat m)} \<and> pmm_inv ?r \<and> max_frames ?r = m"
    using full m managed_frames_le [of mem] by (intro reserve_kernel) simp_all
  have e: "kernel_reserved_end ?r = ?k * 4096"
    using same_but_bitmap_loops(1) [of 0 "unat ?k" "for_range (unat ?k) (unat m) mark_free ?b"]
      same_but_bitmap_loops(2) [of "unat ?k" "unat m" ?b]
    by (simp add: same_but_bitmap_def)
  have "?k * 4096 = of_nat (kernel_frames mem end_addr * PAGE_SIZE)"
    unfolding k [symmetric] by (simp add: PAGE_SIZE_def)
  with r e m k show ?thesis unfolding t by simp
qed

section \<open>Allocation, release and reservation\<close>

text \<open>The address of a frame.\<close>

definition page_addr :: "nat \<Rightarrow> u64" where
  "page_addr f = of_nat (f * PAGE_SIZE)"

lemma unat_page_addr: "f < 16777216 \<Longrightarrow> unat (page_addr f) = f * PAGE_SIZE"
  by (simp add: page_addr_def PAGE_SIZE_def unat64_of_nat del: of_nat_mult)

lemma page_addr_div: "f < 16777216 \<Longrightarrow> unat (page_addr f) div PAGE_SIZE = f"
  by (simp add: unat_page_addr PAGE_SIZE_def)

lemma page_addr_eq_iff: "f < 16777216 \<Longrightarrow> g < 16777216 \<Longrightarrow> page_addr f = page_addr g \<longleftrightarrow> f = g"
  by (metis page_addr_div)

lemma pmm_scan_Some:
  assumes "pmm_inv s" and "limit \<le> unat (max_frames s)" and "pmm_scan limit s = (Some a, t)"
  obtains f where "f < limit" "a = page_addr f" "f \<notin> used s" "{..<f} \<subseteq> used s"
    "used t = insert f (used s)" "pmm_inv t" "same_but_bitmap t s"
proof -
  from assms(3) obtain f where f: "find_from (\<lambda>i. \<not> bitmap_test s i) 0 limit = Some f"
    and a: "a = of_nat f * of_nat PAGE_SIZE"
    and t: "t = (bitmap_set f s)\<lparr>used_frames := used_frames s + 1\<rparr>"
    by (auto simp: pmm_scan_def Let_def split: option.splits)
  from f have less: "f < limit" and free: "\<not> bitmap_test s f" and least: "\<forall>g < f. bitmap_test s g"
    by (auto simp: find_from_Some_iff)
  have "f < unat (max_frames s)" "f \<notin> used s" "{..<f} \<subseteq> used s"
    using less free least assms(2) by (auto simp: used_def)
  moreover note used_set_frame [OF assms(1) this(1,2)]
  moreover have "same_but_bitmap t s"
    by (simp add: t same_but_bitmap_def bitmap_set_def Let_def)
  ultimately show ?thesis using that [of f] less a t by (simp add: page_addr_def)
qed

lemma pmm_scan_None:
  assumes "limit \<le> unat (max_frames s)" and "pmm_scan limit s = (None, t)"
  shows "t = s \<and> {..<limit} \<subseteq> used s"
  using assms by (auto simp: pmm_scan_def find_from_None_iff used_def split: option.splits)

lemma pmm_free_page_correct:
  assumes "pmm_inv s" and "ready s"
  shows "used (pmm_free_page addr s) = used s - {unat addr div PAGE_SIZE}"
    and "pmm_inv (pmm_free_page addr s)"
proof -
  let ?f = "unat addr div PAGE_SIZE"
  have f: "unat (addr div of_nat PAGE_SIZE) = ?f" by (simp add: unat_div PAGE_SIZE_def)
  have "used (pmm_free_page addr s) = used s - {?f} \<and> pmm_inv (pmm_free_page addr s)"
  proof (cases "?f \<in> used s")
    case True
    then have "pmm_free_page addr s = (bitmap_clear ?f s)\<lparr>used_frames := used_frames s - 1\<rparr>"
      using assms(2) f by (simp add: pmm_free_page_def Let_def used_def word_le_nat_alt)
    with used_clear_frame [OF assms(1) True] show ?thesis by simp
  next
    case False
    then have "\<exists>e. pmm_free_page addr s = pmm_klog e s"
      using assms(2) f by (auto simp: pmm_free_page_def Let_def used_def word_le_nat_alt)
    with False assms(1) show ?thesis by auto
  qed
  then show "used (pmm_free_page addr s) = used s - {?f}" "pmm_inv (pmm_free_page addr s)" by auto
qed

lemma ready_pmm_free_page [simp]: "ready (pmm_free_page addr s) = ready s"
  by (simp add: pmm_free_page_def Let_def bitmap_clear_def pmm_klog_def)

lemma pmm_reserve_range_correct:
  assumes "pmm_inv s" and "ready s" and "sz \<noteq> 0"
    and "unat addr + unat sz + 4095 < 18446744073709551616"
  shows "used (pmm_reserve_range addr sz s) = used s \<union>
      {f. f < unat (max_frames s) \<and> unat addr < (f + 1) * PAGE_SIZE \<and> f * PAGE_SIZE < unat addr + unat sz}"
    and "pmm_inv (pmm_reserve_range addr sz s)"
proof -
  let ?a = "unat addr div 4096" and ?b = "(unat addr + unat sz + 4095) div 4096"
  have sum: "unat (addr + sz + 4095) = unat addr + unat sz + 4095"
    using unat64_plus [of addr sz] unat64_plus_const [of "addr + sz" 4095] assms(4) by simp
  have "addr + sz + 4096 - 1 = addr + sz + 4095" by simp
  then have b: "unat ((addr + sz + 4096 - 1) div 4096) = ?b"
    by (simp only: unat_div sum) simp
  have eq: "pmm_reserve_range addr sz s = for_range ?a ?b mark_used s"
    using assms(2,3) b by (simp add: pmm_reserve_range_def Let_def PAGE_SIZE_def unat_div)
  have "{?a..<?b} \<inter> {..<unat (max_frames s)} = {f. f < unat (max_frames s) \<and>
      unat addr < (f + 1) * PAGE_SIZE \<and> f * PAGE_SIZE < unat addr + unat sz}"
    unfolding PAGE_SIZE_def by (auto simp: less_eq_div_iff_mult_less_eq; linarith?)
  then show "used (pmm_reserve_range addr sz s) = used s \<union>
      {f. f < unat (max_frames s) \<and> unat addr < (f + 1) * PAGE_SIZE \<and> f * PAGE_SIZE < unat addr + unat sz}"
    and "pmm_inv (pmm_reserve_range addr sz s)"
    using mark_used_loop [OF assms(1), of ?a ?b] by (simp_all add: eq)
qed

lemma pmm_free_bytes:
  assumes "pmm_inv s"
  shows "unat (pmm_free s) = (unat (max_frames s) - card (used s)) * PAGE_SIZE"
proof -
  have c: "card (used s) \<le> unat (max_frames s)" "unat (max_frames s) \<le> 16777216"
    using assms card_used_le by (auto simp: pmm_inv_def)
  have u: "unat (used_frames s) = card (used s)"
    using assms c by (simp add: pmm_inv_def unat64_of_nat)
  have "unat (max_frames s - used_frames s) = unat (max_frames s) - card (used s)"
    using c u by (subst unat64_minus) (simp_all add: word_le_nat_alt)
  with c show ?thesis
    using unat64_mult [of "max_frames s - used_frames s" 4096]
    by (simp add: pmm_free_def PAGE_SIZE_def)
qed

text \<open>The pages in use, by address.\<close>

definition live_pages :: "pmm_state \<Rightarrow> u64 set" where
  "live_pages s = page_addr ` used s"

lemma used_bound: "pmm_inv s \<Longrightarrow> f \<in> used s \<Longrightarrow> f < 16777216"
  by (auto simp: pmm_inv_def used_def)

interpretation pages: allocator "\<lambda>s. pmm_inv s \<and> ready s" live_pages
  "\<lambda>(_ :: unit) s. pmm_scan (unat (max_frames s)) s" pmm_free_page
proof
  fix s r and a :: u64 and s' :: pmm_state
  assume inv: "pmm_inv s \<and> ready s"
  let ?scan = "pmm_scan (unat (max_frames s)) s"
  show "pmm_inv (snd ?scan) \<and> ready (snd ?scan)"
  proof (cases ?scan)
    case (Pair x t)
    show ?thesis
    proof (cases x)
      case None
      with Pair have "t = s" using pmm_scan_None by blast
      with Pair inv show ?thesis by simp
    next
      case (Some b)
      with Pair inv show ?thesis
        by (auto elim!: pmm_scan_Some [rotated 2] simp: same_but_bitmap_def)
    qed
  qed
  show "a \<notin> live_pages s" if "?scan = (Some a, s')"
  proof -
    from inv that obtain f where "f < unat (max_frames s)" "a = page_addr f" "f \<notin> used s"
      by (auto elim!: pmm_scan_Some [rotated 2])
    moreover from this(1) inv have "f < 16777216" by (simp add: pmm_inv_def)
    ultimately show ?thesis
      using inv by (auto simp: live_pages_def page_addr_eq_iff dest: used_bound)
  qed
  show "live_pages s' = insert a (live_pages s)" if "?scan = (Some a, s')"
    using inv that by (auto elim!: pmm_scan_Some [rotated 2] simp: live_pages_def)
  show "live_pages s' = live_pages s" if "?scan = (None, s')"
    using that pmm_scan_None by blast
  show "pmm_inv (pmm_free_page a s) \<and> ready (pmm_free_page a s)" if "a \<in> live_pages s"
    using inv pmm_free_page_correct by simp
  show "live_pages (pmm_free_page a s) = live_pages s - {a}" if "a \<in> live_pages s"
  proof -
    from that obtain f where f: "f \<in> used s" "a = page_addr f" by (auto simp: live_pages_def)
    then have div: "unat a div PAGE_SIZE = f" using inv used_bound [of s f] by (simp add: page_addr_div)
    have "inj_on page_addr (used s)"
      using inv by (meson inj_onI page_addr_eq_iff used_bound)
    with f have "page_addr ` (used s - {f}) = page_addr ` used s - {a}"
      by (simp add: inj_on_image_set_diff [where C = "used s"])
    then show ?thesis using inv by (simp add: live_pages_def pmm_free_page_correct div)
  qed
qed

end
