(* ===== verification/KHeap.thy ===== *)
theory KHeap
  imports PMM
begin

text \<open>
  The kernel heap of \<open>src/kernel/mm/kheap.c\<close>: boundary-tagged blocks in a doubly linked list,
  first-fit allocation with splitting, release with coalescing on both sides. Memory is an
  explicit store: \<open>hdr\<close> gives the \<^verbatim>\<open>struct heap_block\<close> read at an address and \<open>ftr\<close> the
  \<^verbatim>\<open>struct heap_footer\<close>, so the pointer updates of the code are updates of these maps. The
  main results refine the pointer code to operations on the list of (size, free) pairs of the
  blocks and show that the heap is always tiled by its blocks, that live payloads never overlap
  and that no two neighbouring blocks are free.
\<close>

section \<open>State\<close>

definition KHEAP_MAGIC :: u32 where "KHEAP_MAGIC = 0xDEADBEEF"
definition KHEAP_MAX_ALLOC :: u64 where "KHEAP_MAX_ALLOC = 64 * 1024"
definition KHEAP_ALIGN :: u64 where "KHEAP_ALIGN = 8"
definition KHEAP_START :: u64 where "KHEAP_START = 0x400000"
definition KHEAP_INITIAL_SIZE :: u64 where "KHEAP_INITIAL_SIZE = 0x2000000"

record heap_block =
  hb_magic :: u32
  hb_free :: u32
  hb_size :: u64
  hb_next :: ptr
  hb_prev :: ptr

record heap_footer =
  hf_size :: u64
  hf_magic :: u32

text \<open>\<^verbatim>\<open>sizeof(struct heap_block)\<close> and \<^verbatim>\<open>sizeof(struct heap_footer)\<close> (padded to 8 bytes).\<close>

definition HDR_SIZE :: u64 where "HDR_SIZE = 32"
definition FTR_SIZE :: u64 where "FTR_SIZE = 16"

record kheap_state =
  heap_start :: ptr
  heap_base :: u64
  heap_limit :: u64
  hdr :: "ptr \<Rightarrow> heap_block"
  ftr :: "ptr \<Rightarrow> heap_footer"

definition set_hdr :: "ptr \<Rightarrow> (heap_block \<Rightarrow> heap_block) \<Rightarrow> kheap_state \<Rightarrow> kheap_state" where
  "set_hdr p f h = h\<lparr>hdr := (hdr h)(p := f (hdr h p))\<rparr>"

definition set_ftr :: "ptr \<Rightarrow> heap_footer \<Rightarrow> kheap_state \<Rightarrow> kheap_state" where
  "set_ftr p v h = h\<lparr>ftr := (ftr h)(p := v)\<rparr>"

section \<open>Operations\<close>

definition get_footer :: "kheap_state \<Rightarrow> ptr \<Rightarrow> ptr" where
  "get_footer h block = block + hb_size (hdr h block) - FTR_SIZE"

definition get_header_from_footer :: "kheap_state \<Rightarrow> ptr \<Rightarrow> ptr" where
  "get_header_from_footer h footer = footer + FTR_SIZE - hf_size (ftr h footer)"

definition block_valid :: "kheap_state \<Rightarrow> ptr \<Rightarrow> bool" where
  "block_valid h block =
     (if block = 0 then False
      else if hb_magic (hdr h block) \<noteq> KHEAP_MAGIC then False
      else
        let footer = ftr h (get_footer h block) in
        if hf_magic footer \<noteq> KHEAP_MAGIC then False
        else if hf_size footer \<noteq> hb_size (hdr h block) then False
        else True)"

definition write_footer :: "ptr \<Rightarrow> u64 \<Rightarrow> kheap_state \<Rightarrow> kheap_state" where
  "write_footer block sz h =
     set_ftr (get_footer h block) \<lparr>hf_size = sz, hf_magic = KHEAP_MAGIC\<rparr> h"

text \<open>The page-aligned bounds of the heap region.\<close>

definition kheap_bounds :: "pmm_state \<Rightarrow> u64 \<times> u64" where
  "kheap_bounds pmm =
     (let raw_start = KHEAP_START;
          raw_size = KHEAP_INITIAL_SIZE;
          reserved_end = pmm_kernel_reserved_end pmm;
          raw_start = (if reserved_end > raw_start then reserved_end else raw_start);
          phys_total = pmm_total pmm;
          raw_size =
            (if phys_total \<noteq> 0 \<and> raw_start + raw_size > phys_total
             then if phys_total > raw_start then phys_total - raw_start else 0
             else raw_size)
      in (ALIGN_UP raw_start 4096, ALIGN_DOWN (raw_start + raw_size) 4096))"

definition kheap_init :: "pmm_state \<Rightarrow> kheap_state \<Rightarrow> pmm_state \<times> kheap_state" where
  "kheap_init pmm h =
     (let h = h\<lparr>heap_base := fst (kheap_bounds pmm), heap_limit := snd (kheap_bounds pmm)\<rparr>;
          min_block = HDR_SIZE + FTR_SIZE;
          total_size = heap_limit h - heap_base h
      in if total_size < min_block then (pmm, h)
         else
           let h = h\<lparr>heap_start := heap_base h\<rparr>;
               h = set_hdr (heap_start h)
                     (\<lambda>_. \<lparr>hb_magic = KHEAP_MAGIC, hb_free = 1, hb_size = total_size,
                           hb_next = 0, hb_prev = 0\<rparr>) h;
               h = write_footer (heap_start h) total_size h
           in (pmm_reserve_range (heap_base h) total_size pmm, h))"

text \<open>The split of a free block and the hand-out of its first part.\<close>

definition split_block :: "ptr \<Rightarrow> u64 \<Rightarrow> u64 \<Rightarrow> kheap_state \<Rightarrow> kheap_state" where
  "split_block block needed remaining h =
     (let new_block = block + needed;
          h = set_hdr new_block
                (\<lambda>_. \<lparr>hb_magic = KHEAP_MAGIC, hb_free = 1, hb_size = remaining,
                      hb_next = hb_next (hdr h block), hb_prev = block\<rparr>) h;
          h = write_footer new_block remaining h;
          h = set_hdr block (\<lambda>b. b\<lparr>hb_size := needed, hb_next := new_block\<rparr>) h;
          h = write_footer block needed h;
          nx = hb_next (hdr h new_block)
      in if nx \<noteq> 0 then set_hdr nx (\<lambda>b. b\<lparr>hb_prev := new_block\<rparr>) h else h)"

definition take_block :: "ptr \<Rightarrow> u64 \<Rightarrow> kheap_state \<Rightarrow> kheap_state" where
  "take_block block needed h =
     (let remaining = hb_size (hdr h block) - needed;
          min_split = HDR_SIZE + KHEAP_ALIGN + FTR_SIZE;
          h = (if remaining \<ge> min_split then split_block block needed remaining h else h)
      in set_hdr block (\<lambda>b. b\<lparr>hb_free := 0\<rparr>) h)"

partial_function (option) kmalloc_loop ::
  "kheap_state \<Rightarrow> ptr \<Rightarrow> u64 \<Rightarrow> (ptr \<times> kheap_state) option" where
  "kmalloc_loop h block needed =
     (if block = 0 then Some (0, h)
      else if \<not> block_valid h block then Some (0, h)
      else if hb_free (hdr h block) \<noteq> 0 \<and> hb_size (hdr h block) \<ge> needed
      then Some (block + HDR_SIZE, take_block block needed h)
      else kmalloc_loop h (hb_next (hdr h block)) needed)"

definition kmalloc :: "u64 \<Rightarrow> kheap_state \<Rightarrow> (ptr \<times> kheap_state) option" where
  "kmalloc sz h =
     (if heap_start h = 0 \<or> sz = 0 then Some (0, h)
      else if sz > KHEAP_MAX_ALLOC then Some (0, h)
      else
        let payload = ALIGN_UP sz KHEAP_ALIGN;
            needed = HDR_SIZE + payload + FTR_SIZE
        in kmalloc_loop h (heap_start h) needed)"

text \<open>Absorbing the right neighbour of a block.\<close>

definition merge_next :: "ptr \<Rightarrow> ptr \<Rightarrow> kheap_state \<Rightarrow> kheap_state" where
  "merge_next block nx h =
     (let h = set_hdr block (\<lambda>b. b\<lparr>hb_size := hb_size b + hb_size (hdr h nx),
                                   hb_next := hb_next (hdr h nx)\<rparr>) h;
          nn = hb_next (hdr h block);
          h = (if nn \<noteq> 0 then set_hdr nn (\<lambda>b. b\<lparr>hb_prev := block\<rparr>) h else h)
      in write_footer block (hb_size (hdr h block)) h)"

definition kfree :: "ptr \<Rightarrow> kheap_state \<Rightarrow> kheap_state" where
  "kfree p h =
     (if p = 0 \<or> heap_start h = 0 then h
      else
        let block = p - HDR_SIZE in
        if \<not> block_valid h block then h
        else if hb_free (hdr h block) \<noteq> 0 then h
        else
          let h = set_hdr block (\<lambda>b. b\<lparr>hb_free := 1\<rparr>) h;
              nx = hb_next (hdr h block);
              h = (if nx \<noteq> 0 \<and> block_valid h nx \<and> hb_free (hdr h nx) \<noteq> 0
                   then merge_next block nx h else h);
              pv = hb_prev (hdr h block)
          in if pv \<noteq> 0 \<and> block_valid h pv \<and> hb_free (hdr h pv) \<noteq> 0
             then merge_next pv block h else h)"

partial_function (option) kheap_sum_loop ::
  "bool \<Rightarrow> kheap_state \<Rightarrow> ptr \<Rightarrow> u64 \<Rightarrow> u64 option" where
  "kheap_sum_loop want_free h block acc =
     (if block \<noteq> 0 \<and> block_valid h block
      then kheap_sum_loop want_free h (hb_next (hdr h block))
             (if (hb_free (hdr h block) \<noteq> 0) = want_free then acc + hb_size (hdr h block) else acc)
      else Some acc)"

definition kheap_get_used :: "kheap_state \<Rightarrow> u64 option" where
  "kheap_get_used h = (if heap_start h = 0 then Some 0 else kheap_sum_loop False h (heap_start h) 0)"

definition kheap_get_free :: "kheap_state \<Rightarrow> u64 option" where
  "kheap_get_free h = (if heap_start h = 0 then Some 0 else kheap_sum_loop True h (heap_start h) 0)"

function kheap_validate_loop :: "kheap_state \<Rightarrow> ptr \<Rightarrow> nat \<Rightarrow> bool" where
  "kheap_validate_loop h block cnt =
     (if block = 0 then True
      else if \<not> block_valid h block then False
      else if block < heap_base h \<or> block \<ge> heap_limit h then False
      else if cnt + 1 > 100000 then False
      else kheap_validate_loop h (hb_next (hdr h block)) (cnt + 1))"
  by pat_completeness auto
termination
  by (relation "measure (\<lambda>(h, block, cnt). 100000 - cnt)") auto

definition kheap_validate :: "kheap_state \<Rightarrow> bool" where
  "kheap_validate h = (if heap_start h = 0 then False else kheap_validate_loop h (heap_start h) 0)"

declare kheap_validate_loop.simps [simp del]

section \<open>The list of blocks\<close>

text \<open>
  \<open>seg h a pv bs nx\<close>: from address \<open>a\<close> on, the store holds consecutive blocks with the sizes
  and free flags \<open>bs\<close>; the first block's back pointer is \<open>pv\<close> and the last block's forward
  pointer is \<open>nx\<close>.
\<close>

type_synonym blocks = "(nat \<times> bool) list"

definition adr :: "nat \<Rightarrow> ptr" where
  "adr a = of_nat a"

lemma adr_eq_iff: "a < 18446744073709551616 \<Longrightarrow> b < 18446744073709551616 \<Longrightarrow> adr a = adr b \<longleftrightarrow> a = b"
  by (simp add: adr_def of_nat64_eq_iff)

lemma adr_eq_0_iff: "a < 18446744073709551616 \<Longrightarrow> adr a = 0 \<longleftrightarrow> a = 0"
  by (simp add: adr_def of_nat64_eq_0_iff)

lemma adr_unat [simp]: "adr (unat p) = p"
  by (simp add: adr_def)

lemma unat_adr: "a < 18446744073709551616 \<Longrightarrow> unat (adr a) = a"
  by (simp add: adr_def unat64_of_nat)

lemma adr_add: "adr a + of_nat n = adr (a + n)"
  by (simp add: adr_def)

lemma adr_sub: "n \<le> a \<Longrightarrow> adr a - of_nat n = adr (a - n)"
  by (simp add: adr_def)

definition tot :: "blocks \<Rightarrow> nat" where
  "tot bs = sum_list (map fst bs)"

definition header_of :: "nat \<Rightarrow> bool \<Rightarrow> ptr \<Rightarrow> ptr \<Rightarrow> heap_block" where
  "header_of sz fr nx pv =
     \<lparr>hb_magic = KHEAP_MAGIC, hb_free = (if fr then 1 else 0), hb_size = of_nat sz,
      hb_next = nx, hb_prev = pv\<rparr>"

definition footer_of :: "nat \<Rightarrow> heap_footer" where
  "footer_of sz = \<lparr>hf_size = of_nat sz, hf_magic = KHEAP_MAGIC\<rparr>"

fun seg :: "kheap_state \<Rightarrow> nat \<Rightarrow> ptr \<Rightarrow> blocks \<Rightarrow> ptr \<Rightarrow> bool" where
  "seg h a pv [] nx \<longleftrightarrow> True"
| "seg h a pv ((sz, fr) # bs) nx \<longleftrightarrow>
     hdr h (adr a) = header_of sz fr (if bs = [] then nx else adr (a + sz)) pv \<and>
     ftr h (adr (a + sz - 16)) = footer_of sz \<and> 48 \<le> sz \<and> 8 dvd sz \<and>
     seg h (a + sz) (adr a) bs nx"

definition kheap_rel :: "kheap_state \<Rightarrow> blocks \<Rightarrow> bool" where
  "kheap_rel h bs \<longleftrightarrow> bs \<noteq> [] \<and> heap_start h = heap_base h \<and> heap_base h \<noteq> 0 \<and>
     8 dvd unat (heap_base h) \<and> unat (heap_limit h) = unat (heap_base h) + tot bs \<and>
     seg h (unat (heap_base h)) 0 bs 0"

lemma tot_simps [simp]:
  "tot [] = 0" "tot (b # bs) = fst b + tot bs" "tot (xs @ ys) = tot xs + tot ys"
  by (simp_all add: tot_def)

text \<open>The address of the last block of a list that starts at \<open>a\<close>, or \<open>pv\<close> for no block.\<close>

definition last_addr :: "nat \<Rightarrow> ptr \<Rightarrow> blocks \<Rightarrow> ptr" where
  "last_addr a pv xs = (if xs = [] then pv else adr (a + tot (butlast xs)))"

lemma last_addr_simps [simp]:
  "last_addr a pv [] = pv"
  "last_addr a pv (b # xs) = last_addr (a + fst b) (adr a) xs"
  "last_addr a pv (xs @ [b]) = adr (a + tot xs)"
  by (simp_all add: last_addr_def add.assoc)

lemma seg_append:
  "seg h a pv (xs @ ys) nx \<longleftrightarrow>
     seg h a pv xs (if ys = [] then nx else adr (a + tot xs)) \<and>
     seg h (a + tot xs) (last_addr a pv xs) ys nx"
  by (induction xs arbitrary: a pv) (auto simp: add.assoc)

lemma seg_sizes: "seg h a pv bs nx \<Longrightarrow> (sz, fr) \<in> set bs \<Longrightarrow> 48 \<le> sz \<and> 8 dvd sz"
  by (induction bs arbitrary: a pv) auto

lemma seg_tot: "seg h a pv bs nx \<Longrightarrow> bs \<noteq> [] \<Longrightarrow> 48 \<le> tot bs"
  by (cases bs) auto

lemma seg_dvd: "seg h a pv bs nx \<Longrightarrow> 8 dvd tot bs"
  by (induction bs arbitrary: a pv) auto

text \<open>Two stores agree on a range of addresses.\<close>

definition agree :: "nat \<Rightarrow> nat \<Rightarrow> kheap_state \<Rightarrow> kheap_state \<Rightarrow> bool" where
  "agree a b h h' \<longleftrightarrow> (\<forall>x. a \<le> x \<and> x < b \<longrightarrow>
     hdr h' (adr x) = hdr h (adr x) \<and> ftr h' (adr x) = ftr h (adr x))"

lemma agree_refl [simp]: "agree a b h h"
  by (simp add: agree_def)

lemma agree_trans: "agree a b h h' \<Longrightarrow> agree a b h' h'' \<Longrightarrow> agree a b h h''"
  by (simp add: agree_def)

lemma agree_mono: "agree a b h h' \<Longrightarrow> a \<le> a' \<Longrightarrow> b' \<le> b \<Longrightarrow> agree a' b' h h'"
  by (auto simp: agree_def)

lemma seg_agree: "seg h a pv bs nx \<Longrightarrow> agree a (a + tot bs) h h' \<Longrightarrow> seg h' a pv bs nx"
proof (induction bs arbitrary: a pv)
  case Nil
  then show ?case by simp
next
  case (Cons b bs)
  obtain sz fr where b: "b = (sz, fr)" by (cases b)
  from Cons.prems b have sz: "48 \<le> sz" by simp
  have "agree (a + sz) (a + sz + tot bs) h h'"
    using Cons.prems(2) b by (auto elim: agree_mono)
  moreover have "hdr h' (adr a) = hdr h (adr a)"
      "ftr h' (adr (a + sz - 16)) = ftr h (adr (a + sz - 16))"
  proof -
    have "a < a + tot (b # bs)" "a \<le> a + sz - 16" "a + sz - 16 < a + tot (b # bs)"
      using b sz by simp_all
    then show "hdr h' (adr a) = hdr h (adr a)"
      "ftr h' (adr (a + sz - 16)) = ftr h (adr (a + sz - 16))"
      using Cons.prems(2) unfolding agree_def by blast+
  qed
  ultimately show ?case using Cons b by simp
qed

lemma agree_set_hdr:
  assumes "b \<le> 18446744073709551616" and "x < 18446744073709551616" and "x < a \<or> b \<le> x"
  shows "agree a b h (set_hdr (adr x) f h)"
  using assms by (auto simp: agree_def set_hdr_def adr_eq_iff)

lemma agree_set_ftr:
  assumes "b \<le> 18446744073709551616" and "x < 18446744073709551616" and "x < a \<or> b \<le> x"
  shows "agree a b h (set_ftr (adr x) v h)"
  using assms by (auto simp: agree_def set_ftr_def adr_eq_iff)

lemma hdr_set_hdr [simp]: "hdr (set_hdr p f h) q = (if q = p then f (hdr h p) else hdr h q)"
  and ftr_set_hdr [simp]: "ftr (set_hdr p f h) = ftr h"
  and hdr_set_ftr [simp]: "hdr (set_ftr p v h) = hdr h"
  and ftr_set_ftr [simp]: "ftr (set_ftr p v h) q = (if q = p then v else ftr h q)"
  by (simp_all add: set_hdr_def set_ftr_def)

definition same_bounds :: "kheap_state \<Rightarrow> kheap_state \<Rightarrow> bool" where
  "same_bounds h h' \<longleftrightarrow> heap_start h' = heap_start h \<and> heap_base h' = heap_base h \<and>
     heap_limit h' = heap_limit h"

lemma same_bounds_simps [simp]:
  "same_bounds h h" "same_bounds h (set_hdr p f h') = same_bounds h h'"
  "same_bounds h (set_ftr p v h') = same_bounds h h'"
  "same_bounds h (write_footer p z h') = same_bounds h h'"
  by (simp_all add: same_bounds_def set_hdr_def set_ftr_def write_footer_def)

lemma footer_addr:
  "hb_size (hdr h (adr a)) = of_nat sz \<Longrightarrow> 16 \<le> sz \<Longrightarrow> get_footer h (adr a) = adr (a + sz - 16)"
  using adr_add [of a sz] adr_sub [of 16 "a + sz"] by (simp add: get_footer_def FTR_SIZE_def)

text \<open>Setting the back pointer of the first block.\<close>

lemma seg_set_prev:
  assumes "seg h a pv bs nx" and "bs \<noteq> []" and "a + tot bs \<le> 18446744073709551616"
  shows "seg (set_hdr (adr a) (\<lambda>b. b\<lparr>hb_prev := pv'\<rparr>) h) a pv' bs nx"
proof -
  obtain sz fr ys where bs: "bs = (sz, fr) # ys" using assms(2) by (cases bs) auto
  let ?h = "set_hdr (adr a) (\<lambda>b. b\<lparr>hb_prev := pv'\<rparr>) h"
  from assms(1) bs have sz: "48 \<le> sz" and rest: "seg h (a + sz) (adr a) ys nx" by auto
  have "seg ?h (a + sz) (adr a) ys nx"
    using assms(3) bs sz by (intro seg_agree [OF rest] agree_set_hdr) auto
  with assms(1) bs show ?thesis by (simp add: header_of_def)
qed

section \<open>Splitting\<close>

text \<open>What the list of blocks becomes when its first block is handed out.\<close>

definition carve :: "nat \<Rightarrow> nat \<Rightarrow> blocks \<Rightarrow> blocks" where
  "carve n sz ys = (if n + 56 \<le> sz then (n, False) # (sz - n, True) # ys else (sz, False) # ys)"

lemma tot_carve [simp]: "tot (carve n sz ys) = sz + tot ys"
  by (simp add: carve_def)

lemma split_block_seg:
  assumes "seg h a pv ((sz, True) # ys) 0" and "0 < a" and "a + sz + tot ys < 18446744073709551616"
    and "48 \<le> n" and "8 dvd n" and "n + 56 \<le> sz"
    and "h' = split_block (adr a) (of_nat n) (of_nat (sz - n)) h"
  shows "seg h' a pv ((n, True) # (sz - n, True) # ys) 0" and "agree 0 a h h'" and "same_bounds h h'"
proof -
  let ?D = "if ys = [] then 0 else adr (a + sz)"
  from assms(1) have hd: "hdr h (adr a) = header_of sz True ?D pv"
    and ft: "ftr h (adr (a + sz - 16)) = footer_of sz" and dvd: "8 dvd sz"
    and rest: "seg h (a + sz) (adr a) ys 0" by auto
  have lt: "a < 18446744073709551616" "a + n < 18446744073709551616" "a + sz < 18446744073709551616"
    "a + n - 16 < 18446744073709551616" "a + sz - 16 < 18446744073709551616"
    using assms(3,6) by auto
  have ne: "adr a \<noteq> adr (a + n)" "adr (a + n) \<noteq> adr (a + sz)" "adr a \<noteq> adr (a + sz)"
      "adr (a + sz) \<noteq> 0" "adr (a + n - 16) \<noteq> adr (a + sz - 16)"
    using lt assms(2,4,6) by (simp_all add: adr_eq_iff adr_eq_0_iff)
  define h1 where "h1 = set_hdr (adr (a + n)) (\<lambda>_. header_of (sz - n) True ?D (adr a)) h"
  define h2 where "h2 = set_ftr (adr (a + sz - 16)) (footer_of (sz - n)) h1"
  define h3 where "h3 = set_hdr (adr a) (\<lambda>b. b\<lparr>hb_size := of_nat n, hb_next := adr (a + n)\<rparr>) h2"
  define h4 where "h4 = set_ftr (adr (a + n - 16)) (footer_of n) h3"
  have foot2: "get_footer h1 (adr (a + n)) = adr (a + sz - 16)"
    using assms(6) footer_addr [of h1 "a + n" "sz - n"] by (simp add: h1_def header_of_def)
  have foot4: "get_footer h3 (adr a) = adr (a + n - 16)"
    using assms(4) footer_addr [of h3 a n] by (simp add: h3_def)
  have hdr4: "hdr h4 (adr (a + n)) = header_of (sz - n) True ?D (adr a)"
      "hdr h4 (adr a) = header_of n True (adr (a + n)) pv"
    using ne hd by (simp_all add: h4_def h3_def h2_def h1_def header_of_def)
  have h': "h' = (if ys = [] then h4 else set_hdr (adr (a + sz)) (\<lambda>b. b\<lparr>hb_prev := adr (a + n)\<rparr>) h4)"
  proof -
    have nx: "hb_next (hdr h (adr a)) = ?D" using hd by (simp add: header_of_def)
    have "h' = (let nx = hb_next (hdr h4 (adr (a + n))) in
        if nx \<noteq> 0 then set_hdr nx (\<lambda>b. b\<lparr>hb_prev := adr (a + n)\<rparr>) h4 else h4)"
      unfolding assms(7) split_block_def adr_add Let_def write_footer_def nx
      using foot2 foot4
      by (simp add: h4_def h3_def h2_def h1_def header_of_def footer_of_def)
    then show ?thesis using ne by (simp add: hdr4 header_of_def Let_def)
  qed
  have agr: "agree (a + sz) (a + sz + tot ys) h h4" "agree 0 a h h4"
    unfolding h4_def h3_def h2_def h1_def using lt assms(3,4,6)
    by (auto intro!: agree_trans [OF _ agree_set_ftr] agree_trans [OF _ agree_set_hdr] agree_set_hdr)
  have rest4: "seg h4 (a + sz) (adr a) ys 0" by (rule seg_agree [OF rest agr(1)])
  show "agree 0 a h h'"
    unfolding h' using agr(2) lt by (auto intro!: agree_trans [OF _ agree_set_hdr])
  show "same_bounds h h'"
    unfolding h' h4_def h3_def h2_def h1_def by simp
  have rest': "seg h' (a + sz) (adr (a + n)) ys 0"
    unfolding h' using seg_set_prev [OF rest4] assms(3) by auto
  have "ftr h' = ftr h4" unfolding h' by simp
  moreover have "ftr h4 (adr (a + n - 16)) = footer_of n"
    "ftr h4 (adr (a + sz - 16)) = footer_of (sz - n)"
    using ne by (simp_all add: h4_def h3_def h2_def)
  moreover have "hdr h' (adr a) = header_of n True (adr (a + n)) pv"
      "hdr h' (adr (a + n)) = header_of (sz - n) True ?D (adr a)"
    unfolding h' using ne hdr4 by auto
  ultimately show "seg h' a pv ((n, True) # (sz - n, True) # ys) 0"
    using rest' assms(4-6) dvd by (simp add: dvd_diff_nat)
qed

text \<open>Changing only the free flag of the first block.\<close>

lemma seg_set_free:
  assumes "seg h a pv ((sz, fr) # ys) nx" and "a + sz + tot ys < 18446744073709551616"
    and "h' = set_hdr (adr a) (\<lambda>b. b\<lparr>hb_free := (if fr' then 1 else 0)\<rparr>) h"
  shows "seg h' a pv ((sz, fr') # ys) nx" and "agree 0 a h h'" and "same_bounds h h'"
proof -
  from assms(1) have rest: "seg h (a + sz) (adr a) ys nx" and sz: "48 \<le> sz" by auto
  have "seg h' (a + sz) (adr a) ys nx"
    using assms(2) sz unfolding assms(3) by (intro seg_agree [OF rest] agree_set_hdr) auto
  with assms(1) show "seg h' a pv ((sz, fr') # ys) nx"
    by (simp add: assms(3) header_of_def)
  show "agree 0 a h h'" using assms(2) unfolding assms(3) by (intro agree_set_hdr) auto
  show "same_bounds h h'" by (simp add: assms(3))
qed

lemma take_block_seg:
  assumes "seg h a pv ((sz, True) # ys) 0" and "0 < a" and "a + sz + tot ys < 18446744073709551616"
    and "48 \<le> n" and "8 dvd n" and "n \<le> sz" and "h' = take_block (adr a) (of_nat n) h"
  shows "seg h' a pv (carve n sz ys) 0" and "agree 0 a h h'" and "same_bounds h h'"
proof -
  have size: "hb_size (hdr h (adr a)) = of_nat sz" using assms(1) by (simp add: header_of_def)
  have rem: "hb_size (hdr h (adr a)) - of_nat n = of_nat (sz - n)"
    unfolding size using assms(6) by simp
  have cmp: "(HDR_SIZE + KHEAP_ALIGN + FTR_SIZE \<le> (of_nat (sz - n) :: u64)) \<longleftrightarrow> n + 56 \<le> sz"
    using assms(3,6) of_nat64_le_iff [of 56 "sz - n"]
    by (auto simp: HDR_SIZE_def KHEAP_ALIGN_def FTR_SIZE_def)
  have h': "h' = set_hdr (adr a) (\<lambda>b. b\<lparr>hb_free := 0\<rparr>)
      (if n + 56 \<le> sz then split_block (adr a) (of_nat n) (of_nat (sz - n)) h else h)"
    unfolding assms(7) take_block_def Let_def rem cmp by simp
  have "seg h' a pv (carve n sz ys) 0 \<and> agree 0 a h h' \<and> same_bounds h h'"
  proof (cases "n + 56 \<le> sz")
    case True
    define h1 where "h1 = split_block (adr a) (of_nat n) (of_nat (sz - n)) h"
    note s = split_block_seg [OF assms(1-5) True h1_def]
    note f = seg_set_free [OF s(1), of "set_hdr (adr a) (\<lambda>b. b\<lparr>hb_free := 0\<rparr>) h1" False]
    have eq: "h' = set_hdr (adr a) (\<lambda>b. b\<lparr>hb_free := 0\<rparr>) h1" using True by (simp add: h' h1_def)
    have "seg h' a pv (carve n sz ys) 0" "agree 0 a h1 h'"
      using f True assms(3) by (simp_all add: eq carve_def)
    moreover have "same_bounds h h'" using s(3) by (simp add: eq)
    ultimately show ?thesis using s(2) agree_trans by blast
  next
    case False
    with seg_set_free [OF assms(1,3), of h' False] show ?thesis
      by (simp add: h' carve_def)
  qed
  then show "seg h' a pv (carve n sz ys) 0" "agree 0 a h h'" "same_bounds h h'" by auto
qed

section \<open>First fit\<close>

text \<open>
  The specification of allocation on the list of blocks: the offset of the block handed out and
  the new list.
\<close>

fun first_fit :: "nat \<Rightarrow> blocks \<Rightarrow> (nat \<times> blocks) option" where
  "first_fit n [] = None"
| "first_fit n ((sz, fr) # bs) =
     (if fr \<and> n \<le> sz then Some (0, carve n sz bs)
      else map_option (\<lambda>(off, bs'). (sz + off, (sz, fr) # bs')) (first_fit n bs))"

lemma block_valid_seg:
  assumes "seg h a pv ((sz, fr) # ys) nx" and "0 < a" and "a + sz < 18446744073709551616"
  shows "block_valid h (adr a)"
proof -
  have "hb_size (hdr h (adr a)) = of_nat sz" "16 \<le> sz" using assms(1) by (auto simp: header_of_def)
  then have "get_footer h (adr a) = adr (a + sz - 16)" by (rule footer_addr)
  with assms show ?thesis
    by (simp add: block_valid_def Let_def header_of_def footer_of_def adr_eq_0_iff)
qed

lemma kmalloc_loop_seg:
  assumes "seg h a pv bs 0" and "0 < a" and "a + tot bs < 18446744073709551616"
    and "48 \<le> n" and "8 dvd n" and "n < 18446744073709551616"
  shows "case first_fit n bs of
      None \<Rightarrow> kmalloc_loop h (if bs = [] then 0 else adr a) (of_nat n) = Some (0, h)
    | Some (off, bs') \<Rightarrow> \<exists>h'. kmalloc_loop h (adr a) (of_nat n) = Some (adr (a + off) + HDR_SIZE, h')
        \<and> seg h' a pv bs' 0 \<and> agree 0 a h h' \<and> same_bounds h h'"
  using assms
proof (induction bs arbitrary: a pv)
  case Nil
  show ?case by (simp add: kmalloc_loop.simps)
next
  case (Cons b bs)
  obtain sz fr where b: "b = (sz, fr)" by (cases b)
  have seg: "seg h a pv ((sz, fr) # bs) 0" using Cons.prems(1) b by simp
  have lt: "a + sz + tot bs < 18446744073709551616" using Cons.prems(3) b by simp
  have valid: "block_valid h (adr a)" and nz: "adr a \<noteq> 0"
    using block_valid_seg [OF seg] Cons.prems(2) lt by (auto simp: adr_eq_0_iff)
  have hd: "hb_free (hdr h (adr a)) \<noteq> 0 \<longleftrightarrow> fr" "of_nat n \<le> hb_size (hdr h (adr a)) \<longleftrightarrow> n \<le> sz"
      "hb_next (hdr h (adr a)) = (if bs = [] then 0 else adr (a + sz))"
    using seg lt Cons.prems(6) by (auto simp: header_of_def of_nat64_le_iff)
  show ?case
  proof (cases "fr \<and> n \<le> sz")
    case True
    with seg have seg': "seg h a pv ((sz, True) # bs) 0" by simp
    note tb = take_block_seg [OF seg' Cons.prems(2) lt Cons.prems(4,5) _ refl]
    have "kmalloc_loop h (adr a) (of_nat n) = Some (adr a + HDR_SIZE, take_block (adr a) (of_nat n) h)"
      using True valid nz hd by (subst kmalloc_loop.simps) simp
    with tb True b show ?thesis by auto
  next
    case False
    have step: "kmalloc_loop h (adr a) (of_nat n) =
        kmalloc_loop h (if bs = [] then 0 else adr (a + sz)) (of_nat n)"
      using False valid nz hd by (subst kmalloc_loop.simps) auto
    have "seg h (a + sz) (adr a) bs 0" using seg by simp
    note IH = Cons.IH [OF this _ _ Cons.prems(4-6)]
    show ?thesis
    proof (cases "first_fit n bs")
      case None
      with IH lt Cons.prems(2) step False b show ?thesis by auto
    next
      case (Some r)
      obtain off bs' where r: "r = (off, bs')" by (cases r)
      with Some have ne: "bs \<noteq> []" by auto
      from IH Some r lt Cons.prems(2) obtain h' where
        h': "kmalloc_loop h (adr (a + sz)) (of_nat n) = Some (adr (a + sz + off) + HDR_SIZE, h')"
        "seg h' (a + sz) (adr a) bs' 0" "agree 0 (a + sz) h h'" "same_bounds h h'" by auto
      have sz: "48 \<le> sz" using seg by simp
      have "bs' \<noteq> []" using Some r ne by (cases bs) (auto simp: carve_def split: if_splits)
      then have "seg h' a pv ((sz, fr) # bs') 0"
        using seg h'(2,3) sz ne agree_def by (auto simp: agree_def)
      moreover have "agree 0 a h h'" using h'(3) by (rule agree_mono) auto
      ultimately show ?thesis
        using h' step ne Some r False b by (auto simp: add.assoc)
    qed
  qed
qed

section \<open>Coalescing\<close>

lemma merge_next_seg:
  assumes "seg h a pv ((s1, f1) # (s2, f2) # ys) 0" and "0 < a"
    and "a + s1 + s2 + tot ys < 18446744073709551616" and "h' = merge_next (adr a) (adr (a + s1)) h"
  shows "seg h' a pv ((s1 + s2, f1) # ys) 0" and "agree 0 a h h'" and "same_bounds h h'"
proof -
  let ?D = "if ys = [] then 0 else adr (a + s1 + s2)"
  from assms(1) have hd: "hdr h (adr a) = header_of s1 f1 (adr (a + s1)) pv"
    "hdr h (adr (a + s1)) = header_of s2 f2 ?D (adr a)"
    and sz: "48 \<le> s1" "48 \<le> s2" and dvd: "8 dvd s1" "8 dvd s2"
    and rest: "seg h (a + s1 + s2) (adr (a + s1)) ys 0" by auto
  have lt: "a < 18446744073709551616" "a + s1 + s2 < 18446744073709551616" using assms(3) by auto
  have ne: "adr a \<noteq> adr (a + s1 + s2)" "adr (a + s1 + s2) \<noteq> 0"
    using lt assms(2) sz by (simp_all add: adr_eq_iff adr_eq_0_iff)
  define h1 where "h1 = set_hdr (adr a) (\<lambda>_. header_of (s1 + s2) f1 ?D pv) h"
  define h2 where "h2 = (if ys = [] then h1
      else set_hdr (adr (a + s1 + s2)) (\<lambda>b. b\<lparr>hb_prev := adr a\<rparr>) h1)"
  have hdr2: "hdr h2 (adr a) = header_of (s1 + s2) f1 ?D pv" using ne by (simp add: h2_def h1_def)
  have foot: "get_footer h2 (adr a) = adr (a + (s1 + s2) - 16)"
    using footer_addr [of h2 a "s1 + s2"] sz hdr2 by (simp add: header_of_def)
  have h1': "set_hdr (adr a) (\<lambda>b. b\<lparr>hb_size := hb_size b + hb_size (hdr h (adr (a + s1))),
      hb_next := hb_next (hdr h (adr (a + s1)))\<rparr>) h = h1"
    using hd by (simp add: h1_def set_hdr_def header_of_def)
  have h': "h' = set_ftr (adr (a + (s1 + s2) - 16)) (footer_of (s1 + s2)) h2"
  proof -
    have "hb_next (hdr h1 (adr a)) = ?D" by (simp add: h1_def header_of_def)
    then have "h' = write_footer (adr a) (hb_size (hdr h2 (adr a))) h2"
      unfolding assms(4) merge_next_def h1' Let_def using ne by (simp add: h2_def)
    then show ?thesis unfolding write_footer_def foot
      by (simp add: hdr2 header_of_def footer_of_def)
  qed
  have agr: "agree (a + s1 + s2) (a + s1 + s2 + tot ys) h h1" "agree 0 a h h1"
    unfolding h1_def using lt assms(3) sz by (auto intro!: agree_set_hdr)
  have "seg h1 (a + s1 + s2) (adr (a + s1)) ys 0" by (rule seg_agree [OF rest agr(1)])
  then have "seg h2 (a + s1 + s2) (adr a) ys 0"
    unfolding h2_def using seg_set_prev [of h1 "a + s1 + s2"] assms(3) by (cases "ys = []") auto
  then have "seg h' (a + s1 + s2) (adr a) ys 0"
    unfolding h' using lt assms(3) sz by (elim seg_agree) (auto intro!: agree_set_ftr)
  then show "seg h' a pv ((s1 + s2, f1) # ys) 0"
    using hdr2 sz dvd by (simp add: h' add.assoc)
  have "agree 0 a h1 h2" using lt by (auto simp: h2_def intro!: agree_set_hdr)
  moreover have "agree 0 a h2 h'" unfolding h' using lt sz by (intro agree_set_ftr) auto
  ultimately show "agree 0 a h h'" using agr(2) agree_trans by blast
  show "same_bounds h h'" unfolding h' by (simp add: h2_def h1_def)
qed

text \<open>The specification of release on the list of blocks.\<close>

definition join_right :: "nat \<Rightarrow> blocks \<Rightarrow> blocks" where
  "join_right sz ys = (case ys of (s2, True) # ys' \<Rightarrow> (sz + s2, True) # ys' | _ \<Rightarrow> (sz, True) # ys)"

definition join_left :: "blocks \<Rightarrow> blocks \<Rightarrow> blocks" where
  "join_left xs zs =
     (if xs \<noteq> [] \<and> snd (last xs) then butlast xs @ (fst (last xs) + fst (hd zs), True) # tl zs
      else xs @ zs)"

definition release :: "blocks \<Rightarrow> nat \<Rightarrow> blocks \<Rightarrow> blocks" where
  "release xs sz ys = join_left xs (join_right sz ys)"

lemma join_right_shape: "\<exists>s zs. join_right sz ys = (s, True) # zs"
  by (auto simp: join_right_def split: list.splits prod.splits bool.splits)

lemma tot_join_right [simp]: "tot (join_right sz ys) = sz + tot ys"
  by (auto simp: join_right_def split: list.splits prod.splits bool.splits)

lemma tot_join_left: "zs \<noteq> [] \<Longrightarrow> tot (join_left xs zs) = tot xs + tot zs"
  by (cases xs rule: rev_cases; cases zs) (auto simp: join_left_def)

lemma tot_release [simp]: "tot (release xs sz ys) = tot xs + sz + tot ys"
proof -
  have "join_right sz ys \<noteq> []" using join_right_shape [of sz ys] by auto
  then show ?thesis by (simp add: release_def tot_join_left)
qed

definition free_right :: "ptr \<Rightarrow> kheap_state \<Rightarrow> kheap_state" where
  "free_right block h =
     (let nx = hb_next (hdr h block)
      in if nx \<noteq> 0 \<and> block_valid h nx \<and> hb_free (hdr h nx) \<noteq> 0 then merge_next block nx h else h)"

lemma free_right_seg:
  assumes "seg h a pv ((sz, True) # ys) 0" and "0 < a" and "a + sz + tot ys < 18446744073709551616"
    and "h' = free_right (adr a) h"
  shows "seg h' a pv (join_right sz ys) 0" and "agree 0 a h h'" and "same_bounds h h'"
proof -
  have nx: "hb_next (hdr h (adr a)) = (if ys = [] then 0 else adr (a + sz))"
    using assms(1) by (simp add: header_of_def)
  have "seg h' a pv (join_right sz ys) 0 \<and> agree 0 a h h' \<and> same_bounds h h'"
  proof (cases ys)
    case Nil
    with assms nx show ?thesis by (simp add: free_right_def Let_def join_right_def)
  next
    case (Cons b zs)
    obtain s2 f2 where b: "b = (s2, f2)" by (cases b)
    from assms(1) Cons b have seg2: "seg h (a + sz) (adr a) ((s2, f2) # zs) 0" by simp
    have v: "block_valid h (adr (a + sz))" "adr (a + sz) \<noteq> 0"
      using block_valid_seg [OF seg2] assms(2,3) Cons b by (auto simp: adr_eq_0_iff)
    have f: "hb_free (hdr h (adr (a + sz))) \<noteq> 0 \<longleftrightarrow> f2" using seg2 by (simp add: header_of_def)
    show ?thesis
    proof (cases f2)
      case True
      have "h' = merge_next (adr a) (adr (a + sz)) h"
        using nx v f True Cons by (simp add: assms(4) free_right_def Let_def)
      from merge_next_seg [OF assms(1) [unfolded Cons b] assms(2) _ this] assms(3) Cons b True
      show ?thesis by (simp add: join_right_def)
    next
      case False
      then have "h' = h" using nx v f Cons by (simp add: assms(4) free_right_def Let_def)
      with False assms(1) Cons b show ?thesis by (simp add: join_right_def)
    qed
  qed
  then show "seg h' a pv (join_right sz ys) 0" "agree 0 a h h'" "same_bounds h h'" by auto
qed

definition free_left :: "ptr \<Rightarrow> kheap_state \<Rightarrow> kheap_state" where
  "free_left block h =
     (let pv = hb_prev (hdr h block)
      in if pv \<noteq> 0 \<and> block_valid h pv \<and> hb_free (hdr h pv) \<noteq> 0 then merge_next pv block h else h)"

lemma kfree_eq:
  assumes "p \<noteq> 0" and "heap_start h \<noteq> 0" and "block_valid h (p - HDR_SIZE)"
    and "hb_free (hdr h (p - HDR_SIZE)) = 0"
  shows "kfree p h = free_left (p - HDR_SIZE)
    (free_right (p - HDR_SIZE) (set_hdr (p - HDR_SIZE) (\<lambda>b. b\<lparr>hb_free := 1\<rparr>) h))"
  by (simp only: kfree_def free_left_def free_right_def Let_def assms simp_thms if_False if_True)

section \<open>Refinement to the list of blocks\<close>

lemma kheap_rel_bounds:
  assumes "kheap_rel h bs"
  shows "0 < unat (heap_base h)" and "unat (heap_base h) + tot bs < 18446744073709551616"
    and "heap_start h = adr (unat (heap_base h))" and "heap_start h \<noteq> 0"
proof -
  show "0 < unat (heap_base h)" using assms by (simp add: kheap_rel_def unat_gt_0)
  show "unat (heap_base h) + tot bs < 18446744073709551616"
    using assms unat64_lt [of "heap_limit h"] by (simp add: kheap_rel_def)
  show "heap_start h = adr (unat (heap_base h))" "heap_start h \<noteq> 0"
    using assms by (simp_all add: kheap_rel_def)
qed

lemma kheap_rel_same_bounds:
  assumes "kheap_rel h bs" and "same_bounds h h'" and "seg h' (unat (heap_base h)) 0 bs' 0"
    and "bs' \<noteq> []" and "tot bs' = tot bs"
  shows "kheap_rel h' bs'"
  using assms by (simp add: kheap_rel_def same_bounds_def)

text \<open>The size of the block \<open>kmalloc\<close> looks for.\<close>

definition needed_for :: "nat \<Rightarrow> nat" where
  "needed_for sz = (sz + 7) div 8 * 8 + 48"

lemma needed_for_dvd: "8 dvd needed_for sz"
  by (simp add: needed_for_def)

lemma needed_word:
  assumes "sz \<le> KHEAP_MAX_ALLOC"
  shows "HDR_SIZE + ALIGN_UP sz KHEAP_ALIGN + FTR_SIZE = of_nat (needed_for (unat sz))"
proof -
  have "unat sz \<le> 65536" using assms by (simp add: KHEAP_MAX_ALLOC_def word_le_nat_alt)
  then have "unat (ALIGN_UP sz 8) = (unat sz + 7) div 8 * 8" by (intro unat_align_up) simp
  then have "ALIGN_UP sz 8 = of_nat ((unat sz + 7) div 8 * 8)"
    using adr_unat [of "ALIGN_UP sz 8"] by (simp add: adr_def)
  then show ?thesis
    by (simp add: KHEAP_ALIGN_def HDR_SIZE_def FTR_SIZE_def needed_for_def)
qed

lemma needed_for_small: "sz \<le> KHEAP_MAX_ALLOC \<Longrightarrow> needed_for (unat sz) \<le> 65592"
  by (simp add: needed_for_def KHEAP_MAX_ALLOC_def word_le_nat_alt)

lemma first_fit_tot: "first_fit n bs = Some (off, bs') \<Longrightarrow> tot bs' = tot bs \<and> bs' \<noteq> []"
proof (induction bs arbitrary: off bs')
  case Nil
  then show ?case by simp
next
  case (Cons b bs)
  then show ?case
    by (cases b) (auto simp: carve_def split: if_splits)
qed

lemma kmalloc_refines:
  assumes "kheap_rel h bs" and "sz \<noteq> 0" and "sz \<le> KHEAP_MAX_ALLOC"
  shows "case first_fit (needed_for (unat sz)) bs of
      None \<Rightarrow> kmalloc sz h = Some (0, h)
    | Some (off, bs') \<Rightarrow> \<exists>h'. kmalloc sz h = Some (adr (unat (heap_base h) + off) + HDR_SIZE, h')
        \<and> kheap_rel h' bs' \<and> same_bounds h h'"
proof -
  let ?n = "needed_for (unat sz)"
  note b = kheap_rel_bounds [OF assms(1)]
  have n: "48 \<le> ?n" "8 dvd ?n" "?n < 18446744073709551616"
    using needed_for_small [OF assms(3)] needed_for_dvd by (auto simp: needed_for_def)
  have km: "kmalloc sz h = kmalloc_loop h (adr (unat (heap_base h))) (of_nat ?n)"
    using assms(2,3) b(3,4) by (simp add: kmalloc_def Let_def needed_word not_less [symmetric])
  have seg: "seg h (unat (heap_base h)) 0 bs 0" and ne: "bs \<noteq> []"
    using assms(1) by (auto simp: kheap_rel_def)
  from kmalloc_loop_seg [OF seg b(1,2) n] show ?thesis
    using km ne by (auto split: option.splits
        dest: first_fit_tot kheap_rel_same_bounds [OF assms(1)])
qed

lemma release_refines:
  assumes "kheap_rel h (xs @ (sz, False) # ys)"
  shows "kheap_rel (kfree (adr (unat (heap_base h) + tot xs) + HDR_SIZE) h) (release xs sz ys)
    \<and> same_bounds h (kfree (adr (unat (heap_base h) + tot xs) + HDR_SIZE) h)"
proof -
  let ?b = "unat (heap_base h)" and ?p = "adr (unat (heap_base h) + tot xs) + HDR_SIZE"
  let ?a = "?b + tot xs"
  note b = kheap_rel_bounds [OF assms]
  have lt: "?a + sz + tot ys < 18446744073709551616" using b(2) by simp
  have whole: "seg h ?b 0 (xs @ (sz, False) # ys) 0" using assms by (simp add: kheap_rel_def)
  then have pre: "seg h ?b 0 xs (adr ?a)" and seg0: "seg h ?a (last_addr ?b 0 xs) ((sz, False) # ys) 0"
    by (simp_all only: seg_append if_False list.distinct simp_thms)
  have blk: "?p - HDR_SIZE = adr ?a" by simp
  have sz: "48 \<le> sz" using seg0 by simp
  have p0: "?p \<noteq> 0"
  proof -
    have "?p = adr (?a + 32)" using adr_add [of ?a 32] by (simp add: HDR_SIZE_def)
    moreover have "?a + 32 < 18446744073709551616" using lt sz by simp
    ultimately show ?thesis by (simp add: adr_eq_0_iff)
  qed
  have v: "block_valid h (adr ?a)" using block_valid_seg [OF seg0] b(1) lt by simp
  have nf: "hb_free (hdr h (adr ?a)) = 0" using seg0 by (simp add: header_of_def)
  define h1 where "h1 = set_hdr (adr ?a) (\<lambda>b. b\<lparr>hb_free := 1\<rparr>) h"
  define h2 where "h2 = free_right (adr ?a) h1"
  have h1: "h1 = set_hdr (adr ?a) (\<lambda>b. b\<lparr>hb_free := (if True then 1 else 0)\<rparr>) h"
    by (simp add: h1_def)
  note f1 = seg_set_free [OF seg0 lt h1]
  have pos: "0 < ?a" using b(1) by simp
  note f2 = free_right_seg [OF f1(1) pos lt h2_def]
  have k: "kfree ?p h = free_left (adr ?a) h2"
    unfolding h2_def h1_def using kfree_eq [OF p0 b(4)] v nf by (simp add: blk)
  obtain s zs where jr: "join_right sz ys = (s, True) # zs" using join_right_shape by blast
  have pv: "hb_prev (hdr h2 (adr ?a)) = last_addr ?b 0 xs"
    using f2(1) by (simp add: jr header_of_def)
  have agr: "agree 0 ?a h h2" using f1(2) f2(2) agree_trans by blast
  have pre2: "seg h2 ?b 0 xs (adr ?a)" by (rule seg_agree [OF pre]) (rule agree_mono [OF agr], auto)
  have sb: "same_bounds h h2" using f1(3) f2(3) by (simp add: same_bounds_def)
  have lt2: "?a + s + tot zs < 18446744073709551616"
    using lt tot_join_right [of sz ys] jr by simp
  show ?thesis
  proof (cases xs rule: rev_cases)
    case Nil
    then have "kfree ?p h = h2" using k pv by (simp add: free_left_def Let_def)
    moreover have "seg h2 ?b 0 (release xs sz ys) 0" using f2(1) Nil by (simp add: release_def join_left_def)
    ultimately show ?thesis
      using kheap_rel_same_bounds [OF assms sb] jr sb Nil tot_release [of xs sz ys]
      by (simp add: release_def join_left_def)
  next
    case (snoc us u)
    obtain s1 g1 where u: "u = (s1, g1)" by (cases u)
    let ?c = "?b + tot us"
    have pvadr: "last_addr ?b 0 xs = adr ?c" by (simp add: snoc)
    have a: "?a = ?c + s1" by (simp add: snoc u)
    have both: "seg h2 ?b 0 (us @ (s1, g1) # (s, True) # zs) 0"
      using pre2 f2(1) jr by (simp add: snoc u seg_append add.assoc)
    then have segc: "seg h2 ?c (last_addr ?b 0 us) ((s1, g1) # (s, True) # zs) 0"
      and preu: "seg h2 ?b 0 us (adr ?c)"
      by (simp_all only: seg_append if_False list.distinct simp_thms)
    have vc: "block_valid h2 (adr ?c)" "adr ?c \<noteq> 0" "hb_free (hdr h2 (adr ?c)) \<noteq> 0 \<longleftrightarrow> g1"
      using block_valid_seg [OF segc] b(1) lt2 a segc by (auto simp: adr_eq_0_iff header_of_def)
    show ?thesis
    proof (cases g1)
      case True
      have kf: "kfree ?p h = merge_next (adr ?c) (adr (?c + s1)) h2"
        using k pv pvadr vc True by (simp add: free_left_def Let_def a [symmetric])
      have ltc: "?c + s1 + s + tot zs < 18446744073709551616" using lt2 a by simp
      have posc: "0 < ?c" using b(1) by simp
      note m = merge_next_seg [OF segc posc ltc kf]
      have "seg (kfree ?p h) ?b 0 us (adr ?c)"
        by (rule seg_agree [OF preu]) (rule agree_mono [OF m(2)], auto)
      with m(1) True have "seg (kfree ?p h) ?b 0 (us @ (s1 + s, True) # zs) 0"
        by (simp add: seg_append)
      moreover have "release xs sz ys = us @ (s1 + s, True) # zs"
        using True by (simp add: release_def join_left_def jr snoc u)
      moreover have "same_bounds h (kfree ?p h)" using sb m(3) by (simp add: same_bounds_def)
      ultimately show ?thesis
        using kheap_rel_same_bounds [OF assms] tot_release [of xs sz ys] by simp
    next
      case False
      have "kfree ?p h = h2" using k pv pvadr vc False by (simp add: free_left_def Let_def)
      moreover have "release xs sz ys = us @ (s1, g1) # (s, True) # zs"
        using False by (simp add: release_def join_left_def jr snoc u)
      ultimately show ?thesis
        using kheap_rel_same_bounds [OF assms sb] both tot_release [of xs sz ys] sb by simp
    qed
  qed
qed

section \<open>Live blocks\<close>

text \<open>The allocated blocks of a list that starts at address \<open>a\<close>, as (address, size) pairs.\<close>

fun live_at :: "nat \<Rightarrow> blocks \<Rightarrow> (nat \<times> nat) set" where
  "live_at a [] = {}"
| "live_at a ((sz, fr) # bs) = (if fr then {} else {(a, sz)}) \<union> live_at (a + sz) bs"

lemma live_at_append: "live_at a (xs @ ys) = live_at a xs \<union> live_at (a + tot xs) ys"
  by (induction xs arbitrary: a) (auto simp: add.assoc)

lemma live_at_range: "(c, sz) \<in> live_at a bs \<Longrightarrow> a \<le> c \<and> c + sz \<le> a + tot bs"
  by (induction bs arbitrary: a) (fastforce split: if_splits)+

lemma live_at_split:
  "(c, sz) \<in> live_at a bs \<Longrightarrow> \<exists>xs ys. bs = xs @ (sz, False) # ys \<and> c = a + tot xs"
proof (induction bs arbitrary: a)
  case Nil
  then show ?case by simp
next
  case (Cons b bs)
  obtain s f where b: "b = (s, f)" by (cases b)
  show ?case
  proof (cases "(c, sz) \<in> live_at (a + s) bs")
    case True
    from Cons.IH [OF this] obtain xs ys where "bs = xs @ (sz, False) # ys" "c = a + s + tot xs"
      by blast
    then show ?thesis by (intro exI [of _ "b # xs"] exI [of _ ys]) (simp add: b)
  next
    case False
    with Cons.prems b have "b = (sz, False)" "c = a" by (auto split: if_splits)
    then show ?thesis by (intro exI [of _ "[]"] exI [of _ bs]) simp
  qed
qed

lemma live_at_disjoint:
  assumes "(c, s) \<in> live_at a bs" and "(d, u) \<in> live_at a bs" and "(c, s) \<noteq> (d, u)"
    and "\<forall>b \<in> set bs. 0 < fst b"
  shows "c + s \<le> d \<or> d + u \<le> c"
  using assms
proof (induction bs arbitrary: a)
  case Nil
  then show ?case by simp
next
  case (Cons b bs)
  obtain z f where b: "b = (z, f)" by (cases b)
  from Cons.prems(1,2) b consider "(c, s) \<in> live_at (a + z) bs" "(d, u) \<in> live_at (a + z) bs"
    | "(c, s) = (a, z)" "(d, u) \<in> live_at (a + z) bs" | "(d, u) = (a, z)" "(c, s) \<in> live_at (a + z) bs"
    | "(c, s) = (a, z)" "(d, u) = (a, z)"
    by (auto split: if_splits)
  then show ?case
    by cases (use Cons in \<open>auto dest: live_at_range\<close>)
qed

text \<open>No two neighbouring blocks are free.\<close>

fun tight :: "blocks \<Rightarrow> bool" where
  "tight [] \<longleftrightarrow> True"
| "tight [b] \<longleftrightarrow> True"
| "tight (b # c # bs) \<longleftrightarrow> \<not> (snd b \<and> snd c) \<and> tight (c # bs)"

lemma tight_Cons: "tight (b # bs) \<longleftrightarrow> (bs = [] \<or> \<not> (snd b \<and> snd (hd bs))) \<and> tight bs"
  by (cases bs) auto

lemma tight_append:
  "tight (xs @ ys) \<longleftrightarrow> tight xs \<and> tight ys \<and> (xs = [] \<or> ys = [] \<or> \<not> (snd (last xs) \<and> snd (hd ys)))"
  by (induction xs) (auto simp: tight_Cons hd_append)

lemma first_fit_hd: "first_fit n bs = Some (off, bs') \<Longrightarrow> snd (hd bs') \<longrightarrow> snd (hd bs)"
  by (cases bs) (auto simp: carve_def split: if_splits)

lemma first_fit_spec:
  assumes "first_fit n bs = Some (off, bs')" and "0 < n" and "\<forall>b \<in> set bs. 0 < fst b"
  shows "\<exists>sz. n \<le> sz \<and> live_at a bs' = insert (a + off, sz) (live_at a bs) \<and>
    (\<forall>u. (a + off, u) \<notin> live_at a bs) \<and> (tight bs \<longrightarrow> tight bs')"
  using assms(1,3)
proof (induction bs arbitrary: a off bs')
  case Nil
  then show ?case by simp
next
  case (Cons b bs)
  obtain s f where b: "b = (s, f)" by (cases b)
  show ?case
  proof (cases "f \<and> n \<le> s")
    case True
    with Cons.prems b have r: "off = 0" "bs' = carve n s bs" by auto
    have notin: "(a, u) \<notin> live_at (a + s) bs" for u
      using live_at_range [of a u "a + s" bs] True assms(2) by auto
    show ?thesis
      using True b r notin
      by (intro exI [of _ "if n + 56 \<le> s then n else s"]) (auto simp: carve_def tight_Cons)
  next
    case False
    with Cons.prems b obtain o' r where o': "first_fit n bs = Some (o', r)" "off = s + o'"
      "bs' = (s, f) # r" by auto
    have s: "0 < s" and rest: "\<forall>b \<in> set bs. 0 < fst b" using Cons.prems(2) b by auto
    from Cons.IH [OF o'(1) rest, of "a + s"] obtain sz where sz: "n \<le> sz"
      "live_at (a + s) r = insert (a + s + o', sz) (live_at (a + s) bs)"
      "\<forall>u. (a + s + o', u) \<notin> live_at (a + s) bs" "tight bs \<longrightarrow> tight r" by blast
    have ne: "bs \<noteq> []" using o'(1) by auto
    show ?thesis
      using sz s b o'(2,3) ne first_fit_hd [OF o'(1)]
      by (intro exI [of _ sz]) (auto simp: add.assoc tight_Cons)
  qed
qed

lemma release_spec:
  assumes "\<forall>b \<in> set (xs @ (sz, False) # ys). 0 < fst b"
  shows "live_at a (release xs sz ys) = live_at a (xs @ (sz, False) # ys) - {(a + tot xs, sz)}"
    and "tight (xs @ (sz, False) # ys) \<Longrightarrow> tight (release xs sz ys)"
proof -
  have out: "(a + tot xs, u) \<notin> live_at a xs" for u
  proof
    assume "(a + tot xs, u) \<in> live_at a xs"
    moreover from live_at_split [OF this] assms have "0 < u" by auto
    ultimately show False using live_at_range [of "a + tot xs" u a xs] by simp
  qed
  have out': "(a + tot xs, u) \<notin> live_at (a + (tot xs + sz)) ys" for u
    using live_at_range [of "a + tot xs" u "a + (tot xs + sz)" ys] assms by auto
  have r: "live_at c (join_right sz ys) = live_at (c + sz) ys" for c
    by (auto simp: join_right_def add.assoc split: list.splits prod.splits bool.splits)
  have l: "live_at a (join_left xs ((s, True) # zs)) = live_at a xs \<union> live_at (a + tot xs + s) zs" for s zs
    by (cases xs rule: rev_cases) (auto simp: join_left_def live_at_append add.assoc)
  obtain s zs where jr: "join_right sz ys = (s, True) # zs" using join_right_shape by blast
  have "live_at a (release xs sz ys) = live_at a xs \<union> live_at (a + tot xs + sz) ys"
    using l [of s zs] r [of "a + tot xs"] jr by (simp add: release_def)
  then show "live_at a (release xs sz ys) = live_at a (xs @ (sz, False) # ys) - {(a + tot xs, sz)}"
    using out out' by (auto simp: live_at_append add.assoc)
  assume t: "tight (xs @ (sz, False) # ys)"
  have "tight ((s, True) # zs)"
    using t jr by (auto simp: join_right_def tight_append tight_Cons split: list.splits prod.splits bool.splits)
  with t show "tight (release xs sz ys)"
    by (cases xs rule: rev_cases)
       (auto simp: release_def join_left_def jr tight_append tight_Cons)
qed

section \<open>The blocks a store holds are determined\<close>

lemma seg_unique:
  assumes "seg h a pv bs 0" and "seg h a pv cs 0" and "bs \<noteq> []" and "cs \<noteq> []" and "0 < a"
    and "a + tot bs < 18446744073709551616" and "a + tot cs < 18446744073709551616"
  shows "bs = cs"
  using assms
proof (induction bs arbitrary: a pv cs)
  case Nil
  then show ?case by simp
next
  case (Cons b bs)
  obtain c cs' where cs: "cs = c # cs'" using Cons.prems(4) by (cases cs) auto
  obtain s f where b: "b = (s, f)" by (cases b)
  obtain s' f' where c: "c = (s', f')" by (cases c)
  have eq: "header_of s f (if bs = [] then 0 else adr (a + s)) pv
      = header_of s' f' (if cs' = [] then 0 else adr (a + s')) pv"
    using Cons.prems(1,2) b c cs by simp
  have s: "s = s'" "f = f'"
    using eq Cons.prems(6,7) b c cs by (auto simp: header_of_def of_nat64_eq_iff split: if_splits)
  have nz: "adr (a + s) \<noteq> 0" using Cons.prems(5,6) b by (simp add: adr_eq_0_iff)
  with eq s have nil: "bs = [] \<longleftrightarrow> cs' = []" by (auto simp: header_of_def split: if_splits)
  show ?case
  proof (cases "bs = []")
    case True
    with nil s b c cs show ?thesis by simp
  next
    case False
    have "bs = cs'"
      using Cons.IH [of "a + s" "adr a" cs'] Cons.prems b c cs s nil False by simp
    with s b c cs show ?thesis by simp
  qed
qed

lemma kheap_rel_unique:
  assumes "kheap_rel h bs" and "kheap_rel h cs"
  shows "bs = cs"
proof (rule seg_unique)
  show "seg h (unat (heap_base h)) 0 bs 0" "bs \<noteq> []" using assms(1) by (auto simp: kheap_rel_def)
  show "seg h (unat (heap_base h)) 0 cs 0" "cs \<noteq> []" using assms(2) by (auto simp: kheap_rel_def)
qed (rule kheap_rel_bounds [OF assms(1)] kheap_rel_bounds [OF assms(2)])+

lemma kheap_rel_sizes: "kheap_rel h bs \<Longrightarrow> \<forall>b \<in> set bs. 0 < fst b"
  unfolding kheap_rel_def using seg_sizes by fastforce

section \<open>Accounting and validation\<close>

definition sum_sizes :: "bool \<Rightarrow> blocks \<Rightarrow> nat" where
  "sum_sizes fr bs = tot (filter (\<lambda>b. snd b = fr) bs)"

lemma sum_sizes_total: "sum_sizes True bs + sum_sizes False bs = tot bs"
  by (induction bs) (auto simp: sum_sizes_def)

lemma kheap_sum_loop_seg:
  assumes "seg h a pv bs 0" and "0 < a" and "a + tot bs < 18446744073709551616"
  shows "kheap_sum_loop fr h (if bs = [] then 0 else adr a) acc = Some (acc + of_nat (sum_sizes fr bs))"
  using assms
proof (induction bs arbitrary: a pv acc)
  case Nil
  show ?case by (simp add: kheap_sum_loop.simps sum_sizes_def)
next
  case (Cons b bs)
  obtain s f where b: "b = (s, f)" by (cases b)
  have seg: "seg h a pv ((s, f) # bs) 0" using Cons.prems(1) b by simp
  have v: "block_valid h (adr a)" "adr a \<noteq> 0"
    using block_valid_seg [OF seg] Cons.prems(2,3) b by (auto simp: adr_eq_0_iff)
  have hd: "hb_free (hdr h (adr a)) \<noteq> 0 \<longleftrightarrow> f" "hb_size (hdr h (adr a)) = of_nat s"
      "hb_next (hdr h (adr a)) = (if bs = [] then 0 else adr (a + s))"
    using seg by (auto simp: header_of_def)
  have "seg h (a + s) (adr a) bs 0" using seg by simp
  note IH = Cons.IH [OF this, of "if f = fr then acc + of_nat s else acc"]
  have "kheap_sum_loop fr h (adr a) acc =
      kheap_sum_loop fr h (if bs = [] then 0 else adr (a + s)) (if f = fr then acc + of_nat s else acc)"
    using v hd by (subst kheap_sum_loop.simps) simp
  with IH Cons.prems(2,3) b show ?case by (auto simp: sum_sizes_def)
qed

lemma kheap_sums:
  assumes "kheap_rel h bs"
  shows "kheap_get_used h = Some (of_nat (sum_sizes False bs))"
    and "kheap_get_free h = Some (of_nat (sum_sizes True bs))"
proof -
  note b = kheap_rel_bounds [OF assms]
  have "seg h (unat (heap_base h)) 0 bs 0" "bs \<noteq> []" using assms by (auto simp: kheap_rel_def)
  then have "kheap_sum_loop fr h (heap_start h) 0 = Some (of_nat (sum_sizes fr bs))" for fr
    using kheap_sum_loop_seg [of h _ 0 bs fr 0] b(1,2) by (simp add: b(3) del: adr_unat)
  then show "kheap_get_used h = Some (of_nat (sum_sizes False bs))"
    "kheap_get_free h = Some (of_nat (sum_sizes True bs))"
    using b(4) by (simp_all add: kheap_get_used_def kheap_get_free_def)
qed

lemma kheap_validate_loop_seg:
  assumes "seg h a pv bs 0" and "unat (heap_base h) \<le> a" and "0 < a"
    and "a + tot bs = unat (heap_limit h)" and "cnt \<le> 100000"
  shows "kheap_validate_loop h (if bs = [] then 0 else adr a) cnt \<longleftrightarrow> cnt + length bs \<le> 100000"
  using assms
proof (induction bs arbitrary: a pv cnt)
  case Nil
  then show ?case by (simp add: kheap_validate_loop.simps)
next
  case (Cons b bs)
  obtain s f where b: "b = (s, f)" by (cases b)
  have "a + s + tot bs = unat (heap_limit h)" using Cons.prems(4) b by simp
  then have lt: "a + s + tot bs < 18446744073709551616" by (simp only: unat64_lt)
  have seg: "seg h a pv ((s, f) # bs) 0" using Cons.prems(1) b by simp
  then have s: "48 \<le> s" by simp
  have v: "block_valid h (adr a)" "adr a \<noteq> 0"
    using block_valid_seg [OF seg] Cons.prems(3) lt by (auto simp: adr_eq_0_iff)
  have rng: "\<not> (adr a < heap_base h \<or> heap_limit h \<le> adr a)"
    using Cons.prems(2,4) b s lt by (simp add: word_less_nat_alt word_le_nat_alt unat_adr)
  have nx: "hb_next (hdr h (adr a)) = (if bs = [] then 0 else adr (a + s))"
    using seg by (simp add: header_of_def)
  have step: "kheap_validate_loop h (adr a) cnt \<longleftrightarrow>
      cnt + 1 \<le> 100000 \<and> kheap_validate_loop h (if bs = [] then 0 else adr (a + s)) (cnt + 1)"
    using v rng nx by (subst kheap_validate_loop.simps) auto
  have "seg h (a + s) (adr a) bs 0" using seg by simp
  from Cons.IH [OF this, of "cnt + 1"] Cons.prems b step show ?case by auto
qed

lemma kheap_validate_rel:
  assumes "kheap_rel h bs"
  shows "kheap_validate h \<longleftrightarrow> length bs \<le> 100000"
proof -
  note b = kheap_rel_bounds [OF assms]
  have "seg h (unat (heap_base h)) 0 bs 0" "bs \<noteq> []"
    "unat (heap_base h) + tot bs = unat (heap_limit h)" using assms by (auto simp: kheap_rel_def)
  with kheap_validate_loop_seg [of h "unat (heap_base h)" 0 bs 0] b show ?thesis
    by (simp add: kheap_validate_def del: adr_unat)
qed

section \<open>The heap as an allocator\<close>

definition kheap_inv :: "kheap_state \<Rightarrow> bool" where
  "kheap_inv h \<longleftrightarrow> (\<exists>bs. kheap_rel h bs \<and> tight bs)"

definition live_blocks :: "kheap_state \<Rightarrow> (nat \<times> nat) set" where
  "live_blocks h = {x. \<exists>bs. kheap_rel h bs \<and> x \<in> live_at (unat (heap_base h)) bs}"

text \<open>The payload pointers handed out and not yet freed.\<close>

definition live_ptrs :: "kheap_state \<Rightarrow> ptr set" where
  "live_ptrs h = (\<lambda>(a, sz). adr (a + 32)) ` live_blocks h"

definition heap_alloc :: "u64 \<Rightarrow> kheap_state \<Rightarrow> ptr option \<times> kheap_state" where
  "heap_alloc sz h =
     (case kmalloc sz h of
        Some (p, h') \<Rightarrow> (if p = 0 then None else Some p, h')
      | None \<Rightarrow> (None, h))"

lemma live_blocks_rel: "kheap_rel h bs \<Longrightarrow> live_blocks h = live_at (unat (heap_base h)) bs"
  using kheap_rel_unique by (auto simp: live_blocks_def)

lemma kmalloc_correct:
  assumes "kheap_inv h" and "sz \<noteq> 0" and "sz \<le> KHEAP_MAX_ALLOC"
  obtains (fail) bs where "kmalloc sz h = Some (0, h)" "kheap_rel h bs"
      "\<forall>(s, fr) \<in> set bs. fr \<longrightarrow> s < needed_for (unat sz)"
    | (ok) h' a s where "kmalloc sz h = Some (adr (a + 32), h')" "kheap_inv h'" "same_bounds h h'"
      "live_blocks h' = insert (a, s) (live_blocks h)" "\<forall>u. (a, u) \<notin> live_blocks h"
      "needed_for (unat sz) \<le> s" "8 dvd a"
proof -
  let ?n = "needed_for (unat sz)" and ?b = "unat (heap_base h)"
  obtain bs where bs: "kheap_rel h bs" "tight bs" using assms(1) by (auto simp: kheap_inv_def)
  note ref = kmalloc_refines [OF bs(1) assms(2,3)]
  show ?thesis
  proof (cases "first_fit ?n bs")
    case None
    then have "\<forall>(s, fr) \<in> set bs. fr \<longrightarrow> s < ?n"
      by (induction bs) (auto split: if_splits)
    with None ref bs(1) show ?thesis by (intro fail [of bs]) simp_all
  next
    case (Some r)
    obtain off bs' where r: "r = (off, bs')" by (cases r)
    with Some ref obtain h' where h': "kmalloc sz h = Some (adr (?b + off) + HDR_SIZE, h')"
      "kheap_rel h' bs'" "same_bounds h h'" by auto
    have n: "0 < ?n" by (simp add: needed_for_def)
    from first_fit_spec [OF Some [unfolded r] n kheap_rel_sizes [OF bs(1)], of ?b] obtain s where
      s: "?n \<le> s" "live_at ?b bs' = insert (?b + off, s) (live_at ?b bs)"
      "\<forall>u. (?b + off, u) \<notin> live_at ?b bs" "tight bs \<longrightarrow> tight bs'" by blast
    have "heap_base h' = heap_base h" using h'(3) by (simp add: same_bounds_def)
    then have live: "live_blocks h' = insert (?b + off, s) (live_blocks h)"
      using s(2) live_blocks_rel [OF bs(1)] live_blocks_rel [OF h'(2)] by simp
    have "(?b + off, s) \<in> live_at ?b bs'" using s(2) by simp
    then obtain xs ys where xs: "bs' = xs @ (s, False) # ys" "?b + off = ?b + tot xs"
      using live_at_split by blast
    have "seg h' ?b 0 xs (adr (?b + tot xs))"
      using h'(2) xs(1) \<open>heap_base h' = heap_base h\<close> by (simp add: kheap_rel_def seg_append)
    then have "8 dvd tot xs" by (rule seg_dvd)
    moreover have "8 dvd ?b" using bs(1) by (simp add: kheap_rel_def)
    ultimately have "8 dvd ?b + off" using xs(2) by simp
    moreover have "adr (?b + off) + HDR_SIZE = adr (?b + off + 32)"
      using adr_add [of "?b + off" 32] by (simp add: HDR_SIZE_def)
    ultimately show ?thesis
      using ok [of "?b + off" h' s] h' s live bs live_blocks_rel [OF bs(1)]
      by (auto simp: kheap_inv_def)
  qed
qed

lemma kfree_correct:
  assumes "kheap_inv h" and "(a, s) \<in> live_blocks h"
  shows "kheap_inv (kfree (adr (a + 32)) h)" and "same_bounds h (kfree (adr (a + 32)) h)"
    and "live_blocks (kfree (adr (a + 32)) h) = live_blocks h - {(a, s)}"
proof -
  let ?b = "unat (heap_base h)" and ?h' = "kfree (adr (a + 32)) h"
  obtain bs where bs: "kheap_rel h bs" "tight bs" using assms(1) by (auto simp: kheap_inv_def)
  from assms(2) have "(a, s) \<in> live_at ?b bs" by (simp add: live_blocks_rel [OF bs(1)])
  then obtain xs ys where xs: "bs = xs @ (s, False) # ys" "a = ?b + tot xs"
    using live_at_split by blast
  have p: "adr (?b + tot xs) + HDR_SIZE = adr (a + 32)"
    using adr_add [of a 32] xs(2) by (simp add: HDR_SIZE_def)
  have rel: "kheap_rel ?h' (release xs s ys)" "same_bounds h ?h'"
    using release_refines [of h xs s ys] bs(1) by (simp_all add: xs(1) p)
  note sp = release_spec [OF kheap_rel_sizes [OF bs(1), unfolded xs(1)]]
  show "kheap_inv ?h'" using rel sp(2) bs(2) xs(1) by (auto simp: kheap_inv_def)
  show "same_bounds h ?h'" by (rule rel(2))
  show "live_blocks ?h' = live_blocks h - {(a, s)}"
    using sp(1) [of ?b] rel xs live_blocks_rel [OF bs(1)] live_blocks_rel [OF rel(1)]
    by (simp add: same_bounds_def)
qed

lemma live_block_range:
  assumes "kheap_inv h" and "(a, s) \<in> live_blocks h"
  shows "unat (heap_base h) \<le> a" and "a + s \<le> unat (heap_limit h)" and "48 \<le> s"
proof -
  obtain bs where bs: "kheap_rel h bs" using assms(1) by (auto simp: kheap_inv_def)
  then have l: "(a, s) \<in> live_at (unat (heap_base h)) bs" using assms(2) by (simp add: live_blocks_rel)
  then show "unat (heap_base h) \<le> a" "a + s \<le> unat (heap_limit h)"
    using live_at_range [OF l] bs by (auto simp: kheap_rel_def)
  from live_at_split [OF l] have "(s, False) \<in> set bs" by auto
  with bs show "48 \<le> s" unfolding kheap_rel_def using seg_sizes by blast
qed

lemma live_blocks_disjoint:
  assumes "kheap_inv h" and "(a, s) \<in> live_blocks h" and "(c, u) \<in> live_blocks h"
    and "(a, s) \<noteq> (c, u)"
  shows "a + s \<le> c \<or> c + u \<le> a"
proof -
  obtain bs where bs: "kheap_rel h bs" using assms(1) by (auto simp: kheap_inv_def)
  from live_at_disjoint [OF _ _ assms(4) kheap_rel_sizes [OF bs]] assms(2,3) show ?thesis
    unfolding live_blocks_rel [OF bs] by blast
qed

lemma live_block_addr_lt:
  "kheap_inv h \<Longrightarrow> (a, s) \<in> live_blocks h \<Longrightarrow> a + 32 < 18446744073709551616"
  using live_block_range [of h a s] unat64_lt [of "heap_limit h"] by linarith

lemma live_block_size_unique:
  "kheap_inv h \<Longrightarrow> (a, s) \<in> live_blocks h \<Longrightarrow> (a, u) \<in> live_blocks h \<Longrightarrow> s = u"
  using live_blocks_disjoint [of h a s a u] live_block_range(3) [of h a s]
    live_block_range(3) [of h a u] by fastforce

lemma live_ptr_iff:
  assumes "kheap_inv h" and "(a, s) \<in> live_blocks h \<or> a + 32 < 18446744073709551616"
  shows "adr (a + 32) \<in> live_ptrs h \<longleftrightarrow> (\<exists>s. (a, s) \<in> live_blocks h)"
proof -
  have "a + 32 < 18446744073709551616" using assms live_block_addr_lt by blast
  then show ?thesis
    using assms(1) live_block_addr_lt [OF assms(1)]
    by (auto simp: live_ptrs_def adr_eq_iff image_iff split: prod.splits)
qed

interpretation heap: allocator kheap_inv live_ptrs heap_alloc kfree
proof
  fix h :: kheap_state and sz p and h' :: kheap_state
  assume inv: "kheap_inv h"
  have hs: "heap_start h \<noteq> 0" using inv kheap_rel_bounds(4) by (auto simp: kheap_inv_def)
  have triv: "heap_alloc sz h = (None, h)" if "sz = 0 \<or> sz > KHEAP_MAX_ALLOC"
    using that hs by (auto simp: heap_alloc_def kmalloc_def)
  have cases: "(heap_alloc sz h = (None, h)) \<or>
      (\<exists>t a s. heap_alloc sz h = (Some (adr (a + 32)), t) \<and> kheap_inv t \<and>
        live_blocks t = insert (a, s) (live_blocks h) \<and> (\<forall>u. (a, u) \<notin> live_blocks h) \<and>
        a + 32 < 18446744073709551616)"
  proof (cases "sz = 0 \<or> sz > KHEAP_MAX_ALLOC")
    case True
    with triv show ?thesis by simp
  next
    case False
    then have sz: "sz \<noteq> 0" "sz \<le> KHEAP_MAX_ALLOC" by auto
    show ?thesis
    proof (cases rule: kmalloc_correct [OF inv sz, case_names fail ok])
      case (fail bs)
      then show ?thesis by (simp add: heap_alloc_def)
    next
      case (ok t a s)
      then have "a + 32 < 18446744073709551616" using live_block_addr_lt [of t a s] by simp
      moreover from this have "adr (a + 32) \<noteq> 0" by (simp add: adr_eq_0_iff)
      ultimately show ?thesis using ok by (auto simp: heap_alloc_def)
    qed
  qed
  show "kheap_inv (snd (heap_alloc sz h))" using cases inv by auto
  show "p \<notin> live_ptrs h" if "heap_alloc sz h = (Some p, h')"
    using cases that live_ptr_iff [OF inv] by auto
  show "live_ptrs h' = insert p (live_ptrs h)" if "heap_alloc sz h = (Some p, h')"
    using cases that by (auto simp: live_ptrs_def)
  show "live_ptrs h' = live_ptrs h" if "heap_alloc sz h = (None, h')"
    using cases that by auto
  assume live: "p \<in> live_ptrs h"
  then obtain a s where a: "(a, s) \<in> live_blocks h" "p = adr (a + 32)" by (auto simp: live_ptrs_def)
  note k = kfree_correct [OF inv a(1)]
  show "kheap_inv (kfree p h)" using k(1) a(2) by simp
  have "live_ptrs (kfree p h) = (\<lambda>(a, sz). adr (a + 32)) ` (live_blocks h - {(a, s)})"
    using k(3) a(2) by (simp add: live_ptrs_def)
  moreover have "inj_on (\<lambda>(a, sz). adr (a + 32)) (live_blocks h)"
    using live_block_addr_lt [OF inv] live_block_size_unique [OF inv]
    by (auto simp: inj_on_def adr_eq_iff)
  ultimately show "live_ptrs (kfree p h) = live_ptrs h - {p}"
    using a by (simp add: live_ptrs_def inj_on_image_set_diff [where C = "live_blocks h"])
qed

section \<open>Initialisation\<close>

text \<open>
  The first and last frame of the heap: \<open>k\<close> kernel frames are reserved and \<open>m\<close> frames exist.
\<close>

definition heap_first :: "nat \<Rightarrow> nat" where
  "heap_first k = max 1024 k"

definition heap_end :: "nat \<Rightarrow> nat \<Rightarrow> nat" where
  "heap_end k m = (if m = 0 then heap_first k + 8192 else max (heap_first k) (min (heap_first k + 8192) m))"

lemma align_page: "f * 4096 + 4095 < 18446744073709551616 \<Longrightarrow> ALIGN_UP (adr (f * 4096)) 4096 = adr (f * 4096)"
  "f * 4096 < 18446744073709551616 \<Longrightarrow> ALIGN_DOWN (adr (f * 4096)) 4096 = adr (f * 4096)"
proof -
  assume lt: "f * 4096 + 4095 < 18446744073709551616"
  then have "unat (ALIGN_UP (adr (f * 4096)) 4096) = (f * 4096 + 4095) div 4096 * 4096"
    using unat_align_up(2) [of "adr (f * 4096)"] by (simp add: unat_adr)
  then have "unat (ALIGN_UP (adr (f * 4096)) 4096) = f * 4096" by simp
  then show "ALIGN_UP (adr (f * 4096)) 4096 = adr (f * 4096)" by (metis adr_unat)
next
  assume "f * 4096 < 18446744073709551616"
  then have "unat (ALIGN_DOWN (adr (f * 4096)) 4096) = f * 4096"
    using unat_align_down(2) [of "adr (f * 4096)"] by (simp add: unat_adr)
  then show "ALIGN_DOWN (adr (f * 4096)) 4096 = adr (f * 4096)" by (metis adr_unat)
qed

lemma kheap_region_words:
  assumes "k < 1099511627776" and "m \<le> 16777216"
  defines "s \<equiv> (if adr (k * 4096) > KHEAP_START then adr (k * 4096) else KHEAP_START)"
  defines "z \<equiv> (if adr (m * 4096) \<noteq> 0 \<and> s + KHEAP_INITIAL_SIZE > adr (m * 4096)
     then if adr (m * 4096) > s then adr (m * 4096) - s else 0 else KHEAP_INITIAL_SIZE)"
  shows "s = adr (heap_first k * 4096)" and "s + z = adr (heap_end k m * 4096)"
proof -
  have K: "KHEAP_START = adr (1024 * 4096)" "KHEAP_INITIAL_SIZE = of_nat (8192 * 4096)"
    by (simp_all add: KHEAP_START_def KHEAP_INITIAL_SIZE_def adr_def)
  have lt: "k * 4096 < 18446744073709551616" "m * 4096 < 18446744073709551616"
    "heap_first k * 4096 < 18446744073709551616" "heap_first k * 4096 + 8192 * 4096 < 18446744073709551616"
    using assms(1,2) by (auto simp: heap_first_def)
  show s: "s = adr (heap_first k * 4096)"
    using lt of_nat64_less_iff [of "1024 * 4096" "k * 4096"]
    by (auto simp: s_def K heap_first_def adr_def max_def simp del: of_nat_mult)
  have z: "z = (if m \<noteq> 0 \<and> heap_first k + 8192 > m
      then if m > heap_first k then of_nat (m * 4096 - heap_first k * 4096) else 0
      else of_nat (8192 * 4096))"
    using lt unfolding z_def s K adr_add
    by (auto simp: adr_def of_nat64_less_iff of_nat64_eq_0_iff simp del: of_nat_mult of_nat_add)
  show "s + z = adr (heap_end k m * 4096)"
    unfolding s z by (auto simp: adr_def heap_end_def min_def max_def)
qed

lemma kheap_bounds_eq:
  assumes "pmm_inv pmm" and "kernel_reserved_end pmm = of_nat (k * PAGE_SIZE)" and "k < 1099511627776"
  shows "kheap_bounds pmm = (adr (heap_first k * 4096), adr (heap_end k (unat (max_frames pmm)) * 4096))"
proof -
  let ?m = "unat (max_frames pmm)"
  let ?s = "if adr (k * 4096) > KHEAP_START then adr (k * 4096) else KHEAP_START"
  let ?z = "if adr (?m * 4096) \<noteq> 0 \<and> ?s + KHEAP_INITIAL_SIZE > adr (?m * 4096)
     then if adr (?m * 4096) > ?s then adr (?m * 4096) - ?s else 0 else KHEAP_INITIAL_SIZE"
  have m: "?m \<le> 16777216" using assms(1) by (simp add: pmm_inv_def)
  have res: "pmm_kernel_reserved_end pmm = adr (k * 4096)"
    using assms(2) by (simp add: pmm_kernel_reserved_end_def adr_def PAGE_SIZE_def)
  have tot: "pmm_total pmm = adr (?m * 4096)"
    by (simp add: pmm_total_def adr_def PAGE_SIZE_def)
  have "kheap_bounds pmm = (ALIGN_UP ?s 4096, ALIGN_DOWN (?s + ?z) 4096)"
    unfolding kheap_bounds_def res tot Let_def ..
  also have "\<dots> = (ALIGN_UP (adr (heap_first k * 4096)) 4096, ALIGN_DOWN (adr (heap_end k ?m * 4096)) 4096)"
    unfolding kheap_region_words(2) [OF assms(3) m] unfolding kheap_region_words(1) [OF assms(3) m] ..
  also have "\<dots> = (adr (heap_first k * 4096), adr (heap_end k ?m * 4096))"
  proof -
    have "heap_first k * 4096 + 4095 < 18446744073709551616"
      "heap_end k ?m * 4096 < 18446744073709551616"
      using assms(3) m by (auto simp: heap_first_def heap_end_def)
    then show ?thesis by (simp only: align_page)
  qed
  finally show ?thesis .
qed

lemma kheap_init_correct:
  assumes "pmm_inv pmm" and "ready pmm" and "kernel_reserved_end pmm = of_nat (k * PAGE_SIZE)"
    and "k < 1099511627776" and "heap_start h = 0" and "kheap_init pmm h = (pmm', h')"
    and "s = heap_first k" and "e = heap_end k (unat (max_frames pmm))"
  shows "if e = s then heap_start h' = 0 \<and> pmm' = pmm
    else kheap_rel h' [((e - s) * 4096, True)] \<and> unat (heap_base h') = s * 4096 \<and> s < e \<and>
      pmm_inv pmm' \<and> used pmm' = used pmm \<union> {f. f < unat (max_frames pmm) \<and> s \<le> f \<and> f < e}"
proof -
  have se: "s \<le> e" "e \<le> s + 8192" "1024 \<le> s" "s < 1099511627777"
    using assms(4) by (auto simp: assms(7,8) heap_end_def heap_first_def)
  have lt: "s * 4096 + 4095 < 18446744073709551616" "e * 4096 + 4095 < 18446744073709551616"
    using se by linarith+
  let ?n = "(e - s) * 4096"
  have size: "adr (e * 4096) - adr (s * 4096) = of_nat ?n"
    using se(1) by (simp add: adr_def algebra_simps)
  have small: "((of_nat ?n :: u64) < HDR_SIZE + FTR_SIZE) \<longleftrightarrow> e = s"
    using se lt of_nat64_less_iff [of "(e - s) * 4096" 48]
    by (auto simp: HDR_SIZE_def FTR_SIZE_def simp del: of_nat_mult)
  define h2 where "h2 = set_hdr (adr (s * 4096)) (\<lambda>_. header_of ?n True 0 0)
    (h\<lparr>heap_base := adr (s * 4096), heap_limit := adr (e * 4096), heap_start := adr (s * 4096)\<rparr>)"
  have b: "kheap_bounds pmm = (adr (s * 4096), adr (e * 4096))"
    using kheap_bounds_eq [OF assms(1,3,4)] by (simp add: assms(7,8))
  have init: "(pmm', h') = (if e = s then (pmm, h\<lparr>heap_base := adr (s * 4096), heap_limit := adr (e * 4096)\<rparr>)
     else (pmm_reserve_range (adr (s * 4096)) (of_nat ?n) pmm, write_footer (adr (s * 4096)) (of_nat ?n) h2))"
    unfolding assms(6) [symmetric] kheap_init_def b Let_def
    by (simp add: size small h2_def header_of_def set_hdr_def write_footer_def set_ftr_def
        del: of_nat_mult)
  show ?thesis
  proof (cases "e = s")
    case True
    with init assms(5) show ?thesis by simp
  next
    case False
    with se(1) have less: "s < e" by simp
    have foot: "get_footer h2 (adr (s * 4096)) = adr (s * 4096 + ?n - 16)"
      using less footer_addr [of h2 "s * 4096" ?n] by (simp add: h2_def header_of_def)
    have h': "h' = set_ftr (adr (s * 4096 + ?n - 16)) (footer_of ?n) h2"
      using init False by (simp add: write_footer_def foot footer_of_def)
    have "seg h' (s * 4096) 0 [(?n, True)] 0"
      using less by (simp add: h' h2_def)
    moreover have bounds: "heap_start h' = adr (s * 4096)" "heap_base h' = adr (s * 4096)"
      "heap_limit h' = adr (e * 4096)"
      by (simp_all add: h' h2_def set_hdr_def set_ftr_def)
    moreover have u: "unat (adr (s * 4096)) = s * 4096" "unat (adr (e * 4096)) = e * 4096"
      using lt by (simp_all add: unat_adr)
    moreover have "adr (s * 4096) \<noteq> 0" using lt se by (simp add: adr_eq_0_iff)
    ultimately have rel: "kheap_rel h' [(?n, True)]"
      using less by (simp add: kheap_rel_def diff_mult_distrib)
    have pmm': "pmm' = pmm_reserve_range (adr (s * 4096)) (of_nat ?n) pmm" using init False by simp
    have un: "unat (of_nat ?n :: u64) = ?n" using lt by (intro unat64_of_nat) simp
    have sum: "s * 4096 + ?n = e * 4096" using less by (simp add: diff_mult_distrib)
    have nz: "(of_nat ?n :: u64) \<noteq> 0" using lt less by (subst of_nat64_eq_0_iff) simp_all
    have rr: "pmm_inv pmm'" "used pmm' = used pmm \<union> {f. f < unat (max_frames pmm) \<and>
        s * 4096 < (f + 1) * 4096 \<and> f * 4096 < e * 4096}"
      using pmm_reserve_range_correct [OF assms(1,2) nz, of "adr (s * 4096)"] lt(2)
      unfolding pmm' u un sum PAGE_SIZE_def by simp_all
    have "{f. f < unat (max_frames pmm) \<and> s * 4096 < (f + 1) * 4096 \<and> f * 4096 < e * 4096} =
       {f. f < unat (max_frames pmm) \<and> s \<le> f \<and> f < e}" by auto
    with rel bounds u rr less show ?thesis using False by simp
  qed
qed

lemma kernel_frames_bound: "unat end_addr < 2251799813685248 \<Longrightarrow> kernel_frames mem end_addr < 1099511627776"
  using managed_frames_le [of mem] by (simp add: kernel_frames_def)

text \<open>The heap that boot sets up, when the region left for it is not empty.\<close>

lemma boot_heap:
  assumes "0x1000 \<le> mb_addr" and "unat end_addr < 2251799813685248" and "heap_start h = 0"
    and "kheap_init (pmm_init mem end_addr mb_addr p) h = (pmm', h0)" and "k = kernel_frames mem end_addr"
    and "heap_first k < heap_end k (managed_frames mem)"
  shows "kheap_rel h0 [((heap_end k (managed_frames mem) - heap_first k) * 4096, True)]"
proof -
  have e: "unat end_addr < 9223372036854775808" using assms(2) by simp
  from pmm_init_shape [OF assms(1) e refl] have q: "pmm_inv (pmm_init mem end_addr mb_addr p)" "ready (pmm_init mem end_addr mb_addr p)"
    "unat (max_frames (pmm_init mem end_addr mb_addr p)) = managed_frames mem"
    "kernel_reserved_end (pmm_init mem end_addr mb_addr p) = of_nat (k * PAGE_SIZE)"
    by (simp_all add: assms(5))
  have k: "k < 1099511627776" using kernel_frames_bound [OF assms(2)] by (simp add: assms(5))
  show ?thesis using kheap_init_correct [OF q(1,2,4) k assms(3,4) refl refl] assms(6) q(3) by (simp split: if_splits)
qed

section \<open>Histories of the heap\<close>

text \<open>
  The heap after any history of calls: allocations of any size, releases of live payloads and
  calls of \<open>kfree\<close> with the null pointer.
\<close>

inductive heap_reach :: "kheap_state \<Rightarrow> kheap_state \<Rightarrow> bool" for h0 where
  start: "heap_reach h0 h0"
| malloc: "heap_reach h0 h \<Longrightarrow> kmalloc sz h = Some (p, h') \<Longrightarrow> heap_reach h0 h'"
| free: "heap_reach h0 h \<Longrightarrow> p \<in> live_ptrs h \<or> p = 0 \<Longrightarrow> heap_reach h0 (kfree p h)"

lemma kmalloc_inv:
  assumes "kheap_inv h" and "kmalloc sz h = Some (p, h')"
  shows "kheap_inv h' \<and> same_bounds h h'"
proof (cases "sz = 0 \<or> sz > KHEAP_MAX_ALLOC")
  case True
  then have "h' = h" using assms by (auto simp: kmalloc_def split: if_splits)
  with assms(1) show ?thesis by simp
next
  case False
  then have sz: "sz \<noteq> 0" "sz \<le> KHEAP_MAX_ALLOC" by auto
  show ?thesis
    by (cases rule: kmalloc_correct [OF assms(1) sz]) (use assms in auto)
qed

lemma heap_reach_inv:
  assumes "heap_reach h0 h" and "kheap_inv h0"
  shows "kheap_inv h \<and> same_bounds h0 h"
  using assms(1)
proof induction
  case start
  with assms(2) show ?case by simp
next
  case (malloc h sz p h')
  then show ?case using kmalloc_inv [of h sz p h'] by (auto simp: same_bounds_def)
next
  case (free h p)
  show ?case
  proof (cases "p = 0")
    case True
    then have "kfree p h = h" by (simp add: kfree_def)
    with free.IH show ?thesis by simp
  next
    case False
    with free.hyps obtain a s where "(a, s) \<in> live_blocks h" "p = adr (a + 32)"
      by (auto simp: live_ptrs_def)
    with free.IH kfree_correct [of h a s] show ?thesis by (auto simp: same_bounds_def)
  qed
qed

lemma tight_all_free:
  assumes "tight bs" and "live_at a bs = {}" and "bs \<noteq> []"
  shows "\<exists>z. bs = [(z, True)]"
  using assms
  by (cases bs; cases "tl bs") (auto simp: tight_Cons split: if_splits prod.splits)

lemma rel_span:
  assumes "kheap_rel h bs" and "same_bounds h0 h"
  shows "tot bs = unat (heap_limit h0) - unat (heap_base h0)"
proof -
  have "unat (heap_limit h) = unat (heap_base h) + tot bs" using assms(1) by (simp add: kheap_rel_def)
  moreover have "heap_limit h = heap_limit h0" "heap_base h = heap_base h0"
    using assms(2) by (simp_all add: same_bounds_def)
  ultimately show ?thesis by simp
qed

lemma rel_tight_inv: "kheap_rel h [(z, f)] \<Longrightarrow> kheap_inv h"
  by (auto simp: kheap_inv_def)

text \<open>The state before boot.\<close>

definition no_heap :: kheap_state where
  "no_heap = \<lparr>heap_start = 0, heap_base = 0, heap_limit = 0, hdr = (\<lambda>_. header_of 0 False 0 0),
     ftr = (\<lambda>_. footer_of 0)\<rparr>"

text \<open>A small heap of one page, to run the properties on.\<close>

definition one_page_heap :: kheap_state where
  "one_page_heap = \<lparr>heap_start = 0x400000, heap_base = 0x400000, heap_limit = 0x401000,
     hdr = (\<lambda>_. header_of 4096 True 0 0), ftr = (\<lambda>_. footer_of 4096)\<rparr>"

lemma one_page_heap_rel: "kheap_rel one_page_heap [(4096, True)]"
  by (simp add: kheap_rel_def one_page_heap_def)

lemma one_page_heap_inv: "kheap_inv one_page_heap"
  using one_page_heap_rel by (auto simp: kheap_inv_def)

lemma one_page_heap_live: "live_blocks one_page_heap = {}"
  by (simp add: live_blocks_rel [OF one_page_heap_rel])

section \<open>Properties\<close>

text \<open>
  C1. On a well-formed heap \<open>kmalloc\<close> of a permitted size always returns. Either it returns the
  null pointer, leaves the heap as it was and no free block is large enough, or it returns the
  payload of a block that lies inside the heap, was not live, overlaps no live block, has room
  for the payload beside its header and footer and is 8-byte aligned; exactly that block becomes
  live and the heap stays well-formed.
\<close>

theorem kmalloc_spec:
  assumes "kheap_inv h" and "sz \<noteq> 0" and "sz \<le> KHEAP_MAX_ALLOC"
  shows "(kmalloc sz h = Some (0, h) \<and>
      (\<forall>bs. kheap_rel h bs \<longrightarrow> (\<forall>(s, fr) \<in> set bs. fr \<longrightarrow> s < needed_for (unat sz)))) \<or>
    (\<exists>h' a s. kmalloc sz h = Some (adr (a + 32), h') \<and> kheap_inv h' \<and>
      live_blocks h' = insert (a, s) (live_blocks h) \<and> unat sz + 48 \<le> s \<and> 8 dvd a + 32 \<and>
      unat (heap_base h) \<le> a \<and> a + s \<le> unat (heap_limit h) \<and>
      (\<forall>(c, u) \<in> live_blocks h. a + s \<le> c \<or> c + u \<le> a))"
proof (cases rule: kmalloc_correct [OF assms, case_names fail ok])
  case (fail bs)
  then show ?thesis using kheap_rel_unique by blast
next
  case (ok h' a s)
  have new: "(a, s) \<in> live_blocks h'" using ok by simp
  have rng: "unat (heap_base h) \<le> a" "a + s \<le> unat (heap_limit h)"
    using live_block_range [OF ok(2) new] ok(3) by (simp_all add: same_bounds_def)
  have "a + s \<le> c \<or> c + u \<le> a" if "(c, u) \<in> live_blocks h" for c u
    using live_blocks_disjoint [OF ok(2) new, of c u] ok(4,5) that by auto
  moreover have "unat sz + 48 \<le> s" using ok(6) by (simp add: needed_for_def)
  moreover have "8 dvd a + 32" using ok(7) by simp
  ultimately show ?thesis using ok(1,2,4) rng by blast
qed

theorem kmalloc_spec_witness:
  "kheap_inv one_page_heap \<and>
   ((kmalloc 100 one_page_heap = Some (0, one_page_heap) \<and>
      (\<forall>bs. kheap_rel one_page_heap bs \<longrightarrow> (\<forall>(s, fr) \<in> set bs. fr \<longrightarrow> s < needed_for (unat (100 :: u64))))) \<or>
    (\<exists>h' a s. kmalloc 100 one_page_heap = Some (adr (a + 32), h') \<and> kheap_inv h' \<and>
      live_blocks h' = insert (a, s) (live_blocks one_page_heap) \<and> unat (100 :: u64) + 48 \<le> s \<and> 8 dvd a + 32 \<and>
      unat (heap_base one_page_heap) \<le> a \<and> a + s \<le> unat (heap_limit one_page_heap) \<and>
      (\<forall>(c, u) \<in> live_blocks one_page_heap. a + s \<le> c \<or> c + u \<le> a)))"
  using one_page_heap_inv kmalloc_spec [OF one_page_heap_inv, of 100]
  by (simp add: KHEAP_MAX_ALLOC_def)

text \<open>
  C2. Releasing a live payload with \<open>kfree\<close> takes exactly that block out of the live blocks,
  keeps the heap well-formed (tiled by valid blocks, with no two neighbouring free blocks) and
  leaves its bounds alone.
\<close>

theorem kfree_spec:
  assumes "kheap_inv h" and "(a, s) \<in> live_blocks h"
  shows "kheap_inv (kfree (adr (a + 32)) h) \<and>
    live_blocks (kfree (adr (a + 32)) h) = live_blocks h - {(a, s)} \<and>
    heap_base (kfree (adr (a + 32)) h) = heap_base h \<and> heap_limit (kfree (adr (a + 32)) h) = heap_limit h"
  using kfree_correct [OF assms] by (simp add: same_bounds_def)

theorem kfree_spec_witness:
  "\<exists>h a s. kmalloc 100 one_page_heap = Some (adr (a + 32), h) \<and> kheap_inv h \<and>
     (a, s) \<in> live_blocks h \<and> kheap_inv (kfree (adr (a + 32)) h) \<and>
     live_blocks (kfree (adr (a + 32)) h) = live_blocks h - {(a, s)}"
proof (cases rule: kmalloc_correct [OF one_page_heap_inv, of 100, case_names sz0 le fail ok])
  case (fail bs)
  then have "bs = [(4096, True)]" using kheap_rel_unique one_page_heap_rel by blast
  with fail(3) show ?thesis by (simp add: needed_for_def)
next
  case (ok h a s)
  then have "(a, s) \<in> live_blocks h" by simp
  with kfree_spec [OF ok(2) this] ok show ?thesis by blast
qed (simp_all add: KHEAP_MAX_ALLOC_def)

text \<open>
  C3. From boot on: when \<open>pmm_init\<close> and \<open>kheap_init\<close> find room for a heap, then after any history of allocations and
  releases the heap is a chain of valid blocks that tiles its region, no two neighbouring blocks
  are free, and live blocks are pairwise disjoint. Its statistics add up: \<open>kheap_get_used\<close> and \<open>kheap_get_free\<close>
  both return the sums over the chain, and together they are the region from the end of the kernel (at least 4 MiB) to 32 MiB
  further or the end of memory. \<open>kheap_validate\<close> accepts the heap precisely when it has at most 100000 blocks.
\<close>

theorem heap_history:
  assumes "0x1000 \<le> mb_addr" and "unat end_addr < 2251799813685248" and "heap_start h = 0"
    and "k = kernel_frames mem end_addr" and "heap_first k < heap_end k (managed_frames mem)"
    and "kheap_init (pmm_init mem end_addr mb_addr p) h = (pmm', h0)" and "heap_reach h0 h1"
  shows "\<exists>bs u f. kheap_rel h1 bs \<and> tight bs \<and>
    kheap_get_used h1 = Some (of_nat u) \<and> u = sum_sizes False bs \<and>
    kheap_get_free h1 = Some (of_nat f) \<and> f = sum_sizes True bs \<and>
    u + f = (heap_end k (managed_frames mem) - heap_first k) * 4096 \<and>
    (\<forall>(a, s) \<in> live_blocks h1. \<forall>(c, t) \<in> live_blocks h1. (a, s) \<noteq> (c, t) \<longrightarrow> a + s \<le> c \<or> c + t \<le> a) \<and>
    kheap_validate h1 = (length bs \<le> 100000)"
proof -
  note h0 = boot_heap [OF assms(1-3,6,4,5)]
  have inv: "kheap_inv h1" and sb: "same_bounds h0 h1" using heap_reach_inv [OF assms(7) rel_tight_inv [OF h0]] by auto
  obtain bs where bs: "kheap_rel h1 bs" "tight bs" using inv by (auto simp: kheap_inv_def)
  have "sum_sizes False bs + sum_sizes True bs = (heap_end k (managed_frames mem) - heap_first k) * 4096"
    using sum_sizes_total [of bs] rel_span [OF bs(1) sb] rel_span [OF h0 same_bounds_simps(1)] by simp
  moreover have "\<forall>(a, s) \<in> live_blocks h1. \<forall>(c, t) \<in> live_blocks h1. (a, s) \<noteq> (c, t) \<longrightarrow> a + s \<le> c \<or> c + t \<le> a"
    using live_blocks_disjoint [OF inv] by blast
  ultimately show ?thesis using bs kheap_sums [OF bs(1)] kheap_validate_rel [OF bs(1)] by blast
qed

theorem heap_history_witness:
  "\<exists>pmm' h0 h1 a s bs u f. kheap_init (pmm_init 0x2000000 0x200000 0x10000 pmm_initial) no_heap = (pmm', h0) \<and>
     kmalloc 100 h0 = Some (adr (a + 32), h1) \<and> live_blocks h1 = {(a, s)} \<and> kheap_rel h1 bs \<and> tight bs \<and>
     kheap_get_used h1 = Some (of_nat u) \<and> kheap_get_free h1 = Some (of_nat f) \<and> u + f = 29360128"
proof -
  obtain pmm' h0 where i: "kheap_init (pmm_init 0x2000000 0x200000 0x10000 pmm_initial) no_heap = (pmm', h0)"
    by (cases "kheap_init (pmm_init 0x2000000 0x200000 0x10000 pmm_initial) no_heap")
  have n: "kernel_frames 0x2000000 0x200000 = 513" "managed_frames 0x2000000 = 8192" "heap_first 513 = 1024" "heap_end 513 8192 = 8192"
    by (simp_all add: kernel_frames_def managed_frames_def heap_first_def heap_end_def)
  have rel: "kheap_rel h0 [(29360128, True)]"
    using boot_heap [where mb_addr = "0x10000" and end_addr = "0x200000", OF _ _ _ i refl] n by (simp add: no_heap_def)
  have live: "live_blocks h0 = {}" by (simp add: live_blocks_rel [OF rel])
  show ?thesis
  proof (cases rule: kmalloc_correct [OF rel_tight_inv [OF rel], of 100, case_names sz0 le fail ok])
    case (fail bs)
    then have "bs = [(29360128, True)]" using kheap_rel_unique rel by blast
    with fail(3) show ?thesis by (simp add: needed_for_def)
  next
    case (ok h1 a s)
    have r: "heap_reach h0 h1" by (rule malloc [OF start ok(1)])
    from heap_history [where mb_addr = "0x10000" and end_addr = "0x200000", OF _ _ _ refl _ i r] n show ?thesis
      using i ok(1) ok(4) live by (fastforce simp: no_heap_def)
  qed (simp_all add: KHEAP_MAX_ALLOC_def)
qed

text \<open>
  C4. Coalescing is complete: after any history at whose end nothing is live, the heap is one
  single free block that spans it.
\<close>

theorem heap_all_freed:
  assumes "kheap_inv h0" and "heap_reach h0 h" and "live_blocks h = {}"
  shows "kheap_rel h [(unat (heap_limit h0) - unat (heap_base h0), True)]"
proof -
  have inv: "kheap_inv h" and sb: "same_bounds h0 h" using heap_reach_inv [OF assms(2,1)] by auto
  obtain bs where bs: "kheap_rel h bs" "tight bs" using inv by (auto simp: kheap_inv_def)
  have "live_at (unat (heap_base h)) bs = {}" "bs \<noteq> []"
    using assms(3) bs(1) by (auto simp: live_blocks_rel kheap_rel_def)
  then obtain z where z: "bs = [(z, True)]" using tight_all_free bs(2) by blast
  have "z = unat (heap_limit h0) - unat (heap_base h0)"
    using rel_span [OF bs(1) sb] by (simp add: z)
  with bs(1) z show ?thesis by simp
qed

theorem heap_all_freed_witness:
  "\<exists>h. heap_reach one_page_heap h \<and> live_blocks h = {} \<and> kheap_rel h [(4096, True)]"
proof (cases rule: kmalloc_correct [OF one_page_heap_inv, of 100, case_names sz0 le fail ok])
  case (fail bs)
  then have "bs = [(4096, True)]" using kheap_rel_unique one_page_heap_rel by blast
  with fail(3) show ?thesis by (simp add: needed_for_def)
next
  case (ok h a s)
  have r: "heap_reach one_page_heap h" by (rule malloc [OF start ok(1)])
  have live: "live_blocks h = {(a, s)}" using ok(4) one_page_heap_live by simp
  then have p: "adr (a + 32) \<in> live_ptrs h" by (force simp: live_ptrs_def)
  have "heap_reach one_page_heap (kfree (adr (a + 32)) h)" using r p by (blast intro: heap_reach.free)
  moreover have "live_blocks (kfree (adr (a + 32)) h) = {}"
    using kfree_correct(3) [OF ok(2)] live by simp
  ultimately show ?thesis
    using heap_all_freed [OF one_page_heap_inv] by (fastforce simp: one_page_heap_def)
qed (simp_all add: KHEAP_MAX_ALLOC_def)

end
