(* ===== verification/Multiboot.thy ===== *)
theory Multiboot
  imports KLog
begin

text \<open>
  The Multiboot2 tag walk of \<open>src/kernel/core/multiboot.c\<close> and the memory-map helpers of
  \<open>src/kernel/mm/pmm/pmm.c\<close>. Boot information is memory the loader wrote: a record of the three
  read widths the structs of \<open>multiboot.h\<close> need, with the field offsets written out. A tag list
  without an end tag makes the walks run forever, so they are partial; the theorems show that
  they return on every list that has one.
\<close>

section \<open>Boot memory and tags\<close>

record mb_mem =
  rd8 :: "ptr \<Rightarrow> u8"
  rd32 :: "ptr \<Rightarrow> u32"
  rd64 :: "ptr \<Rightarrow> u64"

definition MULTIBOOT_TAG_TYPE_END :: u32 where "MULTIBOOT_TAG_TYPE_END = 0"
definition MULTIBOOT_TAG_TYPE_BASIC_MEMINFO :: u32 where "MULTIBOOT_TAG_TYPE_BASIC_MEMINFO = 4"
definition MULTIBOOT_TAG_TYPE_MMAP :: u32 where "MULTIBOOT_TAG_TYPE_MMAP = 6"
definition MULTIBOOT_TAG_TYPE_FRAMEBUFFER :: u32 where "MULTIBOOT_TAG_TYPE_FRAMEBUFFER = 8"

definition tag_type :: "mb_mem \<Rightarrow> ptr \<Rightarrow> u32" where
  "tag_type m tag = rd32 m tag"

definition tag_size :: "mb_mem \<Rightarrow> ptr \<Rightarrow> u32" where
  "tag_size m tag = rd32 m (tag + 4)"

text \<open>The step to the next tag: the size is rounded up to 8 in 32-bit arithmetic.\<close>

definition next_tag :: "mb_mem \<Rightarrow> ptr \<Rightarrow> ptr" where
  "next_tag m tag = tag + ucast ((tag_size m tag + 7) AND NOT 7)"

partial_function (option) find_tag :: "mb_mem \<Rightarrow> u32 \<Rightarrow> ptr \<Rightarrow> ptr option option" where
  "find_tag m ty tag =
     (if tag_type m tag = MULTIBOOT_TAG_TYPE_END then Some None
      else if tag_type m tag = ty then Some (Some tag)
      else find_tag m ty (next_tag m tag))"

section \<open>Queries\<close>

record mb_state =
  total_memory_kb :: u64
  multiboot_addr :: u64

definition multiboot_init :: "u64 \<Rightarrow> mb_state \<Rightarrow> mb_state" where
  "multiboot_init addr s = s\<lparr>multiboot_addr := addr\<rparr>"

definition multiboot_get_total_memory :: "mb_mem \<Rightarrow> mb_state \<Rightarrow> (u64 \<times> mb_state) option" where
  "multiboot_get_total_memory m s =
     (if multiboot_addr s = 0 then Some (512 * 1024, s)
      else
        case find_tag m MULTIBOOT_TAG_TYPE_BASIC_MEMINFO (multiboot_addr s + 8) of
          None \<Rightarrow> None
        | Some None \<Rightarrow> Some (512 * 1024 * 1024, s)
        | Some (Some tag) \<Rightarrow>
            let kb = ucast (rd32 m (tag + 8) + rd32 m (tag + 12));
                s = s\<lparr>total_memory_kb := kb\<rparr>
            in Some (total_memory_kb s * 1024, s))"

record framebuffer_info =
  fb_addr :: u64
  fb_pitch :: u32
  fb_width :: u32
  fb_height :: u32
  fb_bpp :: u8
  fb_type :: u8

function find_tag_bounded :: "mb_mem \<Rightarrow> u32 \<Rightarrow> ptr \<Rightarrow> nat \<Rightarrow> ptr option" where
  "find_tag_bounded m ty tag tag_count =
     (if tag_type m tag \<noteq> MULTIBOOT_TAG_TYPE_END \<and> tag_count < 50
      then if tag_type m tag = ty then Some tag
           else find_tag_bounded m ty (next_tag m tag) (tag_count + 1)
      else None)"
  by pat_completeness auto
termination
  by (relation "measure (\<lambda>(m, ty, tag, n). 50 - n)") auto

declare find_tag_bounded.simps [simp del]

text \<open>The information written through the caller's pointer, or the warning logged.\<close>

definition multiboot_get_framebuffer ::
  "mb_mem \<Rightarrow> mb_state \<Rightarrow> bool \<Rightarrow> framebuffer_info option \<times> klog_event list" where
  "multiboot_get_framebuffer m s info_nonnull =
     (if multiboot_addr s = 0 \<or> \<not> info_nonnull
      then (None, [Warn ''Multiboot: no address or info pointer''])
      else
        case find_tag_bounded m MULTIBOOT_TAG_TYPE_FRAMEBUFFER (multiboot_addr s + 8) 0 of
          Some tag \<Rightarrow>
            (Some \<lparr>fb_addr = rd64 m (tag + 8), fb_pitch = rd32 m (tag + 16),
               fb_width = rd32 m (tag + 20), fb_height = rd32 m (tag + 24),
               fb_bpp = rd8 m (tag + 28), fb_type = rd8 m (tag + 29)\<rparr>, [])
        | None \<Rightarrow> (None, [Warn ''Multiboot: no framebuffer tag found'']))"

text \<open>The helpers of \<open>pmm.c\<close> that locate the memory map.\<close>

definition get_first_mmap_entry :: "mb_mem \<Rightarrow> u64 \<Rightarrow> ptr option" where
  "get_first_mmap_entry m mb_addr =
     (case find_tag m MULTIBOOT_TAG_TYPE_MMAP (mb_addr + 8) of
        None \<Rightarrow> None
      | Some None \<Rightarrow> Some 0
      | Some (Some tag) \<Rightarrow> Some (tag + 16))"

definition get_mmap_tag :: "mb_mem \<Rightarrow> u64 \<Rightarrow> ptr option" where
  "get_mmap_tag m mb_addr =
     (case find_tag m MULTIBOOT_TAG_TYPE_MMAP (mb_addr + 8) of
        None \<Rightarrow> None
      | Some None \<Rightarrow> Some 0
      | Some (Some tag) \<Rightarrow> Some tag)"

definition get_mmap_end :: "mb_mem \<Rightarrow> u64 \<Rightarrow> ptr option" where
  "get_mmap_end m mb_addr =
     (case find_tag m MULTIBOOT_TAG_TYPE_MMAP (mb_addr + 8) of
        None \<Rightarrow> None
      | Some None \<Rightarrow> Some 0
      | Some (Some tag) \<Rightarrow> Some (tag + ucast (tag_size m tag)))"

definition get_mmap_entry_size :: "mb_mem \<Rightarrow> u64 \<Rightarrow> u32 option" where
  "get_mmap_entry_size m mb_addr =
     (case find_tag m MULTIBOOT_TAG_TYPE_MMAP (mb_addr + 8) of
        None \<Rightarrow> None
      | Some None \<Rightarrow> Some 24
      | Some (Some tag) \<Rightarrow> Some (rd32 m (tag + 8)))"

section \<open>Well-formed tag lists\<close>

text \<open>\<open>tag_path m tag ts\<close>: the walk from \<open>tag\<close> visits the tags \<open>ts\<close> and then an end tag.\<close>

fun tag_path :: "mb_mem \<Rightarrow> ptr \<Rightarrow> ptr list \<Rightarrow> bool" where
  "tag_path m tag [] \<longleftrightarrow> tag_type m tag = MULTIBOOT_TAG_TYPE_END"
| "tag_path m tag (t # ts) \<longleftrightarrow>
     t = tag \<and> tag_type m tag \<noteq> MULTIBOOT_TAG_TYPE_END \<and> tag_path m (next_tag m tag) ts"

lemma find_tag_path:
  "tag_path m tag ts \<Longrightarrow> find_tag m ty tag = Some (find (\<lambda>t. tag_type m t = ty) ts)"
proof (induction ts arbitrary: tag)
  case Nil
  then show ?case by (subst find_tag.simps) simp
next
  case (Cons t ts)
  then show ?case by (subst find_tag.simps) auto
qed

lemma find_tag_bounded_path:
  "tag_path m tag ts \<Longrightarrow> n \<le> 50 \<Longrightarrow>
     find_tag_bounded m ty tag n = find (\<lambda>t. tag_type m t = ty) (take (50 - n) ts)"
proof (induction ts arbitrary: tag n)
  case Nil
  then show ?case by (subst find_tag_bounded.simps) simp
next
  case (Cons t ts)
  show ?case
  proof (cases "n < 50")
    case True
    then have "50 - n = Suc (50 - Suc n)" by simp
    with Cons True show ?thesis by (subst find_tag_bounded.simps) auto
  next
    case False
    with Cons.prems show ?thesis by (subst find_tag_bounded.simps) simp
  qed
qed

section \<open>Properties\<close>

text \<open>
  On boot information whose tags end in an end tag, \<open>multiboot_get_total_memory\<close> returns:
  1024 times the 32-bit sum of the two sizes of the first basic-memory tag, or 512 MB when there
  is none.
\<close>

theorem total_memory_returns:
  assumes "multiboot_addr s \<noteq> 0" and "tag_path m (multiboot_addr s + 8) ts"
  shows "\<exists>s'. multiboot_get_total_memory m s =
    Some (case find (\<lambda>t. tag_type m t = MULTIBOOT_TAG_TYPE_BASIC_MEMINFO) ts of
        None \<Rightarrow> 512 * 1024 * 1024
      | Some t \<Rightarrow> ucast (rd32 m (t + 8) + rd32 m (t + 12)) * 1024, s')"
  using assms find_tag_path [OF assms(2), of MULTIBOOT_TAG_TYPE_BASIC_MEMINFO]
  by (auto simp: multiboot_get_total_memory_def Let_def split: option.splits)

definition demo_boot :: mb_mem where
  "demo_boot = \<lparr>rd8 = (\<lambda>_. 0),
     rd32 = (\<lambda>a. if a = 0x1008 then 4 else if a = 0x100C then 16 else if a = 0x1010 then 640
                   else if a = 0x1014 then 130432 else 0),
     rd64 = (\<lambda>_. 0)\<rparr>"

theorem total_memory_returns_witness:
  "\<exists>s'. multiboot_get_total_memory demo_boot \<lparr>total_memory_kb = 0, multiboot_addr = 0x1000\<rparr>
     = Some (134217728, s')"
proof -
  let ?s = "\<lparr>total_memory_kb = 0, multiboot_addr = 0x1000\<rparr>"
  have "tag_path demo_boot (multiboot_addr ?s + 8) [0x1008]"
    by (simp add: demo_boot_def tag_type_def tag_size_def next_tag_def MULTIBOOT_TAG_TYPE_END_def)
  from total_memory_returns [OF _ this] show ?thesis
    by (simp add: demo_boot_def tag_type_def MULTIBOOT_TAG_TYPE_BASIC_MEMINFO_def)
qed

text \<open>
  \<open>multiboot_get_framebuffer\<close> finds a framebuffer tag exactly when one is among the first
  fifty tags, and then copies its fields.
\<close>

theorem framebuffer_within_fifty:
  assumes "multiboot_addr s \<noteq> 0" and "tag_path m (multiboot_addr s + 8) ts"
  shows "fst (multiboot_get_framebuffer m s True) =
    map_option (\<lambda>t. \<lparr>fb_addr = rd64 m (t + 8), fb_pitch = rd32 m (t + 16),
        fb_width = rd32 m (t + 20), fb_height = rd32 m (t + 24),
        fb_bpp = rd8 m (t + 28), fb_type = rd8 m (t + 29)\<rparr>)
      (find (\<lambda>t. tag_type m t = MULTIBOOT_TAG_TYPE_FRAMEBUFFER) (take 50 ts))"
  using assms(1) find_tag_bounded_path [OF assms(2), of 0]
  by (auto simp: multiboot_get_framebuffer_def split: option.splits)

theorem framebuffer_within_fifty_witness:
  "fst (multiboot_get_framebuffer demo_boot \<lparr>total_memory_kb = 0, multiboot_addr = 0x1000\<rparr> True) = None"
proof -
  let ?s = "\<lparr>total_memory_kb = 0, multiboot_addr = 0x1000\<rparr>"
  have "tag_path demo_boot (multiboot_addr ?s + 8) [0x1008]"
    by (simp add: demo_boot_def tag_type_def tag_size_def next_tag_def MULTIBOOT_TAG_TYPE_END_def)
  from framebuffer_within_fifty [OF _ this] show ?thesis
    by (simp add: demo_boot_def tag_type_def MULTIBOOT_TAG_TYPE_FRAMEBUFFER_def)
qed

end
