(* ===== verification/Phys_Alloc.thy ===== *)
theory Phys_Alloc
  imports KHeap Multiboot
begin

text \<open>
  Page allocation: \<open>pmm_alloc_page\<close> and \<open>pmm_alloc_page_low\<close> of \<open>src/kernel/mm/pmm/pmm.c\<close>,
  whose fallback is the kernel heap through \<open>src/kernel/mm/fallback/simple_fallback.c\<close>, and the
  boot order that sets the frames and the heap up. The results span the two allocators: which
  frames are protected after boot, that no allocation ever hands one of them out, and what the
  fallback returns.
\<close>

section \<open>State and operations\<close>

record mm_state =
  mm_pmm :: pmm_state
  mm_heap :: kheap_state

definition mm_klog :: "klog_event \<Rightarrow> mm_state \<Rightarrow> mm_state" where
  "mm_klog e m = m\<lparr>mm_pmm := pmm_klog e (mm_pmm m)\<rparr>"

definition simple_fallback_alloc :: "mm_state \<Rightarrow> (u64 \<times> mm_state) option" where
  "simple_fallback_alloc m =
     (let m = mm_klog (Warn ''Fallback allocator used'') m in
      case kmalloc (of_nat PAGE_SIZE) (mm_heap m) of
        None \<Rightarrow> None
      | Some (p, h) \<Rightarrow>
          let m = m\<lparr>mm_heap := h\<rparr> in
          if p = 0 then Some (0, mm_klog (Fail ''Fallback allocation failed'') m) else Some (p, m))"

definition pmm_alloc_page :: "mm_state \<Rightarrow> (u64 \<times> mm_state) option" where
  "pmm_alloc_page m =
     (if \<not> ready (mm_pmm m)
      then simple_fallback_alloc (mm_klog (Warn ''PMM offline, using fallback'') m)
      else
        case pmm_scan (unat (max_frames (mm_pmm m))) (mm_pmm m) of
          (Some a, p) \<Rightarrow> Some (a, m\<lparr>mm_pmm := p\<rparr>)
        | (None, p) \<Rightarrow>
            simple_fallback_alloc (mm_klog (Error ''Out of physical memory'') (m\<lparr>mm_pmm := p\<rparr>)))"

definition pmm_alloc_page_low :: "mm_state \<Rightarrow> (u64 \<times> mm_state) option" where
  "pmm_alloc_page_low m =
     (if \<not> ready (mm_pmm m) then simple_fallback_alloc m
      else
        let max_low_frame = (0x1000000 :: u64) div of_nat PAGE_SIZE;
            max_low_frame =
              (if max_low_frame > max_frames (mm_pmm m) then max_frames (mm_pmm m) else max_low_frame)
        in case pmm_scan (unat max_low_frame) (mm_pmm m) of
             (Some a, p) \<Rightarrow> Some (a, m\<lparr>mm_pmm := p\<rparr>)
           | (None, p) \<Rightarrow>
               Some (0, mm_klog (Error ''[PMM] No free pages below 16MB for ISA DMA'') (m\<lparr>mm_pmm := p\<rparr>)))"

text \<open>The boot order of \<open>kmain\<close>: frames first, then the heap.\<close>

definition boot_memory :: "u64 \<Rightarrow> ptr \<Rightarrow> ptr \<Rightarrow> pmm_state \<Rightarrow> kheap_state \<Rightarrow> mm_state" where
  "boot_memory mem end_addr mb_addr p h =
     (let p = pmm_init mem end_addr mb_addr p;
          (p, h) = kheap_init p h
      in \<lparr>mm_pmm = p, mm_heap = h\<rparr>)"

text \<open>A client that takes \<open>n\<close> pages in a row.\<close>

fun alloc_pages :: "nat \<Rightarrow> mm_state \<Rightarrow> (u64 list \<times> mm_state) option" where
  "alloc_pages 0 m = Some ([], m)"
| "alloc_pages (Suc n) m =
     (case pmm_alloc_page m of
        None \<Rightarrow> None
      | Some (a, m) \<Rightarrow>
          (case alloc_pages n m of None \<Rightarrow> None | Some (as, m) \<Rightarrow> Some (a # as, m)))"

section \<open>Frames\<close>

definition free_frames :: "pmm_state \<Rightarrow> nat set" where
  "free_frames s = {..<unat (max_frames s)} - used s"

lemma finite_free_frames [simp]: "finite (free_frames s)"
  by (simp add: free_frames_def)

lemma pmm_alloc_page_takes:
  assumes "pmm_inv (mm_pmm m)" and "ready (mm_pmm m)" and "free_frames (mm_pmm m) \<noteq> {}"
  obtains f m' where "pmm_alloc_page m = Some (page_addr f, m')" "f \<in> free_frames (mm_pmm m)"
    "free_frames (mm_pmm m') = free_frames (mm_pmm m) - {f}" "pmm_inv (mm_pmm m')"
    "ready (mm_pmm m')" "mm_heap m' = mm_heap m" "\<forall>g \<in> free_frames (mm_pmm m). f \<le> g"
    "used (mm_pmm m') = insert f (used (mm_pmm m))" "max_frames (mm_pmm m') = max_frames (mm_pmm m)"
proof -
  let ?s = "mm_pmm m"
  let ?M = "unat (max_frames ?s)"
  have "\<not> {..<?M} \<subseteq> used ?s" using assms(3) by (auto simp: free_frames_def)
  then obtain a t where scan: "pmm_scan ?M ?s = (Some a, t)"
    using pmm_scan_None [of ?M ?s] by (cases "pmm_scan ?M ?s"; cases "fst (pmm_scan ?M ?s)") auto
  from pmm_scan_Some [OF assms(1) order_refl scan] obtain f where f: "f < ?M" "a = page_addr f"
    "f \<notin> used ?s" "{..<f} \<subseteq> used ?s" "used t = insert f (used ?s)" "pmm_inv t" "same_but_bitmap t ?s"
    by blast
  have least: "\<forall>g \<in> free_frames ?s. f \<le> g"
    using f(4) by (auto simp: free_frames_def not_less [symmetric])
  show ?thesis
    using that [of f "m\<lparr>mm_pmm := t\<rparr>"] scan f assms(2) least
    by (auto simp: pmm_alloc_page_def free_frames_def same_but_bitmap_def)
qed

lemma alloc_pages_correct:
  assumes "pmm_inv (mm_pmm m)" and "ready (mm_pmm m)" and "n \<le> card (free_frames (mm_pmm m))"
  shows "\<exists>fs m'. alloc_pages n m = Some (map page_addr fs, m') \<and> length fs = n \<and> distinct fs \<and>
    set fs \<subseteq> free_frames (mm_pmm m) \<and> pmm_inv (mm_pmm m') \<and>
    free_frames (mm_pmm m') = free_frames (mm_pmm m) - set fs"
  using assms
proof (induction n arbitrary: m)
  case 0
  then show ?case by auto
next
  case (Suc n)
  then have "free_frames (mm_pmm m) \<noteq> {}" by auto
  with Suc.prems(1,2) obtain f m1 where f: "pmm_alloc_page m = Some (page_addr f, m1)"
    "f \<in> free_frames (mm_pmm m)" "free_frames (mm_pmm m1) = free_frames (mm_pmm m) - {f}"
    "pmm_inv (mm_pmm m1)" "ready (mm_pmm m1)"
    by (rule pmm_alloc_page_takes)
  have "n \<le> card (free_frames (mm_pmm m1))" using Suc.prems(3) f(2,3) by simp
  from Suc.IH [OF f(4,5) this] obtain fs m' where fs: "alloc_pages n m1 = Some (map page_addr fs, m')"
    "length fs = n" "distinct fs" "set fs \<subseteq> free_frames (mm_pmm m1)" "pmm_inv (mm_pmm m')"
    "free_frames (mm_pmm m') = free_frames (mm_pmm m1) - set fs" by blast
  show ?case
    using f fs by (intro exI [of _ "f # fs"] exI [of _ m']) auto
qed

lemma alloc_page_low_returns:
  assumes "ready (mm_pmm m)"
  shows "\<exists>a m'. pmm_alloc_page_low m = Some (a, m')"
  using assms by (auto simp: pmm_alloc_page_low_def Let_def split: prod.split option.split)

section \<open>Boot\<close>

lemma reserve_range_frame [simp]:
  "ready (pmm_reserve_range a z q) = ready q" "max_frames (pmm_reserve_range a z q) = max_frames q"
  using same_but_bitmap_loops(1)
  by (auto simp: pmm_reserve_range_def Let_def same_but_bitmap_def)

lemma boot_memory_correct:
  assumes "0x1000 \<le> mb_addr" and "unat end_addr < 2251799813685248" and "heap_start h = 0"
    and "k = kernel_frames mem end_addr" and "m = managed_frames mem"
    and "b = boot_memory mem end_addr mb_addr p h"
  shows "pmm_inv (mm_pmm b) \<and> ready (mm_pmm b) \<and> unat (max_frames (mm_pmm b)) = m \<and>
    used (mm_pmm b) = {..<min k m} \<union> {f. f < m \<and> heap_first k \<le> f \<and> f < heap_end k m}"
proof -
  define q where "q = pmm_init mem end_addr mb_addr p"
  have "unat end_addr < 9223372036854775808" using assms(2) by simp
  from pmm_init_shape [OF assms(1) this q_def] have q: "ready q" "pmm_inv q"
    "unat (max_frames q) = m" "used q = {..<min k m}" "kernel_reserved_end q = of_nat (k * PAGE_SIZE)"
    by (simp_all add: assms(4,5))
  have k: "k < 1099511627776" using kernel_frames_bound [OF assms(2)] by (simp add: assms(4))
  obtain p' h' where init: "kheap_init q h = (p', h')" by (cases "kheap_init q h")
  note kh = kheap_init_correct [OF q(2,1,5) k assms(3) init refl refl]
  have b: "mm_pmm b = p'" using init by (simp add: assms(6) boot_memory_def q_def)
  have p': "p' = q \<or> (\<exists>a z. p' = pmm_reserve_range a z q)"
    using init by (auto simp: kheap_init_def Let_def split: if_splits)
  have frame: "ready p' = ready q \<and> max_frames p' = max_frames q"
    using p' by auto
  let ?S = "{f. f < m \<and> heap_first k \<le> f \<and> f < heap_end k m}"
  have "used p' = used q \<union> ?S \<and> pmm_inv p'"
  proof (cases "heap_end k m = heap_first k")
    case True
    then have "?S = {}" by auto
    moreover have "p' = q" using kh q(3) True by simp
    ultimately show ?thesis using q(2) by (simp only: Un_empty_right simp_thms)
  next
    case False
    with kh q(3) show ?thesis by simp
  qed
  with q frame show ?thesis by (simp only: b)
qed

section \<open>Properties\<close>

text \<open>
  After boot with valid multiboot information, exactly the frames under the kernel image and
  the bitmap and the frames of the heap region are in use, and the frame counter agrees with the
  bitmap: every other frame is available.
\<close>

theorem boot_frames:
  assumes "0x1000 \<le> mb_addr" and "unat end_addr < 2251799813685248" and "heap_start h = 0"
  shows "let k = kernel_frames mem end_addr; m = managed_frames mem;
      s = mm_pmm (boot_memory mem end_addr mb_addr p h) in
    ready s \<and> unat (max_frames s) = m \<and> used_frames s = of_nat (card (used s)) \<and>
    used s = {..<min k m} \<union> {f. f < m \<and> heap_first k \<le> f \<and> f < heap_end k m}"
  using boot_memory_correct [OF assms refl refl refl] by (simp add: Let_def pmm_inv_def)

theorem boot_frames_witness:
  "used (mm_pmm (boot_memory 0x2000000 0x200000 0x10000 pmm_initial no_heap)) =
     {..<513} \<union> {f. f < 8192 \<and> 1024 \<le> f \<and> f < 8192}"
proof -
  have k: "kernel_frames 0x2000000 0x200000 = 513" and m: "managed_frames 0x2000000 = 8192"
    by (simp_all add: kernel_frames_def managed_frames_def)
  have "heap_first 513 = 1024" "heap_end 513 8192 = 8192"
    by (simp_all add: heap_first_def heap_end_def)
  with boot_frames [where mb_addr = "0x10000" and end_addr = "0x200000" and h = no_heap and mem = "0x2000000" and p = pmm_initial] show ?thesis
    by (simp add: no_heap_def Let_def k m)
qed

text \<open>
  C6. Page allocation after boot: as long as enough frames are free, any number of consecutive
  calls of \<open>pmm_alloc_page\<close> succeed, and the pages they return are distinct, page-aligned, inside
  managed memory and outside both the kernel frames and the heap region.
\<close>

theorem alloc_pages_after_boot:
  assumes "0x1000 \<le> mb_addr" and "unat end_addr < 2251799813685248" and "heap_start h = 0"
    and "b = boot_memory mem end_addr mb_addr p h" and "n \<le> card (free_frames (mm_pmm b))"
  shows "\<exists>fs b'. alloc_pages n b = Some (map page_addr fs, b') \<and> length fs = n \<and> distinct fs \<and>
    (\<forall>f \<in> set fs. f < managed_frames mem \<and> kernel_frames mem end_addr \<le> f \<and>
      unat (page_addr f) = f * PAGE_SIZE \<and>
      \<not> (heap_first (kernel_frames mem end_addr) \<le> f \<and>
         f < heap_end (kernel_frames mem end_addr) (managed_frames mem)))"
proof -
  note boot = boot_memory_correct [OF assms(1-3) refl refl assms(4)]
  then obtain fs b' where fs: "alloc_pages n b = Some (map page_addr fs, b')" "length fs = n"
    "distinct fs" "set fs \<subseteq> free_frames (mm_pmm b)"
    using alloc_pages_correct [of b n] assms(5) by blast
  have "f < managed_frames mem \<and> kernel_frames mem end_addr \<le> f \<and> unat (page_addr f) = f * PAGE_SIZE \<and>
      \<not> (heap_first (kernel_frames mem end_addr) \<le> f \<and>
         f < heap_end (kernel_frames mem end_addr) (managed_frames mem))" if "f \<in> set fs" for f
  proof -
    from that fs(4) boot have f: "f < managed_frames mem" "f \<notin> used (mm_pmm b)"
      by (auto simp: free_frames_def)
    with managed_frames_le [of mem] have "unat (page_addr f) = f * PAGE_SIZE"
      by (intro unat_page_addr) simp
    with f boot show ?thesis by auto
  qed
  with fs show ?thesis by blast
qed

theorem alloc_pages_after_boot_witness:
  "\<exists>fs b'. alloc_pages 2 (boot_memory 0x2000000 0x200000 0x10000 pmm_initial no_heap) =
     Some (map page_addr fs, b') \<and> length fs = 2 \<and> distinct fs \<and> (\<forall>f \<in> set fs. 513 \<le> f \<and> f < 1024)"
proof -
  let ?b = "boot_memory 0x2000000 0x200000 0x10000 pmm_initial no_heap"
  have k: "kernel_frames 0x2000000 0x200000 = 513" and m: "managed_frames 0x2000000 = 8192"
    by (simp_all add: kernel_frames_def managed_frames_def)
  have hp: "heap_first 513 = 1024" "heap_end 513 8192 = 8192"
    by (simp_all add: heap_first_def heap_end_def)
  have pre: "0x1000 \<le> (0x10000 :: u64)" "unat (0x200000 :: u64) < 2251799813685248" "heap_start no_heap = 0"
    by (simp_all add: no_heap_def)
  note bm = boot_memory_correct [OF pre k [symmetric] m [symmetric] refl, of pmm_initial]
  have "{513, 514} \<subseteq> free_frames (mm_pmm ?b)"
    unfolding free_frames_def using bm by (simp only: hp) simp
  then have "card {513 :: nat, 514} \<le> card (free_frames (mm_pmm ?b))"
    by (rule card_mono [OF finite_free_frames])
  then have "2 \<le> card (free_frames (mm_pmm ?b))" by simp
  from alloc_pages_after_boot [OF pre refl this] obtain fs b' where
    fs: "alloc_pages 2 ?b = Some (map page_addr fs, b')" "length fs = 2" "distinct fs"
    and in_range: "\<forall>f \<in> set fs. f < 8192 \<and> 513 \<le> f \<and> unat (page_addr f) = f * PAGE_SIZE \<and> \<not> (1024 \<le> f \<and> f < 8192)"
    unfolding k m hp by blast
  from in_range have "\<forall>f \<in> set fs. 513 \<le> f \<and> f < 1024" by (meson not_less)
  with fs show ?thesis by blast
qed

text \<open>
  The heap fallback does not return a page: on a fresh heap with room for it, a call of
  \<open>pmm_alloc_page\<close> while the physical allocator is offline returns an address 32 bytes past the
  page-aligned start of the heap, which is not page-aligned.
\<close>

theorem fallback_not_page_aligned:
  assumes "\<not> ready (mm_pmm m)" and "kheap_rel (mm_heap m) [(n, True)]" and "4144 \<le> n"
    and "4096 dvd unat (heap_base (mm_heap m))"
  shows "\<exists>a m'. pmm_alloc_page m = Some (a, m') \<and> unat a = unat (heap_base (mm_heap m)) + 32 \<and>
    \<not> 4096 dvd unat a"
proof -
  let ?h = "mm_heap m" and ?b = "unat (heap_base (mm_heap m))"
  have sz: "(of_nat PAGE_SIZE :: u64) \<noteq> 0" "(of_nat PAGE_SIZE :: u64) \<le> KHEAP_MAX_ALLOC"
    by (simp_all add: PAGE_SIZE_def KHEAP_MAX_ALLOC_def)
  have "needed_for (unat (of_nat PAGE_SIZE :: u64)) = 4144"
    by (simp add: needed_for_def PAGE_SIZE_def)
  then have "first_fit (needed_for (unat (of_nat PAGE_SIZE :: u64))) [(n, True)] = Some (0, carve 4144 n [])"
    using assms(3) by simp
  with kmalloc_refines [OF assms(2) sz] obtain h' where
    h': "kmalloc (of_nat PAGE_SIZE) ?h = Some (adr ?b + HDR_SIZE, h')" by auto
  have p: "adr ?b + HDR_SIZE = adr (?b + 32)" using adr_add [of ?b 32] by (simp add: HDR_SIZE_def del: adr_unat)
  have lt: "?b + 32 < 18446744073709551616"
    using kheap_rel_bounds(2) [OF assms(2)] assms(3) by simp
  then have "adr (?b + 32) \<noteq> 0" by (simp add: adr_eq_0_iff)
  with h' p assms(1) have "\<exists>m'. pmm_alloc_page m = Some (adr (?b + 32), m')"
    by (simp add: pmm_alloc_page_def simple_fallback_alloc_def Let_def mm_klog_def)
  moreover have "\<not> 4096 dvd ?b + 32" using assms(4) by (simp add: dvd_add_right_iff)
  ultimately show ?thesis using lt by (metis unat_adr)
qed

theorem fallback_not_page_aligned_witness:
  "\<exists>a m'. pmm_alloc_page \<lparr>mm_pmm = pmm_initial, mm_heap = one_page_heap\<lparr>heap_limit := 0x402000,
      hdr := (\<lambda>_. header_of 8192 True 0 0), ftr := (\<lambda>_. footer_of 8192)\<rparr>\<rparr> = Some (a, m') \<and>
     unat a = 0x400020"
proof -
  let ?h = "one_page_heap\<lparr>heap_limit := 0x402000, hdr := (\<lambda>_. header_of 8192 True 0 0),
      ftr := (\<lambda>_. footer_of 8192)\<rparr>"
  have rel: "kheap_rel ?h [(8192, True)]" by (simp add: kheap_rel_def one_page_heap_def)
  have dvd: "4096 dvd unat (heap_base ?h)" by (simp add: one_page_heap_def)
  show ?thesis
    using fallback_not_page_aligned [of "\<lparr>mm_pmm = pmm_initial, mm_heap = ?h\<rparr>" 8192] rel dvd
    by (auto simp: pmm_initial_def one_page_heap_def)
qed

text \<open>
  A page from \<open>pmm_alloc_page_low\<close> lies below 16 MB: a successful call returns the address of
  a frame that was free, below both limits, and marks it used.
\<close>

theorem alloc_page_low_below_16M:
  assumes "pmm_inv (mm_pmm m)" and "ready (mm_pmm m)" and "pmm_alloc_page_low m = Some (a, m')"
  shows "(a = 0 \<and> {..<min 4096 (unat (max_frames (mm_pmm m)))} \<subseteq> used (mm_pmm m)) \<or>
    (\<exists>f. a = page_addr f \<and> unat a + PAGE_SIZE \<le> 0x1000000 \<and> f \<in> free_frames (mm_pmm m) \<and>
      used (mm_pmm m') = insert f (used (mm_pmm m)) \<and> pmm_inv (mm_pmm m'))"
proof -
  let ?s = "mm_pmm m"
  let ?L = "min 4096 (unat (max_frames ?s))"
  have L: "unat (if (0x1000000 :: u64) div of_nat PAGE_SIZE > max_frames ?s then max_frames ?s
      else (0x1000000 :: u64) div of_nat PAGE_SIZE) = ?L"
    by (simp add: PAGE_SIZE_def word_less_nat_alt min_def)
  have low: "pmm_alloc_page_low m = (case pmm_scan ?L ?s of
      (Some a, p) \<Rightarrow> Some (a, m\<lparr>mm_pmm := p\<rparr>)
    | (None, p) \<Rightarrow> Some (0, mm_klog (Error ''[PMM] No free pages below 16MB for ISA DMA'') (m\<lparr>mm_pmm := p\<rparr>)))"
    using assms(2) by (simp only: pmm_alloc_page_low_def Let_def L simp_thms if_False)
  have le: "?L \<le> unat (max_frames ?s)" by simp
  show ?thesis
  proof (cases "pmm_scan ?L ?s")
    case (Pair x t)
    show ?thesis
    proof (cases x)
      case None
      with Pair low assms(3) pmm_scan_None [OF le] show ?thesis by auto
    next
      case (Some b)
      from pmm_scan_Some [OF assms(1) le Pair [unfolded Some]] obtain f where f: "f < ?L" "b = page_addr f"
        "f \<notin> used ?s" "used t = insert f (used ?s)" "pmm_inv t" by blast
      have "unat (page_addr f) + PAGE_SIZE \<le> 0x1000000"
        using f(1) unat_page_addr [of f] by (simp add: PAGE_SIZE_def)
      with f Pair Some low assms(3) show ?thesis by (auto simp: free_frames_def)
    qed
  qed
qed

theorem alloc_page_low_below_16M_witness:
  "\<exists>a m' b. b = boot_memory 0x2000000 0x200000 0x10000 pmm_initial no_heap \<and>
     pmm_alloc_page_low b = Some (a, m') \<and>
     ((a = 0 \<and> {..<4096} \<subseteq> used (mm_pmm b)) \<or> unat a + PAGE_SIZE \<le> 0x1000000)"
proof -
  let ?b = "boot_memory 0x2000000 0x200000 0x10000 pmm_initial no_heap"
  have m: "8192 = managed_frames 0x2000000" by (simp add: managed_frames_def)
  have pre: "0x1000 \<le> (0x10000 :: u64)" "unat (0x200000 :: u64) < 2251799813685248" "heap_start no_heap = 0"
    by (simp_all add: no_heap_def)
  have inv: "pmm_inv (mm_pmm ?b)" "ready (mm_pmm ?b)" "unat (max_frames (mm_pmm ?b)) = 8192"
    using boot_memory_correct [OF pre refl m refl, of pmm_initial] by blast+
  obtain a m' where "pmm_alloc_page_low ?b = Some (a, m')"
    using alloc_page_low_returns [OF inv(2)] by blast
  moreover from alloc_page_low_below_16M [OF inv(1,2) this]
  have "(a = 0 \<and> {..<4096} \<subseteq> used (mm_pmm ?b)) \<or> unat a + PAGE_SIZE \<le> 0x1000000"
    unfolding inv(3) by auto
  ultimately show ?thesis by blast
qed

end
