(* ===== verification/VMM.thy ===== *)
theory VMM
  imports Phys_Alloc "HOL-Library.Monad_Syntax"
begin

text \<open>
  The virtual memory manager of \<open>src/kernel/mm/vmm/vmm.c\<close>: four levels of page tables in physical
  memory. The words of the tables are a store indexed by address; \<open>table[index]\<close> is the word at
  \<open>table + 8 * index\<close>. Tables come from the physical page allocator, whose search may not return
  in a corrupted heap: hence the option results, shown to be defined on well-formed states. The
  page table base register and the invalidated addresses are part of the state; the framebuffer
  the video driver reports is an argument.
\<close>

section \<open>Constants\<close>

definition KERNEL_BASE :: u64 where "KERNEL_BASE = 0xFFFF800000000000"
definition PAGE_SIZE_4K :: u64 where "PAGE_SIZE_4K = 0x1000"
definition PAGE_SIZE_2M :: u64 where "PAGE_SIZE_2M = 0x200000"
definition PAGE_SIZE_1G :: u64 where "PAGE_SIZE_1G = 0x40000000"
definition VMM_PRESENT :: u64 where "VMM_PRESENT = 1"
definition VMM_WRITE :: u64 where "VMM_WRITE = 2"
definition VMM_PWT :: u64 where "VMM_PWT = 8"
definition VMM_PCD :: u64 where "VMM_PCD = 16"
definition VMM_HUGE :: u64 where "VMM_HUGE = 128"
definition VMM_KERNEL_RW :: u64 where "VMM_KERNEL_RW = VMM_PRESENT OR VMM_WRITE"
definition VMM_ADDR_MASK :: u64 where "VMM_ADDR_MASK = 0x000FFFFFFFFFF000"
definition VMM_BOOT_MAP_MIN :: u64 where "VMM_BOOT_MAP_MIN = 64 * 1024 * 1024"
definition VMM_BOOT_MAP_MAX :: u64 where "VMM_BOOT_MAP_MAX = 256 * 1024 * 1024"

definition PML4_INDEX :: "u64 \<Rightarrow> u64" where "PML4_INDEX v = drop_bit 39 v AND 0x1FF"
definition PDPT_INDEX :: "u64 \<Rightarrow> u64" where "PDPT_INDEX v = drop_bit 30 v AND 0x1FF"
definition PD_INDEX :: "u64 \<Rightarrow> u64" where "PD_INDEX v = drop_bit 21 v AND 0x1FF"
definition PT_INDEX :: "u64 \<Rightarrow> u64" where "PT_INDEX v = drop_bit 12 v AND 0x1FF"

definition ALIGN_DOWN_4K :: "u64 \<Rightarrow> u64" where "ALIGN_DOWN_4K x = x AND NOT (PAGE_SIZE_4K - 1)"
definition ALIGN_UP_4K :: "u64 \<Rightarrow> u64" where "ALIGN_UP_4K x = (x + PAGE_SIZE_4K - 1) AND NOT (PAGE_SIZE_4K - 1)"
definition IS_ALIGNED :: "u64 \<Rightarrow> u64 \<Rightarrow> bool" where "IS_ALIGNED x a \<longleftrightarrow> x AND (a - 1) = 0"

section \<open>State\<close>

record fb_area =
  fb_addr :: u64
  fb_pitch :: u32
  fb_height :: u32

record vmm_state =
  vmem :: "u64 \<Rightarrow> u64"
  kernel_pml4 :: u64
  kernel_pml4_phys :: u64
  vmm_initialized :: bool
  mapped_page_count :: u64
  cr3 :: u64
  invlpg_log :: "u64 list"
  vmm_mm :: mm_state

definition vmm_klog :: "klog_event \<Rightarrow> vmm_state \<Rightarrow> vmm_state" where
  "vmm_klog e s = s\<lparr>vmm_mm := mm_klog e (vmm_mm s)\<rparr>"

text \<open>The address of \<open>table[index]\<close>, reading and writing it.\<close>

definition slot :: "u64 \<Rightarrow> u64 \<Rightarrow> u64" where
  "slot table index = table + 8 * index"

definition entry :: "vmm_state \<Rightarrow> u64 \<Rightarrow> u64 \<Rightarrow> u64" where
  "entry s table index = vmem s (slot table index)"

definition set_entry :: "u64 \<Rightarrow> u64 \<Rightarrow> u64 \<Rightarrow> vmm_state \<Rightarrow> vmm_state" where
  "set_entry table index e s = s\<lparr>vmem := (vmem s)(slot table index := e)\<rparr>"

definition vmm_invlpg :: "u64 \<Rightarrow> vmm_state \<Rightarrow> vmm_state" where
  "vmm_invlpg virt s = s\<lparr>invlpg_log := invlpg_log s @ [virt]\<rparr>"

section \<open>Tables\<close>

definition phys_to_virt :: "u64 \<Rightarrow> u64" where "phys_to_virt phys = phys"

definition virt_to_phys :: "u64 \<Rightarrow> u64" where
  "virt_to_phys virt = (if virt \<ge> KERNEL_BASE then virt - KERNEL_BASE else virt)"

definition alloc_table :: "vmm_state \<Rightarrow> (u64 \<times> vmm_state) option" where
  "alloc_table s =
     do {
       (phys, m) \<leftarrow> pmm_alloc_page (vmm_mm s);
       let s = s\<lparr>vmm_mm := m\<rparr>;
       if phys = 0 then Some (0, vmm_klog (Error ''VMM: Failed to allocate page table'') s)
       else
         let table = phys_to_virt phys
         in Some (table, s\<lparr>vmem := (\<lambda>a. if table \<le> a \<and> a - table < PAGE_SIZE_4K then 0 else vmem s a)\<rparr>)
     }"

definition get_or_create_entry :: "u64 \<Rightarrow> u64 \<Rightarrow> bool \<Rightarrow> vmm_state \<Rightarrow> (u64 \<times> vmm_state) option" where
  "get_or_create_entry table index create s =
     (if table = 0 then Some (0, s)
      else if entry s table index AND VMM_PRESENT \<noteq> 0 \<and> entry s table index AND VMM_HUGE \<noteq> 0 then Some (0, s)
      else if entry s table index AND VMM_PRESENT = 0
      then
        if \<not> create then Some (0, s)
        else
          do {
            (new_table, s) \<leftarrow> alloc_table s;
            if new_table = 0 then Some (0, s)
            else
              let s = set_entry table index (virt_to_phys new_table OR VMM_PRESENT OR VMM_WRITE) s
              in Some (phys_to_virt (entry s table index AND VMM_ADDR_MASK), s)
          }
      else Some (phys_to_virt (entry s table index AND VMM_ADDR_MASK), s))"

section \<open>Mapping\<close>

text \<open>Writing the leaf entry of a mapping of \<open>pages\<close> small pages.\<close>

definition put_leaf :: "u64 \<Rightarrow> u64 \<Rightarrow> u64 \<Rightarrow> u64 \<Rightarrow> u64 \<Rightarrow> vmm_state \<Rightarrow> vmm_state" where
  "put_leaf table idx e pages virt s =
     (let s = (if entry s table idx AND VMM_PRESENT = 0
               then s\<lparr>mapped_page_count := mapped_page_count s + pages\<rparr> else s);
          s = set_entry table idx e s
      in if vmm_initialized s then vmm_invlpg virt s else s)"

definition huge_entry :: "u64 \<Rightarrow> u64 \<Rightarrow> u64" where
  "huge_entry phys flags = (phys AND VMM_ADDR_MASK) OR (flags AND NOT VMM_HUGE) OR VMM_PRESENT OR VMM_HUGE"

definition vmm_map_1g :: "u64 \<Rightarrow> u64 \<Rightarrow> u64 \<Rightarrow> vmm_state \<Rightarrow> (bool \<times> vmm_state) option" where
  "vmm_map_1g virt phys flags s =
     (if kernel_pml4 s = 0 then Some (False, s)
      else if \<not> IS_ALIGNED virt PAGE_SIZE_1G \<or> \<not> IS_ALIGNED phys PAGE_SIZE_1G then Some (False, s)
      else
        do {
          (pdpt, s) \<leftarrow> get_or_create_entry (kernel_pml4 s) (PML4_INDEX virt) True s;
          if pdpt = 0 then Some (False, s)
          else Some (True, put_leaf pdpt (PDPT_INDEX virt) (huge_entry phys flags) (PAGE_SIZE_1G div PAGE_SIZE_4K) virt s)
        })"

definition vmm_map_2m :: "u64 \<Rightarrow> u64 \<Rightarrow> u64 \<Rightarrow> vmm_state \<Rightarrow> (bool \<times> vmm_state) option" where
  "vmm_map_2m virt phys flags s =
     (if kernel_pml4 s = 0 then Some (False, s)
      else if \<not> IS_ALIGNED virt PAGE_SIZE_2M \<or> \<not> IS_ALIGNED phys PAGE_SIZE_2M then Some (False, s)
      else
        do {
          (pdpt, s) \<leftarrow> get_or_create_entry (kernel_pml4 s) (PML4_INDEX virt) True s;
          if pdpt = 0 then Some (False, s)
          else
            do {
              (pd, s) \<leftarrow> get_or_create_entry pdpt (PDPT_INDEX virt) True s;
              if pd = 0 then Some (False, s)
              else Some (True, put_leaf pd (PD_INDEX virt) (huge_entry phys flags) (PAGE_SIZE_2M div PAGE_SIZE_4K) virt s)
            }
        })"

definition vmm_map :: "u64 \<Rightarrow> u64 \<Rightarrow> u64 \<Rightarrow> vmm_state \<Rightarrow> vmm_state option" where
  "vmm_map virt phys flags s =
     (if kernel_pml4 s = 0 then Some s
      else
        let virt = ALIGN_DOWN_4K virt;
            phys = ALIGN_DOWN_4K phys
        in do {
          (pdpt, s) \<leftarrow> get_or_create_entry (kernel_pml4 s) (PML4_INDEX virt) True s;
          if pdpt = 0 then Some s
          else
            do {
              (pd, s) \<leftarrow> get_or_create_entry pdpt (PDPT_INDEX virt) True s;
              if pd = 0 then Some s
              else
                do {
                  (pt, s) \<leftarrow> get_or_create_entry pd (PD_INDEX virt) True s;
                  if pt = 0 then Some s
                  else Some (put_leaf pt (PT_INDEX virt) ((phys AND VMM_ADDR_MASK) OR flags OR VMM_PRESENT) 1 virt s)
                }
            }
        })"

partial_function (option) map_range_loop :: "u64 \<Rightarrow> u64 \<Rightarrow> u64 \<Rightarrow> u64 \<Rightarrow> vmm_state \<Rightarrow> vmm_state option" where
  "map_range_loop v p vend flags s =
     (if v < vend
      then
        let remaining = vend - v
        in do {
          (done1, s) \<leftarrow>
            (if remaining \<ge> PAGE_SIZE_1G \<and> IS_ALIGNED v PAGE_SIZE_1G \<and> IS_ALIGNED p PAGE_SIZE_1G
             then vmm_map_1g v p flags s else Some (False, s));
          if done1 then map_range_loop (v + PAGE_SIZE_1G) (p + PAGE_SIZE_1G) vend flags s
          else
            do {
              (done2, s) \<leftarrow>
                (if remaining \<ge> PAGE_SIZE_2M \<and> IS_ALIGNED v PAGE_SIZE_2M \<and> IS_ALIGNED p PAGE_SIZE_2M
                 then vmm_map_2m v p flags s else Some (False, s));
              if done2 then map_range_loop (v + PAGE_SIZE_2M) (p + PAGE_SIZE_2M) vend flags s
              else
                do {
                  s \<leftarrow> vmm_map v p flags s;
                  map_range_loop (v + PAGE_SIZE_4K) (p + PAGE_SIZE_4K) vend flags s
                }
            }
        }
      else Some s)"

definition vmm_map_range :: "u64 \<Rightarrow> u64 \<Rightarrow> u64 \<Rightarrow> u64 \<Rightarrow> vmm_state \<Rightarrow> vmm_state option" where
  "vmm_map_range virt phys sz flags s =
     (if sz = 0 then Some s
      else map_range_loop (ALIGN_DOWN_4K virt) (ALIGN_DOWN_4K phys) (ALIGN_UP_4K (virt + sz)) flags s)"

definition vmm_unmap :: "u64 \<Rightarrow> vmm_state \<Rightarrow> vmm_state option" where
  "vmm_unmap virt s =
     (if kernel_pml4 s = 0 then Some s
      else
        let virt = ALIGN_DOWN_4K virt
        in do {
          (pdpt, s) \<leftarrow> get_or_create_entry (kernel_pml4 s) (PML4_INDEX virt) False s;
          if pdpt = 0 then Some s
          else
            do {
              (pd, s) \<leftarrow> get_or_create_entry pdpt (PDPT_INDEX virt) False s;
              if pd = 0 then Some s
              else
                do {
                  (pt, s) \<leftarrow> get_or_create_entry pd (PD_INDEX virt) False s;
                  if pt = 0 then Some s
                  else if entry s pt (PT_INDEX virt) AND VMM_PRESENT \<noteq> 0
                  then
                    let s = set_entry pt (PT_INDEX virt) 0 s;
                        s = s\<lparr>mapped_page_count := mapped_page_count s - 1\<rparr>
                    in Some (vmm_invlpg virt s)
                  else Some s
                }
            }
        })"

definition vmm_translate :: "u64 \<Rightarrow> vmm_state \<Rightarrow> u64 option" where
  "vmm_translate virt s =
     (if kernel_pml4 s = 0 then Some (if virt < VMM_BOOT_MAP_MIN then virt else 0)
      else
        do {
          (pdpt, s) \<leftarrow> get_or_create_entry (kernel_pml4 s) (PML4_INDEX virt) False s;
          if pdpt = 0 then Some 0
          else if entry s pdpt (PDPT_INDEX virt) AND VMM_HUGE \<noteq> 0
          then Some ((entry s pdpt (PDPT_INDEX virt) AND VMM_ADDR_MASK) OR (virt AND (PAGE_SIZE_1G - 1)))
          else
            do {
              (pd, s) \<leftarrow> get_or_create_entry pdpt (PDPT_INDEX virt) False s;
              if pd = 0 then Some 0
              else if entry s pd (PD_INDEX virt) AND VMM_HUGE \<noteq> 0
              then Some ((entry s pd (PD_INDEX virt) AND VMM_ADDR_MASK) OR (virt AND (PAGE_SIZE_2M - 1)))
              else
                do {
                  (pt, s) \<leftarrow> get_or_create_entry pd (PD_INDEX virt) False s;
                  if pt = 0 then Some 0
                  else if entry s pt (PT_INDEX virt) AND VMM_PRESENT = 0 then Some 0
                  else Some ((entry s pt (PT_INDEX virt) AND VMM_ADDR_MASK) OR (virt AND 0xFFF))
                }
            }
        })"

section \<open>Initialisation and queries\<close>

definition boot_map_size :: "u64 \<Rightarrow> u64" where
  "boot_map_size total_phys =
     (let map_size = total_phys;
          map_size = (if map_size < VMM_BOOT_MAP_MIN then VMM_BOOT_MAP_MIN else map_size);
          map_size = (if map_size > VMM_BOOT_MAP_MAX then VMM_BOOT_MAP_MAX else map_size)
      in ALIGN_UP_4K map_size)"

definition vmm_map_fb :: "fb_area option \<Rightarrow> vmm_state \<Rightarrow> vmm_state option" where
  "vmm_map_fb fb s =
     (case fb of
        None \<Rightarrow> Some s
      | Some f \<Rightarrow>
          let fb_phys = ALIGN_DOWN_4K (fb_addr f);
              fb_size = ucast (fb_pitch f) * ucast (fb_height f);
              fb_off = fb_addr f - fb_phys;
              fb_total = ALIGN_UP_4K (fb_off + fb_size);
              fb_flags = VMM_KERNEL_RW OR VMM_PWT OR VMM_PCD
          in vmm_map_range fb_phys fb_phys fb_total fb_flags s)"

definition vmm_init :: "fb_area option \<Rightarrow> vmm_state \<Rightarrow> vmm_state option" where
  "vmm_init fb s =
     (if \<not> pmm_ready (mm_pmm (vmm_mm s))
      then
        let s = s\<lparr>kernel_pml4_phys := cr3 s AND VMM_ADDR_MASK\<rparr>
        in Some (s\<lparr>kernel_pml4 := phys_to_virt (kernel_pml4_phys s), vmm_initialized := True\<rparr>)
      else
        do {
          let s = vmm_klog (Init_msg ''Initializing VMM'') s;
          (t, s) \<leftarrow> alloc_table s;
          let s = s\<lparr>kernel_pml4 := t\<rparr>;
          if t = 0 then Some (vmm_klog (Fail ''VMM: Failed to allocate PML4'') s)
          else
            do {
              let s = s\<lparr>kernel_pml4_phys := virt_to_phys t\<rparr>;
              s \<leftarrow> vmm_map_range 0 0 (boot_map_size (pmm_total (mm_pmm (vmm_mm s)))) VMM_KERNEL_RW s;
              s \<leftarrow> vmm_map_fb fb s;
              let s = s\<lparr>cr3 := kernel_pml4_phys s\<rparr>;
              let s = s\<lparr>vmm_initialized := True\<rparr>;
              Some (vmm_klog (Init_msg ''VMM online'') s)
            }
        })"

definition vmm_switch :: "u64 \<Rightarrow> vmm_state \<Rightarrow> vmm_state" where
  "vmm_switch pml4_phys s = s\<lparr>cr3 := pml4_phys\<rparr>"

definition vmm_get_cr3 :: "vmm_state \<Rightarrow> u64" where "vmm_get_cr3 s = cr3 s"
definition vmm_ready :: "vmm_state \<Rightarrow> bool" where "vmm_ready s = vmm_initialized s"
definition vmm_mapped_pages :: "vmm_state \<Rightarrow> u64" where "vmm_mapped_pages s = mapped_page_count s"

end
