(* ===== verification/Page_Walk.thy ===== *)
theory Page_Walk
  imports VMM
begin

text \<open>
  The tree of page tables. \<open>look\<close> is the translation a table word store defines, level by level;
  every table has an owner, the path of indices that leads to it from the root, so that a change
  of one entry affects exactly the addresses whose path goes through it.
\<close>

section \<open>Indices and entries\<close>

definition present :: "u64 \<Rightarrow> bool" where "present e \<longleftrightarrow> e AND VMM_PRESENT \<noteq> 0"
definition huge :: "u64 \<Rightarrow> bool" where "huge e \<longleftrightarrow> e AND VMM_HUGE \<noteq> 0"
definition target :: "u64 \<Rightarrow> u64" where "target e = e AND VMM_ADDR_MASK"

text \<open>Index of an address in the table of level \<open>k\<close>: 3 for the root, 0 for the last level.\<close>

definition ix :: "nat \<Rightarrow> u64 \<Rightarrow> u64" where
  "ix k v = drop_bit (12 + 9 * k) v AND 0x1FF"

lemma ix_index: "PML4_INDEX v = ix 3 v" "PDPT_INDEX v = ix 2 v" "PD_INDEX v = ix 1 v" "PT_INDEX v = ix 0 v"
  by (simp_all add: ix_def PML4_INDEX_def PDPT_INDEX_def PD_INDEX_def PT_INDEX_def)

lemma ix_bound: "unat (ix k v) < 512"
proof -
  have "(0x1FF :: u64) = mask 9" by (simp add: mask_eq_exp_minus_1)
  then have "ix k v = take_bit 9 (drop_bit (12 + 9 * k) v)" by (simp add: ix_def take_bit_eq_mask)
  then have "unat (ix k v) = take_bit 9 (unat (drop_bit (12 + 9 * k) v))" by (simp add: unsigned_take_bit_eq)
  then show ?thesis using take_bit_nat_less_exp [of 9] by simp
qed

definition pth :: "nat \<Rightarrow> u64 \<Rightarrow> u64 list" where
  "pth k v = map (\<lambda>j. ix j v) (rev [Suc k..<4])"

lemma pth_root: "pth 3 v = []"
  by (simp add: pth_def)

lemma pth_step: "k < 3 \<Longrightarrow> pth k v = pth (Suc k) v @ [ix (Suc k) v]"
  by (simp add: pth_def upt_conv_Cons)

section \<open>Walks\<close>

fun look :: "(u64 \<Rightarrow> u64) \<Rightarrow> nat \<Rightarrow> u64 \<Rightarrow> u64 \<Rightarrow> u64 option" where
  "look m 0 t v =
     (let e = m (slot t (ix 0 v)) in if present e then Some (target e OR (v AND 0xFFF)) else None)"
| "look m (Suc k) t v =
     (let e = m (slot t (ix (Suc k) v)) in
      if \<not> present e then None
      else if huge e
      then if Suc k = 3 then None else Some (target e OR (v AND (2 ^ (12 + 9 * Suc k) - 1)))
      else look m k (target e) v)"

fun reach :: "(u64 \<Rightarrow> u64) \<Rightarrow> nat \<Rightarrow> u64 \<Rightarrow> u64 \<Rightarrow> nat \<Rightarrow> u64 \<Rightarrow> bool" where
  "reach m 0 t v k0 t0 \<longleftrightarrow> k0 = 0 \<and> t = t0"
| "reach m (Suc k) t v k0 t0 \<longleftrightarrow>
     (if k0 = Suc k then t = t0
      else let e = m (slot t (ix (Suc k) v)) in present e \<and> \<not> huge e \<and> reach m k (target e) v k0 t0)"

lemma reach_self [simp]: "reach m k t v k t"
  by (cases k) simp_all

lemma reach_Suc:
  assumes "reach m (Suc k) t v k0 t0"
  obtains (here) "k0 = Suc k" "t = t0"
  | (below) "k0 \<noteq> Suc k" "present (m (slot t (ix (Suc k) v)))" "\<not> huge (m (slot t (ix (Suc k) v)))"
      "reach m k (target (m (slot t (ix (Suc k) v)))) v k0 t0"
  using assms that by (cases "k0 = Suc k") (simp_all add: Let_def)

lemma reach_level: "reach m k t v k0 t0 \<Longrightarrow> k0 \<le> k"
proof (induction k arbitrary: t)
  case (Suc k)
  from Suc.prems show ?case by (cases rule: reach_Suc) (auto dest: Suc.IH)
qed simp

lemma reach_look: "reach m k t v k0 t0 \<Longrightarrow> look m k t v = look m k0 t0 v"
proof (induction k arbitrary: t)
  case (Suc k)
  from Suc.prems show ?case
  proof (cases rule: reach_Suc)
    case below
    with Suc.IH show ?thesis by (simp add: Let_def)
  qed simp
qed simp

lemma reach_step:
  assumes "reach m k t v (Suc k0) t0" and "present (m (slot t0 (ix (Suc k0) v)))"
    and "\<not> huge (m (slot t0 (ix (Suc k0) v)))"
  shows "reach m k t v k0 (target (m (slot t0 (ix (Suc k0) v))))"
  using assms(1)
proof (induction k arbitrary: t)
  case (Suc k)
  from Suc.prems show ?case
  proof (cases rule: reach_Suc)
    case here
    with assms(2,3) show ?thesis by (simp add: Let_def)
  next
    case below
    then have "k0 \<noteq> Suc k" using reach_level [OF below(4)] by simp
    with below Suc.IH show ?thesis by (simp add: Let_def)
  qed
qed simp

section \<open>Owned tables\<close>

type_synonym owners = "u64 \<Rightarrow> (nat \<times> u64 list) option"

definition entry_ok :: "owners \<Rightarrow> nat \<Rightarrow> u64 list \<Rightarrow> u64 \<Rightarrow> u64 \<Rightarrow> bool" where
  "entry_ok own k path i e \<longleftrightarrow> e = 0 \<or>
     present e \<and> (0 < k \<and> \<not> huge e \<longrightarrow> own (target e) = Some (k - 1, path @ [i]))"

definition tables_ok :: "(u64 \<Rightarrow> u64) \<Rightarrow> owners \<Rightarrow> bool" where
  "tables_ok m own \<longleftrightarrow> (\<forall>t k path. own t = Some (k, path) \<longrightarrow>
     k \<le> 3 \<and> (\<exists>f. t = page_addr f \<and> 0 < f \<and> f < 16777216) \<and>
     (\<forall>i. unat i < 512 \<longrightarrow> entry_ok own k path i (m (slot t i))))"

lemma slot_nat:
  assumes "f < 16777216" and "unat i < 512"
  shows "unat (slot (page_addr f) i) = f * 4096 + 8 * unat i"
proof -
  have i: "unat (8 * i) = 8 * unat i" using assms(2) by (simp add: unat_word_ariths)
  have f: "unat (page_addr f) = f * 4096" using unat_page_addr [OF assms(1)] by (simp add: PAGE_SIZE_def)
  have "unat (page_addr f) + unat (8 * i) < 2 ^ LENGTH(64)" unfolding i f using assms by simp
  then show ?thesis unfolding slot_def by (simp only: unat_add_lem [THEN iffD1] i f)
qed

lemma word_position:
  assumes "f * 4096 + 8 * a = g * 4096 + 8 * (b :: nat)" and "a < 512" and "b < 512"
  shows "f = g \<and> a = b"
proof -
  have "(f * 4096 + 8 * a) div 4096 = f" "(g * 4096 + 8 * b) div 4096 = g" using assms(2,3) by simp_all
  with assms(1) show ?thesis by simp
qed

lemma slot_inj:
  assumes "f < 16777216" "unat i < 512" "g < 16777216" "unat j < 512"
  shows "slot (page_addr f) i = slot (page_addr g) j \<longleftrightarrow> f = g \<and> i = j"
proof
  assume "slot (page_addr f) i = slot (page_addr g) j"
  then have "f * 4096 + 8 * unat i = g * 4096 + 8 * unat j"
    using slot_nat [OF assms(1,2)] slot_nat [OF assms(3,4)] by simp
  then have "f = g \<and> unat i = unat j" using word_position assms(2,4) by blast
  then show "f = g \<and> i = j" by (simp add: word_unat_eq_iff)
qed simp

lemma owned_slot_inj:
  assumes "tables_ok m own" and "own t = Some a" and "own t' = Some b" and "unat i < 512" and "unat j < 512"
  shows "slot t i = slot t' j \<longleftrightarrow> t = t' \<and> i = j"
proof -
  obtain k p k' p' where "a = (k, p)" "b = (k', p')" by (cases a, cases b)
  then obtain f g where "t = page_addr f" "f < 16777216" "t' = page_addr g" "g < 16777216"
    using assms(1-3) unfolding tables_ok_def by blast
  then show ?thesis using slot_inj [of f i g j] assms(4,5) page_addr_eq_iff by auto
qed

lemma owned_entry:
  assumes "tables_ok m own" and "own t = Some (Suc k, path)" and "unat i < 512"
    and "present (m (slot t i))" and "\<not> huge (m (slot t i))"
  shows "own (target (m (slot t i))) = Some (k, path @ [i])"
proof -
  have "entry_ok own (Suc k) path i (m (slot t i))" using assms(1-3) by (auto simp: tables_ok_def)
  then show ?thesis using assms(4,5) by (auto simp: entry_ok_def present_def)
qed

lemma reach_owner:
  assumes "tables_ok m own" and "own t = Some (k, pth k v)" and "k \<le> 3" and "reach m k t v k0 t0"
  shows "own t0 = Some (k0, pth k0 v)"
  using assms(2-4)
proof (induction k arbitrary: t)
  case (Suc k)
  show ?case
  proof (cases "k0 = Suc k")
    case False
    let ?e = "m (slot t (ix (Suc k) v))"
    have e: "present ?e" "\<not> huge ?e" "reach m k (target ?e) v k0 t0"
      using Suc.prems(3) False by (auto simp: Let_def)
    have "own (target ?e) = Some (k, pth k v)"
      using owned_entry [OF assms(1) Suc.prems(1) ix_bound e(1,2)] pth_step [of k v] Suc.prems(2) by simp
    then show ?thesis using Suc.IH e(3) Suc.prems(2) by simp
  qed (use Suc.prems in simp)
qed simp

text \<open>Two addresses with the same path reach the same table.\<close>

lemma reach_same_path:
  assumes "reach m k t v k0 t0" and "k \<le> 3" and "\<And>j. k0 < j \<Longrightarrow> j \<le> 3 \<Longrightarrow> ix j w = ix j v"
  shows "reach m k t w k0 t0"
  using assms(1,2)
proof (induction k arbitrary: t)
  case (Suc k)
  from Suc.prems(1) show ?case
  proof (cases rule: reach_Suc)
    case below
    have "ix (Suc k) w = ix (Suc k) v"
      using assms(3) [of "Suc k"] reach_level [OF below(4)] Suc.prems(2) by simp
    with below Suc.IH Suc.prems(2) show ?thesis by (simp add: Let_def)
  qed simp
qed simp

lemma pth_eq: "k \<le> 3 \<Longrightarrow> pth k v = pth k w \<Longrightarrow> k < j \<Longrightarrow> j \<le> 3 \<Longrightarrow> ix j v = ix j w"
  by (auto simp: pth_def)

section \<open>Changing one entry\<close>

text \<open>\<open>m'\<close> differs from \<open>m\<close> on the owned tables only in entry \<open>i0\<close> of \<open>t0\<close>.\<close>

definition changes_only :: "owners \<Rightarrow> u64 \<Rightarrow> u64 \<Rightarrow> (u64 \<Rightarrow> u64) \<Rightarrow> (u64 \<Rightarrow> u64) \<Rightarrow> bool" where
  "changes_only own t0 i0 m m' \<longleftrightarrow> (\<forall>t i. own t \<noteq> None \<and> unat i < 512 \<and> (t, i) \<noteq> (t0, i0) \<longrightarrow>
     m' (slot t i) = m (slot t i))"

lemma look_frame:
  assumes "tables_ok m own" and "changes_only own t0 i0 m m'" and "own t0 = Some (k0, path)"
    and "own t = Some (k, pth k v)" and "k \<le> 3" and "\<not> (reach m k t v k0 t0 \<and> ix k0 v = i0)"
  shows "look m' k t v = look m k t v"
  using assms(4-6)
proof (induction k arbitrary: t)
  case 0
  have "(t, ix 0 v) \<noteq> (t0, i0)" using 0 assms(3) by auto
  then have "m' (slot t (ix 0 v)) = m (slot t (ix 0 v))"
    using assms(2) 0(1) ix_bound by (auto simp: changes_only_def)
  then show ?case by simp
next
  case (Suc k)
  let ?e = "m (slot t (ix (Suc k) v))"
  have "(t, ix (Suc k) v) \<noteq> (t0, i0)" using Suc.prems assms(3) by auto
  then have same: "m' (slot t (ix (Suc k) v)) = ?e"
    using assms(2) Suc.prems(1) ix_bound by (auto simp: changes_only_def)
  show ?case
  proof (cases "present ?e \<and> \<not> huge ?e")
    case True
    have "own (target ?e) = Some (k, pth k v)"
      using owned_entry [OF assms(1) Suc.prems(1) ix_bound] True pth_step [of k v] Suc.prems(2) by simp
    moreover have "\<not> (reach m k (target ?e) v k0 t0 \<and> ix k0 v = i0)"
      using Suc.prems(3) True reach_level [of m k "target ?e" v k0 t0] by (auto simp: Let_def)
    ultimately have "look m' k (target ?e) v = look m k (target ?e) v" using Suc.IH Suc.prems(2) by simp
    then show ?thesis using same by (simp add: Let_def)
  next
    case False
    then show ?thesis using same by (auto simp: Let_def)
  qed
qed

lemma reach_frame:
  assumes "tables_ok m own" and "changes_only own t0 i0 m m'" and "own t0 = Some (k0, path)"
    and "own t = Some (k, pth k v)" and "k \<le> 3" and "reach m k t v k0 t0"
  shows "reach m' k t v k0 t0"
  using assms(4-6)
proof (induction k arbitrary: t)
  case (Suc k)
  show ?case
  proof (cases "k0 = Suc k")
    case False
    let ?e = "m (slot t (ix (Suc k) v))"
    have e: "present ?e" "\<not> huge ?e" "reach m k (target ?e) v k0 t0"
      using Suc.prems(3) False by (auto simp: Let_def)
    have "t \<noteq> t0" using Suc.prems(1) assms(3) False by auto
    then have "m' (slot t (ix (Suc k) v)) = ?e"
      using assms(2) Suc.prems(1) ix_bound by (auto simp: changes_only_def)
    moreover have "own (target ?e) = Some (k, pth k v)"
      using owned_entry [OF assms(1) Suc.prems(1) ix_bound e(1,2)] pth_step [of k v] Suc.prems(2) by simp
    ultimately show ?thesis using Suc.IH e Suc.prems(2) False by (simp add: Let_def)
  qed (use Suc.prems in simp)
qed simp

text \<open>The translation after a change of the entry that \<open>v\<close> uses in the table \<open>t0\<close>.\<close>

lemma look_change:
  assumes "tables_ok m own" and "own r = Some (3, [])" and "reach m 3 r v k0 t0"
    and "changes_only own t0 (ix k0 v) m m'"
  shows "look m' 3 r w =
    (if pth k0 w = pth k0 v \<and> ix k0 w = ix k0 v then look m' k0 t0 w else look m 3 r w)"
proof -
  have root: "own r = Some (3, pth 3 u)" for u using assms(2) by (simp add: pth_root)
  have own: "own t0 = Some (k0, pth k0 v)" using reach_owner [OF assms(1) root _ assms(3)] by simp
  have k0: "k0 \<le> 3" using reach_level [OF assms(3)] .
  show ?thesis
  proof (cases "pth k0 w = pth k0 v \<and> ix k0 w = ix k0 v")
    case True
    then have "ix j w = ix j v" if "k0 < j" "j \<le> 3" for j using pth_eq [of k0 w v j] k0 that by simp
    then have "reach m 3 r w k0 t0" using reach_same_path [OF assms(3)] by simp
    then have "reach m' 3 r w k0 t0" using reach_frame [OF assms(1,4) own root] by simp
    then show ?thesis using True reach_look by simp
  next
    case False
    have "\<not> (reach m 3 r w k0 t0 \<and> ix k0 w = ix k0 v)"
    proof
      assume a: "reach m 3 r w k0 t0 \<and> ix k0 w = ix k0 v"
      then have "own t0 = Some (k0, pth k0 w)" using reach_owner [OF assms(1) root] by simp
      with own a False show False by simp
    qed
    then have "look m' 3 r w = look m 3 r w" using look_frame [OF assms(1,4) own root] by simp
    then show ?thesis unfolding if_not_P [OF False] .
  qed
qed

end
