(* ===== verification/VMM_Correct.thy ===== *)
theory VMM_Correct
  imports Page_Walk
begin

text \<open>
  Correctness of mapping, unmapping and translation on well-formed page tables: the walk of
  \<open>vmm_translate\<close> computes \<open>look\<close>, mapping a page changes the translation of exactly that page,
  unmapping removes exactly that page, and the bootstrap window is an identity mapping.
\<close>

section \<open>Well-formed address spaces\<close>

definition vmm_ok :: "vmm_state \<Rightarrow> owners \<Rightarrow> bool" where
  "vmm_ok s own \<longleftrightarrow> tables_ok (vmem s) own \<and> own (kernel_pml4 s) = Some (3, []) \<and>
     pmm_inv (mm_pmm (vmm_mm s)) \<and> ready (mm_pmm (vmm_mm s)) \<and> 0 \<in> used (mm_pmm (vmm_mm s)) \<and>
     (\<forall>f < 16777216. own (page_addr f) \<noteq> None \<longrightarrow> f \<in> used (mm_pmm (vmm_mm s)))"

lemma vmm_ok_parts:
  assumes "vmm_ok s own"
  shows "tables_ok (vmem s) own" and "pmm_inv (mm_pmm (vmm_mm s))" and "ready (mm_pmm (vmm_mm s))"
    and "0 \<in> used (mm_pmm (vmm_mm s))" and "\<forall>f < 16777216. own (page_addr f) \<noteq> None \<longrightarrow> f \<in> used (mm_pmm (vmm_mm s))"
  using assms unfolding vmm_ok_def by blast+

abbreviation translation :: "vmm_state \<Rightarrow> u64 \<Rightarrow> u64 option" where
  "translation s \<equiv> look (vmem s) 3 (kernel_pml4 s)"

abbreviation frames_left :: "vmm_state \<Rightarrow> nat set" where
  "frames_left s \<equiv> free_frames (mm_pmm (vmm_mm s))"

lemma owned_page:
  assumes "tables_ok m own" and "own t = Some (k, path)"
  obtains f where "t = page_addr f" "0 < f" "f < 16777216" "t \<noteq> 0" "k \<le> 3"
proof -
  obtain f where f: "t = page_addr f" "0 < f" "f < 16777216" "k \<le> 3" using assms unfolding tables_ok_def by blast
  have "unat (page_addr f) = f * PAGE_SIZE" using unat_page_addr f(3) by blast
  then have "t \<noteq> 0" using f by (auto simp: PAGE_SIZE_def)
  with f show thesis using that by blast
qed

lemma page_region:
  assumes "f < 16777216" and "g < 16777216" and "unat i < 512"
  shows "(page_addr f \<le> slot (page_addr g) i \<and> slot (page_addr g) i - page_addr f < PAGE_SIZE_4K) \<longleftrightarrow> g = f"
proof -
  let ?a = "slot (page_addr g) i"
  have a: "unat ?a = g * 4096 + 8 * unat i" using slot_nat [OF assms(2,3)] .
  have f: "unat (page_addr f) = f * 4096" using unat_page_addr [OF assms(1)] by (simp add: PAGE_SIZE_def)
  have le: "page_addr f \<le> ?a \<longleftrightarrow> f * 4096 \<le> g * 4096 + 8 * unat i" by (simp add: word_le_nat_alt a f)
  have "unat (?a - page_addr f) = g * 4096 + 8 * unat i - f * 4096" if "page_addr f \<le> ?a"
    using that unat_sub [OF that] by (simp add: a f)
  then have "(page_addr f \<le> ?a \<and> ?a - page_addr f < PAGE_SIZE_4K) \<longleftrightarrow>
      f * 4096 \<le> g * 4096 + 8 * unat i \<and> g * 4096 + 8 * unat i - f * 4096 < 4096"
    by (auto simp: le word_less_nat_alt PAGE_SIZE_4K_def)
  also have "\<dots> \<longleftrightarrow> g = f" using assms(3) by auto
  finally show ?thesis .
qed

lemma used_frames_bound: "pmm_inv p \<Longrightarrow> f \<in> free_frames p \<Longrightarrow> f < 16777216"
  by (auto simp: free_frames_def pmm_inv_def)

lemma alloc_table_new:
  assumes tok: "tables_ok (vmem s) own" and inv: "pmm_inv (mm_pmm (vmm_mm s))" "ready (mm_pmm (vmm_mm s))"
    and zero: "0 \<in> used (mm_pmm (vmm_mm s))"
    and owned: "\<forall>f < 16777216. own (page_addr f) \<noteq> None \<longrightarrow> f \<in> used (mm_pmm (vmm_mm s))"
    and left: "frames_left s \<noteq> {}"
  obtains f s' where "alloc_table s = Some (page_addr f, s')" "page_addr f \<noteq> 0" "0 < f" "f < 16777216"
    "own (page_addr f) = None" "\<And>i. unat i < 512 \<Longrightarrow> vmem s' (slot (page_addr f) i) = 0"
    "\<And>t i. own t \<noteq> None \<Longrightarrow> unat i < 512 \<Longrightarrow> vmem s' (slot t i) = vmem s (slot t i)"
    "frames_left s' = frames_left s - {f}" "f \<in> frames_left s" "pmm_inv (mm_pmm (vmm_mm s'))" "ready (mm_pmm (vmm_mm s'))"
    "used (mm_pmm (vmm_mm s')) = insert f (used (mm_pmm (vmm_mm s)))"
    "kernel_pml4 s' = kernel_pml4 s" "vmm_initialized s' = vmm_initialized s"
    "mapped_page_count s' = mapped_page_count s" "max_frames (mm_pmm (vmm_mm s')) = max_frames (mm_pmm (vmm_mm s))"
proof -
  let ?p = "mm_pmm (vmm_mm s)"
  obtain f m' where f: "pmm_alloc_page (vmm_mm s) = Some (page_addr f, m')" "f \<in> free_frames ?p"
    "free_frames (mm_pmm m') = free_frames ?p - {f}" "pmm_inv (mm_pmm m')" "ready (mm_pmm m')"
    "used (mm_pmm m') = insert f (used ?p)" "max_frames (mm_pmm m') = max_frames ?p"
    by (rule pmm_alloc_page_takes [OF inv left])
  have "0 \<in> used ?p" "f \<notin> used ?p" using zero f(2) by (simp_all add: free_frames_def)
  then have "f \<noteq> 0" by metis
  moreover have lt: "f < 16777216" using used_frames_bound [OF inv(1) f(2)] .
  ultimately have nz: "page_addr f \<noteq> 0" using unat_page_addr [OF lt] by (auto simp: PAGE_SIZE_def)
  let ?s = "s\<lparr>vmm_mm := m', vmem := (\<lambda>a. if page_addr f \<le> a \<and> a - page_addr f < PAGE_SIZE_4K then 0 else vmem s a)\<rparr>"
  have al: "alloc_table s = Some (page_addr f, ?s)"
    using f(1) nz by (simp add: alloc_table_def Let_def phys_to_virt_def cong: if_cong)
  have "own (page_addr f) \<noteq> None \<longrightarrow> f \<in> used ?p" using owned lt by blast
  then have fresh: "own (page_addr f) = None" using \<open>f \<notin> used ?p\<close> by blast
  have other: "vmem ?s (slot t i) = vmem s (slot t i)" if o: "own t \<noteq> None" and j: "unat i < 512" for t i
  proof -
    obtain k p where "own t = Some (k, p)" using o by auto
    then obtain g where g: "t = page_addr g" "g < 16777216" using owned_page [OF tok] by metis
    then have "g \<noteq> f" using fresh o by auto
    then show ?thesis using page_region [OF lt g(2) j] g(1) by auto
  qed
  have zero: "vmem ?s (slot (page_addr f) i) = 0" if "unat i < 512" for i using page_region [OF lt lt that] by auto
  show thesis
    by (rule that [OF al nz _ lt fresh zero other])
      (use f \<open>f \<noteq> 0\<close> in simp_all)
qed

section \<open>Entries\<close>

lemma mask_bits: "bit VMM_ADDR_MASK n \<longleftrightarrow> 12 \<le> n \<and> n < 52"
proof -
  have eq: "VMM_ADDR_MASK = push_bit 12 (mask 40)"
    by (simp add: VMM_ADDR_MASK_def mask_eq_exp_minus_1 push_bit_eq_mult)
  show ?thesis unfolding eq by (auto simp: bit_push_bit_iff bit_mask_iff)
qed

lemma flag_bits: "bit VMM_PRESENT n \<longleftrightarrow> n = 0" "bit VMM_WRITE n \<longleftrightarrow> n = 1" "bit VMM_HUGE n \<longleftrightarrow> n = 7"
proof -
  have w: "VMM_WRITE = 2 ^ 1" and h: "VMM_HUGE = 2 ^ 7" by (simp_all add: VMM_WRITE_def VMM_HUGE_def)
  show "bit VMM_WRITE n \<longleftrightarrow> n = 1" unfolding w bit_exp_iff by auto
  show "bit VMM_HUGE n \<longleftrightarrow> n = 7" unfolding h bit_exp_iff by auto
  show "bit VMM_PRESENT n \<longleftrightarrow> n = 0" by (simp add: VMM_PRESENT_def bit_1_iff)
qed

lemma present_bit: "present e \<longleftrightarrow> bit e 0"
  using and_exp_eq_0_iff_not_bit [of e 0] by (simp add: present_def VMM_PRESENT_def)

lemma huge_bit: "huge e \<longleftrightarrow> bit e 7"
  using and_exp_eq_0_iff_not_bit [of e 7] by (simp add: huge_def VMM_HUGE_def)

lemma page_addr_bits:
  assumes "f < 16777216" and "bit (page_addr f) n"
  shows "12 \<le> n \<and> n < 52"
proof -
  have "page_addr f = push_bit 12 (of_nat f)" by (simp add: page_addr_def PAGE_SIZE_def push_bit_eq_mult)
  with assms(2) have n: "12 \<le> n" "bit (of_nat f :: u64) (n - 12)" by (auto simp: bit_push_bit_iff)
  then have "bit f (n - 12)" by (simp add: bit_of_nat_iff)
  moreover have "\<not> bit f m" if "24 \<le> m" for m
  proof -
    have "f < 2 ^ m" using assms(1) power_increasing [OF that, of "2 :: nat"] by simp
    then show ?thesis by (simp add: bit_iff_odd)
  qed
  ultimately have "n - 12 < 24" using not_le by blast
  with n show ?thesis by simp
qed

text \<open>Flags do not disturb the address an entry carries.\<close>

lemma target_table:
  assumes "f < 16777216"
  defines "e \<equiv> virt_to_phys (page_addr f) OR VMM_PRESENT OR VMM_WRITE"
  shows "target e = page_addr f" and "present e" and "\<not> huge e"
proof -
  have n: "unat (page_addr f) = f * 4096" using unat_page_addr [OF assms(1)] by (simp add: PAGE_SIZE_def)
  have "\<not> KERNEL_BASE \<le> page_addr f" using assms(1) by (simp add: word_le_nat_alt n KERNEL_BASE_def)
  then have e: "e = page_addr f OR VMM_PRESENT OR VMM_WRITE" by (simp add: e_def virt_to_phys_def)
  show "present e" by (simp add: e present_bit bit_or_iff flag_bits)
  show "\<not> huge e" using page_addr_bits [OF assms(1), of 7] by (auto simp: e huge_bit bit_or_iff flag_bits)
  show "target e = page_addr f"
    unfolding e target_def
    by (rule bit_word_eqI) (use page_addr_bits [OF assms(1)] in \<open>auto simp: bit_and_iff bit_or_iff mask_bits flag_bits\<close>)
qed

lemma target_leaf:
  assumes "flags AND VMM_ADDR_MASK = 0"
  shows "target ((phys AND VMM_ADDR_MASK) OR flags OR VMM_PRESENT) = phys AND VMM_ADDR_MASK"
    and "present ((phys AND VMM_ADDR_MASK) OR flags OR VMM_PRESENT)"
    and "target (huge_entry phys flags) = phys AND VMM_ADDR_MASK"
    and "present (huge_entry phys flags)" and "huge (huge_entry phys flags)"
proof -
  have f: "\<not> (bit flags n \<and> 12 \<le> n \<and> n < 52)" for n
  proof -
    have "bit (flags AND VMM_ADDR_MASK) n \<longleftrightarrow> False" using assms by simp
    then show ?thesis by (simp add: bit_and_iff mask_bits)
  qed
  show "target ((phys AND VMM_ADDR_MASK) OR flags OR VMM_PRESENT) = phys AND VMM_ADDR_MASK"
    unfolding target_def
    by (rule bit_word_eqI) (use f in \<open>auto simp: bit_and_iff bit_or_iff mask_bits flag_bits\<close>)
  show "target (huge_entry phys flags) = phys AND VMM_ADDR_MASK"
    unfolding target_def huge_entry_def
    by (rule bit_word_eqI) (use f in \<open>auto simp: bit_and_iff bit_or_iff bit_not_iff mask_bits flag_bits\<close>)
qed (simp_all add: huge_entry_def present_bit huge_bit bit_or_iff flag_bits)

section \<open>Descending one level\<close>

text \<open>No large page blocks the way from level \<open>k\<close> to level \<open>k0\<close>.\<close>

fun clear_path :: "(u64 \<Rightarrow> u64) \<Rightarrow> nat \<Rightarrow> nat \<Rightarrow> u64 \<Rightarrow> u64 \<Rightarrow> bool" where
  "clear_path m k0 0 t v = True"
| "clear_path m k0 (Suc k) t v \<longleftrightarrow>
     (k0 \<le> k \<longrightarrow> (let e = m (slot t (ix (Suc k) v)) in present e \<longrightarrow> \<not> huge e \<and> clear_path m k0 k (target e) v))"

text \<open>How many tables are missing on the way down to level \<open>k0\<close>.\<close>

fun need :: "(u64 \<Rightarrow> u64) \<Rightarrow> nat \<Rightarrow> nat \<Rightarrow> u64 \<Rightarrow> u64 \<Rightarrow> nat" where
  "need m k0 0 t v = 0"
| "need m k0 (Suc k) t v =
     (if k0 \<le> k then let e = m (slot t (ix (Suc k) v)) in if present e then need m k0 k (target e) v else Suc k - k0
      else 0)"

lemma tables_ok_new:
  assumes "tables_ok m own" and "own t = Some (Suc k, path)" and "unat i < 512" and "0 < f" and "f < 16777216"
    and "own (page_addr f) = None" and "\<And>j. unat j < 512 \<Longrightarrow> m' (slot (page_addr f) j) = 0"
    and "\<And>u j. own u \<noteq> None \<Longrightarrow> unat j < 512 \<Longrightarrow> m' (slot u j) = m (slot u j)"
    and "target e = page_addr f" and "present e"
  shows "tables_ok (m'(slot t i := e)) (own(page_addr f \<mapsto> (k, path @ [i])))"
  unfolding tables_ok_def
proof (intro allI impI conjI)
  let ?own = "own(page_addr f \<mapsto> (k, path @ [i]))" and ?m = "m'(slot t i := e)"
  fix u l p assume u: "?own u = Some (l, p)"
  obtain h where h: "t = page_addr h" "h < 16777216" and k: "Suc k \<le> 3" using owned_page [OF assms(1,2)] by metis
  have tf: "h \<noteq> f" using h assms(2,6) by auto
  show "l \<le> 3" using u assms(1) k unfolding tables_ok_def by (auto split: if_splits)
  show "\<exists>g. u = page_addr g \<and> 0 < g \<and> g < 16777216" using u assms(1,4,5) unfolding tables_ok_def by (auto split: if_splits)
  fix j :: u64 assume j: "unat j < 512"
  show "entry_ok ?own l p j (?m (slot u j))"
  proof (cases "u = page_addr f")
    case True
    then have "slot u j \<noteq> slot t i" using slot_inj [OF assms(5) j h(2) assms(3)] tf h(1) by simp
    then show ?thesis using True assms(7) [OF j] by (simp add: entry_ok_def)
  next
    case False
    then have ou: "own u = Some (l, p)" using u by simp
    show ?thesis
    proof (cases "u = t \<and> j = i")
      case True
      then show ?thesis using assms(2,9,10) ou by (auto simp: entry_ok_def)
    next
      case False
      then have "slot u j \<noteq> slot t i" using owned_slot_inj [OF assms(1) ou assms(2) j assms(3)] by simp
      then have "?m (slot u j) = m (slot u j)" using assms(8) [of u j] ou j by simp
      moreover have "entry_ok own l p j (m (slot u j))" using assms(1) ou j unfolding tables_ok_def by blast
      ultimately show ?thesis using assms(6) by (auto simp: entry_ok_def)
    qed
  qed
qed

text \<open>
  Descending with \<open>create\<close>: the next table exists afterwards, is reached by the address, and no
  translation has changed.
\<close>

definition same_globals :: "vmm_state \<Rightarrow> vmm_state \<Rightarrow> bool" where
  "same_globals s t \<longleftrightarrow> kernel_pml4 t = kernel_pml4 s \<and> vmm_initialized t = vmm_initialized s"

text \<open>Tables are only added, on frames that were free.\<close>

definition grows :: "owners \<Rightarrow> vmm_state \<Rightarrow> owners \<Rightarrow> vmm_state \<Rightarrow> bool" where
  "grows own s own' s' \<longleftrightarrow> frames_left s' \<subseteq> frames_left s \<and> (\<forall>a. own' a \<noteq> None \<longrightarrow> own a \<noteq> None \<or> a \<in> page_addr ` frames_left s)"

lemma grows_refl [simp]: "grows own s own s"
  by (simp add: grows_def)

lemma grows_trans: "grows own s own' s' \<Longrightarrow> grows own' s' own'' s'' \<Longrightarrow> grows own s own'' s''"
  unfolding grows_def by blast

lemma look_zero_table:
  assumes "\<And>i. unat i < 512 \<Longrightarrow> m (slot t i) = 0"
  shows "look m k t v = None"
  using assms [OF ix_bound] by (cases k) (simp_all add: present_def)

lemma descend_present:
  assumes ok: "vmm_ok s own" and own: "own t = Some (Suc k, pth (Suc k) v)"
    and reach: "reach (vmem s) 3 (kernel_pml4 s) v (Suc k) t"
    and e: "present (entry s t (ix (Suc k) v))" "\<not> huge (entry s t (ix (Suc k) v))"
  defines "t' \<equiv> target (entry s t (ix (Suc k) v))"
  shows "get_or_create_entry t (ix (Suc k) v) True s = Some (t', s)" and "t' \<noteq> 0"
    and "own t' = Some (k, pth k v)" and "reach (vmem s) 3 (kernel_pml4 s) v k t'"
proof -
  have tok: "tables_ok (vmem s) own" using ok by (simp add: vmm_ok_def)
  have k: "k < 3" and tnz: "t \<noteq> 0" using owned_page [OF tok own] by (metis Suc_le_lessD)+
  show o: "own t' = Some (k, pth k v)"
    using owned_entry [OF tok own ix_bound] e unfolding entry_def pth_step [OF k] t'_def by simp
  then show "t' \<noteq> 0" using owned_page [OF tok] by metis
  show "get_or_create_entry t (ix (Suc k) v) True s = Some (t', s)"
    using e tnz by (simp add: get_or_create_entry_def present_def huge_def target_def phys_to_virt_def t'_def)
  show "reach (vmem s) 3 (kernel_pml4 s) v k t'"
    using reach_step [OF reach] e unfolding entry_def t'_def by blast
qed

text \<open>A new, empty table hung into an empty entry changes no translation.\<close>

lemma hang_table:
  assumes tok: "tables_ok m own" and root: "own r = Some (3, [])" and own: "own t = Some (Suc k, pth (Suc k) v)"
    and reach: "reach m 3 r v (Suc k) t" and absent: "\<not> present (m (slot t (ix (Suc k) v)))"
    and f: "0 < f" "f < 16777216" "own (page_addr f) = None"
    and zero: "\<forall>j. unat j < 512 \<longrightarrow> m' (slot (page_addr f) j) = 0"
    and same: "\<forall>u j. own u \<noteq> None \<and> unat j < 512 \<longrightarrow> m' (slot u j) = m (slot u j)"
    and e: "target e = page_addr f" "present e" "\<not> huge e"
  defines "m2 \<equiv> m'(slot t (ix (Suc k) v) := e)"
  shows "tables_ok m2 (own(page_addr f \<mapsto> (k, pth k v)))" and "look m2 3 r w = look m 3 r w"
    and "reach m2 3 r v k (page_addr f)" and "\<And>j. unat j < 512 \<Longrightarrow> m2 (slot (page_addr f) j) = 0"
proof -
  let ?i = "ix (Suc k) v"
  obtain h where h: "t = page_addr h" "h < 16777216" and k: "k < 3" using owned_page [OF tok own] by (metis Suc_le_lessD)
  then have "h \<noteq> f" using own f(3) by auto
  show "tables_ok m2 (own(page_addr f \<mapsto> (k, pth k v)))"
    unfolding m2_def pth_step [OF k] by (rule tables_ok_new [OF tok own ix_bound f _ _ e(1,2)]) (use zero same in blast)+
  show z: "m2 (slot (page_addr f) j) = 0" if "unat j < 512" for j
  proof -
    have "slot (page_addr f) j \<noteq> slot t ?i" using slot_inj [OF f(2) that h(2) ix_bound] h(1) \<open>h \<noteq> f\<close> by simp
    then show ?thesis using zero that by (simp add: m2_def)
  qed
  have ch: "changes_only own t ?i m m2"
    unfolding changes_only_def
  proof (intro allI impI)
    fix a j assume a: "own a \<noteq> None \<and> unat j < 512 \<and> (a, j) \<noteq> (t, ?i)"
    then obtain b where b: "own a = Some b" by blast
    have "slot a j \<noteq> slot t ?i" using owned_slot_inj [OF tok b own, of j ?i] a ix_bound by auto
    then show "m2 (slot a j) = m (slot a j)" using same a by (simp add: m2_def)
  qed
  show "look m2 3 r w = look m 3 r w"
  proof (cases "pth (Suc k) w = pth (Suc k) v \<and> ix (Suc k) w = ?i")
    case eq: True
    have "look m2 (Suc k) t w = None"
      using eq e look_zero_table [of m2 "page_addr f" k w, OF z] by (simp add: m2_def Let_def)
    moreover have "look m (Suc k) t w = None" using absent eq by (simp add: Let_def)
    moreover have "ix j w = ix j v" if "Suc k < j" "j \<le> 3" for j using pth_eq [of "Suc k" w v j] k eq that by simp
    then have "reach m 3 r w (Suc k) t" using reach_same_path [OF reach] by simp
    then have "look m 3 r w = look m (Suc k) t w" by (rule reach_look)
    ultimately show ?thesis using look_change [OF tok root reach ch, of w] eq by simp
  qed (use look_change [OF tok root reach ch, of w] in auto)
  have "own r = Some (3, pth 3 v)" using root by (simp add: pth_root)
  then have "reach m2 3 r v (Suc k) t" using reach_frame [OF tok ch own _ _ reach] by simp
  then show "reach m2 3 r v k (page_addr f)" using reach_step [of m2 3 r v k t] e by (simp add: m2_def)
qed

lemma descend_create:
  assumes ok: "vmm_ok s own" and own: "own t = Some (Suc k, pth (Suc k) v)"
    and reach: "reach (vmem s) 3 (kernel_pml4 s) v (Suc k) t" and clear: "clear_path (vmem s) k0 (Suc k) t v"
    and k0: "k0 \<le> k" and left: "need (vmem s) k0 (Suc k) t v \<le> card (frames_left s)"
  obtains t' s' own' where "get_or_create_entry t (ix (Suc k) v) True s = Some (t', s')" "t' \<noteq> 0"
    "vmm_ok s' own'" "own' t' = Some (k, pth k v)" "reach (vmem s') 3 (kernel_pml4 s') v k t'"
    "clear_path (vmem s') k0 k t' v" "\<And>w. translation s' w = translation s w" "same_globals s s'"
    "card (frames_left s) + need (vmem s') k0 k t' v \<le> card (frames_left s') + need (vmem s) k0 (Suc k) t v"
    "grows own s own' s'"
proof (cases "present (entry s t (ix (Suc k) v))")
  case True
  then have "\<not> huge (entry s t (ix (Suc k) v))" "clear_path (vmem s) k0 k (target (entry s t (ix (Suc k) v))) v"
    using clear k0 by (auto simp: Let_def entry_def)
  then show thesis using that descend_present [OF ok own reach True] ok True k0
    by (simp add: same_globals_def Let_def entry_def)
next
  case False
  let ?i = "ix (Suc k) v"
  have tok: "tables_ok (vmem s) own" and root: "own (kernel_pml4 s) = Some (3, [])" using ok by (simp_all add: vmm_ok_def)
  have tnz: "t \<noteq> 0" using owned_page [OF tok own] by metis
  have n: "need (vmem s) k0 (Suc k) t v = Suc k - k0" using False k0 by (simp add: entry_def Let_def)
  then have "0 < card (frames_left s)" using left k0 by simp
  then have ne: "frames_left s \<noteq> {}" by auto
  obtain f u where u: "alloc_table s = Some (page_addr f, u)" "page_addr f \<noteq> 0" "0 < f" "f < 16777216"
    "own (page_addr f) = None" "\<And>i. unat i < 512 \<Longrightarrow> vmem u (slot (page_addr f) i) = 0"
    "\<And>t i. own t \<noteq> None \<Longrightarrow> unat i < 512 \<Longrightarrow> vmem u (slot t i) = vmem s (slot t i)"
    "frames_left u = frames_left s - {f}" "f \<in> frames_left s" "pmm_inv (mm_pmm (vmm_mm u))" "ready (mm_pmm (vmm_mm u))"
    "used (mm_pmm (vmm_mm u)) = insert f (used (mm_pmm (vmm_mm s)))"
    "kernel_pml4 u = kernel_pml4 s" "vmm_initialized u = vmm_initialized s"
    "mapped_page_count u = mapped_page_count s"
    by (rule alloc_table_new [OF vmm_ok_parts [OF ok] ne]) (rule that)
  define e where "e = virt_to_phys (page_addr f) OR VMM_PRESENT OR VMM_WRITE"
  note te = target_table [OF u(4), folded e_def]
  define s' where "s' = set_entry t ?i e u"
  have m': "vmem s' = (vmem u)(slot t ?i := e)" "kernel_pml4 s' = kernel_pml4 s" "vmm_mm s' = vmm_mm u"
    "vmm_initialized s' = vmm_initialized s"
    by (simp_all add: s'_def set_entry_def u(13,14))
  have g: "get_or_create_entry t ?i True s = Some (page_addr f, s')"
    using False u(1,2) tnz te(1)
    by (simp add: get_or_create_entry_def present_def target_def phys_to_virt_def s'_def e_def Let_def entry_def set_entry_def)
  have "\<forall>j. unat j < 512 \<longrightarrow> vmem u (slot (page_addr f) j) = 0"
    and "\<forall>a j. own a \<noteq> None \<and> unat j < 512 \<longrightarrow> vmem u (slot a j) = vmem s (slot a j)"
    using u(6,7) by blast+
  note hang = hang_table [OF tok root own reach False [unfolded entry_def] u(3-5) this te, folded m'(1)]
  have z: "vmem s' (slot (page_addr f) (ix k v)) = 0" using hang(4) [OF ix_bound] .
  then have cl: "clear_path (vmem s') k0 k (page_addr f) v" by (cases k) (simp_all add: present_def)
  have ok': "vmm_ok s' (own(page_addr f \<mapsto> (k, pth k v)))"
    using hang(1) root ok u(5,10-12) page_addr_eq_iff [OF _ u(4)] by (auto simp: vmm_ok_def m')
  have "need (vmem s') k0 k (page_addr f) v \<le> k - k0"
    using z by (cases k) (simp_all add: present_def)
  moreover have "card (frames_left s) = Suc (card (frames_left s'))"
    using u(8,9) card_Suc_Diff1 [OF finite_free_frames u(9)] by (simp add: m')
  ultimately have card: "card (frames_left s) + need (vmem s') k0 k (page_addr f) v \<le>
      card (frames_left s') + need (vmem s) k0 (Suc k) t v" using n k0 by simp
  show thesis
    by (rule that [OF g u(2) ok' _ _ cl _ _ card]) (use hang u(8,9) in \<open>auto simp: same_globals_def grows_def m'\<close>)
qed

section \<open>Translation\<close>

lemma descend_existing:
  assumes "tables_ok (vmem s) own" and "own t = Some (Suc k, path)" and "unat i < 512"
  shows "get_or_create_entry t i False s =
    Some (if present (entry s t i) \<and> \<not> huge (entry s t i) then target (entry s t i) else 0, s)"
proof -
  have "t \<noteq> 0" using owned_page [OF assms(1,2)] by metis
  then show ?thesis by (simp add: get_or_create_entry_def present_def huge_def target_def phys_to_virt_def)
qed

text \<open>The walk of one level, with the constants of the code.\<close>

lemma look_root: "look m 3 t v =
  (let e = m (slot t (ix 3 v)) in if present e \<and> \<not> huge e then look m 2 (target e) v else None)"
  using look.simps(2) [of m 2 t v] by (simp add: Let_def)

lemma look_pdpt: "look m 2 t v =
  (let e = m (slot t (ix 2 v)) in if \<not> present e then None
   else if huge e then Some (target e OR (v AND (PAGE_SIZE_1G - 1))) else look m 1 (target e) v)"
  using look.simps(2) [of m 1 t v] by (simp add: Let_def PAGE_SIZE_1G_def numeral_2_eq_2 [symmetric])

lemma look_pd: "look m 1 t v =
  (let e = m (slot t (ix 1 v)) in if \<not> present e then None
   else if huge e then Some (target e OR (v AND (PAGE_SIZE_2M - 1))) else look m 0 (target e) v)"
  using look.simps(2) [of m 0 t v] by (simp add: Let_def PAGE_SIZE_2M_def)

lemma absent_zero:
  assumes "tables_ok (vmem s) own" and "own t = Some (k, path)" and "unat i < 512" and "\<not> present (entry s t i)"
  shows "\<not> huge (entry s t i)"
proof -
  have "entry_ok own k path i (entry s t i)" using assms(1-3) unfolding tables_ok_def entry_def by blast
  then have "entry s t i = 0" using assms(4) by (auto simp: entry_ok_def)
  then show ?thesis by (simp add: huge_def)
qed

lemma translate_look:
  assumes "vmm_ok s own"
  shows "vmm_translate v s = Some (case translation s v of None \<Rightarrow> 0 | Some a \<Rightarrow> a)"
proof -
  let ?r = "kernel_pml4 s"
  let ?e3 = "entry s ?r (ix 3 v)"
  let ?e2 = "entry s (target ?e3) (ix 2 v)"
  let ?e1 = "entry s (target ?e2) (ix 1 v)"
  have tok: "tables_ok (vmem s) own" and root: "own ?r = Some (Suc 2, [])"
    using assms by (simp_all add: vmm_ok_def numeral_3_eq_3)
  have nz: "own t = Some (k, p) \<Longrightarrow> t \<noteq> 0" for t k p using owned_page [OF tok] by metis
  have d3: "get_or_create_entry ?r (ix 3 v) False s = Some (if present ?e3 \<and> \<not> huge ?e3 then target ?e3 else 0, s)"
    using descend_existing [OF tok root ix_bound] .
  have l3: "translation s v = (if present ?e3 \<and> \<not> huge ?e3 then look (vmem s) 2 (target ?e3) v else None)"
    unfolding look_root by (simp add: Let_def entry_def)
  show ?thesis
  proof (cases "present ?e3 \<and> \<not> huge ?e3")
    case False
    then show ?thesis using nz [OF root] l3 d3 by (auto simp: vmm_translate_def ix_index)
  next
    case p3: True
    then have o2: "own (target ?e3) = Some (Suc 1, [ix 3 v])"
      using owned_entry [OF tok root ix_bound, of 3 v] unfolding entry_def by (simp add: numeral_2_eq_2)
    have d2: "get_or_create_entry (target ?e3) (ix 2 v) False s = Some (if present ?e2 \<and> \<not> huge ?e2 then target ?e2 else 0, s)"
      using descend_existing [OF tok o2 ix_bound] .
    have l2: "look (vmem s) 2 (target ?e3) v = (if \<not> present ?e2 then None
        else if huge ?e2 then Some (target ?e2 OR (v AND (PAGE_SIZE_1G - 1))) else look (vmem s) 1 (target ?e2) v)"
      unfolding look_pdpt by (simp add: Let_def entry_def)
    note a2 = absent_zero [OF tok o2 ix_bound, of 2 v]
    show ?thesis
    proof (cases "present ?e2 \<and> \<not> huge ?e2")
      case False
      then show ?thesis using nz [OF root] nz [OF o2] l3 l2 d3 d2 p3 a2
        by (auto simp: vmm_translate_def ix_index) (auto simp: huge_def target_def)
    next
      case p2: True
      then have o1: "own (target ?e2) = Some (Suc 0, [ix 3 v, ix 2 v])"
        using owned_entry [OF tok o2 ix_bound, of 2 v] unfolding entry_def by simp
      have d1: "get_or_create_entry (target ?e2) (ix 1 v) False s = Some (if present ?e1 \<and> \<not> huge ?e1 then target ?e1 else 0, s)"
        using descend_existing [OF tok o1 ix_bound] .
      have l1: "look (vmem s) 1 (target ?e2) v = (if \<not> present ?e1 then None
          else if huge ?e1 then Some (target ?e1 OR (v AND (PAGE_SIZE_2M - 1))) else look (vmem s) 0 (target ?e1) v)"
        unfolding look_pd by (simp add: Let_def entry_def)
      note a1 = absent_zero [OF tok o1 ix_bound, of 1 v]
      have o0: "present ?e1 \<and> \<not> huge ?e1 \<Longrightarrow> target ?e1 \<noteq> 0"
        using owned_entry [OF tok o1 ix_bound, of 1 v] nz unfolding entry_def by blast
      show ?thesis
        using nz [OF root] nz [OF o2] nz [OF o1] l3 l2 l1 d3 d2 d1 p3 p2 a1 o0
        by (cases "present ?e1 \<and> \<not> huge ?e1")
          (auto simp: vmm_translate_def ix_index huge_def present_def target_def entry_def Let_def)
    qed
  qed
qed

section \<open>Writing an entry\<close>

lemma tables_ok_write:
  assumes "tables_ok m own" and "own t = Some (k, path)" and "unat i < 512" and "entry_ok own k path i e"
  shows "tables_ok (m(slot t i := e)) own"
  unfolding tables_ok_def
proof (intro allI impI conjI)
  fix u l p assume u: "own u = Some (l, p)"
  show "l \<le> 3" "\<exists>f. u = page_addr f \<and> 0 < f \<and> f < 16777216" using assms(1) u unfolding tables_ok_def by blast+
  fix j :: u64 assume j: "unat j < 512"
  have "entry_ok own l p j (m (slot u j))" using assms(1) u j unfolding tables_ok_def by blast
  then show "entry_ok own l p j ((m(slot t i := e)) (slot u j))"
    using owned_slot_inj [OF assms(1) u assms(2) j assms(3)] assms(2,4) u by (cases "u = t \<and> j = i") auto
qed

lemma changes_only_write:
  assumes "tables_ok m own" and "own t = Some (k, path)" and "unat i < 512"
  shows "changes_only own t i m (m(slot t i := e))"
  unfolding changes_only_def
proof (intro allI impI)
  fix a j assume a: "own a \<noteq> None \<and> unat j < 512 \<and> (a, j) \<noteq> (t, i)"
  then obtain b where "own a = Some b" by blast
  then have "slot a j \<noteq> slot t i" using owned_slot_inj [OF assms(1) _ assms(2), of a b j i] a assms(3) by auto
  then show "(m(slot t i := e)) (slot a j) = m (slot a j)" by simp
qed

lemma write_entry:
  assumes ok: "vmm_ok s own" and own: "own t = Some (k, pth k v)"
    and reach: "reach (vmem s) 3 (kernel_pml4 s) v k t" and e: "entry_ok own k (pth k v) (ix k v) e"
    and s': "vmem s' = (vmem s)(slot t (ix k v) := e)" "kernel_pml4 s' = kernel_pml4 s" "vmm_mm s' = vmm_mm s"
  shows "vmm_ok s' own" and "translation s' w =
    (if pth k w = pth k v \<and> ix k w = ix k v then look (vmem s') k t w else translation s w)"
proof -
  have tok: "tables_ok (vmem s) own" and root: "own (kernel_pml4 s) = Some (3, [])" using ok by (simp_all add: vmm_ok_def)
  show "vmm_ok s' own" using tables_ok_write [OF tok own ix_bound e] ok by (simp add: vmm_ok_def s')
  have "changes_only own t (ix k v) (vmem s) (vmem s')" using changes_only_write [OF tok own ix_bound] unfolding s' .
  from look_change [OF tok root reach this, of w] show "translation s' w =
    (if pth k w = pth k v \<and> ix k w = ix k v then look (vmem s') k t w else translation s w)" by (simp add: s')
qed

lemma put_leaf_fields:
  "vmem (put_leaf t i e n x s) = (vmem s)(slot t i := e)" "kernel_pml4 (put_leaf t i e n x s) = kernel_pml4 s"
  "vmm_mm (put_leaf t i e n x s) = vmm_mm s" "vmm_initialized (put_leaf t i e n x s) = vmm_initialized s"
  by (simp_all add: put_leaf_def Let_def set_entry_def vmm_invlpg_def)

section \<open>Pages\<close>

text \<open>Two addresses in the same small page, for the translation.\<close>

definition same_page :: "u64 \<Rightarrow> u64 \<Rightarrow> bool" where
  "same_page w v \<longleftrightarrow> PML4_INDEX w = PML4_INDEX v \<and> PDPT_INDEX w = PDPT_INDEX v \<and> PD_INDEX w = PD_INDEX v \<and>
     PT_INDEX w = PT_INDEX v"

lemma same_page_pth: "same_page w v \<longleftrightarrow> pth 0 w = pth 0 v \<and> ix 0 w = ix 0 v"
  by (auto simp: same_page_def ix_index pth_def upt_rec numeral_eq_Suc)

lemma ALIGN_DOWN_bits: "bit (ALIGN_DOWN_4K v) n \<longleftrightarrow> 12 \<le> n \<and> bit v n"
proof -
  have "PAGE_SIZE_4K - 1 = mask 12" by (simp add: PAGE_SIZE_4K_def mask_eq_exp_minus_1)
  then show ?thesis by (auto simp: ALIGN_DOWN_4K_def bit_and_iff bit_not_iff bit_mask_iff dest: bit_imp_le_length)
qed

lemma ix_align: "ix k (ALIGN_DOWN_4K v) = ix k v"
proof -
  have "drop_bit (12 + 9 * k) (ALIGN_DOWN_4K v) = drop_bit (12 + 9 * k) v"
    by (rule bit_word_eqI) (simp add: bit_drop_bit_eq ALIGN_DOWN_bits)
  then show ?thesis by (simp add: ix_def)
qed

lemma addr_align: "ALIGN_DOWN_4K p AND VMM_ADDR_MASK = p AND VMM_ADDR_MASK"
  by (rule bit_word_eqI) (auto simp: bit_and_iff ALIGN_DOWN_bits mask_bits)

end
