(* ===== verification/VMM_Map.thy ===== *)
theory VMM_Map
  imports VMM_Correct
begin

text \<open>
  What mapping, unmapping and the bootstrap of the address space do to the translation: each
  changes exactly the addresses it is asked to, and succeeds when the missing tables fit into the
  free frames.
\<close>

section \<open>The way down\<close>

lemma reach_clear: "reach m k t v k0 t0 \<Longrightarrow> clear_path m k0 k t v \<and> need m k0 k t v = 0"
proof (induction k arbitrary: t)
  case (Suc k)
  from Suc.prems show ?case
  proof (cases rule: reach_Suc)
    case below
    with Suc.IH show ?thesis by (simp add: Let_def)
  qed simp
qed simp

lemma same_way:
  assumes "k \<le> 3" and "\<forall>j. k0 < j \<and> j \<le> 3 \<longrightarrow> ix j w = ix j v"
  shows "clear_path m k0 k t w = clear_path m k0 k t v" and "need m k0 k t w = need m k0 k t v"
  using assms(1) by (induction k arbitrary: t) (use assms(2) in \<open>auto simp: Let_def\<close>)

text \<open>A table on the way of \<open>v\<close>, with a clear path down to level \<open>k0\<close> and frames for it.\<close>

definition at_table :: "owners \<Rightarrow> vmm_state \<Rightarrow> u64 \<Rightarrow> nat \<Rightarrow> nat \<Rightarrow> u64 \<Rightarrow> bool" where
  "at_table own s v k0 k t \<longleftrightarrow> vmm_ok s own \<and> own t = Some (k, pth k v) \<and>
     reach (vmem s) 3 (kernel_pml4 s) v k t \<and> clear_path (vmem s) k0 k t v \<and>
     need (vmem s) k0 k t v \<le> card (frames_left s)"

lemma at_root:
  assumes "vmm_ok s own" and "clear_path (vmem s) k0 3 (kernel_pml4 s) v"
    and "need (vmem s) k0 3 (kernel_pml4 s) v \<le> card (frames_left s)"
  shows "at_table own s v k0 3 (kernel_pml4 s)"
  using assms pth_root [of v] by (simp add: at_table_def vmm_ok_def del: clear_path.simps need.simps)

lemma at_table_nonzero: "at_table own s v k0 k t \<Longrightarrow> t \<noteq> 0"
  using owned_page [of "vmem s" own t k "pth k v"] by (auto simp: at_table_def vmm_ok_def)

text \<open>One step down; the frames used are the tables that were missing.\<close>

definition steps_to :: "nat \<Rightarrow> u64 \<Rightarrow> nat \<Rightarrow> u64 \<Rightarrow> vmm_state \<Rightarrow> u64 \<Rightarrow> vmm_state \<Rightarrow> bool" where
  "steps_to k0 v k t s t' s' \<longleftrightarrow> (\<forall>w. translation s' w = translation s w) \<and> same_globals s s' \<and>
     card (frames_left s) + need (vmem s') k0 k t' v \<le> card (frames_left s') + need (vmem s) k0 (Suc k) t v"

lemma descend:
  assumes "at_table own s v k0 (Suc k) t" and "k0 \<le> k"
  shows "\<exists>t' s' own'. get_or_create_entry t (ix (Suc k) v) True s = Some (t', s') \<and> at_table own' s' v k0 k t' \<and>
    steps_to k0 v k t s t' s'"
proof -
  have a: "vmm_ok s own" "own t = Some (Suc k, pth (Suc k) v)" "reach (vmem s) 3 (kernel_pml4 s) v (Suc k) t"
      "clear_path (vmem s) k0 (Suc k) t v" "need (vmem s) k0 (Suc k) t v \<le> card (frames_left s)"
    using assms(1) unfolding at_table_def by blast+
  show ?thesis
  proof (rule descend_create [OF a(1-4) assms(2) a(5)])
    fix t' s' own'
    assume r: "get_or_create_entry t (ix (Suc k) v) True s = Some (t', s')" "\<And>w. translation s' w = translation s w"
      "same_globals s s'"
      and c: "card (frames_left s) + need (vmem s') k0 k t' v \<le> card (frames_left s') + need (vmem s) k0 (Suc k) t v"
      and at: "vmm_ok s' own'" "own' t' = Some (k, pth k v)" "reach (vmem s') 3 (kernel_pml4 s') v k t'"
        "clear_path (vmem s') k0 k t' v"
    have "need (vmem s') k0 k t' v \<le> card (frames_left s')" using a(5) c by linarith
    with at have "at_table own' s' v k0 k t'" unfolding at_table_def by blast
    with r c show ?thesis unfolding steps_to_def by blast
  qed
qed

text \<open>The whole way down to level 1 and to level 0.\<close>

definition way :: "nat \<Rightarrow> u64 \<Rightarrow> vmm_state \<Rightarrow> vmm_state \<Rightarrow> bool" where
  "way k0 v s s' \<longleftrightarrow> (\<forall>w. translation s' w = translation s w) \<and> same_globals s s' \<and>
     card (frames_left s) \<le> card (frames_left s') + need (vmem s) k0 3 (kernel_pml4 s) v"

lemma way_to_1:
  assumes "at_table own s v k0 3 (kernel_pml4 s)" and "k0 \<le> 1"
  obtains t2 s2 t1 s1 own1 where "get_or_create_entry (kernel_pml4 s) (ix 3 v) True s = Some (t2, s2)" "t2 \<noteq> 0"
    "get_or_create_entry t2 (ix 2 v) True s2 = Some (t1, s1)" "t1 \<noteq> 0" "at_table own1 s1 v k0 1 t1"
    "\<forall>w. translation s1 w = translation s w" "same_globals s s1"
    "card (frames_left s) + need (vmem s1) k0 1 t1 v \<le> card (frames_left s1) + need (vmem s) k0 3 (kernel_pml4 s) v"
proof -
  have three: "(3 :: nat) = Suc 2" by simp
  obtain t2 s2 own2 where d2: "get_or_create_entry (kernel_pml4 s) (ix 3 v) True s = Some (t2, s2)"
      "at_table own2 s2 v k0 2 t2" "steps_to k0 v 2 (kernel_pml4 s) s t2 s2"
    using descend [OF assms(1) [unfolded three]] assms(2) unfolding three [symmetric] by auto
  obtain t1 s1 own1 where d1: "get_or_create_entry t2 (ix 2 v) True s2 = Some (t1, s1)"
      "at_table own1 s1 v k0 1 t1" "steps_to k0 v 1 t2 s2 t1 s1"
    using descend [OF d2(2) [folded Suc_1]] assms(2) unfolding Suc_1 by blast
  have "card (frames_left s) + need (vmem s1) k0 1 t1 v \<le> card (frames_left s1) + need (vmem s) k0 3 (kernel_pml4 s) v"
    using d2(3) d1(3) unfolding steps_to_def Suc_1 three [symmetric] by linarith
  moreover have "\<forall>w. translation s1 w = translation s w" using d2(3) d1(3) unfolding steps_to_def by metis
  moreover have "same_globals s s1" using d2(3) d1(3) unfolding steps_to_def same_globals_def by metis
  ultimately show thesis
    using that [OF d2(1) at_table_nonzero [OF d2(2)] d1(1) at_table_nonzero [OF d1(2)] d1(2)] by blast
qed

section \<open>Mapping\<close>

lemma way_to_0:
  assumes "at_table own s v 0 3 (kernel_pml4 s)"
  obtains t2 s2 t1 s1 t0 s0 own0 where "get_or_create_entry (kernel_pml4 s) (ix 3 v) True s = Some (t2, s2)" "t2 \<noteq> 0"
    "get_or_create_entry t2 (ix 2 v) True s2 = Some (t1, s1)" "t1 \<noteq> 0"
    "get_or_create_entry t1 (ix 1 v) True s1 = Some (t0, s0)" "t0 \<noteq> 0" "at_table own0 s0 v 0 0 t0"
    "way 0 v s s0"
proof (rule way_to_1 [OF assms])
  fix t2 s2 t1 s1 own1
  assume d: "get_or_create_entry (kernel_pml4 s) (ix 3 v) True s = Some (t2, s2)" "t2 \<noteq> 0"
    "get_or_create_entry t2 (ix 2 v) True s2 = Some (t1, s1)" "t1 \<noteq> 0" and at: "at_table own1 s1 v 0 1 t1"
    and r: "\<forall>w. translation s1 w = translation s w" "same_globals s s1"
      "card (frames_left s) + need (vmem s1) 0 1 t1 v \<le> card (frames_left s1) + need (vmem s) 0 3 (kernel_pml4 s) v"
  obtain t0 s0 own0 where d0: "get_or_create_entry t1 (ix 1 v) True s1 = Some (t0, s0)"
      "at_table own0 s0 v 0 0 t0" "steps_to 0 v 0 t1 s1 t0 s0"
    using descend [OF at [unfolded One_nat_def]] unfolding One_nat_def by blast
  have "\<forall>w. translation s0 w = translation s w" using d0(3) r(1) unfolding steps_to_def by metis
  moreover have "same_globals s s0" using d0(3) r(2) unfolding steps_to_def same_globals_def by metis
  moreover have "card (frames_left s) \<le> card (frames_left s0) + need (vmem s) 0 3 (kernel_pml4 s) v"
    using d0(3) r(3) unfolding steps_to_def One_nat_def by linarith
  ultimately have "way 0 v s s0" unfolding way_def by blast
  then show thesis using that [OF d d0(1) at_table_nonzero [OF d0(2)] d0(2)] by blast
qed simp

text \<open>
  Writing a leaf at the end of the way: exactly the addresses below the entry change, the tables
  stay well-formed and the way to the table is complete.
\<close>

lemma write_leaf:
  assumes at: "at_table own s v k k t" and w: "way k v s0 s" and e: "present e" "k = 0 \<or> huge e"
    and s': "s' = put_leaf t (ix k v) e n x s"
  shows "vmm_ok s' own" and "kernel_pml4 s' = kernel_pml4 s0" and "vmm_initialized s' = vmm_initialized s0"
    and "reach (vmem s') 3 (kernel_pml4 s') v k t"
    and "translation s' y = (if pth k y = pth k v \<and> ix k y = ix k v then look (vmem s') k t y else translation s0 y)"
    and "card (frames_left s0) \<le> card (frames_left s') + need (vmem s0) k 3 (kernel_pml4 s0) v"
    and "vmem s' (slot t (ix k v)) = e"
proof -
  have a: "vmm_ok s own" "own t = Some (k, pth k v)" "reach (vmem s) 3 (kernel_pml4 s) v k t"
    using at unfolding at_table_def by blast+
  have f: "vmem s' = (vmem s)(slot t (ix k v) := e)" "kernel_pml4 s' = kernel_pml4 s" "vmm_mm s' = vmm_mm s"
    by (simp_all add: s' put_leaf_fields)
  have eok: "entry_ok own k (pth k v) (ix k v) e" using e by (auto simp: entry_ok_def)
  note wr = write_entry [OF a eok f]
  show "vmm_ok s' own" by (rule wr(1))
  show "kernel_pml4 s' = kernel_pml4 s0" "vmm_initialized s' = vmm_initialized s0"
    using w by (simp_all add: f way_def same_globals_def s' put_leaf_fields)
  show "vmem s' (slot t (ix k v)) = e" by (simp add: f)
  show "card (frames_left s0) \<le> card (frames_left s') + need (vmem s0) k 3 (kernel_pml4 s0) v"
    using w unfolding f way_def by blast
  show "translation s' y = (if pth k y = pth k v \<and> ix k y = ix k v then look (vmem s') k t y else translation s0 y)"
    using wr(2) [of y] w unfolding way_def by metis
  have tok: "tables_ok (vmem s) own" "own (kernel_pml4 s) = Some (3, pth 3 v)"
    using a(1) by (simp_all add: vmm_ok_def pth_root)
  have "changes_only own t (ix k v) (vmem s) (vmem s')" using changes_only_write [OF tok(1) a(2) ix_bound] unfolding f .
  then show "reach (vmem s') 3 (kernel_pml4 s') v k t"
    using reach_frame [OF tok(1) _ a(2) tok(2) _ a(3)] unfolding f by simp
qed

text \<open>\<open>s'\<close> is \<open>s\<close> with the page of level \<open>k\<close> around \<open>virt\<close> mapped to \<open>phys\<close>.\<close>

definition mapped :: "nat \<Rightarrow> u64 \<Rightarrow> u64 \<Rightarrow> vmm_state \<Rightarrow> vmm_state \<Rightarrow> bool" where
  "mapped k virt phys s s' \<longleftrightarrow>
     (\<forall>y. translation s' y =
        (if pth k y = pth k virt \<and> ix k y = ix k virt
         then Some ((phys AND VMM_ADDR_MASK) OR (y AND (2 ^ (12 + 9 * k) - 1))) else translation s y)) \<and>
     kernel_pml4 s' = kernel_pml4 s \<and> vmm_initialized s' = vmm_initialized s \<and>
     (\<exists>own t. vmm_ok s' own \<and> reach (vmem s') 3 (kernel_pml4 s') virt k t) \<and>
     card (frames_left s) \<le> card (frames_left s') + need (vmem s) k 3 (kernel_pml4 s) virt"

lemma leaf_mapped:
  assumes at: "at_table own s v k k t" and w: "way k v s0 s" and e: "present e" "k = 0 \<or> huge e" "k < 3"
    and target: "target e = phys AND VMM_ADDR_MASK" and s': "s' = put_leaf t (ix k v) e n x s"
  shows "mapped k v phys s0 s'"
proof -
  note wl = write_leaf [OF at w e(1,2) s']
  have "look (vmem s') k t y = Some ((phys AND VMM_ADDR_MASK) OR (y AND (2 ^ (12 + 9 * k) - 1)))" if "ix k y = ix k v" for y
  proof (cases k)
    case 0
    then show ?thesis using wl(7) that e target by (simp add: Let_def)
  next
    case (Suc j)
    then show ?thesis using wl(7) that e target by (simp add: Let_def)
  qed
  then show ?thesis unfolding mapped_def using wl(1-6) by auto
qed

lemma map_page:
  assumes at: "at_table own s virt 0 3 (kernel_pml4 s)" and flags: "flags AND VMM_ADDR_MASK = 0"
  shows "\<exists>s'. vmm_map virt phys flags s = Some s' \<and> mapped 0 virt phys s s'"
proof (rule way_to_0 [OF at])
  fix t2 s2 t1 s1 t0 s0 own0
  assume d: "get_or_create_entry (kernel_pml4 s) (ix 3 virt) True s = Some (t2, s2)" "t2 \<noteq> 0"
    "get_or_create_entry t2 (ix 2 virt) True s2 = Some (t1, s1)" "t1 \<noteq> 0"
    "get_or_create_entry t1 (ix 1 virt) True s1 = Some (t0, s0)" "t0 \<noteq> 0"
    and at0: "at_table own0 s0 virt 0 0 t0" and w: "way 0 virt s s0"
  define e where "e = (phys AND VMM_ADDR_MASK) OR flags OR VMM_PRESENT"
  note te = target_leaf [OF flags, of phys, folded e_def]
  have "vmm_map virt phys flags s = Some (put_leaf t0 (ix 0 virt) e 1 (ALIGN_DOWN_4K virt) s0)"
    using at_table_nonzero [OF at] d by (simp add: vmm_map_def Let_def ix_index ix_align addr_align e_def)
  moreover have "mapped 0 virt phys s (put_leaf t0 (ix 0 virt) e 1 (ALIGN_DOWN_4K virt) s0)"
    by (rule leaf_mapped [OF at0 w te(2) _ _ te(1) refl]) simp_all
  ultimately show ?thesis by blast
qed

lemma map_2m:
  assumes at: "at_table own s virt 1 3 (kernel_pml4 s)" and flags: "flags AND VMM_ADDR_MASK = 0"
    and al: "IS_ALIGNED virt PAGE_SIZE_2M" "IS_ALIGNED phys PAGE_SIZE_2M"
  shows "\<exists>s'. vmm_map_2m virt phys flags s = Some (True, s') \<and> mapped 1 virt phys s s'"
proof (rule way_to_1 [OF at])
  fix t2 s2 t1 s1 own1
  assume d: "get_or_create_entry (kernel_pml4 s) (ix 3 virt) True s = Some (t2, s2)" "t2 \<noteq> 0"
    "get_or_create_entry t2 (ix 2 virt) True s2 = Some (t1, s1)" "t1 \<noteq> 0"
    and at1: "at_table own1 s1 virt 1 1 t1"
    and r: "\<forall>w. translation s1 w = translation s w" "same_globals s s1"
      "card (frames_left s) + need (vmem s1) 1 1 t1 virt \<le> card (frames_left s1) + need (vmem s) 1 3 (kernel_pml4 s) virt"
  have w: "way 1 virt s s1" unfolding way_def using r by auto
  let ?e = "huge_entry phys flags" and ?n = "PAGE_SIZE_2M div PAGE_SIZE_4K"
  note te = target_leaf [OF flags, of phys]
  have "vmm_map_2m virt phys flags s = Some (True, put_leaf t1 (ix 1 virt) ?e ?n virt s1)"
    using at_table_nonzero [OF at] d al by (simp add: vmm_map_2m_def ix_index)
  moreover have "mapped 1 virt phys s (put_leaf t1 (ix 1 virt) ?e ?n virt s1)"
    by (rule leaf_mapped [OF at1 w te(4) _ _ te(3) refl]) (simp_all add: te(5))
  ultimately show ?thesis by blast
qed simp

section \<open>Mapping without knowing the way\<close>

text \<open>
  With three free frames \<open>vmm_map\<close> returns whatever is on its way: a large page stops it, and then
  nothing has changed. In any case only addresses of the page are translated differently.
\<close>

definition map_effect :: "u64 \<Rightarrow> owners \<Rightarrow> vmm_state \<Rightarrow> owners \<Rightarrow> vmm_state \<Rightarrow> nat \<Rightarrow> bool" where
  "map_effect virt own s own' s' n \<longleftrightarrow> vmm_ok s' own' \<and> grows own s own' s' \<and> card (frames_left s) \<le> card (frames_left s') + n \<and>
     kernel_pml4 s' = kernel_pml4 s \<and> (\<forall>w. \<not> same_page w virt \<longrightarrow> translation s' w = translation s w)"

lemma map_effect_trans:
  "map_effect v own s own' s' m \<Longrightarrow> map_effect v own' s' own'' s'' n \<Longrightarrow> map_effect v own s own'' s'' (m + n)"
  using grows_trans by (fastforce simp: map_effect_def)

lemma descend_any:
  assumes ok: "vmm_ok s own" and own: "own t = Some (Suc k, pth (Suc k) v)"
    and reach: "reach (vmem s) 3 (kernel_pml4 s) v (Suc k) t" and left: "0 < card (frames_left s)"
  shows "\<exists>t' s' own'. get_or_create_entry t (ix (Suc k) v) True s = Some (t', s') \<and> map_effect v own s own' s' 1 \<and>
    (t' \<noteq> 0 \<longrightarrow> own' t' = Some (k, pth k v) \<and> reach (vmem s') 3 (kernel_pml4 s') v k t')"
proof -
  let ?e = "entry s t (ix (Suc k) v)"
  have tnz: "t \<noteq> 0" using owned_page [of "vmem s" own t "Suc k"] ok own unfolding vmm_ok_def by metis
  show ?thesis
  proof (cases "present ?e \<and> huge ?e")
    case True
    then have "get_or_create_entry t (ix (Suc k) v) True s = Some (0, s)"
      using tnz by (simp add: get_or_create_entry_def present_def huge_def)
    then show ?thesis using ok by (intro exI [of _ 0] exI [of _ s] exI [of _ own]) (simp add: map_effect_def)
  next
    case False
    have c: "clear_path (vmem s) k (Suc k) t v"
      using False by (cases k) (auto simp: Let_def entry_def)
    have z: "need m k k u v = 0" for m u by (cases k) simp_all
    then have n: "need (vmem s) k (Suc k) t v \<le> 1" by (simp add: Let_def)
    then have "need (vmem s) k (Suc k) t v \<le> card (frames_left s)" using left by linarith
    from descend_create [OF ok own reach c order_refl this] obtain t' s' own' where d:
      "get_or_create_entry t (ix (Suc k) v) True s = Some (t', s')" "vmm_ok s' own'" "own' t' = Some (k, pth k v)"
      "reach (vmem s') 3 (kernel_pml4 s') v k t'" "\<And>w. translation s' w = translation s w" "same_globals s s'"
      "card (frames_left s) + need (vmem s') k k t' v \<le> card (frames_left s') + need (vmem s) k (Suc k) t v" "grows own s own' s'"
      by metis
    have "card (frames_left s) \<le> card (frames_left s') + 1" using d(7) n z by simp
    then show ?thesis using d by (intro exI [of _ t'] exI [of _ s'] exI [of _ own']) (simp add: same_globals_def map_effect_def)
  qed
qed

lemma map_any:
  assumes ok: "vmm_ok s own" and left: "3 \<le> card (frames_left s)"
  shows "\<exists>s' own'. vmm_map virt phys flags s = Some s' \<and> map_effect virt own s own' s' 3"
proof -
  let ?r = "kernel_pml4 s"
  have root: "own ?r = Some (Suc 2, pth (Suc 2) virt)" using ok pth_root [of virt] by (simp add: vmm_ok_def numeral_3_eq_3)
  have rnz: "?r \<noteq> 0" using owned_page [of "vmem s" own ?r] ok root unfolding vmm_ok_def by metis
  have s2: "Suc 2 = 3" and s1: "Suc 1 = 2" by simp_all
  have r3: "reach (vmem s) 3 ?r virt (Suc 2) ?r" unfolding s2 by (rule reach_self)
  obtain t2 s2 own2 where d2: "get_or_create_entry ?r (ix 3 virt) True s = Some (t2, s2)" "map_effect virt own s own2 s2 1"
    "t2 \<noteq> 0 \<Longrightarrow> own2 t2 = Some (Suc 1, pth (Suc 1) virt)" "t2 \<noteq> 0 \<Longrightarrow> reach (vmem s2) 3 (kernel_pml4 s2) virt (Suc 1) t2"
    using descend_any [OF ok root r3] left unfolding s2 s1 by force
  show ?thesis
  proof (cases "t2 = 0")
    case True
    then have "vmm_map virt phys flags s = Some s2" using rnz d2(1) by (simp add: vmm_map_def Let_def ix_index ix_align)
    then show ?thesis using d2(2) by (auto simp: map_effect_def)
  next
    case t2: False
    have o2: "vmm_ok s2 own2" "2 \<le> card (frames_left s2)" using d2(2) left by (auto simp: map_effect_def)
    obtain t1 s1 own1 where d1: "get_or_create_entry t2 (ix 2 virt) True s2 = Some (t1, s1)" "map_effect virt own2 s2 own1 s1 1"
      "t1 \<noteq> 0 \<Longrightarrow> own1 t1 = Some (1, pth 1 virt)" "t1 \<noteq> 0 \<Longrightarrow> reach (vmem s1) 3 (kernel_pml4 s1) virt 1 t1"
      using descend_any [OF o2(1) d2(3,4) [OF t2]] o2(2) unfolding s1 by force
    have e1: "map_effect virt own s own1 s1 2" using map_effect_trans [OF d2(2) d1(2)] by (simp add: numeral_2_eq_2)
    show ?thesis
    proof (cases "t1 = 0")
      case True
      then have "vmm_map virt phys flags s = Some s1" using rnz t2 d2(1) d1(1) by (simp add: vmm_map_def Let_def ix_index ix_align)
      then show ?thesis using e1 by (auto simp: map_effect_def)
    next
      case t1: False
      have o1: "vmm_ok s1 own1" "1 \<le> card (frames_left s1)" using e1 left by (auto simp: map_effect_def)
      obtain t0 s0 own0 where d0: "get_or_create_entry t1 (ix 1 virt) True s1 = Some (t0, s0)" "map_effect virt own1 s1 own0 s0 1"
        "t0 \<noteq> 0 \<Longrightarrow> own0 t0 = Some (0, pth 0 virt)" "t0 \<noteq> 0 \<Longrightarrow> reach (vmem s0) 3 (kernel_pml4 s0) virt 0 t0"
        using descend_any [OF o1(1) d1(3,4) [OF t1, unfolded One_nat_def]] o1(2) unfolding One_nat_def by force
      have e0: "map_effect virt own s own0 s0 3" using map_effect_trans [OF e1 d0(2)] by (simp add: numeral_3_eq_3)
      show ?thesis
      proof (cases "t0 = 0")
        case True
        then have "vmm_map virt phys flags s = Some s0" using rnz t2 t1 d2(1) d1(1) d0(1) by (simp add: vmm_map_def Let_def ix_index ix_align)
        then show ?thesis using e0 by blast
      next
        case t0: False
        define e where "e = (phys AND VMM_ADDR_MASK) OR flags OR VMM_PRESENT"
        let ?s = "put_leaf t0 (ix 0 virt) e 1 (ALIGN_DOWN_4K virt) s0"
        have "vmm_map virt phys flags s = Some ?s"
          using rnz t2 t1 t0 d2(1) d1(1) d0(1) by (simp add: vmm_map_def Let_def ix_index ix_align addr_align e_def)
        moreover have "map_effect virt own s own0 ?s 3"
        proof -
          have "entry_ok own0 0 (pth 0 virt) (ix 0 virt) e" by (simp add: entry_ok_def e_def present_bit bit_or_iff flag_bits)
          note w = write_entry [OF _ d0(3,4) [OF t0] this put_leaf_fields(1-3)]
          have o0: "vmm_ok s0 own0" using e0 by (simp add: map_effect_def)
          have "translation ?s x = translation s x" if "\<not> same_page x virt" for x
            using w(2) [OF o0, of 1 "ALIGN_DOWN_4K virt" x] that e0 unfolding same_page_pth map_effect_def by metis
          then show ?thesis using e0 w(1) [OF o0] by (simp add: map_effect_def grows_def put_leaf_fields(2,3))
        qed
        ultimately show ?thesis by blast
      qed
    qed
  qed
qed

end
