(* ===== verification/VMM_Boot.thy ===== *)
theory VMM_Boot
  imports VMM_Map
begin

text \<open>
  The bootstrap of the address space: \<open>vmm_init\<close> maps the low window of physical memory one to
  one, with 2 MB pages and a tail of small pages. The range loop is followed phase by phase on the
  48 bits of an address that the tables look at.
\<close>

section \<open>The 48 bits the tables look at\<close>

definition low :: "u64 \<Rightarrow> nat" where "low y = unat (take_bit 48 y)"

lemma ix_bits: "bit (ix j y) n \<longleftrightarrow> n < 9 \<and> bit y (12 + 9 * j + n)"
proof -
  have m: "(0x1FF :: u64) = mask 9" by (simp add: mask_eq_exp_minus_1)
  show ?thesis unfolding ix_def m by (auto simp: bit_and_iff bit_mask_iff bit_drop_bit_eq)
qed

lemma ix_eq_bits: "ix j y = ix j v \<longleftrightarrow> (\<forall>n. 12 + 9 * j \<le> n \<and> n < 21 + 9 * j \<longrightarrow> bit y n = bit v n)"
proof
  assume eq: "ix j y = ix j v"
  show "\<forall>n. 12 + 9 * j \<le> n \<and> n < 21 + 9 * j \<longrightarrow> bit y n = bit v n"
  proof (intro allI impI)
    fix n assume n: "12 + 9 * j \<le> n \<and> n < 21 + 9 * j"
    have "bit (ix j y) (n - (12 + 9 * j)) = bit (ix j v) (n - (12 + 9 * j))" using eq by simp
    moreover have "n - (12 + 9 * j) < 9" using n by linarith
    ultimately show "bit y n = bit v n" using n by (simp add: ix_bits)
  qed
qed (auto intro!: bit_word_eqI simp: ix_bits)

lemma pth_eq_iff: "k \<le> 3 \<Longrightarrow> pth k y = pth k v \<longleftrightarrow> (\<forall>j. k < j \<and> j \<le> 3 \<longrightarrow> ix j y = ix j v)"
  by (auto simp: pth_def)

lemma same_region_bits:
  assumes "k \<le> 3"
  shows "pth k y = pth k v \<and> ix k y = ix k v \<longleftrightarrow> (\<forall>n. 12 + 9 * k \<le> n \<and> n < 48 \<longrightarrow> bit y n = bit v n)"
proof -
  have "pth k y = pth k v \<and> ix k y = ix k v \<longleftrightarrow> (\<forall>j. k \<le> j \<and> j \<le> 3 \<longrightarrow> ix j y = ix j v)"
    unfolding pth_eq_iff [OF assms] using assms by (metis le_neq_implies_less le_refl less_imp_le)
  also have "\<dots> \<longleftrightarrow> (\<forall>n. 12 + 9 * k \<le> n \<and> n < 48 \<longrightarrow> bit y n = bit v n)"
  proof (rule iffI; intro allI impI)
    fix n assume a: "\<forall>j. k \<le> j \<and> j \<le> 3 \<longrightarrow> ix j y = ix j v" and n: "12 + 9 * k \<le> n \<and> n < 48"
    let ?j = "(n - 12) div 9"
    have "k \<le> ?j \<and> ?j \<le> 3" "12 + 9 * ?j \<le> n \<and> n < 21 + 9 * ?j" using n by auto
    then show "bit y n = bit v n" using a ix_eq_bits by blast
  next
    fix j assume a: "\<forall>n. 12 + 9 * k \<le> n \<and> n < 48 \<longrightarrow> bit y n = bit v n" and j: "k \<le> j \<and> j \<le> 3"
    then show "ix j y = ix j v" unfolding ix_eq_bits by simp
  qed
  finally show ?thesis .
qed

lemma same_region:
  assumes "k \<le> 3"
  shows "pth k y = pth k v \<and> ix k y = ix k v \<longleftrightarrow> low y div 2 ^ (12 + 9 * k) = low v div 2 ^ (12 + 9 * k)"
proof -
  have "(\<forall>n. 12 + 9 * k \<le> n \<and> n < 48 \<longrightarrow> bit y n = bit v n) \<longleftrightarrow>
      drop_bit (12 + 9 * k) (take_bit 48 y) = drop_bit (12 + 9 * k) (take_bit 48 v)" (is "?l \<longleftrightarrow> ?a = ?b")
  proof
    assume ?l
    then show "?a = ?b" by (intro bit_word_eqI) (auto simp: bit_drop_bit_eq bit_take_bit_iff)
  next
    assume eq: "?a = ?b"
    show ?l
    proof (intro allI impI)
      fix n assume n: "12 + 9 * k \<le> n \<and> n < 48"
      have "bit ?a (n - (12 + 9 * k)) = bit ?b (n - (12 + 9 * k))" using eq by simp
      then show "bit y n = bit v n" using n by (simp add: bit_drop_bit_eq bit_take_bit_iff)
    qed
  qed
  also have "\<dots> \<longleftrightarrow> low y div 2 ^ (12 + 9 * k) = low v div 2 ^ (12 + 9 * k)"
    by (simp add: low_def word_unat_eq_iff [of ?a] unat_drop_bit_eq drop_bit_eq_div [where 'a = nat])
  finally show ?thesis using same_region_bits [OF assms] by blast
qed

lemma low_of_nat: "a < 2 ^ 48 \<Longrightarrow> low (of_nat a) = a"
  by (simp add: low_def unsigned_take_bit_eq take_bit_nat_eq_self unat_of_nat)

text \<open>The address an identity mapping yields.\<close>

lemma identity_value:
  assumes "k \<le> 3" and "a < 2 ^ 48" and "2 ^ (12 + 9 * k) dvd a"
    and "pth k y = pth k (of_nat a) \<and> ix k y = ix k (of_nat a)"
  shows "((of_nat a :: u64) AND VMM_ADDR_MASK) OR (y AND (2 ^ (12 + 9 * k) - 1)) = take_bit 48 y"
proof (rule bit_word_eqI)
  fix n :: nat assume n: "n < LENGTH(64)"
  have same: "12 + 9 * k \<le> n \<and> n < 48 \<Longrightarrow> bit y n = bit a n"
    using assms(4) n unfolding same_region_bits [OF assms(1)] by (simp add: bit_of_nat_iff)
  have low: "\<not> bit a n" if "n < 12 + 9 * k"
  proof -
    have "take_bit (12 + 9 * k) a = 0" using assms(3) by (simp add: take_bit_eq_mod)
    then have "\<not> bit (take_bit (12 + 9 * k) a) n" by simp
    then show ?thesis using that by (simp add: bit_take_bit_iff)
  qed
  have high: "\<not> bit a n" if "48 \<le> n"
  proof -
    have "take_bit 48 a = a" using assms(2) by (simp add: take_bit_nat_eq_self)
    then show ?thesis using that by (metis bit_take_bit_iff not_le)
  qed
  have m: "(2 ^ (12 + 9 * k) - 1 :: u64) = mask (12 + 9 * k)" by (simp add: mask_eq_exp_minus_1)
  show "bit (((of_nat a :: u64) AND VMM_ADDR_MASK) OR (y AND (2 ^ (12 + 9 * k) - 1))) n = bit (take_bit 48 y) n"
  proof (cases "12 + 9 * k \<le> n \<and> n < 48")
    case True
    then show ?thesis unfolding m using n same by (auto simp: bit_or_iff bit_and_iff mask_bits bit_mask_iff bit_take_bit_iff bit_of_nat_iff)
  next
    case False
    then have "\<not> bit a n" using low high not_le by blast
    with False show ?thesis unfolding m using n assms(1)
      by (auto simp: bit_or_iff bit_and_iff bit_mask_iff bit_take_bit_iff bit_of_nat_iff)
  qed
qed

section \<open>The window\<close>

text \<open>The addresses below \<open>a\<close>, and no others, are mapped to themselves.\<close>

definition window :: "vmm_state \<Rightarrow> nat \<Rightarrow> bool" where
  "window s a \<longleftrightarrow> (\<forall>y. translation s y = (if low y < a then Some (take_bit 48 y) else None)) \<and>
     (\<exists>own. vmm_ok s own) \<and> clear_path (vmem s) 1 3 (kernel_pml4 s) 0"

definition grown :: "vmm_state \<Rightarrow> vmm_state \<Rightarrow> nat \<Rightarrow> bool" where
  "grown s s' n \<longleftrightarrow> kernel_pml4 s' = kernel_pml4 s \<and> vmm_initialized s' = vmm_initialized s \<and>
     card (frames_left s) \<le> card (frames_left s') + n"

lemma grown_trans: "grown s t m \<Longrightarrow> grown t u n \<Longrightarrow> grown s u (m + n)"
  by (simp add: grown_def)

lemma clear_path_mono: "clear_path m k0 k t v \<Longrightarrow> k0 \<le> k1 \<Longrightarrow> clear_path m k1 k t v"
  by (induction k arbitrary: t) (auto simp: Let_def)

lemma need_mono: "need m 0 k t v \<le> Suc (need m (Suc 0) k t v)"
proof (induction k arbitrary: t)
  case (Suc k)
  then show ?case by (cases k) (auto simp: Let_def)
qed simp

text \<open>Addresses of the first gigabyte share the tables down to level 1.\<close>

lemma ix_small:
  assumes "a < 2 ^ 30" and "1 < j"
  shows "ix j (of_nat a) = 0"
proof -
  have "(2 :: nat) ^ 30 \<le> 2 ^ (12 + 9 * j)" using assms(2) by (intro power_increasing) auto
  then have "a < 2 ^ (12 + 9 * j)" using assms(1) by linarith
  moreover have "unat (of_nat a :: u64) = a" using assms(1) by (simp add: unat_of_nat)
  ultimately have "unat (drop_bit (12 + 9 * j) (of_nat a :: u64)) = 0" by (simp add: unat_drop_bit_eq drop_bit_eq_div [where 'a = nat])
  then have "drop_bit (12 + 9 * j) (of_nat a :: u64) = 0" by (simp add: unat_eq_0)
  then show ?thesis by (simp add: ix_def)
qed

lemma first_gigabyte:
  assumes "a < 2 ^ 30"
  shows "clear_path m 1 3 t (of_nat a) = clear_path m 1 3 t 0" and "need m 1 3 t (of_nat a) = need m 1 3 t 0"
  using same_way [of 3 1 "of_nat a" 0 m t] ix_small [OF assms] ix_small [of 0] by simp_all

text \<open>Nothing large lies below an unmapped address.\<close>

lemma clear_unmapped:
  assumes "clear_path (vmem s) 1 3 (kernel_pml4 s) v" and "translation s v = None"
  shows "clear_path (vmem s) 0 3 (kernel_pml4 s) v"
  using assms by (auto simp: numeral_3_eq_3 Let_def split: if_splits)

lemma window_grow:
  assumes w: "window s a" and m: "mapped k (of_nat a) (of_nat a) s s'" and k: "k \<le> 1"
    and a: "2 ^ (12 + 9 * k) dvd a" "a < 2 ^ 30"
  shows "window s' (a + 2 ^ (12 + 9 * k))"
proof -
  let ?P = "2 ^ (12 + 9 * k) :: nat"
  have a48: "a < 2 ^ 48" using a(2) by simp
  have reg: "(pth k y = pth k (of_nat a) \<and> ix k y = ix k (of_nat a)) \<longleftrightarrow> a \<le> low y \<and> low y < a + ?P" for y
  proof -
    obtain q where q: "a = ?P * q" using a(1) by (elim dvdE)
    have "low y div ?P = q \<longleftrightarrow> ?P * q \<le> low y \<and> low y < ?P * q + ?P"
      by (metis add.commute div_nat_eqI dividend_less_times_div div_mult_self1_is_m mult.commute mult_Suc_right
          times_div_less_eq_dividend zero_less_numeral zero_less_power)
    then show ?thesis using same_region [of k y "of_nat a"] k low_of_nat [OF a48] q by simp
  qed
  have tr: "translation s' y = (if low y < a + ?P then Some (take_bit 48 y) else None)" for y
  proof (cases "pth k y = pth k (of_nat a) \<and> ix k y = ix k (of_nat a)")
    case True
    have "translation s' y = Some ((of_nat a AND VMM_ADDR_MASK) OR (y AND (2 ^ (12 + 9 * k) - 1)))"
      using m True unfolding mapped_def by metis
    then have "translation s' y = Some (take_bit 48 y)" using identity_value [OF _ a48 a(1) True] k by simp
    then show ?thesis using True reg by simp
  next
    case False
    then have "translation s' y = translation s y" using m unfolding mapped_def by metis
    also have "\<dots> = (if low y < a then Some (take_bit 48 y) else None)" using w unfolding window_def by blast
    finally show ?thesis using False reg by auto
  qed
  obtain own t where r: "vmm_ok s' own" "reach (vmem s') 3 (kernel_pml4 s') (of_nat a) k t"
    using m unfolding mapped_def by blast
  have "clear_path (vmem s') 1 3 (kernel_pml4 s') (of_nat a)" using reach_clear [OF r(2)] clear_path_mono k by blast
  then have "clear_path (vmem s') 1 3 (kernel_pml4 s') 0" unfolding first_gigabyte [OF a(2)] .
  with tr r(1) show ?thesis unfolding window_def by blast
qed

section \<open>The range loop\<close>

lemma aligned_of_nat:
  assumes "a < 2 ^ 48" and "n < 48"
  shows "IS_ALIGNED (of_nat a) (2 ^ n) \<longleftrightarrow> 2 ^ n dvd a"
proof -
  have "(2 ^ n - 1 :: u64) = mask n" by (simp add: mask_eq_exp_minus_1)
  then have "IS_ALIGNED (of_nat a) (2 ^ n) \<longleftrightarrow> take_bit n (of_nat a :: u64) = 0"
    by (simp add: IS_ALIGNED_def take_bit_eq_mask)
  also have "\<dots> \<longleftrightarrow> unat (take_bit n (of_nat a :: u64)) = 0" by (simp add: unat_eq_0)
  also have "\<dots> \<longleftrightarrow> 2 ^ n dvd a"
    using assms(1) by (simp add: unsigned_take_bit_eq unat_of_nat take_bit_eq_mod [where 'a = nat] dvd_eq_mod_eq_0)
  finally show ?thesis .
qed

lemma sub_of_nat: "a \<le> b \<Longrightarrow> (of_nat b - of_nat a :: u64) = of_nat (b - a)"
  by (simp add: of_nat_diff)

lemma word_compare:
  assumes "a < 2 ^ 48" and "b < 2 ^ 48"
  shows "(of_nat a :: u64) < of_nat b \<longleftrightarrow> a < b" and "(of_nat a :: u64) \<le> of_nat b \<longleftrightarrow> a \<le> b"
  using assms by (simp_all add: word_less_nat_alt word_le_nat_alt unat_of_nat)

lemma page_sizes: "PAGE_SIZE_1G = of_nat (2 ^ 30)" "PAGE_SIZE_2M = of_nat (2 ^ 21)" "PAGE_SIZE_4K = of_nat (2 ^ 12)"
  by (simp_all add: PAGE_SIZE_1G_def PAGE_SIZE_2M_def PAGE_SIZE_4K_def)

text \<open>One turn of the loop, with a 2 MB page or a small one.\<close>

lemma loop_end: "map_range_loop v p v flags s = Some s"
  by (subst map_range_loop.simps) simp

lemma loop_2m:
  assumes "a + 2 ^ 21 \<le> e" and "e < 2 ^ 30" and "2 ^ 21 dvd a"
    and "vmm_map_2m (of_nat a) (of_nat a) flags s = Some (True, s')"
  shows "map_range_loop (of_nat a) (of_nat a) (of_nat e) flags s =
    map_range_loop (of_nat (a + 2 ^ 21)) (of_nat (a + 2 ^ 21)) (of_nat e) flags s'"
proof -
  have a: "a < 2 ^ 48" "e < 2 ^ 48" "e - a < 2 ^ 48" using assms(1,2) by simp_all
  have c: "(of_nat a :: u64) < of_nat e" "\<not> PAGE_SIZE_1G \<le> of_nat e - of_nat a" "PAGE_SIZE_2M \<le> of_nat e - of_nat a"
    using assms(1,2) sub_of_nat [of a e] word_compare [OF _ a(3), of "2 ^ 30"] word_compare [OF _ a(3), of "2 ^ 21"]
    unfolding page_sizes word_compare [OF a(1,2)] by simp_all
  have "IS_ALIGNED (of_nat a) PAGE_SIZE_2M" using aligned_of_nat [OF a(1), of 21] assms(3) by (simp add: page_sizes)
  then show ?thesis
    by (subst map_range_loop.simps) (use c assms(4) in \<open>simp add: Let_def page_sizes(2)\<close>)
qed

lemma loop_4k:
  assumes "a < e" and "e < a + 2 ^ 21" and "e < 2 ^ 30" and "vmm_map (of_nat a) (of_nat a) flags s = Some s'"
  shows "map_range_loop (of_nat a) (of_nat a) (of_nat e) flags s =
    map_range_loop (of_nat (a + 2 ^ 12)) (of_nat (a + 2 ^ 12)) (of_nat e) flags s'"
proof -
  have a: "a < 2 ^ 48" "e < 2 ^ 48" "e - a < 2 ^ 48" using assms(1,3) by simp_all
  have c: "(of_nat a :: u64) < of_nat e" "\<not> PAGE_SIZE_1G \<le> of_nat e - of_nat a" "\<not> PAGE_SIZE_2M \<le> of_nat e - of_nat a"
    using assms(1-3) sub_of_nat [of a e] word_compare [OF _ a(3), of "2 ^ 30"] word_compare [OF _ a(3), of "2 ^ 21"]
    unfolding page_sizes word_compare [OF a(1,2)] by simp_all
  show ?thesis
    by (subst map_range_loop.simps) (use c assms(4) in \<open>simp add: Let_def page_sizes(3)\<close>)
qed

section \<open>The phases of the loop\<close>

abbreviation tables_missing :: "vmm_state \<Rightarrow> nat \<Rightarrow> nat \<Rightarrow> nat" where
  "tables_missing s k a \<equiv> need (vmem s) k 3 (kernel_pml4 s) (of_nat a)"

lemma window_end:
  assumes "window s a" and "a < 2 ^ 30"
  shows "translation s (of_nat a) = None" and "clear_path (vmem s) 1 3 (kernel_pml4 s) (of_nat a)"
    and "clear_path (vmem s) 0 3 (kernel_pml4 s) (of_nat a)"
proof -
  have "low (of_nat a) = a" using assms(2) by (intro low_of_nat) simp
  then show n: "translation s (of_nat a) = None" using assms(1) unfolding window_def by simp
  show c: "clear_path (vmem s) 1 3 (kernel_pml4 s) (of_nat a)"
    using assms(1) unfolding first_gigabyte [OF assms(2)] window_def by blast
  show "clear_path (vmem s) 0 3 (kernel_pml4 s) (of_nat a)" using clear_unmapped [OF c n] .
qed

lemma mapped_grown:
  assumes "mapped k (of_nat a) p s s'"
  shows "grown s s' (tables_missing s k a)" and "tables_missing s' k a = 0"
  using assms reach_clear unfolding mapped_def grown_def by blast+

lemma same_table:
  assumes "a div 2 ^ 21 = b div 2 ^ 21" and "a < 2 ^ 30" and "b < 2 ^ 30"
  shows "tables_missing s 0 a = tables_missing s 0 b"
proof -
  have "low (of_nat a) = a" "low (of_nat b) = b" using assms(2,3) by (simp_all add: low_of_nat)
  then have "pth 1 (of_nat a) = pth 1 (of_nat b) \<and> ix 1 (of_nat a) = ix 1 (of_nat b)"
    using same_region [of 1 "of_nat a" "of_nat b"] assms(1) by simp
  then have "\<forall>j. 0 < j \<and> j \<le> 3 \<longrightarrow> ix j (of_nat a) = ix j (of_nat b)"
    using pth_eq_iff [of 1 "of_nat a" "of_nat b"] by (metis One_nat_def less_one linorder_neqE_nat one_le_numeral not_less_zero)
  then show ?thesis by (intro same_way(2)) simp_all
qed

lemma small_pages:
  assumes "window s (b + 2 ^ 12 * i)" and "2 ^ 21 dvd b" and "i + m < 512" and "b + 2 ^ 12 * (i + m) < 2 ^ 30"
    and "tables_missing s 0 b \<le> card (frames_left s)" and flags: "flags AND VMM_ADDR_MASK = 0"
  shows "\<exists>s'. map_range_loop (of_nat (b + 2 ^ 12 * i)) (of_nat (b + 2 ^ 12 * i)) (of_nat (b + 2 ^ 12 * (i + m))) flags s = Some s' \<and>
    window s' (b + 2 ^ 12 * (i + m)) \<and> grown s s' (tables_missing s 0 b)"
  using assms(1,3-5)
proof (induction m arbitrary: i s)
  case 0
  then show ?case by (simp add: loop_end grown_def)
next
  case (Suc m)
  let ?a = "b + 2 ^ 12 * i" and ?e = "b + 2 ^ 12 * (i + Suc m)"
  have a30: "?a < 2 ^ 30" "b < 2 ^ 30" using Suc.prems(3) by simp_all
  obtain q where q: "b = 2 ^ 21 * q" using assms(2) by (elim dvdE)
  have "?a div 2 ^ 21 = b div 2 ^ 21" using Suc.prems(2) unfolding q by simp
  note same = same_table [OF this a30]
  obtain own where own: "vmm_ok s own" using Suc.prems(1) unfolding window_def by blast
  have "at_table own s (of_nat ?a) 0 3 (kernel_pml4 s)"
    by (rule at_root [OF own window_end(3) [OF Suc.prems(1) a30(1)]]) (use Suc.prems(4) same in metis)
  then obtain s1 where s1: "vmm_map (of_nat ?a) (of_nat ?a) flags s = Some s1" "mapped 0 (of_nat ?a) (of_nat ?a) s s1"
    using map_page [OF _ flags] by blast
  have d: "2 ^ (12 + 9 * 0) dvd ?a" unfolding q by (intro dvd_add dvd_mult2) (simp_all add: le_imp_power_dvd)
  have w1: "window s1 (b + 2 ^ 12 * Suc i)"
    using window_grow [OF Suc.prems(1) s1(2) _ d a30(1)] by (simp add: algebra_simps)
  have z: "tables_missing s1 0 b = 0" using mapped_grown(2) [OF s1(2)] same_table [OF \<open>?a div 2 ^ 21 = b div 2 ^ 21\<close> a30, of s1] by metis
  have g1: "grown s s1 (tables_missing s 0 b)" using mapped_grown(1) [OF s1(2)] same by metis
  have step: "Suc i + m = i + Suc m" by simp
  from Suc.IH [OF w1, unfolded step] Suc.prems(2,3) z obtain s' where
    s': "map_range_loop (of_nat (b + 2 ^ 12 * Suc i)) (of_nat (b + 2 ^ 12 * Suc i)) (of_nat ?e) flags s1 = Some s'"
      "window s' ?e" "grown s1 s' 0"
    by (metis zero_le)
  have "?e < ?a + 2 ^ 21" using Suc.prems(2) by simp
  then have "map_range_loop (of_nat ?a) (of_nat ?a) (of_nat ?e) flags s = Some s'"
    using loop_4k [of ?a ?e flags s s1] Suc.prems(3) s1(1) s'(1) by (simp add: algebra_simps)
  then show ?case using s'(2) grown_trans [OF g1 s'(3)] by simp
qed

lemma large_pages:
  assumes "window s a" and "2 ^ 21 dvd a" and "m < 512" and "a + 2 ^ 21 * n + 2 ^ 12 * m < 2 ^ 30"
    and "tables_missing s 1 0 < card (frames_left s)" and flags: "flags AND VMM_ADDR_MASK = 0"
  shows "\<exists>s'. map_range_loop (of_nat a) (of_nat a) (of_nat (a + 2 ^ 21 * n + 2 ^ 12 * m)) flags s = Some s' \<and>
    window s' (a + 2 ^ 21 * n + 2 ^ 12 * m) \<and> grown s s' (Suc (tables_missing s 1 0))"
  using assms(1,2,4,5)
proof (induction n arbitrary: a s)
  case 0
  have a30: "a < 2 ^ 30" using "0.prems"(3) by simp
  have n: "tables_missing s 0 a \<le> Suc (tables_missing s 1 0)"
    using need_mono [of "vmem s" 3 "kernel_pml4 s" "of_nat a"] first_gigabyte(2) [OF a30, of "vmem s" "kernel_pml4 s"] by simp
  moreover have "tables_missing s 0 a \<le> card (frames_left s)" using n "0.prems"(4) by linarith
  ultimately show ?case
    using small_pages [of s a 0 m flags] "0.prems" assms(3) flags by (auto simp: grown_def)
next
  case (Suc n)
  let ?e = "a + 2 ^ 21 * Suc n + 2 ^ 12 * m"
  have a30: "a < 2 ^ 30" using Suc.prems(3) by simp
  obtain own where own: "vmm_ok s own" using Suc.prems(1) unfolding window_def by blast
  have n: "tables_missing s 1 a = tables_missing s 1 0" using first_gigabyte(2) [OF a30] by simp
  have at: "at_table own s (of_nat a) 1 3 (kernel_pml4 s)"
    by (rule at_root [OF own window_end(2) [OF Suc.prems(1) a30]]) (use Suc.prems(4) n in linarith)
  have "IS_ALIGNED (of_nat a) PAGE_SIZE_2M"
    using aligned_of_nat [of a 21] Suc.prems(2) a30 by (simp add: page_sizes)
  with map_2m [OF at flags] obtain s1 where
    s1: "vmm_map_2m (of_nat a) (of_nat a) flags s = Some (True, s1)" "mapped 1 (of_nat a) (of_nat a) s s1" by blast
  have w1: "window s1 (a + 2 ^ 21)" using window_grow [OF Suc.prems(1) s1(2)] Suc.prems(2) a30 by simp
  have z: "tables_missing s1 1 0 = 0" using mapped_grown(2) [OF s1(2)] first_gigabyte(2) [OF a30] by simp
  have g1: "grown s s1 (tables_missing s 1 0)" using mapped_grown(1) [OF s1(2)] n by metis
  then have c1: "0 < card (frames_left s1)" using Suc.prems(4) unfolding grown_def by linarith
  have e: "a + 2 ^ 21 + 2 ^ 21 * n + 2 ^ 12 * m = ?e" by simp
  have "2 ^ 21 dvd a + 2 ^ 21" using Suc.prems(2) by simp
  from Suc.IH [OF w1 this, unfolded e z] Suc.prems(3) c1 obtain s' where
    s': "map_range_loop (of_nat (a + 2 ^ 21)) (of_nat (a + 2 ^ 21)) (of_nat ?e) flags s1 = Some s'"
      "window s' ?e" "grown s1 s' (Suc 0)" by blast
  have "map_range_loop (of_nat a) (of_nat a) (of_nat ?e) flags s = Some s'"
    using loop_2m [of a ?e flags s s1] Suc.prems(2,3) s1(1) s'(1) by simp
  then show ?case using s'(2) grown_trans [OF g1 s'(3)] by simp
qed

section \<open>The boot window\<close>

lemma align_down_nat: "unat (x AND NOT (PAGE_SIZE_4K - 1)) = 4096 * (unat x div 4096)"
proof -
  have m: "PAGE_SIZE_4K - 1 = mask 12" by (simp add: PAGE_SIZE_4K_def mask_eq_exp_minus_1)
  have "x AND NOT (PAGE_SIZE_4K - 1) = push_bit 12 (drop_bit 12 x)"
    unfolding m by (rule bit_word_eqI) (auto simp: bit_and_iff bit_not_iff bit_mask_iff bit_push_bit_iff bit_drop_bit_eq)
  also have "unat \<dots> = 4096 * (unat x div 4096)"
  proof -
    have "unat x div 4096 * 4096 \<le> unat x" by (rule div_times_less_eq_dividend)
    also have "\<dots> < 2 ^ 64" by (rule order_less_le_trans [OF unsigned_less]) simp
    finally have "unat x div 4096 * 4096 < 2 ^ 64" .
    then show ?thesis
      by (simp add: push_bit_eq_mult unat_word_ariths unat_drop_bit_eq drop_bit_eq_div [where 'a = nat])
  qed
  finally show ?thesis .
qed

lemma align_up_nat:
  assumes "unat x < 2 ^ 48"
  shows "unat (ALIGN_UP_4K x) = 4096 * ((unat x + 4095) div 4096)"
proof -
  have x: "x + PAGE_SIZE_4K - 1 = x + 4095" by (simp add: PAGE_SIZE_4K_def)
  have u: "unat (x + 4095) = unat x + 4095" using assms by (subst unat_add_lem [THEN iffD1]) simp_all
  show ?thesis unfolding ALIGN_UP_4K_def x align_down_nat u ..
qed

lemma boot_map_size_nat:
  obtains n m where "unat (boot_map_size mem) = 2 ^ 21 * n + 2 ^ 12 * m" "m < 512"
    "2 ^ 26 \<le> unat (boot_map_size mem)" "unat (boot_map_size mem) \<le> 2 ^ 28"
    "ALIGN_UP_4K (boot_map_size mem) = boot_map_size mem"
proof -
  define c where "c = (let m = (if mem < VMM_BOOT_MAP_MIN then VMM_BOOT_MAP_MIN else mem)
    in if m > VMM_BOOT_MAP_MAX then VMM_BOOT_MAP_MAX else m)"
  have c: "2 ^ 26 \<le> unat c" "unat c \<le> 2 ^ 28"
    by (simp_all add: c_def Let_def VMM_BOOT_MAP_MIN_def VMM_BOOT_MAP_MAX_def word_less_nat_alt)
  have b: "boot_map_size mem = ALIGN_UP_4K c" by (simp add: boot_map_size_def c_def Let_def)
  define q where "q = (unat c + 4095) div 4096"
  have u: "unat (boot_map_size mem) = 4096 * q" unfolding b q_def using c by (intro align_up_nat) simp
  have "4096 * q = 4096 * (512 * (q div 512) + q mod 512)" by simp
  then have "4096 * q = 2 ^ 21 * (q div 512) + 2 ^ 12 * (q mod 512)" by (simp only: distrib_left) simp
  moreover have "2 ^ 26 \<le> 4096 * q" "4096 * q \<le> 2 ^ 28" unfolding q_def using c by simp_all
  moreover have "ALIGN_UP_4K (boot_map_size mem) = boot_map_size mem"
  proof -
    have "unat (ALIGN_UP_4K (boot_map_size mem)) = unat (boot_map_size mem)"
      using align_up_nat [of "boot_map_size mem"] u calculation(3) by simp
    then show ?thesis by (simp add: word_unat_eq_iff)
  qed
  ultimately show thesis using that [of "q div 512" "q mod 512"] u by simp
qed

text \<open>An address space of one empty table.\<close>

lemma empty_root:
  assumes "0 < f" "f < 16777216" and "\<And>i. unat i < 512 \<Longrightarrow> vmem s (slot (page_addr f) i) = 0"
    and "kernel_pml4 s = page_addr f" and "pmm_inv (mm_pmm (vmm_mm s))" and "ready (mm_pmm (vmm_mm s))"
    and "0 \<in> used (mm_pmm (vmm_mm s))" and "f \<in> used (mm_pmm (vmm_mm s))"
  shows "window s 0" and "tables_missing s 1 0 = 2"
proof -
  have "vmm_ok s [page_addr f \<mapsto> (3, [])]"
    using assms page_addr_eq_iff [OF _ assms(2)] by (auto simp: vmm_ok_def tables_ok_def entry_ok_def split: if_splits)
  moreover have e: "\<not> present (vmem s (slot (page_addr f) (ix 3 v)))" for v
    using assms(3) [OF ix_bound] by (simp add: present_def)
  have three: "(3 :: nat) = Suc 2" by simp
  have "clear_path (vmem s) 1 3 (kernel_pml4 s) 0"
    unfolding three clear_path.simps using e by (simp add: assms(4) Let_def)
  moreover have "translation s y = None" for y using look_zero_table [of "vmem s" "page_addr f", OF assms(3)] by (simp add: assms(4))
  ultimately show "window s 0" unfolding window_def by auto
  show "tables_missing s 1 0 = 2" unfolding three need.simps using e by (simp add: assms(4) Let_def)
qed

lemma klog_keeps [simp]:
  "mm_pmm (vmm_mm (vmm_klog e s)) = pmm_klog e (mm_pmm (vmm_mm s))" "vmem (vmm_klog e s) = vmem s"
  "kernel_pml4 (vmm_klog e s) = kernel_pml4 s" "vmm_initialized (vmm_klog e s) = vmm_initialized s"
  "cr3 (vmm_klog e s) = cr3 s" "kernel_pml4_phys (vmm_klog e s) = kernel_pml4_phys s"
  by (simp_all add: vmm_klog_def mm_klog_def)

lemma free_frames_klog [simp]: "free_frames (pmm_klog e p) = free_frames p" "pmm_total (pmm_klog e p) = pmm_total p"
  by (simp_all add: free_frames_def pmm_total_def)

lemma window_cong:
  assumes "vmem s' = vmem s" and "kernel_pml4 s' = kernel_pml4 s" and "used (mm_pmm (vmm_mm s')) = used (mm_pmm (vmm_mm s))"
    and "pmm_inv (mm_pmm (vmm_mm s')) = pmm_inv (mm_pmm (vmm_mm s))" and "ready (mm_pmm (vmm_mm s')) = ready (mm_pmm (vmm_mm s))"
  shows "window s' a = window s a"
  unfolding window_def vmm_ok_def assms ..

text \<open>\<open>vmm_init\<close> with enough frames for the root and the three tables of the window.\<close>

lemma init_window:
  assumes p: "pmm_inv (mm_pmm (vmm_mm s))" "ready (mm_pmm (vmm_mm s))" "0 \<in> used (mm_pmm (vmm_mm s))"
    and left: "4 \<le> card (frames_left s)"
  obtains s' where "vmm_init None s = Some s'" "window s' (unat (boot_map_size (pmm_total (mm_pmm (vmm_mm s)))))"
    "vmm_initialized s'" "cr3 s' = kernel_pml4_phys s'" "card (frames_left s) \<le> card (frames_left s') + 4"
proof -
  let ?u = "vmm_klog (Init_msg ''Initializing VMM'') s" and ?z = "boot_map_size (pmm_total (mm_pmm (vmm_mm s)))"
  have ne: "frames_left ?u \<noteq> {}" using left by auto
  have tok: "tables_ok (vmem ?u) Map.empty" by (simp add: tables_ok_def)
  have q: "pmm_inv (mm_pmm (vmm_mm ?u))" "ready (mm_pmm (vmm_mm ?u))" "0 \<in> used (mm_pmm (vmm_mm ?u))"
    "\<forall>f < 16777216. Map.empty (page_addr f) \<noteq> None \<longrightarrow> f \<in> used (mm_pmm (vmm_mm ?u))"
    using p by simp_all
  obtain f t where t: "alloc_table ?u = Some (page_addr f, t)" "page_addr f \<noteq> 0" "0 < f" "f < 16777216"
    "\<And>i. unat i < 512 \<Longrightarrow> vmem t (slot (page_addr f) i) = 0"
    "frames_left t = frames_left ?u - {f}" "f \<in> frames_left ?u" "pmm_inv (mm_pmm (vmm_mm t))" "ready (mm_pmm (vmm_mm t))"
    "used (mm_pmm (vmm_mm t)) = insert f (used (mm_pmm (vmm_mm ?u)))"
    "max_frames (mm_pmm (vmm_mm t)) = max_frames (mm_pmm (vmm_mm ?u))"
    by (rule alloc_table_new [OF tok q ne]) (rule that)
  define r where "r = t\<lparr>kernel_pml4 := page_addr f, kernel_pml4_phys := virt_to_phys (page_addr f)\<rparr>"
  have r: "window r 0" "tables_missing r 1 0 = 2"
    by (rule empty_root [of f]; use t p in \<open>simp add: r_def\<close>)+
  have left': "card (frames_left s) = Suc (card (frames_left r))"
    using t(6,7) card_Suc_Diff1 [OF finite_free_frames t(7)] by (simp add: r_def)
  obtain n m where z: "unat ?z = 2 ^ 21 * n + 2 ^ 12 * m" "m < 512" "2 ^ 26 \<le> unat ?z" "unat ?z \<le> 2 ^ 28"
    "ALIGN_UP_4K ?z = ?z"
    by (rule boot_map_size_nat)
  have zn: "?z = of_nat (0 + 2 ^ 21 * n + 2 ^ 12 * m)" unfolding add_0 z(1) [symmetric] by simp
  have flags: "VMM_KERNEL_RW AND VMM_ADDR_MASK = 0"
    by (simp add: VMM_KERNEL_RW_def VMM_PRESENT_def VMM_WRITE_def VMM_ADDR_MASK_def)
  from large_pages [OF r(1) _ z(2) _ _ flags, of n] z(1,4) r(2) left left'
  obtain s1 where s1: "map_range_loop 0 0 ?z VMM_KERNEL_RW r = Some s1" "window s1 (unat ?z)" "grown r s1 3"
    unfolding zn by auto
  have "?z \<noteq> 0" using z(3) by auto
  moreover have "ALIGN_DOWN_4K 0 = 0" by (simp add: ALIGN_DOWN_4K_def)
  ultimately have range: "vmm_map_range 0 0 ?z VMM_KERNEL_RW r = Some s1" using s1(1) z(5) by (simp add: vmm_map_range_def)
  have tot: "pmm_total (mm_pmm (vmm_mm r)) = pmm_total (mm_pmm (vmm_mm s))" using t(11) by (simp add: r_def pmm_total_def)
  let ?s' = "vmm_klog (Init_msg ''VMM online'') (s1\<lparr>cr3 := kernel_pml4_phys s1, vmm_initialized := True\<rparr>)"
  have "vmm_init None s = Some ?s'"
    using p(2) t(1,2) range tot by (simp add: vmm_init_def pmm_ready_def r_def vmm_map_fb_def Let_def)
  moreover have "window ?s' (unat ?z)" using s1(2) by (subst window_cong [of _ s1]) simp_all
  moreover have "card (frames_left s) \<le> card (frames_left ?s') + 4" using s1(3) left' by (simp add: grown_def)
  ultimately show thesis using that by simp
qed

end
