(* ===== verification/Address_Space.thy ===== *)
theory Address_Space
  imports VMM_Boot
begin

text \<open>
  The properties of the address space the virtual memory manager keeps: what \<open>vmm_map\<close>,
  \<open>vmm_unmap\<close> and \<open>vmm_init\<close> do to \<open>vmm_translate\<close>, for every address.
\<close>

section \<open>Unmapping\<close>

lemma look_same_page:
  "\<forall>j \<le> k. ix j w = ix j v \<Longrightarrow> look m k t w = None \<longleftrightarrow> look m k t v = None"
  by (induction k arbitrary: t) (auto simp: Let_def)

text \<open>The words on the way of \<open>v\<close> and whether they lead on.\<close>

abbreviation leads :: "u64 \<Rightarrow> bool" where "leads e \<equiv> present e \<and> \<not> huge e"

definition walk0 :: "vmm_state \<Rightarrow> u64 \<Rightarrow> u64 option" where
  "walk0 s v =
     (let e3 = entry s (kernel_pml4 s) (ix 3 v); e2 = entry s (target e3) (ix 2 v); e1 = entry s (target e2) (ix 1 v)
      in if leads e3 \<and> leads e2 \<and> leads e1 then Some (target e1) else None)"

lemma walk0_reach: "walk0 s v = Some t \<longleftrightarrow> reach (vmem s) 3 (kernel_pml4 s) v 0 t"
  by (auto simp: walk0_def Let_def entry_def numeral_3_eq_3 numeral_2_eq_2)

lemma clear_look:
  assumes "clear_path (vmem s) 0 3 (kernel_pml4 s) v"
  shows "translation s v = (case walk0 s v of None \<Rightarrow> None | Some t \<Rightarrow> look (vmem s) 0 t v)"
  using assms by (auto simp: walk0_def Let_def entry_def numeral_3_eq_3 numeral_2_eq_2)

lemma unmap_run:
  assumes "vmm_ok s own"
  shows "vmm_unmap v s = Some (case walk0 s v of None \<Rightarrow> s
    | Some t \<Rightarrow> if present (entry s t (ix 0 v))
        then vmm_invlpg (ALIGN_DOWN_4K v) ((set_entry t (ix 0 v) 0 s)\<lparr>mapped_page_count := mapped_page_count s - 1\<rparr>) else s)"
proof -
  let ?r = "kernel_pml4 s"
  let ?e3 = "entry s ?r (ix 3 v)"
  let ?e2 = "entry s (target ?e3) (ix 2 v)"
  let ?e1 = "entry s (target ?e2) (ix 1 v)"
  have tok: "tables_ok (vmem s) own" and root: "own ?r = Some (Suc 2, [])"
    using assms by (simp_all add: vmm_ok_def numeral_3_eq_3)
  have nz: "own t = Some (k, p) \<Longrightarrow> t \<noteq> 0" for t k p using owned_page [OF tok] by metis
  note d3 = descend_existing [OF tok root ix_bound, of 3 v]
  show ?thesis
  proof (cases "leads ?e3")
    case False
    then show ?thesis using nz [OF root] d3 by (auto simp: vmm_unmap_def walk0_def ix_index ix_align Let_def)
  next
    case p3: True
    have o2: "own (target ?e3) = Some (Suc 1, [ix 3 v])"
      using owned_entry [OF tok root ix_bound, of 3 v] p3 unfolding entry_def by (simp add: numeral_2_eq_2)
    note d2 = descend_existing [OF tok o2 ix_bound, of 2 v]
    show ?thesis
    proof (cases "leads ?e2")
      case False
      then show ?thesis using nz [OF root] nz [OF o2] d3 d2 p3
        by (auto simp: vmm_unmap_def walk0_def ix_index ix_align Let_def)
    next
      case p2: True
      have o1: "own (target ?e2) = Some (Suc 0, [ix 3 v, ix 2 v])"
        using owned_entry [OF tok o2 ix_bound, of 2 v] p2 unfolding entry_def by simp
      note d1 = descend_existing [OF tok o1 ix_bound, of 1 v]
      have o0: "leads ?e1 \<Longrightarrow> target ?e1 \<noteq> 0"
        using owned_entry [OF tok o1 ix_bound, of 1 v] nz unfolding entry_def by blast
      show ?thesis
        using nz [OF root] nz [OF o2] nz [OF o1] d3 d2 d1 p3 p2 o0
        by (cases "leads ?e1")
          (auto simp: vmm_unmap_def walk0_def ix_index ix_align Let_def present_def set_entry_def)
    qed
  qed
qed

lemma unmap_page:
  assumes ok: "vmm_ok s own"
  shows "\<exists>s'. vmm_unmap v s = Some s' \<and> vmm_ok s' own \<and>
    (\<forall>w. translation s' w =
      (if same_page w v \<and> clear_path (vmem s) 0 3 (kernel_pml4 s) v then None else translation s w))"
proof (cases "\<exists>t. walk0 s v = Some t \<and> present (entry s t (ix 0 v))")
  case True
  then obtain t where t: "walk0 s v = Some t" "present (entry s t (ix 0 v))" by blast
  let ?s = "vmm_invlpg (ALIGN_DOWN_4K v) ((set_entry t (ix 0 v) 0 s)\<lparr>mapped_page_count := mapped_page_count s - 1\<rparr>)"
  have r: "reach (vmem s) 3 (kernel_pml4 s) v 0 t" using t(1) walk0_reach by simp
  have tok: "tables_ok (vmem s) own" "own (kernel_pml4 s) = Some (3, pth 3 v)" using ok by (simp_all add: vmm_ok_def pth_root)
  have o: "own t = Some (0, pth 0 v)" using reach_owner [OF tok _ r] by simp
  have f: "vmem ?s = (vmem s)(slot t (ix 0 v) := 0)" "kernel_pml4 ?s = kernel_pml4 s" "vmm_mm ?s = vmm_mm s"
    by (simp_all add: vmm_invlpg_def set_entry_def)
  have "entry_ok own 0 (pth 0 v) (ix 0 v) 0" by (simp add: entry_ok_def)
  note w = write_entry [OF ok o r this f]
  have "clear_path (vmem s) 0 3 (kernel_pml4 s) v" using reach_clear [OF r] by blast
  then have "translation ?s x = (if same_page x v \<and> clear_path (vmem s) 0 3 (kernel_pml4 s) v then None else translation s x)" for x
    using w(2) [of x] by (auto simp: same_page_pth f present_def)
  then show ?thesis using unmap_run [OF ok, of v] t w(1) by simp
next
  case False
  have "translation s x = None" if c: "same_page x v" "clear_path (vmem s) 0 3 (kernel_pml4 s) v" for x
  proof -
    have "translation s v = None" using clear_look [OF c(2)] False by (auto simp: entry_def Let_def split: option.splits)
    moreover have "\<forall>j \<le> 3. ix j x = ix j v"
      using c(1) same_page_pth [of x v] pth_eq [of 0 x v] by (metis le0 neq0_conv)
    ultimately show ?thesis using look_same_page by blast
  qed
  then show ?thesis using unmap_run [OF ok, of v] False ok by (auto split: option.splits)
qed

section \<open>A booted address space\<close>

text \<open>The state before \<open>vmm_init\<close>, on given physical memory.\<close>

definition vmm_initial :: "mm_state \<Rightarrow> vmm_state" where
  "vmm_initial mm = \<lparr>vmem = (\<lambda>_. 0), kernel_pml4 = 0, kernel_pml4_phys = 0, vmm_initialized = False,
     mapped_page_count = 0, cr3 = 0, invlpg_log = [], vmm_mm = mm\<rparr>"

definition boot_32M :: mm_state where
  "boot_32M = boot_memory 0x2000000 0x200000 0x10000 pmm_initial no_heap"

lemma boot_32M_frames:
  "pmm_inv (mm_pmm boot_32M)" "ready (mm_pmm boot_32M)" "0 \<in> used (mm_pmm boot_32M)"
  "511 \<le> card (free_frames (mm_pmm boot_32M))" "pmm_total (mm_pmm boot_32M) = 0x2000000"
proof -
  have k: "kernel_frames 0x2000000 0x200000 = 513" and m: "managed_frames 0x2000000 = 8192"
    by (simp_all add: kernel_frames_def managed_frames_def)
  have hp: "heap_first 513 = 1024" "heap_end 513 8192 = 8192" by (simp_all add: heap_first_def heap_end_def)
  have pre: "0x1000 \<le> (0x10000 :: u64)" "unat (0x200000 :: u64) < 2251799813685248" "heap_start no_heap = 0"
    by (simp_all add: no_heap_def)
  note bm = boot_memory_correct [OF pre k [symmetric] m [symmetric] refl, of pmm_initial, folded boot_32M_def]
  show "pmm_inv (mm_pmm boot_32M)" "ready (mm_pmm boot_32M)" using bm by blast+
  have mf: "unat (max_frames (mm_pmm boot_32M)) = 8192" using bm by blast
  then have "max_frames (mm_pmm boot_32M) = 8192" by (simp add: word_unat_eq_iff)
  then show "pmm_total (mm_pmm boot_32M) = 0x2000000" by (simp add: pmm_total_def PAGE_SIZE_def)
  have u: "used (mm_pmm boot_32M) = {..<513} \<union> {f. f < 8192 \<and> 1024 \<le> f \<and> f < 8192}" using bm by (simp add: hp)
  show "0 \<in> used (mm_pmm boot_32M)" unfolding u by simp
  have "{513..<1024} \<subseteq> free_frames (mm_pmm boot_32M)" unfolding free_frames_def u mf by auto
  then have "card {513..<1024 :: nat} \<le> card (free_frames (mm_pmm boot_32M))" by (rule card_mono [OF finite_free_frames])
  then show "511 \<le> card (free_frames (mm_pmm boot_32M))" by simp
qed

lemma low_small: "v < 2 ^ 48 \<Longrightarrow> low v = unat v" and take_small: "v < 2 ^ 48 \<Longrightarrow> take_bit 48 v = v" for v :: u64
proof -
  assume "v < 2 ^ 48"
  then have "unat v < 2 ^ 48" by (simp add: word_less_nat_alt)
  then have "unat (take_bit 48 v) = unat v" by (simp add: unsigned_take_bit_eq take_bit_nat_eq_self)
  then show "low v = unat v" "take_bit 48 v = v" by (simp_all add: low_def word_unat_eq_iff)
qed

lemma window_translate:
  assumes "window s (unat z)" and "v < 2 ^ 48"
  shows "vmm_translate v s = Some (if v < z then v else 0)"
proof -
  obtain own where "vmm_ok s own" using assms(1) unfolding window_def by blast
  then have "vmm_translate v s = Some (case translation s v of None \<Rightarrow> 0 | Some a \<Rightarrow> a)" by (rule translate_look)
  also have "translation s v = (if v < z then Some v else None)"
    using assms(1) low_small [OF assms(2)] take_small [OF assms(2)] unfolding window_def by (simp add: word_less_nat_alt)
  finally show ?thesis by simp
qed

lemma need_bound: "need m k0 k t v \<le> k - k0"
  by (induction k arbitrary: t) (auto simp: Let_def le_SucI Suc_diff_le)

lemma booted_space:
  obtains s own where "vmm_init None (vmm_initial boot_32M) = Some s" "vmm_ok s own"
    "clear_path (vmem s) 0 3 (kernel_pml4 s) 0x4000000"
    "need (vmem s) 0 3 (kernel_pml4 s) 0x4000000 \<le> card (free_frames (mm_pmm (vmm_mm s)))"
proof -
  let ?s = "vmm_initial boot_32M"
  have mm: "vmm_mm ?s = boot_32M" by (simp add: vmm_initial_def)
  have "4 \<le> card (free_frames (mm_pmm boot_32M))" using boot_32M_frames(4) by simp
  then obtain s where s: "vmm_init None ?s = Some s" "window s (unat (boot_map_size 0x2000000))"
    "card (free_frames (mm_pmm boot_32M)) \<le> card (frames_left s) + 4"
    using boot_32M_frames(1-3,5) init_window [of ?s, unfolded mm] by metis
  have "unat (boot_map_size 0x2000000) = 0x4000000"
    by (simp add: boot_map_size_def VMM_BOOT_MAP_MIN_def VMM_BOOT_MAP_MAX_def ALIGN_UP_4K_def PAGE_SIZE_4K_def Let_def)
  then have w: "window s 0x4000000" using s(2) by simp
  then obtain own where "vmm_ok s own" unfolding window_def by blast
  moreover have "clear_path (vmem s) 0 3 (kernel_pml4 s) 0x4000000" using window_end(3) [OF w] by simp
  moreover have "need (vmem s) 0 3 (kernel_pml4 s) 0x4000000 \<le> card (frames_left s)"
    using need_bound [of "vmem s" 0 3 "kernel_pml4 s" "0x4000000"] s(3) boot_32M_frames(4) by linarith
  ultimately show thesis using that s(1) by blast
qed

section \<open>Properties\<close>

text \<open>
  Bootstrap of the address space: with four free frames \<open>vmm_init\<close> returns, loads the page table
  register with the new root and leaves exactly the boot window (the memory size clamped to 64 and
  256 MB, rounded up to pages) mapped, every address of it to itself; \<open>vmm_translate\<close> reports 0
  for every other 48-bit address.
\<close>

theorem vmm_init_identity:
  assumes "pmm_inv (mm_pmm (vmm_mm s))" and "ready (mm_pmm (vmm_mm s))" and "0 \<in> used (mm_pmm (vmm_mm s))"
    and "4 \<le> card (free_frames (mm_pmm (vmm_mm s)))"
  shows "\<exists>s'. vmm_init None s = Some s' \<and> vmm_ready s' \<and> vmm_get_cr3 s' = kernel_pml4_phys s' \<and>
    (\<forall>v. v < 2 ^ 48 \<longrightarrow>
      vmm_translate v s' = Some (if v < boot_map_size (pmm_total (mm_pmm (vmm_mm s))) then v else 0))"
proof -
  obtain s' where s': "vmm_init None s = Some s'" "window s' (unat (boot_map_size (pmm_total (mm_pmm (vmm_mm s)))))"
    "vmm_initialized s'" "cr3 s' = kernel_pml4_phys s'"
    by (rule init_window [OF assms]) (rule that)
  show ?thesis
    using s'(1,3,4) window_translate [OF s'(2)] by (intro exI [of _ s']) (simp add: vmm_ready_def vmm_get_cr3_def)
qed

theorem vmm_init_identity_witness:
  "\<exists>s'. vmm_init None (vmm_initial boot_32M) = Some s' \<and> vmm_translate 0x3FFFFFF s' = Some 0x3FFFFFF \<and>
     vmm_translate 0x4000000 s' = Some 0"
proof -
  let ?s = "vmm_initial boot_32M"
  have mm: "vmm_mm ?s = boot_32M" by (simp add: vmm_initial_def)
  have "4 \<le> card (free_frames (mm_pmm boot_32M))" using boot_32M_frames(4) by simp
  from vmm_init_identity [of ?s, unfolded mm, OF boot_32M_frames(1-3) this]
  obtain s' where s': "vmm_init None ?s = Some s'"
    "\<And>v. v < 2 ^ 48 \<Longrightarrow> vmm_translate v s' = Some (if v < boot_map_size 0x2000000 then v else 0)"
    unfolding boot_32M_frames(5) by blast
  have "boot_map_size 0x2000000 = 0x4000000"
    by (simp add: boot_map_size_def VMM_BOOT_MAP_MIN_def VMM_BOOT_MAP_MAX_def ALIGN_UP_4K_def PAGE_SIZE_4K_def Let_def)
  then show ?thesis using s'(1) s'(2) [of "0x3FFFFFF"] s'(2) [of "0x4000000"] by (intro exI [of _ s']) simp
qed

text \<open>
  C27. Mapping a page: when no large page is in the way and the free frames cover the missing tables,
  \<open>vmm_map\<close> returns with well-formed tables, every address of the page translates into the frame
  it was mapped to, and the translation of every other address is what it was.
\<close>

theorem vmm_map_translate:
  assumes "vmm_ok s own" and "clear_path (vmem s) 0 3 (kernel_pml4 s) virt"
    and "need (vmem s) 0 3 (kernel_pml4 s) virt \<le> card (free_frames (mm_pmm (vmm_mm s)))"
    and "flags AND VMM_ADDR_MASK = 0"
  shows "\<exists>s' own'. vmm_map virt phys flags s = Some s' \<and> vmm_ok s' own' \<and>
    (\<forall>w. vmm_translate w s' =
      (if same_page w virt then Some ((phys AND VMM_ADDR_MASK) OR (w AND 0xFFF)) else vmm_translate w s))"
proof -
  from map_page [OF at_root [OF assms(1-3)] assms(4)] obtain s' where
    s': "vmm_map virt phys flags s = Some s'" "mapped 0 virt phys s s'" by blast
  then obtain own' where own': "vmm_ok s' own'" unfolding mapped_def by blast
  have page: "(2 ^ (12 + 9 * 0) - 1 :: u64) = 0xFFF" by simp
  have tr: "translation s' w = (if same_page w virt then Some ((phys AND VMM_ADDR_MASK) OR (w AND 0xFFF)) else translation s w)" for w
    using s'(2) unfolding mapped_def same_page_pth page by blast
  show ?thesis
    using s'(1) own' by (intro exI [of _ s'] exI [of _ own']) (simp add: translate_look [OF assms(1)] translate_look [OF own'] tr)
qed

theorem vmm_map_translate_witness:
  "\<exists>s s'. vmm_init None (vmm_initial boot_32M) = Some s \<and> vmm_map 0x4000000 0x1234000 VMM_KERNEL_RW s = Some s' \<and>
     vmm_translate 0x4000010 s' = Some 0x1234010"
proof -
  obtain s own where s: "vmm_init None (vmm_initial boot_32M) = Some s" "vmm_ok s own"
    "clear_path (vmem s) 0 3 (kernel_pml4 s) 0x4000000"
    "need (vmem s) 0 3 (kernel_pml4 s) 0x4000000 \<le> card (free_frames (mm_pmm (vmm_mm s)))"
    by (rule booted_space)
  have flags: "VMM_KERNEL_RW AND VMM_ADDR_MASK = 0"
    by (simp add: VMM_KERNEL_RW_def VMM_PRESENT_def VMM_WRITE_def VMM_ADDR_MASK_def)
  have "same_page 0x4000010 0x4000000"
    by (simp add: same_page_def PML4_INDEX_def PDPT_INDEX_def PD_INDEX_def PT_INDEX_def)
  moreover from vmm_map_translate [OF s(2-4) flags, of "0x1234000"] obtain s' where
    s': "vmm_map 0x4000000 0x1234000 VMM_KERNEL_RW s = Some s'"
    "\<And>w. vmm_translate w s' = (if same_page w 0x4000000 then Some ((0x1234000 AND VMM_ADDR_MASK) OR (w AND 0xFFF)) else vmm_translate w s)"
    by blast
  ultimately have "vmm_translate 0x4000010 s' = Some 0x1234010" by (simp add: VMM_ADDR_MASK_def)
  with s(1) s'(1) show ?thesis by blast
qed

text \<open>
  C28. Unmapping: \<open>vmm_unmap\<close> returns with well-formed tables; when the way to the page has no large
  page, its addresses translate to 0 afterwards and nothing else changes, and when a large page
  covers the address, nothing changes at all: the request is silently ignored.
\<close>

theorem vmm_unmap_translate:
  assumes "vmm_ok s own"
  shows "\<exists>s'. vmm_unmap v s = Some s' \<and> vmm_ok s' own \<and>
    (\<forall>w. vmm_translate w s' =
      (if same_page w v \<and> clear_path (vmem s) 0 3 (kernel_pml4 s) v then Some 0 else vmm_translate w s))"
proof -
  from unmap_page [OF assms, of v] obtain s' where s': "vmm_unmap v s = Some s'" "vmm_ok s' own"
    "\<forall>w. translation s' w = (if same_page w v \<and> clear_path (vmem s) 0 3 (kernel_pml4 s) v then None else translation s w)"
    by blast
  then show ?thesis using translate_look [OF assms] translate_look [OF s'(2)] by (intro exI [of _ s']) simp
qed

theorem vmm_unmap_translate_witness:
  "\<exists>s s'. vmm_init None (vmm_initial boot_32M) = Some s \<and> vmm_unmap 0x4000000 s = Some s' \<and>
     vmm_translate 0x4000010 s' = Some 0"
proof -
  obtain s own where s: "vmm_init None (vmm_initial boot_32M) = Some s" "vmm_ok s own"
    "clear_path (vmem s) 0 3 (kernel_pml4 s) 0x4000000"
    by (rule booted_space)
  have "same_page 0x4000010 0x4000000"
    by (simp add: same_page_def PML4_INDEX_def PDPT_INDEX_def PD_INDEX_def PT_INDEX_def)
  moreover from vmm_unmap_translate [OF s(2), of "0x4000000"] obtain s' where s': "vmm_unmap 0x4000000 s = Some s'"
    "\<And>w. vmm_translate w s' = (if same_page w 0x4000000 \<and> clear_path (vmem s) 0 3 (kernel_pml4 s) 0x4000000 then Some 0
      else vmm_translate w s)"
    by blast
  ultimately have "vmm_translate 0x4000010 s' = Some 0" using s(3) by simp
  with s(1) s'(1) show ?thesis by blast
qed

end
