(* ===== verification/Fifo.thy ===== *)
theory Fifo
  imports Prelude
begin

text \<open>
  The contract of a bounded first-in first-out byte queue, as the kernel's pipes offer it: a
  write accepts as much as fits, a read takes from the front. The client's lemma is about whole
  sessions: whatever is written and read in whatever order, what comes out is what went in.
\<close>

datatype 'a fifo_op = Put "'a list" | Get nat

locale bounded_fifo =
  fixes inv :: "'s \<Rightarrow> bool"
    and contents :: "'s \<Rightarrow> 'a list"
    and cap :: nat
    and put :: "'a list \<Rightarrow> 's \<Rightarrow> nat \<times> 's"
    and get :: "nat \<Rightarrow> 's \<Rightarrow> 'a list \<times> 's"
  assumes bounded: "inv s \<Longrightarrow> length (contents s) \<le> cap"
    and put_law: "inv s \<Longrightarrow> put xs s = (n, s') \<Longrightarrow>
      inv s' \<and> n = min (length xs) (cap - length (contents s)) \<and> contents s' = contents s @ take n xs"
    and get_law: "inv s \<Longrightarrow> get k s = (ys, s') \<Longrightarrow>
      inv s' \<and> ys = take k (contents s) \<and> contents s' = drop k (contents s)"
begin

text \<open>A session: the accepted items, the delivered items and the final state.\<close>

fun session :: "'a fifo_op list \<Rightarrow> 's \<Rightarrow> 'a list \<times> 'a list \<times> 's" where
  "session [] s = ([], [], s)"
| "session (Put xs # ops) s =
     (case put xs s of (n, s1) \<Rightarrow>
      case session ops s1 of (acc, del, s2) \<Rightarrow> (take n xs @ acc, del, s2))"
| "session (Get k # ops) s =
     (case get k s of (ys, s1) \<Rightarrow>
      case session ops s1 of (acc, del, s2) \<Rightarrow> (acc, ys @ del, s2))"

lemma session_stream:
  assumes "inv s" and "session ops s = (acc, del, s')"
  shows "inv s' \<and> contents s @ acc = del @ contents s'"
  using assms
proof (induction ops s arbitrary: acc del rule: session.induct)
  case (1 s)
  then show ?case by simp
next
  case (2 xs ops s)
  obtain n s1 where put: "put xs s = (n, s1)" by (cases "put xs s")
  obtain acc' del' t where rest: "session ops s1 = (acc', del', t)" by (cases "session ops s1")
  from put_law [OF 2(2) put] have s1: "inv s1" "contents s1 = contents s @ take n xs" by auto
  from "2.IH" [OF put [symmetric] s1(1), of acc' del'] rest 2(3) put s1(2)
  show ?case by simp
next
  case (3 k ops s)
  obtain ys s1 where get: "get k s = (ys, s1)" by (cases "get k s")
  obtain acc' del' t where rest: "session ops s1 = (acc', del', t)" by (cases "session ops s1")
  from get_law [OF 3(2) get] have s1: "inv s1" "contents s = ys @ contents s1"
    by (auto simp: append_take_drop_id)
  from "3.IH" [OF get [symmetric] s1(1), of acc' del'] rest 3(3) get s1(2)
  show ?case by simp
qed

lemma session_from_empty:
  assumes "inv s" and "contents s = []" and "session ops s = (acc, del, s')"
  shows "acc = del @ contents s' \<and> length acc \<le> length del + cap"
  using session_stream [OF assms(1,3)] assms(2) bounded [of s'] by simp

end

end
