(* ===== verification/Pipe.thy ===== *)
theory Pipe
  imports KLog Allocator Fifo
begin

text \<open>
  The kernel pipes of \<open>src/kernel/proc/pipe.c\<close>: a table of 64 ring buffers of 4096 bytes with
  their reader and writer counts. Every operation runs with the pipe lock held and releases it on
  every path, so an operation is one step of the model. The ring refines a byte queue, and the
  table is an allocator of pipe ids whose free is the closing of both ends.
\<close>

section \<open>State\<close>

definition PIPE_TABLE_SIZE :: nat where "PIPE_TABLE_SIZE = 64"
definition PIPE_BUFFER_SIZE :: nat where "PIPE_BUFFER_SIZE = 4096"

record pipe =
  pipe_buf :: "nat \<Rightarrow> u8"
  read_pos :: u32
  write_pos :: u32
  pipe_count :: u32
  readers :: int
  writers :: int
  pipe_valid :: bool

record pipe_state =
  pipe_table :: "nat \<Rightarrow> pipe"
  pipe_log :: "klog_event list"

definition zero_pipe :: pipe where
  "zero_pipe = \<lparr>pipe_buf = (\<lambda>_. 0), read_pos = 0, write_pos = 0, pipe_count = 0, readers = 0,
     writers = 0, pipe_valid = False\<rparr>"

definition set_pipe :: "nat \<Rightarrow> pipe \<Rightarrow> pipe_state \<Rightarrow> pipe_state" where
  "set_pipe i p s = s\<lparr>pipe_table := (pipe_table s)(i := p)\<rparr>"

definition bad_pipe_id :: "int \<Rightarrow> bool" where
  "bad_pipe_id pipe_id \<longleftrightarrow> pipe_id < 0 \<or> pipe_id \<ge> int PIPE_TABLE_SIZE"

section \<open>Operations\<close>

definition pipe_init :: "pipe_state \<Rightarrow> pipe_state" where
  "pipe_init s =
     s\<lparr>pipe_table := (\<lambda>_. zero_pipe), pipe_log := pipe_log s @ [Init_msg ''Pipe subsystem initialized'']\<rparr>"

definition pipe_alloc :: "pipe_state \<Rightarrow> int \<times> pipe_state" where
  "pipe_alloc s =
     (case find_from (\<lambda>i. \<not> pipe_valid (pipe_table s i)) 0 PIPE_TABLE_SIZE of
        Some i \<Rightarrow>
          (int i, set_pipe i (zero_pipe\<lparr>pipe_valid := True, readers := 1, writers := 1\<rparr>) s)
      | None \<Rightarrow> (- 1, s\<lparr>pipe_log := pipe_log s @ [Warn ''pipe: table full'']\<rparr>))"

text \<open>The copy loops; \<open>dst\<close> is what has been stored in the caller's buffer so far.\<close>

function pipe_read_loop :: "int \<Rightarrow> u8 list \<Rightarrow> pipe \<Rightarrow> u8 list \<times> pipe" where
  "pipe_read_loop len dst p =
     (if int (length dst) < len \<and> pipe_count p > 0
      then pipe_read_loop len (dst @ [pipe_buf p (unat (read_pos p))])
             (p\<lparr>read_pos := (read_pos p + 1) mod of_nat PIPE_BUFFER_SIZE,
                pipe_count := pipe_count p - 1\<rparr>)
      else (dst, p))"
  by pat_completeness auto
termination
  by (relation "measure (\<lambda>(len, dst, p). nat (len - int (length dst)))") auto

function pipe_write_loop :: "(nat \<Rightarrow> u8) \<Rightarrow> int \<Rightarrow> nat \<Rightarrow> pipe \<Rightarrow> nat \<times> pipe" where
  "pipe_write_loop src len written p =
     (if int written < len \<and> pipe_count p < of_nat PIPE_BUFFER_SIZE
      then pipe_write_loop src len (Suc written)
             (p\<lparr>pipe_buf := (pipe_buf p)(unat (write_pos p) := src written),
                write_pos := (write_pos p + 1) mod of_nat PIPE_BUFFER_SIZE,
                pipe_count := pipe_count p + 1\<rparr>)
      else (written, p))"
  by pat_completeness auto
termination
  by (relation "measure (\<lambda>(src, len, written, p). nat (len - int written))") auto

declare pipe_read_loop.simps [simp del] pipe_write_loop.simps [simp del]

text \<open>The returned count or error code, and the bytes stored in the caller's buffer.\<close>

definition pipe_read :: "int \<Rightarrow> int \<Rightarrow> pipe_state \<Rightarrow> int \<times> u8 list \<times> pipe_state" where
  "pipe_read pipe_id len s =
     (if bad_pipe_id pipe_id then (- 1, [], s)
      else
        let p = pipe_table s (nat pipe_id) in
        if \<not> pipe_valid p then (- 1, [], s)
        else if pipe_count p = 0 then (if writers p = 0 then 0 else - 2, [], s)
        else
          let (dst, p) = pipe_read_loop len [] p
          in (int (length dst), dst, set_pipe (nat pipe_id) p s))"

definition pipe_write :: "int \<Rightarrow> (nat \<Rightarrow> u8) \<Rightarrow> int \<Rightarrow> pipe_state \<Rightarrow> int \<times> pipe_state" where
  "pipe_write pipe_id buf len s =
     (if bad_pipe_id pipe_id then (- 1, s)
      else
        let p = pipe_table s (nat pipe_id) in
        if \<not> pipe_valid p \<or> readers p = 0 then (- 1, s)
        else
          let (written, p) = pipe_write_loop buf len 0 p
          in (int written, set_pipe (nat pipe_id) p s))"

definition pipe_close_read :: "int \<Rightarrow> pipe_state \<Rightarrow> pipe_state" where
  "pipe_close_read pipe_id s =
     (if bad_pipe_id pipe_id then s
      else
        let p = pipe_table s (nat pipe_id);
            p = (if pipe_valid p \<and> readers p > 0 then p\<lparr>readers := readers p - 1\<rparr> else p);
            p = (if readers p = 0 \<and> writers p = 0 then p\<lparr>pipe_valid := False\<rparr> else p)
        in set_pipe (nat pipe_id) p s)"

definition pipe_close_write :: "int \<Rightarrow> pipe_state \<Rightarrow> pipe_state" where
  "pipe_close_write pipe_id s =
     (if bad_pipe_id pipe_id then s
      else
        let p = pipe_table s (nat pipe_id);
            p = (if pipe_valid p \<and> writers p > 0 then p\<lparr>writers := writers p - 1\<rparr> else p);
            p = (if readers p = 0 \<and> writers p = 0 then p\<lparr>pipe_valid := False\<rparr> else p)
        in set_pipe (nat pipe_id) p s)"

definition pipe_get :: "int \<Rightarrow> pipe_state \<Rightarrow> pipe option" where
  "pipe_get pipe_id s =
     (if bad_pipe_id pipe_id then None
      else let p = pipe_table s (nat pipe_id) in if pipe_valid p then Some p else None)"

section \<open>The ring as a queue\<close>

definition pipe_inv :: "pipe \<Rightarrow> bool" where
  "pipe_inv p \<longleftrightarrow> unat (read_pos p) < PIPE_BUFFER_SIZE \<and> unat (pipe_count p) \<le> PIPE_BUFFER_SIZE \<and>
     unat (write_pos p) = (unat (read_pos p) + unat (pipe_count p)) mod PIPE_BUFFER_SIZE"

definition pipe_data :: "pipe \<Rightarrow> u8 list" where
  "pipe_data p =
     map (\<lambda>i. pipe_buf p ((unat (read_pos p) + i) mod PIPE_BUFFER_SIZE)) [0..<unat (pipe_count p)]"

lemma length_pipe_data [simp]: "length (pipe_data p) = unat (pipe_count p)"
  by (simp add: pipe_data_def)

lemma ring_step:
  assumes "unat (x :: u32) < PIPE_BUFFER_SIZE"
  shows "unat ((x + 1) mod of_nat PIPE_BUFFER_SIZE) = Suc (unat x) mod PIPE_BUFFER_SIZE"
proof -
  have "unat (x + 1) = Suc (unat x)"
    using assms by (simp add: unat_word_ariths PIPE_BUFFER_SIZE_def)
  then show ?thesis by (simp add: unat_mod_distrib PIPE_BUFFER_SIZE_def)
qed

lemma count_pos: "pipe_count p > 0 \<longleftrightarrow> unat (pipe_count p) \<noteq> 0"
  by (simp add: word_greater_zero_iff unat_eq_0)

lemma count_room: "pipe_count p < of_nat PIPE_BUFFER_SIZE \<longleftrightarrow> unat (pipe_count p) < PIPE_BUFFER_SIZE"
  by (simp add: word_less_nat_alt PIPE_BUFFER_SIZE_def)

lemma pipe_read_step:
  assumes "pipe_inv p" and "pipe_count p > 0"
  defines "q \<equiv> p\<lparr>read_pos := (read_pos p + 1) mod of_nat PIPE_BUFFER_SIZE,
    pipe_count := pipe_count p - 1\<rparr>"
  shows "pipe_inv q" and "pipe_data p = pipe_buf p (unat (read_pos p)) # pipe_data q"
proof -
  let ?r = "unat (read_pos p)" and ?c = "unat (pipe_count p)" and ?N = PIPE_BUFFER_SIZE
  have r: "?r < ?N" and c: "0 < ?c" using assms(1,2) by (auto simp: pipe_inv_def count_pos)
  have q: "unat (read_pos q) = Suc ?r mod ?N" "unat (pipe_count q) = ?c - 1"
    "pipe_buf q = pipe_buf p" "write_pos q = write_pos p"
    using r unat_minus_one [of "pipe_count p"] assms(2)
    by (simp_all add: q_def ring_step word_greater_zero_iff)
  have "(Suc ?r mod ?N + (?c - 1)) mod ?N = (?r + ?c) mod ?N"
    using c mod_add_left_eq [of "Suc ?r" ?N "?c - 1"] by (simp del: mod_add_left_eq)
  with assms(1) q show "pipe_inv q" by (auto simp: pipe_inv_def PIPE_BUFFER_SIZE_def)
  have "[0..<?c] = 0 # map Suc [0..<?c - 1]"
    using c by (simp add: map_Suc_upt upt_conv_Cons)
  then show "pipe_data p = pipe_buf p ?r # pipe_data q"
    using r q by (simp add: pipe_data_def mod_add_left_eq)
qed

lemma pipe_write_step:
  fixes x :: u8
  assumes "pipe_inv p" and "pipe_count p < of_nat PIPE_BUFFER_SIZE"
  defines "q \<equiv> p\<lparr>pipe_buf := (pipe_buf p)(unat (write_pos p) := x),
    write_pos := (write_pos p + 1) mod of_nat PIPE_BUFFER_SIZE, pipe_count := pipe_count p + 1\<rparr>"
  shows "pipe_inv q" and "pipe_data q = pipe_data p @ [x]"
proof -
  let ?r = "unat (read_pos p)" and ?c = "unat (pipe_count p)" and ?N = PIPE_BUFFER_SIZE
  have N: "0 < ?N" by (simp add: PIPE_BUFFER_SIZE_def)
  have r: "?r < ?N" and c: "?c < ?N" and w: "unat (write_pos p) = (?r + ?c) mod ?N"
    using assms(1,2) by (auto simp: pipe_inv_def count_room)
  have wp: "unat (write_pos p) < ?N" using w N by simp
  have c1: "unat (pipe_count p + 1) = Suc ?c"
    using c by (simp add: unat_word_ariths PIPE_BUFFER_SIZE_def)
  have q: "unat (write_pos q) = Suc ((?r + ?c) mod ?N) mod ?N" "unat (pipe_count q) = Suc ?c"
    "pipe_buf q = (pipe_buf p)((?r + ?c) mod ?N := x)" "read_pos q = read_pos p"
    using wp by (simp_all add: q_def ring_step w c1)
  then show "pipe_inv q" using r c by (simp add: pipe_inv_def mod_Suc_eq)
  have "(?r + i) mod ?N \<noteq> (?r + ?c) mod ?N" if "i < ?c" for i
  proof
    assume "(?r + i) mod ?N = (?r + ?c) mod ?N"
    then have "?N dvd (?r + ?c) - (?r + i)" using that by (metis mod_eq_dvd_iff_nat nat_add_left_cancel_le less_imp_le)
    then have "?N dvd ?c - i" by simp
    then show False using that c by (auto dest: dvd_imp_le)
  qed
  then show "pipe_data q = pipe_data p @ [x]"
    by (simp add: pipe_data_def q)
qed

lemma pipe_read_loop_spec:
  assumes "pipe_inv p" and "pipe_read_loop len dst p = (out, q)"
  shows "pipe_inv q \<and> out = dst @ take (nat len - length dst) (pipe_data p) \<and>
    pipe_data q = drop (nat len - length dst) (pipe_data p) \<and> readers q = readers p \<and>
    writers q = writers p \<and> pipe_valid q = pipe_valid p"
  using assms
proof (induction len dst p rule: pipe_read_loop.induct)
  case (1 len dst p)
  show ?case
  proof (cases "int (length dst) < len \<and> pipe_count p > 0")
    case True
    let ?q = "p\<lparr>read_pos := (read_pos p + 1) mod of_nat PIPE_BUFFER_SIZE,
      pipe_count := pipe_count p - 1\<rparr>"
    note step = pipe_read_step [OF "1.prems"(1) conjunct2 [OF True]]
    have n: "nat len - length dst = Suc (nat len - Suc (length dst))" using True by auto
    from "1.IH" [OF True step(1)] "1.prems"(2) True show ?thesis
      unfolding step(2) n by (subst (asm) pipe_read_loop.simps) simp
  next
    case False
    then have "nat len - length dst = 0 \<or> pipe_data p = []"
      by (auto simp: pipe_data_def unat_eq_0 word_greater_zero_iff)
    with False "1.prems" show ?thesis by (subst (asm) pipe_read_loop.simps) auto
  qed
qed

lemma pipe_write_loop_spec:
  assumes "pipe_inv p" and "pipe_write_loop src len w p = (n, q)" and "w \<le> nat len"
  shows "pipe_inv q \<and> w \<le> n \<and> n = min (nat len) (w + (PIPE_BUFFER_SIZE - length (pipe_data p))) \<and>
    pipe_data q = pipe_data p @ map src [w..<n] \<and> readers q = readers p \<and>
    writers q = writers p \<and> pipe_valid q = pipe_valid p"
  using assms
proof (induction src len w p rule: pipe_write_loop.induct)
  case (1 src len w p)
  show ?case
  proof (cases "int w < len \<and> pipe_count p < of_nat PIPE_BUFFER_SIZE")
    case True
    note step = pipe_write_step [OF "1.prems"(1) conjunct2 [OF True], of "src w"]
    have room: "unat (pipe_count p) < PIPE_BUFFER_SIZE" and w: "Suc w \<le> nat len"
      using True by (auto simp: count_room)
    note IH = "1.IH" [OF True step(1) _ w]
    from "1.prems"(2) True have "pipe_write_loop src len (Suc w)
       (p\<lparr>pipe_buf := (pipe_buf p)(unat (write_pos p) := src w),
          write_pos := (write_pos p + 1) mod of_nat PIPE_BUFFER_SIZE,
          pipe_count := pipe_count p + 1\<rparr>) = (n, q)"
      by (subst (asm) pipe_write_loop.simps) simp
    note rest = IH [OF this]
    have "w < n" using conjunct1 [OF conjunct2 [OF rest]] by simp
    then have "map src [w..<n] = src w # map src [Suc w..<n]" by (simp add: upt_conv_Cons)
    moreover have "Suc w + (PIPE_BUFFER_SIZE - Suc (unat (pipe_count p))) =
        w + (PIPE_BUFFER_SIZE - unat (pipe_count p))"
      using room by simp
    ultimately show ?thesis
      using rest w room unfolding step(2) length_append length_pipe_data by auto
  next
    case False
    with "1.prems" have "n = w" "q = p" by (auto simp: pipe_write_loop.simps [of src len w p])
    moreover have "nat len = w \<or> unat (pipe_count p) = PIPE_BUFFER_SIZE"
      using False "1.prems" by (auto simp: count_room pipe_inv_def)
    ultimately show ?thesis using "1.prems" by auto
  qed
qed

section \<open>One pipe as a bounded queue\<close>

text \<open>
  A session on pipe \<open>i\<close> with its read end open, in a table whose other pipes are those of
  \<open>t\<close>.
\<close>

definition on_pipe :: "nat \<Rightarrow> (nat \<Rightarrow> pipe) \<Rightarrow> pipe_state \<Rightarrow> bool" where
  "on_pipe i t s \<longleftrightarrow> i < PIPE_TABLE_SIZE \<and> pipe_valid (pipe_table s i) \<and>
     readers (pipe_table s i) \<noteq> 0 \<and> pipe_inv (pipe_table s i) \<and>
     (\<forall>j. j \<noteq> i \<longrightarrow> pipe_table s j = t j)"

definition queued :: "nat \<Rightarrow> pipe_state \<Rightarrow> u8 list" where
  "queued i s = pipe_data (pipe_table s i)"

definition pipe_put :: "nat \<Rightarrow> u8 list \<Rightarrow> pipe_state \<Rightarrow> nat \<times> pipe_state" where
  "pipe_put i xs s = map_prod nat id (pipe_write (int i) (\<lambda>k. xs ! k) (int (length xs)) s)"

definition pipe_take :: "nat \<Rightarrow> nat \<Rightarrow> pipe_state \<Rightarrow> u8 list \<times> pipe_state" where
  "pipe_take i k s = snd (pipe_read (int i) (int k) s)"

lemma bad_pipe_id_int [simp]: "bad_pipe_id (int i) \<longleftrightarrow> \<not> i < PIPE_TABLE_SIZE"
  by (auto simp: bad_pipe_id_def)

lemma pipe_table_set [simp]: "pipe_table (set_pipe i p s) = (pipe_table s)(i := p)"
  by (simp add: set_pipe_def)

lemma map_nth_upt [simp]: "n \<le> length xs \<Longrightarrow> map ((!) xs) [0..<n] = take n xs"
  by (intro nth_equalityI) auto

lemma pipe_put_law:
  assumes "on_pipe i t s" and "pipe_put i xs s = (n, s')"
  shows "on_pipe i t s' \<and> n = min (length xs) (PIPE_BUFFER_SIZE - length (queued i s)) \<and>
    queued i s' = queued i s @ take n xs"
proof -
  let ?p = "pipe_table s i"
  obtain w q where loop: "pipe_write_loop ((!) xs) (int (length xs)) 0 ?p = (w, q)"
    by (cases "pipe_write_loop ((!) xs) (int (length xs)) 0 ?p")
  from assms loop have "n = w" "s' = set_pipe i q s"
    by (auto simp: pipe_put_def pipe_write_def on_pipe_def Let_def)
  with pipe_write_loop_spec [OF _ loop] assms(1) show ?thesis
    by (auto simp: on_pipe_def queued_def)
qed

lemma pipe_take_law:
  assumes "on_pipe i t s" and "pipe_take i k s = (ys, s')"
  shows "on_pipe i t s' \<and> ys = take k (queued i s) \<and> queued i s' = drop k (queued i s)"
proof (cases "pipe_count (pipe_table s i) = 0")
  case True
  then have "queued i s = []" by (simp add: queued_def pipe_data_def)
  with True assms show ?thesis by (auto simp: pipe_take_def pipe_read_def on_pipe_def Let_def)
next
  case False
  obtain out q where loop: "pipe_read_loop (int k) [] (pipe_table s i) = (out, q)"
    by (cases "pipe_read_loop (int k) [] (pipe_table s i)")
  from False assms loop have "ys = out" "s' = set_pipe i q s"
    by (auto simp: pipe_take_def pipe_read_def on_pipe_def Let_def)
  with pipe_read_loop_spec [OF _ loop] assms(1) show ?thesis
    by (auto simp: on_pipe_def queued_def)
qed

interpretation pipe_queue: bounded_fifo "on_pipe i t" "queued i" PIPE_BUFFER_SIZE "pipe_put i" "pipe_take i"
  for i t
proof unfold_locales
  fix s assume "on_pipe i t s"
  then show "length (queued i s) \<le> PIPE_BUFFER_SIZE"
    by (simp add: on_pipe_def queued_def pipe_inv_def)
qed (rule pipe_put_law, assumption+, rule pipe_take_law, assumption+)

section \<open>The table as an allocator of pipes\<close>

definition pipes_inv :: "pipe_state \<Rightarrow> bool" where
  "pipes_inv s \<longleftrightarrow> (\<forall>i < PIPE_TABLE_SIZE. pipe_valid (pipe_table s i) \<longrightarrow>
     pipe_inv (pipe_table s i) \<and> readers (pipe_table s i) \<in> {0, 1} \<and> writers (pipe_table s i) \<in> {0, 1})"

definition pipes_live :: "pipe_state \<Rightarrow> int set" where
  "pipes_live s = {i. pipe_get i s \<noteq> None}"

definition pipe_obtain :: "unit \<Rightarrow> pipe_state \<Rightarrow> int option \<times> pipe_state" where
  "pipe_obtain u s = (case pipe_alloc s of (r, s) \<Rightarrow> (if r < 0 then None else Some r, s))"

definition pipe_close_both :: "int \<Rightarrow> pipe_state \<Rightarrow> pipe_state" where
  "pipe_close_both i s = pipe_close_write i (pipe_close_read i s)"

lemma pipes_live_iff: "i \<in> pipes_live s \<longleftrightarrow> \<not> bad_pipe_id i \<and> pipe_valid (pipe_table s (nat i))"
  by (simp add: pipes_live_def pipe_get_def Let_def)

lemma nat_id_eq: "\<not> bad_pipe_id i \<Longrightarrow> \<not> bad_pipe_id j \<Longrightarrow> nat i = nat j \<longleftrightarrow> i = j"
  by (auto simp: bad_pipe_id_def)

lemma fresh_pipe_inv: "pipe_inv (zero_pipe\<lparr>pipe_valid := True, readers := 1, writers := 1\<rparr>)"
  by (simp add: pipe_inv_def zero_pipe_def PIPE_BUFFER_SIZE_def)

lemma pipe_alloc_cases:
  obtains (full) s' where "pipe_alloc s = (- 1, s')" "pipe_table s' = pipe_table s"
      "pipes_live s = {0..<int PIPE_TABLE_SIZE}"
  | (slot) i where "i < PIPE_TABLE_SIZE" "\<not> pipe_valid (pipe_table s i)"
      "\<forall>j < i. pipe_valid (pipe_table s j)"
      "pipe_alloc s =
         (int i, set_pipe i (zero_pipe\<lparr>pipe_valid := True, readers := 1, writers := 1\<rparr>) s)"
proof (cases "find_from (\<lambda>i. \<not> pipe_valid (pipe_table s i)) 0 PIPE_TABLE_SIZE")
  case None
  then have "\<forall>j < PIPE_TABLE_SIZE. pipe_valid (pipe_table s j)" by (simp add: find_from_None_iff)
  then have "pipes_live s = {0..<int PIPE_TABLE_SIZE}"
    by (auto simp: pipes_live_iff bad_pipe_id_def)
  then show thesis
    by (intro full [of "snd (pipe_alloc s)"]) (simp_all add: pipe_alloc_def None)
next
  case (Some i)
  note Some' = Some [unfolded find_from_Some_iff]
  show thesis by (rule slot [of i]) (use Some' in simp_all, simp add: pipe_alloc_def Some)
qed

lemma pipe_close_both_table:
  assumes "pipes_inv s" and "i \<in> pipes_live s"
  shows "\<exists>p. pipe_close_both i s = set_pipe (nat i) p s \<and> \<not> pipe_valid p"
proof -
  let ?p = "pipe_table s (nat i)"
  have i: "\<not> bad_pipe_id i" "pipe_valid ?p" using assms(2) by (auto simp: pipes_live_iff)
  then have "nat i < PIPE_TABLE_SIZE" by (auto simp: bad_pipe_id_def)
  with assms(1) i(2) have "readers ?p = 0 \<or> readers ?p = 1" "writers ?p = 0 \<or> writers ?p = 1"
    by (auto simp: pipes_inv_def)
  with i show ?thesis
    by (elim disjE)
      (simp_all add: pipe_close_both_def pipe_close_read_def pipe_close_write_def set_pipe_def,
       (rule exI, rule conjI, rule refl, simp)+)
qed

lemma pipe_close_both_dead:
  assumes "i \<notin> pipes_live s"
  shows "\<exists>p. pipe_close_both i s = s \<or> pipe_close_both i s = set_pipe (nat i) p s \<and> \<not> pipe_valid p"
  using assms
  by (auto simp: pipe_close_both_def pipe_close_read_def pipe_close_write_def pipes_live_iff Let_def
      set_pipe_def)

lemma set_invalid_pipe:
  assumes "\<not> pipe_valid p" and "\<not> bad_pipe_id i"
  shows "pipes_live (set_pipe (nat i) p s) = pipes_live s - {i}"
    and "pipes_inv s \<Longrightarrow> pipes_inv (set_pipe (nat i) p s)"
  using assms by (auto simp: pipes_live_iff pipes_inv_def nat_id_eq split: if_splits)

lemma pipe_obtain_cases:
  assumes "pipe_obtain u s = (x, s')"
  obtains (full) "x = None" "pipe_table s' = pipe_table s" "pipes_live s = {0..<int PIPE_TABLE_SIZE}"
  | (slot) i where "x = Some (int i)" "i < PIPE_TABLE_SIZE" "int i \<notin> pipes_live s"
      "s' = set_pipe i (zero_pipe\<lparr>pipe_valid := True, readers := 1, writers := 1\<rparr>) s"
  using assms
  by (cases s rule: pipe_alloc_cases) (auto simp: pipe_obtain_def pipes_live_iff)

lemma pipes_same_table:
  assumes "pipe_table s' = pipe_table s"
  shows "pipes_live s' = pipes_live s" and "pipes_inv s' = pipes_inv s"
  by (simp_all add: pipes_live_def pipe_get_def pipes_inv_def assms)

interpretation pipes: checked_allocator pipes_inv pipes_live pipe_obtain pipe_close_both
proof unfold_locales
  fix s r assume inv: "pipes_inv s"
  obtain x s' where ob: "pipe_obtain r s = (x, s')" by (cases "pipe_obtain r s")
  from ob have "pipes_inv s'"
  proof (cases rule: pipe_obtain_cases)
    case full
    with inv show ?thesis by (simp add: pipes_same_table(2) [OF full(2)])
  next
    case (slot i)
    with inv fresh_pipe_inv show ?thesis by (simp add: pipes_inv_def)
  qed
  with ob show "pipes_inv (snd (pipe_obtain r s))" by simp
next
  fix s r a s' assume ob: "pipe_obtain r s = (Some a, s')"
  then show "a \<notin> pipes_live s" by (cases rule: pipe_obtain_cases) auto
  from ob show "pipes_live s' = insert a (pipes_live s)"
    by (cases rule: pipe_obtain_cases) (auto simp: pipes_live_iff nat_eq_iff bad_pipe_id_def split: if_splits)
next
  fix s r s' assume "pipe_obtain r s = (None, s')"
  then show "pipes_live s' = pipes_live s"
    by (cases rule: pipe_obtain_cases) (auto dest: pipes_same_table(1))
next
  fix s a assume inv: "pipes_inv s" and live: "a \<in> pipes_live s"
  obtain p where p: "pipe_close_both a s = set_pipe (nat a) p s" "\<not> pipe_valid p"
    using pipe_close_both_table [OF inv live] by blast
  have good: "\<not> bad_pipe_id a" using live by (simp add: pipes_live_iff)
  show "pipes_inv (pipe_close_both a s)" using p good inv by (simp add: set_invalid_pipe)
  show "pipes_live (pipe_close_both a s) = pipes_live s - {a}"
    using p good by (simp add: set_invalid_pipe)
next
  fix s a assume inv: "pipes_inv s" and dead: "a \<notin> pipes_live s"
  show "pipes_inv (pipe_close_both a s) \<and> pipes_live (pipe_close_both a s) = pipes_live s"
  proof (cases "bad_pipe_id a")
    case True
    then show ?thesis using inv
      by (simp add: pipe_close_both_def pipe_close_read_def pipe_close_write_def)
  next
    case False
    with pipe_close_both_dead [OF dead] show ?thesis
      using set_invalid_pipe [OF _ False, of _ s] inv dead by auto
  qed
qed

interpretation pipe_slots: slot_allocator pipes_inv pipes_live pipe_obtain pipe_close_both
  "{0..<int PIPE_TABLE_SIZE}"
proof unfold_locales
  fix s r s' assume "pipe_obtain r s = (None, s')"
  then show "pipes_live s = {0..<int PIPE_TABLE_SIZE}" by (cases rule: pipe_obtain_cases) auto
qed (auto simp: pipes_live_iff bad_pipe_id_def)

lemma pipe_init_inv: "pipes_inv (pipe_init s)" "pipes_live (pipe_init s) = {}"
  by (auto simp: pipes_inv_def pipes_live_iff pipe_init_def zero_pipe_def)

lemma alloc_on_pipe:
  assumes "pipe_alloc s = (int i, s0)"
  shows "on_pipe i (pipe_table s) s0" and "queued i s0 = []"
proof -
  have "i < PIPE_TABLE_SIZE \<and>
      s0 = set_pipe i (zero_pipe\<lparr>pipe_valid := True, readers := 1, writers := 1\<rparr>) s"
    using assms by (cases s rule: pipe_alloc_cases) auto
  with fresh_pipe_inv show "on_pipe i (pipe_table s) s0" "queued i s0 = []"
    by (auto simp: on_pipe_def queued_def pipe_data_def zero_pipe_def)
qed

section \<open>Properties\<close>

text \<open>
  C15. A pipe is a reliable byte stream. On a pipe just handed out by \<open>pipe_alloc\<close>, in any
  interleaving of writes and reads of any sizes, the bytes the reads delivered followed by the
  bytes still in the ring are exactly the bytes the writes accepted, in order; the accepted bytes
  are never more than 4096 ahead of the delivered ones, and no other pipe of the table changes.
\<close>

theorem pipe_stream:
  assumes "pipe_alloc s = (int i, s0)"
    and "bounded_fifo.session (pipe_put i) (pipe_take i) ops s0 = (acc, del, s1)"
  shows "acc = del @ pipe_data (pipe_table s1 i) \<and> length acc \<le> length del + PIPE_BUFFER_SIZE \<and>
    (\<forall>j. j \<noteq> i \<longrightarrow> pipe_table s1 j = pipe_table s j)"
proof -
  note open_pipe = alloc_on_pipe [OF assms(1)]
  have "on_pipe i (pipe_table s) s1"
    using pipe_queue.session_stream [OF open_pipe(1) assms(2)] by blast
  moreover have "acc = del @ pipe_data (pipe_table s1 i) \<and> length acc \<le> length del + PIPE_BUFFER_SIZE"
    using pipe_queue.session_from_empty [OF open_pipe assms(2)] unfolding queued_def .
  ultimately show ?thesis unfolding on_pipe_def by blast
qed

theorem pipe_stream_witness:
  "let s = pipe_init \<lparr>pipe_table = (\<lambda>_. zero_pipe), pipe_log = []\<rparr>;
       s1 = snd (snd (bounded_fifo.session (pipe_put 0) (pipe_take 0) [Put [1, 2, 3], Get 2] (snd (pipe_alloc s))))
   in [1, 2, 3] = [1, 2] @ pipe_data (pipe_table s1 0) \<and> 3 \<le> 2 + PIPE_BUFFER_SIZE \<and>
      pipe_table s1 5 = pipe_table s 5"
proof -
  define s where "s = pipe_init \<lparr>pipe_table = (\<lambda>_. zero_pipe), pipe_log = []\<rparr>"
  have al: "pipe_alloc s = (int 0, snd (pipe_alloc s))"
    by (simp add: s_def pipe_init_def pipe_alloc_def find_from.simps PIPE_TABLE_SIZE_def zero_pipe_def)
  let ?s0 = "snd (pipe_alloc s)"
  obtain n t where put: "pipe_put 0 [1, 2, 3] ?s0 = (n, t)" by (cases "pipe_put 0 [1, 2, 3] ?s0")
  note put' = pipe_put_law [OF alloc_on_pipe(1) [OF al] put, unfolded alloc_on_pipe(2) [OF al]]
  obtain ys u where get: "pipe_take 0 2 t = (ys, u)" by (cases "pipe_take 0 2 t")
  have n: "n = 3" and q: "queued 0 t = [1, 2, 3]" using put' by (auto simp: PIPE_BUFFER_SIZE_def)
  have "on_pipe 0 (pipe_table s) t" using put' by blast
  from pipe_take_law [OF this get] have "ys = [1, 2]" by (simp add: q)
  then have run: "bounded_fifo.session (pipe_put 0) (pipe_take 0) [Put [1, 2, 3], Get 2] ?s0 =
      ([1, 2, 3], [1, 2], u)"
    using put get n by (simp add: pipe_queue.session.simps)
  from pipe_stream [OF al run] show ?thesis
    unfolding Let_def s_def [symmetric] run by simp
qed

text \<open>
  The result of \<open>pipe_read\<close> on every branch: \<open>-1\<close> for an id out of range or a closed
  slot; on an empty pipe \<open>0\<close> (end of file) when no writer is left and \<open>-2\<close> (would block)
  otherwise, with nothing changed; and with data, the number of bytes delivered, which are the
  oldest ones and all that fit, removed from the pipe with everything else kept.
\<close>

theorem pipe_read_result:
  assumes "pipes_inv s" and "pipe_read i len s = (r, out, s')"
  shows "case pipe_get i s of
      None \<Rightarrow> r = - 1 \<and> out = [] \<and> s' = s
    | Some p \<Rightarrow>
        if pipe_data p = [] then r = (if writers p = 0 then 0 else - 2) \<and> out = [] \<and> s' = s
        else r = int (length out) \<and> out = take (nat len) (pipe_data p) \<and>
          (\<exists>q. s' = set_pipe (nat i) q s \<and> pipe_get i s' = Some q \<and>
             pipe_data q = drop (nat len) (pipe_data p) \<and> readers q = readers p \<and>
             writers q = writers p) \<and> pipes_inv s'"
proof (cases "pipe_get i s")
  case None
  with assms(2) show ?thesis
    by (auto simp: pipe_get_def pipe_read_def Let_def split: if_splits)
next
  case (Some p)
  then have i: "\<not> bad_pipe_id i" "nat i < PIPE_TABLE_SIZE" and p: "p = pipe_table s (nat i)" "pipe_valid p"
    by (auto simp: pipe_get_def Let_def bad_pipe_id_def split: if_splits)
  have empty: "pipe_data p = [] \<longleftrightarrow> pipe_count p = 0" by (simp add: pipe_data_def unat_eq_0)
  obtain d q where loop: "pipe_read_loop len [] p = (d, q)" by (cases "pipe_read_loop len [] p")
  have inv: "pipe_inv p" using assms(1) i p by (simp add: pipes_inv_def)
  note spec = pipe_read_loop_spec [OF inv loop]
  show ?thesis
  proof (cases "pipe_count p = 0")
    case True
    with Some assms(2) i p empty show ?thesis by (auto simp: pipe_read_def Let_def)
  next
    case False
    then have res: "r = int (length d)" "out = d" "s' = set_pipe (nat i) q s"
      using assms(2) i p loop by (auto simp: pipe_read_def Let_def)
    have "pipe_get i s' = Some q" using i p(2) spec by (simp add: res pipe_get_def)
    moreover have "pipes_inv s'" using assms(1) i spec p by (auto simp: res pipes_inv_def)
    ultimately show ?thesis using Some False empty spec res by auto
  qed
qed

theorem pipe_read_result_witness:
  "case pipe_get 99 (pipe_init \<lparr>pipe_table = (\<lambda>_. zero_pipe), pipe_log = []\<rparr>) of
      None \<Rightarrow> fst (pipe_read 99 8 (pipe_init \<lparr>pipe_table = (\<lambda>_. zero_pipe), pipe_log = []\<rparr>)) = - 1
    | Some p \<Rightarrow> False"
proof -
  let ?s = "pipe_init \<lparr>pipe_table = (\<lambda>_. zero_pipe), pipe_log = []\<rparr>"
  have get: "pipe_get 99 ?s = None" by (simp add: pipe_get_def bad_pipe_id_def PIPE_TABLE_SIZE_def)
  obtain r out t where rd: "pipe_read 99 8 ?s = (r, out, t)" by (cases "pipe_read 99 8 ?s")
  from pipe_read_result [OF pipe_init_inv(1) rd] show ?thesis by (simp add: get rd)
qed

text \<open>
  The pipe table neither leaks nor double-books: after \<open>pipe_init\<close>, \<open>n\<close> calls of
  \<open>pipe_alloc\<close> return \<open>min n 64\<close> pairwise distinct valid ids, and closing both ends of all of
  them, in any order, leaves every slot of the table free again.
\<close>

theorem pipe_table_no_leak:
  assumes "pipes.alloc_all (replicate n ()) (pipe_init s) = (ids, s')" and "mset cs = mset ids"
  shows "length ids = min n PIPE_TABLE_SIZE \<and> distinct ids \<and>
    {i. pipe_get i s' \<noteq> None} = set ids \<and> {i. pipe_get i (pipes.free_all cs s') \<noteq> None} = {}"
proof -
  note inv = pipe_init_inv [of s]
  have "length ids = min n PIPE_TABLE_SIZE"
    using pipe_slots.alloc_all_length [OF inv(1) assms(1)] by (simp add: inv(2))
  moreover have "distinct ids \<and> pipes_live s' = set ids"
    using pipes.alloc_all_spec [OF inv(1) assms(1)] by (simp add: inv(2))
  moreover have "pipes_live (pipes.free_all cs s') = {}"
    using pipes.no_leak [OF inv(1) assms(1) assms(2) [symmetric]] by (simp add: inv(2))
  ultimately show ?thesis unfolding pipes_live_def by blast
qed

theorem pipe_table_no_leak_witness:
  "\<exists>ids s'. pipes.alloc_all (replicate 100 ())
      (pipe_init \<lparr>pipe_table = (\<lambda>_. zero_pipe), pipe_log = []\<rparr>) = (ids, s') \<and>
    length ids = min 100 PIPE_TABLE_SIZE \<and> distinct ids \<and>
    {i. pipe_get i (pipes.free_all (rev ids) s') \<noteq> None} = {}"
proof -
  let ?s = "\<lparr>pipe_table = (\<lambda>_. zero_pipe), pipe_log = []\<rparr>"
  obtain ids s' where run: "pipes.alloc_all (replicate 100 ()) (pipe_init ?s) = (ids, s')"
    by (cases "pipes.alloc_all (replicate 100 ()) (pipe_init ?s)")
  have perm: "mset (rev ids) = mset ids" by simp
  from pipe_table_no_leak [OF run perm] run show ?thesis by blast
qed

end
