(* ===== verification/CString.thy ===== *)
theory CString
  imports Prelude
begin

text \<open>
  The memory and string routines of \<open>src/lib/libc/string.c\<close>, over a byte store. An index
  \<^verbatim>\<open>p[i]\<close> is the address \<open>p + i\<close> modulo \<open>2 ^ 64\<close>, so an index may be a natural number.
  The unbounded loops of the legacy functions are partial; the theorems show that they return on
  terminated strings. Functions that return their first argument are modelled by the memory they
  leave. The last section relates the routines to operations on HOL strings, which the other
  components use.
\<close>

section \<open>Memory\<close>

type_synonym mem = "ptr \<Rightarrow> char"

abbreviation NUL :: char where "NUL \<equiv> CHR 0x00"

definition at :: "ptr \<Rightarrow> nat \<Rightarrow> ptr" where
  "at p i = p + of_nat i"

definition uchar :: "char \<Rightarrow> int" where
  "uchar c = of_char c"

definition EOK :: int where "EOK = 0"
definition EINVAL :: int where "EINVAL = - 1"
definition ERANGE :: int where "ERANGE = - 3"
definition EOVERFLOW :: int where "EOVERFLOW = - 4"
definition ENULLPTR :: int where "ENULLPTR = - 5"

section \<open>Memory functions\<close>

definition memset :: "ptr \<Rightarrow> int \<Rightarrow> u64 \<Rightarrow> mem \<Rightarrow> mem" where
  "memset dest v len m = for_range 0 (unat len) (\<lambda>i m. m(at dest i := char_of v)) m"

definition copy_byte :: "ptr \<Rightarrow> ptr \<Rightarrow> nat \<Rightarrow> mem \<Rightarrow> mem" where
  "copy_byte dest src i m = m(at dest i := m (at src i))"

definition memcpy :: "ptr \<Rightarrow> ptr \<Rightarrow> u64 \<Rightarrow> mem \<Rightarrow> mem" where
  "memcpy dest src len m = for_range 0 (unat len) (copy_byte dest src) m"

text \<open>\<^verbatim>\<open>for (i = n; i > 0; i--) f(i - 1)\<close>\<close>

fun for_down :: "nat \<Rightarrow> (nat \<Rightarrow> 's \<Rightarrow> 's) \<Rightarrow> 's \<Rightarrow> 's" where
  "for_down 0 f s = s"
| "for_down (Suc i) f s = for_down i f (f i s)"

definition memmove :: "ptr \<Rightarrow> ptr \<Rightarrow> u64 \<Rightarrow> mem \<Rightarrow> mem" where
  "memmove dest src len m =
     (if dest < src then for_range 0 (unat len) (copy_byte dest src) m
      else if dest > src then for_down (unat len) (copy_byte dest src) m
      else m)"

definition memcmp :: "mem \<Rightarrow> ptr \<Rightarrow> ptr \<Rightarrow> u64 \<Rightarrow> int" where
  "memcmp m a b len =
     (case find_from (\<lambda>i. m (at a i) \<noteq> m (at b i)) 0 (unat len) of
        Some i \<Rightarrow> uchar (m (at a i)) - uchar (m (at b i))
      | None \<Rightarrow> 0)"

definition memchr :: "mem \<Rightarrow> ptr \<Rightarrow> int \<Rightarrow> u64 \<Rightarrow> ptr" where
  "memchr m s c n =
     (case find_from (\<lambda>i. m (at s i) = char_of c) 0 (unat n) of Some i \<Rightarrow> at s i | None \<Rightarrow> 0)"

definition safe_memset :: "ptr \<Rightarrow> u64 \<Rightarrow> int \<Rightarrow> u64 \<Rightarrow> mem \<Rightarrow> int \<times> mem" where
  "safe_memset dest dest_size v cnt m =
     (if dest = 0 then (ENULLPTR, m)
      else if cnt > dest_size then (EOVERFLOW, m)
      else (EOK, for_range 0 (unat cnt) (\<lambda>i m. m(at dest i := char_of v)) m))"

definition safe_memcpy :: "ptr \<Rightarrow> u64 \<Rightarrow> ptr \<Rightarrow> u64 \<Rightarrow> mem \<Rightarrow> int \<times> mem" where
  "safe_memcpy dest dest_size src src_size m =
     (if dest = 0 \<or> src = 0 then (ENULLPTR, m)
      else if src_size > dest_size then (EOVERFLOW, m)
      else (EOK, for_range 0 (unat src_size) (copy_byte dest src) m))"

section \<open>Legacy string functions\<close>

partial_function (option) strlen_loop :: "mem \<Rightarrow> ptr \<Rightarrow> nat \<Rightarrow> nat option" where
  "strlen_loop m str len = (if m (at str len) \<noteq> NUL then strlen_loop m str (Suc len) else Some len)"

definition strlen :: "mem \<Rightarrow> ptr \<Rightarrow> u64 option" where
  "strlen m str = map_option of_nat (strlen_loop m str 0)"

partial_function (option) strcpy_loop :: "ptr \<Rightarrow> ptr \<Rightarrow> nat \<Rightarrow> mem \<Rightarrow> mem option" where
  "strcpy_loop dest src i m =
     (let c = m (at src i); m = m(at dest i := c)
      in if c \<noteq> NUL then strcpy_loop dest src (Suc i) m else Some m)"

definition strcpy :: "ptr \<Rightarrow> ptr \<Rightarrow> mem \<Rightarrow> mem option" where
  "strcpy dest src m = strcpy_loop dest src 0 m"

partial_function (option) strcmp_loop :: "mem \<Rightarrow> ptr \<Rightarrow> ptr \<Rightarrow> nat \<Rightarrow> nat option" where
  "strcmp_loop m a b i =
     (if m (at a i) \<noteq> NUL \<and> m (at a i) = m (at b i) then strcmp_loop m a b (Suc i) else Some i)"

definition strcmp :: "mem \<Rightarrow> ptr \<Rightarrow> ptr \<Rightarrow> int option" where
  "strcmp m a b = map_option (\<lambda>i. uchar (m (at a i)) - uchar (m (at b i))) (strcmp_loop m a b 0)"

definition strncmp :: "mem \<Rightarrow> ptr \<Rightarrow> ptr \<Rightarrow> u64 \<Rightarrow> int" where
  "strncmp m a b n =
     (case find_from (\<lambda>i. m (at a i) \<noteq> m (at b i) \<or> m (at a i) = NUL) 0 (unat n) of
        Some i \<Rightarrow>
          if m (at a i) \<noteq> m (at b i) then uchar (m (at a i)) - uchar (m (at b i)) else 0
      | None \<Rightarrow> 0)"

partial_function (option) strchr_loop :: "mem \<Rightarrow> char \<Rightarrow> ptr \<Rightarrow> ptr option" where
  "strchr_loop m ch s =
     (if m s \<noteq> NUL then if m s = ch then Some s else strchr_loop m ch (s + 1)
      else Some (if ch = NUL then s else 0))"

definition strchr :: "mem \<Rightarrow> ptr \<Rightarrow> int \<Rightarrow> ptr option" where
  "strchr m s c = strchr_loop m (char_of c) s"

partial_function (option) strrchr_loop :: "mem \<Rightarrow> char \<Rightarrow> ptr \<Rightarrow> ptr \<Rightarrow> ptr option" where
  "strrchr_loop m ch s found =
     (if m s \<noteq> NUL then strrchr_loop m ch (s + 1) (if m s = ch then s else found)
      else Some (if ch = NUL then s else found))"

definition strrchr :: "mem \<Rightarrow> ptr \<Rightarrow> int \<Rightarrow> ptr option" where
  "strrchr m s c = strrchr_loop m (char_of c) s 0"

function strncpy_loop :: "ptr \<Rightarrow> ptr \<Rightarrow> nat \<Rightarrow> nat \<Rightarrow> mem \<Rightarrow> nat \<times> mem" where
  "strncpy_loop dest src n i m =
     (if i < n \<and> m (at src i) \<noteq> NUL then strncpy_loop dest src n (Suc i) (copy_byte dest src i m)
      else (i, m))"
  by pat_completeness auto
termination
  by (relation "measure (\<lambda>(dest, src, n, i, m). n - i)") auto

definition strncpy :: "ptr \<Rightarrow> ptr \<Rightarrow> u64 \<Rightarrow> mem \<Rightarrow> mem" where
  "strncpy dest src n m =
     (let (i, m) = strncpy_loop dest src (unat n) 0 m
      in for_range i (unat n) (\<lambda>i m. m(at dest i := NUL)) m)"

definition strcat :: "ptr \<Rightarrow> ptr \<Rightarrow> mem \<Rightarrow> mem option" where
  "strcat dest src m =
     (case strlen_loop m dest 0 of
        None \<Rightarrow> None
      | Some dest_len \<Rightarrow> strcpy_loop (at dest dest_len) src 0 m)"

section \<open>Safe string functions\<close>

text \<open>The error code and the length stored through \<open>out_len\<close>, if it is stored.\<close>

definition safe_strlen :: "mem \<Rightarrow> ptr \<Rightarrow> u64 \<Rightarrow> ptr \<Rightarrow> int \<times> u64 option" where
  "safe_strlen m str max_len out_len =
     (if str = 0 \<or> out_len = 0 then (ENULLPTR, None)
      else if max_len = 0 then (EINVAL, None)
      else case find_from (\<lambda>i. m (at str i) = NUL) 0 (unat max_len) of
             Some len \<Rightarrow> (EOK, Some (of_nat len))
           | None \<Rightarrow> (ERANGE, None))"

text \<open>
  The bounded copy loop of \<open>safe_strcpy\<close>, \<open>safe_strncpy\<close> and \<open>safe_strcat\<close>: copies from
  index \<open>i\<close> up to \<open>lim\<close> and says whether the terminator was copied.
\<close>

function bounded_copy :: "ptr \<Rightarrow> ptr \<Rightarrow> nat \<Rightarrow> nat \<Rightarrow> mem \<Rightarrow> bool \<times> nat \<times> mem" where
  "bounded_copy dest src lim i m =
     (if i < lim
      then let m = copy_byte dest src i m
           in if m (at src i) = NUL then (True, i, m) else bounded_copy dest src lim (Suc i) m
      else (False, i, m))"
  by pat_completeness auto
termination
  by (relation "measure (\<lambda>(dest, src, lim, i, m). lim - i)") auto

declare bounded_copy.simps [simp del] strncpy_loop.simps [simp del]

definition safe_strcpy :: "ptr \<Rightarrow> u64 \<Rightarrow> ptr \<Rightarrow> mem \<Rightarrow> int \<times> mem" where
  "safe_strcpy dest dest_capacity src m =
     (if dest = 0 \<or> src = 0 then (ENULLPTR, m)
      else if dest_capacity = 0 then (EINVAL, m)
      else
        let (copied_all, i, m) = bounded_copy dest src (unat dest_capacity - 1) 0 m in
        if copied_all then (EOK, m)
        else
          let m = m(at dest (unat dest_capacity - 1) := NUL)
          in if m (at src i) \<noteq> NUL then (EOVERFLOW, m) else (EOK, m))"

definition safe_strncpy :: "ptr \<Rightarrow> u64 \<Rightarrow> ptr \<Rightarrow> u64 \<Rightarrow> mem \<Rightarrow> int \<times> mem" where
  "safe_strncpy dest dest_capacity src cnt m =
     (if dest = 0 \<or> src = 0 then (ENULLPTR, m)
      else if dest_capacity = 0 then (EINVAL, m)
      else
        let copy_len = (if cnt \<ge> dest_capacity then dest_capacity - 1 else cnt);
            (copied_all, i, m) = bounded_copy dest src (unat copy_len) 0 m
        in if copied_all then (EOK, m) else (EOK, m(at dest i := NUL)))"

definition safe_strcat :: "ptr \<Rightarrow> u64 \<Rightarrow> ptr \<Rightarrow> mem \<Rightarrow> int \<times> mem" where
  "safe_strcat dest dest_capacity src m =
     (if dest = 0 \<or> src = 0 then (ENULLPTR, m)
      else if dest_capacity = 0 then (EINVAL, m)
      else
        case find_from (\<lambda>i. m (at dest i) = NUL) 0 (unat dest_capacity) of
          None \<Rightarrow> (EOVERFLOW, m)
        | Some dest_len \<Rightarrow>
            let (copied_all, i, m) =
                  bounded_copy (at dest dest_len) src (unat dest_capacity - 1 - dest_len) 0 m
            in if copied_all then (EOK, m)
               else
                 let m = m(at dest (unat dest_capacity - 1) := NUL)
                 in if m (at src i) \<noteq> NUL then (EOVERFLOW, m) else (EOK, m))"

text \<open>The error code and the comparison result stored through \<open>result\<close>.\<close>

definition safe_strcmp :: "mem \<Rightarrow> ptr \<Rightarrow> ptr \<Rightarrow> ptr \<Rightarrow> (int \<times> int option) option" where
  "safe_strcmp m a b result =
     (if a = 0 \<or> b = 0 \<or> result = 0 then Some (ENULLPTR, None)
      else map_option (\<lambda>i. (EOK, Some (uchar (m (at a i)) - uchar (m (at b i))))) (strcmp_loop m a b 0))"

section \<open>Addresses and regions\<close>

definition bytes :: "ptr \<Rightarrow> nat \<Rightarrow> ptr set" where
  "bytes p n = at p ` {..<n}"

lemma at_0 [simp]: "at p 0 = p"
  by (simp add: at_def)

lemma at_at [simp]: "at (at p i) j = at p (i + j)"
  by (simp add: at_def add.assoc)

lemma at_inj:
  "i < 18446744073709551616 \<Longrightarrow> j < 18446744073709551616 \<Longrightarrow> at p i = at p j \<longleftrightarrow> i = j"
  by (simp add: at_def of_nat64_eq_iff)

lemma at_mem_bytes: "i < n \<Longrightarrow> at p i \<in> bytes p n"
  by (auto simp: bytes_def)

lemma at_mem_bytes_iff:
  "i < 18446744073709551616 \<Longrightarrow> n \<le> 18446744073709551616 \<Longrightarrow> at p i \<in> bytes p n \<longleftrightarrow> i < n"
  by (auto simp: bytes_def at_inj)

lemma bytes_Suc: "bytes p (Suc n) = insert (at p n) (bytes p n)"
  by (auto simp: bytes_def lessThan_Suc)

lemma bytes_simps:
  "bytes p 0 = {}" "bytes p (Suc n) = insert (at p n) (bytes p n)"
  "bytes p (numeral k) = insert (at p (pred_numeral k)) (bytes p (pred_numeral k))"
  by (simp_all add: bytes_Suc numeral_eq_Suc) (simp add: bytes_def)

lemma bytes_mono: "n \<le> k \<Longrightarrow> bytes p n \<subseteq> bytes p k"
  by (auto simp: bytes_def)

lemma bytes_at: "bytes (at p k) n \<subseteq> bytes p (k + n)"
  by (auto simp: bytes_def)

lemma unat_at: "unat p + i < 18446744073709551616 \<Longrightarrow> unat (at p i) = unat p + i"
  by (simp add: at_def unat64_plus_const)

text \<open>\<open>copied m m' d s n\<close>: \<open>m'\<close> is \<open>m\<close> with \<open>n\<close> bytes from \<open>s\<close> stored at \<open>d\<close>.\<close>

definition copied :: "mem \<Rightarrow> mem \<Rightarrow> ptr \<Rightarrow> ptr \<Rightarrow> nat \<Rightarrow> bool" where
  "copied m m' d s n \<longleftrightarrow> (\<forall>i < n. m' (at d i) = m (at s i)) \<and> (\<forall>a. a \<notin> bytes d n \<longrightarrow> m' a = m a)"

lemma copied_0 [simp]: "copied m m' d s 0 \<longleftrightarrow> m' = m"
  by (auto simp: copied_def bytes_def)

lemma copied_step:
  assumes "copied m t d s i" and "Suc i \<le> 18446744073709551616" and "t (at s i) = m (at s i)"
  shows "copied m (copy_byte d s i t) d s (Suc i)"
  using assms by (auto simp: copied_def copy_byte_def less_Suc_eq at_inj bytes_Suc)

lemma copy_forward:
  assumes "n \<le> 18446744073709551616" and "\<And>i j. j < i \<Longrightarrow> i < n \<Longrightarrow> at d j \<noteq> at s i"
  shows "copied m (for_range 0 n (copy_byte d s) m) d s n"
proof (rule for_range_rule [where P = "\<lambda>k t. copied m t d s k"])
  fix i t assume i: "i < n" and c: "copied m t d s i"
  have "at s i \<notin> bytes d i" using assms(2) [OF _ i] unfolding bytes_def by (metis imageE lessThan_iff)
  with c have "t (at s i) = m (at s i)" by (simp add: copied_def)
  with c i assms(1) show "copied m (copy_byte d s i t) d s (Suc i)"
    by (intro copied_step) auto
qed auto

lemma copy_backward:
  assumes "n \<le> 18446744073709551616" and "\<And>i j. i < j \<Longrightarrow> j < n \<Longrightarrow> at d j \<noteq> at s i"
  shows "copied m (for_down n (copy_byte d s) m) d s n"
  using assms
proof (induction n arbitrary: m)
  case 0
  then show ?case by simp
next
  case (Suc n)
  let ?m = "copy_byte d s n m"
  have IH: "copied ?m (for_down n (copy_byte d s) ?m) d s n" using Suc by simp
  have src: "?m (at s i) = m (at s i)" if "i < n" for i
    using Suc.prems(2) [OF that] by (auto simp: copy_byte_def)
  have last: "at d n \<notin> bytes d n" using Suc.prems(1) by (simp add: at_mem_bytes_iff)
  show ?case
    using IH src last
    by (auto simp: copied_def bytes_Suc less_Suc_eq) (auto simp: copy_byte_def)
qed

section \<open>Terminated strings\<close>

definition cstr_at :: "mem \<Rightarrow> ptr \<Rightarrow> string \<Rightarrow> bool" where
  "cstr_at m p s \<longleftrightarrow> length s < 18446744073709551616 \<and> NUL \<notin> set s \<and>
     (\<forall>i < length s. m (at p i) = s ! i) \<and> m (at p (length s)) = NUL"

lemma cstr_char:
  assumes "cstr_at m p s" and "i < length s"
  shows "m (at p i) = s ! i" and "m (at p i) \<noteq> NUL"
  using assms by (auto simp: cstr_at_def in_set_conv_nth)

lemma cstr_end: "cstr_at m p s \<Longrightarrow> m (at p (length s)) = NUL"
  by (simp add: cstr_at_def)

lemma cstr_nul_iff: "cstr_at m p s \<Longrightarrow> i \<le> length s \<Longrightarrow> m (at p i) = NUL \<longleftrightarrow> i = length s"
  using cstr_char(2) [of m p s i] cstr_end [of m p s] by (cases "i = length s") auto

lemma cstr_prefix:
  assumes "\<And>i. i < length s \<Longrightarrow> m (at p i) = s ! i" and "m (at p (length s)) = NUL"
    and "NUL \<notin> set s" and "length s < 18446744073709551616"
  shows "cstr_at m p s"
  using assms by (simp add: cstr_at_def)

lemma cstr_copied:
  assumes "cstr_at m src s" and "copied m m' d src (Suc (length s))"
  shows "cstr_at m' d s"
  using assms by (auto simp: copied_def cstr_at_def less_Suc_eq)

lemma cstr_tail: "cstr_at m p (c # s) \<Longrightarrow> cstr_at m (p + 1) s"
proof -
  assume c: "cstr_at m p (c # s)"
  have "at (p + 1) i = at p (Suc i)" for i by (simp add: at_def add.assoc)
  with c show ?thesis by (auto simp: cstr_at_def)
qed

lemma cstr_head: "cstr_at m p (c # s) \<Longrightarrow> m p = c \<and> c \<noteq> NUL" "cstr_at m p [] \<Longrightarrow> m p = NUL"
  using cstr_char [of m p "c # s" 0] cstr_end [of m p "[]"] by auto

section \<open>The loops on terminated strings\<close>

lemma strlen_loop_cstr:
  assumes "cstr_at m p s" and "i \<le> length s"
  shows "strlen_loop m p i = Some (length s)"
  using assms(2)
proof (induction i rule: inc_induct)
  case base
  with cstr_end [OF assms(1)] show ?case by (subst strlen_loop.simps) simp
next
  case (step i)
  with cstr_char(2) [OF assms(1)] show ?case by (subst strlen_loop.simps) simp
qed

lemma strlen_cstr: "cstr_at m p s \<Longrightarrow> strlen m p = Some (of_nat (length s))"
  by (simp add: strlen_def strlen_loop_cstr)

lemma copied_src:
  assumes "copied m t d src i" and "bytes d n \<inter> bytes src n' = {}" and "i \<le> n" and "k < n'"
  shows "t (at src k) = m (at src k)"
proof -
  have "at src k \<notin> bytes d i"
    using assms(2-4) bytes_mono [of i n d] at_mem_bytes [of k n' src] by blast
  with assms(1) show ?thesis by (simp add: copied_def)
qed

lemma strcpy_loop_cstr:
  assumes "cstr_at m src s" and "bytes d (Suc (length s)) \<inter> bytes src (Suc (length s)) = {}"
    and "i \<le> length s" and "copied m t d src i"
  shows "\<exists>m'. strcpy_loop d src i t = Some m' \<and> copied m m' d src (Suc (length s))"
  using assms(3,4)
proof (induction "length s - i" arbitrary: i t)
  case 0
  then have i: "i = length s" by simp
  have src: "t (at src i) = m (at src i)"
    using copied_src [OF 0(3) assms(2)] i by simp
  then have "t (at src i) = NUL" using cstr_end [OF assms(1)] i by simp
  then have "strcpy_loop d src i t = Some (copy_byte d src i t)"
    by (subst strcpy_loop.simps) (simp add: copy_byte_def Let_def)
  with copied_step [OF 0(3) _ src] assms(1) i show ?case by (simp add: cstr_at_def)
next
  case (Suc k)
  then have i: "i < length s" by simp
  have src: "t (at src i) = m (at src i)"
    using copied_src [OF Suc(4) assms(2)] i by simp
  then have "t (at src i) \<noteq> NUL" using cstr_char(2) [OF assms(1) i] by simp
  then have loop: "strcpy_loop d src i t = strcpy_loop d src (Suc i) (copy_byte d src i t)"
    by (subst strcpy_loop.simps) (simp add: copy_byte_def Let_def)
  have "copied m (copy_byte d src i t) d src (Suc i)"
    using copied_step [OF Suc(4) _ src] i assms(1) by (simp add: cstr_at_def)
  with Suc(1) [of "Suc i"] Suc(2) i show ?case unfolding loop by simp
qed

text \<open>Comparison of HOL strings as \<open>strcmp\<close> does it, with the terminator as the least byte.\<close>

fun strcmp_str :: "string \<Rightarrow> string \<Rightarrow> int" where
  "strcmp_str [] [] = 0"
| "strcmp_str [] (y # ys) = - uchar y"
| "strcmp_str (x # xs) [] = uchar x"
| "strcmp_str (x # xs) (y # ys) = (if x = y then strcmp_str xs ys else uchar x - uchar y)"

lemma uchar_NUL [simp]: "uchar NUL = 0"
  by (simp add: uchar_def)

lemma uchar_eq_iff: "uchar x = uchar y \<longleftrightarrow> x = y"
  by (simp add: uchar_def)

lemma uchar_nonneg: "0 \<le> uchar x"
  unfolding uchar_def by (metis of_nat_0_le_iff of_nat_of_char)

lemma uchar_pos: "NUL \<noteq> x \<Longrightarrow> 0 < uchar x"
  using uchar_eq_iff [of x NUL] uchar_nonneg [of x] by auto

lemma strcmp_str_index:
  "\<exists>k \<le> length s. k \<le> length t \<and> (\<forall>i < k. s ! i = t ! i) \<and>
     (k = length s \<or> (s @ [NUL]) ! k \<noteq> (t @ [NUL]) ! k) \<and>
     strcmp_str s t = uchar ((s @ [NUL]) ! k) - uchar ((t @ [NUL]) ! k)"
  if "NUL \<notin> set s" and "NUL \<notin> set t"
  using that
proof (induction s t rule: strcmp_str.induct)
  case (4 x xs y ys)
  show ?case
  proof (cases "x = y")
    case True
    with 4 obtain k where k: "k \<le> length xs" "k \<le> length ys" "\<forall>i < k. xs ! i = ys ! i"
        "k = length xs \<or> (xs @ [NUL]) ! k \<noteq> (ys @ [NUL]) ! k"
        "strcmp_str xs ys = uchar ((xs @ [NUL]) ! k) - uchar ((ys @ [NUL]) ! k)"
      by auto
    then show ?thesis using True by (intro exI [of _ "Suc k"]) (auto simp: less_Suc_eq_0_disj)
  next
    case False
    then show ?thesis by (intro exI [of _ 0]) simp
  qed
qed auto

lemma cstr_nth: "cstr_at m p s \<Longrightarrow> i \<le> length s \<Longrightarrow> m (at p i) = (s @ [NUL]) ! i"
  by (auto simp: cstr_at_def nth_append)

lemma strcmp_loop_stops:
  assumes "\<And>i. i < k \<Longrightarrow> m (at a i) \<noteq> NUL \<and> m (at a i) = m (at b i)"
    and "m (at a k) = NUL \<or> m (at a k) \<noteq> m (at b k)" and "i \<le> k"
  shows "strcmp_loop m a b i = Some k"
  using assms(3)
proof (induction i rule: inc_induct)
  case base
  with assms(2) show ?case by (subst strcmp_loop.simps) auto
next
  case (step i)
  then show ?case using assms(1) [of i] by (subst strcmp_loop.simps) auto
qed

lemma strcmp_cstr:
  assumes "cstr_at m a s" and "cstr_at m b t"
  shows "strcmp m a b = Some (strcmp_str s t)"
proof -
  have "NUL \<notin> set s" "NUL \<notin> set t" using assms by (auto simp: cstr_at_def)
  from strcmp_str_index [OF this] obtain k where k: "k \<le> length s" "k \<le> length t"
      "\<forall>i < k. s ! i = t ! i" "k = length s \<or> (s @ [NUL]) ! k \<noteq> (t @ [NUL]) ! k"
      "strcmp_str s t = uchar ((s @ [NUL]) ! k) - uchar ((t @ [NUL]) ! k)"
    by blast
  have "strcmp_loop m a b 0 = Some k"
    using k cstr_char [OF assms(1)] cstr_char [OF assms(2)]
    by (intro strcmp_loop_stops) (auto simp: cstr_nth [OF assms(1)] cstr_nth [OF assms(2)])
  then show ?thesis
    using k by (simp add: strcmp_def cstr_nth [OF assms(1)] cstr_nth [OF assms(2)])
qed

lemma strcmp_str_0_iff:
  "NUL \<notin> set s \<Longrightarrow> NUL \<notin> set t \<Longrightarrow> strcmp_str s t = 0 \<longleftrightarrow> s = t"
  by (induction s t rule: strcmp_str.induct)
    (auto simp: uchar_eq_iff less_imp_neq [OF uchar_pos, symmetric])

lemma strcmp_str_neg_iff:
  "NUL \<notin> set s \<Longrightarrow> NUL \<notin> set t \<Longrightarrow>
     strcmp_str s t < 0 \<longleftrightarrow> ord_class.lexordp (map uchar s) (map uchar t)"
proof (induction s t rule: strcmp_str.induct)
  case (4 x xs y ys)
  then show ?case using uchar_eq_iff [of x y] by auto
qed (auto simp: uchar_pos uchar_nonneg not_less)

lemma bounded_copy_cstr:
  assumes "cstr_at m src s" and "bytes d lim \<inter> bytes src (Suc (length s)) = {}"
    and "lim \<le> 18446744073709551616" and "i \<le> length s" and "i \<le> lim" and "copied m t d src i"
  shows "\<exists>m'. bounded_copy d src lim i t = (length s < lim, min (length s) lim, m') \<and>
    copied m m' d src (min (Suc (length s)) lim)"
  using assms(4-6)
proof (induction "lim - i" arbitrary: i t)
  case 0
  then have "i = lim" by simp
  with 0 show ?case by (subst bounded_copy.simps) (simp add: min_def)
next
  case (Suc k)
  then have i: "i < lim" by simp
  let ?t = "copy_byte d src i t"
  have src: "t (at src i) = m (at src i)"
    using copied_src [OF Suc(5) assms(2)] i Suc(3) by simp
  have c: "copied m ?t d src (Suc i)" using copied_step [OF Suc(5) _ src] i assms(3) by simp
  have nul: "?t (at src i) = NUL \<longleftrightarrow> i = length s"
    using copied_src [OF c assms(2), of i] i Suc(3) cstr_nul_iff [OF assms(1)] by simp
  show ?case
  proof (cases "i = length s")
    case True
    then show ?thesis using i nul c by (subst bounded_copy.simps) (simp add: Let_def min_def)
  next
    case False
    then have "bounded_copy d src lim i t = bounded_copy d src lim (Suc i) ?t"
      using i nul by (subst bounded_copy.simps) (simp add: Let_def)
    with Suc(1) [of "Suc i" ?t] Suc(2,3) i c False show ?thesis by simp
  qed
qed

lemma strncpy_loop_cstr:
  assumes "cstr_at m src s" and "bytes d n \<inter> bytes src (Suc (length s)) = {}"
    and "n \<le> 18446744073709551616" and "i \<le> length s" and "i \<le> n" and "copied m t d src i"
  shows "\<exists>m'. strncpy_loop d src n i t = (min (length s) n, m') \<and>
    copied m m' d src (min (length s) n)"
  using assms(4-6)
proof (induction "n - i" arbitrary: i t)
  case 0
  then have "i = n" by simp
  with 0 show ?case by (subst strncpy_loop.simps) (simp add: min_def)
next
  case (Suc k)
  then have i: "i < n" by simp
  have src: "t (at src i) = m (at src i)"
    using copied_src [OF Suc(5) assms(2)] i Suc(3) by simp
  then have nul: "t (at src i) = NUL \<longleftrightarrow> i = length s"
    using cstr_nul_iff [OF assms(1) Suc(3)] by simp
  show ?case
  proof (cases "i = length s")
    case True
    then show ?thesis using i nul Suc(5) by (subst strncpy_loop.simps) (simp add: min_def)
  next
    case False
    have "copied m (copy_byte d src i t) d src (Suc i)"
      using copied_step [OF Suc(5) _ src] i assms(3) by simp
    moreover have "strncpy_loop d src n i t = strncpy_loop d src n (Suc i) (copy_byte d src i t)"
      using False i nul by (subst strncpy_loop.simps) simp
    ultimately show ?thesis using Suc(1) [of "Suc i" "copy_byte d src i t"] Suc(2,3) i False by simp
  qed
qed

lemma fill_range:
  fixes m :: mem
  assumes "k \<le> n" and "n \<le> 18446744073709551616"
    and "m' = for_range k n (\<lambda>i m. m(at d i := c)) m"
  shows "i < n \<Longrightarrow> m' (at d i) = (if k \<le> i then c else m (at d i))" and "a \<notin> bytes d n \<Longrightarrow> m' a = m a"
proof -
  let ?P = "\<lambda>j t. (\<forall>i < n. t (at d i) = (if k \<le> i \<and> i < j then c else m (at d i))) \<and>
    (\<forall>a. a \<notin> bytes d n \<longrightarrow> t a = m a)"
  have "?P n m'"
    unfolding assms(3)
    by (rule for_range_rule [where P = ?P])
      (use assms(1,2) in \<open>auto simp: at_inj less_Suc_eq bytes_def\<close>)
  then show "i < n \<Longrightarrow> m' (at d i) = (if k \<le> i then c else m (at d i))" "a \<notin> bytes d n \<Longrightarrow> m' a = m a"
    by auto
qed

text \<open>Bounded comparison and searches.\<close>

lemma memcmp_0_iff: "memcmp m a b n = 0 \<longleftrightarrow> (\<forall>i < unat n. m (at a i) = m (at b i))"
  by (auto simp: memcmp_def find_from_Some_iff find_from_None_iff uchar_eq_iff split: option.splits)

lemma memchr_0_or_found:
  assumes "memchr m p c n \<noteq> 0"
  shows "\<exists>i < unat n. memchr m p c n = at p i \<and> m (at p i) = char_of c \<and> (\<forall>j < i. m (at p j) \<noteq> char_of c)"
proof (cases "find_from (\<lambda>i. m (at p i) = char_of c) 0 (unat n)")
  case None
  with assms show ?thesis by (simp add: memchr_def)
next
  case (Some i)
  then have "memchr m p c n = at p i" by (simp add: memchr_def)
  with Some show ?thesis by (auto simp: find_from_Some_iff)
qed

lemma strncmp_0_iff:
  assumes "cstr_at m a s" and "cstr_at m b t"
  shows "strncmp m a b n = 0 \<longleftrightarrow> take (unat n) s = take (unat n) t"
proof (cases "find_from (\<lambda>i. m (at a i) \<noteq> m (at b i) \<or> m (at a i) = NUL) 0 (unat n)")
  case None
  then have same: "m (at a i) = m (at b i)" "m (at a i) \<noteq> NUL" "m (at b i) \<noteq> NUL" if "i < unat n" for i
    using that by (auto simp: find_from_None_iff)
  have len: "unat n \<le> length s" "unat n \<le> length t"
    using same(2) [of "length s"] same(3) [of "length t"] cstr_end [OF assms(1)] cstr_end [OF assms(2)]
    by (auto simp: not_less [symmetric])
  have "take (unat n) s = take (unat n) t"
    using len same(1) cstr_char(1) [OF assms(1)] cstr_char(1) [OF assms(2)]
    by (intro nth_equalityI) simp_all
  then show ?thesis unfolding strncmp_def None by simp
next
  case (Some i)
  then have i: "i < unat n" and stop: "m (at a i) \<noteq> m (at b i) \<or> m (at a i) = NUL"
    and before: "\<And>j. j < i \<Longrightarrow> m (at a j) = m (at b j)" "\<And>j. j < i \<Longrightarrow> m (at a j) \<noteq> NUL"
    by (auto simp: find_from_Some_iff)
  have len: "i \<le> length s" "i \<le> length t"
    using before(2) [of "length s"] before [of "length t"] cstr_end [OF assms(1)] cstr_end [OF assms(2)]
    by (auto simp: not_less [symmetric])
  have eq: "take i s = take i t"
    using len before(1) cstr_char(1) [OF assms(1)] cstr_char(1) [OF assms(2)]
    by (intro nth_equalityI) simp_all
  show ?thesis
  proof (cases "m (at a i) = m (at b i)")
    case True
    then have "i = length s" "i = length t"
      using stop cstr_nul_iff [OF assms(1) len(1)] cstr_nul_iff [OF assms(2) len(2)] by auto
    with eq i have "take (unat n) s = take (unat n) t" by simp
    with True show ?thesis unfolding strncmp_def Some by simp
  next
    case False
    have "take (Suc i) s \<noteq> take (Suc i) t"
    proof
      assume same: "take (Suc i) s = take (Suc i) t"
      then have "length (take (Suc i) s) = length (take (Suc i) t)" by simp
      then have "i < length s \<longleftrightarrow> i < length t" using len by (auto simp: min_def split: if_splits)
      moreover have "s ! i = t ! i" if "i < length s" using arg_cong [OF same, of "\<lambda>l. l ! i"] by simp
      ultimately have "(s @ [NUL]) ! i = (t @ [NUL]) ! i" using len by (auto simp: nth_append)
      with False show False using len by (simp add: cstr_nth [OF assms(1)] cstr_nth [OF assms(2)])
    qed
    with i have "take (unat n) s \<noteq> take (unat n) t"
      by (metis Suc_leI min.absorb1 take_take)
    with False show ?thesis unfolding strncmp_def Some by (simp add: uchar_eq_iff)
  qed
qed

lemma strchr_loop_cstr:
  "cstr_at m p s \<Longrightarrow> ch \<noteq> NUL \<Longrightarrow>
     strchr_loop m ch p = Some (if ch \<in> set s then at p (length (takeWhile (\<lambda>x. x \<noteq> ch) s)) else 0)"
proof (induction s arbitrary: p)
  case Nil
  then show ?case using cstr_head(2) by (subst strchr_loop.simps) auto
next
  case (Cons x s)
  have shift: "at (p + 1) k = at p (Suc k)" for k by (simp add: at_def add.assoc)
  have "m p = x" "x \<noteq> NUL" using cstr_head(1) [OF Cons.prems(1)] by simp_all
  with Cons.IH [OF cstr_tail [OF Cons.prems(1)] Cons.prems(2)] show ?case
    by (subst strchr_loop.simps) (auto simp: shift)
qed

lemma bounded_store:
  assumes "cstr_at m src s" and "Suc lim < 18446744073709551616"
    and "bytes d (Suc lim) \<inter> bytes src (Suc (length s)) = {}"
    and "bounded_copy d src lim 0 m = (full, i, t)" and "m' = (if full then t else t(at d lim := NUL))"
  shows "full \<longleftrightarrow> length s < lim" and "cstr_at m' d (take lim s)"
    and "a \<notin> bytes d (Suc lim) \<Longrightarrow> m' a = m a" and "\<not> full \<Longrightarrow> m' (at src i) = NUL \<longleftrightarrow> length s < Suc lim"
proof -
  have dis: "bytes d lim \<inter> bytes src (Suc (length s)) = {}" using assms(3) by (auto simp: bytes_Suc)
  have res: "full \<longleftrightarrow> length s < lim" "i = min (length s) lim" "copied m t d src (min (Suc (length s)) lim)"
    using bounded_copy_cstr [OF assms(1) dis, of 0 m] assms(2,4) by auto
  show "full \<longleftrightarrow> length s < lim" by (rule res(1))
  have "cstr_at m' d (take lim s) \<and> (a \<notin> bytes d (Suc lim) \<longrightarrow> m' a = m a) \<and>
    (\<not> full \<longrightarrow> (m' (at src i) = NUL \<longleftrightarrow> length s < Suc lim))"
  proof (cases "length s < lim")
    case True
    then have c: "copied m t d src (Suc (length s))" using res(3) by (simp add: min_def)
    have "a \<notin> bytes d (Suc lim) \<longrightarrow> t a = m a"
      using c True bytes_mono [of "Suc (length s)" "Suc lim" d] by (auto simp: copied_def)
    with cstr_copied [OF assms(1) c] True assms(5) res(1) show ?thesis by simp
  next
    case False
    have c: "copied m t d src lim" using res(3) False by (simp add: min_def)
    have i: "i = lim" using res(2) False by simp
    have ne: "at src lim \<noteq> at d lim"
      using assms(3) False at_mem_bytes [of lim "Suc (length s)" src] by (auto simp: bytes_Suc)
    have "t (at src lim) = m (at src lim)" using copied_src [OF c dis] False by simp
    moreover have "cstr_at (t(at d lim := NUL)) d (take lim s)"
      using c cstr_char(1) [OF assms(1)] assms(1,2) False
      by (intro cstr_prefix) (auto simp: copied_def at_inj cstr_at_def dest: in_set_takeD)
    moreover have "m (at src lim) = NUL \<longleftrightarrow> length s < Suc lim"
      using cstr_nul_iff [OF assms(1), of lim] False by auto
    ultimately show ?thesis
      using c False res(1) ne assms(5) i by (auto simp: bytes_Suc copied_def)
  qed
  then show "cstr_at m' d (take lim s)" "a \<notin> bytes d (Suc lim) \<Longrightarrow> m' a = m a"
    "\<not> full \<Longrightarrow> m' (at src i) = NUL \<longleftrightarrow> length s < Suc lim"
    by auto
qed

lemma cstr_append:
  assumes "\<And>i. i < length t \<Longrightarrow> m (at d i) = t ! i" and "NUL \<notin> set t"
    and "cstr_at m (at d (length t)) s" and "length t + length s < 18446744073709551616"
  shows "cstr_at m d (t @ s)"
proof (rule cstr_prefix)
  show "m (at d i) = (t @ s) ! i" if "i < length (t @ s)" for i
    using that assms(1) cstr_char(1) [OF assms(3), of "i - length t"] by (auto simp: nth_append)
  show "m (at d (length (t @ s))) = NUL" using cstr_end [OF assms(3)] by simp
  show "NUL \<notin> set (t @ s)" "length (t @ s) < 18446744073709551616"
    using assms(2-4) by (auto simp: cstr_at_def)
qed

section \<open>Properties\<close>

text \<open>
  \<open>memmove\<close> copies correctly whatever the overlap: for regions that do not wrap around the
  address space, afterwards the destination holds the bytes the source held before the call, and
  every byte outside the destination is unchanged.
\<close>

theorem memmove_correct:
  assumes "unat d + unat n \<le> 18446744073709551616" and "unat s + unat n \<le> 18446744073709551616"
  shows "(\<forall>i < unat n. memmove d s n m (at d i) = m (at s i)) \<and>
    (\<forall>a. a \<notin> bytes d (unat n) \<longrightarrow> memmove d s n m a = m a)"
proof -
  have n: "unat n \<le> 18446744073709551616" using unat64_lt [of n] by linarith
  have addr: "unat (at d i) = unat d + i" "unat (at s i) = unat s + i" if "i < unat n" for i
    using that assms by (simp_all add: unat_at)
  consider "d < s" | "s < d" | "d = s" by fastforce
  then have "copied m (memmove d s n m) d s (unat n)"
  proof cases
    case 1
    have "at d j \<noteq> at s i" if "j < i" "i < unat n" for i j
      using that 1 addr(1) [of j] addr(2) [of i] by (auto simp: word_less_nat_alt)
    from copy_forward [OF n this] 1 show ?thesis by (simp add: memmove_def)
  next
    case 2
    have "at d j \<noteq> at s i" if "i < j" "j < unat n" for i j
      using that 2 addr(1) [of j] addr(2) [of i] by (auto simp: word_less_nat_alt)
    from copy_backward [OF n this] 2 show ?thesis by (auto simp: memmove_def)
  next
    case 3
    then show ?thesis by (simp add: memmove_def copied_def)
  qed
  then show ?thesis by (simp add: copied_def)
qed

theorem memmove_correct_witness:
  "memmove 0x1001 0x1000 3 (\<lambda>a. char_of (unat a)) 0x1003 = char_of (0x1002 :: nat) \<and>
   memmove 0x1001 0x1000 3 (\<lambda>a. char_of (unat a)) 0x1000 = char_of (0x1000 :: nat)"
proof -
  let ?m = "\<lambda>a. char_of (unat (a :: ptr)) :: char"
  have "\<forall>i < unat (3 :: u64). memmove 0x1001 0x1000 3 ?m (at 0x1001 i) = ?m (at 0x1000 i)"
    and "\<forall>a. a \<notin> bytes 0x1001 (unat (3 :: u64)) \<longrightarrow> memmove 0x1001 0x1000 3 ?m a = ?m a"
    using memmove_correct [of "0x1001" 3 "0x1000" ?m] by simp_all
  from this(1) [rule_format, of 2] this(2) [rule_format, of "0x1000"] show ?thesis
    by (simp_all add: at_def bytes_simps)
qed

text \<open>
  \<open>strcmp\<close> returns on terminated strings, with 0 exactly for equal strings and a negative
  number exactly when the first string precedes the second in the lexicographic order of unsigned
  bytes.
\<close>

theorem strcmp_order:
  assumes "cstr_at m a s" and "cstr_at m b t"
  shows "\<exists>r. strcmp m a b = Some r \<and> (r = 0 \<longleftrightarrow> s = t) \<and>
    (r < 0 \<longleftrightarrow> ord_class.lexordp (map uchar s) (map uchar t))"
proof -
  have "NUL \<notin> set s" "NUL \<notin> set t" using assms by (auto simp: cstr_at_def)
  with strcmp_cstr [OF assms] show ?thesis by (simp add: strcmp_str_0_iff strcmp_str_neg_iff)
qed

definition demo_mem :: mem where
  "demo_mem = (\<lambda>_. NUL)(0x10 := CHR ''a'', 0x11 := CHR ''b'', 0x20 := CHR ''a'', 0x21 := CHR ''c'')"

lemma demo_strings: "cstr_at demo_mem 0x10 ''ab''" "cstr_at demo_mem 0x20 ''ac''"
  by (auto simp: cstr_at_def demo_mem_def at_def less_Suc_eq)

theorem strcmp_order_witness:
  "\<exists>r. strcmp demo_mem 0x10 0x20 = Some r \<and> (r = 0 \<longleftrightarrow> ''ab'' = ''ac'') \<and>
    (r < 0 \<longleftrightarrow> ord_class.lexordp (map uchar ''ab'') (map uchar ''ac''))"
  by (rule strcmp_order [OF demo_strings])

text \<open>
  The idiom by which the kernel fills a fixed character field, \<open>strncpy\<close> of \<open>n\<close> bytes
  followed by a terminator at index \<open>n\<close>, leaves in the field the source string cut to \<open>n\<close>
  characters, and writes nothing beyond the \<open>n + 1\<close> bytes of the field.
\<close>

theorem strncpy_field:
  assumes "cstr_at m src s" and "unat n + 1 < 18446744073709551616"
    and "bytes d (unat n + 1) \<inter> bytes src (length s + 1) = {}"
  shows "cstr_at ((strncpy d src n m)(at d (unat n) := NUL)) d (take (unat n) s) \<and>
    (\<forall>a. a \<notin> bytes d (unat n + 1) \<longrightarrow> ((strncpy d src n m)(at d (unat n) := NUL)) a = m a)"
proof -
  let ?N = "unat n" and ?k = "min (length s) (unat n)"
  have dis: "bytes d ?N \<inter> bytes src (Suc (length s)) = {}"
    using assms(3) bytes_mono [of ?N "?N + 1" d] by auto
  obtain t where t: "strncpy_loop d src ?N 0 m = (?k, t)" "copied m t d src ?k"
    using strncpy_loop_cstr [OF assms(1) dis, of 0 m] assms(2) by auto
  let ?m' = "for_range ?k ?N (\<lambda>i m. m(at d i := NUL)) t"
  have m': "strncpy d src n m = ?m'" using t by (simp add: strncpy_def)
  have le: "?k \<le> ?N" "?N \<le> 18446744073709551616" using assms(2) by auto
  note fill = fill_range [OF le refl, where d = d and c = NUL and m = t]
  have copy: "?m' (at d i) = s ! i" if "i < ?k" for i
    using that fill(1) [of i] t(2) cstr_char(1) [OF assms(1), of i] by (auto simp: copied_def)
  have pad: "?m' (at d i) = NUL" if "?k \<le> i" "i < ?N" for i
    using fill(1) [OF that(2)] unfolding if_P [OF that(1)] .
  have last: "at d i \<noteq> at d ?N" if "i < ?N" for i
    using that assms(2) by (simp add: at_inj)
  have len: "length (take ?N s) = ?k" by (simp add: min_def)
  have "cstr_at (?m'(at d ?N := NUL)) d (take ?N s)"
  proof (rule cstr_prefix)
    show "(?m'(at d ?N := NUL)) (at d i) = take ?N s ! i" if "i < length (take ?N s)" for i
      using that copy last by simp
    show "(?m'(at d ?N := NUL)) (at d (length (take ?N s))) = NUL"
      unfolding len using pad [of ?k] by (cases "?k = ?N") (simp_all add: last)
    show "NUL \<notin> set (take ?N s)" using assms(1) by (auto simp: cstr_at_def dest: in_set_takeD)
    show "length (take ?N s) < 18446744073709551616" unfolding len using assms(2) by simp
  qed
  moreover have "(?m'(at d ?N := NUL)) a = m a" if "a \<notin> bytes d (?N + 1)" for a
    using that fill(2) [of a] t(2) bytes_mono [of ?k ?N d] by (auto simp: bytes_Suc copied_def)
  ultimately show ?thesis unfolding m' by blast
qed

theorem strncpy_field_witness:
  "cstr_at ((strncpy 0x40 0x10 1 demo_mem)(0x41 := NUL)) 0x40 ''a'' \<and>
   ((strncpy 0x40 0x10 1 demo_mem)(0x41 := NUL)) 0x42 = demo_mem 0x42"
proof -
  have "cstr_at ((strncpy 0x40 0x10 1 demo_mem)(at 0x40 (unat (1 :: u64)) := NUL)) 0x40 (take (unat (1 :: u64)) ''ab'') \<and>
   (\<forall>a. a \<notin> bytes 0x40 (unat (1 :: u64) + 1) \<longrightarrow>
     ((strncpy 0x40 0x10 1 demo_mem)(at 0x40 (unat (1 :: u64)) := NUL)) a = demo_mem a)"
    by (rule strncpy_field [OF demo_strings(1)]) (simp_all add: bytes_simps at_def)
  then show ?thesis by (auto simp: at_def bytes_simps)
qed

text \<open>
  \<open>safe_strcpy\<close> keeps its promise: with non-null pointers, a positive capacity and a
  destination apart from the source, it stores the source cut to capacity minus one characters
  and terminated, writes no byte outside the destination, and returns \<open>EOK\<close> exactly when the
  whole string fitted and \<open>EOVERFLOW\<close> otherwise.
\<close>

theorem safe_strcpy_spec:
  assumes "d \<noteq> 0" and "src \<noteq> 0" and "cap \<noteq> 0" and "cstr_at m src s"
    and "bytes d (unat cap) \<inter> bytes src (length s + 1) = {}"
  shows "\<exists>m'. safe_strcpy d cap src m = (if length s < unat cap then EOK else EOVERFLOW, m') \<and>
    cstr_at m' d (take (unat cap - 1) s) \<and> (\<forall>a. a \<notin> bytes d (unat cap) \<longrightarrow> m' a = m a)"
proof -
  define lim where "lim = unat cap - 1"
  have "unat cap \<noteq> 0" using assms(3) by (simp add: unat_eq_0)
  then have N: "unat cap = Suc lim" "Suc lim < 18446744073709551616"
    using unat64_lt [of cap] unfolding lim_def by linarith+
  obtain full i t where copy: "bounded_copy d src lim 0 m = (full, i, t)"
    by (cases "bounded_copy d src lim 0 m")
  define m' where "m' = (if full then t else t(at d lim := NUL))"
  have dis: "bytes d (Suc lim) \<inter> bytes src (Suc (length s)) = {}" using assms(5) N(1) by simp
  note st = bounded_store [OF assms(4) N(2) dis copy m'_def]
  have "safe_strcpy d cap src m = (if length s < unat cap then EOK else EOVERFLOW, m')"
    using assms(1-3) N copy st(1,4) by (simp add: safe_strcpy_def m'_def)
  with st(2,3) N show ?thesis by auto
qed

theorem safe_strcpy_spec_witness:
  "\<exists>m'. safe_strcpy 0x40 2 0x10 demo_mem =
      (if length ''ab'' < unat (2 :: u64) then EOK else EOVERFLOW, m') \<and>
    cstr_at m' 0x40 (take (unat (2 :: u64) - 1) ''ab'') \<and>
    (\<forall>a. a \<notin> bytes 0x40 (unat (2 :: u64)) \<longrightarrow> m' a = demo_mem a)"
  by (rule safe_strcpy_spec [OF _ _ _ demo_strings(1)]) (simp_all add: bytes_simps at_def)

text \<open>
  \<open>safe_strcat\<close> appends as much as fits: a destination that holds \<open>t\<close>, terminated within
  its capacity, afterwards holds \<open>t\<close> and the longest prefix of the source that fits with its
  terminator, the result is \<open>EOK\<close> exactly when everything fitted, and no byte outside the
  destination is written.
\<close>

theorem safe_strcat_spec:
  assumes "d \<noteq> 0" and "src \<noteq> 0" and "cstr_at m d t" and "length t < unat cap" and "cstr_at m src s"
    and "bytes d (unat cap) \<inter> bytes src (length s + 1) = {}"
  shows "\<exists>m'. safe_strcat d cap src m =
      (if length t + length s < unat cap then EOK else EOVERFLOW, m') \<and>
    cstr_at m' d (t @ take (unat cap - 1 - length t) s) \<and>
    (\<forall>a. a \<notin> bytes d (unat cap) \<longrightarrow> m' a = m a)"
proof -
  define lim where "lim = unat cap - 1 - length t"
  define e where "e = at d (length t)"
  have N: "unat cap = Suc (length t + lim)" "Suc (length t + lim) < 18446744073709551616"
    using assms(4) unat64_lt [of cap] unfolding lim_def by linarith+
  have cap: "cap \<noteq> 0" using assms(4) by (auto simp: unat_eq_0)
  have sub: "bytes e (Suc lim) \<subseteq> bytes d (unat cap)"
    using bytes_at [of d "length t" "Suc lim"] N by (simp add: e_def)
  then have dis: "bytes e (Suc lim) \<inter> bytes src (Suc (length s)) = {}" using assms(6) by auto
  have find: "find_from (\<lambda>i. m (at d i) = NUL) 0 (unat cap) = Some (length t)"
    using assms(4) cstr_end [OF assms(3)] cstr_char(2) [OF assms(3)] by (auto simp: find_from_Some_iff)
  obtain full i u where copy: "bounded_copy e src lim 0 m = (full, i, u)"
    by (cases "bounded_copy e src lim 0 m")
  define m' where "m' = (if full then u else u(at e lim := NUL))"
  have lim: "Suc lim < 18446744073709551616" using N(2) by simp
  note st = bounded_store [OF assms(5) lim dis copy m'_def]
  have last: "at e lim = at d (unat cap - 1)" using N(1) by (simp add: e_def)
  have "safe_strcat d cap src m = (if length t + length s < unat cap then EOK else EOVERFLOW, m')"
    using assms(1,2) cap N(1) copy st(1,4) find last
    by (simp add: safe_strcat_def m'_def e_def [symmetric] lim_def [symmetric])
  moreover have "at d i \<notin> bytes e (Suc lim)" if "i < length t" for i
    using that N(2) by (auto simp: bytes_def e_def at_inj)
  then have "cstr_at m' d (t @ take lim s)"
    using st(2,3) cstr_char(1) [OF assms(3)] assms(3) N(2)
    by (intro cstr_append) (auto simp: e_def cstr_at_def)
  moreover have "m' a = m a" if "a \<notin> bytes d (unat cap)" for a
    using that sub st(3) [of a] by blast
  ultimately show ?thesis unfolding lim_def by blast
qed

theorem safe_strcat_spec_witness:
  "\<exists>m'. safe_strcat 0x10 4 0x20 demo_mem =
      (if length ''ab'' + length ''ac'' < unat (4 :: u64) then EOK else EOVERFLOW, m') \<and>
    cstr_at m' 0x10 (''ab'' @ take (unat (4 :: u64) - 1 - length ''ab'') ''ac'') \<and>
    (\<forall>a. a \<notin> bytes 0x10 (unat (4 :: u64)) \<longrightarrow> m' a = demo_mem a)"
  by (rule safe_strcat_spec [OF _ _ demo_strings(1) _ demo_strings(2)])
    (simp_all add: bytes_simps at_def)

end
