(* ===== verification/SPM.thy ===== *)
theory SPM
  imports KLog CString "HOL-Library.Sublist"
begin

text \<open>
  The security policy manager of \<open>src/kernel/spm/spm.c\<close>: the user table, the capability table
  and the permission check. The arrays \<open>users\<close> and \<open>caps\<close> are only read below their counters
  and only grow, so they are the lists of their first \<open>user_count\<close> and \<open>cap_count\<close> entries. A
  character field holds the string it was filled with, cut to the field as
  \<open>strncpy_field\<close> shows; \<open>strcmp\<close> and \<open>strncmp\<close> are used for equality only and are equality of
  strings and of prefixes (\<open>strcmp_str_0_iff\<close>, \<open>strncmp_0_iff\<close>). A string pointer that the code
  compares with null is an option.
\<close>

section \<open>State\<close>

definition PERM_ALL :: u32 where "PERM_ALL = 0xFF"
definition SPM_TARGET_MAX :: nat where "SPM_TARGET_MAX = 256"
definition SPM_NAME_MAX :: nat where "SPM_NAME_MAX = 64"
definition SPM_PASS_MAX :: nat where "SPM_PASS_MAX = 64"
definition SPM_MAX_USERS :: nat where "SPM_MAX_USERS = 64"
definition SPM_MAX_CAPS :: nat where "SPM_MAX_CAPS = 256"

record spm_user =
  user_uid :: u32
  user_name :: string
  user_password :: string
  user_active :: bool

record spm_capability =
  cap_uid :: u32
  cap_perm :: u32
  cap_target :: string
  cap_active :: bool

record spm_state =
  users :: "spm_user list"
  caps :: "spm_capability list"
  spm_log :: "klog_event list"

section \<open>Target patterns\<close>

definition target_matches :: "string option \<Rightarrow> string option \<Rightarrow> bool" where
  "target_matches pattern target =
     (case (pattern, target) of
        (Some pat, Some t) \<Rightarrow>
          (if pat = ''*'' then True
           else
             let plen = length pat in
             if plen \<ge> 2 \<and> pat ! (plen - 1) = CHR ''*'' \<and> pat ! (plen - 2) = CHR ''/''
             then
               let prefix_len = plen - 1
               in length t \<ge> prefix_len \<and> take prefix_len pat = take prefix_len t
             else pat = t)
      | _ \<Rightarrow> False)"

section \<open>Users\<close>

text \<open>The index of the user, in place of the pointer into the array.\<close>

definition spm_find_user :: "u32 \<Rightarrow> spm_state \<Rightarrow> nat option" where
  "spm_find_user uid s =
     find_from (\<lambda>i. user_active (users s ! i) \<and> user_uid (users s ! i) = uid) 0 (length (users s))"

definition spm_add_user :: "u32 \<Rightarrow> string option \<Rightarrow> spm_state \<Rightarrow> int \<times> spm_state" where
  "spm_add_user uid name s =
     (case name of
        None \<Rightarrow> (- 1, s)
      | Some nm \<Rightarrow>
          if nm = [] then (- 1, s)
          else if length (users s) \<ge> SPM_MAX_USERS then (- 1, s)
          else if spm_find_user uid s \<noteq> None then (- 1, s)
          else if find_from (\<lambda>i. user_active (users s ! i) \<and> user_name (users s ! i) = nm) 0
                    (length (users s)) \<noteq> None then (- 1, s)
          else
            (0, s\<lparr>users := users s @ [\<lparr>user_uid = uid, user_name = take (SPM_NAME_MAX - 1) nm,
                    user_password = [], user_active = True\<rparr>]\<rparr>))"

definition spm_user_count :: "spm_state \<Rightarrow> nat" where
  "spm_user_count s = length (users s)"

text \<open>The entry copied through a non-null \<open>out\<close>.\<close>

definition spm_get_user :: "int \<Rightarrow> bool \<Rightarrow> spm_state \<Rightarrow> spm_user option" where
  "spm_get_user index out s =
     (if \<not> out \<or> index < 0 \<or> index \<ge> int (length (users s)) then None
      else Some (users s ! nat index))"

definition spm_set_password :: "u32 \<Rightarrow> string option \<Rightarrow> spm_state \<Rightarrow> int \<times> spm_state" where
  "spm_set_password uid password s =
     (case password of
        None \<Rightarrow> (- 1, s)
      | Some pw \<Rightarrow>
          (case spm_find_user uid s of
             None \<Rightarrow> (- 1, s)
           | Some i \<Rightarrow>
               (0, s\<lparr>users := (users s)[i := (users s ! i)\<lparr>user_password := take (SPM_PASS_MAX - 1) pw\<rparr>]\<rparr>)))"

definition spm_auth_user :: "u32 \<Rightarrow> string option \<Rightarrow> spm_state \<Rightarrow> int" where
  "spm_auth_user uid password s =
     (case password of
        None \<Rightarrow> - 1
      | Some pw \<Rightarrow>
          (case spm_find_user uid s of
             None \<Rightarrow> - 1
           | Some i \<Rightarrow> if user_password (users s ! i) = pw then 0 else - 1))"

section \<open>Capabilities\<close>

definition spm_grant_cap :: "u32 \<Rightarrow> u32 \<Rightarrow> string option \<Rightarrow> spm_state \<Rightarrow> int \<times> spm_state" where
  "spm_grant_cap uid perm target s =
     (case target of
        None \<Rightarrow> (- 1, s)
      | Some t \<Rightarrow>
          if length (caps s) \<ge> SPM_MAX_CAPS then (- 1, s)
          else
            (0, s\<lparr>caps := caps s @ [\<lparr>cap_uid = uid, cap_perm = perm,
                    cap_target = take (SPM_TARGET_MAX - 1) t, cap_active = True\<rparr>]\<rparr>))"

definition spm_revoke_cap :: "u32 \<Rightarrow> u32 \<Rightarrow> string option \<Rightarrow> spm_state \<Rightarrow> int \<times> spm_state" where
  "spm_revoke_cap uid perm target s =
     (case find_from (\<lambda>i. cap_active (caps s ! i) \<and> cap_uid (caps s ! i) = uid \<and>
                          target_matches (Some (cap_target (caps s ! i))) target) 0 (length (caps s)) of
        None \<Rightarrow> (- 1, s)
      | Some i \<Rightarrow>
          let c = caps s ! i;
              c = c\<lparr>cap_perm := cap_perm c AND NOT perm\<rparr>;
              c = (if cap_perm c = 0 then c\<lparr>cap_active := False\<rparr> else c)
          in (0, s\<lparr>caps := (caps s)[i := c]\<rparr>))"

definition spm_cap_count :: "spm_state \<Rightarrow> nat" where
  "spm_cap_count s = length (caps s)"

definition spm_get_cap :: "int \<Rightarrow> bool \<Rightarrow> spm_state \<Rightarrow> spm_capability option" where
  "spm_get_cap index out s =
     (if \<not> out \<or> index < 0 \<or> index \<ge> int (length (caps s)) then None
      else Some (caps s ! nat index))"

definition spm_init :: "spm_state \<Rightarrow> spm_state" where
  "spm_init s =
     (let s = s\<lparr>users := [], caps := []\<rparr>;
          s = snd (spm_add_user 0 (Some ''root'') s);
          s = snd (spm_grant_cap 0 PERM_ALL (Some ''*'') s)
      in s\<lparr>spm_log := spm_log s @ [Init_msg ''spm: security policy manager initialized'']\<rparr>)"

section \<open>Permission check\<close>

definition spm_audit :: "u32 \<Rightarrow> u32 \<Rightarrow> string option \<Rightarrow> int \<Rightarrow> spm_state \<Rightarrow> spm_state" where
  "spm_audit uid perm target result s =
     (if result < 0 then s\<lparr>spm_log := spm_log s @ [Warn ''spm: permission denied'']\<rparr> else s)"

definition spm_check :: "u32 \<Rightarrow> u32 \<Rightarrow> string option \<Rightarrow> spm_state \<Rightarrow> int \<times> spm_state" where
  "spm_check uid perm target s =
     (if uid = 0 then (0, s)
      else
        case find_from (\<lambda>i. cap_active (caps s ! i) \<and> cap_uid (caps s ! i) = uid \<and>
                            cap_perm (caps s ! i) AND perm = perm \<and>
                            target_matches (Some (cap_target (caps s ! i))) target) 0 (length (caps s)) of
          Some i \<Rightarrow> (0, s)
        | None \<Rightarrow> (- 1, spm_audit uid perm target (- 1) s))"

section \<open>What patterns cover\<close>

text \<open>
  What the code reads in a pattern: \<open>*\<close> covers everything, a pattern that ends in \<open>/*\<close> covers what lies
  under its directory, any other pattern covers itself only.
\<close>

definition covers :: "string \<Rightarrow> string \<Rightarrow> bool" where
  "covers pat t \<longleftrightarrow> pat = ''*'' \<or> (\<exists>dir. pat = dir @ ''/*'' \<and> prefix (dir @ ''/'') t) \<or>
     (pat = t \<and> \<not> suffix ''/*'' pat)"

text \<open>
  What the comments in \<open>spm.h\<close> and \<open>spm.c\<close> promise: beyond that, a pattern that ends in a slash, such as
  \<open>/dev/\<close>, covers every target under it.
\<close>

definition documented_covers :: "string \<Rightarrow> string \<Rightarrow> bool" where
  "documented_covers pat t \<longleftrightarrow> pat = ''*'' \<or> (\<exists>dir. pat = dir @ ''/*'' \<and> prefix (dir @ ''/'') t) \<or>
     (suffix ''/'' pat \<and> prefix pat t) \<or> pat = t"

lemma covers_documented: "covers pat t \<Longrightarrow> documented_covers pat t"
  by (auto simp: covers_def documented_covers_def)

lemma documented_is_covers:
  assumes "\<not> suffix ''/'' pat" and "documented_covers pat t"
  shows "covers pat t"
proof (cases "suffix ''/*'' pat")
  case True
  then obtain dir where "pat = dir @ ''/*''" by (auto simp: suffix_def)
  then show ?thesis using assms by (auto simp: covers_def documented_covers_def prefix_def)
qed (use assms in \<open>auto simp: covers_def documented_covers_def\<close>)

text \<open>The documented policy, and the capabilities that satisfy a request under it.\<close>

definition satisfies :: "u32 \<Rightarrow> u32 \<Rightarrow> string option \<Rightarrow> spm_capability \<Rightarrow> bool" where
  "satisfies uid perm target c \<longleftrightarrow> cap_active c \<and> cap_uid c = uid \<and> cap_perm c AND perm = perm \<and>
     (\<exists>t. target = Some t \<and> documented_covers (cap_target c) t)"

definition policy_allows :: "u32 \<Rightarrow> u32 \<Rightarrow> string option \<Rightarrow> spm_state \<Rightarrow> bool" where
  "policy_allows uid perm target s \<longleftrightarrow> uid = 0 \<or> (\<exists>c \<in> set (caps s). satisfies uid perm target c)"

lemma ends_slash_star:
  "length pat \<ge> 2 \<and> pat ! (length pat - 1) = CHR ''*'' \<and> pat ! (length pat - 2) = CHR ''/''
     \<longleftrightarrow> suffix ''/*'' pat"
proof -
  have "suffix ''/*'' pat \<longleftrightarrow> length pat \<ge> 2 \<and> drop (length pat - 2) pat = ''/*''"
    by (auto simp: suffix_def) (metis append_take_drop_id)
  also have "\<dots> \<longleftrightarrow> length pat \<ge> 2 \<and> pat ! (length pat - 2) = CHR ''/'' \<and> pat ! (length pat - 1) = CHR ''*''"
  proof (cases "length pat \<ge> 2")
    case True
    then have "drop (length pat - 2) pat = [pat ! (length pat - 2), pat ! (length pat - 1)]"
      by (intro nth_equalityI) (auto simp: less_Suc_eq nth_append numeral_2_eq_2)
    then show ?thesis by simp
  qed simp
  finally show ?thesis by blast
qed

lemma take_eq_prefix: "length t \<ge> length p \<and> p = take (length p) t \<longleftrightarrow> prefix p t"
  by (auto simp: prefix_def) (metis append_take_drop_id)

lemma target_matches_covers: "target_matches (Some pat) (Some t) \<longleftrightarrow> covers pat t"
proof (cases "suffix ''/*'' pat")
  case True
  then obtain dir where dir: "pat = dir @ ''/*''" by (auto simp: suffix_def)
  have "take (length pat - 1) pat = dir @ ''/''" "length pat - 1 = length (dir @ ''/'')"
    by (simp_all add: dir)
  then have "target_matches (Some pat) (Some t) \<longleftrightarrow> prefix (dir @ ''/'') t"
    using True unfolding target_matches_def Let_def option.case prod.case ends_slash_star
    by (simp only: take_eq_prefix if_True) (simp add: dir)
  then show ?thesis using True by (auto simp: covers_def dir)
next
  case False
  then show ?thesis
    unfolding target_matches_def Let_def option.case prod.case ends_slash_star
    by (auto simp: covers_def suffix_def)
qed

lemma target_matches_None [simp]: "\<not> target_matches p None"
  by (simp add: target_matches_def split: option.splits)

lemma target_matches_iff:
  "target_matches (Some pat) target \<longleftrightarrow> (\<exists>t. target = Some t \<and> covers pat t)"
  by (cases target) (auto simp: target_matches_covers)

section \<open>Sequences of management calls\<close>

datatype spm_op =
  Add_user u32 "string option"
| Set_password u32 "string option"
| Grant u32 u32 "string option"
| Revoke u32 u32 "string option"
| Check u32 u32 "string option"

fun spm_step :: "spm_op \<Rightarrow> spm_state \<Rightarrow> spm_state" where
  "spm_step (Add_user uid name) s = snd (spm_add_user uid name s)"
| "spm_step (Set_password uid pw) s = snd (spm_set_password uid pw s)"
| "spm_step (Grant uid perm t) s = snd (spm_grant_cap uid perm t s)"
| "spm_step (Revoke uid perm t) s = snd (spm_revoke_cap uid perm t s)"
| "spm_step (Check uid perm t) s = snd (spm_check uid perm t s)"

text \<open>Every active capability descends from a grant: the same user, a subset of its bits, its target.\<close>

definition granted_in :: "spm_op set \<Rightarrow> spm_capability \<Rightarrow> bool" where
  "granted_in G c \<longleftrightarrow> cap_uid c = 0 \<or>
     (\<exists>p t. Grant (cap_uid c) p (Some t) \<in> G \<and> cap_perm c AND p = cap_perm c \<and>
        cap_target c = take (SPM_TARGET_MAX - 1) t)"

definition caps_granted :: "spm_op set \<Rightarrow> spm_state \<Rightarrow> bool" where
  "caps_granted G s \<longleftrightarrow> (\<forall>c \<in> set (caps s). granted_in G c)"

lemma granted_in_mono: "granted_in G c \<Longrightarrow> G \<subseteq> H \<Longrightarrow> granted_in H c"
  by (auto simp: granted_in_def)

lemma caps_add_user [simp]: "caps (snd (spm_add_user uid nm s)) = caps s"
  by (simp add: spm_add_user_def split: option.splits)

lemma caps_set_password [simp]: "caps (snd (spm_set_password uid pw s)) = caps s"
  by (simp add: spm_set_password_def split: option.splits)

lemma caps_check [simp]: "caps (snd (spm_check uid perm t s)) = caps s"
  by (simp add: spm_check_def spm_audit_def split: option.splits)

lemma caps_grant:
  "caps (snd (spm_grant_cap uid perm t s)) = caps s \<or>
   (\<exists>u. t = Some u \<and> caps (snd (spm_grant_cap uid perm t s)) = caps s @
      [\<lparr>cap_uid = uid, cap_perm = perm, cap_target = take (SPM_TARGET_MAX - 1) u, cap_active = True\<rparr>])"
  by (auto simp: spm_grant_cap_def split: option.splits)

lemma caps_revoke:
  "caps (snd (spm_revoke_cap uid perm t s)) = caps s \<or>
   (\<exists>i a. i < length (caps s) \<and> caps (snd (spm_revoke_cap uid perm t s)) = (caps s)[i :=
      (caps s ! i)\<lparr>cap_perm := cap_perm (caps s ! i) AND NOT perm, cap_active := a\<rparr>])"
proof (cases "find_from (\<lambda>i. cap_active (caps s ! i) \<and> cap_uid (caps s ! i) = uid \<and>
    target_matches (Some (cap_target (caps s ! i))) t) 0 (length (caps s))")
  case None
  then show ?thesis by (simp add: spm_revoke_cap_def)
next
  case (Some i)
  let ?p = "cap_perm (caps s ! i) AND NOT perm"
  have "i < length (caps s)" using Some by (simp add: find_from_Some_iff)
  moreover have "caps (snd (spm_revoke_cap uid perm t s)) = (caps s)[i :=
      (caps s ! i)\<lparr>cap_perm := ?p, cap_active := ?p \<noteq> 0 \<and> cap_active (caps s ! i)\<rparr>]"
    unfolding spm_revoke_cap_def Some by (simp add: Let_def)
  ultimately show ?thesis by blast
qed

lemma granted_in_weaken:
  assumes "granted_in G c"
  shows "granted_in G (c\<lparr>cap_perm := cap_perm c AND m, cap_active := a\<rparr>)"
proof -
  have "(x AND m) AND p = x AND m" if "x AND p = x" for x p :: u32
    using that by (metis and.assoc and.commute)
  with assms show ?thesis unfolding granted_in_def by fastforce
qed

lemma caps_granted_step:
  assumes "caps_granted G s"
  shows "caps_granted (insert e G) (spm_step e s)"
proof -
  have old: "\<forall>c \<in> set (caps s). granted_in (insert e G) c"
    using assms unfolding caps_granted_def by (blast intro: granted_in_mono)
  show ?thesis
  proof (cases e)
    case (Grant uid perm t)
    have "granted_in (insert e G) \<lparr>cap_uid = uid, cap_perm = perm,
        cap_target = take (SPM_TARGET_MAX - 1) u, cap_active = True\<rparr>" if "t = Some u" for u
      using that Grant unfolding granted_in_def
      by (intro disjI2 exI [of _ perm] exI [of _ u]) simp
    with old caps_grant [of uid perm t s] show ?thesis
      by (auto simp: Grant caps_granted_def)
  next
    case (Revoke uid perm t)
    from caps_revoke [of uid perm t s] show ?thesis
    proof (elim disjE exE conjE)
      assume "caps (snd (spm_revoke_cap uid perm t s)) = caps s"
      with old show ?thesis by (simp add: Revoke caps_granted_def)
    next
      fix i a
      assume "i < length (caps s)" and upd: "caps (snd (spm_revoke_cap uid perm t s)) = (caps s)[i :=
        (caps s ! i)\<lparr>cap_perm := cap_perm (caps s ! i) AND NOT perm, cap_active := a\<rparr>]"
      then have "granted_in (insert e G) (caps s ! i)" using old by simp
      from granted_in_weaken [OF this] old show ?thesis
        unfolding caps_granted_def Revoke spm_step.simps upd
        by (auto dest!: subsetD [OF set_update_subset_insert])
    qed
  qed (use old in \<open>simp_all add: caps_granted_def\<close>)
qed

lemma caps_granted_init: "caps_granted {} (spm_init s)"
  by (simp add: caps_granted_def spm_init_def Let_def spm_grant_cap_def granted_in_def SPM_MAX_CAPS_def)

lemma caps_granted_run: "caps_granted G s \<Longrightarrow> caps_granted (G \<union> set ops) (fold spm_step ops s)"
proof (induction ops arbitrary: G s)
  case (Cons e ops)
  from Cons.IH [OF caps_granted_step [OF Cons.prems, of e]] show ?case by simp
qed simp

lemma spm_check_0_iff:
  "fst (spm_check uid perm target s) = 0 \<longleftrightarrow> uid = 0 \<or>
     (\<exists>c \<in> set (caps s). cap_active c \<and> cap_uid c = uid \<and> cap_perm c AND perm = perm \<and>
        target_matches (Some (cap_target c)) target)"
proof (cases "find_from (\<lambda>i. cap_active (caps s ! i) \<and> cap_uid (caps s ! i) = uid \<and>
    cap_perm (caps s ! i) AND perm = perm \<and>
    target_matches (Some (cap_target (caps s ! i))) target) 0 (length (caps s))")
  case None
  then have "\<not> (\<exists>c \<in> set (caps s). cap_active c \<and> cap_uid c = uid \<and> cap_perm c AND perm = perm \<and>
      target_matches (Some (cap_target c)) target)"
    by (auto simp: find_from_None_iff in_set_conv_nth)
  then show ?thesis unfolding spm_check_def None by simp
next
  case (Some i)
  then have "caps s ! i \<in> set (caps s)" "cap_active (caps s ! i) \<and> cap_uid (caps s ! i) = uid \<and>
      cap_perm (caps s ! i) AND perm = perm \<and> target_matches (Some (cap_target (caps s ! i))) target"
    by (auto simp: find_from_Some_iff)
  then show ?thesis unfolding spm_check_def Some by auto
qed

lemma find_user_set_password:
  assumes "i < length (users s)"
  shows "spm_find_user uid (s\<lparr>users := (users s)[i := (users s ! i)\<lparr>user_password := pw\<rparr>]\<rparr>) =
    spm_find_user uid s"
  unfolding spm_find_user_def using assms
  by (auto simp: nth_list_update intro!: find_from_cong)

section \<open>Properties\<close>

text \<open>
  C16. The permission check against the documented policy, in which root may do everything and any
  other user needs an active capability of his with all requested bits and a pattern that covers
  the target (\<open>*\<close>, \<open>dir/*\<close>, \<open>dir/\<close> or the target itself). The check never allows what the policy forbids. It allows
  what the policy allows to root and through a capability whose pattern does not end in a slash,
  so it decides the policy exactly for a user without such patterns. A denial
  is logged and changes nothing else, an approval changes nothing.
\<close>

theorem spm_check_policy:
  "case spm_check uid perm target s of (r, s') \<Rightarrow>
     r \<in> {0, - 1} \<and>
     (r = 0 \<longrightarrow> policy_allows uid perm target s) \<and>
     (uid = 0 \<or> (\<exists>c \<in> set (caps s). satisfies uid perm target c \<and> \<not> suffix ''/'' (cap_target c)) \<longrightarrow> r = 0) \<and>
     ((\<forall>c \<in> set (caps s). cap_active c \<and> cap_uid c = uid \<longrightarrow> \<not> suffix ''/'' (cap_target c)) \<longrightarrow>
        r = (if policy_allows uid perm target s then 0 else - 1)) \<and>
     s' = (if r = 0 then s else s\<lparr>spm_log := spm_log s @ [Warn ''spm: permission denied'']\<rparr>)"
proof -
  obtain r s' where chk: "spm_check uid perm target s = (r, s')" by (cases "spm_check uid perm target s")
  then have r: "r \<in> {0, - 1}" and s': "s' = (if r = 0 then s else s\<lparr>spm_log := spm_log s @ [Warn ''spm: permission denied'']\<rparr>)"
    by (auto simp: spm_check_def spm_audit_def split: option.splits if_splits)
  have iff: "r = 0 \<longleftrightarrow> uid = 0 \<or> (\<exists>c \<in> set (caps s). cap_active c \<and>
      cap_uid c = uid \<and> cap_perm c AND perm = perm \<and> (\<exists>t. target = Some t \<and> covers (cap_target c) t))"
    using spm_check_0_iff [of uid perm target s] unfolding chk fst_conv target_matches_iff by blast
  have 1: "policy_allows uid perm target s" if "r = 0"
    using that covers_documented unfolding iff policy_allows_def satisfies_def by blast
  have 2: "r = 0" if "uid = 0 \<or> (\<exists>c \<in> set (caps s). satisfies uid perm target c \<and> \<not> suffix ''/'' (cap_target c))"
    using that documented_is_covers unfolding iff satisfies_def by blast
  have 3: "r = (if policy_allows uid perm target s then 0 else - 1)"
    if "\<forall>c \<in> set (caps s). cap_active c \<and> cap_uid c = uid \<longrightarrow> \<not> suffix ''/'' (cap_target c)"
  proof -
    have "r = 0" if "policy_allows uid perm target s"
      using that \<open>\<forall>c \<in> set (caps s). _ c\<close> by (intro 2) (auto simp: policy_allows_def satisfies_def)
    then show ?thesis using 1 r by auto
  qed
  show ?thesis unfolding chk prod.case using r s' 1 2 3 by blast
qed

text \<open>User 5 may read everything under \<open>/dev\<close>, and nothing else.\<close>

theorem spm_check_policy_witness:
  "let s = \<lparr>users = [], caps = [\<lparr>cap_uid = 5, cap_perm = 1, cap_target = ''/dev/*'', cap_active = True\<rparr>], spm_log = []\<rparr>
   in fst (spm_check 5 1 (Some ''/dev/hda'') s) = 0 \<and>
      spm_check 5 3 (Some ''/dev/hda'') s = (- 1, s\<lparr>spm_log := [Warn ''spm: permission denied'']\<rparr>)"
proof -
  let ?c = "\<lparr>cap_uid = 5, cap_perm = 1, cap_target = ''/dev/*'', cap_active = True\<rparr> :: spm_capability"
  let ?s = "\<lparr>users = [], caps = [?c], spm_log = []\<rparr> :: spm_state"
  have c: "documented_covers ''/dev/*'' ''/dev/hda''"
    unfolding documented_covers_def by (intro disjI2 disjI1 exI [of _ "''/dev''"]) simp
  have p: "policy_allows 5 1 (Some ''/dev/hda'') ?s" "\<not> policy_allows 5 3 (Some ''/dev/hda'') ?s"
    using c by (simp_all add: policy_allows_def satisfies_def)
  show ?thesis using spm_check_policy [of 5 1 "Some ''/dev/hda''" ?s] spm_check_policy [of 5 3 "Some ''/dev/hda''" ?s] p
    by (auto simp: Let_def suffix_def split: prod.splits)
qed

text \<open>A pattern that ends in a slash is only compared: \<open>/dev/\<close> does not cover a device.\<close>

lemma slash_pattern_exact:
  assumes "uid \<noteq> 0" and "caps s = [\<lparr>cap_uid = uid, cap_perm = PERM_ALL, cap_target = ''/dev/'', cap_active = True\<rparr>]"
  shows "policy_allows uid 1 (Some ''/dev/hda'') s" and "fst (spm_check uid 1 (Some ''/dev/hda'') s) \<noteq> 0"
proof -
  have "documented_covers ''/dev/'' ''/dev/hda''" by (simp add: documented_covers_def suffix_def)
  then show "policy_allows uid 1 (Some ''/dev/hda'') s"
    using assms(2) by (simp add: policy_allows_def satisfies_def PERM_ALL_def)
  show "fst (spm_check uid 1 (Some ''/dev/hda'') s) \<noteq> 0"
    using assms by (simp add: spm_check_0_iff target_matches_def)
qed

text \<open>
  C17. No authority without a grant: after initialisation and any sequence of management calls, a
  user other than root passes a permission check only if some call of the sequence granted that
  very user all the requested bits on a target that covers the requested one.
\<close>

theorem spm_no_ambient_authority:
  assumes "uid \<noteq> 0" and "fst (spm_check uid perm target (fold spm_step ops (spm_init s))) = 0"
  shows "\<exists>p t u. Grant uid p (Some t) \<in> set ops \<and> p AND perm = perm \<and> target = Some u \<and>
    covers (take (SPM_TARGET_MAX - 1) t) u"
proof -
  have inv: "caps_granted (set ops) (fold spm_step ops (spm_init s))"
    using caps_granted_run [OF caps_granted_init, of ops s] by simp
  obtain c u where c: "c \<in> set (caps (fold spm_step ops (spm_init s)))" "cap_uid c = uid"
      "cap_perm c AND perm = perm" "target = Some u" "covers (cap_target c) u"
    using assms by (auto simp: spm_check_0_iff target_matches_iff)
  from inv c(1,2) assms(1) obtain p t where g: "Grant uid p (Some t) \<in> set ops"
      "cap_perm c AND p = cap_perm c" "cap_target c = take (SPM_TARGET_MAX - 1) t"
    by (auto simp: caps_granted_def granted_in_def)
  have "p AND perm = perm" using g(2) c(3) by (metis and.assoc and.commute)
  with g c show ?thesis by auto
qed

text \<open>An empty manager, before initialisation.\<close>

definition spm_empty :: spm_state where
  "spm_empty = \<lparr>users = [], caps = [], spm_log = []\<rparr>"

theorem spm_no_ambient_authority_witness:
  "\<exists>p t u. Grant 5 p (Some t) \<in> set [Grant 5 1 (Some ''/dev/hda'')] \<and> p AND 1 = 1 \<and>
    Some ''/dev/hda'' = Some u \<and> covers (take (SPM_TARGET_MAX - 1) t) u"
proof (rule spm_no_ambient_authority)
  show "fst (spm_check 5 1 (Some ''/dev/hda'')
      (fold spm_step [Grant 5 1 (Some ''/dev/hda'')] (spm_init spm_empty))) = 0"
    unfolding spm_check_0_iff
    by (simp add: spm_init_def spm_empty_def spm_grant_cap_def SPM_MAX_CAPS_def SPM_TARGET_MAX_def
        target_matches_def Let_def)
qed simp

text \<open>
  Revocation stops at the first match: when a user other than root holds two active
  capabilities that both carry the permission and both cover the target, \<open>spm_revoke_cap\<close>
  reports success and the permission check still allows the access.
\<close>

theorem revoke_leaves_duplicate:
  assumes "uid \<noteq> 0" and "i < j" and "j < length (caps s)"
    and "\<forall>k \<in> {i, j}. cap_active (caps s ! k) \<and> cap_uid (caps s ! k) = uid \<and>
      cap_perm (caps s ! k) AND perm = perm \<and> target_matches (Some (cap_target (caps s ! k))) target"
  shows "fst (spm_revoke_cap uid perm target s) = 0 \<and>
    fst (spm_check uid perm target (snd (spm_revoke_cap uid perm target s))) = 0"
proof -
  let ?P = "\<lambda>i. cap_active (caps s ! i) \<and> cap_uid (caps s ! i) = uid \<and>
    target_matches (Some (cap_target (caps s ! i))) target"
  obtain k where k: "find_from ?P 0 (length (caps s)) = Some k"
    using assms by (cases "find_from ?P 0 (length (caps s))") (auto simp: find_from_None_iff)
  then have "k \<le> i" using assms by (force simp: find_from_Some_iff not_le [symmetric])
  then have "j \<noteq> k" using assms(2) by simp
  define s' where "s' = snd (spm_revoke_cap uid perm target s)"
  have rev: "fst (spm_revoke_cap uid perm target s) = 0" "\<exists>c. caps s' = (caps s)[k := c]"
    unfolding s'_def spm_revoke_cap_def k by (auto simp: Let_def)
  then have "caps s ! j \<in> set (caps s')"
    using assms(3) \<open>j \<noteq> k\<close> by (metis length_list_update nth_list_update_neq nth_mem)
  with assms(4) have "fst (spm_check uid perm target s') = 0" by (auto simp: spm_check_0_iff)
  with rev show ?thesis by (simp add: s'_def)
qed

theorem revoke_leaves_duplicate_witness:
  "let s = \<lparr>users = [], caps = replicate 2 \<lparr>cap_uid = 7, cap_perm = 3, cap_target = ''/tmp/*'',
        cap_active = True\<rparr>, spm_log = []\<rparr>
   in fst (spm_revoke_cap 7 2 (Some ''/tmp/a'') s) = 0 \<and>
      fst (spm_check 7 2 (Some ''/tmp/a'') (snd (spm_revoke_cap 7 2 (Some ''/tmp/a'') s))) = 0"
  unfolding Let_def
  by (rule revoke_leaves_duplicate [of _ 0 1]) (simp_all add: target_matches_def)

text \<open>
  After a successful \<open>spm_set_password\<close>, the user authenticates with exactly one password:
  the one set, cut to 63 characters. A password of 64 or more characters is accepted by
  \<open>spm_set_password\<close> and then refused by \<open>spm_auth_user\<close>.
\<close>

theorem password_set_then_auth:
  assumes "spm_set_password uid (Some pw) s = (0, s')"
  shows "spm_auth_user uid (Some q) s' = (if q = take (SPM_PASS_MAX - 1) pw then 0 else - 1)"
proof -
  obtain i where i: "spm_find_user uid s = Some i"
    using assms by (auto simp: spm_set_password_def split: option.splits)
  then have len: "i < length (users s)" by (simp add: spm_find_user_def find_from_Some_iff)
  from i assms have s': "s' = s\<lparr>users := (users s)[i := (users s ! i)\<lparr>user_password :=
      take (SPM_PASS_MAX - 1) pw\<rparr>]\<rparr>"
    by (simp add: spm_set_password_def)
  show ?thesis
    unfolding spm_auth_user_def s' find_user_set_password [OF len] i using len by simp
qed

theorem password_set_then_auth_witness:
  "spm_auth_user 0 (Some (replicate 64 CHR ''x''))
     (snd (spm_set_password 0 (Some (replicate 64 CHR ''x'')) (spm_init spm_empty))) =
   (if replicate 64 CHR ''x'' = take (SPM_PASS_MAX - 1) (replicate 64 CHR ''x'') then 0 else - 1)"
proof -
  have "spm_find_user 0 (spm_init spm_empty) = Some 0"
    by (simp add: spm_find_user_def spm_init_def spm_empty_def spm_add_user_def spm_grant_cap_def
        SPM_MAX_USERS_def SPM_MAX_CAPS_def find_from.simps)
  then have "fst (spm_set_password 0 (Some (replicate 64 CHR ''x'')) (spm_init spm_empty)) = 0"
    by (simp add: spm_set_password_def)
  then have "spm_set_password 0 (Some (replicate 64 CHR ''x'')) (spm_init spm_empty) =
      (0, snd (spm_set_password 0 (Some (replicate 64 CHR ''x'')) (spm_init spm_empty)))"
    by (simp add: prod_eq_iff)
  from password_set_then_auth [OF this] show ?thesis .
qed

end
