(* ===== verification/Handle.thy ===== *)
theory Handle
  imports KLog Allocator
begin

text \<open>
  The segment descriptors of \<open>src/kernel/mm/sasy/types.h\<close> and the handle table of
  \<open>src/kernel/mm/sasy/handle.c\<close>. A segment pointer is an index into the segment table, the null
  pointer is \<open>None\<close>. Every operation holds the handle lock and is one step. The table is an
  allocator of 8192 handles; the rotating search finds a free slot whenever there is one, and the
  counter of live handles agrees with the table.
\<close>

section \<open>Segment descriptors\<close>

datatype seg_type = SEG_FIXED | SEG_MANUAL | SEG_CODE | SEG_DATA_AUTO | SEG_DATA_INST | SEG_PHYSICAL

record segment =
  seg_id :: u32
  seg_ty :: seg_type
  seg_base :: u64
  seg_size :: u64
  seg_phys :: u64
  seg_refcnt :: u32
  seg_flags :: u32
  seg_locked :: u8
  seg_present :: bool
  seg_dirty :: bool
  seg_shared :: bool
  seg_swap_id :: u64
  seg_code_hash :: u64

section \<open>Handles\<close>

definition MAX_HANDLES :: nat where "MAX_HANDLES = 8192"
definition INVALID_HANDLE :: u32 where "INVALID_HANDLE = - 1"

record handle =
  h_seg :: "nat option"
  h_refs :: u32
  h_owner_pid :: u32
  h_valid :: bool

record handle_state =
  handles :: "nat \<Rightarrow> handle"
  handle_count :: u32
  next_handle :: u32
  segments :: "nat \<Rightarrow> segment"
  seg_log :: "klog_event list"

definition null_handle :: handle where
  "null_handle = \<lparr>h_seg = None, h_refs = 0, h_owner_pid = 0, h_valid = False\<rparr>"

definition seg_klog :: "klog_event \<Rightarrow> 'a handle_state_scheme \<Rightarrow> 'a handle_state_scheme" where
  "seg_klog e s = s\<lparr>seg_log := seg_log s @ [e]\<rparr>"

definition set_handle :: "u32 \<Rightarrow> handle \<Rightarrow> 'a handle_state_scheme \<Rightarrow> 'a handle_state_scheme" where
  "set_handle h v s = s\<lparr>handles := (handles s)(unat h := v)\<rparr>"

definition bad_handle :: "u32 \<Rightarrow> bool" where
  "bad_handle h \<longleftrightarrow> h \<ge> of_nat MAX_HANDLES"

definition handle_init :: "'a handle_state_scheme \<Rightarrow> 'a handle_state_scheme" where
  "handle_init s =
     (let s = for_range 0 MAX_HANDLES (\<lambda>i s. s\<lparr>handles := (handles s)(i := null_handle)\<rparr>) s;
          s = s\<lparr>handle_count := 0, next_handle := 0\<rparr>
      in seg_klog (Init_msg ''SASY handle table initialized'') s)"

text \<open>
  The \<^verbatim>\<open>do ... while (h != start)\<close> search of \<open>handle_alloc\<close>: \<open>Some (Some h)\<close> for the free slot
  found, \<open>Some None\<close> when the search comes back to its start.
\<close>

partial_function (option) handle_scan :: "(nat \<Rightarrow> handle) \<Rightarrow> u32 \<Rightarrow> u32 \<Rightarrow> u32 option option" where
  "handle_scan hs start h =
     (if \<not> h_valid (hs (unat h)) then Some (Some h)
      else
        let h = (h + 1) mod of_nat MAX_HANDLES
        in if h \<noteq> start then handle_scan hs start h else Some None)"

definition handle_alloc ::
  "nat option \<Rightarrow> u32 \<Rightarrow> 'a handle_state_scheme \<Rightarrow> (u32 \<times> 'a handle_state_scheme) option" where
  "handle_alloc seg owner_pid s =
     (if seg = None then Some (INVALID_HANDLE, s)
      else
        case handle_scan (handles s) (next_handle s) (next_handle s) of
          None \<Rightarrow> None
        | Some None \<Rightarrow>
            Some (INVALID_HANDLE, seg_klog (Error ''[HANDLE] No free handles available'') s)
        | Some (Some h) \<Rightarrow>
            let s = set_handle h \<lparr>h_seg = seg, h_refs = 1, h_owner_pid = owner_pid, h_valid = True\<rparr> s;
                s = s\<lparr>handle_count := handle_count s + 1,
                      next_handle := (h + 1) mod of_nat MAX_HANDLES\<rparr>
            in Some (h, s))"

definition handle_free :: "u32 \<Rightarrow> 'a handle_state_scheme \<Rightarrow> 'a handle_state_scheme" where
  "handle_free h s =
     (if bad_handle h then s
      else if h_valid (handles s (unat h))
      then let s = set_handle h null_handle s
           in if handle_count s > 0 then s\<lparr>handle_count := handle_count s - 1\<rparr> else s
      else s)"

definition handle_get_segment :: "u32 \<Rightarrow> 'a handle_state_scheme \<Rightarrow> nat option" where
  "handle_get_segment h s =
     (if bad_handle h \<or> \<not> h_valid (handles s (unat h)) then None else h_seg (handles s (unat h)))"

definition handle_addref :: "u32 \<Rightarrow> 'a handle_state_scheme \<Rightarrow> 'a handle_state_scheme" where
  "handle_addref h s =
     (if bad_handle h then s
      else
        let v = handles s (unat h)
        in if h_valid v then set_handle h (v\<lparr>h_refs := h_refs v + 1\<rparr>) s else s)"

definition handle_release :: "u32 \<Rightarrow> 'a handle_state_scheme \<Rightarrow> 'a handle_state_scheme" where
  "handle_release h s =
     (if bad_handle h then s
      else
        let v = handles s (unat h)
        in if h_valid v \<and> h_refs v > 0 then set_handle h (v\<lparr>h_refs := h_refs v - 1\<rparr>) s else s)"

definition handle_valid :: "u32 \<Rightarrow> 'a handle_state_scheme \<Rightarrow> bool" where
  "handle_valid h s = (if bad_handle h then False else h_valid (handles s (unat h)))"

definition handle_count_for_segment :: "nat option \<Rightarrow> 'a handle_state_scheme \<Rightarrow> u32" where
  "handle_count_for_segment seg s =
     (if seg = None then 0
      else for_range 0 MAX_HANDLES
             (\<lambda>i n. if h_valid (handles s i) \<and> h_seg (handles s i) = seg then n + 1 else n) 0)"

definition handle_dup ::
  "u32 \<Rightarrow> u32 \<Rightarrow> 'a handle_state_scheme \<Rightarrow> (u32 \<times> 'a handle_state_scheme) option" where
  "handle_dup h new_owner_pid s =
     (if bad_handle h \<or> \<not> h_valid (handles s (unat h)) then Some (INVALID_HANDLE, s)
      else
        let seg = h_seg (handles s (unat h)) in
        case handle_alloc seg new_owner_pid s of
          None \<Rightarrow> None
        | Some (new_h, s) \<Rightarrow>
            if new_h \<noteq> INVALID_HANDLE
            then Some (new_h,
              (case seg of
                 None \<Rightarrow> s
               | Some k \<Rightarrow> s\<lparr>segments := (segments s)(k :=
                   (segments s k)\<lparr>seg_refcnt := seg_refcnt (segments s k) + 1\<rparr>)\<rparr>))
            else Some (new_h, s))"

definition handle_get_total :: "'a handle_state_scheme \<Rightarrow> u32" where
  "handle_get_total s = handle_count s"

definition handle_get_free :: "'a handle_state_scheme \<Rightarrow> u32" where
  "handle_get_free s = of_nat MAX_HANDLES - handle_count s"

section \<open>The rotating search\<close>

lemma handle_step:
  assumes "unat (x :: u32) < MAX_HANDLES"
  shows "unat ((x + 1) mod of_nat MAX_HANDLES) = Suc (unat x) mod MAX_HANDLES"
proof -
  have "unat (x + 1) = Suc (unat x)"
    using assms by (simp add: unat_word_ariths MAX_HANDLES_def)
  then show ?thesis by (simp add: unat_mod_distrib MAX_HANDLES_def)
qed

lemma bad_handle_iff: "bad_handle h \<longleftrightarrow> MAX_HANDLES \<le> unat h"
  by (simp add: bad_handle_def word_le_nat_alt MAX_HANDLES_def)

lemma bad_handle_INVALID [simp]: "bad_handle INVALID_HANDLE"
  by (simp add: bad_handle_def INVALID_HANDLE_def MAX_HANDLES_def)

text \<open>
  From a position \<open>k\<close> steps after the start, with only used slots behind, the search returns:
  a free slot, or the report that every slot is used.
\<close>

lemma handle_scan_from:
  assumes "unat start < MAX_HANDLES" and "k < MAX_HANDLES"
    and "unat h = (unat start + k) mod MAX_HANDLES"
    and "\<And>j. j < k \<Longrightarrow> h_valid (hs ((unat start + j) mod MAX_HANDLES))"
  shows "(\<exists>h'. handle_scan hs start h = Some (Some h') \<and> unat h' < MAX_HANDLES \<and> \<not> h_valid (hs (unat h'))) \<or>
    (handle_scan hs start h = Some None \<and>
      (\<forall>j < MAX_HANDLES. h_valid (hs ((unat start + j) mod MAX_HANDLES))))"
  using assms(2-4)
proof (induction "MAX_HANDLES - k" arbitrary: k h)
  case 0
  then show ?case by simp
next
  case (Suc n)
  have N: "0 < MAX_HANDLES" by (simp add: MAX_HANDLES_def)
  have h: "unat h < MAX_HANDLES" using Suc.prems(2) N by simp
  let ?h = "(h + 1) mod of_nat MAX_HANDLES"
  have h': "unat ?h = (unat start + Suc k) mod MAX_HANDLES"
    unfolding handle_step [OF h] Suc.prems(2) by (simp add: mod_Suc_eq)
  show ?case
  proof (cases "h_valid (hs (unat h))")
    case False
    then show ?thesis using h by (subst (1 2) handle_scan.simps) auto
  next
    case True
    then have used: "h_valid (hs ((unat start + j) mod MAX_HANDLES))" if "j < Suc k" for j
      using that Suc.prems by (auto simp: less_Suc_eq)
    have scan: "handle_scan hs start h = (if ?h \<noteq> start then handle_scan hs start ?h else Some None)"
      using True by (subst handle_scan.simps) (simp add: Let_def)
    show ?thesis
    proof (cases "Suc k = MAX_HANDLES")
      case True
      then have "unat ?h = unat start" using h' assms(1) by simp
      then have "?h = start" by (simp only: word_unat_eq_iff)
      then show ?thesis using used True unfolding scan by auto
    next
      case False
      have "(unat start + Suc k) mod MAX_HANDLES \<noteq> unat start"
      proof
        assume "(unat start + Suc k) mod MAX_HANDLES = unat start"
        then have "MAX_HANDLES dvd Suc k"
          using assms(1) mod_eq_dvd_iff_nat [of "unat start" "unat start + Suc k" MAX_HANDLES] by simp
        then show False using Suc.prems(1) False by (auto dest: dvd_imp_le)
      qed
      then have "?h \<noteq> start" using h' by auto
      then show ?thesis
        using Suc.hyps(1) [of "Suc k" ?h] Suc.hyps(2) Suc.prems(1) False h' used unfolding scan by simp
    qed
  qed
qed

lemma handle_scan_cases:
  assumes "unat start < MAX_HANDLES"
  obtains (slot) h where "handle_scan hs start start = Some (Some h)" "unat h < MAX_HANDLES"
      "\<not> h_valid (hs (unat h))"
  | (full) "handle_scan hs start start = Some None" "\<forall>i < MAX_HANDLES. h_valid (hs i)"
proof -
  have N: "0 < MAX_HANDLES" by (simp add: MAX_HANDLES_def)
  have all: "\<forall>i < MAX_HANDLES. h_valid (hs i)"
    if "\<forall>j < MAX_HANDLES. h_valid (hs ((unat start + j) mod MAX_HANDLES))"
  proof (intro allI impI)
    fix i assume i: "i < MAX_HANDLES"
    let ?j = "(i + MAX_HANDLES - unat start) mod MAX_HANDLES"
    have "(unat start + ?j) mod MAX_HANDLES = i"
      using i assms by (simp add: mod_add_right_eq)
    moreover have "?j < MAX_HANDLES" using N by simp
    ultimately show "h_valid (hs i)" using that by metis
  qed
  show thesis
    using handle_scan_from [of start 0 start hs] assms N slot full all by auto
qed

section \<open>The table as an allocator of handles\<close>

definition used_slots :: "'a handle_state_scheme \<Rightarrow> nat set" where
  "used_slots s = {i. i < MAX_HANDLES \<and> h_valid (handles s i)}"

definition handles_inv :: "'a handle_state_scheme \<Rightarrow> bool" where
  "handles_inv s \<longleftrightarrow> unat (next_handle s) < MAX_HANDLES \<and> handle_count s = of_nat (card (used_slots s))"

definition live_handles :: "'a handle_state_scheme \<Rightarrow> u32 set" where
  "live_handles s = {h. handle_valid h s}"

definition handle_obtain ::
  "nat \<times> u32 \<Rightarrow> 'a handle_state_scheme \<Rightarrow> u32 option \<times> 'a handle_state_scheme" where
  "handle_obtain r s =
     (case handle_alloc (Some (fst r)) (snd r) s of
        None \<Rightarrow> (None, s)
      | Some (h, s) \<Rightarrow> (if h = INVALID_HANDLE then None else Some h, s))"

lemma finite_used_slots [simp]: "finite (used_slots s)"
  by (simp add: used_slots_def)

lemma card_used_slots: "card (used_slots s) \<le> MAX_HANDLES"
proof -
  have "card (used_slots s) \<le> card {..<MAX_HANDLES}"
    by (rule card_mono) (auto simp: used_slots_def)
  then show ?thesis by simp
qed

lemma unat_handle_count: "handles_inv s \<Longrightarrow> unat (handle_count s) = card (used_slots s)"
  using card_used_slots [of s] by (simp add: handles_inv_def unat_of_nat take_bit_eq_mod MAX_HANDLES_def)

lemma live_handles_iff: "h \<in> live_handles s \<longleftrightarrow> unat h \<in> used_slots s"
  by (auto simp: live_handles_def handle_valid_def used_slots_def bad_handle_iff not_le)

lemma used_slots_set:
  assumes "unat h < MAX_HANDLES"
  shows "used_slots (set_handle h v s) =
    (if h_valid v then insert (unat h) (used_slots s) else used_slots s - {unat h})"
  using assms by (auto simp: used_slots_def set_handle_def)

lemma used_slots_cong: "handles s = handles t \<Longrightarrow> used_slots s = used_slots t"
  by (simp add: used_slots_def)

text \<open>On a well-formed table an allocation always returns, in one of two ways.\<close>

lemma handle_alloc_cases:
  assumes "handles_inv s"
  obtains (full) "handle_alloc (Some k) pid s =
      Some (INVALID_HANDLE, seg_klog (Error ''[HANDLE] No free handles available'') s)"
      "used_slots s = {..<MAX_HANDLES}"
  | (slot) h where "unat h < MAX_HANDLES" "unat h \<notin> used_slots s"
      "handle_alloc (Some k) pid s = Some (h, (set_handle h \<lparr>h_seg = Some k, h_refs = 1,
         h_owner_pid = pid, h_valid = True\<rparr> s)\<lparr>handle_count := handle_count s + 1,
         next_handle := (h + 1) mod of_nat MAX_HANDLES\<rparr>)"
proof -
  have "unat (next_handle s) < MAX_HANDLES" using assms by (simp add: handles_inv_def)
  then show thesis
  proof (cases rule: handle_scan_cases [where hs = "handles s"])
    case (slot h)
    show thesis
      by (rule that(2) [of h])
        (use slot in \<open>auto simp: used_slots_def handle_alloc_def set_handle_def\<close>)
  next
    case full
    show thesis by (rule that(1)) (use full in \<open>auto simp: used_slots_def handle_alloc_def\<close>)
  qed
qed

lemma handle_obtain_cases:
  assumes "handles_inv s" and "handle_obtain r s = (x, s')"
  obtains (full) "x = None" "used_slots s = {..<MAX_HANDLES}" "used_slots s' = used_slots s" "handles_inv s'"
  | (slot) h where "x = Some h" "unat h < MAX_HANDLES" "unat h \<notin> used_slots s"
      "used_slots s' = insert (unat h) (used_slots s)" "handles_inv s'"
proof (cases rule: handle_alloc_cases [OF assms(1), of "fst r" "snd r"])
  case 1
  then have "x = None" and s': "s' = seg_klog (Error ''[HANDLE] No free handles available'') s"
    using assms(2) by (auto simp: handle_obtain_def)
  moreover have "used_slots s' = used_slots s" "handles_inv s'"
    using assms(1) unfolding s' seg_klog_def by (simp_all add: used_slots_def handles_inv_def)
  ultimately show thesis using 1 full by blast
next
  case (2 h)
  have ne: "h \<noteq> INVALID_HANDLE" using 2(1) bad_handle_INVALID by (auto simp: bad_handle_iff)
  define t where "t = set_handle h \<lparr>h_seg = Some (fst r), h_refs = 1, h_owner_pid = snd r, h_valid = True\<rparr> s"
  have s': "x = Some h" "s' = t\<lparr>handle_count := handle_count s + 1, next_handle := (h + 1) mod of_nat MAX_HANDLES\<rparr>"
    using assms(2) 2(3) ne by (auto simp: handle_obtain_def t_def)
  have "used_slots s' = used_slots t" unfolding s' by (rule used_slots_cong) simp
  then have used: "used_slots s' = insert (unat h) (used_slots s)"
    unfolding t_def used_slots_set [OF 2(1)] by simp
  have "unat ((h + 1) mod of_nat MAX_HANDLES) < MAX_HANDLES"
    unfolding handle_step [OF 2(1)] by (simp add: MAX_HANDLES_def)
  then have "unat (next_handle s') < MAX_HANDLES" by (simp add: s')
  then have "handles_inv s'"
    using assms(1) 2(2) unfolding handles_inv_def used by (simp add: s')
  then show thesis using slot s' used 2 by blast
qed

lemma handle_free_live:
  assumes "handles_inv s" and "unat h \<in> used_slots s"
  shows "handles_inv (handle_free h s)" and "used_slots (handle_free h s) = used_slots s - {unat h}"
proof -
  have h: "unat h < MAX_HANDLES" "\<not> bad_handle h" "h_valid (handles s (unat h))"
    using assms(2) by (auto simp: used_slots_def bad_handle_iff)
  have "card (used_slots s) \<noteq> 0" using assms(2) by (auto simp: card_eq_0_iff)
  then have pos: "handle_count s > 0"
    using unat_handle_count [OF assms(1)] by (simp add: word_greater_zero_iff unat_eq_0 [symmetric])
  have free: "handle_free h s = (set_handle h null_handle s)\<lparr>handle_count := handle_count s - 1\<rparr>"
    using h pos by (simp add: handle_free_def set_handle_def Let_def)
  have "used_slots (handle_free h s) = used_slots (set_handle h null_handle s)"
    unfolding free by (rule used_slots_cong) simp
  then show used: "used_slots (handle_free h s) = used_slots s - {unat h}"
    unfolding used_slots_set [OF h(1)] by (simp add: null_handle_def)
  have "card (used_slots s) = Suc (card (used_slots s - {unat h}))"
    using assms(2) by (metis card_Suc_Diff1 finite_used_slots)
  then show "handles_inv (handle_free h s)"
    using assms(1) unfolding handles_inv_def used by (simp add: free set_handle_def)
qed

lemma handle_free_dead: "unat h \<notin> used_slots s \<Longrightarrow> handle_free h s = s"
  by (auto simp: handle_free_def used_slots_def bad_handle_iff)

interpretation handle_table: checked_allocator handles_inv live_handles handle_obtain handle_free
proof unfold_locales
  fix s :: "'a handle_state_scheme" and r assume inv: "handles_inv s"
  obtain x s' where ob: "handle_obtain r s = (x, s')" by (cases "handle_obtain r s")
  from inv ob have "handles_inv s'" by (cases rule: handle_obtain_cases) auto
  with ob show "handles_inv (snd (handle_obtain r s))" by simp
next
  fix s s' :: "'a handle_state_scheme" and r a assume inv: "handles_inv s" and ob: "handle_obtain r s = (Some a, s')"
  from inv ob show "a \<notin> live_handles s"
    by (cases rule: handle_obtain_cases) (auto simp: live_handles_iff)
  from inv ob show "live_handles s' = insert a (live_handles s)"
    by (cases rule: handle_obtain_cases) (auto simp: live_handles_iff simp flip: word_unat_eq_iff)
next
  fix s s' :: "'a handle_state_scheme" and r assume "handles_inv s" and "handle_obtain r s = (None, s')"
  then show "live_handles s' = live_handles s"
  proof (cases rule: handle_obtain_cases)
    case full
    then show ?thesis by (simp add: set_eq_iff live_handles_iff)
  qed simp
next
  fix s :: "'a handle_state_scheme" and a assume inv: "handles_inv s" and live: "a \<in> live_handles s"
  note free = handle_free_live [OF inv live [unfolded live_handles_iff]]
  show "handles_inv (handle_free a s)" by (rule free(1))
  show "live_handles (handle_free a s) = live_handles s - {a}"
    unfolding set_eq_iff live_handles_iff free(2) by (simp add: live_handles_iff word_unat_eq_iff [of _ a])
next
  fix s :: "'a handle_state_scheme" and a assume "handles_inv s" and "a \<notin> live_handles s"
  then show "handles_inv (handle_free a s) \<and> live_handles (handle_free a s) = live_handles s"
    by (simp add: handle_free_dead live_handles_iff)
qed

interpretation handle_slots: slot_allocator handles_inv live_handles handle_obtain handle_free
  "{h. \<not> bad_handle h}"
proof unfold_locales
  fix s s' :: "'a handle_state_scheme" and r assume "handles_inv s" and "handle_obtain r s = (None, s')"
  then show "live_handles s = {h. \<not> bad_handle h}"
  proof (cases rule: handle_obtain_cases)
    case full
    then show ?thesis by (simp add: set_eq_iff live_handles_iff bad_handle_iff not_le)
  qed simp
qed (auto simp: live_handles_iff used_slots_def bad_handle_iff)

section \<open>Properties\<close>

datatype handle_op = Alloc_handle nat u32 | Free_handle u32 | Addref u32 | Release u32

text \<open>The state after one call; an allocation that did not return would have no next state.\<close>

fun handle_exec :: "handle_op \<Rightarrow> 'a handle_state_scheme \<Rightarrow> 'a handle_state_scheme option" where
  "handle_exec (Alloc_handle k pid) s = map_option snd (handle_alloc (Some k) pid s)"
| "handle_exec (Free_handle h) s = Some (handle_free h s)"
| "handle_exec (Addref h) s = Some (handle_addref h s)"
| "handle_exec (Release h) s = Some (handle_release h s)"

fun handle_run :: "handle_op list \<Rightarrow> 'a handle_state_scheme \<Rightarrow> 'a handle_state_scheme option" where
  "handle_run [] s = Some s"
| "handle_run (e # es) s = (case handle_exec e s of None \<Rightarrow> None | Some s \<Rightarrow> handle_run es s)"

lemma handles_inv_refs:
  assumes "handles_inv s" and "h_valid v = h_valid (handles s (unat h))"
  shows "handles_inv (set_handle h v s)"
proof -
  have "used_slots (set_handle h v s) = used_slots s"
    using assms(2) by (auto simp: used_slots_def set_handle_def)
  with assms(1) show ?thesis by (simp add: handles_inv_def set_handle_def)
qed

lemma handle_exec_inv:
  assumes "handles_inv s"
  shows "\<exists>s'. handle_exec e s = Some s' \<and> handles_inv s'"
proof (cases e)
  case (Alloc_handle k pid)
  obtain h s' where al: "handle_alloc (Some k) pid s = Some (h, s')"
    by (cases rule: handle_alloc_cases [OF assms, of k pid]) auto
  then have "snd (handle_obtain (k, pid) s) = s'" by (simp add: handle_obtain_def)
  with handle_table.alloc_inv [OF assms, of "(k, pid)"] al show ?thesis by (simp add: Alloc_handle)
next
  case (Free_handle h)
  then show ?thesis using handle_table.free_any [OF assms, of h] by simp
next
  case (Addref h)
  then show ?thesis using assms by (auto simp: handle_addref_def Let_def intro: handles_inv_refs)
next
  case (Release h)
  then show ?thesis using assms by (auto simp: handle_release_def Let_def intro: handles_inv_refs)
qed

lemma handle_run_inv: "handles_inv s \<Longrightarrow> \<exists>s'. handle_run es s = Some s' \<and> handles_inv s'"
proof (induction es arbitrary: s)
  case (Cons e es)
  from handle_exec_inv [OF Cons.prems, of e] Cons.IH show ?case by fastforce
qed simp

lemma handle_init_slots: "i < MAX_HANDLES \<Longrightarrow> \<not> h_valid (handles (handle_init s) i)"
proof -
  let ?f = "\<lambda>i s. s\<lparr>handles := (handles s)(i := null_handle)\<rparr>"
  have "\<forall>i < MAX_HANDLES. \<not> h_valid (handles (for_range 0 MAX_HANDLES ?f s) i)"
    by (rule for_range_rule [where P = "\<lambda>k t. \<forall>i < k. \<not> h_valid (handles t i)"])
      (auto simp: null_handle_def less_Suc_eq)
  then show "i < MAX_HANDLES \<Longrightarrow> \<not> h_valid (handles (handle_init s) i)"
    by (simp add: handle_init_def Let_def seg_klog_def)
qed

lemma handle_init_inv: "handles_inv (handle_init s)"
proof -
  have "used_slots (handle_init s) = {}" by (auto simp: used_slots_def handle_init_slots)
  then show ?thesis
    by (simp add: handles_inv_def) (simp add: handle_init_def Let_def seg_klog_def MAX_HANDLES_def)
qed

text \<open>
  The handle table is sound after any history of allocations, frees and reference changes
  since \<open>handle_init\<close> (every one of which returns): \<open>handle_get_total\<close> is the number of valid
  handles and \<open>handle_get_free\<close> the rest; the next \<open>handle_alloc\<close> returns, with
  \<open>INVALID_HANDLE\<close> exactly when all 8192 handles are valid, and otherwise with a handle that was
  not valid, that now leads to the given segment, and that leaves every other handle as it was.
\<close>

theorem handle_alloc_after_any_history:
  "\<exists>t h t'. handle_run es (handle_init s) = Some t \<and>
     unat (handle_get_total t) = card {h. handle_valid h t} \<and>
     unat (handle_get_free t) = MAX_HANDLES - card {h. handle_valid h t} \<and>
     handle_alloc (Some k) pid t = Some (h, t') \<and>
     (if card {h. handle_valid h t} = MAX_HANDLES then h = INVALID_HANDLE \<and> handles t' = handles t
      else \<not> handle_valid h t \<and> handle_get_segment h t' = Some k \<and>
        handles t' = (handles t)(unat h := \<lparr>h_seg = Some k, h_refs = 1, h_owner_pid = pid, h_valid = True\<rparr>))"
proof -
  obtain t where t: "handle_run es (handle_init s) = Some t" "handles_inv t"
    using handle_run_inv [OF handle_init_inv] by blast
  have inj: "inj_on unat {h :: u32. handle_valid h t}" by (rule inj_onI) (simp add: word_unat_eq_iff)
  have "unat ` {h. handle_valid h t} = used_slots t"
  proof (rule set_eqI)
    fix i
    have "unat (of_nat i :: u32) = i" if "i < MAX_HANDLES"
      using that by (simp add: unat_of_nat take_bit_eq_mod MAX_HANDLES_def)
    then show "i \<in> unat ` {h. handle_valid h t} \<longleftrightarrow> i \<in> used_slots t"
      using live_handles_iff [of _ t] unfolding live_handles_def
      by (auto simp: used_slots_def image_iff) (metis (mono_tags, lifting) mem_Collect_eq used_slots_def)
  qed
  then have card: "card (used_slots t) = card {h. handle_valid h t}"
    using card_image [OF inj] by simp
  have total: "unat (handle_get_total t) = card {h. handle_valid h t}"
    using unat_handle_count [OF t(2)] by (simp add: handle_get_total_def card)
  have "unat (of_nat MAX_HANDLES - handle_count t) = unat (of_nat MAX_HANDLES :: u32) - unat (handle_count t)"
    using unat_handle_count [OF t(2)] card_used_slots [of t]
    by (intro unat_sub) (simp add: word_le_nat_alt MAX_HANDLES_def)
  then have free: "unat (handle_get_free t) = MAX_HANDLES - card {h. handle_valid h t}"
    using unat_handle_count [OF t(2)] by (simp add: handle_get_free_def card MAX_HANDLES_def)
  show ?thesis
  proof (cases rule: handle_alloc_cases [OF t(2), of k pid])
    case 1
    then have "card {h. handle_valid h t} = MAX_HANDLES" using card by simp
    with t total free 1 show ?thesis by (simp add: seg_klog_def)
  next
    case (2 h)
    then have "used_slots t \<subset> {..<MAX_HANDLES}" by (auto simp: used_slots_def)
    then have "card {h. handle_valid h t} \<noteq> MAX_HANDLES"
      using psubset_card_mono [of "{..<MAX_HANDLES}" "used_slots t"] card by simp
    with t total free 2 show ?thesis
      by (simp add: handle_get_segment_def set_handle_def bad_handle_iff handle_valid_def used_slots_def)
  qed
qed

end
