(* ===== verification/Proc.thy ===== *)
theory Proc
  imports KHeap Handle
begin

text \<open>
  Process control blocks (\<open>src/kernel/proc/proc.h\<close>), saved CPU contexts (\<open>context.c\<close>, x86_64
  build) and the process table (\<open>table.c\<close>). A process pointer is the address of its control
  block; the blocks form a store indexed by address, so that the queue links and the table may
  alias them as in the code. The state record also holds the run queue and counters of
  \<open>sched.c\<close>, the kernel heap the blocks are allocated from, and the millisecond clock that
  \<open>timer_get_ms\<close> reads. The table and counter operations hold their locks and are single steps.
\<close>

section \<open>Control blocks\<close>

definition MAX_PROC :: nat where "MAX_PROC = 8192"
definition PROC_NAME_MAX :: nat where "PROC_NAME_MAX = 32"
definition PROC_MAX_SEGMENTS :: nat where "PROC_MAX_SEGMENTS = 16"
definition PROC_MAX_FDS :: nat where "PROC_MAX_FDS = 64"

definition PID_INVALID :: u16 where "PID_INVALID = 0"
definition PID_KERNEL :: u16 where "PID_KERNEL = 0"
definition PID_INIT :: u16 where "PID_INIT = 1"
definition PID_ANY :: u16 where "PID_ANY = - 1"

datatype proc_state =
  PROC_NEW | PROC_READY | PROC_RUNNING | PROC_WAIT | PROC_BLOCKED | PROC_ZOMBIE | PROC_DEAD

definition PROC_FLAG_NONE :: u32 where "PROC_FLAG_NONE = 0"
definition PROC_FLAG_KERNEL :: u32 where "PROC_FLAG_KERNEL = 0x01"
definition PROC_FLAG_ELEVATED :: u32 where "PROC_FLAG_ELEVATED = 0x04"
definition PROC_FLAG_NOFORK :: u32 where "PROC_FLAG_NOFORK = 0x08"
definition PROC_FLAG_ORPHAN :: u32 where "PROC_FLAG_ORPHAN = 0x20"

definition CAP_NONE :: u32 where "CAP_NONE = 0"
definition CAP_KILL :: u32 where "CAP_KILL = 0x01"
definition CAP_SETUID :: u32 where "CAP_SETUID = 0x02"
definition CAP_ADMIN :: u32 where "CAP_ADMIN = 0x20"
definition CAP_ALL :: u32 where "CAP_ALL = 0xFFFFFFFF"

record cpu_context =
  rip :: u64
  rsp :: u64
  rflags :: u64
  rbx :: u64
  rbp :: u64
  r12 :: u64
  r13 :: u64
  r14 :: u64
  r15 :: u64
  cs :: u64
  ss :: u64
  cr3 :: u64

record process =
  pid :: u16
  csid :: u16
  parent :: u16
  pname :: string
  pstate :: proc_state
  pvalid :: bool
  pflags :: u32
  start_time :: u64
  cpu_time :: u64
  est_runtime :: u64
  wait_time :: u64
  last_run :: u64
  sleep_until :: u64
  exit_code :: int
  exit_signal :: int
  pml4 :: u64
  psegments :: "nat \<Rightarrow> u32"
  brk :: u64
  stack_base :: u64
  stack_size :: u64
  kernel_stack_base :: u64
  kernel_stack_size :: u64
  fds :: "nat \<Rightarrow> ptr"
  uid :: u16
  euid :: u16
  gid :: u16
  egid :: u16
  pcaps :: u32
  caps_effective :: u32
  caps_bounding :: u32
  ipc :: ptr
  base_priority :: int
  current_priority :: int
  nice :: int
  ctx :: cpu_context
  fpu_used :: bool
  waiting_for :: u16
  status_ptr :: ptr
  pnext :: ptr
  pprev :: ptr

definition zero_context :: cpu_context where
  "zero_context = \<lparr>rip = 0, rsp = 0, rflags = 0, rbx = 0, rbp = 0, r12 = 0, r13 = 0, r14 = 0,
     r15 = 0, cs = 0, ss = 0, cr3 = 0\<rparr>"

definition zero_process :: process where
  "zero_process = \<lparr>pid = 0, csid = 0, parent = 0, pname = [], pstate = PROC_NEW, pvalid = False,
     pflags = 0, start_time = 0, cpu_time = 0, est_runtime = 0, wait_time = 0, last_run = 0,
     sleep_until = 0, exit_code = 0, exit_signal = 0, pml4 = 0, psegments = (\<lambda>_. 0), brk = 0,
     stack_base = 0, stack_size = 0, kernel_stack_base = 0, kernel_stack_size = 0, fds = (\<lambda>_. 0),
     uid = 0, euid = 0, gid = 0, egid = 0, pcaps = 0, caps_effective = 0, caps_bounding = 0, ipc = 0,
     base_priority = 0, current_priority = 0, nice = 0, ctx = zero_context, fpu_used = False,
     waiting_for = 0, status_ptr = 0, pnext = 0, pprev = 0\<rparr>"

section \<open>Saved contexts\<close>

definition ctx_init_kernel :: "u64 \<Rightarrow> u64 \<Rightarrow> cpu_context \<Rightarrow> cpu_context" where
  "ctx_init_kernel entry stack_top c =
     (if entry = 0 \<or> stack_top = 0 then c
      else zero_context\<lparr>rip := entry, rsp := (stack_top AND NOT 0xF) - 8, rflags := 0x200,
             cs := 0x08, ss := 0x10\<rparr>)"

definition ctx_init_user :: "u64 \<Rightarrow> u64 \<Rightarrow> u64 \<Rightarrow> cpu_context \<Rightarrow> cpu_context" where
  "ctx_init_user entry user_stack table_root c =
     zero_context\<lparr>rip := entry, rsp := user_stack AND NOT 0xF, rflags := 0x200, cs := 0x1B,
       ss := 0x23, cr3 := table_root\<rparr>"

section \<open>Kernel process state\<close>

record sched_stats =
  context_switches :: u64
  idle_time :: u64
  total_ticks :: u64
  runnable_count :: u32
  blocked_count :: u32
  zombie_count :: u32

record kproc =
  pcb :: "ptr \<Rightarrow> process"
  proc_table :: "nat \<Rightarrow> ptr"
  next_pid :: u16
  next_csid :: u16
  current :: ptr
  run_queue_head :: ptr
  run_queue_tail :: ptr
  idle_proc :: ptr
  preempt_count :: int
  stats :: sched_stats
  timer_ms :: u64
  proc_heap :: kheap_state
  proc_log :: "klog_event list"

definition proc_klog :: "klog_event \<Rightarrow> 'a kproc_scheme \<Rightarrow> 'a kproc_scheme" where
  "proc_klog e s = s\<lparr>proc_log := proc_log s @ [e]\<rparr>"

text \<open>An assignment through a process pointer.\<close>

definition upd :: "ptr \<Rightarrow> (process \<Rightarrow> process) \<Rightarrow> 'a kproc_scheme \<Rightarrow> 'a kproc_scheme" where
  "upd p f s = s\<lparr>pcb := (pcb s)(p := f (pcb s p))\<rparr>"

section \<open>Process table\<close>

definition proc_table_init :: "'a kproc_scheme \<Rightarrow> 'a kproc_scheme" where
  "proc_table_init s =
     proc_klog (Log ''Process table initialized'')
       (s\<lparr>proc_table := (\<lambda>_. 0), next_pid := 1, next_csid := 1, current := 0\<rparr>)"

definition proc_alloc_pid :: "'a kproc_scheme \<Rightarrow> u16 \<times> 'a kproc_scheme" where
  "proc_alloc_pid s =
     (let found =
            (case find_from (\<lambda>i. proc_table s i = 0) (unat (next_pid s)) MAX_PROC of
               Some i \<Rightarrow> Some i
             | None \<Rightarrow> find_from (\<lambda>i. proc_table s i = 0) 1 (unat (next_pid s)))
      in case found of
           None \<Rightarrow> (PID_INVALID, s)
         | Some i \<Rightarrow>
             let p = of_nat i;
                 s = s\<lparr>next_pid := p + 1\<rparr>;
                 s = (if next_pid s \<ge> of_nat MAX_PROC then s\<lparr>next_pid := 1\<rparr> else s)
             in (p, s))"

definition proc_alloc_csid :: "'a kproc_scheme \<Rightarrow> u16 \<times> 'a kproc_scheme" where
  "proc_alloc_csid s =
     (let c = next_csid s;
          s = s\<lparr>next_csid := next_csid s + 1\<rparr>;
          s = (if next_csid s = 0 then s\<lparr>next_csid := 1\<rparr> else s)
      in (c, s))"

definition proc_table_add :: "ptr \<Rightarrow> 'a kproc_scheme \<Rightarrow> 'a kproc_scheme" where
  "proc_table_add p s =
     (if p = 0 \<or> pid (pcb s p) = PID_INVALID \<or> pid (pcb s p) \<ge> of_nat MAX_PROC then s
      else s\<lparr>proc_table := (proc_table s)(unat (pid (pcb s p)) := p)\<rparr>)"

definition proc_table_remove :: "u16 \<Rightarrow> 'a kproc_scheme \<Rightarrow> 'a kproc_scheme" where
  "proc_table_remove i s =
     (if i = PID_INVALID \<or> i \<ge> of_nat MAX_PROC then s
      else s\<lparr>proc_table := (proc_table s)(unat i := 0)\<rparr>)"

definition proc_find :: "u16 \<Rightarrow> 'a kproc_scheme \<Rightarrow> ptr" where
  "proc_find i s = (if i = PID_INVALID \<or> i \<ge> of_nat MAX_PROC then 0 else proc_table s (unat i))"

definition proc_count :: "'a kproc_scheme \<Rightarrow> u32" where
  "proc_count s =
     for_range 0 MAX_PROC
       (\<lambda>i n. if proc_table s i \<noteq> 0 \<and> pstate (pcb s (proc_table s i)) \<noteq> PROC_DEAD then n + 1 else n) 0"

text \<open>The pointers stored in \<open>out\<close>; the count is their number.\<close>

definition collect :: "(process \<Rightarrow> bool) \<Rightarrow> nat \<Rightarrow> 'a kproc_scheme \<Rightarrow> ptr list" where
  "collect P lim s =
     for_range 0 MAX_PROC
       (\<lambda>i out. if length out < lim \<and> proc_table s i \<noteq> 0 \<and> P (pcb s (proc_table s i))
                then out @ [proc_table s i] else out) []"

definition proc_get_csid_group :: "u16 \<Rightarrow> nat \<Rightarrow> 'a kproc_scheme \<Rightarrow> ptr list" where
  "proc_get_csid_group c lim s = collect (\<lambda>p. csid p = c) lim s"

definition proc_get_children :: "u16 \<Rightarrow> nat \<Rightarrow> 'a kproc_scheme \<Rightarrow> ptr list" where
  "proc_get_children par lim s = collect (\<lambda>p. parent p = par) lim s"

definition proc_reparent_children :: "u16 \<Rightarrow> 'a kproc_scheme \<Rightarrow> 'a kproc_scheme" where
  "proc_reparent_children old_parent s =
     for_range 0 MAX_PROC
       (\<lambda>i s. if proc_table s i \<noteq> 0 \<and> parent (pcb s (proc_table s i)) = old_parent
              then upd (proc_table s i) (\<lambda>p. p\<lparr>parent := PID_INIT, pflags := pflags p OR PROC_FLAG_ORPHAN\<rparr>) s
              else s) s"

definition proc_foreach ::
  "(ptr \<Rightarrow> 'a kproc_scheme \<Rightarrow> 'a kproc_scheme) \<Rightarrow> 'a kproc_scheme \<Rightarrow> 'a kproc_scheme" where
  "proc_foreach callback s =
     for_range 0 MAX_PROC
       (\<lambda>i s. if proc_table s i \<noteq> 0 then callback (proc_table s i) s else s) s"

section \<open>Facts about the table\<close>

lemma upd_simps [simp]:
  "pcb (upd p f s) = (pcb s)(p := f (pcb s p))" "proc_table (upd p f s) = proc_table s"
  "next_pid (upd p f s) = next_pid s" "current (upd p f s) = current s"
  "run_queue_head (upd p f s) = run_queue_head s" "run_queue_tail (upd p f s) = run_queue_tail s"
  "idle_proc (upd p f s) = idle_proc s" "stats (upd p f s) = stats s"
  "preempt_count (upd p f s) = preempt_count s" "timer_ms (upd p f s) = timer_ms s"
  "proc_log (upd p f s) = proc_log s" "proc_heap (upd p f s) = proc_heap s"
  "next_csid (upd p f s) = next_csid s"
  by (simp_all add: upd_def)

lemma proc_klog_simps [simp]:
  "pcb (proc_klog e s) = pcb s" "proc_table (proc_klog e s) = proc_table s"
  "next_pid (proc_klog e s) = next_pid s" "current (proc_klog e s) = current s"
  "run_queue_head (proc_klog e s) = run_queue_head s"
  "run_queue_tail (proc_klog e s) = run_queue_tail s" "idle_proc (proc_klog e s) = idle_proc s"
  "proc_heap (proc_klog e s) = proc_heap s" "stats (proc_klog e s) = stats s"
  "preempt_count (proc_klog e s) = preempt_count s" "timer_ms (proc_klog e s) = timer_ms s"
  by (simp_all add: proc_klog_def)

lemma unat_of_nat16 [simp]: "n < 65536 \<Longrightarrow> unat (of_nat n :: u16) = n"
  by (simp add: unat_of_nat take_bit_eq_mod)

lemma MAX_PROC_le: "(i :: u16) \<ge> of_nat MAX_PROC \<longleftrightarrow> MAX_PROC \<le> unat i"
  by (simp add: word_le_nat_alt MAX_PROC_def)

text \<open>The search for a free identifier covers the whole table.\<close>

definition pid_inv :: "'a kproc_scheme \<Rightarrow> bool" where
  "pid_inv s \<longleftrightarrow> 1 \<le> unat (next_pid s) \<and> unat (next_pid s) < MAX_PROC"

lemma proc_alloc_pid_cases:
  assumes "pid_inv s"
  obtains (full) "proc_alloc_pid s = (PID_INVALID, s)" "\<forall>i. 1 \<le> i \<and> i < MAX_PROC \<longrightarrow> proc_table s i \<noteq> 0"
  | (free) i n where "1 \<le> i" "i < MAX_PROC" "proc_table s i = 0"
      "proc_alloc_pid s = (of_nat i, s\<lparr>next_pid := n\<rparr>)" "1 \<le> unat n" "unat n < MAX_PROC"
proof -
  let ?P = "\<lambda>i. proc_table s i = 0" and ?k = "unat (next_pid s)"
  define found where "found = (case find_from ?P ?k MAX_PROC of
      Some i \<Rightarrow> Some i | None \<Rightarrow> find_from ?P 1 ?k)"
  have k: "1 \<le> ?k" "?k < MAX_PROC" using assms by (auto simp: pid_inv_def)
  show thesis
  proof (cases found)
    case None
    then have "find_from ?P ?k MAX_PROC = None" "find_from ?P 1 ?k = None"
      by (auto simp: found_def split: option.splits)
    then have "\<forall>i. 1 \<le> i \<and> i < MAX_PROC \<longrightarrow> proc_table s i \<noteq> 0"
      unfolding find_from_None_iff by (metis not_le_imp_less)
    moreover have "proc_alloc_pid s = (PID_INVALID, s)"
      using None unfolding found_def by (simp add: proc_alloc_pid_def)
    ultimately show thesis using full by blast
  next
    case (Some i)
    then have i: "1 \<le> i" "i < MAX_PROC" "proc_table s i = 0"
      using k by (auto simp: found_def find_from_Some_iff split: option.splits)
    let ?n = "if of_nat i + 1 \<ge> (of_nat MAX_PROC :: u16) then 1 else of_nat i + 1 :: u16"
    have "unat (of_nat i + 1 :: u16) = Suc i"
      using i(2) by (simp add: unat_word_ariths MAX_PROC_def)
    then have "1 \<le> unat ?n" "unat ?n < MAX_PROC"
      using MAX_PROC_le [of "of_nat i + 1"] by (auto simp: MAX_PROC_def)
    moreover have "proc_alloc_pid s = (of_nat i, s\<lparr>next_pid := ?n\<rparr>)"
      using Some unfolding found_def by (simp add: proc_alloc_pid_def Let_def)
    ultimately show thesis using free i by blast
  qed
qed

lemma collect_spec:
  "collect P lim s =
     take lim (map (proc_table s) (filter (\<lambda>i. proc_table s i \<noteq> 0 \<and> P (pcb s (proc_table s i))) [0..<MAX_PROC]))"
proof -
  let ?Q = "\<lambda>i. proc_table s i \<noteq> 0 \<and> P (pcb s (proc_table s i))"
  show ?thesis
    unfolding collect_def
  proof (rule for_range_rule [where P = "\<lambda>k out. out = take lim (map (proc_table s) (filter ?Q [0..<k]))"])
    fix i out assume out: "out = take lim (map (proc_table s) (filter ?Q [0..<i]))"
    show "(if length out < lim \<and> ?Q i then out @ [proc_table s i] else out) =
        take lim (map (proc_table s) (filter ?Q [0..<Suc i]))"
      using out by (auto simp: min_def split: if_splits)
  qed simp_all
qed

lemma reparent_spec:
  assumes "inj_on (proc_table s) {i. i < MAX_PROC \<and> proc_table s i \<noteq> 0}"
  shows "proc_reparent_children old s = s\<lparr>pcb := (\<lambda>a.
    if (\<exists>i < MAX_PROC. proc_table s i = a \<and> a \<noteq> 0) \<and> parent (pcb s a) = old
    then (pcb s a)\<lparr>parent := PID_INIT, pflags := pflags (pcb s a) OR PROC_FLAG_ORPHAN\<rparr> else pcb s a)\<rparr>"
proof -
  let ?orphan = "\<lambda>q. q\<lparr>parent := PID_INIT, pflags := pflags q OR PROC_FLAG_ORPHAN\<rparr>"
  define g where "g = (\<lambda>k a. if (\<exists>i < k. proc_table s i = a \<and> a \<noteq> 0) \<and> parent (pcb s a) = old
    then ?orphan (pcb s a) else pcb s a)"
  have "proc_reparent_children old s = s\<lparr>pcb := g MAX_PROC\<rparr>"
    unfolding proc_reparent_children_def
  proof (rule for_range_rule [where P = "\<lambda>k t. t = s\<lparr>pcb := g k\<rparr>"])
    have "g 0 = pcb s" by (simp add: g_def fun_eq_iff)
    then show "s = s\<lparr>pcb := g 0\<rparr>" by simp
  next
    fix i t assume i: "i < MAX_PROC" and t: "t = s\<lparr>pcb := g i\<rparr>"
    let ?a = "proc_table s i"
    have "\<not> (\<exists>j < i. proc_table s j = ?a)" if "?a \<noteq> 0"
      using that i assms unfolding inj_on_def
      by (metis (mono_tags, lifting) less_trans mem_Collect_eq nat_neq_iff)
    then have here: "g i ?a = pcb s ?a" by (auto simp: g_def)
    have "g (Suc i) = (if ?a \<noteq> 0 \<and> parent (pcb s ?a) = old then (g i)(?a := ?orphan (pcb s ?a)) else g i)"
      by (intro ext) (auto simp: g_def less_Suc_eq)
    then show "(if proc_table t i \<noteq> 0 \<and> parent (pcb t (proc_table t i)) = old
        then upd (proc_table t i) ?orphan t else t) = s\<lparr>pcb := g (Suc i)\<rparr>"
      by (simp add: t upd_def here)
  qed simp
  then show ?thesis by (simp add: g_def)
qed

end
