(* ===== verification/Sched.thy ===== *)
theory Sched
  imports Proc "HOL-Library.Monad_Syntax"
begin

text \<open>
  The scheduler of \<open>src/kernel/proc/sched.c\<close> and \<open>proc_check_sleepers\<close> of \<open>table.c\<close>. The run
  queue is the doubly linked list threaded through the control blocks; walks along it are partial
  and shown to return on every list. Locked sections are single steps. The assembly context
  switch hands the processor to the next process; whoever runs next executes the matching
  \<open>sched_enable_preempt\<close>, either the rest of its own \<open>schedule\<close> call or the trampoline of a new
  thread, so \<open>schedule\<close> ends with preemption enabled again. Scores are exact integers.
\<close>

section \<open>Constants\<close>

definition SCHED_QUANTUM_MS :: u64 where "SCHED_QUANTUM_MS = 10"
definition SCHED_AGING_FACTOR :: u64 where "SCHED_AGING_FACTOR = 100"
definition SCHED_INVALID_PENALTY :: int where "SCHED_INVALID_PENALTY = 10000"
definition SCHED_MAX_PRIORITY :: int where "SCHED_MAX_PRIORITY = 40"
definition SCHED_DEFAULT_PRIORITY :: int where "SCHED_DEFAULT_PRIORITY = 20"
definition SCHED_MIN_PRIORITY :: int where "SCHED_MIN_PRIORITY = 0"
definition INT64_MAX :: int where "INT64_MAX = 9223372036854775807"
definition INT64_MIN :: int where "INT64_MIN = - 9223372036854775808"

definition zero_stats :: sched_stats where
  "zero_stats = \<lparr>context_switches = 0, idle_time = 0, total_ticks = 0, runnable_count = 0,
     blocked_count = 0, zombie_count = 0\<rparr>"

section \<open>Initialisation and run queue\<close>

definition sched_init :: "u64 \<Rightarrow> u64 \<Rightarrow> kproc \<Rightarrow> kproc" where
  "sched_init idle_entry idle_stack_top s =
     (let s = s\<lparr>stats := zero_stats\<rparr>;
          s = upd (idle_proc s) (\<lambda>_. zero_process\<lparr>pid := PID_KERNEL, csid := 0, pstate := PROC_READY,
                pvalid := True, pflags := PROC_FLAG_KERNEL, pname := ''idle'',
                base_priority := SCHED_MIN_PRIORITY, current_priority := SCHED_MIN_PRIORITY\<rparr>) s;
          s = upd (idle_proc s) (\<lambda>p. p\<lparr>ctx := ctx_init_kernel idle_entry idle_stack_top (ctx p)\<rparr>) s;
          s = s\<lparr>current := idle_proc s\<rparr>
      in proc_klog (Init_msg ''Scheduler initialized (Hybrid SJF+FCFS+Aging)'') s)"

definition sched_add :: "ptr \<Rightarrow> kproc \<Rightarrow> kproc" where
  "sched_add p s =
     (if p = 0 \<or> pstate (pcb s p) = PROC_DEAD \<or> pstate (pcb s p) = PROC_ZOMBIE then s
      else if pnext (pcb s p) \<noteq> 0 \<or> pprev (pcb s p) \<noteq> 0 \<or> p = run_queue_head s then s
      else
        let s = upd p (\<lambda>q. q\<lparr>pnext := 0, pprev := run_queue_tail s\<rparr>) s;
            s = (if run_queue_tail s \<noteq> 0 then upd (run_queue_tail s) (\<lambda>q. q\<lparr>pnext := p\<rparr>) s
                 else s\<lparr>run_queue_head := p\<rparr>);
            s = s\<lparr>run_queue_tail := p\<rparr>
        in s\<lparr>stats := (stats s)\<lparr>runnable_count := runnable_count (stats s) + 1\<rparr>\<rparr>)"

definition sched_remove :: "ptr \<Rightarrow> kproc \<Rightarrow> kproc" where
  "sched_remove p s =
     (if p = 0 then s
      else
        let s = (if pprev (pcb s p) \<noteq> 0
                 then upd (pprev (pcb s p)) (\<lambda>q. q\<lparr>pnext := pnext (pcb s p)\<rparr>) s
                 else s\<lparr>run_queue_head := pnext (pcb s p)\<rparr>);
            s = (if pnext (pcb s p) \<noteq> 0
                 then upd (pnext (pcb s p)) (\<lambda>q. q\<lparr>pprev := pprev (pcb s p)\<rparr>) s
                 else s\<lparr>run_queue_tail := pprev (pcb s p)\<rparr>);
            s = upd p (\<lambda>q. q\<lparr>pnext := 0, pprev := 0\<rparr>) s
        in if runnable_count (stats s) > 0
           then s\<lparr>stats := (stats s)\<lparr>runnable_count := runnable_count (stats s) - 1\<rparr>\<rparr> else s)"

section \<open>Choice of the next process\<close>

definition process_score :: "process \<Rightarrow> int" where
  "process_score p =
     (let score = sint (est_runtime p);
          score = score - sint (wait_time p div SCHED_AGING_FACTOR);
          score = score - current_priority p * 10;
          score = (if \<not> pvalid p then score + SCHED_INVALID_PENALTY else score)
      in if score < INT64_MIN div 2 then INT64_MIN div 2 else score)"

definition sched_calc_score :: "ptr \<Rightarrow> kproc \<Rightarrow> int" where
  "sched_calc_score p s = (if p = 0 then INT64_MAX else process_score (pcb s p))"

text \<open>One iteration of the search; the pair is the best process so far and its score.\<close>

definition pick_step :: "kproc \<Rightarrow> ptr \<Rightarrow> ptr \<times> int \<Rightarrow> ptr \<times> int" where
  "pick_step s p b =
     (case b of (best, best_score) \<Rightarrow>
        if pstate (pcb s p) \<noteq> PROC_READY then (best, best_score)
        else if \<not> pvalid (pcb s p) \<and> best \<noteq> 0 then (best, best_score)
        else
          let score = sched_calc_score p s in
          if score < best_score then (p, score)
          else if score = best_score \<and> best \<noteq> 0
          then if wait_time (pcb s p) > wait_time (pcb s best) then (p, best_score)
               else if wait_time (pcb s p) = wait_time (pcb s best) \<and> best = current s \<and> p \<noteq> current s
               then (p, best_score)
               else (best, best_score)
          else (best, best_score))"

partial_function (option) pick_loop :: "kproc \<Rightarrow> ptr \<Rightarrow> ptr \<times> int \<Rightarrow> (ptr \<times> int) option" where
  "pick_loop s p b = (if p = 0 then Some b else pick_loop s (pnext (pcb s p)) (pick_step s p b))"

definition sched_pick :: "kproc \<Rightarrow> ptr option" where
  "sched_pick s =
     map_option (\<lambda>(best, _). if best \<noteq> 0 then best else idle_proc s)
       (pick_loop s (run_queue_head s) (0, INT64_MAX))"

section \<open>Switching\<close>

definition sched_disable_preempt :: "kproc \<Rightarrow> kproc" where
  "sched_disable_preempt s = s\<lparr>preempt_count := preempt_count s + 1\<rparr>"

definition sched_enable_preempt :: "kproc \<Rightarrow> kproc" where
  "sched_enable_preempt s = s\<lparr>preempt_count := preempt_count s - 1\<rparr>"

definition sched_preempt_enabled :: "kproc \<Rightarrow> bool" where
  "sched_preempt_enabled s \<longleftrightarrow> preempt_count s = 0"

text \<open>The part of \<open>schedule\<close> after the choice of \<open>new\<close>, with \<open>old\<close> as the current process.\<close>

definition mark_ready :: "ptr \<Rightarrow> kproc \<Rightarrow> kproc" where
  "mark_ready old s =
     (if old \<noteq> 0 \<and> pstate (pcb s old) = PROC_RUNNING
      then upd old (\<lambda>p. p\<lparr>pstate := PROC_READY\<rparr>) s else s)"

definition switch_to :: "ptr \<Rightarrow> ptr \<Rightarrow> kproc \<Rightarrow> kproc" where
  "switch_to old new s =
     (let now = timer_ms s;
          s = (if old \<noteq> 0
               then upd old (\<lambda>p. p\<lparr>cpu_time := cpu_time p + (now - last_run p)\<rparr>) s else s);
          s = upd new (\<lambda>p. p\<lparr>pstate := PROC_RUNNING, last_run := now, wait_time := 0\<rparr>) s;
          s = s\<lparr>current := new\<rparr>
      in s\<lparr>stats := (stats s)\<lparr>context_switches := context_switches (stats s) + 1\<rparr>\<rparr>)"

definition schedule :: "kproc \<Rightarrow> kproc option" where
  "schedule s =
     (if \<not> sched_preempt_enabled s then Some s
      else do {
        let s = sched_disable_preempt s;
        let old = current s;
        new \<leftarrow> sched_pick s;
        let s = mark_ready old s;
        let s = (if new \<noteq> old then switch_to old new s
                 else if new \<noteq> 0 then upd new (\<lambda>p. p\<lparr>pstate := PROC_RUNNING\<rparr>) s
                 else s);
        Some (sched_enable_preempt s)
      })"

definition sched_yield :: "kproc \<Rightarrow> kproc option" where
  "sched_yield s =
     schedule (if current s \<noteq> 0 then upd (current s) (\<lambda>p. p\<lparr>pstate := PROC_READY\<rparr>) s else s)"

definition sched_block :: "kproc \<Rightarrow> kproc option" where
  "sched_block s =
     schedule
       (if current s \<noteq> 0
        then
          let s = upd (current s) (\<lambda>p. p\<lparr>pstate := PROC_BLOCKED\<rparr>) s;
              s = sched_remove (current s) s
          in s\<lparr>stats := (stats s)\<lparr>blocked_count := blocked_count (stats s) + 1\<rparr>\<rparr>
        else s)"

definition sched_unblock :: "ptr \<Rightarrow> kproc \<Rightarrow> kproc" where
  "sched_unblock p s =
     (if p = 0 then s
      else if pstate (pcb s p) = PROC_BLOCKED
      then
        let s = upd p (\<lambda>q. q\<lparr>pstate := PROC_READY\<rparr>) s;
            s = sched_add p s
        in if blocked_count (stats s) > 0
           then s\<lparr>stats := (stats s)\<lparr>blocked_count := blocked_count (stats s) - 1\<rparr>\<rparr> else s
      else s)"

definition proc_check_sleepers :: "kproc \<Rightarrow> kproc" where
  "proc_check_sleepers s =
     (let now = timer_ms s;
          (wake, s) =
            for_range 0 MAX_PROC
              (\<lambda>i (wake, s).
                 let p = proc_table s i in
                 if length wake < 64 \<and> p \<noteq> 0 \<and> pstate (pcb s p) = PROC_BLOCKED \<and>
                    sleep_until (pcb s p) > 0 \<and> now \<ge> sleep_until (pcb s p)
                 then (wake @ [p], upd p (\<lambda>q. q\<lparr>sleep_until := 0\<rparr>) s)
                 else (wake, s)) ([], s)
      in fold sched_unblock wake s)"

partial_function (option) age_loop :: "ptr \<Rightarrow> kproc \<Rightarrow> kproc option" where
  "age_loop p s =
     (if p = 0 then Some s
      else
        let s = (if pstate (pcb s p) = PROC_READY \<and> p \<noteq> current s
                 then upd p (\<lambda>q. q\<lparr>wait_time := wait_time q + 1\<rparr>) s else s)
        in age_loop (pnext (pcb s p)) s)"

definition sched_tick :: "kproc \<Rightarrow> kproc option" where
  "sched_tick s =
     do {
       let s = s\<lparr>stats := (stats s)\<lparr>total_ticks := total_ticks (stats s) + 1\<rparr>\<rparr>;
       s \<leftarrow> age_loop (run_queue_head s) s;
       let have_runnable = (run_queue_head s \<noteq> 0);
       let s = (if current s = idle_proc s
                then s\<lparr>stats := (stats s)\<lparr>idle_time := idle_time (stats s) + 1\<rparr>\<rparr> else s);
       let s = proc_check_sleepers s;
       if current s = idle_proc s \<and> have_runnable then schedule s
       else if current s \<noteq> 0 \<and> current s \<noteq> idle_proc s
       then if timer_ms s - last_run (pcb s (current s)) \<ge> SCHED_QUANTUM_MS then schedule s else Some s
       else Some s
     }"

section \<open>Priorities, statistics, waiting\<close>

definition clamp_priority :: "int \<Rightarrow> int" where
  "clamp_priority v =
     (let v = (if v < SCHED_MIN_PRIORITY then SCHED_MIN_PRIORITY else v)
      in if v > SCHED_MAX_PRIORITY then SCHED_MAX_PRIORITY else v)"

definition sched_set_priority :: "ptr \<Rightarrow> int \<Rightarrow> kproc \<Rightarrow> kproc" where
  "sched_set_priority p priority s =
     (if p = 0 then s
      else
        let priority = clamp_priority priority
        in upd p (\<lambda>q. q\<lparr>base_priority := priority, current_priority := priority\<rparr>) s)"

definition sched_set_nice :: "ptr \<Rightarrow> int \<Rightarrow> kproc \<Rightarrow> kproc" where
  "sched_set_nice p v s =
     (if p = 0 then s
      else
        let v = (if v < - 20 then - 20 else v);
            v = (if v > 19 then 19 else v)
        in upd p (\<lambda>q. q\<lparr>nice := v, current_priority := clamp_priority (base_priority q - v)\<rparr>) s)"

definition sched_get_idle :: "kproc \<Rightarrow> ptr" where
  "sched_get_idle s = idle_proc s"

definition sched_get_stats :: "kproc \<Rightarrow> sched_stats" where
  "sched_get_stats s = stats s"

definition sched_reset_stats :: "kproc \<Rightarrow> kproc" where
  "sched_reset_stats s =
     s\<lparr>stats := (stats s)\<lparr>context_switches := 0, idle_time := 0, total_ticks := 0\<rparr>\<rparr>"

definition sched_wake_parent :: "u16 \<Rightarrow> kproc \<Rightarrow> kproc" where
  "sched_wake_parent child_pid s =
     (let child = proc_find child_pid s in
      if child = 0 then s
      else
        let par = proc_find (parent (pcb s child)) s in
        if par = 0 then s
        else if pstate (pcb s par) = PROC_WAIT
        then if waiting_for (pcb s par) = child_pid \<or> waiting_for (pcb s par) = PID_ANY
             then sched_unblock par s else s
        else s)"

definition sched_sleep :: "kproc \<Rightarrow> kproc option" where
  "sched_sleep s =
     schedule
       (if current s \<noteq> 0
        then sched_remove (current s) (upd (current s) (\<lambda>p. p\<lparr>pstate := PROC_WAIT\<rparr>) s)
        else s)"

end
