(* ===== verification/Run_Queue.thy ===== *)
theory Run_Queue
  imports Sched
begin

text \<open>
  The run queue as a list. The doubly linked list through the control blocks represents a list of
  distinct processes; adding appends, removing a queued process deletes it, and the walks of the
  scheduler are folds over the list, so they return. From this follow the choice made by
  \<open>sched_pick\<close> and two consequences the code does not intend: removing a process that is not
  queued empties the queue, and waking a waiting parent has no effect.
\<close>

section \<open>Linked lists in the store\<close>

definition first :: "ptr list \<Rightarrow> ptr \<Rightarrow> ptr" where
  "first xs e = (case xs of [] \<Rightarrow> e | x # _ \<Rightarrow> x)"

definition final :: "ptr \<Rightarrow> ptr list \<Rightarrow> ptr" where
  "final b xs = (if xs = [] then b else last xs)"

lemma first_simps [simp]: "first [] e = e" "first (x # xs) e = x" "first (xs @ ys) e = first xs (first ys e)"
  by (simp_all add: first_def split: list.splits)

lemma final_simps [simp]: "final b [] = b" "final b (x # xs) = final x xs" "final b (xs @ ys) = final (final b xs) ys"
  by (auto simp: final_def)

fun linked :: "(ptr \<Rightarrow> process) \<Rightarrow> ptr \<Rightarrow> ptr list \<Rightarrow> ptr \<Rightarrow> bool" where
  "linked st b [] e = True"
| "linked st b (x # xs) e = (pprev (st x) = b \<and> pnext (st x) = first xs e \<and> linked st x xs e)"

lemma linked_append: "linked st b (xs @ ys) e \<longleftrightarrow> linked st b xs (first ys e) \<and> linked st (final b xs) ys e"
  by (induction xs arbitrary: b) auto

lemma linked_cong:
  "(\<And>x. x \<in> set xs \<Longrightarrow> pnext (st x) = pnext (st' x) \<and> pprev (st x) = pprev (st' x)) \<Longrightarrow>
     linked st b xs e = linked st' b xs e"
  by (induction xs arbitrary: b) auto

text \<open>Redirecting the outer links of a segment.\<close>

lemma linked_new_end:
  assumes "linked st b xs e" and "xs \<noteq> []" and "distinct xs"
  shows "linked (st(last xs := (st (last xs))\<lparr>pnext := e'\<rparr>)) b xs e'"
  using assms
proof (induction xs arbitrary: b)
  case (Cons x xs)
  show ?case
  proof (cases "xs = []")
    case False
    then have "last xs \<noteq> x" "first xs e = first xs e'"
      using Cons.prems(3) last_in_set [OF False] by (auto simp: first_def split: list.splits)
    with False Cons show ?thesis by auto
  qed (use Cons in simp)
qed simp

lemma linked_new_start:
  assumes "linked st b (x # xs) e" and "x \<notin> set xs"
  shows "linked (st(x := (st x)\<lparr>pprev := b'\<rparr>)) b' (x # xs) e"
proof -
  have "linked (st(x := (st x)\<lparr>pprev := b'\<rparr>)) x xs e = linked st x xs e"
    using assms(2) by (intro linked_cong) auto
  with assms(1) show ?thesis by simp
qed

section \<open>The represented queue\<close>

definition queue_rel :: "kproc \<Rightarrow> ptr list \<Rightarrow> bool" where
  "queue_rel s xs \<longleftrightarrow> distinct xs \<and> 0 \<notin> set xs \<and> run_queue_head s = first xs 0 \<and>
     run_queue_tail s = final 0 xs \<and> linked (pcb s) 0 xs 0 \<and>
     (\<forall>p. p \<noteq> 0 \<and> p \<notin> set xs \<longrightarrow> pnext (pcb s p) = 0 \<and> pprev (pcb s p) = 0)"

lemma queue_rel_cong:
  assumes "queue_rel s xs" and "run_queue_head t = run_queue_head s" and "run_queue_tail t = run_queue_tail s"
    and "\<And>p. p \<noteq> 0 \<Longrightarrow> pnext (pcb t p) = pnext (pcb s p) \<and> pprev (pcb t p) = pprev (pcb s p)"
  shows "queue_rel t xs"
proof -
  have "linked (pcb t) 0 xs 0 = linked (pcb s) 0 xs 0"
    using assms(1) by (intro linked_cong assms(4)) (auto simp: queue_rel_def)
  with assms show ?thesis by (simp add: queue_rel_def)
qed

lemma queue_links:
  assumes "queue_rel s (as @ p # bs)"
  shows "pprev (pcb s p) = final 0 as" and "pnext (pcb s p) = first bs 0"
  using assms by (auto simp: queue_rel_def linked_append)

lemma first_0_iff: "0 \<notin> set xs \<Longrightarrow> first xs 0 = 0 \<longleftrightarrow> xs = []"
  by (cases xs) auto

lemma final_0_iff: "0 \<notin> set xs \<Longrightarrow> final 0 xs = 0 \<longleftrightarrow> xs = []"
  unfolding final_def by (metis last_in_set)

lemma queued_iff:
  assumes "queue_rel s xs" and "p \<noteq> 0"
  shows "pnext (pcb s p) \<noteq> 0 \<or> pprev (pcb s p) \<noteq> 0 \<or> p = run_queue_head s \<longleftrightarrow> p \<in> set xs"
proof
  assume "p \<in> set xs"
  then obtain as bs where xs: "xs = as @ p # bs" by (auto simp: in_set_conv_decomp)
  have z: "0 \<notin> set as" using assms(1) xs by (auto simp: queue_rel_def)
  show "pnext (pcb s p) \<noteq> 0 \<or> pprev (pcb s p) \<noteq> 0 \<or> p = run_queue_head s"
    using queue_links(1) [of s as p bs] assms(1) final_0_iff [OF z] by (auto simp: xs queue_rel_def)
next
  assume "pnext (pcb s p) \<noteq> 0 \<or> pprev (pcb s p) \<noteq> 0 \<or> p = run_queue_head s"
  then show "p \<in> set xs"
    using assms by (cases xs) (auto simp: queue_rel_def)
qed

lemma sched_add_queue:
  assumes "queue_rel s xs" and "p \<noteq> 0" and "p \<notin> set xs" and "pstate (pcb s p) \<notin> {PROC_DEAD, PROC_ZOMBIE}"
  shows "queue_rel (sched_add p s) (xs @ [p])"
proof -
  define t where "t = sched_add p s"
  have q: "distinct xs" "0 \<notin> set xs" "run_queue_head s = first xs 0" "run_queue_tail s = final 0 xs"
      "linked (pcb s) 0 xs 0" "\<And>p. p \<noteq> 0 \<Longrightarrow> p \<notin> set xs \<Longrightarrow> pnext (pcb s p) = 0 \<and> pprev (pcb s p) = 0"
    using assms(1) by (auto simp: queue_rel_def)
  have nq: "\<not> (pnext (pcb s p) \<noteq> 0 \<or> pprev (pcb s p) \<noteq> 0 \<or> p = run_queue_head s)"
    using queued_iff [OF assms(1,2)] assms(3) by blast
  show ?thesis
  proof (cases "xs = []")
    case True
    have pcb: "pcb t = (pcb s)(p := (pcb s p)\<lparr>pnext := 0, pprev := 0\<rparr>)"
      and ends: "run_queue_head t = p" "run_queue_tail t = p"
      using assms(2,4) nq True q by (auto simp: t_def sched_add_def Let_def)
    show ?thesis unfolding t_def [symmetric] queue_rel_def
      using True q assms(2) by (simp add: pcb ends)
  next
    case False
    let ?l = "last xs"
    have l: "?l \<in> set xs" "?l \<noteq> 0" "?l \<noteq> p" using False q(2) assms(3) last_in_set by metis+
    let ?st = "(pcb s)(p := (pcb s p)\<lparr>pnext := 0, pprev := ?l\<rparr>)"
    have pcb: "pcb t = ?st(?l := (?st ?l)\<lparr>pnext := p\<rparr>)"
      and ends: "run_queue_head t = first xs 0" "run_queue_tail t = p"
      using assms(2,4) nq False l q by (auto simp: t_def sched_add_def Let_def final_def)
    have "linked ?st 0 xs 0 = linked (pcb s) 0 xs 0" using assms(3) by (intro linked_cong) auto
    then have "linked (pcb t) 0 xs p"
      unfolding pcb using linked_new_end [OF _ False q(1), of ?st 0 0 p] q(5) by simp
    then have "linked (pcb t) 0 (xs @ [p]) 0"
      using False l by (simp add: linked_append pcb final_def)
    then show ?thesis
      unfolding t_def [symmetric] queue_rel_def
      using False q assms(2,3) l by (auto simp: ends first_def pcb split: list.splits)
  qed
qed

lemma sched_add_queued:
  assumes "queue_rel s xs" and "p \<in> set xs"
  shows "sched_add p s = s"
proof -
  have "p \<noteq> 0" using assms by (auto simp: queue_rel_def)
  with queued_iff [OF assms(1), of p] assms(2) show ?thesis by (simp add: sched_add_def)
qed

text \<open>The store and the ends of the queue after a removal.\<close>

lemma sched_remove_parts:
  assumes "queue_rel s (as @ p # bs)"
  defines "st1 \<equiv> (if as = [] then pcb s else (pcb s)(last as := (pcb s (last as))\<lparr>pnext := first bs 0\<rparr>))"
  defines "st2 \<equiv> (if bs = [] then st1 else st1(hd bs := (st1 (hd bs))\<lparr>pprev := final 0 as\<rparr>))"
  shows "pcb (sched_remove p s) = st2(p := (st2 p)\<lparr>pnext := 0, pprev := 0\<rparr>)"
    and "run_queue_head (sched_remove p s) = first (as @ bs) 0"
    and "run_queue_tail (sched_remove p s) = final 0 (as @ bs)"
proof -
  have q: "distinct (as @ p # bs)" "0 \<notin> set (as @ p # bs)" "run_queue_head s = first (as @ p # bs) 0"
      "run_queue_tail s = final 0 (as @ p # bs)"
    using assms(1) by (auto simp: queue_rel_def)
  note links = queue_links [OF assms(1)]
  define t where "t = (if pprev (pcb s p) \<noteq> 0 then upd (pprev (pcb s p)) (\<lambda>q. q\<lparr>pnext := pnext (pcb s p)\<rparr>) s
      else s\<lparr>run_queue_head := pnext (pcb s p)\<rparr>)"
  have as: "pprev (pcb s p) = 0 \<longleftrightarrow> as = []" and bs: "pnext (pcb s p) = 0 \<longleftrightarrow> bs = []"
    using links q(2) final_0_iff [of as] first_0_iff [of bs] by auto
  have "last as \<noteq> p" if "as \<noteq> []" using q(1) last_in_set [OF that] by auto
  then have t: "pcb t = st1" "pnext (pcb t p) = first bs 0" "pprev (pcb t p) = final 0 as"
      "run_queue_head t = first (as @ bs) 0" "run_queue_tail t = run_queue_tail s"
    using as links q by (cases as; simp add: t_def st1_def final_def; fail)+
  define u where "u = (if pnext (pcb t p) \<noteq> 0 then upd (pnext (pcb t p)) (\<lambda>q. q\<lparr>pprev := pprev (pcb t p)\<rparr>) t
      else t\<lparr>run_queue_tail := pprev (pcb t p)\<rparr>)"
  have u: "pcb u = st2" "run_queue_head u = first (as @ bs) 0" "run_queue_tail u = final 0 (as @ bs)"
    using t bs links q(4)
    by (cases bs; simp add: u_def st2_def final_def; fail)+
  have "p \<noteq> 0" using q(2) by auto
  then have "\<exists>x. sched_remove p s = (upd p (\<lambda>q. q\<lparr>pnext := 0, pprev := 0\<rparr>) u)\<lparr>stats := x\<rparr>"
    unfolding sched_remove_def Let_def t_def [symmetric] u_def [symmetric]
    by (auto intro: exI [of _ "stats u"] exI)
  then show "pcb (sched_remove p s) = st2(p := (st2 p)\<lparr>pnext := 0, pprev := 0\<rparr>)"
      "run_queue_head (sched_remove p s) = first (as @ bs) 0"
      "run_queue_tail (sched_remove p s) = final 0 (as @ bs)"
    using u by auto
qed

lemma sched_remove_queue:
  assumes "queue_rel s (as @ p # bs)"
  shows "queue_rel (sched_remove p s) (as @ bs)"
proof -
  let ?t = "sched_remove p s"
  define st1 where "st1 = (if as = [] then pcb s else (pcb s)(last as := (pcb s (last as))\<lparr>pnext := first bs 0\<rparr>))"
  define st2 where "st2 = (if bs = [] then st1 else st1(hd bs := (st1 (hd bs))\<lparr>pprev := final 0 as\<rparr>))"
  note parts = sched_remove_parts [OF assms, folded st1_def, folded st2_def]
  have q: "distinct (as @ p # bs)" "0 \<notin> set (as @ p # bs)" "linked (pcb s) 0 as p" "linked (pcb s) p bs 0"
      "\<And>x. x \<noteq> 0 \<Longrightarrow> x \<notin> set (as @ p # bs) \<Longrightarrow> pnext (pcb s x) = 0 \<and> pprev (pcb s x) = 0"
    using assms by (auto simp: queue_rel_def linked_append)
  have dis: "set as \<inter> set bs = {}" using q(1) by auto
  have la: "last as \<in> set as" "last as \<notin> set bs" if "as \<noteq> []" 
    using that dis by (simp, metis disjoint_iff last_in_set)
  have hb: "hd bs \<in> set bs" "hd bs \<notin> set as" if "bs \<noteq> []" 
    using that dis by (metis list.set_sel(1), metis disjoint_iff list.set_sel(1))
  have "linked st1 0 as (first bs 0)"
    using linked_new_end [OF q(3), of "first bs 0"] q(1) by (cases "as = []") (simp_all add: st1_def)
  moreover have "linked (pcb ?t) 0 as (first bs 0) = linked st1 0 as (first bs 0)"
    using q(1) hb by (intro linked_cong) (auto simp: parts(1) st2_def)
  moreover have "linked st1 p bs 0 = linked (pcb s) p bs 0"
    using q(1) la by (intro linked_cong) (auto simp: st1_def)
  then have "linked st2 (final 0 as) bs 0"
    using linked_new_start [of st1 p "hd bs" "tl bs" 0 "final 0 as"] q(1,4)
    by (cases bs) (simp_all add: st2_def)
  moreover have "linked (pcb ?t) (final 0 as) bs 0 = linked st2 (final 0 as) bs 0"
    using q(1) by (intro linked_cong) (auto simp: parts(1))
  ultimately have "linked (pcb ?t) 0 (as @ bs) 0" by (simp add: linked_append)
  moreover have "pnext (pcb ?t x) = 0 \<and> pprev (pcb ?t x) = 0" if "x \<noteq> 0" "x \<notin> set (as @ bs)" for x
  proof (cases "x = p")
    case False
    have "as \<noteq> [] \<Longrightarrow> x \<noteq> last as" "bs \<noteq> [] \<Longrightarrow> x \<noteq> hd bs" using that la(1) hb(1) by auto
    then have "st2 x = pcb s x" by (simp add: st2_def st1_def)
    with False that q(5) [of x] show ?thesis by (simp add: parts(1))
  qed (simp add: parts(1))
  ultimately show ?thesis using q(1,2) by (simp add: queue_rel_def parts)
qed

lemma sched_remove_queue_remove1:
  assumes "queue_rel s xs" and "p \<in> set xs"
  shows "queue_rel (sched_remove p s) (remove1 p xs)"
proof -
  obtain as bs where xs: "xs = as @ p # bs" and "p \<notin> set as"
    using assms(2) by (meson split_list_first)
  then have "remove1 p xs = as @ bs" by (simp add: remove1_append)
  with sched_remove_queue [of s as p bs] assms(1) xs show ?thesis by simp
qed

lemma sched_remove_unqueued:
  assumes "queue_rel s xs" and "p \<noteq> 0" and "p \<notin> set xs"
  shows "run_queue_head (sched_remove p s) = 0" and "run_queue_tail (sched_remove p s) = 0"
  using assms by (auto simp: queue_rel_def sched_remove_def Let_def)

lemma pstate_add [simp]: "pstate (pcb (sched_add p s) q) = pstate (pcb s q)"
  by (auto simp: sched_add_def Let_def)

lemma pstate_remove [simp]: "pstate (pcb (sched_remove p s) q) = pstate (pcb s q)"
  by (auto simp: sched_remove_def Let_def)

section \<open>Walks along the queue\<close>

lemma pick_loop_fold:
  assumes "linked (pcb s) b xs 0" and "0 \<notin> set xs"
  shows "pick_loop s (first xs 0) acc = Some (fold (pick_step s) xs acc)"
  using assms
proof (induction xs arbitrary: b acc)
  case Nil
  then show ?case by (subst pick_loop.simps) simp
next
  case (Cons x xs)
  then show ?case using Cons.IH [of x "pick_step s x acc"] by (subst pick_loop.simps) simp
qed

lemma sched_pick_fold:
  assumes "queue_rel s xs"
  shows "sched_pick s = Some (let b = fst (fold (pick_step s) xs (0, INT64_MAX)) in
    if b \<noteq> 0 then b else idle_proc s)"
proof -
  have "pick_loop s (run_queue_head s) (0, INT64_MAX) = Some (fold (pick_step s) xs (0, INT64_MAX))"
    using pick_loop_fold [of s 0 xs] assms by (simp add: queue_rel_def)
  then show ?thesis by (simp add: sched_pick_def Let_def split: prod.splits)
qed

text \<open>The choice is a queued process or the idle process.\<close>

lemma pick_fold_elem: "fst (fold (pick_step s) xs b) \<in> insert (fst b) (set xs)"
proof (induction xs arbitrary: b)
  case (Cons x xs)
  have "fst (pick_step s x b) \<in> {x, fst b}" by (auto simp: pick_step_def Let_def split: prod.splits)
  with Cons.IH [of "pick_step s x b"] show ?case by auto
qed simp

lemma sched_pick_elem:
  assumes "queue_rel s xs"
  shows "\<exists>r. sched_pick s = Some r \<and> (r \<in> set xs \<and> r \<noteq> 0 \<or> r = idle_proc s)"
  using pick_fold_elem [of s xs "(0, INT64_MAX)"] sched_pick_fold [OF assms] by (auto simp: Let_def)

definition is_ready :: "kproc \<Rightarrow> ptr \<Rightarrow> bool" where
  "is_ready s q \<longleftrightarrow> pstate (pcb s q) = PROC_READY"

text \<open>What the search knows after the processes \<open>ys\<close>.\<close>

definition best_of :: "kproc \<Rightarrow> ptr list \<Rightarrow> ptr \<times> int \<Rightarrow> bool" where
  "best_of s ys b \<longleftrightarrow>
     (if fst b = 0 then snd b = INT64_MAX \<and> (\<forall>q \<in> set ys. \<not> is_ready s q)
      else fst b \<in> set ys \<and> is_ready s (fst b) \<and> snd b = process_score (pcb s (fst b)) \<and>
        (\<forall>q \<in> set ys. is_ready s q \<and> pvalid (pcb s q) \<longrightarrow> snd b \<le> process_score (pcb s q)))"

lemma pick_step_best:
  assumes "best_of s ys b" and "p \<noteq> 0" and "is_ready s p \<Longrightarrow> process_score (pcb s p) < INT64_MAX"
  shows "best_of s (ys @ [p]) (pick_step s p b)"
proof (cases b)
  case (Pair best sc)
  show ?thesis
  proof (cases "is_ready s p")
    case False
    then show ?thesis using assms(1) by (auto simp: Pair pick_step_def best_of_def is_ready_def)
  next
    case True
    show ?thesis
      using assms(1,2) assms(3) [OF True] True
      by (auto simp: Pair pick_step_def best_of_def is_ready_def sched_calc_score_def Let_def split: if_splits)
  qed
qed

lemma pick_fold_best:
  assumes "best_of s ys b" and "0 \<notin> set xs" and "\<And>p. p \<in> set xs \<Longrightarrow> is_ready s p \<Longrightarrow> process_score (pcb s p) < INT64_MAX"
  shows "best_of s (ys @ xs) (fold (pick_step s) xs b)"
  using assms
proof (induction xs arbitrary: ys b)
  case (Cons x xs)
  have "best_of s (ys @ [x]) (pick_step s x b)" using Cons.prems by (intro pick_step_best) auto
  from Cons.IH [OF this] Cons.prems show ?case by simp
qed simp

lemma sched_pick_best:
  assumes "queue_rel s xs" and "\<And>p. p \<in> set xs \<Longrightarrow> is_ready s p \<Longrightarrow> process_score (pcb s p) < INT64_MAX"
  obtains (none) "sched_pick s = Some (idle_proc s)" "\<forall>q \<in> set xs. \<not> is_ready s q"
  | (some) r where "sched_pick s = Some r" "r \<in> set xs" "is_ready s r"
      "\<forall>q \<in> set xs. is_ready s q \<and> pvalid (pcb s q) \<longrightarrow> process_score (pcb s r) \<le> process_score (pcb s q)"
proof -
  let ?b = "fold (pick_step s) xs (0, INT64_MAX)"
  have "best_of s ([] @ xs) ?b"
    using assms by (intro pick_fold_best) (auto simp: best_of_def queue_rel_def)
  then have b: "best_of s xs ?b" by simp
  show thesis
  proof (cases "fst ?b = 0")
    case True
    with b show thesis by (intro none) (auto simp: sched_pick_fold [OF assms(1)] best_of_def)
  next
    case False
    with b show thesis by (intro some [of "fst ?b"]) (auto simp: sched_pick_fold [OF assms(1)] best_of_def)
  qed
qed

section \<open>Switching and ticking keep the queue\<close>

lemma queue_rel_upd:
  assumes "queue_rel s xs" and "\<And>q. pnext (f q) = pnext q \<and> pprev (f q) = pprev q"
  shows "queue_rel (upd p f s) xs"
  using assms(1) by (rule queue_rel_cong) (use assms(2) in auto)

lemma queue_rel_fields [simp]:
  "queue_rel (s\<lparr>stats := x\<rparr>) xs = queue_rel s xs" "queue_rel (s\<lparr>current := c\<rparr>) xs = queue_rel s xs"
  "queue_rel (s\<lparr>preempt_count := n\<rparr>) xs = queue_rel s xs" "queue_rel (proc_klog e s) xs = queue_rel s xs"
  by (simp_all add: queue_rel_def)

lemma disable_preempt_simps [simp]:
  "pcb (sched_disable_preempt s) = pcb s" "current (sched_disable_preempt s) = current s"
  "run_queue_head (sched_disable_preempt s) = run_queue_head s" "timer_ms (sched_disable_preempt s) = timer_ms s"
  "idle_proc (sched_disable_preempt s) = idle_proc s" "proc_table (sched_disable_preempt s) = proc_table s"
  "preempt_count (sched_disable_preempt s) = preempt_count s + 1" "stats (sched_disable_preempt s) = stats s"
  "queue_rel (sched_disable_preempt s) xs = queue_rel s xs"
  by (simp_all add: sched_disable_preempt_def)

lemma sched_pick_disable:
  assumes "queue_rel s xs"
  shows "sched_pick (sched_disable_preempt s) = sched_pick s"
proof -
  have "pick_step (sched_disable_preempt s) = pick_step s"
    unfolding pick_step_def sched_calc_score_def disable_preempt_simps ..
  with sched_pick_fold [OF assms] sched_pick_fold [of "sched_disable_preempt s" xs] assms
  show ?thesis by (simp add: Let_def)
qed

lemma mark_ready_simps:
  "pcb (mark_ready old s) p = (if p = old \<and> p \<noteq> 0 \<and> pstate (pcb s p) = PROC_RUNNING
      then (pcb s p)\<lparr>pstate := PROC_READY\<rparr> else pcb s p)"
  "timer_ms (mark_ready old s) = timer_ms s" "current (mark_ready old s) = current s"
  "preempt_count (mark_ready old s) = preempt_count s" "idle_proc (mark_ready old s) = idle_proc s"
  "proc_table (mark_ready old s) = proc_table s" "queue_rel s xs \<Longrightarrow> queue_rel (mark_ready old s) xs"
  by (auto simp: mark_ready_def intro: queue_rel_upd)

lemma switch_to_simps:
  "pstate (pcb (switch_to old new s) p) = (if p = new then PROC_RUNNING else pstate (pcb s p))"
  "wait_time (pcb (switch_to old new s) new) = 0" "last_run (pcb (switch_to old new s) new) = timer_ms s"
  "current (switch_to old new s) = new" "preempt_count (switch_to old new s) = preempt_count s"
  "idle_proc (switch_to old new s) = idle_proc s" "proc_table (switch_to old new s) = proc_table s"
  "queue_rel s xs \<Longrightarrow> queue_rel (switch_to old new s) xs"
  by (auto simp: switch_to_def Let_def intro!: queue_rel_upd)

lemma enable_preempt_simps [simp]:
  "pcb (sched_enable_preempt s) = pcb s" "current (sched_enable_preempt s) = current s"
  "preempt_count (sched_enable_preempt s) = preempt_count s - 1" "idle_proc (sched_enable_preempt s) = idle_proc s"
  "proc_table (sched_enable_preempt s) = proc_table s" "queue_rel (sched_enable_preempt s) xs = queue_rel s xs"
  by (simp_all add: sched_enable_preempt_def)

text \<open>The state \<open>schedule\<close> leaves when it switches to \<open>new\<close>.\<close>

lemma schedule_result:
  assumes "queue_rel s xs" and "preempt_count s = 0" and "sched_pick s = Some new" and "new \<noteq> 0"
  obtains t where "schedule s = Some t" "current t = new" "preempt_count t = 0"
    "pstate (pcb t new) = PROC_RUNNING" "queue_rel t xs"
    "\<And>p. p \<noteq> new \<Longrightarrow> pstate (pcb t p) =
       (if p = current s \<and> p \<noteq> 0 \<and> pstate (pcb s p) = PROC_RUNNING then PROC_READY else pstate (pcb s p))"
    "new \<noteq> current s \<Longrightarrow> wait_time (pcb t new) = 0 \<and> last_run (pcb t new) = timer_ms s"
    "idle_proc t = idle_proc s" "proc_table t = proc_table s"
proof -
  let ?u = "mark_ready (current s) (sched_disable_preempt s)"
  define v where "v = (if new \<noteq> current s then switch_to (current s) new ?u
    else upd new (\<lambda>p. p\<lparr>pstate := PROC_RUNNING\<rparr>) ?u)"
  have qu: "queue_rel ?u xs" using assms(1) by (intro mark_ready_simps) simp
  have sch: "schedule s = Some (sched_enable_preempt v)"
    using assms(2-4) sched_pick_disable [OF assms(1)]
    by (simp add: schedule_def sched_preempt_enabled_def Let_def v_def)
  show thesis
  proof (rule that [OF sch])
    show "queue_rel (sched_enable_preempt v) xs"
      using qu unfolding v_def by (auto intro: queue_rel_upd switch_to_simps)
    show "pstate (pcb (sched_enable_preempt v) p) = (if p = current s \<and> p \<noteq> 0 \<and> pstate (pcb s p) = PROC_RUNNING
        then PROC_READY else pstate (pcb s p))" if "p \<noteq> new" for p
      using that by (auto simp: v_def switch_to_simps mark_ready_simps)
  qed (auto simp: v_def switch_to_simps mark_ready_simps assms(2))
qed

lemma schedule_queue:
  assumes "queue_rel s xs" and "idle_proc s \<noteq> 0"
  shows "\<exists>t. schedule s = Some t \<and> queue_rel t xs"
proof (cases "preempt_count s = 0")
  case True
  have "0 \<notin> set xs" using assms(1) by (simp add: queue_rel_def)
  obtain r where r: "sched_pick s = Some r" "r \<noteq> 0"
    using sched_pick_fold [OF assms(1)] assms(2) by (auto simp: Let_def split: if_splits)
  show ?thesis by (rule schedule_result [OF assms(1) True r]) blast
next
  case False
  then show ?thesis using assms(1) by (simp add: schedule_def sched_preempt_enabled_def)
qed

text \<open>Aging walks the queue once.\<close>

definition age :: "ptr \<Rightarrow> kproc \<Rightarrow> kproc" where
  "age p s = (if pstate (pcb s p) = PROC_READY \<and> p \<noteq> current s
     then upd p (\<lambda>q. q\<lparr>wait_time := wait_time q + 1\<rparr>) s else s)"

lemma age_links: "pnext (pcb (age p s) q) = pnext (pcb s q)" "pprev (pcb (age p s) q) = pprev (pcb s q)"
  by (auto simp: age_def)

lemma age_queue: "queue_rel s xs \<Longrightarrow> queue_rel (age p s) xs"
  by (auto simp: age_def intro: queue_rel_upd)

lemma age_loop_fold:
  assumes "linked (pcb s) b xs 0" and "0 \<notin> set xs"
  shows "age_loop (first xs 0) s = Some (fold age xs s)"
  using assms
proof (induction xs arbitrary: b s)
  case Nil
  then show ?case by (subst age_loop.simps) simp
next
  case (Cons x xs)
  have "linked (pcb (age x s)) x xs 0 = linked (pcb s) x xs 0" by (intro linked_cong) (simp add: age_links)
  then have "age_loop (first xs 0) (age x s) = Some (fold age xs (age x s))"
    using Cons.IH [of "age x s" x] Cons.prems by simp
  moreover have "age_loop x s = age_loop (first xs 0) (age x s)"
    using Cons.prems by (subst age_loop.simps) (simp add: age_def Let_def)
  ultimately show ?case by simp
qed

lemma age_fold: "queue_rel s xs \<Longrightarrow> queue_rel (fold age ys s) xs \<and> idle_proc (fold age ys s) = idle_proc s"
proof (induction ys arbitrary: s)
  case (Cons y ys)
  have "idle_proc (age y s) = idle_proc s" by (simp add: age_def)
  with Cons age_queue [OF Cons.prems] show ?case by simp
qed simp

text \<open>Waking a blocked process appends it, unless it is still queued.\<close>

lemma unblock_queue:
  assumes "queue_rel s xs" and "p \<noteq> 0" and "pstate (pcb s p) = PROC_BLOCKED"
  shows "queue_rel (sched_unblock p s) (if p \<in> set xs then xs else xs @ [p])"
proof -
  let ?s = "upd p (\<lambda>q. q\<lparr>pstate := PROC_READY\<rparr>) s"
  have q: "queue_rel ?s xs" using assms(1) by (rule queue_rel_upd) simp
  have "queue_rel (sched_add p ?s) (if p \<in> set xs then xs else xs @ [p])"
  proof (cases "p \<in> set xs")
    case True
    then show ?thesis using sched_add_queued [OF q] q by simp
  next
    case False
    then show ?thesis using sched_add_queue [OF q assms(2) False] by simp
  qed
  then show ?thesis using assms(2,3) by (cases "p \<in> set xs") (simp_all add: sched_unblock_def Let_def)
qed

lemma unblock_pstate: "q \<noteq> p \<Longrightarrow> pstate (pcb (sched_unblock p s) q) = pstate (pcb s q)"
  by (simp add: sched_unblock_def Let_def)

lemma unblock_fold_queue:
  assumes "queue_rel s xs" and "distinct ps" and "\<forall>p \<in> set ps. p \<noteq> 0 \<and> pstate (pcb s p) = PROC_BLOCKED"
  shows "queue_rel (fold sched_unblock ps s) (xs @ filter (\<lambda>p. p \<notin> set xs) ps)"
  using assms
proof (induction ps arbitrary: s xs)
  case (Cons p ps)
  let ?xs = "if p \<in> set xs then xs else xs @ [p]"
  have "queue_rel (sched_unblock p s) ?xs" using Cons.prems by (intro unblock_queue) auto
  moreover have "\<forall>q \<in> set ps. q \<noteq> 0 \<and> pstate (pcb (sched_unblock p s) q) = PROC_BLOCKED"
    using Cons.prems(2,3) unblock_pstate [of _ p s] by (metis distinct.simps(2) list.set_intros(2))
  ultimately have "queue_rel (fold sched_unblock ps (sched_unblock p s)) (?xs @ filter (\<lambda>q. q \<notin> set ?xs) ps)"
    using Cons.IH Cons.prems(2) by simp
  moreover have "filter (\<lambda>q. q \<notin> set (xs @ [p])) ps = filter (\<lambda>q. q \<notin> set xs) ps"
    using Cons.prems(2) by (intro filter_cong) auto
  ultimately show ?case by (simp split: if_splits)
qed simp

lemma idle_unblock [simp]: "idle_proc (sched_unblock p s) = idle_proc s" "current (sched_unblock p s) = current s"
  by (auto simp: sched_unblock_def Let_def sched_add_def)

lemma idle_unblock_fold [simp]:
  "idle_proc (fold sched_unblock ps s) = idle_proc s" "current (fold sched_unblock ps s) = current s"
  by (induction ps arbitrary: s) simp_all

text \<open>The sleepers whose time has come, in table order.\<close>

definition due :: "kproc \<Rightarrow> ptr \<Rightarrow> bool" where
  "due s p \<longleftrightarrow> p \<noteq> 0 \<and> pstate (pcb s p) = PROC_BLOCKED \<and> sleep_until (pcb s p) > 0 \<and>
     timer_ms s \<ge> sleep_until (pcb s p)"

definition due_sleepers :: "kproc \<Rightarrow> ptr list" where
  "due_sleepers s = filter (due s) (map (proc_table s) [0..<MAX_PROC])"

text \<open>No two table entries share a control block.\<close>

definition table_inj :: "'a kproc_scheme \<Rightarrow> bool" where
  "table_inj s \<longleftrightarrow> (\<forall>i < MAX_PROC. \<forall>j < MAX_PROC. proc_table s i = proc_table s j \<and> proc_table s i \<noteq> 0 \<longrightarrow> i = j)"

lemma due_sleepers_distinct:
  assumes "table_inj s"
  shows "distinct (due_sleepers s)"
proof -
  have "inj_on (proc_table s) {i \<in> {0..<MAX_PROC}. due s (proc_table s i)}"
    using assms by (auto simp: inj_on_def table_inj_def due_def)
  then show ?thesis by (simp add: due_sleepers_def filter_map distinct_map o_def)
qed

definition sleepers_step :: "u64 \<Rightarrow> nat \<Rightarrow> ptr list \<times> kproc \<Rightarrow> ptr list \<times> kproc" where
  "sleepers_step now i = (\<lambda>(wake, s).
     let p = proc_table s i in
     if length wake < 64 \<and> p \<noteq> 0 \<and> pstate (pcb s p) = PROC_BLOCKED \<and>
        sleep_until (pcb s p) > 0 \<and> now \<ge> sleep_until (pcb s p)
     then (wake @ [p], upd p (\<lambda>q. q\<lparr>sleep_until := 0\<rparr>) s)
     else (wake, s))"

text \<open>What the scan has done after \<open>k\<close> entries.\<close>

definition scanned :: "kproc \<Rightarrow> ptr list \<Rightarrow> nat \<Rightarrow> ptr list \<times> kproc \<Rightarrow> bool" where
  "scanned s xs k = (\<lambda>(wake, t).
     wake = take 64 (filter (due s) (map (proc_table s) [0..<k])) \<and> queue_rel t xs \<and>
     idle_proc t = idle_proc s \<and> proc_table t = proc_table s \<and>
     (\<forall>q. pstate (pcb t q) = pstate (pcb s q)) \<and>
     (\<forall>q. q \<notin> set wake \<longrightarrow> sleep_until (pcb t q) = sleep_until (pcb s q)))"

lemma sleepers_step_scanned:
  assumes inj: "table_inj s" and i: "i < MAX_PROC" and inv: "scanned s xs i (wake, t)"
  shows "scanned s xs (Suc i) (sleepers_step (timer_ms s) i (wake, t))"
proof -
  let ?p = "proc_table s i"
  have t: "wake = take 64 (filter (due s) (map (proc_table s) [0..<i]))" "queue_rel t xs"
    "idle_proc t = idle_proc s" "proc_table t = proc_table s" "pstate (pcb t q) = pstate (pcb s q)"
    "q \<notin> set wake \<Longrightarrow> sleep_until (pcb t q) = sleep_until (pcb s q)" for q
    using inv by (simp_all add: scanned_def)
  have "?p \<notin> set wake" if "?p \<noteq> 0"
  proof
    assume "?p \<in> set wake"
    then obtain j where "j < i" "proc_table s j = ?p" by (auto simp: t(1) dest!: in_set_takeD)
    with inj i that show False unfolding table_inj_def by (metis less_trans nat_neq_iff)
  qed
  then have "due s ?p \<longleftrightarrow> ?p \<noteq> 0 \<and> pstate (pcb t ?p) = PROC_BLOCKED \<and> sleep_until (pcb t ?p) > 0 \<and>
      timer_ms s \<ge> sleep_until (pcb t ?p)"
    using t(5,6) [of ?p] by (cases "?p = 0") (simp_all add: due_def)
  then have step: "sleepers_step (timer_ms s) i (wake, t) =
      (if length wake < 64 \<and> due s ?p then (wake @ [?p], upd ?p (\<lambda>q. q\<lparr>sleep_until := 0\<rparr>) t) else (wake, t))"
    by (simp add: sleepers_step_def Let_def t(4))
  show ?thesis
  proof (cases "length wake < 64 \<and> due s ?p")
    case True
    then have "take 64 (filter (due s) (map (proc_table s) [0..<Suc i])) = wake @ [?p]"
      by (auto simp: t(1) min_def split: if_splits)
    then show ?thesis using True t(2-6) by (simp add: step scanned_def queue_rel_upd)
  next
    case False
    then have "take 64 (filter (due s) (map (proc_table s) [0..<Suc i])) = wake"
      by (auto simp: t(1))
    then show ?thesis using t(2-6) by (simp only: step False scanned_def) simp
  qed
qed

lemma sleepers_scan:
  assumes "table_inj s" and "queue_rel s xs"
  shows "scanned s xs MAX_PROC (for_range 0 MAX_PROC (sleepers_step (timer_ms s)) ([], s))"
proof (rule for_range_rule [where P = "scanned s xs"])
  fix i r assume "i < MAX_PROC" "scanned s xs i r"
  then show "scanned s xs (Suc i) (sleepers_step (timer_ms s) i r)"
    by (cases r) (simp add: sleepers_step_scanned [OF assms(1)])
qed (use assms(2) in \<open>simp_all add: scanned_def\<close>)

lemma check_sleepers_queue:
  assumes "table_inj s" and "queue_rel s xs"
  shows "queue_rel (proc_check_sleepers s) (xs @ filter (\<lambda>p. p \<notin> set xs) (take 64 (due_sleepers s)))"
    and "idle_proc (proc_check_sleepers s) = idle_proc s"
proof -
  obtain wake t where run: "for_range 0 MAX_PROC (sleepers_step (timer_ms s)) ([], s) = (wake, t)"
    by (cases "for_range 0 MAX_PROC (sleepers_step (timer_ms s)) ([], s)")
  with sleepers_scan [OF assms] have t: "wake = take 64 (due_sleepers s)"
    "queue_rel t xs" "idle_proc t = idle_proc s" "\<And>q. pstate (pcb t q) = pstate (pcb s q)"
    by (simp_all add: scanned_def due_sleepers_def)
  have chk: "proc_check_sleepers s = fold sched_unblock (take 64 (due_sleepers s)) t"
    using run unfolding proc_check_sleepers_def sleepers_step_def Let_def [of "timer_ms s"] t(1) by simp
  have "distinct (take 64 (due_sleepers s))" using due_sleepers_distinct [OF assms(1)] by (rule distinct_take)
  moreover have "\<forall>p \<in> set (take 64 (due_sleepers s)). p \<noteq> 0 \<and> pstate (pcb t p) = PROC_BLOCKED"
    by (auto simp: t(4) due_sleepers_def due_def dest!: in_set_takeD)
  ultimately show "queue_rel (proc_check_sleepers s) (xs @ filter (\<lambda>p. p \<notin> set xs) (take 64 (due_sleepers s)))"
    unfolding chk using t(2) by (rule unblock_fold_queue [rotated])
  show "idle_proc (proc_check_sleepers s) = idle_proc s" by (simp add: chk t(3))
qed

lemma age_fold_sleepers:
  "table_inj (fold age xs s) = table_inj s" "due_sleepers (fold age xs s) = due_sleepers s"
proof -
  have "proc_table (fold age xs s) = proc_table s \<and> timer_ms (fold age xs s) = timer_ms s \<and>
    (\<forall>q. pstate (pcb (fold age xs s) q) = pstate (pcb s q) \<and>
       sleep_until (pcb (fold age xs s) q) = sleep_until (pcb s q))"
  proof (induction xs arbitrary: s)
    case (Cons x xs)
    show ?case using Cons.IH [of "age x s"] by (auto simp: age_def)
  qed simp
  then have "due (fold age xs s) = due s" "proc_table (fold age xs s) = proc_table s"
    by (simp_all add: due_def fun_eq_iff)
  then show "table_inj (fold age xs s) = table_inj s" "due_sleepers (fold age xs s) = due_sleepers s"
    by (simp_all add: table_inj_def due_sleepers_def)
qed

lemma sleepers_fields [simp]:
  "table_inj (s\<lparr>stats := v\<rparr>) = table_inj s" "due_sleepers (s\<lparr>stats := v\<rparr>) = due_sleepers s"
  by (simp_all add: table_inj_def due_sleepers_def due_def [abs_def])

section \<open>Aging bounds\<close>

text \<open>Ordinary processes: estimates and waiting times far below the 64-bit range, legal priorities.\<close>

definition ordinary :: "process \<Rightarrow> bool" where
  "ordinary p \<longleftrightarrow> unat (est_runtime p) < 2 ^ 32 \<and> unat (wait_time p) < 2 ^ 48 \<and>
     0 \<le> current_priority p \<and> current_priority p \<le> 40"

lemma sint_small:
  assumes "unat (x :: u64) < 2 ^ 62"
  shows "sint x = int (unat x)"
proof -
  have "int (unat x) < int (2 ^ 62)" using assms by (simp only: of_nat_less_iff)
  then have "uint x < 2 ^ 62" by (simp only: of_nat_unat of_nat_power of_nat_numeral)
  then have "uint x < 2 ^ 63" by (rule less_trans) simp
  moreover have "- (2 ^ 63) \<le> uint x" by (rule order_trans [OF _ uint_ge_0]) simp
  ultimately have "signed_take_bit 63 (uint x) = uint x"
    by (intro signed_take_bit_int_eq_self)
  then show ?thesis by (simp add: sint_uint)
qed

lemma ordinary_score:
  assumes "ordinary p"
  shows "process_score p = int (unat (est_runtime p)) - int (unat (wait_time p) div 100) -
    current_priority p * 10 + (if pvalid p then 0 else 10000)"
proof -
  have est: "sint (est_runtime p) = int (unat (est_runtime p))"
    using assms by (intro sint_small) (auto simp: ordinary_def)
  have "unat (wait_time p div SCHED_AGING_FACTOR) = unat (wait_time p) div 100"
    by (simp add: unat_div_distrib SCHED_AGING_FACTOR_def)
  moreover have "unat (wait_time p) div 100 < 2 ^ 62" using assms by (auto simp: ordinary_def)
  ultimately have wait: "sint (wait_time p div SCHED_AGING_FACTOR) = int (unat (wait_time p) div 100)"
    by (simp only: sint_small)
  have "unat (wait_time p) div 100 < 2 ^ 48" using assms by (auto simp: ordinary_def)
  then have "int (unat (wait_time p) div 100) < 2 ^ 48" by (simp only: of_nat_less_numeral_power_cancel_iff)
  moreover have "0 \<le> int (unat (est_runtime p))" by simp
  moreover have "0 \<le> current_priority p" "current_priority p \<le> 40" using assms by (auto simp: ordinary_def)
  ultimately have "\<not> int (unat (est_runtime p)) - int (unat (wait_time p) div 100) - current_priority p * 10 +
      (if pvalid p then 0 else 10000) < - 4611686018427387904"
    by (auto simp del: of_nat_unat)
  then show ?thesis
    unfolding process_score_def Let_def est wait INT64_MIN_def SCHED_INVALID_PENALTY_def
    by (cases "pvalid p") (simp_all del: of_nat_unat)
qed

lemma ordinary_bounded: "ordinary p \<Longrightarrow> process_score p < INT64_MAX"
proof -
  assume p: "ordinary p"
  then have "int (unat (est_runtime p)) < 2 ^ 32"
    unfolding ordinary_def by (simp only: of_nat_less_numeral_power_cancel_iff)
  moreover have "0 \<le> current_priority p" "0 \<le> int (unat (wait_time p) div 100)"
    using p by (simp_all add: ordinary_def)
  ultimately show ?thesis unfolding ordinary_score [OF p] INT64_MAX_def by (auto simp del: of_nat_unat)
qed

end
