(* ===== verification/Sched_Correct.thy ===== *)
theory Sched_Correct
  imports Run_Queue
begin

text \<open>
  Correctness of the scheduler: the run queue refines a list under any history of additions and
  removals, \<open>schedule\<close> hands the processor to the best ready process and keeps a single running
  one, aging beats every fresh competitor, the timer tick returns, and the places where the code
  does not do what it means to.
\<close>

section \<open>Queues driven by histories\<close>

datatype 'a queue_op = Add 'a | Remove 'a

primrec queue_spec :: "'a queue_op \<Rightarrow> 'a list \<Rightarrow> 'a list" where
  "queue_spec (Add p) xs = (if p \<in> set xs then xs else xs @ [p])"
| "queue_spec (Remove p) xs = remove1 p xs"

text \<open>Histories that only remove what is queued.\<close>

fun legal :: "'a queue_op list \<Rightarrow> 'a list \<Rightarrow> bool" where
  "legal [] xs = True"
| "legal (Add p # ops) xs = legal ops (queue_spec (Add p) xs)"
| "legal (Remove p # ops) xs \<longleftrightarrow> p \<in> set xs \<and> legal ops (queue_spec (Remove p) xs)"

lemma queue_spec_length: "length (queue_spec opn xs) \<le> Suc (length xs)"
  by (cases opn) (auto simp: length_remove1)

locale work_queue =
  fixes rep :: "'s \<Rightarrow> 'a list \<Rightarrow> bool" and ok :: "'s \<Rightarrow> 'a \<Rightarrow> bool" and cap :: nat
    and add :: "'a \<Rightarrow> 's \<Rightarrow> 's" and del :: "'a \<Rightarrow> 's \<Rightarrow> 's"
  assumes add_new: "rep s xs \<Longrightarrow> ok s p \<Longrightarrow> p \<notin> set xs \<Longrightarrow> length xs < cap \<Longrightarrow> rep (add p s) (xs @ [p])"
    and add_old: "rep s xs \<Longrightarrow> p \<in> set xs \<Longrightarrow> add p s = s"
    and del_member: "rep s xs \<Longrightarrow> p \<in> set xs \<Longrightarrow> length xs \<le> cap \<Longrightarrow> rep (del p s) (remove1 p xs)"
    and ok_add: "ok (add p s) q = ok s q"
    and ok_del: "ok (del p s) q = ok s q"
begin

primrec exec :: "'a queue_op \<Rightarrow> 's \<Rightarrow> 's" where
  "exec (Add p) s = add p s"
| "exec (Remove p) s = del p s"

lemma history:
  assumes "rep s xs" and "legal ops xs" and "\<forall>p. Add p \<in> set ops \<longrightarrow> ok s p"
    and "length xs + length ops \<le> cap"
  shows "rep (fold exec ops s) (fold queue_spec ops xs)"
  using assms
proof (induction ops arbitrary: s xs)
  case (Cons opn ops)
  have "rep (exec opn s) (queue_spec opn xs)" "legal ops (queue_spec opn xs)"
    using Cons.prems by (cases opn; auto simp: add_old intro: add_new del_member)+
  moreover have "\<forall>p. Add p \<in> set ops \<longrightarrow> ok (exec opn s) p"
    using Cons.prems(3) by (cases opn) (auto simp: ok_add ok_del)
  moreover have "length (queue_spec opn xs) + length ops \<le> cap"
    using queue_spec_length [of opn xs] Cons.prems(4) by simp
  ultimately show ?case using Cons.IH by simp
qed simp

end

text \<open>The counted run queue: the links and the statistics agree with the list.\<close>

definition counted :: "kproc \<Rightarrow> ptr list \<Rightarrow> bool" where
  "counted s xs \<longleftrightarrow> queue_rel s xs \<and> unat (runnable_count (stats s)) = length xs"

definition addable :: "kproc \<Rightarrow> ptr \<Rightarrow> bool" where
  "addable s p \<longleftrightarrow> p \<noteq> 0 \<and> pstate (pcb s p) \<notin> {PROC_DEAD, PROC_ZOMBIE}"

lemma add_count:
  assumes "queue_rel s xs" and "addable s p" and "p \<notin> set xs"
  shows "runnable_count (stats (sched_add p s)) = runnable_count (stats s) + 1"
proof -
  have "\<not> (pnext (pcb s p) \<noteq> 0 \<or> pprev (pcb s p) \<noteq> 0 \<or> p = run_queue_head s)"
    using queued_iff [OF assms(1), of p] assms(2,3) by (auto simp: addable_def)
  then show ?thesis using assms(2) by (auto simp: sched_add_def Let_def addable_def)
qed

lemma remove_count:
  "p \<noteq> 0 \<Longrightarrow> runnable_count (stats (sched_remove p s)) =
     (if runnable_count (stats s) > 0 then runnable_count (stats s) - 1 else runnable_count (stats s))"
  by (auto simp: sched_remove_def Let_def)

interpretation run_queue: work_queue counted addable "2 ^ 32 - 1" sched_add sched_remove
proof unfold_locales
  fix s xs p assume c: "counted s xs" "addable s p" "p \<notin> set xs" "length xs < 2 ^ 32 - 1"
  then have "unat (runnable_count (stats s)) + 1 < 2 ^ 32" by (simp add: counted_def)
  then have "unat (runnable_count (stats s) + 1) = Suc (length xs)"
    using c(1) by (simp add: counted_def unat_word_ariths)
  then show "counted (sched_add p s) (xs @ [p])"
    using c add_count [of s xs p] sched_add_queue [of s xs p] by (auto simp: counted_def addable_def)
next
  fix s xs p assume "counted s xs" "p \<in> set xs"
  then show "sched_add p s = s" by (auto simp: counted_def intro: sched_add_queued)
next
  fix s xs p assume c: "counted s xs" "p \<in> set xs"
  then have "p \<noteq> 0" and pos: "0 < unat (runnable_count (stats s))"
    by (auto simp: counted_def queue_rel_def length_pos_if_in_set)
  from pos have "runnable_count (stats s) > 0" by (simp add: word_less_nat_alt)
  moreover from this have "unat (runnable_count (stats s) - 1) = length xs - 1"
    using c(1) by (subst unat_minus_one) (auto simp: counted_def)
  ultimately show "counted (sched_remove p s) (remove1 p xs)"
    using c remove_count [OF \<open>p \<noteq> 0\<close>, of s] sched_remove_queue_remove1 [of s xs p]
    by (simp add: counted_def length_remove1)
qed (simp_all add: addable_def)

definition sched_op :: "ptr queue_op \<Rightarrow> kproc \<Rightarrow> kproc" where
  "sched_op opn s = (case opn of Add p \<Rightarrow> sched_add p s | Remove p \<Rightarrow> sched_remove p s)"

lemma sched_op_exec: "sched_op = run_queue.exec"
  by (intro ext) (simp add: sched_op_def split: queue_op.split)

text \<open>A small system for the examples: three ready processes, the first of them running.\<close>

definition demo_process :: "u16 \<Rightarrow> proc_state \<Rightarrow> process" where
  "demo_process n st = zero_process\<lparr>pid := n, pstate := st, pvalid := True, est_runtime := 100,
     base_priority := 20, current_priority := 20\<rparr>"

definition demo :: kproc where
  "demo = \<lparr>pcb = (\<lambda>_. demo_process 0 PROC_NEW)
       (0x100 := demo_process 1 PROC_RUNNING, 0x200 := demo_process 2 PROC_READY,
        0x300 := demo_process 3 PROC_BLOCKED, 0x900 := demo_process 0 PROC_READY),
     proc_table = (\<lambda>_. 0)(1 := 0x100, 2 := 0x200, 3 := 0x300), next_pid = 4, next_csid = 1, current = 0x100,
     run_queue_head = 0, run_queue_tail = 0, idle_proc = 0x900, preempt_count = 0,
     stats = zero_stats, timer_ms = 0,
     proc_heap = one_page_heap, proc_log = []\<rparr>"

text \<open>
  C18. The run queue is a faithful list. Starting from a queue that represents \<open>xs\<close> (links in both
  directions, both end pointers, the runnable counter), any history of \<open>sched_add\<close> of live
  processes and \<open>sched_remove\<close> of queued ones leaves a queue that represents the list obtained by
  appending the new and deleting the removed processes, the counter included.
\<close>

theorem run_queue_refines:
  assumes "counted s xs" and "legal ops xs" and "\<forall>p. Add p \<in> set ops \<longrightarrow> addable s p"
    and "length xs + length ops \<le> 2 ^ 32 - 1"
  shows "counted (fold sched_op ops s) (fold queue_spec ops xs)"
  unfolding sched_op_exec using assms by (rule run_queue.history)

lemma demo_links: "pnext (pcb demo p) = 0" "pprev (pcb demo p) = 0"
  by (simp_all add: demo_def demo_process_def zero_process_def)

lemma demo_counted: "counted demo []"
  unfolding counted_def queue_rel_def
  by (simp add: demo_links) (simp add: demo_def zero_stats_def)

lemma demo_states:
  "pstate (pcb demo 0x100) = PROC_RUNNING" "pstate (pcb demo 0x200) = PROC_READY"
  "pstate (pcb demo 0x300) = PROC_BLOCKED" "pstate (pcb demo 0x900) = PROC_READY"
  by (simp_all add: demo_def demo_process_def)

theorem run_queue_refines_witness:
  "counted demo [] \<and> counted (fold sched_op [Add 0x100, Add 0x200, Remove 0x100] demo) [0x200]"
  using demo_counted run_queue_refines [OF demo_counted, of "[Add 0x100, Add 0x200, Remove 0x100]"]
  by (auto simp: addable_def demo_states)

section \<open>Handing over the processor\<close>

definition single_running :: "kproc \<Rightarrow> bool" where
  "single_running s \<longleftrightarrow> (\<forall>p. p \<noteq> 0 \<and> pstate (pcb s p) = PROC_RUNNING \<longrightarrow> p = current s)"

text \<open>
  C19. With preemption enabled \<open>schedule\<close> returns, with preemption enabled again and the run queue
  as it was. The processor goes to a ready queued process whose score no valid ready process
  undercuts, or to the idle process when no queued process is ready; the chosen one is the only
  process in state running.
\<close>

theorem schedule_correct:
  assumes "queue_rel s xs" and "preempt_count s = 0" and "idle_proc s \<noteq> 0"
    and "\<forall>p \<in> set xs. ordinary (pcb s p)" and "single_running s"
  shows "\<exists>t. schedule s = Some t \<and> queue_rel t xs \<and> preempt_count t = 0 \<and>
    pstate (pcb t (current t)) = PROC_RUNNING \<and> single_running t \<and>
    (if \<exists>q \<in> set xs. is_ready s q
     then current t \<in> set xs \<and> is_ready s (current t) \<and>
       (\<forall>q \<in> set xs. is_ready s q \<and> pvalid (pcb s q) \<longrightarrow>
          process_score (pcb s (current t)) \<le> process_score (pcb s q))
     else current t = idle_proc s)"
proof -
  obtain r where r: "sched_pick s = Some r" "r \<noteq> 0"
    "if \<exists>q \<in> set xs. is_ready s q
     then r \<in> set xs \<and> is_ready s r \<and>
       (\<forall>q \<in> set xs. is_ready s q \<and> pvalid (pcb s q) \<longrightarrow> process_score (pcb s r) \<le> process_score (pcb s q))
     else r = idle_proc s"
  proof (cases rule: sched_pick_best [OF assms(1), case_names bounded none some])
    case (bounded p)
    then show ?case using assms(4) ordinary_bounded by blast
  next
    case none
    with that [of "idle_proc s"] assms(3) show thesis by auto
  next
    case (some r)
    moreover from this have "\<exists>q \<in> set xs. is_ready s q" by blast
    moreover from some assms(1) have "r \<noteq> 0" by (auto simp: queue_rel_def)
    ultimately show thesis using that [of r] by simp
  qed
  obtain t where t: "schedule s = Some t" "current t = r" "preempt_count t = 0"
    "pstate (pcb t r) = PROC_RUNNING" "queue_rel t xs"
    "\<And>p. p \<noteq> r \<Longrightarrow> pstate (pcb t p) =
       (if p = current s \<and> p \<noteq> 0 \<and> pstate (pcb s p) = PROC_RUNNING then PROC_READY else pstate (pcb s p))"
    by (rule schedule_result [OF assms(1,2) r(1,2)]) blast
  have "single_running t"
    unfolding single_running_def t(2)
  proof (intro allI impI, rule ccontr)
    fix p assume p: "p \<noteq> 0 \<and> pstate (pcb t p) = PROC_RUNNING" and "p \<noteq> r"
    then have "pstate (pcb s p) = PROC_RUNNING" "p \<noteq> current s"
      using t(6) [of p] by (simp_all split: if_splits)
    with p assms(5) show False unfolding single_running_def by blast
  qed
  with t r(3) show ?thesis by (intro exI [of _ t]) simp
qed

text \<open>The running process and one ready process in the queue.\<close>

definition demo2 :: kproc where
  "demo2 = sched_add 0x200 (sched_add 0x100 demo)"

lemma demo2_counted: "counted demo2 [0x100, 0x200]"
proof -
  have "counted (sched_add 0x100 demo) ([] @ [0x100])"
    by (rule run_queue.add_new [OF demo_counted]) (simp_all add: addable_def demo_states)
  then have "counted (sched_add 0x200 (sched_add 0x100 demo)) ([0x100] @ [0x200])"
    by (intro run_queue.add_new) (simp_all add: addable_def demo_states)
  then show ?thesis by (simp add: demo2_def)
qed

lemma demo2_queue: "queue_rel demo2 [0x100, 0x200]"
  using demo2_counted by (simp add: counted_def)

lemma demo2_pcb: "pcb demo2 = (pcb demo)
  (0x100 := (pcb demo 0x100)\<lparr>pnext := 0x200\<rparr>, 0x200 := (pcb demo 0x200)\<lparr>pprev := 0x100\<rparr>)"
  by (simp add: demo2_def demo_def sched_add_def demo_process_def zero_process_def Let_def upd_def fun_eq_iff)

lemma demo2_fields: "preempt_count demo2 = 0" "idle_proc demo2 = 0x900" "current demo2 = 0x100" "timer_ms demo2 = 0"
  by (simp_all add: demo2_def demo_def sched_add_def Let_def)

lemma demo2_ordinary: "p \<in> {0x100, 0x200} \<Longrightarrow> ordinary (pcb demo2 p)"
  by (auto simp: demo2_pcb demo_def demo_process_def zero_process_def ordinary_def)

lemma demo2_single: "single_running demo2"
  by (auto simp: single_running_def demo2_pcb demo2_fields demo_def demo_process_def split: if_splits)

theorem schedule_correct_witness:
  "\<exists>t. schedule demo2 = Some t \<and> queue_rel t [0x100, 0x200] \<and> current t = 0x200"
proof -
  have "is_ready demo2 0x200" "\<not> is_ready demo2 0x100"
    by (simp_all add: is_ready_def demo2_pcb demo_states)
  then show ?thesis
    using schedule_correct [OF demo2_queue demo2_fields(1) _ _ demo2_single] demo2_ordinary
    by (auto simp: demo2_fields)
qed

text \<open>
  C20. Aging defeats starvation: a valid ready process whose aged waiting time exceeds its own
  estimate plus the whole priority range plus what each competitor has aged is the process
  \<open>sched_pick\<close> returns, whatever the priorities, estimates and places in the queue.
\<close>

theorem aged_process_picked:
  assumes "queue_rel s xs" and "p \<in> set xs" and "\<forall>q \<in> set xs. ordinary (pcb s q)"
    and "is_ready s p" and "pvalid (pcb s p)"
    and "\<forall>q \<in> set xs. q \<noteq> p \<longrightarrow> unat (est_runtime (pcb s p)) + 400 + unat (wait_time (pcb s q)) div 100
           < unat (wait_time (pcb s p)) div 100"
  shows "sched_pick s = Some p"
proof (cases rule: sched_pick_best [OF assms(1), case_names bounded none some])
  case (bounded q)
  then show ?case using assms(3) ordinary_bounded by blast
next
  case none
  with assms(2,4) show ?thesis by blast
next
  case (some r)
  then have le: "process_score (pcb s r) \<le> process_score (pcb s p)" using assms(2,4,5) by blast
  have o: "ordinary (pcb s p)" "ordinary (pcb s r)" using assms(2,3) some(2) by blast+
  have "r = p"
  proof (rule ccontr)
    assume "r \<noteq> p"
    then have "int (unat (est_runtime (pcb s p))) + 400 + int (unat (wait_time (pcb s r)) div 100)
        < int (unat (wait_time (pcb s p)) div 100)"
      using assms(6) some(2) by (metis of_nat_add of_nat_less_iff of_nat_numeral)
    moreover have "0 \<le> current_priority (pcb s p)" "current_priority (pcb s r) \<le> 40"
      using o by (auto simp: ordinary_def)
    moreover have "0 \<le> int (unat (est_runtime (pcb s r)))" by simp
    ultimately show False
      using le ordinary_score [OF o(1)] ordinary_score [OF o(2)] assms(5) by (auto split: if_splits simp del: of_nat_unat)
  qed
  with some(1) show ?thesis by simp
qed

definition demo3 :: kproc where
  "demo3 = upd 0x200 (\<lambda>p. p\<lparr>wait_time := 60000\<rparr>) (upd 0x100 (\<lambda>p. p\<lparr>pstate := PROC_READY\<rparr>) demo2)"

lemma demo3_queue: "queue_rel demo3 [0x100, 0x200]"
  unfolding demo3_def by (intro queue_rel_upd demo2_queue) simp_all

theorem aged_process_picked_witness: "sched_pick demo3 = Some 0x200"
  by (rule aged_process_picked [OF demo3_queue])
    (simp_all add: demo3_def demo2_pcb demo_def demo_process_def zero_process_def ordinary_def is_ready_def)

text \<open>
  C21. The timer tick returns on every well-formed run queue; it keeps every queued process in its
  place and appends exactly the sleepers whose time has come (the first 64 of them, in table
  order) that were not queued.
\<close>

theorem sched_tick_wakes:
  assumes "queue_rel s xs" and "table_inj s" and "idle_proc s \<noteq> 0"
  shows "\<exists>t. sched_tick s = Some t \<and>
    queue_rel t (xs @ filter (\<lambda>p. p \<notin> set xs) (take 64 (due_sleepers s)))"
proof -
  let ?s0 = "s\<lparr>stats := (stats s)\<lparr>total_ticks := total_ticks (stats s) + 1\<rparr>\<rparr>"
  define s1 where "s1 = fold age xs ?s0"
  define s2 where "s2 = (if current s1 = idle_proc s1
    then s1\<lparr>stats := (stats s1)\<lparr>idle_time := idle_time (stats s1) + 1\<rparr>\<rparr> else s1)"
  define s3 where "s3 = proc_check_sleepers s2"
  have q0: "queue_rel ?s0 xs" using assms(1) by simp
  have s1: "queue_rel s1 xs" "idle_proc s1 = idle_proc s"
    using age_fold [OF q0, of xs] by (simp_all add: s1_def)
  have "age_loop (run_queue_head ?s0) ?s0 = Some s1"
    using q0 age_loop_fold [of ?s0 0 xs] by (simp add: queue_rel_def s1_def)
  then have tick: "sched_tick s =
      (if current s3 = idle_proc s3 \<and> run_queue_head s1 \<noteq> 0 then schedule s3
       else if current s3 \<noteq> 0 \<and> current s3 \<noteq> idle_proc s3
       then if timer_ms s3 - last_run (pcb s3 (current s3)) \<ge> SCHED_QUANTUM_MS then schedule s3 else Some s3
       else Some s3)"
    by (simp add: sched_tick_def Let_def s2_def s3_def)
  have q2: "queue_rel s2 xs" "idle_proc s2 = idle_proc s" using s1 by (simp_all add: s2_def)
  have "table_inj s2" "due_sleepers s2 = due_sleepers s"
    using assms(2) by (simp_all add: s2_def s1_def age_fold_sleepers)
  then have q3: "queue_rel s3 (xs @ filter (\<lambda>p. p \<notin> set xs) (take 64 (due_sleepers s)))" "idle_proc s3 \<noteq> 0"
    using check_sleepers_queue [of s2 xs] q2 assms(3) by (auto simp: s3_def)
  then show ?thesis unfolding tick using schedule_queue [OF q3] by auto
qed

lemma demo2_table: "proc_table demo2 = (\<lambda>_. 0)(1 := 0x100, 2 := 0x200, 3 := 0x300)"
  by (simp add: demo2_def demo_def sched_add_def Let_def)

lemma demo_table_inj: "table_inj demo2"
  unfolding table_inj_def demo2_table by (auto split: if_splits)

theorem sched_tick_wakes_witness:
  "\<exists>t. sched_tick demo2 = Some t \<and>
    queue_rel t ([0x100, 0x200] @ filter (\<lambda>p. p \<notin> set [0x100, 0x200]) (take 64 (due_sleepers demo2)))"
  by (rule sched_tick_wakes [OF demo2_queue demo_table_inj]) (simp add: demo2_fields)

section \<open>Where the scheduler does not do what it means to\<close>

lemma wake_parent_none: "sched_wake_parent child s = s"
  by (simp add: sched_wake_parent_def sched_unblock_def Let_def)

text \<open>
  The wake-up of a waiting parent is lost: \<open>sched_wake_parent\<close> never changes the state. It
  calls \<open>sched_unblock\<close> only for a parent in state wait, and \<open>sched_unblock\<close> only acts on processes
  in state blocked.
\<close>

theorem wake_parent_lost: "sched_wake_parent child s = s"
  by (rule wake_parent_none)

text \<open>
  Removing a process that is not queued drops the whole run queue: the end pointers become
  null, so that the next \<open>sched_pick\<close> returns the idle process whatever was ready.
\<close>

theorem remove_unqueued_loses_queue:
  assumes "queue_rel s xs" and "p \<noteq> 0" and "p \<notin> set xs"
  shows "run_queue_head (sched_remove p s) = 0 \<and> run_queue_tail (sched_remove p s) = 0 \<and>
    sched_pick (sched_remove p s) = Some (idle_proc s)"
proof -
  have "idle_proc (sched_remove p s) = idle_proc s" by (simp add: sched_remove_def Let_def)
  then show ?thesis
    using sched_remove_unqueued [OF assms] by (simp add: sched_pick_def pick_loop.simps [of _ 0])
qed

theorem remove_unqueued_loses_queue_witness:
  "is_ready demo2 0x200 \<and> sched_pick (sched_remove 0x300 demo2) = Some 0x900"
  using remove_unqueued_loses_queue [OF demo2_queue, of "0x300"] by (simp add: is_ready_def demo2_pcb demo_states demo2_fields)

text \<open>
  A process that is alone in the run queue loses the processor when its time slice ends:
  \<open>schedule\<close> looks for the next process before it marks the running one ready, finds none and
  switches to the idle process.
\<close>

theorem lone_process_preempted_by_idle:
  assumes "queue_rel s [p]" and "current s = p" and "pstate (pcb s p) = PROC_RUNNING"
    and "preempt_count s = 0" and "idle_proc s \<noteq> 0" and "idle_proc s \<noteq> p"
  shows "\<exists>t. schedule s = Some t \<and> current t = idle_proc s \<and> pstate (pcb t p) = PROC_READY"
proof -
  have "sched_pick s = Some (idle_proc s)"
    using assms(3) by (simp add: sched_pick_fold [OF assms(1)] pick_step_def)
  moreover have "p \<noteq> 0" using assms(1) by (simp add: queue_rel_def)
  ultimately show ?thesis
    using schedule_result [OF assms(1,4) _ assms(5)] assms(2,3,6) by metis
qed

definition demo1 :: kproc where
  "demo1 = sched_add 0x100 demo"

lemma demo1_queue: "queue_rel demo1 [0x100]"
  using run_queue.add_new [OF demo_counted, of "0x100"] by (simp add: demo1_def addable_def demo_states counted_def)

theorem lone_process_preempted_by_idle_witness:
  "\<exists>t. schedule demo1 = Some t \<and> current t = 0x900 \<and> pstate (pcb t 0x100) = PROC_READY"
proof -
  have "current demo1 = 0x100" "pstate (pcb demo1 0x100) = PROC_RUNNING" "preempt_count demo1 = 0" "idle_proc demo1 = 0x900"
    by (simp_all add: demo1_def demo_states) (simp_all add: demo_def sched_add_def Let_def)
  then show ?thesis using lone_process_preempted_by_idle [OF demo1_queue] by simp
qed

end
