(* ===== verification/Proc_Life.thy ===== *)
theory Proc_Life
  imports Sched_Correct
begin

text \<open>
  The life of a process: creation, destruction and state changes (\<open>src/kernel/proc/proc.c\<close>), exit,
  termination and reaping (\<open>zombie.c\<close>) and waiting for children (\<open>wait.c\<close>). Control blocks come
  from the kernel heap. A call that blocks in \<open>proc_wait\<close> is split where it gives up the processor:
  \<open>proc_wait\<close> and \<open>wait_resume\<close> run up to the result or up to the point where the caller sleeps,
  so that any other activity can happen in between.
\<close>

section \<open>Creation and destruction\<close>

text \<open>The size of the control block with the x86_64 layout of \<open>proc.h\<close> and \<open>context.h\<close>.\<close>

definition SIZEOF_PROCESS :: u64 where "SIZEOF_PROCESS = 1440"

definition proc_alloc :: "kproc \<Rightarrow> (ptr \<times> kproc) option" where
  "proc_alloc s =
     do {
       (p, h) \<leftarrow> kmalloc SIZEOF_PROCESS (proc_heap s);
       Some (p, s\<lparr>proc_heap := h\<rparr>)
     }"

definition proc_free_mem :: "ptr \<Rightarrow> kproc \<Rightarrow> kproc" where
  "proc_free_mem p s = s\<lparr>proc_heap := kfree p (proc_heap s)\<rparr>"

definition proc_init :: "kproc \<Rightarrow> kproc" where
  "proc_init s = proc_klog (Init_msg ''Process manager initialized'') (proc_table_init s)"

text \<open>The credentials, session and priority a new process starts with.\<close>

definition inherit :: "ptr \<Rightarrow> ptr \<Rightarrow> kproc \<Rightarrow> kproc" where
  "inherit par p s =
     (if par \<noteq> 0
      then
        let q = pcb s par
        in upd p (\<lambda>r. r\<lparr>parent := pid q, csid := csid q, uid := uid q, euid := euid q, gid := gid q,
             egid := egid q, pcaps := pcaps q, base_priority := base_priority q, nice := nice q\<rparr>) s
      else
        let (c, s) = proc_alloc_csid s
        in upd p (\<lambda>r. r\<lparr>csid := c, parent := PID_KERNEL, uid := 0, euid := 0, gid := 0, egid := 0,
             pcaps := CAP_ALL, base_priority := SCHED_DEFAULT_PRIORITY, nice := 0\<rparr>) s)"

definition proc_create :: "ptr \<Rightarrow> kproc \<Rightarrow> (ptr \<times> kproc) option" where
  "proc_create par s =
     do {
       (p, s) \<leftarrow> proc_alloc s;
       if p = 0 then Some (0, proc_klog (Error ''Failed to allocate process'') s)
       else
         let s = upd p (\<lambda>_. zero_process) s;
             (i, s) = proc_alloc_pid s;
             s = upd p (\<lambda>r. r\<lparr>pid := i\<rparr>) s
         in if i = PID_INVALID
            then Some (0, proc_free_mem p (proc_klog (Error ''No PIDs available'') s))
            else
              let s = inherit par p s;
                  s = upd p (\<lambda>r. r\<lparr>pstate := PROC_NEW, pvalid := True, pflags := PROC_FLAG_NONE,
                        start_time := timer_ms s, cpu_time := 0, est_runtime := 100, wait_time := 0,
                        last_run := 0, current_priority := base_priority r,
                        psegments := (\<lambda>i. if i < PROC_MAX_SEGMENTS then INVALID_HANDLE else psegments r i),
                        fds := (\<lambda>i. if i < PROC_MAX_FDS then 0 else fds r i),
                        waiting_for := PID_INVALID, status_ptr := 0, pnext := 0, pprev := 0\<rparr>) s
              in Some (p, proc_table_add p s)
     }"

text \<open>\<open>sasy_release_process\<close> only logs.\<close>

definition sasy_release_process :: "u16 \<Rightarrow> kproc \<Rightarrow> kproc" where
  "sasy_release_process i s = proc_klog (Log ''[SEG] Releasing process segments'') s"

definition close_fds :: "process \<Rightarrow> process" where
  "close_fds p = p\<lparr>fds := (\<lambda>i. if i < PROC_MAX_FDS then 0 else fds p i)\<rparr>"

definition clear_segments :: "process \<Rightarrow> process" where
  "clear_segments p = p\<lparr>psegments := (\<lambda>i. if i < PROC_MAX_SEGMENTS then INVALID_HANDLE else psegments p i)\<rparr>"

definition proc_destroy :: "ptr \<Rightarrow> kproc \<Rightarrow> kproc" where
  "proc_destroy p s =
     (if p = 0 then s
      else
        let s = proc_reparent_children (pid (pcb s p)) s;
            s = sasy_release_process (pid (pcb s p)) s;
            s = upd p close_fds s;
            s = upd p (\<lambda>q. q\<lparr>ipc := 0\<rparr>) s;
            s = proc_table_remove (pid (pcb s p)) s;
            s = upd p (\<lambda>q. q\<lparr>pstate := PROC_DEAD\<rparr>) s
        in proc_free_mem p s)"

section \<open>State changes and names\<close>

definition proc_set_ready :: "ptr \<Rightarrow> kproc \<Rightarrow> kproc" where
  "proc_set_ready p s =
     (if p = 0 then s
      else if pstate (pcb s p) = PROC_ZOMBIE \<or> pstate (pcb s p) = PROC_DEAD then s
      else sched_add p (upd p (\<lambda>q. q\<lparr>pstate := PROC_READY\<rparr>) s))"

definition proc_set_blocked :: "ptr \<Rightarrow> kproc \<Rightarrow> kproc" where
  "proc_set_blocked p s =
     (if p = 0 then s else sched_remove p (upd p (\<lambda>q. q\<lparr>pstate := PROC_BLOCKED\<rparr>) s))"

definition proc_set_zombie :: "ptr \<Rightarrow> int \<Rightarrow> kproc \<Rightarrow> kproc" where
  "proc_set_zombie p code s =
     (if p = 0 then s
      else
        let s = upd p (\<lambda>q. q\<lparr>pstate := PROC_ZOMBIE, exit_code := code\<rparr>) s;
            s = sched_remove p s
        in sched_wake_parent (pid (pcb s p)) s)"

text \<open>Names are the strings the fixed fields hold, without the terminator.\<close>

definition proc_set_name :: "ptr \<Rightarrow> string option \<Rightarrow> kproc \<Rightarrow> kproc" where
  "proc_set_name p name s =
     (case name of
        None \<Rightarrow> s
      | Some n \<Rightarrow> if p = 0 then s else upd p (\<lambda>q. q\<lparr>pname := take (PROC_NAME_MAX - 1) n\<rparr>) s)"

section \<open>Exit, termination, reaping\<close>

text \<open>
  \<open>proc_exit\<close> ends in a halt loop of the exiting process; the result is the state after the
  processor was handed on.
\<close>

definition proc_exit :: "int \<Rightarrow> kproc \<Rightarrow> kproc option" where
  "proc_exit code s =
     (let p = current s in
      if p = 0 then Some (proc_klog (Error ''exit: No current process'') s)
      else if pstate (pcb s p) = PROC_ZOMBIE \<or> pstate (pcb s p) = PROC_DEAD
      then Some (proc_klog (Warn ''exit: Process already exited'') s)
      else
        let s = upd p (\<lambda>q. q\<lparr>exit_code := code, exit_signal := 0\<rparr>) s;
            s = sasy_release_process (pid (pcb s p)) s;
            s = upd p clear_segments s;
            s = upd p close_fds s;
            s = upd p (\<lambda>q. q\<lparr>ipc := 0\<rparr>) s;
            s = proc_reparent_children (pid (pcb s p)) s;
            s = upd p (\<lambda>q. q\<lparr>pstate := PROC_ZOMBIE\<rparr>) s;
            s = sched_remove p s;
            s = sched_wake_parent (pid (pcb s p)) s
        in schedule s)"

definition proc_terminate :: "ptr \<Rightarrow> int \<Rightarrow> kproc \<Rightarrow> kproc option" where
  "proc_terminate p signal s =
     (if p = 0 then Some s
      else
        let s = upd p (\<lambda>q. q\<lparr>exit_signal := signal, exit_code := 0\<rparr>) s;
            s = sasy_release_process (pid (pcb s p)) s;
            s = upd p clear_segments s;
            s = upd p close_fds s;
            s = proc_reparent_children (pid (pcb s p)) s;
            s = upd p (\<lambda>q. q\<lparr>pstate := PROC_ZOMBIE\<rparr>) s;
            s = sched_remove p s;
            s = sched_wake_parent (pid (pcb s p)) s
        in if p = current s then schedule s else Some s)"

definition proc_reap_zombies :: "kproc \<Rightarrow> kproc" where
  "proc_reap_zombies s =
     fold (\<lambda>c s. if pstate (pcb s c) = PROC_ZOMBIE then proc_destroy c s else s)
       (proc_get_children PID_INIT 64 s) s"

definition panic_exit :: "ptr \<Rightarrow> kproc \<Rightarrow> kproc option" where
  "panic_exit p s =
     (if p = 0 then Some s
      else
        let s = proc_klog (Fail ''Process panic - emergency cleanup'') s;
            s = upd p (\<lambda>q. q\<lparr>pstate := PROC_DEAD\<rparr>) s;
            s = sched_remove p s;
            s = sasy_release_process (pid (pcb s p)) s;
            s = proc_reparent_children (pid (pcb s p)) s
        in if p = current s then schedule (s\<lparr>current := 0\<rparr>) else Some s)"

section \<open>Waiting\<close>

definition WNOHANG :: int where "WNOHANG = 0x01"

definition WEXITSTATUS :: "int \<Rightarrow> int" where "WEXITSTATUS st = drop_bit 8 st AND 0xFF"
definition WTERMSIG :: "int \<Rightarrow> int" where "WTERMSIG st = st AND 0x7F"
definition WIFEXITED :: "int \<Rightarrow> bool" where "WIFEXITED st \<longleftrightarrow> WTERMSIG st = 0"
definition WIFSIGNALED :: "int \<Rightarrow> bool" where "WIFSIGNALED st \<longleftrightarrow> WTERMSIG st \<noteq> 0"

definition find_zombie_child :: "u16 \<Rightarrow> u16 \<Rightarrow> kproc \<Rightarrow> ptr" where
  "find_zombie_child parent_pid target_pid s =
     (case find (\<lambda>c. \<not> (target_pid \<noteq> PID_ANY \<and> pid (pcb s c) \<noteq> target_pid) \<and> pstate (pcb s c) = PROC_ZOMBIE)
        (proc_get_children parent_pid 64 s) of
        Some c \<Rightarrow> c
      | None \<Rightarrow> 0)"

definition has_children :: "u16 \<Rightarrow> u16 \<Rightarrow> kproc \<Rightarrow> bool" where
  "has_children parent_pid target_pid s \<longleftrightarrow>
     (let children = proc_get_children parent_pid 64 s in
      if target_pid = PID_ANY then children \<noteq> []
      else \<exists>c \<in> set children. pid (pcb s c) = target_pid)"

text \<open>
  A call either returns, with what it stored through \<open>status\<close>, or sleeps; the state is the one
  after the processor was handed on.
\<close>

datatype wait_outcome = Returned u16 "int option" kproc | Sleeping kproc

definition exit_status :: "process \<Rightarrow> int" where
  "exit_status z =
     (if exit_signal z \<noteq> 0 then exit_signal z AND 0x7F else push_bit 8 (exit_code z AND 0xFF))"

definition wait_pass :: "ptr \<Rightarrow> u16 \<Rightarrow> ptr \<Rightarrow> int \<Rightarrow> kproc \<Rightarrow> wait_outcome option" where
  "wait_pass par target status options s =
     (let zombie = find_zombie_child (pid (pcb s par)) target s in
      if zombie \<noteq> 0
      then
        let child_pid = pid (pcb s zombie);
            stored = (if status \<noteq> 0 then Some (exit_status (pcb s zombie)) else None)
        in Some (Returned child_pid stored (proc_destroy zombie s))
      else if options AND WNOHANG \<noteq> 0 then Some (Returned 0 None s)
      else map_option Sleeping (sched_sleep (upd par (\<lambda>q. q\<lparr>pstate := PROC_WAIT\<rparr>) s)))"

definition proc_wait :: "u16 \<Rightarrow> ptr \<Rightarrow> int \<Rightarrow> kproc \<Rightarrow> wait_outcome option" where
  "proc_wait target status options s =
     (let par = current s in
      if par = 0 then Some (Returned (- 1) None s)
      else if \<not> has_children (pid (pcb s par)) target s then Some (Returned (- 1) None s)
      else wait_pass par target status options
             (upd par (\<lambda>q. q\<lparr>waiting_for := target, status_ptr := status\<rparr>) s))"

text \<open>The rest of the loop body of the sleeping caller \<open>par\<close>, once it runs again.\<close>

definition wait_resume :: "ptr \<Rightarrow> u16 \<Rightarrow> ptr \<Rightarrow> int \<Rightarrow> kproc \<Rightarrow> wait_outcome option" where
  "wait_resume par target status options s =
     (if \<not> has_children (pid (pcb s par)) target s then Some (Returned (- 1) None s)
      else wait_pass par target status options s)"

definition proc_waitpid :: "u16 \<Rightarrow> ptr \<Rightarrow> int \<Rightarrow> kproc \<Rightarrow> wait_outcome option" where
  "proc_waitpid target status options s = proc_wait target status options s"

definition proc_wait_any :: "ptr \<Rightarrow> kproc \<Rightarrow> wait_outcome option" where
  "proc_wait_any status s = proc_wait PID_ANY status 0 s"

end
