(* ===== verification/Proc_Correct.thy ===== *)
theory Proc_Correct
  imports Proc_Life
begin

text \<open>
  Correctness of the process life cycle: the table, the identifiers and the heap stay consistent
  under creation and destruction, creation hands out a fresh identifier and inherits from the
  parent, an exiting process becomes a zombie its parent can collect with the exit status, and
  what happens where the code looks at 64 children only.
\<close>

section \<open>The process table and the heap\<close>

definition live_procs :: "kproc \<Rightarrow> ptr set" where
  "live_procs s = {p. p \<noteq> 0 \<and> (\<exists>i < MAX_PROC. proc_table s i = p)}"

definition proc_inv :: "kproc \<Rightarrow> bool" where
  "proc_inv s \<longleftrightarrow> kheap_inv (proc_heap s) \<and> pid_inv s \<and> proc_table s 0 = 0 \<and>
     (\<forall>i < MAX_PROC. proc_table s i \<noteq> 0 \<longrightarrow>
        unat (pid (pcb s (proc_table s i))) = i \<and> proc_table s i \<in> live_ptrs (proc_heap s))"

lemma proc_inv_inj: "proc_inv s \<Longrightarrow> table_inj s"
  unfolding proc_inv_def table_inj_def by metis

lemma proc_inv_cong:
  assumes "proc_table t = proc_table s" and "proc_heap t = proc_heap s" and "next_pid t = next_pid s"
    and "\<And>q. pid (pcb t q) = pid (pcb s q)"
  shows "proc_inv t = proc_inv s" and "live_procs t = live_procs s"
  by (simp_all add: proc_inv_def pid_inv_def live_procs_def assms)

lemma proc_inv_find:
  assumes "proc_inv s"
  shows "p \<in> live_procs s \<longleftrightarrow> p \<noteq> 0 \<and> proc_find (pid (pcb s p)) s = p"
proof
  assume "p \<in> live_procs s"
  then obtain i where i: "i < MAX_PROC" "proc_table s i = p" "p \<noteq> 0" by (auto simp: live_procs_def)
  then have p: "unat (pid (pcb s p)) = i" using assms by (auto simp: proc_inv_def)
  moreover have "pid (pcb s p) \<noteq> 0"
  proof
    assume "pid (pcb s p) = 0"
    then have "i = 0" using p by simp
    then show False using i assms by (simp add: proc_inv_def)
  qed
  ultimately show "p \<noteq> 0 \<and> proc_find (pid (pcb s p)) s = p"
    using i MAX_PROC_le [of "pid (pcb s p)"] by (auto simp: proc_find_def PID_INVALID_def)
next
  assume "p \<noteq> 0 \<and> proc_find (pid (pcb s p)) s = p"
  then show "p \<in> live_procs s"
    using MAX_PROC_le [of "pid (pcb s p)"] by (auto simp: live_procs_def proc_find_def not_le split: if_splits)
qed

lemma kmalloc_process:
  assumes "kheap_inv h"
  obtains (none) "kmalloc SIZEOF_PROCESS h = Some (0, h)"
  | (some) p h' where "kmalloc SIZEOF_PROCESS h = Some (p, h')" "p \<noteq> 0" "p \<notin> live_ptrs h"
      "live_ptrs h' = insert p (live_ptrs h)" "kheap_inv h'"
proof (cases rule: kmalloc_correct [OF assms, of SIZEOF_PROCESS, case_names zero small fail ok])
  case (ok h' a sz)
  then have "a + 32 < 18446744073709551616" using live_block_addr_lt [of h' a sz] by simp
  then have p: "adr (a + 32) \<noteq> 0" by (simp add: adr_eq_0_iff)
  then have al: "heap_alloc SIZEOF_PROCESS h = (Some (adr (a + 32)), h')" using ok(1) by (simp add: heap_alloc_def)
  show thesis
    using some [OF ok(1) p heap.alloc_fresh [OF assms al] heap.alloc_live [OF assms al] ok(2)] .
qed (auto simp: SIZEOF_PROCESS_def KHEAP_MAX_ALLOC_def intro: none)

lemma inherit_simps [simp]:
  "proc_table (inherit par p s) = proc_table s" "proc_heap (inherit par p s) = proc_heap s"
  "next_pid (inherit par p s) = next_pid s" "run_queue_head (inherit par p s) = run_queue_head s"
  "run_queue_tail (inherit par p s) = run_queue_tail s" "timer_ms (inherit par p s) = timer_ms s"
  "current (inherit par p s) = current s" "idle_proc (inherit par p s) = idle_proc s"
  "preempt_count (inherit par p s) = preempt_count s" "stats (inherit par p s) = stats s"
  "pid (pcb (inherit par p s) q) = pid (pcb s q)"
  by (simp_all add: inherit_def proc_alloc_csid_def Let_def)

lemma inherit_other: "q \<noteq> p \<Longrightarrow> pcb (inherit par p s) q = pcb s q"
  by (simp add: inherit_def proc_alloc_csid_def Let_def)

lemma inherit_child:
  assumes "par \<noteq> 0"
  shows "parent (pcb (inherit par p s) p) = pid (pcb s par)" "csid (pcb (inherit par p s) p) = csid (pcb s par)"
    "uid (pcb (inherit par p s) p) = uid (pcb s par)" "euid (pcb (inherit par p s) p) = euid (pcb s par)"
    "gid (pcb (inherit par p s) p) = gid (pcb s par)" "egid (pcb (inherit par p s) p) = egid (pcb s par)"
    "pcaps (pcb (inherit par p s) p) = pcaps (pcb s par)"
    "base_priority (pcb (inherit par p s) p) = base_priority (pcb s par)"
  using assms by (simp_all add: inherit_def Let_def)

text \<open>What a successful creation does.\<close>

definition created :: "ptr \<Rightarrow> kproc \<Rightarrow> ptr \<Rightarrow> kproc \<Rightarrow> bool" where
  "created par s p t \<longleftrightarrow>
     p \<noteq> 0 \<and> p \<notin> live_ptrs (proc_heap s) \<and> live_ptrs (proc_heap t) = insert p (live_ptrs (proc_heap s)) \<and>
     kheap_inv (proc_heap t) \<and> pid_inv t \<and>
     1 \<le> unat (pid (pcb t p)) \<and> unat (pid (pcb t p)) < MAX_PROC \<and>
     proc_table s (unat (pid (pcb t p))) = 0 \<and> proc_table t = (proc_table s)(unat (pid (pcb t p)) := p) \<and>
     (\<forall>q. q \<noteq> p \<longrightarrow> pcb t q = pcb s q) \<and> pnext (pcb t p) = 0 \<and> pprev (pcb t p) = 0 \<and>
     pstate (pcb t p) = PROC_NEW \<and> pvalid (pcb t p) \<and> (\<forall>i < PROC_MAX_FDS. fds (pcb t p) i = 0) \<and>
     (\<forall>i < PROC_MAX_SEGMENTS. psegments (pcb t p) i = INVALID_HANDLE) \<and>
     run_queue_head t = run_queue_head s \<and> run_queue_tail t = run_queue_tail s \<and>
     current t = current s \<and> idle_proc t = idle_proc s \<and> preempt_count t = preempt_count s \<and>
     (par \<noteq> 0 \<and> par \<noteq> p \<longrightarrow> parent (pcb t p) = pid (pcb s par) \<and> csid (pcb t p) = csid (pcb s par) \<and>
        uid (pcb t p) = uid (pcb s par) \<and> euid (pcb t p) = euid (pcb s par) \<and>
        gid (pcb t p) = gid (pcb s par) \<and> egid (pcb t p) = egid (pcb s par) \<and>
        pcaps (pcb t p) = pcaps (pcb s par))"

lemma proc_create_cases:
  assumes "kheap_inv (proc_heap s)" and "pid_inv s"
  obtains (fail) t where "proc_create par s = Some (0, t)" "kheap_inv (proc_heap t)" "pid_inv t"
      "live_ptrs (proc_heap t) = live_ptrs (proc_heap s)" "proc_table t = proc_table s"
      "\<And>q. q \<in> live_ptrs (proc_heap s) \<Longrightarrow> pcb t q = pcb s q"
      "\<And>q. pcb t q = pcb s q \<or> q \<noteq> 0 \<and> pcb t q = zero_process"
      "run_queue_head t = run_queue_head s" "run_queue_tail t = run_queue_tail s"
      "(\<forall>i. 1 \<le> i \<and> i < MAX_PROC \<longrightarrow> proc_table s i \<noteq> 0) \<or> kmalloc SIZEOF_PROCESS (proc_heap s) = Some (0, proc_heap s)"
  | (ok) p t where "proc_create par s = Some (p, t)" "created par s p t"
proof (cases rule: kmalloc_process [OF assms(1), case_names none some])
  case none
  show thesis
    by (rule fail [of "proc_klog (Error ''Failed to allocate process'') s"])
      (use assms none in \<open>simp_all add: proc_create_def proc_alloc_def proc_klog_def pid_inv_def\<close>)
next
  case (some p h)
  let ?s0 = "s\<lparr>proc_heap := h\<rparr>" let ?s1 = "upd p (\<lambda>_. zero_process) ?s0"
  have "pid_inv ?s1" using assms(2) by (simp add: pid_inv_def)
  then show thesis
  proof (cases rule: proc_alloc_pid_cases [case_names full free])
    case full
    let ?t = "proc_free_mem p (proc_klog (Error ''No PIDs available'') (upd p (\<lambda>r. r\<lparr>pid := PID_INVALID\<rparr>) ?s1))"
    have create: "proc_create par s = Some (0, ?t)"
      using some(1,2) full(1) by (simp add: proc_create_def proc_alloc_def Let_def)
    have "p \<in> live_ptrs h" using some(4) by simp
    note fr = heap.free_inv [OF some(5) this] heap.free_live [OF some(5) this]
    have "zero_process\<lparr>pid := PID_INVALID\<rparr> = zero_process" by (simp add: zero_process_def PID_INVALID_def)
    then have z: "pcb ?t q = pcb s q \<or> q \<noteq> 0 \<and> pcb ?t q = zero_process" for q
      using some(2) by (auto simp: proc_free_mem_def)
    show thesis
      by (rule fail [OF create _ _ _ _ _ z])
        (use assms some fr full(2) in \<open>auto simp: proc_free_mem_def pid_inv_def\<close>)
  next
    case (free i n)
    have i: "unat (of_nat i :: u16) = i" using free(2) by (simp add: MAX_PROC_def)
    have nz: "of_nat i \<noteq> PID_INVALID" using free(1) i by (auto simp: PID_INVALID_def)
    define s2 where "s2 = upd p (\<lambda>r. r\<lparr>pid := of_nat i\<rparr>) (?s1\<lparr>next_pid := n\<rparr>)"
    define s3 where "s3 = inherit par p s2"
    define s4 where "s4 = upd p (\<lambda>r. r\<lparr>pstate := PROC_NEW, pvalid := True, pflags := PROC_FLAG_NONE,
        start_time := timer_ms s3, cpu_time := 0, est_runtime := 100, wait_time := 0,
        last_run := 0, current_priority := base_priority r,
        psegments := (\<lambda>i. if i < PROC_MAX_SEGMENTS then INVALID_HANDLE else psegments r i),
        fds := (\<lambda>i. if i < PROC_MAX_FDS then 0 else fds r i),
        waiting_for := PID_INVALID, status_ptr := 0, pnext := 0, pprev := 0\<rparr>) s3"
    have cr: "proc_create par s = Some (p, proc_table_add p s4)"
      unfolding s4_def s3_def s2_def using some(1,2) free(4) nz by (simp add: proc_create_def proc_alloc_def Let_def)
    have pid4: "pid (pcb s4 p) = of_nat i" by (simp add: s4_def s3_def s2_def)
    have other: "pcb s4 q = pcb s q" if "q \<noteq> p" for q
      using that by (simp add: s4_def s3_def s2_def inherit_other)
    have "\<not> of_nat MAX_PROC \<le> (of_nat i :: u16)" using free(2) i MAX_PROC_le [of "of_nat i"] by simp
    then have add: "proc_table_add p s4 = s4\<lparr>proc_table := (proc_table s)(i := p)\<rparr>"
      using some(2) nz by (simp add: proc_table_add_def pid4 i) (simp add: s4_def s3_def s2_def)
    have "created par s p (proc_table_add p s4)"
      unfolding add created_def
      using some(2-5) free(1-3,5,6) pid4 i other
      by (auto simp: s4_def s3_def s2_def pid_inv_def inherit_child)
    with cr show thesis by (rule ok)
  qed
qed

lemma live_procs_insert:
  assumes "proc_table t = (proc_table s)(i := p)" and "i < MAX_PROC" and "proc_table s i = 0" and "p \<noteq> 0"
  shows "live_procs t = insert p (live_procs s)"
proof (intro set_eqI iffI)
  fix q assume "q \<in> live_procs t"
  then show "q \<in> insert p (live_procs s)" using assms(1) by (auto simp: live_procs_def split: if_splits)
next
  fix q assume "q \<in> insert p (live_procs s)"
  then consider "q = p" | j where "q \<noteq> 0" "j < MAX_PROC" "proc_table s j = q" by (auto simp: live_procs_def)
  then show "q \<in> live_procs t"
  proof cases
    case 1
    then show ?thesis using assms by (auto simp: live_procs_def intro: exI [of _ i])
  next
    case 2
    then have "proc_table t j = q" using assms(1,3) by auto
    with 2 show ?thesis by (auto simp: live_procs_def)
  qed
qed

lemma live_procs_delete:
  assumes "proc_table t = (proc_table s)(i := 0)" and "proc_table s i = p" and "\<And>j. j < MAX_PROC \<Longrightarrow> j \<noteq> i \<Longrightarrow> proc_table s j \<noteq> p"
  shows "live_procs t = live_procs s - {p}"
proof (intro set_eqI iffI)
  fix q assume "q \<in> live_procs t"
  then obtain j where "j < MAX_PROC" "proc_table t j = q" "q \<noteq> 0" by (auto simp: live_procs_def)
  moreover from this have "j \<noteq> i" using assms(1) by auto
  ultimately show "q \<in> live_procs s - {p}" using assms(1) assms(3) [of j] by (auto simp: live_procs_def)
next
  fix q assume q: "q \<in> live_procs s - {p}"
  then obtain j where j: "j < MAX_PROC" "proc_table s j = q" "q \<noteq> 0" by (auto simp: live_procs_def)
  then have "proc_table t j = q" using assms(1,2) q by auto
  with j show "q \<in> live_procs t" by (auto simp: live_procs_def)
qed

lemma created_inv:
  assumes "proc_inv s" and "created par s p t"
  shows "proc_inv t" and "live_procs t = insert p (live_procs s)" and "p \<notin> live_procs s"
proof -
  let ?i = "unat (pid (pcb t p))"
  note c = assms(2) [unfolded created_def]
  have tab: "proc_table t j = (if j = ?i then p else proc_table s j)" for j using c by simp
  have live: "proc_table s j \<noteq> p" if "j < MAX_PROC" for j
    using assms(1) c that by (metis proc_inv_def)
  show "proc_inv t"
    unfolding proc_inv_def
  proof (intro conjI allI impI)
    fix j assume j: "j < MAX_PROC" "proc_table t j \<noteq> 0"
    show "unat (pid (pcb t (proc_table t j))) = j" "proc_table t j \<in> live_ptrs (proc_heap t)"
      using assms(1) c j live [OF j(1)] by (auto simp: tab proc_inv_def)
  qed (use assms(1) c in \<open>auto simp: proc_inv_def\<close>)
  show "p \<notin> live_procs s" using live by (auto simp: live_procs_def)
  show "live_procs t = insert p (live_procs s)" by (rule live_procs_insert [of _ _ ?i]) (use c in blast)+
qed

text \<open>Reparenting only touches parent identifiers and flags of table entries.\<close>

lemma reparent_simps:
  assumes "proc_inv s"
  shows "pcb (proc_reparent_children old s) q =
     (if q \<in> live_procs s \<and> parent (pcb s q) = old
      then (pcb s q)\<lparr>parent := PID_INIT, pflags := pflags (pcb s q) OR PROC_FLAG_ORPHAN\<rparr> else pcb s q)"
    and "proc_reparent_children old s = s\<lparr>pcb := pcb (proc_reparent_children old s)\<rparr>"
proof -
  have "inj_on (proc_table s) {i. i < MAX_PROC \<and> proc_table s i \<noteq> 0}"
    using proc_inv_inj [OF assms] by (auto simp: inj_on_def table_inj_def)
  note r = reparent_spec [OF this, of old]
  show "pcb (proc_reparent_children old s) q =
     (if q \<in> live_procs s \<and> parent (pcb s q) = old
      then (pcb s q)\<lparr>parent := PID_INIT, pflags := pflags (pcb s q) OR PROC_FLAG_ORPHAN\<rparr> else pcb s q)"
    unfolding r live_procs_def by auto
  show "proc_reparent_children old s = s\<lparr>pcb := pcb (proc_reparent_children old s)\<rparr>"
    unfolding r by simp
qed

lemma proc_destroy_parts:
  assumes "proc_inv s" and "p \<in> live_procs s"
  defines "t \<equiv> proc_destroy p s"
  shows "proc_table t = (proc_table s)(unat (pid (pcb s p)) := 0)"
    and "proc_heap t = kfree p (proc_heap s)"
    and "\<And>q. pid (pcb t q) = pid (pcb s q) \<and> pnext (pcb t q) = pnext (pcb s q) \<and> pprev (pcb t q) = pprev (pcb s q)"
    and "\<And>q. q \<noteq> p \<Longrightarrow> pcb t q = pcb (proc_reparent_children (pid (pcb s p)) s) q"
    and "next_pid t = next_pid s" and "current t = current s" and "run_queue_head t = run_queue_head s"
    and "run_queue_tail t = run_queue_tail s" and "idle_proc t = idle_proc s" and "preempt_count t = preempt_count s"
proof -
  let ?i = "pid (pcb s p)"
  define r where "r = proc_reparent_children ?i s"
  have "p \<noteq> 0" "proc_find ?i s = p" using assms(2) proc_inv_find [OF assms(1)] by auto
  then have i: "\<not> (?i = PID_INVALID \<or> ?i \<ge> of_nat MAX_PROC)" by (auto simp: proc_find_def split: if_splits)
  have r: "r = s\<lparr>pcb := pcb r\<rparr>" "pid (pcb r q) = pid (pcb s q)" "pnext (pcb r q) = pnext (pcb s q)"
    "pprev (pcb r q) = pprev (pcb s q)" for q
    using reparent_simps [OF assms(1), of ?i] by (simp_all add: r_def)
  have f: "proc_table r = proc_table s" "proc_heap r = proc_heap s" "next_pid r = next_pid s" "current r = current s"
    "run_queue_head r = run_queue_head s" "run_queue_tail r = run_queue_tail s" "idle_proc r = idle_proc s"
    "preempt_count r = preempt_count s"
    by (subst r(1), simp)+
  have t: "t = proc_free_mem p (upd p (\<lambda>q. q\<lparr>pstate := PROC_DEAD\<rparr>)
      ((upd p (\<lambda>q. q\<lparr>ipc := 0\<rparr>) (upd p close_fds (sasy_release_process ?i r)))
        \<lparr>proc_table := (proc_table s)(unat ?i := 0)\<rparr>))"
    using \<open>p \<noteq> 0\<close> i r(2) [of p] f(1)
    by (simp add: t_def proc_destroy_def Let_def proc_table_remove_def r_def [symmetric] close_fds_def sasy_release_process_def)
  show "proc_table t = (proc_table s)(unat ?i := 0)" "proc_heap t = kfree p (proc_heap s)"
    "\<And>q. pid (pcb t q) = pid (pcb s q) \<and> pnext (pcb t q) = pnext (pcb s q) \<and> pprev (pcb t q) = pprev (pcb s q)"
    "\<And>q. q \<noteq> p \<Longrightarrow> pcb t q = pcb (proc_reparent_children ?i s) q"
    "next_pid t = next_pid s" "current t = current s" "run_queue_head t = run_queue_head s"
    "run_queue_tail t = run_queue_tail s" "idle_proc t = idle_proc s" "preempt_count t = preempt_count s"
    using r f by (simp_all add: t proc_free_mem_def sasy_release_process_def close_fds_def r_def [symmetric])
qed

lemma proc_destroy_inv:
  assumes "proc_inv s" and "p \<in> live_procs s"
  shows "proc_inv (proc_destroy p s)" and "live_procs (proc_destroy p s) = live_procs s - {p}"
    and "live_ptrs (proc_heap (proc_destroy p s)) = live_ptrs (proc_heap s) - {p}"
proof -
  let ?t = "proc_destroy p s" and ?i = "unat (pid (pcb s p))"
  note d = proc_destroy_parts [OF assms]
  obtain i where i: "i < MAX_PROC" "proc_table s i = p" "p \<noteq> 0" using assms(2) by (auto simp: live_procs_def)
  then have p: "?i = i" "p \<in> live_ptrs (proc_heap s)" using assms(1) by (auto simp: proc_inv_def)
  have heap: "kheap_inv (proc_heap s)" using assms(1) by (simp add: proc_inv_def)
  note fr = heap.free_inv [OF heap p(2)] heap.free_live [OF heap p(2)]
  show "live_ptrs (proc_heap ?t) = live_ptrs (proc_heap s) - {p}" using fr(2) by (simp add: d(2))
  have other: "proc_table s j \<noteq> p" if "j < MAX_PROC" "j \<noteq> i" for j
    using proc_inv_inj [OF assms(1)] i that unfolding table_inj_def by metis
  show "proc_inv ?t"
    unfolding proc_inv_def
  proof (intro conjI allI impI)
    fix j assume j: "j < MAX_PROC" "proc_table ?t j \<noteq> 0"
    then have "j \<noteq> i" "proc_table ?t j = proc_table s j" by (auto simp: d(1) p(1) split: if_splits)
    then show "unat (pid (pcb ?t (proc_table ?t j))) = j" "proc_table ?t j \<in> live_ptrs (proc_heap ?t)"
      using assms(1) j other [OF j(1)] d(3) fr(2) by (auto simp: proc_inv_def d(2))
  qed (use assms(1) fr in \<open>auto simp: proc_inv_def pid_inv_def d(1,2,5)\<close>)
  show "live_procs ?t = live_procs s - {p}"
    using i other by (intro live_procs_delete [of _ _ i]) (simp_all add: d(1) p(1))
qed

text \<open>Processes are an allocator: creation and destruction keep the table and its identifiers.\<close>

definition create_process :: "ptr \<Rightarrow> kproc \<Rightarrow> ptr option \<times> kproc" where
  "create_process par s =
     (case proc_create par s of
        Some (p, t) \<Rightarrow> (if p = 0 then None else Some p, t)
      | None \<Rightarrow> (None, s))"

lemma create_failed_inv:
  assumes "proc_inv s" and "kheap_inv (proc_heap t)" and "pid_inv t"
    and "live_ptrs (proc_heap t) = live_ptrs (proc_heap s)" and "proc_table t = proc_table s"
    and "\<And>q. q \<in> live_ptrs (proc_heap s) \<Longrightarrow> pcb t q = pcb s q"
  shows "proc_inv t" and "live_procs t = live_procs s"
  using assms by (auto simp: proc_inv_def live_procs_def)

lemma create_process_cases:
  assumes "proc_inv s"
  obtains (fail) t where "create_process par s = (None, t)" "proc_inv t" "live_procs t = live_procs s"
  | (ok) p t where "create_process par s = (Some p, t)" "proc_inv t" "live_procs t = insert p (live_procs s)"
      "p \<notin> live_procs s"
proof -
  have "kheap_inv (proc_heap s)" "pid_inv s" using assms by (simp_all add: proc_inv_def)
  then show thesis
  proof (cases rule: proc_create_cases [of s par, case_names fail ok])
    case (fail t)
    then show thesis using create_failed_inv [OF assms fail(2-6)] by (intro that(1) [of t]) (simp_all add: create_process_def)
  next
    case (ok p t)
    then show thesis using created_inv [OF assms ok(2)]
      by (intro that(2) [of p t]) (auto simp: create_process_def created_def)
  qed
qed

interpretation processes: allocator proc_inv live_procs create_process proc_destroy
proof
  fix s s' :: kproc and r p
  assume inv: "proc_inv s"
  show "proc_inv (snd (create_process r s))"
    by (rule create_process_cases [OF inv, of r]) simp_all
  show "p \<notin> live_procs s" if "create_process r s = (Some p, s')"
    by (rule create_process_cases [OF inv, of r]) (use that in simp_all)
  show "live_procs s' = insert p (live_procs s)" if "create_process r s = (Some p, s')"
    by (rule create_process_cases [OF inv, of r]) (use that in simp_all)
  show "live_procs s' = live_procs s" if "create_process r s = (None, s')"
    by (rule create_process_cases [OF inv, of r]) (use that in simp_all)
  show "proc_inv (proc_destroy p s)" "live_procs (proc_destroy p s) = live_procs s - {p}" if "p \<in> live_procs s"
    using proc_destroy_inv [OF inv that] by simp_all
qed

section \<open>Creation\<close>

lemma created_queue:
  assumes "created par s p t" and "queue_rel s xs" and "set xs \<subseteq> live_ptrs (proc_heap s)"
  shows "queue_rel t xs"
proof -
  note c = assms(1) [unfolded created_def]
  have "pnext (pcb s p) = 0" "pprev (pcb s p) = 0" using assms(2,3) c by (auto simp: queue_rel_def)
  then have "pnext (pcb t q) = pnext (pcb s q) \<and> pprev (pcb t q) = pprev (pcb s q)" for q
    using c by (cases "q = p") auto
  then show ?thesis using queue_rel_cong [OF assms(2)] c by simp
qed

lemma created_find:
  assumes "created par s p t"
  shows "proc_find (pid (pcb t p)) s = 0" and "proc_find (pid (pcb t p)) t = p"
proof -
  let ?i = "pid (pcb t p)"
  note c = assms [unfolded created_def]
  have "?i \<noteq> PID_INVALID" "\<not> ?i \<ge> of_nat MAX_PROC"
    using c MAX_PROC_le [of ?i] by (auto simp: PID_INVALID_def)
  then show "proc_find ?i s = 0" "proc_find ?i t = p" using c by (simp_all add: proc_find_def)
qed

text \<open>
  C22. Creating a process always returns and keeps the process table, the identifiers, the heap and
  the run queue consistent. It fails, changing no live process, only when the heap cannot serve a
  control block or all identifiers are taken; otherwise the new process has an unused block and
  identifier, is found under it, starts empty in state new, and has the credentials, session and
  capabilities of its parent.
\<close>

theorem proc_create_spec:
  assumes "proc_inv s" and "queue_rel s xs" and "set xs \<subseteq> live_ptrs (proc_heap s)"
  shows "\<exists>p t. proc_create par s = Some (p, t) \<and> proc_inv t \<and> queue_rel t xs \<and>
    (if p = 0
     then live_procs t = live_procs s \<and> (\<forall>q \<in> live_procs s. pcb t q = pcb s q) \<and>
       ((\<forall>i. 1 \<le> i \<and> i < MAX_PROC \<longrightarrow> proc_table s i \<noteq> 0) \<or>
        kmalloc SIZEOF_PROCESS (proc_heap s) = Some (0, proc_heap s))
     else created par s p t \<and> live_procs t = insert p (live_procs s) \<and> p \<notin> live_procs s \<and>
       proc_find (pid (pcb t p)) s = 0 \<and> proc_find (pid (pcb t p)) t = p)"
proof -
  have inv: "kheap_inv (proc_heap s)" "pid_inv s" using assms(1) by (simp_all add: proc_inv_def)
  show ?thesis
  proof (cases rule: proc_create_cases [OF inv, of par, case_names fail ok])
    case (fail t)
    have "pnext (pcb t q) = pnext (pcb s q) \<and> pprev (pcb t q) = pprev (pcb s q)" if "q \<noteq> 0" for q
    proof (cases "q \<in> set xs")
      case True
      then show ?thesis using assms(3) fail(6) by auto
    next
      case False
      then have "pnext (pcb s q) = 0" "pprev (pcb s q) = 0" using assms(2) that by (simp_all add: queue_rel_def)
      then show ?thesis using fail(7) [of q] by (auto simp: zero_process_def)
    qed
    then have "queue_rel t xs" using queue_rel_cong [OF assms(2) fail(8,9)] by simp
    moreover have "\<forall>q \<in> live_procs s. pcb t q = pcb s q"
      using assms(1) fail(6) by (auto simp: live_procs_def proc_inv_def)
    ultimately show ?thesis using create_failed_inv [OF assms(1) fail(2-6)] fail(1,10) by (intro exI [of _ 0] exI [of _ t]) simp
  next
    case (ok p t)
    then have "p \<noteq> 0" by (simp add: created_def)
    then show ?thesis
      using ok created_inv [OF assms(1) ok(2)] created_queue [OF ok(2) assms(2,3)] created_find [OF ok(2)]
      by (intro exI [of _ p] exI [of _ t]) simp
  qed
qed

text \<open>An empty system with a one-page heap, as the process manager starts it.\<close>

definition boot_kproc :: kproc where
  "boot_kproc = proc_init (demo\<lparr>run_queue_head := 0, run_queue_tail := 0\<rparr>)"

lemma boot_kproc_inv: "proc_inv boot_kproc" "queue_rel boot_kproc []" "live_procs boot_kproc = {}"
proof -
  have t: "proc_table boot_kproc = (\<lambda>_. 0)" "proc_heap boot_kproc = one_page_heap" "next_pid boot_kproc = 1"
    "pcb boot_kproc = pcb demo" "run_queue_head boot_kproc = 0" "run_queue_tail boot_kproc = 0"
    by (simp_all add: boot_kproc_def proc_init_def proc_table_init_def) (simp add: demo_def)
  show "proc_inv boot_kproc" by (simp add: proc_inv_def pid_inv_def t one_page_heap_inv MAX_PROC_def)
  show "queue_rel boot_kproc []" by (simp add: queue_rel_def t demo_links)
  show "live_procs boot_kproc = {}" by (simp add: live_procs_def t)
qed

lemma boot_create_succeeds:
  "\<not> ((\<forall>i. 1 \<le> i \<and> i < MAX_PROC \<longrightarrow> proc_table boot_kproc i \<noteq> 0) \<or>
      kmalloc SIZEOF_PROCESS (proc_heap boot_kproc) = Some (0, proc_heap boot_kproc))"
proof -
  have heap: "proc_heap boot_kproc = one_page_heap" and tab: "proc_table boot_kproc 1 = 0"
    by (simp_all add: boot_kproc_def proc_init_def proc_table_init_def) (simp add: demo_def)
  have "kmalloc SIZEOF_PROCESS one_page_heap \<noteq> Some (0, one_page_heap)"
  proof (cases rule: kmalloc_correct [OF one_page_heap_inv, of SIZEOF_PROCESS, case_names zero small fail ok])
    case (fail bs)
    then have "bs = [(4096, True)]" using kheap_rel_unique one_page_heap_rel by blast
    with fail(3) show ?thesis by (simp add: needed_for_def SIZEOF_PROCESS_def)
  next
    case (ok h a sz)
    then have "a + 32 < 18446744073709551616" using live_block_addr_lt [of h a sz] by simp
    then show ?thesis using ok(1) by (simp add: adr_eq_0_iff)
  qed (simp_all add: SIZEOF_PROCESS_def KHEAP_MAX_ALLOC_def)
  moreover have "1 < MAX_PROC" by (simp add: MAX_PROC_def)
  ultimately show ?thesis using tab by (auto simp: heap)
qed

theorem proc_create_spec_witness:
  "proc_inv boot_kproc \<and>
   (\<exists>p t. proc_create 0 boot_kproc = Some (p, t) \<and> proc_inv t \<and> p \<noteq> 0 \<and> proc_find (pid (pcb t p)) t = p)"
  using proc_create_spec [OF boot_kproc_inv(1,2), of 0] boot_kproc_inv(1) boot_create_succeeds
  by (auto split: if_splits)

section \<open>Exit\<close>

text \<open>Switching leaves everything but state and timing of the control blocks alone.\<close>

lemma schedule_keeps:
  assumes "schedule s = Some t"
    and "\<And>p v. g (p\<lparr>pstate := v\<rparr>) = g p" "\<And>p v. g (p\<lparr>cpu_time := v\<rparr>) = g p"
      "\<And>p v w. g (p\<lparr>last_run := v, wait_time := w\<rparr>) = g p"
  shows "g (pcb t q) = g (pcb s q)"
proof -
  have m: "g (pcb (mark_ready old u) q) = g (pcb u q)" for old u q
    by (simp add: mark_ready_def assms(2))
  have sw: "g (pcb (switch_to old new u) q) = g (pcb u q)" for old new u q
    using assms(4) [where p = "p\<lparr>pstate := PROC_RUNNING\<rparr>" for p] by (simp add: switch_to_def Let_def assms(2,3))
  show ?thesis
    using assms(1) by (auto simp: schedule_def Let_def bind_eq_Some_conv m sw assms(2) split: if_splits)
qed

lemma schedule_globals:
  assumes "schedule s = Some t"
  shows "proc_table t = proc_table s" "proc_heap t = proc_heap s" "next_pid t = next_pid s"
  using assms
  by (auto simp: schedule_def Let_def bind_eq_Some_conv switch_to_def mark_ready_def sched_enable_preempt_def
      sched_disable_preempt_def split: if_splits)

lemma schedule_proc_inv:
  assumes "schedule s = Some t" and "proc_inv s"
  shows "proc_inv t" and "live_procs t = live_procs s"
proof -
  have "pid (pcb t q) = pid (pcb s q)" for q by (rule schedule_keeps [OF assms(1)]) simp_all
  with assms(2) show "proc_inv t" "live_procs t = live_procs s"
    using proc_inv_cong [OF schedule_globals [OF assms(1)]] by simp_all
qed

lemma remove_keeps:
  assumes "\<And>p v. g (p\<lparr>pnext := v\<rparr>) = g p" "\<And>p v. g (p\<lparr>pprev := v\<rparr>) = g p"
  shows "g (pcb (sched_remove p s) q) = g (pcb s q)"
  using assms(2) [where p = "r\<lparr>pnext := 0\<rparr>" for r] by (simp add: sched_remove_def Let_def assms)

lemma remove_globals [simp]:
  "proc_table (sched_remove p s) = proc_table s" "proc_heap (sched_remove p s) = proc_heap s"
  "next_pid (sched_remove p s) = next_pid s" "current (sched_remove p s) = current s"
  "preempt_count (sched_remove p s) = preempt_count s" "idle_proc (sched_remove p s) = idle_proc s"
  "timer_ms (sched_remove p s) = timer_ms s"
  by (simp_all add: sched_remove_def Let_def)

text \<open>The control block of an exiting process before it leaves the queue.\<close>

definition exited :: "int \<Rightarrow> int \<Rightarrow> process \<Rightarrow> process" where
  "exited code signal p = close_fds (clear_segments (p\<lparr>exit_code := code, exit_signal := signal\<rparr>))"

definition orphaned :: "u16 \<Rightarrow> process \<Rightarrow> process" where
  "orphaned old p = (if parent p = old
     then p\<lparr>parent := PID_INIT, pflags := pflags p OR PROC_FLAG_ORPHAN\<rparr> else p)"

lemma exited_simps [simp]:
  "pid (exited c g p) = pid p" "pnext (exited c g p) = pnext p" "pprev (exited c g p) = pprev p"
  "parent (exited c g p) = parent p" "pstate (exited c g p) = pstate p"
  "exit_code (exited c g p) = c" "exit_signal (exited c g p) = g"
  "i < PROC_MAX_FDS \<Longrightarrow> fds (exited c g p) i = 0"
  by (simp_all add: exited_def close_fds_def clear_segments_def)

lemma orphaned_simps [simp]:
  "pid (orphaned c p) = pid p" "pnext (orphaned c p) = pnext p" "pprev (orphaned c p) = pprev p"
  "pstate (orphaned c p) = pstate p" "exit_code (orphaned c p) = exit_code p"
  "exit_signal (orphaned c p) = exit_signal p" "fds (orphaned c p) = fds p"
  by (simp_all add: orphaned_def)

text \<open>The state of the exiting process just before the scheduler is called.\<close>

definition leaving :: "ptr \<Rightarrow> int \<Rightarrow> kproc \<Rightarrow> kproc" where
  "leaving p code s =
     (let s = upd p (\<lambda>q. q\<lparr>exit_code := code, exit_signal := 0\<rparr>) s;
          s = sasy_release_process (pid (pcb s p)) s;
          s = upd p clear_segments s;
          s = upd p close_fds s;
          s = upd p (\<lambda>q. q\<lparr>ipc := 0\<rparr>) s;
          s = proc_reparent_children (pid (pcb s p)) s
      in upd p (\<lambda>q. q\<lparr>pstate := PROC_ZOMBIE\<rparr>) s)"

lemma leaving_parts:
  fixes code :: int
  assumes "proc_inv s" and "p \<in> live_procs s"
  defines "t \<equiv> leaving p code s"
  shows "pcb t q = (if q \<in> live_procs s then orphaned (pid (pcb s p)) else id)
      (if q = p then (exited code 0 (pcb s p))\<lparr>ipc := 0, pstate := PROC_ZOMBIE\<rparr> else pcb s q)"
    and "proc_table t = proc_table s" and "proc_heap t = proc_heap s" and "next_pid t = next_pid s"
    and "run_queue_head t = run_queue_head s" and "run_queue_tail t = run_queue_tail s"
    and "current t = current s" and "idle_proc t = idle_proc s" and "preempt_count t = preempt_count s"
proof -
  define u where "u = upd p (\<lambda>q. q\<lparr>ipc := 0\<rparr>) (upd p close_fds (upd p clear_segments
    (sasy_release_process (pid (pcb s p)) (upd p (\<lambda>q. q\<lparr>exit_code := code, exit_signal := 0\<rparr>) s))))"
  have u: "pcb u q = (if q = p then (exited code 0 (pcb s p))\<lparr>ipc := 0\<rparr> else pcb s q)" for q
    by (simp add: u_def sasy_release_process_def exited_def)
  have g: "proc_table u = proc_table s" "proc_heap u = proc_heap s" "next_pid u = next_pid s"
    "run_queue_head u = run_queue_head s" "run_queue_tail u = run_queue_tail s" "current u = current s"
    "idle_proc u = idle_proc s" "preempt_count u = preempt_count s"
    by (simp_all add: u_def sasy_release_process_def)
  have "pid (pcb u q) = pid (pcb s q)" for q by (simp add: u)
  then have inv: "proc_inv u" "live_procs u = live_procs s"
    using assms(1) proc_inv_cong [OF g(1-3)] by simp_all
  have t: "t = upd p (\<lambda>q. q\<lparr>pstate := PROC_ZOMBIE\<rparr>) (proc_reparent_children (pid (pcb s p)) u)"
    by (simp add: t_def leaving_def u_def Let_def sasy_release_process_def close_fds_def clear_segments_def)
  note r = reparent_simps [OF inv(1), of "pid (pcb s p)"]
  have "pcb (proc_reparent_children (pid (pcb s p)) u) q =
      (if q \<in> live_procs s then orphaned (pid (pcb s p)) (pcb u q) else pcb u q)" for q
    by (simp add: r(1) inv(2) orphaned_def)
  then show "pcb t q = (if q \<in> live_procs s then orphaned (pid (pcb s p)) else id)
      (if q = p then (exited code 0 (pcb s p))\<lparr>ipc := 0, pstate := PROC_ZOMBIE\<rparr> else pcb s q)"
    using assms(2) by (simp add: t u) (simp add: orphaned_def)
  show "proc_table t = proc_table s" "proc_heap t = proc_heap s" "next_pid t = next_pid s"
    "run_queue_head t = run_queue_head s" "run_queue_tail t = run_queue_tail s" "current t = current s"
    "idle_proc t = idle_proc s" "preempt_count t = preempt_count s"
    unfolding t by (subst r(2), simp add: g)+
qed

lemma proc_exit_leaving:
  assumes "current s = p" and "p \<noteq> 0" and "pstate (pcb s p) \<notin> {PROC_ZOMBIE, PROC_DEAD}"
  shows "proc_exit code s = schedule (sched_remove p (leaving p code s))"
  using assms by (simp add: proc_exit_def leaving_def Let_def wake_parent_none)

text \<open>
  C23. An exiting process becomes a zombie that keeps its exit code: \<open>proc_exit\<close> hands the
  processor to another process, takes the process off the run queue and leaves the others in
  place, closes its descriptors, keeps it in the process table for its parent, and leaves no
  process behind that still names it as its parent (unless it is init itself).
\<close>

theorem proc_exit_spec:
  assumes "proc_inv s" and "queue_rel s xs" and "current s = p" and "p \<in> live_procs s" and "p \<in> set xs"
    and "pstate (pcb s p) \<notin> {PROC_ZOMBIE, PROC_DEAD}" and "preempt_count s = 0"
    and "idle_proc s \<noteq> 0" and "idle_proc s \<noteq> p"
  shows "\<exists>t. proc_exit code s = Some t \<and> proc_inv t \<and> queue_rel t (remove1 p xs) \<and> current t \<noteq> p \<and>
    live_procs t = live_procs s \<and> pid (pcb t p) = pid (pcb s p) \<and> pstate (pcb t p) = PROC_ZOMBIE \<and>
    exit_code (pcb t p) = code \<and> exit_signal (pcb t p) = 0 \<and> (\<forall>i < PROC_MAX_FDS. fds (pcb t p) i = 0) \<and>
    (pid (pcb s p) \<noteq> PID_INIT \<longrightarrow> (\<forall>q \<in> live_procs s. parent (pcb t q) \<noteq> pid (pcb s p)))"
proof -
  have "p \<noteq> 0" using assms(4) by (simp add: live_procs_def)
  define u where "u = leaving p code s"
  define v where "v = sched_remove p u"
  note l = leaving_parts [OF assms(1,4), of code, folded u_def]
  have links: "pnext (pcb u q) = pnext (pcb s q) \<and> pprev (pcb u q) = pprev (pcb s q)" for q
    by (simp add: l(1))
  have "queue_rel u xs" using queue_rel_cong [OF assms(2) l(5,6) links] .
  then have qv: "queue_rel v (remove1 p xs)" unfolding v_def using assms(5) by (rule sched_remove_queue_remove1)
  have "pid (pcb v q) = pid (pcb s q)" for q using remove_keeps [of pid p u q] by (simp add: v_def l(1))
  then have pv: "proc_inv v" "live_procs v = live_procs s"
    using assms(1) proc_inv_cong [of v s] l(2-4) by (simp_all add: v_def)
  obtain t where t: "schedule v = Some t" "queue_rel t (remove1 p xs)"
    using schedule_queue [OF qv] assms(8) l(8) by (auto simp: v_def)
  have zv: "pstate (pcb v p) = PROC_ZOMBIE" by (simp add: v_def l(1) assms(4))
  have "sched_pick v = Some (current t) \<and> current t \<noteq> p \<and> pstate (pcb t p) = PROC_ZOMBIE"
  proof -
    have "distinct xs" using assms(2) by (simp add: queue_rel_def)
    then have "p \<notin> set (remove1 p xs)" by simp
    then obtain r where r: "sched_pick v = Some r" "r \<noteq> p" "r \<noteq> 0"
      using sched_pick_elem [OF qv] assms(8,9) l(8) by (auto simp: v_def)
    have "preempt_count v = 0" using assms(7) l(9) by (simp add: v_def)
    then obtain t' where t': "schedule v = Some t'" "current t' = r"
      "\<And>q. q \<noteq> r \<Longrightarrow> pstate (pcb t' q) =
         (if q = current v \<and> q \<noteq> 0 \<and> pstate (pcb v q) = PROC_RUNNING then PROC_READY else pstate (pcb v q))"
      by (rule schedule_result [OF qv _ r(1,3)]) blast
    have "t' = t" using t(1) t'(1) by simp
    moreover have "pstate (pcb t' p) = PROC_ZOMBIE" using t'(3) [of p] r(2) zv by simp
    ultimately show ?thesis using t'(2) r by simp
  qed
  moreover have "fds (pcb t p) i = 0" if "i < PROC_MAX_FDS" for i
    using schedule_keeps [OF t(1), of "\<lambda>q. fds q i" p] remove_keeps [of "\<lambda>q. fds q i" p u p] that assms(4)
    by (simp add: v_def l(1))
  moreover have "parent (pcb t q) \<noteq> pid (pcb s p)" if "pid (pcb s p) \<noteq> PID_INIT" "q \<in> live_procs s" for q
    using schedule_keeps [OF t(1), of parent q] remove_keeps [of parent p u q] that
    by (simp add: v_def l(1) orphaned_def)
  moreover have "exit_code (pcb t p) = code" "exit_signal (pcb t p) = 0" "pid (pcb t p) = pid (pcb s p)"
    using schedule_keeps [OF t(1), of exit_code p] remove_keeps [of exit_code p u p]
      schedule_keeps [OF t(1), of exit_signal p] remove_keeps [of exit_signal p u p]
      schedule_keeps [OF t(1), of pid p] remove_keeps [of pid p u p] assms(4)
    by (simp_all add: v_def l(1))
  moreover have "proc_exit code s = Some t"
    using proc_exit_leaving [OF assms(3) \<open>p \<noteq> 0\<close> assms(6)] t(1) by (simp add: v_def u_def)
  ultimately show ?thesis using t(2) schedule_proc_inv [OF t(1) pv(1)] pv(2) by (intro exI [of _ t]) simp
qed

section \<open>Examples\<close>

text \<open>A process created on the empty system, queued and current.\<close>

lemma running_process:
  obtains s p where "proc_inv s" "queue_rel s [p]" "current s = p" "live_procs s = {p}" "p \<noteq> 0"
    "pstate (pcb s p) = PROC_NEW" "preempt_count s = 0" "idle_proc s \<noteq> 0" "idle_proc s \<noteq> p"
proof -
  have inv: "kheap_inv (proc_heap boot_kproc)" "pid_inv boot_kproc"
    using boot_kproc_inv(1) by (simp_all add: proc_inv_def)
  have "\<exists>p t. created 0 boot_kproc p t"
  proof (cases rule: proc_create_cases [OF inv, of 0, case_names fail ok])
    case (fail t)
    then show ?thesis using boot_create_succeeds by simp
  qed blast
  then obtain p t where c: "created 0 boot_kproc p t" by blast
  have q: "queue_rel t []" by (rule created_queue [OF c boot_kproc_inv(2)]) simp
  have p: "p \<noteq> 0" "pstate (pcb t p) = PROC_NEW" using c by (simp_all add: created_def)
  have qa: "queue_rel (sched_add p t) ([] @ [p])" by (rule sched_add_queue [OF q]) (simp_all add: p)
  let ?s = "(sched_add p t)\<lparr>current := p, idle_proc := (if p = 1 then 2 else 1)\<rparr>"
  have g: "proc_table ?s = proc_table t" "proc_heap ?s = proc_heap t" "next_pid ?s = next_pid t"
    "pid (pcb ?s q) = pid (pcb t q)" "preempt_count ?s = preempt_count t" for q
    by (simp_all add: sched_add_def Let_def)
  note i = created_inv [OF boot_kproc_inv(1) c]
  have "proc_inv ?s" "live_procs ?s = live_procs t" using proc_inv_cong [OF g(1-4)] i(1) by simp_all
  moreover have "preempt_count boot_kproc = 0" by (simp add: boot_kproc_def proc_init_def proc_table_init_def demo_def)
  then have "preempt_count t = 0" using c by (simp add: created_def)
  moreover have "queue_rel ?s [p]" using qa by (simp add: queue_rel_def)
  ultimately show thesis using that [of ?s p] i(2) boot_kproc_inv(3) p g(5) by simp
qed

theorem proc_exit_spec_witness:
  "\<exists>s p t. proc_inv s \<and> proc_exit 7 s = Some t \<and> pstate (pcb t p) = PROC_ZOMBIE \<and> exit_code (pcb t p) = 7 \<and>
     queue_rel t []"
proof -
  obtain s p where s: "proc_inv s" "queue_rel s [p]" "current s = p" "live_procs s = {p}" "p \<noteq> 0"
    "pstate (pcb s p) = PROC_NEW" "preempt_count s = 0" "idle_proc s \<noteq> 0" "idle_proc s \<noteq> p"
    by (rule running_process)
  with proc_exit_spec [OF s(1,2,3) _ _ _ s(7,8,9), of 7] show ?thesis by auto
qed

end
