(* ===== verification/Proc_Wait.thy ===== *)
theory Proc_Wait
  imports Proc_Correct
begin

text \<open>
  Waiting: the status word round trip, collection of zombies, the effect of the 64-children
  windows of \<open>wait.c\<close>, and a concrete process for the examples.
\<close>

section \<open>Status words\<close>

lemma and_255: "(c :: int) AND 255 = c mod 256"
proof -
  have "(255 :: int) = mask 8" by (simp add: mask_eq_exp_minus_1)
  then have "c AND 255 = take_bit 8 c" by (simp only: take_bit_eq_mask)
  then show ?thesis by (simp add: take_bit_eq_mod)
qed

lemma and_127: "(c :: int) AND 127 = c mod 128"
proof -
  have "(127 :: int) = mask 7" by (simp add: mask_eq_exp_minus_1)
  then have "c AND 127 = take_bit 7 c" by (simp only: take_bit_eq_mask)
  then show ?thesis by (simp add: take_bit_eq_mod)
qed

lemma exit_status_exited:
  assumes "exit_signal p = 0"
  shows "WIFEXITED (exit_status p)" and "WEXITSTATUS (exit_status p) = exit_code p mod 256"
proof -
  have st: "exit_status p = exit_code p mod 256 * 256"
    using assms by (simp add: exit_status_def and_255 push_bit_eq_mult)
  have "(exit_code p mod 256 * 256) mod 128 = 0"
    by presburger
  then show "WIFEXITED (exit_status p)" by (simp add: WIFEXITED_def WTERMSIG_def and_127 st)
  show "WEXITSTATUS (exit_status p) = exit_code p mod 256"
    by (simp add: WEXITSTATUS_def and_255 st drop_bit_eq_div)
qed

lemma exit_status_signaled:
  assumes "1 \<le> exit_signal p" and "exit_signal p \<le> 127"
  shows "WIFSIGNALED (exit_status p)" and "WTERMSIG (exit_status p) = exit_signal p"
  using assms by (simp_all add: exit_status_def WIFSIGNALED_def WTERMSIG_def and_127)

section \<open>Collecting a child\<close>

lemma children_mem:
  "c \<in> set (proc_get_children par lim s) \<Longrightarrow> c \<in> live_procs s \<and> parent (pcb s c) = par"
  unfolding proc_get_children_def collect_spec by (auto simp: live_procs_def dest!: in_set_takeD)

lemma children_upd:
  "(\<And>q. parent (f q) = parent q) \<Longrightarrow> proc_get_children par lim (upd p f s) = proc_get_children par lim s"
  unfolding proc_get_children_def collect_def by (intro arg_cong [where f = "\<lambda>f. for_range 0 MAX_PROC f []"]) (auto simp: fun_eq_iff)

text \<open>Every process is in the table under its own identifier.\<close>

definition table_pids :: "kproc \<Rightarrow> bool" where
  "table_pids s \<longleftrightarrow> proc_table s 0 = 0 \<and>
     (\<forall>i < MAX_PROC. proc_table s i \<noteq> 0 \<longrightarrow> unat (pid (pcb s (proc_table s i))) = i)"

lemma proc_inv_pids: "proc_inv s \<Longrightarrow> table_pids s"
  by (simp add: proc_inv_def table_pids_def)

lemma live_pid_table:
  assumes "table_pids s" and "p \<in> live_procs s"
  shows "unat (pid (pcb s p)) < MAX_PROC" and "proc_table s (unat (pid (pcb s p))) = p"
    and "pid (pcb s p) \<noteq> PID_ANY" and "pid (pcb s p) \<noteq> 0"
proof -
  obtain i where i: "i < MAX_PROC" "proc_table s i = p" "p \<noteq> 0" using assms(2) by (auto simp: live_procs_def)
  then have p: "unat (pid (pcb s p)) = i" "i \<noteq> 0" using assms(1) by (auto simp: table_pids_def intro: ccontr)
  then show 1: "unat (pid (pcb s p)) < MAX_PROC" "proc_table s (unat (pid (pcb s p))) = p" "pid (pcb s p) \<noteq> 0"
    using i by auto
  have "unat PID_ANY = 65535" by (simp add: PID_ANY_def unsigned_minus_1_eq_mask mask_eq_exp_minus_1)
  with 1(1) show "pid (pcb s p) \<noteq> PID_ANY" by (auto simp: MAX_PROC_def)
qed

lemma live_pid_inj:
  assumes "table_pids s" and "p \<in> live_procs s" and "q \<in> live_procs s" and "pid (pcb s p) = pid (pcb s q)"
  shows "p = q"
proof -
  have "p = proc_table s (unat (pid (pcb s q)))"
    unfolding assms(4) [symmetric] by (rule live_pid_table(2) [OF assms(1,2), symmetric])
  also have "\<dots> = q" by (rule live_pid_table(2) [OF assms(1,3)])
  finally show ?thesis .
qed

lemma find_zombie:
  assumes "proc_inv s" and "z \<in> set (proc_get_children par 64 s)" and "pstate (pcb s z) = PROC_ZOMBIE"
  shows "find_zombie_child par (pid (pcb s z)) s = z"
proof -
  let ?P = "\<lambda>c. \<not> (pid (pcb s z) \<noteq> PID_ANY \<and> pid (pcb s c) \<noteq> pid (pcb s z)) \<and> pstate (pcb s c) = PROC_ZOMBIE"
  have z: "z \<in> live_procs s" using children_mem [OF assms(2)] by simp
  have uniq: "c = z" if "c \<in> set (proc_get_children par 64 s)" "?P c" for c
    using that live_pid_inj [OF proc_inv_pids [OF assms(1)] _ z] live_pid_table(3) [OF proc_inv_pids [OF assms(1)] z]
    children_mem by blast
  have "find ?P (proc_get_children par 64 s) \<noteq> None" using assms(2,3) by (auto simp: find_None_iff)
  then obtain c where "find ?P (proc_get_children par 64 s) = Some c" by blast
  moreover from this have "c = z" using uniq by (auto simp: find_Some_iff)
  ultimately show ?thesis by (simp add: find_zombie_child_def)
qed

text \<open>
  C24. Exit status round trip. When the caller waits for a zombie among its first 64 children,
  \<open>proc_wait\<close> returns that child's identifier, releases its control block and its identifier and
  keeps everything consistent; the stored status decodes with the \<open>wait.c\<close> macros to the low byte of
  the exit code, or to the signal that killed the child.
\<close>

theorem wait_collects:
  assumes "proc_inv s" and "current s \<noteq> 0" and "z \<in> set (proc_get_children (pid (pcb s (current s))) 64 s)"
    and "pstate (pcb s z) = PROC_ZOMBIE" and "status \<noteq> 0"
  shows "\<exists>st t. proc_wait (pid (pcb s z)) status options s = Some (Returned (pid (pcb s z)) (Some st) t) \<and>
    proc_inv t \<and> live_procs t = live_procs s - {z} \<and> live_ptrs (proc_heap t) = live_ptrs (proc_heap s) - {z} \<and>
    proc_find (pid (pcb s z)) t = 0 \<and>
    (exit_signal (pcb s z) = 0 \<longrightarrow> WIFEXITED st \<and> WEXITSTATUS st = exit_code (pcb s z) mod 256) \<and>
    (1 \<le> exit_signal (pcb s z) \<and> exit_signal (pcb s z) \<le> 127 \<longrightarrow>
       WIFSIGNALED st \<and> WTERMSIG st = exit_signal (pcb s z))"
proof -
  let ?par = "current s" and ?z = "pid (pcb s z)"
  define u where "u = upd ?par (\<lambda>q. q\<lparr>waiting_for := ?z, status_ptr := status\<rparr>) s"
  have u: "proc_inv u" "live_procs u = live_procs s" "pid (pcb u q) = pid (pcb s q)"
    "pstate (pcb u q) = pstate (pcb s q)" "exit_status (pcb u q) = exit_status (pcb s q)" "proc_heap u = proc_heap s" for q
    using assms(1) proc_inv_cong [of u s] by (simp_all add: u_def exit_status_def)
  have ch: "proc_get_children par lim u = proc_get_children par lim s" for par lim
    unfolding u_def by (rule children_upd) simp
  have zl: "z \<in> live_procs s" using children_mem [OF assms(3)] by simp
  have fz: "find_zombie_child (pid (pcb u ?par)) ?z u = z"
    using find_zombie [OF u(1), of z "pid (pcb s ?par)"] assms(3,4) by (simp add: ch u)
  have "has_children (pid (pcb s ?par)) ?z s"
    using assms(3) live_pid_table(3) [OF proc_inv_pids [OF assms(1)] zl] by (auto simp: has_children_def)
  then have "proc_wait ?z status options s = wait_pass ?par ?z status options u"
    using assms(2) by (simp add: proc_wait_def u_def Let_def)
  also have "\<dots> = Some (Returned ?z (Some (exit_status (pcb s z))) (proc_destroy z u))"
    using fz zl assms(5) by (simp add: wait_pass_def Let_def u live_procs_def)
  finally have w: "proc_wait ?z status options s = Some (Returned ?z (Some (exit_status (pcb s z))) (proc_destroy z u))" .
  have zu: "z \<in> live_procs u" using zl u(2) by simp
  note d = proc_destroy_inv [OF u(1) zu]
  have "proc_find ?z (proc_destroy z u) = 0"
    using proc_destroy_parts(1) [OF u(1) zu] by (simp add: proc_find_def u)
  with w d u(2,6) exit_status_exited [of "pcb s z"] exit_status_signaled [of "pcb s z"] show ?thesis
    by (intro exI [of _ "exit_status (pcb s z)"] exI [of _ "proc_destroy z u"]) simp
qed

text \<open>
  A child beyond the first 64 of its parent is invisible to the parent: waiting for it fails
  as if there were no such child, whatever its state.
\<close>

theorem wait_misses_late_child:
  assumes "z \<in> live_procs s" and "parent (pcb s z) = pid (pcb s (current s))" and "current s \<noteq> 0"
    and "table_pids s" and "z \<notin> set (proc_get_children (pid (pcb s (current s))) 64 s)"
  shows "proc_wait (pid (pcb s z)) status options s = Some (Returned (- 1) None s)"
proof -
  have "\<not> has_children (pid (pcb s (current s))) (pid (pcb s z)) s"
    using assms(5) live_pid_table(3) [OF assms(4,1)] live_pid_inj [OF assms(4) _ assms(1)] children_mem
    by (fastforce simp: has_children_def Let_def)
  then show ?thesis using assms(3) by (simp add: proc_wait_def Let_def)
qed

text \<open>A parent with at most 64 children sees all of them.\<close>

lemma children_all:
  assumes "table_inj s" and "card {q \<in> live_procs s. parent (pcb s q) = par} \<le> 64"
  shows "set (proc_get_children par 64 s) = {q \<in> live_procs s. parent (pcb s q) = par}"
proof -
  let ?P = "\<lambda>i. proc_table s i \<noteq> 0 \<and> parent (pcb s (proc_table s i)) = par"
  let ?l = "map (proc_table s) (filter ?P [0..<MAX_PROC])"
  have set: "set ?l = {q \<in> live_procs s. parent (pcb s q) = par}" by (auto simp: live_procs_def)
  have "inj_on (proc_table s) {i \<in> {0..<MAX_PROC}. ?P i}"
    using assms(1) by (auto simp: inj_on_def table_inj_def)
  then have "distinct ?l" by (simp add: distinct_map)
  then have "length ?l = card {q \<in> live_procs s. parent (pcb s q) = par}"
    unfolding set [symmetric] by (rule distinct_card [symmetric])
  then have "length ?l \<le> 64" using assms(2) by simp
  then show ?thesis unfolding proc_get_children_def collect_spec using set by (simp only: take_all)
qed

theorem wait_collects_witness:
  "\<exists>s z st t. proc_inv s \<and> pstate (pcb s z) = PROC_ZOMBIE \<and>
     proc_wait (pid (pcb s z)) 0x5000 0 s = Some (Returned (pid (pcb s z)) (Some st) t) \<and>
     WEXITSTATUS st = 7 \<and> live_procs t = {}"
proof -
  obtain s p where s: "proc_inv s" "queue_rel s [p]" "current s = p" "live_procs s = {p}" "p \<noteq> 0"
    "pstate (pcb s p) = PROC_NEW" "preempt_count s = 0" "idle_proc s \<noteq> 0" "idle_proc s \<noteq> p"
    by (rule running_process)
  define u where "u = (upd (idle_proc s) (\<lambda>q. q\<lparr>pid := 9\<rparr>)
    (upd p (\<lambda>q. q\<lparr>pstate := PROC_ZOMBIE, exit_code := 7, exit_signal := 0, parent := 9\<rparr>) s))\<lparr>current := idle_proc s\<rparr>"
  have tab: "proc_table u = proc_table s" "proc_heap u = proc_heap s" "next_pid u = next_pid s" by (simp_all add: u_def)
  have up: "pcb u p = (pcb s p)\<lparr>pstate := PROC_ZOMBIE, exit_code := 7, exit_signal := 0, parent := 9\<rparr>"
    "pid (pcb u (idle_proc s)) = 9" "current u = idle_proc s"
    using s(9) [symmetric] by (simp_all add: u_def fun_upd_def)
  have lu: "live_procs u = {p}" using s(4) unfolding live_procs_def tab .
  have "proc_table u i \<in> live_procs u" if "i < MAX_PROC" "proc_table u i \<noteq> 0" for i
    using that by (auto simp: live_procs_def)
  then have "proc_table s i = p" if "i < MAX_PROC" "proc_table s i \<noteq> 0" for i using that lu tab(1) by auto
  moreover have "pid (pcb u p) = pid (pcb s p)" by (simp add: up)
  ultimately have inv: "proc_inv u" using s(1) by (simp add: proc_inv_def pid_inv_def tab) metis
  have "{q \<in> live_procs u. parent (pcb u q) = 9} = {p}" using lu up(1) by auto
  then have "p \<in> set (proc_get_children (pid (pcb u (current u))) 64 u)"
    using children_all [OF proc_inv_inj [OF inv], of 9] by (simp add: up(2,3))
  from wait_collects [OF inv _ this, of "0x5000" 0] s(8) lu
  obtain st t where "proc_wait (pid (pcb u p)) 0x5000 0 u = Some (Returned (pid (pcb u p)) (Some st) t)"
    "WEXITSTATUS st = 7" "live_procs t = {}"
    by (auto simp: up)
  with inv show ?thesis by (intro exI [of _ u] exI [of _ p] exI [of _ st] exI [of _ t]) (simp add: up)
qed

text \<open>A parent with 65 zombie children.\<close>

definition crowd :: kproc where
  "crowd = demo\<lparr>pcb := (\<lambda>a. zero_process\<lparr>pid := ucast a, parent := (if a = 1 then 0 else 1), pstate := PROC_ZOMBIE\<rparr>),
     proc_table := (\<lambda>i. if 1 \<le> i \<and> i \<le> 66 then of_nat i else 0), current := 1\<rparr>"

lemma crowd_fields: "proc_table crowd i = (if 1 \<le> i \<and> i \<le> 66 then of_nat i else 0)" "current crowd = 1"
  "pid (pcb crowd a) = ucast a" "parent (pcb crowd a) = (if a = 1 then 0 else 1)"
  by (simp_all add: crowd_def)

lemma crowd_small: "i \<le> 66 \<Longrightarrow> unat (ucast (of_nat i :: u64) :: u16) = i"
  "i \<le> 66 \<Longrightarrow> unat (of_nat i :: u64) = i"
  by (simp_all add: unsigned_of_nat take_bit_eq_mod)

lemma filter_range: "b \<le> n \<Longrightarrow> filter (\<lambda>i. a \<le> i \<and> i < b) [0..<n] = [a..<b]"
proof (induction n arbitrary: b)
  case (Suc n)
  show ?case
  proof (cases "b = Suc n")
    case True
    have "filter (\<lambda>i. a \<le> i \<and> i < b) [0..<n] = filter (\<lambda>i. a \<le> i \<and> i < n) [0..<n]"
      by (rule filter_cong) (auto simp: True)
    with Suc.IH [of n] True show ?thesis by (auto simp: not_le)
  next
    case False
    with Suc.IH [of b] Suc.prems show ?thesis by auto
  qed
qed simp

lemma crowd_pids: "table_pids crowd"
  unfolding table_pids_def crowd_fields by (auto simp: crowd_small)

lemma crowd_children: "proc_get_children 1 64 crowd = map of_nat [2..<66]"
proof -
  let ?P = "\<lambda>i. proc_table crowd i \<noteq> 0 \<and> parent (pcb crowd (proc_table crowd i)) = 1"
  have P: "?P i \<longleftrightarrow> 2 \<le> i \<and> i < 67" for i
  proof (cases "1 \<le> i \<and> i \<le> 66")
    case True
    then have "(of_nat i :: u64) = 0 \<longleftrightarrow> i = 0" "(of_nat i :: u64) = 1 \<longleftrightarrow> i = 1"
      using crowd_small(2) [of i] by (auto simp: word_unat_eq_iff)
    with True show ?thesis by (auto simp: crowd_fields)
  qed (auto simp: crowd_fields)
  have "filter ?P [0..<MAX_PROC] = [2..<67]" unfolding P by (rule filter_range) (simp add: MAX_PROC_def)
  then have "proc_get_children 1 64 crowd = take 64 (map (proc_table crowd) [2..<67])"
    by (simp only: proc_get_children_def collect_spec)
  also have "\<dots> = map (proc_table crowd) [2..<66]" by (simp add: take_map)
  also have "\<dots> = map of_nat [2..<66]" by (auto simp: crowd_fields)
  finally show ?thesis .
qed

theorem wait_misses_late_child_witness:
  "pstate (pcb crowd 66) = PROC_ZOMBIE \<and> parent (pcb crowd 66) = pid (pcb crowd (current crowd)) \<and>
   proc_wait (pid (pcb crowd 66)) 0 0 crowd = Some (Returned (- 1) None crowd)"
proof -
  have "66 \<notin> set (proc_get_children (pid (pcb crowd (current crowd))) 64 crowd)"
    by (simp add: crowd_fields crowd_children)
  moreover have "66 \<in> live_procs crowd"
    by (auto simp: live_procs_def crowd_fields MAX_PROC_def intro!: exI [of _ 66])
  ultimately show ?thesis
    using wait_misses_late_child [of 66 crowd 0 0] crowd_pids by (simp add: crowd_fields) (simp add: crowd_def)
qed

end
