(* ===== verification/Proc_Security.thy ===== *)
theory Proc_Security
  imports Proc_Correct
begin

text \<open>
  Process security (\<open>src/kernel/proc/security.c\<close>): validation, invalidation, capabilities, the
  \<open>doas\<close> rules and credential changes. The rule table is the list of its used entries; commands
  are the strings their fixed fields hold.
\<close>

datatype auth_result =
  AUTH_OK | AUTH_DENIED | AUTH_INVALID_USER | AUTH_INVALID_PASSWORD | AUTH_CONFIG_ERROR

record doas_rule =
  rule_uid :: u16
  target_uid :: u16
  allowed_caps :: u32
  nopass :: int
  rule_cmd :: string

definition MAX_DOAS_RULES :: nat where "MAX_DOAS_RULES = 64"

definition UID_ANY :: u16 where "UID_ANY = - 1"

section \<open>Validation\<close>

definition proc_validate :: "ptr \<Rightarrow> kproc \<Rightarrow> bool \<times> kproc" where
  "proc_validate p s =
     (if p = 0 then (False, s)
      else if pflags (pcb s p) AND PROC_FLAG_KERNEL \<noteq> 0 then (True, s)
      else if pml4 (pcb s p) = 0 \<and> \<not> pflags (pcb s p) AND PROC_FLAG_KERNEL \<noteq> 0
      then (False, proc_klog (Warn ''security: Process has no page table'') s)
      else
        let has_code = (find_from (\<lambda>i. psegments (pcb s p) i \<noteq> INVALID_HANDLE) 0 PROC_MAX_SEGMENTS \<noteq> None)
        in if \<not> has_code \<and> pstate (pcb s p) \<noteq> PROC_NEW
           then (False, proc_klog (Warn ''security: Process has no segments'') s)
           else (True, s))"

definition proc_invalidate :: "ptr \<Rightarrow> kproc \<Rightarrow> kproc" where
  "proc_invalidate p s =
     (if p = 0 then s
      else
        let s = proc_klog (Warn ''security: Process invalidated'') s;
            s = upd p (\<lambda>q. q\<lparr>pvalid := False, pstate := PROC_BLOCKED\<rparr>) s
        in sched_remove p s)"

section \<open>Capabilities\<close>

definition proc_has_cap :: "ptr \<Rightarrow> u32 \<Rightarrow> kproc \<Rightarrow> bool" where
  "proc_has_cap p cap s \<longleftrightarrow>
     (if p = 0 then False else if euid (pcb s p) = 0 then True else pcaps (pcb s p) AND cap \<noteq> 0)"

definition proc_grant_cap :: "ptr \<Rightarrow> u32 \<Rightarrow> kproc \<Rightarrow> int \<times> kproc" where
  "proc_grant_cap p cap s =
     (if \<not> proc_has_cap (current s) CAP_ADMIN s then (- 1, s)
      else (0, upd p (\<lambda>q. q\<lparr>pcaps := pcaps q OR cap\<rparr>) s))"

definition proc_revoke_cap :: "ptr \<Rightarrow> u32 \<Rightarrow> kproc \<Rightarrow> int \<times> kproc" where
  "proc_revoke_cap p cap s =
     (if \<not> proc_has_cap (current s) CAP_ADMIN s then (- 1, s)
      else (0, upd p (\<lambda>q. q\<lparr>pcaps := pcaps q AND NOT cap\<rparr>) s))"

section \<open>Rules\<close>

definition rule_matches :: "doas_rule \<Rightarrow> u16 \<Rightarrow> u16 \<Rightarrow> string \<Rightarrow> bool" where
  "rule_matches r u target cmd \<longleftrightarrow>
     \<not> (rule_uid r \<noteq> u \<and> rule_uid r \<noteq> UID_ANY) \<and>
     \<not> (target_uid r \<noteq> target \<and> target_uid r \<noteq> UID_ANY) \<and>
     \<not> (take 1 (rule_cmd r) \<noteq> ''*'' \<and> rule_cmd r \<noteq> cmd)"

definition doas_check_rules :: "u16 \<Rightarrow> u16 \<Rightarrow> string \<Rightarrow> doas_rule list \<Rightarrow> auth_result" where
  "doas_check_rules u target cmd rules =
     (if find (\<lambda>r. rule_matches r u target cmd) rules \<noteq> None then AUTH_OK else AUTH_DENIED)"

definition doas_execute :: "ptr \<Rightarrow> u16 \<Rightarrow> string \<Rightarrow> doas_rule list \<Rightarrow> kproc \<Rightarrow> int \<times> kproc" where
  "doas_execute p target cmd rules s =
     (if p = 0 then (- 1, s)
      else
        let auth = doas_check_rules (uid (pcb s p)) target cmd rules in
        if auth \<noteq> AUTH_OK
        then (- 1, proc_invalidate p (proc_klog (Warn ''security: doas denied'') s))
        else
          let s = upd p (\<lambda>q. q\<lparr>euid := target, egid := 0\<rparr>) s;
              s = (if target = 0 then upd p (\<lambda>q. q\<lparr>pcaps := CAP_ALL\<rparr>) s else s);
              s = upd p (\<lambda>q. q\<lparr>pflags := pflags q OR PROC_FLAG_ELEVATED\<rparr>) s
          in (0, s))"

definition doas_add_rule :: "u16 \<Rightarrow> u16 \<Rightarrow> string option \<Rightarrow> int \<Rightarrow> doas_rule list \<Rightarrow> int \<times> doas_rule list" where
  "doas_add_rule u target cmd np rules =
     (if length rules \<ge> MAX_DOAS_RULES then (- 1, rules)
      else (0, rules @ [\<lparr>rule_uid = u, target_uid = target, allowed_caps = CAP_ALL, nopass = np,
              rule_cmd = (case cmd of Some c \<Rightarrow> take 63 c | None \<Rightarrow> ''*'')\<rparr>]))"

definition security_init :: "kproc \<Rightarrow> doas_rule list \<times> kproc" where
  "security_init s =
     (snd (doas_add_rule 0 UID_ANY None 1 []), proc_klog (Init_msg ''Security subsystem initialized'') s)"

section \<open>Credentials\<close>

definition proc_drop_privileges :: "ptr \<Rightarrow> kproc \<Rightarrow> int \<times> kproc" where
  "proc_drop_privileges p s =
     (if p = 0 then (- 1, s)
      else (0, upd p (\<lambda>q. q\<lparr>euid := uid q, egid := gid q,
                 pflags := pflags q AND NOT PROC_FLAG_ELEVATED, pcaps := CAP_NONE\<rparr>) s))"

definition proc_setuid :: "ptr \<Rightarrow> u16 \<Rightarrow> kproc \<Rightarrow> int \<times> kproc" where
  "proc_setuid p u s =
     (if p = 0 then (- 1, s)
      else if \<not> proc_has_cap p CAP_SETUID s then (- 1, s)
      else (0, upd p (\<lambda>q. q\<lparr>uid := u, euid := u\<rparr>) s))"

definition proc_setgid :: "ptr \<Rightarrow> u16 \<Rightarrow> kproc \<Rightarrow> int \<times> kproc" where
  "proc_setgid p g s =
     (if p = 0 then (- 1, s)
      else if \<not> proc_has_cap p CAP_SETUID s then (- 1, s)
      else (0, upd p (\<lambda>q. q\<lparr>gid := g, egid := g\<rparr>) s))"

section \<open>No escalation\<close>

datatype sec_op =
    Doas ptr u16 string | Grant ptr u32 | Revoke ptr u32 | Drop ptr | Setuid ptr u16 | Setgid ptr u16

fun sec_exec :: "doas_rule list \<Rightarrow> sec_op \<Rightarrow> kproc \<Rightarrow> kproc" where
  "sec_exec rules (Doas p u cmd) s = snd (doas_execute p u cmd rules s)"
| "sec_exec rules (Grant p c) s = snd (proc_grant_cap p c s)"
| "sec_exec rules (Revoke p c) s = snd (proc_revoke_cap p c s)"
| "sec_exec rules (Drop p) s = snd (proc_drop_privileges p s)"
| "sec_exec rules (Setuid p u) s = snd (proc_setuid p u s)"
| "sec_exec rules (Setgid p g) s = snd (proc_setgid p g s)"

text \<open>The processes of \<open>U\<close> have neither the identity nor the capabilities of the administrator.\<close>

definition confined :: "ptr set \<Rightarrow> kproc \<Rightarrow> bool" where
  "confined U s \<longleftrightarrow> (\<forall>p \<in> U. p \<noteq> 0 \<and> uid (pcb s p) \<noteq> 0 \<and> euid (pcb s p) \<noteq> 0 \<and>
     pcaps (pcb s p) AND CAP_ADMIN = 0 \<and> pcaps (pcb s p) AND CAP_SETUID = 0)"

fun op_target :: "sec_op \<Rightarrow> ptr" where
  "op_target (Doas p u cmd) = p"
| "op_target (Grant p c) = p"
| "op_target (Revoke p c) = p"
| "op_target (Drop p) = p"
| "op_target (Setuid p u) = p"
| "op_target (Setgid p g) = p"

lemma invalidate_keeps:
  assumes "\<And>p v w. g (p\<lparr>pvalid := v, pstate := w\<rparr>) = g p" "\<And>p v. g (p\<lparr>pnext := v\<rparr>) = g p"
    "\<And>p v. g (p\<lparr>pprev := v\<rparr>) = g p"
  shows "g (pcb (proc_invalidate p s) q) = g (pcb s q)"
  using remove_keeps [of g p, OF assms(2,3)] by (simp add: proc_invalidate_def Let_def assms(1))

lemma default_rules: "fst (security_init s) = [\<lparr>rule_uid = 0, target_uid = UID_ANY, allowed_caps = CAP_ALL,
    nopass = 1, rule_cmd = ''*''\<rparr>]"
  by (simp add: security_init_def doas_add_rule_def MAX_DOAS_RULES_def)

lemma default_denies: "u \<noteq> 0 \<Longrightarrow> doas_check_rules u target cmd (fst (security_init s)) = AUTH_DENIED"
  by (simp add: doas_check_rules_def default_rules rule_matches_def UID_ANY_def)

lemma confined_step:
  assumes "confined U s" and "current s \<in> U" and "op_target opn \<in> U"
  shows "confined U (sec_exec (fst (security_init s0)) opn s)"
    and "current (sec_exec (fst (security_init s0)) opn s) = current s"
proof -
  have cap: "\<not> proc_has_cap p CAP_ADMIN s" "\<not> proc_has_cap p CAP_SETUID s" if "p \<in> U" for p
    using assms(1) that by (auto simp: confined_def proc_has_cap_def)
  have deny: "doas_check_rules (uid (pcb s p)) v cmd (fst (security_init s0)) = AUTH_DENIED" if "p \<in> U" for p v cmd
    using assms(1) that by (intro default_denies) (auto simp: confined_def)
  have inv: "confined U (proc_invalidate p t) = confined U t" for p t
    using invalidate_keeps [of uid p t] invalidate_keeps [of euid p t] invalidate_keeps [of pcaps p t]
    by (simp add: confined_def)
  have log: "confined U (proc_klog e t) = confined U t" for e t by (simp add: confined_def)
  show "confined U (sec_exec (fst (security_init s0)) opn s)"
    using assms cap deny by (cases opn) (auto simp: doas_execute_def proc_grant_cap_def proc_revoke_cap_def
      proc_setuid_def proc_setgid_def inv log, auto simp: proc_drop_privileges_def confined_def CAP_NONE_def)
  show "current (sec_exec (fst (security_init s0)) opn s) = current s"
    using assms cap deny by (cases opn) (auto simp: doas_execute_def proc_grant_cap_def proc_revoke_cap_def
      proc_setuid_def proc_setgid_def proc_drop_privileges_def proc_invalidate_def Let_def)
qed

text \<open>
  C25. With the rules the kernel starts with, ordinary processes cannot gain authority: whatever
  sequence of \<open>doas\<close>, capability and credential calls a group of processes without administrator
  identity or capabilities makes on itself, none of them ever gets user or effective user 0,
  \<open>CAP_ADMIN\<close> or \<open>CAP_SETUID\<close>.
\<close>

theorem no_escalation:
  assumes "confined U s" and "current s \<in> U" and "\<forall>opn \<in> set ops. op_target opn \<in> U"
  shows "confined U (fold (sec_exec (fst (security_init s0))) ops s)"
  using assms
proof (induction ops arbitrary: s)
  case (Cons opn ops)
  then show ?case using confined_step [of U s opn s0] by simp
qed simp

definition user_process :: kproc where
  "user_process = upd 0x100 (\<lambda>p. p\<lparr>uid := 1000, euid := 1000, pcaps := 1\<rparr>) demo"

theorem no_escalation_witness:
  "confined {0x100} user_process \<and>
   confined {0x100} (fold (sec_exec (fst (security_init demo)))
     [Setuid 0x100 0, Grant 0x100 CAP_ALL, Drop 0x100, Doas 0x100 0 ''sh''] user_process)"
proof -
  have c: "confined {0x100} user_process"
    by (simp add: confined_def user_process_def CAP_ADMIN_def CAP_SETUID_def)
  moreover have "current user_process = 0x100" by (simp add: user_process_def demo_def)
  ultimately show ?thesis
    using no_escalation [OF c, of "[Setuid 0x100 0, Grant 0x100 CAP_ALL, Drop 0x100, Doas 0x100 0 ''sh'']" demo] by simp
qed

end
