(* ===== verification/Job.thy ===== *)
theory Job
  imports Proc_Security
begin

text \<open>
  Job control and signals (\<open>src/kernel/proc/job.c\<close>): the table of jobs keyed by command session,
  delivery of signals to a process and to a session, and the foreground and background commands.
  A job pointer is the index of its slot.
\<close>

definition SIGHUP :: int where "SIGHUP = 1"
definition SIGINT :: int where "SIGINT = 2"
definition SIGQUIT :: int where "SIGQUIT = 3"
definition SIGKILL :: int where "SIGKILL = 9"
definition SIGTERM :: int where "SIGTERM = 15"
definition SIGCONT :: int where "SIGCONT = 18"
definition SIGSTOP :: int where "SIGSTOP = 19"

datatype job_status = JOB_RUNNING | JOB_STOPPED | JOB_DONE

definition MAX_JOBS :: nat where "MAX_JOBS = 64"

record job =
  job_csid :: u16
  leader :: u16
  job_state :: job_status
  command :: string
  job_num :: int

record job_table =
  jobs :: "nat \<Rightarrow> job"
  next_job_num :: int

definition zero_job :: job where
  "zero_job = \<lparr>job_csid = 0, leader = 0, job_state = JOB_RUNNING, command = [], job_num = 0\<rparr>"

definition job_init :: "kproc \<Rightarrow> job_table \<times> kproc" where
  "job_init s = (\<lparr>jobs = (\<lambda>_. zero_job), next_job_num = 1\<rparr>, proc_klog (Init_msg ''Job control initialized'') s)"

definition set_job :: "nat \<Rightarrow> (job \<Rightarrow> job) \<Rightarrow> job_table \<Rightarrow> job_table" where
  "set_job i f t = t\<lparr>jobs := (jobs t)(i := f (jobs t i))\<rparr>"

section \<open>Job table\<close>

definition job_create :: "u16 \<Rightarrow> u16 \<Rightarrow> string option \<Rightarrow> job_table \<Rightarrow> int \<times> job_table" where
  "job_create c l cmd t =
     (case find_from (\<lambda>i. job_csid (jobs t i) = 0) 0 MAX_JOBS of
        None \<Rightarrow> (- 1, t)
      | Some slot \<Rightarrow>
          let n = next_job_num t;
              t = t\<lparr>next_job_num := n + 1\<rparr>;
              t = set_job slot (\<lambda>j. j\<lparr>job_csid := c, leader := l, job_state := JOB_RUNNING, job_num := n,
                    command := (case cmd of Some m \<Rightarrow> take 63 m | None \<Rightarrow> [])\<rparr>) t
          in (job_num (jobs t slot), t))"

definition job_find_by_csid :: "u16 \<Rightarrow> job_table \<Rightarrow> nat option" where
  "job_find_by_csid c t = find_from (\<lambda>i. job_csid (jobs t i) = c) 0 MAX_JOBS"

definition job_find_by_num :: "int \<Rightarrow> job_table \<Rightarrow> nat option" where
  "job_find_by_num n t = find_from (\<lambda>i. job_num (jobs t i) = n \<and> job_csid (jobs t i) \<noteq> 0) 0 MAX_JOBS"

definition job_remove :: "u16 \<Rightarrow> job_table \<Rightarrow> job_table" where
  "job_remove c t =
     (case find_from (\<lambda>i. job_csid (jobs t i) = c) 0 MAX_JOBS of
        None \<Rightarrow> t
      | Some i \<Rightarrow> set_job i (\<lambda>_. zero_job) t)"

definition job_list :: "nat \<Rightarrow> job_table \<Rightarrow> nat list" where
  "job_list lim t = take lim (filter (\<lambda>i. job_csid (jobs t i) \<noteq> 0) [0..<MAX_JOBS])"

section \<open>Signals\<close>

definition may_signal :: "ptr \<Rightarrow> kproc \<Rightarrow> bool" where
  "may_signal p s \<longleftrightarrow>
     (let sender = current s in
      sender \<noteq> 0 \<longrightarrow> uid (pcb s sender) \<noteq> 0 \<longrightarrow>
      \<not> (uid (pcb s p) \<noteq> uid (pcb s sender) \<and> uid (pcb s p) \<noteq> euid (pcb s sender)))"

definition proc_kill :: "u16 \<Rightarrow> int \<Rightarrow> kproc \<Rightarrow> (int \<times> kproc) option" where
  "proc_kill i signal s =
     (let p = proc_find i s in
      if p = 0 then Some (- 1, s)
      else if \<not> may_signal p s then Some (- 1, s)
      else
        map_option (Pair 0)
          (if signal = SIGKILL then proc_terminate p SIGKILL s
           else if signal = SIGTERM then proc_terminate p SIGTERM s
           else if signal = SIGSTOP then Some (sched_remove p (upd p (\<lambda>q. q\<lparr>pstate := PROC_BLOCKED\<rparr>) s))
           else if signal = SIGCONT
           then Some (if pstate (pcb s p) = PROC_BLOCKED
                      then sched_add p (upd p (\<lambda>q. q\<lparr>pstate := PROC_READY\<rparr>) s) else s)
           else proc_terminate p signal s))"

text \<open>
  The signal loop over the members of a session, with the result so far. A sender that terminates
  itself gives up the processor inside \<open>proc_kill\<close> for good and never continues the loop: then
  there is no result.
\<close>

fun kill_all :: "ptr list \<Rightarrow> int \<Rightarrow> int \<Rightarrow> kproc \<Rightarrow> (int option \<times> kproc) option" where
  "kill_all [] signal result s = Some (Some result, s)"
| "kill_all (p # ps) signal result s =
     do {
       (v, t) \<leftarrow> proc_kill (pid (pcb s p)) signal s;
       if current t \<noteq> current s then Some (None, t)
       else kill_all ps signal (if v < 0 then - 1 else result) t
     }"

definition after_signal :: "int \<Rightarrow> job \<Rightarrow> job" where
  "after_signal signal j =
     (if signal = SIGKILL \<or> signal = SIGTERM then j\<lparr>job_state := JOB_DONE\<rparr>
      else if signal = SIGSTOP then j\<lparr>job_state := JOB_STOPPED\<rparr>
      else if signal = SIGCONT then j\<lparr>job_state := JOB_RUNNING\<rparr>
      else j)"

definition job_kill_csid :: "u16 \<Rightarrow> int \<Rightarrow> job_table \<Rightarrow> kproc \<Rightarrow> (int option \<times> job_table \<times> kproc) option" where
  "job_kill_csid c signal t s =
     (let procs = proc_get_csid_group c 64 s in
      if procs = [] then Some (Some (- 1), t, s)
      else
        do {
          (result, s) \<leftarrow> kill_all procs signal 0 s;
          Some (result,
            (if result = None then t
             else case job_find_by_csid c t of None \<Rightarrow> t | Some i \<Rightarrow> set_job i (after_signal signal) t), s)
        })"

definition job_kill_num :: "int \<Rightarrow> int \<Rightarrow> job_table \<Rightarrow> kproc \<Rightarrow> (int option \<times> job_table \<times> kproc) option" where
  "job_kill_num n signal t s =
     (case job_find_by_num n t of
        None \<Rightarrow> Some (Some (- 1), t, s)
      | Some i \<Rightarrow> job_kill_csid (job_csid (jobs t i)) signal t s)"

section \<open>Sessions, foreground, background\<close>

definition proc_setsid :: "kproc \<Rightarrow> u16 \<times> kproc" where
  "proc_setsid s =
     (let p = current s in
      if p = 0 then (0, s)
      else if pid (pcb s p) = csid (pcb s p) then (0, s)
      else
        let (new_csid, s) = proc_alloc_csid s
        in (new_csid, upd p (\<lambda>q. q\<lparr>csid := new_csid\<rparr>) s))"

definition job_resume :: "int \<Rightarrow> job_table \<Rightarrow> kproc \<Rightarrow> (int \<times> job_table \<times> kproc) option" where
  "job_resume n t s =
     (case job_find_by_num n t of
        None \<Rightarrow> Some (- 1, t, s)
      | Some i \<Rightarrow>
          do {
            (t, s) \<leftarrow> (if job_state (jobs t i) = JOB_STOPPED
                       then map_option snd (job_kill_csid (job_csid (jobs t i)) SIGCONT t s)
                       else Some (t, s));
            Some (0, set_job i (\<lambda>j. j\<lparr>job_state := JOB_RUNNING\<rparr>) t, s)
          })"

definition job_fg :: "int \<Rightarrow> job_table \<Rightarrow> kproc \<Rightarrow> (int \<times> job_table \<times> kproc) option" where
  "job_fg n t s = job_resume n t s"

definition job_bg :: "int \<Rightarrow> job_table \<Rightarrow> kproc \<Rightarrow> (int \<times> job_table \<times> kproc) option" where
  "job_bg n t s = job_resume n t s"

section \<open>Whom a signal reaches\<close>

lemma reparent_keeps:
  assumes "\<And>p v w. g (p\<lparr>parent := v, pflags := w\<rparr>) = g p"
  shows "g (pcb (proc_reparent_children old s) q) = g (pcb s q)"
    and "current (proc_reparent_children old s) = current s"
proof -
  have "g (pcb (proc_reparent_children old s) q) = g (pcb s q) \<and> current (proc_reparent_children old s) = current s"
    unfolding proc_reparent_children_def by (rule for_range_inv) (auto simp: assms)
  then show "g (pcb (proc_reparent_children old s) q) = g (pcb s q)"
    "current (proc_reparent_children old s) = current s" by simp_all
qed

text \<open>The switch only makes processes running or ready.\<close>

lemma schedule_pstate:
  assumes "schedule s = Some t"
  shows "pstate (pcb t q) \<in> {PROC_RUNNING, PROC_READY} \<or> pstate (pcb t q) = pstate (pcb s q)"
  using assms
  by (auto simp: schedule_def Let_def bind_eq_Some_conv switch_to_simps mark_ready_simps split: if_splits)

lemma closing_simps [simp]:
  "pid (close_fds q) = pid q" "pid (clear_segments q) = pid q" "uid (close_fds q) = uid q"
  "uid (clear_segments q) = uid q" "euid (close_fds q) = euid q" "euid (clear_segments q) = euid q"
  "pstate (close_fds q) = pstate q" "pstate (clear_segments q) = pstate q"
  by (simp_all add: close_fds_def clear_segments_def)

lemma terminate_effect:
  assumes "proc_terminate p sig s = Some t"
  shows "q \<noteq> p \<Longrightarrow> pstate (pcb t q) \<in> {PROC_RUNNING, PROC_READY} \<or> pstate (pcb t q) = pstate (pcb s q)"
    and "uid (pcb t q) = uid (pcb s q)" and "euid (pcb t q) = euid (pcb s q)"
proof -
  define w where "w = upd p close_fds (upd p clear_segments (proc_klog (Log ''[SEG] Releasing process segments'')
    (upd p (\<lambda>q. q\<lparr>exit_signal := sig, exit_code := 0\<rparr>) s)))"
  define u where "u = sched_remove p (upd p (\<lambda>q. q\<lparr>pstate := PROC_ZOMBIE\<rparr>) (proc_reparent_children (pid (pcb w p)) w))"
  have run: "p \<noteq> 0 \<Longrightarrow> (if p = current u then schedule u else Some u) = Some t"
    using assms unfolding u_def w_def
    by (simp only: proc_terminate_def Let_def wake_parent_none sasy_release_process_def if_False)
  have z: "p = 0 \<Longrightarrow> t = s" using assms by (simp add: proc_terminate_def)
  have upd: "q \<noteq> p \<Longrightarrow> pstate (pcb u q) = pstate (pcb s q)" "uid (pcb u q) = uid (pcb s q)" "euid (pcb u q) = euid (pcb s q)" for q
    by (simp_all add: u_def w_def remove_keeps reparent_keeps)
  consider "p = 0" "t = s" | "schedule u = Some t" | "t = u"
  proof (cases "p = 0")
    case True
    then show thesis using that(1) z by blast
  next
    case False
    show thesis
    proof (cases "p = current u")
      case True
      then show thesis using that(2) run [OF False] by simp
    next
      case other: False
      then show thesis using that(3) run [OF False] by simp
    qed
  qed
  then have "(q \<noteq> p \<longrightarrow> pstate (pcb t q) \<in> {PROC_RUNNING, PROC_READY} \<or> pstate (pcb t q) = pstate (pcb s q)) \<and>
      uid (pcb t q) = uid (pcb s q) \<and> euid (pcb t q) = euid (pcb s q)"
  proof cases
    case 2
    then show ?thesis
      using schedule_pstate [of u t q] schedule_keeps [of u t uid q] schedule_keeps [of u t euid q] upd [of q] by auto
  qed (use upd in auto)
  then show "q \<noteq> p \<Longrightarrow> pstate (pcb t q) \<in> {PROC_RUNNING, PROC_READY} \<or> pstate (pcb t q) = pstate (pcb s q)"
    "uid (pcb t q) = uid (pcb s q)" "euid (pcb t q) = euid (pcb s q)" by simp_all
qed

lemma add_keeps:
  assumes "\<And>p v w. g (p\<lparr>pnext := v, pprev := w\<rparr>) = g p" "\<And>p v. g (p\<lparr>pnext := v\<rparr>) = g p"
    "\<And>p v. g (p\<lparr>pprev := v\<rparr>) = g p"
  shows "g (pcb (sched_add p s) q) = g (pcb s q)"
  by (simp add: sched_add_def Let_def assms)

text \<open>The processes an ordinary sender has no authority over.\<close>

definition foreign :: "ptr \<Rightarrow> kproc \<Rightarrow> bool" where
  "foreign q s \<longleftrightarrow> uid (pcb s q) \<noteq> uid (pcb s (current s)) \<and> uid (pcb s q) \<noteq> euid (pcb s (current s))"

definition untouched :: "ptr \<Rightarrow> kproc \<Rightarrow> kproc \<Rightarrow> bool" where
  "untouched q s t \<longleftrightarrow> pstate (pcb t q) \<in> {PROC_RUNNING, PROC_READY} \<or> pstate (pcb t q) = pstate (pcb s q)"

lemma kill_step:
  assumes "proc_kill i sig s = Some (v, t)" and "current s \<noteq> 0" and "uid (pcb s (current s)) \<noteq> 0"
  shows "foreign q s \<Longrightarrow> untouched q s t" and "uid (pcb t q) = uid (pcb s q)" and "euid (pcb t q) = euid (pcb s q)"
proof -
  let ?p = "proc_find i s"
  show "foreign q s \<Longrightarrow> untouched q s t"
  proof (cases "?p = 0 \<or> \<not> may_signal ?p s")
    case True
    then show ?thesis using assms(1) by (auto simp: proc_kill_def Let_def untouched_def split: if_splits)
  next
    case False
    assume "foreign q s"
    with False assms(2,3) have "q \<noteq> ?p" by (auto simp: may_signal_def foreign_def)
    then show ?thesis
      using False assms(1) terminate_effect(1) [of ?p _ s t q]
      by (auto simp: proc_kill_def Let_def untouched_def split: if_splits)
  qed
  show "uid (pcb t q) = uid (pcb s q)" "euid (pcb t q) = euid (pcb s q)"
    using assms(1) terminate_effect(2,3) [of ?p _ s t q]
    by (auto simp: proc_kill_def Let_def remove_keeps add_keeps split: if_splits)
qed

lemma kill_all_untouched:
  assumes "kill_all ps sig r s = Some (r', t)" and "current s \<noteq> 0" and "uid (pcb s (current s)) \<noteq> 0" and "foreign q s"
  shows "untouched q s t"
  using assms
proof (induction ps arbitrary: r s)
  case (Cons p ps)
  obtain v u where u: "proc_kill (pid (pcb s p)) sig s = Some (v, u)"
    "(if current u \<noteq> current s then Some (None, u)
      else kill_all ps sig (if v < 0 then - 1 else r) u) = Some (r', t)"
    using Cons.prems(1) by (auto simp: bind_eq_Some_conv)
  note k = kill_step [OF u(1) Cons.prems(2,3)]
  have first: "untouched q s u" using k(1) Cons.prems(4) .
  show ?case
  proof (cases "current u = current s")
    case False
    then show ?thesis using u(2) first by simp
  next
    case True
    then have "untouched q u t"
      using u(2) Cons.prems(2-4) k(2,3) by (intro Cons.IH [of _ u]) (simp_all add: foreign_def)
    with first show ?thesis by (auto simp: untouched_def)
  qed
qed (simp add: untouched_def)

text \<open>
  C26. Signalling a whole session respects ownership: whatever the session and the signal, a sender
  that is not root and has neither \<open>CAP_KILL\<close>, which is to allow signals to any process, nor \<open>CAP_ADMIN\<close> never
  stops or kills a process that belongs to another user, even if that process is a member of the
  session.
\<close>

theorem session_kill_respects_owner:
  assumes "current s \<noteq> 0" and "uid (pcb s (current s)) \<noteq> 0"
    and "\<not> proc_has_cap (current s) CAP_KILL s" and "\<not> proc_has_cap (current s) CAP_ADMIN s"
    and "uid (pcb s q) \<noteq> uid (pcb s (current s))" and "uid (pcb s q) \<noteq> euid (pcb s (current s))"
    and "job_kill_csid c sig jt s = Some (r, jt', t)"
  shows "pstate (pcb t q) \<in> {PROC_ZOMBIE, PROC_BLOCKED} \<longrightarrow> pstate (pcb t q) = pstate (pcb s q)"
proof (cases "proc_get_csid_group c 64 s = []")
  case True
  then show ?thesis using assms(7) by (simp add: job_kill_csid_def)
next
  case False
  then obtain v where "kill_all (proc_get_csid_group c 64 s) sig 0 s = Some (v, t)"
    using assms(7) by (auto simp: job_kill_csid_def Let_def bind_eq_Some_conv)
  then have "untouched q s t"
    using assms(1,2,5,6) by (intro kill_all_untouched) (simp_all add: foreign_def)
  then show ?thesis by (auto simp: untouched_def)
qed

text \<open>A user process, a process of another user and a shared session.\<close>

definition session :: kproc where
  "session = upd 0x100 (\<lambda>p. p\<lparr>uid := 1000, euid := 1000, pcaps := CAP_SETUID, csid := 7\<rparr>)
     (upd 0x200 (\<lambda>p. p\<lparr>uid := 2000, euid := 2000, csid := 7\<rparr>) demo2)"

lemma session_fields: "current session = 0x100" "uid (pcb session 0x100) = 1000" "euid (pcb session 0x100) = 1000"
  "pcaps (pcb session 0x100) = CAP_SETUID" "uid (pcb session 0x200) = 2000" "pstate (pcb session 0x200) = PROC_READY"
  by (simp_all add: session_def demo2_fields demo2_pcb demo_states)

lemma stop_returns: "\<exists>v t. proc_kill i SIGSTOP s = Some (v, t)"
  by (simp add: proc_kill_def Let_def SIGKILL_def SIGTERM_def SIGSTOP_def)

lemma stop_all_returns: "\<exists>v t. kill_all ps SIGSTOP r s = Some (v, t)"
proof (induction ps arbitrary: r s)
  case (Cons p ps)
  obtain v t where "proc_kill (pid (pcb s p)) SIGSTOP s = Some (v, t)" using stop_returns by blast
  then show ?case using Cons.IH by simp
qed simp

theorem session_kill_respects_owner_witness:
  "\<exists>r jt t. job_kill_csid 7 SIGSTOP (fst (job_init demo)) session = Some (r, jt, t) \<and>
     pstate (pcb t 0x200) \<notin> {PROC_ZOMBIE, PROC_BLOCKED}"
proof -
  obtain v u where "kill_all (proc_get_csid_group 7 64 session) SIGSTOP 0 session = Some (v, u)"
    using stop_all_returns by blast
  then obtain r jt t where j: "job_kill_csid 7 SIGSTOP (fst (job_init demo)) session = Some (r, jt, t)"
    by (cases "proc_get_csid_group 7 64 session = []") (simp_all add: job_kill_csid_def Let_def)
  moreover have "pstate (pcb t 0x200) \<notin> {PROC_ZOMBIE, PROC_BLOCKED}"
    using session_kill_respects_owner [OF _ _ _ _ _ _ j, of "0x200"]
    by (auto simp: session_fields proc_has_cap_def CAP_KILL_def CAP_ADMIN_def CAP_SETUID_def)
  ultimately show ?thesis by blast
qed

text \<open>\<open>proc_kill\<close> does not look at capabilities: a sender with \<open>CAP_KILL\<close> is refused like any other user.\<close>

lemma cap_kill_ignored:
  assumes "current s \<noteq> 0" and "uid (pcb s (current s)) \<noteq> 0" and "proc_has_cap (current s) CAP_KILL s"
    and "uid (pcb s (proc_find i s)) \<notin> {uid (pcb s (current s)), euid (pcb s (current s))}"
  shows "proc_kill i signal s = Some (- 1, s)"
  using assms by (simp add: proc_kill_def may_signal_def Let_def)

end
