(* ===== verification/BFS.thy ===== *)
theory BFS
  imports Prelude "HOL-Library.Monad_Syntax"
begin

text \<open>
  The file system BranchFS (\<open>src/drivers/storage/bfs.c\<close>) over a RAM disk or the persistent memory
  device (\<open>pmem.c\<close>). The device is a store of 4096-byte pages at byte offsets; a page is read as its
  64-bit little-endian words, so that the structs of \<open>bfs.h\<close> are views of the words and an array
  index that leaves its array reads the neighbouring field, as in C. \<open>root_page\<close> and the name table
  buffer live between calls and are part of the state. \<open>page_buf\<close> and the two split buffers are filled
  before every use and are values here. A null page that the code dereferences and a walk that does not
  end are the result \<open>None\<close>. Messages to the serial port and the terminal are left out.
\<close>

section \<open>Pages\<close>

definition BFS_PAGE_SIZE :: u64 where "BFS_PAGE_SIZE = 4096"
definition BFS_MAGIC :: u32 where "BFS_MAGIC = 0x42465301"
definition BFS_VERSION :: u32 where "BFS_VERSION = 2"
definition BFS_NAME_TABLE_PAGE :: u64 where "BFS_NAME_TABLE_PAGE = 2"
definition BFS_NAME_MAX :: nat where "BFS_NAME_MAX = 48"
definition BFS_MAX_KEYS :: nat where "BFS_MAX_KEYS = 127"
definition BFS_INTERNAL_MAX_KEYS :: nat where "BFS_INTERNAL_MAX_KEYS = BFS_MAX_KEYS - 1"

text \<open>\<open>sizeof (struct bfs_name_entry)\<close> is 72, nine words.\<close>

definition BFS_NAME_ENTRIES :: nat where "BFS_NAME_ENTRIES = 4096 div 72"

type_synonym page = "nat \<Rightarrow> u64"
type_synonym cstr = "u8 list"

definition zero_page :: page where "zero_page = (\<lambda>_. 0)"

text \<open>The fields of \<open>struct bfs_page\<close>: magic, level and count share the first word.\<close>

definition p_magic :: "page \<Rightarrow> u32" where "p_magic p = ucast (p 0)"
definition p_level :: "page \<Rightarrow> u16" where "p_level p = ucast (drop_bit 32 (p 0))"
definition p_count :: "page \<Rightarrow> u16" where "p_count p = ucast (drop_bit 48 (p 0))"
definition p_next :: "page \<Rightarrow> u64" where "p_next p = p 1"
definition p_parent :: "page \<Rightarrow> u64" where "p_parent p = p 2"
definition p_key :: "page \<Rightarrow> int \<Rightarrow> u64" where "p_key p i = p (nat (3 + i))"
definition p_value :: "page \<Rightarrow> int \<Rightarrow> u64" where "p_value p i = p (nat (130 + i))"

definition head_word :: "u32 \<Rightarrow> u16 \<Rightarrow> u16 \<Rightarrow> u64" where
  "head_word m l c = ucast m OR push_bit 32 (ucast l) OR push_bit 48 (ucast c)"

definition set_magic :: "u32 \<Rightarrow> page \<Rightarrow> page" where
  "set_magic m p = p(0 := head_word m (p_level p) (p_count p))"
definition set_level :: "u16 \<Rightarrow> page \<Rightarrow> page" where
  "set_level l p = p(0 := head_word (p_magic p) l (p_count p))"
definition set_count :: "u16 \<Rightarrow> page \<Rightarrow> page" where
  "set_count c p = p(0 := head_word (p_magic p) (p_level p) c)"
definition set_next :: "u64 \<Rightarrow> page \<Rightarrow> page" where "set_next n p = p(1 := n)"
definition set_parent :: "u64 \<Rightarrow> page \<Rightarrow> page" where "set_parent n p = p(2 := n)"
definition set_key :: "int \<Rightarrow> u64 \<Rightarrow> page \<Rightarrow> page" where "set_key i k p = p(nat (3 + i) := k)"
definition set_value :: "int \<Rightarrow> u64 \<Rightarrow> page \<Rightarrow> page" where "set_value i v p = p(nat (130 + i) := v)"

text \<open>Arrays copied in from a local array.\<close>

definition put_words :: "nat \<Rightarrow> u64 list \<Rightarrow> page \<Rightarrow> page" where
  "put_words b ws p = (\<lambda>j. if b \<le> j \<and> j < b + length ws then ws ! (j - b) else p j)"

definition set_keys :: "u64 list \<Rightarrow> page \<Rightarrow> page" where "set_keys = put_words 3"
definition set_values :: "u64 list \<Rightarrow> page \<Rightarrow> page" where "set_values = put_words 130"

text \<open>Bytes of a page.\<close>

definition get_byte :: "page \<Rightarrow> nat \<Rightarrow> u8" where
  "get_byte p j = ucast (drop_bit (8 * (j mod 8)) (p (j div 8)))"

definition put_byte :: "nat \<Rightarrow> u8 \<Rightarrow> page \<Rightarrow> page" where
  "put_byte j b p =
     p(j div 8 := (p (j div 8) AND NOT (push_bit (8 * (j mod 8)) 0xFF)) OR push_bit (8 * (j mod 8)) (ucast b))"

fun put_bytes :: "nat \<Rightarrow> u8 list \<Rightarrow> page \<Rightarrow> page" where
  "put_bytes j [] p = p"
| "put_bytes j (b # bs) p = put_bytes (Suc j) bs (put_byte j b p)"

section \<open>Instance\<close>

datatype bfs_backend = BFS_BACKEND_PMEM | BFS_BACKEND_RAM
datatype pmem_backend = PMEM_BACKEND_NONE | PMEM_BACKEND_NVME | PMEM_BACKEND_IDE

text \<open>
  \<open>drive_ok\<close> says at which offsets the drive serves a transfer of the disk driver; a transfer it does
  not serve reports an error and is taken to change nothing.
\<close>

record bfs_instance =
  disk :: "u64 \<Rightarrow> page"
  pmem_kind :: pmem_backend
  pmem_bytes :: u64
  drive_ok :: "u64 \<Rightarrow> bool"
  disk_size :: u64
  ram_base :: u64
  backend :: bfs_backend
  root_buf :: page
  name_buf :: page
  name_table_enabled :: bool

text \<open>The fields of \<open>struct bfs_root\<close>.\<close>

definition root_magic :: "page \<Rightarrow> u32" where "root_magic p = ucast (p 0)"
definition root_version :: "page \<Rightarrow> u32" where "root_version p = ucast (drop_bit 32 (p 0))"
definition root_page :: "bfs_instance \<Rightarrow> u64" where "root_page s = root_buf s 1"
definition total_pages :: "bfs_instance \<Rightarrow> u64" where "total_pages s = root_buf s 2"
definition free_pages :: "bfs_instance \<Rightarrow> u64" where "free_pages s = root_buf s 3"
definition next_free :: "bfs_instance \<Rightarrow> u64" where "next_free s = root_buf s 4"
definition file_count :: "bfs_instance \<Rightarrow> u64" where "file_count s = root_buf s 5"

definition set_root :: "nat \<Rightarrow> u64 \<Rightarrow> bfs_instance \<Rightarrow> bfs_instance" where
  "set_root i v s = s\<lparr>root_buf := (root_buf s)(i := v)\<rparr>"

section \<open>Device\<close>

definition PMEM_SECTOR_SIZE :: u64 where "PMEM_SECTOR_SIZE = 512"

definition pmem_ready :: "bfs_instance \<Rightarrow> bool" where
  "pmem_ready s \<longleftrightarrow> pmem_kind s \<noteq> PMEM_BACKEND_NONE"

definition pmem_size :: "bfs_instance \<Rightarrow> u64" where "pmem_size s = pmem_bytes s"

text \<open>Detection of the drives; \<open>nvme\<close> and \<open>ide\<close> are the sizes of the drives their drivers find.\<close>

definition pmem_init :: "u64 option \<Rightarrow> u64 option \<Rightarrow> bfs_instance \<Rightarrow> bool \<times> bfs_instance" where
  "pmem_init nvme ide s =
     (let s = s\<lparr>pmem_kind := PMEM_BACKEND_NONE, pmem_bytes := 0\<rparr>;
          s = (case nvme of
                 Some n \<Rightarrow> s\<lparr>pmem_kind := PMEM_BACKEND_NVME, pmem_bytes := n\<rparr>
               | None \<Rightarrow> (case ide of Some n \<Rightarrow> s\<lparr>pmem_kind := PMEM_BACKEND_IDE, pmem_bytes := n\<rparr> | None \<Rightarrow> s))
      in if pmem_kind s = PMEM_BACKEND_NONE \<or> pmem_bytes s = 0
         then (False, s\<lparr>pmem_kind := PMEM_BACKEND_NONE, pmem_bytes := 0\<rparr>) else (True, s))"

text \<open>The checks \<open>pmem_read\<close> and \<open>pmem_write\<close> make before they hand a request to a driver.\<close>

definition pmem_check :: "bfs_instance \<Rightarrow> u64 \<Rightarrow> u64 \<Rightarrow> bool" where
  "pmem_check s offset sz \<longleftrightarrow>
     pmem_ready s \<and> sz \<noteq> 0 \<and> offset mod PMEM_SECTOR_SIZE = 0 \<and> sz mod PMEM_SECTOR_SIZE = 0 \<and>
     \<not> offset + sz > pmem_bytes s"

definition pmem_read :: "bfs_instance \<Rightarrow> u64 \<Rightarrow> page option" where
  "pmem_read s offset =
     (if pmem_check s offset BFS_PAGE_SIZE \<and> pmem_kind s = PMEM_BACKEND_IDE \<and> drive_ok s offset
      then Some (disk s offset) else None)"

definition pmem_write :: "u64 \<Rightarrow> page \<Rightarrow> bfs_instance \<Rightarrow> int \<times> bfs_instance" where
  "pmem_write offset p s =
     (if pmem_check s offset BFS_PAGE_SIZE \<and> pmem_kind s = PMEM_BACKEND_IDE \<and> drive_ok s offset
      then (0, s\<lparr>disk := (disk s)(offset := (\<lambda>i. if i < 512 then p i else 0))\<rparr>) else (-1, s))"

definition bfs_device_read :: "bfs_instance \<Rightarrow> u64 \<Rightarrow> page option" where
  "bfs_device_read s offset =
     (if backend s = BFS_BACKEND_RAM then Some (disk s offset) else pmem_read s offset)"

definition bfs_device_write :: "u64 \<Rightarrow> page \<Rightarrow> bfs_instance \<Rightarrow> int \<times> bfs_instance" where
  "bfs_device_write offset p s =
     (if backend s = BFS_BACKEND_RAM
      then (0, s\<lparr>disk := (disk s)(offset := (\<lambda>i. if i < 512 then p i else 0))\<rparr>)
      else pmem_write offset p s)"

definition bfs_flush_root :: "bfs_instance \<Rightarrow> bfs_instance" where
  "bfs_flush_root s = snd (bfs_device_write 0 (root_buf s) s)"

definition bfs_read_page :: "bfs_instance \<Rightarrow> u64 \<Rightarrow> page option" where
  "bfs_read_page s page_num =
     (if page_num \<ge> total_pages s then None else bfs_device_read s (page_num * BFS_PAGE_SIZE))"

definition bfs_write_page :: "u64 \<Rightarrow> page \<Rightarrow> bfs_instance \<Rightarrow> bfs_instance" where
  "bfs_write_page page_num p s = snd (bfs_device_write (page_num * BFS_PAGE_SIZE) p s)"

definition bfs_raw_read :: "bfs_instance \<Rightarrow> u64 \<Rightarrow> page option" where
  "bfs_raw_read s page_num = bfs_device_read s (page_num * BFS_PAGE_SIZE)"

definition bfs_raw_write :: "u64 \<Rightarrow> page \<Rightarrow> bfs_instance \<Rightarrow> bfs_instance" where
  "bfs_raw_write page_num p s = snd (bfs_device_write (page_num * BFS_PAGE_SIZE) p s)"

section \<open>Allocation\<close>

definition fresh_page :: page where "fresh_page = set_magic BFS_MAGIC zero_page"

definition bfs_alloc_page :: "bfs_instance \<Rightarrow> u64 \<times> bfs_instance" where
  "bfs_alloc_page s =
     (if free_pages s = 0 then (0, s)
      else
        let page_num = next_free s;
            s = set_root 4 (next_free s + 1) s;
            s = set_root 3 (free_pages s - 1) s;
            s = bfs_flush_root s
        in (page_num, bfs_write_page page_num fresh_page s))"

definition bfs_alloc_pages :: "u64 \<Rightarrow> bfs_instance \<Rightarrow> u64 \<times> bfs_instance" where
  "bfs_alloc_pages pages s =
     (if pages = 0 \<or> free_pages s < pages then (0, s)
      else
        let start_page = next_free s;
            s = set_root 4 (next_free s + pages) s;
            s = set_root 3 (free_pages s - pages) s;
            s = bfs_flush_root s
        in (start_page, for_range 0 (unat pages) (\<lambda>i. bfs_write_page (start_page + of_nat i) fresh_page) s))"

definition bfs_free_page :: "u64 \<Rightarrow> bfs_instance \<Rightarrow> bfs_instance" where
  "bfs_free_page page_num s = bfs_flush_root (set_root 3 (free_pages s + 1) s)"

section \<open>Name table\<close>

text \<open>
  Entry \<open>i\<close> of the table occupies the words from \<open>9 * i\<close> of the buffer. The buffer has 56 entries, 504
  words; a transfer moves the 512 words of a page, so the last eight are the memory behind it.
\<close>

definition e_hash :: "page \<Rightarrow> nat \<Rightarrow> u64" where "e_hash t i = t (9 * i)"
definition e_start :: "page \<Rightarrow> nat \<Rightarrow> u64" where "e_start t i = t (9 * i + 1)"
definition e_size :: "page \<Rightarrow> nat \<Rightarrow> u64" where "e_size t i = t (9 * i + 2)"

definition e_name :: "page \<Rightarrow> nat \<Rightarrow> cstr" where
  "e_name t i = takeWhile (\<lambda>b. b \<noteq> 0) (map (get_byte t) [72 * i + 24..<4096])"

definition bfs_name_table_read :: "bfs_instance \<Rightarrow> int \<times> bfs_instance" where
  "bfs_name_table_read s =
     (if \<not> name_table_enabled s then (-1, s)
      else case bfs_device_read s (BFS_NAME_TABLE_PAGE * BFS_PAGE_SIZE) of
             None \<Rightarrow> (-1, s)
           | Some p \<Rightarrow> (0, s\<lparr>name_buf := p\<rparr>))"

definition bfs_name_table_write :: "bfs_instance \<Rightarrow> int \<times> bfs_instance" where
  "bfs_name_table_write s =
     (if \<not> name_table_enabled s then (-1, s)
      else bfs_device_write (BFS_NAME_TABLE_PAGE * BFS_PAGE_SIZE) (name_buf s) s)"

function name_slot :: "page \<Rightarrow> u64 \<Rightarrow> nat \<Rightarrow> int \<Rightarrow> int" where
  "name_slot t hash i free_index =
     (if i < BFS_NAME_ENTRIES
      then if e_hash t i = hash then int i
           else name_slot t hash (Suc i) (if free_index < 0 \<and> e_hash t i = 0 then int i else free_index)
      else free_index)"
  by auto
termination by (relation "measure (\<lambda>(_, _, i, _). BFS_NAME_ENTRIES - i)") auto

definition put_entry :: "nat \<Rightarrow> u64 \<Rightarrow> u64 \<Rightarrow> u64 \<Rightarrow> cstr \<Rightarrow> page \<Rightarrow> page" where
  "put_entry i hash start_block size_bytes name t =
     (let t = t(9 * i := hash, 9 * i + 1 := start_block, 9 * i + 2 := size_bytes)
      in put_bytes (72 * i + 24) (take (BFS_NAME_MAX - 1) name @ [0]) t)"

definition bfs_name_table_upsert :: "u64 \<Rightarrow> cstr \<Rightarrow> u64 \<Rightarrow> u64 \<Rightarrow> bfs_instance \<Rightarrow> int \<times> bfs_instance" where
  "bfs_name_table_upsert hash name start_block size_bytes s =
     (if \<not> name_table_enabled s then (0, s)
      else
        let (r, s) = bfs_name_table_read s
        in if r \<noteq> 0 then (-1, s)
           else
             let free_index = name_slot (name_buf s) hash 0 (-1)
             in if free_index < 0 then (-1, s)
                else bfs_name_table_write
                  (s\<lparr>name_buf := put_entry (nat free_index) hash start_block size_bytes name (name_buf s)\<rparr>))"

definition bfs_name_table_remove :: "u64 \<Rightarrow> bfs_instance \<Rightarrow> bfs_instance" where
  "bfs_name_table_remove hash s =
     (if \<not> name_table_enabled s then s
      else
        let (r, s) = bfs_name_table_read s
        in if r \<noteq> 0 then s
           else
             let s = (case find_from (\<lambda>i. e_hash (name_buf s) i = hash) 0 BFS_NAME_ENTRIES of
                        None \<Rightarrow> s
                      | Some i \<Rightarrow> s\<lparr>name_buf := put_byte (72 * i + 24) 0
                          ((name_buf s)(9 * i := 0, 9 * i + 1 := 0, 9 * i + 2 := 0))\<rparr>)
             in snd (bfs_name_table_write s))"

section \<open>Mounting and formatting\<close>

definition bfs_init :: "u64 \<Rightarrow> u64 \<Rightarrow> bfs_instance \<Rightarrow> int \<times> bfs_instance" where
  "bfs_init sz base s =
     (if sz < 2 * BFS_PAGE_SIZE then (-1, s)
      else
        let s = s\<lparr>disk_size := sz, ram_base := base,
                  backend := (if base \<noteq> 0 then BFS_BACKEND_RAM else BFS_BACKEND_PMEM), name_table_enabled := False\<rparr>
        in if backend s = BFS_BACKEND_PMEM \<and> (\<not> pmem_ready s \<or> sz > pmem_size s) then (-1, s)
           else
             case bfs_device_read s 0 of
               None \<Rightarrow> (-1, s)
             | Some p \<Rightarrow>
                 let s = s\<lparr>root_buf := p\<rparr>
                 in if root_magic p = BFS_MAGIC
                    then (0, s\<lparr>name_table_enabled := (root_version p \<ge> BFS_VERSION)\<rparr>)
                    else (-1, s))"

definition bfs_format :: "bfs_instance \<Rightarrow> int \<times> bfs_instance" where
  "bfs_format s =
     (if backend s = BFS_BACKEND_RAM \<and> ram_base s AND 7 \<noteq> 0 then (-1, s)
      else
        let t = disk_size s div BFS_PAGE_SIZE;
            s = s\<lparr>root_buf := (\<lambda>i. if i < 512 then 0 else root_buf s i)
                   (0 := ucast BFS_MAGIC OR push_bit 32 (ucast BFS_VERSION), 2 := t, 3 := t - 3, 4 := 3, 5 := 0, 1 := 1)\<rparr>;
            s = s\<lparr>name_table_enabled := True\<rparr>;
            s = bfs_flush_root s;
            s = bfs_write_page 1 (set_magic BFS_MAGIC zero_page) s;
            s = s\<lparr>name_buf := (\<lambda>i. if i < 9 * BFS_NAME_ENTRIES then 0 else name_buf s i)\<rparr>;
            s = snd (bfs_name_table_write s)
        in (0, s))"

section \<open>Search\<close>

record search_result =
  found :: bool
  page_num :: u64
  idx :: int
  val :: u64

definition bfs_hash :: "cstr \<Rightarrow> u64" where
  "bfs_hash str = fold (\<lambda>c h. (push_bit 5 h + h) + scast c) str 5381"

definition key_pos :: "page \<Rightarrow> nat \<Rightarrow> u64 \<Rightarrow> nat" where
  "key_pos p n key = (case find_from (\<lambda>i. key < p_key p (int i)) 0 n of Some i \<Rightarrow> i | None \<Rightarrow> n)"

definition child_page :: "page \<Rightarrow> u64 \<Rightarrow> u64" where
  "child_page p key =
     (let n = unat (p_count p); i = key_pos p n key
      in if i = 0 \<and> n > 0 \<and> key < p_key p 0 then p_value p 0
         else if i > 0 then p_value p (int i)
         else p_value p (int n))"

partial_function (option) descend :: "bfs_instance \<Rightarrow> u64 \<Rightarrow> u64 \<Rightarrow> page \<Rightarrow> (u64 \<times> page) option option" where
  "descend s key n p =
     (if p_level p > 0
      then case bfs_read_page s (child_page p key) of
             None \<Rightarrow> Some None
           | Some q \<Rightarrow> descend s key (child_page p key) q
      else Some (Some (n, p)))"

definition leaf_search :: "u64 \<Rightarrow> page \<Rightarrow> u64 \<Rightarrow> search_result" where
  "leaf_search n p key =
     (let c = unat (p_count p) in
      case find_from (\<lambda>i. p_key p (int i) = key) 0 c of
        Some i \<Rightarrow> \<lparr>found = True, page_num = n, idx = int i, val = p_value p (int i)\<rparr>
      | None \<Rightarrow> \<lparr>found = False, page_num = n, idx = int (key_pos p c key), val = 0\<rparr>)"

definition bfs_search :: "bfs_instance \<Rightarrow> u64 \<Rightarrow> search_result option" where
  "bfs_search s key =
     (let r0 = \<lparr>found = False, page_num = 0, idx = -1, val = 0\<rparr> in
      case bfs_read_page s (root_page s) of
        None \<Rightarrow> Some r0
      | Some p \<Rightarrow>
          do {
            r \<leftarrow> descend s key (root_page s) p;
            case r of None \<Rightarrow> Some r0 | Some (n, p) \<Rightarrow> Some (leaf_search n p key)
          })"

section \<open>Insertion\<close>

function shift_entries :: "int \<Rightarrow> int \<Rightarrow> page \<Rightarrow> page" where
  "shift_entries pos i p =
     (if i > pos
      then shift_entries pos (i - 1) (set_value i (p_value p (i - 1)) (set_key i (p_key p (i - 1)) p))
      else p)"
  by auto
termination by (relation "measure (\<lambda>(pos, i, _). nat (i - pos))") auto

definition insert_in_leaf :: "page \<Rightarrow> int \<Rightarrow> u64 \<Rightarrow> u64 \<Rightarrow> page" where
  "insert_in_leaf leaf pos key v =
     (let leaf = shift_entries pos (uint (p_count leaf)) leaf;
          leaf = set_key pos key leaf;
          leaf = set_value pos v leaf
      in set_count (p_count leaf + 1) leaf)"

definition keys_of :: "page \<Rightarrow> nat \<Rightarrow> nat \<Rightarrow> u64 list" where
  "keys_of p a b = map (\<lambda>i. p_key p (int i)) [a..<b]"
definition values_of :: "page \<Rightarrow> nat \<Rightarrow> nat \<Rightarrow> u64 list" where
  "values_of p a b = map (\<lambda>i. p_value p (int i)) [a..<b]"

text \<open>A node of level \<open>lvl\<close> built in a zeroed buffer.\<close>

definition new_node :: "u16 \<Rightarrow> u16 \<Rightarrow> u64 \<Rightarrow> u64 \<Rightarrow> u64 list \<Rightarrow> u64 list \<Rightarrow> page" where
  "new_node lvl cnt nxt par ks vs =
     set_values vs (set_keys ks (set_parent par (set_next nxt (set_count cnt (set_level lvl (set_magic BFS_MAGIC zero_page))))))"

definition set_parent_of :: "u64 \<Rightarrow> u64 \<Rightarrow> bfs_instance \<Rightarrow> bfs_instance" where
  "set_parent_of child par s =
     (case bfs_raw_read s child of None \<Rightarrow> s | Some p \<Rightarrow> bfs_raw_write child (set_parent par p) s)"

definition new_root :: "u64 \<Rightarrow> page \<Rightarrow> u64 \<Rightarrow> u64 \<Rightarrow> bfs_instance \<Rightarrow> int \<times> bfs_instance" where
  "new_root left_page lc separator right_page s =
     (let (root, s) = bfs_alloc_page s
      in if root = 0 then (-1, s)
         else
           let s = bfs_raw_write root (new_node (p_level lc + 1) 1 0 0 [separator] [left_page, right_page]) s;
               s = set_parent_of left_page root s;
               s = set_parent_of right_page root s;
               s = set_root 1 root s
           in (0, bfs_flush_root s))"

text \<open>Insertion into a parent with room.\<close>

definition insert_in_node :: "page \<Rightarrow> u64 \<Rightarrow> u64 \<Rightarrow> page" where
  "insert_in_node par separator right_page =
     (let n = unat (p_count par);
          pos = key_pos par n separator;
          ks = keys_of par 0 pos @ [separator] @ keys_of par pos n;
          vs = values_of par 0 (pos + 1) @ [right_page] @ values_of par (pos + 1) (n + 1)
      in set_count (p_count par + 1) (set_values vs (set_keys ks par)))"

partial_function (option) bfs_insert_in_parent ::
  "u64 \<Rightarrow> u64 \<Rightarrow> u64 \<Rightarrow> bfs_instance \<Rightarrow> (int \<times> bfs_instance) option" where
  "bfs_insert_in_parent left_page separator right_page s =
     (case bfs_raw_read s left_page of
        None \<Rightarrow> Some (-1, s)
      | Some lc \<Rightarrow>
          if p_parent lc = 0 then Some (new_root left_page lc separator right_page s)
          else
            case bfs_raw_read s (p_parent lc) of
              None \<Rightarrow> Some (-1, s)
            | Some par \<Rightarrow>
                if unat (p_count par) < BFS_INTERNAL_MAX_KEYS
                then
                  let s = bfs_raw_write (p_parent lc) (insert_in_node par separator right_page) s
                  in Some (0, set_parent_of right_page (p_parent lc) s)
                else
                  let n = unat (p_count par);
                      pos = key_pos par n separator;
                      tmp_keys = keys_of par 0 pos @ [separator] @ keys_of par pos n;
                      tmp_vals = values_of par 0 (pos + 1) @ [right_page] @ values_of par (pos + 1) (n + 1);
                      total = n + 1;
                      mid = total div 2;
                      promoted = tmp_keys ! mid;
                      left = set_values (take (mid + 1) tmp_vals) (set_keys (take mid tmp_keys) (set_count (of_nat mid) par));
                      s = bfs_raw_write (p_parent lc) left s;
                      (new_right, s) = bfs_alloc_page s
                  in if new_right = 0 then Some (-1, s)
                     else
                       let vs = drop (mid + 1) tmp_vals;
                           rp = new_node (p_level par) (of_nat (total - mid - 1)) 0 0 (drop (mid + 1) tmp_keys) vs;
                           s = bfs_raw_write new_right rp s;
                           s = fold (\<lambda>c. set_parent_of c new_right) vs s
                       in bfs_insert_in_parent (p_parent lc) promoted new_right s)"

definition bfs_insert :: "u64 \<Rightarrow> u64 \<Rightarrow> bfs_instance \<Rightarrow> (int \<times> bfs_instance) option" where
  "bfs_insert key v s =
     do {
       r \<leftarrow> bfs_search s key;
       if found r
       then
         do {
           leaf \<leftarrow> bfs_read_page s (page_num r);
           Some (0, bfs_write_page (page_num r) (set_value (idx r) v leaf) s)
         }
       else
         case bfs_raw_read s (page_num r) of
           None \<Rightarrow> Some (-1, s)
         | Some leaf \<Rightarrow>
             if unat (p_count leaf) < BFS_MAX_KEYS
             then Some (0, bfs_raw_write (page_num r) (insert_in_leaf leaf (idx r) key v) s)
             else
               let n = unat (p_count leaf);
                   ins = nat (idx r);
                   tmp_keys = keys_of leaf 0 ins @ [key] @ keys_of leaf ins n;
                   tmp_vals = values_of leaf 0 ins @ [v] @ values_of leaf ins n;
                   total = n + 1;
                   mid = total div 2;
                   left = set_values (take mid tmp_vals) (set_keys (take mid tmp_keys) (set_count (of_nat mid) leaf));
                   (right_page, s) = bfs_alloc_page s
               in if right_page = 0 then Some (-1, s)
                  else
                    let right = new_node (p_level leaf) (of_nat (total - mid)) (p_next leaf) (p_parent leaf)
                          (drop mid tmp_keys) (drop mid tmp_vals);
                        s = bfs_raw_write (page_num r) (set_next right_page left) s;
                        s = bfs_raw_write right_page right s
                    in bfs_insert_in_parent (page_num r) (p_key right 0) right_page s
     }"

section \<open>Files\<close>

record bfs_file_entry =
  inode :: u64
  start_block :: u64
  size_bytes :: u64

definition blocks_for :: "u64 \<Rightarrow> u64" where "blocks_for sz = (sz + BFS_PAGE_SIZE - 1) div BFS_PAGE_SIZE"
definition pack_value :: "u64 \<Rightarrow> u64 \<Rightarrow> u64" where "pack_value start sz = push_bit 32 start OR (sz AND 0xFFFFFFFF)"
definition value_start :: "u64 \<Rightarrow> u64" where "value_start v = drop_bit 32 v AND 0xFFFFFFFF"
definition value_size :: "u64 \<Rightarrow> u64" where "value_size v = v AND 0xFFFFFFFF"

text \<open>Space for the blocks of a file: \<open>None\<close> when there is not enough.\<close>

definition alloc_blocks :: "u64 \<Rightarrow> bfs_instance \<Rightarrow> u64 option \<times> bfs_instance" where
  "alloc_blocks n s =
     (if n > free_pages s then (None, s)
      else
        let (start, s) = (if n \<noteq> 0 then bfs_alloc_pages n s else (0, s))
        in (if n \<noteq> 0 \<and> start = 0 then None else Some start, s))"

definition bfs_create :: "cstr \<Rightarrow> u64 \<Rightarrow> bfs_instance \<Rightarrow> (int \<times> bfs_instance) option" where
  "bfs_create filename sz s =
     do {
       let hash = bfs_hash filename;
       r \<leftarrow> bfs_search s hash;
       if found r then Some (-1, s)
       else
         case alloc_blocks (blocks_for sz) s of
           (None, s) \<Rightarrow> Some (-2, s)
         | (Some start, s) \<Rightarrow>
             do {
               (e, s) \<leftarrow> bfs_insert hash (pack_value start sz) s;
               if e \<noteq> 0 then Some (-3, s)
               else
                 let s = bfs_flush_root (set_root 5 (file_count s + 1) s)
                 in Some (0, snd (bfs_name_table_upsert hash filename start sz s))
             }
     }"

definition bfs_find :: "cstr \<Rightarrow> bfs_instance \<Rightarrow> bfs_file_entry option option" where
  "bfs_find filename s =
     do {
       let hash = bfs_hash filename;
       r \<leftarrow> bfs_search s hash;
       if \<not> found r then Some None
       else Some (Some \<lparr>inode = hash, start_block = value_start (val r), size_bytes = value_size (val r)\<rparr>)
     }"

definition bfs_file_size :: "cstr \<Rightarrow> bfs_instance \<Rightarrow> (int \<times> u64 option) option" where
  "bfs_file_size filename s =
     do {
       e \<leftarrow> bfs_find filename s;
       case e of None \<Rightarrow> Some (-1, None) | Some e \<Rightarrow> Some (0, Some (size_bytes e))
     }"

text \<open>The bytes of \<open>remaining\<close> bytes of file from page \<open>n\<close>; \<open>None\<close> when a page cannot be read.\<close>

function read_blocks :: "bfs_instance \<Rightarrow> u64 \<Rightarrow> nat \<Rightarrow> u8 list option" where
  "read_blocks s n remaining =
     (if remaining = 0 then Some []
      else
        case bfs_read_page s n of
          None \<Rightarrow> None
        | Some p \<Rightarrow>
            let chunk = (if remaining > 4096 then 4096 else remaining)
            in case read_blocks s (n + 1) (remaining - chunk) of
                 None \<Rightarrow> None
               | Some bs \<Rightarrow> Some (map (get_byte p) [0..<chunk] @ bs))"
  by auto
termination by (relation "measure (\<lambda>(_, _, r). r)") auto

text \<open>Result code, size reported and bytes stored in the buffer.\<close>

definition bfs_read_file :: "cstr \<Rightarrow> u64 \<Rightarrow> bfs_instance \<Rightarrow> (int \<times> u64 option \<times> u8 list option) option" where
  "bfs_read_file filename max_size s =
     do {
       e \<leftarrow> bfs_find filename s;
       case e of
         None \<Rightarrow> Some (-1, None, None)
       | Some e \<Rightarrow>
           if size_bytes e = 0 then Some (0, Some 0, Some [])
           else if max_size < size_bytes e then Some (-2, Some (size_bytes e), None)
           else case read_blocks s (start_block e) (unat (size_bytes e)) of
                  None \<Rightarrow> Some (-3, Some (size_bytes e), None)
                | Some bs \<Rightarrow> Some (0, Some (size_bytes e), Some bs)
     }"

function write_blocks :: "u64 \<Rightarrow> u8 list \<Rightarrow> bfs_instance \<Rightarrow> bfs_instance" where
  "write_blocks n bs s =
     (if bs = [] then s
      else write_blocks (n + 1) (drop 4096 bs) (bfs_write_page n (put_bytes 0 (take 4096 bs) zero_page) s))"
  by auto
termination by (relation "measure (\<lambda>(_, bs, _). length bs)") auto

text \<open>\<open>buffer\<close> holds the \<open>sz\<close> bytes to be written.\<close>

definition bfs_write_file :: "cstr \<Rightarrow> u8 list \<Rightarrow> bfs_instance \<Rightarrow> (int \<times> bfs_instance) option" where
  "bfs_write_file filename buffer s =
     do {
       let sz = (of_nat (length buffer) :: u64);
       let key = bfs_hash filename;
       r \<leftarrow> bfs_search s key;
       if found r
       then
         (case (if sz > value_size (val r) then alloc_blocks (blocks_for sz) s
                else (Some (value_start (val r)), s)) of
           (None, s) \<Rightarrow> Some (-2, s)
         | (Some start, s) \<Rightarrow>
             (case bfs_read_page s (page_num r) of
                None \<Rightarrow> Some (-5, s)
              | Some leaf \<Rightarrow>
                  let s = bfs_write_page (page_num r) (set_value (idx r) (pack_value start sz) leaf) s;
                      s = bfs_flush_root s;
                      s = snd (bfs_name_table_upsert key filename start sz s)
                  in Some (0, write_blocks start buffer s)))
       else
         case alloc_blocks (blocks_for sz) s of
           (None, s) \<Rightarrow> Some (-3, s)
         | (Some start, s) \<Rightarrow>
             do {
               (e, s) \<leftarrow> bfs_insert key (pack_value start sz) s;
               if e \<noteq> 0 then Some (-4, s)
               else
                 let s = bfs_flush_root (set_root 5 (file_count s + 1) s);
                     s = snd (bfs_name_table_upsert key filename start sz s)
                 in Some (0, write_blocks start buffer s)
             }
     }"

text \<open>Removal of entry \<open>i\<close> of a leaf: the entries behind it move up.\<close>

definition remove_entry :: "page \<Rightarrow> int \<Rightarrow> page" where
  "remove_entry leaf i =
     (let n = nat (uint (p_count leaf) - 1 - i);
          leaf = for_range 0 n (\<lambda>j p. set_value (i + int j) (p_value p (i + int j + 1))
                                      (set_key (i + int j) (p_key p (i + int j + 1)) p)) leaf
      in set_count (p_count leaf - 1) leaf)"

definition bfs_delete :: "cstr \<Rightarrow> bfs_instance \<Rightarrow> (int \<times> bfs_instance) option" where
  "bfs_delete filename s =
     do {
       let hash = bfs_hash filename;
       r \<leftarrow> bfs_search s hash;
       if \<not> found r then Some (-1, s)
       else
         do {
           leaf \<leftarrow> bfs_read_page s (page_num r);
           let s = bfs_write_page (page_num r) (remove_entry leaf (idx r)) s;
           let s = bfs_flush_root (set_root 5 (file_count s - 1) s);
           Some (0, bfs_name_table_remove hash s)
         }
     }"

section \<open>Directories\<close>

text \<open>The last component of a name that is a direct child of \<open>prefix\<close>.\<close>

definition SLASH :: u8 where "SLASH = 0x2F"

definition dir_entry :: "cstr \<Rightarrow> cstr \<Rightarrow> cstr option" where
  "dir_entry prefix name =
     (if prefix = [] then if SLASH \<in> set name then None else Some name
      else if take (length prefix) (name @ [0]) = prefix \<and> (name @ [0]) ! length prefix = SLASH
      then
        let rest = drop (length prefix + 1) name
        in if SLASH \<notin> set rest \<and> rest \<noteq> [] then Some rest else None
      else None)"

function list_dir_loop :: "page \<Rightarrow> cstr \<Rightarrow> int \<Rightarrow> nat \<Rightarrow> int \<Rightarrow> u8 list \<Rightarrow> int \<times> u8 list" where
  "list_dir_loop t prefix out_len i cnt out =
     (if i < BFS_NAME_ENTRIES
      then
        if e_hash t i = 0 then list_dir_loop t prefix out_len (Suc i) cnt out
        else
          case dir_entry prefix (e_name t i) of
            None \<Rightarrow> list_dir_loop t prefix out_len (Suc i) cnt out
          | Some e \<Rightarrow>
              let is_dir = (e_size t i = 0);
                  need = int (length e) + (if is_dir then 1 else 0) + 1
              in if int (length out) + need + 1 \<ge> out_len then (cnt, out)
                 else list_dir_loop t prefix out_len (Suc i) (cnt + 1) (out @ e @ (if is_dir then [SLASH] else []) @ [0])
      else (cnt, out))"
  by auto
termination by (relation "measure (\<lambda>(_, _, _, i, _, _). BFS_NAME_ENTRIES - i)") auto

text \<open>The count returned and the bytes stored in \<open>out\<close>.\<close>

definition bfs_list_dir :: "cstr \<Rightarrow> int \<Rightarrow> bfs_instance \<Rightarrow> (int \<times> u8 list) \<times> bfs_instance" where
  "bfs_list_dir prefix out_len s =
     (if out_len \<le> 1 then ((-1, []), s)
      else
        let (r, s) = bfs_name_table_read s
        in if r \<noteq> 0 then ((0, [0]), s)
           else let (cnt, out) = list_dir_loop (name_buf s) prefix out_len 0 0 [] in ((cnt, out @ [0]), s))"

declare name_slot.simps [simp del] shift_entries.simps [simp del] read_blocks.simps [simp del]
  write_blocks.simps [simp del] list_dir_loop.simps [simp del]

end
