(* ===== verification/BFS_Tree.thy ===== *)
theory BFS_Tree
  imports BFS
begin

text \<open>
  The B+ tree of the file system. A tree value names the pages and contents of its nodes; \<open>tree_on\<close>
  says that a device holds it, with the parent links of the nodes. On a device that holds an ordered
  tree the search of \<open>bfs.c\<close> returns and finds exactly the entries of the tree.
\<close>

section \<open>Fields of a page\<close>

lemma head_fields [simp]:
  "(ucast (head_word m l c) :: u32) = m" "(ucast (drop_bit 32 (head_word m l c)) :: u16) = l"
  "(ucast (drop_bit 48 (head_word m l c)) :: u16) = c"
  by (rule bit_word_eqI; auto simp: head_word_def bit_ucast_iff bit_or_iff bit_push_bit_iff bit_drop_bit_eq dest: bit_imp_le_length)+

lemma get_set [simp]:
  "p_magic (set_magic m p) = m" "p_level (set_magic m p) = p_level p" "p_count (set_magic m p) = p_count p"
  "p_magic (set_level l p) = p_magic p" "p_level (set_level l p) = l" "p_count (set_level l p) = p_count p"
  "p_magic (set_count c p) = p_magic p" "p_level (set_count c p) = p_level p" "p_count (set_count c p) = c"
  by (simp_all add: p_magic_def p_level_def p_count_def set_magic_def set_level_def set_count_def)

lemma words_set [simp]:
  "0 < j \<Longrightarrow> set_magic m p j = p j" "0 < j \<Longrightarrow> set_level l p j = p j" "0 < j \<Longrightarrow> set_count c p j = p j"
  "j \<noteq> 1 \<Longrightarrow> set_next n p j = p j" "set_next n p 1 = n" "j \<noteq> 2 \<Longrightarrow> set_parent q p j = p j" "set_parent q p 2 = q"
  by (simp_all add: set_magic_def set_level_def set_count_def set_next_def set_parent_def)

lemma put_words_nth: "put_words b ws p j = (if b \<le> j \<and> j < b + length ws then ws ! (j - b) else p j)"
  by (simp add: put_words_def)

text \<open>Leaving the first word alone keeps its fields.\<close>

lemma head_cong: "p 0 = q 0 \<Longrightarrow> p_magic p = p_magic q \<and> p_level p = p_level q \<and> p_count p = p_count q"
  by (simp add: p_magic_def p_level_def p_count_def)

lemma key_word [simp]: "p_key p (int i) = p (3 + i)" and value_word [simp]: "p_value p (int i) = p (130 + i)"
  by (simp_all add: p_key_def p_value_def nat_add_distrib)

lemma key_word0 [simp]: "p_key p 0 = p 3" and value_word0 [simp]: "p_value p 0 = p 130"
  by (simp_all add: p_key_def p_value_def)

section \<open>Trees\<close>

datatype btree = Leaf u64 "(u64 \<times> u64) list" | Node u64 "u64 list" "btree list"

fun top :: "btree \<Rightarrow> u64" where
  "top (Leaf p kvs) = p"
| "top (Node p ks ts) = p"

fun pages :: "btree \<Rightarrow> u64 list" where
  "pages (Leaf p kvs) = [p]"
| "pages (Node p ks ts) = p # concat (map pages ts)"

fun entries :: "btree \<Rightarrow> (u64 \<times> u64) list" where
  "entries (Leaf p kvs) = kvs"
| "entries (Node p ks ts) = concat (map entries ts)"

text \<open>The position of the child for a key, and the bounds of the children.\<close>

definition pos :: "u64 list \<Rightarrow> u64 \<Rightarrow> nat" where
  "pos ks key = (case find_from (\<lambda>i. key < ks ! i) 0 (length ks) of Some i \<Rightarrow> i | None \<Rightarrow> length ks)"

lemma child_size: "i < length ts \<Longrightarrow> size (ts ! i) < Suc (size_list size ts)"
  using size_list_estimation' [of "ts ! i" ts "size (ts ! i)" size] by simp

function ordered :: "nat \<Rightarrow> nat \<Rightarrow> btree \<Rightarrow> bool" where
  "ordered lo hi (Leaf p kvs) \<longleftrightarrow> sorted_wrt (<) (map fst kvs) \<and> (\<forall>k \<in> fst ` set kvs. lo \<le> unat k \<and> unat k < hi)"
| "ordered lo hi (Node p ks ts) \<longleftrightarrow>
     length ts = Suc (length ks) \<and> sorted (lo # map unat ks @ [hi]) \<and>
     (\<forall>i < length ts. ordered ((lo # map unat ks) ! i) ((map unat ks @ [hi]) ! i) (ts ! i))"
  by pat_completeness auto
termination by (relation "measure (\<lambda>(_, _, t). size t)") (auto intro: child_size)

section \<open>Trees on a device\<close>

definition page_off :: "u64 \<Rightarrow> u64" where "page_off p = p * BFS_PAGE_SIZE"

text \<open>What a page holds: a leaf with its entries or an inner node with separators and children.\<close>

definition leaf_page :: "page \<Rightarrow> (u64 \<times> u64) list \<Rightarrow> bool" where
  "leaf_page p kvs \<longleftrightarrow> p_level p = 0 \<and> length kvs \<le> BFS_MAX_KEYS \<and> unat (p_count p) = length kvs \<and>
     (\<forall>i < length kvs. p (3 + i) = fst (kvs ! i) \<and> p (130 + i) = snd (kvs ! i))"

definition node_page :: "page \<Rightarrow> nat \<Rightarrow> u64 list \<Rightarrow> u64 list \<Rightarrow> bool" where
  "node_page p h ks cs \<longleftrightarrow> unat (p_level p) = h \<and> length ks \<le> BFS_INTERNAL_MAX_KEYS \<and>
     unat (p_count p) = length ks \<and> length cs = Suc (length ks) \<and>
     (\<forall>i < length ks. p (3 + i) = ks ! i) \<and> (\<forall>i < length cs. p (130 + i) = cs ! i)"

fun tree_on :: "(u64 \<Rightarrow> page) \<Rightarrow> u64 \<Rightarrow> nat \<Rightarrow> btree \<Rightarrow> bool" where
  "tree_on d par h (Leaf p kvs) \<longleftrightarrow> h = 0 \<and> leaf_page (d (page_off p)) kvs \<and> p_parent (d (page_off p)) = par"
| "tree_on d par h (Node p ks ts) \<longleftrightarrow>
     (\<exists>g. h = Suc g \<and> node_page (d (page_off p)) h ks (map top ts) \<and> p_parent (d (page_off p)) = par \<and>
       (\<forall>t \<in> set ts. tree_on d p g t))"

lemma top_in_pages: "top t \<in> set (pages t)"
  by (cases t) simp_all

lemma pages_offs:
  assumes "\<forall>p \<in> set (pages t). d' (page_off p) = d (page_off p)"
  shows "tree_on d' par h t = tree_on d par h t"
  using assms by (induction t arbitrary: par h) auto

section \<open>Order\<close>

lemma pos_le: "pos ks key \<le> length ks"
  by (auto simp: pos_def find_from_Some_iff split: option.splits)

lemma pos_below: "i < pos ks key \<Longrightarrow> ks ! i \<le> key" and pos_at: "pos ks key < length ks \<Longrightarrow> key < ks ! pos ks key"
  by (auto simp: pos_def find_from_Some_iff find_from_None_iff split: option.splits)

lemma pos_eqI:
  assumes "i \<le> length ks" and "\<And>j. j < i \<Longrightarrow> ks ! j \<le> key" and "i < length ks \<Longrightarrow> key < ks ! i"
  shows "pos ks key = i"
proof (rule linorder_cases [of "pos ks key" i])
  assume "pos ks key < i"
  then show ?thesis using pos_at [of ks key] assms(1) assms(2) [of "pos ks key"] by simp
next
  assume "i < pos ks key"
  then show ?thesis using pos_below [of i ks key] pos_le [of ks key] assms(3) by simp
qed

text \<open>The lower bound of child \<open>i\<close> is \<open>bound i\<close>, its upper bound \<open>bound (i + 1)\<close>.\<close>

definition bound :: "nat \<Rightarrow> u64 list \<Rightarrow> nat \<Rightarrow> nat \<Rightarrow> nat" where
  "bound lo ks hi i = (lo # map unat ks @ [hi]) ! i"

lemma bounds:
  "i \<le> length ks \<Longrightarrow> (lo # map unat ks) ! i = bound lo ks hi i"
  "i \<le> length ks \<Longrightarrow> (map unat ks @ [hi]) ! i = bound lo ks hi (Suc i)"
  by (cases i; simp add: bound_def nth_append)+

lemma bound_key: "i < length ks \<Longrightarrow> bound lo ks hi (Suc i) = unat (ks ! i)"
  by (simp add: bound_def nth_append)

lemma bound_ends [simp]: "bound lo ks hi 0 = lo" "bound lo ks hi (Suc (length ks)) = hi"
  by (simp_all add: bound_def nth_append)

lemma bound_mono:
  "sorted (lo # map unat ks @ [hi]) \<Longrightarrow> i \<le> j \<Longrightarrow> j \<le> Suc (length ks) \<Longrightarrow> bound lo ks hi i \<le> bound lo ks hi j"
  unfolding bound_def by (rule sorted_nth_mono) simp_all

lemma ordered_Node:
  "ordered lo hi (Node p ks ts) \<longleftrightarrow> length ts = Suc (length ks) \<and> sorted (lo # map unat ks @ [hi]) \<and>
     (\<forall>i \<le> length ks. ordered (bound lo ks hi i) (bound lo ks hi (Suc i)) (ts ! i))"
  by (auto simp: less_Suc_eq_le bounds(1) [of _ ks lo hi] bounds(2) [of _ ks hi lo] simp del: sorted_wrt.simps)

lemma pos_bounds:
  assumes "lo \<le> unat key" and "unat key < hi"
  shows "bound lo ks hi (pos ks key) \<le> unat key \<and> unat key < bound lo ks hi (Suc (pos ks key))"
proof
  show "bound lo ks hi (pos ks key) \<le> unat key"
  proof (cases "pos ks key")
    case (Suc i)
    then have "ks ! i \<le> key" using pos_below [of i ks key] by simp
    then show ?thesis using Suc pos_le [of ks key] by (simp add: bound_key word_le_nat_alt)
  qed (simp add: assms)
  show "unat key < bound lo ks hi (Suc (pos ks key))"
  proof (cases "pos ks key < length ks")
    case True
    then show ?thesis using pos_at [OF True] by (simp add: bound_key word_less_nat_alt)
  next
    case False
    then have "pos ks key = length ks" using pos_le [of ks key] by simp
    then show ?thesis using assms(2) by simp
  qed
qed

lemma entries_bounds: "ordered lo hi t \<Longrightarrow> k \<in> fst ` set (entries t) \<Longrightarrow> lo \<le> unat k \<and> unat k < hi"
proof (induction t arbitrary: lo hi)
  case (Node p ks ts)
  have o: "length ts = Suc (length ks)" "sorted (lo # map unat ks @ [hi])"
    and c: "\<forall>i \<le> length ks. ordered (bound lo ks hi i) (bound lo ks hi (Suc i)) (ts ! i)"
    using Node.prems(1) unfolding ordered_Node by blast+
  obtain t where "t \<in> set ts" "k \<in> fst ` set (entries t)" using Node.prems(2) by auto
  then obtain i where i: "i < length ts" "k \<in> fst ` set (entries (ts ! i))" by (metis in_set_conv_nth)
  then have "bound lo ks hi i \<le> unat k \<and> unat k < bound lo ks hi (Suc i)"
    using Node.IH [OF nth_mem [OF i(1)] _ i(2)] c o(1) less_Suc_eq_le by metis
  moreover have "lo \<le> bound lo ks hi i" "bound lo ks hi (Suc i) \<le> hi"
    using bound_mono [OF o(2), of 0 i] bound_mono [OF o(2), of "Suc i" "Suc (length ks)"] i(1) o(1) by simp_all
  ultimately show ?case by linarith
qed auto

text \<open>A key belongs to one child only.\<close>

lemma other_child:
  assumes "ordered lo hi (Node p ks ts)" and "lo \<le> unat key" "unat key < hi" and "j < length ts" "j \<noteq> pos ks key"
  shows "key \<notin> fst ` set (entries (ts ! j))"
proof
  assume "key \<in> fst ` set (entries (ts ! j))"
  moreover have o: "length ts = Suc (length ks)" "sorted (lo # map unat ks @ [hi])"
    "ordered (bound lo ks hi j) (bound lo ks hi (Suc j)) (ts ! j)"
    using assms(1,4) unfolding ordered_Node by auto
  ultimately have k: "bound lo ks hi j \<le> unat key" "unat key < bound lo ks hi (Suc j)" using entries_bounds by blast+
  note pb = pos_bounds [OF assms(2,3), of ks]
  show False
  proof (cases "j < pos ks key")
    case True
    then show False using bound_mono [OF o(2), of "Suc j" "pos ks key"] pos_le [of ks key] k(2) pb by simp
  next
    case False
    then show False using bound_mono [OF o(2), of "Suc (pos ks key)" j] assms(4,5) o(1) k(1) pb by simp
  qed
qed

lemma map_of_concat:
  assumes "i < length xss" and "\<And>j. j < length xss \<Longrightarrow> j \<noteq> i \<Longrightarrow> k \<notin> fst ` set (xss ! j)"
  shows "map_of (concat xss) k = map_of (xss ! i) k"
  using assms
proof (induction xss arbitrary: i)
  case (Cons xs xss)
  show ?case
  proof (cases i)
    case 0
    have "k \<notin> fst ` set (concat xss)"
    proof
      assume "k \<in> fst ` set (concat xss)"
      then obtain ys where "ys \<in> set xss" "k \<in> fst ` set ys" by auto
      then obtain j where "j < length xss" "k \<in> fst ` set (xss ! j)" by (metis in_set_conv_nth)
      then show False using Cons.prems(2) [of "Suc j"] 0 by simp
    qed
    then have "map_of (concat xss) k = None" by (simp add: map_of_eq_None_iff)
    then show ?thesis using 0 by (simp add: map_add_def split: option.splits)
  next
    case (Suc n)
    have "k \<notin> fst ` set xs" using Cons.prems(2) [of 0] Suc by simp
    then have "map_of xs k = None" by (simp add: map_of_eq_None_iff)
    moreover have "map_of (concat xss) k = map_of (xss ! n) k"
    proof (rule Cons.IH)
      show "n < length xss" using Cons.prems(1) Suc by simp
      show "k \<notin> fst ` set (xss ! j)" if "j < length xss" "j \<noteq> n" for j using Cons.prems(2) [of "Suc j"] that Suc by simp
    qed
    ultimately show ?thesis using Suc by (simp add: map_add_def split: option.splits)
  qed
qed simp

section \<open>The leaf of a key\<close>

function leaf_of :: "btree \<Rightarrow> u64 \<Rightarrow> u64 \<times> (u64 \<times> u64) list" where
  "leaf_of (Leaf p kvs) key = (p, kvs)"
| "leaf_of (Node p ks ts) key = (if pos ks key < length ts then leaf_of (ts ! pos ks key) key else (p, []))"
  by pat_completeness auto
termination by (relation "measure (\<lambda>(t, _). size t)") (auto intro: child_size)

lemma leaf_of_entries:
  assumes "ordered lo hi t" and "lo \<le> unat key" "unat key < hi"
  shows "map_of (entries t) key = map_of (snd (leaf_of t key)) key"
  using assms
proof (induction t key arbitrary: lo hi rule: leaf_of.induct)
  case (2 p ks ts key)
  have o: "length ts = Suc (length ks)" "ordered (bound lo ks hi (pos ks key)) (bound lo ks hi (Suc (pos ks key))) (ts ! pos ks key)"
    using "2.prems"(1) pos_le [of ks key] unfolding ordered_Node by blast+
  have l: "pos ks key < length ts" using o(1) pos_le [of ks key] by simp
  have "map_of (concat (map entries ts)) key = map_of (map entries ts ! pos ks key) key"
    by (rule map_of_concat) (use l other_child [OF "2.prems"] in simp_all)
  also have "\<dots> = map_of (snd (leaf_of (ts ! pos ks key) key)) key"
    using "2.IH" [OF l o(2)] pos_bounds [OF "2.prems"(2,3), of ks] l by simp
  finally show ?case using l by simp
qed simp

lemma leaf_of_page: "ordered lo hi t \<Longrightarrow> fst (leaf_of t key) \<in> set (pages t)"
proof (induction t key arbitrary: lo hi rule: leaf_of.induct)
  case (2 p ks ts key)
  have o: "length ts = Suc (length ks)" "ordered (bound lo ks hi (pos ks key)) (bound lo ks hi (Suc (pos ks key))) (ts ! pos ks key)"
    using "2.prems"(1) pos_le [of ks key] unfolding ordered_Node by blast+
  have l: "pos ks key < length ts" using o(1) pos_le [of ks key] by simp
  then have "fst (leaf_of (ts ! pos ks key) key) \<in> set (pages (ts ! pos ks key))" using "2.IH" o(2) by blast
  then show ?case using l by (auto intro!: bexI [of _ "ts ! pos ks key"])
qed simp

section \<open>Search\<close>

lemma key_pos_pos:
  assumes "\<forall>i < length ks. p (3 + i) = ks ! i"
  shows "key_pos p (length ks) key = pos ks key"
proof -
  have "find_from (\<lambda>i. key < p_key p (int i)) 0 (length ks) = find_from (\<lambda>i. key < ks ! i) 0 (length ks)"
    by (rule find_from_cong) (simp add: assms)
  then show ?thesis by (simp add: key_pos_def pos_def)
qed

lemma child_page_pos:
  assumes "node_page p h ks cs"
  shows "child_page p key = cs ! pos ks key"
proof -
  have n: "unat (p_count p) = length ks" "key_pos p (length ks) key = pos ks key" "\<forall>i \<le> length ks. p (130 + i) = cs ! i"
    using assms key_pos_pos [of ks p key] by (simp_all add: node_page_def less_Suc_eq_le)
  have "key < ks ! 0" if "pos ks key = 0" "ks \<noteq> []" using pos_at [of ks key] that by simp
  moreover have "ks \<noteq> [] \<Longrightarrow> p 3 = ks ! 0" using assms by (force simp: node_page_def)
  ultimately show ?thesis using n pos_le [of ks key]
    by (cases "pos ks key = 0"; cases "ks = []") (auto simp: child_page_def Let_def)
qed

text \<open>A device on which the pages of a tree can be read.\<close>

definition readable :: "bfs_instance \<Rightarrow> u64 set \<Rightarrow> bool" where
  "readable s P \<longleftrightarrow> (\<forall>p \<in> P. bfs_read_page s p = Some (disk s (page_off p)))"

lemma descend_leaf:
  assumes "ordered lo hi t" and "tree_on (disk s) par h t" and "readable s (set (pages t))" and "h < 65536"
  shows "descend s key (top t) (disk s (page_off (top t))) =
      Some (Some (fst (leaf_of t key), disk s (page_off (fst (leaf_of t key))))) \<and>
    leaf_page (disk s (page_off (fst (leaf_of t key)))) (snd (leaf_of t key))"
  using assms
proof (induction t key arbitrary: lo hi par h rule: leaf_of.induct)
  case (1 p kvs key)
  then have "p_level (disk s (page_off p)) = 0" "leaf_page (disk s (page_off p)) kvs" by (simp_all add: leaf_page_def)
  then show ?case by (subst descend.simps) simp
next
  case (2 p ks ts key)
  let ?i = "pos ks key" and ?p = "disk s (page_off p)"
  obtain g where g: "h = Suc g" "node_page ?p (Suc g) ks (map top ts)" "\<forall>t \<in> set ts. tree_on (disk s) p g t"
    using "2.prems"(2) by auto
  have o: "length ts = Suc (length ks)" "ordered (bound lo ks hi ?i) (bound lo ks hi (Suc ?i)) (ts ! ?i)"
    using "2.prems"(1) pos_le [of ks key] unfolding ordered_Node by blast+
  have l: "?i < length ts" using o(1) pos_le [of ks key] by simp
  then have m: "ts ! ?i \<in> set ts" by simp
  have lev: "p_level ?p > 0" using g(2) by (auto simp: node_page_def word_less_nat_alt)
  have c: "child_page ?p key = top (ts ! ?i)" using child_page_pos [OF g(2)] l by simp
  have "top (ts ! ?i) \<in> set (pages (Node p ks ts))" using top_in_pages m by auto
  then have r: "bfs_read_page s (top (ts ! ?i)) = Some (disk s (page_off (top (ts ! ?i))))"
    using "2.prems"(3) unfolding readable_def by blast
  have rd: "readable s (set (pages (ts ! ?i)))" using "2.prems"(3) m by (auto simp: readable_def)
  have "descend s key p ?p = descend s key (top (ts ! ?i)) (disk s (page_off (top (ts ! ?i))))"
    by (subst descend.simps) (simp add: lev c r)
  then show ?case using "2.IH" [OF l o(2) _ rd, of p g] g(1,3) m "2.prems"(4) l by simp
qed

text \<open>The search inside a leaf.\<close>

lemma leaf_search_result:
  assumes "leaf_page p kvs" and "sorted_wrt (<) (map fst kvs)"
  shows "leaf_search n p key =
    (case map_of kvs key of
       Some v \<Rightarrow> \<lparr>found = True, page_num = n, idx = int (pos (map fst kvs) key - 1), val = v\<rparr>
     | None \<Rightarrow> \<lparr>found = False, page_num = n, idx = int (pos (map fst kvs) key), val = 0\<rparr>)"
proof -
  have p: "unat (p_count p) = length kvs" "\<forall>i < length kvs. p (3 + i) = fst (kvs ! i) \<and> p (130 + i) = snd (kvs ! i)"
    using assms(1) by (simp_all add: leaf_page_def)
  have kp: "key_pos p (length kvs) key = pos (map fst kvs) key" using key_pos_pos [of "map fst kvs" p key] p(2) by simp
  show ?thesis
  proof (cases "map_of kvs key")
    case None
    then have "find_from (\<lambda>i. p_key p (int i) = key) 0 (length kvs) = None"
      unfolding find_from_None_iff using p(2) by (auto simp: map_of_eq_None_iff)
    then show ?thesis using None p(1) kp by (simp add: leaf_search_def Let_def)
  next
    case (Some v)
    then obtain i where i: "i < length kvs" "kvs ! i = (key, v)" by (meson in_set_conv_nth map_of_SomeD)
    have lt: "j < l \<Longrightarrow> l < length kvs \<Longrightarrow> fst (kvs ! j) < fst (kvs ! l)" for j l
      using assms(2) sorted_wrt_nth_less [of "(<)" "map fst kvs" j l] by simp
    have "find_from (\<lambda>i. p_key p (int i) = key) 0 (length kvs) = Some i"
      unfolding find_from_Some_iff using i p(2) lt [of _ i] by fastforce
    moreover have "pos (map fst kvs) key = Suc i"
    proof (rule pos_eqI)
      show "map fst kvs ! j \<le> key" if "j < Suc i" for j
        using lt [of j i] i that by (cases "j = i") simp_all
    qed (use i lt [of i "Suc i"] in simp_all)
    ultimately show ?thesis using Some p i by (simp add: leaf_search_def Let_def)
  qed
qed

lemma leaf_of_sorted: "ordered lo hi t \<Longrightarrow> sorted_wrt (<) (map fst (snd (leaf_of t key)))"
proof (induction t key arbitrary: lo hi rule: leaf_of.induct)
  case (2 p ks ts key)
  have "length ts = Suc (length ks)" "ordered (bound lo ks hi (pos ks key)) (bound lo ks hi (Suc (pos ks key))) (ts ! pos ks key)"
    using "2.prems"(1) pos_le [of ks key] unfolding ordered_Node by blast+
  then show ?case using "2.IH" pos_le [of ks key] by simp
qed simp

lemma search_result:
  assumes "ordered 0 (2 ^ 64) t" and "tree_on (disk s) 0 h t" and "readable s (set (pages t))" and "h < 65536"
    and "root_page s = top t"
  shows "bfs_search s key = Some
    (case map_of (entries t) key of
       Some v \<Rightarrow> \<lparr>found = True, page_num = fst (leaf_of t key), idx = int (pos (map fst (snd (leaf_of t key))) key - 1), val = v\<rparr>
     | None \<Rightarrow> \<lparr>found = False, page_num = fst (leaf_of t key), idx = int (pos (map fst (snd (leaf_of t key))) key), val = 0\<rparr>)"
proof -
  have "bfs_read_page s (top t) = Some (disk s (page_off (top t)))" using assms(3) top_in_pages by (simp add: readable_def)
  moreover note d = descend_leaf [OF assms(1-4), of key]
  moreover have "unat key < 2 ^ 64" using unat64_lt [of key] by simp
  then have "map_of (entries t) key = map_of (snd (leaf_of t key)) key" using leaf_of_entries [OF assms(1)] by simp
  moreover note leaf_search_result [OF d [THEN conjunct2] leaf_of_sorted [OF assms(1)], of "fst (leaf_of t key)"]
  ultimately show ?thesis by (simp add: bfs_search_def assms(5) Let_def)
qed

end
