(* ===== verification/BFS_Leaf.thy ===== *)
theory BFS_Leaf
  imports BFS_Tree
begin

text \<open>
  Changing one leaf: what the page operations of \<open>bfs.c\<close> do to the entries a leaf page holds, and
  what the change of one leaf does to the tree and to the lookup of every key.
\<close>

section \<open>Replacing the entries of a leaf\<close>

function upd :: "btree \<Rightarrow> u64 \<Rightarrow> (u64 \<times> u64) list \<Rightarrow> btree" where
  "upd (Leaf p kvs) key new = Leaf p new"
| "upd (Node p ks ts) key new =
     Node p ks (if pos ks key < length ts then ts[pos ks key := upd (ts ! pos ks key) key new] else ts)"
  by pat_completeness auto
termination by (relation "measure (\<lambda>(t, _, _). size t)") (auto intro: child_size)

lemma upd_top [simp]: "top (upd t key new) = top t"
  by (cases t) simp_all

lemma map_update_same: "i < length xs \<Longrightarrow> f y = f (xs ! i) \<Longrightarrow> map f (xs[i := y]) = map f xs"
  by (simp add: map_update list_update_same_conv)

lemma upd_pages [simp]: "pages (upd t key new) = pages t"
proof (induction t key new rule: upd.induct)
  case (2 p ks ts key new)
  then show ?case using map_update_same [of "pos ks key" ts pages] by simp
qed simp

lemma upd_tops: "map top (if i < length ts then ts[i := upd (ts ! i) key new] else ts) = map top ts"
  using map_update_same [of i ts top] by simp

text \<open>The pages of two children are apart.\<close>

lemma distinct_children:
  assumes "distinct (pages (Node p ks ts))" and "i < length ts" "j < length ts" "i \<noteq> j"
  shows "set (pages (ts ! i)) \<inter> set (pages (ts ! j)) = {}" and "p \<notin> set (pages (ts ! i))" and "distinct (pages (ts ! i))"
proof -
  have d: "distinct (concat (map pages ts))" "p \<notin> set (concat (map pages ts))" using assms(1) by simp_all
  have "\<forall>i j. i < length ts \<and> j < length ts \<and> i \<noteq> j \<longrightarrow> set (pages (ts ! i)) \<inter> set (pages (ts ! j)) = {}"
    using d(1)
  proof (induction ts)
    case (Cons t ts)
    show ?case
    proof (intro allI impI)
      fix i j assume ij: "i < length (t # ts) \<and> j < length (t # ts) \<and> i \<noteq> j"
      have t: "set (pages t) \<inter> set (pages (ts ! k)) = {}" if "k < length ts" for k using Cons.prems nth_mem [OF that] by auto
      show "set (pages ((t # ts) ! i)) \<inter> set (pages ((t # ts) ! j)) = {}"
        using ij t Cons by (cases i; cases j) auto
    qed
  qed simp
  then show "set (pages (ts ! i)) \<inter> set (pages (ts ! j)) = {}" using assms by blast
  show "p \<notin> set (pages (ts ! i))" using d(2) assms(2) by auto
  have "ts ! i \<in> set ts" using assms(2) by simp
  then show "distinct (pages (ts ! i))" using d(1) distinct_concat_iff [of "map pages ts"] by simp
qed

lemma child_apart:
  assumes "distinct (pages (Node p ks ts))" and "i < length ts"
  shows "p \<notin> set (pages (ts ! i))" and "distinct (pages (ts ! i))"
proof -
  show "p \<notin> set (pages (ts ! i))" using assms by auto
  have "ts ! i \<in> set ts" using assms(2) by simp
  then show "distinct (pages (ts ! i))" using assms(1) distinct_concat_iff [of "map pages ts"] by simp
qed

text \<open>Offsets of distinct pages of the device are distinct.\<close>

definition inj_pages :: "u64 set \<Rightarrow> bool" where "inj_pages P \<longleftrightarrow> inj_on page_off P"

lemma tree_on_upd:
  assumes "distinct (pages t)" and "inj_pages (set (pages t))" and "tree_on d par h t" and "ordered lo hi t"
    and "q = fst (leaf_of t key)" and "leaf_page pg new" and "p_parent pg = p_parent (d (page_off q))"
  shows "tree_on (d(page_off q := pg)) par h (upd t key new)"
  using assms
proof (induction t key new arbitrary: par h lo hi rule: upd.induct)
  case (1 p kvs key new)
  then show ?case by simp
next
  case (2 p ks ts key new)
  let ?i = "pos ks key" and ?d = "d(page_off q := pg)"
  obtain g where g: "h = Suc g" "node_page (d (page_off p)) h ks (map top ts)" "p_parent (d (page_off p)) = par"
    "\<forall>t \<in> set ts. tree_on d p g t" using "2.prems"(3) by auto
  have o: "length ts = Suc (length ks)" "ordered (bound lo ks hi ?i) (bound lo ks hi (Suc ?i)) (ts ! ?i)"
    using "2.prems"(4) pos_le [of ks key] unfolding ordered_Node by blast+
  have l: "?i < length ts" using o(1) pos_le [of ks key] by simp
  then have m: "ts ! ?i \<in> set ts" by simp
  have q: "q = fst (leaf_of (ts ! ?i) key)" using "2.prems"(5) l by simp
  then have qin: "q \<in> set (pages (ts ! ?i))" using leaf_of_page [OF o(2)] by simp
  note apart = child_apart [OF "2.prems"(1) l]
  have inj: "inj_pages (set (pages (ts ! ?i)))" using "2.prems"(2) m by (auto simp: inj_pages_def inj_on_def)
  have off: "page_off x \<noteq> page_off q" if "x \<in> set (pages (Node p ks ts))" "x \<noteq> q" for x
    using "2.prems"(2) that qin m unfolding inj_pages_def inj_on_def by auto
  have "p \<noteq> q" using apart(1) qin by metis
  then have same: "?d (page_off p) = d (page_off p)" using off [of p] by simp
  have ih: "tree_on ?d p g (upd (ts ! ?i) key new)"
    using "2.IH" [OF l apart(2) inj _ o(2) q "2.prems"(6,7)] g(4) m by blast
  have "tree_on ?d p g t" if t: "t \<in> set (ts[?i := upd (ts ! ?i) key new])" for t
  proof -
    obtain j where j: "j < length ts" "t = ts[?i := upd (ts ! ?i) key new] ! j" using t by (metis in_set_conv_nth length_list_update)
    show ?thesis
    proof (cases "j = ?i")
      case True
      then show ?thesis using j ih l by simp
    next
      case False
      have "q \<notin> set (pages (ts ! j))" using distinct_children(1) [OF "2.prems"(1) l j(1)] False qin by auto
      then have "\<forall>x \<in> set (pages (ts ! j)). ?d (page_off x) = d (page_off x)"
        using off j(1) by (auto simp: fun_upd_def) (metis nth_mem)
      then have "tree_on ?d p g (ts ! j) = tree_on d p g (ts ! j)" by (rule pages_offs)
      then show ?thesis using j False g(4) by simp
    qed
  qed
  then have kids: "\<forall>t \<in> set (ts[?i := upd (ts ! ?i) key new]). tree_on ?d p g t" by blast
  have tops: "map top (ts[?i := upd (ts ! ?i) key new]) = map top ts" using map_update_same [of ?i ts top] l by simp
  show ?case unfolding upd.simps tree_on.simps if_P [OF l] same tops using g(1-3) kids by blast
qed

lemma ordered_upd:
  assumes "ordered lo hi t" and "lo \<le> unat key" "unat key < hi" and "sorted_wrt (<) (map fst new)"
    and "fst ` set new \<subseteq> insert key (fst ` set (snd (leaf_of t key)))"
  shows "ordered lo hi (upd t key new)"
  using assms
proof (induction t key new arbitrary: lo hi rule: upd.induct)
  case (1 p kvs key new)
  then show ?case by fastforce
next
  case (2 p ks ts key new)
  let ?i = "pos ks key"
  have o: "length ts = Suc (length ks)" "sorted (lo # map unat ks @ [hi])"
    "\<forall>i \<le> length ks. ordered (bound lo ks hi i) (bound lo ks hi (Suc i)) (ts ! i)"
    using "2.prems"(1) unfolding ordered_Node by blast+
  have l: "?i < length ts" using o(1) pos_le [of ks key] by simp
  have "ordered (bound lo ks hi ?i) (bound lo ks hi (Suc ?i)) (upd (ts ! ?i) key new)"
    by (rule "2.IH") (use l o(3) pos_le [of ks key] pos_bounds [OF "2.prems"(2,3), of ks] "2.prems"(4,5) in simp_all)
  then show ?case using o l unfolding upd.simps ordered_Node by (auto simp: nth_list_update)
qed


lemma upd_lookup:
  assumes "ordered lo hi t" and "lo \<le> unat k" "unat k < hi" and "lo \<le> unat key" "unat key < hi"
    and "map_of new = (map_of (snd (leaf_of t key)))(key := x)"
  shows "map_of (snd (leaf_of (upd t key new) k)) k = (if k = key then x else map_of (snd (leaf_of t k)) k)"
  using assms
proof (induction t key new arbitrary: lo hi rule: upd.induct)
  case (2 p ks ts key new)
  let ?i = "pos ks key"
  have o: "length ts = Suc (length ks)" "\<forall>i \<le> length ks. ordered (bound lo ks hi i) (bound lo ks hi (Suc i)) (ts ! i)"
    using "2.prems"(1) unfolding ordered_Node by blast+
  have l: "?i < length ts" "pos ks k < length ts" using o(1) pos_le [of ks key] pos_le [of ks k] by simp_all
  show ?case
  proof (cases "pos ks k = ?i")
    case True
    have "map_of (snd (leaf_of (upd (ts ! ?i) key new) k)) k = (if k = key then x else map_of (snd (leaf_of (ts ! ?i) k)) k)"
      by (rule "2.IH" [where lo = "bound lo ks hi ?i" and hi = "bound lo ks hi (Suc ?i)"])
        (use l o(2) pos_le [of ks key] True pos_bounds [OF "2.prems"(2,3), of ks]
          pos_bounds [OF "2.prems"(4,5), of ks] "2.prems"(6) in simp_all)
    then show ?thesis using True l by simp
  next
    case False
    then show ?thesis using l by auto
  qed
qed auto

section \<open>Page operations\<close>

lemma set_key_word: "set_key (int i) k p = p(3 + i := k)" and set_value_word: "set_value (int i) k p = p(130 + i := k)"
  by (simp_all add: set_key_def set_value_def nat_add_distrib)

lemma leaf_pageI:
  assumes "p_level p = 0" and "length kvs \<le> BFS_MAX_KEYS" and "unat (p_count p) = length kvs"
    and "\<And>i. i < length kvs \<Longrightarrow> p (3 + i) = fst (kvs ! i)" and "\<And>i. i < length kvs \<Longrightarrow> p (130 + i) = snd (kvs ! i)"
  shows "leaf_page p kvs"
  using assms by (simp add: leaf_page_def)

lemma leaf_pageD:
  assumes "leaf_page p kvs"
  shows "p_level p = 0" and "length kvs \<le> 127" and "unat (p_count p) = length kvs"
    and "i < length kvs \<Longrightarrow> p (3 + i) = fst (kvs ! i)" and "i < length kvs \<Longrightarrow> p (130 + i) = snd (kvs ! i)"
  using assms by (simp_all add: leaf_page_def BFS_MAX_KEYS_def)

text \<open>Overwriting the value of an entry.\<close>

lemma leaf_set_value:
  assumes "leaf_page p kvs" and "i < length kvs"
  shows "leaf_page (set_value (int i) v p) (kvs[i := (fst (kvs ! i), v)])" and "p_parent (set_value (int i) v p) = p_parent p"
proof -
  note l = leaf_pageD [OF assms(1)]
  let ?q = "p(130 + i := v)"
  have h: "p_level ?q = p_level p" "p_count ?q = p_count p" by (simp_all add: p_level_def p_count_def)
  show "leaf_page (set_value (int i) v p) (kvs[i := (fst (kvs ! i), v)])"
    unfolding set_value_word
  proof (rule leaf_pageI)
    fix j assume j: "j < length (kvs[i := (fst (kvs ! i), v)])"
    have "3 + j \<noteq> 130 + i" using j l(2) by simp
    then show "?q (3 + j) = fst (kvs[i := (fst (kvs ! i), v)] ! j)" using j l(4) [of j] by (cases "j = i") simp_all
    show "?q (130 + j) = snd (kvs[i := (fst (kvs ! i), v)] ! j)" using j l(5) [of j] by (simp add: nth_list_update)
  qed (use h l in \<open>simp_all add: BFS_MAX_KEYS_def\<close>)
  show "p_parent (set_value (int i) v p) = p_parent p" unfolding set_value_word by (simp add: p_parent_def)
qed

text \<open>Making room for an entry.\<close>

lemma shift_words:
  assumes "i \<le> n" and "n \<le> 126"
  shows "shift_entries (int i) (int n) p j =
    (if 3 + i < j \<and> j \<le> 3 + n \<or> 130 + i < j \<and> j \<le> 130 + n then p (j - 1) else p j)"
  using assms
proof (induction n arbitrary: p)
  case (Suc n)
  show ?case
  proof (cases "i = Suc n")
    case False
    define q where "q = p(3 + Suc n := p (3 + n), 130 + Suc n := p (130 + n))"
    have "set_value (int (Suc n)) (p_value p (int n)) (set_key (int (Suc n)) (p_key p (int n)) p) = q"
      unfolding set_key_word set_value_word q_def by simp
    then have "shift_entries (int i) (int (Suc n)) p = shift_entries (int i) (int n) q"
      using False Suc.prems by (subst shift_entries.simps) simp
    then have "shift_entries (int i) (int (Suc n)) p j =
        (if 3 + i < j \<and> j \<le> 3 + n \<or> 130 + i < j \<and> j \<le> 130 + n then q (j - 1) else q j)"
      using Suc.IH [of q] Suc.prems False by simp
    then show ?thesis using Suc.prems False unfolding q_def by (cases "j = 4 + n"; cases "j = 131 + n") auto
  qed (auto simp: shift_entries.simps)
qed (auto simp: shift_entries.simps)

lemma leaf_insert:
  assumes "leaf_page p kvs" and "i \<le> length kvs" and "length kvs < BFS_MAX_KEYS"
  shows "leaf_page (insert_in_leaf p (int i) key v) (take i kvs @ (key, v) # drop i kvs)"
    and "p_parent (insert_in_leaf p (int i) key v) = p_parent p"
proof -
  note l = leaf_pageD [OF assms(1)]
  let ?n = "length kvs" and ?new = "take i kvs @ (key, v) # drop i kvs"
  have n: "?n \<le> 126" using assms(3) by (simp add: BFS_MAX_KEYS_def)
  have cnt: "uint (p_count p) = int ?n" using l(3) by (metis uint_nat)
  define r where "r = shift_entries (int i) (int ?n) p"
  define q where "q = r(3 + i := key, 130 + i := v)"
  have r: "r j = (if 3 + i < j \<and> j \<le> 3 + ?n \<or> 130 + i < j \<and> j \<le> 130 + ?n then p (j - 1) else p j)" for j
    unfolding r_def by (rule shift_words [OF assms(2) n])
  have ins: "insert_in_leaf p (int i) key v = set_count (p_count q + 1) q"
    unfolding insert_in_leaf_def Let_def cnt set_key_word set_value_word r_def [symmetric] q_def [symmetric] ..
  have hd: "q 0 = p 0" "q 2 = p 2" using r by (simp_all add: q_def)
  then have f: "p_level q = p_level p" "p_count q = p_count p" by (simp_all add: p_level_def p_count_def)
  have c: "unat (p_count p + 1) = Suc ?n"
    using l(3) n by (simp add: unat_word_ariths)
  show "p_parent (insert_in_leaf p (int i) key v) = p_parent p" unfolding ins by (simp add: p_parent_def hd)
  show "leaf_page (insert_in_leaf p (int i) key v) ?new"
    unfolding ins
  proof (rule leaf_pageI)
    fix j assume j: "j < length ?new"
    consider "j < i" | "j = i" | "i < j" "j \<le> ?n" using j assms(2) by fastforce
    then show "set_count (p_count q + 1) q (3 + j) = fst (?new ! j)" "set_count (p_count q + 1) q (130 + j) = snd (?new ! j)"
      using n assms(2) l(4) [of j] l(5) [of j] l(4) [of "j - 1"] l(5) [of "j - 1"]
      by (cases; simp add: q_def r nth_append nth_Cons' min_def)+
  qed (use l f c n assms in \<open>simp_all add: BFS_MAX_KEYS_def\<close>)
qed

text \<open>Closing the gap of a removed entry.\<close>

lemma remove_words:
  assumes "i + n < 127"
  shows "for_range 0 n (\<lambda>j p. set_value (int i + int j) (p_value p (int i + int j + 1))
      (set_key (int i + int j) (p_key p (int i + int j + 1)) p)) p w =
    (if 3 + i \<le> w \<and> w < 3 + i + n \<or> 130 + i \<le> w \<and> w < 130 + i + n then p (Suc w) else p w)"
  using assms
proof (induction n arbitrary: w)
  case (Suc n)
  let ?f = "\<lambda>j p. set_value (int i + int j) (p_value p (int i + int j + 1)) (set_key (int i + int j) (p_key p (int i + int j + 1)) p)"
  define q where "q = for_range 0 n ?f p"
  have q: "q w = (if 3 + i \<le> w \<and> w < 3 + i + n \<or> 130 + i \<le> w \<and> w < 130 + i + n then p (Suc w) else p w)" for w
    unfolding q_def using Suc by simp
  have ij: "int i + int n = int (i + n)" "int (i + n) + 1 = int (Suc (i + n))" by simp_all
  have "for_range 0 (Suc n) ?f p = q(3 + (i + n) := q (3 + Suc (i + n)), 130 + (i + n) := q (130 + Suc (i + n)))"
    unfolding for_range_Suc [OF le0] q_def [symmetric] ij set_key_word set_value_word key_word value_word ..
  then show ?case using Suc.prems by (cases "w = 3 + (i + n)"; cases "w = 130 + (i + n)") (auto simp: q)
qed auto

lemma leaf_remove:
  assumes "leaf_page p kvs" and "i < length kvs"
  shows "leaf_page (remove_entry p (int i)) (take i kvs @ drop (Suc i) kvs)"
    and "p_parent (remove_entry p (int i)) = p_parent p"
proof -
  note l = leaf_pageD [OF assms(1)]
  let ?n = "length kvs - Suc i" and ?new = "take i kvs @ drop (Suc i) kvs"
  define q where "q = for_range 0 ?n (\<lambda>j p. set_value (int i + int j) (p_value p (int i + int j + 1))
      (set_key (int i + int j) (p_key p (int i + int j + 1)) p)) p"
  have q: "q w = (if 3 + i \<le> w \<and> w < 3 + i + ?n \<or> 130 + i \<le> w \<and> w < 130 + i + ?n then p (Suc w) else p w)" for w
    unfolding q_def by (rule remove_words) (use l(2) assms(2) in simp)
  have cnt: "uint (p_count p) = int (length kvs)" using l(3) by (metis uint_nat)
  then have n: "nat (uint (p_count p) - 1 - int i) = ?n" using assms(2) by simp
  have rem: "remove_entry p (int i) = set_count (p_count q - 1) q"
    unfolding remove_entry_def Let_def n q_def [symmetric] ..
  have hd: "q 0 = p 0" "q 2 = p 2" using q by simp_all
  then have f: "p_level q = p_level p" "p_count q = p_count p" by (simp_all add: p_level_def p_count_def)
  have "p_count p \<noteq> 0" using l(3) assms(2) by auto
  then have c: "unat (p_count p - 1) = length kvs - 1" using l(3) by (metis unat_minus_one)
  show "p_parent (remove_entry p (int i)) = p_parent p" unfolding rem by (simp add: p_parent_def hd)
  show "leaf_page (remove_entry p (int i)) ?new"
    unfolding rem
  proof (rule leaf_pageI)
    fix j assume j: "j < length ?new"
    then have j': "j < length kvs - 1" using assms(2) by simp
    define m where "m = (if j < i then j else Suc j)"
    have m: "m < length kvs" "?new ! j = kvs ! m" using j' assms(2) by (auto simp: m_def nth_append)
    have "q (3 + j) = p (3 + m)" "q (130 + j) = p (130 + m)" using j' l(2) assms(2) by (auto simp: m_def q)
    then show "set_count (p_count q - 1) q (3 + j) = fst (?new ! j)" "set_count (p_count q - 1) q (130 + j) = snd (?new ! j)"
      using l(4,5) [OF m(1)] unfolding m(2) by simp_all
  qed (use l f c assms in \<open>simp_all add: BFS_MAX_KEYS_def\<close>)
qed

text \<open>The arrays a split copies out and in.\<close>

lemma leaf_arrays:
  assumes "leaf_page p kvs" and "b \<le> length kvs"
  shows "keys_of p a b = map fst (drop a (take b kvs))" and "values_of p a b = map snd (drop a (take b kvs))"
  using assms leaf_pageD [OF assms(1)]
  by (auto intro!: nth_equalityI simp: keys_of_def values_of_def)

lemma new_node_words:
  assumes "length ks \<le> 127"
  shows "new_node lvl cnt nxt par ks vs 2 = par"
    and "j < length ks \<Longrightarrow> new_node lvl cnt nxt par ks vs (3 + j) = ks ! j"
    and "j < length vs \<Longrightarrow> new_node lvl cnt nxt par ks vs (130 + j) = vs ! j"
    and "p_level (new_node lvl cnt nxt par ks vs) = lvl" and "p_count (new_node lvl cnt nxt par ks vs) = cnt"
proof -
  have z: "new_node lvl cnt nxt par ks vs 0 = head_word BFS_MAGIC lvl cnt"
    by (simp add: new_node_def set_values_def set_keys_def put_words_nth set_parent_def set_next_def)
      (simp add: set_count_def)
  show "p_level (new_node lvl cnt nxt par ks vs) = lvl" "p_count (new_node lvl cnt nxt par ks vs) = cnt"
    by (simp_all add: p_level_def p_count_def z)
qed (use assms in \<open>simp_all add: new_node_def set_values_def set_keys_def put_words_nth\<close>)

lemma leaf_new_node:
  assumes "length kvs \<le> 127" and "unat cnt = length kvs"
  shows "leaf_page (new_node 0 cnt nxt par (map fst kvs) (map snd kvs)) kvs"
  by (rule leaf_pageI) (use assms new_node_words [of "map fst kvs"] in \<open>simp_all add: BFS_MAX_KEYS_def\<close>)

lemma leaf_left_half:
  assumes "p_level p = 0" and "length kvs \<le> 127"
  shows "leaf_page (set_next n (set_values (map snd kvs) (set_keys (map fst kvs) (set_count (of_nat (length kvs)) p)))) kvs"
    and "p_parent (set_next n (set_values (map snd kvs) (set_keys (map fst kvs) (set_count (of_nat (length kvs)) p)))) = p_parent p"
proof -
  let ?q = "set_next n (set_values (map snd kvs) (set_keys (map fst kvs) (set_count (of_nat (length kvs)) p)))"
  have z: "?q 0 = set_count (of_nat (length kvs)) p 0" by (simp add: set_next_def set_values_def set_keys_def put_words_nth)
  then have f: "p_level ?q = p_level p" "p_count ?q = of_nat (length kvs)"
    using head_cong [of ?q "set_count (of_nat (length kvs)) p"] z by simp_all
  show "leaf_page ?q kvs"
    by (rule leaf_pageI) (use assms f in \<open>simp_all add: BFS_MAX_KEYS_def set_values_def set_keys_def put_words_nth unat_of_nat\<close>)
  show "p_parent ?q = p_parent p" by (simp add: p_parent_def set_values_def set_keys_def put_words_nth)
qed

end
