(* ===== verification/BFS_Split.thy ===== *)
theory BFS_Split
  imports BFS_Leaf "HOL-Library.Multiset"
begin

text \<open>
  Splitting a full leaf: the tree in which a leaf is replaced by two, with a separator in their
  parent, holds the same entries, is ordered, and is what the page writes of the code produce when
  the parent has room.
\<close>

section \<open>The split tree\<close>

function split_at :: "btree \<Rightarrow> u64 \<Rightarrow> (u64 \<times> u64) list \<Rightarrow> u64 \<Rightarrow> (u64 \<times> u64) list \<Rightarrow> btree" where
  "split_at (Leaf p kvs) key l q r = Leaf p kvs"
| "split_at (Node p ks ts) key l q r =
     (if pos ks key < length ts
      then case ts ! pos ks key of
             Leaf p' kvs \<Rightarrow>
               Node p (take (pos ks key) ks @ fst (hd r) # drop (pos ks key) ks)
                 (take (pos ks key) ts @ Leaf p' l # Leaf q r # drop (Suc (pos ks key)) ts)
           | Node p' ks' ts' \<Rightarrow> Node p ks (ts[pos ks key := split_at (ts ! pos ks key) key l q r])
      else Node p ks ts)"
  by pat_completeness auto
termination by (relation "measure (\<lambda>(t, _). size t)") (auto dest: child_size)

text \<open>The parent of the leaf of a key and the number of its separators.\<close>

function parent_of :: "btree \<Rightarrow> u64 \<Rightarrow> u64 \<times> nat" where
  "parent_of (Leaf p kvs) key = (0, 0)"
| "parent_of (Node p ks ts) key =
     (if pos ks key < length ts
      then case ts ! pos ks key of Leaf p' kvs \<Rightarrow> (p, length ks) | Node p' ks' ts' \<Rightarrow> parent_of (ts ! pos ks key) key
      else (0, 0))"
  by pat_completeness auto
termination by (relation "measure (\<lambda>(t, _). size t)") (auto dest: child_size)

text \<open>Induction along the path of a key to its leaf.\<close>

lemma path_induct [consumes 1, case_names leaf parent step]:
  assumes "ordered lo hi t"
    and "\<And>lo hi p kvs. ordered lo hi (Leaf p kvs) \<Longrightarrow> P lo hi (Leaf p kvs)"
    and "\<And>lo hi p ks ts p' kvs. ordered lo hi (Node p ks ts) \<Longrightarrow> pos ks key < length ts \<Longrightarrow>
      ordered (bound lo ks hi (pos ks key)) (bound lo ks hi (Suc (pos ks key))) (ts ! pos ks key) \<Longrightarrow>
      ts ! pos ks key = Leaf p' kvs \<Longrightarrow> P lo hi (Node p ks ts)"
    and "\<And>lo hi p ks ts p' ks' ts'. ordered lo hi (Node p ks ts) \<Longrightarrow> pos ks key < length ts \<Longrightarrow>
      ordered (bound lo ks hi (pos ks key)) (bound lo ks hi (Suc (pos ks key))) (ts ! pos ks key) \<Longrightarrow>
      ts ! pos ks key = Node p' ks' ts' \<Longrightarrow>
      P (bound lo ks hi (pos ks key)) (bound lo ks hi (Suc (pos ks key))) (ts ! pos ks key) \<Longrightarrow> P lo hi (Node p ks ts)"
  shows "P lo hi t"
  using assms(1)
proof (induction t arbitrary: lo hi)
  case (Leaf p kvs)
  then show ?case by (rule assms(2))
next
  case (Node p ks ts)
  have o: "length ts = Suc (length ks)" "ordered (bound lo ks hi (pos ks key)) (bound lo ks hi (Suc (pos ks key))) (ts ! pos ks key)"
    using Node.prems pos_le [of ks key] unfolding ordered_Node by blast+
  have l: "pos ks key < length ts" using o(1) pos_le [of ks key] by simp
  have ih: "P (bound lo ks hi (pos ks key)) (bound lo ks hi (Suc (pos ks key))) (ts ! pos ks key)"
    using Node.IH [OF nth_mem [OF l] o(2)] .
  show ?case
    using assms(3) [OF Node.prems l o(2)] assms(4) [OF Node.prems l o(2) _ ih] by (cases "ts ! pos ks key") blast+
qed

definition is_node :: "btree \<Rightarrow> bool" where "is_node t \<longleftrightarrow> (\<forall>p kvs. t \<noteq> Leaf p kvs)"

lemma is_node_simps [simp]: "\<not> is_node (Leaf p kvs)" "is_node (Node p ks ts)"
  by (simp_all add: is_node_def)

lemma split_top [simp]: "top (split_at t key l q r) = top t"
  by (cases t) (simp_all split: btree.split)

lemma concat_update:
  assumes "i < length ts"
  shows "concat (map f (ts[i := x])) = concat (map f (take i ts)) @ f x @ concat (map f (drop (Suc i) ts))"
    and "concat (map f ts) = concat (map f (take i ts)) @ f (ts ! i) @ concat (map f (drop (Suc i) ts))"
proof -
  show "concat (map f (ts[i := x])) = concat (map f (take i ts)) @ f x @ concat (map f (drop (Suc i) ts))"
    using assms by (simp add: upd_conv_take_nth_drop)
  show "concat (map f ts) = concat (map f (take i ts)) @ f (ts ! i) @ concat (map f (drop (Suc i) ts))"
    by (subst id_take_nth_drop [OF assms]) simp
qed

text \<open>A split moves entries, it does not change them.\<close>

lemma split_entries:
  assumes "ordered lo hi t" and "is_node t"
  shows "entries (split_at t key l q r) = entries (upd t key (l @ r))"
  using assms
proof (induction rule: path_induct [where key = key])
  case (parent lo hi p ks ts p' kvs)
  then show ?case by (simp add: concat_update(1))
next
  case (step lo hi p ks ts p' ks' ts')
  then have "entries (split_at (ts ! pos ks key) key l q r) = entries (upd (ts ! pos ks key) key (l @ r))" by simp
  then show ?case using step(2,4) by (simp add: concat_update(1))
qed simp

lemma split_pages:
  assumes "ordered lo hi t" and "is_node t"
  shows "mset (pages (split_at t key l q r)) = add_mset q (mset (pages t))"
  using assms
proof (induction rule: path_induct [where key = key])
  case (parent lo hi p ks ts p' kvs)
  then show ?case using concat_update(2) [OF parent(2), of pages] by simp
next
  case (step lo hi p ks ts p' ks' ts')
  then have "mset (pages (split_at (ts ! pos ks key) key l q r)) = add_mset q (mset (pages (ts ! pos ks key)))" by simp
  then show ?case using step(2,4) concat_update(2) [OF step(2), of pages] by (simp add: concat_update(1))
qed simp

lemma split_pages_set:
  assumes "ordered lo hi t" and "is_node t"
  shows "set (pages (split_at t key l q r)) = insert q (set (pages t))"
    and "distinct (pages t) \<Longrightarrow> q \<notin> set (pages t) \<Longrightarrow> distinct (pages (split_at t key l q r))"
proof -
  note m = split_pages [OF assms, of key l q r]
  have "set_mset (mset (pages (split_at t key l q r))) = set_mset (add_mset q (mset (pages t)))" unfolding m ..
  then show "set (pages (split_at t key l q r)) = insert q (set (pages t))" by simp
  assume "distinct (pages t)" "q \<notin> set (pages t)"
  then have "distinct (q # pages t)" by simp
  moreover have "mset (q # pages t) = mset (pages (split_at t key l q r))" using m by simp
  ultimately show "distinct (pages (split_at t key l q r))" using mset_eq_imp_distinct_iff by blast
qed

section \<open>Order\<close>

lemma pos_of_bounds:
  assumes "sorted (lo # map unat ks @ [hi])" and "i \<le> length ks" and "bound lo ks hi i \<le> unat k" "unat k < bound lo ks hi (Suc i)"
  shows "pos ks k = i"
proof (rule pos_eqI [OF assms(2)])
  show "ks ! j \<le> k" if "j < i" for j
    using bound_mono [OF assms(1), of "Suc j" i] that assms(2,3) by (simp add: bound_key word_le_nat_alt)
  show "k < ks ! i" if "i < length ks" using assms(4) that by (simp add: bound_key word_less_nat_alt)
qed

lemma nth_insert:
  assumes "length xs = n"
  shows "(xs @ x # ys) ! j = (if j < n then (xs @ ys) ! j else if j = n then x else (xs @ ys) ! (j - 1))"
  using assms by (auto simp: nth_append nth_Cons')

lemma bound_insert:
  assumes "i \<le> length ks"
  shows "bound lo (take i ks @ k # drop i ks) hi j =
    (if j \<le> i then bound lo ks hi j else if j = Suc i then unat k else bound lo ks hi (j - 1))"
proof -
  have len: "length (lo # map unat (take i ks)) = Suc i" using assms by simp
  have ks: "lo # map unat ks @ [hi] = (lo # map unat (take i ks)) @ map unat (drop i ks) @ [hi]"
    by (metis append_Cons append_assoc append_take_drop_id map_append)
  have new: "lo # map unat (take i ks @ k # drop i ks) @ [hi] = (lo # map unat (take i ks)) @ unat k # map unat (drop i ks) @ [hi]"
    by simp
  show ?thesis unfolding bound_def ks new nth_insert [OF len] by (simp add: less_Suc_eq_le)
qed

lemma sorted_iff_bounds:
  "sorted (lo # map unat ks @ [hi]) \<longleftrightarrow> (\<forall>i \<le> length ks. bound lo ks hi i \<le> bound lo ks hi (Suc i))"
proof -
  have "sorted xs \<longleftrightarrow> (\<forall>i. Suc i < length xs \<longrightarrow> xs ! i \<le> xs ! Suc i)" for xs :: "nat list"
    by (rule sorted_iff_nth_Suc)
  then show ?thesis by (simp add: bound_def less_Suc_eq_le del: sorted_wrt.simps)
qed

lemma ordered_split_parent:
  assumes o: "ordered lo hi (Node p ks ts)" and i: "i \<le> length ks"
    and lr: "sorted_wrt (<) (map fst (l @ r))" "r \<noteq> []"
      "\<forall>k \<in> fst ` set (l @ r). bound lo ks hi i \<le> unat k \<and> unat k < bound lo ks hi (Suc i)"
  shows "ordered lo hi (Node p (take i ks @ fst (hd r) # drop i ks) (take i ts @ Leaf p' l # Leaf q r # drop (Suc i) ts))"
proof -
  let ?s = "fst (hd r)"
  let ?ks = "take i ks @ ?s # drop i ks" and ?ts = "take i ts @ Leaf p' l # Leaf q r # drop (Suc i) ts"
  have len: "length ts = Suc (length ks)" and srt: "sorted (lo # map unat ks @ [hi])"
    and ch: "\<forall>i \<le> length ks. ordered (bound lo ks hi i) (bound lo ks hi (Suc i)) (ts ! i)"
    using o unfolding ordered_Node by blast+
  obtain x r' where r: "r = x # r'" using lr(2) by (cases r) auto
  have sb: "bound lo ks hi i \<le> unat ?s" "unat ?s < bound lo ks hi (Suc i)" using lr(3) r by auto
  have mono: "j \<le> length ks \<Longrightarrow> bound lo ks hi j \<le> bound lo ks hi (Suc j)" for j using srt sorted_iff_bounds by blast
  have bi: "bound lo ?ks hi j = (if j \<le> i then bound lo ks hi j else if j = Suc i then unat ?s else bound lo ks hi (j - 1))" for j
    by (rule bound_insert [OF i])
  have l: "ordered (bound lo ks hi i) (unat ?s) (Leaf p' l)"
    using lr(1,3) r by (auto simp: sorted_wrt_append word_less_nat_alt)
  have rr: "ordered (unat ?s) (bound lo ks hi (Suc i)) (Leaf q r)"
    using lr(1,3) r by (auto simp: sorted_wrt_append word_less_nat_alt)
  have "ordered (bound lo ?ks hi j) (bound lo ?ks hi (Suc j)) (?ts ! j)" if j: "j \<le> Suc (length ks)" for j
  proof -
    consider "j < i" | "j = i" | "j = Suc i" | "Suc i < j" by linarith
    then show ?thesis
    proof cases
      case 4
      then obtain m where m: "j = Suc m" "i < m" by (cases j) auto
      then have "?ts ! j = ts ! m" using i len by (simp add: nth_append nth_Cons' min_def)
      then show ?thesis using m ch j by (simp add: bi)
    qed (use ch l rr i len in \<open>simp_all add: bi nth_append min_def\<close>)
  qed
  moreover have "bound lo ?ks hi j \<le> bound lo ?ks hi (Suc j)" if "j \<le> Suc (length ks)" for j
  proof -
    consider "j < i" | "j = i" | "j = Suc i" | "Suc i < j" by linarith
    then show ?thesis
    proof cases
      case 4
      then obtain m where "j = Suc m" "i < m" by (cases j) auto
      then show ?thesis using mono [of m] that by (simp add: bi)
    qed (use mono sb i in \<open>simp_all add: bi\<close>)
  qed
  then have "sorted (lo # map unat ?ks @ [hi])" unfolding sorted_iff_bounds using i by simp
  ultimately show ?thesis unfolding ordered_Node using len i by simp
qed

lemma ordered_replace:
  assumes "ordered lo hi (Node p ks ts)" and "i \<le> length ks" and "ordered (bound lo ks hi i) (bound lo ks hi (Suc i)) t"
  shows "ordered lo hi (Node p ks (ts[i := t]))"
  using assms unfolding ordered_Node by (auto simp: nth_list_update)

lemma ordered_split:
  assumes "ordered lo hi t" and "is_node t" and "lo \<le> unat key" "unat key < hi"
    and "sorted_wrt (<) (map fst (l @ r))" and "r \<noteq> []"
    and "fst ` set (l @ r) \<subseteq> insert key (fst ` set (snd (leaf_of t key)))"
  shows "ordered lo hi (split_at t key l q r)"
  using assms
proof (induction rule: path_induct [where key = key])
  case (parent lo hi p ks ts p' kvs)
  have b: "bound lo ks hi (pos ks key) \<le> unat k \<and> unat k < bound lo ks hi (Suc (pos ks key))" if "k \<in> fst ` set (l @ r)" for k
    using that parent(2,3,4,10) pos_bounds [OF parent(6,7), of ks] by fastforce
  then show ?case
    using parent(2,4) ordered_split_parent [OF parent(1) pos_le parent(8,9), of key p' q] by simp
next
  case (step lo hi p ks ts p' ks' ts')
  have "ordered (bound lo ks hi (pos ks key)) (bound lo ks hi (Suc (pos ks key))) (split_at (ts ! pos ks key) key l q r)"
    by (rule step(5)) (use step(2,4,9-11) pos_bounds [OF step(7,8), of ks] in simp_all)
  then show ?case using step(2,4) ordered_replace [OF step(1) pos_le] by simp
qed simp

section \<open>The split tree on the device\<close>

definition node_with :: "u64 \<Rightarrow> u64 \<Rightarrow> page \<Rightarrow> page \<Rightarrow> bool" where
  "node_with sep q p p' \<longleftrightarrow> p_parent p' = p_parent p \<and>
     (\<forall>h ks cs. node_page p h ks cs \<and> length ks < BFS_INTERNAL_MAX_KEYS \<longrightarrow>
       node_page p' h (take (pos ks sep) ks @ sep # drop (pos ks sep) ks)
         (take (Suc (pos ks sep)) cs @ q # drop (Suc (pos ks sep)) cs))"

lemma map_upt_slice:
  assumes "b \<le> length xs" and "\<forall>i < length xs. f i = xs ! i"
  shows "map f [a..<b] = drop a (take b xs)"
  using assms by (auto intro!: nth_equalityI)

lemma child_pages: "i < length ts \<Longrightarrow> set (pages (ts ! i)) \<subseteq> set (pages (Node p ks ts))"
  using nth_mem by auto

lemma tree_on_child:
  assumes "tree_on d par h (Node p ks ts)" and "i < length ts"
  obtains g where "h = Suc g" "tree_on d p g (ts ! i)"
  using assms nth_mem [OF assms(2)] by auto

lemma node_insert: "node_with sep q p (insert_in_node p sep q)"
  unfolding node_with_def
proof (intro conjI allI impI)
  let ?n = "unat (p_count p)"
  let ?i = "key_pos p ?n sep"
  let ?ks = "keys_of p 0 ?i @ [sep] @ keys_of p ?i ?n" and ?vs = "values_of p 0 (?i + 1) @ [q] @ values_of p (?i + 1) (?n + 1)"
  let ?r = "set_values ?vs (set_keys ?ks p)"
  have e: "insert_in_node p sep q = set_count (p_count p + 1) ?r" by (simp add: insert_in_node_def Let_def)
  show "p_parent (insert_in_node p sep q) = p_parent p"
    unfolding e by (simp add: p_parent_def set_values_def set_keys_def put_words_nth)
  fix h ks cs assume a: "node_page p h ks cs \<and> length ks < BFS_INTERNAL_MAX_KEYS"
  have n: "?n = length ks" "length cs = Suc (length ks)" "length ks < 126" "unat (p_level p) = h"
    and w: "\<forall>i < length ks. p (3 + i) = ks ! i" "\<forall>i < length cs. p (130 + i) = cs ! i"
    using a by (simp_all add: node_page_def BFS_INTERNAL_MAX_KEYS_def BFS_MAX_KEYS_def)
  have i: "?i = pos ks sep" using key_pos_pos [OF w(1), of sep] n(1) by simp
  let ?j = "pos ks sep"
  have j: "?j \<le> length ks" by (rule pos_le)
  have "keys_of p 0 ?j = take ?j ks" "keys_of p ?j (length ks) = drop ?j ks"
    "values_of p 0 (?j + 1) = take (Suc ?j) cs" "values_of p (?j + 1) (length ks + 1) = drop (Suc ?j) cs"
    unfolding keys_of_def values_of_def key_word value_word using j n(2)
    by (simp_all add: map_upt_slice [OF _ w(1)] map_upt_slice [OF _ w(2)] del: upt_Suc)
  then have ks: "?ks = take ?j ks @ sep # drop ?j ks" and vs: "?vs = take (Suc ?j) cs @ q # drop (Suc ?j) cs"
    unfolding i unfolding n(1) by simp_all
  have z: "?r 0 = p 0" by (simp add: set_values_def set_keys_def put_words_nth)
  have c: "unat (p_count p + 1) = Suc (length ks)" using n(1,3) by (simp add: unat_word_ariths)
  have lev: "p_level ?r = p_level p" using head_cong [of ?r p] z by simp
  have len: "length ?ks = Suc (length ks)" "length ?vs = Suc (Suc (length ks))" unfolding ks vs using j n(2) by simp_all
  have k: "set_count (p_count p + 1) ?r (3 + m) = ?ks ! m" if "m < Suc (length ks)" for m
    using that n(3) len(1) by (simp add: set_values_def set_keys_def put_words_nth)
  have v: "set_count (p_count p + 1) ?r (130 + m) = ?vs ! m" if "m < Suc (Suc (length ks))" for m
    using that n(3) len(2) by (simp add: set_values_def put_words_nth)
  show "node_page (insert_in_node p sep q) h (take ?j ks @ sep # drop ?j ks) (take (Suc ?j) cs @ q # drop (Suc ?j) cs)"
    unfolding e ks [symmetric] vs [symmetric] node_page_def
    using k v c lev n len by (simp add: BFS_INTERNAL_MAX_KEYS_def BFS_MAX_KEYS_def)
qed

lemma parent_page: "ordered lo hi t \<Longrightarrow> is_node t \<Longrightarrow> fst (parent_of t key) \<in> set (pages t)"
proof (induction rule: path_induct [where key = key])
  case (step lo hi p ks ts p' ks' ts')
  then have "fst (parent_of (ts ! pos ks key) key) \<in> set (pages (ts ! pos ks key))" by simp
  moreover have "parent_of (Node p ks ts) key = parent_of (ts ! pos ks key) key" using step(2,4) by simp
  ultimately show ?case using child_pages [OF step(2), of p ks] by auto
qed simp_all

lemma leaf_parent:
  assumes "ordered lo hi t" and "is_node t" and "tree_on d par h t"
  shows "p_parent (d (page_off (fst (leaf_of t key)))) = fst (parent_of t key)"
  using assms
proof (induction arbitrary: par h rule: path_induct [where key = key])
  case (parent lo hi p ks ts p' kvs)
  obtain g where "tree_on d p g (ts ! pos ks key)" by (rule tree_on_child [OF parent(6,2)])
  then show ?case using parent(2,4) by simp
next
  case (step lo hi p ks ts p' ks' ts')
  obtain g where "tree_on d p g (ts ! pos ks key)" by (rule tree_on_child [OF step(7,2)])
  then show ?case using step(2,4,5) by simp
qed simp

text \<open>A write to the pages of one child and of the node itself does not reach another child.\<close>

lemma untouched_child:
  assumes "distinct (pages (Node p ks ts))" and "i < length ts" and "j < length ts" and "j \<noteq> i"
    and A: "A \<subseteq> insert p (set (pages (ts ! i)))"
    and same: "\<forall>x \<in> set (pages (Node p ks ts)). x \<notin> A \<longrightarrow> d' (page_off x) = d (page_off x)"
    and kids: "\<forall>t \<in> set ts. tree_on d p g t"
  shows "tree_on d' p g (ts ! j)"
proof -
  have "set (pages (ts ! i)) \<inter> set (pages (ts ! j)) = {}" "p \<notin> set (pages (ts ! j))"
    using distinct_children(1) [OF assms(1-3)] child_apart(1) [OF assms(1,3)] assms(4) by auto
  then have "x \<notin> A" if "x \<in> set (pages (ts ! j))" for x using A that by blast
  moreover have "x \<in> set (pages (Node p ks ts))" if "x \<in> set (pages (ts ! j))" for x using child_pages [OF assms(3)] that by blast
  ultimately have "\<forall>x \<in> set (pages (ts ! j)). d' (page_off x) = d (page_off x)" using same by blast
  then show ?thesis using pages_offs kids nth_mem [OF assms(3)] by blast
qed

lemma tree_on_split:
  assumes "ordered lo hi t" and "is_node t" and "tree_on d par h t" and "distinct (pages t)"
    and "lo \<le> unat key" "unat key < hi" and "fst (hd r) \<in> insert key (fst ` set (snd (leaf_of t key)))"
    and "snd (parent_of t key) < BFS_INTERNAL_MAX_KEYS"
    and same: "\<forall>x \<in> set (pages t). x \<noteq> fst (leaf_of t key) \<and> x \<noteq> fst (parent_of t key) \<longrightarrow> d' (page_off x) = d (page_off x)"
    and node: "node_with (fst (hd r)) q (d (page_off (fst (parent_of t key)))) (d' (page_off (fst (parent_of t key))))"
    and leaves: "leaf_page (d' (page_off (fst (leaf_of t key)))) l" "p_parent (d' (page_off (fst (leaf_of t key)))) = fst (parent_of t key)"
      "leaf_page (d' (page_off q)) r" "p_parent (d' (page_off q)) = fst (parent_of t key)"
  shows "tree_on d' par h (split_at t key l q r)"
  using assms
proof (induction arbitrary: par h rule: path_induct [where key = key])
  case (parent lo hi p ks ts p' kvs)
  let ?i = "pos ks key" and ?s = "fst (hd r)"
  let ?ts = "take ?i ts @ Leaf p' l # Leaf q r # drop (Suc ?i) ts"
  obtain g where g: "h = Suc g" "node_page (d (page_off p)) h ks (map top ts)" "p_parent (d (page_off p)) = par"
    "\<forall>t \<in> set ts. tree_on d p g t" using parent(6) by auto
  have lp: "leaf_of (Node p ks ts) key = (p', kvs)" "parent_of (Node p ks ts) key = (p, length ks)" using parent(2,4) by simp_all
  have "tree_on d p g (Leaf p' kvs)" using g(4) nth_mem [OF parent(2)] parent(4) by metis
  then have g0: "g = 0" by simp
  have srt: "sorted (lo # map unat ks @ [hi])" using parent(1) unfolding ordered_Node by blast
  have "bound lo ks hi ?i \<le> unat ?s \<and> unat ?s < bound lo ks hi (Suc ?i)"
    using parent(10) parent(3,4) pos_bounds [OF parent(8,9), of ks] unfolding lp by fastforce
  then have ps: "pos ks ?s = ?i" using pos_of_bounds [OF srt pos_le] by blast
  have cs: "map top ?ts = take (Suc ?i) (map top ts) @ q # drop (Suc ?i) (map top ts)"
    using parent(2,4) by (simp add: take_Suc_conv_app_nth take_map drop_map)
  have "node_page (d' (page_off p)) h (take (pos ks ?s) ks @ ?s # drop (pos ks ?s) ks)
      (take (Suc (pos ks ?s)) (map top ts) @ q # drop (Suc (pos ks ?s)) (map top ts))"
    using parent(13) g(2) parent(11) unfolding node_with_def lp fst_conv snd_conv by blast
  then have np: "node_page (d' (page_off p)) h (take ?i ks @ ?s # drop ?i ks) (map top ?ts)" unfolding ps cs .
  have npp: "p_parent (d' (page_off p)) = par" using parent(13) g(3) unfolding node_with_def lp fst_conv by simp
  have "tree_on d' p g t" if t: "t \<in> set ?ts" for t
  proof -
    have "tree_on d' p g (ts ! j)" if j: "j < length ts" "j \<noteq> ?i" for j
      by (rule untouched_child [OF parent(7,2) j _ _ g(4), where A = "{p', p}"]) (use parent(4) parent(12) [unfolded lp] in auto)
    moreover have "t \<in> set (take ?i ts) \<Longrightarrow> \<exists>j < length ts. j \<noteq> ?i \<and> t = ts ! j"
      by (metis in_set_conv_nth length_take min_less_iff_conj nat_neq_iff nth_take)
    moreover have "\<exists>j < length ts. j \<noteq> ?i \<and> t = ts ! j" if d: "t \<in> set (drop (Suc ?i) ts)"
    proof -
      obtain m where "m < length ts - Suc ?i" "t = ts ! (Suc ?i + m)" using d by (auto simp: in_set_conv_nth)
      then show ?thesis by (intro exI [of _ "Suc ?i + m"]) simp
    qed
    moreover have "tree_on d' p g (Leaf p' l)" "tree_on d' p g (Leaf q r)"
      using parent(14-17) g0 unfolding lp by simp_all
    ultimately show ?thesis using t by auto
  qed
  then have kids: "\<forall>t \<in> set ?ts. tree_on d' p g t" by blast
  have sp: "split_at (Node p ks ts) key l q r = Node p (take ?i ks @ ?s # drop ?i ks) ?ts" using parent(2,4) by simp
  show ?case unfolding sp tree_on.simps using np npp kids g(1) by blast
next
  case (step lo hi p ks ts p' ks' ts')
  let ?i = "pos ks key"
  let ?c = "split_at (ts ! ?i) key l q r"
  obtain g where g: "h = Suc g" "node_page (d (page_off p)) h ks (map top ts)" "p_parent (d (page_off p)) = par"
    "\<forall>t \<in> set ts. tree_on d p g t" using step(7) by auto
  have lp: "leaf_of (Node p ks ts) key = leaf_of (ts ! ?i) key" "parent_of (Node p ks ts) key = parent_of (ts ! ?i) key"
    using step(2,4) by simp_all
  have m: "ts ! ?i \<in> set ts" using step(2) by simp
  have in_c: "fst (leaf_of (ts ! ?i) key) \<in> set (pages (ts ! ?i))" "fst (parent_of (ts ! ?i) key) \<in> set (pages (ts ! ?i))"
    using leaf_of_page [OF step(3)] parent_page [OF step(3)] step(4) by simp_all
  have ih: "tree_on d' p g ?c"
  proof (rule step(5) [OF _ _ child_apart(2) [OF step(8,2)] _ _ step(11,12) [unfolded lp] _ step(14-18) [unfolded lp]])
    show "is_node (ts ! ?i)" unfolding step(4) by simp
    show "tree_on d p g (ts ! ?i)" using g(4) m by blast
    show "bound lo ks hi ?i \<le> unat key" "unat key < bound lo ks hi (Suc ?i)" using pos_bounds [OF step(9,10), of ks] by blast+
    show "\<forall>x \<in> set (pages (ts ! ?i)). x \<noteq> fst (leaf_of (ts ! ?i) key) \<and> x \<noteq> fst (parent_of (ts ! ?i) key) \<longrightarrow>
        d' (page_off x) = d (page_off x)"
      using step(13) [unfolded lp] child_pages [OF step(2), of p ks] by blast
  qed
  have "p \<notin> set (pages (ts ! ?i))" using child_apart(1) [OF step(8,2)] .
  then have same: "d' (page_off p) = d (page_off p)" using step(13) in_c unfolding lp by auto
  have "tree_on d' p g t" if t: "t \<in> set (ts[?i := ?c])" for t
  proof -
    obtain j where j: "j < length ts" "t = ts[?i := ?c] ! j" using t by (metis in_set_conv_nth length_list_update)
    have "j \<noteq> ?i \<Longrightarrow> tree_on d' p g (ts ! j)"
      by (rule untouched_child [OF step(8,2) j(1) _ _ _ g(4), where A = "{fst (leaf_of (ts ! ?i) key), fst (parent_of (ts ! ?i) key)}"])
        (use in_c step(13) [unfolded lp] in auto)
    then show ?thesis using j ih step(2) by (cases "j = ?i") simp_all
  qed
  then have kids: "\<forall>t \<in> set (ts[?i := ?c]). tree_on d' p g t" by blast
  have tops: "map top (ts[?i := ?c]) = map top ts" using map_update_same [of ?i ts top] step(2) by simp
  have sp: "split_at (Node p ks ts) key l q r = Node p ks (ts[?i := ?c])" using step(2,4) by simp
  show ?case unfolding sp tree_on.simps same tops using g(1-3) kids by blast
qed simp

end
