(* ===== verification/BFS_Insert.thy ===== *)
theory BFS_Insert
  imports BFS_Split
begin

text \<open>
  The state of a mounted file system: a device that serves its pages, the superblock with its
  accounting, and the tree. Insertion keeps it well-formed and updates the map from keys to values,
  whatever the shape of the tree, as long as the parent of a leaf that has to be split has room.
\<close>

section \<open>The device\<close>

definition trunc :: "page \<Rightarrow> page" where "trunc p = (\<lambda>i. if i < 512 then p i else 0)"

lemma trunc_word [simp]: "i < 512 \<Longrightarrow> trunc p i = p i"
  by (simp add: trunc_def)

lemma trunc_fields [simp]:
  "p_level (trunc p) = p_level p" "p_count (trunc p) = p_count p" "p_parent (trunc p) = p_parent p" "p_next (trunc p) = p_next p"
  by (simp_all add: p_level_def p_count_def p_parent_def p_next_def)

lemma trunc_leaf [simp]: "leaf_page (trunc p) kvs = leaf_page p kvs"
  by (auto simp: leaf_page_def BFS_MAX_KEYS_def)

lemma trunc_node [simp]: "node_page (trunc p) h ks cs = node_page p h ks cs"
  by (auto simp: node_page_def BFS_INTERNAL_MAX_KEYS_def BFS_MAX_KEYS_def)

definition serves :: "bfs_instance \<Rightarrow> u64 \<Rightarrow> bool" where
  "serves s off \<longleftrightarrow> backend s = BFS_BACKEND_RAM \<or>
     pmem_check s off BFS_PAGE_SIZE \<and> pmem_kind s = PMEM_BACKEND_IDE \<and> drive_ok s off"

lemma device_served:
  assumes "serves s off"
  shows "bfs_device_read s off = Some (disk s off)"
    and "bfs_device_write off p s = (0, s\<lparr>disk := (disk s)(off := trunc p)\<rparr>)"
  using assms by (auto simp: serves_def bfs_device_read_def bfs_device_write_def pmem_read_def pmem_write_def trunc_def)

text \<open>What decides which requests are served, and the magic number and version of the superblock.\<close>

definition same_dev :: "bfs_instance \<Rightarrow> bfs_instance \<Rightarrow> bool" where
  "same_dev s s' \<longleftrightarrow> backend s' = backend s \<and> pmem_kind s' = pmem_kind s \<and> pmem_bytes s' = pmem_bytes s \<and>
     drive_ok s' = drive_ok s \<and> disk_size s' = disk_size s \<and> ram_base s' = ram_base s \<and>
     name_table_enabled s' = name_table_enabled s \<and> root_buf s' 0 = root_buf s 0"

lemma same_dev_refl [simp]: "same_dev s s"
  and same_dev_trans: "same_dev s t \<Longrightarrow> same_dev t u \<Longrightarrow> same_dev s u"
  and same_dev_disk [simp]: "same_dev s (s'\<lparr>disk := d\<rparr>) = same_dev s s'"
    "same_dev s (s'\<lparr>name_buf := b\<rparr>) = same_dev s s'"
  by (simp_all add: same_dev_def)

lemma serves_same: "same_dev s s' \<Longrightarrow> serves s' off = serves s off"
  by (simp add: same_dev_def serves_def pmem_check_def pmem_ready_def)

definition dev_ok :: "bfs_instance \<Rightarrow> bool" where
  "dev_ok s \<longleftrightarrow> unat (total_pages s) < 4294967296 \<and> (\<forall>p. p < total_pages s \<longrightarrow> serves s (page_off p))"

lemma dev_ok_same: "same_dev s s' \<Longrightarrow> total_pages s' = total_pages s \<Longrightarrow> dev_ok s' = dev_ok s"
  by (simp add: dev_ok_def serves_same)

lemma page_off_0 [simp]: "page_off 0 = 0"
  by (simp add: page_off_def)

lemma page_off_nat: "unat p < 4294967296 \<Longrightarrow> unat (page_off p) = 4096 * unat p"
  by (simp add: page_off_def BFS_PAGE_SIZE_def unat_word_ariths)

lemma page_off_inj: "unat p < 4294967296 \<Longrightarrow> unat q < 4294967296 \<Longrightarrow> page_off p = page_off q \<longleftrightarrow> p = q"
  using page_off_nat [of p] page_off_nat [of q] by (auto simp: word_unat_eq_iff)

text \<open>Writing a page of the device.\<close>

definition put :: "u64 \<Rightarrow> page \<Rightarrow> bfs_instance \<Rightarrow> bfs_instance" where
  "put p pg s = s\<lparr>disk := (disk s)(page_off p := trunc pg)\<rparr>"

lemma put_simps [simp]:
  "root_buf (put p pg s) = root_buf s" "name_buf (put p pg s) = name_buf s" "same_dev s' (put p pg s) = same_dev s' s"
  "name_table_enabled (put p pg s) = name_table_enabled s"
  "root_page (put p pg s) = root_page s" "total_pages (put p pg s) = total_pages s" "free_pages (put p pg s) = free_pages s"
  "next_free (put p pg s) = next_free s" "file_count (put p pg s) = file_count s"
  by (simp_all add: put_def root_page_def total_pages_def free_pages_def next_free_def file_count_def same_dev_def)

lemma disk_put: "disk (put p pg s) = (disk s)(page_off p := trunc pg)"
  by (simp add: put_def)

lemma disk_put_apply:
  "unat p < 4294967296 \<Longrightarrow> unat q < 4294967296 \<Longrightarrow> disk (put p pg s) (page_off q) = (if q = p then trunc pg else disk s (page_off q))"
  by (simp add: disk_put page_off_inj)

lemma dev_ok_put [simp]: "dev_ok (put p pg s) = dev_ok s"
  by (rule dev_ok_same) simp_all

lemma page_ops:
  assumes "dev_ok s" and "p < total_pages s"
  shows "bfs_read_page s p = Some (disk s (page_off p))" and "bfs_raw_read s p = Some (disk s (page_off p))"
    and "bfs_write_page p pg s = put p pg s" and "bfs_raw_write p pg s = put p pg s"
  using assms device_served [of s "page_off p"]
  by (simp_all add: dev_ok_def bfs_read_page_def bfs_raw_read_def bfs_write_page_def bfs_raw_write_def put_def page_off_def [symmetric])

section \<open>The superblock\<close>

lemma root_set [simp]:
  "root_page (set_root i v s) = (if i = 1 then v else root_page s)" "total_pages (set_root i v s) = (if i = 2 then v else total_pages s)"
  "free_pages (set_root i v s) = (if i = 3 then v else free_pages s)" "next_free (set_root i v s) = (if i = 4 then v else next_free s)"
  "file_count (set_root i v s) = (if i = 5 then v else file_count s)" "disk (set_root i v s) = disk s"
  "name_buf (set_root i v s) = name_buf s" "i \<noteq> 0 \<Longrightarrow> same_dev s' (set_root i v s) = same_dev s' s"
  "name_table_enabled (set_root i v s) = name_table_enabled s"
  by (simp_all add: set_root_def root_page_def total_pages_def free_pages_def next_free_def file_count_def same_dev_def)

definition space_ok :: "bfs_instance \<Rightarrow> bool" where
  "space_ok s \<longleftrightarrow> 3 \<le> unat (next_free s) \<and> unat (next_free s) + unat (free_pages s) = unat (total_pages s)"

lemma flush_put:
  assumes "dev_ok s" and "0 < total_pages s"
  shows "bfs_flush_root s = put 0 (root_buf s) s"
proof -
  have "serves s (page_off 0)" using assms unfolding dev_ok_def by blast
  then show ?thesis by (simp add: bfs_flush_root_def put_def device_served(2))
qed

lemma dev_ok_set_root [simp]: "i \<noteq> 0 \<Longrightarrow> i \<noteq> 2 \<Longrightarrow> dev_ok (set_root i v s) = dev_ok s"
  by (rule dev_ok_same) simp_all

text \<open>\<open>s'\<close> differs from \<open>s\<close> at most in the superblock, the pages of \<open>P\<close> and pages allocated since.\<close>

definition keeps :: "bfs_instance \<Rightarrow> bfs_instance \<Rightarrow> u64 set \<Rightarrow> bool" where
  "keeps s s' P \<longleftrightarrow> same_dev s s' \<and> total_pages s' = total_pages s \<and> next_free s \<le> next_free s' \<and>
     name_buf s' = name_buf s \<and>
     (\<forall>p < next_free s. p \<noteq> 0 \<and> p \<notin> P \<longrightarrow> disk s' (page_off p) = disk s (page_off p))"

lemma keeps_refl [simp]: "keeps s s P"
  by (simp add: keeps_def)

lemma keeps_trans:
  assumes "keeps s t P" and "keeps t u Q" and "Q \<subseteq> P \<union> {p. next_free s \<le> p}"
  shows "keeps s u P"
proof -
  have "disk u (page_off p) = disk s (page_off p)" if p: "p < next_free s" "p \<noteq> 0" "p \<notin> P" for p
  proof -
    have "p < next_free t" "p \<notin> Q" using assms p(1,3) by (auto simp: keeps_def)
    then show ?thesis using assms(1,2) p unfolding keeps_def by metis
  qed
  then show ?thesis using assms(1,2) same_dev_trans unfolding keeps_def by (metis (no_types, lifting) order_trans)
qed

lemma keeps_put:
  assumes "unat (next_free s) < 4294967296" and "unat p < 4294967296" and "p \<in> P \<or> p = 0 \<or> next_free s \<le> p"
  shows "keeps s (put p pg s) P"
proof -
  have "disk (put p pg s) (page_off q) = disk s (page_off q)" if q: "q < next_free s" "q \<noteq> 0" "q \<notin> P" for q
  proof -
    have "unat q < 4294967296" using assms(1) q(1) by (simp add: word_less_nat_alt)
    moreover have "q \<noteq> p" using assms(3) q by auto
    ultimately show ?thesis using assms(2) by (simp add: disk_put_apply)
  qed
  then show ?thesis by (simp add: keeps_def)
qed

lemma alloc_page_effect:
  assumes "dev_ok s" and "space_ok s" and "free_pages s \<noteq> 0"
  obtains s' where "bfs_alloc_page s = (next_free s, s')" "dev_ok s'" "space_ok s'"
    "next_free s' = next_free s + 1" "unat (next_free s') = Suc (unat (next_free s))" "unat (free_pages s') = unat (free_pages s) - 1"
    "root_page s' = root_page s" "file_count s' = file_count s" "keeps s s' {}" "next_free s < total_pages s"
    "disk s' 0 = trunc (root_buf s')" "next_free s \<noteq> 0"
    "\<And>p. p < next_free s \<Longrightarrow> p \<noteq> 0 \<Longrightarrow> disk s' (page_off p) = disk s (page_off p)"
proof -
  let ?n = "next_free s"
  have tot: "unat (total_pages s) < 4294967296" using assms(1) by (simp add: dev_ok_def)
  have sp: "3 \<le> unat ?n" "unat ?n + unat (free_pages s) = unat (total_pages s)" using assms(2) by (simp_all add: space_ok_def)
  have fp: "0 < unat (free_pages s)" using assms(3) by (simp add: unat_gt_0)
  have lt: "?n < total_pages s" using sp fp by (simp add: word_less_nat_alt)
  have un: "unat (?n + 1) = Suc (unat ?n)" using sp fp tot by (simp add: unat_word_ariths)
  have uf: "unat (free_pages s - 1) = unat (free_pages s) - 1" using assms(3) by (metis unat_minus_one)
  have z: "0 < total_pages s" using lt by (metis word_gt_0 word_less_nat_alt not_less0 unat_0)
  define s1 where "s1 = set_root 3 (free_pages s - 1) (set_root 4 (?n + 1) s)"
  define s' where "s' = put ?n fresh_page (put 0 (root_buf s1) s1)"
  have d1: "dev_ok s1" "total_pages s1 = total_pages s" using assms(1) by (simp_all add: s1_def)
  have run: "bfs_alloc_page s = (?n, s')"
    using assms(3) d1 z lt flush_put [OF d1(1)] page_ops(3) [of "put 0 (root_buf s1) s1" ?n]
    by (simp add: bfs_alloc_page_def Let_def s1_def s'_def)
  have nz: "?n \<noteq> 0" using sp(1) by auto
  have n32: "unat ?n < 4294967296" using lt tot by (simp add: word_less_nat_alt)
  have k: "keeps s s' {}"
  proof -
    have "keeps s s1 {}" using un by (simp add: keeps_def s1_def word_le_nat_alt)
    moreover have "unat (next_free s1) < 4294967296" using un sp fp tot by (simp add: s1_def)
    then have "keeps s1 (put 0 (root_buf s1) s1) {}" by (intro keeps_put) simp_all
    moreover have "keeps (put 0 (root_buf s1) s1) s' {?n}"
      unfolding s'_def by (rule keeps_put) (use \<open>unat (next_free s1) < 4294967296\<close> n32 in simp_all)
    ultimately show ?thesis using keeps_trans by (metis (no_types, lifting) Un_empty_left empty_subsetI insert_subset mem_Collect_eq order_refl)
  qed
  have d0: "disk s' 0 = trunc (root_buf s')"
    using disk_put_apply [of ?n 0 fresh_page "put 0 (root_buf s1) s1"] n32 nz by (simp add: s'_def disk_put)
  show thesis
    by (rule that [OF run]) (use d1 k lt nz d0 sp fp un uf in \<open>auto simp: s'_def s1_def space_ok_def keeps_def\<close>)
qed

section \<open>The mounted file system\<close>

definition tree_ok :: "bfs_instance \<Rightarrow> btree \<Rightarrow> nat \<Rightarrow> bool" where
  "tree_ok s t h \<longleftrightarrow> ordered 0 (2 ^ 64) t \<and> tree_on (disk s) 0 h t \<and> h < 65535 \<and> root_page s = top t \<and>
     distinct (pages t) \<and> (\<forall>p \<in> set (pages t). p \<noteq> 0 \<and> p \<noteq> BFS_NAME_TABLE_PAGE \<and> p < next_free s)"

definition fs_ok :: "bfs_instance \<Rightarrow> btree \<Rightarrow> nat \<Rightarrow> bool" where
  "fs_ok s t h \<longleftrightarrow> dev_ok s \<and> space_ok s \<and> disk s 0 = trunc (root_buf s) \<and> tree_ok s t h"

lemma next_free_bound:
  assumes "dev_ok s" and "space_ok s"
  shows "unat (next_free s) < 4294967296" and "next_free s \<le> total_pages s" and "3 \<le> next_free s"
  using assms by (simp_all add: dev_ok_def space_ok_def word_le_nat_alt)

text \<open>Facts about a mounted file system that every operation needs.\<close>

lemma fs_okD:
  assumes "fs_ok s t h"
  shows "dev_ok s" "space_ok s" "disk s 0 = trunc (root_buf s)" "ordered 0 (2 ^ 64) t" "tree_on (disk s) 0 h t" "h < 65535"
    "root_page s = top t" "distinct (pages t)" "p \<in> set (pages t) \<Longrightarrow> p \<noteq> 0 \<and> p < next_free s \<and> p < total_pages s \<and> unat p < 4294967296"
    "readable s (set (pages t))" "inj_pages (set (pages t))" "0 < total_pages s"
proof -
  show p: "dev_ok s" "space_ok s" "disk s 0 = trunc (root_buf s)" "ordered 0 (2 ^ 64) t" "tree_on (disk s) 0 h t" "h < 65535"
    "root_page s = top t" "distinct (pages t)"
    using assms by (simp_all add: fs_ok_def tree_ok_def)
  note nf = next_free_bound [OF p(1,2)]
  show q: "p \<in> set (pages t) \<Longrightarrow> p \<noteq> 0 \<and> p < next_free s \<and> p < total_pages s \<and> unat p < 4294967296" for p
    using assms nf by (auto simp: fs_ok_def tree_ok_def word_less_nat_alt word_le_nat_alt)
  show "readable s (set (pages t))" using q page_ops(1) [OF p(1)] by (simp add: readable_def)
  show "inj_pages (set (pages t))" using q page_off_inj by (simp add: inj_pages_def inj_on_def)
  show "0 < total_pages s" using nf by (simp add: word_less_nat_alt word_le_nat_alt)
qed

lemma key_bounds [simp]: "unat (k :: u64) < 2 ^ 64"
  using unat64_lt [of k] by simp

lemma lookup_leaf: "fs_ok s t h \<Longrightarrow> map_of (entries t) k = map_of (snd (leaf_of t k)) k"
  using leaf_of_entries [OF fs_okD(4)] by simp

lemma search_ok:
  assumes "fs_ok s t h"
  shows "bfs_search s key = Some
    (case map_of (entries t) key of
       Some v \<Rightarrow> \<lparr>found = True, page_num = fst (leaf_of t key), idx = int (pos (map fst (snd (leaf_of t key))) key - 1), val = v\<rparr>
     | None \<Rightarrow> \<lparr>found = False, page_num = fst (leaf_of t key), idx = int (pos (map fst (snd (leaf_of t key))) key), val = 0\<rparr>)"
  using search_result [OF fs_okD(4,5,10) [OF assms] _ fs_okD(7) [OF assms]] fs_okD(6) [OF assms] by simp

text \<open>The leaf the search ends in.\<close>

lemma leaf_ok:
  assumes "fs_ok s t h"
  shows "fst (leaf_of t key) \<in> set (pages t)" "leaf_page (disk s (page_off (fst (leaf_of t key)))) (snd (leaf_of t key))"
    "sorted_wrt (<) (map fst (snd (leaf_of t key)))" "distinct (map fst (snd (leaf_of t key)))"
proof -
  show "fst (leaf_of t key) \<in> set (pages t)" using leaf_of_page [OF fs_okD(4) [OF assms]] .
  show "leaf_page (disk s (page_off (fst (leaf_of t key)))) (snd (leaf_of t key))"
    using descend_leaf [OF fs_okD(4,5,10) [OF assms]] fs_okD(6) [OF assms] by simp
  show "sorted_wrt (<) (map fst (snd (leaf_of t key)))" using leaf_of_sorted [OF fs_okD(4) [OF assms]] .
  then show "distinct (map fst (snd (leaf_of t key)))" using strict_sorted_iff by blast
qed

text \<open>The entry of a key in its leaf.\<close>

lemma entry_index:
  assumes ok: "fs_ok s t h" and v: "map_of (entries t) key = Some v"
  defines "kvs \<equiv> snd (leaf_of t key)"
  shows "pos (map fst kvs) key - 1 < length kvs" "fst (kvs ! (pos (map fst kvs) key - 1)) = key"
proof -
  note lf = leaf_ok [OF ok, of key, folded kvs_def]
  have "map_of kvs key = Some v" using v lookup_leaf [OF ok] by (simp add: kvs_def)
  then obtain j where j: "j < length kvs" "kvs ! j = (key, v)" by (meson in_set_conv_nth map_of_SomeD)
  have less: "a < b \<Longrightarrow> b < length kvs \<Longrightarrow> fst (kvs ! a) < fst (kvs ! b)" for a b
    using lf(3) sorted_wrt_nth_less [of "(<)" "map fst kvs" a b] by simp
  have "pos (map fst kvs) key = Suc j"
  proof (rule pos_eqI)
    show "map fst kvs ! a \<le> key" if "a < Suc j" for a using less [of a j] j that by (cases "a = j") simp_all
  qed (use j less [of j "Suc j"] in simp_all)
  then show "pos (map fst kvs) key - 1 < length kvs" "fst (kvs ! (pos (map fst kvs) key - 1)) = key" using j by simp_all
qed

section \<open>Changing a leaf\<close>

lemma upd_map:
  assumes "fs_ok s t h" and "ordered 0 (2 ^ 64) (upd t key new)"
    and "map_of new = (map_of (snd (leaf_of t key)))(key := x)"
  shows "map_of (entries (upd t key new)) = (map_of (entries t))(key := x)"
proof
  fix k
  have "map_of (entries (upd t key new)) k = map_of (snd (leaf_of (upd t key new) k)) k"
    using leaf_of_entries [OF assms(2)] by simp
  also have "\<dots> = (if k = key then x else map_of (snd (leaf_of t k)) k)"
    by (rule upd_lookup [OF fs_okD(4) [OF assms(1)] _ _ _ _ assms(3)]) simp_all
  finally show "map_of (entries (upd t key new)) k = ((map_of (entries t))(key := x)) k"
    using lookup_leaf [OF assms(1)] by simp
qed

lemma write_leaf_ok:
  assumes ok: "fs_ok s t h" and q: "q = fst (leaf_of t key)"
    and pg: "leaf_page pg new" "p_parent pg = p_parent (disk s (page_off q))" and srt: "sorted_wrt (<) (map fst new)"
    and keys: "fst ` set new \<subseteq> insert key (fst ` set (snd (leaf_of t key)))"
    and map: "map_of new = (map_of (snd (leaf_of t key)))(key := x)"
  shows "fs_ok (put q pg s) (upd t key new) h" and "map_of (entries (upd t key new)) = (map_of (entries t))(key := x)"
    and "keeps s (put q pg s) (set (pages t))"
proof -
  note f = fs_okD [OF ok]
  have qin: "q \<in> set (pages t)" using leaf_ok(1) [OF ok] q by simp
  note qf = f(9) [OF qin]
  have o: "ordered 0 (2 ^ 64) (upd t key new)" by (rule ordered_upd [OF f(4) _ _ srt keys]) simp_all
  show "map_of (entries (upd t key new)) = (map_of (entries t))(key := x)" by (rule upd_map [OF ok o map])
  show "keeps s (put q pg s) (set (pages t))" by (rule keeps_put) (use next_free_bound(1) [OF f(1,2)] qin qf in simp_all)
  have "tree_on (disk (put q pg s)) 0 h (upd t key new)"
    unfolding disk_put by (rule tree_on_upd [OF f(8,11,5,4) q]) (use pg in simp_all)
  moreover have "disk (put q pg s) 0 = trunc (root_buf s)"
    using disk_put_apply [of q 0 pg s] qf f(3) by auto
  ultimately show "fs_ok (put q pg s) (upd t key new) h"
    using ok o f by (simp add: fs_ok_def tree_ok_def space_ok_def)
qed

section \<open>Insertion without a split\<close>

lemma map_of_list_update:
  assumes "distinct (map fst kvs)" and "i < length kvs"
  shows "map_of (kvs[i := (fst (kvs ! i), v)]) = (map_of kvs)(fst (kvs ! i) \<mapsto> v)"
proof -
  have kvs: "kvs = take i kvs @ kvs ! i # drop (Suc i) kvs" using id_take_nth_drop [OF assms(2)] .
  have u: "kvs[i := (fst (kvs ! i), v)] = take i kvs @ (fst (kvs ! i), v) # drop (Suc i) kvs"
    using upd_conv_take_nth_drop [OF assms(2)] .
  obtain k w where kw: "kvs ! i = (k, w)" by (cases "kvs ! i")
  have "k \<notin> fst ` set (take i kvs)"
  proof
    assume "k \<in> fst ` set (take i kvs)"
    then have "k \<in> set (map fst (take i kvs))" by auto
    moreover have "distinct (map fst (take i kvs @ kvs ! i # drop (Suc i) kvs))" using assms(1) kvs by metis
    ultimately show False using kw by auto
  qed
  then have n: "map_of (take i kvs) k = None" by (simp add: map_of_eq_None_iff)
  have "map_of kvs = (map_of (drop (Suc i) kvs))(k \<mapsto> w) ++ map_of (take i kvs)"
    by (subst kvs) (simp add: kw)
  then show ?thesis unfolding u using kw n by (auto simp: fun_eq_iff map_add_def split: option.splits)
qed

lemma map_of_insert:
  assumes "key \<notin> fst ` set kvs"
  shows "map_of (take i kvs @ (key, v) # drop i kvs) = (map_of kvs)(key \<mapsto> v)"
proof -
  have "map_of kvs = map_of (drop i kvs) ++ map_of (take i kvs)" by (metis append_take_drop_id map_of_append)
  moreover have "map_of (take i kvs) key = None" using assms by (auto simp: map_of_eq_None_iff dest: in_set_takeD)
  ultimately show ?thesis by (auto simp: fun_eq_iff map_add_def split: option.splits)
qed

lemma sorted_insert:
  assumes "sorted_wrt (<) (map fst kvs)" and "key \<notin> fst ` set kvs" and "i = pos (map fst kvs) key"
  shows "sorted_wrt (<) (map fst (take i kvs @ (key, v) # drop i kvs))"
proof -
  have "sorted_wrt (<) (map fst (take i kvs @ drop i kvs))" using assms(1) by simp
  then have s: "sorted_wrt (<) (map fst (take i kvs))" "sorted_wrt (<) (map fst (drop i kvs))"
    "\<forall>x \<in> set (map fst (take i kvs)). \<forall>y \<in> set (map fst (drop i kvs)). x < y"
    unfolding map_append sorted_wrt_append by blast+
  have l: "x < key" if x: "x \<in> set (map fst (take i kvs))" for x
  proof -
    obtain j where "j < i" "j < length kvs" "x = fst (kvs ! j)" using x by (auto simp: in_set_conv_nth)
    then have "x \<le> key" "x \<noteq> key" using pos_below [of j "map fst kvs" key] assms(2,3) by force+
    then show ?thesis by simp
  qed
  have r: "key < y" if y: "y \<in> set (map fst (drop i kvs))" for y
  proof -
    obtain m where m: "m < length kvs - i" "y = fst (kvs ! (i + m))" using y by (auto simp: in_set_conv_nth)
    then have "key < fst (kvs ! i)" using pos_at [of "map fst kvs" key] assms(3) by simp
    moreover have "i + m < length kvs" using m(1) by linarith
    then have "fst (kvs ! i) \<le> fst (kvs ! (i + m))"
      using assms(1) sorted_wrt_nth_less [of "(<)" "map fst kvs" i "i + m"] by (cases "m = 0") (simp_all add: less_imp_le)
    ultimately show ?thesis using m(2) by simp
  qed
  show ?thesis unfolding map_append list.map sorted_wrt_append fst_conv using s l r by (auto simp: sorted_wrt.simps)
qed

text \<open>Insertion of a key that is there, and into a leaf that has room.\<close>

definition inserted :: "bfs_instance \<Rightarrow> btree \<Rightarrow> u64 \<Rightarrow> u64 \<Rightarrow> bfs_instance \<Rightarrow> btree \<Rightarrow> nat \<Rightarrow> bool" where
  "inserted s t key v s' t' h' \<longleftrightarrow> fs_ok s' t' h' \<and> map_of (entries t') = (map_of (entries t))(key \<mapsto> v) \<and>
     keeps s s' (set (pages t)) \<and> set (pages t') \<subseteq> set (pages t) \<union> {p. next_free s \<le> p} \<and>
     unat (next_free s') \<le> unat (next_free s) + 2 \<and> file_count s' = file_count s"

lemma insert_present:
  assumes ok: "fs_ok s t h" and "map_of (entries t) key = Some w"
  shows "\<exists>s' t'. bfs_insert key v s = Some (0, s') \<and> inserted s t key v s' t' h \<and> next_free s' = next_free s"
proof -
  let ?q = "fst (leaf_of t key)" and ?kvs = "snd (leaf_of t key)"
  let ?p = "disk s (page_off ?q)"
  note lf = leaf_ok [OF ok, of key]
  define i where "i = pos (map fst ?kvs) key - 1"
  note i = entry_index [OF ok assms(2), folded i_def]
  let ?new = "?kvs[i := (key, v)]" and ?pg = "set_value (int i) v ?p"
  note lv = leaf_set_value [OF lf(2) i(1), of v, unfolded i(2)]
  have keys: "map fst ?new = map fst ?kvs" using map_update_same [OF i(1), of fst "(key, v)"] i(2) by simp
  have "map_of ?new = (map_of ?kvs)(key \<mapsto> v)" using map_of_list_update [OF lf(4) i(1), of v] i(2) by simp
  moreover have "fst ` set ?new \<subseteq> insert key (fst ` set ?kvs)" using keys by (metis image_set subset_insertI)
  ultimately have w: "fs_ok (put ?q ?pg s) (upd t key ?new) h" "map_of (entries (upd t key ?new)) = (map_of (entries t))(key \<mapsto> v)"
    "keeps s (put ?q ?pg s) (set (pages t))"
    using write_leaf_ok [OF ok refl lv] lf(3) keys by simp_all
  have "?q < total_pages s" using fs_okD(9) [OF ok lf(1)] by blast
  note po = page_ops [OF fs_okD(1) [OF ok] this]
  have "bfs_insert key v s = Some (0, put ?q ?pg s)"
    using search_ok [OF ok, of key] assms(2) po(1,3) by (simp add: bfs_insert_def i_def)
  then show ?thesis using w by (auto simp: inserted_def)
qed

lemma insert_room:
  assumes ok: "fs_ok s t h" and "map_of (entries t) key = None" and room: "length (snd (leaf_of t key)) < BFS_MAX_KEYS"
  shows "\<exists>s' t'. bfs_insert key v s = Some (0, s') \<and> inserted s t key v s' t' h \<and> next_free s' = next_free s"
proof -
  let ?q = "fst (leaf_of t key)" and ?kvs = "snd (leaf_of t key)"
  let ?p = "disk s (page_off ?q)"
  note lf = leaf_ok [OF ok, of key]
  define i where "i = pos (map fst ?kvs) key"
  have i: "i \<le> length ?kvs" using pos_le [of "map fst ?kvs" key] by (simp add: i_def)
  have k: "key \<notin> fst ` set ?kvs" using assms(2) lookup_leaf [OF ok] by (simp add: map_of_eq_None_iff)
  let ?new = "take i ?kvs @ (key, v) # drop i ?kvs" and ?pg = "insert_in_leaf ?p (int i) key v"
  have keys: "fst ` set ?new \<subseteq> insert key (fst ` set ?kvs)" by (auto dest: in_set_takeD in_set_dropD)
  note w = write_leaf_ok [OF ok refl leaf_insert [OF lf(2) i room] sorted_insert [OF lf(3) k i_def] keys map_of_insert [OF k]]
  have "?q < total_pages s" using fs_okD(9) [OF ok lf(1)] by blast
  note po = page_ops [OF fs_okD(1) [OF ok] this]
  have "unat (p_count ?p) < BFS_MAX_KEYS" using leaf_pageD(3) [OF lf(2)] room by simp
  then have "bfs_insert key v s = Some (0, put ?q ?pg s)"
    using search_ok [OF ok, of key] assms(2) po(2,4) by (simp add: bfs_insert_def i_def)
  then show ?thesis using w by (auto simp: inserted_def)
qed

end
