(* ===== verification/BFS_Grow.thy ===== *)
theory BFS_Grow
  imports BFS_Insert
begin

text \<open>
  Insertion into a full leaf: the leaf is split over a new page, and the separator goes into the
  parent or into a new root.
\<close>

section \<open>Splitting the leaf\<close>

text \<open>The entries of the full leaf with the new one, and the two halves.\<close>

definition merged :: "btree \<Rightarrow> u64 \<Rightarrow> u64 \<Rightarrow> (u64 \<times> u64) list" where
  "merged t key v =
     (let kvs = snd (leaf_of t key); i = pos (map fst kvs) key in take i kvs @ (key, v) # drop i kvs)"

definition left_half :: "btree \<Rightarrow> u64 \<Rightarrow> u64 \<Rightarrow> (u64 \<times> u64) list" where "left_half t key v = take 64 (merged t key v)"
definition right_half :: "btree \<Rightarrow> u64 \<Rightarrow> u64 \<Rightarrow> (u64 \<times> u64) list" where "right_half t key v = drop 64 (merged t key v)"

lemma halves:
  assumes "length (snd (leaf_of t key)) = 127"
  shows "length (merged t key v) = 128" "length (left_half t key v) = 64" "length (right_half t key v) = 64"
    "left_half t key v @ right_half t key v = merged t key v" "right_half t key v \<noteq> []"
    "fst ` set (merged t key v) \<subseteq> insert key (fst ` set (snd (leaf_of t key)))"
    "fst (hd (right_half t key v)) \<in> insert key (fst ` set (snd (leaf_of t key)))"
proof -
  show m: "length (merged t key v) = 128" using assms pos_le [of "map fst (snd (leaf_of t key))" key] by (simp add: merged_def Let_def)
  then show len: "length (left_half t key v) = 64" "length (right_half t key v) = 64"
    by (simp_all add: left_half_def right_half_def)
  show a: "left_half t key v @ right_half t key v = merged t key v" by (simp add: left_half_def right_half_def)
  show ne: "right_half t key v \<noteq> []" using len(2) by auto
  show sub: "fst ` set (merged t key v) \<subseteq> insert key (fst ` set (snd (leaf_of t key)))"
    by (auto simp: merged_def Let_def dest: in_set_takeD in_set_dropD)
  have "hd (right_half t key v) \<in> set (merged t key v)" using ne a by (metis Un_iff hd_in_set set_append)
  then show "fst (hd (right_half t key v)) \<in> insert key (fst ` set (snd (leaf_of t key)))" using sub by blast
qed

lemma key_words_3 [simp]: "p_key p 0 = p 3"
  by (simp add: p_key_def)

text \<open>The state in which the separator is handed to the parent.\<close>

lemma split_leaf:
  assumes ok: "fs_ok s t h" and absent: "map_of (entries t) key = None" and full: "length (snd (leaf_of t key)) = 127"
    and free: "free_pages s \<noteq> 0"
  defines "q \<equiv> fst (leaf_of t key)" and "n \<equiv> next_free s"
  obtains s' where "bfs_insert key v s = bfs_insert_in_parent q (fst (hd (right_half t key v))) n s'"
    "dev_ok s'" "space_ok s'" "disk s' 0 = trunc (root_buf s')" "unat (next_free s') = Suc (unat n)"
    "unat (free_pages s') = unat (free_pages s) - 1" "root_page s' = root_page s" "file_count s' = file_count s"
    "keeps s s' (set (pages t))" "total_pages s' = total_pages s"
    "leaf_page (disk s' (page_off q)) (left_half t key v)" "leaf_page (disk s' (page_off n)) (right_half t key v)"
    "p_parent (disk s' (page_off q)) = p_parent (disk s (page_off q))" "p_parent (disk s' (page_off n)) = p_parent (disk s (page_off q))"
    "\<forall>x. x \<noteq> 0 \<and> x \<noteq> q \<and> x < n \<longrightarrow> disk s' (page_off x) = disk s (page_off x)"
    "n \<noteq> 0" "n \<noteq> 2" "n < total_pages s"
proof -
  let ?l = "left_half t key v" and ?r = "right_half t key v" and ?kvs = "snd (leaf_of t key)"
  let ?p = "disk s (page_off q)"
  note f = fs_okD [OF ok] and lf = leaf_ok [OF ok, of key, folded q_def] and hv = halves [OF full, of v]
  note qf = f(9) [OF lf(1)] and lp = leaf_pageD [OF lf(2)] and nf = next_free_bound [OF f(1,2)]
  obtain s1 where s1: "bfs_alloc_page s = (n, s1)" "dev_ok s1" "space_ok s1" "unat (next_free s1) = Suc (unat n)"
    "unat (free_pages s1) = unat (free_pages s) - 1" "root_page s1 = root_page s" "file_count s1 = file_count s"
    "keeps s s1 {}" "n < total_pages s" "disk s1 0 = trunc (root_buf s1)" "n \<noteq> 0"
    "\<And>p. p < n \<Longrightarrow> p \<noteq> 0 \<Longrightarrow> disk s1 (page_off p) = disk s (page_off p)"
    using alloc_page_effect [OF f(1,2) free] unfolding n_def by metis
  define L where "L = set_next n (set_values (map snd ?l) (set_keys (map fst ?l) (set_count (of_nat (length ?l)) ?p)))"
  define R where "R = new_node 0 (of_nat (length ?r)) (p_next ?p) (p_parent ?p) (map fst ?r) (map snd ?r)"
  note L = leaf_left_half [OF lp(1), of ?l n, folded L_def]
  have R: "leaf_page R ?r" "p_parent R = p_parent ?p" "p_key R 0 = fst (hd ?r)"
  proof -
    show "leaf_page R ?r" unfolding R_def by (rule leaf_new_node) (simp_all add: hv(3))
    show "p_parent R = p_parent ?p" using new_node_words(1) [of "map fst ?r"] hv(3) by (simp add: R_def p_parent_def)
    have "R 3 = map fst ?r ! 0" using new_node_words(2) [of "map fst ?r" 0] hv(3) by (simp add: R_def)
    then show "p_key R 0 = fst (hd ?r)" using hv(5) by (simp add: hd_conv_nth nth_map)
  qed
  have tot: "total_pages s1 = total_pages s" using s1(8) by (simp add: keeps_def)
  have n32: "unat n < 4294967296" using nf(1) by (simp add: n_def)
  have qn: "q \<noteq> n" using qf by (auto simp: n_def)
  define s3 where "s3 = put n R (put q L s1)"
  have tmp: "keys_of ?p 0 (pos (map fst ?kvs) key) @ [key] @ keys_of ?p (pos (map fst ?kvs) key) 127 = map fst (merged t key v)"
    "values_of ?p 0 (pos (map fst ?kvs) key) @ [v] @ values_of ?p (pos (map fst ?kvs) key) 127 = map snd (merged t key v)"
    using leaf_arrays [OF lf(2)] pos_le [of "map fst ?kvs" key] full
    by (simp_all add: merged_def Let_def take_map drop_map)
  have Lx: "L = set_next n (set_values (take 64 (map snd (merged t key v))) (set_keys (take 64 (map fst (merged t key v))) (set_count 64 ?p)))"
    unfolding L_def using hv(2) by (simp add: left_half_def take_map)
  have Rx: "R = new_node 0 64 (p_next ?p) (p_parent ?p) (drop 64 (map fst (merged t key v))) (drop 64 (map snd (merged t key v)))"
    unfolding R_def using hv(3) by (simp add: right_half_def drop_map)
  have w: "bfs_raw_write q L s1 = put q L s1" "bfs_raw_write n R (put q L s1) = s3"
    using page_ops(4) [OF s1(2), of q L] page_ops(4) [of "put q L s1" n R] s1(2,9) tot qf by (simp_all add: s3_def)
  have cnt: "unat (p_count ?p) = 127" using lp(3) full by simp
  have "bfs_insert key v s = bfs_insert_in_parent q (p_key R 0) n s3"
    using search_ok [OF ok, of key] absent page_ops(2) [OF f(1), of q] qf
    by (simp add: bfs_insert_def q_def [symmetric] Let_def BFS_MAX_KEYS_def cnt tmp [simplified] s1(1,11) lp(1)
        Lx [symmetric] Rx [symmetric] w del: key_word0 drop_append take_append)
  then have "bfs_insert key v s = bfs_insert_in_parent q (fst (hd ?r)) n s3" unfolding R(3) .
  moreover have d3: "disk s3 (page_off x) = disk s1 (page_off x)" if "x \<noteq> q" "x < n" for x
    using that qf n32 by (auto simp: s3_def disk_put_apply word_less_nat_alt)
  have "disk s3 (page_off x) = disk s (page_off x)" if "x < next_free s" "x \<noteq> 0" "x \<notin> set (pages t)" for x
    using that d3 [of x] s1(12) [of x] lf(1) by (auto simp: n_def)
  then have "keeps s s3 (set (pages t))" using s1(8) by (simp add: keeps_def s3_def)
  moreover have "leaf_page (disk s3 (page_off q)) ?l" "leaf_page (disk s3 (page_off n)) ?r"
    "p_parent (disk s3 (page_off q)) = p_parent ?p" "p_parent (disk s3 (page_off n)) = p_parent ?p"
    using L R qf n32 qn hv by (simp_all add: s3_def disk_put_apply)
  moreover have "\<forall>x. x \<noteq> 0 \<and> x \<noteq> q \<and> x < n \<longrightarrow> disk s3 (page_off x) = disk s (page_off x)" using d3 s1(12) by simp
  moreover have "disk s3 0 = trunc (root_buf s3)"
    using s1(10,11) qf n32 disk_put_apply [of n 0 R "put q L s1"] disk_put_apply [of q 0 L s1] by (auto simp: s3_def)
  moreover have "n \<noteq> 2" using nf(3) by (auto simp: n_def)
  ultimately show thesis
    by (intro that [of s3]) (use s1 tot in \<open>simp_all add: s3_def space_ok_def\<close>)
qed

section \<open>The separator in the parent\<close>

lemma parent_node:
  assumes "ordered lo hi t" and "is_node t" and "tree_on d par h t"
  shows "\<exists>g ks cs. node_page (d (page_off (fst (parent_of t key)))) (Suc g) ks cs \<and> length ks = snd (parent_of t key)"
  using assms
proof (induction arbitrary: par h rule: path_induct [where key = key])
  case (parent lo hi p ks ts p' kvs)
  then show ?case by auto
next
  case (step lo hi p ks ts p' ks' ts')
  obtain g where "tree_on d p g (ts ! pos ks key)" by (rule tree_on_child [OF step(7,2)])
  then show ?case using step(2,4,5) by simp
qed simp

lemma set_parent_page [simp]:
  "leaf_page (set_parent q p) kvs = leaf_page p kvs" "p_parent (set_parent q p) = q"
proof -
  have "p_level (set_parent q p) = p_level p" "p_count (set_parent q p) = p_count p"
    using head_cong [of "set_parent q p" p] by (simp_all add: set_parent_def)
  then show "leaf_page (set_parent q p) kvs = leaf_page p kvs" by (simp add: leaf_page_def)
  show "p_parent (set_parent q p) = q" by (simp add: p_parent_def)
qed

lemma set_parent_of_put:
  assumes "dev_ok s" and "c < total_pages s"
  shows "set_parent_of c q s = put c (set_parent q (disk s (page_off c))) s"
  using page_ops(2,4) [OF assms] by (simp add: set_parent_of_def)

text \<open>The new entry in the halves of the leaf.\<close>

lemma merged_ok:
  assumes ok: "fs_ok s t h" and absent: "map_of (entries t) key = None"
  shows "sorted_wrt (<) (map fst (merged t key v))"
    and "map_of (entries (upd t key (merged t key v))) = (map_of (entries t))(key \<mapsto> v)"
    and "fst ` set (merged t key v) \<subseteq> insert key (fst ` set (snd (leaf_of t key)))"
proof -
  let ?kvs = "snd (leaf_of t key)"
  have k: "key \<notin> fst ` set ?kvs" using absent lookup_leaf [OF ok] by (simp add: map_of_eq_None_iff)
  show s: "sorted_wrt (<) (map fst (merged t key v))"
    unfolding merged_def Let_def by (rule sorted_insert [OF leaf_ok(3) [OF ok] k refl])
  show sub: "fst ` set (merged t key v) \<subseteq> insert key (fst ` set ?kvs)"
    by (auto simp: merged_def Let_def dest: in_set_takeD in_set_dropD)
  have m: "map_of (merged t key v) = (map_of ?kvs)(key \<mapsto> v)"
    unfolding merged_def Let_def by (rule map_of_insert [OF k])
  have "ordered 0 (2 ^ 64) (upd t key (merged t key v))"
    by (rule ordered_upd [OF fs_okD(4) [OF ok] _ _ s sub]) simp_all
  then show "map_of (entries (upd t key (merged t key v))) = (map_of (entries t))(key \<mapsto> v)"
    by (rule upd_map [OF ok _ m])
qed

lemma insert_split_parent:
  assumes ok: "fs_ok s t h" and absent: "map_of (entries t) key = None" and full: "length (snd (leaf_of t key)) = 127"
    and nd: "is_node t" and room: "snd (parent_of t key) < BFS_INTERNAL_MAX_KEYS" and free: "free_pages s \<noteq> 0"
  shows "\<exists>s' t'. bfs_insert key v s = Some (0, s') \<and> inserted s t key v s' t' h"
proof -
  define q where "q = fst (leaf_of t key)"
  define n where "n = next_free s"
  define pp where "pp = fst (parent_of t key)"
  let ?l = "left_half t key v" and ?r = "right_half t key v"
  let ?sep = "fst (hd ?r)" and ?t = "split_at t key ?l n ?r"
  note f = fs_okD [OF ok] and lf = leaf_ok [OF ok, of key, folded q_def] and hv = halves [OF full, of v]
  obtain s1 where run: "bfs_insert key v s = bfs_insert_in_parent q ?sep n s1"
    and s1: "dev_ok s1" "space_ok s1" "disk s1 0 = trunc (root_buf s1)" "unat (next_free s1) = Suc (unat n)"
      "root_page s1 = root_page s" "file_count s1 = file_count s" "keeps s s1 (set (pages t))" "total_pages s1 = total_pages s"
    and d1: "leaf_page (disk s1 (page_off q)) ?l" "leaf_page (disk s1 (page_off n)) ?r"
      "p_parent (disk s1 (page_off q)) = p_parent (disk s (page_off q))"
      "\<forall>x. x \<noteq> 0 \<and> x \<noteq> q \<and> x < n \<longrightarrow> disk s1 (page_off x) = disk s (page_off x)"
    and n: "n \<noteq> 0" "n \<noteq> 2" "n < total_pages s"
    by (rule split_leaf [OF ok absent full free, of v, folded q_def n_def]) (rule that)
  have ppin: "pp \<in> set (pages t)" using parent_page [OF f(4) nd] by (simp add: pp_def)
  note pf = f(9) [OF ppin] and qf = f(9) [OF lf(1)]
  have par: "p_parent (disk s (page_off q)) = pp" using leaf_parent [OF f(4) nd f(5)] by (simp add: q_def pp_def)
  obtain g ks cs where np: "node_page (disk s (page_off pp)) (Suc g) ks cs" "length ks = snd (parent_of t key)"
    using parent_node [OF f(4) nd f(5), of key, folded pp_def] by blast
  then have cnt: "unat (p_count (disk s (page_off pp))) < BFS_INTERNAL_MAX_KEYS" using room by (simp add: node_page_def)
  have ppq: "pp \<noteq> q" using np(1) leaf_pageD(1) [OF lf(2)] by (auto simp: node_page_def)
  have ppn: "pp < n" "pp \<noteq> n" and qn: "q < n" "q \<noteq> n" using pf qf by (auto simp: n_def)
  have n32: "unat n < 4294967296" using next_free_bound(1) [OF f(1,2)] by (simp add: n_def)
  have dpp: "disk s1 (page_off pp) = disk s (page_off pp)" using d1(4) ppq ppn pf by blast
  define P where "P = insert_in_node (disk s (page_off pp)) ?sep n"
  define s2 where "s2 = put n (set_parent pp (disk s1 (page_off n))) (put pp P s1)"
  have "bfs_insert_in_parent q ?sep n s1 = Some (0, s2)"
    using page_ops(2,4) [OF s1(1), unfolded s1(8)] set_parent_of_put [of "put pp P s1" n pp] s1(1,8) qf pf n cnt d1(3) par dpp ppn n32
    by (subst bfs_insert_in_parent.simps) (simp add: Let_def P_def s2_def disk_put_apply)
  moreover have "inserted s t key v s2 ?t h"
  proof -
    have d2: "disk s2 (page_off x) = (if x = n then trunc (set_parent pp (disk s1 (page_off n))) else if x = pp then trunc P else disk s1 (page_off x))"
      if "unat x < 4294967296" for x using that pf n32 by (simp add: s2_def disk_put_apply)
    have srt: "sorted_wrt (<) (map fst (?l @ ?r))" and sub: "fst ` set (?l @ ?r) \<subseteq> insert key (fst ` set (snd (leaf_of t key)))"
      using merged_ok [OF ok absent] hv(4) by metis+
    have o: "ordered 0 (2 ^ 64) ?t" by (rule ordered_split [OF f(4) nd _ _ srt hv(5) sub]) simp_all
    have e: "map_of (entries ?t) = (map_of (entries t))(key \<mapsto> v)"
      using split_entries [OF f(4) nd, of key ?l n ?r] merged_ok(2) [OF ok absent, of v] hv(4) by simp
    have on: "tree_on (disk s2) 0 h ?t"
    proof (rule tree_on_split [OF f(4) nd f(5,8) _ _ hv(7) room], unfold q_def [symmetric] pp_def [symmetric])
      show "\<forall>x \<in> set (pages t). x \<noteq> q \<and> x \<noteq> pp \<longrightarrow> disk s2 (page_off x) = disk s (page_off x)"
        using f(9) d1(4) d2 by (auto simp: n_def)
      show "node_with ?sep n (disk s (page_off pp)) (disk s2 (page_off pp))"
        using node_insert [of ?sep n "disk s (page_off pp)", folded P_def] d2 [of pp] pf ppn by (simp add: node_with_def)
    qed (use d1 d2 qf n32 par ppq qn in simp_all)
    have "n \<notin> set (pages t)" using f(9) [of n] by (auto simp: n_def)
    then have ps: "set (pages ?t) = insert n (set (pages t))" "distinct (pages ?t)"
      using split_pages_set [OF f(4) nd] f(8) by blast+
    have nlt: "n < next_free s1" using s1(4) by (simp add: word_less_nat_alt)
    have tok: "tree_ok s2 ?t h"
      using ok o on ps n nlt s1(5) by (auto simp: fs_ok_def tree_ok_def BFS_NAME_TABLE_PAGE_def s2_def n_def dest: less_trans)
    have "disk s2 0 = trunc (root_buf s2)" using d2 [of 0] s1(3) n(1) pf by (auto simp: s2_def)
    then have fs: "fs_ok s2 ?t h" using tok s1(1,2) by (simp add: fs_ok_def s2_def space_ok_def)
    have "disk s2 (page_off x) = disk s (page_off x)" if x: "x < next_free s" "x \<noteq> 0" "x \<notin> set (pages t)" for x
    proof -
      have "unat x < 4294967296" using x(1) n32 by (simp add: word_less_nat_alt n_def)
      then show ?thesis using x d2 [of x] d1(4) ppin lf(1) by (auto simp: n_def)
    qed
    then have k: "keeps s s2 (set (pages t))" using s1(7) by (simp add: keeps_def s2_def)
    show ?thesis unfolding inserted_def
      using fs e k ps s1(4,6) by (simp add: s2_def n_def)
  qed
  ultimately show ?thesis using run by auto
qed

section \<open>A new root\<close>

text \<open>The root page over the two halves.\<close>

lemma root_node:
  assumes "lvl = 1"
  shows "node_page (new_node lvl 1 0 0 [k] [a, b]) 1 [k] [a, b]" and "p_parent (new_node lvl 1 0 0 [k] [a, b]) = 0"
proof -
  let ?p = "new_node lvl 1 0 0 [k] [a, b]"
  note w = new_node_words [of "[k]"]
  have w': "?p 3 = k" "?p 130 = a" "?p 131 = b" using w(2) [of 0] w(3) [of 0 "[a, b]"] w(3) [of 1 "[a, b]"] by simp_all
  show "node_page ?p 1 [k] [a, b]"
    using w' assms w(4,5) by (auto simp: node_page_def less_Suc_eq BFS_INTERNAL_MAX_KEYS_def BFS_MAX_KEYS_def)
  show "p_parent ?p = 0" using w(1) by (simp add: p_parent_def)
qed

lemma ordered_parts:
  assumes "sorted_wrt (<) (map fst (l @ r))" and "r \<noteq> []"
  shows "sorted_wrt (<) (map fst l)" "sorted_wrt (<) (map fst r)" "k \<in> fst ` set l \<Longrightarrow> unat k < unat (fst (hd r))"
    "k \<in> fst ` set r \<Longrightarrow> unat (fst (hd r)) \<le> unat k"
proof -
  obtain x xs where r: "r = x # xs" using assms(2) by (cases r) auto
  show "sorted_wrt (<) (map fst l)" "sorted_wrt (<) (map fst r)" using assms(1) by (simp_all add: sorted_wrt_append)
  show "k \<in> fst ` set l \<Longrightarrow> unat k < unat (fst (hd r))"
    using assms(1) by (auto simp: sorted_wrt_append r word_less_nat_alt)
  show "k \<in> fst ` set r \<Longrightarrow> unat (fst (hd r)) \<le> unat k"
    using assms(1) by (auto simp: sorted_wrt_append r word_less_nat_alt)
qed

lemma insert_new_root:
  assumes ok: "fs_ok s t h" and absent: "map_of (entries t) key = None" and full: "length (snd (leaf_of t key)) = 127"
    and nd: "\<not> is_node t" and free: "2 \<le> unat (free_pages s)"
  shows "\<exists>s' t'. bfs_insert key v s = Some (0, s') \<and> inserted s t key v s' t' 1"
proof -
  define q where "q = fst (leaf_of t key)"
  define n where "n = next_free s"
  obtain kvs where t: "t = Leaf q kvs" using nd by (cases t) (simp_all add: q_def)
  let ?l = "left_half t key v" and ?r = "right_half t key v"
  let ?sep = "fst (hd ?r)"
  note f = fs_okD [OF ok] and lf = leaf_ok [OF ok, of key, folded q_def] and hv = halves [OF full, of v]
  have "free_pages s \<noteq> 0" using free by auto
  note sl = split_leaf [OF ok absent full this, of v, folded q_def n_def]
  obtain s1 where run: "bfs_insert key v s = bfs_insert_in_parent q ?sep n s1"
    and s1: "dev_ok s1" "space_ok s1" "unat (next_free s1) = Suc (unat n)" "unat (free_pages s1) = unat (free_pages s) - 1"
      "file_count s1 = file_count s" "keeps s s1 (set (pages t))" "total_pages s1 = total_pages s"
    and d1: "leaf_page (disk s1 (page_off q)) ?l" "leaf_page (disk s1 (page_off n)) ?r"
      "p_parent (disk s1 (page_off q)) = p_parent (disk s (page_off q))"
      "\<forall>x. x \<noteq> 0 \<and> x \<noteq> q \<and> x < n \<longrightarrow> disk s1 (page_off x) = disk s (page_off x)"
    and n: "n \<noteq> 0" "n \<noteq> 2" "n < total_pages s"
    by (rule sl) (rule that)
  have "free_pages s1 \<noteq> 0" using s1(4) free by auto
  then obtain s2 where s2: "bfs_alloc_page s1 = (next_free s1, s2)" "dev_ok s2" "space_ok s2"
    "unat (next_free s2) = Suc (unat (next_free s1))" "file_count s2 = file_count s1" "keeps s1 s2 {}"
    "next_free s1 < total_pages s1" "next_free s1 \<noteq> 0"
    "\<And>p. p < next_free s1 \<Longrightarrow> p \<noteq> 0 \<Longrightarrow> disk s2 (page_off p) = disk s1 (page_off p)"
    using alloc_page_effect [OF s1(1,2)] by metis
  define m where "m = next_free s1"
  note qf = f(9) [OF lf(1)]
  have par: "p_parent (disk s (page_off q)) = 0" "h = 0" using f(5) by (simp_all add: t)
  have qn: "q < n" using qf by (simp add: n_def)
  have nm: "n < m" "q < m" using s1(3) qn by (auto simp: word_less_nat_alt m_def)
  have m32: "unat m < 4294967296" "unat n < 4294967296" using next_free_bound(1) [OF s1(1,2)] nm by (simp_all add: word_less_nat_alt m_def)
  have tot: "total_pages s2 = total_pages s" using s2(6) s1(7) by (simp add: keeps_def)
  define R where "R = new_node 1 1 0 0 [?sep] [q, n]"
  define s3 where "s3 = put n (set_parent m (disk s2 (page_off n))) (put q (set_parent m (disk s2 (page_off q))) (put m R s2))"
  define s4 where "s4 = put 0 (root_buf (set_root 1 m s3)) (set_root 1 m s3)"
  have lev: "p_level (disk s1 (page_off q)) = 0" using leaf_pageD(1) [OF d1(1)] .
  have in1: "q < total_pages s1" "n < total_pages s1" "m < total_pages s1" and in2: "q < total_pages s2" "n < total_pages s2" "m < total_pages s2"
    using qf n s2(7) s1(7) tot by (simp_all add: m_def)
  have w: "bfs_raw_write m R s2 = put m R s2" "set_parent_of q m (put m R s2) = put q (set_parent m (disk s2 (page_off q))) (put m R s2)"
    "set_parent_of n m (put q (set_parent m (disk s2 (page_off q))) (put m R s2)) = s3"
    using page_ops(4) [OF s2(2) in2(3)] set_parent_of_put [of "put m R s2" q m]
      set_parent_of_put [of "put q (set_parent m (disk s2 (page_off q))) (put m R s2)" n m] s2(2) in2 qf qn nm m32
    by (auto simp: s3_def disk_put_apply)
  have fl: "bfs_flush_root (set_root 1 m s3) = s4"
    unfolding s4_def by (rule flush_put) (use s2(2) tot f(12) in \<open>simp_all add: s3_def\<close>)
  have "bfs_insert_in_parent q ?sep n s1 = Some (0, s4)"
    using page_ops(2) [OF s1(1) in1(1)] d1(3) par(1) lev s2(1,8) w fl
    by (subst bfs_insert_in_parent.simps) (simp add: new_root_def m_def [symmetric] R_def [symmetric])
  moreover have "inserted s t key v s4 (Node m [?sep] [Leaf q ?l, Leaf n ?r]) 1"
  proof -
    let ?t = "Node m [?sep] [Leaf q ?l, Leaf n ?r]"
    have d4: "disk s4 (page_off x) = (if x = 0 then trunc (root_buf s4) else if x = n then trunc (set_parent m (disk s2 (page_off n)))
        else if x = q then trunc (set_parent m (disk s2 (page_off q))) else if x = m then trunc R else disk s2 (page_off x))"
      if "unat x < 4294967296" for x
      using that m32 qf by (simp add: s4_def s3_def disk_put_apply [of 0, simplified] disk_put_apply)
    have dd: "disk s2 (page_off q) = disk s1 (page_off q)" "disk s2 (page_off n) = disk s1 (page_off n)"
      using s2(9) [of q] s2(9) [of n] nm qf n(1) by (simp_all add: m_def)
    have srt: "sorted_wrt (<) (map fst (?l @ ?r))" using merged_ok [OF ok absent] hv(4) by metis
    have o: "ordered 0 (2 ^ 64) ?t"
      using ordered_parts [OF srt hv(5)] less_imp_le [OF key_bounds [of ?sep]] by (auto simp: less_Suc_eq)
    have e: "map_of (entries ?t) = (map_of (entries t))(key \<mapsto> v)"
      using merged_ok(2) [OF ok absent, of v] hv(4) by (simp add: t)
    have on: "tree_on (disk s4) 0 1 ?t"
      using d4 [of m] d4 [of q] d4 [of n] root_node [OF refl, of ?sep q n, folded R_def] m32 qf qn nm n(1) d1 dd s2(8)
      by (auto simp: m_def)
    have up: "m < next_free s2" "next_free s \<le> n" "next_free s \<le> m" "unat (next_free s2) = Suc (Suc (unat n))"
      using s2(4) s1(3) by (simp_all add: word_less_nat_alt word_le_nat_alt m_def n_def)
    have "q \<noteq> 2" using ok by (auto simp: fs_ok_def tree_ok_def t BFS_NAME_TABLE_PAGE_def)
    moreover have "(3 :: u64) \<le> m" using order_trans [OF next_free_bound(3) [OF f(1,2)] up(3)] .
    then have "m \<noteq> 2" by auto
    ultimately have tok: "tree_ok s4 ?t 1"
      using o on n qf qn nm up(1) s2(8)
      by (auto simp: tree_ok_def BFS_NAME_TABLE_PAGE_def s4_def s3_def m_def [symmetric] dest: less_trans)
    have fs: "fs_ok s4 ?t 1"
      using tok d4 [of 0] s2(2,3) by (simp add: fs_ok_def space_ok_def s4_def s3_def)
    have "disk s4 (page_off x) = disk s (page_off x)" if x: "x < next_free s" "x \<noteq> 0" "x \<notin> set (pages t)" for x
    proof -
      have "x < n" "x < m" "unat x < 4294967296" using x(1) nm m32 by (auto simp: word_less_nat_alt n_def)
      then show ?thesis using x(2,3) d4 [of x] d1(4) s2(9) [of x] by (auto simp: t m_def)
    qed
    moreover have "same_dev s s2" "name_buf s2 = name_buf s" using s1(6) s2(6) same_dev_trans by (auto simp: keeps_def)
    ultimately have k: "keeps s s4 (set (pages t))"
      using tot up(4) by (simp add: keeps_def s4_def s3_def word_le_nat_alt n_def)
    show ?thesis unfolding inserted_def
      using fs e k up s2(5) s1(5) by (simp add: s4_def s3_def n_def t)
  qed
  ultimately show ?thesis using run by auto
qed

section \<open>Insertion\<close>

text \<open>
  The room insertion needs for a key on a device with \<open>free\<close> free pages: none if the key is there, an entry in its leaf, or an entry in
  the parent of the leaf and a free page, or two free pages if the leaf is the root.
\<close>

definition has_room :: "nat \<Rightarrow> btree \<Rightarrow> u64 \<Rightarrow> bool" where
  "has_room free t key \<longleftrightarrow> map_of (entries t) key \<noteq> None \<or> length (snd (leaf_of t key)) < BFS_MAX_KEYS \<or>
     (if is_node t then snd (parent_of t key) < BFS_INTERNAL_MAX_KEYS \<and> 0 < free else 2 \<le> free)"

lemma insert_inserted:
  assumes ok: "fs_ok s t h" and room: "has_room (unat (free_pages s)) t key"
  obtains s' t' h' where "bfs_insert key v s = Some (0, s')" "inserted s t key v s' t' h'"
proof (cases "map_of (entries t) key")
  case (Some w)
  then show thesis using insert_present [OF ok] that by blast
next
  case None
  show thesis
  proof (cases "length (snd (leaf_of t key)) < BFS_MAX_KEYS")
    case True
    then show thesis using insert_room [OF ok None] that by blast
  next
    case False
    then have "length (snd (leaf_of t key)) = 127" using leaf_pageD(2) [OF leaf_ok(2) [OF ok, of key]] by (simp add: BFS_MAX_KEYS_def)
    then show thesis
      using insert_split_parent [OF ok None, of v] insert_new_root [OF ok None, of v] room None False that
      by (cases "is_node t") (auto simp: has_room_def unat_gt_0)
  qed
qed

end
