(* ===== verification/BFS_Blocks.thy ===== *)
theory BFS_Blocks
  imports BFS_Grow
begin

text \<open>
  The blocks of files: bytes of a page, the loops that read and write the pages of a file, the
  allocation of a run of pages, and the name table, which lives on its own page.
\<close>

section \<open>Bytes\<close>

lemma byte_mask: "(0xFF :: u64) = mask 8"
  by (simp add: mask_eq_exp_minus_1)

lemma get_put_byte: "get_byte (put_byte j b p) i = (if i = j then b else get_byte p i)"
proof (cases "i div 8 = j div 8")
  case True
  show ?thesis
  proof (rule bit_word_eqI)
    fix n assume n: "n < LENGTH(8)"
    have ne: "i \<noteq> j \<Longrightarrow> i mod 8 \<noteq> j mod 8" using True by (metis div_mod_decomp)
    have lt: "i mod 8 < 8" "j mod 8 < 8" by simp_all
    show "bit (get_byte (put_byte j b p) i) n \<longleftrightarrow> bit (if i = j then b else get_byte p i) n"
    proof (cases "i = j")
      case True
      then show ?thesis using n lt
        by (auto simp: get_byte_def put_byte_def [unfolded byte_mask] bit_simps)
    next
      case False
      then have "i mod 8 < j mod 8 \<or> j mod 8 < i mod 8" using ne by linarith
      then show ?thesis using n lt False \<open>i div 8 = j div 8\<close>
        by (auto simp: get_byte_def put_byte_def [unfolded byte_mask] bit_simps dest: bit_imp_le_length)
    qed
  qed
next
  case False
  then show ?thesis by (auto simp: get_byte_def put_byte_def)
qed

lemma get_put_bytes: "get_byte (put_bytes j bs p) i = (if j \<le> i \<and> i < j + length bs then bs ! (i - j) else get_byte p i)"
proof (induction j bs p rule: put_bytes.induct)
  case (2 j b bs p)
  show ?case using 2 by (auto simp: get_put_byte nth_Cons')
qed auto

lemma get_byte_trunc [simp]: "i < 4096 \<Longrightarrow> get_byte (trunc p) i = get_byte p i"
  by (simp add: get_byte_def)

section \<open>The pages of a file\<close>

definition blocks :: "nat \<Rightarrow> nat" where "blocks len = (len + 4095) div 4096"

lemma blocks_simps [simp]: "blocks 0 = 0" "blocks len = 0 \<longleftrightarrow> len = 0"
  by (auto simp: blocks_def)

lemma blocks_step: "0 < len \<Longrightarrow> blocks len = Suc (blocks (len - (if len > 4096 then 4096 else len)))"
  by (auto simp: blocks_def)

lemma blocks_mono: "a \<le> b \<Longrightarrow> blocks a \<le> blocks b"
  by (simp add: blocks_def div_le_mono)

lemma div_blocks: "i < len \<Longrightarrow> i div 4096 < blocks len"
  by (simp add: blocks_def)

lemma blocks_for_nat:
  assumes "unat sz < 4294967296"
  shows "unat (blocks_for sz) = blocks (unat sz)"
  using assms by (simp add: blocks_for_def blocks_def BFS_PAGE_SIZE_def unat_div unat_word_ariths)

text \<open>The bytes of the pages from \<open>n\<close>.\<close>

definition bytes_at :: "(u64 \<Rightarrow> page) \<Rightarrow> u64 \<Rightarrow> nat \<Rightarrow> u8 list" where
  "bytes_at d n len = map (\<lambda>i. get_byte (d (page_off (n + of_nat (i div 4096)))) (i mod 4096)) [0..<len]"

lemma bytes_at_length [simp]: "length (bytes_at d n len) = len"
  by (simp add: bytes_at_def)

lemma bytes_at_step:
  assumes "0 < len" and "c = (if len > 4096 then 4096 else len)"
  shows "bytes_at d n len = map (get_byte (d (page_off n))) [0..<c] @ bytes_at d (n + 1) (len - c)"
proof (rule nth_equalityI)
  show "length (bytes_at d n len) = length (map (get_byte (d (page_off n))) [0..<c] @ bytes_at d (n + 1) (len - c))"
    using assms by auto
  fix i assume "i < length (bytes_at d n len)"
  then have i: "i < len" by simp
  show "bytes_at d n len ! i = (map (get_byte (d (page_off n))) [0..<c] @ bytes_at d (n + 1) (len - c)) ! i"
  proof (cases "i < 4096")
    case True
    then have "i < c" using i assms(2) by simp
    then show ?thesis using i True by (simp add: bytes_at_def nth_append)
  next
    case False
    then have c: "c = 4096" using i assms(2) by simp
    define j where "j = i - 4096"
    have j: "i = 4096 + j" using False by (simp add: j_def)
    have "i div 4096 = Suc (j div 4096)" "i mod 4096 = j mod 4096" unfolding j by simp_all
    then show ?thesis using i False j by (simp add: c bytes_at_def nth_append add.assoc)
  qed
qed

lemma bytes_at_cong:
  assumes "\<And>m. m < blocks len \<Longrightarrow> d' (page_off (n + of_nat m)) = d (page_off (n + of_nat m))"
  shows "bytes_at d' n len = bytes_at d n len"
  using assms div_blocks by (simp add: bytes_at_def)

lemma read_blocks_bytes:
  assumes "dev_ok s" and "unat n + blocks len \<le> unat (total_pages s)"
  shows "read_blocks s n len = Some (bytes_at (disk s) n len)"
  using assms
proof (induction s n len rule: read_blocks.induct)
  case (1 s n len)
  show ?case
  proof (cases "len = 0")
    case True
    then show ?thesis by (simp add: read_blocks.simps bytes_at_def)
  next
    case False
    define c where "c = (if len > 4096 then 4096 else len)"
    have b: "blocks len = Suc (blocks (len - c))" using blocks_step [of len] False by (simp add: c_def)
    then have n: "n < total_pages s" using "1.prems"(2) by (simp add: word_less_nat_alt)
    have tot: "unat (total_pages s) < 4294967296" using "1.prems"(1) by (simp add: dev_ok_def)
    then have "unat (n + 1) = Suc (unat n)" using n by (simp add: unat_word_ariths word_less_nat_alt)
    then have ih: "read_blocks s (n + 1) (len - c) = Some (bytes_at (disk s) (n + 1) (len - c))"
      using "1.IH" [OF False page_ops(1) [OF "1.prems"(1) n] c_def "1.prems"(1)] b "1.prems"(2) by simp
    show ?thesis
      using False page_ops(1) [OF "1.prems"(1) n] ih bytes_at_step [OF _ c_def]
      by (subst read_blocks.simps) (simp add: c_def [symmetric])
  qed
qed

section \<open>Writing the pages of a file\<close>

lemma range_apart:
  assumes "unat n + m < 4294967296"
  shows "unat (n + of_nat m :: u64) = unat n + m"
  using assms by (simp add: unat_word_ariths unat_of_nat)

lemma write_blocks_effect:
  assumes "dev_ok s" and "unat n + blocks (length bs) \<le> unat (total_pages s)"
  obtains d where "write_blocks n bs s = s\<lparr>disk := d\<rparr>" "bytes_at d n (length bs) = bs"
    "\<forall>p. unat p < 4294967296 \<and> unat p \<notin> {unat n..<unat n + blocks (length bs)} \<longrightarrow> d (page_off p) = disk s (page_off p)"
proof -
  have "\<exists>d. write_blocks n bs s = s\<lparr>disk := d\<rparr> \<and> bytes_at d n (length bs) = bs \<and>
      (\<forall>p. unat p < 4294967296 \<and> unat p \<notin> {unat n..<unat n + blocks (length bs)} \<longrightarrow> d (page_off p) = disk s (page_off p))"
    using assms
  proof (induction n bs s rule: write_blocks.induct)
    case (1 n bs s)
    show ?case
    proof (cases "bs = []")
      case True
      then show ?thesis by (intro exI [of _ "disk s"]) (simp add: write_blocks.simps bytes_at_def)
    next
      case False
      define c where "c = (if length bs > 4096 then 4096 else length bs)"
      define pg where "pg = put_bytes 0 (take 4096 bs) zero_page"
      have b: "blocks (length bs) = Suc (blocks (length bs - 4096))"
        using blocks_step [of "length bs"] False by (auto split: if_splits)
      then have n: "n < total_pages s" using "1.prems"(2) by (simp add: word_less_nat_alt)
      have tot: "unat (total_pages s) < 4294967296" using "1.prems"(1) by (simp add: dev_ok_def)
      then have un: "unat (n + 1) = Suc (unat n)" "unat n < 4294967296"
        using n by (simp_all add: unat_word_ariths word_less_nat_alt)
      have w: "bfs_write_page n pg s = put n pg s" using page_ops(3) [OF "1.prems"(1) n] .
      obtain d where d: "write_blocks (n + 1) (drop 4096 bs) (put n pg s) = (put n pg s)\<lparr>disk := d\<rparr>"
        "bytes_at d (n + 1) (length bs - 4096) = drop 4096 bs"
        "\<forall>p. unat p < 4294967296 \<and> unat p \<notin> {Suc (unat n)..<Suc (unat n) + blocks (length bs - 4096)} \<longrightarrow>
           d (page_off p) = disk (put n pg s) (page_off p)"
        using "1.IH" [OF False, folded pg_def, unfolded w] "1.prems" b un(1) by auto
      have run: "write_blocks n bs s = s\<lparr>disk := d\<rparr>"
        using False w d(1) by (subst write_blocks.simps) (simp add: pg_def put_def)
      have "d (page_off n) = trunc pg" using d(3) un(2) by (simp add: disk_put)
      then have "map (get_byte (d (page_off n))) [0..<c] = take 4096 bs"
        by (auto intro!: nth_equalityI simp: c_def pg_def get_put_bytes)
      moreover have "length bs - c = length bs - 4096" by (simp add: c_def)
      ultimately have bytes: "bytes_at d n (length bs) = bs" using bytes_at_step [OF _ c_def, of d n] False d(2) by simp
      have "d (page_off p) = disk s (page_off p)" if p: "unat p < 4294967296" "unat p \<notin> {unat n..<unat n + blocks (length bs)}" for p
      proof -
        have "p \<noteq> n" "unat p \<notin> {Suc (unat n)..<Suc (unat n) + blocks (length bs - 4096)}" using p(2) b by auto
        then show ?thesis using d(3) p(1) un(2) by (simp add: disk_put_apply)
      qed
      then show ?thesis using run bytes by blast
    qed
  qed
  then show thesis using that by blast
qed

section \<open>Allocating a run of pages\<close>

text \<open>The superblock on the device is the one in memory.\<close>

definition base_ok :: "bfs_instance \<Rightarrow> bool" where
  "base_ok s \<longleftrightarrow> dev_ok s \<and> space_ok s \<and> disk s 0 = trunc (root_buf s)"

lemma fs_ok_base: "fs_ok s t h \<longleftrightarrow> base_ok s \<and> tree_ok s t h"
  by (auto simp: fs_ok_def base_ok_def)

lemma fresh_run:
  assumes "dev_ok s" and "unat n + m \<le> unat (total_pages s)" and "n \<noteq> 0"
  obtains d where "for_range 0 m (\<lambda>i. bfs_write_page (n + of_nat i) fresh_page) s = s\<lparr>disk := d\<rparr>"
    "\<forall>p. unat p < unat n \<longrightarrow> d (page_off p) = disk s (page_off p)"
proof -
  have tot: "unat (total_pages s) < 4294967296" using assms(1) by (simp add: dev_ok_def)
  define P where "P = (\<lambda>(i :: nat) s'. \<exists>d. s' = s\<lparr>disk := d\<rparr> \<and> (\<forall>p. unat p < unat n \<longrightarrow> d (page_off p) = disk s (page_off p)))"
  have "P m (for_range 0 m (\<lambda>i. bfs_write_page (n + of_nat i) fresh_page) s)"
  proof (rule for_range_rule)
    show "P 0 s" unfolding P_def by (intro exI [of _ "disk s"]) simp
    fix i s' assume i: "i < m" and "P i s'"
    then obtain d where d: "s' = s\<lparr>disk := d\<rparr>" "\<forall>p. unat p < unat n \<longrightarrow> d (page_off p) = disk s (page_off p)"
      unfolding P_def by blast
    have u: "unat (n + of_nat i) = unat n + i" using range_apart [of n i] i assms(2) tot by simp
    have s': "dev_ok s'" "total_pages s' = total_pages s"
      using assms(1) dev_ok_same [of s s'] by (simp_all add: d(1) total_pages_def)
    have "bfs_write_page (n + of_nat i) fresh_page s' = put (n + of_nat i) fresh_page s'"
      by (rule page_ops(3) [OF s'(1)]) (use u i assms(2) s'(2) in \<open>simp add: word_less_nat_alt\<close>)
    moreover have "disk (put (n + of_nat i) fresh_page s') (page_off p) = disk s (page_off p)" if "unat p < unat n" for p
      using d that u tot i assms(2) by (auto simp: disk_put_apply)
    ultimately show "P (Suc i) (bfs_write_page (n + of_nat i) fresh_page s')" unfolding P_def
      by (intro exI [of _ "disk (put (n + of_nat i) fresh_page s')"]) (simp add: put_def d(1))
  qed simp
  then show thesis using that unfolding P_def by blast
qed

lemma alloc_blocks_effect:
  assumes ok: "base_ok s" and n: "n \<le> free_pages s"
  obtains start s' where "alloc_blocks n s = (Some start, s')" "base_ok s'" "keeps s s' {}"
    "unat (next_free s') = unat (next_free s) + unat n" "unat (free_pages s') = unat (free_pages s) - unat n"
    "root_page s' = root_page s" "file_count s' = file_count s" "n \<noteq> 0 \<longrightarrow> start = next_free s" "n = 0 \<longrightarrow> start = 0 \<and> s' = s"
proof (cases "n = 0")
  case True
  show thesis by (rule that [of 0 s]) (use ok True in \<open>simp_all add: alloc_blocks_def\<close>)
next
  case False
  let ?n = "next_free s"
  have b: "dev_ok s" "space_ok s" "disk s 0 = trunc (root_buf s)" using ok by (simp_all add: base_ok_def)
  note nf = next_free_bound [OF b(1,2)]
  have sp: "3 \<le> unat ?n" "unat ?n + unat (free_pages s) = unat (total_pages s)" using b(2) by (simp_all add: space_ok_def)
  have tot: "unat (total_pages s) < 4294967296" using b(1) by (simp add: dev_ok_def)
  have un: "unat (?n + n) = unat ?n + unat n" "unat (free_pages s - n) = unat (free_pages s) - unat n"
    using sp tot n by (simp_all add: unat_word_ariths word_le_nat_alt unat_sub)
  define s1 where "s1 = set_root 3 (free_pages s - n) (set_root 4 (?n + n) s)"
  define s2 where "s2 = put 0 (root_buf s1) s1"
  have d1: "dev_ok s1" "total_pages s1 = total_pages s" "0 < total_pages s1"
    using b(1) sp by (simp_all add: s1_def word_less_nat_alt)
  have d2: "dev_ok s2" "total_pages s2 = total_pages s" using d1 by (simp_all add: s2_def)
  have nz: "?n \<noteq> 0" using sp(1) by auto
  have "unat ?n + unat n \<le> unat (total_pages s2)" using sp(2) n d2(2) by (simp add: word_le_nat_alt)
  then obtain d where d: "for_range 0 (unat n) (\<lambda>i. bfs_write_page (?n + of_nat i) fresh_page) s2 = s2\<lparr>disk := d\<rparr>"
    "\<forall>p. unat p < unat ?n \<longrightarrow> d (page_off p) = disk s2 (page_off p)"
    using fresh_run [OF d2(1) _ nz] by metis
  define s' where "s' = s2\<lparr>disk := d\<rparr>"
  have r: "root_buf s' = root_buf s1" by (simp add: s'_def s2_def)
  then have f: "next_free s' = ?n + n" "free_pages s' = free_pages s - n" "total_pages s' = total_pages s"
    "root_page s' = root_page s" "file_count s' = file_count s"
    unfolding next_free_def free_pages_def total_pages_def root_page_def file_count_def by (simp_all add: s1_def set_root_def next_free_def free_pages_def)
  have run: "alloc_blocks n s = (Some ?n, s')"
    using False n nz flush_put [OF d1(1,3)] d(1)
    by (simp add: alloc_blocks_def bfs_alloc_pages_def Let_def s1_def s2_def s'_def not_less)
  have sd: "same_dev s s'" by (simp add: s'_def s2_def s1_def)
  have d0: "disk s' 0 = trunc (root_buf s')" using d(2) [rule_format, of 0] sp(1) by (simp add: s'_def s2_def disk_put)
  have base: "base_ok s'"
    using dev_ok_same [OF sd f(3)] b(1) sp un n f d0 by (simp add: base_ok_def space_ok_def word_le_nat_alt)
  have "disk s' (page_off p) = disk s (page_off p)" if "p < ?n" "p \<noteq> 0" for p
    using d(2) that nf(1) disk_put_apply [of 0 p "root_buf s1" s1] by (simp add: s'_def s2_def s1_def word_less_nat_alt)
  then have k: "keeps s s' {}" using sd f(1,3) un(1) by (simp add: keeps_def word_le_nat_alt s'_def s2_def s1_def)
  show thesis by (rule that [OF run base k]) (use f un False in simp_all)
qed

section \<open>The name table\<close>

text \<open>\<open>s'\<close> differs from \<open>s\<close> at most in the name table, on its page and in its buffer.\<close>

definition names_only :: "bfs_instance \<Rightarrow> bfs_instance \<Rightarrow> bool" where
  "names_only s s' \<longleftrightarrow> same_dev s s' \<and> root_buf s' = root_buf s \<and>
     (\<forall>p. unat p < 4294967296 \<and> p \<noteq> BFS_NAME_TABLE_PAGE \<longrightarrow> disk s' (page_off p) = disk s (page_off p))"

lemma names_only_refl [simp]: "names_only s s" "names_only s (s\<lparr>name_buf := b\<rparr>)"
  by (simp_all add: names_only_def)

lemma names_only_trans: "names_only s t \<Longrightarrow> names_only t u \<Longrightarrow> names_only s u"
  by (simp add: names_only_def same_dev_def)

lemma name_write_only: "names_only s (snd (bfs_name_table_write s))"
proof -
  let ?s = "snd (bfs_device_write (page_off BFS_NAME_TABLE_PAGE) (name_buf s) s)"
  have "?s = s \<or> ?s = put BFS_NAME_TABLE_PAGE (name_buf s) s"
    by (auto simp: bfs_device_write_def pmem_write_def put_def trunc_def)
  moreover have "names_only s (put BFS_NAME_TABLE_PAGE (name_buf s) s)"
    by (simp add: names_only_def disk_put_apply BFS_NAME_TABLE_PAGE_def)
  ultimately have "names_only s ?s" by auto
  then show ?thesis by (simp add: bfs_name_table_write_def page_off_def)
qed

lemma name_write_after: "names_only s s1 \<Longrightarrow> names_only s (snd (bfs_name_table_write (s1\<lparr>name_buf := b\<rparr>)))"
  by (erule names_only_trans) (rule names_only_trans [OF names_only_refl(2) name_write_only])

lemma name_read_only: "names_only s (snd (bfs_name_table_read s))"
  by (simp add: bfs_name_table_read_def split: option.split)

lemma name_upsert_only: "names_only s (snd (bfs_name_table_upsert hash name b sz s))"
proof -
  obtain r s1 where rd: "bfs_name_table_read s = (r, s1)" by (cases "bfs_name_table_read s")
  then have s1: "names_only s s1" using name_read_only [of s] by simp
  then show ?thesis using name_write_after [OF s1] by (simp add: bfs_name_table_upsert_def rd Let_def)
qed

lemma name_remove_only: "names_only s (bfs_name_table_remove hash s)"
proof -
  obtain r s1 where rd: "bfs_name_table_read s = (r, s1)" by (cases "bfs_name_table_read s")
  then have s1: "names_only s s1" using name_read_only [of s] by simp
  then show ?thesis using names_only_trans [OF s1 name_write_only] name_write_after [OF s1]
    by (simp add: bfs_name_table_remove_def rd Let_def del: fun_upd_apply split: option.split)
qed

end
