(* ===== verification/BFS_Files.thy ===== *)
theory BFS_Files
  imports BFS_Blocks
begin

text \<open>
  The files of a mounted file system. A file is the entry of the hash of its name and the pages of its
  extent; \<open>files\<close> is the map from hashes to contents that a mounted state stands for. Writing and
  deleting update this map, and reading looks it up.
\<close>

section \<open>Entries\<close>

lemma size_mask: "(0xFFFFFFFF :: u64) = mask 32"
  by (simp add: mask_eq_exp_minus_1)

lemma value_pack: "value_start (pack_value a b) = take_bit 32 a" "value_size (pack_value a b) = take_bit 32 b"
  unfolding value_start_def value_size_def pack_value_def size_mask
  by (rule bit_word_eqI; auto simp: bit_simps)+

lemma take_bit_small: "unat (a :: u64) < 4294967296 \<Longrightarrow> take_bit 32 a = a"
  by (simp add: word_unat_eq_iff unsigned_take_bit_eq take_bit_nat_eq_self)

lemma value_pack_small:
  "unat a < 4294967296 \<Longrightarrow> value_start (pack_value a b) = a" "unat b < 4294967296 \<Longrightarrow> value_size (pack_value a b) = b"
  by (simp_all add: value_pack take_bit_small)

lemma value_small: "unat (value_start v) < 4294967296" "unat (value_size v) < 4294967296"
proof -
  have "unat (take_bit 32 w) < 4294967296" for w :: u64 using take_bit_nat_less_exp [of 32 "unat w"] by (simp add: unsigned_take_bit_eq)
  then show "unat (value_start v) < 4294967296" "unat (value_size v) < 4294967296"
    unfolding value_start_def value_size_def size_mask by (simp_all add: take_bit_eq_mask [symmetric])
qed

section \<open>Mounted file systems\<close>

text \<open>The page numbers of a file.\<close>

definition extent :: "u64 \<Rightarrow> nat set" where
  "extent v = {unat (value_start v)..<unat (value_start v) + blocks (unat (value_size v))}"

definition extents_ok :: "bfs_instance \<Rightarrow> btree \<Rightarrow> bool" where
  "extents_ok s t \<longleftrightarrow>
     (\<forall>k v. map_of (entries t) k = Some v \<longrightarrow>
       extent v \<subseteq> {3..<unat (next_free s)} \<and> extent v \<inter> unat ` set (pages t) = {} \<and>
       (\<forall>k' v'. k' \<noteq> k \<and> map_of (entries t) k' = Some v' \<longrightarrow> extent v \<inter> extent v' = {}))"

definition super_word :: u64 where "super_word = ucast BFS_MAGIC OR push_bit 32 (ucast BFS_VERSION)"

definition mounted :: "bfs_instance \<Rightarrow> btree \<Rightarrow> nat \<Rightarrow> bool" where
  "mounted s t h \<longleftrightarrow> fs_ok s t h \<and> extents_ok s t \<and> root_buf s 0 = super_word"

definition file_bytes :: "(u64 \<Rightarrow> page) \<Rightarrow> u64 \<Rightarrow> u8 list" where
  "file_bytes d v = bytes_at d (value_start v) (unat (value_size v))"

definition files :: "bfs_instance \<Rightarrow> btree \<Rightarrow> u64 \<Rightarrow> u8 list option" where
  "files s t k = map_option (file_bytes (disk s)) (map_of (entries t) k)"

lemma file_bytes_cong:
  assumes "extent v \<subseteq> {3..<n}" and "n \<le> 4294967296"
    and "\<And>p. unat p \<in> extent v \<Longrightarrow> unat p < 4294967296 \<Longrightarrow> d' (page_off p) = d (page_off p)"
  shows "file_bytes d' v = file_bytes d v"
  unfolding file_bytes_def
proof (rule bytes_at_cong)
  fix m assume m: "m < blocks (unat (value_size v))"
  then have i: "unat (value_start v) + m \<in> extent v" by (simp add: extent_def)
  then have "unat (value_start v) + m < 4294967296" using assms(1,2) by fastforce
  then show "d' (page_off (value_start v + of_nat m)) = d (page_off (value_start v + of_nat m))"
    using assms(3) i range_apart [of "value_start v" m] by simp
qed

section \<open>Steps that leave the tree alone\<close>

lemma tree_ok_disk:
  assumes "tree_ok s t h" and "\<forall>p \<in> set (pages t). disk s' (page_off p) = disk s (page_off p)"
    and "root_page s' = root_page s" and "next_free s \<le> next_free s'"
  shows "tree_ok s' t h"
proof -
  have "p < next_free s'" if "p \<in> set (pages t)" for p
    using assms(1,4) that order.strict_trans2 unfolding tree_ok_def by blast
  then show ?thesis using assms(1,3) pages_offs [OF assms(2)] by (simp add: tree_ok_def)
qed

lemma fs_ok_keeps:
  assumes "fs_ok s t h" and "keeps s s' {}" and "base_ok s'" and "root_page s' = root_page s"
  shows "fs_ok s' t h"
proof -
  have "tree_ok s' t h"
    by (rule tree_ok_disk [where s = s])
      (use assms fs_okD(9) [OF assms(1)] in \<open>auto simp: fs_ok_base keeps_def\<close>)
  then show ?thesis using assms(3) by (simp add: fs_ok_base)
qed

lemma fs_ok_names:
  assumes "fs_ok s t h" and "names_only s s'"
  shows "fs_ok s' t h"
proof -
  note n = assms(2) [unfolded names_only_def]
  have f: "root_page s' = root_page s" "next_free s' = next_free s" "total_pages s' = total_pages s" "free_pages s' = free_pages s"
    using n by (simp_all add: root_page_def next_free_def total_pages_def free_pages_def)
  have "tree_ok s' t h"
    by (rule tree_ok_disk [where s = s])
      (use assms(1) n f fs_okD(9) [OF assms(1)] in \<open>auto simp: fs_ok_def tree_ok_def\<close>)
  moreover have "disk s' (page_off 0) = disk s (page_off 0)"
    by (rule n [THEN conjunct2, THEN conjunct2, rule_format]) (simp add: BFS_NAME_TABLE_PAGE_def)
  ultimately show ?thesis using assms(1) n f dev_ok_same [of s s'] by (simp add: fs_ok_def space_ok_def)
qed

text \<open>Counting a file and writing the superblock.\<close>

lemma fs_ok_count:
  fixes c :: u64
  assumes "fs_ok s t h"
  defines "s' \<equiv> bfs_flush_root (set_root 5 c s)"
  shows "fs_ok s' t h" "same_dev s s'" "next_free s' = next_free s" "file_count s' = c" "root_buf s' 0 = root_buf s 0"
    "unat p < 4294967296 \<Longrightarrow> p \<noteq> 0 \<Longrightarrow> disk s' (page_off p) = disk s (page_off p)"
proof -
  note f = fs_okD [OF assms(1)]
  have e: "s' = put 0 (root_buf (set_root 5 c s)) (set_root 5 c s)"
    unfolding s'_def by (rule flush_put) (use f in simp_all)
  show d: "unat p < 4294967296 \<Longrightarrow> p \<noteq> 0 \<Longrightarrow> disk s' (page_off p) = disk s (page_off p)" for p
    using disk_put_apply [of 0 p "root_buf (set_root 5 c s)" "set_root 5 c s"] by (simp add: e)
  show "same_dev s s'" "next_free s' = next_free s" "file_count s' = c" "root_buf s' 0 = root_buf s 0"
    by (simp_all add: e) (simp add: set_root_def)
  have "tree_ok s' t h"
    by (rule tree_ok_disk [where s = s]) (use assms(1) d f(9) in \<open>auto simp: fs_ok_def e\<close>)
  then show "fs_ok s' t h" using f(1,2) by (simp add: fs_ok_def e space_ok_def disk_put)
qed

text \<open>
  An entry has been changed: the tree holds the new map, the new extent is free, and then the
  superblock and the name table are written.
\<close>

lemma entry_changed:
  assumes m: "mounted s t h" and fs2: "fs_ok s2 t' h'" and k: "keeps s s2 (set (pages t))"
    and N: "next_free s \<le> N" "N \<le> next_free s2" and ps: "set (pages t') \<subseteq> set (pages t) \<union> {p. N \<le> p}"
    and map: "map_of (entries t') = (map_of (entries t))(key := x)"
    and new: "\<forall>v. x = Some v \<longrightarrow> extent v \<subseteq> {3..<unat N} \<and> extent v \<inter> unat ` set (pages t) = {} \<and>
      (\<forall>k' v'. k' \<noteq> key \<and> map_of (entries t) k' = Some v' \<longrightarrow> extent v \<inter> extent v' = {})"
    and s4: "names_only (bfs_flush_root (set_root 5 c s2)) s4"
  shows "mounted s4 t' h'" and "k \<noteq> key \<Longrightarrow> files s4 t' k = files s t k" and "file_count s4 = c" and "next_free s4 = next_free s2"
    and "same_dev s s4"
proof -
  define s3 where "s3 = bfs_flush_root (set_root 5 c s2)"
  note c3 = fs_ok_count [OF fs2, where c = c, folded s3_def]
  note n4 = s4 [folded s3_def, unfolded names_only_def]
  have nf: "next_free s4 = next_free s2" using n4 c3(3) by (simp add: next_free_def)
  show "next_free s4 = next_free s2" by (fact nf)
  show "same_dev s s4" using k n4 c3(2) same_dev_trans unfolding keeps_def by blast
  show "file_count s4 = c" using n4 c3(4) by (simp add: file_count_def)
  have fs4: "fs_ok s4 t' h'" using fs_ok_names [OF c3(1)] s4 by (simp add: s3_def)
  have ex: "extents_ok s t" and fs: "fs_ok s t h" and w: "root_buf s 0 = super_word" using m by (simp_all add: mounted_def)
  note nb = next_free_bound [OF fs_okD(1,2) [OF fs]]
  have d: "disk s4 (page_off p) = disk s (page_off p)" if "p < next_free s" "3 \<le> unat p" "p \<notin> set (pages t)" for p
  proof -
    have "unat p < 4294967296" "p \<noteq> 0" "p \<noteq> 2" using that nb(1) by (auto simp: word_less_nat_alt)
    then show ?thesis using n4 c3(6) k that by (simp add: BFS_NAME_TABLE_PAGE_def keeps_def)
  qed
  have old: "extent v \<subseteq> {3..<unat (next_free s)}" "extent v \<inter> unat ` set (pages t) = {}"
    if "map_of (entries t) k = Some v" for k v using ex that unfolding extents_ok_def by blast+
  have apart: "extent v \<inter> unat ` set (pages t') = {}" if "extent v \<subseteq> {3..<unat N}" "extent v \<inter> unat ` set (pages t) = {}" for v
    using that ps by (fastforce simp: word_le_nat_alt)
  have "extents_ok s4 t'"
    unfolding extents_ok_def
  proof (intro allI impI conjI)
    fix k v assume kv: "map_of (entries t') k = Some v"
    have e: "extent v \<subseteq> {3..<unat N} \<and> extent v \<inter> unat ` set (pages t) = {}"
    proof (cases "k = key")
      case False
      then show ?thesis using old [of k v] kv map N(1) by (fastforce simp: word_le_nat_alt)
    qed (use kv map new in simp)
    then show "extent v \<subseteq> {3..<unat (next_free s4)}" using N(2) by (force simp: nf word_le_nat_alt)
    show "extent v \<inter> unat ` set (pages t') = {}" using apart e by blast
    fix k' v' assume k': "k' \<noteq> k \<and> map_of (entries t') k' = Some v'"
    have "extent v \<inter> extent v' = {}" if "k \<noteq> key" "k' \<noteq> key"
      using ex k' kv that map unfolding extents_ok_def by simp
    moreover have "extent v' \<inter> extent v = {}" if "k' = key"
    proof -
      have "k \<noteq> key" "map_of (entries t) k = Some v" "x = Some v'" using kv k' map that by (auto split: if_splits)
      then show ?thesis using new by blast
    qed
    moreover have "extent v \<inter> extent v' = {}" if "k = key"
    proof -
      have "k' \<noteq> key" "map_of (entries t) k' = Some v'" "x = Some v" using kv k' map that by (auto split: if_splits)
      then show ?thesis using new by blast
    qed
    ultimately show "extent v \<inter> extent v' = {}" by blast
  qed
  moreover have "root_buf s4 0 = super_word" using n4 c3(5) k w by (simp add: keeps_def same_dev_def)
  ultimately show "mounted s4 t' h'" using fs4 by (simp add: mounted_def)
  assume k: "k \<noteq> key"
  show "files s4 t' k = files s t k"
  proof (cases "map_of (entries t) k")
    case (Some v)
    have "file_bytes (disk s4) v = file_bytes (disk s) v"
    proof (rule file_bytes_cong [OF old(1) [OF Some]])
      show "unat (next_free s) \<le> 4294967296" using nb(1) by simp
      fix p :: u64 assume p: "unat p \<in> extent v"
      then have "p < next_free s" "3 \<le> unat p" "p \<notin> set (pages t)" using old [OF Some] by (auto simp: word_less_nat_alt)
      then show "disk s4 (page_off p) = disk s (page_off p)" by (rule d)
    qed
    then show ?thesis using Some k map by (simp add: files_def)
  qed (use k map in \<open>simp add: files_def\<close>)
qed

section \<open>Reading\<close>

lemma find_ok:
  assumes "mounted s t h"
  shows "bfs_find name s = Some (map_option
    (\<lambda>v. \<lparr>inode = bfs_hash name, start_block = value_start v, size_bytes = value_size v\<rparr>) (map_of (entries t) (bfs_hash name)))"
  using search_ok [of s t h "bfs_hash name"] assms
  by (simp add: bfs_find_def mounted_def Let_def split: option.split)

lemma extent_total:
  assumes "mounted s t h" and "map_of (entries t) k = Some v"
  shows "unat (value_start v) + blocks (unat (value_size v)) \<le> unat (next_free s) \<or> value_size v = 0"
    and "unat (next_free s) \<le> unat (total_pages s)" and "value_size v \<noteq> 0 \<Longrightarrow> 3 \<le> unat (value_start v)"
proof -
  have e: "extent v \<subseteq> {3..<unat (next_free s)}" using assms by (auto simp: mounted_def extents_ok_def)
  have b: "value_size v \<noteq> 0 \<Longrightarrow> 0 < blocks (unat (value_size v))"
    by (metis blocks_simps(2) neq0_conv unat_eq_zero)
  show "unat (value_start v) + blocks (unat (value_size v)) \<le> unat (next_free s) \<or> value_size v = 0"
    and "value_size v \<noteq> 0 \<Longrightarrow> 3 \<le> unat (value_start v)"
    using e b by (auto simp: extent_def)
  show "unat (next_free s) \<le> unat (total_pages s)" using assms(1) by (simp add: mounted_def fs_ok_def space_ok_def)
qed

lemma read_ok:
  assumes m: "mounted s t h"
  shows "bfs_read_file name max_size s = Some
    (case files s t (bfs_hash name) of
       None \<Rightarrow> (-1, None, None)
     | Some bs \<Rightarrow> if bs \<noteq> [] \<and> unat max_size < length bs then (-2, Some (of_nat (length bs)), None)
                  else (0, Some (of_nat (length bs)), Some bs))"
proof (cases "map_of (entries t) (bfs_hash name)")
  case None
  then show ?thesis by (simp add: bfs_read_file_def find_ok [OF m] files_def)
next
  case (Some v)
  have dev: "dev_ok s" using m by (simp add: mounted_def fs_ok_def)
  show ?thesis
  proof (cases "value_size v = 0")
    case True
    then show ?thesis using Some by (simp add: bfs_read_file_def find_ok [OF m] files_def file_bytes_def bytes_at_def)
  next
    case False
    have "unat (value_start v) + blocks (unat (value_size v)) \<le> unat (total_pages s)"
      using extent_total(1,2) [OF m Some] False by auto
    note rd = read_blocks_bytes [OF dev this]
    have ne: "bytes_at (disk s) (value_start v) (unat (value_size v)) \<noteq> []" using False
      by (metis bytes_at_length list.size(3) unat_eq_zero)
    show ?thesis using Some False rd ne
      by (simp add: bfs_read_file_def find_ok [OF m] files_def file_bytes_def word_less_nat_alt)
  qed
qed

section \<open>Writing\<close>

text \<open>Writing the pages of a file that is entered.\<close>

lemma contents_written:
  assumes m: "mounted s t h" and key: "map_of (entries t) key = Some v" and len: "unat (value_size v) = length bs"
  shows "mounted (write_blocks (value_start v) bs s) t h" and "files (write_blocks (value_start v) bs s) t = (files s t)(key \<mapsto> bs)"
proof -
  have dev: "dev_ok s" and fs: "fs_ok s t h" and ex: "extents_ok s t" using m by (simp_all add: mounted_def fs_ok_def)
  have old: "extent w \<subseteq> {3..<unat (next_free s)}" "extent w \<inter> unat ` set (pages t) = {}"
    if "map_of (entries t) k = Some w" for k w using ex that unfolding extents_ok_def by blast+
  note nb = next_free_bound [OF fs_okD(1,2) [OF fs]]
  show "mounted (write_blocks (value_start v) bs s) t h" "files (write_blocks (value_start v) bs s) t = (files s t)(key \<mapsto> bs)"
  proof (atomize (full), cases "bs = []")
    case True
    have "files s t key = Some []" using key len True by (simp add: files_def file_bytes_def bytes_at_def)
    then show "mounted (write_blocks (value_start v) bs s) t h \<and> files (write_blocks (value_start v) bs s) t = (files s t)(key \<mapsto> bs)"
      using m True by (auto simp: write_blocks.simps)
  next
    case False
    have "value_size v \<noteq> 0" using False len by auto
    then have "unat (value_start v) + blocks (length bs) \<le> unat (total_pages s)"
      using extent_total(1,2) [OF m key] len by auto
    then obtain d where d: "write_blocks (value_start v) bs s = s\<lparr>disk := d\<rparr>" "bytes_at d (value_start v) (length bs) = bs"
      "\<forall>p. unat p < 4294967296 \<and> unat p \<notin> extent v \<longrightarrow> d (page_off p) = disk s (page_off p)"
      by (rule write_blocks_effect [OF dev, where bs = bs]) (use len in \<open>simp_all add: extent_def\<close>)
    let ?s = "s\<lparr>disk := d\<rparr>"
    have fields: "root_page ?s = root_page s" "next_free ?s = next_free s" "total_pages ?s = total_pages s" "free_pages ?s = free_pages s"
      by (simp_all add: root_page_def next_free_def total_pages_def free_pages_def)
    have "d (page_off p) = disk s (page_off p)" if "p \<in> set (pages t)" for p
      using old(2) [OF key] d(3) fs_okD(9) [OF fs that] that by blast
    then have "\<forall>p \<in> set (pages t). disk ?s (page_off p) = disk s (page_off p)" by simp
    then have "tree_ok ?s t h"
      by (rule tree_ok_disk [where s = s, rotated]) (use fs fields in \<open>simp_all add: fs_ok_def\<close>)
    moreover have "0 \<notin> extent v" using old(1) [OF key] by auto
    then have "d (page_off 0) = disk s (page_off 0)" by (intro d(3) [rule_format]) simp
    ultimately have "fs_ok ?s t h"
      using fs fields dev_ok_same [of s ?s] by (simp add: fs_ok_def space_ok_def)
    then have mt: "mounted ?s t h" using m fields by (simp add: mounted_def extents_ok_def)
    have "files ?s t k = ((files s t)(key \<mapsto> bs)) k" for k
    proof (cases "k = key")
      case True
      then show ?thesis using key d(2) len by (simp add: files_def file_bytes_def)
    next
      case False
      have "file_bytes d w = file_bytes (disk s) w" if w: "map_of (entries t) k = Some w" for w
      proof (rule file_bytes_cong [OF old(1) [OF w]])
        show "unat (next_free s) \<le> 4294967296" using nb(1) by simp
        fix p :: u64 assume p: "unat p \<in> extent w" "unat p < 4294967296"
        have "extent w \<inter> extent v = {}" using ex w key False unfolding extents_ok_def by metis
        then show "d (page_off p) = disk s (page_off p)" using d(3) p by blast
      qed
      then show ?thesis using False by (cases "map_of (entries t) k") (simp_all add: files_def)
    qed
    then show "mounted (write_blocks (value_start v) bs s) t h \<and> files (write_blocks (value_start v) bs s) t = (files s t)(key \<mapsto> bs)"
      using mt unfolding d(1) by blast
  qed
qed

text \<open>The entry of a file with the run of pages that has been allocated for it.\<close>

lemma keeps_mono: "keeps s s' P \<Longrightarrow> P \<subseteq> Q \<Longrightarrow> keeps s s' Q"
  by (auto simp: keeps_def)

lemma alloc_for_file:
  assumes m: "mounted s t h" and len: "len < 4294967296" and free: "blocks len \<le> unat (free_pages s)"
  obtains start s' where "alloc_blocks (blocks_for (of_nat len)) s = (Some start, s')" "fs_ok s' t h" "keeps s s' {}"
    "unat (free_pages s') = unat (free_pages s) - blocks len" "file_count s' = file_count s"
    "value_start (pack_value start (of_nat len)) = start" "value_size (pack_value start (of_nat len)) = of_nat len"
    "extent (pack_value start (of_nat len)) \<subseteq> {3..<unat (next_free s')}"
    "extent (pack_value start (of_nat len)) \<inter> {..<unat (next_free s)} = {}"
proof -
  let ?n = "blocks_for (of_nat len)"
  have ul: "unat (of_nat len :: u64) = len" using len by (simp add: unat_of_nat)
  have un: "unat ?n = blocks len" using blocks_for_nat [of "of_nat len"] len by (simp add: ul)
  have fs: "fs_ok s t h" and b: "base_ok s" using m by (auto simp: mounted_def fs_ok_base)
  note nb = next_free_bound [OF fs_okD(1,2) [OF fs]]
  have "?n \<le> free_pages s" using free un by (simp add: word_le_nat_alt)
  then obtain start s' where a: "alloc_blocks ?n s = (Some start, s')" "base_ok s'" "keeps s s' {}"
    "unat (next_free s') = unat (next_free s) + unat ?n" "unat (free_pages s') = unat (free_pages s) - unat ?n"
    "root_page s' = root_page s" "file_count s' = file_count s" "?n \<noteq> 0 \<longrightarrow> start = next_free s" "?n = 0 \<longrightarrow> start = 0 \<and> s' = s"
    using alloc_blocks_effect [OF b] by metis
  have st: "unat start < 4294967296" using a(8,9) nb(1) by (cases "?n = 0") simp_all
  have v: "value_start (pack_value start (of_nat len)) = start" "value_size (pack_value start (of_nat len)) = of_nat len"
    using value_pack_small st len by (simp_all add: ul)
  have z: "?n = 0 \<longleftrightarrow> blocks len = 0" using un by (metis unat_eq_zero)
  have e: "extent (pack_value start (of_nat len)) = {unat start..<unat start + blocks len}" unfolding extent_def v ul ..
  have "extent (pack_value start (of_nat len)) \<subseteq> {3..<unat (next_free s')}"
    "extent (pack_value start (of_nat len)) \<inter> {..<unat (next_free s)} = {}"
    unfolding e using a(4,8) un z nb(3) by (cases "?n = 0"; auto simp: word_le_nat_alt)+
  then show thesis using that [OF a(1) fs_ok_keeps [OF fs a(3,2,6)] a(3)] a(5,7) un v by simp
qed

definition room_for :: "bfs_instance \<Rightarrow> btree \<Rightarrow> u64 \<Rightarrow> nat \<Rightarrow> bool" where
  "room_for s t key len \<longleftrightarrow>
     (case map_of (entries t) key of
        Some v \<Rightarrow> len \<le> unat (value_size v) \<or> blocks len \<le> unat (free_pages s)
      | None \<Rightarrow> blocks len \<le> unat (free_pages s) \<and> has_room (unat (free_pages s) - blocks len) t key)"

lemma extents_apart:
  assumes m: "mounted s t h" and E: "E \<inter> {..<unat (next_free s)} = {}"
  shows "E \<inter> unat ` set (pages t) = {}" and "map_of (entries t) k = Some v \<Longrightarrow> E \<inter> extent v = {}"
proof -
  have fs: "fs_ok s t h" and ex: "extents_ok s t" using m by (simp_all add: mounted_def)
  show "E \<inter> unat ` set (pages t) = {}" using E fs_okD(9) [OF fs] by (fastforce simp: word_less_nat_alt)
  assume "map_of (entries t) k = Some v"
  then have "extent v \<subseteq> {3..<unat (next_free s)}" using ex by (auto simp: extents_ok_def)
  then show "E \<inter> extent v = {}" using E by fastforce
qed

lemma entry_inserted:
  assumes m: "mounted s t h" and k1: "keeps s s1 {}" and ins: "inserted s1 t key v s2 t' h'"
    and e: "extent v \<subseteq> {3..<unat (next_free s1)}" "extent v \<inter> unat ` set (pages t) = {}"
      "\<forall>k' v'. k' \<noteq> key \<and> map_of (entries t) k' = Some v' \<longrightarrow> extent v \<inter> extent v' = {}"
    and s4: "names_only (bfs_flush_root (set_root 5 c s2)) s4"
  shows "mounted s4 t' h'" and "k \<noteq> key \<Longrightarrow> files s4 t' k = files s t k" and "map_of (entries t') key = Some v" and "file_count s4 = c"
    and "same_dev s s4"
proof -
  note i = ins [unfolded inserted_def]
  have k: "keeps s s2 (set (pages t))"
    by (rule keeps_trans [OF keeps_mono [OF k1]]) (use i in auto)
  have N: "next_free s \<le> next_free s1" "next_free s1 \<le> next_free s2" using k1 i by (simp_all add: keeps_def)
  note ch = entry_changed [OF m _ k N _ _ _ s4, of t' h' key "Some v"]
  show "mounted s4 t' h'" "k \<noteq> key \<Longrightarrow> files s4 t' k = files s t k" "file_count s4 = c" "same_dev s s4"
    using ch i e by auto
  show "map_of (entries t') key = Some v" using i by simp
qed

end
