(* ===== verification/BFS_Store.thy ===== *)
theory BFS_Store
  imports BFS_Files
begin

text \<open>
  The operations on files of a mounted file system against the map of its files: writing, creating,
  deleting, formatting and mounting.
\<close>

section \<open>Writing a file\<close>

lemma count_same [simp]: "set_root 5 (file_count s) s = s"
  by (simp add: set_root_def file_count_def)

lemma write_blocks_root: "root_buf (write_blocks n bs s) = root_buf s"
proof (induction n bs s rule: write_blocks.induct)
  case (1 n bs s)
  have "root_buf (bfs_write_page n p s) = root_buf s" for p
    by (simp add: bfs_write_page_def bfs_device_write_def pmem_write_def)
  then show ?case using 1 by (subst write_blocks.simps) simp
qed

lemma write_blocks_dev: "same_dev s (write_blocks n bs s)"
proof (induction n bs s rule: write_blocks.induct)
  case (1 n bs s)
  have "same_dev s (bfs_write_page n p s)" for p
    by (simp add: bfs_write_page_def bfs_device_write_def pmem_write_def)
  then show ?case using 1 same_dev_trans by (subst write_blocks.simps) (simp, blast)
qed

lemma write_blocks_count: "file_count (write_blocks n bs s) = file_count s"
  by (simp add: file_count_def write_blocks_root)

lemma write_new:
  assumes m: "mounted s t h" and absent: "map_of (entries t) (bfs_hash name) = None" and len: "length buf < 4294967296"
    and room: "room_for s t (bfs_hash name) (length buf)"
  shows "\<exists>s' t' h'. bfs_write_file name buf s = Some (0, s') \<and> mounted s' t' h' \<and>
    files s' t' = (files s t)(bfs_hash name \<mapsto> buf) \<and> file_count s' = file_count s + 1 \<and> same_dev s s'"
proof -
  define key where "key = bfs_hash name"
  let ?sz = "of_nat (length buf) :: u64"
  have r: "blocks (length buf) \<le> unat (free_pages s)" "has_room (unat (free_pages s) - blocks (length buf)) t key"
    using room absent by (simp_all add: room_for_def key_def)
  obtain start s1 where a: "alloc_blocks (blocks_for ?sz) s = (Some start, s1)" "fs_ok s1 t h" "keeps s s1 {}"
    "unat (free_pages s1) = unat (free_pages s) - blocks (length buf)" "file_count s1 = file_count s"
    "value_start (pack_value start ?sz) = start" "value_size (pack_value start ?sz) = ?sz"
    "extent (pack_value start ?sz) \<subseteq> {3..<unat (next_free s1)}" "extent (pack_value start ?sz) \<inter> {..<unat (next_free s)} = {}"
    by (rule alloc_for_file [OF m len r(1)]) (rule that)
  have "has_room (unat (free_pages s1)) t key" using r(2) a(4) by simp
  then obtain s2 t' h' where i: "bfs_insert key (pack_value start ?sz) s1 = Some (0, s2)" "inserted s1 t key (pack_value start ?sz) s2 t' h'"
    by (rule insert_inserted [OF a(2)]) (rule that)
  define s3 where "s3 = bfs_flush_root (set_root 5 (file_count s2 + 1) s2)"
  define s4 where "s4 = snd (bfs_name_table_upsert key name start ?sz s3)"
  have n4: "names_only (bfs_flush_root (set_root 5 (file_count s2 + 1) s2)) s4"
    unfolding s4_def s3_def by (rule name_upsert_only)
  note ap = extents_apart [OF m a(9)]
  note e = entry_inserted [OF m a(3) i(2) a(8) ap(1) _ n4]
  have e': "mounted s4 t' h'" "\<And>k. k \<noteq> key \<Longrightarrow> files s4 t' k = files s t k" "map_of (entries t') key = Some (pack_value start ?sz)"
    "file_count s4 = file_count s2 + 1" "same_dev s s4" using e ap(2) by blast+
  have "unat (value_size (pack_value start ?sz)) = length buf" using a(7) len by (simp add: unat_of_nat)
  note c = contents_written [OF e'(1,3) this, unfolded a(6)]
  have "bfs_write_file name buf s = Some (0, write_blocks start buf s4)"
    using search_ok [of s t h key] m absent a(1) i(1)
    by (simp add: bfs_write_file_def key_def [symmetric] mounted_def Let_def s3_def s4_def)
  moreover have "files (write_blocks start buf s4) t' = (files s t)(key \<mapsto> buf)"
    unfolding c(2) using e'(2) by auto
  moreover have "file_count s2 = file_count s" using i(2) a(5) by (simp add: inserted_def)
  moreover have "file_count (write_blocks start buf s4) = file_count s4"
    using write_blocks_count .
  moreover have "same_dev s (write_blocks start buf s4)" using e'(5) write_blocks_dev same_dev_trans by blast
  ultimately show ?thesis using c(1) e'(4) by (auto simp: key_def)
qed

text \<open>Writing over a file: in place when it does not grow, else on a new run of pages.\<close>

lemma space_for_file:
  assumes m: "mounted s t h" and v: "map_of (entries t) key = Some v" and len: "len < 4294967296"
    and room: "room_for s t key len"
  obtains start s1 where
    "(if (of_nat len :: u64) > value_size v then alloc_blocks (blocks_for (of_nat len)) s else (Some (value_start v), s)) = (Some start, s1)"
    "fs_ok s1 t h" "keeps s s1 {}" "file_count s1 = file_count s"
    "value_start (pack_value start (of_nat len)) = start" "value_size (pack_value start (of_nat len)) = of_nat len"
    "extent (pack_value start (of_nat len)) \<subseteq> {3..<unat (next_free s1)}"
    "extent (pack_value start (of_nat len)) \<inter> unat ` set (pages t) = {}"
    "\<forall>k' v'. k' \<noteq> key \<and> map_of (entries t) k' = Some v' \<longrightarrow> extent (pack_value start (of_nat len)) \<inter> extent v' = {}"
proof -
  have ul: "unat (of_nat len :: u64) = len" using len by (simp add: unat_of_nat)
  show thesis
  proof (cases "(of_nat len :: u64) > value_size v")
    case True
    then have "blocks len \<le> unat (free_pages s)" using room v by (simp add: room_for_def word_less_nat_alt ul)
    then obtain start s1 where a: "alloc_blocks (blocks_for (of_nat len)) s = (Some start, s1)" "fs_ok s1 t h" "keeps s s1 {}"
      "file_count s1 = file_count s" "value_start (pack_value start (of_nat len)) = start"
      "value_size (pack_value start (of_nat len)) = of_nat len" "extent (pack_value start (of_nat len)) \<subseteq> {3..<unat (next_free s1)}"
      "extent (pack_value start (of_nat len)) \<inter> {..<unat (next_free s)} = {}"
      by (rule alloc_for_file [OF m len]) (rule that)
    note ap = extents_apart [OF m a(8)]
    have o: "\<forall>k' v'. k' \<noteq> key \<and> map_of (entries t) k' = Some v' \<longrightarrow> extent (pack_value start (of_nat len)) \<inter> extent v' = {}"
      using ap(2) by blast
    show thesis by (rule that [OF _ a(2-7) ap(1) o]) (use True a(1) in simp)
  next
    case False
    let ?p = "pack_value (value_start v) (of_nat len)"
    have p: "value_start ?p = value_start v" "value_size ?p = of_nat len"
      using value_pack_small value_small len by (simp_all add: ul)
    have "len \<le> unat (value_size v)" using False by (simp add: not_less word_le_nat_alt ul)
    then have sub: "extent ?p \<subseteq> extent v" using blocks_mono [of len "unat (value_size v)"] by (auto simp: extent_def p ul)
    have fs: "fs_ok s t h" and o: "extent v \<subseteq> {3..<unat (next_free s)}" "extent v \<inter> unat ` set (pages t) = {}"
      "\<forall>k' v'. k' \<noteq> key \<and> map_of (entries t) k' = Some v' \<longrightarrow> extent v \<inter> extent v' = {}"
      using m v by (simp_all add: mounted_def extents_ok_def)
    have "extent ?p \<subseteq> {3..<unat (next_free s)}" "extent ?p \<inter> unat ` set (pages t) = {}"
      "\<forall>k' v'. k' \<noteq> key \<and> map_of (entries t) k' = Some v' \<longrightarrow> extent ?p \<inter> extent v' = {}" using sub o by blast+
    then show thesis using that [of "value_start v" s] False fs p by simp
  qed
qed

lemma write_over:
  assumes m: "mounted s t h" and v: "map_of (entries t) (bfs_hash name) = Some v" and len: "length buf < 4294967296"
    and room: "room_for s t (bfs_hash name) (length buf)"
  shows "\<exists>s' t' h'. bfs_write_file name buf s = Some (0, s') \<and> mounted s' t' h' \<and>
    files s' t' = (files s t)(bfs_hash name \<mapsto> buf) \<and> file_count s' = file_count s \<and> same_dev s s'"
proof -
  define key where "key = bfs_hash name"
  let ?sz = "of_nat (length buf) :: u64"
  obtain start s1 where a: "(if ?sz > value_size v then alloc_blocks (blocks_for ?sz) s else (Some (value_start v), s)) = (Some start, s1)"
    "fs_ok s1 t h" "keeps s s1 {}" "file_count s1 = file_count s"
    "value_start (pack_value start ?sz) = start" "value_size (pack_value start ?sz) = ?sz"
    "extent (pack_value start ?sz) \<subseteq> {3..<unat (next_free s1)}" "extent (pack_value start ?sz) \<inter> unat ` set (pages t) = {}"
    "\<forall>k' v'. k' \<noteq> key \<and> map_of (entries t) k' = Some v' \<longrightarrow> extent (pack_value start ?sz) \<inter> extent v' = {}"
    by (rule space_for_file [OF m v len room]) (rule that, simp_all add: key_def)
  note vk = v [folded key_def]
  obtain s2 t' where i: "bfs_insert key (pack_value start ?sz) s1 = Some (0, s2)" "inserted s1 t key (pack_value start ?sz) s2 t' h"
    using insert_present [OF a(2) vk] by blast
  define q where "q = fst (leaf_of t key)"
  define j where "j = int (pos (map fst (snd (leaf_of t key))) key - 1)"
  have sr: "bfs_search s key = Some \<lparr>found = True, page_num = q, idx = j, val = v\<rparr>"
    "bfs_search s1 key = Some \<lparr>found = True, page_num = q, idx = j, val = v\<rparr>"
    using search_ok [of s t h key] search_ok [OF a(2), of key] m vk by (simp_all add: q_def j_def mounted_def)
  have "q \<in> set (pages t)" using leaf_ok(1) [OF a(2)] by (simp add: q_def)
  then have rd: "bfs_read_page s1 q = Some (disk s1 (page_off q))" using page_ops(1) [OF fs_okD(1) [OF a(2)]] fs_okD(9) [OF a(2)] by blast
  have w: "bfs_write_page q (set_value j (pack_value start ?sz) (disk s1 (page_off q))) s1 = s2"
    using i(1) sr(2) rd by (simp add: bfs_insert_def)
  define s3 where "s3 = bfs_flush_root (set_root 5 (file_count s2) s2)"
  define s4 where "s4 = snd (bfs_name_table_upsert key name start ?sz s3)"
  have n4: "names_only (bfs_flush_root (set_root 5 (file_count s2) s2)) s4"
    unfolding s4_def s3_def by (rule name_upsert_only)
  note e = entry_inserted [OF m a(3) i(2) a(7-9) n4]
  have "unat (value_size (pack_value start ?sz)) = length buf" using a(6) len by (simp add: unat_of_nat)
  note c = contents_written [OF e(1,3) this, unfolded a(5)]
  have "bfs_write_file name buf s = Some (0, write_blocks start buf s4)"
    using sr(1) a(1) rd w
    by (cases "?sz > value_size v") (simp_all add: bfs_write_file_def key_def [symmetric] Let_def s3_def s4_def)
  moreover have "files (write_blocks start buf s4) t' = (files s t)(key \<mapsto> buf)"
    unfolding c(2) using e(2) by auto
  moreover have "file_count s2 = file_count s" using i(2) a(4) by (simp add: inserted_def)
  moreover have "same_dev s (write_blocks start buf s4)" using e(5) write_blocks_dev same_dev_trans by blast
  ultimately show ?thesis using c(1) e(4) by (auto simp: key_def write_blocks_count)
qed

section \<open>Deleting a file\<close>

lemma map_of_remove:
  assumes "distinct (map fst kvs)" and "i < length kvs"
  shows "map_of (take i kvs @ drop (Suc i) kvs) = (map_of kvs)(fst (kvs ! i) := None)"
proof -
  obtain k w where kw: "kvs ! i = (k, w)" by (cases "kvs ! i")
  have kvs: "kvs = take i kvs @ (k, w) # drop (Suc i) kvs" using id_take_nth_drop [OF assms(2)] kw by simp
  then have d: "distinct (map fst (take i kvs @ (k, w) # drop (Suc i) kvs))" using assms(1) by simp
  have "map_of kvs = (map_of (drop (Suc i) kvs))(k \<mapsto> w) ++ map_of (take i kvs)" by (subst kvs) simp
  moreover have "map_of (take i kvs) k = None" "map_of (drop (Suc i) kvs) k = None"
    using d by (auto simp: map_of_eq_None_iff)
  ultimately show ?thesis using kw by (auto simp: fun_eq_iff map_add_def split: option.splits)
qed

lemma sorted_remove: "sorted_wrt P xs \<Longrightarrow> sorted_wrt P (take i xs @ drop (Suc i) xs)"
proof (induction xs arbitrary: i)
  case (Cons x xs)
  then show ?case by (cases i) (auto dest: in_set_takeD in_set_dropD)
qed simp

lemma delete_absent: "mounted s t h \<Longrightarrow> map_of (entries t) (bfs_hash name) = None \<Longrightarrow> bfs_delete name s = Some (-1, s)"
  using search_ok [of s t h "bfs_hash name"] by (simp add: bfs_delete_def mounted_def Let_def)

lemma delete_present:
  assumes m: "mounted s t h" and v: "map_of (entries t) (bfs_hash name) = Some v"
  shows "\<exists>s' t'. bfs_delete name s = Some (0, s') \<and> mounted s' t' h \<and>
    files s' t' = (files s t)(bfs_hash name := None) \<and> file_count s' = file_count s - 1"
proof -
  define key where "key = bfs_hash name"
  note vk = v [folded key_def]
  have ok: "fs_ok s t h" using m by (simp add: mounted_def)
  define q where "q = fst (leaf_of t key)"
  define kvs where "kvs = snd (leaf_of t key)"
  define i where "i = pos (map fst kvs) key - 1"
  let ?p = "disk s (page_off q)" and ?new = "take i kvs @ drop (Suc i) kvs"
  note lf = leaf_ok [OF ok, of key, folded q_def kvs_def] and i = entry_index [OF ok vk, folded kvs_def, folded i_def]
  note rm = leaf_remove [OF lf(2) i(1)]
  have srt: "sorted_wrt (<) (map fst ?new)" using sorted_remove [OF lf(3), of i] by (simp add: take_map drop_map)
  have sub: "fst ` set ?new \<subseteq> insert key (fst ` set (snd (leaf_of t key)))"
    by (auto simp: kvs_def dest: in_set_takeD in_set_dropD)
  have mp: "map_of ?new = (map_of (snd (leaf_of t key)))(key := None)"
    using map_of_remove [OF lf(4) i(1)] i(2) by (simp add: kvs_def)
  define s2 where "s2 = put q (remove_entry ?p (int i)) s"
  note w = write_leaf_ok [OF ok q_def rm srt sub mp, folded s2_def]
  define s4 where "s4 = bfs_name_table_remove key (bfs_flush_root (set_root 5 (file_count s2 - 1) s2))"
  have n4: "names_only (bfs_flush_root (set_root 5 (file_count s2 - 1) s2)) s4" unfolding s4_def by (rule name_remove_only)
  note ch = entry_changed [OF m w(1,3) order_refl _ _ w(2) _ n4]
  have c: "mounted s4 (upd t key ?new) h" "\<And>k. k \<noteq> key \<Longrightarrow> files s4 (upd t key ?new) k = files s t k" "file_count s4 = file_count s2 - 1"
    using ch w(3) by (auto simp: keeps_def)
  have "q < total_pages s" using fs_okD(9) [OF ok lf(1)] by blast
  note po = page_ops [OF fs_okD(1) [OF ok] this]
  have "bfs_delete name s = Some (0, s4)"
    using search_ok [OF ok, of key] vk po(1,3)
    by (simp add: bfs_delete_def key_def [symmetric] Let_def s4_def s2_def q_def kvs_def i_def)
  moreover have "files s4 (upd t key ?new) = (files s t)(key := None)" using c(2) w(2) by (auto simp: fun_eq_iff files_def)
  ultimately show ?thesis using c(1,3) by (auto simp: key_def s2_def)
qed

section \<open>Creating a file\<close>

lemma create_present: "mounted s t h \<Longrightarrow> map_of (entries t) (bfs_hash name) = Some v \<Longrightarrow> bfs_create name sz s = Some (-1, s)"
  using search_ok [of s t h "bfs_hash name"] by (simp add: bfs_create_def mounted_def Let_def)

lemma create_new:
  assumes m: "mounted s t h" and absent: "map_of (entries t) (bfs_hash name) = None" and len: "unat sz < 4294967296"
    and room: "room_for s t (bfs_hash name) (unat sz)"
  shows "\<exists>s' t' h' bs. bfs_create name sz s = Some (0, s') \<and> mounted s' t' h' \<and>
    files s' t' = (files s t)(bfs_hash name \<mapsto> bs) \<and> length bs = unat sz \<and> file_count s' = file_count s + 1"
proof -
  define key where "key = bfs_hash name"
  have r: "blocks (unat sz) \<le> unat (free_pages s)" "has_room (unat (free_pages s) - blocks (unat sz)) t key"
    using room absent by (simp_all add: room_for_def key_def)
  obtain start s1 where a: "alloc_blocks (blocks_for sz) s = (Some start, s1)" "fs_ok s1 t h" "keeps s s1 {}"
    "unat (free_pages s1) = unat (free_pages s) - blocks (unat sz)" "file_count s1 = file_count s"
    "value_size (pack_value start sz) = sz"
    "extent (pack_value start sz) \<subseteq> {3..<unat (next_free s1)}" "extent (pack_value start sz) \<inter> {..<unat (next_free s)} = {}"
    by (rule alloc_for_file [OF m len r(1)]) (rule that, simp_all)
  have "has_room (unat (free_pages s1)) t key" using r(2) a(4) by simp
  then obtain s2 t' h' where i: "bfs_insert key (pack_value start sz) s1 = Some (0, s2)" "inserted s1 t key (pack_value start sz) s2 t' h'"
    by (rule insert_inserted [OF a(2)]) (rule that)
  define s4 where "s4 = snd (bfs_name_table_upsert key name start sz (bfs_flush_root (set_root 5 (file_count s2 + 1) s2)))"
  have n4: "names_only (bfs_flush_root (set_root 5 (file_count s2 + 1) s2)) s4" unfolding s4_def by (rule name_upsert_only)
  note ap = extents_apart [OF m a(8)]
  note e = entry_inserted [OF m a(3) i(2) a(7) ap(1) _ n4]
  have e': "mounted s4 t' h'" "\<And>k. k \<noteq> key \<Longrightarrow> files s4 t' k = files s t k" "map_of (entries t') key = Some (pack_value start sz)"
    "file_count s4 = file_count s2 + 1" using e ap(2) by blast+
  have "bfs_create name sz s = Some (0, s4)"
    using search_ok [of s t h key] m absent a(1) i(1)
    by (simp add: bfs_create_def key_def [symmetric] mounted_def Let_def s4_def)
  moreover have "files s4 t' = (files s t)(key \<mapsto> file_bytes (disk s4) (pack_value start sz))"
    using e'(2,3) by (auto simp: fun_eq_iff files_def)
  moreover have "length (file_bytes (disk s4) (pack_value start sz)) = unat sz" by (simp add: file_bytes_def a(6))
  moreover have "file_count s2 = file_count s" using i(2) a(5) by (simp add: inserted_def)
  ultimately show ?thesis using e'(1,4) key_def by metis
qed

section \<open>Formatting and mounting\<close>

lemma empty_leaf: "leaf_page fresh_page []" "p_parent fresh_page = 0"
  by (simp_all add: leaf_page_def fresh_page_def p_parent_def)
     (simp_all add: p_level_def p_count_def zero_page_def)

lemma format_ok:
  assumes size: "3 \<le> unat (disk_size s div BFS_PAGE_SIZE)" "unat (disk_size s div BFS_PAGE_SIZE) < 4294967296"
    and ram: "backend s = BFS_BACKEND_RAM \<longrightarrow> ram_base s AND 7 = 0"
    and srv: "\<forall>p. p < disk_size s div BFS_PAGE_SIZE \<longrightarrow> serves s (page_off p)"
  shows "\<exists>s'. bfs_format s = (0, s') \<and> mounted s' (Leaf 1 []) 0 \<and> unat (free_pages s') = unat (disk_size s div BFS_PAGE_SIZE) - 3 \<and>
    file_count s' = 0 \<and> name_table_enabled s' \<and> backend s' = backend s"
proof -
  let ?t = "disk_size s div BFS_PAGE_SIZE"
  define rb where "rb = (\<lambda>i. if i < 512 then 0 else root_buf s i)(0 := super_word, 2 := ?t, 3 := ?t - 3, 4 := 3, 5 := 0, 1 := 1)"
  define s1 where "s1 = s\<lparr>root_buf := rb, name_table_enabled := True\<rparr>"
  define s2 where "s2 = put 1 fresh_page (put 0 (root_buf s1) s1)"
  define s3 where "s3 = s2\<lparr>name_buf := (\<lambda>i. if i < 9 * BFS_NAME_ENTRIES then 0 else name_buf s2 i)\<rparr>"
  define s4 where "s4 = snd (bfs_name_table_write s3)"
  have f1: "total_pages s1 = ?t" "free_pages s1 = ?t - 3" "next_free s1 = 3" "root_page s1 = 1" "file_count s1 = 0" "root_buf s1 0 = super_word"
    by (simp_all add: s1_def rb_def total_pages_def free_pages_def next_free_def root_page_def file_count_def)
  have sv: "serves s1 off = serves s off" for off by (simp add: serves_def s1_def pmem_check_def pmem_ready_def)
  have d1: "dev_ok s1" using size(2) srv by (simp add: dev_ok_def f1 sv)
  have t0: "0 < ?t" "1 < ?t" using size(1) by (simp_all add: word_less_nat_alt)
  have uf: "unat (?t - 3) = unat ?t - 3" using size(1) by (simp add: unat_sub word_le_nat_alt)
  have sp: "space_ok s1" using size(1) by (simp add: space_ok_def f1 uf)
  have w: "bfs_write_page 1 fresh_page (bfs_flush_root s1) = s2"
    using flush_put [OF d1] page_ops(3) [of "put 0 (root_buf s1) s1" 1] d1 t0 f1(1) by (simp add: s2_def)
  have "bfs_format s = (let s = bfs_write_page 1 fresh_page (bfs_flush_root s1);
      s = s\<lparr>name_buf := (\<lambda>i. if i < 9 * BFS_NAME_ENTRIES then 0 else name_buf s i)\<rparr> in (0, snd (bfs_name_table_write s)))"
    using ram by (simp add: bfs_format_def Let_def s1_def rb_def super_word_def fresh_page_def)
  then have run: "bfs_format s = (0, s4)" unfolding w by (simp add: Let_def s3_def s4_def)
  have f2: "root_page s2 = 1" "next_free s2 = 3" "total_pages s2 = ?t" "free_pages s2 = ?t - 3" "file_count s2 = 0" "root_buf s2 0 = super_word"
    using f1 by (simp_all add: s2_def)
  have d: "disk s2 0 = trunc (root_buf s2)" "disk s2 (page_off 1) = trunc fresh_page"
    using disk_put_apply [of 1 0 fresh_page "put 0 (root_buf s1) s1"] by (simp_all add: s2_def disk_put)
  have "tree_ok s2 (Leaf 1 []) 0" by (simp add: tree_ok_def f2 d(2) empty_leaf BFS_NAME_TABLE_PAGE_def)
  then have fs2: "fs_ok s2 (Leaf 1 []) 0" using d1 sp d(1) by (simp add: fs_ok_def s2_def space_ok_def)
  have n: "names_only s2 s4" unfolding s4_def s3_def by (rule name_write_after) simp
  have fs4: "fs_ok s4 (Leaf 1 []) 0" by (rule fs_ok_names [OF fs2 n])
  have rb4: "root_buf s4 = root_buf s2" "name_table_enabled s4" "backend s4 = backend s" using n by (simp_all add: names_only_def same_dev_def s2_def s1_def put_def)
  then have "mounted s4 (Leaf 1 []) 0" using fs4 f2(6) by (simp add: mounted_def extents_ok_def)
  moreover have "free_pages s4 = ?t - 3" "file_count s4 = 0" using rb4(1) f2 by (simp_all add: free_pages_def file_count_def)
  ultimately show ?thesis using run rb4(2,3) uf by auto
qed

lemma super_fields: "root_magic p = BFS_MAGIC" "root_version p = BFS_VERSION" if "p 0 = super_word"
  unfolding root_magic_def root_version_def that super_word_def
  by (rule bit_word_eqI; auto simp: bit_simps dest: bit_imp_le_length)+

text \<open>Mounting finds the files the device holds, whatever the memory held before.\<close>

lemma mount_ok:
  assumes m: "mounted s t h" and disk: "disk s' = disk s" and size: "8192 \<le> unat sz"
    and dev: "base \<noteq> 0 \<and> backend s = BFS_BACKEND_RAM \<or>
      base = 0 \<and> backend s = BFS_BACKEND_PMEM \<and> pmem_kind s' = pmem_kind s \<and> pmem_bytes s' = pmem_bytes s \<and>
      drive_ok s' = drive_ok s \<and> sz \<le> pmem_bytes s"
  shows "\<exists>s''. bfs_init sz base s' = (0, s'') \<and> mounted s'' t h \<and> files s'' t = files s t \<and> file_count s'' = file_count s \<and>
    free_pages s'' = free_pages s \<and> name_table_enabled s''"
proof -
  have fs: "fs_ok s t h" and w: "root_buf s 0 = super_word" using m by (simp_all add: mounted_def)
  note f = fs_okD [OF fs]
  define s1 where "s1 = s'\<lparr>disk_size := sz, ram_base := base,
    backend := (if base \<noteq> 0 then BFS_BACKEND_RAM else BFS_BACKEND_PMEM), name_table_enabled := False\<rparr>"
  define s2 where "s2 = s1\<lparr>root_buf := trunc (root_buf s), name_table_enabled := True\<rparr>"
  have sv: "serves s1 off = serves s off" for off
    using dev by (elim disjE) (simp_all add: serves_def s1_def pmem_check_def pmem_ready_def)
  then have sv2: "serves s2 off = serves s off" for off by (simp add: serves_def s2_def pmem_check_def pmem_ready_def)
  have s0: "serves s (page_off 0)" using f(1,12) unfolding dev_ok_def by blast
  then have rd: "bfs_device_read s1 0 = Some (trunc (root_buf s))"
    using device_served(1) [of s1 0] sv f(3) disk by (simp add: s1_def)
  have rdy: "\<not> (backend s1 = BFS_BACKEND_PMEM \<and> (\<not> pmem_ready s1 \<or> sz > pmem_size s1))"
    using dev s0 by (auto simp: s1_def pmem_ready_def pmem_size_def serves_def)
  have tw: "trunc (root_buf s) 0 = super_word" using w by simp
  have run: "bfs_init sz base s' = (0, s2)"
    using size rdy rd super_fields [where p = "trunc (root_buf s)", OF tw]
    by (simp add: bfs_init_def s1_def [symmetric] Let_def BFS_PAGE_SIZE_def word_less_nat_alt s2_def)
  have fields: "root_page s2 = root_page s" "total_pages s2 = total_pages s" "free_pages s2 = free_pages s" "next_free s2 = next_free s"
    "file_count s2 = file_count s" "disk s2 = disk s"
    using disk by (simp_all add: s2_def s1_def root_page_def total_pages_def free_pages_def next_free_def file_count_def)
  have "trunc (trunc (root_buf s)) = trunc (root_buf s)" by (auto simp: trunc_def)
  then have "fs_ok s2 t h" using fs fields sv2 by (simp add: fs_ok_def dev_ok_def space_ok_def tree_ok_def s2_def)
  then have "mounted s2 t h" using m fields tw by (simp add: mounted_def extents_ok_def s2_def)
  moreover have "files s2 t = files s t" by (rule ext) (simp add: files_def fields)
  moreover have "name_table_enabled s2" by (simp add: s2_def)
  ultimately show ?thesis using run fields by blast
qed

end
