(* ===== verification/File_Store.thy ===== *)
theory File_Store
  imports BFS_Store
begin

text \<open>
  What a client of the file system relies on: a store of files under keys derived from names. The
  locale states the laws, its lemmas are what clients use, and the file system of \<open>bfs.c\<close> satisfies
  them. The section on directories gives the format of a listing.
\<close>

section \<open>The interface\<close>

text \<open>What reading reports for a file, for a buffer of \<open>max_size\<close> bytes.\<close>

definition read_result :: "u8 list option \<Rightarrow> u64 \<Rightarrow> int \<times> u64 option \<times> u8 list option" where
  "read_result f max_size =
     (case f of
        None \<Rightarrow> (-1, None, None)
      | Some bs \<Rightarrow> if bs \<noteq> [] \<and> unat max_size < length bs then (-2, Some (of_nat (length bs)), None)
                   else (0, Some (of_nat (length bs)), Some bs))"

locale file_store =
  fixes rep :: "'s \<Rightarrow> 'l \<Rightarrow> ('k \<Rightarrow> u8 list option) \<Rightarrow> bool"
    and fits :: "'s \<Rightarrow> 'l \<Rightarrow> 'n \<Rightarrow> nat \<Rightarrow> bool"
    and key :: "'n \<Rightarrow> 'k"
    and write_file :: "'n \<Rightarrow> u8 list \<Rightarrow> 's \<Rightarrow> (int \<times> 's) option"
    and read_file :: "'n \<Rightarrow> u64 \<Rightarrow> 's \<Rightarrow> (int \<times> u64 option \<times> u8 list option) option"
    and remove_file :: "'n \<Rightarrow> 's \<Rightarrow> (int \<times> 's) option"
  assumes write_law: "rep s l m \<Longrightarrow> fits s l n (length bs) \<Longrightarrow>
      \<exists>s' l'. write_file n bs s = Some (0, s') \<and> rep s' l' (m(key n \<mapsto> bs))"
    and read_law: "rep s l m \<Longrightarrow> read_file n max_size s = Some (read_result (m (key n)) max_size)"
    and remove_law: "rep s l m \<Longrightarrow> m (key n) \<noteq> None \<Longrightarrow> \<exists>s' l'. remove_file n s = Some (0, s') \<and> rep s' l' (m(key n := None))"
    and remove_absent: "rep s l m \<Longrightarrow> m (key n) = None \<Longrightarrow> remove_file n s = Some (-1, s)"
begin

lemma write_then_read:
  assumes "rep s l m" and "fits s l n (length bs)"
  shows "\<exists>s' l'. write_file n bs s = Some (0, s') \<and> rep s' l' (m(key n \<mapsto> bs)) \<and>
    (\<forall>max_size. length bs \<le> unat max_size \<longrightarrow> read_file n max_size s' = Some (0, Some (of_nat (length bs)), Some bs)) \<and>
    (\<forall>n' max_size. key n' \<noteq> key n \<longrightarrow> read_file n' max_size s' = read_file n' max_size s)"
proof -
  obtain s' l' where w: "write_file n bs s = Some (0, s')" "rep s' l' (m(key n \<mapsto> bs))" using write_law [OF assms] by blast
  have "read_file n' max_size s' = Some (read_result ((m(key n \<mapsto> bs)) (key n')) max_size)" for n' max_size
    using read_law [OF w(2)] .
  then show ?thesis using w read_law [OF assms(1)] by (auto simp: read_result_def)
qed

text \<open>Deleting a file that was new takes the writing back.\<close>

lemma write_then_remove:
  assumes "rep s l m" and "fits s l n (length bs)" and "m (key n) = None"
  shows "\<exists>s' s''. write_file n bs s = Some (0, s') \<and> remove_file n s' = Some (0, s'') \<and>
    remove_file n s'' = Some (-1, s'') \<and> (\<forall>n' max_size. read_file n' max_size s'' = read_file n' max_size s)"
proof -
  obtain s' l' where w: "write_file n bs s = Some (0, s')" "rep s' l' (m(key n \<mapsto> bs))" using write_law [OF assms(1,2)] by blast
  obtain s'' l'' where r: "remove_file n s' = Some (0, s'')" "rep s'' l'' ((m(key n \<mapsto> bs))(key n := None))"
    using remove_law [OF w(2), of n] by auto
  have "(m(key n \<mapsto> bs))(key n := None) = m" using assms(3) by auto
  then have m: "rep s'' l'' m" using r(2) by simp
  then show ?thesis using w(1) r(1) read_law [OF m] read_law [OF assms(1)] remove_absent [OF m assms(3)] by auto
qed

text \<open>Names with the same key are the same file.\<close>

lemma alias_read:
  assumes "rep s l m" and "key n' = key n"
  shows "read_file n' max_size s = read_file n max_size s"
  using read_law [OF assms(1), of n'] read_law [OF assms(1), of n] assms(2) by simp

end

section \<open>The file system satisfies it\<close>

definition bfs_rep :: "bfs_instance \<Rightarrow> btree \<times> nat \<Rightarrow> (u64 \<Rightarrow> u8 list option) \<Rightarrow> bool" where
  "bfs_rep s l m \<longleftrightarrow> mounted s (fst l) (snd l) \<and> files s (fst l) = m"

definition bfs_fits :: "bfs_instance \<Rightarrow> btree \<times> nat \<Rightarrow> cstr \<Rightarrow> nat \<Rightarrow> bool" where
  "bfs_fits s l name len \<longleftrightarrow> len < 4294967296 \<and> room_for s (fst l) (bfs_hash name) len"

lemma write_ok:
  assumes "mounted s t h" and "length buf < 4294967296" and "room_for s t (bfs_hash name) (length buf)"
  shows "\<exists>s' t' h'. bfs_write_file name buf s = Some (0, s') \<and> mounted s' t' h' \<and>
    files s' t' = (files s t)(bfs_hash name \<mapsto> buf) \<and>
    file_count s' = (if files s t (bfs_hash name) = None then file_count s + 1 else file_count s) \<and> same_dev s s'"
proof (cases "map_of (entries t) (bfs_hash name)")
  case None
  then have "files s t (bfs_hash name) = None" by (simp add: files_def)
  then show ?thesis using write_new [OF assms(1) None assms(2,3)] by simp
next
  case (Some v)
  then have "files s t (bfs_hash name) = Some (file_bytes (disk s) v)" by (simp add: files_def)
  then show ?thesis using write_over [OF assms(1) Some assms(2,3)] by simp
qed

interpretation bfs: file_store bfs_rep bfs_fits bfs_hash bfs_write_file bfs_read_file bfs_delete
proof unfold_locales
  fix s :: bfs_instance and l :: "btree \<times> nat" and m n and bs :: "u8 list" and max_size
  assume m: "bfs_rep s l m"
  then have mt: "mounted s (fst l) (snd l)" and fm: "files s (fst l) = m" by (simp_all add: bfs_rep_def)
  show "\<exists>s' l'. bfs_write_file n bs s = Some (0, s') \<and> bfs_rep s' l' (m(bfs_hash n \<mapsto> bs))" if "bfs_fits s l n (length bs)"
    using write_ok [OF mt, of bs n] that fm by (fastforce simp: bfs_fits_def bfs_rep_def)
  show "bfs_read_file n max_size s = Some (read_result (m (bfs_hash n)) max_size)"
    using read_ok [OF mt] fm by (simp add: read_result_def)
  show "\<exists>s' l'. bfs_delete n s = Some (0, s') \<and> bfs_rep s' l' (m(bfs_hash n := None))" if some: "m (bfs_hash n) \<noteq> None"
  proof -
    obtain v where v: "map_of (entries (fst l)) (bfs_hash n) = Some v"
      using some fm by (cases "map_of (entries (fst l)) (bfs_hash n)") (auto simp: files_def)
    show ?thesis using delete_present [OF mt v] fm by (fastforce simp: bfs_rep_def)
  qed
  show "bfs_delete n s = Some (-1, s)" if "m (bfs_hash n) = None"
    by (rule delete_absent [OF mt]) (use that fm in \<open>auto simp: files_def\<close>)
qed

section \<open>A RAM disk\<close>

text \<open>A RAM disk of sixteen pages with nothing on it, and its state after formatting.\<close>

definition ram_disk :: bfs_instance where
  "ram_disk = \<lparr>disk = (\<lambda>_. zero_page), pmem_kind = PMEM_BACKEND_NONE, pmem_bytes = 0, drive_ok = (\<lambda>_. False),
     disk_size = 65536, ram_base = 0x100000, backend = BFS_BACKEND_RAM, root_buf = zero_page, name_buf = zero_page,
     name_table_enabled = False\<rparr>"

lemma ram_disk_formatted:
  obtains s where "bfs_format ram_disk = (0, s)" "mounted s (Leaf 1 []) 0" "unat (free_pages s) = 13" "file_count s = 0" "name_table_enabled s"
    "backend s = BFS_BACKEND_RAM"
proof -
  have "disk_size ram_disk div BFS_PAGE_SIZE = 16" by (simp add: ram_disk_def BFS_PAGE_SIZE_def)
  then show thesis using format_ok [of ram_disk] that by (auto simp: ram_disk_def serves_def)
qed

lemma ram_disk_room:
  assumes "unat (free_pages s) = 13" and "len \<le> 4096"
  shows "room_for s (Leaf 1 []) key len" and "len < 4294967296"
  using assms by (simp_all add: room_for_def has_room_def BFS_MAX_KEYS_def blocks_def)

text \<open>Memory after a restart, with the drive detected again where the file system is on it.\<close>

definition restarted :: "u64 \<Rightarrow> u64 \<Rightarrow> bfs_instance \<Rightarrow> bfs_instance" where
  "restarted base n lost = (if base = 0 then snd (pmem_init None (Some n) lost) else lost)"

lemma pmem_found: "n \<noteq> 0 \<Longrightarrow> snd (pmem_init None (Some n) s) = s\<lparr>pmem_kind := PMEM_BACKEND_IDE, pmem_bytes := n\<rparr>"
  by (simp add: pmem_init_def Let_def)

lemma restart_mounts:
  assumes "mounted s t h" and "disk lost = disk s \<and> drive_ok lost = drive_ok s" and "base \<noteq> 0 \<longleftrightarrow> backend s = BFS_BACKEND_RAM"
    and "8192 \<le> unat sz" and "base = 0 \<Longrightarrow> sz \<le> pmem_bytes s"
  shows "\<exists>s''. bfs_init sz base (restarted base (pmem_bytes s) lost) = (0, s'') \<and> mounted s'' t h \<and> files s'' t = files s t \<and>
    file_count s'' = file_count s \<and> free_pages s'' = free_pages s"
proof (cases "base = 0")
  case True
  have b: "backend s = BFS_BACKEND_PMEM" using assms(3) True by (cases "backend s") simp_all
  have "fs_ok s t h" using assms(1) by (simp add: mounted_def)
  note f = fs_okD [OF this]
  have "serves s (page_off 0)" using f(1,12) unfolding dev_ok_def by blast
  then have k: "pmem_kind s = PMEM_BACKEND_IDE" using b by (simp add: serves_def)
  have n: "pmem_bytes s \<noteq> 0" using assms(4,5) True by (auto simp: word_le_nat_alt)
  have r: "restarted base (pmem_bytes s) lost = lost\<lparr>pmem_kind := PMEM_BACKEND_IDE, pmem_bytes := pmem_bytes s\<rparr>"
    using True pmem_found [OF n] by (simp add: restarted_def)
  show ?thesis using mount_ok [OF assms(1) _ assms(4), of "restarted base (pmem_bytes s) lost" base] assms(2,5) True b k unfolding r by auto
next
  case False
  then show ?thesis using mount_ok [OF assms(1) _ assms(4), of lost base] assms(2,3) by (auto simp: restarted_def)
qed

text \<open>An empty IDE drive of 16 pages.\<close>

definition ide_disk :: bfs_instance where
  "ide_disk = \<lparr>disk = (\<lambda>_. zero_page), pmem_kind = PMEM_BACKEND_IDE, pmem_bytes = 65536, drive_ok = (\<lambda>_. True),
     disk_size = 65536, ram_base = 0, backend = BFS_BACKEND_PMEM, root_buf = zero_page, name_buf = zero_page,
     name_table_enabled = False\<rparr>"

lemma ide_disk_serves:
  assumes "p < 16"
  shows "serves ide_disk (page_off p)"
proof -
  define n where "n = unat p"
  have p: "p = of_nat n" and "n < 16" using assms by (simp_all add: n_def word_less_nat_alt)
  then have "n \<in> {0, 1, 2, 3, 4, 5, 6, 7, 8, 9, 10, 11, 12, 13, 14, 15}" unfolding insert_iff empty_iff by presburger
  then show ?thesis unfolding p
    by (elim insertE) (simp_all add: serves_def ide_disk_def pmem_check_def pmem_ready_def page_off_def BFS_PAGE_SIZE_def PMEM_SECTOR_SIZE_def)
qed

lemma device_write_size [simp]: "pmem_bytes (snd (bfs_device_write off p s)) = pmem_bytes s"
  by (simp add: bfs_device_write_def pmem_write_def)

lemma format_size: "pmem_bytes (snd (bfs_format s)) = pmem_bytes s"
  by (simp add: bfs_format_def bfs_flush_root_def bfs_write_page_def bfs_name_table_write_def Let_def split: prod.split)

lemma ide_disk_formatted:
  obtains s where "bfs_format ide_disk = (0, s)" "mounted s (Leaf 1 []) 0" "unat (free_pages s) = 13"
    "backend s = BFS_BACKEND_PMEM" "pmem_bytes s = 65536"
proof -
  have "disk_size ide_disk div BFS_PAGE_SIZE = 16" by (simp add: ide_disk_def BFS_PAGE_SIZE_def)
  then obtain s where s: "bfs_format ide_disk = (0, s)" "mounted s (Leaf 1 []) 0" "unat (free_pages s) = 13" "backend s = backend ide_disk"
    using format_ok [of ide_disk] ide_disk_serves by (auto simp: ide_disk_def)
  moreover have "pmem_bytes s = pmem_bytes ide_disk" using format_size [of ide_disk] s(1) by simp
  ultimately show thesis using that by (simp add: ide_disk_def)
qed

text \<open>Names used in examples.\<close>

definition file_ab :: cstr where "file_ab = [0x61, 0x62]"
definition file_bA :: cstr where "file_bA = [0x62, 0x41]"
definition file_cd :: cstr where "file_cd = [0x63, 0x64]"

lemma example_hashes: "bfs_hash file_ab = 5863208" "bfs_hash file_bA = 5863208" "bfs_hash file_cd = 5863276"
  by (simp_all add: bfs_hash_def file_ab_def file_bA_def file_cd_def push_bit_eq_mult)

section \<open>Properties\<close>

text \<open>
  C10. On a mounted file system \<open>bfs_write_file\<close> returns 0 for a buffer that fits and updates exactly
  the file of the hash of the name, whether the file is new, rewritten in place or moved to a new run
  of pages and whether or not a leaf of the tree is split; the state stays well-formed and the file
  count grows exactly for a new file.
\<close>

theorem write_file_refines:
  assumes "mounted s t h" and "length buf < 4294967296" and "room_for s t (bfs_hash name) (length buf)"
  shows "\<exists>s' t' h'. bfs_write_file name buf s = Some (0, s') \<and> mounted s' t' h' \<and>
    files s' t' = (files s t)(bfs_hash name \<mapsto> buf) \<and>
    file_count s' = (if files s t (bfs_hash name) = None then file_count s + 1 else file_count s)"
  using write_ok [OF assms] by blast

theorem write_file_refines_witness:
  "\<exists>s s' t' h'. bfs_format ram_disk = (0, s) \<and> bfs_write_file file_ab [1, 2, 3] s = Some (0, s') \<and> mounted s' t' h' \<and>
     files s' t' (bfs_hash file_ab) = Some [1, 2, 3] \<and> file_count s' = 1"
proof -
  obtain s where s: "bfs_format ram_disk = (0, s)" "mounted s (Leaf 1 []) 0" "unat (free_pages s) = 13" "file_count s = 0"
    by (rule ram_disk_formatted) (rule that)
  have n: "files s (Leaf 1 []) (bfs_hash file_ab) = None" by (simp add: files_def)
  have "length [1, 2, 3 :: u8] < 4294967296" "room_for s (Leaf 1 []) (bfs_hash file_ab) (length [1, 2, 3 :: u8])"
    using ram_disk_room [OF s(3)] by simp_all
  from write_file_refines [OF s(2) this] obtain s' t' h' where
    "bfs_write_file file_ab [1, 2, 3] s = Some (0, s')" "mounted s' t' h'"
    "files s' t' = (files s (Leaf 1 []))(bfs_hash file_ab \<mapsto> [1, 2, 3])" "file_count s' = 1"
    using s(4) n by auto
  then show ?thesis using s(1) by (intro exI conjI) auto
qed

text \<open>
  C13. What was written is read back: after \<open>bfs_write_file\<close> every \<open>bfs_read_file\<close> of that name with a
  large enough buffer returns exactly the bytes, and reading a name with another hash returns what it
  returned before.
\<close>

theorem write_read_roundtrip:
  assumes "mounted s t h" and "length buf < 4294967296" and "room_for s t (bfs_hash name) (length buf)"
  shows "\<exists>s'. bfs_write_file name buf s = Some (0, s') \<and>
    (\<forall>max_size. length buf \<le> unat max_size \<longrightarrow>
      bfs_read_file name max_size s' = Some (0, Some (of_nat (length buf)), Some buf)) \<and>
    (\<forall>name' max_size. bfs_hash name' \<noteq> bfs_hash name \<longrightarrow> bfs_read_file name' max_size s' = bfs_read_file name' max_size s)"
proof -
  have "bfs_rep s (t, h) (files s t)" "bfs_fits s (t, h) name (length buf)" using assms by (simp_all add: bfs_rep_def bfs_fits_def)
  then show ?thesis using bfs.write_then_read by blast
qed

theorem write_read_roundtrip_witness:
  "\<exists>s s'. bfs_format ram_disk = (0, s) \<and> bfs_write_file file_ab [1, 2, 3] s = Some (0, s') \<and>
     bfs_read_file file_ab 4096 s' = Some (0, Some 3, Some [1, 2, 3]) \<and> bfs_read_file file_cd 4096 s' = bfs_read_file file_cd 4096 s"
proof -
  obtain s where s: "bfs_format ram_disk = (0, s)" "mounted s (Leaf 1 []) 0" "unat (free_pages s) = 13"
    by (rule ram_disk_formatted) (rule that)
  have "length [1, 2, 3 :: u8] < 4294967296" "room_for s (Leaf 1 []) (bfs_hash file_ab) (length [1, 2, 3 :: u8])"
    using ram_disk_room [OF s(3)] by simp_all
  from write_read_roundtrip [OF s(2) this] show ?thesis using s(1) example_hashes by fastforce
qed

text \<open>
  Deleting takes a new file back: writing a name that has no file and deleting it again both
  return 0, after which a second delete reports -1 and every name reads as before.
\<close>

theorem delete_undoes_write:
  assumes "mounted s t h" and "length buf < 4294967296" and "room_for s t (bfs_hash name) (length buf)"
    and "files s t (bfs_hash name) = None"
  shows "\<exists>s' s''. bfs_write_file name buf s = Some (0, s') \<and> bfs_delete name s' = Some (0, s'') \<and>
    bfs_delete name s'' = Some (-1, s'') \<and> (\<forall>name' max_size. bfs_read_file name' max_size s'' = bfs_read_file name' max_size s)"
proof -
  have "bfs_rep s (t, h) (files s t)" "bfs_fits s (t, h) name (length buf)" using assms by (simp_all add: bfs_rep_def bfs_fits_def)
  then show ?thesis using bfs.write_then_remove assms(4) by blast
qed

theorem delete_undoes_write_witness:
  "\<exists>s s' s''. bfs_format ram_disk = (0, s) \<and> bfs_write_file file_ab [1, 2, 3] s = Some (0, s') \<and>
     bfs_delete file_ab s' = Some (0, s'') \<and> bfs_read_file file_ab 4096 s'' = bfs_read_file file_ab 4096 s"
proof -
  obtain s where s: "bfs_format ram_disk = (0, s)" "mounted s (Leaf 1 []) 0" "unat (free_pages s) = 13"
    by (rule ram_disk_formatted) (rule that)
  have "length [1, 2, 3 :: u8] < 4294967296" "room_for s (Leaf 1 []) (bfs_hash file_ab) (length [1, 2, 3 :: u8])"
    "files s (Leaf 1 []) (bfs_hash file_ab) = None"
    using ram_disk_room [OF s(3)] by (simp_all add: files_def)
  from delete_undoes_write [OF s(2) this] show ?thesis using s(1) by blast
qed

text \<open>
  C14. Files survive a restart, on the drive and on the RAM disk: when after a write everything in memory is
  lost but the contents of the device, and \<open>pmem_init\<close> finds an IDE drive of the same size again where the file
  system is on the drive, \<open>bfs_init\<close> returns 0 and the file system it
  mounts reads every name as the one before did, the file just written included, with the same
  file count and free space.
\<close>

theorem remount_keeps_files:
  assumes "mounted s t h" and "length buf < 4294967296" and "room_for s t (bfs_hash name) (length buf)"
    and "base \<noteq> 0 \<longleftrightarrow> backend s = BFS_BACKEND_RAM" and "8192 \<le> unat sz" and "base = 0 \<Longrightarrow> sz \<le> pmem_bytes s"
    and "length buf \<le> unat max_size"
  shows "\<exists>s'. bfs_write_file name buf s = Some (0, s') \<and>
    (\<forall>lost. disk lost = disk s' \<and> drive_ok lost = drive_ok s' \<longrightarrow>
      (\<exists>s''. bfs_init sz base (if base = 0 then snd (pmem_init None (Some (pmem_bytes s)) lost) else lost) = (0, s'') \<and>
        bfs_read_file name max_size s'' = Some (0, Some (of_nat (length buf)), Some buf) \<and>
        (\<forall>name' m. bfs_read_file name' m s'' = bfs_read_file name' m s') \<and>
        file_count s'' = file_count s' \<and> free_pages s'' = free_pages s'))"
proof -
  obtain s' t' h' where w: "bfs_write_file name buf s = Some (0, s')" "mounted s' t' h'" "files s' t' = (files s t)(bfs_hash name \<mapsto> buf)"
    "same_dev s s'" using write_ok [OF assms(1-3)] by blast
  have "\<exists>s''. bfs_init sz base (restarted base (pmem_bytes s) lost) = (0, s'') \<and>
      bfs_read_file name max_size s'' = Some (0, Some (of_nat (length buf)), Some buf) \<and>
      (\<forall>name' m. bfs_read_file name' m s'' = bfs_read_file name' m s') \<and> file_count s'' = file_count s' \<and> free_pages s'' = free_pages s'"
    if lost: "disk lost = disk s' \<and> drive_ok lost = drive_ok s'" for lost
  proof -
    have "base \<noteq> 0 \<longleftrightarrow> backend s' = BFS_BACKEND_RAM" "pmem_bytes s' = pmem_bytes s" using w(4) assms(4) by (simp_all add: same_dev_def)
    then obtain s'' where m: "bfs_init sz base (restarted base (pmem_bytes s) lost) = (0, s'')" "mounted s'' t' h'" "files s'' t' = files s' t'"
      "file_count s'' = file_count s'" "free_pages s'' = free_pages s'"
      using restart_mounts [OF w(2) lost _ assms(5)] assms(6) by metis
    have "bfs_read_file n x s'' = bfs_read_file n x s'" for n x using read_ok [OF m(2)] read_ok [OF w(2)] m(3) by simp
    moreover have "bfs_read_file name max_size s'' = Some (0, Some (of_nat (length buf)), Some buf)"
      using read_ok [OF m(2)] m(3) w(3) assms(7) by simp
    ultimately show ?thesis using m by blast
  qed
  then show ?thesis using w(1) unfolding restarted_def by blast
qed

theorem remount_keeps_files_witness:
  "\<exists>s s' s''. bfs_format ide_disk = (0, s) \<and> bfs_write_file file_ab [1, 2, 3] s = Some (0, s') \<and>
     bfs_init 65536 0 (snd (pmem_init None (Some 65536) (ram_disk\<lparr>disk := disk s', drive_ok := drive_ok s'\<rparr>))) = (0, s'') \<and>
     bfs_read_file file_ab 4096 s'' = Some (0, Some 3, Some [1, 2, 3])"
proof -
  obtain s where s: "bfs_format ide_disk = (0, s)" "mounted s (Leaf 1 []) 0" "unat (free_pages s) = 13" "backend s = BFS_BACKEND_PMEM"
    "pmem_bytes s = 65536" by (rule ide_disk_formatted) (rule that)
  have r: "length [1, 2, 3 :: u8] < 4294967296" "room_for s (Leaf 1 []) (bfs_hash file_ab) (length [1, 2, 3 :: u8])"
    using ram_disk_room [OF s(3)] by simp_all
  have "(0 :: u64) \<noteq> 0 \<longleftrightarrow> backend s = BFS_BACKEND_RAM" "8192 \<le> unat (65536 :: u64)" "(0 :: u64) = 0 \<Longrightarrow> 65536 \<le> pmem_bytes s"
    "length [1, 2, 3 :: u8] \<le> unat (4096 :: u64)" using s(4,5) by simp_all
  from remount_keeps_files [OF s(2) r this] obtain s' where w: "bfs_write_file file_ab [1, 2, 3] s = Some (0, s')"
    "\<And>lost. disk lost = disk s' \<and> drive_ok lost = drive_ok s' \<Longrightarrow> \<exists>s''. bfs_init 65536 0 (snd (pmem_init None (Some 65536) lost)) = (0, s'') \<and>
      bfs_read_file file_ab 4096 s'' = Some (0, Some (of_nat (length [1, 2, 3 :: u8])), Some [1, 2, 3])"
    unfolding s(5) by fastforce
  show ?thesis using s(1) w(1) w(2) [of "ram_disk\<lparr>disk := disk s', drive_ok := drive_ok s'\<rparr>"] by auto
qed

text \<open>
  \<open>bfs_format\<close> of a device of at least three pages that serves its pages returns 0 and leaves a
  mounted file system: no file can be found or deleted, and all pages but the superblock, the root
  node and the name table are free.
\<close>

theorem format_empty:
  assumes "3 \<le> unat (disk_size s div BFS_PAGE_SIZE)" and "unat (disk_size s div BFS_PAGE_SIZE) < 4294967296"
    and "backend s = BFS_BACKEND_RAM \<longrightarrow> ram_base s AND 7 = 0"
    and "\<forall>p. p < disk_size s div BFS_PAGE_SIZE \<longrightarrow> serves s (page_off p)"
  shows "\<exists>s' t h. bfs_format s = (0, s') \<and> mounted s' t h \<and> unat (free_pages s') = unat (disk_size s div BFS_PAGE_SIZE) - 3 \<and>
    file_count s' = 0 \<and> (\<forall>name. bfs_find name s' = Some None \<and> bfs_delete name s' = Some (-1, s'))"
proof -
  obtain s' where f: "bfs_format s = (0, s')" "mounted s' (Leaf 1 []) 0"
    "unat (free_pages s') = unat (disk_size s div BFS_PAGE_SIZE) - 3" "file_count s' = 0"
    using format_ok [OF assms] by blast
  have "bfs_find name s' = Some None \<and> bfs_delete name s' = Some (-1, s')" for name
    using find_ok [OF f(2)] delete_absent [OF f(2)] by simp
  then show ?thesis using f by blast
qed

theorem format_empty_witness: "\<exists>s. bfs_format ram_disk = (0, s) \<and> unat (free_pages s) = 13 \<and> bfs_find file_ab s = Some None"
proof -
  have p: "disk_size ram_disk div BFS_PAGE_SIZE = 16" "ram_base ram_disk AND 7 = 0" "serves ram_disk off" for off
    by (simp_all add: ram_disk_def BFS_PAGE_SIZE_def serves_def)
  have "3 \<le> unat (disk_size ram_disk div BFS_PAGE_SIZE)" "unat (disk_size ram_disk div BFS_PAGE_SIZE) < 4294967296"
    "backend ram_disk = BFS_BACKEND_RAM \<longrightarrow> ram_base ram_disk AND 7 = 0"
    "\<forall>q. q < disk_size ram_disk div BFS_PAGE_SIZE \<longrightarrow> serves ram_disk (page_off q)" using p by simp_all
  from format_empty [OF this] show ?thesis using p(1) by auto
qed

text \<open>
  A write that does not find the pages it needs changes nothing: it returns -3 for a new file and
  -2 for a file that would grow, with the state as it was.
\<close>

theorem write_full_disk:
  assumes "mounted s t h" and "length buf < 4294967296" and "unat (free_pages s) < blocks (length buf)"
    and "\<forall>bs. files s t (bfs_hash name) = Some bs \<longrightarrow> length bs < length buf"
  shows "bfs_write_file name buf s = Some (if files s t (bfs_hash name) = None then -3 else -2, s)"
proof -
  let ?sz = "of_nat (length buf) :: u64"
  have u: "unat ?sz = length buf" using assms(2) by (simp add: unat_of_nat)
  have a: "alloc_blocks (blocks_for ?sz) s = (None, s)"
    using assms(3) blocks_for_nat [of ?sz] assms(2) u by (simp add: alloc_blocks_def word_less_nat_alt)
  show ?thesis
  proof (cases "map_of (entries t) (bfs_hash name)")
    case None
    then show ?thesis using search_ok [of s t h "bfs_hash name"] assms(1) a
      by (simp add: bfs_write_file_def mounted_def Let_def files_def)
  next
    case (Some v)
    then have "unat (value_size v) < length buf" using assms(4) by (simp add: files_def file_bytes_def)
    then have "?sz > value_size v" using u by (simp add: word_less_nat_alt)
    then show ?thesis using search_ok [of s t h "bfs_hash name"] assms(1) a Some
      by (simp add: bfs_write_file_def mounted_def Let_def files_def)
  qed
qed

theorem write_full_disk_witness:
  "\<exists>s. bfs_format ram_disk = (0, s) \<and> bfs_write_file file_ab (replicate 57345 0) s = Some (-3, s)"
proof -
  obtain s where s: "bfs_format ram_disk = (0, s)" "mounted s (Leaf 1 []) 0" "unat (free_pages s) = 13"
    by (rule ram_disk_formatted) (rule that)
  have "length (replicate 57345 (0 :: u8)) < 4294967296" "unat (free_pages s) < blocks (length (replicate 57345 (0 :: u8)))"
    "\<forall>bs. files s (Leaf 1 []) (bfs_hash file_ab) = Some bs \<longrightarrow> length bs < length (replicate 57345 (0 :: u8))"
    using s(3) by (simp_all only: length_replicate) (simp_all add: blocks_def files_def)
  from write_full_disk [OF s(2) this] have "bfs_write_file file_ab (replicate 57345 0) s = Some (-3, s)"
    by (simp only: files_def entries.simps map_of.simps option.map if_True simp_thms)
  then show ?thesis using s(1) by blast
qed

text \<open>
  C12. On a device that holds an ordered B+ tree, of any height, \<open>bfs_search\<close> returns and its result is
  the lookup of the key among the entries of the tree; when the key is there, the page and index it
  reports are where the value is stored.
\<close>

theorem search_is_lookup:
  assumes "fs_ok s t h"
  shows "\<exists>r. bfs_search s key = Some r \<and> (if found r then Some (val r) else None) = map_of (entries t) key \<and>
    page_num r \<in> set (pages t) \<and> (found r \<longrightarrow> p_value (disk s (page_off (page_num r))) (idx r) = val r)"
proof -
  let ?kvs = "snd (leaf_of t key)" and ?q = "fst (leaf_of t key)"
  let ?i = "pos (map fst ?kvs) key - 1"
  note lf = leaf_ok [OF assms, of key]
  show ?thesis
  proof (cases "map_of (entries t) key")
    case None
    then show ?thesis using search_ok [OF assms, of key] lf(1) by simp
  next
    case (Some v)
    note i = entry_index [OF assms Some]
    have "map_of ?kvs key = Some v" using Some lookup_leaf [OF assms] by simp
    moreover have "(key, snd (?kvs ! ?i)) \<in> set ?kvs" using i nth_mem [OF i(1)] by (metis prod.collapse)
    then have "map_of ?kvs key = Some (snd (?kvs ! ?i))" using lf(4) by simp
    ultimately have "disk s (page_off ?q) (130 + ?i) = v" using leaf_pageD(5) [OF lf(2) i(1)] by simp
    then show ?thesis using search_ok [OF assms, of key] lf(1) Some by (simp del: of_nat_diff)
  qed
qed

theorem search_is_lookup_witness: "\<exists>s r. bfs_format ram_disk = (0, s) \<and> bfs_search s 7 = Some r \<and> \<not> found r \<and> page_num r = 1"
proof -
  obtain s where s: "bfs_format ram_disk = (0, s)" "mounted s (Leaf 1 []) 0" by (rule ram_disk_formatted) (rule that)
  have "fs_ok s (Leaf 1 []) 0" using s(2) by (simp add: mounted_def)
  from search_is_lookup [OF this, of 7] obtain r where "bfs_search s 7 = Some r" "(if found r then Some (val r) else None) = None"
    "page_num r = 1" by auto
  then show ?thesis using s(1) by (auto split: if_splits)
qed

text \<open>
  C11. \<open>bfs_insert\<close> of a key for which there is room returns 0 and keeps the tree well-formed, in the
  cases of an entry that is there, a leaf with room, a leaf split under a parent with room and a split of
  a root leaf under a new root; afterwards a search finds the new value under the key and every other
  key as before. Pages that belong neither to the tree nor to the superblock are left alone.
\<close>

theorem insert_refines:
  assumes "fs_ok s t h" and "has_room (unat (free_pages s)) t key"
  shows "\<exists>s' t' h'. bfs_insert key v s = Some (0, s') \<and> fs_ok s' t' h' \<and> map_of (entries t') = (map_of (entries t))(key \<mapsto> v) \<and>
    (\<forall>k. \<exists>r. bfs_search s' k = Some r \<and> (if found r then Some (val r) else None) = ((map_of (entries t))(key \<mapsto> v)) k) \<and>
    (\<forall>p. p < next_free s \<and> p \<noteq> 0 \<and> p \<notin> set (pages t) \<longrightarrow> disk s' (page_off p) = disk s (page_off p))"
proof -
  obtain s' t' h' where i: "bfs_insert key v s = Some (0, s')" "inserted s t key v s' t' h'"
    by (rule insert_inserted [OF assms]) (rule that)
  note ins = i(2) [unfolded inserted_def keeps_def]
  have "\<exists>r. bfs_search s' k = Some r \<and> (if found r then Some (val r) else None) = map_of (entries t') k" for k
    using search_ok [of s' t' h' k] ins by (simp split: option.split)
  then show ?thesis using i(1) ins by (intro exI [of _ s'] exI [of _ t'] exI [of _ h']) simp
qed

theorem insert_refines_witness:
  "\<exists>s s' r. bfs_format ram_disk = (0, s) \<and> bfs_insert 7 42 s = Some (0, s') \<and> bfs_search s' 7 = Some r \<and> found r \<and> val r = 42"
proof -
  obtain s where s: "bfs_format ram_disk = (0, s)" "mounted s (Leaf 1 []) 0" by (rule ram_disk_formatted) (rule that)
  have "fs_ok s (Leaf 1 []) 0" "has_room (unat (free_pages s)) (Leaf 1 []) 7"
    using s(2) by (simp_all add: mounted_def has_room_def BFS_MAX_KEYS_def)
  from insert_refines [OF this, of 42] obtain s' r where "bfs_insert 7 42 s = Some (0, s')" "bfs_search s' 7 = Some r"
    "(if found r then Some (val r) else None) = Some 42" by (metis fun_upd_same)
  then show ?thesis using s(1) by (auto split: if_splits)
qed

section \<open>Directories\<close>

text \<open>A name as a listing shows it: directories are entries of size 0 and end in a slash.\<close>

definition listed :: "page \<Rightarrow> cstr \<Rightarrow> cstr \<Rightarrow> bool" where
  "listed t prefix e \<longleftrightarrow>
     (\<exists>i < BFS_NAME_ENTRIES. \<exists>n. e_hash t i \<noteq> 0 \<and> dir_entry prefix (e_name t i) = Some n \<and>
       e = n @ (if e_size t i = 0 then [SLASH] else []))"

lemma list_dir_loop_format:
  assumes "int (length (concat (map (\<lambda>e. e @ [0]) es))) + 2 \<le> out_len" and "\<forall>e \<in> set es. listed t prefix e"
  shows "\<exists>fs. list_dir_loop t prefix out_len i (int (length es)) (concat (map (\<lambda>e. e @ [0]) es)) =
      (int (length fs), concat (map (\<lambda>e. e @ [0]) fs)) \<and>
    int (length (concat (map (\<lambda>e. e @ [0]) fs))) + 2 \<le> out_len \<and> (\<forall>e \<in> set fs. listed t prefix e)"
  using assms
proof (induction "BFS_NAME_ENTRIES - i" arbitrary: i es)
  case 0
  then show ?case by (subst list_dir_loop.simps) (auto intro!: exI [of _ es])
next
  case (Suc d)
  have i: "i < BFS_NAME_ENTRIES" "d = BFS_NAME_ENTRIES - Suc i" using Suc(2) by simp_all
  note ih = Suc(1) [OF i(2)]
  show ?case
  proof (cases "e_hash t i = 0 \<or> dir_entry prefix (e_name t i) = None")
    case True
    then show ?thesis using i(1) ih [OF Suc(3,4)] by (subst list_dir_loop.simps) auto
  next
    case False
    then obtain n where n: "dir_entry prefix (e_name t i) = Some n" and h: "e_hash t i \<noteq> 0" by auto
    define e where "e = n @ (if e_size t i = 0 then [SLASH] else [])"
    have l: "\<forall>x \<in> set (es @ [e]). listed t prefix x" using Suc(4) i(1) n h by (auto simp: listed_def e_def)
    let ?out = "concat (map (\<lambda>e. e @ [0 :: u8]) es)"
    let ?need = "int (length n) + (if e_size t i = 0 then 1 else 0) + 1"
    have ne: "?need = int (length (e @ [0 :: u8]))" by (simp add: e_def)
    show ?thesis
    proof (cases "int (length ?out) + ?need + 1 \<ge> out_len")
      case True
      then show ?thesis using i(1) n h Suc(3,4) by (subst list_dir_loop.simps) (auto intro!: exI [of _ es])
    next
      case False
      have "int (length (concat (map (\<lambda>e. e @ [0 :: u8]) (es @ [e])))) + 2 \<le> out_len" using False unfolding ne by simp
      note r = ih [OF this l]
      have "list_dir_loop t prefix out_len i (int (length es)) ?out =
          list_dir_loop t prefix out_len (Suc i) (int (length (es @ [e]))) (concat (map (\<lambda>e. e @ [0 :: u8]) (es @ [e])))"
        using False i(1) n h by (subst list_dir_loop.simps) (simp add: e_def Let_def add.commute)
      then show ?thesis using r by simp
    qed
  qed
qed

text \<open>
  \<open>bfs_list_dir\<close> never writes past the buffer it is given: it stores a sequence of terminated names
  and a final terminator in fewer than \<open>out_len\<close> bytes, returns their number, and every name it stores is
  that of a direct child of the directory in the name table, with a slash when the entry is a directory.
\<close>

theorem list_dir_format:
  assumes "1 < out_len" and "bfs_list_dir prefix out_len s = ((cnt, out), s')"
  shows "\<exists>es. cnt = int (length es) \<and> out = concat (map (\<lambda>e. e @ [0]) es) @ [0] \<and> int (length out) < out_len \<and>
    (\<forall>e \<in> set es. listed (name_buf s') prefix e)"
proof -
  obtain r s1 where rd: "bfs_name_table_read s = (r, s1)" by (cases "bfs_name_table_read s")
  show ?thesis
  proof (cases "r = 0")
    case True
    obtain fs where "list_dir_loop (name_buf s1) prefix out_len 0 0 [] = (int (length fs), concat (map (\<lambda>e. e @ [0]) fs))"
      "int (length (concat (map (\<lambda>e. e @ [0 :: u8]) fs))) + 2 \<le> out_len" "\<forall>e \<in> set fs. listed (name_buf s1) prefix e"
      using list_dir_loop_format [of "[]" out_len "name_buf s1" prefix 0] assms(1) by auto
    then show ?thesis using assms rd True by (intro exI [of _ fs]) (auto simp: bfs_list_dir_def)
  next
    case False
    then show ?thesis using assms rd by (intro exI [of _ "[]"]) (auto simp: bfs_list_dir_def)
  qed
qed

theorem list_dir_format_witness:
  "bfs_list_dir [] 64 ram_disk = ((0, [0]), ram_disk) \<and> (\<exists>es. 0 = int (length (es :: cstr list)) \<and> [0 :: u8] = concat (map (\<lambda>e. e @ [0]) es) @ [0])"
proof -
  have "bfs_list_dir [] 64 ram_disk = ((0, [0]), ram_disk)"
    by (simp add: bfs_list_dir_def bfs_name_table_read_def ram_disk_def)
  with list_dir_format [OF _ this] show ?thesis by auto
qed

section \<open>Weak points\<close>

text \<open>The names \<open>ab\<close> and \<open>bA\<close> have the same hash and therefore name the same file.\<close>

lemma hash_collision:
  assumes "mounted s t h"
  shows "bfs_read_file file_bA max_size s = bfs_read_file file_ab max_size s"
  using bfs.alias_read [of s "(t, h)" "files s t" file_bA file_ab max_size] assms example_hashes by (simp add: bfs_rep_def)

text \<open>The bounds check of the device adds without looking at the carry: the last page of the address space passes it.\<close>

lemma pmem_check_wraps:
  assumes "pmem_kind s \<noteq> PMEM_BACKEND_NONE"
  shows "pmem_check s 0xFFFFFFFFFFFFF000 BFS_PAGE_SIZE"
proof -
  have sum: "0xFFFFFFFFFFFFF000 + BFS_PAGE_SIZE = 0" by (simp add: BFS_PAGE_SIZE_def word_uint_eq_iff)
  have "BFS_PAGE_SIZE \<noteq> 0" "0xFFFFFFFFFFFFF000 mod PMEM_SECTOR_SIZE = 0" "BFS_PAGE_SIZE mod PMEM_SECTOR_SIZE = 0"
    by (simp_all add: PMEM_SECTOR_SIZE_def BFS_PAGE_SIZE_def)
  then show ?thesis unfolding pmem_check_def sum pmem_ready_def using assms by simp
qed

end
