(* ===== verification/Net.thy ===== *)
theory Net
  imports Prelude
begin

text \<open>
  The network stack: \<open>src/kernel/net\<close> with the Ethernet, ARP, IPv4, ICMP and TCP layers. Packets are byte
  lists; a packed header is the concatenation of its fields, each stored little-endian as the processor
  stores it. The network card and the clock are parameters of the state: \<open>rx\<close> lists what the next calls
  of \<open>recv\<close> will return (an empty list for nothing pending), \<open>send_result\<close> what each \<open>send\<close> returns, \<open>tx\<close>
  the frames handed over so far, and \<open>clock\<close> the readings of \<open>timer_get_ms\<close> in their order.

  Receiving can send, sending resolves addresses, and resolving polls the card again, so that
  \<open>ethernet_poll\<close> is reentered from inside itself. The layers below take the polling function as an
  argument and the recursion is closed by \<open>poll_fuel\<close>: every nested call has taken a frame off \<open>rx\<close>, so
  the number of frames still to come bounds the depth (\<open>Net_Poll\<close> shows that more fuel changes nothing).
  A static buffer whose contents another call may replace before they are used is part of the state, and
  a pointer to it is a function of the state; the frame buffers \<open>rx_frame\<close>, \<open>tx_frame\<close> and \<open>ipv4_tx_buf\<close> are
  always read before the next call can replace them. Log messages are left out.
\<close>

section \<open>Bytes\<close>

definition htons16 :: "u16 \<Rightarrow> u16" where "htons16 h = drop_bit 8 h OR push_bit 8 h"

definition htonl32 :: "u32 \<Rightarrow> u32" where
  "htonl32 h = drop_bit 24 (h AND 0xFF000000) OR drop_bit 8 (h AND 0x00FF0000) OR
     push_bit 8 (h AND 0x0000FF00) OR push_bit 24 (h AND 0x000000FF)"

text \<open>Fields in memory.\<close>

definition st16 :: "u16 \<Rightarrow> u8 list" where "st16 w = [ucast w, ucast (drop_bit 8 w)]"
definition st32 :: "u32 \<Rightarrow> u8 list" where
  "st32 w = [ucast w, ucast (drop_bit 8 w), ucast (drop_bit 16 w), ucast (drop_bit 24 w)]"

definition rd8 :: "u8 list \<Rightarrow> nat \<Rightarrow> u8" where "rd8 bs i = (if i < length bs then bs ! i else 0)"
definition rd16 :: "u8 list \<Rightarrow> nat \<Rightarrow> u16" where "rd16 bs i = ucast (rd8 bs i) OR push_bit 8 (ucast (rd8 bs (i + 1)))"
definition rd32 :: "u8 list \<Rightarrow> nat \<Rightarrow> u32" where
  "rd32 bs i = ucast (rd8 bs i) OR push_bit 8 (ucast (rd8 bs (i + 1))) OR
     push_bit 16 (ucast (rd8 bs (i + 2))) OR push_bit 24 (ucast (rd8 bs (i + 3)))"

text \<open>The Internet checksum: the sum of the big-endian words, folded and complemented.\<close>

fun sum_words :: "u8 list \<Rightarrow> u32 \<Rightarrow> u32" where
  "sum_words (a # b # bs) acc = sum_words bs (acc + (push_bit 8 (ucast a) OR ucast b))"
| "sum_words [a] acc = acc + push_bit 8 (ucast a)"
| "sum_words [] acc = acc"

lemma drop_and_less:
  assumes "drop_bit 16 (s :: u32) \<noteq> 0"
  shows "unat ((s AND 0xFFFF) + drop_bit 16 s) < unat s"
proof -
  have m: "(0xFFFF :: u32) = mask 16" by (simp add: mask_eq_exp_minus_1)
  have a: "unat (s AND 0xFFFF) = unat s mod 65536" 
    unfolding m take_bit_eq_mask [symmetric] by (simp add: take_bit_eq_mod unat_mod)
  have d: "unat (drop_bit 16 s) = unat s div 65536" by (simp add: drop_bit_eq_div unat_div)
  have pos: "0 < unat s div 65536" using assms d by (metis unat_gt_0)
  have "unat s < 4294967296" using unsigned_less [of s, where 'a = nat] by simp
  then have "unat s mod 65536 + unat s div 65536 < 4294967296" by linarith
  then have "unat ((s AND 0xFFFF) + drop_bit 16 s) = unat s mod 65536 + unat s div 65536"
    using a d by (simp add: unat_word_ariths)
  also have "\<dots> < unat s mod 65536 + 65536 * (unat s div 65536)" using pos by linarith
  also have "\<dots> = unat s" by simp
  finally show ?thesis .
qed

function fold_sum :: "u32 \<Rightarrow> u32" where
  "fold_sum acc = (if drop_bit 16 acc \<noteq> 0 then fold_sum ((acc AND 0xFFFF) + drop_bit 16 acc) else acc)"
  by auto
termination by (relation "measure unat") (auto intro: drop_and_less)

definition ipv4_checksum :: "u8 list \<Rightarrow> u16" where
  "ipv4_checksum buf = ucast (NOT (fold_sum (sum_words buf 0)))"

definition icmp_checksum :: "u8 list \<Rightarrow> u16" where
  "icmp_checksum buf = ucast (NOT (fold_sum (sum_words buf 0)))"

definition IP_PROTO_ICMP :: u8 where "IP_PROTO_ICMP = 1"
definition IP_PROTO_TCP :: u8 where "IP_PROTO_TCP = 6"

definition tcp_checksum :: "u32 \<Rightarrow> u32 \<Rightarrow> u8 list \<Rightarrow> u16" where
  "tcp_checksum src_ip dst_ip seg =
     (let acc = 0;
          acc = acc + (drop_bit 16 src_ip AND 0xFFFF);
          acc = acc + (src_ip AND 0xFFFF);
          acc = acc + (drop_bit 16 dst_ip AND 0xFFFF);
          acc = acc + (dst_ip AND 0xFFFF);
          acc = acc + ucast IP_PROTO_TCP;
          acc = acc + ucast (of_nat (length seg) :: u16)
      in ucast (NOT (fold_sum (sum_words seg acc))))"

declare fold_sum.simps [simp del]

section \<open>State\<close>

record net_device =
  mac :: "u8 list"
  ip :: u32
  gateway :: u32
  netmask :: u32

record arp_entry =
  entry_ip :: u32
  entry_mac :: "u8 list"
  timestamp :: u64
  entry_valid :: bool

datatype tcp_state = TCP_CLOSED | TCP_SYN_SENT | TCP_ESTABLISHED | TCP_FIN_WAIT

record tcp_conn =
  conn_state :: tcp_state
  remote_ip :: u32
  remote_port :: u16
  local_port :: u16
  seq :: u32
  ack :: u32
  remote_seq :: u32
  recv_buf :: "nat \<Rightarrow> u8"
  recv_head :: nat
  recv_tail :: nat
  recv_closed :: bool

record net =
  device :: "net_device option"
  net_initialized :: bool
  rx :: "u8 list list"
  tx :: "u8 list list"
  send_result :: "nat \<Rightarrow> int"
  clock :: "nat \<Rightarrow> u64"
  clock_reads :: nat
  arp_cache :: "arp_entry list"
  ip_id_counter :: u16
  active_tcp_conn :: ptr
  conns :: "ptr \<Rightarrow> tcp_conn"
  isn_seed :: u32
  ephemeral_port :: u16
  icmp_reply_received :: bool
  icmp_expected_id :: u16
  icmp_expected_seq :: u16
  icmp_reply_buf :: "u8 list"
  tcp_tx_buf :: "u8 list"

type_synonym poller = "net \<Rightarrow> int \<times> net"

definition read_clock :: "net \<Rightarrow> u64 \<times> net" where
  "read_clock s = (clock s (clock_reads s), s\<lparr>clock_reads := clock_reads s + 1\<rparr>)"

definition dev_send :: "u8 list \<Rightarrow> net \<Rightarrow> int \<times> net" where
  "dev_send frame s = (send_result s (length (tx s)), s\<lparr>tx := tx s @ [frame]\<rparr>)"

text \<open>Overwriting the beginning of a static buffer.\<close>

definition fill :: "u8 list \<Rightarrow> u8 list \<Rightarrow> u8 list" where
  "fill bs buf = bs @ drop (length bs) buf"

text \<open>\<open>n\<close> polls in a row, their results ignored.\<close>

primrec poll_times :: "poller \<Rightarrow> nat \<Rightarrow> net \<Rightarrow> net" where
  "poll_times poll 0 s = s"
| "poll_times poll (Suc n) s = poll_times poll n (snd (poll s))"

section \<open>Ethernet\<close>

definition ETHERTYPE_ARP :: u16 where "ETHERTYPE_ARP = 0x0806"
definition ETHERTYPE_IPv4 :: u16 where "ETHERTYPE_IPv4 = 0x0800"
definition ETHERNET_HEADER_LEN :: nat where "ETHERNET_HEADER_LEN = 14"
definition ETHERNET_MAX_PAYLOAD :: nat where "ETHERNET_MAX_PAYLOAD = 1500"
definition ETHERNET_FRAME_MAX :: nat where "ETHERNET_FRAME_MAX = ETHERNET_HEADER_LEN + ETHERNET_MAX_PAYLOAD"
definition ethernet_broadcast :: "u8 list" where "ethernet_broadcast = replicate 6 0xFF"

definition ethernet_send :: "u8 list \<Rightarrow> u16 \<Rightarrow> u8 list \<Rightarrow> net \<Rightarrow> int \<times> net" where
  "ethernet_send dst_mac ethertype payload s =
     (case device s of
        None \<Rightarrow> (-1, s)
      | Some dev \<Rightarrow>
          if length payload > ETHERNET_MAX_PAYLOAD then (-1, s)
          else dev_send (dst_mac @ mac dev @ st16 (htons16 ethertype) @ payload) s)"

section \<open>ARP\<close>

definition ARP_HARDWARE_ETHERNET :: u16 where "ARP_HARDWARE_ETHERNET = 1"
definition ARP_PROTO_IPv4 :: u16 where "ARP_PROTO_IPv4 = 0x0800"
definition ARP_OP_REQUEST :: u16 where "ARP_OP_REQUEST = 1"
definition ARP_OP_REPLY :: u16 where "ARP_OP_REPLY = 2"
definition ARP_CACHE_SIZE :: nat where "ARP_CACHE_SIZE = 32"
definition ARP_ENTRY_TTL_MS :: u64 where "ARP_ENTRY_TTL_MS = 60000"
definition QEMU_SLIRP_GATEWAY_IP :: u32 where "QEMU_SLIRP_GATEWAY_IP = 0x0A000202"
definition qemu_slirp_gateway_mac :: "u8 list" where "qemu_slirp_gateway_mac = [0x52, 0x55, 0x0A, 0x00, 0x02, 0x02]"

text \<open>\<open>struct arp_packet\<close>; the addresses are given as they are stored.\<close>

definition arp_packet :: "u16 \<Rightarrow> u8 list \<Rightarrow> u32 \<Rightarrow> u8 list \<Rightarrow> u32 \<Rightarrow> u8 list" where
  "arp_packet op sender_mac sender_ip target_mac target_ip =
     st16 (htons16 ARP_HARDWARE_ETHERNET) @ st16 (htons16 ARP_PROTO_IPv4) @ [6, 4] @ st16 (htons16 op) @
     sender_mac @ st32 sender_ip @ target_mac @ st32 target_ip"

definition arp_init :: "net \<Rightarrow> net" where
  "arp_init s = s\<lparr>arp_cache := replicate ARP_CACHE_SIZE \<lparr>entry_ip = 0, entry_mac = replicate 6 0, timestamp = 0, entry_valid = False\<rparr>\<rparr>"

definition arp_find :: "arp_entry list \<Rightarrow> u32 \<Rightarrow> nat option" where
  "arp_find cache addr = find_from (\<lambda>i. entry_valid (cache ! i) \<and> entry_ip (cache ! i) = addr) 0 ARP_CACHE_SIZE"

function oldest_slot :: "arp_entry list \<Rightarrow> nat \<Rightarrow> nat \<Rightarrow> nat" where
  "oldest_slot cache i oldest =
     (if i < ARP_CACHE_SIZE
      then if \<not> entry_valid (cache ! i) then i
           else oldest_slot cache (Suc i) (if timestamp (cache ! i) < timestamp (cache ! oldest) then i else oldest)
      else oldest)"
  by auto
termination by (relation "measure (\<lambda>(_, i, _). ARP_CACHE_SIZE - i)") auto

definition arp_cache_insert :: "u32 \<Rightarrow> u8 list \<Rightarrow> net \<Rightarrow> net" where
  "arp_cache_insert addr hw s =
     (case arp_find (arp_cache s) addr of
        Some i \<Rightarrow>
          let (t, s) = read_clock s
          in s\<lparr>arp_cache := (arp_cache s)[i := (arp_cache s ! i)\<lparr>entry_mac := hw, timestamp := t\<rparr>]\<rparr>
      | None \<Rightarrow>
          let i = oldest_slot (arp_cache s) 1 0;
              (t, s) = read_clock s
          in s\<lparr>arp_cache := (arp_cache s)[i := \<lparr>entry_ip = addr, entry_mac = hw, timestamp = t, entry_valid = True\<rparr>]\<rparr>)"

definition arp_send_request :: "u32 \<Rightarrow> net \<Rightarrow> net" where
  "arp_send_request target_ip s =
     (case device s of
        None \<Rightarrow> s
      | Some dev \<Rightarrow>
          snd (ethernet_send ethernet_broadcast ETHERTYPE_ARP
            (arp_packet ARP_OP_REQUEST (mac dev) (htonl32 (ip dev)) (replicate 6 0) (htonl32 target_ip)) s))"

definition arp_receive :: "u8 list \<Rightarrow> net \<Rightarrow> net" where
  "arp_receive data s =
     (if length data < 28 then s
      else
        let hw_type = htons16 (rd16 data 0);
            proto_type = htons16 (rd16 data 2);
            op = htons16 (rd16 data 6);
            sender_mac = take 6 (drop 8 data)
        in if hw_type \<noteq> ARP_HARDWARE_ETHERNET \<or> proto_type \<noteq> ARP_PROTO_IPv4 then s
           else
             let s = arp_cache_insert (htonl32 (rd32 data 14)) sender_mac s
             in case device s of
                  None \<Rightarrow> s
                | Some dev \<Rightarrow>
                    if op = ARP_OP_REQUEST
                    then if htonl32 (rd32 data 24) \<noteq> ip dev then s
                         else snd (ethernet_send sender_mac ETHERTYPE_ARP
                           (arp_packet ARP_OP_REPLY (mac dev) (htonl32 (ip dev)) sender_mac (rd32 data 14)) s)
                    else s)"

definition arp_lookup :: "poller \<Rightarrow> u32 \<Rightarrow> net \<Rightarrow> u8 list option \<times> net" where
  "arp_lookup poll addr s =
     (let (hit, s) =
        (case arp_find (arp_cache s) addr of
           None \<Rightarrow> (None, s)
         | Some i \<Rightarrow>
             let (t, s) = read_clock s
             in if t - timestamp (arp_cache s ! i) > ARP_ENTRY_TTL_MS
                then (None, s\<lparr>arp_cache := (arp_cache s)[i := (arp_cache s ! i)\<lparr>entry_valid := False\<rparr>]\<rparr>)
                else (Some (entry_mac (arp_cache s ! i)), s))
      in case hit of
           Some hw \<Rightarrow> (Some hw, s)
         | None \<Rightarrow>
             let s = arp_send_request addr s;
                 s = poll_times poll 256 s
             in (case arp_find (arp_cache s) addr of
                  Some i \<Rightarrow> (Some (entry_mac (arp_cache s ! i)), s)
                | None \<Rightarrow>
                    (case device s of
                       None \<Rightarrow> (None, s)
                     | Some dev \<Rightarrow>
                         if addr = gateway dev \<and> addr = QEMU_SLIRP_GATEWAY_IP
                         then (Some qemu_slirp_gateway_mac, arp_cache_insert addr qemu_slirp_gateway_mac s)
                         else (None, s))))"

section \<open>IPv4\<close>

definition IPv4_HEADER_LEN :: nat where "IPv4_HEADER_LEN = 20"
definition IPV4_ARP_RETRIES :: nat where "IPV4_ARP_RETRIES = 128"

definition ipv4_init :: "net \<Rightarrow> net" where "ipv4_init s = s\<lparr>ip_id_counter := 1\<rparr>"

text \<open>\<open>struct ipv4_header\<close> with checksum field \<open>cs\<close>, as stored.\<close>

definition ipv4_header :: "u16 \<Rightarrow> u16 \<Rightarrow> u8 \<Rightarrow> u16 \<Rightarrow> u32 \<Rightarrow> u32 \<Rightarrow> u8 list" where
  "ipv4_header total_len ident protocol cs src dst =
     [0x45, 0] @ st16 (htons16 total_len) @ st16 (htons16 ident) @ st16 0 @ [64, protocol] @ st16 cs @
     st32 (htonl32 src) @ st32 (htonl32 dst)"

definition next_hop :: "net_device \<Rightarrow> u32 \<Rightarrow> u32" where
  "next_hop dev dst_ip = (if dst_ip AND netmask dev = ip dev AND netmask dev then dst_ip else gateway dev)"

primrec resolve :: "poller \<Rightarrow> u32 \<Rightarrow> nat \<Rightarrow> nat \<Rightarrow> net \<Rightarrow> u8 list option \<times> net" where
  "resolve poll addr polls 0 s = (None, s)"
| "resolve poll addr polls (Suc tries) s =
     (let (r, s) = arp_lookup poll addr s
      in case r of
           Some hw \<Rightarrow> (Some hw, s)
         | None \<Rightarrow> resolve poll addr polls tries (poll_times poll polls s))"

text \<open>\<open>payload\<close> is read when the packet is put together.\<close>

definition ipv4_send :: "poller \<Rightarrow> u32 \<Rightarrow> u8 \<Rightarrow> (net \<Rightarrow> u8 list) \<Rightarrow> nat \<Rightarrow> net \<Rightarrow> int \<times> net" where
  "ipv4_send poll dst_ip protocol payload payload_len s =
     (case device s of
        None \<Rightarrow> (-1, s)
      | Some dev \<Rightarrow>
          if payload_len > 1500 then (-1, s)
          else
            let (r, s) = resolve poll (next_hop dev dst_ip) 16 IPV4_ARP_RETRIES s
            in case r of
                 None \<Rightarrow> (-1, s)
               | Some dst_mac \<Rightarrow>
                   let ident = ip_id_counter s;
                       s = s\<lparr>ip_id_counter := ident + 1\<rparr>;
                       len = of_nat (IPv4_HEADER_LEN + payload_len);
                       cs = ipv4_checksum (ipv4_header len ident protocol 0 (ip dev) dst_ip)
                   in ethernet_send dst_mac ETHERTYPE_IPv4
                        (ipv4_header len ident protocol (htons16 cs) (ip dev) dst_ip @ take payload_len (payload s)) s)"

section \<open>ICMP\<close>

definition ICMP_TYPE_ECHO_REPLY :: u8 where "ICMP_TYPE_ECHO_REPLY = 0"
definition ICMP_TYPE_ECHO_REQUEST :: u8 where "ICMP_TYPE_ECHO_REQUEST = 8"
definition ICMP_HEADER_LEN :: nat where "ICMP_HEADER_LEN = 8"
definition ICMP_PAYLOAD_SIZE :: nat where "ICMP_PAYLOAD_SIZE = 32"

definition icmp_header :: "u8 \<Rightarrow> u8 \<Rightarrow> u16 \<Rightarrow> u16 \<Rightarrow> u16 \<Rightarrow> u8 list" where
  "icmp_header type code cs ident sq = [type, code] @ st16 cs @ st16 ident @ st16 sq"

definition icmp_echo :: "u16 \<Rightarrow> u16 \<Rightarrow> u8 list" where
  "icmp_echo ident sq =
     (let pay = map of_nat [0..<ICMP_PAYLOAD_SIZE];
          cs = icmp_checksum (icmp_header ICMP_TYPE_ECHO_REQUEST 0 0 (htons16 ident) (htons16 sq) @ pay)
      in icmp_header ICMP_TYPE_ECHO_REQUEST 0 (htons16 cs) (htons16 ident) (htons16 sq) @ pay)"

definition icmp_send_echo :: "poller \<Rightarrow> u32 \<Rightarrow> u16 \<Rightarrow> u16 \<Rightarrow> net \<Rightarrow> int \<times> net" where
  "icmp_send_echo poll dst_ip ident sq s =
     ipv4_send poll dst_ip IP_PROTO_ICMP (\<lambda>_. icmp_echo ident sq) (ICMP_HEADER_LEN + ICMP_PAYLOAD_SIZE) s"

text \<open>The reply to an echo request: type and checksum are replaced.\<close>

definition icmp_echo_reply :: "u8 list \<Rightarrow> u8 list" where
  "icmp_echo_reply data =
     (let cs = icmp_checksum ([ICMP_TYPE_ECHO_REPLY, rd8 data 1, 0, 0] @ drop 4 data)
      in [ICMP_TYPE_ECHO_REPLY, rd8 data 1] @ st16 (htons16 cs) @ drop 4 data)"

definition icmp_receive :: "poller \<Rightarrow> u32 \<Rightarrow> u8 list \<Rightarrow> net \<Rightarrow> net" where
  "icmp_receive poll src_ip data s =
     (if length data < ICMP_HEADER_LEN then s
      else if rd8 data 0 = ICMP_TYPE_ECHO_REPLY
      then if htons16 (rd16 data 4) = icmp_expected_id s \<and> htons16 (rd16 data 6) = icmp_expected_seq s
           then s\<lparr>icmp_reply_received := True\<rparr> else s
      else if rd8 data 0 = ICMP_TYPE_ECHO_REQUEST
      then
        let data = take (ICMP_HEADER_LEN + 1480) data;
            s = s\<lparr>icmp_reply_buf := fill (icmp_echo_reply data) (icmp_reply_buf s)\<rparr>
        in snd (ipv4_send poll src_ip IP_PROTO_ICMP icmp_reply_buf (length data) s)
      else s)"

section \<open>TCP\<close>

definition TCP_FLAG_FIN :: u8 where "TCP_FLAG_FIN = 1"
definition TCP_FLAG_SYN :: u8 where "TCP_FLAG_SYN = 2"
definition TCP_FLAG_RST :: u8 where "TCP_FLAG_RST = 4"
definition TCP_FLAG_PSH :: u8 where "TCP_FLAG_PSH = 8"
definition TCP_FLAG_ACK :: u8 where "TCP_FLAG_ACK = 16"
definition TCP_HEADER_LEN :: nat where "TCP_HEADER_LEN = 20"
definition TCP_RECV_BUF_SIZE :: nat where "TCP_RECV_BUF_SIZE = 64 * 1024"

definition upd_conn :: "ptr \<Rightarrow> (tcp_conn \<Rightarrow> tcp_conn) \<Rightarrow> net \<Rightarrow> net" where
  "upd_conn c f s = s\<lparr>conns := (conns s)(c := f (conns s c))\<rparr>"

definition generate_isn :: "u32 \<Rightarrow> u16 \<Rightarrow> u16 \<Rightarrow> net \<Rightarrow> u32 \<times> net" where
  "generate_isn r_ip r_port l_port s =
     (let s = s\<lparr>isn_seed := isn_seed s + 0x9e3779b9\<rparr>;
          h = isn_seed s XOR r_ip XOR push_bit 16 (ucast r_port) XOR ucast l_port;
          h = h XOR drop_bit 16 h;
          h = h * 0x45d9f3b;
          h = h XOR drop_bit 16 h
      in (if h \<noteq> 0 then h else 1, s))"

definition alloc_local_port :: "net \<Rightarrow> u16 \<times> net" where
  "alloc_local_port s =
     (let p = ephemeral_port s;
          s = s\<lparr>ephemeral_port := p + 1\<rparr>
      in (p, if ephemeral_port s = 0 \<or> ephemeral_port s > 65534 then s\<lparr>ephemeral_port := 49152\<rparr> else s))"

definition tcp_header :: "u16 \<Rightarrow> u16 \<Rightarrow> u32 \<Rightarrow> u32 \<Rightarrow> u8 \<Rightarrow> u16 \<Rightarrow> u8 list" where
  "tcp_header src_port dst_port sq ack_num flags cs =
     st16 (htons16 src_port) @ st16 (htons16 dst_port) @ st32 (htonl32 sq) @ st32 ack_num @ [0x50, flags] @
     st16 (htons16 4096) @ st16 cs @ st16 0"

text \<open>The segment built in \<open>tcp_tx_buf\<close>, which holds 1460 bytes of data.\<close>

definition tcp_segment :: "u32 \<Rightarrow> tcp_conn \<Rightarrow> u8 \<Rightarrow> u8 list \<Rightarrow> u8 list" where
  "tcp_segment src_ip c flags data =
     (let ack_num = (if flags AND TCP_FLAG_ACK \<noteq> 0 then htonl32 (ack c) else 0);
          cs = tcp_checksum src_ip (remote_ip c) (tcp_header (local_port c) (remote_port c) (seq c) ack_num flags 0 @ data)
      in tcp_header (local_port c) (remote_port c) (seq c) ack_num flags (htons16 cs) @ data)"

definition tcp_send_segment :: "poller \<Rightarrow> ptr \<Rightarrow> u8 \<Rightarrow> u8 list \<Rightarrow> net \<Rightarrow> int \<times> net" where
  "tcp_send_segment poll c flags data s =
     (case device s of
        None \<Rightarrow> (-1, s)
      | Some dev \<Rightarrow>
          let s = s\<lparr>tcp_tx_buf := fill (tcp_segment (ip dev) (conns s c) flags data) (tcp_tx_buf s)\<rparr>
          in ipv4_send poll (remote_ip (conns s c)) IP_PROTO_TCP tcp_tx_buf (TCP_HEADER_LEN + length data) s)"

definition tcp_init :: "net \<Rightarrow> net" where "tcp_init s = s\<lparr>ephemeral_port := 49152\<rparr>"

definition recv_used :: "tcp_conn \<Rightarrow> nat" where
  "recv_used c = (if recv_tail c \<ge> recv_head c then recv_tail c - recv_head c
     else TCP_RECV_BUF_SIZE - recv_head c + recv_tail c)"

primrec recv_copy :: "u8 list \<Rightarrow> tcp_conn \<Rightarrow> tcp_conn" where
  "recv_copy [] c = c"
| "recv_copy (b # bs) c =
     recv_copy bs (c\<lparr>recv_buf := (recv_buf c)(recv_tail c := b), recv_tail := (recv_tail c + 1) mod TCP_RECV_BUF_SIZE\<rparr>)"

text \<open>Data that arrives in order, as far as it fits.\<close>

definition recv_data :: "u8 list \<Rightarrow> tcp_conn \<Rightarrow> tcp_conn" where
  "recv_data payload c =
     (let to_copy = min (length payload) (TCP_RECV_BUF_SIZE - recv_used c - 1)
      in recv_copy (take to_copy payload) (c\<lparr>ack := ack c + of_nat to_copy\<rparr>))"

definition tcp_receive :: "poller \<Rightarrow> ptr \<Rightarrow> u8 list \<Rightarrow> u8 list \<Rightarrow> net \<Rightarrow> net" where
  "tcp_receive poll c hdr payload s =
     (if c = 0 \<or> htons16 (rd16 hdr 0) \<noteq> remote_port (conns s c) \<or> htons16 (rd16 hdr 2) \<noteq> local_port (conns s c) then s
      else
        let flags = rd8 hdr 13;
            seg_seq = htonl32 (rd32 hdr 4);
            seg_ack = htonl32 (rd32 hdr 8)
        in case conn_state (conns s c) of
             TCP_SYN_SENT \<Rightarrow>
               if flags AND (TCP_FLAG_SYN OR TCP_FLAG_ACK) = TCP_FLAG_SYN OR TCP_FLAG_ACK
               then if seg_ack \<noteq> seq (conns s c) then s
                    else
                      let s = upd_conn c (\<lambda>k. k\<lparr>ack := seg_seq + 1, remote_seq := seg_seq, conn_state := TCP_ESTABLISHED\<rparr>) s
                      in snd (tcp_send_segment poll c TCP_FLAG_ACK [] s)
               else if flags AND TCP_FLAG_RST \<noteq> 0 then upd_conn c (\<lambda>k. k\<lparr>conn_state := TCP_CLOSED\<rparr>) s
               else s
           | TCP_ESTABLISHED \<Rightarrow>
               if flags AND TCP_FLAG_RST \<noteq> 0
               then upd_conn c (\<lambda>k. k\<lparr>conn_state := TCP_CLOSED, recv_closed := True\<rparr>) s
               else
                 let s = (if flags AND TCP_FLAG_ACK \<noteq> 0 \<and> seg_ack > seq (conns s c)
                          then upd_conn c (\<lambda>k. k\<lparr>seq := seg_ack\<rparr>) s else s);
                     s = (if length payload > 0 \<and> flags AND TCP_FLAG_ACK \<noteq> 0 \<and> seg_seq = ack (conns s c)
                          then snd (tcp_send_segment poll c TCP_FLAG_ACK [] (upd_conn c (recv_data payload) s))
                          else s)
                 in if flags AND TCP_FLAG_FIN \<noteq> 0
                    then
                      let s = upd_conn c (\<lambda>k. k\<lparr>ack := ack k + 1, recv_closed := True\<rparr>) s;
                          s = snd (tcp_send_segment poll c TCP_FLAG_ACK [] s)
                      in upd_conn c (\<lambda>k. k\<lparr>conn_state := TCP_FIN_WAIT\<rparr>) s
                    else s
           | TCP_FIN_WAIT \<Rightarrow>
               if flags AND TCP_FLAG_ACK \<noteq> 0 then upd_conn c (\<lambda>k. k\<lparr>conn_state := TCP_CLOSED\<rparr>) s else s
           | TCP_CLOSED \<Rightarrow> s)"

section \<open>Receiving\<close>

definition ipv4_receive :: "poller \<Rightarrow> u8 list \<Rightarrow> net \<Rightarrow> net" where
  "ipv4_receive poll data s =
     (if length data < IPv4_HEADER_LEN \<or> device s = None then s
      else if drop_bit 4 (rd8 data 0) \<noteq> 4 then s
      else
        let ihl = unat ((rd8 data 0 AND 0x0F) * 4);
            total_len = unat (htons16 (rd16 data 2))
        in if ihl < IPv4_HEADER_LEN \<or> ihl > length data \<or> ihl \<noteq> IPv4_HEADER_LEN then s
           else if total_len < ihl \<or> total_len > length data then s
           else if ipv4_checksum (take ihl data) \<noteq> 0 then s
           else
             let payload = drop ihl (take total_len data);
                 src_host = htonl32 (rd32 data 12)
             in if rd8 data 9 = IP_PROTO_ICMP then icmp_receive poll src_host payload s
                else if rd8 data 9 = IP_PROTO_TCP
                then
                  if active_tcp_conn s \<noteq> 0 \<and> \<not> length payload < TCP_HEADER_LEN
                  then
                    let tcp_hdr_len = unat (drop_bit 4 (rd8 payload 12) * 4)
                    in if tcp_hdr_len < TCP_HEADER_LEN \<or> tcp_hdr_len > length payload then s
                       else tcp_receive poll (active_tcp_conn s) payload (drop tcp_hdr_len payload) s
                  else s
                else s)"

text \<open>\<open>ethernet_poll\<close> with the function to poll with from inside.\<close>

definition poll_frame :: "poller \<Rightarrow> poller" where
  "poll_frame poll s =
     (if device s = None then (0, s)
      else
        case rx s of
          [] \<Rightarrow> (0, s)
        | f # fs \<Rightarrow>
            let s = s\<lparr>rx := fs\<rparr>;
                frame = take ETHERNET_FRAME_MAX f
            in if length frame < ETHERNET_HEADER_LEN then (0, s)
               else
                 let etype = htons16 (rd16 frame 12);
                     payload = drop ETHERNET_HEADER_LEN frame
                 in (1, if etype = ETHERTYPE_ARP then arp_receive payload s
                        else if etype = ETHERTYPE_IPv4 then ipv4_receive poll payload s
                        else s))"

primrec poll_fuel :: "nat \<Rightarrow> poller" where
  "poll_fuel 0 s = (0, s)"
| "poll_fuel (Suc n) s = poll_frame (poll_fuel n) s"

definition ethernet_poll :: poller where
  "ethernet_poll s = poll_fuel (length (rx s)) s"

declare oldest_slot.simps [simp del]

end
