(* ===== verification/Net_Poll.thy ===== *)
theory Net_Poll
  imports Net
begin

text \<open>
  Polling that reenters itself. The first part shows that the frames still to come are fuel enough, so
  that \<open>ethernet_poll\<close> satisfies the equation the code states. The second part is an interface for
  invariants of the stack: a predicate that the single steps keep is kept by polling, however deeply
  the layers call each other.
\<close>

section \<open>What the layers do to the input\<close>

text \<open>Steps that leave the connections, the device and the input alone.\<close>

definition quiet :: "net \<Rightarrow> net \<Rightarrow> bool" where
  "quiet s s' \<longleftrightarrow> device s' = device s \<and> rx s' = rx s \<and> conns s' = conns s \<and> active_tcp_conn s' = active_tcp_conn s \<and>
     net_initialized s' = net_initialized s \<and> isn_seed s' = isn_seed s \<and> ephemeral_port s' = ephemeral_port s \<and>
     clock s' = clock s \<and> send_result s' = send_result s"

lemma quiet_refl [simp]: "quiet s s"
  by (simp add: quiet_def)

lemma quiet_trans: "quiet s t \<Longrightarrow> quiet t u \<Longrightarrow> quiet s u"
  by (simp add: quiet_def)

lemma quiet_fields [simp]:
  "quiet s (s\<lparr>clock_reads := a\<rparr>)" "quiet s (s\<lparr>tx := b\<rparr>)" "quiet s (s\<lparr>arp_cache := d\<rparr>)" "quiet s (s\<lparr>ip_id_counter := e\<rparr>)"
  "quiet s (s\<lparr>icmp_reply_received := f\<rparr>)" "quiet s (s\<lparr>icmp_reply_buf := g\<rparr>)" "quiet s (s\<lparr>tcp_tx_buf := h\<rparr>)"
  "quiet s (s\<lparr>clock_reads := a, arp_cache := d\<rparr>)"
  by (simp_all add: quiet_def)

lemma quiet_send: "quiet s (snd (ethernet_send d t p s))"
  by (simp add: ethernet_send_def dev_send_def split: option.split)

lemma quiet_insert: "quiet s (arp_cache_insert a hw s)"
  by (simp add: arp_cache_insert_def read_clock_def Let_def split: option.split)

lemma quiet_request: "quiet s (arp_send_request a s)"
  by (simp add: arp_send_request_def quiet_send split: option.split)

lemma quiet_arp: "quiet s (arp_receive data s)"
  using quiet_insert quiet_trans [OF quiet_insert quiet_send]
  by (simp add: arp_receive_def Let_def split: option.split)

text \<open>The first part of a lookup.\<close>

definition cache_probe :: "u32 \<Rightarrow> net \<Rightarrow> u8 list option \<times> net" where
  "cache_probe addr s =
     (case arp_find (arp_cache s) addr of
        None \<Rightarrow> (None, s)
      | Some i \<Rightarrow>
          let (t, s) = read_clock s
          in if t - timestamp (arp_cache s ! i) > ARP_ENTRY_TTL_MS
             then (None, s\<lparr>arp_cache := (arp_cache s)[i := (arp_cache s ! i)\<lparr>entry_valid := False\<rparr>]\<rparr>)
             else (Some (entry_mac (arp_cache s ! i)), s))"

definition cache_settle :: "u32 \<Rightarrow> net \<Rightarrow> u8 list option \<times> net" where
  "cache_settle addr s =
     (case arp_find (arp_cache s) addr of
        Some i \<Rightarrow> (Some (entry_mac (arp_cache s ! i)), s)
      | None \<Rightarrow>
          (case device s of
             None \<Rightarrow> (None, s)
           | Some dev \<Rightarrow>
               if addr = gateway dev \<and> addr = QEMU_SLIRP_GATEWAY_IP
               then (Some qemu_slirp_gateway_mac, arp_cache_insert addr qemu_slirp_gateway_mac s)
               else (None, s)))"

lemma arp_lookup_parts:
  "arp_lookup poll addr s =
     (case cache_probe addr s of
        (Some hw, s) \<Rightarrow> (Some hw, s)
      | (None, s) \<Rightarrow> cache_settle addr (poll_times poll 256 (arp_send_request addr s)))"
  unfolding arp_lookup_def cache_probe_def cache_settle_def Let_def
  by (simp split: option.split prod.split)

lemma quiet_probe: "quiet s (snd (cache_probe addr s))"
  by (simp add: cache_probe_def read_clock_def Let_def split: option.split)

lemma quiet_settle: "quiet s (snd (cache_settle addr s))"
  by (simp add: cache_settle_def quiet_insert split: option.split)

section \<open>Enough fuel\<close>

text \<open>Two polling functions that agree as long as at most \<open>k\<close> frames are to come, and take none away from later ones.\<close>

definition agree :: "nat \<Rightarrow> poller \<Rightarrow> poller \<Rightarrow> bool" where
  "agree k p q \<longleftrightarrow> (\<forall>s. length (rx s) \<le> k \<longrightarrow> p s = q s \<and> length (rx (snd (q s))) \<le> length (rx s))"

text \<open>An operation that uses its polling function only within this bound.\<close>

definition within :: "nat \<Rightarrow> (poller \<Rightarrow> net \<Rightarrow> 'r) \<Rightarrow> ('r \<Rightarrow> net) \<Rightarrow> poller \<Rightarrow> poller \<Rightarrow> bool" where
  "within k f get p q \<longleftrightarrow> (\<forall>s. length (rx s) \<le> k \<longrightarrow> f p s = f q s \<and> length (rx (get (f q s))) \<le> length (rx s))"

lemma withinD: "within k f get p q \<Longrightarrow> length (rx s) \<le> k \<Longrightarrow> f p s = f q s \<and> length (rx (get (f q s))) \<le> length (rx s)"
  unfolding within_def by blast

lemma quiet_rx: "quiet s s' \<Longrightarrow> rx s' = rx s"
  by (simp add: quiet_def)

lemma within_times:
  assumes "agree k p q"
  shows "within k (\<lambda>p. poll_times p n) (\<lambda>s. s) p q"
proof -
  have "length (rx s) \<le> k \<Longrightarrow> poll_times p n s = poll_times q n s \<and> length (rx (poll_times q n s)) \<le> length (rx s)" for s
  proof (induction n arbitrary: s)
    case (Suc n)
    have "p s = q s" "length (rx (snd (q s))) \<le> length (rx s)" using assms Suc.prems unfolding agree_def by blast+
    then show ?case using Suc.IH [of "snd (q s)"] Suc.prems by simp
  qed simp
  then show ?thesis by (simp add: within_def)
qed

lemma within_lookup:
  assumes "agree k p q"
  shows "within k (\<lambda>p. arp_lookup p addr) snd p q"
  unfolding within_def
proof (intro allI impI)
  fix s :: net assume k: "length (rx s) \<le> k"
  obtain r s1 where pr: "cache_probe addr s = (r, s1)" by (cases "cache_probe addr s")
  have "quiet s s1" using quiet_probe [of s addr] pr by simp
  then have r1: "rx (arp_send_request addr s1) = rx s" using quiet_rx quiet_request by (metis quiet_trans)
  have r0: "rx s1 = rx s" using \<open>quiet s s1\<close> by (rule quiet_rx)
  note t = withinD [OF within_times [OF assms], of "arp_send_request addr s1" 256]
  have "rx (snd (cache_settle addr u)) = rx u" for u using quiet_rx [OF quiet_settle] .
  then show "arp_lookup p addr s = arp_lookup q addr s \<and> length (rx (snd (arp_lookup q addr s))) \<le> length (rx s)"
    using t k r0 r1 by (cases r) (simp_all add: arp_lookup_parts pr)
qed

lemma within_resolve:
  assumes "agree k p q"
  shows "within k (\<lambda>p. resolve p addr m n) snd p q"
proof -
  have "length (rx s) \<le> k \<Longrightarrow> resolve p addr m n s = resolve q addr m n s \<and> length (rx (snd (resolve q addr m n s))) \<le> length (rx s)" for s
  proof (induction n arbitrary: s)
    case (Suc n)
    obtain r s1 where l: "arp_lookup q addr s = (r, s1)" by (cases "arp_lookup q addr s")
    have e: "arp_lookup p addr s = (r, s1)" "length (rx s1) \<le> length (rx s)"
      using withinD [OF within_lookup [OF assms] Suc.prems, of addr] l by simp_all
    have t: "poll_times p m s1 = poll_times q m s1" "length (rx (poll_times q m s1)) \<le> length (rx s1)"
      using withinD [OF within_times [OF assms], of s1 m] Suc.prems e(2) by simp_all
    show ?case using Suc.IH [of "poll_times q m s1"] Suc.prems l e t by (cases r) simp_all
  qed simp
  then show ?thesis by (simp add: within_def)
qed

lemma within_ipv4_send:
  assumes "agree k p q"
  shows "within k (\<lambda>p. ipv4_send p dst proto pay len) snd p q"
  unfolding within_def
proof (intro allI impI)
  fix s :: net assume k: "length (rx s) \<le> k"
  show "ipv4_send p dst proto pay len s = ipv4_send q dst proto pay len s \<and> length (rx (snd (ipv4_send q dst proto pay len s))) \<le> length (rx s)"
  proof (cases "device s")
    case (Some dev)
    obtain r s1 where l: "resolve q (next_hop dev dst) 16 IPV4_ARP_RETRIES s = (r, s1)"
      by (cases "resolve q (next_hop dev dst) 16 IPV4_ARP_RETRIES s")
    have e: "resolve p (next_hop dev dst) 16 IPV4_ARP_RETRIES s = (r, s1)" "length (rx s1) \<le> length (rx s)"
      using withinD [OF within_resolve [OF assms] k, of "next_hop dev dst" 16 IPV4_ARP_RETRIES] l by simp_all
    show ?thesis using Some l e quiet_rx [OF quiet_send] by (cases r) (simp_all add: ipv4_send_def Let_def)
  qed (simp add: ipv4_send_def)
qed

lemma within_segment:
  assumes "agree k p q"
  shows "within k (\<lambda>p. tcp_send_segment p c flags data) snd p q"
  unfolding within_def
proof (intro allI impI)
  fix s :: net assume k: "length (rx s) \<le> k"
  show "tcp_send_segment p c flags data s = tcp_send_segment q c flags data s \<and>
      length (rx (snd (tcp_send_segment q c flags data s))) \<le> length (rx s)"
  proof (cases "device s")
    case (Some dev)
    define s1 where "s1 = s\<lparr>tcp_tx_buf := fill (tcp_segment (ip dev) (conns s c) flags data) (tcp_tx_buf s)\<rparr>"
    have "rx s1 = rx s" by (simp add: s1_def)
    then show ?thesis
      using Some withinD [OF within_ipv4_send [OF assms], of s1] k by (simp add: tcp_send_segment_def Let_def s1_def)
  qed (simp add: tcp_send_segment_def)
qed

lemma rx_upd_conn [simp]: "rx (upd_conn c f s) = rx s"
  by (simp add: upd_conn_def)

lemma within_icmp:
  assumes "agree k p q"
  shows "within k (\<lambda>p. icmp_receive p src data) (\<lambda>s. s) p q"
  unfolding within_def
proof (intro allI impI)
  fix s :: net assume k: "length (rx s) \<le> k"
  define s1 where "s1 = s\<lparr>icmp_reply_buf := fill (icmp_echo_reply (take (ICMP_HEADER_LEN + 1480) data)) (icmp_reply_buf s)\<rparr>"
  have "rx s1 = rx s" by (simp add: s1_def)
  then show "icmp_receive p src data s = icmp_receive q src data s \<and> length (rx (icmp_receive q src data s)) \<le> length (rx s)"
    using withinD [OF within_ipv4_send [OF assms], of s1] k by (simp add: icmp_receive_def Let_def s1_def)
qed

lemma within_tcp:
  assumes "agree k p q"
  shows "within k (\<lambda>p. tcp_receive p c hdr pay) (\<lambda>s. s) p q"
  unfolding within_def
proof (intro allI impI)
  fix s :: net assume k: "length (rx s) \<le> k"
  have sg: "tcp_send_segment p c f d u = tcp_send_segment q c f d u \<and> length (rx (snd (tcp_send_segment q c f d u))) \<le> length (rx s)"
    if "length (rx u) \<le> length (rx s)" for f d u
    using withinD [OF within_segment [OF assms], of u c f d] k that by (meson le_trans)
  show "tcp_receive p c hdr pay s = tcp_receive q c hdr pay s \<and> length (rx (tcp_receive q c hdr pay s)) \<le> length (rx s)"
    unfolding tcp_receive_def Let_def using sg by (cases "conn_state (conns s c)") simp_all
qed

lemma within_ipv4:
  assumes "agree k p q"
  shows "within k (\<lambda>p. ipv4_receive p data) (\<lambda>s. s) p q"
  unfolding within_def ipv4_receive_def Let_def
  using withinD [OF within_icmp [OF assms]] withinD [OF within_tcp [OF assms]] by simp

lemma agree_frame:
  assumes "agree k p q"
  shows "agree (Suc k) (poll_frame p) (poll_frame q)"
  unfolding agree_def
proof (intro allI impI)
  fix s :: net assume k: "length (rx s) \<le> Suc k"
  show "poll_frame p s = poll_frame q s \<and> length (rx (snd (poll_frame q s))) \<le> length (rx s)"
  proof (cases "rx s")
    case (Cons f fs)
    then have l: "length (rx (s\<lparr>rx := fs\<rparr>)) \<le> k" using k by simp
    note w = withinD [OF within_ipv4 [OF assms] l] and a = quiet_rx [OF quiet_arp, of _ "s\<lparr>rx := fs\<rparr>"]
    show ?thesis using Cons w a by (simp add: poll_frame_def Let_def le_SucI)
  qed (simp add: poll_frame_def)
qed

lemma fuel_agree: "agree n (poll_fuel n) (poll_fuel (n + m))"
proof (induction n)
  case 0
  have "poll_fuel m s = (0, s)" if "rx s = []" for s
    using that by (cases m) (simp_all add: poll_frame_def)
  then show ?case by (simp add: agree_def)
next
  case (Suc n)
  have "poll_fuel (Suc k) = poll_frame (poll_fuel k)" for k by (rule ext) simp
  then show ?case using agree_frame [OF Suc] by simp
qed

lemma poll_fuel_enough: "length (rx s) \<le> n \<Longrightarrow> poll_fuel n s = ethernet_poll s"
  using fuel_agree [of "length (rx s)" "n - length (rx s)"] by (simp add: agree_def ethernet_poll_def)

lemma poll_consumes: "length (rx (snd (ethernet_poll s))) \<le> length (rx s)"
  using fuel_agree [of "length (rx s)" 0] by (simp add: agree_def ethernet_poll_def)

lemma ethernet_poll_agree: "agree n (poll_fuel n) ethernet_poll"
  using poll_fuel_enough poll_consumes by (simp add: agree_def)

lemma ethernet_poll_equation: "ethernet_poll s = poll_frame ethernet_poll s"
proof -
  have "ethernet_poll s = poll_fuel (Suc (length (rx s))) s" using poll_fuel_enough [of s "Suc (length (rx s))"] by simp
  also have "\<dots> = poll_frame ethernet_poll s"
    using agree_frame [OF ethernet_poll_agree [of "length (rx s)"]] by (simp add: agree_def)
  finally show ?thesis .
qed

lemma poll_pops:
  assumes "rx s \<noteq> []" and "device s \<noteq> None"
  shows "length (rx (snd (ethernet_poll s))) < length (rx s)"
proof -
  obtain f fs where rx: "rx s = f # fs" using assms(1) by (cases "rx s") auto
  have "agree (length fs) ethernet_poll ethernet_poll" using poll_consumes by (simp add: agree_def)
  note w = withinD [OF within_ipv4 [OF this], of "s\<lparr>rx := fs\<rparr>"] and a = quiet_rx [OF quiet_arp, of _ "s\<lparr>rx := fs\<rparr>"]
  show ?thesis
    unfolding ethernet_poll_equation [of s] using rx assms(2) w a by (simp add: poll_frame_def Let_def less_Suc_eq_le)
qed

lemma poll_idle: "rx s = [] \<or> device s = None \<Longrightarrow> ethernet_poll s = (0, s)"
  unfolding ethernet_poll_equation [of s] by (auto simp: poll_frame_def)

section \<open>Invariants of the stack\<close>

text \<open>The TCP header (with what follows it) and the data of a frame, and the frames that are handed to TCP.\<close>

definition frame_ip :: "u8 list \<Rightarrow> u8 list" where
  "frame_ip f = drop ETHERNET_HEADER_LEN (take ETHERNET_FRAME_MAX f)"

definition ip_payload :: "u8 list \<Rightarrow> u8 list" where
  "ip_payload d = drop IPv4_HEADER_LEN (take (unat (htons16 (rd16 d 2))) d)"

definition tcp_data :: "u8 list \<Rightarrow> u8 list" where
  "tcp_data p = drop (unat (drop_bit 4 (rd8 p 12) * 4)) p"

definition is_tcp :: "u8 list \<Rightarrow> bool" where
  "is_tcp f \<longleftrightarrow> htons16 (rd16 (take ETHERNET_FRAME_MAX f) 12) = ETHERTYPE_IPv4 \<and> rd8 (frame_ip f) 9 = IP_PROTO_TCP"

definition for_conn :: "net \<Rightarrow> ptr \<Rightarrow> u8 list \<Rightarrow> bool" where
  "for_conn s c hdr \<longleftrightarrow> htons16 (rd16 hdr 0) = remote_port (conns s c) \<and> htons16 (rd16 hdr 2) = local_port (conns s c)"

text \<open>The single steps an invariant has to survive; \<open>seg\<close> is what is known about the segments in the input.\<close>

locale net_invariant =
  fixes I :: "net \<Rightarrow> bool" and seg :: "u8 list \<Rightarrow> u8 list \<Rightarrow> bool"
  assumes quiet_step: "I s \<Longrightarrow> quiet s s' \<Longrightarrow> I s'"
    and pop_step: "I s \<Longrightarrow> rx s = f # fs \<Longrightarrow>
      I (s\<lparr>rx := fs\<rparr>) \<and> (is_tcp f \<longrightarrow> seg (ip_payload (frame_ip f)) (tcp_data (ip_payload (frame_ip f))))"
    and connect_step: "I s \<Longrightarrow> seg hdr pay \<Longrightarrow> for_conn s c hdr \<Longrightarrow> conn_state (conns s c) = TCP_SYN_SENT \<Longrightarrow>
      rd8 hdr 13 AND (TCP_FLAG_SYN OR TCP_FLAG_ACK) = TCP_FLAG_SYN OR TCP_FLAG_ACK \<Longrightarrow> htonl32 (rd32 hdr 8) = seq (conns s c) \<Longrightarrow>
      I (upd_conn c (\<lambda>k. k\<lparr>ack := htonl32 (rd32 hdr 4) + 1, remote_seq := htonl32 (rd32 hdr 4), conn_state := TCP_ESTABLISHED\<rparr>) s)"
    and close_step: "I s \<Longrightarrow> seg hdr pay \<Longrightarrow> I (upd_conn c (\<lambda>k. k\<lparr>conn_state := TCP_CLOSED\<rparr>) s)"
    and reset_step: "I s \<Longrightarrow> seg hdr pay \<Longrightarrow> I (upd_conn c (\<lambda>k. k\<lparr>conn_state := TCP_CLOSED, recv_closed := True\<rparr>) s)"
    and ack_step: "I s \<Longrightarrow> seg hdr pay \<Longrightarrow> I (upd_conn c (\<lambda>k. k\<lparr>seq := a\<rparr>) s)"
    and data_step: "I s \<Longrightarrow> seg hdr pay \<Longrightarrow> for_conn s c hdr \<Longrightarrow> conn_state (conns s c) = TCP_ESTABLISHED \<Longrightarrow>
      htonl32 (rd32 hdr 4) = ack (conns s c) \<Longrightarrow> I (upd_conn c (recv_data pay) s)"
    and fin_step: "I s \<Longrightarrow> seg hdr pay \<Longrightarrow> I (upd_conn c (\<lambda>k. k\<lparr>ack := ack k + 1, recv_closed := True\<rparr>) s)"
    and fin_wait_step: "I s \<Longrightarrow> seg hdr pay \<Longrightarrow> I (upd_conn c (\<lambda>k. k\<lparr>conn_state := TCP_FIN_WAIT\<rparr>) s)"
begin

definition safe :: "poller \<Rightarrow> bool" where "safe p \<longleftrightarrow> (\<forall>s. I s \<longrightarrow> I (snd (p s)))"

lemma safe_times: "safe p \<Longrightarrow> I s \<Longrightarrow> I (poll_times p n s)"
  by (induction n arbitrary: s) (simp_all add: safe_def)

lemma safe_lookup: "safe p \<Longrightarrow> I s \<Longrightarrow> I (snd (arp_lookup p addr s))"
  unfolding arp_lookup_parts
  using quiet_step [OF _ quiet_probe] quiet_step [OF _ quiet_settle] quiet_step [OF _ quiet_request] safe_times
  by (simp split: prod.split option.split) (metis snd_conv)

lemma safe_resolve: "safe p \<Longrightarrow> I s \<Longrightarrow> I (snd (resolve p addr m n s))"
proof (induction n arbitrary: s)
  case (Suc n)
  obtain r s1 where l: "arp_lookup p addr s = (r, s1)" by (cases "arp_lookup p addr s")
  then have "I s1" using safe_lookup [OF Suc.prems] by (metis snd_conv)
  then show ?case using l Suc.IH [OF Suc.prems(1)] safe_times [OF Suc.prems(1)] by (cases r) simp_all
qed simp

lemma safe_ipv4_send:
  assumes "safe p" and "I s"
  shows "I (snd (ipv4_send p dst proto pay len s))"
proof (cases "device s")
  case (Some dev)
  obtain r s1 where l: "resolve p (next_hop dev dst) 16 IPV4_ARP_RETRIES s = (r, s1)"
    by (cases "resolve p (next_hop dev dst) 16 IPV4_ARP_RETRIES s")
  then have s1: "I s1" using safe_resolve [OF assms] by (metis snd_conv)
  then have "I (s1\<lparr>ip_id_counter := x\<rparr>)" for x by (rule quiet_step) simp
  then have "I (snd (ethernet_send d t q (s1\<lparr>ip_id_counter := x\<rparr>)))" for d t q x using quiet_step quiet_send by blast
  then show ?thesis using Some l s1 assms(2) by (cases r) (simp_all add: ipv4_send_def Let_def)
qed (use assms in \<open>simp add: ipv4_send_def\<close>)

lemma safe_segment:
  assumes "safe p" and "I s"
  shows "I (snd (tcp_send_segment p c flags data s))"
proof (cases "device s")
  case (Some dev)
  have "I (s\<lparr>tcp_tx_buf := b\<rparr>)" for b using assms(2) by (rule quiet_step) simp
  then show ?thesis using Some safe_ipv4_send [OF assms(1)] by (simp add: tcp_send_segment_def Let_def)
qed (use assms in \<open>simp add: tcp_send_segment_def\<close>)

lemma safe_icmp:
  assumes "safe p" and "I s"
  shows "I (icmp_receive p src data s)"
proof -
  have "I (s\<lparr>icmp_reply_buf := b\<rparr>)" "I (s\<lparr>icmp_reply_received := r\<rparr>)" for b r
    using quiet_step [OF assms(2)] by simp_all
  then show ?thesis using assms safe_ipv4_send [OF assms(1)] by (simp add: icmp_receive_def Let_def)
qed

lemma safe_tcp:
  assumes p: "safe p" and s: "I s" and seg: "seg hdr pay"
  shows "I (tcp_receive p c hdr pay s)"
proof (cases "c = 0 \<or> \<not> for_conn s c hdr")
  case True
  then have "tcp_receive p c hdr pay s = s" by (auto simp: tcp_receive_def for_conn_def)
  then show ?thesis using s by simp
next
  case False
  then have fc: "for_conn s c hdr" and ports: "htons16 (rd16 hdr 0) = remote_port (conns s c)" "htons16 (rd16 hdr 2) = local_port (conns s c)" "c \<noteq> 0"
    by (simp_all add: for_conn_def)
  let ?fl = "rd8 hdr 13" and ?sq = "htonl32 (rd32 hdr 4)" and ?ak = "htonl32 (rd32 hdr 8)"
  note sg = safe_segment [OF p]
  show ?thesis
  proof (cases "conn_state (conns s c)")
    case TCP_CLOSED
    then show ?thesis using s ports by (simp add: tcp_receive_def)
  next
    case TCP_SYN_SENT
    then show ?thesis using s ports connect_step [OF s seg fc TCP_SYN_SENT] close_step [OF s seg] sg
      by (simp add: tcp_receive_def Let_def)
  next
    case TCP_FIN_WAIT
    then show ?thesis using s ports close_step [OF s seg] by (simp add: tcp_receive_def Let_def)
  next
    case TCP_ESTABLISHED
    define s1 where "s1 = (if ?fl AND TCP_FLAG_ACK \<noteq> 0 \<and> ?ak > seq (conns s c) then upd_conn c (\<lambda>k. k\<lparr>seq := ?ak\<rparr>) s else s)"
    define s2 where "s2 = (if length pay > 0 \<and> ?fl AND TCP_FLAG_ACK \<noteq> 0 \<and> ?sq = ack (conns s1 c)
      then snd (tcp_send_segment p c TCP_FLAG_ACK [] (upd_conn c (recv_data pay) s1)) else s1)"
    have s1: "I s1" "for_conn s1 c hdr" "conn_state (conns s1 c) = TCP_ESTABLISHED"
      using s ack_step [OF s seg] fc TCP_ESTABLISHED by (simp_all add: s1_def for_conn_def upd_conn_def)
    have s2: "I s2" using s1(1) data_step [OF s1(1) seg s1(2,3)] sg by (simp add: s2_def)
    have "tcp_receive p c hdr pay s =
        (if ?fl AND TCP_FLAG_RST \<noteq> 0 then upd_conn c (\<lambda>k. k\<lparr>conn_state := TCP_CLOSED, recv_closed := True\<rparr>) s
         else if ?fl AND TCP_FLAG_FIN \<noteq> 0
         then upd_conn c (\<lambda>k. k\<lparr>conn_state := TCP_FIN_WAIT\<rparr>)
           (snd (tcp_send_segment p c TCP_FLAG_ACK [] (upd_conn c (\<lambda>k. k\<lparr>ack := ack k + 1, recv_closed := True\<rparr>) s2)))
         else s2)"
      using TCP_ESTABLISHED ports unfolding tcp_receive_def Let_def s2_def s1_def by simp
    then show ?thesis using reset_step [OF s seg] s2 sg [OF fin_step [OF s2 seg]] fin_wait_step [OF _ seg] by simp
  qed
qed

lemma safe_ipv4:
  assumes "safe p" and "I s" and "rd8 data 9 = IP_PROTO_TCP \<longrightarrow> seg (ip_payload data) (tcp_data (ip_payload data))"
  shows "I (ipv4_receive p data s)"
  using assms safe_icmp [OF assms(1,2)] safe_tcp [OF assms(1,2)]
  by (simp add: ipv4_receive_def Let_def ip_payload_def tcp_data_def)

lemma safe_frame:
  assumes "safe p"
  shows "safe (poll_frame p)"
  unfolding safe_def
proof (intro allI impI)
  fix s assume s: "I s"
  show "I (snd (poll_frame p s))"
  proof (cases "rx s")
    case (Cons f fs)
    have s1: "I (s\<lparr>rx := fs\<rparr>)" using pop_step [OF s Cons] by blast
    then have "I (arp_receive d (s\<lparr>rx := fs\<rparr>))" for d by (rule quiet_step) (rule quiet_arp)
    moreover have "I (ipv4_receive p (frame_ip f) (s\<lparr>rx := fs\<rparr>))"
      if "htons16 (rd16 (take ETHERNET_FRAME_MAX f) 12) = ETHERTYPE_IPv4"
      by (rule safe_ipv4 [OF assms s1]) (use pop_step [OF s Cons] that in \<open>simp add: is_tcp_def\<close>)
    ultimately show ?thesis using s s1 Cons by (simp add: poll_frame_def Let_def frame_ip_def)
  qed (use s in \<open>simp add: poll_frame_def\<close>)
qed

lemma safe_fuel: "safe (poll_fuel n)"
proof (induction n)
  case (Suc n)
  have "poll_fuel (Suc n) = poll_frame (poll_fuel n)" by (rule ext) simp
  then show ?case using safe_frame [OF Suc] by simp
qed (simp add: safe_def)

lemma safe_poll: "I s \<Longrightarrow> I (snd (ethernet_poll s))"
  using safe_fuel by (simp add: safe_def ethernet_poll_def)

lemma safe_ethernet_poll: "safe ethernet_poll"
  using safe_poll by (simp add: safe_def)

end

end
