(* ===== verification/Net_Client.thy ===== *)
theory Net_Client
  imports Net_Poll
begin

text \<open>
  The operations the rest of the kernel calls: \<open>ping\<close>, the TCP client and the initialisation of the stack.
  Loops that wait on the clock are partial, as the clock is a parameter.
\<close>

section \<open>ICMP echo\<close>

definition PING_ARP_RETRIES :: nat where "PING_ARP_RETRIES = 200"

partial_function (option) ping_wait :: "u64 \<Rightarrow> u32 \<Rightarrow> net \<Rightarrow> (int \<times> net) option" where
  "ping_wait t0 timeout_ms s =
     (let (t, s) = read_clock s
      in if t - t0 < ucast timeout_ms
         then
           let s = snd (ethernet_poll s)
           in if icmp_reply_received s
              then let (t, s) = read_clock s in Some (sint (ucast (t - t0) :: u32), s)
              else ping_wait t0 timeout_ms s
         else Some (-1, s))"

definition icmp_ping_one :: "u32 \<Rightarrow> u16 \<Rightarrow> u16 \<Rightarrow> u32 \<Rightarrow> net \<Rightarrow> (int \<times> net) option" where
  "icmp_ping_one dst_ip ident sq timeout_ms s =
     (case device s of
        None \<Rightarrow> Some (-1, s)
      | Some dev \<Rightarrow>
          let hop = next_hop dev dst_ip;
              s = snd (resolve ethernet_poll hop 32 PING_ARP_RETRIES s);
              (r, s) = arp_lookup ethernet_poll hop s
          in if r = None then Some (-1, s)
             else
               let s = s\<lparr>icmp_expected_id := ident, icmp_expected_seq := sq, icmp_reply_received := False\<rparr>;
                   (t0, s) = read_clock s;
                   (e, s) = icmp_send_echo ethernet_poll dst_ip ident sq s
               in if e < 0 then Some (-1, s) else ping_wait t0 timeout_ms s)"

section \<open>TCP client\<close>

definition TCP_CONNECT_TIMEOUT_MS :: u64 where "TCP_CONNECT_TIMEOUT_MS = 5000"
definition TCP_SYN_SEND_RETRIES :: nat where "TCP_SYN_SEND_RETRIES = 4"
definition TCP_RECV_TIMEOUT_MS :: u64 where "TCP_RECV_TIMEOUT_MS = 10000"

primrec drain :: "nat \<Rightarrow> net \<Rightarrow> net" where
  "drain 0 s = s"
| "drain (Suc n) s = (let (r, s) = ethernet_poll s in if r = 0 then s else drain n s)"

definition tcp_poll :: "ptr \<Rightarrow> net \<Rightarrow> net" where
  "tcp_poll c s = drain 64 (s\<lparr>active_tcp_conn := c\<rparr>)"

primrec send_syn :: "ptr \<Rightarrow> nat \<Rightarrow> net \<Rightarrow> bool \<times> net" where
  "send_syn c 0 s = (False, s)"
| "send_syn c (Suc n) s =
     (let (r, s) = tcp_send_segment ethernet_poll c TCP_FLAG_SYN [] s
      in if r \<ge> 0 then (True, upd_conn c (\<lambda>k. k\<lparr>seq := seq k + 1\<rparr>) s)
         else send_syn c n ((tcp_poll c ^^ 64) s))"

partial_function (option) connect_wait :: "ptr \<Rightarrow> u64 \<Rightarrow> net \<Rightarrow> (int \<times> net) option" where
  "connect_wait c t0 s =
     (let (t, s) = read_clock s
      in if t - t0 < TCP_CONNECT_TIMEOUT_MS
         then
           let s = tcp_poll c s
           in if conn_state (conns s c) = TCP_ESTABLISHED then Some (0, s)
              else if conn_state (conns s c) = TCP_CLOSED then Some (-1, s)
              else connect_wait c t0 s
         else Some (-1, upd_conn c (\<lambda>k. k\<lparr>conn_state := TCP_CLOSED\<rparr>) s))"

definition new_conn :: "u32 \<Rightarrow> u16 \<Rightarrow> u16 \<Rightarrow> u32 \<Rightarrow> tcp_conn" where
  "new_conn r_ip r_port l_port sq =
     \<lparr>conn_state = TCP_SYN_SENT, remote_ip = r_ip, remote_port = r_port, local_port = l_port, seq = sq, ack = 0,
      remote_seq = 0, recv_buf = (\<lambda>_. 0), recv_head = 0, recv_tail = 0, recv_closed = False\<rparr>"

definition tcp_connect :: "ptr \<Rightarrow> u32 \<Rightarrow> u16 \<Rightarrow> net \<Rightarrow> (int \<times> net) option" where
  "tcp_connect c r_ip r_port s =
     (case device s of
        None \<Rightarrow> Some (-1, s)
      | Some dev \<Rightarrow>
          let (p, s) = alloc_local_port s;
              (sq, s) = generate_isn r_ip r_port p s;
              s = upd_conn c (\<lambda>_. new_conn r_ip r_port p sq) s;
              s = s\<lparr>active_tcp_conn := c\<rparr>;
              (ok, s) = send_syn c TCP_SYN_SEND_RETRIES s
          in if \<not> ok then Some (-1, upd_conn c (\<lambda>k. k\<lparr>conn_state := TCP_CLOSED\<rparr>) s)
             else let (t0, s) = read_clock s in connect_wait c t0 s)"

definition tcp_send :: "ptr \<Rightarrow> u8 list \<Rightarrow> net \<Rightarrow> int \<times> net" where
  "tcp_send c data s =
     (if c = 0 \<or> conn_state (conns s c) \<noteq> TCP_ESTABLISHED then (-1, s)
      else
        let (ret, s) = tcp_send_segment ethernet_poll c (TCP_FLAG_PSH OR TCP_FLAG_ACK) data s
        in (ret, if ret \<ge> 0 then upd_conn c (\<lambda>k. k\<lparr>seq := seq k + of_nat (length data)\<rparr>) s else s))"

primrec recv_loop :: "nat \<Rightarrow> tcp_conn \<Rightarrow> u8 list \<times> tcp_conn" where
  "recv_loop 0 c = ([], c)"
| "recv_loop (Suc n) c =
     (if recv_head c = recv_tail c then ([], c)
      else
        let (bs, c') = recv_loop n (c\<lparr>recv_head := (recv_head c + 1) mod TCP_RECV_BUF_SIZE\<rparr>)
        in (recv_buf c (recv_head c) # bs, c'))"

definition tcp_recv :: "ptr \<Rightarrow> nat \<Rightarrow> net \<Rightarrow> int \<times> u8 list \<times> net" where
  "tcp_recv c max_len s =
     (if c = 0 then (-1, [], s)
      else let (bs, k) = recv_loop max_len (conns s c) in (int (length bs), bs, upd_conn c (\<lambda>_. k) s))"

partial_function (option) recv_wait :: "ptr \<Rightarrow> nat \<Rightarrow> u64 \<Rightarrow> net \<Rightarrow> (int \<times> u8 list \<times> net) option" where
  "recv_wait c max_len t0 s =
     (let (t, s) = read_clock s
      in if t - t0 < TCP_RECV_TIMEOUT_MS
         then
           let s = tcp_poll c s;
               (n, bs, s) = tcp_recv c max_len s
           in if n > 0 then Some (n, bs, s)
              else if recv_closed (conns s c) \<and> recv_head (conns s c) = recv_tail (conns s c) then Some (0, [], s)
              else recv_wait c max_len t0 s
         else Some (0, [], s))"

definition tcp_recv_wait :: "ptr \<Rightarrow> nat \<Rightarrow> net \<Rightarrow> (int \<times> u8 list \<times> net) option" where
  "tcp_recv_wait c max_len s = (let (t0, s) = read_clock s in recv_wait c max_len t0 s)"

primrec close_loop :: "ptr \<Rightarrow> nat \<Rightarrow> net \<Rightarrow> net" where
  "close_loop c 0 s = s"
| "close_loop c (Suc n) s =
     (let s = tcp_poll c s in if conn_state (conns s c) = TCP_CLOSED then s else close_loop c n s)"

definition tcp_close :: "ptr \<Rightarrow> net \<Rightarrow> net" where
  "tcp_close c s =
     (if c = 0 \<or> conn_state (conns s c) = TCP_CLOSED then s
      else
        let s = upd_conn c (\<lambda>k. k\<lparr>conn_state := TCP_FIN_WAIT\<rparr>) s;
            s = snd (tcp_send_segment ethernet_poll c (TCP_FLAG_FIN OR TCP_FLAG_ACK) [] s);
            s = upd_conn c (\<lambda>k. k\<lparr>seq := seq k + 1\<rparr>) s;
            s = close_loop c 100000 s;
            s = upd_conn c (\<lambda>k. k\<lparr>conn_state := TCP_CLOSED\<rparr>) s
        in s\<lparr>active_tcp_conn := 0\<rparr>)"

section \<open>Network device\<close>

definition net_register_device :: "net_device option \<Rightarrow> net \<Rightarrow> net" where
  "net_register_device dev s = (if dev = None then s else s\<lparr>device := dev\<rparr>)"

definition net_get_device :: "net \<Rightarrow> net_device option" where "net_get_device s = device s"

definition net_ready :: "net \<Rightarrow> bool" where "net_ready s \<longleftrightarrow> net_initialized s \<and> device s \<noteq> None"

definition net_set_ip :: "u32 \<Rightarrow> u32 \<Rightarrow> u32 \<Rightarrow> net \<Rightarrow> net" where
  "net_set_ip addr gw nm s =
     (case device s of None \<Rightarrow> s | Some dev \<Rightarrow> s\<lparr>device := Some (dev\<lparr>ip := addr, gateway := gw, netmask := nm\<rparr>)\<rparr>)"

text \<open>\<open>virtio_net_init\<close> is the driver's: whether it found a card, and the state in which it registered it.\<close>

definition net_init :: "(net \<Rightarrow> bool \<times> net) \<Rightarrow> net \<Rightarrow> net" where
  "net_init virtio_net_init s =
     (let (found, s) = virtio_net_init s
      in if \<not> found then s
         else
           let s = tcp_init (ipv4_init (arp_init s));
               s = (case device s of
                      None \<Rightarrow> s
                    | Some dev \<Rightarrow> if gateway dev \<noteq> 0 then snd (resolve ethernet_poll (gateway dev) 32 128 s) else s)
           in s\<lparr>net_initialized := True\<rparr>)"

end
