(* ===== verification/Net_Checksum.thy ===== *)
theory Net_Checksum
  imports Net_Client
begin

text \<open>
  Byte order and the Internet checksum: what the folding loop computes, and that a header with its
  checksum filled in verifies.
\<close>

section \<open>Byte order\<close>

lemma bit_htons16: "bit (htons16 h) n \<longleftrightarrow> (if n < 8 then bit h (n + 8) else n < 16 \<and> bit h (n - 8))"
  by (auto simp: htons16_def bit_simps add.commute dest: bit_imp_le_length)

lemma htons16_twice [simp]: "htons16 (htons16 x) = x"
  by (rule bit_word_eqI) (auto simp: bit_htons16)

lemma byte_masks: "(0xFF000000 :: u32) = push_bit 24 (mask 8)" "(0x00FF0000 :: u32) = push_bit 16 (mask 8)"
  "(0x0000FF00 :: u32) = push_bit 8 (mask 8)" "(0x000000FF :: u32) = mask 8"
  by (simp_all add: mask_eq_exp_minus_1 push_bit_eq_mult)

lemma bit_htonl32: "bit (htonl32 h) n \<longleftrightarrow>
    (if n < 8 then bit h (n + 24) else if n < 16 then bit h (n + 8) else if n < 24 then bit h (n - 8)
     else n < 32 \<and> bit h (n - 24))"
  unfolding htonl32_def byte_masks by (auto simp: bit_simps add.commute dest: bit_imp_le_length)

lemma htonl32_twice [simp]: "htonl32 (htonl32 x) = x"
proof (rule bit_word_eqI)
  fix n assume "n < LENGTH(32)"
  then consider m where "n = m" "m < 8" | m where "n = 8 + m" "m < 8" | m where "n = 16 + m" "m < 8" | m where "n = 24 + m" "m < 8"
    using le_Suc_ex [of 8 n] le_Suc_ex [of 16 n] le_Suc_ex [of 24 n] by fastforce
  then show "bit (htonl32 (htonl32 x)) n \<longleftrightarrow> bit x n" by cases (simp_all add: bit_htonl32 add.commute)
qed

lemma st_length [simp]: "length (st16 w) = 2" "length (st32 v) = 4"
  by (simp_all add: st16_def st32_def)

lemma rd16_st16: "rd8 bs i = ucast w \<Longrightarrow> rd8 bs (i + 1) = ucast (drop_bit 8 w) \<Longrightarrow> rd16 bs i = w"
  by (rule bit_word_eqI) (auto simp: rd16_def bit_simps dest: bit_imp_le_length)

lemma rd32_st32:
  "rd8 bs i = ucast w \<Longrightarrow> rd8 bs (i + 1) = ucast (drop_bit 8 w) \<Longrightarrow> rd8 bs (i + 2) = ucast (drop_bit 16 w) \<Longrightarrow>
     rd8 bs (i + 3) = ucast (drop_bit 24 w) \<Longrightarrow> rd32 bs i = w"
proof (rule bit_word_eqI)
  fix n assume a: "rd8 bs i = ucast w" "rd8 bs (i + 1) = ucast (drop_bit 8 w)" "rd8 bs (i + 2) = ucast (drop_bit 16 w)"
    "rd8 bs (i + 3) = ucast (drop_bit 24 w)" and "n < LENGTH(32)"
  then consider m where "n = m" "m < 8" | m where "n = 8 + m" "m < 8" | m where "n = 16 + m" "m < 8" | m where "n = 24 + m" "m < 8"
    using le_Suc_ex [of 8 n] le_Suc_ex [of 16 n] le_Suc_ex [of 24 n] by fastforce
  then show "bit (rd32 bs i) n \<longleftrightarrow> bit w n"
    by cases (simp_all only: rd32_def a, auto simp: bit_simps dest: bit_imp_le_length)
qed

text \<open>Reading a field behind a prefix.\<close>

lemma rd8_append: "length a = n \<Longrightarrow> rd8 (a @ b) (n + i) = rd8 b i"
  by (auto simp: rd8_def nth_append)

lemma rd16_at: "length a = i \<Longrightarrow> rd16 (a @ st16 w @ b) i = w"
  by (rule rd16_st16; simp add: rd8_def st16_def nth_append)

lemma rd32_at: "length a = i \<Longrightarrow> rd32 (a @ st32 w @ b) i = w"
  by (rule rd32_st32; simp add: rd8_def st32_def nth_append)

text \<open>A field in network byte order is stored with its high byte first.\<close>

lemma st16_net: "st16 (htons16 w) = [ucast (drop_bit 8 w), ucast w]"
proof -
  have "ucast (htons16 w) = (ucast (drop_bit 8 w) :: u8)" "ucast (drop_bit 8 (htons16 w)) = (ucast w :: u8)"
    by (rule bit_word_eqI; auto simp: htons16_def bit_simps dest: bit_imp_le_length)+
  then show ?thesis by (simp add: st16_def)
qed

section \<open>The sum of the words\<close>

text \<open>The sum of the big-endian words, as a number.\<close>

fun wsum :: "u8 list \<Rightarrow> nat" where
  "wsum (a # b # bs) = 256 * unat a + unat b + wsum bs"
| "wsum [a] = 256 * unat a"
| "wsum [] = 0"

lemma unat8 [simp]: "unat (a :: u8) < 256"
  using unsigned_less [of a, where 'a = nat] by simp

lemma unat_word_of_bytes: "unat (push_bit 8 (ucast (a :: u8)) OR ucast (b :: u8) :: u32) = 256 * unat a + unat b"
proof -
  have "push_bit 8 (ucast a) OR ucast b = (push_bit 8 (ucast a) + ucast b :: u32)"
    by (rule disjunctive_add [symmetric]) (auto simp: bit_simps dest: bit_imp_le_length)
  also have "unat \<dots> = 256 * unat a + unat b"
  proof -
    have "unat (push_bit 8 (ucast a :: u32)) = 256 * unat a"
    proof -
      have "take_bit 32 (unat a) = unat a" by (rule take_bit_nat_eq_self) (rule less_trans [OF unat8], simp)
      moreover have "unat a * 256 < 4294967296" using unat8 [of a] by linarith
      ultimately show ?thesis by (simp add: push_bit_eq_mult unat_word_ariths unsigned_ucast_eq)
    qed
    moreover have "unat (ucast b :: u32) = unat b"
    proof -
      have "take_bit 32 (unat b) = unat b" by (rule take_bit_nat_eq_self) (rule less_trans [OF unat8], simp)
      then show ?thesis by (simp add: unsigned_ucast_eq)
    qed
    moreover have "256 * unat a + unat b < 4294967296" using unat8 [of a] unat8 [of b] by linarith
    ultimately show ?thesis by (simp add: unat_word_ariths)
  qed
  finally show ?thesis .
qed

lemma sum_words_nat: "unat acc + wsum bs < 4294967296 \<Longrightarrow> unat (sum_words bs acc) = unat acc + wsum bs"
proof (induction bs acc rule: sum_words.induct)
  case (1 a b bs acc)
  have "unat (acc + (push_bit 8 (ucast a) OR ucast b)) = unat acc + (256 * unat a + unat b)"
    using "1.prems" by (simp add: unat_word_ariths unat_word_of_bytes)
  then show ?case using "1.IH" "1.prems" by simp
next
  case (2 a acc)
  have "push_bit 8 (ucast a) = (push_bit 8 (ucast a) OR ucast (0 :: u8) :: u32)" by simp
  then have "unat (push_bit 8 (ucast a :: u32)) = 256 * unat a" using unat_word_of_bytes [of a 0] by simp
  then show ?case using 2 by (simp add: unat_word_ariths)
qed simp

lemma wsum_bound: "wsum bs \<le> 65535 * ((length bs + 1) div 2)"
proof (induction bs rule: wsum.induct)
  case (1 a b bs)
  have "256 * unat a + unat b \<le> 65535" using unat8 [of a] unat8 [of b] by linarith
  then show ?case using 1 by simp
next
  case (2 a)
  have "256 * unat a \<le> 65535" using unat8 [of a] by linarith
  then show ?case by simp
qed simp

lemma wsum_append: "even (length a) \<Longrightarrow> wsum (a @ b) = wsum a + wsum b"
  by (induction a rule: wsum.induct) simp_all

section \<open>Folding\<close>

text \<open>The representative of a sum in one's complement arithmetic of 16 bits.\<close>

definition ones16 :: "nat \<Rightarrow> nat" where "ones16 n = (if n = 0 then 0 else (n - 1) mod 65535 + 1)"

lemma ones16_le: "ones16 n \<le> 65535"
  by (simp add: ones16_def Suc_le_eq)

lemma ones16_small: "n < 65536 \<Longrightarrow> ones16 n = n"
  by (auto simp: ones16_def)

lemma ones16_fold: "ones16 (n mod 65536 + n div 65536) = ones16 n"
proof (cases "n = 0")
  case False
  let ?m = "n mod 65536 + n div 65536"
  have n: "n = 65535 * (n div 65536) + ?m" using div_mult_mod_eq [of n 65536] by simp
  have m: "?m \<noteq> 0" using False n by (metis add_is_0 mult_is_0)
  then have "n - 1 = (?m - 1) + 65535 * (n div 65536)" using n by linarith
  then have "(n - 1) mod 65535 = (?m - 1) mod 65535" by (metis mod_mult_self2)
  then show ?thesis using False m by (simp add: ones16_def)
qed (simp add: ones16_def)

lemma halves_nat:
  "unat ((s :: u32) AND 0xFFFF) = unat s mod 65536" "unat (drop_bit 16 (s :: u32)) = unat s div 65536"
proof -
  have m: "(0xFFFF :: u32) = mask 16" by (simp add: mask_eq_exp_minus_1)
  show "unat (s AND 0xFFFF) = unat s mod 65536" unfolding m take_bit_eq_mask [symmetric] by (simp add: take_bit_eq_mod unat_mod)
  show "unat (drop_bit 16 s) = unat s div 65536" by (simp add: drop_bit_eq_div unat_div)
qed

lemma fold_sum_nat: "unat (fold_sum s) = ones16 (unat s)"
proof (induction s rule: fold_sum.induct)
  case (1 s)
  have lt: "unat s < 4294967296" using unsigned_less [of s, where 'a = nat] by simp
  show ?case
  proof (cases "drop_bit 16 s = 0")
    case True
    then have "unat s div 65536 = 0" using halves_nat(2) [of s] by simp
    then have "unat s < 65536" by simp
    then show ?thesis using True by (simp add: fold_sum.simps [of s] ones16_small)
  next
    case False
    have "unat s mod 65536 + unat s div 65536 < 4294967296" using lt by linarith
    then have "unat ((s AND 0xFFFF) + drop_bit 16 s) = unat s mod 65536 + unat s div 65536"
      using halves_nat [of s] by (simp add: unat_word_ariths)
    then show ?thesis using "1.IH" [OF False] False ones16_fold by (simp add: fold_sum.simps [of s])
  qed
qed

lemma complement_nat:
  assumes "unat (x :: u32) < 65536"
  shows "unat (ucast (NOT x) :: u16) = 65535 - unat x"
proof -
  have "ucast (NOT x) = NOT (ucast x :: u16)" by (rule bit_word_eqI) (auto simp: bit_simps)
  also have "\<dots> = 65535 - (ucast x :: u16)" by (simp add: not_eq_complement)
  also have "unat \<dots> = 65535 - unat (ucast x :: u16)"
  proof -
    have "unat (ucast x :: u16) \<le> 65535" using unsigned_less [of "ucast x :: u16", where 'a = nat] by simp
    then have "(ucast x :: u16) \<le> 65535" by (simp add: word_le_nat_alt)
    then show ?thesis using unat_sub [of "ucast x :: u16" 65535] by simp
  qed
  finally show ?thesis using assms by (simp add: unsigned_ucast_eq take_bit_nat_eq_self)
qed

section \<open>The checksum\<close>

lemma checksum_nat:
  assumes "length bs \<le> 131072"
  shows "unat (ipv4_checksum bs) = 65535 - ones16 (wsum bs)"
proof -
  have "wsum bs < 4294967296" using wsum_bound [of bs] assms by linarith
  then have "unat (fold_sum (sum_words bs 0)) = ones16 (wsum bs)" using sum_words_nat [of 0 bs] fold_sum_nat by simp
  then show ?thesis using complement_nat [of "fold_sum (sum_words bs 0)"] ones16_le [of "wsum bs"] by (simp add: ipv4_checksum_def)
qed

lemma icmp_checksum_eq: "icmp_checksum = ipv4_checksum"
  by (simp add: icmp_checksum_def ipv4_checksum_def fun_eq_iff)

text \<open>A field filled with the checksum computed over zero makes the whole verify.\<close>

lemma wsum_field: "wsum (st16 (htons16 w)) = unat w"
proof -
  have l: "unat w < 65536" using unsigned_less [of w, where 'a = nat] by simp
  have "unat (ucast (drop_bit 8 w) :: u8) = unat w div 256"
    using l by (simp add: unsigned_ucast_eq drop_bit_eq_div unat_div take_bit_nat_eq_self less_mult_imp_div_less)
  moreover have "unat (ucast w :: u8) = unat w mod 256" by (simp add: unsigned_ucast_eq take_bit_eq_mod)
  ultimately show ?thesis by (simp add: st16_net)
qed

lemma ones16_multiple: "0 < k \<Longrightarrow> ones16 (65535 * k) = 65535"
proof -
  assume "0 < k"
  then obtain j where "k = Suc j" by (cases k) auto
  then have "65535 * k - 1 = 65534 + 65535 * j" by simp
  then have "(65535 * k - 1) mod 65535 = 65534" by (simp only: mod_mult_self2) simp
  then show ?thesis using \<open>0 < k\<close> by (simp add: ones16_def)
qed

lemma ones16_complement:
  assumes "0 < n"
  shows "ones16 (n + (65535 - ones16 n)) = 65535"
proof -
  define r where "r = (n - 1) mod 65535"
  have r: "r < 65535" "n - 1 = 65535 * ((n - 1) div 65535) + r" by (simp_all add: r_def)
  have "ones16 n = r + 1" using assms by (simp add: ones16_def r_def)
  then have "n + (65535 - ones16 n) = 65535 * ((n - 1) div 65535 + 1)" using r assms by simp
  then show ?thesis using ones16_multiple [of "(n - 1) div 65535 + 1"] by simp
qed

lemma checksum_verifies:
  assumes "even (length a)" and "length a + length b \<le> 131070" and "0 < wsum a + wsum b"
  shows "ipv4_checksum (a @ st16 (htons16 (ipv4_checksum (a @ [0, 0] @ b))) @ b) = 0"
proof -
  let ?n = "wsum a + wsum b"
  have "wsum (a @ [0, 0] @ b) = ?n" using wsum_append [OF assms(1), of "[0, 0] @ b"] by simp
  then have cs: "unat (ipv4_checksum (a @ [0, 0] @ b)) = 65535 - ones16 ?n"
    using checksum_nat [of "a @ [0, 0] @ b"] assms(2) by simp
  have "wsum (st16 (htons16 w) @ b) = unat w + wsum b" for w
    using wsum_append [of "st16 (htons16 w)" b] wsum_field [of w] by simp
  then have "wsum (a @ st16 (htons16 (ipv4_checksum (a @ [0, 0] @ b))) @ b) = ?n + (65535 - ones16 ?n)"
    using wsum_append [OF assms(1)] cs by simp
  then have "unat (ipv4_checksum (a @ st16 (htons16 (ipv4_checksum (a @ [0, 0] @ b))) @ b)) = 0"
    using checksum_nat [of "a @ st16 (htons16 (ipv4_checksum (a @ [0, 0] @ b))) @ b"] assms(2) ones16_complement [OF assms(3)] by simp
  then show ?thesis by (simp add: unat_eq_zero)
qed

end
