(* ===== verification/TCP_Ring.thy ===== *)
theory TCP_Ring
  imports Net_Checksum Fifo
begin

text \<open>
  The receive buffer of a TCP connection, a ring of 64 KiB with one slot kept free, is a bounded
  first-in first-out queue.
\<close>

section \<open>Representation\<close>

definition ring_ok :: "tcp_conn \<Rightarrow> bool" where
  "ring_ok c \<longleftrightarrow> recv_head c < TCP_RECV_BUF_SIZE \<and> recv_tail c < TCP_RECV_BUF_SIZE"

definition ring_data :: "tcp_conn \<Rightarrow> u8 list" where
  "ring_data c = map (\<lambda>i. recv_buf c ((recv_head c + i) mod TCP_RECV_BUF_SIZE)) [0..<recv_used c]"

lemma length_ring_data [simp]: "length (ring_data c) = recv_used c"
  by (simp add: ring_data_def)

lemma recv_used_less: "ring_ok c \<Longrightarrow> recv_used c < TCP_RECV_BUF_SIZE"
  by (auto simp: ring_ok_def recv_used_def)

lemma recv_tail_used: "ring_ok c \<Longrightarrow> (recv_head c + recv_used c) mod TCP_RECV_BUF_SIZE = recv_tail c"
  by (auto simp: ring_ok_def recv_used_def)

lemma ring_empty: "ring_ok c \<Longrightarrow> recv_head c = recv_tail c \<longleftrightarrow> recv_used c = 0"
  by (auto simp: ring_ok_def recv_used_def)

section \<open>Storing\<close>

lemma ring_push:
  fixes c :: tcp_conn and b :: u8
  assumes "ring_ok c" and "recv_used c + 1 < TCP_RECV_BUF_SIZE"
  defines "c' \<equiv> c\<lparr>recv_buf := (recv_buf c)(recv_tail c := b), recv_tail := (recv_tail c + 1) mod TCP_RECV_BUF_SIZE\<rparr>"
  shows "ring_ok c'" and "recv_used c' = recv_used c + 1" and "ring_data c' = ring_data c @ [b]"
proof -
  show ok: "ring_ok c'" using assms(1) by (simp add: ring_ok_def c'_def TCP_RECV_BUF_SIZE_def)
  show used: "recv_used c' = recv_used c + 1"
  proof (cases "recv_tail c + 1 = TCP_RECV_BUF_SIZE")
    case True
    then show ?thesis using assms(1,2) by (auto simp: ring_ok_def recv_used_def c'_def)
  next
    case False
    then have "recv_tail c + 1 < TCP_RECV_BUF_SIZE" using assms(1) by (simp add: ring_ok_def)
    then show ?thesis using assms(1,2) by (auto simp: ring_ok_def recv_used_def c'_def)
  qed
  have other: "(recv_head c + i) mod TCP_RECV_BUF_SIZE \<noteq> recv_tail c" if "i < recv_used c" for i
  proof
    assume "(recv_head c + i) mod TCP_RECV_BUF_SIZE = recv_tail c"
    moreover have "(recv_head c + i) mod TCP_RECV_BUF_SIZE =
        (if recv_head c + i < TCP_RECV_BUF_SIZE then recv_head c + i else recv_head c + i - TCP_RECV_BUF_SIZE)"
      using that assms(1) recv_used_less [OF assms(1)] by (auto simp: ring_ok_def mod_if)
    ultimately show False using that assms(1) by (auto simp: ring_ok_def recv_used_def split: if_splits)
  qed
  show "ring_data c' = ring_data c @ [b]"
    using other recv_tail_used [OF assms(1)] unfolding ring_data_def used by (simp add: c'_def)
qed

lemma recv_copy_ring:
  "ring_ok c \<Longrightarrow> recv_used c + length bs < TCP_RECV_BUF_SIZE \<Longrightarrow>
     ring_ok (recv_copy bs c) \<and> ring_data (recv_copy bs c) = ring_data c @ bs"
proof (induction bs arbitrary: c)
  case (Cons b bs)
  have "recv_used c + 1 < TCP_RECV_BUF_SIZE" using Cons.prems by simp
  note p = ring_push [OF Cons.prems(1) this, of b]
  show ?case using Cons.IH [OF p(1)] p(2,3) Cons.prems(2) by simp
qed simp

lemma recv_copy_frame [simp]:
  "conn_state (recv_copy bs c) = conn_state c" "remote_port (recv_copy bs c) = remote_port c"
  "local_port (recv_copy bs c) = local_port c" "ack (recv_copy bs c) = ack c" "recv_closed (recv_copy bs c) = recv_closed c"
  "seq (recv_copy bs c) = seq c" "remote_ip (recv_copy bs c) = remote_ip c" "recv_head (recv_copy bs c) = recv_head c"
  by (induction bs arbitrary: c) simp_all

definition accepted :: "u8 list \<Rightarrow> tcp_conn \<Rightarrow> nat" where
  "accepted pay c = min (length pay) (TCP_RECV_BUF_SIZE - recv_used c - 1)"

lemma recv_data_ring:
  assumes "ring_ok c"
  shows "ring_ok (recv_data pay c)" and "ring_data (recv_data pay c) = ring_data c @ take (accepted pay c) pay"
    and "ack (recv_data pay c) = ack c + of_nat (accepted pay c)"
proof -
  let ?c = "c\<lparr>ack := ack c + of_nat (accepted pay c)\<rparr>"
  have eq: "recv_data pay c = recv_copy (take (accepted pay c) pay) ?c" by (simp add: recv_data_def accepted_def Let_def)
  have c: "ring_ok ?c" "recv_used ?c = recv_used c" "ring_data ?c = ring_data c"
    using assms by (simp_all add: ring_ok_def recv_used_def ring_data_def)
  have "recv_used ?c + length (take (accepted pay c) pay) < TCP_RECV_BUF_SIZE"
    using recv_used_less [OF assms] c(2) by (simp add: accepted_def)
  from recv_copy_ring [OF c(1) this] c(3)
  show "ring_ok (recv_data pay c)" and "ring_data (recv_data pay c) = ring_data c @ take (accepted pay c) pay"
    by (simp_all add: eq)
  show "ack (recv_data pay c) = ack c + of_nat (accepted pay c)" by (simp add: eq)
qed

lemma recv_data_frame [simp]:
  "conn_state (recv_data pay c) = conn_state c" "remote_port (recv_data pay c) = remote_port c"
  "local_port (recv_data pay c) = local_port c" "recv_closed (recv_data pay c) = recv_closed c"
  by (simp_all add: recv_data_def Let_def)

section \<open>Taking\<close>

lemma ring_pop:
  fixes c :: tcp_conn
  assumes "ring_ok c" and "recv_head c \<noteq> recv_tail c"
  defines "c' \<equiv> c\<lparr>recv_head := (recv_head c + 1) mod TCP_RECV_BUF_SIZE\<rparr>"
  shows "ring_ok c'" and "ring_data c = recv_buf c (recv_head c) # ring_data c'"
proof -
  show "ring_ok c'" using assms(1) by (simp add: ring_ok_def c'_def TCP_RECV_BUF_SIZE_def)
  have used: "recv_used c = Suc (recv_used c')"
  proof (cases "recv_head c + 1 = TCP_RECV_BUF_SIZE")
    case True
    then show ?thesis using assms(1,2) by (auto simp: ring_ok_def recv_used_def c'_def)
  next
    case False
    then have "recv_head c + 1 < TCP_RECV_BUF_SIZE" using assms(1) by (simp add: ring_ok_def)
    then show ?thesis using assms(1,2) by (auto simp: ring_ok_def recv_used_def c'_def)
  qed
  have "(recv_head c + Suc i) mod TCP_RECV_BUF_SIZE = (recv_head c' + i) mod TCP_RECV_BUF_SIZE" for i
    by (simp add: c'_def mod_simps)
  moreover have "recv_head c mod TCP_RECV_BUF_SIZE = recv_head c" using assms(1) by (simp add: ring_ok_def)
  moreover have "recv_buf c' = recv_buf c" by (simp add: c'_def)
  moreover have "map f [0..<Suc n] = f 0 # map (\<lambda>i. f (Suc i)) [0..<n]" for f :: "nat \<Rightarrow> u8" and n
    by (simp only: upt_conv_Cons zero_less_Suc map_Suc_upt [symmetric] list.map map_map o_def)
  ultimately show "ring_data c = recv_buf c (recv_head c) # ring_data c'" by (simp add: ring_data_def used del: upt_Suc)
qed

lemma recv_loop_ring:
  "ring_ok c \<Longrightarrow> recv_loop n c = (bs, c') \<Longrightarrow> ring_ok c' \<and> bs = take n (ring_data c) \<and> ring_data c' = drop n (ring_data c)"
proof (induction n arbitrary: c bs)
  case (Suc n)
  show ?case
  proof (cases "recv_head c = recv_tail c")
    case True
    then have "ring_data c = []" using ring_empty [OF Suc.prems(1)] by (simp add: ring_data_def)
    then show ?thesis using Suc.prems True by simp
  next
    case False
    let ?c = "c\<lparr>recv_head := (recv_head c + 1) mod TCP_RECV_BUF_SIZE\<rparr>"
    obtain bs1 where r: "recv_loop n ?c = (bs1, c')" "bs = recv_buf c (recv_head c) # bs1"
      using Suc.prems(2) False by (auto simp: Let_def split: prod.splits)
    show ?thesis using Suc.IH [OF ring_pop(1) [OF Suc.prems(1) False] r(1)] ring_pop(2) [OF Suc.prems(1) False] r(2) by simp
  qed
qed simp

lemma recv_loop_frame:
  "recv_loop n c = (bs, c') \<Longrightarrow> c' = c\<lparr>recv_head := recv_head c'\<rparr>"
proof (induction n arbitrary: c bs)
  case (Suc n)
  show ?case
  proof (cases "recv_head c = recv_tail c")
    case False
    then obtain bs1 where "recv_loop n (c\<lparr>recv_head := (recv_head c + 1) mod TCP_RECV_BUF_SIZE\<rparr>) = (bs1, c')"
      using Suc.prems by (auto simp: Let_def split: prod.splits)
    from Suc.IH [OF this] show ?thesis by simp
  qed (use Suc.prems in simp)
qed simp

section \<open>The queue\<close>

definition tcp_put :: "u8 list \<Rightarrow> tcp_conn \<Rightarrow> nat \<times> tcp_conn" where
  "tcp_put pay c = (accepted pay c, recv_data pay c)"

interpretation tcp_queue: bounded_fifo ring_ok ring_data "TCP_RECV_BUF_SIZE - 1" tcp_put recv_loop
proof unfold_locales
  fix c assume "ring_ok c"
  then show "length (ring_data c) \<le> TCP_RECV_BUF_SIZE - 1" using recv_used_less by fastforce
next
  fix c pay n c' assume "ring_ok c" "tcp_put pay c = (n, c')"
  then show "ring_ok c' \<and> n = min (length pay) (TCP_RECV_BUF_SIZE - 1 - length (ring_data c)) \<and> ring_data c' = ring_data c @ take n pay"
    using recv_data_ring [of c pay] by (auto simp: tcp_put_def accepted_def)
next
  fix c k ys c' assume "ring_ok c" "recv_loop k c = (ys, c')"
  then show "ring_ok c' \<and> ys = take k (ring_data c) \<and> ring_data c' = drop k (ring_data c)" by (rule recv_loop_ring)
qed

end
