(* ===== verification/Net_Wait.thy ===== *)
theory Net_Wait
  imports TCP_Ring
begin

text \<open>
  The loops that wait for an answer with a time limit. Their interface is a locale: a loop that reads
  the clock, works on the input and stops on an answer or when the time is up. Such a loop returns,
  because the input is finite and the clock keeps ticking; the interpretations are the waits of \<open>ping\<close>,
  \<open>tcp_connect\<close> and \<open>tcp_recv_wait\<close>.
\<close>

section \<open>What polling keeps\<close>

definition steady :: "(nat \<Rightarrow> u64) \<Rightarrow> net_device option \<Rightarrow> net \<Rightarrow> bool" where
  "steady clk dev s \<longleftrightarrow> clock s = clk \<and> device s = dev"

interpretation steady: net_invariant "steady clk dev" "\<lambda>_ _. True" for clk dev
  by unfold_locales (simp_all add: steady_def quiet_def upd_conn_def)

text \<open>Nothing changes the connections while there is no input.\<close>

definition idle :: "(ptr \<Rightarrow> tcp_conn) \<Rightarrow> net \<Rightarrow> bool" where
  "idle k s \<longleftrightarrow> rx s = [] \<and> conns s = k"

interpretation idle: net_invariant "idle k" "\<lambda>_ _. False" for k
  by unfold_locales (simp_all add: idle_def quiet_def)

lemma drain_keeps:
  assumes "\<And>s. I s \<Longrightarrow> I (snd (ethernet_poll s))"
  shows "I s \<Longrightarrow> I (drain n s)"
proof (induction n arbitrary: s)
  case (Suc n)
  obtain r s1 where p: "ethernet_poll s = (r, s1)" by (cases "ethernet_poll s")
  have "I s1" using assms [OF Suc.prems] p by simp
  then show ?case using Suc.IH p by simp
qed simp

lemma steady_tcp_poll: "steady clk dev s \<Longrightarrow> steady clk dev (tcp_poll c s)"
  unfolding tcp_poll_def by (rule drain_keeps, rule steady.safe_poll) (simp_all add: steady_def)

lemma drain_consumes: "length (rx (drain n s)) \<le> length (rx s)"
  by (rule drain_keeps [where I = "\<lambda>u. length (rx u) \<le> length (rx s)"]) (auto intro: le_trans [OF poll_consumes])

lemma drain_pops:
  assumes "rx s \<noteq> []" and "device s \<noteq> None"
  shows "length (rx (drain (Suc n) s)) < length (rx s)"
proof -
  obtain r s1 where p: "ethernet_poll s = (r, s1)" by (cases "ethernet_poll s")
  have "length (rx s1) < length (rx s)" using poll_pops [OF assms] p by simp
  then show ?thesis using p le_less_trans [OF drain_consumes [of n s1]] by simp
qed

lemma drain_idle: "rx s = [] \<or> device s = None \<Longrightarrow> drain n s = s"
  by (cases n) (simp_all add: poll_idle)

lemma tcp_poll_pops: "rx s \<noteq> [] \<Longrightarrow> device s \<noteq> None \<Longrightarrow> length (rx (tcp_poll c s)) < length (rx s)"
  using drain_pops [of "s\<lparr>active_tcp_conn := c\<rparr>" 63] by (simp add: tcp_poll_def)

lemma tcp_poll_idle: "rx s = [] \<or> device s = None \<Longrightarrow> tcp_poll c s = s\<lparr>active_tcp_conn := c\<rparr>"
  by (simp add: tcp_poll_def drain_idle)

section \<open>Waiting\<close>

text \<open>A clock that keeps ticking: after any time, any limit has passed at some later reading.\<close>

definition ticking :: "u64 \<Rightarrow> (nat \<Rightarrow> u64) \<Rightarrow> bool" where
  "ticking limit clk \<longleftrightarrow> (\<forall>t0 j. \<exists>i\<ge>j. \<not> clk i - t0 < limit)"

lemma ticking_counter:
  assumes "limit \<noteq> 0"
  shows "ticking limit of_nat"
  unfolding ticking_def
proof (intro allI)
  fix t0 :: u64 and j :: nat
  define i where "i = j + unat (t0 - 1 - of_nat j)"
  have "of_nat i - t0 = (- 1 :: u64)" by (simp add: i_def)
  moreover have "\<not> (- 1 :: u64) < limit" by (simp add: word_order.not_eq_extremum [symmetric] not_less)
  ultimately have "\<not> of_nat i - t0 < limit" by simp
  moreover have "j \<le> i" by (simp add: i_def)
  ultimately show "\<exists>i\<ge>j. \<not> of_nat i - t0 < limit" by blast
qed

locale wait_loop =
  fixes loop :: "net \<Rightarrow> 'r option" and t0 :: u64 and limit :: u64
    and work :: "net \<Rightarrow> 'a \<times> net" and stop :: "'a \<Rightarrow> net \<Rightarrow> 'r option" and expire :: "net \<Rightarrow> 'r"
  assumes loop_step: "loop s =
      (let (t, s) = read_clock s
       in if t - t0 < limit
          then case work s of (a, s) \<Rightarrow> (case stop a s of Some r \<Rightarrow> Some r | None \<Rightarrow> loop s)
          else Some (expire s))"
    and work_steady: "steady clk dev s \<Longrightarrow> steady clk dev (snd (work s))"
    and work_pops: "rx s \<noteq> [] \<Longrightarrow> device s \<noteq> None \<Longrightarrow> length (rx (snd (work s))) < length (rx s)"
    and work_idle: "rx s = [] \<or> device s = None \<Longrightarrow> rx (snd (work s)) = rx s \<and> clock_reads (snd (work s)) = clock_reads s"
begin

text \<open>The rule for such a loop: an invariant and what the two ways out establish.\<close>

lemma wait_rule:
  assumes tick: "ticking limit (clock s)" and J: "J s"
    and tick_step: "\<And>s. J s \<Longrightarrow> J (s\<lparr>clock_reads := clock_reads s + 1\<rparr>)"
    and step: "\<And>s a s'. J s \<Longrightarrow> work s = (a, s') \<Longrightarrow> stop a s' = None \<Longrightarrow> J s'"
    and found: "\<And>s a s' r. J s \<Longrightarrow> work s = (a, s') \<Longrightarrow> stop a s' = Some r \<Longrightarrow> Q r"
    and late: "\<And>s. J s \<Longrightarrow> Q (expire s)"
  shows "\<exists>r. loop s = Some r \<and> Q r"
proof -
  obtain i where i: "clock_reads s \<le> i" "\<not> clock s i - t0 < limit" using tick unfolding ticking_def by blast
  define clk where "clk = clock s"
  have *: "ticking limit clk \<Longrightarrow> J s \<Longrightarrow> clock s = clk \<Longrightarrow> length (rx s) = n \<Longrightarrow> clock_reads s \<le> i \<Longrightarrow> i - clock_reads s = m \<Longrightarrow>
      \<not> clk i - t0 < limit \<Longrightarrow> \<exists>r. loop s = Some r \<and> Q r" for n m i s
  proof (induction n arbitrary: s i m rule: less_induct)
    case (less n)
    note outer = less.IH
    show ?case using less.prems
    proof (induction m arbitrary: s rule: less_induct)
      case (less m)
      define u where "u = s\<lparr>clock_reads := clock_reads s + 1\<rparr>"
      have u: "J u" "clock u = clk" "rx u = rx s" "device u = device s" "clock_reads u = clock_reads s + 1" "steady clk (device s) u"
        using tick_step [OF less.prems(2)] less.prems(3) by (simp_all add: u_def steady_def)
      obtain a s1 where w: "work u = (a, s1)" by (cases "work u")
      have s1: "clock s1 = clk" using work_steady [OF u(6)] w by (simp add: steady_def)
      have loop: "loop s = (if clk (clock_reads s) - t0 < limit
          then (case stop a s1 of Some r \<Rightarrow> Some r | None \<Rightarrow> loop s1) else Some (expire u))"
        using w less.prems(3) by (simp add: loop_step [of s] read_clock_def u_def)
      consider "\<not> clk (clock_reads s) - t0 < limit" | r where "stop a s1 = Some r"
        | "clk (clock_reads s) - t0 < limit" "stop a s1 = None" by (cases "stop a s1") auto
      then show ?case
      proof cases
        case 1
        then show ?thesis using loop late [OF u(1)] by simp
      next
        case (2 r)
        then show ?thesis using loop late [OF u(1)] found [OF u(1) w 2] by simp
      next
        case 3
        have J1: "J s1" by (rule step [OF u(1) w 3(2)])
        have "\<exists>r. loop s1 = Some r \<and> Q r"
        proof (cases "rx u \<noteq> [] \<and> device u \<noteq> None")
          case True
          then have lt: "length (rx s1) < n" using work_pops [of u] w u(3) less.prems(4) by simp
          obtain i' where "clock_reads s1 \<le> i'" "\<not> clk i' - t0 < limit" using less.prems(1) unfolding ticking_def by blast
          then show ?thesis using outer [OF lt less.prems(1) J1 s1] by blast
        next
          case False
          then have r1: "rx s1 = rx s" "clock_reads s1 = clock_reads s + 1" using work_idle [of u] w u(3,5) by auto
          have ne: "clock_reads s \<noteq> i" using 3(1) less.prems(7) by auto
          then have "i - clock_reads s1 < m" "clock_reads s1 \<le> i" using r1 less.prems(5,6) by auto
          then show ?thesis using less.IH less.prems(1,4,7) J1 s1 r1(1) by simp
        qed
        then show ?thesis using loop 3 by simp
      qed
    qed
  qed
  show ?thesis by (rule * [OF _ J _ refl i(1) refl]) (use tick i(2) in \<open>simp_all add: clk_def\<close>)
qed

end

section \<open>The waits of the clients\<close>

interpretation ping_wait: wait_loop "ping_wait t0 timeout_ms" t0 "ucast timeout_ms" "\<lambda>s. ((), snd (ethernet_poll s))"
  "\<lambda>_ s. if icmp_reply_received s then Some (sint (ucast (clock s (clock_reads s) - t0) :: u32), s\<lparr>clock_reads := clock_reads s + 1\<rparr>) else None"
  "\<lambda>s. (- 1, s)" for t0 timeout_ms
proof unfold_locales
  fix s :: net
  show "ping_wait t0 timeout_ms s = (let (t, s) = read_clock s
      in if t - t0 < ucast timeout_ms
         then case ((), snd (ethernet_poll s)) of (a, s) \<Rightarrow>
           (case if icmp_reply_received s then Some (sint (ucast (clock s (clock_reads s) - t0) :: u32), s\<lparr>clock_reads := clock_reads s + 1\<rparr>) else None
            of None \<Rightarrow> ping_wait t0 timeout_ms s | Some r \<Rightarrow> Some r)
         else Some (- 1, s))"
    by (subst ping_wait.simps) (simp add: read_clock_def Let_def)
qed (simp_all add: steady.safe_poll poll_pops poll_idle)

interpretation connect_wait: wait_loop "connect_wait c t0" t0 TCP_CONNECT_TIMEOUT_MS "\<lambda>s. ((), tcp_poll c s)"
  "\<lambda>_ s. if conn_state (conns s c) = TCP_ESTABLISHED then Some (0, s) else if conn_state (conns s c) = TCP_CLOSED then Some (- 1, s) else None"
  "\<lambda>s. (- 1, upd_conn c (\<lambda>k. k\<lparr>conn_state := TCP_CLOSED\<rparr>) s)" for c t0
proof unfold_locales
  fix s :: net
  show "connect_wait c t0 s = (let (t, s) = read_clock s
      in if t - t0 < TCP_CONNECT_TIMEOUT_MS
         then case ((), tcp_poll c s) of (a, s) \<Rightarrow>
           (case if conn_state (conns s c) = TCP_ESTABLISHED then Some (0, s)
                 else if conn_state (conns s c) = TCP_CLOSED then Some (- 1, s) else None
            of None \<Rightarrow> connect_wait c t0 s | Some r \<Rightarrow> Some r)
         else Some (- 1, upd_conn c (\<lambda>k. k\<lparr>conn_state := TCP_CLOSED\<rparr>) s))"
    by (subst connect_wait.simps) (simp add: read_clock_def Let_def)
qed (simp_all add: steady_tcp_poll tcp_poll_pops tcp_poll_idle)

lemma tcp_recv_keeps:
  "tcp_recv c m s = (n, bs, s') \<Longrightarrow> rx s' = rx s \<and> device s' = device s \<and> clock s' = clock s \<and> clock_reads s' = clock_reads s"
  by (auto simp: tcp_recv_def upd_conn_def split: prod.splits if_splits)

interpretation recv_wait: wait_loop "recv_wait c m t0" t0 TCP_RECV_TIMEOUT_MS
  "\<lambda>s. case tcp_recv c m (tcp_poll c s) of (n, bs, s) \<Rightarrow> ((n, bs), s)"
  "\<lambda>(n, bs) s. if n > 0 then Some (n, bs, s)
     else if recv_closed (conns s c) \<and> recv_head (conns s c) = recv_tail (conns s c) then Some (0, [], s) else None"
  "\<lambda>s. (0, [], s)" for c m t0
proof unfold_locales
  fix s :: net
  show "recv_wait c m t0 s = (let (t, s) = read_clock s
      in if t - t0 < TCP_RECV_TIMEOUT_MS
         then case case tcp_recv c m (tcp_poll c s) of (n, bs, s) \<Rightarrow> ((n, bs), s) of (a, s) \<Rightarrow>
           (case (case a of (n, bs) \<Rightarrow> \<lambda>s. if n > 0 then Some (n, bs, s)
                 else if recv_closed (conns s c) \<and> recv_head (conns s c) = recv_tail (conns s c) then Some (0, [], s) else None) s
            of None \<Rightarrow> recv_wait c m t0 s | Some r \<Rightarrow> Some r)
         else Some (0, [], s))"
    by (subst recv_wait.simps) (simp add: Let_def split: prod.split)
next
  fix s :: net and clk dev assume "steady clk dev s"
  from steady_tcp_poll [OF this, of c]
  show "steady clk dev (snd (case tcp_recv c m (tcp_poll c s) of (n, bs, s) \<Rightarrow> ((n, bs), s)))"
    by (auto simp: steady_def dest: tcp_recv_keeps split: prod.split)
next
  fix s :: net assume "rx s \<noteq> []" "device s \<noteq> None"
  from tcp_poll_pops [OF this, of c]
  show "length (rx (snd (case tcp_recv c m (tcp_poll c s) of (n, bs, s) \<Rightarrow> ((n, bs), s)))) < length (rx s)"
    by (auto dest: tcp_recv_keeps split: prod.split)
next
  fix s :: net assume "rx s = [] \<or> device s = None"
  from tcp_poll_idle [OF this, of c]
  show "rx (snd (case tcp_recv c m (tcp_poll c s) of (n, bs, s) \<Rightarrow> ((n, bs), s))) = rx s \<and>
      clock_reads (snd (case tcp_recv c m (tcp_poll c s) of (n, bs, s) \<Rightarrow> ((n, bs), s))) = clock_reads s"
    by (auto dest: tcp_recv_keeps split: prod.split)
qed

end
