(* ===== verification/TCP_Stream.thy ===== *)
theory TCP_Stream
  imports Net_Wait
begin

text \<open>
  What a TCP client may rely on. The peer's stream is a list of bytes; the network may lose, repeat and
  reorder the peer's segments, and other traffic may be mixed in. The invariant relates what the client
  has received, what waits in the ring and the acknowledgement number to that stream.
\<close>

section \<open>The invariant\<close>

text \<open>
  A segment of the peer's: \<open>b\<close> is the number of the first byte of the stream \<open>xs\<close>. Segments for other
  ports and segments without data are not constrained.
\<close>

definition genuine :: "u16 \<Rightarrow> u16 \<Rightarrow> u32 \<Rightarrow> u8 list \<Rightarrow> u8 list \<Rightarrow> u8 list \<Rightarrow> bool" where
  "genuine rp lp b xs hdr pay \<longleftrightarrow>
     htons16 (rd16 hdr 0) = rp \<and> htons16 (rd16 hdr 2) = lp \<longrightarrow>
       (rd8 hdr 13 AND TCP_FLAG_SYN \<noteq> 0 \<longrightarrow> pay = [] \<and> htonl32 (rd32 hdr 4) + 1 = b) \<and>
       (pay \<noteq> [] \<longrightarrow> (\<exists>off. off + length pay \<le> length xs \<and> htonl32 (rd32 hdr 4) = b + of_nat off \<and>
          pay = take (length pay) (drop off xs)))"

definition genuine_frame :: "u16 \<Rightarrow> u16 \<Rightarrow> u32 \<Rightarrow> u8 list \<Rightarrow> u8 list \<Rightarrow> bool" where
  "genuine_frame rp lp b xs f \<longleftrightarrow> (is_tcp f \<longrightarrow> genuine rp lp b xs (ip_payload (frame_ip f)) (tcp_data (ip_payload (frame_ip f))))"

definition in_sync :: "u32 \<Rightarrow> u8 list \<Rightarrow> u8 list \<Rightarrow> tcp_conn \<Rightarrow> bool" where
  "in_sync b xs d k \<longleftrightarrow> ring_ok k \<and> (conn_state k = TCP_SYN_SENT \<longrightarrow> d = [] \<and> ring_data k = []) \<and>
     (recv_closed k \<or> (\<exists>n\<le>length xs. d @ ring_data k = take n xs \<and> (conn_state k = TCP_ESTABLISHED \<longrightarrow> ack k = b + of_nat n)))"

definition stream_inv :: "ptr \<Rightarrow> u16 \<Rightarrow> u16 \<Rightarrow> u32 \<Rightarrow> u8 list \<Rightarrow> u8 list \<Rightarrow> net \<Rightarrow> bool" where
  "stream_inv c rp lp b xs d s \<longleftrightarrow> length xs < 2 ^ 32 \<and> remote_port (conns s c) = rp \<and> local_port (conns s c) = lp \<and>
     list_all (genuine_frame rp lp b xs) (rx s) \<and> in_sync b xs d (conns s c)"

lemma in_sync_closed: "in_sync b xs d k \<Longrightarrow> in_sync b xs d (k\<lparr>conn_state := TCP_CLOSED\<rparr>)"
  "in_sync b xs d k \<Longrightarrow> in_sync b xs d (k\<lparr>conn_state := TCP_FIN_WAIT\<rparr>)"
  "in_sync b xs d k \<Longrightarrow> in_sync b xs d (k\<lparr>conn_state := TCP_CLOSED, recv_closed := True\<rparr>)"
  "in_sync b xs d k \<Longrightarrow> in_sync b xs d (k\<lparr>ack := a, recv_closed := True\<rparr>)"
  "in_sync b xs d k \<Longrightarrow> in_sync b xs d (k\<lparr>seq := a\<rparr>)"
  by (auto simp: in_sync_def ring_ok_def ring_data_def recv_used_def)

lemma in_sync_connect:
  assumes "in_sync b xs d k" and "conn_state k = TCP_SYN_SENT"
  shows "in_sync b xs d (k\<lparr>ack := b, remote_seq := r, conn_state := TCP_ESTABLISHED\<rparr>)"
  using assms by (auto simp: in_sync_def ring_ok_def ring_data_def recv_used_def)

text \<open>The number of a byte determines its place in the stream.\<close>

lemma seq_place: "b + of_nat off = b + (of_nat n :: u32) \<Longrightarrow> off < 2 ^ 32 \<Longrightarrow> n < 2 ^ 32 \<Longrightarrow> off = n"
proof -
  assume "b + of_nat off = b + (of_nat n :: u32)" and l: "off < 2 ^ 32" "n < 2 ^ 32"
  then have "unat (of_nat off :: u32) = unat (of_nat n :: u32)" by simp
  then show "off = n" using l by (simp add: unsigned_of_nat take_bit_nat_eq_self)
qed

lemma take_append_take: "take n xs @ take m (drop n xs) = take (n + m) xs"
  by (simp add: take_add)

lemma in_sync_data:
  assumes k: "in_sync b xs d k" "conn_state k = TCP_ESTABLISHED" and len: "length xs < 2 ^ 32"
    and pay: "pay \<noteq> [] \<Longrightarrow> \<exists>off. off + length pay \<le> length xs \<and> ack k = b + of_nat off \<and> pay = take (length pay) (drop off xs)"
  shows "in_sync b xs d (recv_data pay k)"
proof (cases "recv_closed k")
  case True
  then show ?thesis using k recv_data_ring [of k pay] by (simp add: in_sync_def)
next
  case False
  have ok: "ring_ok k" using k(1) by (simp add: in_sync_def)
  obtain n where n: "n \<le> length xs" "d @ ring_data k = take n xs" "ack k = b + of_nat n"
    using k False by (auto simp: in_sync_def)
  define m where "m = accepted pay k"
  have m: "m \<le> length pay" by (simp add: m_def accepted_def)
  have "n + m \<le> length xs \<and> take m pay = take m (drop n xs)"
  proof (cases "pay = []")
    case False
    then obtain off where off: "off + length pay \<le> length xs" "ack k = b + of_nat off" "pay = take (length pay) (drop off xs)"
      using pay by blast
    have "off = n" using seq_place [of b off n] off n len by simp
    then show ?thesis using off(1,3) m by (metis add_le_mono1 le_trans min.absorb1 nat_add_left_cancel_le take_take)
  qed (use n m in simp)
  then have "n + m \<le> length xs" "d @ ring_data (recv_data pay k) = take (n + m) xs" "ack (recv_data pay k) = b + of_nat (n + m)"
    using recv_data_ring [OF ok, of pay] n take_append_take [of n xs m] by (simp_all add: m_def flip: append_assoc)
  then show ?thesis using recv_data_ring(1) [OF ok, of pay] k(2) by (auto simp: in_sync_def)
qed

lemma stream_upd:
  assumes "stream_inv c rp lp b xs d s"
    and "c' = c \<Longrightarrow> in_sync b xs d (conns s c) \<Longrightarrow> remote_port (conns s c) = rp \<Longrightarrow> local_port (conns s c) = lp \<Longrightarrow>
      remote_port (f (conns s c)) = rp \<and> local_port (f (conns s c)) = lp \<and> in_sync b xs d (f (conns s c))"
  shows "stream_inv c rp lp b xs d (upd_conn c' f s)"
  using assms by (cases "c' = c") (auto simp: stream_inv_def upd_conn_def)

interpretation tcp_stream: net_invariant "stream_inv c rp lp b xs d" "genuine rp lp b xs" for c rp lp b xs d
proof unfold_locales
  fix s s' assume "stream_inv c rp lp b xs d s" "quiet s s'"
  then show "stream_inv c rp lp b xs d s'" by (simp add: stream_inv_def quiet_def)
next
  fix s :: net and f fs assume "stream_inv c rp lp b xs d s" "rx s = f # fs"
  then show "stream_inv c rp lp b xs d (s\<lparr>rx := fs\<rparr>) \<and> (is_tcp f \<longrightarrow> genuine rp lp b xs (ip_payload (frame_ip f)) (tcp_data (ip_payload (frame_ip f))))"
    by (simp add: stream_inv_def genuine_frame_def)
next
  fix s hdr pay c'
  assume s: "stream_inv c rp lp b xs d s" and g: "genuine rp lp b xs hdr pay" "for_conn s c' hdr" "conn_state (conns s c') = TCP_SYN_SENT"
    and fl: "rd8 hdr 13 AND (TCP_FLAG_SYN OR TCP_FLAG_ACK) = TCP_FLAG_SYN OR TCP_FLAG_ACK"
  have "rd8 hdr 13 AND TCP_FLAG_SYN \<noteq> 0"
  proof
    assume "rd8 hdr 13 AND TCP_FLAG_SYN = 0"
    then have "(rd8 hdr 13 AND (TCP_FLAG_SYN OR TCP_FLAG_ACK)) AND TCP_FLAG_SYN = 0" by (simp add: and.assoc and.left_commute)
    then show False unfolding fl by (simp add: TCP_FLAG_SYN_def TCP_FLAG_ACK_def)
  qed
  then show "stream_inv c rp lp b xs d (upd_conn c' (\<lambda>k. k\<lparr>ack := htonl32 (rd32 hdr 4) + 1, remote_seq := htonl32 (rd32 hdr 4),
      conn_state := TCP_ESTABLISHED\<rparr>) s)"
    by (intro stream_upd [OF s]) (use s g in \<open>auto intro!: in_sync_connect simp: genuine_def for_conn_def stream_inv_def\<close>)
next
  fix s hdr pay c'
  assume s: "stream_inv c rp lp b xs d s" and g: "genuine rp lp b xs hdr pay" "for_conn s c' hdr" "conn_state (conns s c') = TCP_ESTABLISHED"
    "htonl32 (rd32 hdr 4) = ack (conns s c')"
  show "stream_inv c rp lp b xs d (upd_conn c' (recv_data pay) s)"
    by (rule stream_upd [OF s]) (use s g in \<open>auto intro!: in_sync_data simp: genuine_def for_conn_def stream_inv_def\<close>)
qed (rule stream_upd, assumption, simp add: in_sync_closed)+

section \<open>The client\<close>

lemma stream_active [simp]: "stream_inv c rp lp b xs d (s\<lparr>active_tcp_conn := a\<rparr>) = stream_inv c rp lp b xs d s"
  "stream_inv c rp lp b xs d (s\<lparr>clock_reads := i\<rparr>) = stream_inv c rp lp b xs d s"
  by (simp_all add: stream_inv_def)

lemma stream_tcp_poll: "stream_inv c rp lp b xs d s \<Longrightarrow> stream_inv c rp lp b xs d (tcp_poll a s)"
  unfolding tcp_poll_def by (rule drain_keeps, rule tcp_stream.safe_poll) simp_all

lemma stream_recv:
  assumes s: "stream_inv c rp lp b xs d s" and r: "tcp_recv c m s = (n, bs, s')"
  shows "stream_inv c rp lp b xs (d @ bs) s'" and "bs \<noteq> [] \<Longrightarrow> n = int (length bs)" and "n \<le> int m"
proof -
  obtain ys k where l: "recv_loop m (conns s c) = (ys, k)" by (cases "recv_loop m (conns s c)")
  have ok: "ring_ok (conns s c)" using s by (simp add: stream_inv_def in_sync_def)
  note rl = recv_loop_ring [OF ok l] and fr = recv_loop_frame [OF l]
  have "conn_state k = conn_state (conns s c)" "ack k = ack (conns s c)" "recv_closed k = recv_closed (conns s c)"
    "remote_port k = remote_port (conns s c)" "local_port k = local_port (conns s c)"
    by (subst fr, simp)+
  moreover have "ys @ ring_data k = ring_data (conns s c)" using rl by simp
  ultimately have "stream_inv c rp lp b xs (d @ ys) (upd_conn c (\<lambda>_. k) s)"
    using s rl by (auto simp: stream_inv_def in_sync_def upd_conn_def)
  then show "stream_inv c rp lp b xs (d @ bs) s'" "bs \<noteq> [] \<Longrightarrow> n = int (length bs)" "n \<le> int m"
    using r l rl s by (auto simp: tcp_recv_def split: if_splits)
qed

lemma recv_wait_stream:
  assumes "ticking TCP_RECV_TIMEOUT_MS (clock s)" and "stream_inv c rp lp b xs d s"
  shows "\<exists>n bs s'. recv_wait c m t0 s = Some (n, bs, s') \<and> n = int (length bs) \<and> n \<le> int m \<and>
    clock s' = clock s \<and> stream_inv c rp lp b xs (d @ bs) s'"
proof -
  let ?J = "\<lambda>u. stream_inv c rp lp b xs d u \<and> steady (clock s) (device s) u"
  let ?Q = "\<lambda>(n, bs, s'). n = int (length bs) \<and> n \<le> int m \<and> clock s' = clock s \<and> stream_inv c rp lp b xs (d @ bs) s'"
  have J0: "?J s" using assms(2) by (simp add: steady_def)
  have got: "stream_inv c rp lp b xs (d @ bs) v \<and> (bs \<noteq> [] \<longrightarrow> n = int (length bs)) \<and> n \<le> int m \<and> steady (clock s) (device s) v"
    if J: "?J u" and r: "tcp_recv c m (tcp_poll c u) = (n, bs, v)" for u n bs v
    using stream_recv [OF stream_tcp_poll [OF conjunct1 [OF J]] r] J steady_tcp_poll [of "clock s" "device s" u c] tcp_recv_keeps [OF r] by (simp add: steady_def)
  have neg: "bs = []" if "\<not> n > 0" "tcp_recv c m u = (n, bs, v)" for u n bs v
    using that by (auto simp: tcp_recv_def split: prod.splits if_splits)
  have pos: "n = int (length bs)" if "n > 0" "tcp_recv c m u = (n, bs, v)" for u n bs v
    using that by (auto simp: tcp_recv_def split: prod.splits if_splits)
  have "\<exists>r. recv_wait c m t0 s = Some r \<and> ?Q r"
  proof (rule recv_wait.wait_rule [where J = ?J, OF assms(1) J0])
    fix u assume "?J u"
    then show "?J (u\<lparr>clock_reads := clock_reads u + 1\<rparr>)" by (simp add: steady_def)
    show "?Q (0, [], u)" using \<open>?J u\<close> by (simp add: steady_def)
  next
    fix u a v
    assume J: "?J u" and w: "(case tcp_recv c m (tcp_poll c u) of (n, bs, s) \<Rightarrow> ((n, bs), s)) = (a, v)"
    obtain n bs where r: "tcp_recv c m (tcp_poll c u) = (n, bs, v)" "a = (n, bs)" using w by (auto split: prod.splits)
    show "?J v" if "(case a of (n, bs) \<Rightarrow> \<lambda>s. if n > 0 then Some (n, bs, s)
        else if recv_closed (conns s c) \<and> recv_head (conns s c) = recv_tail (conns s c) then Some (0, [], s) else None) v = None"
      using that got [OF J r(1)] neg [OF _ r(1)] r(2) by (auto split: if_splits)
    show "?Q r" if "(case a of (n, bs) \<Rightarrow> \<lambda>s. if n > 0 then Some (n, bs, s)
        else if recv_closed (conns s c) \<and> recv_head (conns s c) = recv_tail (conns s c) then Some (0, [], s) else None) v = Some r" for r
      using that got [OF J r(1)] neg [OF _ r(1)] pos [OF _ r(1)] r(2) by (auto simp: steady_def split: if_splits)
  qed
  then show ?thesis by auto
qed

lemma send_syn_keeps:
  assumes "\<And>s f d. I s \<Longrightarrow> I (snd (tcp_send_segment ethernet_poll c f d s))" and "\<And>s. I s \<Longrightarrow> I (tcp_poll c s)"
    and "\<And>s. I s \<Longrightarrow> I (upd_conn c (\<lambda>k. k\<lparr>seq := seq k + 1\<rparr>) s)"
  shows "I s \<Longrightarrow> I (snd (send_syn c n s))"
proof (induction n arbitrary: s)
  case (Suc n)
  obtain r s1 where p: "tcp_send_segment ethernet_poll c TCP_FLAG_SYN [] s = (r, s1)" by fastforce
  have "I s1" using assms(1) [OF Suc.prems] p by (metis snd_conv)
  moreover have "I ((tcp_poll c ^^ j) s1)" for j using \<open>I s1\<close> assms(2) by (induction j) simp_all
  ultimately show ?case using Suc.IH assms(3) p by simp
qed simp

lemma steady_send_syn: "steady clk dev s \<Longrightarrow> steady clk dev (snd (send_syn c n s))"
  by (rule send_syn_keeps, rule steady.safe_segment [OF steady.safe_ethernet_poll])
     (simp_all add: steady_tcp_poll, simp add: steady_def upd_conn_def)

lemma stream_send_syn: "stream_inv c rp lp b xs d s \<Longrightarrow> stream_inv c rp lp b xs d (snd (send_syn a n s))"
  by (rule send_syn_keeps, rule tcp_stream.safe_segment [OF tcp_stream.safe_ethernet_poll])
     (simp_all add: stream_tcp_poll, rule stream_upd, simp_all add: in_sync_closed)

text \<open>Successive reads of a client.\<close>

primrec read_all :: "ptr \<Rightarrow> nat list \<Rightarrow> net \<Rightarrow> (u8 list \<times> net) option" where
  "read_all c [] s = Some ([], s)"
| "read_all c (m # ms) s =
     (case tcp_recv_wait c m s of
        None \<Rightarrow> None
      | Some (n, bs, s) \<Rightarrow> (case read_all c ms s of None \<Rightarrow> None | Some (out, s) \<Rightarrow> Some (bs @ out, s)))"

lemma read_all_stream:
  "ticking TCP_RECV_TIMEOUT_MS (clock s) \<Longrightarrow> stream_inv c rp lp b xs d s \<Longrightarrow>
     \<exists>out s'. read_all c ms s = Some (out, s') \<and> stream_inv c rp lp b xs (d @ out) s'"
proof (induction ms arbitrary: s d)
  case (Cons m ms)
  define u where "u = s\<lparr>clock_reads := clock_reads s + 1\<rparr>"
  have "ticking TCP_RECV_TIMEOUT_MS (clock u)" "stream_inv c rp lp b xs d u" using Cons.prems by (simp_all add: u_def)
  from recv_wait_stream [OF this, of m "clock s (clock_reads s)"] obtain n bs v
    where v: "recv_wait c m (clock s (clock_reads s)) u = Some (n, bs, v)" "clock v = clock s" "stream_inv c rp lp b xs (d @ bs) v"
    by (auto simp: u_def)
  have r: "tcp_recv_wait c m s = Some (n, bs, v)" using v(1) by (simp add: tcp_recv_wait_def read_clock_def u_def)
  obtain out s' where "read_all c ms v = Some (out, s')" "stream_inv c rp lp b xs ((d @ bs) @ out) s'"
    using Cons.IH [of v "d @ bs"] Cons.prems(1) v(2,3) by auto
  then show ?case using r by simp
qed simp

lemma stream_start:
  assumes "length xs < 2 ^ 32" and "list_all (genuine_frame r_port p b xs) (rx s)"
  shows "stream_inv c r_port p b xs [] (upd_conn c (\<lambda>_. new_conn r_ip r_port p sq) s)"
  using assms by (auto simp: stream_inv_def upd_conn_def new_conn_def in_sync_def ring_ok_def ring_data_def recv_used_def TCP_RECV_BUF_SIZE_def)

text \<open>What \<open>tcp_connect\<close> establishes.\<close>

lemma connect_stream:
  assumes dev: "device s = Some dev" and len: "length xs < 2 ^ 32"
    and tick: "ticking TCP_CONNECT_TIMEOUT_MS (clock s)"
    and gen: "list_all (genuine_frame r_port (ephemeral_port s) b xs) (rx s)"
  shows "\<exists>r s'. tcp_connect c r_ip r_port s = Some (r, s') \<and> clock s' = clock s \<and> stream_inv c r_port (ephemeral_port s) b xs [] s' \<and>
     (if r = 0 then conn_state (conns s' c) = TCP_ESTABLISHED else r = - 1 \<and> conn_state (conns s' c) = TCP_CLOSED)"
proof -
  let ?p = "ephemeral_port s"
  obtain u where al: "alloc_local_port s = (?p, u)" "rx u = rx s" "clock u = clock s" "device u = device s"
    by (simp add: alloc_local_port_def Let_def)
  obtain sq v where isn: "generate_isn r_ip r_port ?p u = (sq, v)" "rx v = rx s" "clock v = clock s" "device v = device s"
    using al by (simp add: generate_isn_def Let_def)
  define w where "w = (upd_conn c (\<lambda>_. new_conn r_ip r_port ?p sq) v)\<lparr>active_tcp_conn := c\<rparr>"
  have w: "stream_inv c r_port ?p b xs [] w" "steady (clock s) (device s) w"
    using stream_start [OF len, of r_port ?p b v c r_ip sq] gen isn by (simp_all add: w_def steady_def upd_conn_def)
  obtain ok x where x: "send_syn c TCP_SYN_SEND_RETRIES w = (ok, x)" by fastforce
  have I: "stream_inv c r_port ?p b xs [] x" "steady (clock s) (device s) x"
    using stream_send_syn [OF w(1), of c TCP_SYN_SEND_RETRIES] steady_send_syn [OF w(2), of c TCP_SYN_SEND_RETRIES] x by simp_all
  have conn: "tcp_connect c r_ip r_port s =
      (if \<not> ok then Some (- 1, upd_conn c (\<lambda>k. k\<lparr>conn_state := TCP_CLOSED\<rparr>) x)
       else connect_wait c (clock x (clock_reads x)) (x\<lparr>clock_reads := clock_reads x + 1\<rparr>))"
    using dev al isn x by (simp add: tcp_connect_def w_def read_clock_def)
  have close: "stream_inv c r_port ?p b xs [] (upd_conn c (\<lambda>k. k\<lparr>conn_state := TCP_CLOSED\<rparr>) y)"
    if "stream_inv c r_port ?p b xs [] y" for y by (rule stream_upd [OF that]) (simp add: in_sync_closed)
  let ?J = "\<lambda>y. stream_inv c r_port ?p b xs [] y \<and> steady (clock s) (device s) y"
  let ?Q = "\<lambda>(r :: int, s'). clock s' = clock s \<and> stream_inv c r_port ?p b xs [] s' \<and>
     (if r = 0 then conn_state (conns s' c) = TCP_ESTABLISHED else r = - 1 \<and> conn_state (conns s' c) = TCP_CLOSED)"
  have late: "?Q (- 1, upd_conn c (\<lambda>k. k\<lparr>conn_state := TCP_CLOSED\<rparr>) y)" if "?J y" for y
    using that close by (simp add: steady_def upd_conn_def)
  have "\<exists>r. connect_wait c (clock x (clock_reads x)) (x\<lparr>clock_reads := clock_reads x + 1\<rparr>) = Some r \<and> ?Q r"
  proof (rule connect_wait.wait_rule [where J = ?J])
    fix y z and a :: unit and r
    assume J: "?J y" and z: "((), tcp_poll c y) = (a, z)"
    then have "?J z" using stream_tcp_poll steady_tcp_poll by blast
    then show "?J z" .
    show "?Q r" if "(if conn_state (conns z c) = TCP_ESTABLISHED then Some (0, z) else if conn_state (conns z c) = TCP_CLOSED then Some (- 1, z) else None) = Some r"
      using that \<open>?J z\<close> by (auto simp: steady_def split: if_splits)
  qed (use I tick late in \<open>simp_all add: steady_def\<close>)
  then show ?thesis using conn late [of x] I by (cases ok) auto
qed

section \<open>The stream\<close>

text \<open>
  C29. A TCP client reads a prefix of the peer's stream: \<open>tcp_connect\<close> returns, and so does every later
  sequence of \<open>tcp_recv_wait\<close> calls, whatever the network loses, repeats, reorders or mixes in; unless the
  peer has closed the connection, the bytes the client got, in order, are the beginning of the stream.
\<close>

theorem tcp_stream_prefix:
  assumes "device s = Some dev" and "length xs < 2 ^ 32"
    and "ticking TCP_CONNECT_TIMEOUT_MS (clock s)" and "ticking TCP_RECV_TIMEOUT_MS (clock s)"
    and "list_all (genuine_frame r_port (ephemeral_port s) b xs) (rx s)"
  shows "\<exists>r s1. tcp_connect c r_ip r_port s = Some (r, s1) \<and>
     (\<exists>out s2. read_all c ms s1 = Some (out, s2) \<and>
       (recv_closed (conns s2 c) \<or> out @ ring_data (conns s2 c) = take (length out + recv_used (conns s2 c)) xs))"
proof -
  from connect_stream [OF assms(1-3,5), of c r_ip] obtain r s1
    where c: "tcp_connect c r_ip r_port s = Some (r, s1)" "clock s1 = clock s" "stream_inv c r_port (ephemeral_port s) b xs [] s1" by auto
  have "ticking TCP_RECV_TIMEOUT_MS (clock s1)" using assms(4) c(2) by simp
  from read_all_stream [OF this c(3), of ms] obtain out s2
    where o: "read_all c ms s1 = Some (out, s2)" "stream_inv c r_port (ephemeral_port s) b xs out s2" by auto
  have "recv_closed (conns s2 c) \<or> (\<exists>n\<le>length xs. out @ ring_data (conns s2 c) = take n xs)"
    using o(2) by (auto simp: stream_inv_def in_sync_def)
  moreover have "n = length out + recv_used (conns s2 c)" if "n \<le> length xs" "out @ ring_data (conns s2 c) = take n xs" for n
    using arg_cong [OF that(2), of length] that(1) by simp
  ultimately show ?thesis using c(1) o(1) by metis
qed

text \<open>A host that waits for a greeting: the answer to its connection request and one segment of data are on their way.\<close>

definition syn_ack_frame :: "u8 list" where
  "syn_ack_frame = replicate 12 0 @ [8, 0] @ [0x45, 0, 0, 40, 0, 1, 0, 0, 64, 6, 0, 0, 10, 0, 2, 2, 10, 0, 2, 15] @
     [0, 80, 0xC0, 0, 0, 0, 0x03, 0xE8, 0, 0, 0, 1, 0x50, 0x12, 0x10, 0, 0, 0, 0, 0]"

definition greeting_frame :: "u8 list" where
  "greeting_frame = replicate 12 0 @ [8, 0] @ [0x45, 0, 0, 42, 0, 1, 0, 0, 64, 6, 0, 0, 10, 0, 2, 2, 10, 0, 2, 15] @
     [0, 80, 0xC0, 0, 0, 0, 0x03, 0xE9, 0, 0, 0, 1, 0x50, 0x18, 0x10, 0, 0, 0, 0, 0] @ [72, 105]"

definition sample_conn :: tcp_conn where
  "sample_conn = (new_conn 0x0A000202 80 49152 1)\<lparr>conn_state := TCP_ESTABLISHED, ack := 1001\<rparr>"

definition sample_net :: "u8 list list \<Rightarrow> net" where
  "sample_net frames =
     \<lparr>device = Some \<lparr>mac = [2, 0, 0, 0, 0, 1], ip = 0x0A00020F, gateway = 0x0A000202, netmask = 0xFFFFFF00\<rparr>,
      net_initialized = True, rx = frames, tx = [], send_result = (\<lambda>_. 0), clock = of_nat, clock_reads = 0,
      arp_cache = replicate 32 \<lparr>entry_ip = 0x0A000202, entry_mac = qemu_slirp_gateway_mac, timestamp = 0, entry_valid = True\<rparr>,
      ip_id_counter = 1, active_tcp_conn = 0, conns = (\<lambda>_. sample_conn), isn_seed = 0, ephemeral_port = 49152,
      icmp_reply_received = False, icmp_expected_id = 0, icmp_expected_seq = 0, icmp_reply_buf = [], tcp_tx_buf = []\<rparr>"

theorem tcp_stream_prefix_witness:
  "\<exists>r s1. tcp_connect 8 0x0A000202 80 (sample_net [greeting_frame, syn_ack_frame]) = Some (r, s1) \<and>
     (\<exists>out s2. read_all 8 [1, 5] s1 = Some (out, s2) \<and>
       (recv_closed (conns s2 8) \<or> out @ ring_data (conns s2 8) = take (length out + recv_used (conns s2 8)) [72, 105]))"
proof (rule tcp_stream_prefix [where b = 1001])
  have "ip_payload (frame_ip greeting_frame) =
      [0, 80, 0xC0, 0, 0, 0, 0x03, 0xE9, 0, 0, 0, 1, 0x50, 0x18, 0x10, 0, 0, 0, 0, 0, 72, 105]"
    "tcp_data [0, 80, 0xC0, 0, 0, 0, 0x03, 0xE9, 0, 0, 0, 1, 0x50, 0x18, 0x10, 0, 0, 0, 0, 0, 72, 105] = [72, 105]"
    "htonl32 (rd32 [0, 80, 0xC0, 0, 0, 0, 0x03, 0xE9, 0, 0, 0, 1, 0x50, 0x18, 0x10, 0, 0, 0, 0, 0, 72, 105] 4) = 1001"
    "rd8 [0, 80, 0xC0, 0, 0, 0, 0x03, 0xE9, 0, 0, 0, 1, 0x50, 0x18, 0x10, 0, 0, 0, 0, 0, 72, 105] 13 AND TCP_FLAG_SYN = 0"
    by code_simp+
  then have "genuine_frame 80 49152 1001 [72, 105] greeting_frame"
    unfolding genuine_frame_def genuine_def by (auto intro!: exI [of _ 0])
  moreover have "ip_payload (frame_ip syn_ack_frame) =
      [0, 80, 0xC0, 0, 0, 0, 0x03, 0xE8, 0, 0, 0, 1, 0x50, 0x12, 0x10, 0, 0, 0, 0, 0]"
    "tcp_data [0, 80, 0xC0, 0, 0, 0, 0x03, 0xE8, 0, 0, 0, 1, 0x50, 0x12, 0x10, 0, 0, 0, 0, 0] = []"
    "htonl32 (rd32 [0, 80, 0xC0, 0, 0, 0, 0x03, 0xE8, 0, 0, 0, 1, 0x50, 0x12, 0x10, 0, 0, 0, 0, 0] 4) = 1000"
    by code_simp+
  then have "genuine_frame 80 49152 1001 [72, 105] syn_ack_frame"
    unfolding genuine_frame_def genuine_def by auto
  ultimately show "list_all (genuine_frame 80 (ephemeral_port (sample_net [greeting_frame, syn_ack_frame])) 1001 [72, 105])
      (rx (sample_net [greeting_frame, syn_ack_frame]))" by (simp add: sample_net_def)
qed (simp_all add: sample_net_def ticking_counter TCP_CONNECT_TIMEOUT_MS_def TCP_RECV_TIMEOUT_MS_def)

section \<open>One segment\<close>

lemma segment_idle: "rx s = [] \<Longrightarrow> conns (snd (tcp_send_segment ethernet_poll c f d s)) = conns s"
  using idle.safe_segment [OF idle.safe_ethernet_poll, of "conns s" s c f d] by (simp add: idle_def)

lemma segment_rx: "rx s = [] \<Longrightarrow> rx (snd (tcp_send_segment ethernet_poll c f d s)) = []"
  using idle.safe_segment [OF idle.safe_ethernet_poll, of "conns s" s c f d] by (simp add: idle_def)

lemma conns_upd [simp]: "conns (upd_conn c f s) = (conns s)(c := f (conns s c))"
  by (simp add: upd_conn_def)

lemma ring_seq [simp]: "ring_data (k\<lparr>seq := a\<rparr>) = ring_data k" "ring_ok (k\<lparr>seq := a\<rparr>) = ring_ok k" "recv_used (k\<lparr>seq := a\<rparr>) = recv_used k"
  "accepted pay (k\<lparr>seq := a\<rparr>) = accepted pay k"
  by (simp_all add: ring_data_def ring_ok_def recv_used_def accepted_def)

lemma ring_other [simp]: "ring_data (k\<lparr>conn_state := t\<rparr>) = ring_data k" "ring_data (k\<lparr>recv_closed := b\<rparr>) = ring_data k" "ring_data (k\<lparr>ack := a\<rparr>) = ring_data k"
  by (simp_all add: ring_data_def recv_used_def)

text \<open>
  C30. What a segment for an established connection does, whatever its flags, when no further frame
  is pending while it is handled. Its data is taken exactly when it carries the ACK flag, not RST, and the
  next expected byte: then as much of it as fits is appended to the receive buffer, and the acknowledgement number
  advances by what was stored. FIN moves the number one further, ends the stream and leaves the state
  waiting for the last acknowledgement; RST closes the connection and takes nothing. Without FIN and RST the state
  stays established. The other connections are untouched.
\<close>

theorem tcp_receive_data:
  fixes pay :: "u8 list"
  assumes "rx s = []" and "c \<noteq> 0" and "for_conn s c hdr" and "conn_state (conns s c) = TCP_ESTABLISHED" and "ring_ok (conns s c)"
  defines "s' \<equiv> tcp_receive ethernet_poll c hdr pay s"
    and "rst \<equiv> rd8 hdr 13 AND TCP_FLAG_RST \<noteq> 0" and "fin \<equiv> rd8 hdr 13 AND TCP_FLAG_FIN \<noteq> 0"
    and "m \<equiv> if rd8 hdr 13 AND TCP_FLAG_RST = 0 \<and> rd8 hdr 13 AND TCP_FLAG_ACK \<noteq> 0 \<and> htonl32 (rd32 hdr 4) = ack (conns s c)
      then min (length pay) (TCP_RECV_BUF_SIZE - 1 - recv_used (conns s c)) else 0"
  shows "ring_data (conns s' c) = ring_data (conns s c) @ take m pay \<and>
    ack (conns s' c) = ack (conns s c) + of_nat m + (if fin \<and> \<not> rst then 1 else 0) \<and>
    conn_state (conns s' c) = (if rst then TCP_CLOSED else if fin then TCP_FIN_WAIT else TCP_ESTABLISHED) \<and>
    recv_closed (conns s' c) = (recv_closed (conns s c) \<or> rst \<or> fin) \<and>
    (\<forall>c'. c' \<noteq> c \<longrightarrow> conns s' c' = conns s c')"
proof (cases rst)
  case True
  then have "s' = upd_conn c (\<lambda>k. k\<lparr>conn_state := TCP_CLOSED, recv_closed := True\<rparr>) s"
    using assms(2-4) by (simp add: s'_def rst_def tcp_receive_def for_conn_def)
  moreover have "m = 0" using True by (simp add: m_def rst_def)
  ultimately show ?thesis using True by simp
next
  case False
  let ?ack = "rd8 hdr 13 AND TCP_FLAG_ACK \<noteq> 0"
  define s1 where "s1 = (if ?ack \<and> htonl32 (rd32 hdr 8) > seq (conns s c) then upd_conn c (\<lambda>k. k\<lparr>seq := htonl32 (rd32 hdr 8)\<rparr>) s else s)"
  have s1: "rx s1 = []" "ring_data (conns s1 c) = ring_data (conns s c)" "recv_used (conns s1 c) = recv_used (conns s c)"
    "ring_ok (conns s1 c)" "ack (conns s1 c) = ack (conns s c)" "conn_state (conns s1 c) = TCP_ESTABLISHED"
    "recv_closed (conns s1 c) = recv_closed (conns s c)" "\<And>c'. c' \<noteq> c \<Longrightarrow> conns s1 c' = conns s c'"
    using assms(1,4,5) by (simp_all add: s1_def)
  let ?take = "length pay > 0 \<and> ?ack \<and> htonl32 (rd32 hdr 4) = ack (conns s1 c)"
  define s2 where "s2 = (if ?take then snd (tcp_send_segment ethernet_poll c TCP_FLAG_ACK [] (upd_conn c (recv_data pay) s1)) else s1)"
  have eq: "s' = (if fin then upd_conn c (\<lambda>k. k\<lparr>conn_state := TCP_FIN_WAIT\<rparr>)
      (snd (tcp_send_segment ethernet_poll c TCP_FLAG_ACK [] (upd_conn c (\<lambda>k. k\<lparr>ack := ack k + 1, recv_closed := True\<rparr>) s2))) else s2)"
    using assms(2-4) False by (simp add: s'_def tcp_receive_def for_conn_def Let_def s1_def s2_def rst_def fin_def)
  have acc: "accepted pay (conns s1 c) = min (length pay) (TCP_RECV_BUF_SIZE - 1 - recv_used (conns s c))"
    by (simp add: accepted_def s1(3))
  have s2: "rx s2 = []" "ring_data (conns s2 c) = ring_data (conns s c) @ take m pay" "ack (conns s2 c) = ack (conns s c) + of_nat m"
    "conn_state (conns s2 c) = TCP_ESTABLISHED" "recv_closed (conns s2 c) = recv_closed (conns s c)" "\<And>c'. c' \<noteq> c \<Longrightarrow> conns s2 c' = conns s c'"
  proof -
    have "rx s2 = [] \<and> ring_data (conns s2 c) = ring_data (conns s c) @ take m pay \<and> ack (conns s2 c) = ack (conns s c) + of_nat m \<and>
      conn_state (conns s2 c) = TCP_ESTABLISHED \<and> recv_closed (conns s2 c) = recv_closed (conns s c) \<and> (\<forall>c'. c' \<noteq> c \<longrightarrow> conns s2 c' = conns s c')"
    proof (cases ?take)
      case True
      then have "conns s2 = (conns s1)(c := recv_data pay (conns s1 c))" "m = accepted pay (conns s1 c)" "rx s2 = []"
        using segment_idle [of "upd_conn c (recv_data pay) s1"] segment_rx [of "upd_conn c (recv_data pay) s1"] s1(1,5) acc False
        by (simp_all add: m_def s2_def rst_def)
      then show ?thesis using recv_data_ring [OF s1(4), of pay] s1 by simp
    next
      case no: False
      then have "s2 = s1" "take m pay = []" "m = 0" using s1(5) by (auto simp: m_def s2_def)
      then show ?thesis using s1 by simp
    qed
    then show "rx s2 = []" "ring_data (conns s2 c) = ring_data (conns s c) @ take m pay" "ack (conns s2 c) = ack (conns s c) + of_nat m"
      "conn_state (conns s2 c) = TCP_ESTABLISHED" "recv_closed (conns s2 c) = recv_closed (conns s c)" "\<And>c'. c' \<noteq> c \<Longrightarrow> conns s2 c' = conns s c'"
      by blast+
  qed
  have "conns (snd (tcp_send_segment ethernet_poll c TCP_FLAG_ACK [] (upd_conn c f s2))) = conns (upd_conn c f s2)" for f
    by (rule segment_idle) (simp add: s2(1))
  then show ?thesis using eq s2 False by simp
qed

theorem tcp_receive_data_witness:
  "let s = tcp_receive ethernet_poll 8 (ip_payload (frame_ip greeting_frame)) [72, 105] (sample_net [])
   in ring_data (conns s 8) = [72, 105] \<and> ack (conns s 8) = 1003 \<and> conn_state (conns s 8) = TCP_ESTABLISHED"
proof -
  let ?hdr = "ip_payload (frame_ip greeting_frame)" and ?s = "sample_net []"
  have h: "htons16 (rd16 ?hdr 0) = 80" "htons16 (rd16 ?hdr 2) = 49152" "rd8 ?hdr 13 AND TCP_FLAG_RST = 0" "rd8 ?hdr 13 AND TCP_FLAG_FIN = 0"
    "rd8 ?hdr 13 AND TCP_FLAG_ACK \<noteq> 0" "htonl32 (rd32 ?hdr 4) = 1001"
    by code_simp+
  have "rx ?s = []" "(8 :: ptr) \<noteq> 0" "for_conn ?s 8 ?hdr" "conn_state (conns ?s 8) = TCP_ESTABLISHED" "ring_ok (conns ?s 8)"
    using h by (simp_all add: sample_net_def sample_conn_def new_conn_def for_conn_def ring_ok_def TCP_RECV_BUF_SIZE_def)
  from tcp_receive_data [OF this, of "[72, 105]"]
  show ?thesis using h by (simp add: sample_net_def sample_conn_def new_conn_def ring_data_def recv_used_def TCP_RECV_BUF_SIZE_def Let_def)
qed

text \<open>
  A segment with the FIN flag is taken for the end of the stream wherever it stands in it: the number it
  carries is not compared, and the acknowledgement moves past a byte that has not arrived.
\<close>

lemma fin_overtakes_data:
  fixes pay :: "u8 list"
  assumes "rx s = []" and "c \<noteq> 0" and "for_conn s c hdr" and "conn_state (conns s c) = TCP_ESTABLISHED"
    and "rd8 hdr 13 AND TCP_FLAG_RST = 0" and "rd8 hdr 13 AND TCP_FLAG_FIN \<noteq> 0" and "htonl32 (rd32 hdr 4) \<noteq> ack (conns s c)"
  defines "k \<equiv> conns (tcp_receive ethernet_poll c hdr pay s) c"
  shows "recv_closed k \<and> ack k = ack (conns s c) + 1 \<and> conn_state k = TCP_FIN_WAIT"
proof -
  define s1 where "s1 = (if rd8 hdr 13 AND TCP_FLAG_ACK \<noteq> 0 \<and> htonl32 (rd32 hdr 8) > seq (conns s c)
    then upd_conn c (\<lambda>k. k\<lparr>seq := htonl32 (rd32 hdr 8)\<rparr>) s else s)"
  define s2 where "s2 = upd_conn c (\<lambda>k. k\<lparr>ack := ack k + 1, recv_closed := True\<rparr>) s1"
  have s1: "rx s2 = []" "ack (conns s2 c) = ack (conns s c) + 1" "recv_closed (conns s2 c)" "ack (conns s1 c) = ack (conns s c)"
    using assms(1) by (simp_all add: s2_def s1_def)
  have "k = conns (upd_conn c (\<lambda>k. k\<lparr>conn_state := TCP_FIN_WAIT\<rparr>) (snd (tcp_send_segment ethernet_poll c TCP_FLAG_ACK [] s2))) c"
    using assms(2-7) s1(4) unfolding k_def tcp_receive_def for_conn_def Let_def s2_def s1_def by simp
  then show ?thesis using segment_idle [OF s1(1)] s1(2,3) by simp
qed

end
