(* ===== verification/Net_Paths.thy ===== *)
theory Net_Paths
  imports TCP_Stream
begin

text \<open>
  Paths through the stack from one host to another: an IPv4 packet as one host builds it and another
  takes it apart, address resolution, and an echo with its reply.
\<close>

section \<open>IPv4 packets\<close>

definition ip_packet :: "u16 \<Rightarrow> u8 \<Rightarrow> u32 \<Rightarrow> u32 \<Rightarrow> u8 list \<Rightarrow> u8 list" where
  "ip_packet ident proto src dst data =
     (let len = of_nat (IPv4_HEADER_LEN + length data)
      in ipv4_header len ident proto (htons16 (ipv4_checksum (ipv4_header len ident proto 0 src dst))) src dst @ data)"

definition ip_frame :: "u8 list \<Rightarrow> u8 list \<Rightarrow> u8 list \<Rightarrow> u8 list" where
  "ip_frame to from packet = to @ from @ st16 (htons16 ETHERTYPE_IPv4) @ packet"

text \<open>What is handed to the layer above.\<close>

definition ip_dispatch :: "poller \<Rightarrow> u8 \<Rightarrow> u32 \<Rightarrow> u8 list \<Rightarrow> net \<Rightarrow> net" where
  "ip_dispatch poll proto src data s =
     (if proto = IP_PROTO_ICMP then icmp_receive poll src data s
      else if proto = IP_PROTO_TCP \<and> active_tcp_conn s \<noteq> 0 \<and> TCP_HEADER_LEN \<le> length data
      then let n = unat (drop_bit 4 (rd8 data 12) * 4)
           in if n < TCP_HEADER_LEN \<or> n > length data then s else tcp_receive poll (active_tcp_conn s) data (drop n data) s
      else s)"

lemma length_ipv4_header [simp]: "length (ipv4_header len ident proto cs src dst) = 20"
  by (simp add: ipv4_header_def)

lemma header_fields:
  "rd8 (ipv4_header len ident proto cs src dst @ data) 0 = 0x45" "rd8 (ipv4_header len ident proto cs src dst @ data) 9 = proto"
  "rd16 (ipv4_header len ident proto cs src dst @ data) 2 = htons16 len"
  "rd32 (ipv4_header len ident proto cs src dst @ data) 12 = htonl32 src"
proof -
  let ?h = "ipv4_header len ident proto cs src dst @ data"
  show "rd8 ?h 0 = 0x45" "rd8 ?h 9 = proto" by (simp_all add: ipv4_header_def rd8_def nth_append st16_def)
  have "?h = [0x45, 0] @ st16 (htons16 len) @ st16 (htons16 ident) @ st16 0 @ [64, proto] @ st16 cs @ st32 (htonl32 src) @ st32 (htonl32 dst) @ data"
    by (simp add: ipv4_header_def)
  then show "rd16 ?h 2 = htons16 len" using rd16_at [of "[0x45, 0]" 2 "htons16 len"] by simp
  have "?h = ([0x45, 0] @ st16 (htons16 len) @ st16 (htons16 ident) @ st16 0 @ [64, proto] @ st16 cs) @ st32 (htonl32 src) @ st32 (htonl32 dst) @ data"
    by (simp add: ipv4_header_def)
  then show "rd32 ?h 12 = htonl32 src"
    using rd32_at [of "[0x45, 0] @ st16 (htons16 len) @ st16 (htons16 ident) @ st16 0 @ [64, proto] @ st16 cs" 12 "htonl32 src"] by simp
qed

lemma header_verifies:
  "ipv4_checksum (ipv4_header len ident proto (htons16 (ipv4_checksum (ipv4_header len ident proto 0 src dst))) src dst) = 0"
proof -
  let ?a = "[0x45, 0] @ st16 (htons16 len) @ st16 (htons16 ident) @ st16 0 @ [64, proto]" and ?b = "st32 (htonl32 src) @ st32 (htonl32 dst)"
  have h: "ipv4_header len ident proto cs src dst = ?a @ st16 cs @ ?b" for cs by (simp add: ipv4_header_def)
  have z: "ipv4_header len ident proto 0 src dst = ?a @ [0, 0] @ ?b" by (simp add: h st16_def)
  have "0 < wsum ?a + wsum ?b" by simp
  from checksum_verifies [OF _ _ this] show ?thesis unfolding z unfolding h by simp
qed

lemma ipv4_receive_packet:
  assumes "length data \<le> 1480" and "device s \<noteq> None"
  shows "ipv4_receive poll (ip_packet ident proto src dst data) s = ip_dispatch poll proto src data s"
proof -
  let ?len = "of_nat (IPv4_HEADER_LEN + length data) :: u16"
  let ?cs = "htons16 (ipv4_checksum (ipv4_header ?len ident proto 0 src dst))"
  let ?h = "ipv4_header ?len ident proto ?cs src dst"
  define q where "q = ip_packet ident proto src dst data"
  have q: "q = ?h @ data" by (simp add: q_def ip_packet_def Let_def)
  have len: "unat ?len = 20 + length data"
    using assms(1) by (simp add: IPv4_HEADER_LEN_def unsigned_of_nat take_bit_nat_eq_self del: of_nat_add)
  have f: "rd8 q 0 = 0x45" "rd8 q 9 = proto" "unat (htons16 (rd16 q 2)) = 20 + length data" "htonl32 (rd32 q 12) = src"
    unfolding q header_fields using len by simp_all
  have v: "ipv4_checksum (take 20 q) = 0" "length q = 20 + length data" "drop 20 q = data"
    using header_verifies [of ?len ident proto src dst] by (simp_all add: q)
  have nib: "drop_bit 4 (0x45 :: u8) = 4" "unat ((0x45 AND 0x0F :: u8) * 4) = 20" by code_simp+
  obtain dev where "device s = Some dev" using assms(2) by auto
  then show ?thesis
    unfolding q_def [symmetric] ipv4_receive_def Let_def f nib
    using v by (simp add: IPv4_HEADER_LEN_def ip_dispatch_def Let_def not_less IP_PROTO_ICMP_def IP_PROTO_TCP_def)
qed

lemma poll_ip_frame:
  assumes "device s \<noteq> None" and "rx s = ip_frame to from (ip_packet ident proto src dst data) # fs" and "length to = 6" "length from = 6"
    and "length data \<le> 1480"
  shows "ethernet_poll s = (1, ip_dispatch ethernet_poll proto src data (s\<lparr>rx := fs\<rparr>))"
proof -
  let ?p = "ip_packet ident proto src dst data" and ?f = "ip_frame to from (ip_packet ident proto src dst data)"
  have l: "length ?f = 34 + length data" using assms(3,4) by (simp add: ip_frame_def ip_packet_def Let_def)
  then have t: "take ETHERNET_FRAME_MAX ?f = ?f"
    using assms(5) by (simp add: ETHERNET_FRAME_MAX_def ETHERNET_HEADER_LEN_def ETHERNET_MAX_PAYLOAD_def)
  have "rd16 ?f 12 = htons16 ETHERTYPE_IPv4"
    using rd16_at [of "to @ from" 12 "htons16 ETHERTYPE_IPv4" ?p] assms(3,4) by (simp add: ip_frame_def)
  moreover have "drop ETHERNET_HEADER_LEN ?f = ?p" using assms(3,4) by (simp add: ip_frame_def ETHERNET_HEADER_LEN_def)
  ultimately show ?thesis
    unfolding ethernet_poll_equation [of s] poll_frame_def
    using assms(1,2) l t ipv4_receive_packet [OF assms(5), of "s\<lparr>rx := fs\<rparr>" ethernet_poll]
    by (simp add: Let_def ETHERNET_HEADER_LEN_def ETHERTYPE_ARP_def ETHERTYPE_IPv4_def)
qed

lemma ipv4_send_frame:
  assumes dev: "device s = Some dev" and r: "resolve ethernet_poll (next_hop dev dst) 16 IPV4_ARP_RETRIES s = (Some hw, s1)"
    and len: "len \<le> 1480" "len \<le> length (pay (s1\<lparr>ip_id_counter := ip_id_counter s1 + 1\<rparr>))"
  shows "ipv4_send ethernet_poll dst proto pay len s =
    dev_send (ip_frame hw (mac dev) (ip_packet (ip_id_counter s1) proto (ip dev) dst (take len (pay (s1\<lparr>ip_id_counter := ip_id_counter s1 + 1\<rparr>)))))
      (s1\<lparr>ip_id_counter := ip_id_counter s1 + 1\<rparr>)"
proof -
  have "steady (clock s) (Some dev) s" using dev by (simp add: steady_def)
  from steady.safe_resolve [OF steady.safe_ethernet_poll this, of "next_hop dev dst" 16 IPV4_ARP_RETRIES]
  have "device s1 = Some dev" using r by (simp add: steady_def)
  then show ?thesis
    using dev r len by (simp add: ipv4_send_def ethernet_send_def Let_def ip_packet_def ip_frame_def min_absorb2 ETHERNET_MAX_PAYLOAD_def)
qed

section \<open>Address resolution\<close>

lemma oldest_slot_less: "oldest < ARP_CACHE_SIZE \<Longrightarrow> oldest_slot cache i oldest < ARP_CACHE_SIZE"
  by (induction cache i oldest rule: oldest_slot.induct) (subst oldest_slot.simps, simp)

lemma arp_find_Some:
  "arp_find cache a = Some i \<Longrightarrow> i < ARP_CACHE_SIZE \<and> entry_valid (cache ! i) \<and> entry_ip (cache ! i) = a"
  by (simp add: arp_find_def find_from_Some_iff)

lemma arp_find_update:
  assumes "length cache = ARP_CACHE_SIZE" and "i < ARP_CACHE_SIZE" and "entry_valid e" and "entry_ip e = a"
    and "arp_find cache a = None \<or> arp_find cache a = Some i"
  shows "arp_find (cache[i := e]) a = Some i"
proof -
  have "\<not> (entry_valid (cache ! j) \<and> entry_ip (cache ! j) = a)" if "j < i" for j
    using less_trans [OF that assms(2)] assms(5) that by (auto simp: arp_find_def find_from_Some_iff find_from_None_iff)
  then show ?thesis using assms(1-4) by (auto simp: arp_find_def find_from_Some_iff nth_list_update)
qed

text \<open>The entry of an inserted address.\<close>

lemma insert_finds:
  assumes "length (arp_cache s) = ARP_CACHE_SIZE"
  shows "\<exists>i. arp_find (arp_cache (arp_cache_insert a hw s)) a = Some i \<and>
    entry_mac (arp_cache (arp_cache_insert a hw s) ! i) = hw \<and> timestamp (arp_cache (arp_cache_insert a hw s) ! i) = clock s (clock_reads s)"
proof (cases "arp_find (arp_cache s) a")
  case None
  define i where "i = oldest_slot (arp_cache s) 1 0"
  define e where "e = \<lparr>entry_ip = a, entry_mac = hw, timestamp = clock s (clock_reads s), entry_valid = True\<rparr>"
  have i: "i < ARP_CACHE_SIZE" using oldest_slot_less [of 0] by (simp add: i_def ARP_CACHE_SIZE_def)
  have "arp_cache (arp_cache_insert a hw s) = (arp_cache s)[i := e]"
    using None by (simp add: arp_cache_insert_def read_clock_def Let_def i_def e_def)
  then show ?thesis using arp_find_update [OF assms i, of e a] None assms i by (simp add: e_def)
next
  case (Some i)
  define e where "e = (arp_cache s ! i)\<lparr>entry_mac := hw, timestamp := clock s (clock_reads s)\<rparr>"
  have i: "i < ARP_CACHE_SIZE" "entry_valid e" "entry_ip e = a" using arp_find_Some [OF Some] by (simp_all add: e_def)
  have "arp_cache (arp_cache_insert a hw s) = (arp_cache s)[i := e]"
    using Some by (simp add: arp_cache_insert_def read_clock_def Let_def e_def)
  then show ?thesis using arp_find_update [OF assms i(1-3)] Some assms i by (simp add: e_def)
qed

lemma insert_reads: "clock_reads (arp_cache_insert a hw s) = clock_reads s + 1" "clock (arp_cache_insert a hw s) = clock s"
  "device (arp_cache_insert a hw s) = device s" "tx (arp_cache_insert a hw s) = tx s"
  by (simp_all add: arp_cache_insert_def read_clock_def Let_def split: option.split)

text \<open>An ARP packet as it is stored, and its fields.\<close>

lemma arp_packet_fields:
  fixes op :: u16 and sip tip :: u32
  assumes "length smac = 6" and "length tmac = 6"
  defines "p \<equiv> arp_packet op smac sip tmac tip"
  shows "length p = 28" "htons16 (rd16 p 0) = ARP_HARDWARE_ETHERNET" "htons16 (rd16 p 2) = ARP_PROTO_IPv4" "htons16 (rd16 p 6) = op"
    "take 6 (drop 8 p) = smac" "rd32 p 14 = sip" "rd32 p 24 = tip"
proof -
  show "length p = 28" "take 6 (drop 8 p) = smac"
    using assms(1,2) by (simp_all add: p_def arp_packet_def)
  show "htons16 (rd16 p 0) = ARP_HARDWARE_ETHERNET"
    using rd16_at [of "[]" 0 "htons16 ARP_HARDWARE_ETHERNET"] by (simp add: p_def arp_packet_def)
  show "htons16 (rd16 p 2) = ARP_PROTO_IPv4"
    using rd16_at [of "st16 (htons16 ARP_HARDWARE_ETHERNET)" 2 "htons16 ARP_PROTO_IPv4"] by (simp add: p_def arp_packet_def)
  show "htons16 (rd16 p 6) = op"
    using rd16_at [of "st16 (htons16 ARP_HARDWARE_ETHERNET) @ st16 (htons16 ARP_PROTO_IPv4) @ [6, 4]" 6 "htons16 op"]
    by (simp add: p_def arp_packet_def)
  show "rd32 p 14 = sip"
    using rd32_at [of "st16 (htons16 ARP_HARDWARE_ETHERNET) @ st16 (htons16 ARP_PROTO_IPv4) @ [6, 4] @ st16 (htons16 op) @ smac" 14 sip] assms(1)
    by (simp add: p_def arp_packet_def)
  show "rd32 p 24 = tip"
    using rd32_at [of "st16 (htons16 ARP_HARDWARE_ETHERNET) @ st16 (htons16 ARP_PROTO_IPv4) @ [6, 4] @ st16 (htons16 op) @ smac @ st32 sip @ tmac" 24 tip "[]"] assms(1,2)
    by (simp add: p_def arp_packet_def)
qed

definition arp_frame :: "u8 list \<Rightarrow> u8 list \<Rightarrow> u8 list \<Rightarrow> u8 list" where
  "arp_frame to from packet = to @ from @ st16 (htons16 ETHERTYPE_ARP) @ packet"

lemma poll_arp_frame:
  assumes "device s \<noteq> None" and "rx s = arp_frame to from p # fs" and "length to = 6" "length from = 6" "length p \<le> 1500"
  shows "ethernet_poll s = (1, arp_receive p (s\<lparr>rx := fs\<rparr>))"
proof -
  let ?f = "arp_frame to from p"
  have t: "take ETHERNET_FRAME_MAX ?f = ?f" "\<not> length ?f < ETHERNET_HEADER_LEN"
    using assms(3-5) by (simp_all add: arp_frame_def ETHERNET_FRAME_MAX_def ETHERNET_HEADER_LEN_def ETHERNET_MAX_PAYLOAD_def)
  moreover have "rd16 ?f 12 = htons16 ETHERTYPE_ARP"
    using rd16_at [of "to @ from" 12 "htons16 ETHERTYPE_ARP" p] assms(3,4) by (simp add: arp_frame_def)
  moreover have "drop ETHERNET_HEADER_LEN ?f = p" using assms(3,4) by (simp add: arp_frame_def ETHERNET_HEADER_LEN_def)
  ultimately show ?thesis
    unfolding ethernet_poll_equation [of s] poll_frame_def using assms(1,2) by (simp add: Let_def)
qed

text \<open>A fresh entry answers the lookup at once.\<close>

lemma lookup_hit:
  assumes "arp_find (arp_cache s) a = Some i" and "\<not> clock s (clock_reads s) - timestamp (arp_cache s ! i) > ARP_ENTRY_TTL_MS"
  shows "arp_lookup poll a s = (Some (entry_mac (arp_cache s ! i)), s\<lparr>clock_reads := clock_reads s + 1\<rparr>)"
  using assms by (simp add: arp_lookup_def read_clock_def)

lemma receive_learns:
  assumes "length (arp_cache s) = ARP_CACHE_SIZE" and "length smac = 6" "length tmac = 6"
    and "\<not> clock s (clock_reads s + 1) - clock s (clock_reads s) > ARP_ENTRY_TTL_MS"
  shows "fst (arp_lookup poll (htonl32 sip) (arp_receive (arp_packet op smac sip tmac tip) s)) = Some smac"
proof -
  let ?p = "arp_packet op smac sip tmac tip" and ?a = "htonl32 sip"
  let ?s1 = "arp_cache_insert ?a smac s" and ?s2 = "arp_receive (arp_packet op smac sip tmac tip) s"
  have "arp_cache ?s2 = arp_cache ?s1 \<and> clock ?s2 = clock s \<and> clock_reads ?s2 = clock_reads s + 1"
    using arp_packet_fields [OF assms(2,3), of op sip tip] insert_reads
    by (simp add: arp_receive_def Let_def ethernet_send_def dev_send_def split: option.split)
  moreover from insert_finds [OF assms(1), of ?a smac] obtain i where
    "arp_find (arp_cache ?s1) ?a = Some i" "entry_mac (arp_cache ?s1 ! i) = smac" "timestamp (arp_cache ?s1 ! i) = clock s (clock_reads s)"
    by blast
  ultimately show ?thesis using lookup_hit [of ?s2 ?a i poll] assms(4) by simp
qed

text \<open>
  Address resolution works between two hosts: when host A asks for the address of host B, the
  frame A sends makes B answer with one frame, and once A has polled that answer its lookup of B's
  address returns B's hardware address, without sending again, for as long as the entry is fresh.
\<close>

theorem arp_exchange:
  assumes A: "device a = Some da" "length (mac da) = 6" "length (arp_cache a) = ARP_CACHE_SIZE"
    and B: "device b = Some db" "length (mac db) = 6" "length (arp_cache b) = ARP_CACHE_SIZE"
    and fresh: "\<not> clock a (clock_reads a + 1) - clock a (clock_reads a) > ARP_ENTRY_TTL_MS"
  shows "\<exists>request reply. tx (arp_send_request (ip db) a) = tx a @ [request] \<and>
     tx (snd (ethernet_poll (b\<lparr>rx := [request]\<rparr>))) = tx b @ [reply] \<and>
     fst (arp_lookup poll (ip db) (snd (ethernet_poll (a\<lparr>rx := [reply]\<rparr>)))) = Some (mac db)"
proof -
  define q where "q = arp_packet ARP_OP_REQUEST (mac da) (htonl32 (ip da)) (replicate 6 0) (htonl32 (ip db))"
  define r where "r = arp_packet ARP_OP_REPLY (mac db) (htonl32 (ip db)) (mac da) (htonl32 (ip da))"
  define request where "request = arp_frame ethernet_broadcast (mac da) q"
  define reply where "reply = arp_frame (mac da) (mac db) r"
  have f: "length q = 28" "htons16 (rd16 q 0) = ARP_HARDWARE_ETHERNET" "htons16 (rd16 q 2) = ARP_PROTO_IPv4" "htons16 (rd16 q 6) = ARP_OP_REQUEST"
    "take 6 (drop 8 q) = mac da" "rd32 q 14 = htonl32 (ip da)" "rd32 q 24 = htonl32 (ip db)"
    unfolding q_def by (rule arp_packet_fields [OF A(2)]; simp)+
  have lr: "length r = 28" unfolding r_def by (rule arp_packet_fields [OF B(2) A(2)])
  have "tx (arp_send_request (ip db) a) = tx a @ [request]"
    using A(1) f(1) by (simp add: arp_send_request_def ethernet_send_def dev_send_def q_def request_def arp_frame_def ETHERNET_MAX_PAYLOAD_def)
  moreover have "tx (snd (ethernet_poll (b\<lparr>rx := [request]\<rparr>))) = tx b @ [reply]"
  proof -
    have "ethernet_poll (b\<lparr>rx := [request]\<rparr>) = (1, arp_receive q (b\<lparr>rx := []\<rparr>))"
      using poll_arp_frame [of "b\<lparr>rx := [request]\<rparr>" ethernet_broadcast "mac da" q "[]"] A(2) B(1) f(1)
      by (simp add: request_def ethernet_broadcast_def)
    then show ?thesis using f insert_reads lr B(1)
      by (simp add: arp_receive_def Let_def ethernet_send_def dev_send_def reply_def arp_frame_def r_def ETHERNET_MAX_PAYLOAD_def)
  qed
  moreover have "fst (arp_lookup poll (ip db) (snd (ethernet_poll (a\<lparr>rx := [reply]\<rparr>)))) = Some (mac db)"
  proof -
    have "ethernet_poll (a\<lparr>rx := [reply]\<rparr>) = (1, arp_receive r (a\<lparr>rx := []\<rparr>))"
      using poll_arp_frame [of "a\<lparr>rx := [reply]\<rparr>" "mac da" "mac db" r "[]"] A(1,2) B(2) lr by (simp add: reply_def)
    then show ?thesis
      using receive_learns [of "a\<lparr>rx := []\<rparr>" "mac db" "mac da" poll "htonl32 (ip db)" ARP_OP_REPLY "htonl32 (ip da)"] A(2,3) B(2) fresh
      by (simp add: r_def)
  qed
  ultimately show ?thesis by blast
qed

theorem arp_exchange_witness:
  "\<exists>request reply. tx (arp_send_request 0x0A000210 (sample_net [])) = tx (sample_net []) @ [request] \<and>
     tx (snd (ethernet_poll ((sample_net [])\<lparr>device := Some \<lparr>mac = [2, 0, 0, 0, 0, 2], ip = 0x0A000210, gateway = 0, netmask = 0\<rparr>, rx := [request]\<rparr>))) =
       tx (sample_net []) @ [reply] \<and>
     fst (arp_lookup ethernet_poll 0x0A000210 (snd (ethernet_poll ((sample_net [])\<lparr>rx := [reply]\<rparr>)))) = Some [2, 0, 0, 0, 0, 2]"
  using arp_exchange [of "sample_net []" "\<lparr>mac = [2, 0, 0, 0, 0, 1], ip = 0x0A00020F, gateway = 0x0A000202, netmask = 0xFFFFFF00\<rparr>"
      "(sample_net [])\<lparr>device := Some \<lparr>mac = [2, 0, 0, 0, 0, 2], ip = 0x0A000210, gateway = 0, netmask = 0\<rparr>\<rparr>"
      "\<lparr>mac = [2, 0, 0, 0, 0, 2], ip = 0x0A000210, gateway = 0, netmask = 0\<rparr>" ethernet_poll]
  by (simp add: sample_net_def ARP_CACHE_SIZE_def ARP_ENTRY_TTL_MS_def)

section \<open>Checksums and packets\<close>

text \<open>
  C31. The Internet checksum of the code is the complement of the one's complement sum: for up to 128
  KiB, odd lengths included, the word loop with its 32-bit accumulator and the folding loop compute 65535
  minus the sum of the big-endian words reduced into 1 .. 65535.
\<close>

theorem checksum_reference:
  assumes "length bs \<le> 131072"
  shows "unat (ipv4_checksum bs) = 65535 - ones16 (wsum bs) \<and> icmp_checksum bs = ipv4_checksum bs"
  using checksum_nat [OF assms] icmp_checksum_eq by simp

theorem checksum_reference_witness: "unat (ipv4_checksum [0x45, 0, 1]) = 65535 - ones16 (wsum [0x45, 0, 1])"
  using checksum_reference [of "[0x45, 0, 1]"] by simp

text \<open>
  C32. What \<open>ipv4_send\<close> hands to the card is one frame that any other host with this stack accepts: its
  poll verifies the header and hands exactly the payload, with the sender's address, to the protocol.
\<close>

theorem ipv4_roundtrip:
  assumes dev: "device s = Some dev" "length (mac dev) = 6" and len: "length pay \<le> 1480"
    and r: "resolve ethernet_poll (next_hop dev dst) 16 IPV4_ARP_RETRIES s = (Some hw, s1)" "length hw = 6"
  shows "\<exists>f. tx (snd (ipv4_send ethernet_poll dst proto (\<lambda>_. pay) (length pay) s)) = tx s1 @ [f] \<and>
     (\<forall>t fs. device t \<noteq> None \<longrightarrow> rx t = f # fs \<longrightarrow> ethernet_poll t = (1, ip_dispatch ethernet_poll proto (ip dev) pay (t\<lparr>rx := fs\<rparr>)))"
proof -
  let ?f = "ip_frame hw (mac dev) (ip_packet (ip_id_counter s1) proto (ip dev) dst pay)"
  have "tx (snd (ipv4_send ethernet_poll dst proto (\<lambda>_. pay) (length pay) s)) = tx s1 @ [?f]"
    using ipv4_send_frame [OF dev(1) r(1) len, of "\<lambda>_. pay" proto] by (simp add: dev_send_def)
  then show ?thesis using poll_ip_frame [OF _ _ r(2) dev(2) len] by blast
qed

text \<open>The sample host finds the gateway in its cache.\<close>

lemma sample_resolves:
  "resolve ethernet_poll 0x0A000202 16 IPV4_ARP_RETRIES (sample_net fs) = (Some qemu_slirp_gateway_mac, (sample_net fs)\<lparr>clock_reads := 1\<rparr>)"
proof -
  have "arp_find (arp_cache (sample_net fs)) 0x0A000202 = Some 0"
    by (simp add: arp_find_def find_from_Some_iff sample_net_def ARP_CACHE_SIZE_def)
  from lookup_hit [OF this, of ethernet_poll] show ?thesis
    by (simp add: IPV4_ARP_RETRIES_def eval_nat_numeral sample_net_def ARP_ENTRY_TTL_MS_def)
qed

theorem ipv4_roundtrip_witness:
  "\<exists>f. tx (snd (ipv4_send ethernet_poll 0x0A000202 IP_PROTO_ICMP (\<lambda>_. [8, 0]) 2 (sample_net []))) = [f] \<and>
     ethernet_poll (sample_net [f]) = (1, ip_dispatch ethernet_poll IP_PROTO_ICMP 0x0A00020F [8, 0] (sample_net []))"
proof -
  let ?dev = "\<lparr>mac = [2, 0, 0, 0, 0, 1], ip = 0x0A00020F, gateway = 0x0A000202, netmask = 0xFFFFFF00\<rparr> :: net_device"
  have hop: "next_hop ?dev 0x0A000202 = 0x0A000202" by (simp add: next_hop_def)
  have d: "device (sample_net []) = Some ?dev" by (simp add: sample_net_def)
  have m: "length (mac ?dev) = 6" "length [8, 0 :: u8] \<le> 1480" "length qemu_slirp_gateway_mac = 6" by (simp_all add: qemu_slirp_gateway_mac_def)
  have r: "resolve ethernet_poll (next_hop ?dev 0x0A000202) 16 IPV4_ARP_RETRIES (sample_net []) =
      (Some qemu_slirp_gateway_mac, (sample_net [])\<lparr>clock_reads := 1\<rparr>)"
    unfolding hop by (rule sample_resolves)
  from ipv4_roundtrip [OF d m(1,2) r m(3), of IP_PROTO_ICMP] obtain f where
    f: "tx (snd (ipv4_send ethernet_poll 0x0A000202 IP_PROTO_ICMP (\<lambda>_. [8, 0]) (length [8, 0 :: u8]) (sample_net []))) =
        tx ((sample_net [])\<lparr>clock_reads := 1\<rparr>) @ [f]"
      "\<forall>t fs. device t \<noteq> None \<longrightarrow> rx t = f # fs \<longrightarrow>
        ethernet_poll t = (1, ip_dispatch ethernet_poll IP_PROTO_ICMP (ip ?dev) [8, 0] (t\<lparr>rx := fs\<rparr>))"
    by blast
  have "tx ((sample_net [])\<lparr>clock_reads := 1\<rparr>) = []" by (simp add: sample_net_def)
  then have tx: "tx (snd (ipv4_send ethernet_poll 0x0A000202 IP_PROTO_ICMP (\<lambda>_. [8, 0]) 2 (sample_net []))) = [f]"
    using f(1) by (simp add: numeral_2_eq_2)
  have "ethernet_poll (sample_net [f]) = (1, ip_dispatch ethernet_poll IP_PROTO_ICMP 0x0A00020F [8, 0] (sample_net []))"
    using f(2) [rule_format, of "sample_net [f]" "[]"] by (simp add: sample_net_def)
  with tx show ?thesis by blast
qed

section \<open>Echo\<close>

text \<open>A fresh cache entry.\<close>

definition cached :: "net \<Rightarrow> u32 \<Rightarrow> u8 list \<Rightarrow> bool" where
  "cached s addr hw \<longleftrightarrow>
     (case arp_find (arp_cache s) addr of
        None \<Rightarrow> False
      | Some i \<Rightarrow> entry_mac (arp_cache s ! i) = hw \<and> \<not> clock s (clock_reads s) - timestamp (arp_cache s ! i) > ARP_ENTRY_TTL_MS)"

lemma resolve_cached:
  assumes "cached s addr hw"
  shows "resolve poll addr m IPV4_ARP_RETRIES s = (Some hw, s\<lparr>clock_reads := clock_reads s + 1\<rparr>)"
  using assms lookup_hit [of s addr _ poll] by (auto simp: cached_def IPV4_ARP_RETRIES_def eval_nat_numeral split: option.splits)

lemma send_cached:
  assumes "device s = Some dev" and "cached s (next_hop dev dst) hw" and "len \<le> 1480"
    and "len \<le> length (pay (s\<lparr>clock_reads := clock_reads s + 1, ip_id_counter := ip_id_counter s + 1\<rparr>))"
  shows "tx (snd (ipv4_send ethernet_poll dst proto pay len s)) =
    tx s @ [ip_frame hw (mac dev) (ip_packet (ip_id_counter s) proto (ip dev) dst
      (take len (pay (s\<lparr>clock_reads := clock_reads s + 1, ip_id_counter := ip_id_counter s + 1\<rparr>))))]"
  using ipv4_send_frame [OF assms(1) resolve_cached [OF assms(2)] assms(3), of pay proto] assms(4) by (simp add: dev_send_def)

lemma echo_fields:
  "length (icmp_echo ident sq) = 40" "rd8 (icmp_echo ident sq) 0 = ICMP_TYPE_ECHO_REQUEST"
  "\<exists>rest. drop 4 (icmp_echo ident sq) = st16 (htons16 ident) @ st16 (htons16 sq) @ rest"
  by (simp_all add: icmp_echo_def icmp_header_def Let_def ICMP_PAYLOAD_SIZE_def rd8_def)

lemma reply_fields:
  assumes "length d = 40" and "drop 4 d = st16 (htons16 ident) @ st16 (htons16 sq) @ rest"
  shows "length (icmp_echo_reply d) = 40" "rd8 (icmp_echo_reply d) 0 = ICMP_TYPE_ECHO_REPLY"
    "htons16 (rd16 (icmp_echo_reply d) 4) = ident" "htons16 (rd16 (icmp_echo_reply d) 6) = sq"
proof -
  let ?cs = "st16 (htons16 (icmp_checksum ([ICMP_TYPE_ECHO_REPLY, rd8 d 1, 0, 0] @ drop 4 d)))"
  have e: "icmp_echo_reply d = ([ICMP_TYPE_ECHO_REPLY, rd8 d 1] @ ?cs) @ st16 (htons16 ident) @ st16 (htons16 sq) @ rest"
    unfolding icmp_echo_reply_def Let_def assms(2) by simp
  show "length (icmp_echo_reply d) = 40" using assms(1) by (simp add: icmp_echo_reply_def Let_def)
  show "rd8 (icmp_echo_reply d) 0 = ICMP_TYPE_ECHO_REPLY" unfolding e by (simp add: rd8_def)
  show "htons16 (rd16 (icmp_echo_reply d) 4) = ident"
    unfolding e using rd16_at [of "[ICMP_TYPE_ECHO_REPLY, rd8 d 1] @ ?cs" 4 "htons16 ident"] by simp
  show "htons16 (rd16 (icmp_echo_reply d) 6) = sq"
    unfolding e using rd16_at [of "[ICMP_TYPE_ECHO_REPLY, rd8 d 1] @ ?cs @ st16 (htons16 ident)" 6 "htons16 sq" rest] by simp
qed

text \<open>
  C33. An echo request is answered: the frame host A sends to host B makes B send exactly one frame, and
  when A polls that frame while it waits for this identifier and sequence number, the reply is recorded.
  Both hosts have a card, and the hardware address of the next hop to the other in their ARP cache; hardware
  addresses have six bytes.
\<close>

theorem echo_exchange:
  assumes A: "device a = Some da" "length (mac da) = 6" "cached a (next_hop da (ip db)) hb" "length hb = 6"
    and B: "device b = Some db" "length (mac db) = 6" "cached b (next_hop db (ip da)) ha" "length ha = 6"
    and wait: "device a' \<noteq> None" "icmp_expected_id a' = ident" "icmp_expected_seq a' = sq"
  shows "\<exists>request reply. tx (snd (icmp_send_echo ethernet_poll (ip db) ident sq a)) = tx a @ [request] \<and>
     tx (snd (ethernet_poll (b\<lparr>rx := [request]\<rparr>))) = tx b @ [reply] \<and>
     icmp_reply_received (snd (ethernet_poll (a'\<lparr>rx := [reply]\<rparr>)))"
proof -
  define d where "d = icmp_echo ident sq"
  obtain rest where d: "length d = 40" "rd8 d 0 = ICMP_TYPE_ECHO_REQUEST" "drop 4 d = st16 (htons16 ident) @ st16 (htons16 sq) @ rest"
    unfolding d_def using echo_fields [of ident sq] by blast
  note r = reply_fields [OF d(1,3)]
  define request where "request = ip_frame hb (mac da) (ip_packet (ip_id_counter a) IP_PROTO_ICMP (ip da) (ip db) d)"
  define b1 where "b1 = b\<lparr>rx := [], icmp_reply_buf := fill (icmp_echo_reply d) (icmp_reply_buf b)\<rparr>"
  define reply where "reply = ip_frame ha (mac db) (ip_packet (ip_id_counter b) IP_PROTO_ICMP (ip db) (ip da) (icmp_echo_reply d))"
  have "tx (snd (icmp_send_echo ethernet_poll (ip db) ident sq a)) = tx a @ [request]"
    using send_cached [OF A(1,3), of 40 "\<lambda>_. d" IP_PROTO_ICMP] d(1)
    by (simp add: icmp_send_echo_def request_def d_def ICMP_HEADER_LEN_def ICMP_PAYLOAD_SIZE_def)
  moreover have "tx (snd (ethernet_poll (b\<lparr>rx := [request]\<rparr>))) = tx b @ [reply]"
  proof -
    have "ethernet_poll (b\<lparr>rx := [request]\<rparr>) = (1, icmp_receive ethernet_poll (ip da) d (b\<lparr>rx := []\<rparr>))"
      using poll_ip_frame [of "b\<lparr>rx := [request]\<rparr>" hb "mac da" "ip_id_counter a" IP_PROTO_ICMP "ip da" "ip db" d "[]"] A(2,4) B(1) d(1)
      by (simp add: request_def ip_dispatch_def)
    moreover have "icmp_receive ethernet_poll (ip da) d (b\<lparr>rx := []\<rparr>) = snd (ipv4_send ethernet_poll (ip da) IP_PROTO_ICMP icmp_reply_buf 40 b1)"
      using d(1,2) by (simp add: icmp_receive_def b1_def ICMP_HEADER_LEN_def ICMP_TYPE_ECHO_REPLY_def ICMP_TYPE_ECHO_REQUEST_def)
    moreover have "device b1 = Some db" "cached b1 (next_hop db (ip da)) ha" using B(1,3) by (simp_all add: b1_def cached_def split: option.splits)
    ultimately show ?thesis
      using send_cached [of b1 db "ip da" ha 40 icmp_reply_buf IP_PROTO_ICMP] r(1) by (simp add: reply_def b1_def fill_def)
  qed
  moreover have "icmp_reply_received (snd (ethernet_poll (a'\<lparr>rx := [reply]\<rparr>)))"
  proof -
    have "ethernet_poll (a'\<lparr>rx := [reply]\<rparr>) = (1, icmp_receive ethernet_poll (ip db) (icmp_echo_reply d) (a'\<lparr>rx := []\<rparr>))"
      using poll_ip_frame [of "a'\<lparr>rx := [reply]\<rparr>" ha "mac db" "ip_id_counter b" IP_PROTO_ICMP "ip db" "ip da" "icmp_echo_reply d" "[]"] B(2,4) wait(1) r(1)
      by (simp add: reply_def ip_dispatch_def)
    then show ?thesis using r wait(2,3) by (simp add: icmp_receive_def ICMP_HEADER_LEN_def)
  qed
  ultimately show ?thesis by blast
qed

theorem echo_exchange_witness:
  "\<exists>request reply. tx (snd (icmp_send_echo ethernet_poll 0x0A000202 7 9 (sample_net []))) = tx (sample_net []) @ [request] \<and>
     tx (snd (ethernet_poll ((sample_net [])\<lparr>device := Some \<lparr>mac = [2, 0, 0, 0, 0, 2], ip = 0x0A000202, gateway = 0x0A000202, netmask = 0xFFFFFFFF\<rparr>,
       rx := [request]\<rparr>))) = tx (sample_net []) @ [reply] \<and>
     icmp_reply_received (snd (ethernet_poll ((sample_net [])\<lparr>icmp_expected_id := 7, icmp_expected_seq := 9, rx := [reply]\<rparr>)))"
proof -
  let ?da = "\<lparr>mac = [2, 0, 0, 0, 0, 1], ip = 0x0A00020F, gateway = 0x0A000202, netmask = 0xFFFFFF00\<rparr> :: net_device"
  let ?db = "\<lparr>mac = [2, 0, 0, 0, 0, 2], ip = 0x0A000202, gateway = 0x0A000202, netmask = 0xFFFFFFFF\<rparr> :: net_device"
  have hop: "next_hop ?da (ip ?db) = 0x0A000202" "next_hop ?db (ip ?da) = 0x0A000202" by (simp_all add: next_hop_def)
  have "arp_find (arp_cache (sample_net [])) 0x0A000202 = Some 0"
    by (simp add: arp_find_def find_from_Some_iff sample_net_def ARP_CACHE_SIZE_def)
  then have c: "cached (sample_net []) 0x0A000202 qemu_slirp_gateway_mac"
    by (simp add: cached_def sample_net_def ARP_ENTRY_TTL_MS_def)
  then have c': "cached ((sample_net [])\<lparr>device := Some ?db\<rparr>) 0x0A000202 qemu_slirp_gateway_mac" by (simp add: cached_def split: option.splits)
  show ?thesis
    using echo_exchange [of "sample_net []" ?da ?db qemu_slirp_gateway_mac "(sample_net [])\<lparr>device := Some ?db\<rparr>" qemu_slirp_gateway_mac
        "(sample_net [])\<lparr>icmp_expected_id := 7, icmp_expected_seq := 9\<rparr>" 7 9] hop c c'
    by (simp add: sample_net_def qemu_slirp_gateway_mac_def)
qed

end
