(* ===== verification/Sasy.thy ===== *)
theory Sasy
  imports Handle Address_Space BFS
begin

text \<open>
  The segment manager: \<open>src/kernel/mm/sasy/sasy.c\<close> with its swap (\<open>swap.c\<close>) and its loader (\<open>loader.c\<close>). The
  state extends the handle table and the segment descriptors by the tables of the three files, the
  virtual memory manager, the bytes of physical memory and the file system with its device. A
  virtual address is accessed through \<open>vmm_translate\<close>; the words of the page tables and the bytes of
  segments are separate stores, as tables and segments never share a frame. A section under a lock is
  one step. The pages come from an allocator that may not return in a corrupted heap: hence the
  option results.
\<close>

section \<open>Constants\<close>

definition MAX_SEGMENTS :: nat where "MAX_SEGMENTS = 4096"
definition SASY_BASE_ADDR :: u64 where "SASY_BASE_ADDR = 0xFFFF800010000000"
definition SASY_MAX_SIZE :: u64 where "SASY_MAX_SIZE = 0x0000100000000000"
definition MAX_SWAP_ENTRIES :: nat where "MAX_SWAP_ENTRIES = 1024"
definition SWAP_BLOCK_SIZE :: u64 where "SWAP_BLOCK_SIZE = 4096"
definition MAX_CODE_SEGMENTS :: nat where "MAX_CODE_SEGMENTS = 256"

definition SEG_FLAG_READ :: u32 where "SEG_FLAG_READ = 0x01"
definition SEG_FLAG_WRITE :: u32 where "SEG_FLAG_WRITE = 0x02"
definition SEG_FLAG_EXEC :: u32 where "SEG_FLAG_EXEC = 0x04"
definition SEG_FLAG_USER :: u32 where "SEG_FLAG_USER = 0x08"
definition SEG_FLAG_NOCACHE :: u32 where "SEG_FLAG_NOCACHE = 0x10"
definition SEG_FLAG_DISCARD :: u32 where "SEG_FLAG_DISCARD = 0x20"
definition SEG_FLAG_NOSWAP :: u32 where "SEG_FLAG_NOSWAP = 0x40"
definition SEG_FLAG_ZEROED :: u32 where "SEG_FLAG_ZEROED = 0x80"
definition SEG_FLAG_SHARED :: u32 where "SEG_FLAG_SHARED = 0x100"
definition SEG_FLAGS_RW :: u32 where "SEG_FLAGS_RW = SEG_FLAG_READ OR SEG_FLAG_WRITE"
definition SEG_FLAGS_RX :: u32 where "SEG_FLAGS_RX = SEG_FLAG_READ OR SEG_FLAG_EXEC"
definition SEG_FLAGS_USER_RW :: u32 where "SEG_FLAGS_USER_RW = SEG_FLAGS_RW OR SEG_FLAG_USER"

definition VMM_USER :: u64 where "VMM_USER = 4"
definition VMM_NOEXEC :: u64 where "VMM_NOEXEC = 0x8000000000000000"

section \<open>State\<close>

record swap_entry =
  disk_block :: u64
  sw_pages :: u64
  sw_seg_id :: u32
  sw_in_use :: bool

record swap_statistics =
  total_entries :: u32
  used_entries :: u32
  bytes_swapped_out :: u64
  bytes_swapped_in :: u64
  swap_out_count :: u32
  swap_in_count :: u32

record code_entry =
  cr_hash :: u64
  cr_seg :: "nat option"
  cr_refs :: u32
  cr_valid :: bool

record sasy_state = handle_state +
  segment_count :: u32
  next_segment_id :: u32
  next_segment_base :: u64
  pressure_threshold :: u64
  swap_table :: "nat \<Rightarrow> swap_entry"
  swap_entry_count :: u32
  next_swap_block :: u64
  swap_stats :: swap_statistics
  swap_ready :: bool
  swap_base :: u64
  swap_size :: u64
  code_registry :: "nat \<Rightarrow> code_entry"
  seg_vmm :: vmm_state
  ram :: "u64 \<Rightarrow> u8"
  g_bfs :: bfs_instance

text \<open>Changing a descriptor through a pointer to it.\<close>

definition upd_seg :: "nat \<Rightarrow> (segment \<Rightarrow> segment) \<Rightarrow> sasy_state \<Rightarrow> sasy_state" where
  "upd_seg i f s = s\<lparr>segments := (segments s)(i := f (segments s i))\<rparr>"

definition null_segment :: segment where
  "null_segment = \<lparr>seg_id = 0, seg_ty = SEG_FIXED, seg_base = 0, seg_size = 0, seg_phys = 0, seg_refcnt = 0,
     seg_flags = 0, seg_locked = 0, seg_present = False, seg_dirty = False, seg_shared = False, seg_swap_id = 0, seg_code_hash = 0\<rparr>"

section \<open>Memory\<close>

definition peek :: "u64 \<Rightarrow> sasy_state \<Rightarrow> u8" where
  "peek v s = ram s (case vmm_translate v (seg_vmm s) of Some p \<Rightarrow> p | None \<Rightarrow> 0)"

definition poke :: "u64 \<Rightarrow> u8 \<Rightarrow> sasy_state \<Rightarrow> sasy_state" where
  "poke v b s = s\<lparr>ram := (ram s)((case vmm_translate v (seg_vmm s) of Some p \<Rightarrow> p | None \<Rightarrow> 0) := b)\<rparr>"

definition mem_read :: "u64 \<Rightarrow> nat \<Rightarrow> sasy_state \<Rightarrow> u8 list" where
  "mem_read v n s = map (\<lambda>i. peek (v + of_nat i) s) [0..<n]"

primrec mem_write :: "u64 \<Rightarrow> u8 list \<Rightarrow> sasy_state \<Rightarrow> sasy_state" where
  "mem_write v [] s = s"
| "mem_write v (b # bs) s = mem_write (v + 1) bs (poke v b s)"

primrec mem_copy :: "u64 \<Rightarrow> u64 \<Rightarrow> nat \<Rightarrow> sasy_state \<Rightarrow> sasy_state" where
  "mem_copy dst src 0 s = s"
| "mem_copy dst src (Suc n) s = mem_copy (dst + 1) (src + 1) n (poke dst (peek src s) s)"

text \<open>Transfers of whole pages between memory and the device (\<open>pmem_write\<close>, \<open>pmem_read\<close>).\<close>

definition dev_write :: "u64 \<Rightarrow> u8 list \<Rightarrow> bfs_instance \<Rightarrow> int \<times> bfs_instance" where
  "dev_write offset bs d =
     (if pmem_check d offset (of_nat (length bs)) \<and> pmem_kind d = PMEM_BACKEND_IDE \<and> drive_ok d offset
      then (0, d\<lparr>disk := (\<lambda>a. let k = unat (a - offset)
                              in if k < length bs \<and> k mod 4096 = 0 then put_bytes 0 (take 4096 (drop k bs)) zero_page else disk d a)\<rparr>)
      else (-1, d))"

definition dev_read :: "u64 \<Rightarrow> nat \<Rightarrow> bfs_instance \<Rightarrow> u8 list option" where
  "dev_read offset n d =
     (if pmem_check d offset (of_nat n) \<and> pmem_kind d = PMEM_BACKEND_IDE \<and> drive_ok d offset
      then Some (map (\<lambda>i. get_byte (disk d (offset + of_nat (i div 4096 * 4096))) (i mod 4096)) [0..<n]) else None)"

section \<open>Pages of a segment\<close>

definition free_page :: "u64 \<Rightarrow> sasy_state \<Rightarrow> sasy_state" where
  "free_page p s =
     s\<lparr>seg_vmm := (seg_vmm s)\<lparr>vmm_mm := (vmm_mm (seg_vmm s))\<lparr>mm_pmm := pmm_free_page p (mm_pmm (vmm_mm (seg_vmm s)))\<rparr>\<rparr>\<rparr>"

definition give_pages :: "u64 \<Rightarrow> nat \<Rightarrow> sasy_state \<Rightarrow> sasy_state" where
  "give_pages first n s = for_range 0 n (\<lambda>j s. free_page (first + of_nat j * of_nat PAGE_SIZE) s) s"

definition seg_pages :: "segment \<Rightarrow> nat" where
  "seg_pages g = unat (seg_size g div of_nat PAGE_SIZE)"

text \<open>The allocation loop: \<open>i\<close> pages are taken, \<open>n\<close> are still to be taken.\<close>

fun take_pages :: "string \<Rightarrow> nat \<Rightarrow> nat \<Rightarrow> u64 \<Rightarrow> sasy_state \<Rightarrow> (u64 option \<times> sasy_state) option" where
  "take_pages tag 0 i first s = Some (Some first, s)"
| "take_pages tag (Suc n) i first s =
     do {
       (page, m) \<leftarrow> pmm_alloc_page (vmm_mm (seg_vmm s));
       let s = s\<lparr>seg_vmm := (seg_vmm s)\<lparr>vmm_mm := m\<rparr>\<rparr>;
       if page = 0 then Some (None, give_pages first i (seg_klog (Error (tag @ '' Out of physical memory'')) s))
       else if i = 0 then take_pages tag n 1 page s
       else if page \<noteq> first + of_nat i * of_nat PAGE_SIZE
       then Some (None, free_page page (give_pages first i (seg_klog (Error (tag @ '' Non-contiguous physical allocation'')) s)))
       else take_pages tag n (Suc i) first s
     }"

definition map_flags :: "u32 \<Rightarrow> u64" where
  "map_flags f =
     (let flags = VMM_PRESENT;
          flags = (if f AND SEG_FLAG_WRITE \<noteq> 0 then flags OR VMM_WRITE else flags);
          flags = (if f AND SEG_FLAG_USER \<noteq> 0 then flags OR VMM_USER else flags);
          flags = (if f AND SEG_FLAG_EXEC = 0 then flags OR VMM_NOEXEC else flags)
      in if f AND SEG_FLAG_NOCACHE \<noteq> 0 then flags OR VMM_PWT OR VMM_PCD else flags)"

definition unmap_one :: "u64 \<Rightarrow> sasy_state \<Rightarrow> sasy_state option" where
  "unmap_one v s = do { w \<leftarrow> vmm_unmap v (seg_vmm s); Some (s\<lparr>seg_vmm := w\<rparr>) }"

fun unmap_pages :: "u64 \<Rightarrow> nat \<Rightarrow> nat \<Rightarrow> sasy_state \<Rightarrow> sasy_state option" where
  "unmap_pages virt j 0 s = Some s"
| "unmap_pages virt j (Suc n) s = do { s \<leftarrow> unmap_one (virt + of_nat j * of_nat PAGE_SIZE) s; unmap_pages virt (Suc j) n s }"

text \<open>The mapping loop, which checks every page and undoes all on failure; \<open>i\<close> of \<open>pgs\<close> pages are mapped.\<close>

fun map_pages :: "string \<Rightarrow> u64 \<Rightarrow> u64 \<Rightarrow> u64 \<Rightarrow> nat \<Rightarrow> nat \<Rightarrow> nat \<Rightarrow> sasy_state \<Rightarrow> (bool \<times> sasy_state) option" where
  "map_pages tag virt phys flags pgs 0 i s = Some (True, s)"
| "map_pages tag virt phys flags pgs (Suc n) i s =
     do {
       let vaddr = virt + of_nat i * of_nat PAGE_SIZE;
       let paddr = phys + of_nat i * of_nat PAGE_SIZE;
       w \<leftarrow> vmm_map vaddr paddr flags (seg_vmm s);
       let s = s\<lparr>seg_vmm := w\<rparr>;
       p \<leftarrow> vmm_translate vaddr w;
       if p \<noteq> paddr
       then do {
         s \<leftarrow> unmap_pages virt 0 (Suc i) (seg_klog (Error (tag @ '' Virtual mapping failed'')) s);
         Some (False, give_pages phys pgs s)
       }
       else map_pages tag virt phys flags pgs n (Suc i) s
     }"

text \<open>\<^verbatim>\<open>while (addr < end)\<close>: unmapping a range page by page.\<close>

partial_function (option) unmap_range :: "u64 \<Rightarrow> u64 \<Rightarrow> sasy_state \<Rightarrow> sasy_state option" where
  "unmap_range addr stop s =
     (if addr < stop
      then (case unmap_one addr s of None \<Rightarrow> None | Some s \<Rightarrow> unmap_range (addr + of_nat PAGE_SIZE) stop s)
      else Some s)"

definition sasy_map_now :: "nat \<Rightarrow> sasy_state \<Rightarrow> (int \<times> sasy_state) option" where
  "sasy_map_now i s =
     do {
       let g = segments s i;
       (r, s) \<leftarrow> take_pages ''[SEG]'' (seg_pages g) 0 0 s;
       case r of
         None \<Rightarrow> Some (-1, s)
       | Some first \<Rightarrow>
           do {
             let s = upd_seg i (\<lambda>g. g\<lparr>seg_phys := first\<rparr>) s;
             (ok, s) \<leftarrow> map_pages ''[SEG]'' (seg_base g) first (map_flags (seg_flags g)) (seg_pages g) (seg_pages g) 0 s;
             if \<not> ok then Some (-1, s)
             else
               let s = (if seg_flags g AND SEG_FLAG_ZEROED \<noteq> 0
                        then mem_write (seg_base g) (replicate (unat (seg_size g)) 0) s else s)
               in Some (0, upd_seg i (\<lambda>g. g\<lparr>seg_present := True\<rparr>) s)
           }
     }"

section \<open>Swap\<close>

definition swap_set_region :: "u64 \<Rightarrow> u64 \<Rightarrow> sasy_state \<Rightarrow> sasy_state" where
  "swap_set_region base sz s = s\<lparr>swap_base := base, swap_size := sz\<rparr>"

definition null_swap_entry :: swap_entry where
  "null_swap_entry = \<lparr>disk_block = 0, sw_pages = 0, sw_seg_id = 0, sw_in_use = False\<rparr>"

definition swap_init :: "sasy_state \<Rightarrow> sasy_state" where
  "swap_init s =
     (let s = for_range 0 MAX_SWAP_ENTRIES (\<lambda>i s. s\<lparr>swap_table := (swap_table s)(i := null_swap_entry)\<rparr>) s;
          s = s\<lparr>swap_entry_count := 0, next_swap_block := 1,
                swap_stats := \<lparr>total_entries = of_nat MAX_SWAP_ENTRIES, used_entries = 0, bytes_swapped_out = 0,
                  bytes_swapped_in = 0, swap_out_count = 0, swap_in_count = 0\<rparr>\<rparr>
      in if pmem_ready (g_bfs s) \<and> swap_size s \<ge> SWAP_BLOCK_SIZE
         then seg_klog (Init_msg ''SASY swap initialized (PMEM backend)'') (s\<lparr>swap_ready := True\<rparr>)
         else seg_klog (Warn ''[SWAP] PMEM not available, swap disabled'') (s\<lparr>swap_ready := False\<rparr>))"

definition swap_available :: "sasy_state \<Rightarrow> bool" where "swap_available s = swap_ready s"

definition swap_alloc :: "u64 \<Rightarrow> sasy_state \<Rightarrow> u64 \<times> sasy_state" where
  "swap_alloc sz s =
     (if \<not> swap_ready s then (0, s)
      else
        let pages = (sz + SWAP_BLOCK_SIZE - 1) div SWAP_BLOCK_SIZE;
            max_blocks = swap_size s div SWAP_BLOCK_SIZE
        in if next_swap_block s + pages > max_blocks then (0, seg_klog (Error ''[SWAP] PMEM swap region full'') s)
           else
             case find_from (\<lambda>i. \<not> sw_in_use (swap_table s i)) 0 MAX_SWAP_ENTRIES of
               Some i \<Rightarrow>
                 let b = next_swap_block s;
                     s = s\<lparr>swap_table := (swap_table s)(i := (swap_table s i)\<lparr>disk_block := b, sw_pages := pages, sw_in_use := True\<rparr>),
                           next_swap_block := b + pages, swap_entry_count := swap_entry_count s + 1,
                           swap_stats := (swap_stats s)\<lparr>used_entries := used_entries (swap_stats s) + 1\<rparr>\<rparr>
                 in (b, s)
             | None \<Rightarrow> (0, seg_klog (Error ''[SWAP] No free swap entries'') s))"

definition swap_free :: "u64 \<Rightarrow> sasy_state \<Rightarrow> sasy_state" where
  "swap_free swap_id s =
     (if swap_id = 0 then s
      else
        case find_from (\<lambda>i. sw_in_use (swap_table s i) \<and> disk_block (swap_table s i) = swap_id) 0 MAX_SWAP_ENTRIES of
          None \<Rightarrow> s
        | Some i \<Rightarrow>
            let s = s\<lparr>swap_table := (swap_table s)(i := null_swap_entry)\<rparr>;
                s = (if swap_entry_count s > 0 then s\<lparr>swap_entry_count := swap_entry_count s - 1\<rparr> else s)
            in if used_entries (swap_stats s) > 0
               then s\<lparr>swap_stats := (swap_stats s)\<lparr>used_entries := used_entries (swap_stats s) - 1\<rparr>\<rparr> else s)"

definition swap_can_swap :: "nat \<Rightarrow> sasy_state \<Rightarrow> bool" where
  "swap_can_swap i s \<longleftrightarrow>
     swap_ready s \<and> seg_present (segments s i) \<and> \<not> seg_locked (segments s i) > 0 \<and>
     seg_flags (segments s i) AND SEG_FLAG_NOSWAP = 0 \<and>
     seg_ty (segments s i) \<noteq> SEG_FIXED \<and> seg_ty (segments s i) \<noteq> SEG_PHYSICAL"

text \<open>Unmapping a segment and giving its frames back.\<close>

definition drop_pages :: "nat \<Rightarrow> sasy_state \<Rightarrow> sasy_state option" where
  "drop_pages i s =
     do {
       let g = segments s i;
       s \<leftarrow> unmap_range (seg_base g) (seg_base g + seg_size g) s;
       Some (if seg_phys g \<noteq> 0
             then upd_seg i (\<lambda>g. g\<lparr>seg_phys := 0\<rparr>) (give_pages (seg_phys g) (seg_pages g) s) else s)
     }"

text \<open>Room in the swap region, allocated when the segment has none.\<close>

definition swap_reserve :: "nat \<Rightarrow> sasy_state \<Rightarrow> sasy_state" where
  "swap_reserve i s =
     (if seg_swap_id (segments s i) = 0
      then let (b, s) = swap_alloc (seg_size (segments s i)) s in upd_seg i (\<lambda>g. g\<lparr>seg_swap_id := b\<rparr>) s
      else s)"

definition swap_offset :: "nat \<Rightarrow> sasy_state \<Rightarrow> u64" where
  "swap_offset i s = swap_base s + seg_swap_id (segments s i) * SWAP_BLOCK_SIZE"

definition swap_out :: "nat \<Rightarrow> sasy_state \<Rightarrow> (int \<times> sasy_state) option" where
  "swap_out i s =
     (if \<not> swap_ready s then Some (-1, s)
      else if \<not> seg_present (segments s i) then Some (0, s)
      else if seg_locked (segments s i) > 0 then Some (-1, seg_klog (Warn ''[SWAP] Cannot swap locked segment'') s)
      else if seg_flags (segments s i) AND SEG_FLAG_NOSWAP \<noteq> 0 then Some (-1, seg_klog (Warn ''[SWAP] Segment marked NOSWAP'') s)
      else
        let s = swap_reserve i s
        in if seg_swap_id (segments s i) = 0 then Some (-1, seg_klog (Error ''[SWAP] Failed to allocate swap space'') s)
           else if swap_offset i s + seg_size (segments s i) > swap_base s + swap_size s
           then Some (-1, seg_klog (Error ''[SWAP] Swap write out of bounds'') s)
           else
             let g = segments s i;
                 (e, d) = dev_write (swap_offset i s) (mem_read (seg_base g) (unat (seg_size g)) s) (g_bfs s);
                 s = s\<lparr>g_bfs := d\<rparr>
             in if e \<noteq> 0 then Some (-1, seg_klog (Error ''[SWAP] Failed to write PMEM swap block'') s)
                else
                  do {
                    s \<leftarrow> drop_pages i s;
                    let s = upd_seg i (\<lambda>g. g\<lparr>seg_present := False\<rparr>) s;
                    let s = s\<lparr>swap_stats := (swap_stats s)\<lparr>bytes_swapped_out := bytes_swapped_out (swap_stats s) + seg_size g,
                      swap_out_count := swap_out_count (swap_stats s) + 1\<rparr>\<rparr>;
                    Some (0, seg_klog (Log ''[SWAP] Segment swapped out'') s)
                  })"

definition swap_read :: "nat \<Rightarrow> sasy_state \<Rightarrow> int \<times> sasy_state" where
  "swap_read i s =
     (let g = segments s i
      in if \<not> swap_ready s then (-1, s)
         else if seg_swap_id g = 0 then (-1, s)
         else if seg_present g then (0, s)
         else if swap_offset i s + seg_size g > swap_base s + swap_size s
         then (-1, seg_klog (Error ''[SWAP] Swap read out of bounds'') s)
         else
           case dev_read (swap_offset i s) (unat (seg_size g)) (g_bfs s) of
             None \<Rightarrow> (-1, seg_klog (Error ''[SWAP] Failed to read PMEM swap block'') s)
           | Some bs \<Rightarrow>
               let s = mem_write (seg_base g) bs s;
                   s = s\<lparr>swap_stats := (swap_stats s)\<lparr>bytes_swapped_in := bytes_swapped_in (swap_stats s) + seg_size g,
                     swap_in_count := swap_in_count (swap_stats s) + 1\<rparr>\<rparr>;
                   s = upd_seg i (\<lambda>g. g\<lparr>seg_swap_id := 0\<rparr>) s;
                   s = swap_free (seg_swap_id g) s
               in (0, seg_klog (Log ''[SWAP] Segment read from swap'') s))"

definition swap_schedule :: "nat \<Rightarrow> sasy_state \<Rightarrow> sasy_state option" where
  "swap_schedule i s = (if swap_can_swap i s then do { (r, s) \<leftarrow> swap_out i s; Some s } else Some s)"

definition swap_process_pending :: "sasy_state \<Rightarrow> sasy_state" where "swap_process_pending s = s"

definition swap_get_stats :: "sasy_state \<Rightarrow> swap_statistics" where "swap_get_stats s = swap_stats s"

section \<open>Loader\<close>

definition null_code_entry :: code_entry where
  "null_code_entry = \<lparr>cr_hash = 0, cr_seg = None, cr_refs = 0, cr_valid = False\<rparr>"

definition loader_init :: "sasy_state \<Rightarrow> sasy_state" where
  "loader_init s =
     (let s = for_range 0 MAX_CODE_SEGMENTS (\<lambda>i s. s\<lparr>code_registry := (code_registry s)(i := null_code_entry)\<rparr>) s
      in seg_klog (Init_msg ''SASY loader initialized'') s)"

definition sasy_pagein :: "nat \<Rightarrow> sasy_state \<Rightarrow> (int \<times> sasy_state) option" where
  "sasy_pagein i s =
     (if seg_present (segments s i) then Some (0, s)
      else
        do {
          let g = segments s i;
          (r, s) \<leftarrow> take_pages ''[LOAD]'' (seg_pages g) 0 0 s;
          case r of
            None \<Rightarrow> Some (-1, s)
          | Some first \<Rightarrow>
              do {
                let s = upd_seg i (\<lambda>g. g\<lparr>seg_phys := first\<rparr>) s;
                (ok, s) \<leftarrow> map_pages ''[LOAD]'' (seg_base g) first (map_flags (seg_flags g)) (seg_pages g) (seg_pages g) 0 s;
                if \<not> ok then Some (-1, upd_seg i (\<lambda>g. g\<lparr>seg_phys := 0\<rparr>) s)
                else
                  let (e, s) =
                    (if seg_ty g = SEG_CODE then (0 :: int, seg_klog (Log ''[LOAD] Code segment paged in'') s)
                     else if seg_swap_id g \<noteq> 0
                     then let (e, s) = swap_read i s
                          in if e \<noteq> 0 then (-1, s) else (0, seg_klog (Log ''[LOAD] Segment read from swap'') s)
                     else if seg_flags g AND SEG_FLAG_ZEROED \<noteq> 0
                     then (0, mem_write (seg_base g) (replicate (unat (seg_size g)) 0) s)
                     else (0, s))
                  in if e \<noteq> 0 then Some (-1, s)
                     else Some (0, seg_klog (Log ''[LOAD] Segment paged in'') (upd_seg i (\<lambda>g. g\<lparr>seg_present := True\<rparr>) s))
              }
        })"

definition sasy_pageout :: "nat \<Rightarrow> sasy_state \<Rightarrow> (int \<times> sasy_state) option" where
  "sasy_pageout i s =
     (let g = segments s i
      in if \<not> seg_present g then Some (0, s)
         else if seg_locked g > 0 then Some (-1, seg_klog (Warn ''[LOAD] Cannot page out locked segment'') s)
         else if seg_flags g AND SEG_FLAG_DISCARD \<noteq> 0 \<and> \<not> seg_dirty g \<and> seg_refcnt g = 0
         then do {
           s \<leftarrow> drop_pages i s;
           Some (0, seg_klog (Log ''[LOAD] Discardable segment freed'') (upd_seg i (\<lambda>g. g\<lparr>seg_present := False\<rparr>) s))
         }
         else swap_out i s)"

text \<open>Characters are signed: bytes above 127 are added with their sign.\<close>

definition loader_hash_file :: "cstr option \<Rightarrow> u64" where
  "loader_hash_file path =
     (case path of None \<Rightarrow> 0 | Some cs \<Rightarrow> foldl (\<lambda>h c. push_bit 5 h + h + scast c) 5381 (takeWhile (\<lambda>c. c \<noteq> 0) cs))"

definition loader_load_code :: "nat \<Rightarrow> cstr \<Rightarrow> sasy_state \<Rightarrow> (int \<times> sasy_state) option" where
  "loader_load_code i path s =
     do {
       r \<leftarrow> bfs_find path (g_bfs s);
       if r = None then Some (-1, seg_klog (Error ''[LOAD] Code file not found'') s)
       else Some (0, seg_klog (Log ''[LOAD] Code loaded from file'') (upd_seg i (\<lambda>g. g\<lparr>seg_code_hash := loader_hash_file (Some path)\<rparr>) s))
     }"

definition registered :: "u64 \<Rightarrow> sasy_state \<Rightarrow> nat option" where
  "registered hash s = find_from (\<lambda>i. cr_valid (code_registry s i) \<and> cr_hash (code_registry s i) = hash) 0 MAX_CODE_SEGMENTS"

definition loader_find_code :: "u64 \<Rightarrow> sasy_state \<Rightarrow> nat option" where
  "loader_find_code hash s =
     (if hash = 0 then None
      else case registered hash s of None \<Rightarrow> None | Some i \<Rightarrow> cr_seg (code_registry s i))"

definition loader_register_code :: "nat \<Rightarrow> sasy_state \<Rightarrow> sasy_state" where
  "loader_register_code i s =
     (let hash = seg_code_hash (segments s i)
      in if hash = 0 then s
         else
           case registered hash s of
             Some j \<Rightarrow> s\<lparr>code_registry := (code_registry s)(j := (code_registry s j)\<lparr>cr_refs := cr_refs (code_registry s j) + 1\<rparr>)\<rparr>
           | None \<Rightarrow>
               (case find_from (\<lambda>j. \<not> cr_valid (code_registry s j)) 0 MAX_CODE_SEGMENTS of
                  None \<Rightarrow> s
                | Some j \<Rightarrow> s\<lparr>code_registry := (code_registry s)(j := \<lparr>cr_hash = hash, cr_seg = Some i, cr_refs = 1, cr_valid = True\<rparr>)\<rparr>))"

definition loader_unregister_code :: "nat \<Rightarrow> sasy_state \<Rightarrow> sasy_state" where
  "loader_unregister_code i s =
     (let hash = seg_code_hash (segments s i)
      in if hash = 0 then s
         else
           case registered hash s of
             None \<Rightarrow> s
           | Some j \<Rightarrow>
               let c = code_registry s j;
                   c = (if cr_refs c > 0 then c\<lparr>cr_refs := cr_refs c - 1\<rparr> else c);
                   c = (if cr_refs c = 0 then c\<lparr>cr_hash := 0, cr_seg := None, cr_valid := False\<rparr> else c)
               in s\<lparr>code_registry := (code_registry s)(j := c)\<rparr>)"

section \<open>Segments\<close>

definition align_up :: "u64 \<Rightarrow> u64 \<Rightarrow> u64" where
  "align_up x a = (x + a - 1) AND NOT (a - 1)"

definition alloc_segment :: "sasy_state \<Rightarrow> nat option \<times> sasy_state" where
  "alloc_segment s =
     (case find_from (\<lambda>i. seg_id (segments s i) = 0) 0 MAX_SEGMENTS of
        None \<Rightarrow> (None, s)
      | Some i \<Rightarrow>
          (Some i, (upd_seg i (\<lambda>g. g\<lparr>seg_id := next_segment_id s\<rparr>) s)
             \<lparr>next_segment_id := next_segment_id s + 1, segment_count := segment_count s + 1\<rparr>))"

definition free_segment :: "nat \<Rightarrow> sasy_state \<Rightarrow> sasy_state" where
  "free_segment i s =
     (let s = upd_seg i (\<lambda>_. null_segment) s
      in if segment_count s > 0 then s\<lparr>segment_count := segment_count s - 1\<rparr> else s)"

definition sasy_init :: "sasy_state \<Rightarrow> sasy_state" where
  "sasy_init s =
     (let s = for_range 0 MAX_SEGMENTS (\<lambda>i s. upd_seg i (\<lambda>_. null_segment) s) s;
          s = s\<lparr>segment_count := 0, next_segment_id := 1, next_segment_base := SASY_BASE_ADDR\<rparr>;
          s = loader_init (swap_init (handle_init s))
      in seg_klog (Init_msg ''SASY segment allocator initialized'') s)"

definition sasy_create_ex :: "u64 \<Rightarrow> seg_type \<Rightarrow> u32 \<Rightarrow> u32 \<Rightarrow> sasy_state \<Rightarrow> (u32 \<times> sasy_state) option" where
  "sasy_create_ex sz ty flags owner_pid s =
     (if sz = 0 then Some (INVALID_HANDLE, s)
      else
        case alloc_segment s of
          (None, s) \<Rightarrow> Some (INVALID_HANDLE, seg_klog (Error ''[SEG] No free segment slots'') s)
        | (Some i, s) \<Rightarrow>
            let sz = align_up sz (of_nat PAGE_SIZE);
                s = upd_seg i (\<lambda>g. g\<lparr>seg_size := sz, seg_ty := ty, seg_flags := flags, seg_refcnt := 1, seg_locked := 0,
                      seg_present := False, seg_dirty := False, seg_shared := (ty = SEG_CODE), seg_swap_id := 0,
                      seg_code_hash := 0, seg_base := next_segment_base s\<rparr>) s;
                s = s\<lparr>next_segment_base := next_segment_base s + sz\<rparr>
            in if next_segment_base s \<ge> SASY_BASE_ADDR + SASY_MAX_SIZE
               then Some (INVALID_HANDLE, seg_klog (Error ''[SEG] Segment space exhausted'') (free_segment i s))
               else
                 do {
                   (e, s) \<leftarrow> (if ty = SEG_FIXED \<or> ty = SEG_PHYSICAL then sasy_map_now i s else Some (0, s));
                   if e \<noteq> 0 then Some (INVALID_HANDLE, free_segment i s)
                   else
                     do {
                       (h, s) \<leftarrow> handle_alloc (Some i) owner_pid s;
                       if h = INVALID_HANDLE
                       then Some (INVALID_HANDLE, seg_klog (Error ''[SEG] Failed to allocate handle'') (free_segment i s))
                       else Some (h, seg_klog (Log ''[SEG] Created segment'') s)
                     }
                 })"

definition sasy_create :: "u64 \<Rightarrow> seg_type \<Rightarrow> u32 \<Rightarrow> sasy_state \<Rightarrow> (u32 \<times> sasy_state) option" where
  "sasy_create sz ty flags s = sasy_create_ex sz ty flags 0 s"

definition sasy_lock :: "u32 \<Rightarrow> sasy_state \<Rightarrow> (u64 \<times> sasy_state) option" where
  "sasy_lock h s =
     (if \<not> handle_valid h s then Some (0, s)
      else
        case handle_get_segment h s of
          None \<Rightarrow> Some (0, s)
        | Some i \<Rightarrow>
            do {
              (e, s) \<leftarrow> (if \<not> seg_present (segments s i) then sasy_pagein i s else Some (0, s));
              if e \<noteq> 0 then Some (0, seg_klog (Error ''[SEG] Failed to page in segment'') s)
              else
                let s = upd_seg i (\<lambda>g. g\<lparr>seg_locked := seg_locked g + 1, seg_refcnt := seg_refcnt g + 1\<rparr>) s
                in Some (seg_base (segments s i), s)
            })"

definition sasy_unlock :: "u32 \<Rightarrow> sasy_state \<Rightarrow> sasy_state option" where
  "sasy_unlock h s =
     (if \<not> handle_valid h s then Some s
      else
        case handle_get_segment h s of
          None \<Rightarrow> Some s
        | Some i \<Rightarrow>
            let s = (if seg_locked (segments s i) > 0 then upd_seg i (\<lambda>g. g\<lparr>seg_locked := seg_locked g - 1\<rparr>) s else s)
            in if seg_locked (segments s i) = 0 \<and> seg_dirty (segments s i) then swap_schedule i s else Some s)"

text \<open>What \<open>sasy_free\<close> does with a segment that has no references left.\<close>

definition release_segment :: "nat \<Rightarrow> sasy_state \<Rightarrow> sasy_state option" where
  "release_segment i s =
     do {
       let g = segments s i;
       s \<leftarrow> (if seg_present g then unmap_range (seg_base g) (seg_base g + seg_size g) s else Some s);
       let s = (if seg_phys g \<noteq> 0 then give_pages (seg_phys g) (seg_pages g) s else s);
       let s = (if seg_swap_id g \<noteq> 0 then swap_free (seg_swap_id g) s else s);
       let s = (if seg_ty g = SEG_CODE \<and> seg_code_hash g \<noteq> 0 then loader_unregister_code i s else s);
       Some (seg_klog (Log ''[SEG] Segment freed'') (free_segment i s))
     }"

definition sasy_free :: "u32 \<Rightarrow> sasy_state \<Rightarrow> sasy_state option" where
  "sasy_free h s =
     (if \<not> handle_valid h s then Some s
      else
        case handle_get_segment h s of
          None \<Rightarrow> Some s
        | Some i \<Rightarrow>
            let s = (if seg_refcnt (segments s i) > 0 then upd_seg i (\<lambda>g. g\<lparr>seg_refcnt := seg_refcnt g - 1\<rparr>) s else s);
                s = handle_free h s
            in if seg_refcnt (segments s i) = 0 then release_segment i s else Some s)"

text \<open>The loop that gives back the pages behind a shrunk segment.\<close>

fun shrink_pages :: "u64 \<Rightarrow> u64 \<Rightarrow> nat \<Rightarrow> nat \<Rightarrow> sasy_state \<Rightarrow> sasy_state option" where
  "shrink_pages base phys j 0 s = Some s"
| "shrink_pages base phys j (Suc n) s =
     do {
       s \<leftarrow> unmap_one (base + of_nat j * of_nat PAGE_SIZE) s;
       shrink_pages base phys (Suc j) n (free_page (phys + of_nat j * of_nat PAGE_SIZE) s)
     }"

definition sasy_resize :: "u32 \<Rightarrow> u64 \<Rightarrow> sasy_state \<Rightarrow> (int \<times> sasy_state) option" where
  "sasy_resize h new_size s =
     (if \<not> handle_valid h s then Some (-1, s)
      else
        case handle_get_segment h s of
          None \<Rightarrow> Some (-1, s)
        | Some i \<Rightarrow>
            let g = segments s i;
                new_aligned = align_up new_size (of_nat PAGE_SIZE)
            in if seg_locked g > 0 then Some (-1, seg_klog (Warn ''[SEG] Cannot resize locked segment'') s)
               else if seg_ty g = SEG_FIXED \<or> seg_ty g = SEG_PHYSICAL
               then Some (-1, seg_klog (Warn ''[SEG] Cannot resize fixed segment'') s)
               else if new_aligned = seg_size g then Some (0, s)
               else if new_aligned > seg_size g \<and> seg_present g
               then Some (-1, seg_klog (Warn ''[SEG] Cannot grow resident segment'') s)
               else
                 do {
                   let new_pages = unat (new_aligned div of_nat PAGE_SIZE);
                   s \<leftarrow> (if \<not> new_aligned > seg_size g \<and> seg_present g
                        then shrink_pages (seg_base g) (seg_phys g) new_pages (seg_pages g - new_pages) s else Some s);
                   Some (0, seg_klog (Log ''[SEG] Segment resized'') (upd_seg i (\<lambda>g. g\<lparr>seg_size := new_aligned\<rparr>) s))
                 })"

definition sasy_mark_dirty :: "u32 \<Rightarrow> sasy_state \<Rightarrow> sasy_state" where
  "sasy_mark_dirty h s =
     (if \<not> handle_valid h s then s
      else case handle_get_segment h s of None \<Rightarrow> s | Some i \<Rightarrow> upd_seg i (\<lambda>g. g\<lparr>seg_dirty := True\<rparr>) s)"

definition sasy_get_info :: "u32 \<Rightarrow> sasy_state \<Rightarrow> segment option" where
  "sasy_get_info h s =
     (if \<not> handle_valid h s then None
      else case handle_get_segment h s of None \<Rightarrow> None | Some i \<Rightarrow> Some (segments s i))"

definition sasy_get_size :: "u32 \<Rightarrow> sasy_state \<Rightarrow> u64" where
  "sasy_get_size h s =
     (if \<not> handle_valid h s then 0
      else case handle_get_segment h s of None \<Rightarrow> 0 | Some i \<Rightarrow> seg_size (segments s i))"

definition sasy_get_type :: "u32 \<Rightarrow> sasy_state \<Rightarrow> seg_type" where
  "sasy_get_type h s =
     (if \<not> handle_valid h s then SEG_FIXED
      else case handle_get_segment h s of None \<Rightarrow> SEG_FIXED | Some i \<Rightarrow> seg_ty (segments s i))"

section \<open>Memory pressure\<close>

primrec for_segments :: "(nat \<Rightarrow> sasy_state \<Rightarrow> sasy_state option) \<Rightarrow> nat list \<Rightarrow> sasy_state \<Rightarrow> sasy_state option" where
  "for_segments f [] s = Some s"
| "for_segments f (i # is) s = do { s \<leftarrow> (if seg_id (segments s i) = 0 then Some s else f i s); for_segments f is s }"

definition sasy_pressure :: "sasy_state \<Rightarrow> sasy_state option" where
  "sasy_pressure s =
     do {
       s \<leftarrow> for_segments (\<lambda>i s.
         let g = segments s i
         in if seg_flags g AND SEG_FLAG_DISCARD \<noteq> 0 \<and> seg_locked g = 0 \<and> \<not> seg_dirty g \<and> seg_refcnt g = 0
            then do { (r, s) \<leftarrow> sasy_pageout i s; Some s } else Some s)
         [0..<MAX_SEGMENTS] (seg_klog (Warn ''[SEG] Memory pressure triggered'') s);
       for_segments (\<lambda>i s. if swap_can_swap i s then do { (r, s) \<leftarrow> swap_out i s; Some s } else Some s) [0..<MAX_SEGMENTS] s
     }"

definition sasy_set_pressure_threshold :: "u64 \<Rightarrow> sasy_state \<Rightarrow> sasy_state" where
  "sasy_set_pressure_threshold bytes s = s\<lparr>pressure_threshold := bytes\<rparr>"

section \<open>Processes\<close>

definition sasy_load_code :: "cstr option \<Rightarrow> u32 \<Rightarrow> sasy_state \<Rightarrow> (u32 \<times> sasy_state) option" where
  "sasy_load_code path owner_pid s =
     (case path of
        None \<Rightarrow> Some (INVALID_HANDLE, s)
      | Some p \<Rightarrow>
          let hash = loader_hash_file path
          in case loader_find_code hash s of
               Some i \<Rightarrow>
                 do {
                   (h, s) \<leftarrow> handle_alloc (Some i) owner_pid (upd_seg i (\<lambda>g. g\<lparr>seg_refcnt := seg_refcnt g + 1\<rparr>) s);
                   Some (h, seg_klog (Log ''[SEG] Sharing existing code segment'') s)
                 }
             | None \<Rightarrow>
                 do {
                   (h, s) \<leftarrow> sasy_create_ex (of_nat PAGE_SIZE) SEG_CODE (SEG_FLAGS_RX OR SEG_FLAG_SHARED) owner_pid s;
                   if h = INVALID_HANDLE then Some (INVALID_HANDLE, s)
                   else
                     case handle_get_segment h s of
                       None \<Rightarrow> Some (h, s)
                     | Some i \<Rightarrow>
                         do {
                           (e, s) \<leftarrow> loader_load_code i p (upd_seg i (\<lambda>g. g\<lparr>seg_code_hash := hash\<rparr>) s);
                           if e \<noteq> 0 then do { s \<leftarrow> sasy_free h s; Some (INVALID_HANDLE, s) }
                           else Some (h, loader_register_code i s)
                         }
                 })"

definition sasy_create_heap :: "u32 \<Rightarrow> u64 \<Rightarrow> sasy_state \<Rightarrow> (u32 \<times> sasy_state) option" where
  "sasy_create_heap pid initial_size s = sasy_create_ex initial_size SEG_DATA_AUTO (SEG_FLAGS_USER_RW OR SEG_FLAG_ZEROED) pid s"

definition sasy_create_stack :: "u32 \<Rightarrow> u64 \<Rightarrow> sasy_state \<Rightarrow> (u32 \<times> sasy_state) option" where
  "sasy_create_stack pid sz s =
     sasy_create_ex sz SEG_DATA_INST (SEG_FLAGS_USER_RW OR SEG_FLAG_ZEROED OR SEG_FLAG_NOSWAP) pid s"

definition sasy_clone :: "u32 \<Rightarrow> u32 \<Rightarrow> sasy_state \<Rightarrow> (u32 \<times> sasy_state) option" where
  "sasy_clone h new_pid s =
     (if \<not> handle_valid h s then Some (INVALID_HANDLE, s)
      else
        case handle_get_segment h s of
          None \<Rightarrow> Some (INVALID_HANDLE, s)
        | Some i \<Rightarrow>
            if seg_ty (segments s i) = SEG_CODE then handle_dup h new_pid s
            else
              do {
                (new_h, s) \<leftarrow> sasy_create_ex (seg_size (segments s i)) (seg_ty (segments s i)) (seg_flags (segments s i)) new_pid s;
                if new_h = INVALID_HANDLE then Some (INVALID_HANDLE, s)
                else
                  case handle_get_segment new_h s of
                    None \<Rightarrow> do { s \<leftarrow> sasy_free new_h s; Some (INVALID_HANDLE, s) }
                  | Some j \<Rightarrow>
                      do {
                        (src, s) \<leftarrow> sasy_lock h s;
                        (dst, s) \<leftarrow> sasy_lock new_h s;
                        let s = (if src \<noteq> 0 \<and> dst \<noteq> 0 then mem_copy dst src (unat (seg_size (segments s i))) s else s);
                        s \<leftarrow> sasy_unlock new_h s;
                        s \<leftarrow> sasy_unlock h s;
                        Some (new_h, seg_klog (Log ''[SEG] Segment cloned for process'') s)
                      }
              })"

section \<open>Statistics and lookup\<close>

record seg_statistics =
  total_segments :: u32
  resident_segments :: u32
  swapped_segments :: u32
  locked_segments :: u32
  total_virtual_bytes :: u64
  total_physical_bytes :: u64
  total_swapped_bytes :: u64

definition count_segment :: "segment \<Rightarrow> seg_statistics \<Rightarrow> seg_statistics" where
  "count_segment g t =
     (if seg_id g = 0 then t
      else
        let t = t\<lparr>total_segments := total_segments t + 1, total_virtual_bytes := total_virtual_bytes t + seg_size g\<rparr>;
            t = (if seg_present g
                 then t\<lparr>resident_segments := resident_segments t + 1, total_physical_bytes := total_physical_bytes t + seg_size g\<rparr> else t);
            t = (if seg_swap_id g \<noteq> 0
                 then t\<lparr>swapped_segments := swapped_segments t + 1, total_swapped_bytes := total_swapped_bytes t + seg_size g\<rparr> else t)
        in if seg_locked g > 0 then t\<lparr>locked_segments := locked_segments t + 1\<rparr> else t)"

definition sasy_get_stats :: "sasy_state \<Rightarrow> seg_statistics" where
  "sasy_get_stats s =
     for_range 0 MAX_SEGMENTS (\<lambda>i t. count_segment (segments s i) t)
       \<lparr>total_segments = 0, resident_segments = 0, swapped_segments = 0, locked_segments = 0,
        total_virtual_bytes = 0, total_physical_bytes = 0, total_swapped_bytes = 0\<rparr>"

definition sasy_dump :: "sasy_state \<Rightarrow> sasy_state" where
  "sasy_dump s = seg_klog (Log ''[SEG] Segment table dump:'') s"

definition check_segment :: "segment \<Rightarrow> int \<times> sasy_state \<Rightarrow> int \<times> sasy_state" where
  "check_segment g es =
     (if seg_id g = 0 then es
      else
        let es = (if seg_present g \<and> seg_phys g = 0 \<and> seg_ty g \<noteq> SEG_PHYSICAL
                  then (fst es + 1, seg_klog (Error ''[SEG] Segment present but no phys'') (snd es)) else es)
        in if seg_locked g > 0 \<and> \<not> seg_present g
           then (fst es + 1, seg_klog (Error ''[SEG] Segment locked but not present'') (snd es)) else es)"

definition sasy_check :: "sasy_state \<Rightarrow> int \<times> sasy_state" where
  "sasy_check s = for_range 0 MAX_SEGMENTS (\<lambda>i. check_segment (segments s i)) (0, s)"

definition sasy_is_segment_addr :: "u64 \<Rightarrow> bool" where
  "sasy_is_segment_addr addr \<longleftrightarrow> addr \<ge> SASY_BASE_ADDR \<and> addr < SASY_BASE_ADDR + SASY_MAX_SIZE"

definition sasy_find_segment :: "u64 \<Rightarrow> sasy_state \<Rightarrow> nat option" where
  "sasy_find_segment addr s =
     (if \<not> sasy_is_segment_addr addr then None
      else find_from (\<lambda>i. seg_id (segments s i) \<noteq> 0 \<and> addr \<ge> seg_base (segments s i) \<and>
             addr < seg_base (segments s i) + seg_size (segments s i)) 0 MAX_SEGMENTS)"

definition loader_handle_fault :: "u64 \<Rightarrow> sasy_state \<Rightarrow> (int \<times> sasy_state) option" where
  "loader_handle_fault fault_addr s =
     (if \<not> sasy_is_segment_addr fault_addr then Some (-1, s)
      else
        case sasy_find_segment fault_addr s of
          None \<Rightarrow> Some (-1, seg_klog (Error ''[LOAD] Page fault: segment not found'') s)
        | Some i \<Rightarrow>
            do {
              (r, s) \<leftarrow> sasy_pagein i s;
              Some (r, if r = 0 then seg_klog (Log ''[LOAD] Demand page-in successful'') s else s)
            })"

end
