(* ===== verification/Sasy_Space.thy ===== *)
theory Sasy_Space
  imports Sasy
begin

text \<open>
  The address space of the segments: which steps leave the layout alone, the invariant of the segment
  table and the handles, and that every history keeps it. Paging and swapping move data and never
  the layout.
\<close>

section \<open>Steps that keep the layout\<close>

definition shape :: "segment \<Rightarrow> u32 \<times> seg_type \<times> u64 \<times> u64 \<times> u32 \<times> u64" where
  "shape g = (seg_id g, seg_ty g, seg_base g, seg_size g, seg_refcnt g, seg_code_hash g)"

definition same_layout :: "sasy_state \<Rightarrow> sasy_state \<Rightarrow> bool" where
  "same_layout s s' \<longleftrightarrow> (\<forall>i. shape (segments s' i) = shape (segments s i)) \<and> handles s' = handles s \<and> handle_count s' = handle_count s \<and>
     next_handle s' = next_handle s \<and> code_registry s' = code_registry s \<and> next_segment_base s' = next_segment_base s \<and> next_segment_id s' = next_segment_id s"

lemma layout_refl [simp]: "same_layout s s"
  by (simp add: same_layout_def)

lemma layout_trans: "same_layout s t \<Longrightarrow> same_layout t u \<Longrightarrow> same_layout s u"
  by (simp add: same_layout_def)

lemma layout_seg: "(\<And>g. shape (f g) = shape g) \<Longrightarrow> same_layout s (upd_seg i f s)"
  by (simp add: same_layout_def upd_seg_def)

lemma layout_basic [simp]:
  "same_layout s (seg_klog e s)" "same_layout s (s\<lparr>seg_vmm := v\<rparr>)" "same_layout s (s\<lparr>ram := m\<rparr>)" "same_layout s (s\<lparr>g_bfs := d\<rparr>)"
  "same_layout s (s\<lparr>swap_stats := st\<rparr>)" "same_layout s (s\<lparr>next_swap_block := b\<rparr>)" "same_layout s (s\<lparr>swap_table := t\<rparr>)" "same_layout s (s\<lparr>swap_entry_count := n\<rparr>)"
  "same_layout s (s\<lparr>swap_table := t, next_swap_block := b, swap_entry_count := n, swap_stats := st\<rparr>)"
  "same_layout s (upd_seg i (\<lambda>g. g\<lparr>seg_phys := p\<rparr>) s)" "same_layout s (upd_seg i (\<lambda>g. g\<lparr>seg_present := x\<rparr>) s)"
  "same_layout s (upd_seg i (\<lambda>g. g\<lparr>seg_swap_id := w\<rparr>) s)" "same_layout s (upd_seg i (\<lambda>g. g\<lparr>seg_dirty := x\<rparr>) s)"
  "same_layout s (upd_seg i (\<lambda>g. g\<lparr>seg_locked := lk g\<rparr>) s)"
  by (simp_all add: same_layout_def seg_klog_def upd_seg_def shape_def)

lemmas layout_after = layout_trans [OF _ layout_basic(1)] layout_trans [OF _ layout_basic(2)] layout_trans [OF _ layout_basic(4)]
  layout_trans [OF _ layout_basic(5)] layout_trans [OF _ layout_basic(10)] layout_trans [OF _ layout_basic(11)] layout_trans [OF _ layout_basic(12)]

lemma layout_mem_write: "same_layout s (mem_write v bs s)"
proof (induction bs arbitrary: v s)
  case (Cons b bs)
  have "same_layout s (poke v b s)" by (simp add: poke_def)
  then show ?case using Cons [of "poke v b s" "v + 1"] layout_trans by simp
qed simp

lemma layout_mem_copy: "same_layout s (mem_copy d v n s)"
proof (induction n arbitrary: d v s)
  case (Suc n)
  have "same_layout s (poke d (peek v s) s)" by (simp add: poke_def)
  then show ?case using Suc [of "poke d (peek v s) s" "d + 1" "v + 1"] layout_trans by simp
qed simp

text \<open>Steps that change the page tables, the frames and the log only.\<close>

definition moves :: "sasy_state \<Rightarrow> sasy_state \<Rightarrow> bool" where
  "moves s s' \<longleftrightarrow> (\<exists>v l. s' = s\<lparr>seg_log := l, seg_vmm := v\<rparr>)"

lemma moves_basic [simp]: "moves s (seg_klog e s)" "moves s (s\<lparr>seg_vmm := v\<rparr>)" "moves s s"
proof -
  show "moves s (seg_klog e s)" unfolding moves_def seg_klog_def by (intro exI [of _ "seg_vmm s"] exI [of _ "seg_log s @ [e]"]) simp
  show "moves s (s\<lparr>seg_vmm := v\<rparr>)" unfolding moves_def by (intro exI [of _ v] exI [of _ "seg_log s"]) simp
  show "moves s s" unfolding moves_def by (intro exI [of _ "seg_vmm s"] exI [of _ "seg_log s"]) simp
qed

lemma moves_trans: "moves s t \<Longrightarrow> moves t u \<Longrightarrow> moves s u"
proof -
  assume "moves s t" "moves t u"
  then obtain v l w m where "t = s\<lparr>seg_log := l, seg_vmm := v\<rparr>" "u = t\<lparr>seg_log := m, seg_vmm := w\<rparr>" by (auto simp: moves_def)
  then show ?thesis unfolding moves_def by (intro exI [of _ w] exI [of _ m]) simp
qed

lemma moves_layout: "moves s s' \<Longrightarrow> same_layout s s'"
  by (auto simp: moves_def same_layout_def)

lemma moves_free_page: "moves s (free_page p s)"
  by (simp add: free_page_def)

lemma moves_give_pages: "moves s (give_pages first n s)"
  unfolding give_pages_def by (rule for_range_inv) (auto intro: moves_trans moves_free_page)

lemma moves_take_pages: "take_pages tag n i first s = Some (r, s') \<Longrightarrow> moves s s'"
proof (induction tag n i first s rule: take_pages.induct)
  case (2 tag n i first s)
  obtain page m where p: "pmm_alloc_page (vmm_mm (seg_vmm s)) = Some (page, m)"
    using "2.prems" by (auto split: bind_splits)
  let ?s = "s\<lparr>seg_vmm := (seg_vmm s)\<lparr>vmm_mm := m\<rparr>\<rparr>"
  have g: "moves s (give_pages first i (seg_klog e ?s))" for e
    by (rule moves_trans [OF _ moves_give_pages]) (rule moves_trans [OF moves_basic(2) moves_basic(1)])
  have "moves s (free_page page (give_pages first i (seg_klog e ?s)))" for e by (rule moves_trans [OF g moves_free_page])
  then show ?case using "2.prems" "2.IH"(1,2) [OF p refl refl] p g moves_trans [OF moves_basic(2)]
    by (auto simp: Let_def split: if_splits)
qed simp

lemma moves_unmap_one: "unmap_one v s = Some s' \<Longrightarrow> moves s s'"
  by (auto simp: unmap_one_def split: bind_splits)

lemma moves_unmap_pages: "unmap_pages virt j n s = Some s' \<Longrightarrow> moves s s'"
proof (induction virt j n s rule: unmap_pages.induct)
  case (2 virt j n s)
  obtain t where t: "unmap_one (virt + of_nat j * of_nat PAGE_SIZE) s = Some t"
    using "2.prems" by (auto split: bind_splits)
  have "moves t s'" using "2.IH" [OF t] "2.prems" t by simp
  then show ?case using moves_unmap_one [OF t] moves_trans by blast
qed simp

lemma moves_map_pages: "map_pages tag virt phys flags pgs n i s = Some (ok, s') \<Longrightarrow> moves s s'"
proof (induction n arbitrary: i s)
  case (Suc n)
  let ?v = "virt + of_nat i * of_nat PAGE_SIZE" and ?p = "phys + of_nat i * of_nat PAGE_SIZE"
  obtain w p where w: "vmm_map ?v ?p flags (seg_vmm s) = Some w" "vmm_translate ?v w = Some p"
    using Suc.prems by (auto simp: Let_def split: bind_splits)
  let ?s = "s\<lparr>seg_vmm := w\<rparr>"
  show ?case
  proof (cases "p = ?p")
    case True
    then show ?thesis using Suc.IH [of "Suc i" ?s] Suc.prems w moves_trans [OF moves_basic(2)] by (simp add: Let_def)
  next
    case False
    then obtain t where t: "unmap_pages virt 0 (Suc i) (seg_klog (Error (tag @ '' Virtual mapping failed'')) ?s) = Some t" "s' = give_pages phys pgs t"
      using Suc.prems w by (auto simp: Let_def simp del: unmap_pages.simps split: bind_splits)
    have "moves s t" by (rule moves_trans [OF _ moves_unmap_pages [OF t(1)]]) (rule moves_trans [OF moves_basic(2) moves_basic(1)])
    then show ?thesis using t(2) moves_give_pages moves_trans by blast
  qed
qed simp

lemma moves_unmap_range:
  assumes "unmap_range a e s = Some s'"
  shows "moves s s'"
proof (rule unmap_range.raw_induct [where P = "\<lambda>a e s s'. moves s s'", OF _ assms])
  fix f a e s y
  assume IH: "\<And>a e s y. f a e s = Some y \<Longrightarrow> moves s y"
    and y: "(if a < e then case unmap_one a s of None \<Rightarrow> None | Some s \<Rightarrow> f (a + of_nat PAGE_SIZE) e s else Some s) = Some y"
  show "moves s y"
  proof (cases "a < e")
    case True
    then obtain t where "unmap_one a s = Some t" "f (a + of_nat PAGE_SIZE) e t = Some y" using y by (auto split: option.splits)
    then show ?thesis using IH moves_unmap_one moves_trans by blast
  qed (use y in simp)
qed

lemma moves_shrink_pages: "shrink_pages b p j n s = Some s' \<Longrightarrow> moves s s'"
proof (induction b p j n s rule: shrink_pages.induct)
  case (2 base phys j n s)
  obtain t where t: "unmap_one (base + of_nat j * of_nat PAGE_SIZE) s = Some t" using "2.prems" by (auto split: bind_splits)
  have "moves (free_page (phys + of_nat j * of_nat PAGE_SIZE) t) s'" using "2.IH" [OF t] "2.prems" t by simp
  then show ?case using moves_unmap_one [OF t] moves_free_page moves_trans by blast
qed simp

lemmas layout_free_page = moves_layout [OF moves_free_page]
lemmas layout_give_pages = moves_layout [OF moves_give_pages]
lemmas layout_take_pages = moves_layout [OF moves_take_pages]
lemmas layout_unmap_one = moves_layout [OF moves_unmap_one]
lemmas layout_unmap_pages = moves_layout [OF moves_unmap_pages]
lemmas layout_map_pages = moves_layout [OF moves_map_pages]
lemmas layout_unmap_range = moves_layout [OF moves_unmap_range]
lemmas layout_shrink_pages = moves_layout [OF moves_shrink_pages]

section \<open>Paging keeps the layout\<close>

lemma layout_swap_alloc: "same_layout s (snd (swap_alloc sz s))"
  by (simp add: swap_alloc_def Let_def split: option.split)

lemma layout_swap_free: "same_layout s (swap_free w s)"
  by (auto simp: swap_free_def Let_def same_layout_def split: option.split)

lemma layout_swap_reserve: "same_layout s (swap_reserve i s)"
  using layout_swap_alloc [of s "seg_size (segments s i)"] layout_trans [OF _ layout_basic(12)]
  by (auto simp: swap_reserve_def Let_def split: prod.split)

lemma layout_drop_pages:
  assumes "drop_pages i s = Some s'"
  shows "same_layout s s'"
proof -
  obtain t where t: "unmap_range (seg_base (segments s i)) (seg_base (segments s i) + seg_size (segments s i)) s = Some t"
    "s' = (if seg_phys (segments s i) \<noteq> 0
       then upd_seg i (\<lambda>g. g\<lparr>seg_phys := 0\<rparr>) (give_pages (seg_phys (segments s i)) (seg_pages (segments s i)) t) else t)"
    using assms by (auto simp: drop_pages_def Let_def split: bind_splits)
  have "same_layout t s'" using layout_trans [OF layout_give_pages layout_basic(10)] t(2) by simp
  then show ?thesis using layout_unmap_range [OF t(1)] layout_trans by blast
qed

lemma layout_swap_out:
  assumes "swap_out i s = Some (r, s')"
  shows "same_layout s s'"
proof -
  let ?s = "swap_reserve i s"
  have k: "same_layout s ?s" by (rule layout_swap_reserve)
  then have l: "same_layout s (seg_klog e ?s)" for e by (rule layout_after)
  define d where "d = dev_write (swap_offset i ?s) (mem_read (seg_base (segments ?s i)) (unat (seg_size (segments ?s i))) ?s) (g_bfs ?s)"
  have b: "same_layout s (?s\<lparr>g_bfs := snd d\<rparr>)" using k by (rule layout_after)
  consider "s' = s" | e where "s' = seg_klog e s" | e where "s' = seg_klog e ?s" | e where "s' = seg_klog e (?s\<lparr>g_bfs := snd d\<rparr>)"
    | t e st where "drop_pages i (?s\<lparr>g_bfs := snd d\<rparr>) = Some t"
        "s' = seg_klog e ((upd_seg i (\<lambda>g. g\<lparr>seg_present := False\<rparr>) t)\<lparr>swap_stats := st\<rparr>)"
    using assms by (auto simp: swap_out_def Let_def d_def split: if_splits prod.splits bind_splits)
  then show ?thesis
  proof cases
    case (5 t e st)
    have "same_layout s t" using b layout_drop_pages [OF 5(1)] layout_trans by blast
    then show ?thesis unfolding 5(2) by (intro layout_after)
  qed (use l layout_after(1) [OF b] in simp_all)
qed

lemma layout_swap_read: "swap_read i s = (r, s') \<Longrightarrow> same_layout s s'"
proof -
  assume r: "swap_read i s = (r, s')"
  have w: "same_layout s (seg_klog e (swap_free x (upd_seg i (\<lambda>g. g\<lparr>seg_swap_id := 0\<rparr>) ((mem_write v bs s)\<lparr>swap_stats := st\<rparr>))))" for e x v bs st
    by (rule layout_after(1), rule layout_trans [OF _ layout_swap_free]) (intro layout_after layout_mem_write)
  show "same_layout s s'" using r w by (auto simp: swap_read_def Let_def split: if_splits option.splits)
qed

lemma layout_swap_schedule: "swap_schedule i s = Some s' \<Longrightarrow> same_layout s s'"
  by (auto simp: swap_schedule_def dest: layout_swap_out split: if_splits bind_splits)

text \<open>The common part of \<open>sasy_map_now\<close> and \<open>sasy_pagein\<close>.\<close>

lemma layout_take_map:
  assumes "take_pages tag n j f s = Some (r, t)" and "map_pages tag2 v p fl pgs m k (upd_seg i (\<lambda>g. g\<lparr>seg_phys := q\<rparr>) t) = Some (ok, u)"
  shows "same_layout s u"
  using layout_take_pages [OF assms(1)] layout_basic(10) layout_map_pages [OF assms(2)] layout_trans by blast

lemma layout_map_now:
  assumes "sasy_map_now i s = Some (r, s')"
  shows "same_layout s s'"
proof -
  obtain q t where t: "take_pages ''[SEG]'' (seg_pages (segments s i)) 0 0 s = Some (q, t)"
    using assms by (auto simp: sasy_map_now_def Let_def split: bind_splits)
  show ?thesis
  proof (cases q)
    case None
    then show ?thesis using assms t layout_take_pages [OF t] by (simp add: sasy_map_now_def Let_def)
  next
    case (Some first)
    obtain ok u where u: "map_pages ''[SEG]'' (seg_base (segments s i)) first (map_flags (seg_flags (segments s i)))
        (seg_pages (segments s i)) (seg_pages (segments s i)) 0 (upd_seg i (\<lambda>g. g\<lparr>seg_phys := first\<rparr>) t) = Some (ok, u)"
      using assms t Some by (auto simp: sasy_map_now_def Let_def split: bind_splits)
    have k: "same_layout s u" by (rule layout_take_map [OF t u])
    have "same_layout s (mem_write v bs u)" for v bs using k layout_mem_write layout_trans by blast
    then show ?thesis using assms t Some u k layout_after(6)
      by (auto simp: sasy_map_now_def Let_def split: if_splits)
  qed
qed

lemma layout_pagein:
  assumes "sasy_pagein i s = Some (r, s')"
  shows "same_layout s s'"
proof (cases "seg_present (segments s i)")
  case True
  then show ?thesis using assms by (simp add: sasy_pagein_def)
next
  case np: False
  obtain q t where t: "take_pages ''[LOAD]'' (seg_pages (segments s i)) 0 0 s = Some (q, t)"
    using assms np by (auto simp: sasy_pagein_def Let_def split: bind_splits)
  show ?thesis
  proof (cases q)
    case None
    then show ?thesis using assms np t layout_take_pages [OF t] by (simp add: sasy_pagein_def Let_def)
  next
    case (Some first)
    obtain ok u where u: "map_pages ''[LOAD]'' (seg_base (segments s i)) first (map_flags (seg_flags (segments s i)))
        (seg_pages (segments s i)) (seg_pages (segments s i)) 0 (upd_seg i (\<lambda>g. g\<lparr>seg_phys := first\<rparr>) t) = Some (ok, u)"
      using assms np t Some by (auto simp: sasy_pagein_def Let_def split: bind_splits)
    have k: "same_layout s u" by (rule layout_take_map [OF t u])
    have m: "same_layout s (mem_write v bs u)" for v bs using k layout_mem_write layout_trans by blast
    have w: "same_layout s (snd (swap_read i u))" using k layout_swap_read [of i u] layout_trans by (metis prod.collapse)
    have fin: "same_layout s (seg_klog e (upd_seg i (\<lambda>g. g\<lparr>seg_present := True\<rparr>) x))" if "same_layout s x" for e x
      using that by (intro layout_after)
    have log: "same_layout s (seg_klog e x)" if "same_layout s x" for e x using that by (rule layout_after)
    show ?thesis using assms np t Some u k m w fin log layout_after(5) [OF k]
      by (auto simp: sasy_pagein_def Let_def split: if_splits prod.splits)
  qed
qed

lemma layout_pageout:
  assumes "sasy_pageout i s = Some (r, s')"
  shows "same_layout s s'"
proof -
  have "same_layout s (seg_klog e (upd_seg i (\<lambda>g. g\<lparr>seg_present := False\<rparr>) t))" if "drop_pages i s = Some t" for e t
    using layout_drop_pages [OF that] by (intro layout_after)
  then show ?thesis using assms by (auto simp: sasy_pageout_def Let_def dest: layout_swap_out split: if_splits bind_splits)
qed

text \<open>The registry of code segments is the loader's own.\<close>

lemma loader_fields [simp]:
  "segments (loader_register_code i s) = segments s" "segments (loader_unregister_code i s) = segments s"
  "handles (loader_register_code i s) = handles s" "handles (loader_unregister_code i s) = handles s"
  "handle_count (loader_register_code i s) = handle_count s" "handle_count (loader_unregister_code i s) = handle_count s"
  "next_handle (loader_register_code i s) = next_handle s" "next_handle (loader_unregister_code i s) = next_handle s"
  "next_segment_base (loader_register_code i s) = next_segment_base s" "next_segment_base (loader_unregister_code i s) = next_segment_base s"
  by (simp_all add: loader_register_code_def loader_unregister_code_def Let_def split: option.split)

lemma layout_load_code:
  assumes "loader_load_code i path s = Some (r, s')" and "seg_code_hash (segments s i) = loader_hash_file (Some path)"
  shows "same_layout s s'"
  using assms by (auto simp: loader_load_code_def same_layout_def shape_def upd_seg_def seg_klog_def split: bind_splits if_splits)

lemma layout_for_segments:
  assumes "\<And>i s s'. f i s = Some s' \<Longrightarrow> same_layout s s'"
  shows "for_segments f is s = Some s' \<Longrightarrow> same_layout s s'"
proof (induction "is" arbitrary: s)
  case (Cons i "is")
  obtain t where t: "(if seg_id (segments s i) = 0 then Some s else f i s) = Some t" "for_segments f is t = Some s'"
    using Cons.prems by (auto split: bind_splits)
  have "same_layout s t" using t(1) assms by (auto split: if_splits)
  then show ?case using Cons.IH [OF t(2)] layout_trans by blast
qed simp

lemma layout_pressure:
  assumes "sasy_pressure s = Some s'"
  shows "same_layout s s'"
proof -
  obtain t where t: "for_segments (\<lambda>i s.
         let g = segments s i
         in if seg_flags g AND SEG_FLAG_DISCARD \<noteq> 0 \<and> seg_locked g = 0 \<and> \<not> seg_dirty g \<and> seg_refcnt g = 0
            then do { (r, s) \<leftarrow> sasy_pageout i s; Some s } else Some s)
         [0..<MAX_SEGMENTS] (seg_klog (Warn ''[SEG] Memory pressure triggered'') s) = Some t"
    "for_segments (\<lambda>i s. if swap_can_swap i s then do { (r, s) \<leftarrow> swap_out i s; Some s } else Some s) [0..<MAX_SEGMENTS] t = Some s'"
    using assms by (auto simp: sasy_pressure_def split: bind_splits)
  have "same_layout (seg_klog (Warn ''[SEG] Memory pressure triggered'') s) t"
    by (rule layout_for_segments [OF _ t(1)]) (auto simp: Let_def dest: layout_pageout split: if_splits bind_splits)
  moreover have "same_layout t s'"
    by (rule layout_for_segments [OF _ t(2)]) (auto dest: layout_swap_out split: if_splits bind_splits)
  ultimately show ?thesis using layout_basic(1) layout_trans by blast
qed

end
