(* ===== verification/Sasy_Correct.thy ===== *)
theory Sasy_Correct
  imports Sasy_Space
begin

text \<open>
  The invariant of the segment manager and the histories that keep it: live segments occupy ranges of
  addresses that stay apart, and every handle refers to a live segment that counts it.
\<close>

section \<open>The invariant\<close>

definition live :: "sasy_state \<Rightarrow> nat \<Rightarrow> bool" where
  "live s i \<longleftrightarrow> i < MAX_SEGMENTS \<and> seg_id (segments s i) \<noteq> 0"

definition seg_end :: "segment \<Rightarrow> nat" where
  "seg_end g = unat (seg_base g) + unat (seg_size g)"

definition in_window :: "u64 \<Rightarrow> segment \<Rightarrow> bool" where
  "in_window nb g \<longleftrightarrow> SASY_BASE_ADDR \<le> seg_base g \<and> seg_end g \<le> unat nb \<and> seg_end g < unat (SASY_BASE_ADDR + SASY_MAX_SIZE) \<and>
     unat (seg_base g) mod PAGE_SIZE = 0 \<and> unat (seg_size g) mod PAGE_SIZE = 0"

definition apart :: "segment \<Rightarrow> segment \<Rightarrow> bool" where
  "apart g g' \<longleftrightarrow> seg_end g \<le> unat (seg_base g') \<or> seg_end g' \<le> unat (seg_base g)"

lemma apart_mono:
  "apart g k \<Longrightarrow> seg_end g' \<le> seg_end g \<Longrightarrow> seg_base g' = seg_base g \<Longrightarrow> seg_end k' \<le> seg_end k \<Longrightarrow> seg_base k' = seg_base k \<Longrightarrow> apart g' k'"
  by (auto simp: apart_def)

definition refs :: "sasy_state \<Rightarrow> nat \<Rightarrow> nat set" where
  "refs s i = {h \<in> used_slots s. h_seg (handles s h) = Some i}"

definition layout_ok :: "sasy_state \<Rightarrow> bool" where
  "layout_ok s \<longleftrightarrow> (\<forall>i. live s i \<longrightarrow> in_window (next_segment_base s) (segments s i)) \<and>
     (\<forall>i j. live s i \<longrightarrow> live s j \<longrightarrow> i \<noteq> j \<longrightarrow> apart (segments s i) (segments s j)) \<and>
     unat (next_segment_base s) mod PAGE_SIZE = 0 \<and> SASY_BASE_ADDR \<le> next_segment_base s"

definition refs_ok :: "sasy_state \<Rightarrow> bool" where
  "refs_ok s \<longleftrightarrow> (\<forall>h \<in> used_slots s. \<exists>i. h_seg (handles s h) = Some i \<and> live s i) \<and>
     (\<forall>i. live s i \<longrightarrow> card (refs s i) \<le> unat (seg_refcnt (segments s i)))"

definition sasy_ok :: "sasy_state \<Rightarrow> bool" where
  "sasy_ok s \<longleftrightarrow> handles_inv s \<and> layout_ok s \<and> refs_ok s"

lemma shape_parts:
  assumes "shape g' = shape g"
  shows "seg_id g' = seg_id g" "seg_base g' = seg_base g" "seg_size g' = seg_size g" "seg_refcnt g' = seg_refcnt g" "seg_ty g' = seg_ty g"
    "seg_end g' = seg_end g" "in_window nb g' = in_window nb g" "seg_code_hash g' = seg_code_hash g"
  using assms by (simp_all add: shape_def seg_end_def in_window_def)

lemma layout_parts:
  assumes "same_layout s s'"
  shows "live s' = live s" "used_slots s' = used_slots s" "refs s' = refs s" "handles_inv s' = handles_inv s"
    "\<And>i. in_window nb (segments s' i) = in_window nb (segments s i)" "\<And>i j. apart (segments s' i) (segments s' j) = apart (segments s i) (segments s j)"
    "\<And>i. seg_refcnt (segments s' i) = seg_refcnt (segments s i)" "next_segment_base s' = next_segment_base s" "handles s' = handles s"
proof -
  have sh: "shape (segments s' i) = shape (segments s i)" for i using assms by (simp add: same_layout_def)
  show "live s' = live s" using shape_parts(1) [OF sh] by (simp add: live_def fun_eq_iff)
  show u: "used_slots s' = used_slots s" and h: "handles s' = handles s" using assms by (auto simp: same_layout_def used_slots_def)
  show "refs s' = refs s" using u h by (simp add: refs_def fun_eq_iff)
  show "handles_inv s' = handles_inv s" using u assms by (simp add: same_layout_def handles_inv_def)
  show "in_window nb (segments s' i) = in_window nb (segments s i)" for i by (rule shape_parts(7) [OF sh])
  show "apart (segments s' i) (segments s' j) = apart (segments s i) (segments s j)" for i j
    using shape_parts(2,6) [OF sh] by (simp add: apart_def)
  show "seg_refcnt (segments s' i) = seg_refcnt (segments s i)" for i by (rule shape_parts(4) [OF sh])
  show "next_segment_base s' = next_segment_base s" using assms by (simp add: same_layout_def)
qed

lemma ok_layout: "same_layout s s' \<Longrightarrow> sasy_ok s \<Longrightarrow> sasy_ok s'"
  by (simp add: sasy_ok_def layout_ok_def refs_ok_def layout_parts)

lemma finite_refs [simp]: "finite (refs s i)"
  by (simp add: refs_def)

lemma refs_dead: "sasy_ok s \<Longrightarrow> \<not> live s i \<Longrightarrow> refs s i = {}"
  by (auto simp: sasy_ok_def refs_ok_def refs_def)

section \<open>Single changes\<close>

lemma live_upd: "live (upd_seg i f s) j \<longleftrightarrow> (if j = i then i < MAX_SEGMENTS \<and> seg_id (f (segments s i)) \<noteq> 0 else live s j)"
  by (auto simp: live_def upd_seg_def)

lemma upd_seg_handles [simp]:
  "handles (upd_seg i f s) = handles s" "used_slots (upd_seg i f s) = used_slots s" "refs (upd_seg i f s) = refs s"
  "handles_inv (upd_seg i f s) = handles_inv s" "next_segment_base (upd_seg i f s) = next_segment_base s"
  "segments (upd_seg i f s) = (segments s)(i := f (segments s i))" "next_segment_id (upd_seg i f s) = next_segment_id s"
  "code_registry (upd_seg i f s) = code_registry s"
  by (simp_all add: upd_seg_def used_slots_def refs_def handles_inv_def fun_eq_iff)

text \<open>Dropping a segment no handle refers to.\<close>

lemma ok_drop:
  assumes "sasy_ok s" and "refs s i = {}"
  shows "sasy_ok (upd_seg i (\<lambda>_. null_segment) s)"
proof -
  let ?s = "upd_seg i (\<lambda>_. null_segment) s"
  have l: "live ?s j \<longleftrightarrow> j \<noteq> i \<and> live s j" for j by (simp add: live_upd null_segment_def)
  have "h_seg (handles s h) \<noteq> Some i" if "h \<in> used_slots s" for h using assms(2) that by (auto simp: refs_def)
  then have "refs_ok ?s" using assms(1) unfolding sasy_ok_def refs_ok_def l by (fastforce simp: refs_def)
  moreover have "layout_ok ?s" using assms(1) unfolding sasy_ok_def layout_ok_def l by simp
  ultimately show ?thesis using assms(1) by (simp add: sasy_ok_def)
qed

lemma ok_free_segment:
  assumes "sasy_ok s" and "refs s i = {}"
  shows "sasy_ok (free_segment i s)"
proof -
  let ?t = "upd_seg i (\<lambda>_. null_segment) s"
  have "same_layout ?t (free_segment i s)" by (simp add: free_segment_def same_layout_def Let_def)
  then show ?thesis using ok_drop [OF assms] ok_layout by blast
qed

lemma ok_refcnt:
  assumes "sasy_ok s" and "card (refs s i) \<le> unat (seg_refcnt (f (segments s i)))"
    and "\<And>g. seg_id (f g) = seg_id g \<and> seg_base (f g) = seg_base g \<and> seg_size (f g) = seg_size g"
  shows "sasy_ok (upd_seg i f s)"
proof -
  let ?s = "upd_seg i f s"
  have l: "live ?s = live s" using assms(3) by (auto simp: fun_eq_iff live_upd live_def)
  have w: "in_window nb (segments ?s j) = in_window nb (segments s j)" "apart (segments ?s j) (segments ?s k) = apart (segments s j) (segments s k)" for j k nb
    using assms(3) by (simp_all add: in_window_def apart_def seg_end_def)
  have "layout_ok ?s" using assms(1) unfolding sasy_ok_def layout_ok_def l w by simp
  moreover have "refs_ok ?s" using assms(1,2) unfolding sasy_ok_def refs_ok_def l by simp
  ultimately show ?thesis using assms(1) by (simp add: sasy_ok_def)
qed

text \<open>A new handle for a live segment that has a reference to spare.\<close>

lemma ok_handle_alloc:
  assumes ok: "sasy_ok s" and l: "live s i" and c: "card (refs s i) < unat (seg_refcnt (segments s i))"
    and a: "handle_alloc (Some i) pid s = Some (h, s')"
  shows "sasy_ok s'" and "segments s' = segments s" and "next_segment_base s' = next_segment_base s" "next_segment_id s' = next_segment_id s"
    and "h = INVALID_HANDLE \<longrightarrow> refs s' = refs s" and "h \<noteq> INVALID_HANDLE \<longrightarrow> handle_get_segment h s' = Some i"
    and "\<And>h'. handle_get_segment h' s \<noteq> None \<Longrightarrow> handle_get_segment h' s' = handle_get_segment h' s"
proof -
  have inv: "handles_inv s" using ok by (simp add: sasy_ok_def)
  have o: "handle_obtain (i, pid) s = (if h = INVALID_HANDLE then None else Some h, s')" using a by (simp add: handle_obtain_def)
  have inv': "handles_inv s'" using handle_table.alloc_inv [OF inv, of "(i, pid)"] o by simp
  have all: "sasy_ok s' \<and> segments s' = segments s \<and> next_segment_base s' = next_segment_base s \<and> next_segment_id s' = next_segment_id s \<and>
    (h = INVALID_HANDLE \<longrightarrow> refs s' = refs s) \<and> (h \<noteq> INVALID_HANDLE \<longrightarrow> handle_get_segment h s' = Some i) \<and>
    (\<forall>h'. handle_get_segment h' s \<noteq> None \<longrightarrow> handle_get_segment h' s' = handle_get_segment h' s)"
  proof (cases rule: handle_alloc_cases [OF inv, of i pid])
    case 1
    then have "same_layout s s'" "s' = seg_klog (Error ''[HANDLE] No free handles available'') s" "h = INVALID_HANDLE" using a by simp_all
    then show ?thesis using ok ok_layout [of s s'] layout_parts [of s s'] by (simp add: seg_klog_def handle_get_segment_def)
  next
    case (2 k)
    have h: "h = k" and s': "s' = (set_handle h \<lparr>h_seg = Some i, h_refs = 1, h_owner_pid = pid, h_valid = True\<rparr> s)
        \<lparr>handle_count := handle_count s + 1, next_handle := (h + 1) mod of_nat MAX_HANDLES\<rparr>" using a 2(3) by auto
    have ne: "h \<noteq> INVALID_HANDLE" using 2(1) h bad_handle_INVALID by (auto simp: bad_handle_iff)
    have seg: "segments s' = segments s" "next_segment_base s' = next_segment_base s" "next_segment_id s' = next_segment_id s"
      "handles s' = (handles s)(unat h := \<lparr>h_seg = Some i, h_refs = 1, h_owner_pid = pid, h_valid = True\<rparr>)"
      by (simp_all add: s' set_handle_def)
    have us: "used_slots s' = insert (unat h) (used_slots s)" using 2(1) h by (auto simp: used_slots_def seg(4))
    have lv: "live s' = live s" by (simp add: live_def seg fun_eq_iff)
    have rf: "refs s' j = (if j = i then insert (unat h) (refs s j) else refs s j)" for j
      using 2(2) h by (auto simp: refs_def us seg(4))
    have "card (refs s' j) \<le> unat (seg_refcnt (segments s j))" if "live s j" for j
      using that c ok rf by (auto simp: sasy_ok_def refs_ok_def intro: le_trans [OF card_insert_le_m1] card_insert_if)
    then have "refs_ok s'" using ok l unfolding sasy_ok_def refs_ok_def lv us seg by auto
    moreover have "layout_ok s'" using ok unfolding sasy_ok_def layout_ok_def lv seg by simp
    moreover have "handle_get_segment h s' = Some i" using 2(1) h by (simp add: handle_get_segment_def bad_handle_iff seg(4))
    moreover have "handle_get_segment h' s' = handle_get_segment h' s" if "handle_get_segment h' s \<noteq> None" for h'
      using that 2(1,2) h by (auto simp: handle_get_segment_def used_slots_def seg(4) split: if_splits)
    ultimately show ?thesis using seg inv' ne by (simp add: sasy_ok_def)
  qed
  then show "sasy_ok s'" "segments s' = segments s" "next_segment_base s' = next_segment_base s" "next_segment_id s' = next_segment_id s"
    "h = INVALID_HANDLE \<longrightarrow> refs s' = refs s" "h \<noteq> INVALID_HANDLE \<longrightarrow> handle_get_segment h s' = Some i"
    "\<And>h'. handle_get_segment h' s \<noteq> None \<Longrightarrow> handle_get_segment h' s' = handle_get_segment h' s" by blast+
qed

section \<open>Creating\<close>

lemma align_up_page:
  assumes "unat sz + 4095 < 2 ^ 64"
  shows "unat (align_up sz (of_nat PAGE_SIZE)) mod PAGE_SIZE = 0" and "unat (align_up sz (of_nat PAGE_SIZE)) \<le> unat sz + 4095"
    and "unat sz \<le> unat (align_up sz (of_nat PAGE_SIZE))"
proof -
  have "unat (ALIGN_UP sz 4096) = (unat sz + 4095) div 4096 * 4096" using assms by (intro unat_align_up) simp
  then have e: "unat (align_up sz (of_nat PAGE_SIZE)) = (unat sz + 4095) div 4096 * 4096"
    by (simp add: align_up_def ALIGN_UP_def PAGE_SIZE_def)
  show "unat (align_up sz (of_nat PAGE_SIZE)) mod PAGE_SIZE = 0" unfolding e by (simp add: PAGE_SIZE_def)
  show "unat (align_up sz (of_nat PAGE_SIZE)) \<le> unat sz + 4095" unfolding e by linarith
  show "unat sz \<le> unat (align_up sz (of_nat PAGE_SIZE))" unfolding e by linarith
qed

text \<open>A request that wraps neither the address counter nor the identifiers.\<close>

definition no_wrap :: "u64 \<Rightarrow> sasy_state \<Rightarrow> bool" where
  "no_wrap sz s \<longleftrightarrow> unat (next_segment_base s) + unat sz + 4095 < 2 ^ 64 \<and> next_segment_id s \<noteq> 0"

text \<open>Moving the address counter past free addresses.\<close>

lemma ok_bump:
  assumes "sasy_ok s" and "SASY_BASE_ADDR \<le> nb" and "unat (next_segment_base s) \<le> unat nb" and "unat nb mod PAGE_SIZE = 0"
  shows "sasy_ok (s\<lparr>next_segment_base := nb\<rparr>)"
proof -
  let ?s = "s\<lparr>next_segment_base := nb\<rparr>"
  have l: "live ?s = live s" "used_slots ?s = used_slots s" "refs ?s = refs s" "handles_inv ?s = handles_inv s"
    by (simp_all add: live_def used_slots_def refs_def handles_inv_def fun_eq_iff)
  have "in_window nb (segments s i)" if "live s i" for i
    using assms(1,3) that unfolding sasy_ok_def layout_ok_def in_window_def by (meson le_trans)
  then have "layout_ok ?s" using assms unfolding sasy_ok_def layout_ok_def l by simp
  then show ?thesis using assms(1) l by (simp add: sasy_ok_def refs_ok_def)
qed

text \<open>A new segment behind all others.\<close>

lemma ok_new:
  assumes ok: "sasy_ok s" and i: "\<not> live s i" "i < MAX_SEGMENTS"
    and f: "in_window (next_segment_base s) (f (segments s i))" "\<And>j. live s j \<Longrightarrow> seg_end (segments s j) \<le> unat (seg_base (f (segments s i)))"
  shows "sasy_ok (upd_seg i f s)"
proof -
  let ?s = "upd_seg i f s"
  have l: "live ?s j \<Longrightarrow> j = i \<or> live s j" for j using i by (auto simp: live_upd split: if_splits)
  have "in_window (next_segment_base s) (segments ?s j)" if "live ?s j" for j
    using l [OF that] f(1) ok i(1) by (auto simp: sasy_ok_def layout_ok_def)
  moreover have "apart (segments ?s j) (segments ?s k)" if "live ?s j" "live ?s k" "j \<noteq> k" for j k
    using l [OF that(1)] l [OF that(2)] that(3) f(2) ok i(1) by (auto simp: sasy_ok_def layout_ok_def apart_def)
  ultimately have "layout_ok ?s" using ok by (auto simp: sasy_ok_def layout_ok_def)
  moreover have "refs_ok ?s"
  proof -
    have "refs s i = {}" by (rule refs_dead [OF ok i(1)])
    then have "h_seg (handles s h) \<noteq> Some i" if "h \<in> used_slots s" for h using that by (auto simp: refs_def)
    then show ?thesis using ok l \<open>refs s i = {}\<close> unfolding sasy_ok_def refs_ok_def live_upd by (fastforce simp: live_def)
  qed
  ultimately show ?thesis using ok by (simp add: sasy_ok_def)
qed

lemma alloc_segment_cases:
  obtains (full) "alloc_segment s = (None, s)"
  | (slot) i where "i < MAX_SEGMENTS" "\<not> live s i"
      "alloc_segment s = (Some i, (upd_seg i (\<lambda>g. g\<lparr>seg_id := next_segment_id s\<rparr>) s)
         \<lparr>next_segment_id := next_segment_id s + 1, segment_count := segment_count s + 1\<rparr>)"
proof (cases "find_from (\<lambda>i. seg_id (segments s i) = 0) 0 MAX_SEGMENTS")
  case None
  then show thesis by (intro full) (simp add: alloc_segment_def)
next
  case (Some i)
  then have "i < MAX_SEGMENTS" "seg_id (segments s i) = 0" by (simp_all add: find_from_Some_iff)
  then show thesis using Some by (intro slot [of i]) (simp_all add: alloc_segment_def live_def)
qed

text \<open>The state in which a segment has been entered, and what \<open>sasy_create_ex\<close> does from there.\<close>

definition entered :: "nat \<Rightarrow> u64 \<Rightarrow> seg_type \<Rightarrow> u32 \<Rightarrow> sasy_state \<Rightarrow> sasy_state" where
  "entered i sz ty flags s =
     (upd_seg i (\<lambda>g. g\<lparr>seg_id := next_segment_id s, seg_size := sz, seg_ty := ty, seg_flags := flags, seg_refcnt := 1, seg_locked := 0,
        seg_present := False, seg_dirty := False, seg_shared := (ty = SEG_CODE), seg_swap_id := 0,
        seg_code_hash := 0, seg_base := next_segment_base s\<rparr>) s)
     \<lparr>next_segment_id := next_segment_id s + 1, segment_count := segment_count s + 1, next_segment_base := next_segment_base s + sz\<rparr>"

lemma create_from_slot:
  fixes ty :: seg_type and flags :: u32
  assumes "sz \<noteq> 0" and "i < MAX_SEGMENTS" and "alloc_segment s = (Some i, (upd_seg i (\<lambda>g. g\<lparr>seg_id := next_segment_id s\<rparr>) s)
         \<lparr>next_segment_id := next_segment_id s + 1, segment_count := segment_count s + 1\<rparr>)"
  defines "t \<equiv> entered i (align_up sz (of_nat PAGE_SIZE)) ty flags s"
  shows "sasy_create_ex sz ty flags pid s =
    (if next_segment_base t \<ge> SASY_BASE_ADDR + SASY_MAX_SIZE
     then Some (INVALID_HANDLE, seg_klog (Error ''[SEG] Segment space exhausted'') (free_segment i t))
     else
       do {
         (e, s) \<leftarrow> (if ty = SEG_FIXED \<or> ty = SEG_PHYSICAL then sasy_map_now i t else Some (0, t));
         if e \<noteq> 0 then Some (INVALID_HANDLE, free_segment i s)
         else
           do {
             (h, s) \<leftarrow> handle_alloc (Some i) pid s;
             if h = INVALID_HANDLE
             then Some (INVALID_HANDLE, seg_klog (Error ''[SEG] Failed to allocate handle'') (free_segment i s))
             else Some (h, seg_klog (Log ''[SEG] Created segment'') s)
           }
       })"
proof -
  let ?a = "(upd_seg i (\<lambda>g. g\<lparr>seg_id := next_segment_id s\<rparr>) s)\<lparr>next_segment_id := next_segment_id s + 1, segment_count := segment_count s + 1\<rparr>"
  let ?z = "align_up sz (of_nat PAGE_SIZE)"
  have t: "(upd_seg i (\<lambda>g. g\<lparr>seg_size := ?z, seg_ty := ty, seg_flags := flags, seg_refcnt := 1, seg_locked := 0,
      seg_present := False, seg_dirty := False, seg_shared := (ty = SEG_CODE), seg_swap_id := 0,
      seg_code_hash := 0, seg_base := next_segment_base ?a\<rparr>) ?a)\<lparr>next_segment_base := next_segment_base ?a + ?z\<rparr> = t"
    by (simp add: t_def entered_def upd_seg_def)
  have b: "next_segment_base (upd_seg i f ?a) = next_segment_base ?a" for f by simp
  show ?thesis using assms(1) unfolding sasy_create_ex_def assms(3) Let_def prod.case option.case b t by simp
qed

lemma ok_cong:
  assumes "segments s' = segments s" "handles s' = handles s" "handle_count s' = handle_count s" "next_handle s' = next_handle s"
    "next_segment_base s' = next_segment_base s"
  shows "sasy_ok s' = sasy_ok s" and "live s' = live s" and "refs s' = refs s"
proof -
  show l: "live s' = live s" and r: "refs s' = refs s" using assms by (simp_all add: live_def refs_def used_slots_def fun_eq_iff)
  have "used_slots s' = used_slots s" using assms by (simp add: used_slots_def)
  then show "sasy_ok s' = sasy_ok s" using assms l r by (simp add: sasy_ok_def layout_ok_def refs_ok_def handles_inv_def)
qed

lemma entered_fields [simp]:
  "handles (entered i sz ty flags s) = handles s" "handle_count (entered i sz ty flags s) = handle_count s"
  "next_handle (entered i sz ty flags s) = next_handle s" "next_segment_base (entered i sz ty flags s) = next_segment_base s + sz"
  "seg_base (segments (entered i sz ty flags s) i) = next_segment_base s" "seg_size (segments (entered i sz ty flags s) i) = sz"
  "seg_refcnt (segments (entered i sz ty flags s) i) = 1" "seg_id (segments (entered i sz ty flags s) i) = next_segment_id s"
  "seg_ty (segments (entered i sz ty flags s) i) = ty" "j \<noteq> i \<Longrightarrow> segments (entered i sz ty flags s) j = segments s j"
  by (simp_all add: entered_def) (simp_all add: upd_seg_def)

lemma free_segment_fields:
  "segments (free_segment i s) = (segments s)(i := null_segment)" "handles (free_segment i s) = handles s"
  "handle_count (free_segment i s) = handle_count s" "next_handle (free_segment i s) = next_handle s"
  "next_segment_base (free_segment i s) = next_segment_base s"
  by (simp_all add: free_segment_def Let_def upd_seg_def)

lemma ok_entered:
  fixes ty :: seg_type and flags :: u32
  assumes ok: "sasy_ok s" and i: "\<not> live s i" "i < MAX_SEGMENTS" and nw: "no_wrap sz s"
  defines "t \<equiv> entered i (align_up sz (of_nat PAGE_SIZE)) ty flags s"
  shows "sasy_ok (free_segment i t)" and "\<not> next_segment_base t \<ge> SASY_BASE_ADDR + SASY_MAX_SIZE \<Longrightarrow> sasy_ok t" and "refs t = refs s"
proof -
  let ?z = "align_up sz (of_nat PAGE_SIZE)" and ?nb = "next_segment_base s + align_up sz (of_nat PAGE_SIZE)"
  have z: "unat ?z mod PAGE_SIZE = 0" "unat ?z \<le> unat sz + 4095" using align_up_page [of sz] nw by (simp_all add: no_wrap_def)
  have nb: "unat ?nb = unat (next_segment_base s) + unat ?z" using z(2) nw by (simp add: no_wrap_def unat_word_ariths)
  have sp: "unat (next_segment_base s) mod PAGE_SIZE = 0" "SASY_BASE_ADDR \<le> next_segment_base s"
    "\<And>j. live s j \<Longrightarrow> seg_end (segments s j) \<le> unat (next_segment_base s)"
    using ok by (simp_all add: sasy_ok_def layout_ok_def in_window_def)
  have "SASY_BASE_ADDR \<le> ?nb" using sp(2) nb by (simp add: word_le_nat_alt)
  moreover have "unat ?nb mod PAGE_SIZE = 0" unfolding nb using sp(1) z(1) by (simp add: mod_add_eq [symmetric])
  ultimately have b: "sasy_ok (s\<lparr>next_segment_base := ?nb\<rparr>)" using ok_bump [OF ok] nb by simp
  let ?s = "s\<lparr>next_segment_base := ?nb\<rparr>"
  have l: "live ?s = live s" "refs ?s = refs s" by (simp_all add: live_def refs_def used_slots_def fun_eq_iff)
  show "refs t = refs s" by (simp add: refs_def used_slots_def t_def fun_eq_iff)
  have "sasy_ok (upd_seg i (\<lambda>_. null_segment) ?s)" by (rule ok_drop [OF b]) (use refs_dead [OF ok i(1)] l in simp)
  then show "sasy_ok (free_segment i t)"
    by (rule iffD2 [OF ok_cong(1), rotated -1]) (auto simp: free_segment_fields t_def fun_eq_iff upd_seg_def)
  assume lim: "\<not> next_segment_base t \<ge> SASY_BASE_ADDR + SASY_MAX_SIZE"
  have "sasy_ok (upd_seg i (\<lambda>_. segments t i) ?s)"
  proof (rule ok_new [OF b])
    show "\<not> live ?s i" "i < MAX_SEGMENTS" using i l by simp_all
    show "in_window (next_segment_base ?s) (segments t i)"
      using sp(1,2) z(1) nb lim by (simp add: in_window_def seg_end_def t_def word_le_nat_alt not_le)
    show "seg_end (segments ?s j) \<le> unat (seg_base (segments t i))" if "live ?s j" for j
      using sp(3) [of j] that l by (simp add: t_def)
  qed
  then show "sasy_ok t" by (rule iffD2 [OF ok_cong(1), rotated -1]) (auto simp: t_def fun_eq_iff upd_seg_def)
qed

text \<open>What a successful creation gives.\<close>

definition seg_created :: "nat \<Rightarrow> u64 \<Rightarrow> seg_type \<Rightarrow> sasy_state \<Rightarrow> sasy_state \<Rightarrow> bool" where
  "seg_created i sz ty s s' \<longleftrightarrow> \<not> live s i \<and> live s' i \<and> seg_base (segments s' i) = next_segment_base s \<and>
     seg_size (segments s' i) = align_up sz (of_nat PAGE_SIZE) \<and> seg_refcnt (segments s' i) = 1 \<and> seg_ty (segments s' i) = ty \<and>
     (\<forall>j. j \<noteq> i \<longrightarrow> shape (segments s' j) = shape (segments s j)) \<and>
     (\<forall>h. handle_get_segment h s \<noteq> None \<longrightarrow> handle_get_segment h s' = handle_get_segment h s)"

lemma seg_created_klog [simp]: "seg_created i sz ty s (seg_klog e t) = seg_created i sz ty s t" "handle_get_segment h (seg_klog e t) = handle_get_segment h t"
  by (simp_all add: seg_created_def seg_klog_def live_def handle_get_segment_def)

lemma create_ok:
  assumes ok: "sasy_ok s" and nw: "no_wrap sz s" and c: "sasy_create_ex sz ty flags pid s = Some (h, s')"
  shows "sasy_ok s' \<and> (h \<noteq> INVALID_HANDLE \<longrightarrow> (\<exists>i. handle_get_segment h s' = Some i \<and> seg_created i sz ty s s'))"
proof (cases "sz = 0")
  case True
  then show ?thesis using c ok by (simp add: sasy_create_ex_def)
next
  case sz: False
  show ?thesis
  proof (cases rule: alloc_segment_cases [of s])
    case full
    then show ?thesis using c ok sz ok_layout [OF layout_basic(1)] by (auto simp: sasy_create_ex_def)
  next
    case (slot i)
    define t where "t = entered i (align_up sz (of_nat PAGE_SIZE)) ty flags s"
    note cr = create_from_slot [OF sz slot(1,3), of ty flags pid, folded t_def]
    note oe = ok_entered [OF ok slot(2,1) nw, of ty flags, folded t_def]
    show ?thesis
    proof (cases "next_segment_base t \<ge> SASY_BASE_ADDR + SASY_MAX_SIZE")
      case True
      then show ?thesis using c cr ok_layout [OF layout_basic(1) oe(1)] by auto
    next
      case lim: False
      obtain e u where u: "(if ty = SEG_FIXED \<or> ty = SEG_PHYSICAL then sasy_map_now i t else Some (0, t)) = Some (e, u)"
        using c lim unfolding cr by (auto split: bind_splits)
      have k: "same_layout t u" using u by (auto dest: layout_map_now split: if_splits)
      have uo: "sasy_ok u" using ok_layout [OF k oe(2) [OF lim]] .
      have ru: "refs u i = {}" using layout_parts(3) [OF k] oe(3) refs_dead [OF ok slot(2)] by simp
      show ?thesis
      proof (cases "e = 0")
        case False
        then show ?thesis using c lim u ok_free_segment [OF uo ru] unfolding cr by simp
      next
        case True
        obtain h' v where v: "handle_alloc (Some i) pid u = Some (h', v)"
          using c lim u True unfolding cr by (auto split: bind_splits)
        have lt: "live t i" using slot(1) nw by (simp add: t_def live_def no_wrap_def)
        have sh: "shape (segments u j) = shape (segments t j)" for j using k by (simp add: same_layout_def)
        have lu: "live u i" "card (refs u i) < unat (seg_refcnt (segments u i))"
          using lt layout_parts(1,7) [OF k] ru by (simp_all add: t_def)
        note ha = ok_handle_alloc [OF uo lu v]
        have "handle_get_segment k u = handle_get_segment k s" for k using k by (simp add: same_layout_def handle_get_segment_def t_def)
        then have cre: "seg_created i sz ty s v"
          using slot(2) lu(1) shape_parts [OF sh [of i]] sh ha(7)
          by (simp add: seg_created_def ha(2) live_def t_def)
        show ?thesis
        proof (cases "h' = INVALID_HANDLE")
          case True
          then have "refs v i = {}" using ha(5) ru by simp
          from ok_layout [OF layout_basic(1) ok_free_segment [OF ha(1) this]]
          show ?thesis using c lim u \<open>e = 0\<close> v True unfolding cr by auto
        next
          case False
          then have "h = h'" "s' = seg_klog (Log ''[SEG] Created segment'') v" using c lim u \<open>e = 0\<close> v unfolding cr by auto
          moreover have "handle_get_segment h' v = Some i" using ha(6) False by simp
          ultimately show ?thesis using ok_layout [OF layout_basic(1) ha(1)] cre by auto
        qed
      qed
    qed
  qed
qed

section \<open>The other calls\<close>

lemma unat_inc: "r \<noteq> - 1 \<Longrightarrow> unat (r + 1 :: u32) = unat r + 1"
  using unatSuc [of r] by (simp add: add.commute eq_neg_iff_add_eq_0)

lemma handle_get_cong: "handles u = handles t \<Longrightarrow> handle_get_segment h u = handle_get_segment h t"
  by (simp add: handle_get_segment_def)

lemma handle_refers:
  assumes "handle_get_segment h s = Some i"
  shows "unat h \<in> used_slots s" and "h_seg (handles s (unat h)) = Some i" and "unat h \<in> refs s i" and "handle_valid h s"
  using assms by (auto simp: handle_get_segment_def used_slots_def refs_def bad_handle_iff handle_valid_def split: if_splits)

lemma handle_live: "sasy_ok s \<Longrightarrow> handle_get_segment h s = Some i \<Longrightarrow> live s i"
  using handle_refers [of h s i] by (auto simp: sasy_ok_def refs_ok_def)

lemma layout_handle: "same_layout s s' \<Longrightarrow> handle_get_segment h s' = handle_get_segment h s" "same_layout s s' \<Longrightarrow> handle_valid h s' = handle_valid h s"
  by (simp_all add: handle_get_segment_def handle_valid_def same_layout_def)

lemma lock_ok:
  assumes ok: "sasy_ok s" and rc: "\<And>i. handle_get_segment h s = Some i \<Longrightarrow> seg_refcnt (segments s i) \<noteq> - 1"
    and l: "sasy_lock h s = Some (a, s')"
  shows "sasy_ok s' \<and> handles s' = handles s \<and> next_segment_base s' = next_segment_base s \<and> next_segment_id s' = next_segment_id s \<and>
    code_registry s' = code_registry s \<and>
    (\<forall>j. seg_id (segments s' j) = seg_id (segments s j) \<and> seg_ty (segments s' j) = seg_ty (segments s j) \<and>
      seg_code_hash (segments s' j) = seg_code_hash (segments s j) \<and> seg_size (segments s' j) = seg_size (segments s j) \<and>
      (handle_get_segment h s \<noteq> Some j \<longrightarrow> seg_refcnt (segments s' j) = seg_refcnt (segments s j)) \<and>
      seg_refcnt (segments s' j) \<in> {seg_refcnt (segments s j), seg_refcnt (segments s j) + 1})"
proof (cases "handle_get_segment h s")
  case None
  then show ?thesis using l ok by (auto simp: sasy_lock_def split: if_splits)
next
  case (Some i)
  note hv = handle_refers(4) [OF Some]
  obtain e u where u: "(if \<not> seg_present (segments s i) then sasy_pagein i s else Some (0, s)) = Some (e, u)"
    using l Some hv by (auto simp: sasy_lock_def split: bind_splits)
  have k: "same_layout s u" using u by (auto dest: layout_pagein split: if_splits)
  have sh: "shape (segments u j) = shape (segments s j)" for j using k by (simp add: same_layout_def)
  have rcu: "seg_refcnt (segments u i) \<noteq> - 1" using rc [OF Some] shape_parts(4) [OF sh] by simp
  let ?f = "\<lambda>g. g\<lparr>seg_locked := seg_locked g + 1, seg_refcnt := seg_refcnt g + 1\<rparr>"
  have uo: "sasy_ok u" by (rule ok_layout [OF k ok])
  have "live u i" using handle_live [OF ok Some] layout_parts(1) [OF k] by simp
  then have "card (refs u i) \<le> unat (seg_refcnt (segments u i))" using uo by (simp add: sasy_ok_def refs_ok_def)
  also have "\<dots> \<le> unat (seg_refcnt (segments u i) + 1)"
    using unat_inc [OF rcu] by simp
  finally have r: "sasy_ok (upd_seg i ?f u)" by (intro ok_refcnt [OF uo]) simp_all
  have s': "s' = (if e \<noteq> 0 then seg_klog (Error ''[SEG] Failed to page in segment'') u else upd_seg i ?f u)"
    using l Some hv u by (auto simp: sasy_lock_def Let_def split: if_splits)
  have "sasy_ok s'" using s' r ok_layout [OF layout_basic(1) uo] by simp
  then show ?thesis using s' Some k shape_parts [OF sh] by (auto simp: seg_klog_def same_layout_def)
qed

lemma unlock_layout:
  assumes "sasy_unlock h s = Some s'"
  shows "same_layout s s'"
proof (cases "handle_get_segment h s")
  case None
  then show ?thesis using assms by (auto simp: sasy_unlock_def split: if_splits)
next
  case (Some i)
  define u where "u = (if seg_locked (segments s i) > 0 then upd_seg i (\<lambda>g. g\<lparr>seg_locked := seg_locked g - 1\<rparr>) s else s)"
  have "same_layout s u" by (simp add: u_def)
  moreover have "same_layout u s'"
    using assms Some handle_refers(4) [OF Some] layout_swap_schedule [of i u s']
    by (auto simp: sasy_unlock_def Let_def u_def [symmetric] split: if_splits)
  ultimately show ?thesis by (rule layout_trans)
qed

text \<open>The parts of \<open>release_segment\<close>: only the registry and the descriptor change the layout.\<close>

definition unregistered :: "nat \<Rightarrow> sasy_state \<Rightarrow> sasy_state" where
  "unregistered i s = (if seg_ty (segments s i) = SEG_CODE \<and> seg_code_hash (segments s i) \<noteq> 0 then loader_unregister_code i s else s)"

lemma release_steps:
  assumes d: "release_segment i s = Some s'"
  obtains v where "same_layout s v" "s' = seg_klog (Log ''[SEG] Segment freed'') (free_segment i (unregistered i v))"
proof -
  let ?g = "segments s i"
  obtain t where t: "(if seg_present ?g then unmap_range (seg_base ?g) (seg_base ?g + seg_size ?g) s else Some s) = Some t"
    using d by (auto simp: release_segment_def Let_def split: bind_splits)
  define u where "u = (if seg_phys ?g \<noteq> 0 then give_pages (seg_phys ?g) (seg_pages ?g) t else t)"
  define v where "v = (if seg_swap_id ?g \<noteq> 0 then swap_free (seg_swap_id ?g) u else u)"
  define w where "w = (if seg_ty ?g = SEG_CODE \<and> seg_code_hash ?g \<noteq> 0 then loader_unregister_code i v else v)"
  have eq: "s' = seg_klog (Log ''[SEG] Segment freed'') (free_segment i w)"
    using d t unfolding release_segment_def Let_def by (simp only: bind.bind_lunit option.inject u_def [symmetric] v_def [symmetric] w_def [symmetric])
  have "same_layout s t" using t by (auto dest: layout_unmap_range split: if_splits)
  moreover have "same_layout t u" by (simp add: u_def layout_give_pages)
  moreover have "same_layout u v" by (simp add: v_def layout_swap_free)
  ultimately have k: "same_layout s v" using layout_trans by blast
  then have "shape (segments v i) = shape ?g" by (simp add: same_layout_def)
  from shape_parts [OF this] have "w = unregistered i v" by (simp add: w_def unregistered_def)
  then show thesis using that k eq by blast
qed

lemma release_ok:
  assumes ok: "sasy_ok s" and r: "refs s i = {}" and d: "release_segment i s = Some s'"
  shows "sasy_ok s'"
proof -
  obtain v where k: "same_layout s v" and eq: "s' = seg_klog (Log ''[SEG] Segment freed'') (free_segment i (unregistered i v))"
    by (rule release_steps [OF d])
  have "sasy_ok (unregistered i v) = sasy_ok v" "refs (unregistered i v) = refs v" by (rule ok_cong; simp add: unregistered_def)+
  then show ?thesis using eq ok_layout [OF layout_basic(1) ok_free_segment] ok_layout [OF k ok] layout_parts(3) [OF k] r by simp
qed

text \<open>A handle is closed and its reference given back.\<close>

lemma unref_ok:
  assumes ok: "sasy_ok s" and h: "handle_get_segment h s = Some i"
  defines "u \<equiv> handle_free h (if seg_refcnt (segments s i) > 0 then upd_seg i (\<lambda>g. g\<lparr>seg_refcnt := seg_refcnt g - 1\<rparr>) s else s)"
  shows "sasy_ok u" and "seg_refcnt (segments u i) = 0 \<Longrightarrow> refs u i = {}"
proof -
  note hr = handle_refers [OF h]
  have l: "live s i" by (rule handle_live [OF ok h])
  have "refs s i \<noteq> {}" using hr(3) by auto
  then have c: "0 < card (refs s i)" by (simp add: card_gt_0_iff)
  then have pos: "0 < unat (seg_refcnt (segments s i))" using ok l by (force simp: sasy_ok_def refs_ok_def)
  then have gt: "seg_refcnt (segments s i) > 0" by (simp add: word_less_nat_alt)
  let ?t = "upd_seg i (\<lambda>g. g\<lparr>seg_refcnt := seg_refcnt g - 1\<rparr>) s"
  have u: "u = handle_free h ?t" using gt by (simp add: u_def)
  have inv: "handles_inv ?t" "unat h \<in> used_slots ?t" using ok hr(1) by (simp_all add: sasy_ok_def)
  note hf = handle_free_live [OF inv]
  have us: "used_slots u = used_slots s - {unat h}" using hf(2) by (simp add: u)
  have nb: "\<not> bad_handle h" "h_valid (handles s (unat h))" using hr(1) by (auto simp: used_slots_def bad_handle_iff)
  have seg: "segments u = segments ?t" "next_segment_base u = next_segment_base s" "handles u = (handles s)(unat h := null_handle)"
    using nb by (simp_all add: u handle_free_def set_handle_def Let_def)
  have lv: "live u = live s" by (auto simp: live_def seg(1) fun_eq_iff)
  have rf: "refs u j = refs s j - {unat h}" for j by (auto simp: refs_def us seg(3))
  have rc: "unat (seg_refcnt (segments u i)) = unat (seg_refcnt (segments s i)) - 1" using gt by (simp add: seg(1) unat_minus_one pos word_neq_0_conv)
  have ci: "card (refs u i) = card (refs s i) - 1" using hr(3) by (simp add: rf)
  have wa: "in_window n (segments u j) = in_window n (segments s j)" "apart (segments u j) (segments u k) = apart (segments s j) (segments s k)" for n j k
    by (simp_all add: seg(1) in_window_def apart_def seg_end_def)
  have "layout_ok u" using ok unfolding sasy_ok_def layout_ok_def lv wa seg(2) by simp
  moreover have "card (refs u j) \<le> unat (seg_refcnt (segments u j))" if "live s j" for j
  proof (cases "j = i")
    case True
    have "card (refs s i) \<le> unat (seg_refcnt (segments s i))" using ok l by (simp add: sasy_ok_def refs_ok_def)
    then show ?thesis using True ci rc by simp
  next
    case False
    have "card (refs u j) \<le> card (refs s j)" by (simp add: rf card_mono)
    also have "\<dots> \<le> unat (seg_refcnt (segments u j))" using ok that False by (simp add: sasy_ok_def refs_ok_def seg(1))
    finally show ?thesis .
  qed
  then have "refs_ok u" using ok unfolding sasy_ok_def refs_ok_def lv us seg(3) by auto
  moreover have "handles_inv u" using hf(1) by (simp add: u)
  ultimately show "sasy_ok u" by (simp add: sasy_ok_def)
  assume "seg_refcnt (segments u i) = 0"
  then have "card (refs u i) = 0" using \<open>refs_ok u\<close> l lv by (force simp: refs_ok_def)
  then show "refs u i = {}" by simp
qed

lemma free_ok:
  assumes ok: "sasy_ok s" and f: "sasy_free h s = Some s'"
  shows "sasy_ok s'"
proof (cases "handle_get_segment h s")
  case None
  then show ?thesis using f ok by (auto simp: sasy_free_def split: if_splits)
next
  case (Some i)
  define u where "u = handle_free h (if seg_refcnt (segments s i) > 0 then upd_seg i (\<lambda>g. g\<lparr>seg_refcnt := seg_refcnt g - 1\<rparr>) s else s)"
  note uo = unref_ok [OF ok Some, folded u_def]
  have "(if seg_refcnt (segments u i) = 0 then release_segment i u else Some u) = Some s'"
    using f handle_refers(4) [OF Some] unfolding sasy_free_def Some option.case Let_def u_def by (simp only: not_True_eq_False if_False)
  then show ?thesis using uo release_ok [of u i s'] by (auto split: if_splits)
qed

lemma resize_cases:
  assumes r: "sasy_resize h n s = Some (e, s')"
  obtains (same) "same_layout s s'"
  | (sized) i u where "handle_get_segment h s = Some i" "same_layout s u"
      "s' = seg_klog (Log ''[SEG] Segment resized'') (upd_seg i (\<lambda>g. g\<lparr>seg_size := align_up n (of_nat PAGE_SIZE)\<rparr>) u)"
proof (cases "handle_get_segment h s")
  case None
  then show thesis using r that(1) by (auto simp: sasy_resize_def split: if_splits)
next
  case (Some i)
  note hv = handle_refers(4) [OF Some]
  let ?g = "segments s i" and ?n = "align_up n (of_nat PAGE_SIZE)"
  let ?k = "unat (?n div of_nat PAGE_SIZE)"
  show thesis
  proof (cases "seg_locked ?g > 0 \<or> seg_ty ?g = SEG_FIXED \<or> seg_ty ?g = SEG_PHYSICAL \<or> ?n = seg_size ?g \<or> ?n > seg_size ?g \<and> seg_present ?g")
    case True
    then show thesis using r hv that(1) by (auto simp: sasy_resize_def Some Let_def split: if_splits)
  next
    case False
    obtain u where u: "(if \<not> ?n > seg_size ?g \<and> seg_present ?g then shrink_pages (seg_base ?g) (seg_phys ?g) ?k (seg_pages ?g - ?k) s else Some s) = Some u"
      "s' = seg_klog (Log ''[SEG] Segment resized'') (upd_seg i (\<lambda>g. g\<lparr>seg_size := ?n\<rparr>) u)"
      using r hv False by (auto simp: sasy_resize_def Some Let_def split: if_splits bind_splits)
    have "same_layout s u" using u(1) by (auto dest: layout_shrink_pages split: if_splits)
    then show thesis using u(2) that(2) Some by blast
  qed
qed

lemma shrink_ok:
  assumes ok: "sasy_ok s" and n: "n \<le> sasy_get_size h s" and r: "sasy_resize h n s = Some (e, s')"
  shows "sasy_ok s'"
proof (cases rule: resize_cases [OF r])
  case 1
  then show ?thesis using ok ok_layout by blast
next
  case (2 i v)
  note Some = 2(1)
  note hv = handle_refers(4) [OF Some]
  let ?g = "segments s i" and ?n = "align_up n (of_nat PAGE_SIZE)"
  have l: "live s i" by (rule handle_live [OF ok Some])
  then have w: "in_window (next_segment_base s) ?g" using ok by (simp add: sasy_ok_def layout_ok_def)
  have le: "unat n \<le> unat (seg_size ?g)" using n Some hv by (simp add: sasy_get_size_def word_le_nat_alt)
  have small: "unat (seg_size ?g) + 4095 < 2 ^ 64" using w by (simp add: in_window_def seg_end_def SASY_BASE_ADDR_def SASY_MAX_SIZE_def)
  then have a: "unat ?n mod PAGE_SIZE = 0" "unat ?n \<le> unat n + 4095" using align_up_page [of n] le by simp_all
  have nle: "unat ?n \<le> unat (seg_size ?g)"
  proof -
    obtain k q where k: "unat ?n = PAGE_SIZE * k" "unat (seg_size ?g) = PAGE_SIZE * q"
      using a(1) w by (auto simp: in_window_def mod_eq_0_iff_dvd elim!: dvdE)
    have "PAGE_SIZE * k \<le> PAGE_SIZE * q + 4095" using k a(2) le by linarith
    then have "k \<le> q" by (simp add: PAGE_SIZE_def)
    then show ?thesis using k by simp
  qed
  have upd: "sasy_ok (upd_seg i (\<lambda>g. g\<lparr>seg_size := ?n\<rparr>) u)" if k: "same_layout s u" for u
  proof -
    let ?u = "upd_seg i (\<lambda>g. g\<lparr>seg_size := ?n\<rparr>) u"
    have uo: "sasy_ok u" by (rule ok_layout [OF k ok])
    have sh: "shape (segments u j) = shape (segments s j)" for j using k by (simp add: same_layout_def)
    have lu: "live ?u = live u" by (auto simp: live_upd live_def fun_eq_iff)
    have e: "seg_end (segments ?u j) \<le> seg_end (segments u j)" "seg_base (segments ?u j) = seg_base (segments u j)" for j
      using nle shape_parts(3) [OF sh [of i]] by (simp_all add: seg_end_def)
    have "in_window (next_segment_base u) (segments ?u j)" if "live u j" for j
    proof -
      have "in_window (next_segment_base u) (segments u j)" using uo that by (simp add: sasy_ok_def layout_ok_def)
      then show ?thesis using e [of j] a(1) by (auto simp: in_window_def)
    qed
    moreover have "apart (segments ?u j) (segments ?u k)" if "live u j" "live u k" "j \<noteq> k" for j k
    proof -
      have "apart (segments u j) (segments u k)" using uo that by (simp add: sasy_ok_def layout_ok_def)
      then show ?thesis by (rule apart_mono [OF _ e(1,2) e(1,2)])
    qed
    ultimately have "layout_ok ?u" using uo unfolding sasy_ok_def layout_ok_def lu by simp
    moreover have "refs_ok ?u" using uo unfolding sasy_ok_def refs_ok_def lu by simp
    ultimately show ?thesis using uo by (simp add: sasy_ok_def)
  qed
  show ?thesis unfolding 2(3) by (rule ok_layout [OF layout_basic(1) upd [OF 2(2)]])
qed

text \<open>Duplicating the handle of a code segment, and cloning any other.\<close>

lemma handle_alloc_upd: "handle_alloc g pid (upd_seg i f s) = map_option (map_prod id (upd_seg i f)) (handle_alloc g pid s)"
  by (auto simp: handle_alloc_def upd_seg_def set_handle_def seg_klog_def Let_def split: option.splits)

lemma dup_ok:
  assumes ok: "sasy_ok s" and h: "handle_get_segment h s = Some i" and rc: "seg_refcnt (segments s i) \<noteq> - 1"
    and d: "handle_dup h pid s = Some (h', s')"
  shows "sasy_ok s'"
proof -
  let ?f = "\<lambda>g. g\<lparr>seg_refcnt := seg_refcnt g + 1\<rparr>"
  let ?t = "upd_seg i ?f s"
  note hr = handle_refers [OF h]
  have l: "live s i" by (rule handle_live [OF ok h])
  have "card (refs s i) \<le> unat (seg_refcnt (segments s i))" using ok l by (simp add: sasy_ok_def refs_ok_def)
  then have c: "card (refs s i) < unat (seg_refcnt (segments s i) + 1)" using unat_inc [OF rc] by simp
  have t: "sasy_ok ?t" by (rule ok_refcnt [OF ok]) (use c in simp_all)
  obtain v where v: "handle_alloc (Some i) pid s = Some (h', v)" "s' = (if h' \<noteq> INVALID_HANDLE then upd_seg i ?f v else v)"
    using d hr by (auto simp: handle_dup_def upd_seg_def used_slots_def bad_handle_iff Let_def split: option.splits if_splits)
  show ?thesis
  proof (cases "h' = INVALID_HANDLE")
    case True
    have "same_layout s v"
    proof (cases rule: handle_alloc_cases [OF conjunct1 [OF ok [unfolded sasy_ok_def]], of i pid])
      case 1
      then show ?thesis using v(1) by simp
    next
      case (2 k)
      then show ?thesis using v(1) True bad_handle_INVALID by (auto simp: bad_handle_iff)
    qed
    then show ?thesis using ok_layout [OF _ ok] v(2) True by simp
  next
    case False
    have "handle_alloc (Some i) pid ?t = Some (h', upd_seg i ?f v)" using v(1) by (simp add: handle_alloc_upd)
    from ok_handle_alloc(1) [OF t _ _ this] show ?thesis using l c v(2) False by (simp add: live_upd live_def)
  qed
qed

section \<open>Start\<close>

lemma handle_init_rest:
  "segments (handle_init u) = segments u" "next_segment_base (handle_init u) = next_segment_base u" "next_segment_id (handle_init u) = next_segment_id u"
proof -
  let ?v = "for_range 0 MAX_HANDLES (\<lambda>i s. s\<lparr>handles := (handles s)(i := null_handle)\<rparr>) u"
  have "segments ?v = segments u \<and> next_segment_base ?v = next_segment_base u \<and> next_segment_id ?v = next_segment_id u"
    by (rule for_range_inv) auto
  then show "segments (handle_init u) = segments u" "next_segment_base (handle_init u) = next_segment_base u"
    "next_segment_id (handle_init u) = next_segment_id u" by (simp_all add: handle_init_def Let_def seg_klog_def)
qed

lemma layout_swap_init: "same_layout s (swap_init s)"
proof -
  let ?t = "for_range 0 MAX_SWAP_ENTRIES (\<lambda>i s. s\<lparr>swap_table := (swap_table s)(i := null_swap_entry)\<rparr>) s"
  have "same_layout s ?t" by (rule for_range_inv) (simp_all add: same_layout_def)
  then show ?thesis by (simp add: swap_init_def Let_def same_layout_def seg_klog_def)
qed

lemma layout_registry: "same_layout s t \<Longrightarrow> same_layout (s\<lparr>code_registry := r\<rparr>) (t\<lparr>code_registry := r\<rparr>)"
  by (simp add: same_layout_def)

lemma layout_loader_init:
  obtains r where "same_layout (s\<lparr>code_registry := r\<rparr>) (loader_init s)" "\<forall>j < MAX_CODE_SEGMENTS. r j = null_code_entry"
proof -
  let ?t = "for_range 0 MAX_CODE_SEGMENTS (\<lambda>i s. s\<lparr>code_registry := (code_registry s)(i := null_code_entry)\<rparr>) s"
  have "same_layout (s\<lparr>code_registry := code_registry ?t\<rparr>) ?t" by (rule for_range_inv) (simp_all add: same_layout_def fun_upd_def)
  moreover have "\<forall>j < MAX_CODE_SEGMENTS. code_registry ?t j = null_code_entry"
    by (rule for_range_rule [where P = "\<lambda>n s. \<forall>j < n. code_registry s j = null_code_entry"]) (auto simp: less_Suc_eq)
  ultimately show thesis by (intro that [of "code_registry ?t"]) (simp_all add: loader_init_def Let_def same_layout_def seg_klog_def)
qed

lemma sasy_init_start:
  obtains u where "same_layout u (sasy_init s)" "\<forall>i < MAX_SEGMENTS. segments u i = null_segment" "handles_inv u" "used_slots u = {}"
    "next_handle u = 0" "next_segment_base u = SASY_BASE_ADDR" "next_segment_id u = 1" "\<forall>j < MAX_CODE_SEGMENTS. code_registry u j = null_code_entry"
proof -
  define t where "t = for_range 0 MAX_SEGMENTS (\<lambda>i s. upd_seg i (\<lambda>_. null_segment) s) s"
  define u where "u = t\<lparr>segment_count := 0, next_segment_id := 1, next_segment_base := SASY_BASE_ADDR\<rparr>"
  obtain r where r: "same_layout ((swap_init (handle_init u))\<lparr>code_registry := r\<rparr>) (loader_init (swap_init (handle_init u)))"
    "\<forall>j < MAX_CODE_SEGMENTS. r j = null_code_entry" by (rule layout_loader_init)
  let ?u = "(handle_init u)\<lparr>code_registry := r\<rparr>"
  have "\<forall>i < MAX_SEGMENTS. segments t i = null_segment"
    unfolding t_def by (rule for_range_rule [where P = "\<lambda>n s. \<forall>i < n. segments s i = null_segment"]) (auto simp: less_Suc_eq)
  then have s: "\<forall>i < MAX_SEGMENTS. segments ?u i = null_segment" by (simp add: handle_init_rest u_def)
  have e: "used_slots ?u = {}" "used_slots (handle_init u) = {}" by (auto simp: used_slots_def handle_init_slots)
  then have i: "handles_inv ?u" using handle_init_inv [of u] by (simp add: handles_inv_def)
  have "same_layout ?u (sasy_init s)"
    unfolding sasy_init_def Let_def t_def [symmetric] u_def [symmetric]
    by (intro layout_after(1)) (rule layout_trans [OF layout_registry [OF layout_swap_init] r(1)])
  then show thesis using s e(1) i r(2)
    by (intro that [of ?u]) (simp_all add: handle_init_rest, simp_all add: u_def handle_init_def Let_def seg_klog_def)
qed

lemma sasy_init_ok: "sasy_ok (sasy_init s)"
proof (rule sasy_init_start [of s])
  fix u
  assume k: "same_layout u (sasy_init s)" and n: "\<forall>i < MAX_SEGMENTS. segments u i = null_segment" "handles_inv u" "used_slots u = {}"
    and b: "next_segment_base u = SASY_BASE_ADDR"
  have "\<not> live u i" for i using n(1) by (auto simp: live_def null_segment_def)
  then have "sasy_ok u" using b n(2,3)
    by (simp add: sasy_ok_def refs_ok_def layout_ok_def) (simp add: SASY_BASE_ADDR_def PAGE_SIZE_def)
  then show ?thesis by (rule ok_layout [OF k])
qed

lemma sasy_init_fields:
  "next_segment_base (sasy_init s) = SASY_BASE_ADDR" "next_segment_id (sasy_init s) = 1" "i < MAX_SEGMENTS \<Longrightarrow> seg_id (segments (sasy_init s) i) = 0"
  "handle_get_segment h (sasy_init s) = None" "next_handle (sasy_init s) = 0" "used_slots (sasy_init s) = {}"
  "j < MAX_CODE_SEGMENTS \<Longrightarrow> code_registry (sasy_init s) j = null_code_entry"
proof -
  obtain u where u: "same_layout u (sasy_init s)" "\<forall>i < MAX_SEGMENTS. segments u i = null_segment" "used_slots u = {}"
    "next_handle u = 0" "next_segment_base u = SASY_BASE_ADDR" "next_segment_id u = 1" "\<forall>j < MAX_CODE_SEGMENTS. code_registry u j = null_code_entry"
    by (rule sasy_init_start)
  show "next_segment_base (sasy_init s) = SASY_BASE_ADDR" "next_segment_id (sasy_init s) = 1" "next_handle (sasy_init s) = 0"
    "j < MAX_CODE_SEGMENTS \<Longrightarrow> code_registry (sasy_init s) j = null_code_entry"
    using u by (simp_all add: same_layout_def)
  show e: "used_slots (sasy_init s) = {}" using layout_parts(2) [OF u(1)] u(3) by simp
  have "shape (segments (sasy_init s) i) = shape (segments u i)" using u(1) by (simp add: same_layout_def)
  from shape_parts(1) [OF this] show "i < MAX_SEGMENTS \<Longrightarrow> seg_id (segments (sasy_init s) i) = 0" using u(2) by (simp add: null_segment_def)
  show "handle_get_segment h (sasy_init s) = None" using handle_refers(1) [of h "sasy_init s"] e by (cases "handle_get_segment h (sasy_init s)") auto
qed

end
