(* ===== verification/Sasy_Life.thy ===== *)
theory Sasy_Life
  imports Sasy_Correct File_Store
begin

text \<open>
  The life of segments: the registry of shared code never names a segment that is gone, and every
  history of calls keeps the layout of the address space and the handles.
\<close>

section \<open>The registry of shared code\<close>

definition code_ok :: "sasy_state \<Rightarrow> bool" where
  "code_ok s \<longleftrightarrow>
     (\<forall>j < MAX_CODE_SEGMENTS. cr_valid (code_registry s j) \<longrightarrow> cr_refs (code_registry s j) = 1 \<and> cr_hash (code_registry s j) \<noteq> 0 \<and>
       (\<exists>i. cr_seg (code_registry s j) = Some i \<and> live s i \<and> seg_ty (segments s i) = SEG_CODE \<and>
         seg_code_hash (segments s i) = cr_hash (code_registry s j))) \<and>
     (\<forall>j < MAX_CODE_SEGMENTS. \<forall>k < MAX_CODE_SEGMENTS. cr_valid (code_registry s j) \<longrightarrow> cr_valid (code_registry s k) \<longrightarrow>
       cr_hash (code_registry s j) = cr_hash (code_registry s k) \<longrightarrow> j = k)"

text \<open>Steps that neither touch the registry nor end the life of a segment.\<close>

definition retains :: "sasy_state \<Rightarrow> sasy_state \<Rightarrow> bool" where
  "retains s s' \<longleftrightarrow> code_registry s' = code_registry s \<and>
     (\<forall>i. live s i \<longrightarrow> live s' i \<and> seg_ty (segments s' i) = seg_ty (segments s i) \<and> seg_code_hash (segments s' i) = seg_code_hash (segments s i))"

lemma retains_refl [simp]: "retains s s"
  by (simp add: retains_def)

lemma retains_trans: "retains s t \<Longrightarrow> retains t u \<Longrightarrow> retains s u"
  by (simp add: retains_def)

lemma code_transfer:
  assumes r: "code_registry s' = code_registry s" and ok: "code_ok s"
    and l: "\<And>i j. j < MAX_CODE_SEGMENTS \<Longrightarrow> cr_valid (code_registry s j) \<Longrightarrow> cr_seg (code_registry s j) = Some i \<Longrightarrow> live s i \<Longrightarrow>
      live s' i \<and> seg_ty (segments s' i) = seg_ty (segments s i) \<and> seg_code_hash (segments s' i) = seg_code_hash (segments s i)"
  shows "code_ok s'"
proof -
  have "\<exists>i. cr_seg (code_registry s j) = Some i \<and> live s' i \<and> seg_ty (segments s' i) = SEG_CODE \<and> seg_code_hash (segments s' i) = cr_hash (code_registry s j)"
    if j: "j < MAX_CODE_SEGMENTS" "cr_valid (code_registry s j)" for j
  proof -
    obtain i where "cr_seg (code_registry s j) = Some i" "live s i" "seg_ty (segments s i) = SEG_CODE"
      "seg_code_hash (segments s i) = cr_hash (code_registry s j)" using ok j unfolding code_ok_def by blast
    then show ?thesis using l [OF j, of i] by (intro exI [of _ i]) simp
  qed
  then show ?thesis using ok unfolding code_ok_def r by blast
qed

lemma retains_code: "retains s s' \<Longrightarrow> code_ok s \<Longrightarrow> code_ok s'"
  using code_transfer [of s' s] by (simp add: retains_def)

lemma layout_retains: "same_layout s s' \<Longrightarrow> retains s s'"
proof -
  assume k: "same_layout s s'"
  then have "shape (segments s' i) = shape (segments s i)" for i by (simp add: same_layout_def)
  from shape_parts [OF this] show ?thesis using k by (simp add: retains_def live_def) (simp add: same_layout_def)
qed

lemma retains_upd:
  assumes "\<And>g. seg_id (f g) = seg_id g \<and> seg_ty (f g) = seg_ty g \<and> seg_code_hash (f g) = seg_code_hash g"
  shows "retains s (upd_seg i f s)"
  using assms by (auto simp: retains_def upd_seg_def live_def)

lemma retains_fields: "segments s' = segments s \<Longrightarrow> code_registry s' = code_registry s \<Longrightarrow> retains s s'"
  by (simp add: retains_def live_def)

lemma retains_free_other: "\<not> live s i \<Longrightarrow> retains s t \<Longrightarrow> retains s (free_segment i t)"
  by (auto simp: retains_def live_def free_segment_def Let_def upd_seg_def)

lemma handle_alloc_fields:
  assumes "handle_alloc g pid s = Some (h, s')"
  shows "segments s' = segments s" "code_registry s' = code_registry s"
  using assms by (auto simp: handle_alloc_def Let_def seg_klog_def set_handle_def split: if_splits option.splits)

lemma retains_create:
  assumes c: "sasy_create_ex sz ty flags pid s = Some (h, s')"
  shows "retains s s'"
proof (cases "sz = 0")
  case True
  then show ?thesis using c by (simp add: sasy_create_ex_def)
next
  case sz: False
  show ?thesis
  proof (cases rule: alloc_segment_cases [of s])
    case full
    then show ?thesis using c sz layout_retains [OF layout_basic(1)] by (auto simp: sasy_create_ex_def)
  next
    case (slot i)
    define t where "t = entered i (align_up sz (of_nat PAGE_SIZE)) ty flags s"
    note cr = create_from_slot [OF sz slot(1,3), of ty flags pid, folded t_def]
    have t: "retains s t" using slot(2) by (auto simp: retains_def t_def entered_def live_def upd_seg_def)
    have log: "retains s (seg_klog e x)" if "retains s x" for e x using that layout_retains [OF layout_basic(1)] retains_trans by blast
    show ?thesis
    proof (cases "next_segment_base t \<ge> SASY_BASE_ADDR + SASY_MAX_SIZE")
      case True
      then show ?thesis using c log [OF retains_free_other [OF slot(2) t]] unfolding cr by auto
    next
      case lim: False
      obtain e u where u: "(if ty = SEG_FIXED \<or> ty = SEG_PHYSICAL then sasy_map_now i t else Some (0, t)) = Some (e, u)"
        using c lim unfolding cr by (auto split: bind_splits)
      have "same_layout t u" using u by (auto dest: layout_map_now split: if_splits)
      then have ru: "retains s u" using t layout_retains retains_trans by blast
      show ?thesis
      proof (cases "e = 0")
        case False
        then show ?thesis using c lim u retains_free_other [OF slot(2) ru] unfolding cr by simp
      next
        case True
        obtain h' v where v: "handle_alloc (Some i) pid u = Some (h', v)"
          using c lim u True unfolding cr by (auto split: bind_splits)
        have rv: "retains s v" by (rule retains_trans [OF ru retains_fields [OF handle_alloc_fields [OF v]]])
        then show ?thesis using c lim u True v log [OF rv] log [OF retains_free_other [OF slot(2) rv]]
          unfolding cr by (cases "h' = INVALID_HANDLE") auto
      qed
    qed
  qed
qed

lemma retains_lock:
  assumes "sasy_ok s" and "\<And>i. handle_get_segment h s = Some i \<Longrightarrow> seg_refcnt (segments s i) \<noteq> - 1" and "sasy_lock h s = Some (a, s')"
  shows "retains s s'"
  using lock_ok [OF assms] by (simp add: retains_def live_def)

lemma retains_dup:
  assumes "handle_dup h pid s = Some (h', s')"
  shows "retains s s'"
proof (cases "bad_handle h \<or> \<not> h_valid (handles s (unat h))")
  case True
  then show ?thesis using assms by (simp add: handle_dup_def)
next
  case False
  have u: "retains v (v\<lparr>segments := (segments v)(k := (segments v k)\<lparr>seg_refcnt := seg_refcnt (segments v k) + 1\<rparr>)\<rparr>)" for v k
    using retains_upd [of "\<lambda>g. g\<lparr>seg_refcnt := seg_refcnt g + 1\<rparr>" v k] by (simp add: upd_seg_def)
  obtain v where "handle_alloc (h_seg (handles s (unat h))) pid s = Some (h', v)" "retains v s'"
    using assms False u by (auto simp: handle_dup_def Let_def split: if_splits option.splits)
  then show ?thesis using retains_fields [OF handle_alloc_fields] retains_trans by blast
qed

lemma retains_resize:
  assumes "sasy_resize h n s = Some (e, s')"
  shows "retains s s'"
proof (cases rule: resize_cases [OF assms])
  case (2 i u)
  have "retains u (upd_seg i (\<lambda>g. g\<lparr>seg_size := align_up n (of_nat PAGE_SIZE)\<rparr>) u)" by (rule retains_upd) simp
  then show ?thesis unfolding 2(3) using layout_retains [OF 2(2)] layout_retains [OF layout_basic(1)] retains_trans by blast
qed (rule layout_retains)

lemma clone_ok:
  assumes ok: "sasy_ok s" and nw: "no_wrap (sasy_get_size h s) s" and rc: "\<And>i. seg_refcnt (segments s i) \<noteq> - 1"
    and c: "sasy_clone h pid s = Some (h', s')"
  shows "sasy_ok s' \<and> retains s s'"
proof (cases "handle_get_segment h s")
  case None
  then show ?thesis using c ok by (auto simp: sasy_clone_def split: if_splits)
next
  case (Some i)
  note hv = handle_refers(4) [OF Some]
  let ?g = "segments s i"
  show ?thesis
  proof (cases "seg_ty ?g = SEG_CODE")
    case True
    then show ?thesis using c Some hv dup_ok [OF ok Some rc] retains_dup by (simp add: sasy_clone_def)
  next
    case False
    obtain n t where t: "sasy_create_ex (seg_size ?g) (seg_ty ?g) (seg_flags ?g) pid s = Some (n, t)"
      using c Some hv False by (auto simp: sasy_clone_def split: bind_splits)
    have "no_wrap (seg_size ?g) s" using nw Some hv by (simp add: sasy_get_size_def)
    note co = create_ok [OF ok this t] and rt = retains_create [OF t]
    show ?thesis
    proof (cases "n = INVALID_HANDLE")
      case True
      then show ?thesis using c Some hv False t co rt by (auto simp: sasy_clone_def)
    next
      case n: False
      then obtain j where j: "handle_get_segment n t = Some j" "seg_created j (seg_size ?g) (seg_ty ?g) s t" using co by blast
      obtain a u where u: "sasy_lock h t = Some (a, u)"
        using c Some hv False t n j(1) by (auto simp: sasy_clone_def split: bind_splits)
      obtain b v where v: "sasy_lock n u = Some (b, v)"
        using c Some hv False t n j(1) u by (auto simp: sasy_clone_def split: bind_splits)
      define w where "w = (if a \<noteq> 0 \<and> b \<noteq> 0 then mem_copy b a (unat (seg_size (segments v i))) v else v)"
      obtain x y where x: "sasy_unlock n w = Some x" "sasy_unlock h x = Some y" "s' = seg_klog (Log ''[SEG] Segment cloned for process'') y"
        using c hv False t n j(1) u v unfolding sasy_clone_def Some by (auto simp: w_def [symmetric] Let_def split: bind_splits)
      have rf: "seg_refcnt (segments t k) \<noteq> - 1" for k
        using j(2) rc [of k] shape_parts(4) [of "segments t k" "segments s k"] by (cases "k = j") (auto simp: seg_created_def)
      have ru: "retains t u" and rv: "sasy_ok u \<Longrightarrow> (\<And>i. handle_get_segment n u = Some i \<Longrightarrow> seg_refcnt (segments u i) \<noteq> - 1) \<Longrightarrow> retains u v"
        using retains_lock [OF _ _ u] retains_lock [OF _ _ v] co rf by blast+
      have lk: "sasy_ok u \<and> handles u = handles t \<and> (\<forall>k. seg_refcnt (segments u k) \<in> {seg_refcnt (segments t k), seg_refcnt (segments t k) + 1})"
        using lock_ok [OF _ _ u] co rf by blast
      have "handle_get_segment n u = Some j" using j(1) lk handle_get_cong by metis
      moreover have "seg_refcnt (segments t j) = 1" using j(2) by (simp add: seg_created_def)
      then have "seg_refcnt (segments u j) = 1 \<or> seg_refcnt (segments u j) = 2" using lk by (metis insertE singletonD one_add_one)
      ultimately have rk: "seg_refcnt (segments u k) \<noteq> - 1" if "handle_get_segment n u = Some k" for k using that by auto
      have v': "sasy_ok v" "retains u v" using lock_ok [OF conjunct1 [OF lk] rk v] rv [OF conjunct1 [OF lk] rk] by blast+
      have "same_layout v w" using layout_mem_copy by (simp add: w_def)
      then have k: "same_layout v s'" using unlock_layout [OF x(1)] unlock_layout [OF x(2)] layout_basic(1) layout_trans unfolding x(3) by blast
      show ?thesis using ok_layout [OF k v'(1)] layout_retains [OF k] rt ru v'(2) retains_trans by blast
    qed
  qed
qed

text \<open>A segment that goes takes its entry of the registry with it.\<close>

lemma registered_Some:
  assumes "registered hash s = Some j"
  shows "j < MAX_CODE_SEGMENTS" "cr_valid (code_registry s j)" "cr_hash (code_registry s j) = hash"
  using assms by (simp_all add: registered_def find_from_Some_iff)

lemma registered_None: "registered hash s = None \<Longrightarrow> j < MAX_CODE_SEGMENTS \<Longrightarrow> cr_valid (code_registry s j) \<Longrightarrow> cr_hash (code_registry s j) \<noteq> hash"
  by (auto simp: registered_def find_from_None_iff)

lemma code_unregister:
  fixes i :: nat
  assumes ok: "code_ok s"
  defines "w \<equiv> (if seg_ty (segments s i) = SEG_CODE \<and> seg_code_hash (segments s i) \<noteq> 0 then loader_unregister_code i s else s)"
  shows "code_ok w \<and> (\<forall>j < MAX_CODE_SEGMENTS. cr_valid (code_registry w j) \<longrightarrow> cr_seg (code_registry w j) \<noteq> Some i)"
proof -
  have ent: "cr_refs (code_registry s j) = 1" "cr_hash (code_registry s j) \<noteq> 0"
      "cr_seg (code_registry s j) = Some i \<Longrightarrow> seg_ty (segments s i) = SEG_CODE \<and> seg_code_hash (segments s i) = cr_hash (code_registry s j)"
      if "j < MAX_CODE_SEGMENTS" "cr_valid (code_registry s j)" for j using ok that by (auto simp: code_ok_def)
  show ?thesis
  proof (cases "seg_ty (segments s i) = SEG_CODE \<and> seg_code_hash (segments s i) \<noteq> 0")
    case False
    then show ?thesis using ok ent by (fastforce simp: w_def)
  next
    case c: True
    let ?h = "seg_code_hash (segments s i)"
    show ?thesis
    proof (cases "registered ?h s")
      case None
      then have "w = s" using c by (simp add: w_def loader_unregister_code_def Let_def)
      then show ?thesis using ok ent(3) registered_None [OF None] by fastforce
    next
      case (Some j)
      note rs = registered_Some [OF Some]
      let ?c = "(code_registry s j)\<lparr>cr_refs := 0, cr_hash := 0, cr_seg := None, cr_valid := False\<rparr>"
      have w: "w = s\<lparr>code_registry := (code_registry s)(j := ?c)\<rparr>"
        using c Some ent(1) [OF rs(1,2)] by (simp add: w_def loader_unregister_code_def Let_def)
      have "live w = live s" by (simp add: live_def w fun_eq_iff)
      then have "code_ok w" using ok unfolding code_ok_def by (simp add: w)
      moreover have "k = j" if "k < MAX_CODE_SEGMENTS" "cr_valid (code_registry s k)" "cr_seg (code_registry s k) = Some i" for k
        using ok that rs ent(3) [OF that] unfolding code_ok_def by metis
      ultimately show ?thesis by (auto simp: w)
    qed
  qed
qed

lemma release_code:
  assumes ok: "code_ok s" and d: "release_segment i s = Some s'"
  shows "code_ok s'"
proof -
  obtain v where k: "same_layout s v" and eq: "s' = seg_klog (Log ''[SEG] Segment freed'') (free_segment i (unregistered i v))"
    by (rule release_steps [OF d])
  note cu = code_unregister [OF retains_code [OF layout_retains [OF k] ok], of i, folded unregistered_def]
  show ?thesis
  proof (rule code_transfer [OF _ conjunct1 [OF cu]])
    show "code_registry s' = code_registry (unregistered i v)" by (simp add: eq seg_klog_def free_segment_def Let_def)
    fix k j
    assume "j < MAX_CODE_SEGMENTS" "cr_valid (code_registry (unregistered i v) j)" "cr_seg (code_registry (unregistered i v) j) = Some k"
      and l: "live (unregistered i v) k"
    then have "k \<noteq> i" using cu by auto
    then show "live s' k \<and> seg_ty (segments s' k) = seg_ty (segments (unregistered i v) k) \<and>
      seg_code_hash (segments s' k) = seg_code_hash (segments (unregistered i v) k)"
      using l by (simp add: eq seg_klog_def live_def free_segment_fields)
  qed
qed

lemma free_code:
  assumes ok: "code_ok s" and f: "sasy_free h s = Some s'"
  shows "code_ok s'"
proof (cases "handle_get_segment h s")
  case None
  then show ?thesis using f ok by (auto simp: sasy_free_def split: if_splits)
next
  case (Some i)
  define t where "t = (if seg_refcnt (segments s i) > 0 then upd_seg i (\<lambda>g. g\<lparr>seg_refcnt := seg_refcnt g - 1\<rparr>) s else s)"
  define u where "u = handle_free h t"
  have r: "(if seg_refcnt (segments u i) = 0 then release_segment i u else Some u) = Some s'"
    using f handle_refers(4) [OF Some] unfolding sasy_free_def Some option.case Let_def u_def t_def by (simp only: not_True_eq_False if_False)
  have "retains s t" by (simp add: t_def retains_upd)
  moreover have "retains t u" by (rule retains_fields) (simp_all add: u_def handle_free_def set_handle_def Let_def)
  ultimately have "code_ok u" using ok retains_code by blast
  then show ?thesis using r release_code [of u i s'] by (auto split: if_splits)
qed

lemma code_entry_live: "code_ok s \<Longrightarrow> j < MAX_CODE_SEGMENTS \<Longrightarrow> cr_valid (code_registry s j) \<Longrightarrow> cr_seg (code_registry s j) = Some i \<Longrightarrow> live s i"
  by (fastforce simp: code_ok_def)

lemma register_code:
  assumes ok: "code_ok s" and i: "live s i" "seg_ty (segments s i) = SEG_CODE" and n: "loader_find_code (seg_code_hash (segments s i)) s = None"
  shows "code_ok (loader_register_code i s)"
proof (cases "seg_code_hash (segments s i) = 0")
  case True
  then show ?thesis using ok by (simp add: loader_register_code_def)
next
  case h: False
  let ?h = "seg_code_hash (segments s i)"
  have r: "registered ?h s = None"
  proof (cases "registered ?h s")
    case (Some j)
    have "cr_seg (code_registry s j) \<noteq> None" using ok registered_Some [OF Some] by (auto simp: code_ok_def)
    then show ?thesis using n h Some by (simp add: loader_find_code_def)
  qed simp
  show ?thesis
  proof (cases "find_from (\<lambda>j. \<not> cr_valid (code_registry s j)) 0 MAX_CODE_SEGMENTS")
    case None
    then show ?thesis using ok r h by (simp add: loader_register_code_def Let_def)
  next
    case (Some j)
    let ?w = "s\<lparr>code_registry := (code_registry s)(j := \<lparr>cr_hash = ?h, cr_seg = Some i, cr_refs = 1, cr_valid = True\<rparr>)\<rparr>"
    have w: "loader_register_code i s = ?w" using r h Some by (simp add: loader_register_code_def Let_def)
    have l: "live ?w = live s" by (simp add: live_def fun_eq_iff)
    have "cr_hash (code_registry s k) \<noteq> ?h" if "k < MAX_CODE_SEGMENTS" "cr_valid (code_registry s k)" for k by (rule registered_None [OF r that])
    then show ?thesis using ok i h unfolding w code_ok_def l by simp metis
  qed
qed

lemma find_code_cong: "code_registry v = code_registry s \<Longrightarrow> loader_find_code h v = loader_find_code h s"
  unfolding loader_find_code_def registered_def by (simp only:)

lemma load_ok:
  assumes ok: "sasy_ok s" "code_ok s" and nw: "no_wrap (of_nat PAGE_SIZE) s" and rc: "\<And>i. seg_refcnt (segments s i) \<noteq> - 1"
    and c: "sasy_load_code (Some p) pid s = Some (h, s')"
  shows "sasy_ok s' \<and> code_ok s'"
proof (cases "loader_find_code (loader_hash_file (Some p)) s")
  case (Some i)
  then obtain j where "registered (loader_hash_file (Some p)) s = Some j" "cr_seg (code_registry s j) = Some i"
    by (auto simp: loader_find_code_def split: if_splits option.splits)
  then have l: "live s i" using code_entry_live [OF ok(2)] registered_Some by blast
  let ?f = "\<lambda>g. g\<lparr>seg_refcnt := seg_refcnt g + 1\<rparr>"
  have "card (refs s i) \<le> unat (seg_refcnt (segments s i))" using ok(1) l by (simp add: sasy_ok_def refs_ok_def)
  then have cd: "card (refs s i) < unat (seg_refcnt (segments s i) + 1)" using unat_inc [OF rc] by simp
  have t: "sasy_ok (upd_seg i ?f s)" by (rule ok_refcnt [OF ok(1)]) (use cd in simp_all)
  have rt: "retains s (upd_seg i ?f s)" by (rule retains_upd) simp
  obtain v where v: "handle_alloc (Some i) pid (upd_seg i ?f s) = Some (h, v)" "s' = seg_klog (Log ''[SEG] Sharing existing code segment'') v"
    using c Some by (auto simp: sasy_load_code_def Let_def split: bind_splits)
  have "sasy_ok v" using ok_handle_alloc(1) [OF t _ _ v(1)] l cd by (simp add: live_upd live_def)
  then have "sasy_ok s'" unfolding v(2) by (rule ok_layout [OF layout_basic(1)])
  moreover have "retains (upd_seg i ?f s) v" by (rule retains_fields [OF handle_alloc_fields [OF v(1)]])
  from retains_trans [OF retains_trans [OF rt this] layout_retains [OF layout_basic(1)]]
  have "code_ok s'" unfolding v(2) by (rule retains_code [OF _ ok(2)])
  ultimately show ?thesis ..
next
  case None
  let ?h = "loader_hash_file (Some p)"
  obtain n t where t: "sasy_create_ex (of_nat PAGE_SIZE) SEG_CODE (SEG_FLAGS_RX OR SEG_FLAG_SHARED) pid s = Some (n, t)"
    using c None by (auto simp: sasy_load_code_def Let_def split: bind_splits)
  note co = create_ok [OF ok(1) nw t] and rt = retains_create [OF t]
  have ct: "code_ok t" by (rule retains_code [OF rt ok(2)])
  show ?thesis
  proof (cases "n = INVALID_HANDLE")
    case True
    then show ?thesis using c None t co ct by (simp add: sasy_load_code_def Let_def)
  next
    case n: False
    then obtain i where i: "handle_get_segment n t = Some i" "seg_created i (of_nat PAGE_SIZE) SEG_CODE s t" using co by blast
    let ?u = "upd_seg i (\<lambda>g. g\<lparr>seg_code_hash := ?h\<rparr>) t"
    have it: "live t i" "\<not> live s i" "seg_ty (segments t i) = SEG_CODE" using i(2) by (simp_all add: seg_created_def)
    have "card (refs t i) \<le> unat (seg_refcnt (segments t i))" using co it by (simp add: sasy_ok_def refs_ok_def)
    then have uo: "sasy_ok ?u" by (intro ok_refcnt) (use co in simp_all)
    have uc: "code_ok ?u"
    proof (rule code_transfer [OF _ ct])
      fix k j
      assume "j < MAX_CODE_SEGMENTS" "cr_valid (code_registry t j)" "cr_seg (code_registry t j) = Some k" and l: "live t k"
      then have "live s k" using ok(2) rt by (fastforce simp: code_ok_def retains_def)
      then have "k \<noteq> i" using it by auto
      then show "live ?u k \<and> seg_ty (segments ?u k) = seg_ty (segments t k) \<and> seg_code_hash (segments ?u k) = seg_code_hash (segments t k)"
        using l by (simp add: live_def)
    qed simp
    obtain e v where v: "loader_load_code i p ?u = Some (e, v)"
      using c None t n i(1) by (auto simp: sasy_load_code_def Let_def split: bind_splits)
    have k: "same_layout ?u v" by (rule layout_load_code [OF v]) simp
    have vo: "sasy_ok v" "code_ok v" using ok_layout [OF k uo] retains_code [OF layout_retains [OF k] uc] by blast+
    show ?thesis
    proof (cases "e = 0")
      case False
      then obtain w where "sasy_free n v = Some w" "s' = w" using c None t n i(1) v by (auto simp: sasy_load_code_def Let_def split: bind_splits)
      then show ?thesis using free_ok [OF vo(1)] free_code [OF vo(2)] by blast
    next
      case True
      then have s': "s' = loader_register_code i v" using c None t n i(1) v by (simp add: sasy_load_code_def Let_def)
      have sh: "shape (segments v i) = shape (segments ?u i)" using k by (simp add: same_layout_def)
      have "code_registry v = code_registry s" using k rt by (simp add: same_layout_def retains_def)
      then have "loader_find_code ?h v = None" unfolding None [symmetric] by (rule find_code_cong)
      then have "code_ok s'" unfolding s' using shape_parts [OF sh] it
        by (intro register_code [OF vo(2)]) (simp_all add: live_def)
      moreover have "sasy_ok s' = sasy_ok v" by (rule ok_cong) (simp_all add: s')
      ultimately show ?thesis using vo(1) by simp
    qed
  qed
qed

section \<open>Histories\<close>

text \<open>
  The calls of a history, with their limits. Creating is limited to sizes that wrap neither the address counter nor the
  identifiers, locking and sharing to reference counts below their maximum, and resizing to calls
  that shrink the segment or that the code refuses, as it does growing a resident, locked or fixed segment:
  outside these limits the code breaks the invariant.
\<close>

inductive sasy_reach :: "sasy_state \<Rightarrow> sasy_state \<Rightarrow> bool" for s0 where
  start: "sasy_reach s0 (sasy_init s0)"
| create: "sasy_reach s0 s \<Longrightarrow> no_wrap sz s \<Longrightarrow> sasy_create_ex sz ty flags pid s = Some (h, s') \<Longrightarrow> sasy_reach s0 s'"
| load: "sasy_reach s0 s \<Longrightarrow> no_wrap (of_nat PAGE_SIZE) s \<Longrightarrow> (\<And>i. seg_refcnt (segments s i) \<noteq> - 1) \<Longrightarrow>
    sasy_load_code (Some p) pid s = Some (h, s') \<Longrightarrow> sasy_reach s0 s'"
| clone: "sasy_reach s0 s \<Longrightarrow> no_wrap (sasy_get_size h s) s \<Longrightarrow> (\<And>i. seg_refcnt (segments s i) \<noteq> - 1) \<Longrightarrow>
    sasy_clone h pid s = Some (h', s') \<Longrightarrow> sasy_reach s0 s'"
| lock: "sasy_reach s0 s \<Longrightarrow> (\<And>i. handle_get_segment h s = Some i \<Longrightarrow> seg_refcnt (segments s i) \<noteq> - 1) \<Longrightarrow>
    sasy_lock h s = Some (a, s') \<Longrightarrow> sasy_reach s0 s'"
| unlock: "sasy_reach s0 s \<Longrightarrow> sasy_unlock h s = Some s' \<Longrightarrow> sasy_reach s0 s'"
| free: "sasy_reach s0 s \<Longrightarrow> sasy_free h s = Some s' \<Longrightarrow> sasy_reach s0 s'"
| resize: "sasy_reach s0 s \<Longrightarrow> n \<le> sasy_get_size h s \<or> e \<noteq> 0 \<Longrightarrow> sasy_resize h n s = Some (e, s') \<Longrightarrow> sasy_reach s0 s'"
| dirty: "sasy_reach s0 s \<Longrightarrow> sasy_reach s0 (sasy_mark_dirty h s)"
| pressure: "sasy_reach s0 s \<Longrightarrow> sasy_pressure s = Some s' \<Longrightarrow> sasy_reach s0 s'"
| fault: "sasy_reach s0 s \<Longrightarrow> loader_handle_fault a s = Some (e, s') \<Longrightarrow> sasy_reach s0 s'"
| pageout: "sasy_reach s0 s \<Longrightarrow> sasy_pageout i s = Some (e, s') \<Longrightarrow> sasy_reach s0 s'"

lemma refused_layout:
  assumes "sasy_resize h n s = Some (e, s')" and "e \<noteq> 0"
  shows "same_layout s s'"
  using assms by (auto simp: sasy_resize_def Let_def split: if_splits option.splits bind_splits)

lemma dirty_layout: "same_layout s (sasy_mark_dirty h s)"
  by (simp add: sasy_mark_dirty_def split: option.split)

lemma fault_layout:
  assumes "loader_handle_fault a s = Some (e, s')"
  shows "same_layout s s'"
  using assms layout_trans [OF _ layout_basic(1)]
  by (auto simp: loader_handle_fault_def dest!: layout_pagein split: if_splits option.splits bind_splits)

lemma step_layout: "same_layout s s' \<Longrightarrow> sasy_ok s \<and> code_ok s \<Longrightarrow> sasy_ok s' \<and> code_ok s'"
  using ok_layout retains_code layout_retains by blast

lemma reach_ok: "sasy_reach s0 s \<Longrightarrow> sasy_ok s \<and> code_ok s"
proof (induction rule: sasy_reach.induct)
  case start
  have "code_ok (sasy_init s0)" using sasy_init_fields(7) by (simp add: code_ok_def null_code_entry_def)
  then show ?case by (simp add: sasy_init_ok)
next
  case (create s sz ty flags pid h s')
  then show ?case using create_ok retains_code retains_create by blast
next
  case (load s p pid h s')
  then show ?case using load_ok by blast
next
  case (clone s h pid h' s')
  then show ?case using clone_ok retains_code by blast
next
  case (lock s h a s')
  then show ?case using lock_ok [of s h a s'] retains_lock [of s h a s'] retains_code by blast
next
  case (unlock s h s')
  then show ?case using step_layout unlock_layout by blast
next
  case (free s h s')
  then show ?case using free_ok free_code by blast
next
  case (resize s n h e s')
  then show ?case using shrink_ok retains_resize retains_code refused_layout step_layout by blast
next
  case (dirty s h)
  then show ?case using step_layout dirty_layout by blast
next
  case (pressure s s')
  then show ?case using step_layout layout_pressure by blast
next
  case (fault s a e s')
  then show ?case using step_layout fault_layout by blast
next
  case (pageout s i e s')
  then show ?case using step_layout layout_pageout by blast
qed

section \<open>Creating succeeds\<close>

text \<open>A segment that is not mapped at once is created whenever a descriptor, a handle and the addresses are there.\<close>

lemma create_succeeds:
  assumes ok: "sasy_ok s" and nw: "no_wrap sz s" and sz: "sz \<noteq> 0" and ty: "ty \<noteq> SEG_FIXED" "ty \<noteq> SEG_PHYSICAL"
    and sp: "unat (next_segment_base s) + unat (align_up sz (of_nat PAGE_SIZE)) < unat (SASY_BASE_ADDR + SASY_MAX_SIZE)"
    and d: "i0 < MAX_SEGMENTS" "\<not> live s i0" and h: "card (used_slots s) < MAX_HANDLES"
  obtains h s' i where "sasy_create_ex sz ty flags pid s = Some (h, s')" "h \<noteq> INVALID_HANDLE" "handle_get_segment h s' = Some i"
    "seg_created i sz ty s s'" "next_segment_base s' = next_segment_base s + align_up sz (of_nat PAGE_SIZE)"
    "next_segment_id s' = next_segment_id s + 1" "card (used_slots s') = card (used_slots s) + 1" "sasy_ok s'"
    "\<not> seg_present (segments s' i)" "seg_locked (segments s' i) = 0" "\<And>j. j \<noteq> i \<Longrightarrow> segments s' j = segments s j"
proof (cases rule: alloc_segment_cases [of s])
  case full
  then have "find_from (\<lambda>i. seg_id (segments s i) = 0) 0 MAX_SEGMENTS = None" by (simp add: alloc_segment_def split: option.splits)
  then show thesis using d by (auto simp: find_from_None_iff live_def)
next
  case (slot i)
  let ?z = "align_up sz (of_nat PAGE_SIZE)"
  define t where "t = entered i ?z ty flags s"
  note cr = create_from_slot [OF sz slot(1,3), of ty flags pid, folded t_def]
  have "unat (next_segment_base t) = unat (next_segment_base s) + unat ?z"
    using sp by (simp add: t_def unat_word_ariths SASY_BASE_ADDR_def SASY_MAX_SIZE_def)
  then have lim: "\<not> next_segment_base t \<ge> SASY_BASE_ADDR + SASY_MAX_SIZE" using sp by (simp add: word_le_nat_alt)
  have ut: "used_slots t = used_slots s" by (simp add: used_slots_def t_def)
  have "sasy_ok t" using ok_entered(2) [OF ok slot(2,1) nw, of ty flags, folded t_def] lim by blast
  then have inv: "handles_inv t" by (simp add: sasy_ok_def)
  show thesis
  proof (cases rule: handle_alloc_cases [OF inv, of i pid])
    case 1
    then show thesis using h ut by simp
  next
    case (2 k)
    have ne: "k \<noteq> INVALID_HANDLE" using 2(1) bad_handle_INVALID by (auto simp: bad_handle_iff)
    let ?v = "(set_handle k \<lparr>h_seg = Some i, h_refs = 1, h_owner_pid = pid, h_valid = True\<rparr> t)
        \<lparr>handle_count := handle_count t + 1, next_handle := (k + 1) mod of_nat MAX_HANDLES\<rparr>"
    let ?s = "seg_klog (Log ''[SEG] Created segment'') ?v"
    have c: "sasy_create_ex sz ty flags pid s = Some (k, ?s)" using lim ty 2(3) ne unfolding cr by simp
    note co = create_ok [OF ok nw c]
    have hg: "handle_get_segment k ?s = Some i" using 2(1) by (simp add: handle_get_segment_def set_handle_def bad_handle_iff seg_klog_def)
    then have "seg_created i sz ty s ?s" using co ne by auto
    moreover have "used_slots ?s = insert (unat k) (used_slots s)" using 2(1) by (auto simp: used_slots_def seg_klog_def set_handle_def t_def)
    then have "card (used_slots ?s) = card (used_slots s) + 1" using 2(2) ut by simp
    moreover have "next_segment_base ?s = next_segment_base s + ?z" "next_segment_id ?s = next_segment_id s + 1"
      by (simp_all add: seg_klog_def set_handle_def t_def entered_def)
    moreover have "\<not> seg_present (segments ?s i)" "seg_locked (segments ?s i) = 0" "\<And>j. j \<noteq> i \<Longrightarrow> segments ?s j = segments s j"
      by (simp_all add: seg_klog_def set_handle_def t_def) (simp_all add: entered_def upd_seg_def)
    ultimately show thesis using that c ne hg co by blast
  qed
qed

section \<open>Properties\<close>

text \<open>A machine to start from: the memory manager just booted, an empty RAM disk, nothing set up yet.\<close>

definition power_on :: sasy_state where
  "power_on = \<lparr>handles = (\<lambda>_. null_handle), handle_count = 0, next_handle = 0, segments = (\<lambda>_. null_segment), seg_log = [],
     segment_count = 0, next_segment_id = 1, next_segment_base = SASY_BASE_ADDR, pressure_threshold = 0,
     swap_table = (\<lambda>_. null_swap_entry), swap_entry_count = 0, next_swap_block = 1,
     swap_stats = \<lparr>total_entries = 0, used_entries = 0, bytes_swapped_out = 0, bytes_swapped_in = 0, swap_out_count = 0, swap_in_count = 0\<rparr>,
     swap_ready = False, swap_base = 0, swap_size = 0, code_registry = (\<lambda>_. null_code_entry),
     seg_vmm = vmm_initial boot_32M, ram = (\<lambda>_. 0), g_bfs = ram_disk\<rparr>"

lemma example_sizes: "align_up 5000 (of_nat PAGE_SIZE) = 8192" "align_up 100 (of_nat PAGE_SIZE) = 4096"
  by (simp_all add: align_up_def PAGE_SIZE_def)

text \<open>Two segments of a booted machine.\<close>

lemma two_segments:
  obtains h s i k t j where "sasy_reach power_on s" "handle_get_segment h s = Some i" "live s i" "sasy_reach power_on t" "handle_get_segment k t = Some j"
    "handle_get_segment h t = Some i" "live t i" "live t j" "i \<noteq> j" "seg_base (segments t i) = SASY_BASE_ADDR" "seg_size (segments t i) = 8192"
    "seg_base (segments t j) = SASY_BASE_ADDR + 8192" "seg_size (segments t j) = 4096"
    "\<not> seg_present (segments t i)" "seg_locked (segments t i) = 0" "seg_ty (segments t i) = SEG_DATA_AUTO"
proof -
  let ?s = "sasy_init power_on"
  have r: "sasy_reach power_on ?s" by (rule start)
  have nl: "\<not> live ?s i" for i by (simp add: live_def sasy_init_fields)
  have nw: "no_wrap 5000 ?s" by (simp add: no_wrap_def sasy_init_fields SASY_BASE_ADDR_def)
  obtain h s i where s: "sasy_create_ex 5000 SEG_DATA_AUTO SEG_FLAGS_RW 1 ?s = Some (h, s)" "handle_get_segment h s = Some i"
    "seg_created i 5000 SEG_DATA_AUTO ?s s" "next_segment_base s = next_segment_base ?s + align_up 5000 (of_nat PAGE_SIZE)"
    "next_segment_id s = next_segment_id ?s + 1" "card (used_slots s) = card (used_slots ?s) + 1" "sasy_ok s"
    "\<not> seg_present (segments s i)" "seg_locked (segments s i) = 0"
    by (rule create_succeeds [OF sasy_init_ok nw, of SEG_DATA_AUTO 0])
      (auto simp: nl sasy_init_fields example_sizes SASY_BASE_ADDR_def SASY_MAX_SIZE_def MAX_SEGMENTS_def MAX_HANDLES_def)
  have rs: "sasy_reach power_on s" by (rule create [OF r nw s(1)])
  have li: "live s i" "seg_base (segments s i) = SASY_BASE_ADDR" "seg_size (segments s i) = 8192" "seg_ty (segments s i) = SEG_DATA_AUTO"
    using s(3) by (simp_all add: seg_created_def sasy_init_fields example_sizes)
  have "\<exists>d < MAX_SEGMENTS. d \<noteq> i" by (rule exI [of _ "if i = 0 then 1 else 0"]) (simp add: MAX_SEGMENTS_def)
  then obtain d where d: "d < MAX_SEGMENTS" "d \<noteq> i" by blast
  have "shape (segments s d) = shape (segments ?s d)" using s(3) d(2) by (simp add: seg_created_def)
  from shape_parts(1) [OF this] have nd: "\<not> live s d" by (simp add: live_def sasy_init_fields)
  have nb: "next_segment_base s = SASY_BASE_ADDR + 8192" "next_segment_id s = 2" "card (used_slots s) = 1"
    using s(4-6) by (simp_all add: sasy_init_fields example_sizes)
  have nw2: "no_wrap 100 s" by (simp add: no_wrap_def nb SASY_BASE_ADDR_def)
  obtain k t j where t: "sasy_create_ex 100 SEG_DATA_INST SEG_FLAGS_RW 2 s = Some (k, t)" "handle_get_segment k t = Some j"
    "seg_created j 100 SEG_DATA_INST s t" "\<And>k. k \<noteq> j \<Longrightarrow> segments t k = segments s k"
    by (rule create_succeeds [OF s(7) nw2, of SEG_DATA_INST d])
      (auto simp: nd d nb example_sizes SASY_BASE_ADDR_def SASY_MAX_SIZE_def MAX_HANDLES_def)
  have rt: "sasy_reach power_on t" by (rule create [OF rs nw2 t(1)])
  have ij: "i \<noteq> j" using li(1) t(3) by (auto simp: seg_created_def)
  then have e: "segments t i = segments s i" by (rule t(4))
  show thesis
    by (rule that [OF rs s(2) li(1) rt t(2)])
      (use t(3) ij e li nb s(2,8,9) in \<open>auto simp: seg_created_def live_def example_sizes\<close>)
qed

text \<open>
  C7. Two live segments occupy disjoint ranges of addresses, inside the window of the manager and on
  page boundaries, after every history of calls within these limits: the sizes of new segments wrap neither the
  address counter nor the identifiers, reference counts stay below their maximum, and a call of
  \<open>sasy_resize\<close> shrinks the segment or is refused. Creating, loading and sharing code, cloning, locking, freeing, shrinking,
  paging and swapping never make segments overlap. Growing a segment that is not resident does
  (\<open>grow_overlaps\<close>), and so can a size that wraps (\<open>create_wraps\<close>).
\<close>

theorem segments_disjoint:
  assumes "sasy_reach s0 s" and "live s i" and "live s j" and "i \<noteq> j"
  shows "{unat (seg_base (segments s i)) ..< seg_end (segments s i)} \<inter> {unat (seg_base (segments s j)) ..< seg_end (segments s j)} = {} \<and>
    unat SASY_BASE_ADDR \<le> unat (seg_base (segments s i)) \<and> seg_end (segments s i) < unat (SASY_BASE_ADDR + SASY_MAX_SIZE) \<and>
    unat (seg_base (segments s i)) mod PAGE_SIZE = 0 \<and> unat (seg_size (segments s i)) mod PAGE_SIZE = 0"
proof -
  have l: "layout_ok s" using reach_ok [OF assms(1)] by (simp add: sasy_ok_def)
  then have "apart (segments s i) (segments s j)" using assms(2-4) by (simp add: layout_ok_def)
  moreover have "in_window (next_segment_base s) (segments s i)" using l assms(2) by (simp add: layout_ok_def)
  ultimately show ?thesis by (auto simp: apart_def in_window_def word_le_nat_alt)
qed

theorem segments_disjoint_witness:
  "\<exists>s i j. sasy_reach power_on s \<and> live s i \<and> live s j \<and> i \<noteq> j \<and>
    {unat (seg_base (segments s i)) ..< seg_end (segments s i)} \<inter> {unat (seg_base (segments s j)) ..< seg_end (segments s j)} = {}"
  by (rule two_segments) (use segments_disjoint in blast)

text \<open>
  C8. No handle outlives its segment: after every history of calls within the limits of \<open>sasy_reach\<close> (sizes that
  wrap neither the address counter nor the identifiers, reference counts below their maximum, resizing
  that shrinks or is refused) a handle that is still valid refers to a
  live segment, whose reference count is at least the number of handles that refer to it, and every
  entry of the registry of shared code names a live code segment. Closing one handle of a shared
  segment therefore never pulls the segment from under another.
\<close>

theorem handles_not_dangling:
  assumes "sasy_reach s0 s"
  shows "(\<forall>h i. handle_get_segment h s = Some i \<longrightarrow>
      live s i \<and> card {k. k < MAX_HANDLES \<and> h_valid (handles s k) \<and> h_seg (handles s k) = Some i} \<le> unat (seg_refcnt (segments s i))) \<and>
    (\<forall>p i. loader_find_code (loader_hash_file p) s = Some i \<longrightarrow> live s i \<and> seg_ty (segments s i) = SEG_CODE)"
proof -
  have ok: "sasy_ok s" "code_ok s" using reach_ok [OF assms] by simp_all
  have "live s i \<and> card (refs s i) \<le> unat (seg_refcnt (segments s i))" if "handle_get_segment h s = Some i" for h i
    using handle_live [OF ok(1) that] ok(1) by (simp add: sasy_ok_def refs_ok_def)
  moreover have "refs s i = {k. k < MAX_HANDLES \<and> h_valid (handles s k) \<and> h_seg (handles s k) = Some i}" for i
    by (auto simp: refs_def used_slots_def)
  moreover have "live s i \<and> seg_ty (segments s i) = SEG_CODE" if f: "loader_find_code h s = Some i" for h i
  proof -
    obtain j where j: "registered h s = Some j" "cr_seg (code_registry s j) = Some i"
      using f by (auto simp: loader_find_code_def split: if_splits option.splits)
    show ?thesis using ok(2) registered_Some [OF j(1)] j(2) by (fastforce simp: code_ok_def)
  qed
  ultimately show ?thesis by simp
qed

theorem handles_not_dangling_witness:
  "\<exists>s h i. sasy_reach power_on s \<and> handle_get_segment h s = Some i \<and> live s i \<and> 0 < unat (seg_refcnt (segments s i))"
proof (rule two_segments)
  fix h s i
  assume s: "sasy_reach power_on s" "handle_get_segment h s = Some i"
  have "unat h \<in> {k. k < MAX_HANDLES \<and> h_valid (handles s k) \<and> h_seg (handles s k) = Some i}"
    using handle_refers(1,2) [OF s(2)] by (simp add: used_slots_def)
  then have "0 < card {k. k < MAX_HANDLES \<and> h_valid (handles s k) \<and> h_seg (handles s k) = Some i}" by (subst card_gt_0_iff) auto
  moreover have "live s i \<and> card {k. k < MAX_HANDLES \<and> h_valid (handles s k) \<and> h_seg (handles s k) = Some i} \<le> unat (seg_refcnt (segments s i))"
    using handles_not_dangling [OF s(1)] s(2) by blast
  ultimately have "live s i \<and> 0 < unat (seg_refcnt (segments s i))" by linarith
  then show ?thesis using s by blast
qed

text \<open>
  The page fault handler finds the right segment: in every such history \<open>sasy_find_segment\<close> returns a
  segment for an address exactly when the address lies in the range of that live segment.
\<close>

theorem find_segment_iff:
  assumes "sasy_reach s0 s"
  shows "sasy_find_segment a s = Some i \<longleftrightarrow> live s i \<and> unat (seg_base (segments s i)) \<le> unat a \<and> unat a < seg_end (segments s i)"
proof -
  let ?P = "\<lambda>i. seg_id (segments s i) \<noteq> 0 \<and> a \<ge> seg_base (segments s i) \<and> a < seg_base (segments s i) + seg_size (segments s i)"
  have l: "layout_ok s" using reach_ok [OF assms] by (simp add: sasy_ok_def)
  have P: "?P j \<longleftrightarrow> unat (seg_base (segments s j)) \<le> unat a \<and> unat a < seg_end (segments s j)" and w: "in_window (next_segment_base s) (segments s j)"
    if "live s j" for j
  proof -
    show w: "in_window (next_segment_base s) (segments s j)" using l that by (simp add: layout_ok_def)
    then have "unat (seg_base (segments s j) + seg_size (segments s j)) = seg_end (segments s j)"
      by (simp add: in_window_def seg_end_def unat_word_ariths SASY_BASE_ADDR_def SASY_MAX_SIZE_def)
    then show "?P j \<longleftrightarrow> unat (seg_base (segments s j)) \<le> unat a \<and> unat a < seg_end (segments s j)"
      using that by (simp add: live_def word_le_nat_alt word_less_nat_alt)
  qed
  have u: "j = k" if "live s j" "live s k" "?P j" "?P k" for j k
  proof (rule ccontr)
    assume "j \<noteq> k"
    then have "apart (segments s j) (segments s k)" using l that(1,2) by (simp add: layout_ok_def)
    then show False using P [OF that(1)] P [OF that(2)] that(3,4) by (auto simp: apart_def)
  qed
  have f: "sasy_find_segment a s = Some i \<longleftrightarrow> sasy_is_segment_addr a \<and> live s i \<and> ?P i \<and> (\<forall>j < i. \<not> ?P j)"
    by (auto simp: sasy_find_segment_def find_from_Some_iff live_def)
  have "sasy_is_segment_addr a" if "live s i" "?P i"
    using w [OF that(1)] P [OF that(1)] that(2) by (auto simp: sasy_is_segment_addr_def in_window_def word_less_nat_alt)
  moreover have "\<not> ?P j" if "live s i" "?P i" "j < i" for j
    using u [of i j] that by (auto simp: live_def)
  ultimately show ?thesis using P [of i] unfolding f by blast
qed

theorem find_segment_iff_witness:
  "\<exists>s j. sasy_reach power_on s \<and> live s j \<and> sasy_find_segment (SASY_BASE_ADDR + 9000) s = Some j"
proof (rule two_segments)
  fix s j
  assume s: "sasy_reach power_on s" "live s j" "seg_base (segments s j) = SASY_BASE_ADDR + 8192" "seg_size (segments s j) = 4096"
  have "sasy_find_segment (SASY_BASE_ADDR + 9000) s = Some j"
    using find_segment_iff [OF s(1), of "SASY_BASE_ADDR + 9000" j] s(2-4) by (simp add: seg_end_def SASY_BASE_ADDR_def)
  then show ?thesis using s by blast
qed

section \<open>Outside the limits\<close>

text \<open>
  Growing a segment that is not resident only changes its size: the two segments of a booted machine
  overlap after \<open>sasy_resize\<close> has returned 0.
\<close>

lemma grow_overlaps:
  "\<exists>s h i j s'. sasy_reach power_on s \<and> handle_get_segment h s = Some i \<and> sasy_resize h 16384 s = Some (0, s') \<and> live s' i \<and> live s' j \<and> i \<noteq> j \<and>
    unat (SASY_BASE_ADDR + 8192) \<in> {unat (seg_base (segments s' i)) ..< seg_end (segments s' i)} \<inter> {unat (seg_base (segments s' j)) ..< seg_end (segments s' j)}"
proof (rule two_segments)
  fix s h i j
  assume s: "sasy_reach power_on s" "handle_get_segment h s = Some i" "live s i" "live s j" "i \<noteq> j" "seg_base (segments s i) = SASY_BASE_ADDR"
    "seg_size (segments s i) = 8192" "seg_base (segments s j) = SASY_BASE_ADDR + 8192" "seg_size (segments s j) = 4096"
    "\<not> seg_present (segments s i)" "seg_locked (segments s i) = 0" "seg_ty (segments s i) = SEG_DATA_AUTO"
  let ?s = "seg_klog (Log ''[SEG] Segment resized'') (upd_seg i (\<lambda>g. g\<lparr>seg_size := 16384\<rparr>) s)"
  have a: "align_up 16384 (of_nat PAGE_SIZE) = 16384" by (simp add: align_up_def PAGE_SIZE_def)
  have "sasy_resize h 16384 s = Some (0, ?s)"
    using s(2,7,10-12) handle_refers(4) [OF s(2)] by (simp add: sasy_resize_def Let_def a)
  moreover have "live ?s i" "live ?s j" "segments ?s i = (segments s i)\<lparr>seg_size := 16384\<rparr>" "segments ?s j = segments s j"
    using s(3-5) by (simp_all add: live_def seg_klog_def)
  moreover have "unat (SASY_BASE_ADDR + 8192) \<in> {unat (seg_base (segments ?s i)) ..< seg_end (segments ?s i)} \<inter>
      {unat (seg_base (segments ?s j)) ..< seg_end (segments ?s j)}"
    using s(6,8,9) calculation(4,5) by (simp add: seg_end_def SASY_BASE_ADDR_def)
  ultimately show ?thesis using s(1,2,5) by blast
qed

text \<open>
  \<open>sasy_lock\<close> takes a reference that \<open>sasy_unlock\<close> never gives back: a segment that was locked and
  unlocked once survives the closing of its only handle, and no handle is left to free it.
\<close>

lemma lock_leaks:
  assumes h: "handle_get_segment h s = Some i" and g: "live s i" "seg_present (segments s i)" "seg_refcnt (segments s i) = 1"
    "seg_locked (segments s i) = 0" "\<not> seg_dirty (segments s i)"
  shows "\<exists>u v w. sasy_lock h s = Some (seg_base (segments s i), u) \<and> sasy_unlock h u = Some v \<and> sasy_free h v = Some w \<and>
    live w i \<and> seg_present (segments w i) \<and> handle_get_segment h w = None"
proof -
  note hv = handle_refers(4) [OF h]
  let ?u = "upd_seg i (\<lambda>g. g\<lparr>seg_locked := seg_locked g + 1, seg_refcnt := seg_refcnt g + 1\<rparr>) s"
  let ?v = "upd_seg i (\<lambda>g. g\<lparr>seg_locked := seg_locked g - 1\<rparr>) ?u"
  let ?x = "upd_seg i (\<lambda>g. g\<lparr>seg_refcnt := seg_refcnt g - 1\<rparr>) ?v"
  let ?w = "handle_free h ?x"
  have hu: "handle_get_segment h ?u = Some i" "handle_valid h ?u" "handle_get_segment h ?v = Some i" "handle_valid h ?v"
    using h hv by (auto simp: handle_get_segment_def handle_valid_def split: if_splits)
  have sw: "segments ?w = segments ?x" by (simp add: handle_free_def set_handle_def Let_def)
  have "sasy_lock h s = Some (seg_base (segments s i), ?u)" using h hv g by (simp add: sasy_lock_def Let_def)
  moreover have "sasy_unlock h ?u = Some ?v" using hu g by (simp add: sasy_unlock_def Let_def)
  moreover have "sasy_free h ?v = Some ?w" using hu g sw by (simp add: sasy_free_def Let_def)
  moreover have "live ?w i" "seg_present (segments ?w i)" using g sw by (simp_all add: live_def)
  moreover have "handle_get_segment h ?w = None"
    using handle_refers(1) [OF h] by (auto simp: handle_get_segment_def handle_free_def set_handle_def used_slots_def bad_handle_iff null_handle_def Let_def)
  ultimately show ?thesis by blast
qed

text \<open>
  The check against the end of the window is made after an addition that wraps: one huge segment
  passes it and moves the counter to low addresses, where the next segment is put.
\<close>

lemma create_wraps:
  "\<exists>h s. sasy_create_ex (0x100000 - SASY_BASE_ADDR) SEG_DATA_AUTO SEG_FLAGS_RW 1 (sasy_init s0) = Some (h, s) \<and>
    h \<noteq> INVALID_HANDLE \<and> next_segment_base s = 0x100000"
proof (cases rule: alloc_segment_cases [of "sasy_init s0"])
  case full
  then have "find_from (\<lambda>i. seg_id (segments (sasy_init s0) i) = 0) 0 MAX_SEGMENTS = None" by (simp add: alloc_segment_def split: option.splits)
  then have "seg_id (segments (sasy_init s0) 0) \<noteq> 0" by (simp add: find_from_None_iff MAX_SEGMENTS_def)
  then show ?thesis by (simp add: sasy_init_fields MAX_SEGMENTS_def)
next
  case (slot i)
  let ?sz = "0x100000 - SASY_BASE_ADDR"
  define t where "t = entered i (align_up ?sz (of_nat PAGE_SIZE)) SEG_DATA_AUTO SEG_FLAGS_RW (sasy_init s0)"
  have sz: "?sz \<noteq> 0" "align_up ?sz (of_nat PAGE_SIZE) = ?sz" by (simp_all add: SASY_BASE_ADDR_def align_up_def PAGE_SIZE_def)
  note cr = create_from_slot [OF sz(1) slot(1,3), of SEG_DATA_AUTO SEG_FLAGS_RW 1, folded t_def]
  have nb: "next_segment_base t = 0x100000" by (simp add: t_def sz sasy_init_fields)
  have us: "used_slots t = {}" using sasy_init_fields(6) by (simp add: used_slots_def t_def)
  have "handles_inv (sasy_init s0)" using sasy_init_ok by (simp add: sasy_ok_def)
  then have inv: "handles_inv t" using us sasy_init_fields(6) by (simp add: handles_inv_def t_def)
  show ?thesis
  proof (cases rule: handle_alloc_cases [OF inv, of i 1])
    case 1
    then have "0 \<in> used_slots t" by (simp add: MAX_HANDLES_def)
    then show ?thesis using us by simp
  next
    case (2 k)
    have "k \<noteq> INVALID_HANDLE" using 2(1) bad_handle_INVALID by (auto simp: bad_handle_iff)
    then show ?thesis using 2(3) nb unfolding cr by (simp add: SASY_BASE_ADDR_def SASY_MAX_SIZE_def seg_klog_def set_handle_def)
  qed
qed

end
