(* ===== verification/Sasy_Paging.thy ===== *)
theory Sasy_Paging
  imports Sasy_Life
begin

text \<open>
  The pages of a segment and the page tables: what the loops that take, map, unmap and give back
  pages (\<open>take_pages\<close>, \<open>map_pages\<close>, \<open>unmap_range\<close>, \<open>give_pages\<close>) do to well-formed tables. A mapping loop that reports
  success has mapped every byte of its range, one after the other, to consecutive physical addresses.
\<close>

section \<open>Unmapping and giving back\<close>

lemma unmap_keeps:
  assumes ok: "vmm_ok s own" and u: "vmm_unmap v s = Some s'"
  shows "vmm_ok s' own" and "vmm_mm s' = vmm_mm s" and "kernel_pml4 s' = kernel_pml4 s"
    and "clear_path (vmem s) 0 3 (kernel_pml4 s) v \<Longrightarrow> clear_path (vmem s') 0 3 (kernel_pml4 s') v"
proof -
  show "vmm_ok s' own" using unmap_page [OF ok, of v] u by auto
  show "vmm_mm s' = vmm_mm s" "kernel_pml4 s' = kernel_pml4 s"
    using unmap_run [OF ok, of v] u by (auto simp: vmm_invlpg_def set_entry_def split: option.splits if_splits)
  assume c: "clear_path (vmem s) 0 3 (kernel_pml4 s) v"
  show "clear_path (vmem s') 0 3 (kernel_pml4 s') v"
  proof (cases "walk0 s v")
    case None
    then show ?thesis using unmap_run [OF ok, of v] u c by simp
  next
    case (Some t)
    have r: "reach (vmem s) 3 (kernel_pml4 s) v 0 t" using Some walk0_reach by simp
    have tok: "tables_ok (vmem s) own" "own (kernel_pml4 s) = Some (3, pth 3 v)" using ok by (simp_all add: vmm_ok_def pth_root)
    have o: "own t = Some (0, pth 0 v)" using reach_owner [OF tok _ r] by simp
    have ch: "changes_only own t (ix 0 v) (vmem s) ((vmem s)(slot t (ix 0 v) := 0))" by (rule changes_only_write [OF tok(1) o ix_bound])
    have "s' = s \<or> vmem s' = (vmem s)(slot t (ix 0 v) := 0) \<and> kernel_pml4 s' = kernel_pml4 s"
      using unmap_run [OF ok, of v] u Some by (auto simp: vmm_invlpg_def set_entry_def split: if_splits)
    moreover have "reach ((vmem s)(slot t (ix 0 v) := 0)) 3 (kernel_pml4 s) v 0 t" by (rule reach_frame [OF tok(1) ch o tok(2) _ r]) simp
    ultimately show ?thesis using c reach_clear by metis
  qed
qed

lemma unmap_range_ok:
  assumes "unmap_range a e s = Some s'" and "vmm_ok (seg_vmm s) own"
  shows "vmm_ok (seg_vmm s') own \<and> vmm_mm (seg_vmm s') = vmm_mm (seg_vmm s)"
proof -
  have "vmm_ok (seg_vmm s) own \<longrightarrow> vmm_ok (seg_vmm s') own \<and> vmm_mm (seg_vmm s') = vmm_mm (seg_vmm s)"
  proof (rule unmap_range.raw_induct [where P = "\<lambda>a e s s'. vmm_ok (seg_vmm s) own \<longrightarrow> vmm_ok (seg_vmm s') own \<and> vmm_mm (seg_vmm s') = vmm_mm (seg_vmm s)",
        OF _ assms(1)])
    fix f a e s y
    assume IH: "\<And>a e s y. f a e s = Some y \<Longrightarrow> vmm_ok (seg_vmm s) own \<longrightarrow> vmm_ok (seg_vmm y) own \<and> vmm_mm (seg_vmm y) = vmm_mm (seg_vmm s)"
      and y: "(if a < e then case unmap_one a s of None \<Rightarrow> None | Some s \<Rightarrow> f (a + of_nat PAGE_SIZE) e s else Some s) = Some y"
    show "vmm_ok (seg_vmm s) own \<longrightarrow> vmm_ok (seg_vmm y) own \<and> vmm_mm (seg_vmm y) = vmm_mm (seg_vmm s)"
    proof (cases "a < e")
      case True
      then obtain t where t: "unmap_one a s = Some t" "f (a + of_nat PAGE_SIZE) e t = Some y" using y by (auto split: option.splits)
      then obtain w where w: "vmm_unmap a (seg_vmm s) = Some w" "seg_vmm t = w" by (auto simp: unmap_one_def split: bind_splits)
      show ?thesis using IH [OF t(2)] unmap_keeps(1,2) [OF _ w(1)] w(2) by auto
    qed (use y in simp)
  qed
  then show ?thesis using assms(2) by blast
qed

text \<open>The frames of a segment: managed memory, not frame 0, and none of them a page table.\<close>

definition own_frames :: "owners \<Rightarrow> u64 \<Rightarrow> nat \<Rightarrow> bool" where
  "own_frames own p n \<longleftrightarrow> (\<forall>j < n. \<exists>f. p + of_nat j * of_nat PAGE_SIZE = page_addr f \<and> 0 < f \<and> f < 16777216 \<and> own (page_addr f) = None)"

lemma free_page_ok:
  assumes ok: "vmm_ok (seg_vmm s) own" and f: "0 < f" "f < 16777216" "own (page_addr f) = None"
  shows "vmm_ok (seg_vmm (free_page (page_addr f) s)) own \<and> frames_left (seg_vmm s) \<subseteq> frames_left (seg_vmm (free_page (page_addr f) s))"
proof -
  let ?p = "mm_pmm (vmm_mm (seg_vmm s))"
  have inv: "pmm_inv ?p" "ready ?p" using vmm_ok_parts [OF ok] by blast+
  note fr = pmm_free_page_correct [OF inv, of "page_addr f"]
  have u: "used (pmm_free_page (page_addr f) ?p) = used ?p - {f}" using fr(1) page_addr_div [OF f(2)] by simp
  have m: "max_frames (pmm_free_page (page_addr f) ?p) = max_frames ?p"
    by (simp add: pmm_free_page_def Let_def bitmap_clear_def pmm_klog_def)
  have "g \<in> used ?p - {f}" if "g < 16777216" "own (page_addr g) \<noteq> None" for g
    using vmm_ok_parts(5) [OF ok] that f(3) by blast
  then have "vmm_ok (seg_vmm (free_page (page_addr f) s)) own"
    using ok fr(2) u f(1) by (auto simp: vmm_ok_def free_page_def)
  moreover have "frames_left (seg_vmm s) \<subseteq> frames_left (seg_vmm (free_page (page_addr f) s))"
    by (auto simp: free_page_def free_frames_def m u)
  ultimately show ?thesis by blast
qed

lemma give_pages_ok:
  assumes "vmm_ok (seg_vmm s) own" and "own_frames own p n"
  shows "vmm_ok (seg_vmm (give_pages p n s)) own \<and> frames_left (seg_vmm s) \<subseteq> frames_left (seg_vmm (give_pages p n s))"
  unfolding give_pages_def
proof (rule for_range_inv)
  fix j :: nat and t :: sasy_state
  assume t: "vmm_ok (seg_vmm t) own \<and> frames_left (seg_vmm s) \<subseteq> frames_left (seg_vmm t)" and j: "j < n"
  obtain f where f: "p + of_nat j * of_nat PAGE_SIZE = page_addr f" "0 < f" "f < 16777216" "own (page_addr f) = None"
    using assms(2) j by (auto simp: own_frames_def)
  show "vmm_ok (seg_vmm (free_page (p + of_nat j * of_nat PAGE_SIZE) t)) own \<and>
      frames_left (seg_vmm s) \<subseteq> frames_left (seg_vmm (free_page (p + of_nat j * of_nat PAGE_SIZE) t))"
    unfolding f(1) using free_page_ok [of t own f] f(2-4) t by blast
qed (use assms in simp)

section \<open>Taking pages\<close>

text \<open>Frames are taken from the free ones, so that they are not page tables; the frames that were left stay free.\<close>

lemma take_one:
  assumes ok: "vmm_ok v own" and left: "0 < card (frames_left v)"
  obtains f m where "pmm_alloc_page (vmm_mm v) = Some (page_addr f, m)" "0 < f" "f < 16777216" "own (page_addr f) = None"
    "f \<in> frames_left v" "vmm_ok (v\<lparr>vmm_mm := m\<rparr>) own" "frames_left (v\<lparr>vmm_mm := m\<rparr>) = frames_left v - {f}"
    "card (frames_left v) = Suc (card (frames_left (v\<lparr>vmm_mm := m\<rparr>)))"
proof -
  note p = vmm_ok_parts [OF ok]
  have ne: "frames_left v \<noteq> {}" using left by auto
  obtain f m where f: "pmm_alloc_page (vmm_mm v) = Some (page_addr f, m)" "f \<in> frames_left v"
    "free_frames (mm_pmm m) = frames_left v - {f}" "pmm_inv (mm_pmm m)" "ready (mm_pmm m)" "used (mm_pmm m) = insert f (used (mm_pmm (vmm_mm v)))"
    by (rule pmm_alloc_page_takes [OF p(2,3) ne]) (rule that)
  have nu: "f \<notin> used (mm_pmm (vmm_mm v))" using f(2) by (simp add: free_frames_def)
  have lt: "f < 16777216" by (rule used_frames_bound [OF p(2) f(2)])
  have "f \<noteq> 0" using nu p(4) by metis
  moreover have "own (page_addr f) = None" using p(5) lt nu by blast
  moreover have "vmm_ok (v\<lparr>vmm_mm := m\<rparr>) own" using ok f(4-6) by (simp add: vmm_ok_def)
  moreover have "card (frames_left v) = Suc (card (frames_left v - {f}))" using f(2) by (metis card_Suc_Diff1 finite_free_frames)
  ultimately show thesis using that [OF f(1) _ lt] f(2,3) by simp
qed

lemma page_addr_nonzero: "0 < f \<Longrightarrow> f < 16777216 \<Longrightarrow> page_addr f \<noteq> 0"
  using unat_page_addr [of f] by (auto simp: PAGE_SIZE_def)

lemma take_pages_ok:
  assumes "take_pages tag n i first s = Some (Some q, s')" and "vmm_ok (seg_vmm s) own" and "n \<le> card (frames_left (seg_vmm s))"
  shows "vmm_ok (seg_vmm s') own \<and> card (frames_left (seg_vmm s)) \<le> card (frames_left (seg_vmm s')) + n \<and>
    (0 < i \<longrightarrow> q = first) \<and> (\<forall>j. i \<le> j \<and> j < i + n \<longrightarrow> q + of_nat j * of_nat PAGE_SIZE \<noteq> 0)"
  using assms
proof (induction n arbitrary: i first s)
  case (Suc n)
  have left: "0 < card (frames_left (seg_vmm s))" using Suc.prems(3) by simp
  obtain f m where f: "pmm_alloc_page (vmm_mm (seg_vmm s)) = Some (page_addr f, m)" "0 < f" "f < 16777216"
    "vmm_ok ((seg_vmm s)\<lparr>vmm_mm := m\<rparr>) own" "card (frames_left (seg_vmm s)) = Suc (card (frames_left ((seg_vmm s)\<lparr>vmm_mm := m\<rparr>)))"
    by (rule take_one [OF Suc.prems(2) left]) (rule that)
  let ?s = "s\<lparr>seg_vmm := (seg_vmm s)\<lparr>vmm_mm := m\<rparr>\<rparr>"
  let ?first = "if i = 0 then page_addr f else first"
  note nz = page_addr_nonzero [OF f(2,3)]
  have eq: "0 < i \<Longrightarrow> page_addr f = first + of_nat i * of_nat PAGE_SIZE" and rec: "take_pages tag n (Suc i) ?first ?s = Some (Some q, s')"
    using Suc.prems(1) f(1) nz by (auto simp: Let_def split: if_splits)
  have ih: "vmm_ok (seg_vmm s') own" "card (frames_left (seg_vmm ?s)) \<le> card (frames_left (seg_vmm s')) + n" "q = ?first"
    "\<And>j. Suc i \<le> j \<Longrightarrow> j < Suc i + n \<Longrightarrow> q + of_nat j * of_nat PAGE_SIZE \<noteq> 0"
    using Suc.IH [OF rec] f(4,5) Suc.prems(3) by (simp_all only: sasy_state.simps handle_state.simps) auto
  have "q + of_nat j * of_nat PAGE_SIZE \<noteq> 0" if "i \<le> j" "j < i + Suc n" for j
  proof (cases "j = i")
    case True
    then show ?thesis using ih(3) eq nz by (cases "i = 0") simp_all
  qed (use that ih(4) in simp)
  then show ?case using ih(1-3) f(5) by simp
qed auto

section \<open>Mapping pages\<close>

text \<open>Inside a page the translation moves with the address.\<close>

lemma page_or:
  assumes "take_bit 12 v = 0" and "take_bit 12 x = (x :: u64)"
  shows "v + x = v OR x" and "ix j (v OR x) = ix j v"
proof -
  have v: "\<not> bit v n" if "n < 12" for n using assms(1) that by (metis bit_take_bit_iff bit_0_eq bot_apply bot_bool_def)
  have x: "\<not> bit x n" if "12 \<le> n" for n using assms(2) that by (metis bit_take_bit_iff not_le)
  have "v AND x = 0" by (rule bit_word_eqI) (use v x not_le in \<open>auto simp: bit_and_iff\<close>)
  then show "v + x = v OR x" by (rule disjunctive_add_eq_or)
  have "drop_bit (12 + 9 * j) x = 0" by (rule bit_word_eqI) (use x in \<open>simp add: bit_drop_bit_eq\<close>)
  then show "ix j (v OR x) = ix j v" by (simp add: ix_def)
qed

lemma look_offset:
  assumes "look m k t v = Some p" and v: "take_bit 12 v = 0" and x: "take_bit 12 x = x"
  shows "look m k t (v + x) = Some (p + x)"
proof -
  have vb: "\<not> bit v n" if "n < 12" for n using v that by (metis bit_take_bit_iff bit_0_eq bot_apply bot_bool_def)
  have xb: "\<not> bit x n" if "12 \<le> n" for n using x that by (metis bit_take_bit_iff not_le)
  have leaf: "target e OR ((v OR x) AND (2 ^ l - 1)) = (target e OR (v AND (2 ^ l - 1))) + x" if l: "12 \<le> l" for e l
  proof -
    have m: "(2 ^ l - 1 :: u64) = mask l" by (simp add: mask_eq_exp_minus_1)
    have "(target e OR (v AND mask l)) AND x = 0"
      by (rule bit_word_eqI) (use vb xb not_le in \<open>auto simp: bit_and_iff bit_or_iff target_def mask_bits\<close>)
    then have "(target e OR (v AND mask l)) + x = (target e OR (v AND mask l)) OR x" by (rule disjunctive_add_eq_or)
    also have "\<dots> = target e OR ((v OR x) AND mask l)"
      by (rule bit_word_eqI) (use xb l in \<open>auto simp: bit_and_iff bit_or_iff bit_mask_iff intro: ccontr\<close>)
    finally show ?thesis by (simp only: m)
  qed
  show ?thesis unfolding page_or(1) [OF v x] using assms(1)
  proof (induction k arbitrary: t)
    case 0
    then show ?case using leaf [of 12] by (simp add: Let_def page_or(2) [OF v x] split: if_splits)
  next
    case (Suc k)
    then show ?case using leaf [of "12 + 9 * Suc k"] by (auto simp: Let_def page_or(2) [OF v x] split: if_splits)
  qed
qed

text \<open>Pages of one segment are different pages to the tables.\<close>

lemma same_page_take:
  assumes "same_page a b" and "take_bit 12 a = 0" and "take_bit 12 b = 0"
  shows "take_bit 48 a = take_bit 48 b"
proof (rule bit_word_eqI)
  fix n :: nat
  assume "n < LENGTH(64)"
  have z: "\<not> bit c n" if "take_bit 12 c = 0" "n < 12" for c :: u64 using that by (metis bit_take_bit_iff bit_0_eq bot_apply bot_bool_def)
  have "bit a n = bit b n" if "12 \<le> n" "n < 48"
    using assms(1) that unfolding same_page_pth same_region_bits [OF le0] by simp
  then show "bit (take_bit 48 a) n = bit (take_bit 48 b) n"
    using z [OF assms(2)] z [OF assms(3)] by (cases "n < 12") (auto simp: bit_take_bit_iff)
qed

lemma unat_add_mod: "n \<le> 64 \<Longrightarrow> unat (a + b :: u64) mod 2 ^ n = (unat a + unat b) mod 2 ^ n"
  using mod_mod_cancel [OF le_imp_power_dvd [of n 64 "2 :: nat"], of "unat a + unat b"] by (simp add: unat_word_ariths)

lemma take_bit_unat: "unat (take_bit n a :: u64) = unat a mod 2 ^ n"
  by (simp add: unsigned_take_bit_eq take_bit_eq_mod [where 'a = nat])

lemma aligned_iff: "take_bit 12 (v :: u64) = 0 \<longleftrightarrow> unat v mod PAGE_SIZE = 0"
  using take_bit_unat [of 12 v] by (auto simp: PAGE_SIZE_def word_unat_eq_iff)

lemma page_offset: "k < 2 ^ 36 \<Longrightarrow> unat (of_nat k * of_nat PAGE_SIZE :: u64) = k * 4096"
  using unat_of_nat [where 'a = 64, of "k * 4096"] by (simp add: PAGE_SIZE_def)

lemma page_aligned:
  assumes "take_bit 12 v = 0" and "k < 2 ^ 36"
  shows "take_bit 12 (v + of_nat k * of_nat PAGE_SIZE :: u64) = 0"
  using assms unat_add_mod [of 12 v "of_nat k * of_nat PAGE_SIZE"] unfolding page_offset [OF assms(2)] aligned_iff
  by (simp add: PAGE_SIZE_def mod_add_eq [symmetric])

lemma pages_apart:
  assumes "take_bit 12 v = 0" and "same_page (v + of_nat i * of_nat PAGE_SIZE) (v + of_nat j * of_nat PAGE_SIZE)"
    and "i < 2 ^ 36" and "j < 2 ^ 36"
  shows "i = j"
proof -
  let ?p = "\<lambda>k. of_nat k * of_nat PAGE_SIZE :: u64"
  have "take_bit 48 (v + ?p i) = take_bit 48 (v + ?p j)"
    by (rule same_page_take [OF assms(2)]) (use page_aligned [OF assms(1)] assms(3,4) in blast)+
  then have "unat (v + ?p i) mod 2 ^ 48 = unat (v + ?p j) mod 2 ^ 48" using take_bit_unat by metis
  then have "(unat v + i * 4096) mod 2 ^ 48 = (unat v + j * 4096) mod 2 ^ 48"
    using unat_add_mod [of 48 v] page_offset assms(3,4) by simp
  then have "(int (i * 4096) - int (j * 4096)) mod 2 ^ 48 = 0"
    by (metis (no_types, lifting) add_diff_cancel_left mod_eq_dvd_iff of_nat_add of_nat_mod of_nat_numeral of_nat_power dvd_eq_mod_eq_0)
  moreover have "\<bar>int (i * 4096) - int (j * 4096)\<bar> < 2 ^ 48" using assms(3,4) by simp
  ultimately have "int (i * 4096) = int (j * 4096)" by (metis dvd_eq_mod_eq_0 dvd_imp_le_int eq_iff_diff_eq_0 not_le abs_of_nonneg zero_le_power zero_le_numeral)
  then show ?thesis by simp
qed

text \<open>A mapping loop that reports success: every page translates to its frame, because the loop checks each and later pages leave earlier ones alone.\<close>

lemma map_pages_ok:
  assumes "map_pages tag virt phys flags pgs n i s = Some (True, s')" and "vmm_ok (seg_vmm s) own" and "3 * n \<le> card (frames_left (seg_vmm s))"
    and v: "take_bit 12 virt = 0" and "i + n \<le> 2 ^ 36" and "\<And>j. i \<le> j \<Longrightarrow> j < i + n \<Longrightarrow> phys + of_nat j * of_nat PAGE_SIZE \<noteq> 0"
  shows "\<exists>own'. vmm_ok (seg_vmm s') own' \<and> grows own (seg_vmm s) own' (seg_vmm s') \<and>
    (\<forall>w. (\<forall>j. i \<le> j \<and> j < i + n \<longrightarrow> \<not> same_page w (virt + of_nat j * of_nat PAGE_SIZE)) \<longrightarrow> translation (seg_vmm s') w = translation (seg_vmm s) w) \<and>
    (\<forall>j. i \<le> j \<and> j < i + n \<longrightarrow> translation (seg_vmm s') (virt + of_nat j * of_nat PAGE_SIZE) = Some (phys + of_nat j * of_nat PAGE_SIZE))"
  using assms(1-3,5,6)
proof (induction n arbitrary: i s own)
  case 0
  then show ?case by (intro exI [of _ own]) auto
next
  case (Suc n)
  let ?v = "\<lambda>j. virt + of_nat j * of_nat PAGE_SIZE" and ?p = "\<lambda>j. phys + of_nat j * of_nat PAGE_SIZE"
  have "3 \<le> card (frames_left (seg_vmm s))" using Suc.prems(3) by simp
  from map_any [OF Suc.prems(2) this] obtain w own1 where m: "vmm_map (?v i) (?p i) flags (seg_vmm s) = Some w" "map_effect (?v i) own (seg_vmm s) own1 w 3"
    by metis
  have ok1: "vmm_ok w own1" "3 * n \<le> card (frames_left w)" "grows own (seg_vmm s) own1 w"
    using m(2) Suc.prems(3) by (auto simp: map_effect_def)
  have tr: "vmm_translate (?v i) w = Some (case translation w (?v i) of None \<Rightarrow> 0 | Some a \<Rightarrow> a)" by (rule translate_look [OF ok1(1)])
  have nz: "?p i \<noteq> 0" using Suc.prems(5) by simp
  have rec: "map_pages tag virt phys flags pgs n (Suc i) (s\<lparr>seg_vmm := w\<rparr>) = Some (True, s')" and chk: "translation w (?v i) = Some (?p i)"
    using Suc.prems(1) m(1) tr nz by (auto simp: Let_def split: if_splits option.splits bind_splits)
  obtain own' where ih: "vmm_ok (seg_vmm s') own'" "grows own1 w own' (seg_vmm s')"
    "\<And>x. (\<And>j. Suc i \<le> j \<Longrightarrow> j < Suc i + n \<Longrightarrow> \<not> same_page x (?v j)) \<Longrightarrow> translation (seg_vmm s') x = translation w x"
    "\<And>j. Suc i \<le> j \<Longrightarrow> j < Suc i + n \<Longrightarrow> translation (seg_vmm s') (?v j) = Some (?p j)"
    using Suc.IH [OF rec, of own1] ok1 Suc.prems(4,5) by (auto simp: add.assoc)
  have "\<not> same_page (?v i) (?v j)" if "Suc i \<le> j" "j < Suc i + n" for j
    using pages_apart [OF v, of i j] that Suc.prems(4) by fastforce
  then have first: "translation (seg_vmm s') (?v i) = Some (?p i)" using ih(3) chk by simp
  have "translation (seg_vmm s') (?v j) = Some (?p j)" if "i \<le> j" "j < i + Suc n" for j
    using first ih(4) [of j] that by (cases "j = i") simp_all
  moreover have "translation (seg_vmm s') x = translation (seg_vmm s) x" if "\<forall>j. i \<le> j \<and> j < i + Suc n \<longrightarrow> \<not> same_page x (?v j)" for x
  proof -
    have "\<not> same_page x (?v i)" using that by simp
    then have "translation w x = translation (seg_vmm s) x" using m(2) unfolding map_effect_def by blast
    moreover have "translation (seg_vmm s') x = translation w x" by (rule ih(3)) (use that in simp)
    ultimately show ?thesis by metis
  qed
  ultimately show ?case using ih(1) grows_trans [OF ok1(3) ih(2)] by blast
qed

lemma mapped_bytes:
  assumes "vmm_ok s own" and v: "take_bit 12 virt = 0" and n: "n \<le> 2 ^ 36" and k: "k < n * PAGE_SIZE"
    and tr: "\<And>j. j < n \<Longrightarrow> translation s (virt + of_nat j * of_nat PAGE_SIZE) = Some (phys + of_nat j * of_nat PAGE_SIZE)"
  shows "vmm_translate (virt + of_nat k) s = Some (phys + of_nat k)"
proof -
  define j x where "j = k div PAGE_SIZE" and "x = (of_nat (k mod PAGE_SIZE) :: u64)"
  have j: "j < n" "j < 2 ^ 36" using k n by (auto simp: j_def PAGE_SIZE_def less_mult_imp_div_less)
  have "k = j * PAGE_SIZE + k mod PAGE_SIZE" by (simp add: j_def)
  then have kw: "of_nat k = of_nat j * of_nat PAGE_SIZE + x" unfolding x_def by (metis of_nat_add of_nat_mult)
  have "unat x = k mod PAGE_SIZE" by (simp add: x_def unat_of_nat PAGE_SIZE_def)
  then have x: "take_bit 12 x = x" using take_bit_unat [of 12 x] by (simp add: word_unat_eq_iff PAGE_SIZE_def)
  have "translation s (virt + of_nat j * of_nat PAGE_SIZE + x) = Some (phys + of_nat j * of_nat PAGE_SIZE + x)"
    by (rule look_offset [OF tr [OF j(1)] page_aligned [OF v j(2)] x])
  then have "translation s (virt + of_nat k) = Some (phys + of_nat k)" by (simp add: kw add.assoc)
  then show ?thesis using translate_look [OF assms(1)] by simp
qed

end
