(* ===== verification/Sasy_Swap.thy ===== *)
theory Sasy_Swap
  imports Sasy_Paging
begin

text \<open>
  Swapping keeps the contents of segments: memory and device round trips, what \<open>swap_out\<close> and
  \<open>sasy_pagein\<close> do step by step, and the two together.
\<close>

section \<open>Memory\<close>

text \<open>The physical address behind a virtual one.\<close>

definition ptr :: "u64 \<Rightarrow> sasy_state \<Rightarrow> u64" where
  "ptr v s = (case vmm_translate v (seg_vmm s) of Some p \<Rightarrow> p | None \<Rightarrow> 0)"

lemma peek_ptr: "peek v s = ram s (ptr v s)" and poke_ptr: "poke v b s = s\<lparr>ram := (ram s)(ptr v s := b)\<rparr>"
  by (simp_all add: peek_def poke_def ptr_def)

lemma ptr_ram [simp]: "ptr v (s\<lparr>ram := r\<rparr>) = ptr v s"
  by (simp add: ptr_def)

lemma mem_write_ram:
  assumes "inj_on (\<lambda>k. ptr (v + of_nat k) s) {..<length bs}"
  shows "\<exists>r. mem_write v bs s = s\<lparr>ram := r\<rparr> \<and> (\<forall>k < length bs. r (ptr (v + of_nat k) s) = bs ! k) \<and>
    (\<forall>p. p \<notin> (\<lambda>k. ptr (v + of_nat k) s) ` {..<length bs} \<longrightarrow> r p = ram s p)"
  using assms
proof (induction bs arbitrary: v s)
  case Nil
  show ?case by (rule exI [of _ "ram s"]) simp
next
  case (Cons b bs)
  let ?f = "\<lambda>k. ptr (v + of_nat k) s" and ?s = "s\<lparr>ram := (ram s)(ptr v s := b)\<rparr>"
  have f: "ptr (v + 1 + of_nat k) ?s = ?f (Suc k)" for k by (simp add: add.assoc)
  have im: "?f ` {..<length (b # bs)} = insert (ptr v s) ((\<lambda>k. ?f (Suc k)) ` {..<length bs})"
    unfolding length_Cons lessThan_Suc_eq_insert_0 by (simp add: image_image)
  have "inj_on (\<lambda>k. ?f (Suc k)) {..<length bs}"
  proof (rule inj_onI)
    fix x y
    assume "x \<in> {..<length bs}" "y \<in> {..<length bs}" "?f (Suc x) = ?f (Suc y)"
    then show "x = y" using inj_onD [OF Cons.prems, of "Suc x" "Suc y"] by simp
  qed
  then have "inj_on (\<lambda>k. ptr (v + 1 + of_nat k) ?s) {..<length bs}" unfolding f .
  from Cons.IH [OF this] obtain r where r: "mem_write (v + 1) bs ?s = ?s\<lparr>ram := r\<rparr>" "\<And>k. k < length bs \<Longrightarrow> r (?f (Suc k)) = bs ! k"
    "\<And>p. p \<notin> (\<lambda>k. ?f (Suc k)) ` {..<length bs} \<Longrightarrow> r p = ((ram s)(ptr v s := b)) p" unfolding f by auto
  have "?f 0 \<noteq> ?f (Suc k)" if "k < length bs" for k using inj_onD [OF Cons.prems, of 0 "Suc k"] that by auto
  then have "ptr v s \<notin> (\<lambda>k. ?f (Suc k)) ` {..<length bs}" by auto
  then have r0: "r (ptr v s) = b" using r(3) by simp
  have "r (?f k) = (b # bs) ! k" if "k < length (b # bs)" for k using that r0 r(2) by (cases k) auto
  then show ?case using r(1,3) unfolding im by (intro exI [of _ r]) (simp add: poke_ptr)
qed

lemma mem_read_write:
  assumes "inj_on (\<lambda>k. ptr (v + of_nat k) s) {..<length bs}"
  shows "mem_read v (length bs) (mem_write v bs s) = bs"
proof -
  obtain r where "mem_write v bs s = s\<lparr>ram := r\<rparr>" "\<And>k. k < length bs \<Longrightarrow> r (ptr (v + of_nat k) s) = bs ! k"
    using mem_write_ram [OF assms] by blast
  then show ?thesis by (intro nth_equalityI) (simp_all add: mem_read_def peek_ptr)
qed

lemma mem_write_fields:
  "segments (mem_write v bs s) = segments s" "seg_vmm (mem_write v bs s) = seg_vmm s" "swap_stats (mem_write v bs s) = swap_stats s"
  by (induction bs arbitrary: v s) (simp_all add: poke_def)

lemma mem_read_cong: "seg_vmm s' = seg_vmm s \<Longrightarrow> ram s' = ram s \<Longrightarrow> mem_read v n s' = mem_read v n s"
  by (simp add: mem_read_def peek_ptr ptr_def)

section \<open>The device\<close>

lemma dev_read_write:
  assumes w: "dev_write off bs d = (0, d')" and n: "length bs < 2 ^ 64" 
  shows "dev_read off (length bs) d' = Some bs"
proof -
  have c: "pmem_check d off (of_nat (length bs)) \<and> pmem_kind d = PMEM_BACKEND_IDE \<and> drive_ok d off"
    and d': "d' = d\<lparr>disk := (\<lambda>a. let k = unat (a - off)
                in if k < length bs \<and> k mod 4096 = 0 then put_bytes 0 (take 4096 (drop k bs)) zero_page else disk d a)\<rparr>"
    using w by (auto simp: dev_write_def split: if_splits)
  have "get_byte (disk d' (off + of_nat (i div 4096 * 4096))) (i mod 4096) = bs ! i" if i: "i < length bs" for i
  proof -
    define k where "k = i div 4096 * 4096"
    have k: "k \<le> i" "k + i mod 4096 = i" "k mod 4096 = 0" by (simp_all add: k_def div_times_less_eq_dividend)
    then have u: "unat (of_nat k :: u64) = k" using i n by (simp add: unat_of_nat)
    have "disk d' (off + of_nat k) = put_bytes 0 (take 4096 (drop k bs)) zero_page"
      using k i u by (simp add: d' Let_def)
    moreover have "i mod 4096 < length (take 4096 (drop k bs))" using k i by simp
    ultimately show ?thesis using k i unfolding k_def [symmetric] by (simp add: get_put_bytes)
  qed
  then have "map (\<lambda>i. get_byte (disk d' (off + of_nat (i div 4096 * 4096))) (i mod 4096)) [0..<length bs] = bs"
    by (intro nth_equalityI) simp_all
  then show ?thesis using c by (simp add: dev_read_def d' pmem_check_def pmem_ready_def)
qed

section \<open>Swapping out\<close>

lemma moves_fields:
  assumes "moves s s'"
  shows "segments s' = segments s" "g_bfs s' = g_bfs s" "ram s' = ram s" "swap_ready s' = swap_ready s" "swap_base s' = swap_base s" "swap_size s' = swap_size s"
  using assms by (auto simp: moves_def)

lemma swap_alloc_fields:
  "segments (snd (swap_alloc z s)) = segments s" "g_bfs (snd (swap_alloc z s)) = g_bfs s" "ram (snd (swap_alloc z s)) = ram s"
  "seg_vmm (snd (swap_alloc z s)) = seg_vmm s" "swap_ready (snd (swap_alloc z s)) = swap_ready s"
  "swap_base (snd (swap_alloc z s)) = swap_base s" "swap_size (snd (swap_alloc z s)) = swap_size s"
  by (simp_all add: swap_alloc_def seg_klog_def Let_def split: option.split)

lemma swap_reserve_fields:
  "g_bfs (swap_reserve i s) = g_bfs s" "ram (swap_reserve i s) = ram s" "seg_vmm (swap_reserve i s) = seg_vmm s" "swap_ready (swap_reserve i s) = swap_ready s"
  "swap_base (swap_reserve i s) = swap_base s" "swap_size (swap_reserve i s) = swap_size s"
  "\<exists>w. segments (swap_reserve i s) i = (segments s i)\<lparr>seg_swap_id := w\<rparr>"
proof -
  let ?a = "swap_alloc (seg_size (segments s i)) s"
  have e: "swap_reserve i s = (if seg_swap_id (segments s i) = 0 then upd_seg i (\<lambda>g. g\<lparr>seg_swap_id := fst ?a\<rparr>) (snd ?a) else s)"
    by (simp add: swap_reserve_def case_prod_beta)
  note a = swap_alloc_fields [of "seg_size (segments s i)" s]
  show "g_bfs (swap_reserve i s) = g_bfs s" "ram (swap_reserve i s) = ram s" "seg_vmm (swap_reserve i s) = seg_vmm s"
    "swap_ready (swap_reserve i s) = swap_ready s" "swap_base (swap_reserve i s) = swap_base s" "swap_size (swap_reserve i s) = swap_size s"
    by (simp_all add: e a upd_seg_def)
  show "\<exists>w. segments (swap_reserve i s) i = (segments s i)\<lparr>seg_swap_id := w\<rparr>"
    by (rule exI [of _ "if seg_swap_id (segments s i) = 0 then fst ?a else seg_swap_id (segments s i)"]) (simp add: e a upd_seg_def)
qed

text \<open>What a successful \<open>swap_out\<close> leaves: the contents on the device, under the swap block of the segment.\<close>

lemma swap_out_done:
  assumes o: "swap_out i s = Some (0, s1)" and p: "seg_present (segments s i)"
  obtains w d z y where "w \<noteq> 0" "swap_ready s1" "swap_base s1 = swap_base s" "swap_size s1 = swap_size s"
    "seg_swap_id (segments s1 i) = w" "\<not> seg_present (segments s1 i)" "seg_base (segments s1 i) = seg_base (segments s i)"
    "seg_size (segments s1 i) = seg_size (segments s i)" "seg_ty (segments s1 i) = seg_ty (segments s i)" "seg_flags (segments s1 i) = seg_flags (segments s i)"
    "\<not> swap_base s + w * SWAP_BLOCK_SIZE + seg_size (segments s i) > swap_base s + swap_size s"
    "dev_write (swap_base s + w * SWAP_BLOCK_SIZE) (mem_read (seg_base (segments s i)) (unat (seg_size (segments s i))) s) d = (0, g_bfs s1)"
    "seg_vmm z = seg_vmm s" "unmap_range (seg_base (segments s i)) (seg_base (segments s i) + seg_size (segments s i)) z = Some y"
    "seg_vmm s1 = seg_vmm (if seg_phys (segments s i) \<noteq> 0 then give_pages (seg_phys (segments s i)) (seg_pages (segments s i)) y else y)"
proof -
  let ?u = "swap_reserve i s" and ?g = "segments s i"
  obtain w where w: "segments ?u i = ?g\<lparr>seg_swap_id := w\<rparr>" using swap_reserve_fields(7) by blast
  note uf = swap_reserve_fields(1-6) [of i s]
  have off: "swap_offset i ?u = swap_base s + w * SWAP_BLOCK_SIZE" by (simp add: swap_offset_def w uf)
  have rd: "mem_read v n ?u = mem_read v n s" for v n by (rule mem_read_cong) (simp_all add: uf)
  let ?d = "dev_write (swap_offset i ?u) (mem_read (seg_base ?g) (unat (seg_size ?g)) s) (g_bfs s)"
  have c: "swap_ready s" "w \<noteq> 0" "\<not> swap_offset i ?u + seg_size ?g > swap_base s + swap_size s" "fst ?d = 0"
    using o p by (auto simp: swap_out_def Let_def w uf rd split: if_splits prod.splits bind_splits)
  obtain x st where x: "drop_pages i (?u\<lparr>g_bfs := snd ?d\<rparr>) = Some x"
    "s1 = seg_klog (Log ''[SWAP] Segment swapped out'') ((upd_seg i (\<lambda>g. g\<lparr>seg_present := False\<rparr>) x)\<lparr>swap_stats := st\<rparr>)"
    using o p c by (auto simp: swap_out_def Let_def w uf rd split: if_splits prod.splits bind_splits)
  obtain y where y: "unmap_range (seg_base ?g) (seg_base ?g + seg_size ?g) (?u\<lparr>g_bfs := snd ?d\<rparr>) = Some y"
    "x = (if seg_phys ?g \<noteq> 0 then upd_seg i (\<lambda>g. g\<lparr>seg_phys := 0\<rparr>) (give_pages (seg_phys ?g) (seg_pages (?g\<lparr>seg_swap_id := w\<rparr>)) y) else y)"
    using x(1) by (auto simp: drop_pages_def Let_def w split: bind_splits)
  note ym = moves_fields [OF moves_unmap_range [OF y(1)]] and gm = moves_fields [OF moves_give_pages]
  have xs: "\<exists>q. segments x i = ?g\<lparr>seg_swap_id := w, seg_phys := q\<rparr>"
    using y(2) gm(1) ym(1) by (auto simp: w intro: exI [of _ 0] exI [of _ "seg_phys ?g"])
  have xf: "g_bfs x = snd ?d" "swap_ready x" "swap_base x = swap_base s" "swap_size x = swap_size s"
    using y(2) gm ym c(1) by (auto simp: uf upd_seg_def)
  have pg: "seg_pages (?g\<lparr>seg_swap_id := w\<rparr>) = seg_pages ?g" by (simp add: seg_pages_def)
  have xv: "seg_vmm s1 = seg_vmm (if seg_phys ?g \<noteq> 0 then give_pages (seg_phys ?g) (seg_pages ?g) y else y)"
    using x(2) y(2) pg by (simp add: seg_klog_def upd_seg_def)
  show thesis
    by (rule that [of w "g_bfs s" "?u\<lparr>g_bfs := snd ?d\<rparr>" y]) (use xs xf xv y(1) uf(3) c off x(2) in \<open>auto simp: seg_klog_def upd_seg_def prod_eq_iff\<close>)
qed

section \<open>Paging in\<close>

lemma swap_free_fields:
  "segments (swap_free w s) = segments s" "ram (swap_free w s) = ram s" "seg_vmm (swap_free w s) = seg_vmm s"
  by (simp_all add: swap_free_def Let_def split: option.split)

lemma swap_read_vmm: "seg_vmm (snd (swap_read i u)) = seg_vmm u"
  by (simp add: swap_read_def Let_def seg_klog_def swap_free_fields upd_seg_def mem_write_fields split: option.split)

lemma swap_read_done:
  assumes r: "swap_read i u = (0, t)" and p: "\<not> seg_present (segments u i)"
  obtains bs where "dev_read (swap_offset i u) (unat (seg_size (segments u i))) (g_bfs u) = Some bs" "ram t = ram (mem_write (seg_base (segments u i)) bs u)"
    "seg_vmm t = seg_vmm u" "segments t i = (segments u i)\<lparr>seg_swap_id := 0\<rparr>"
proof -
  let ?g = "segments u i"
  obtain bs where bs: "dev_read (swap_offset i u) (unat (seg_size ?g)) (g_bfs u) = Some bs"
    using r p by (auto simp: swap_read_def Let_def split: if_splits option.splits)
  obtain st where "t = seg_klog (Log ''[SWAP] Segment read from swap'')
      (swap_free (seg_swap_id ?g) (upd_seg i (\<lambda>g. g\<lparr>seg_swap_id := 0\<rparr>) ((mem_write (seg_base ?g) bs u)\<lparr>swap_stats := st\<rparr>)))"
    using r p bs by (auto simp: swap_read_def Let_def split: if_splits)
  then show thesis using bs by (intro that [of bs]) (simp_all add: seg_klog_def swap_free_fields upd_seg_def mem_write_fields)
qed

lemma pagein_from_swap:
  assumes r: "sasy_pagein i s = Some (0, s')" and g: "\<not> seg_present (segments s i)" "seg_ty (segments s i) \<noteq> SEG_CODE" "seg_swap_id (segments s i) \<noteq> 0"
  obtains x u t q where "take_pages ''[LOAD]'' (seg_pages (segments s i)) 0 0 s = Some (Some q, x)"
    "map_pages ''[LOAD]'' (seg_base (segments s i)) q (map_flags (seg_flags (segments s i))) (seg_pages (segments s i)) (seg_pages (segments s i)) 0
      (upd_seg i (\<lambda>g. g\<lparr>seg_phys := q\<rparr>) x) = Some (True, u)"
    "segments u i = (segments s i)\<lparr>seg_phys := q\<rparr>" "g_bfs u = g_bfs s" "swap_base u = swap_base s" "swap_read i u = (0, t)"
    "ram s' = ram t" "seg_vmm s' = seg_vmm t" "segments s' i = (segments t i)\<lparr>seg_present := True\<rparr>"
proof -
  let ?g = "segments s i"
  obtain x first where x: "take_pages ''[LOAD]'' (seg_pages ?g) 0 0 s = Some (Some first, x)"
    using r g by (auto simp: sasy_pagein_def Let_def split: bind_splits option.splits)
  obtain u where u: "map_pages ''[LOAD]'' (seg_base ?g) first (map_flags (seg_flags ?g)) (seg_pages ?g) (seg_pages ?g) 0
      (upd_seg i (\<lambda>g. g\<lparr>seg_phys := first\<rparr>) x) = Some (True, u)"
    using r g x by (auto simp: sasy_pagein_def Let_def split: bind_splits if_splits)
  obtain e t where t: "swap_read i u = (e, t)" by force
  have e: "e = 0" "s' = seg_klog (Log ''[LOAD] Segment paged in'') (upd_seg i (\<lambda>g. g\<lparr>seg_present := True\<rparr>) (seg_klog (Log ''[LOAD] Segment read from swap'') t))"
    using r g x u t by (auto simp: sasy_pagein_def Let_def split: if_splits)
  note xm = moves_fields [OF moves_take_pages [OF x]] and um = moves_fields [OF moves_map_pages [OF u]]
  show thesis
    by (rule that [OF x u, of t]) (use t e xm um in \<open>simp_all add: upd_seg_def seg_klog_def\<close>)
qed

text \<open>
  A code segment is not read back: paging it in leaves the memory as it is, whatever was in the new
  frames, and keeps the swap block.
\<close>

lemma code_not_read_back:
  assumes r: "sasy_pagein i s = Some (0, s')" and g: "\<not> seg_present (segments s i)" "seg_ty (segments s i) = SEG_CODE"
  shows "ram s' = ram s \<and> seg_present (segments s' i) \<and> seg_swap_id (segments s' i) = seg_swap_id (segments s i)"
proof -
  let ?g = "segments s i"
  obtain x first where x: "take_pages ''[LOAD]'' (seg_pages ?g) 0 0 s = Some (Some first, x)"
    using r g by (auto simp: sasy_pagein_def Let_def split: bind_splits option.splits)
  obtain u where u: "map_pages ''[LOAD]'' (seg_base ?g) first (map_flags (seg_flags ?g)) (seg_pages ?g) (seg_pages ?g) 0
      (upd_seg i (\<lambda>g. g\<lparr>seg_phys := first\<rparr>) x) = Some (True, u)"
    using r g x by (auto simp: sasy_pagein_def Let_def split: bind_splits if_splits)
  have "s' = seg_klog (Log ''[LOAD] Segment paged in'') (upd_seg i (\<lambda>g. g\<lparr>seg_present := True\<rparr>) (seg_klog (Log ''[LOAD] Code segment paged in'') u))"
    using r g x u by (auto simp: sasy_pagein_def Let_def split: if_splits)
  then show ?thesis using moves_fields [OF moves_take_pages [OF x]] moves_fields [OF moves_map_pages [OF u]] by (simp add: seg_klog_def upd_seg_def)
qed

section \<open>The tables across a swap\<close>

lemma frames_card: "vmm_ok v own \<Longrightarrow> card (frames_left v) \<le> 16777216"
proof -
  assume "vmm_ok v own"
  then have "unat (max_frames (mm_pmm (vmm_mm v))) \<le> 16777216" using vmm_ok_parts(2) by (simp add: pmm_inv_def)
  moreover have "card (frames_left v) \<le> card {..<unat (max_frames (mm_pmm (vmm_mm v)))}" by (rule card_mono) (auto simp: free_frames_def)
  ultimately show ?thesis by simp
qed

lemma tables_after_swap:
  assumes "seg_vmm z = seg_vmm s" and "unmap_range a e z = Some y" and "seg_vmm s1 = seg_vmm (if p \<noteq> 0 then give_pages p n y else y)"
    and ok: "vmm_ok (seg_vmm s) own" and "own_frames own p n"
  shows "vmm_ok (seg_vmm s1) own" and "frames_left (seg_vmm s) \<subseteq> frames_left (seg_vmm s1)"
proof -
  have "vmm_ok (seg_vmm z) own" using assms(1) ok by simp
  from unmap_range_ok [OF assms(2) this] have y: "vmm_ok (seg_vmm y) own" "vmm_mm (seg_vmm y) = vmm_mm (seg_vmm s)" using assms(1) by simp_all
  show "vmm_ok (seg_vmm s1) own" "frames_left (seg_vmm s) \<subseteq> frames_left (seg_vmm s1)"
    using give_pages_ok [OF y(1) assms(5)] y assms(3) by (auto split: if_splits)
qed

text \<open>
  After a page-in from swap the bytes of the segment lie one after the other from the physical
  address the descriptor records.
\<close>

lemma paged_in_bytes:
  assumes t: "take_pages tag (seg_pages g) 0 0 s = Some (Some q, x)"
    and m: "map_pages tag (seg_base g) q fl (seg_pages g) (seg_pages g) 0 (upd_seg i (\<lambda>g. g\<lparr>seg_phys := q\<rparr>) x) = Some (True, u)"
    and ok: "vmm_ok (seg_vmm s) own" and left: "4 * seg_pages g \<le> card (frames_left (seg_vmm s))"
    and al: "unat (seg_base g) mod PAGE_SIZE = 0" "unat (seg_size g) mod PAGE_SIZE = 0" and k: "k < unat (seg_size g)"
  shows "vmm_translate (seg_base g + of_nat k) (seg_vmm u) = Some (q + of_nat k)"
proof -
  let ?n = "seg_pages g" and ?x = "upd_seg i (\<lambda>g. g\<lparr>seg_phys := q\<rparr>) x"
  have tk: "vmm_ok (seg_vmm x) own" "card (frames_left (seg_vmm s)) \<le> card (frames_left (seg_vmm x)) + ?n"
    "\<And>j. j < ?n \<Longrightarrow> q + of_nat j * of_nat PAGE_SIZE \<noteq> 0"
    using take_pages_ok [OF t ok] left by auto
  have v: "take_bit 12 (seg_base g) = 0" using al(1) by (simp add: aligned_iff)
  have xv: "seg_vmm ?x = seg_vmm x" by (simp add: upd_seg_def)
  have n: "?n \<le> 2 ^ 36" using left frames_card [OF ok] by simp
  obtain own' where o: "vmm_ok (seg_vmm u) own'"
    "\<And>j. j < ?n \<Longrightarrow> translation (seg_vmm u) (seg_base g + of_nat j * of_nat PAGE_SIZE) = Some (q + of_nat j * of_nat PAGE_SIZE)"
    using map_pages_ok [OF m, unfolded xv, OF tk(1) _ v] tk(2,3) left n by auto
  have "unat (seg_size g) = ?n * PAGE_SIZE" using al(2) by (auto simp: seg_pages_def unat_div PAGE_SIZE_def)
  then show ?thesis using mapped_bytes [OF o(1) v n _ o(2)] k by simp
qed

section \<open>An example\<close>

text \<open>One page at 64 MB, not resident yet, on a machine with a device of sixteen pages to swap to.\<close>

definition one_page :: "vmm_state \<Rightarrow> sasy_state" where
  "one_page v = power_on\<lparr>segments := (\<lambda>_. null_segment)(0 := null_segment\<lparr>seg_id := 1, seg_ty := SEG_DATA_AUTO, seg_base := 0x4000000, seg_size := 4096,
       seg_refcnt := 1, seg_flags := SEG_FLAGS_RW\<rparr>),
     swap_ready := True, swap_size := 0x10000, g_bfs := ide_disk, ram := (\<lambda>a. ucast a), seg_vmm := v\<rparr>"

lemma booted_tables:
  obtains v own where "vmm_init None (vmm_initial boot_32M) = Some v" "vmm_ok v own" "clear_path (vmem v) 0 3 (kernel_pml4 v) 0x4000000"
    "500 \<le> card (frames_left v)"
proof -
  obtain v own where v: "vmm_init None (vmm_initial boot_32M) = Some v" "vmm_ok v own" "clear_path (vmem v) 0 3 (kernel_pml4 v) 0x4000000"
    by (rule booted_space)
  have mm: "vmm_mm (vmm_initial boot_32M) = boot_32M" by (simp add: vmm_initial_def)
  have "4 \<le> card (free_frames (mm_pmm boot_32M))" using boot_32M_frames(4) by simp
  then have "card (free_frames (mm_pmm boot_32M)) \<le> card (frames_left v) + 4"
    using boot_32M_frames(1-3) init_window [of "vmm_initial boot_32M", unfolded mm] v(1) by (metis option.inject)
  then show thesis using that v boot_32M_frames(4) by simp
qed

lemma page_addr_mask: "f < 16777216 \<Longrightarrow> page_addr f AND VMM_ADDR_MASK = page_addr f"
  by (rule bit_word_eqI) (use page_addr_bits in \<open>auto simp: bit_and_iff mask_bits\<close>)

text \<open>Taking and mapping a single page on well-formed tables succeeds.\<close>

lemma page_in_steps:
  assumes ok: "vmm_ok (seg_vmm s) own" and clear: "clear_path (vmem (seg_vmm s)) 0 3 (kernel_pml4 (seg_vmm s)) v"
    and left: "4 \<le> card (frames_left (seg_vmm s))" and v: "v AND 0xFFF = 0" and fl: "fl AND VMM_ADDR_MASK = 0"
  obtains x u f own' where "take_pages tag (Suc 0) 0 0 s = Some (Some (page_addr f), x)"
    "map_pages tag v (page_addr f) fl (Suc 0) (Suc 0) 0 (upd_seg i (\<lambda>g. g\<lparr>seg_phys := page_addr f\<rparr>) x) = Some (True, u)"
    "vmm_ok (seg_vmm u) own'" "own' (page_addr f) = None" "0 < f" "f < 16777216"
    "clear_path (vmem (seg_vmm u)) 0 3 (kernel_pml4 (seg_vmm u)) v" "card (frames_left (seg_vmm s)) \<le> card (frames_left (seg_vmm u)) + 4"
proof -
  have pos: "0 < card (frames_left (seg_vmm s))" using left by simp
  obtain f m where f: "pmm_alloc_page (vmm_mm (seg_vmm s)) = Some (page_addr f, m)" "0 < f" "f < 16777216" "own (page_addr f) = None"
    "f \<in> frames_left (seg_vmm s)" "vmm_ok ((seg_vmm s)\<lparr>vmm_mm := m\<rparr>) own" "frames_left ((seg_vmm s)\<lparr>vmm_mm := m\<rparr>) = frames_left (seg_vmm s) - {f}"
    "card (frames_left (seg_vmm s)) = Suc (card (frames_left ((seg_vmm s)\<lparr>vmm_mm := m\<rparr>)))"
    by (rule take_one [OF ok pos]) (rule that)
  define v1 where "v1 = (seg_vmm s)\<lparr>vmm_mm := m\<rparr>"
  have c1: "clear_path (vmem v1) 0 3 (kernel_pml4 v1) v" using clear by (simp add: v1_def del: clear_path.simps)
  have n1: "need (vmem v1) 0 3 (kernel_pml4 v1) v \<le> card (frames_left v1)" "3 \<le> card (frames_left v1)"
    using need_bound [of "vmem v1" 0 3 "kernel_pml4 v1" v] f(8) left unfolding v1_def [symmetric] by linarith+
  obtain w where w: "vmm_map v (page_addr f) fl v1 = Some w" "mapped 0 v (page_addr f) v1 w"
    using map_page [OF at_root [OF f(6) [folded v1_def] c1 n1(1)] fl] by blast
  obtain own' where e: "map_effect v own v1 own' w 3"
    using map_any [OF f(6) [folded v1_def] n1(2), of v "page_addr f" fl] w(1) by auto
  have ok': "vmm_ok w own'" "grows own v1 own' w" "card (frames_left v1) \<le> card (frames_left w) + 3" using e by (simp_all add: map_effect_def)
  have "translation w v = Some ((page_addr f AND VMM_ADDR_MASK) OR (v AND (2 ^ (12 + 9 * 0) - 1)))" using w(2) unfolding mapped_def by metis
  then have "translation w v = Some (page_addr f)" using v page_addr_mask [OF f(3)] by simp
  then have tr: "vmm_translate v w = Some (page_addr f)" using translate_look [OF ok'(1)] by simp
  have cw: "clear_path (vmem w) 0 3 (kernel_pml4 w) v" using w(2) reach_clear unfolding mapped_def by blast
  have "own' (page_addr f) = None"
  proof (rule ccontr)
    assume "own' (page_addr f) \<noteq> None"
    then obtain g where g: "g \<in> frames_left v1" "page_addr f = page_addr g" using ok'(2) f(4) unfolding grows_def by blast
    have "g < 16777216" using used_frames_bound [OF vmm_ok_parts(2) [OF f(6)]] g(1) by (simp add: v1_def)
    then have "g = f" using g(2) page_addr_eq_iff [OF f(3)] by simp
    then show False using g(1) f(7) by (simp add: v1_def)
  qed
  moreover have "take_pages tag (Suc 0) 0 0 s = Some (Some (page_addr f), s\<lparr>seg_vmm := v1\<rparr>)"
    using f(1) page_addr_nonzero [OF f(2,3)] by (simp add: v1_def)
  moreover have "map_pages tag v (page_addr f) fl (Suc 0) (Suc 0) 0 (upd_seg i (\<lambda>g. g\<lparr>seg_phys := page_addr f\<rparr>) (s\<lparr>seg_vmm := v1\<rparr>)) =
      Some (True, (upd_seg i (\<lambda>g. g\<lparr>seg_phys := page_addr f\<rparr>) (s\<lparr>seg_vmm := v1\<rparr>))\<lparr>seg_vmm := w\<rparr>)"
    using w(1) tr by (simp add: Let_def upd_seg_def)
  moreover have "card (frames_left (seg_vmm s)) \<le> card (frames_left w) + 4" using f(8) ok'(3) by (simp add: v1_def)
  ultimately show thesis using that ok'(1) f(2,3) cw by (simp del: take_pages.simps map_pages.simps clear_path.simps)
qed

definition swap_device :: "sasy_state \<Rightarrow> bool" where
  "swap_device s \<longleftrightarrow> swap_ready s \<and> swap_base s = 0 \<and> swap_size s = 0x10000 \<and> pmem_kind (g_bfs s) = PMEM_BACKEND_IDE \<and>
     pmem_bytes (g_bfs s) = 0x10000 \<and> (\<forall>a. drive_ok (g_bfs s) a)"

definition page_at :: "u64 \<Rightarrow> segment \<Rightarrow> bool" where
  "page_at p g \<longleftrightarrow> seg_ty g = SEG_DATA_AUTO \<and> seg_base g = p \<and> seg_size g = 4096 \<and> seg_flags g = SEG_FLAGS_RW \<and> seg_locked g = 0"

lemma page_at_facts:
  assumes "page_at p g"
  shows "seg_pages g = Suc 0" "map_flags (seg_flags g) AND VMM_ADDR_MASK = 0" "seg_flags g AND SEG_FLAG_NOSWAP = 0" "seg_flags g AND SEG_FLAG_ZEROED = 0"
  using assms by (simp_all add: page_at_def seg_pages_def PAGE_SIZE_def SEG_FLAGS_RW_def SEG_FLAG_READ_def SEG_FLAG_WRITE_def SEG_FLAG_NOSWAP_def
      SEG_FLAG_ZEROED_def map_flags_def SEG_FLAG_USER_def SEG_FLAG_EXEC_def SEG_FLAG_NOCACHE_def VMM_PRESENT_def VMM_WRITE_def VMM_USER_def VMM_NOEXEC_def VMM_ADDR_MASK_def Let_def)

lemma first_page_in:
  assumes ok: "vmm_ok (seg_vmm s) own" and clear: "clear_path (vmem (seg_vmm s)) 0 3 (kernel_pml4 (seg_vmm s)) p"
    and left: "4 \<le> card (frames_left (seg_vmm s))" and p: "p AND 0xFFF = 0"
    and g: "page_at p (segments s 0)" "\<not> seg_present (segments s 0)" "seg_swap_id (segments s 0) = 0"
  obtains u s' f own' where "sasy_pagein 0 s = Some (0, s')" "moves s u" "s' = seg_klog (Log ''[LOAD] Segment paged in'')
      (upd_seg 0 (\<lambda>g. g\<lparr>seg_phys := page_addr f, seg_present := True\<rparr>) u)"
    "vmm_ok (seg_vmm s') own'" "own' (page_addr f) = None" "0 < f" "f < 16777216"
    "clear_path (vmem (seg_vmm s')) 0 3 (kernel_pml4 (seg_vmm s')) p" "card (frames_left (seg_vmm s)) \<le> card (frames_left (seg_vmm s')) + 4"
proof -
  note gf = page_at_facts [OF g(1)]
  obtain x u f own' where u: "take_pages ''[LOAD]'' (Suc 0) 0 0 s = Some (Some (page_addr f), x)"
    "map_pages ''[LOAD]'' p (page_addr f) (map_flags (seg_flags (segments s 0))) (Suc 0) (Suc 0) 0 (upd_seg 0 (\<lambda>g. g\<lparr>seg_phys := page_addr f\<rparr>) x) = Some (True, u)"
    "vmm_ok (seg_vmm u) own'" "own' (page_addr f) = None" "0 < f" "f < 16777216"
    "clear_path (vmem (seg_vmm u)) 0 3 (kernel_pml4 (seg_vmm u)) p" "card (frames_left (seg_vmm s)) \<le> card (frames_left (seg_vmm u)) + 4"
    by (rule page_in_steps [OF ok clear left p gf(2)]) (rule that)
  let ?s = "seg_klog (Log ''[LOAD] Segment paged in'') (upd_seg 0 (\<lambda>g. g\<lparr>seg_present := True\<rparr>) u)"
  have run: "sasy_pagein 0 s = Some (0, ?s)"
    using g u(1,2) gf(1,4) by (simp add: sasy_pagein_def page_at_def Let_def del: take_pages.simps map_pages.simps)
  obtain vm l where "x = s\<lparr>seg_log := l, seg_vmm := vm\<rparr>" using moves_take_pages [OF u(1)] by (auto simp: moves_def)
  moreover obtain vm' l' where "u = (upd_seg 0 (\<lambda>g. g\<lparr>seg_phys := page_addr f\<rparr>) x)\<lparr>seg_log := l', seg_vmm := vm'\<rparr>"
    using moves_map_pages [OF u(2)] by (auto simp: moves_def)
  ultimately have su: "?s = seg_klog (Log ''[LOAD] Segment paged in'')
      (upd_seg 0 (\<lambda>g. g\<lparr>seg_phys := page_addr f, seg_present := True\<rparr>) (s\<lparr>seg_log := l', seg_vmm := vm'\<rparr>))"
    by (simp add: upd_seg_def seg_klog_def)
  have v: "seg_vmm ?s = seg_vmm u" by (simp add: upd_seg_def seg_klog_def)
  show thesis
    by (rule that [OF run _ su, of own']) (use u(3-8) v in \<open>auto simp: moves_def simp del: clear_path.simps\<close>)
qed

lemma give_pages_tables: "vmem (seg_vmm (give_pages p n s)) = vmem (seg_vmm s) \<and> kernel_pml4 (seg_vmm (give_pages p n s)) = kernel_pml4 (seg_vmm s)"
  unfolding give_pages_def by (rule for_range_inv) (simp_all add: free_page_def)

lemma unmap_page_range:
  assumes ok: "vmm_ok (seg_vmm z) own" and c: "clear_path (vmem (seg_vmm z)) 0 3 (kernel_pml4 (seg_vmm z)) p" and p: "p < p + 4096"
  obtains y where "unmap_range p (p + 4096) z = Some y" "moves z y" "clear_path (vmem (seg_vmm y)) 0 3 (kernel_pml4 (seg_vmm y)) p"
proof -
  obtain w where w: "vmm_unmap p (seg_vmm z) = Some w" using unmap_page [OF ok] by blast
  have "unmap_range p (p + 4096) z = Some (z\<lparr>seg_vmm := w\<rparr>)"
    using p w by (subst unmap_range.simps) (simp add: unmap_one_def unmap_range.simps [of "p + 4096"] PAGE_SIZE_def)
  then show thesis using that unmap_keeps(4) [OF ok w c] by (simp del: clear_path.simps)
qed

lemma page_out:
  assumes ok: "vmm_ok (seg_vmm s) own" and clear: "clear_path (vmem (seg_vmm s)) 0 3 (kernel_pml4 (seg_vmm s)) p" and p: "p < p + 4096"
    and g: "page_at p (segments s 0)" "seg_present (segments s 0)" "seg_swap_id (segments s 0) = 0" "seg_phys (segments s 0) \<noteq> 0"
    and d: "swap_device s" and b: "swap_table s = (\<lambda>_. null_swap_entry)" "next_swap_block s = 1"
  obtains s1 where "swap_out 0 s = Some (0, s1)" "segments s1 0 = (segments s 0)\<lparr>seg_swap_id := 1, seg_phys := 0, seg_present := False\<rparr>"
    "swap_device s1" "clear_path (vmem (seg_vmm s1)) 0 3 (kernel_pml4 (seg_vmm s1)) p"
proof -
  let ?g = "segments s 0"
  note gf = page_at_facts [OF g(1)]
  have gp: "seg_size ?g = 4096" "seg_base ?g = p" "seg_locked ?g = 0" using g(1) by (simp_all add: page_at_def)
  define u where "u = swap_reserve 0 s"
  have "fst (swap_alloc 4096 s) = 1"
    using d b by (simp add: swap_alloc_def swap_device_def SWAP_BLOCK_SIZE_def find_from.simps MAX_SWAP_ENTRIES_def null_swap_entry_def Let_def)
  then have u: "segments u 0 = ?g\<lparr>seg_swap_id := 1\<rparr>"
    by (simp add: u_def swap_reserve_def case_prod_beta g gp swap_alloc_fields upd_seg_def)
  note uf = swap_reserve_fields(1-6) [of 0 s, folded u_def]
  have off: "swap_offset 0 u = 4096" using d by (simp add: swap_offset_def u uf swap_device_def SWAP_BLOCK_SIZE_def)
  define dv where "dv = snd (dev_write 4096 (mem_read p 4096 u) (g_bfs u))"
  have len: "length (mem_read p 4096 u) = 4096" by (simp add: mem_read_def)
  have dw: "dev_write 4096 (mem_read p 4096 u) (g_bfs u) = (0, dv)" "pmem_kind dv = PMEM_BACKEND_IDE" "pmem_bytes dv = 0x10000" "\<And>a. drive_ok dv a"
    using d by (simp_all add: dv_def dev_write_def len uf swap_device_def pmem_check_def pmem_ready_def PMEM_SECTOR_SIZE_def)
  let ?z = "u\<lparr>g_bfs := dv\<rparr>"
  have zv: "seg_vmm ?z = seg_vmm s" by (simp add: uf)
  obtain y where y: "unmap_range p (p + 4096) ?z = Some y" "moves ?z y" "clear_path (vmem (seg_vmm y)) 0 3 (kernel_pml4 (seg_vmm y)) p"
    by (rule unmap_page_range [of ?z own p, unfolded zv, OF ok clear p]) (rule that)
  let ?x = "give_pages (seg_phys ?g) (Suc 0) y"
  have dp: "drop_pages 0 ?z = Some (upd_seg 0 (\<lambda>g. g\<lparr>seg_phys := 0\<rparr>) ?x)"
    using y(1) g(4) gf(1) by (simp add: drop_pages_def u gp seg_pages_def)
  have ss: "swap_ready s" "swap_base u = 0" "swap_size u = 0x10000" using d by (simp_all add: swap_device_def uf)
  obtain l st where run: "swap_out 0 s = Some (0, seg_klog l ((upd_seg 0 (\<lambda>g. g\<lparr>seg_present := False\<rparr>)
      (upd_seg 0 (\<lambda>g. g\<lparr>seg_phys := 0\<rparr>) ?x))\<lparr>swap_stats := st\<rparr>))"
    using g gp gf(3) ss dw(1) dp by (auto simp: swap_out_def u_def [symmetric] Let_def off u)
  have xm: "moves ?z ?x" by (rule moves_trans [OF y(2) moves_give_pages])
  note xf = moves_fields [OF xm]
  have "swap_device ?x" using d dw(2-4) xf by (simp add: swap_device_def uf)
  moreover have "clear_path (vmem (seg_vmm ?x)) 0 3 (kernel_pml4 (seg_vmm ?x)) p" using y(3) give_pages_tables [of "seg_phys ?g" "Suc 0" y] by (simp del: clear_path.simps)
  moreover have "segments ?x 0 = ?g\<lparr>seg_swap_id := 1\<rparr>" using xf(1) u by simp
  ultimately show thesis using that [OF run] by (simp add: swap_device_def seg_klog_def upd_seg_def del: clear_path.simps)
qed

lemma second_page_in:
  assumes ok: "vmm_ok (seg_vmm s) own" and clear: "clear_path (vmem (seg_vmm s)) 0 3 (kernel_pml4 (seg_vmm s)) p"
    and left: "4 \<le> card (frames_left (seg_vmm s))" and p: "p AND 0xFFF = 0"
    and g: "page_at p (segments s 0)" "\<not> seg_present (segments s 0)" "seg_swap_id (segments s 0) = 1" and d: "swap_device s"
  shows "\<exists>s'. sasy_pagein 0 s = Some (0, s')"
proof -
  note gf = page_at_facts [OF g(1)]
  obtain x u f where u: "take_pages ''[LOAD]'' (Suc 0) 0 0 s = Some (Some (page_addr f), x)"
    "map_pages ''[LOAD]'' p (page_addr f) (map_flags (seg_flags (segments s 0))) (Suc 0) (Suc 0) 0 (upd_seg 0 (\<lambda>g. g\<lparr>seg_phys := page_addr f\<rparr>) x) = Some (True, u)"
    by (rule page_in_steps [OF ok clear left p gf(2)]) (rule that)
  note xm = moves_fields [OF moves_take_pages [OF u(1)]] and um = moves_fields [OF moves_map_pages [OF u(2)]]
  have us: "segments u 0 = (segments s 0)\<lparr>seg_phys := page_addr f\<rparr>" "swap_device u"
    using d xm um by (simp_all add: upd_seg_def swap_device_def)
  have off: "swap_offset 0 u = 4096" using us g(3) by (simp add: swap_offset_def swap_device_def SWAP_BLOCK_SIZE_def)
  have size: "seg_size (segments s 0) = 4096" "seg_base (segments s 0) = p" "seg_ty (segments s 0) \<noteq> SEG_CODE" using g(1) by (simp_all add: page_at_def)
  obtain bs where "dev_read 4096 4096 (g_bfs u) = Some bs"
    using us(2) by (auto simp: dev_read_def swap_device_def pmem_check_def pmem_ready_def PMEM_SECTOR_SIZE_def)
  then have "fst (swap_read 0 u) = 0"
    using us g(2,3) size by (simp add: swap_read_def Let_def off) (simp add: swap_device_def)
  then show ?thesis
    using g(2,3) size u gf(1) by (simp add: sasy_pagein_def Let_def case_prod_beta del: take_pages.simps map_pages.simps)
qed

section \<open>Properties\<close>

text \<open>
  C9. Swapping keeps the contents: when \<open>swap_out\<close> has written a data segment to the device and
  \<open>sasy_pagein\<close> has brought it back, its bytes are what they were, wherever the new frames are: every byte of the segment
  is translated to the frames the segment now has, one after the other. The segment is resident and its swap entry is given back. This needs an initialised
  address space (well-formed page tables that do not lie in the frames of the segment), a segment
  on page boundaries, as \<open>segments_disjoint\<close> gives it, and four free frames for each of its pages.
\<close>

theorem swap_roundtrip:
  assumes "swap_out i s = Some (0, s1)" and "seg_present (segments s i)" and "seg_ty (segments s i) \<noteq> SEG_CODE"
    and "sasy_pagein i s1 = Some (0, s2)"
    and "vmm_ok (seg_vmm s) own" and "own_frames own (seg_phys (segments s i)) (seg_pages (segments s i))"
    and "4 * seg_pages (segments s i) \<le> card (free_frames (mm_pmm (vmm_mm (seg_vmm s))))"
    and "unat (seg_base (segments s i)) mod PAGE_SIZE = 0" and "unat (seg_size (segments s i)) mod PAGE_SIZE = 0"
  shows "mem_read (seg_base (segments s i)) (unat (seg_size (segments s i))) s2 = mem_read (seg_base (segments s i)) (unat (seg_size (segments s i))) s \<and>
    (\<forall>k < unat (seg_size (segments s i)). vmm_translate (seg_base (segments s i) + of_nat k) (seg_vmm s2) = Some (seg_phys (segments s2 i) + of_nat k)) \<and>
    seg_present (segments s2 i) \<and> seg_swap_id (segments s2 i) = 0"
proof -
  let ?g = "segments s i"
  let ?n = "unat (seg_size ?g)" and ?m = "mem_read (seg_base ?g) (unat (seg_size ?g)) s"
  obtain w d z y where o: "w \<noteq> 0" "swap_base s1 = swap_base s" "seg_swap_id (segments s1 i) = w" "\<not> seg_present (segments s1 i)"
    "seg_base (segments s1 i) = seg_base ?g" "seg_size (segments s1 i) = seg_size ?g" "seg_ty (segments s1 i) = seg_ty ?g"
    "dev_write (swap_base s + w * SWAP_BLOCK_SIZE) ?m d = (0, g_bfs s1)"
    and vm: "seg_vmm z = seg_vmm s" "unmap_range (seg_base ?g) (seg_base ?g + seg_size ?g) z = Some y"
    "seg_vmm s1 = seg_vmm (if seg_phys ?g \<noteq> 0 then give_pages (seg_phys ?g) (seg_pages ?g) y else y)"
    by (rule swap_out_done [OF assms(1,2)]) (rule that)
  have ok1: "vmm_ok (seg_vmm s1) own" "frames_left (seg_vmm s) \<subseteq> frames_left (seg_vmm s1)"
    by (rule tables_after_swap [OF vm assms(5,6)])+
  obtain x u t q where pi: "take_pages ''[LOAD]'' (seg_pages (segments s1 i)) 0 0 s1 = Some (Some q, x)"
    "map_pages ''[LOAD]'' (seg_base (segments s1 i)) q (map_flags (seg_flags (segments s1 i))) (seg_pages (segments s1 i)) (seg_pages (segments s1 i)) 0
      (upd_seg i (\<lambda>g. g\<lparr>seg_phys := q\<rparr>) x) = Some (True, u)"
    and u: "segments u i = (segments s1 i)\<lparr>seg_phys := q\<rparr>" "g_bfs u = g_bfs s1" "swap_base u = swap_base s1" "swap_read i u = (0, t)"
    "ram s2 = ram t" "seg_vmm s2 = seg_vmm t" "segments s2 i = (segments t i)\<lparr>seg_present := True\<rparr>"
    by (rule pagein_from_swap [OF assms(4)]) (use o assms(3) in auto)
  have np: "\<not> seg_present (segments u i)" using u(1) o(4) by simp
  obtain bs where bs: "dev_read (swap_offset i u) (unat (seg_size (segments u i))) (g_bfs u) = Some bs"
    "ram t = ram (mem_write (seg_base (segments u i)) bs u)" "seg_vmm t = seg_vmm u" "segments t i = (segments u i)\<lparr>seg_swap_id := 0\<rparr>"
    by (rule swap_read_done [OF u(4) np])
  have len: "length ?m = ?n" by (simp add: mem_read_def)
  then have "dev_read (swap_base s + w * SWAP_BLOCK_SIZE) ?n (g_bfs s1) = Some ?m"
    using dev_read_write [OF o(8)] unsigned_less [of "seg_size ?g"] by simp
  then have b: "bs = ?m" using bs(1) u(1-3) o by (simp add: swap_offset_def)
  have pg: "seg_pages (segments s1 i) = seg_pages ?g" by (simp add: seg_pages_def o(6))
  have "4 * seg_pages ?g \<le> card (frames_left (seg_vmm s1))"
    using assms(7) card_mono [OF finite_free_frames ok1(2)] by simp
  then have tr: "vmm_translate (seg_base ?g + of_nat k) (seg_vmm u) = Some (q + of_nat k)" if "k < ?n" for k
    using paged_in_bytes [OF pi ok1(1)] assms(8,9) that by (simp add: o(5,6) pg)
  then have pt: "ptr (seg_base ?g + of_nat k) u = q + of_nat k" if "k < ?n" for k using that by (simp add: ptr_def)
  have lim: "?n < 2 ^ 64" using unsigned_less [where 'a = nat, of "seg_size ?g"] by simp
  have "inj_on (\<lambda>k. ptr (seg_base ?g + of_nat k) u) {..<?n}"
  proof (rule inj_onI)
    fix a b
    assume ab: "a \<in> {..<?n}" "b \<in> {..<?n}" "ptr (seg_base ?g + of_nat a) u = ptr (seg_base ?g + of_nat b) u"
    then have "unat (of_nat a :: u64) = unat (of_nat b :: u64)" using pt by simp
    moreover have "a < 2 ^ 64" "b < 2 ^ 64" using ab(1,2) lim less_trans unfolding lessThan_iff by blast+
    ultimately show "a = b" by (simp add: unat_of_nat)
  qed
  then have "mem_read (seg_base ?g) ?n (mem_write (seg_base ?g) ?m u) = ?m" using mem_read_write [of "seg_base ?g" u ?m] by (simp add: len)
  moreover have "mem_read (seg_base ?g) ?n s2 = mem_read (seg_base ?g) ?n (mem_write (seg_base ?g) ?m u)"
    by (rule mem_read_cong) (use u bs b o mem_write_fields in simp_all)
  ultimately show ?thesis using u(6,7) bs(3,4) u(1) tr by simp
qed

theorem swap_roundtrip_witness:
  "\<exists>v s0 s s1 s2. vmm_init None (vmm_initial boot_32M) = Some v \<and> sasy_pagein 0 (one_page v) = Some (0, s0) \<and>
    s = mem_write 0x4000000 [1, 2, 3] s0 \<and> swap_out 0 s = Some (0, s1) \<and> \<not> seg_present (segments s1 0) \<and>
    sasy_pagein 0 s1 = Some (0, s2) \<and> mem_read 0x4000000 4096 s2 = mem_read 0x4000000 4096 s"
proof -
  obtain v own where v: "vmm_init None (vmm_initial boot_32M) = Some v" "vmm_ok v own" "clear_path (vmem v) 0 3 (kernel_pml4 v) 0x4000000"
    "500 \<le> card (frames_left v)" by (rule booted_tables)
  let ?o = "one_page v"
  have o: "seg_vmm ?o = v" "page_at 0x4000000 (segments ?o 0)" "\<not> seg_present (segments ?o 0)" "seg_swap_id (segments ?o 0) = 0"
    by (simp_all add: one_page_def page_at_def null_segment_def)
  have f0: "vmm_ok (seg_vmm ?o) own" "clear_path (vmem (seg_vmm ?o)) 0 3 (kernel_pml4 (seg_vmm ?o)) 0x4000000" "4 \<le> card (frames_left (seg_vmm ?o))"
    unfolding o(1) using v by simp_all
  have al: "(0x4000000 :: u64) AND 0xFFF = 0" by simp
  obtain u s0 f own' where s0: "sasy_pagein 0 ?o = Some (0, s0)" "moves ?o u" "s0 = seg_klog (Log ''[LOAD] Segment paged in'')
      (upd_seg 0 (\<lambda>g. g\<lparr>seg_phys := page_addr f, seg_present := True\<rparr>) u)"
    "vmm_ok (seg_vmm s0) own'" "own' (page_addr f) = None" "0 < f" "f < 16777216"
    "clear_path (vmem (seg_vmm s0)) 0 3 (kernel_pml4 (seg_vmm s0)) 0x4000000" "card (frames_left (seg_vmm ?o)) \<le> card (frames_left (seg_vmm s0)) + 4"
    by (rule first_page_in [OF f0 al o(2-4)]) (rule that)
  define s where "s = mem_write 0x4000000 [1, 2, 3] s0"
  have sv: "seg_vmm s = seg_vmm s0" "segments s = segments s0" unfolding s_def by (rule mem_write_fields)+
  have g: "segments s 0 = (segments ?o 0)\<lparr>seg_phys := page_addr f, seg_present := True\<rparr>"
    using moves_fields(1) [OF s0(2)] by (simp add: sv s0(3) seg_klog_def upd_seg_def)
  have gp: "page_at 0x4000000 (segments s 0)" "seg_present (segments s 0)" "seg_swap_id (segments s 0) = 0" "seg_phys (segments s 0) \<noteq> 0"
    using o page_addr_nonzero [OF s0(6,7)] by (simp_all add: g page_at_def)
  have d: "swap_device s" "swap_table s = (\<lambda>_. null_swap_entry)" "next_swap_block s = 1"
    using s0(2) by (auto simp: s_def poke_def s0(3) seg_klog_def upd_seg_def moves_def swap_device_def one_page_def ide_disk_def power_on_def)
  obtain s1 where s1: "swap_out 0 s = Some (0, s1)" "segments s1 0 = (segments s 0)\<lparr>seg_swap_id := 1, seg_phys := 0, seg_present := False\<rparr>"
    "swap_device s1" "clear_path (vmem (seg_vmm s1)) 0 3 (kernel_pml4 (seg_vmm s1)) 0x4000000"
    by (rule page_out [of s own' "0x4000000", unfolded sv(1), OF s0(4,8) _ gp d]) (simp, rule that, simp_all add: sv)
  have own: "own_frames own' (seg_phys (segments s 0)) (seg_pages (segments s 0))"
    using s0(5-7) page_at_facts(1) [OF gp(1)] by (auto simp: own_frames_def g)
  have ok: "vmm_ok (seg_vmm s) own'" using s0(4) by (simp add: sv)
  have left: "4 * seg_pages (segments s 0) \<le> card (frames_left (seg_vmm s))"
    using s0(9) v(4) page_at_facts(1) [OF gp(1)] by (simp add: sv o(1))
  obtain w d' z y where vm: "seg_vmm z = seg_vmm s" "unmap_range (seg_base (segments s 0)) (seg_base (segments s 0) + seg_size (segments s 0)) z = Some y"
    "seg_vmm s1 = seg_vmm (if seg_phys (segments s 0) \<noteq> 0 then give_pages (seg_phys (segments s 0)) (seg_pages (segments s 0)) y else y)"
    by (rule swap_out_done [OF s1(1) gp(2)]) (rule that)
  note t = tables_after_swap [OF vm ok own]
  have l1: "4 \<le> card (frames_left (seg_vmm s1))"
    using left card_mono [OF finite_free_frames t(2)] page_at_facts(1) [OF gp(1)] by simp
  have g1: "page_at 0x4000000 (segments s1 0)" "\<not> seg_present (segments s1 0)" "seg_swap_id (segments s1 0) = 1"
    using gp(1) by (simp_all add: s1(2) page_at_def)
  obtain s2 where s2: "sasy_pagein 0 s1 = Some (0, s2)" using second_page_in [OF t(1) s1(4) l1 al g1 s1(3)] by blast
  have gs: "seg_base (segments s 0) = 0x4000000" "seg_size (segments s 0) = 4096" "seg_ty (segments s 0) \<noteq> SEG_CODE" using gp(1) by (simp_all add: page_at_def)
  have "unat (seg_base (segments s 0)) mod PAGE_SIZE = 0" "unat (seg_size (segments s 0)) mod PAGE_SIZE = 0" using gs by (simp_all add: PAGE_SIZE_def)
  from swap_roundtrip [OF s1(1) gp(2) gs(3) s2 ok own left this] have "mem_read 0x4000000 4096 s2 = mem_read 0x4000000 4096 s" by (simp add: gs)
  then show ?thesis using v(1) s0(1) s_def s1(1) g1(2) s2 by blast
qed

end
