(* ===== verification/Clock.thy ===== *)
theory Clock
  imports Prelude "HOL-Library.Signed_Division"
begin

text \<open>
  Time keeping in the kernel: the clocks of \<open>src/kernel/core/time.c\<close>, the CMOS clock they are set from
  (\<open>src/drivers/storage/rtc.c\<close>) and the system calls of \<open>src/kernel/sys/sys_time.c\<close>. Numbers are
  integers, divided and reduced as C does, towards zero. The seconds that a tick counts up wrap at the
  64 bits of \<open>time_t\<close>; day counts and calendar fields come from the 8 and 16 bits of the chip's registers
  and cannot leave their \<open>int\<close>. The chip is a parameter: the value
  each register shows at each read of the data port.
\<close>

section \<open>Calendar\<close>

definition is_leap_year :: "int \<Rightarrow> bool" where
  "is_leap_year year \<longleftrightarrow> (year smod 4 = 0 \<and> year smod 100 \<noteq> 0) \<or> year smod 400 = 0"

definition month_days :: "int list" where
  "month_days = [31, 28, 31, 30, 31, 30, 31, 31, 30, 31, 30, 31]"

definition days_in_month :: "int \<Rightarrow> int \<Rightarrow> int" where
  "days_in_month month year =
     (if month < 1 \<or> month > 12 then 0
      else if month = 2 \<and> is_leap_year year then 29
      else month_days ! nat (month - 1))"

definition year_days :: "int \<Rightarrow> int" where
  "year_days y = (if is_leap_year y then 366 else 365)"

definition days_since_epoch :: "int \<Rightarrow> int \<Rightarrow> int \<Rightarrow> int" where
  "days_since_epoch year month day =
     (let days = foldl (\<lambda>days y. days + year_days y) 0 [1970..year - 1];
          days = foldl (\<lambda>days m. days + days_in_month m year) days [1..month - 1]
      in days + (day - 1))"

section \<open>Clocks\<close>

record timespec =
  tv_sec :: int
  tv_nsec :: int

record timeval =
  tvl_sec :: int
  tv_usec :: int

record clocks =
  system_time :: timespec
  monotonic_time :: timespec
  boot_ticks :: u64

definition TICK_NS :: int where "TICK_NS = 1000000"
definition CLOCK_REALTIME :: u32 where "CLOCK_REALTIME = 0"
definition CLOCK_MONOTONIC :: u32 where "CLOCK_MONOTONIC = 1"

definition time_init :: "clocks \<Rightarrow> clocks" where
  "time_init c = c\<lparr>monotonic_time := system_time c\<rparr>"

text \<open>Conversion to a signed 64-bit number.\<close>

definition to_int64 :: "int \<Rightarrow> int" where
  "to_int64 x = (x + 9223372036854775808) mod 18446744073709551616 - 9223372036854775808"

text \<open>One clock after a tick. The seconds are an \<open>int64_t\<close>.\<close>

definition advance :: "timespec \<Rightarrow> timespec" where
  "advance t =
     (let t = t\<lparr>tv_nsec := tv_nsec t + TICK_NS\<rparr>
      in if tv_nsec t \<ge> 1000000000 then t\<lparr>tv_sec := to_int64 (tv_sec t + 1), tv_nsec := tv_nsec t - 1000000000\<rparr> else t)"

definition timer_tick :: "clocks \<Rightarrow> clocks" where
  "timer_tick c =
     (let c = c\<lparr>boot_ticks := boot_ticks c + 1\<rparr>;
          c = c\<lparr>system_time := advance (system_time c)\<rparr>
      in c\<lparr>monotonic_time := advance (monotonic_time c)\<rparr>)"

definition timer_get_ms :: "clocks \<Rightarrow> u64" where "timer_get_ms c = boot_ticks c"
definition get_time_seconds :: "clocks \<Rightarrow> int" where "get_time_seconds c = tv_sec (system_time c)"
definition get_time :: "clocks \<Rightarrow> timespec" where "get_time c = system_time c"
definition get_monotonic :: "clocks \<Rightarrow> timespec" where "get_monotonic c = monotonic_time c"

definition set_time :: "timespec option \<Rightarrow> clocks \<Rightarrow> int \<times> clocks" where
  "set_time ts c =
     (case ts of
        None \<Rightarrow> (-1, c)
      | Some t \<Rightarrow>
          if tv_sec t < 0 \<or> tv_nsec t < 0 \<or> tv_nsec t \<ge> 1000000000 then (-1, c)
          else (0, c\<lparr>system_time := t\<rparr>))"

definition rtc_init_time :: "int \<Rightarrow> int \<Rightarrow> int \<Rightarrow> int \<Rightarrow> int \<Rightarrow> int \<Rightarrow> clocks \<Rightarrow> clocks" where
  "rtc_init_time year month day hour minute second c =
     (let days = days_since_epoch year month day;
          seconds = days * 86400;
          seconds = seconds + hour * 3600;
          seconds = seconds + minute * 60;
          seconds = seconds + second
      in c\<lparr>system_time := \<lparr>tv_sec = seconds, tv_nsec = 0\<rparr>\<rparr>)"

section \<open>The CMOS clock\<close>

definition RTC_REG_SECONDS :: u8 where "RTC_REG_SECONDS = 0x00"
definition RTC_REG_MINUTES :: u8 where "RTC_REG_MINUTES = 0x02"
definition RTC_REG_HOURS :: u8 where "RTC_REG_HOURS = 0x04"
definition RTC_REG_DAY :: u8 where "RTC_REG_DAY = 0x07"
definition RTC_REG_MONTH :: u8 where "RTC_REG_MONTH = 0x08"
definition RTC_REG_YEAR :: u8 where "RTC_REG_YEAR = 0x09"
definition RTC_REG_CENTURY :: u8 where "RTC_REG_CENTURY = 0x32"
definition RTC_REG_STATUS_A :: u8 where "RTC_REG_STATUS_A = 0x0A"
definition RTC_REG_STATUS_B :: u8 where "RTC_REG_STATUS_B = 0x0B"
definition RTC_STATUS_B_BINARY :: u8 where "RTC_STATUS_B_BINARY = 0x04"

text \<open>The chip: \<open>cmos n r\<close> is what register \<open>r\<close> shows at the \<open>n\<close>-th read of the data port; \<open>reads\<close> counts them.\<close>

record chip =
  cmos :: "nat \<Rightarrow> u8 \<Rightarrow> u8"
  reads :: nat

definition rtc_read_register :: "u8 \<Rightarrow> chip \<Rightarrow> u8 \<times> chip" where
  "rtc_read_register reg c = (cmos c (reads c) reg, c\<lparr>reads := reads c + 1\<rparr>)"

partial_function (option) rtc_wait_update :: "chip \<Rightarrow> chip option" where
  "rtc_wait_update c =
     (let (v, c) = rtc_read_register RTC_REG_STATUS_A c
      in if v AND 0x80 \<noteq> 0 then rtc_wait_update c else Some c)"

definition bcd_to_bin :: "u8 \<Rightarrow> u8" where
  "bcd_to_bin bcd = drop_bit 4 bcd * 10 + (bcd AND 0x0F)"

record rtc_time =
  rt_second :: u8
  rt_minute :: u8
  rt_hour :: u8
  rt_day :: u8
  rt_month :: u8
  rt_year :: u16

definition rtc_read_time :: "chip \<Rightarrow> (rtc_time \<times> chip) option" where
  "rtc_read_time c =
     (case rtc_wait_update c of
        None \<Rightarrow> None
      | Some c \<Rightarrow>
          let (s, c) = rtc_read_register RTC_REG_SECONDS c;
              (mi, c) = rtc_read_register RTC_REG_MINUTES c;
              (h, c) = rtc_read_register RTC_REG_HOURS c;
              (d, c) = rtc_read_register RTC_REG_DAY c;
              (mo, c) = rtc_read_register RTC_REG_MONTH c;
              (y, c) = rtc_read_register RTC_REG_YEAR c;
              (century, c) = rtc_read_register RTC_REG_CENTURY c;
              (status_b, c) = rtc_read_register RTC_REG_STATUS_B c;
              t = \<lparr>rt_second = s, rt_minute = mi, rt_hour = h, rt_day = d, rt_month = mo, rt_year = ucast y\<rparr>;
              (t, century) =
                (if status_b AND RTC_STATUS_B_BINARY = 0
                 then (\<lparr>rt_second = bcd_to_bin (rt_second t), rt_minute = bcd_to_bin (rt_minute t), rt_hour = bcd_to_bin (rt_hour t),
                        rt_day = bcd_to_bin (rt_day t), rt_month = bcd_to_bin (rt_month t), rt_year = ucast (bcd_to_bin (ucast (rt_year t)))\<rparr>,
                       if century \<noteq> 0 then bcd_to_bin century else century)
                 else (t, century));
              t = (if century \<noteq> 0 then t\<lparr>rt_year := ucast century * 100 + rt_year t\<rparr>
                   else t\<lparr>rt_year := rt_year t + (if rt_year t < 70 then 2000 else 1900)\<rparr>)
          in Some (t, c))"

definition rtc_init :: "chip \<Rightarrow> clocks \<Rightarrow> (clocks \<times> chip) option" where
  "rtc_init c k =
     (case rtc_read_time c of
        None \<Rightarrow> None
      | Some (t, c) \<Rightarrow>
          Some (rtc_init_time (uint (rt_year t)) (uint (rt_month t)) (uint (rt_day t)) (uint (rt_hour t)) (uint (rt_minute t)) (uint (rt_second t)) k, c))"

section \<open>System calls\<close>

text \<open>A pointer argument is present or null; the second component is what is stored through it.\<close>

definition sys_time :: "bool \<Rightarrow> clocks \<Rightarrow> int \<times> int option" where
  "sys_time t_ptr c = (get_time_seconds c, if t_ptr then Some (get_time_seconds c) else None)"

definition sys_time_ms :: "clocks \<Rightarrow> int" where "sys_time_ms c = sint (timer_get_ms c)"

definition sys_clock_gettime :: "u64 \<Rightarrow> bool \<Rightarrow> clocks \<Rightarrow> int \<times> timespec option" where
  "sys_clock_gettime clk_id ts_ptr c =
     (let clk = (ucast clk_id :: u32)
      in if \<not> ts_ptr then (-1, None)
         else if clk = CLOCK_REALTIME then (0, Some (get_time c))
         else if clk = CLOCK_MONOTONIC then (0, Some (get_monotonic c))
         else (-1, None))"

definition sys_settimeofday :: "timespec option \<Rightarrow> clocks \<Rightarrow> int \<times> clocks" where
  "sys_settimeofday ts c = (if ts = None then (-1, c) else set_time ts c)"

definition sys_gettimeofday :: "bool \<Rightarrow> clocks \<Rightarrow> int \<times> timeval option" where
  "sys_gettimeofday tv_ptr c =
     (if \<not> tv_ptr then (-1, None)
      else let ts = get_time c in (0, Some \<lparr>tvl_sec = tv_sec ts, tv_usec = tv_nsec ts sdiv 1000\<rparr>))"

end
