(* ===== verification/Calendar.thy ===== *)
theory Calendar
  imports Clock
begin

text \<open>
  The calendar functions of the C library: \<open>src/lib/libc/time.c\<close> and \<open>src/lib/libc/timeprofile.c\<close>. Strings are
  character lists, read up to their terminator; what a function writes through a pointer is the list
  of characters written. A \<open>tm\<close> passed by pointer is a value, so the null tests of \<open>gmtime_r\<close>, \<open>localtime_r\<close>
  and \<open>mktime\<close> have no counterpart. The size left in a buffer is a 64-bit word and wraps as in the code.
  Where \<open>gmtime_r\<close> narrows a day count to \<open>int\<close> and adds to it, the result wraps at 32 bits; the sums of \<open>mktime\<close>
  are exact, and the theorems about it bound the date so that they fit.
\<close>

section \<open>Calendar arithmetic\<close>

text \<open>In this file months count from 0.\<close>

definition libc_days_in_month :: "int \<Rightarrow> int \<Rightarrow> int" where
  "libc_days_in_month month year =
     (if month < 0 \<or> month > 11 then 0
      else if month = 1 \<and> is_leap_year year then 29
      else month_days ! nat month)"

definition day_of_week :: "int \<Rightarrow> int \<Rightarrow> int \<Rightarrow> int" where
  "day_of_week year month day =
     (let (month, year) = (if month < 3 then (month + 12, year - 1) else (month, year));
          q = day;
          m = month;
          k = year smod 100;
          j = year sdiv 100;
          h = (q + ((13 * (m + 1)) sdiv 5) + k + (k sdiv 4) + (j sdiv 4) - (2 * j)) smod 7
      in (h + 6) smod 7)"

record tm =
  tm_sec :: int
  tm_min :: int
  tm_hour :: int
  tm_mday :: int
  tm_mon :: int
  tm_year :: int
  tm_wday :: int
  tm_yday :: int
  tm_isdst :: int

text \<open>The conversion to a 32-bit \<^verbatim>\<open>int\<close>.\<close>

definition to_int :: "int \<Rightarrow> int" where
  "to_int x = (x + 2147483648) mod 4294967296 - 2147483648"

function year_loop :: "int \<Rightarrow> int \<Rightarrow> int \<times> int" where
  "year_loop year days = (if days < year_days year then (year, days) else year_loop (year + 1) (days - year_days year))"
  by pat_completeness auto

termination
  by (relation "measure (\<lambda>(year, days). nat days)") (auto simp: year_days_def split: if_splits)

declare year_loop.simps [simp del]

function month_loop :: "int \<Rightarrow> int \<Rightarrow> int \<Rightarrow> int \<times> int" where
  "month_loop year month days =
     (if month < 12
      then if days < libc_days_in_month month year then (month, days)
           else month_loop year (month + 1) (days - libc_days_in_month month year)
      else (month, days))"
  by pat_completeness auto

termination
  by (relation "measure (\<lambda>(year, month, days). nat (12 - month))") auto

declare month_loop.simps [simp del]

definition gmtime_r :: "int \<Rightarrow> tm" where
  "gmtime_r timep =
     (let t = timep;
          sec = t smod 60;
          t = t sdiv 60;
          mi = t smod 60;
          t = t sdiv 60;
          hour = t smod 24;
          t = t sdiv 24;
          days = to_int t;
          wday = to_int (days + 4) smod 7;
          (year, days) = year_loop 1970 days;
          yday = days;
          (month, days) = month_loop year 0 days
      in \<lparr>tm_sec = sec, tm_min = mi, tm_hour = hour, tm_mday = days + 1, tm_mon = month, tm_year = year - 1900,
          tm_wday = wday, tm_yday = yday, tm_isdst = 0\<rparr>)"

definition mktime :: "tm \<Rightarrow> int \<times> tm" where
  "mktime t =
     (let year = tm_year t + 1900;
          month = tm_mon t;
          day = tm_mday t;
          days = foldl (\<lambda>days y. days + year_days y) 0 [1970..year - 1];
          days = foldl (\<lambda>days m. days + libc_days_in_month m year) days [0..month - 1];
          days = days + (day - 1);
          seconds = days * 86400;
          seconds = seconds + tm_hour t * 3600;
          seconds = seconds + tm_min t * 60;
          seconds = seconds + tm_sec t;
          t = t\<lparr>tm_wday := day_of_week year (month + 1) day\<rparr>;
          yday = foldl (\<lambda>yday m. yday + libc_days_in_month m year) 0 [0..month - 1];
          yday = yday + (day - 1)
      in (seconds, t\<lparr>tm_yday := yday\<rparr>))"

section \<open>Numbers as text\<close>

definition digit :: "char \<Rightarrow> bool" where "digit c \<longleftrightarrow> 48 \<le> (of_char c :: nat) \<and> (of_char c :: nat) \<le> 57"

definition digit_value :: "char \<Rightarrow> int" where "digit_value c = int (of_char c) - 48"

fun parse_int :: "string \<Rightarrow> nat \<Rightarrow> int \<Rightarrow> int" where
  "parse_int (c # str) (Suc len) result = (if digit c then parse_int str len (result * 10 + digit_value c) else result)"
| "parse_int str len result = result"

text \<open>The digits of a number, last one first: the array \<^verbatim>\<open>temp\<close>.\<close>

function digits :: "int \<Rightarrow> string" where
  "digits v = (if v > 0 then char_of (nat (48 + v smod 10)) # digits (v sdiv 10) else [])"
  by pat_completeness auto

termination
proof (relation "measure nat")
  fix v :: int
  assume "0 < v"
  then have "v sdiv 10 = v div 10" by (simp add: signed_divide_int_def)
  then show "(v sdiv 10, v) \<in> measure nat" using \<open>0 < v\<close> by simp
qed simp

declare digits.simps [simp del]

definition append_int :: "int \<Rightarrow> nat \<Rightarrow> char \<Rightarrow> string" where
  "append_int v width pad =
     (let temp = (if v = 0 then ''0'' else digits v);
          temp = temp @ replicate (width - length temp) pad
      in rev temp)"

section \<open>Formatting\<close>

definition hour12 :: "int \<Rightarrow> int" where
  "hour12 h = (let h = h smod 12 in if h = 0 then 12 else h)"

definition ampm :: "int \<Rightarrow> string" where
  "ampm h = (if h < 12 then ''AM'' else ''PM'')"

function format_loop :: "tm \<Rightarrow> string \<Rightarrow> u64 \<Rightarrow> string" where
  "format_loop t f remaining =
     (if f = [] \<or> remaining = 0 then []
      else if take 4 f = ''YYYY'' then append_int (tm_year t + 1900) 4 CHR ''0'' @ format_loop t (drop 4 f) (remaining - 4)
      else if take 2 f = ''MM'' then append_int (tm_mon t + 1) 2 CHR ''0'' @ format_loop t (drop 2 f) (remaining - 2)
      else if take 2 f = ''DD'' then append_int (tm_mday t) 2 CHR ''0'' @ format_loop t (drop 2 f) (remaining - 2)
      else if take 2 f = ''HH'' then append_int (tm_hour t) 2 CHR ''0'' @ format_loop t (drop 2 f) (remaining - 2)
      else if take 2 f = ''hh'' then append_int (hour12 (tm_hour t)) 2 CHR ''0'' @ format_loop t (drop 2 f) (remaining - 2)
      else if take 2 f = ''mm'' then append_int (tm_min t) 2 CHR ''0'' @ format_loop t (drop 2 f) (remaining - 2)
      else if take 2 f = ''ss'' then append_int (tm_sec t) 2 CHR ''0'' @ format_loop t (drop 2 f) (remaining - 2)
      else if hd f = CHR ''A'' then ampm (tm_hour t) @ format_loop t (tl f) (remaining - 2)
      else hd f # format_loop t (tl f) (remaining - 1))"
  by pat_completeness auto

termination
  by (relation "measure (\<lambda>(t, f, r). length f)") auto

declare format_loop.simps [simp del]

text \<open>The characters stored in \<^verbatim>\<open>out\<close> before the terminator, when the call is accepted.\<close>

definition format_time :: "tm option \<Rightarrow> string option \<Rightarrow> u64 \<Rightarrow> int \<times> string option" where
  "format_time t fmt mx =
     (case (t, fmt) of
        (Some t, Some fmt) \<Rightarrow>
          if mx = 0 then (-1, None)
          else let out = format_loop t fmt (mx - 1) in (int (length out), Some out)
      | _ \<Rightarrow> (-1, None))"

definition strftime_item :: "tm \<Rightarrow> char \<Rightarrow> string \<times> u64" where
  "strftime_item t c =
     (if c = CHR ''Y'' then (append_int (tm_year t + 1900) 4 CHR ''0'', 4)
      else if c = CHR ''m'' then (append_int (tm_mon t + 1) 2 CHR ''0'', 2)
      else if c = CHR ''d'' then (append_int (tm_mday t) 2 CHR ''0'', 2)
      else if c = CHR ''H'' then (append_int (tm_hour t) 2 CHR ''0'', 2)
      else if c = CHR ''I'' then (append_int (hour12 (tm_hour t)) 2 CHR ''0'', 2)
      else if c = CHR ''M'' then (append_int (tm_min t) 2 CHR ''0'', 2)
      else if c = CHR ''S'' then (append_int (tm_sec t) 2 CHR ''0'', 2)
      else if c = CHR ''p'' then (ampm (tm_hour t), 2)
      else if c = CHR ''%'' then (''%'', 1)
      else (CHR ''%'' # [c], 2))"

fun strftime_loop :: "tm \<Rightarrow> string \<Rightarrow> u64 \<Rightarrow> string" where
  "strftime_loop t [] remaining = []"
| "strftime_loop t [c] remaining = (if remaining = 0 then [] else [c])"
| "strftime_loop t (c # d # f) remaining =
     (if remaining = 0 then []
      else if c = CHR ''%'' then fst (strftime_item t d) @ strftime_loop t f (remaining - snd (strftime_item t d))
      else c # strftime_loop t (d # f) (remaining - 1))"

definition strftime :: "u64 \<Rightarrow> string option \<Rightarrow> tm option \<Rightarrow> nat \<times> string option" where
  "strftime mx format t =
     (case (format, t) of
        (Some format, Some t) \<Rightarrow>
          if mx = 0 then (0, None)
          else let s = strftime_loop t format (mx - 1) in (length s, Some s)
      | _ \<Rightarrow> (0, None))"

section \<open>Time profiles\<close>

record time_profile =
  profile_offset :: int
  profile_format :: string
  profile_loaded :: bool

fun scan_number :: "string \<Rightarrow> int \<Rightarrow> int \<times> string" where
  "scan_number [] n = (n, [])"
| "scan_number (c # p) n = (if digit c then scan_number p (n * 10 + digit_value c) else (n, c # p))"

definition parse_offset :: "string option \<Rightarrow> int" where
  "parse_offset offset_str =
     (case offset_str of
        None \<Rightarrow> 0
      | Some p \<Rightarrow>
          let (sign, p) = (case p of
                 c # q \<Rightarrow> if c = CHR ''+'' then (1, q) else if c = CHR ''-'' then (-1, q) else (1, p)
               | [] \<Rightarrow> (1, p));
              (hours, p) = scan_number p 0;
              p = (case p of c # q \<Rightarrow> if c = CHR '':'' then q else p | [] \<Rightarrow> p);
              (minutes, p) = scan_number p 0
          in sign * (hours * 3600 + minutes * 60))"

definition skip_equals :: "string \<Rightarrow> string" where
  "skip_equals line = dropWhile (\<lambda>c. c = CHR '' '' \<or> c = CHR ''='') line"

definition parse_profile_line :: "string \<Rightarrow> int \<times> string \<Rightarrow> int \<times> string" where
  "parse_profile_line line p =
     (let line = dropWhile (\<lambda>c. c = CHR '' '' \<or> c = CHR 0x09) line
      in if take 6 line = ''offset'' then (parse_offset (Some (skip_equals (drop 6 line))), snd p)
         else if take 6 line = ''format''
         then (fst p, take 63 (takeWhile (\<lambda>c. c \<noteq> CHR 0x0A \<and> c \<noteq> CHR 0x0D) (skip_equals (drop 6 line))))
         else p)"

text \<open>The loop over the text of a profile; \<open>buf\<close> is the line so far, kept to 127 characters.\<close>

fun profile_lines :: "string \<Rightarrow> string \<Rightarrow> int \<times> string \<Rightarrow> int \<times> string" where
  "profile_lines [] buf p = (if buf \<noteq> [] then parse_profile_line buf p else p)"
| "profile_lines (c # line) buf p =
     (if c = CHR 0x0A \<or> c = CHR 0x0D
      then profile_lines line [] (if buf \<noteq> [] then parse_profile_line buf p else p)
      else profile_lines line (if length buf < 127 then buf @ [c] else buf) p)"

definition sample_profile :: string where
  "sample_profile = ''name = India'' @ [CHR 0x0A] @ ''offset = +05:30'' @ [CHR 0x0A] @ ''format = DD-MM-YYYY HH:mm:ss A'' @ [CHR 0x0A]"

definition load_time_profile :: "time_profile \<Rightarrow> int \<times> time_profile" where
  "load_time_profile s =
     (if profile_loaded s then (0, s)
      else let (off, fmt) = profile_lines sample_profile [] (0, ''DD-MM-YYYY HH:mm:ss A'')
           in (0, s\<lparr>profile_offset := off, profile_format := take 63 fmt, profile_loaded := True\<rparr>))"

definition get_time_offset :: "time_profile \<Rightarrow> int \<times> time_profile" where
  "get_time_offset s = (let s = (if \<not> profile_loaded s then snd (load_time_profile s) else s) in (profile_offset s, s))"

definition get_time_format :: "time_profile \<Rightarrow> string \<times> time_profile" where
  "get_time_format s = (let s = (if \<not> profile_loaded s then snd (load_time_profile s) else s) in (profile_format s, s))"

definition reload_time_profile :: "time_profile \<Rightarrow> int \<times> time_profile" where
  "reload_time_profile s = load_time_profile (s\<lparr>profile_loaded := False\<rparr>)"

definition create_time_profile :: "string option \<Rightarrow> string option \<Rightarrow> string option \<Rightarrow> int" where
  "create_time_profile name off fmt = (if name = None \<or> off = None \<or> fmt = None then -1 else 0)"

definition set_active_profile :: "string option \<Rightarrow> time_profile \<Rightarrow> int \<times> time_profile" where
  "set_active_profile name s = (if name = None then (-1, s) else reload_time_profile s)"

definition localtime_r :: "int \<Rightarrow> time_profile \<Rightarrow> tm \<times> time_profile" where
  "localtime_r timep s =
     (let s = (if \<not> profile_loaded s then snd (load_time_profile s) else s);
          local_time = timep + profile_offset s
      in (gmtime_r local_time, s))"

section \<open>Waiting\<close>

text \<open>\<open>sleep\<close> and \<open>usleep\<close> read the monotonic clock until enough time has passed; \<open>now n\<close> is what the \<open>n\<close>-th read shows.\<close>

partial_function (option) sleep_loop :: "(nat \<Rightarrow> timespec) \<Rightarrow> int \<Rightarrow> int \<Rightarrow> nat \<Rightarrow> nat option" where
  "sleep_loop now start seconds n =
     (if tv_sec (now n) - start \<ge> seconds then Some (n + 1) else sleep_loop now start seconds (n + 1))"

definition sleep :: "(nat \<Rightarrow> timespec) \<Rightarrow> u32 \<Rightarrow> nat option" where
  "sleep now seconds = sleep_loop now (tv_sec (now 0)) (uint seconds) 1"

partial_function (option) usleep_loop :: "(nat \<Rightarrow> timespec) \<Rightarrow> timespec \<Rightarrow> int \<Rightarrow> nat \<Rightarrow> nat option" where
  "usleep_loop now start target n =
     (let elapsed = (tv_sec (now n) - tv_sec start) * 1000000000 + (tv_nsec (now n) - tv_nsec start)
      in if elapsed \<ge> target then Some (n + 1) else usleep_loop now start target (n + 1))"

definition usleep :: "(nat \<Rightarrow> timespec) \<Rightarrow> u32 \<Rightarrow> nat option" where
  "usleep now useconds = usleep_loop now (now 0) (uint useconds * 1000) 1"

end
