(* ===== verification/Cmdt.thy ===== *)
theory Cmdt
  imports Calendar
begin

text \<open>
  The program runtime of \<open>src/kernel/proc/exec.c\<close>: the decoder of program images (records in the style of
  Intel HEX) and the interpreter of the statements they hold. The text of an image and of a program is
  a list of characters, the decoded image a list of bytes. A C \<^verbatim>\<open>int\<close> of a program is a 32-bit word
  that wraps. The terminal is the text written so far; what each call of \<open>tty_readline\<close> stores, and
  what it echoes while the line is typed, are parameters.
\<close>

section \<open>Program images\<close>

definition CMDT_MAX_SOURCE :: nat where "CMDT_MAX_SOURCE = 8192"
definition CMDT_MAX_VARS :: nat where "CMDT_MAX_VARS = 64"
definition CMDT_MAX_NAME_LEN :: nat where "CMDT_MAX_NAME_LEN = 32"
definition CMDT_MAX_LINE :: nat where "CMDT_MAX_LINE = 256"

text \<open>The messages a rejected image is logged with; \<open>Overfull\<close> has none.\<close>

datatype cmdt_error =
  Invalid_prefix | Short_record | Header_hex | Truncated | Data_hex | Checksum_hex | Checksum_mismatch
| Too_large | Bad_extended | Overfull

definition str_ends_with :: "string \<Rightarrow> string \<Rightarrow> bool" where
  "str_ends_with s suffix \<longleftrightarrow> (let sl = length s; tl = length suffix in if sl < tl then False else drop (sl - tl) s = suffix)"

definition in_range :: "char \<Rightarrow> char \<Rightarrow> char \<Rightarrow> bool" where
  "in_range a c b \<longleftrightarrow> (of_char a :: nat) \<le> of_char c \<and> (of_char c :: nat) \<le> of_char b"

definition hex_val :: "char \<Rightarrow> int" where
  "hex_val c =
     (if in_range CHR ''0'' c CHR ''9'' then of_char c - of_char CHR ''0''
      else if in_range CHR ''a'' c CHR ''f'' then of_char c - of_char CHR ''a'' + 10
      else if in_range CHR ''A'' c CHR ''F'' then of_char c - of_char CHR ''A'' + 10
      else -1)"

definition parse_hex_byte :: "string \<Rightarrow> u8 option" where
  "parse_hex_byte p =
     (case p of
        a # b # _ \<Rightarrow>
          let hi = hex_val a;
              lo = hex_val b
          in if hi < 0 \<or> lo < 0 then None else Some (push_bit 4 (of_int hi) OR of_int lo)
      | _ \<Rightarrow> None)"

primrec data_bytes :: "nat \<Rightarrow> string \<Rightarrow> u8 list option" where
  "data_bytes 0 p = Some []"
| "data_bytes (Suc n) p =
     (case parse_hex_byte p of
        None \<Rightarrow> None
      | Some b \<Rightarrow> (case data_bytes n (drop 2 p) of None \<Rightarrow> None | Some bs \<Rightarrow> Some (b # bs)))"

record cmdt_record =
  rectype :: u8
  rec_addr :: u32
  rec_data :: "u8 list"

definition parse_record :: "string \<Rightarrow> cmdt_error + cmdt_record" where
  "parse_record line =
     (if length line < 11 then Inl Short_record
      else
        case (parse_hex_byte (drop 1 line), parse_hex_byte (drop 3 line), parse_hex_byte (drop 5 line), parse_hex_byte (drop 7 line)) of
          (Some count, Some addr_hi, Some addr_lo, Some ty) \<Rightarrow>
            if length line < 11 + unat count * 2 then Inl Truncated
            else
              (case data_bytes (unat count) (drop 9 line) of
                 None \<Rightarrow> Inl Data_hex
               | Some data \<Rightarrow>
                   (case parse_hex_byte (drop (9 + unat count * 2) line) of
                      None \<Rightarrow> Inl Checksum_hex
                    | Some chk \<Rightarrow>
                        if count + addr_hi + addr_lo + ty + sum_list data + chk \<noteq> 0 then Inl Checksum_mismatch
                        else Inr \<lparr>rectype = ty, rec_addr = push_bit 8 (ucast addr_hi) OR ucast addr_lo, rec_data = data\<rparr>))
        | _ \<Rightarrow> Inl Header_hex)"

definition copy_to :: "nat \<Rightarrow> 'a list \<Rightarrow> 'a list \<Rightarrow> 'a list" where
  "copy_to a data out = take a out @ data @ drop (a + length data) out"

definition finish_image :: "nat \<Rightarrow> nat \<Rightarrow> u8 list \<Rightarrow> cmdt_error + u8 list" where
  "finish_image out_cap max_written out =
     (if max_written \<ge> out_cap then Inl Overfull else Inr (out[max_written := 0]))"

lemma decode_shorter:
  assumes "dropWhile P xs \<noteq> []" and "hd (dropWhile P xs) \<noteq> d"
  shows "length (dropWhile (\<lambda>c. c \<noteq> d) (dropWhile P xs)) < length xs"
proof -
  obtain c cs where c: "dropWhile P xs = c # cs" using assms(1) by (cases "dropWhile P xs") auto
  then have "length (dropWhile (\<lambda>c. c \<noteq> d) (dropWhile P xs)) \<le> length cs"
    using assms(2) length_dropWhile_le [of "\<lambda>c. c \<noteq> d" cs] by simp
  moreover have "length (c # cs) \<le> length xs" using length_dropWhile_le [of P xs] c by simp
  ultimately show ?thesis by simp
qed

function decode_loop :: "nat \<Rightarrow> string \<Rightarrow> u32 \<Rightarrow> nat \<Rightarrow> u8 list \<Rightarrow> cmdt_error + u8 list" where
  "decode_loop out_cap text upper max_written out =
     (let text = dropWhile (\<lambda>c. c = CHR 0x0D \<or> c = CHR 0x0A) text
      in if text = [] then finish_image out_cap max_written out
         else if hd text \<noteq> CHR '':'' then Inl Invalid_prefix
         else
           let line = takeWhile (\<lambda>c. c \<noteq> CHR 0x0A) text;
               text = dropWhile (\<lambda>c. c \<noteq> CHR 0x0A) text
           in case parse_record line of
                Inl e \<Rightarrow> Inl e
              | Inr r \<Rightarrow>
                  let abs_addr = upper + rec_addr r;
                      count = length (rec_data r)
                  in if rectype r = 0x00
                     then if unat abs_addr + count \<ge> out_cap then Inl Too_large
                          else decode_loop out_cap text upper
                                 (if unat abs_addr + count > max_written then unat abs_addr + count else max_written)
                                 (copy_to (unat abs_addr) (rec_data r) out)
                     else if rectype r = 0x01 then finish_image out_cap max_written out
                     else if rectype r = 0x04
                     then if count \<noteq> 2 then Inl Bad_extended
                          else decode_loop out_cap text (push_bit 16 (push_bit 8 (ucast (rec_data r ! 0)) OR ucast (rec_data r ! 1))) max_written out
                     else decode_loop out_cap text upper max_written out)"
  by pat_completeness auto

termination
  by (relation "measure (\<lambda>(out_cap, text, _). length text)") (auto intro!: decode_shorter)

declare decode_loop.simps [simp del]

definition cmdt_decode_source :: "string \<Rightarrow> nat \<Rightarrow> cmdt_error + u8 list" where
  "cmdt_decode_source text out_cap = decode_loop out_cap text 0 0 (replicate out_cap 0)"

section \<open>Lexical elements\<close>

definition vm_is_space :: "char \<Rightarrow> bool" where
  "vm_is_space c \<longleftrightarrow> c = CHR '' '' \<or> c = CHR 0x09 \<or> c = CHR 0x0A \<or> c = CHR 0x0D"

definition vm_skip_ws :: "string \<Rightarrow> string" where "vm_skip_ws p = dropWhile vm_is_space p"

definition vm_ident_start :: "char \<Rightarrow> bool" where
  "vm_ident_start c \<longleftrightarrow> c = CHR ''_'' \<or> in_range CHR ''a'' c CHR ''z'' \<or> in_range CHR ''A'' c CHR ''Z''"

definition vm_ident_char :: "char \<Rightarrow> bool" where
  "vm_ident_char c \<longleftrightarrow> vm_ident_start c \<or> in_range CHR ''0'' c CHR ''9''"

text \<open>A test of the character at a position; the end of the list is the terminator.\<close>

definition at_char :: "string \<Rightarrow> char \<Rightarrow> bool" where "at_char p c \<longleftrightarrow> p \<noteq> [] \<and> hd p = c"

text \<open>The parsers return what they recognised and the rest of the text.\<close>

definition vm_parse_ident :: "string \<Rightarrow> nat \<Rightarrow> (string \<times> string) option" where
  "vm_parse_ident p out_len =
     (let p = vm_skip_ws p
      in if p = [] \<or> \<not> vm_ident_start (hd p) then None
         else
           let name = takeWhile vm_ident_char p
           in if length name > out_len - 1 then None else Some (name, drop (length name) p))"

fun digits_loop :: "string \<Rightarrow> u32 \<Rightarrow> u32 \<times> string" where
  "digits_loop [] v = (v, [])"
| "digits_loop (c # p) v = (if digit c then digits_loop p (v * 10 + of_int (digit_value c)) else (v, c # p))"

definition vm_parse_int :: "string \<Rightarrow> (u32 \<times> string) option" where
  "vm_parse_int p =
     (let p = vm_skip_ws p;
          (sign, p) = (if at_char p CHR ''-'' then (-1, tl p) else (1, p));
          has_digit = (p \<noteq> [] \<and> digit (hd p));
          (v, p) = digits_loop p 0
      in if \<not> has_digit then None else Some (sign * v, p))"

text \<open>An escape sequence: the character meant and the rest.\<close>

definition unescape :: "char \<Rightarrow> string \<Rightarrow> char \<times> string" where
  "unescape c p =
     (if c = CHR 0x5C
      then if at_char p CHR ''n'' then (CHR 0x0A, tl p)
           else if at_char p CHR ''t'' then (CHR 0x09, tl p)
           else if at_char p CHR ''r'' then (CHR 0x0D, tl p)
           else if at_char p CHR 0x5C then (CHR 0x5C, tl p)
           else if at_char p CHR 0x22 then (CHR 0x22, tl p)
           else (c, p)
      else (c, p))"

lemma unescape_shorter: "length (snd (unescape c p)) \<le> length p"
  by (simp add: unescape_def)

function string_loop :: "string \<Rightarrow> nat \<Rightarrow> nat \<Rightarrow> (string \<times> string) option" where
  "string_loop [] n out_len = None"
| "string_loop (c # p) n out_len =
     (if c = CHR 0x22 then Some ([], p)
      else if n \<ge> out_len - 1 then None
      else
        case string_loop (snd (unescape c p)) (n + 1) out_len of
          None \<Rightarrow> None
        | Some (s, q) \<Rightarrow> Some (fst (unescape c p) # s, q))"
  by pat_completeness auto

termination
  by (relation "measure (\<lambda>(p, _, _). length p)") (auto simp: le_imp_less_Suc unescape_shorter)

definition vm_parse_string :: "string \<Rightarrow> nat \<Rightarrow> (string \<times> string) option" where
  "vm_parse_string p out_len =
     (let p = vm_skip_ws p
      in if \<not> at_char p CHR 0x22 then None else string_loop (tl p) 0 out_len)"

section \<open>Variables and terminal\<close>

record cmdt_var =
  var_used :: bool
  var_name :: string
  var_value :: u32

record console =
  tty_out :: string
  tty_in :: "nat \<Rightarrow> string"
  tty_echo :: "nat \<Rightarrow> string"
  tty_reads :: nat

record cmdt_vm_state = console +
  vars :: "nat \<Rightarrow> cmdt_var"

definition tty_print :: "string \<Rightarrow> 'a console_scheme \<Rightarrow> 'a console_scheme" where
  "tty_print t c = c\<lparr>tty_out := tty_out c @ t\<rparr>"

definition tty_readline :: "'a console_scheme \<Rightarrow> string \<times> 'a console_scheme" where
  "tty_readline c = (tty_in c (tty_reads c), c\<lparr>tty_out := tty_out c @ tty_echo c (tty_reads c), tty_reads := tty_reads c + 1\<rparr>)"

definition vm_find_var :: "cmdt_vm_state \<Rightarrow> string \<Rightarrow> nat option" where
  "vm_find_var vm name = find_from (\<lambda>i. var_used (vars vm i) \<and> var_name (vars vm i) = name) 0 CMDT_MAX_VARS"

definition vm_create_var :: "string \<Rightarrow> cmdt_vm_state \<Rightarrow> nat option \<times> cmdt_vm_state" where
  "vm_create_var name vm =
     (case vm_find_var vm name of
        Some i \<Rightarrow> (Some i, vm)
      | None \<Rightarrow>
          (case find_from (\<lambda>i. \<not> var_used (vars vm i)) 0 CMDT_MAX_VARS of
             None \<Rightarrow> (None, vm)
           | Some i \<Rightarrow>
               (Some i, vm\<lparr>vars := (vars vm)(i := \<lparr>var_used = True, var_name = take (CMDT_MAX_NAME_LEN - 1) name, var_value = 0\<rparr>)\<rparr>)))"

definition set_var :: "nat \<Rightarrow> u32 \<Rightarrow> cmdt_vm_state \<Rightarrow> cmdt_vm_state" where
  "set_var i v vm = vm\<lparr>vars := (vars vm)(i := (vars vm i)\<lparr>var_value := v\<rparr>)\<rparr>"

text \<open>The characters printed for a value; the sign of the least value cannot be changed.\<close>

definition int_text :: "u32 \<Rightarrow> string" where
  "int_text v =
     (if v = 0 then ''0''
      else if sint v < 0 then CHR ''-'' # rev (take 20 (digits (sint (- v))))
      else rev (take 20 (digits (sint v))))"

definition vm_print_int :: "u32 \<Rightarrow> cmdt_vm_state \<Rightarrow> cmdt_vm_state" where
  "vm_print_int v vm = tty_print (int_text v) vm"

section \<open>Statements\<close>

definition vm_parse_value :: "cmdt_vm_state \<Rightarrow> string \<Rightarrow> (u32 \<times> string) option" where
  "vm_parse_value vm p =
     (let p = vm_skip_ws p
      in case vm_parse_int p of
           Some r \<Rightarrow> Some r
         | None \<Rightarrow>
             (case vm_parse_ident p CMDT_MAX_NAME_LEN of
                None \<Rightarrow> None
              | Some (name, p) \<Rightarrow>
                  (case vm_find_var vm name of None \<Rightarrow> None | Some i \<Rightarrow> Some (var_value (vars vm i), p))))"

definition vm_end_stmt :: "string \<Rightarrow> bool" where
  "vm_end_stmt p \<longleftrightarrow> (let p = vm_skip_ws p in p = [] \<or> hd p = CHR '';'')"

definition declare_var :: "string \<Rightarrow> u32 \<Rightarrow> cmdt_vm_state \<Rightarrow> int \<times> cmdt_vm_state" where
  "declare_var ident v vm =
     (case vm_create_var ident vm of (None, vm) \<Rightarrow> (-1, vm) | (Some i, vm) \<Rightarrow> (0, set_var i v vm))"

definition exec_int :: "string \<Rightarrow> cmdt_vm_state \<Rightarrow> int \<times> cmdt_vm_state" where
  "exec_int p vm =
     (let p = drop 3 p
      in if p = [] \<or> \<not> vm_is_space (hd p) then (-1, vm)
         else
           case vm_parse_ident p CMDT_MAX_NAME_LEN of
             None \<Rightarrow> (-1, vm)
           | Some (ident, p) \<Rightarrow>
               let p = vm_skip_ws p
               in case (if at_char p CHR ''='' then vm_parse_value vm (tl p) else Some (0, p)) of
                    None \<Rightarrow> (-1, vm)
                  | Some (v, p) \<Rightarrow> if \<not> vm_end_stmt p then (-1, vm) else declare_var ident v vm)"

definition exec_dinput :: "string \<Rightarrow> cmdt_vm_state \<Rightarrow> int \<times> cmdt_vm_state" where
  "exec_dinput p vm =
     (let p = vm_skip_ws (drop 6 p)
      in if \<not> at_char p CHR ''('' then (-1, vm)
         else
           case vm_parse_string (tl p) CMDT_MAX_LINE of
             None \<Rightarrow> (-1, vm)
           | Some (prompt, p) \<Rightarrow>
               let p = vm_skip_ws p
               in if \<not> at_char p CHR '','' then (-1, vm)
                  else
                    case vm_parse_ident (tl p) CMDT_MAX_NAME_LEN of
                      None \<Rightarrow> (-1, vm)
                    | Some (ident, p) \<Rightarrow>
                        let p = vm_skip_ws p
                        in if \<not> at_char p CHR '')'' then (-1, vm)
                           else if \<not> vm_end_stmt (tl p) then (-1, vm)
                           else
                             let vm = tty_print prompt vm;
                                 (input, vm) = tty_readline vm
                             in case vm_parse_int input of
                                  None \<Rightarrow> (-1, vm)
                                | Some (v, _) \<Rightarrow> declare_var ident v vm)"

lemma print_shorter:
  assumes "xs \<noteq> []"
  shows "length (dropWhile P (drop 2 xs)) - Suc 0 < length xs"
proof -
  have "length (dropWhile P (drop 2 xs)) \<le> length xs" using length_dropWhile_le [of P "drop 2 xs"] by simp
  then show ?thesis using assms by (cases xs) auto
qed

text \<open>The output of a text with its references \<^verbatim>\<open>${name}\<close>.\<close>

function print_loop :: "string \<Rightarrow> cmdt_vm_state \<Rightarrow> int \<times> cmdt_vm_state" where
  "print_loop text vm =
     (if text = [] then (0, vm)
      else if hd text = CHR ''$'' \<and> at_char (tl text) CHR ''{''
      then
        let name = takeWhile (\<lambda>c. c \<noteq> CHR ''}'') (drop 2 text);
            rest = dropWhile (\<lambda>c. c \<noteq> CHR ''}'') (drop 2 text)
        in if length name > CMDT_MAX_NAME_LEN - 1 then (-1, vm)
           else if rest = [] then (-1, vm)
           else
             case vm_find_var vm name of
               None \<Rightarrow> (-1, vm)
             | Some i \<Rightarrow> print_loop (tl rest) (vm_print_int (var_value (vars vm i)) vm)
      else print_loop (tl text) (tty_print [hd text] vm))"
  by pat_completeness auto

termination
  by (relation "measure (\<lambda>(text, _). length text)") (auto simp: print_shorter)

declare print_loop.simps [simp del]

definition exec_cprintf :: "string \<Rightarrow> cmdt_vm_state \<Rightarrow> int \<times> cmdt_vm_state" where
  "exec_cprintf p vm =
     (let p = vm_skip_ws (drop 7 p)
      in if \<not> at_char p CHR ''('' then (-1, vm)
         else
           case vm_parse_string (tl p) CMDT_MAX_LINE of
             None \<Rightarrow> (-1, vm)
           | Some (text, p) \<Rightarrow>
               let p = vm_skip_ws p
               in if \<not> at_char p CHR '')'' then (-1, vm)
                  else if \<not> vm_end_stmt (tl p) then (-1, vm)
                  else print_loop text vm)"

definition exec_assign :: "string \<Rightarrow> cmdt_vm_state \<Rightarrow> int \<times> cmdt_vm_state" where
  "exec_assign p vm =
     (case vm_parse_ident p CMDT_MAX_NAME_LEN of
        None \<Rightarrow> (-1, vm)
      | Some (ident, p) \<Rightarrow>
          let p = vm_skip_ws p
          in if \<not> at_char p CHR ''='' then (-1, vm)
             else
               case vm_parse_value vm (tl p) of
                 None \<Rightarrow> (-1, vm)
               | Some (v, p) \<Rightarrow>
                   if \<not> vm_end_stmt p then (-1, vm)
                   else
                     case vm_find_var vm ident of
                       None \<Rightarrow> (-1, vm)
                     | Some i \<Rightarrow> (0, set_var i v vm))"

definition vm_exec_line :: "string \<Rightarrow> cmdt_vm_state \<Rightarrow> int \<times> cmdt_vm_state" where
  "vm_exec_line line vm =
     (let p = vm_skip_ws line
      in if p = [] \<or> take 2 p = ''//'' then (0, vm)
         else if take 3 p = ''int'' then exec_int p vm
         else if take 6 p = ''dinput'' then exec_dinput p vm
         else if take 7 p = ''cprintf'' then exec_cprintf p vm
         else exec_assign p vm)"

text \<open>The loop over the source; \<open>stmt\<close> is the statement read so far.\<close>

fun source_loop :: "string \<Rightarrow> string \<Rightarrow> cmdt_vm_state \<Rightarrow> int \<times> cmdt_vm_state" where
  "source_loop [] stmt vm = (let (r, vm) = vm_exec_line stmt vm in if r \<noteq> 0 then (-1, vm) else (0, vm))"
| "source_loop (c # p) stmt vm =
     (if c = CHR '';'' \<or> c = CHR 0x0A
      then let (r, vm) = vm_exec_line stmt vm in if r \<noteq> 0 then (-1, vm) else source_loop p [] vm
      else if length stmt \<ge> CMDT_MAX_LINE - 1 then (-1, vm)
      else source_loop p (stmt @ [c]) vm)"

definition vm_exec_source :: "string \<Rightarrow> console \<Rightarrow> int \<times> console" where
  "vm_exec_source source c =
     (let vm = \<lparr>tty_out = tty_out c, tty_in = tty_in c, tty_echo = tty_echo c, tty_reads = tty_reads c,
                vars = (\<lambda>_. \<lparr>var_used = False, var_name = [], var_value = 0\<rparr>)\<rparr>;
          (r, vm) = source_loop source [] vm
      in (r, console.truncate vm))"

end
