(* ===== verification/Cmdt_Image.thy ===== *)
theory Cmdt_Image
  imports Cmdt
begin

text \<open>
  Images of programs: how bytes are written as records with a checksum, that the decoder gets them
  back, and that it rejects an image in which a byte was changed.
\<close>

section \<open>Writing images\<close>

definition hex_digit :: "nat \<Rightarrow> char" where "hex_digit n = ''0123456789ABCDEF'' ! n"

definition hex_byte :: "u8 \<Rightarrow> string" where "hex_byte b = [hex_digit (unat b div 16), hex_digit (unat b mod 16)]"

definition line_of :: "u8 list \<Rightarrow> string" where "line_of bs = CHR '':'' # concat (map hex_byte bs)"

text \<open>The bytes of a record: length, address, type, data and the checksum that makes their sum 0.\<close>

definition record_bytes :: "nat \<Rightarrow> u8 \<Rightarrow> u8 list \<Rightarrow> u8 list" where
  "record_bytes a ty d =
     (let bs = of_nat (length d) # of_nat (a div 256) # of_nat a # ty # d in bs @ [- sum_list bs])"

primrec records :: "nat \<Rightarrow> u8 list list \<Rightarrow> string" where
  "records a [] = []"
| "records a (d # ds) = line_of (record_bytes a 0 d) @ CHR 0x0A # records (a + length d) ds"

definition cmdt_image :: "u8 list list \<Rightarrow> string" where
  "cmdt_image ds = records 0 ds @ line_of (record_bytes 0 1 [])"

section \<open>Reading one record\<close>

lemma hex_table: "list_all (\<lambda>n. hex_val (hex_digit n) = int n \<and> hex_digit n \<noteq> CHR 0x0A) [0..<16]"
  by code_simp

lemma hex_digit_ok: "n < 16 \<Longrightarrow> hex_val (hex_digit n) = int n \<and> hex_digit n \<noteq> CHR 0x0A"
  using hex_table unfolding list_all_iff by auto

lemma nibbles: "push_bit 4 (word_of_nat (unat b div 16)) OR word_of_nat (unat b mod 16) = (b :: u8)"
proof -
  have "unat b div 16 = unat (drop_bit 4 b)" "unat b mod 16 = unat (take_bit 4 b)"
    by (simp_all add: drop_bit_eq_div take_bit_eq_mod unat_div unat_mod)
  then show ?thesis by (intro bit_word_eqI) (auto simp: bit_simps)
qed

lemma hex_byte_ok: "parse_hex_byte (hex_byte b) = Some b \<and> CHR 0x0A \<notin> set (hex_byte b)"
proof -
  have "unat b div 16 < 16" "unat b mod 16 < 16" using unsigned_less [of b] by (simp_all add: div_less_iff_less_mult)
  from this [THEN hex_digit_ok] show ?thesis using nibbles [of b] by (auto simp: parse_hex_byte_def hex_byte_def)
qed

lemma parse_hex [simp]: "parse_hex_byte (hex_byte b @ r) = Some b"
  using hex_byte_ok [of b] by (simp add: parse_hex_byte_def hex_byte_def)

lemma hex_length [simp]: "length (hex_byte b) = 2"
  by (simp add: hex_byte_def)

lemma drop_hex [simp]: "drop 2 (hex_byte b @ r) = r"
  by (simp add: hex_byte_def)

lemma data_hex: "data_bytes (length d) (concat (map hex_byte d) @ r) = Some d"
  by (induction d) simp_all

lemma hex_concat_length [simp]: "length (concat (map hex_byte bs)) = 2 * length bs"
  by (induction bs) simp_all

lemma line_no_newline: "CHR 0x0A \<notin> set (line_of bs)"
  using hex_byte_ok by (auto simp: line_of_def)

text \<open>Any sequence of bytes with the right length in front is accepted exactly when its sum is 0.\<close>

lemma parse_line:
  assumes "unat n = length d"
  shows "parse_record (line_of (n # hi # lo # ty # d @ [c])) =
    (if n + hi + lo + ty + sum_list d + c \<noteq> 0 then Inl Checksum_mismatch
     else Inr \<lparr>rectype = ty, rec_addr = push_bit 8 (ucast hi) OR ucast lo, rec_data = d\<rparr>)"
proof -
  let ?l = "line_of (n # hi # lo # ty # d @ [c])"
  have hd: "parse_hex_byte (drop 1 ?l) = Some n" "parse_hex_byte (drop 3 ?l) = Some hi" "parse_hex_byte (drop 5 ?l) = Some lo"
    "parse_hex_byte (drop 7 ?l) = Some ty"
    using parse_hex [of n] parse_hex [of hi] parse_hex [of lo] parse_hex [of ty]
    by (simp_all add: line_of_def hex_byte_def)
  have "drop 9 ?l = concat (map hex_byte d) @ hex_byte c" by (simp add: line_of_def hex_byte_def)
  then have d: "data_bytes (length d) (drop 9 ?l) = Some d" and c: "parse_hex_byte (drop (length d * 2) (drop 9 ?l)) = Some c"
    using parse_hex [of c "[]"] by (simp_all add: data_hex mult.commute)
  have "length ?l = 11 + length d * 2" by (simp add: line_of_def)
  then show ?thesis using hd d c assms by (simp add: parse_record_def add.commute)
qed

lemma sum_list_change:
  assumes "i < length bs"
  shows "sum_list (bs[i := b]) = sum_list bs - bs ! i + (b :: 'a :: ab_group_add)"
  using assms by (induction bs arbitrary: i) (auto split: nat.splits simp: algebra_simps)

lemma record_parses:
  assumes "length d < 256"
  shows "parse_record (line_of (record_bytes a ty d)) =
    Inr \<lparr>rectype = ty, rec_addr = push_bit 8 (ucast (of_nat (a div 256) :: u8)) OR ucast (of_nat a :: u8), rec_data = d\<rparr>"
proof -
  have "unat (of_nat (length d) :: u8) = length d" using assms by (simp add: unat_of_nat)
  from parse_line [OF this] show ?thesis by (simp add: record_bytes_def Let_def add.assoc)
qed

lemma record_shape:
  assumes "length xs = k + 5"
  obtains n hi lo ty d c where "xs = n # hi # lo # ty # d @ [c]" "length d = k"
proof -
  have "length xs = Suc (Suc (Suc (Suc (Suc k))))" using assms by simp
  then obtain n hi lo ty ys where xs: "xs = n # hi # lo # ty # ys" "length ys = Suc k" unfolding length_Suc_conv by blast
  then have "ys \<noteq> []" by auto
  then have "ys = butlast ys @ [last ys]" by simp
  then show thesis using that [of n hi lo ty "butlast ys" "last ys"] xs by simp
qed

text \<open>A record in which one byte other than the length differs is rejected.\<close>

lemma changed_record:
  assumes "length d < 256" and "0 < i" and "i < length (record_bytes a ty d)" and "b \<noteq> record_bytes a ty d ! i"
  shows "parse_record (line_of ((record_bytes a ty d)[i := b])) = Inl Checksum_mismatch"
proof -
  let ?bs = "record_bytes a ty d"
  have s0: "sum_list ?bs = 0" by (simp add: record_bytes_def Let_def)
  have len: "length ?bs = length d + 5" by (simp add: record_bytes_def Let_def)
  obtain n hi lo ty' d' c where bs: "?bs[i := b] = n # hi # lo # ty' # d' @ [c]" "length d' = length d"
    by (rule record_shape [of "?bs[i := b]" "length d"]) (use len in simp)
  have "n = ?bs[i := b] ! 0" unfolding bs(1) by simp
  also have "\<dots> = ?bs ! 0" using assms(2) by (intro nth_list_update_neq) simp
  also have "\<dots> = of_nat (length d)" by (simp add: record_bytes_def Let_def)
  finally have n: "unat n = length d'" using assms(1) bs(2) by (simp add: unat_of_nat)
  have "n + hi + lo + ty' + sum_list d' + c = sum_list (?bs[i := b])" unfolding bs(1) by (simp add: add.assoc)
  also have "\<dots> = b - ?bs ! i" using sum_list_change [OF assms(3)] s0 by simp
  finally have "n + hi + lo + ty' + sum_list d' + c \<noteq> 0" using assms(4) by simp
  then show ?thesis unfolding bs(1) parse_line [OF n] by simp
qed

section \<open>Reading an image\<close>

lemma decode_newline: "decode_loop cap (CHR 0x0A # t) u m out = decode_loop cap t u m out"
  by (subst (1 2) decode_loop.simps) simp

lemma line_start: "dropWhile (\<lambda>c. c = CHR 0x0D \<or> c = CHR 0x0A) (line_of bs @ t) = line_of bs @ t"
  by (simp add: line_of_def)

lemma line_split:
  "takeWhile (\<lambda>c. c \<noteq> CHR 0x0A) (line_of bs @ CHR 0x0A # t) = line_of bs"
  "dropWhile (\<lambda>c. c \<noteq> CHR 0x0A) (line_of bs @ CHR 0x0A # t) = CHR 0x0A # t"
  "takeWhile (\<lambda>c. c \<noteq> CHR 0x0A) (line_of bs) = line_of bs"
proof -
  have "\<And>c. c \<in> set (line_of bs) \<Longrightarrow> c \<noteq> CHR 0x0A" using line_no_newline by metis
  then show "takeWhile (\<lambda>c. c \<noteq> CHR 0x0A) (line_of bs @ CHR 0x0A # t) = line_of bs"
    "dropWhile (\<lambda>c. c \<noteq> CHR 0x0A) (line_of bs @ CHR 0x0A # t) = CHR 0x0A # t"
    "takeWhile (\<lambda>c. c \<noteq> CHR 0x0A) (line_of bs) = line_of bs"
    by (simp_all add: takeWhile_append2 dropWhile_append2)
qed

lemma line_facts [simp]: "line_of bs \<noteq> []" "hd (line_of bs @ t) = CHR '':''"
  by (simp_all add: line_of_def)

lemma decode_data:
  assumes "parse_record (line_of bs) = Inr r" and "rectype r = 0" and "unat (u + rec_addr r) + length (rec_data r) < cap"
  shows "decode_loop cap (line_of bs @ CHR 0x0A # t) u m out =
    decode_loop cap t u (max m (unat (u + rec_addr r) + length (rec_data r))) (copy_to (unat (u + rec_addr r)) (rec_data r) out)"
  using assms by (subst decode_loop.simps) (simp add: line_start line_split Let_def decode_newline max_def)

lemma decode_end:
  assumes "parse_record (line_of bs) = Inr r" and "rectype r = 1"
  shows "decode_loop cap (line_of bs) u m out = finish_image cap m out"
  using assms line_start [of bs "[]"] line_facts(2) [of bs "[]"] by (subst decode_loop.simps) (simp add: line_split Let_def)

lemma decode_bad:
  assumes "parse_record (line_of bs) = Inl e"
  shows "decode_loop cap (line_of bs @ CHR 0x0A # t) u m out = Inl e"
  using assms by (subst decode_loop.simps) (simp add: line_start line_split Let_def)

lemma rec_address:
  assumes "a < 65536"
  shows "push_bit 8 (ucast (of_nat (a div 256) :: u8)) OR ucast (of_nat a :: u8) = (of_nat a :: u32)"
proof -
  have hi: "\<not> bit a n" if "16 \<le> n" for n
  proof -
    have "(2 :: nat) ^ 16 \<le> 2 ^ n" using that by (intro power_increasing) simp_all
    then show ?thesis using assms by (simp add: bit_iff_odd)
  qed
  have "a div 256 = drop_bit 8 a" by (simp add: drop_bit_eq_div)
  then show ?thesis
    by (intro bit_word_eqI) (use hi in \<open>auto simp: bit_simps not_less intro: ccontr\<close>)
qed

lemma copy_after: "length d \<le> k \<Longrightarrow> copy_to (length pre) d (pre @ replicate k z) = pre @ d @ replicate (k - length d) z"
  by (simp add: copy_to_def)

lemma decode_records:
  assumes "\<forall>d \<in> set ds. length d < 256" and "length pre + length (concat ds) < length pre + k" and "length pre + k \<le> 65536"
  shows "decode_loop (length pre + k) (records (length pre) ds @ t) 0 (length pre) (pre @ replicate k 0) =
    decode_loop (length pre + k) t 0 (length (pre @ concat ds)) (pre @ concat ds @ replicate (k - length (concat ds)) 0)"
  using assms
proof (induction ds arbitrary: pre k)
  case (Cons d ds)
  let ?a = "length pre" and ?k = "k - length d"
  have a: "?a < 65536" "unat (of_nat ?a :: u32) = ?a" using Cons.prems by (simp_all add: unat_of_nat)
  have d: "length d < 256" "length d \<le> k" "?a + length d < ?a + k" using Cons.prems by simp_all
  note p = record_parses [OF d(1), of ?a 0, unfolded rec_address [OF a(1)]]
  have "decode_loop (?a + k) (records ?a (d # ds) @ t) 0 ?a (pre @ replicate k 0) =
      decode_loop (?a + k) (records (?a + length d) ds @ t) 0 (?a + length d) (pre @ d @ replicate ?k 0)"
    using decode_data [OF p, of 0 "?a + k"] a d by (simp add: copy_after)
  moreover have "length (pre @ d) + ?k = ?a + k" using d by simp
  ultimately show ?case using Cons.IH [of "pre @ d" ?k] Cons.prems d by simp
qed simp

lemma finish_zero:
  assumes "length xs < cap" and "length xs + k = cap"
  shows "finish_image cap (length xs) (xs @ replicate k 0) = Inr (xs @ replicate k 0)"
proof -
  have "(xs @ replicate k 0)[length xs := 0] = xs @ replicate k 0" using assms by (cases k) simp_all
  then show ?thesis using assms by (simp add: finish_image_def)
qed

lemma decode_image:
  assumes "\<forall>d \<in> set ds. length d < 256" and "length (concat ds) < cap" and "cap \<le> 65536"
  shows "cmdt_decode_source (cmdt_image ds) cap = Inr (concat ds @ replicate (cap - length (concat ds)) 0)"
proof -
  have e: "parse_record (line_of (record_bytes 0 1 [])) = Inr \<lparr>rectype = 1, rec_addr = 0, rec_data = []\<rparr>"
    using record_parses [of "[]" 0 1] by simp
  show ?thesis
    using decode_records [of ds "[]" cap "line_of (record_bytes 0 1 [])"] assms decode_end [OF e] finish_zero [of "concat ds" cap]
    by (simp add: cmdt_decode_source_def cmdt_image_def)
qed

lemma decode_changed:
  assumes "\<forall>d \<in> set ds. length d < 256" and "length (concat ds) < cap" and "cap \<le> 65536"
    and "length d < 256" and "0 < i" and "i < length (record_bytes a ty d)" and "b \<noteq> record_bytes a ty d ! i"
  shows "cmdt_decode_source (records 0 ds @ line_of ((record_bytes a ty d)[i := b]) @ CHR 0x0A # t) cap = Inl Checksum_mismatch"
  using decode_records [of ds "[]" cap "line_of ((record_bytes a ty d)[i := b]) @ CHR 0x0A # t"] assms(1-3)
    decode_bad [OF changed_record [OF assms(4-7)]]
  by (simp add: cmdt_decode_source_def)

text \<open>Whatever the input: what the decoder returns fills the buffer exactly.\<close>

lemma decode_bounds:
  assumes "length out = cap" and "decode_loop cap t u m out = Inr res"
  shows "length res = cap"
  using assms
proof (induction "length t" arbitrary: t u m out rule: less_induct)
  case less
  define t1 where "t1 = dropWhile (\<lambda>c. c = CHR 0x0D \<or> c = CHR 0x0A) t"
  define t2 where "t2 = dropWhile (\<lambda>c. c \<noteq> CHR 0x0A) t1"
  note d = less.prems(2) [unfolded decode_loop.simps [of cap t] Let_def, folded t1_def, folded t2_def]
  have c: "length (copy_to a d xs) = length xs" if "a + length d < length xs" for a and d xs :: "u8 list"
    using that by (simp add: copy_to_def)
  show ?case
  proof (cases "t1 = []")
    case True
    then show ?thesis using d less.prems(1) by (auto simp: finish_image_def split: if_splits)
  next
    case ne: False
    then have h: "hd t1 = CHR '':''" using d by (simp split: if_splits)
    then have sh: "length t2 < length t" unfolding t1_def t2_def using ne by (intro decode_shorter) (simp_all add: t1_def)
    obtain r where r: "parse_record (takeWhile (\<lambda>c. c \<noteq> CHR 0x0A) t1) = Inr r" using d ne h by (simp split: sum.splits)
    show ?thesis
    proof (cases "rectype r = 0")
      case True
      let ?a = "unat (u + rec_addr r)"
      have f: "?a + length (rec_data r) < cap" using d ne h r True by (simp split: if_splits)
      with less.prems(1) have "length (copy_to ?a (rec_data r) out) = cap" using c by simp
      from less.hyps [OF sh this] show ?thesis using d ne h r True f by (simp split: if_splits)
    next
      case False
      then show ?thesis using d ne h r less.prems(1) less.hyps [OF sh] by (auto simp: finish_image_def split: if_splits)
    qed
  qed
qed

end
