(* ===== verification/Calendar_Correct.thy ===== *)
theory Calendar_Correct
  imports Calendar
begin

text \<open>
  Calendar dates and seconds: the loops of \<open>gmtime_r\<close> invert the sums of \<open>mktime\<close>, and Zeller's formula
  gives the day of the week that counting days gives.
\<close>

section \<open>Division towards zero\<close>

lemma smod_pos: "0 \<le> a \<Longrightarrow> 0 < b \<Longrightarrow> a smod b = (a mod b :: int)"
  by (cases "a = 0") (simp_all add: signed_modulo_int_def)

lemma sdiv_pos: "0 \<le> a \<Longrightarrow> 0 < b \<Longrightarrow> a sdiv b = (a div b :: int)"
  by (cases "a = 0") (simp_all add: signed_divide_int_def)

lemma smod_0_iff: "a smod b = 0 \<longleftrightarrow> b dvd (a :: int)"
  by (auto simp: signed_modulo_int_def sgn_if mod_eq_0_iff_dvd)

lemma leap_iff: "is_leap_year y \<longleftrightarrow> (4 dvd y \<and> \<not> 100 dvd y) \<or> 400 dvd y"
  by (simp add: is_leap_year_def smod_0_iff)

lemma foldl_sum: "foldl (\<lambda>a x. a + f x) (a :: int) xs = a + sum_list (map f xs)"
  by (induction xs arbitrary: a) simp_all

section \<open>Years\<close>

definition before_year :: "int \<Rightarrow> int" where
  "before_year y = sum_list (map year_days [1970..y - 1])"

lemma before_year_0 [simp]: "before_year 1970 = 0"
  by (simp add: before_year_def)

lemma before_year_Suc: "1970 \<le> y \<Longrightarrow> before_year (y + 1) = before_year y + year_days y"
  using upto_rec2 [of 1970 y] by (simp add: before_year_def)

lemma year_days_pos: "365 \<le> year_days y" "year_days y \<le> 366"
  by (simp_all add: year_days_def)

lemma year_loop_before:
  assumes "1970 \<le> y" and "0 \<le> r"
  shows "year_loop 1970 (before_year y + r) = year_loop y r"
  using assms
proof (induction y arbitrary: r rule: int_ge_induct)
  case base
  show ?case by simp
next
  case (step y)
  have "year_loop 1970 (before_year (y + 1) + r) = year_loop y (year_days y + r)"
    using step.IH [of "year_days y + r"] step.prems year_days_pos(1) [of y] before_year_Suc [OF step.hyps] by (simp add: add.assoc)
  also have "\<dots> = year_loop (y + 1) r" using step.prems by (subst year_loop.simps) simp
  finally show ?case .
qed

lemma year_loop_ok:
  assumes "1970 \<le> y0" and "0 \<le> days" and "year_loop y0 days = (y, r)"
  shows "y0 \<le> y \<and> 0 \<le> r \<and> r < year_days y \<and> before_year y0 + days = before_year y + r"
  using assms
proof (induction y0 days rule: year_loop.induct)
  case (1 y0 days)
  show ?case
  proof (cases "days < year_days y0")
    case True
    then show ?thesis using "1.prems" by (simp add: year_loop.simps [of y0 days])
  next
    case False
    have "y0 + 1 \<le> y \<and> 0 \<le> r \<and> r < year_days y \<and> before_year (y0 + 1) + (days - year_days y0) = before_year y + r"
      by (rule "1.IH" [OF False]) (use "1.prems" False in \<open>simp_all add: year_loop.simps [of y0 days]\<close>)
    then show ?thesis using before_year_Suc [OF "1.prems"(1)] by simp
  qed
qed

text \<open>The closed form: 365 days a year and the leap days before it.\<close>

definition leaps :: "int \<Rightarrow> int" where
  "leaps n = n div 4 - n div 100 + n div 400"

lemma div_step:
  assumes "(0 :: int) < n"
  shows "y div n = (y - 1) div n + (if n dvd y then 1 else 0)"
proof -
  have y: "y = n * (y div n) + y mod n" by simp
  show ?thesis
  proof (cases "n dvd y")
    case True
    then obtain k where k: "y = n * k" by (elim dvdE)
    have "(n * k - 1) div n = k - 1" using assms by (intro int_div_pos_eq [where r = "n - 1"]) (simp_all add: algebra_simps)
    then show ?thesis using True k assms by simp
  next
    case False
    then have "0 < y mod n" using assms by (simp add: dvd_eq_mod_eq_0 order_less_le)
    then have "(y - 1) div n = y div n"
      using assms y by (intro int_div_pos_eq [of _ _ _ "y mod n - 1"]) (use pos_mod_bound [OF assms, of y] in simp_all)
    then show ?thesis using False by simp
  qed
qed

lemma leaps_step: "leaps y = leaps (y - 1) + (if is_leap_year y then 1 else 0)"
proof -
  have "100 dvd y" if "400 dvd y" using that dvd_trans [of 100 400 y] by simp
  moreover have "4 dvd y" if "100 dvd y" using that dvd_trans [of 4 100 y] by simp
  ultimately show ?thesis
    unfolding leaps_def leap_iff using div_step [of 4 y] div_step [of 100 y] div_step [of 400 y] by auto
qed

lemma before_year_closed: "1970 \<le> y \<Longrightarrow> before_year y = 365 * (y - 1970) + leaps (y - 1) - 477"
proof (induction y rule: int_ge_induct)
  case base
  show ?case by (simp add: leaps_def)
next
  case (step y)
  then show ?case using before_year_Suc [OF step.hyps] leaps_step [of y] by (simp add: year_days_def)
qed

section \<open>Months\<close>

definition before_month :: "int \<Rightarrow> int \<Rightarrow> int" where
  "before_month m y = sum_list (map (\<lambda>m. libc_days_in_month m y) [0..m - 1])"

lemma before_month_0 [simp]: "before_month 0 y = 0"
  by (simp add: before_month_def)

lemma before_month_Suc: "0 \<le> m \<Longrightarrow> before_month (m + 1) y = before_month m y + libc_days_in_month m y"
  using upto_rec2 [of 0 m] by (simp add: before_month_def)

lemma months: "0 \<le> m \<Longrightarrow> m < (12 :: int) \<Longrightarrow> m = 0 \<or> m = 1 \<or> m = 2 \<or> m = 3 \<or> m = 4 \<or> m = 5 \<or> m = 6 \<or> m = 7 \<or> m = 8 \<or> m = 9 \<or> m = 10 \<or> m = 11"
  by presburger

lemma month_length: "0 \<le> m \<Longrightarrow> m < 12 \<Longrightarrow> 28 \<le> libc_days_in_month m y"
  by (drule (1) months) (auto simp: libc_days_in_month_def month_days_def)

lemma before_month_table:
  "before_month 1 y = 31" "before_month 2 y = 59 + (if is_leap_year y then 1 else 0)" "before_month 3 y = 90 + (if is_leap_year y then 1 else 0)"
  "before_month 4 y = 120 + (if is_leap_year y then 1 else 0)" "before_month 5 y = 151 + (if is_leap_year y then 1 else 0)"
  "before_month 6 y = 181 + (if is_leap_year y then 1 else 0)" "before_month 7 y = 212 + (if is_leap_year y then 1 else 0)"
  "before_month 8 y = 243 + (if is_leap_year y then 1 else 0)" "before_month 9 y = 273 + (if is_leap_year y then 1 else 0)"
  "before_month 10 y = 304 + (if is_leap_year y then 1 else 0)" "before_month 11 y = 334 + (if is_leap_year y then 1 else 0)"
  "before_month 12 y = year_days y"
  by (simp_all add: before_month_def upto_rec1 libc_days_in_month_def month_days_def year_days_def)

lemma month_loop_before:
  assumes "0 \<le> m" and "m < 12" and "0 \<le> r"
  shows "month_loop y 0 (before_month m y + r) = month_loop y m r"
  using assms
proof (induction m arbitrary: r rule: int_ge_induct)
  case base
  show ?case by simp
next
  case (step m)
  have "month_loop y 0 (before_month (m + 1) y + r) = month_loop y m (libc_days_in_month m y + r)"
    using step.IH [of "libc_days_in_month m y + r"] step.prems step.hyps month_length [of m y] before_month_Suc [OF step.hyps] by (simp add: add.assoc)
  also have "\<dots> = month_loop y (m + 1) r" using step.prems by (subst month_loop.simps) simp
  finally show ?case .
qed

lemma month_loop_ok:
  assumes "0 \<le> m0" and "m0 < 12" and "0 \<le> days" and "before_month m0 y + days < year_days y" and "month_loop y m0 days = (m, r)"
  shows "m0 \<le> m \<and> m < 12 \<and> 0 \<le> r \<and> r < libc_days_in_month m y \<and> before_month m0 y + days = before_month m y + r"
  using assms
proof (induction y m0 days rule: month_loop.induct)
  case (1 y m0 days)
  show ?case
  proof (cases "days < libc_days_in_month m0 y")
    case True
    then show ?thesis using "1.prems" by (simp add: month_loop.simps [of y m0 days])
  next
    case False
    note bs = before_month_Suc [OF "1.prems"(1), of y]
    have "m0 + 1 < 12"
    proof (rule ccontr)
      assume "\<not> m0 + 1 < 12"
      then have "m0 + 1 = 12" using "1.prems"(2) by simp
      then show False using "1.prems"(4) False bs before_month_table(12) [of y] by simp
    qed
    then have "m0 + 1 \<le> m \<and> m < 12 \<and> 0 \<le> r \<and> r < libc_days_in_month m y \<and>
        before_month (m0 + 1) y + (days - libc_days_in_month m0 y) = before_month m y + r"
      using "1.prems" False bs by (intro "1.IH") (simp_all add: month_loop.simps [of y m0 days])
    then show ?thesis using bs by simp
  qed
qed

section \<open>The day of the week\<close>

lemma smod_twice: "(x smod 7 + 6) smod 7 = (x + 6) mod (7 :: int)"
proof -
  have r: "x smod 7 = (if 0 \<le> x then x mod 7 else - ((- x) mod 7))" by (simp add: signed_modulo_int_def sgn_if)
  have "- 7 < x smod 7" unfolding r by (auto intro: less_le_trans [of _ 0])
  then have "(x smod 7 + 6) smod 7 = (x smod 7 + 6) mod 7" by (intro smod_pos) simp_all
  moreover have "x smod 7 mod 7 = x mod 7" unfolding r by (simp add: mod_minus_eq)
  ultimately show ?thesis by (metis mod_add_left_eq)
qed

text \<open>Zeller's sum for the year \<open>y\<close> that starts in March, with the number of the month from 3 to 14.\<close>

definition zeller :: "int \<Rightarrow> int \<Rightarrow> int \<Rightarrow> int" where
  "zeller y m d = (d + 13 * (m + 1) div 5 + y + leaps y + 6) mod 7"

lemma zeller_sum:
  assumes "0 \<le> y" and "0 \<le> m"
  shows "(d + 13 * (m + 1) sdiv 5 + y smod 100 + (y smod 100) sdiv 4 + (y sdiv 100) sdiv 4 - 2 * (y sdiv 100) + 6) mod 7 = zeller y m d"
proof -
  define j k where "j = y div 100" and "k = y mod 100"
  have y: "y = 100 * j + k" "0 \<le> k" "k < 100" "0 \<le> j" using assms by (simp_all add: j_def k_def pos_imp_zdiv_nonneg_iff)
  have "y div 4 = 25 * j + k div 4" "y div 100 = j" "y div 400 = j div 4" using y by (auto simp: j_def)
  then have l: "leaps y = 24 * j + k div 4 + j div 4" by (simp add: leaps_def)
  have "d + 13 * (m + 1) div 5 + k + k div 4 + j div 4 - 2 * j + 6 = (d + 13 * (m + 1) div 5 + y + leaps y + 6) + 7 * (- 18 * j)"
    using l y(1) by simp
  then have "(d + 13 * (m + 1) div 5 + k + k div 4 + j div 4 - 2 * j + 6) mod 7 = (d + 13 * (m + 1) div 5 + y + leaps y + 6) mod 7"
    by (metis mod_mult_self2)
  then show ?thesis using y assms by (simp add: zeller_def smod_pos sdiv_pos j_def [symmetric] k_def [symmetric])
qed

lemma day_of_week_zeller:
  assumes "1 \<le> y" and "1 \<le> m"
  shows "day_of_week y m d = (if m < 3 then zeller (y - 1) (m + 12) d else zeller y m d)"
  using assms zeller_sum [of "y - 1" "m + 12" d] zeller_sum [of y m d]
  by (simp add: day_of_week_def Let_def smod_twice)

lemma day_of_week_counts:
  assumes "1970 \<le> y" and "0 \<le> m" and "m < 12"
  shows "day_of_week y (m + 1) d = (before_year y + before_month m y + (d - 1) + 4) mod 7"
proof -
  define L b where "L = leaps (y - 1)" and "b = (if is_leap_year y then 1 else 0 :: int)"
  have l: "before_year y = 365 * (y - 1970) + L - 477" "leaps y = L + b"
    using before_year_closed [OF assms(1)] leaps_step [of y] by (simp_all add: L_def b_def)
  define R where "R = y + L + d"
  have "before_year y + B + (d - 1) + 4 = (R + B + 6) + 7 * (52 * y - 102790)" for B by (simp add: l(1) R_def)
  then have rhs: "(before_year y + B + (d - 1) + 4) mod 7 = (R + B + 6) mod 7" for B by (metis mod_mult_self2)
  have dw: "day_of_week y (m + 1) d = (if m < 2 then (R + 13 * (m + 14) div 5 + 5) mod 7 else (R + b + 13 * (m + 2) div 5 + 6) mod 7)"
    using day_of_week_zeller [of y "m + 1" d] assms by (simp add: zeller_def l(2) L_def [symmetric] R_def algebra_simps)
  show ?thesis unfolding dw rhs using months [OF assms(2,3)]
    by (elim disjE; simp add: before_month_table b_def [symmetric] mod_eq_dvd_iff)
qed

section \<open>Dates and seconds\<close>

definition date_ok :: "tm \<Rightarrow> bool" where
  "date_ok t \<longleftrightarrow> 70 \<le> tm_year t \<and> 0 \<le> tm_mon t \<and> tm_mon t < 12 \<and> 1 \<le> tm_mday t \<and>
     tm_mday t \<le> libc_days_in_month (tm_mon t) (tm_year t + 1900) \<and> 0 \<le> tm_hour t \<and> tm_hour t < 24 \<and>
     0 \<le> tm_min t \<and> tm_min t < 60 \<and> 0 \<le> tm_sec t \<and> tm_sec t < 60"

definition day_number :: "tm \<Rightarrow> int" where
  "day_number t = before_year (tm_year t + 1900) + before_month (tm_mon t) (tm_year t + 1900) + (tm_mday t - 1)"

lemma mktime_days:
  "fst (mktime t) = day_number t * 86400 + tm_hour t * 3600 + tm_min t * 60 + tm_sec t"
  "snd (mktime t) = t\<lparr>tm_wday := day_of_week (tm_year t + 1900) (tm_mon t + 1) (tm_mday t),
     tm_yday := before_month (tm_mon t) (tm_year t + 1900) + (tm_mday t - 1)\<rparr>"
  by (simp_all add: mktime_def Let_def foldl_sum day_number_def before_year_def before_month_def)

lemma digits_split: "0 \<le> q \<Longrightarrow> 0 \<le> r \<Longrightarrow> r < n \<Longrightarrow> (q * n + r) smod n = r \<and> (q * n + r) sdiv n = (q :: int)"
  by (simp add: smod_pos sdiv_pos)

lemma split_seconds:
  assumes "0 \<le> d" and "0 \<le> h" "h < 24" "0 \<le> m" "m < 60" "0 \<le> s" "s < (60 :: int)"
  defines "t \<equiv> d * 86400 + h * 3600 + m * 60 + s"
  shows "t smod 60 = s" "t sdiv 60 smod 60 = m" "t sdiv 60 sdiv 60 smod 24 = h" "t sdiv 60 sdiv 60 sdiv 24 = d"
proof -
  have t: "t = ((d * 24 + h) * 60 + m) * 60 + s" by (simp add: t_def)
  have 1: "t smod 60 = s \<and> t sdiv 60 = (d * 24 + h) * 60 + m" unfolding t by (rule digits_split) (use assms in simp_all)
  have 2: "((d * 24 + h) * 60 + m) smod 60 = m \<and> ((d * 24 + h) * 60 + m) sdiv 60 = d * 24 + h" by (rule digits_split) (use assms in simp_all)
  have 3: "(d * 24 + h) smod 24 = h \<and> (d * 24 + h) sdiv 24 = d" by (rule digits_split) (use assms in simp_all)
  show "t smod 60 = s" "t sdiv 60 smod 60 = m" "t sdiv 60 sdiv 60 smod 24 = h" "t sdiv 60 sdiv 60 sdiv 24 = d"
    using 1 2 3 by metis+
qed

lemma day_number_bounds:
  assumes "date_ok t"
  shows "0 \<le> day_number t"
proof -
  have "0 \<le> before_year (tm_year t + 1900)" by (auto simp: before_year_def year_days_def intro!: sum_list_nonneg)
  moreover have "0 \<le> before_month (tm_mon t) (tm_year t + 1900)"
    by (auto simp: before_month_def libc_days_in_month_def month_days_def nth_Cons' intro!: sum_list_nonneg)
  ultimately show ?thesis using assms by (simp add: day_number_def date_ok_def)
qed

lemma to_int_small: "0 \<le> d \<Longrightarrow> d < 2147483648 \<Longrightarrow> to_int d = d"
  by (simp add: to_int_def)

lemma month_fits:
  assumes "0 \<le> m" and "m < 12" and "0 \<le> r" and "r < libc_days_in_month m y"
  shows "before_month m y + r < year_days y"
  using months [OF assms(1,2)] assms(3,4)
  by (elim disjE; simp add: before_month_table libc_days_in_month_def month_days_def year_days_def split: if_splits)

lemma gmtime_of_date:
  assumes ok: "date_ok t" and d: "day_number t < 2147483644"
  shows "gmtime_r (fst (mktime t)) = (snd (mktime t))\<lparr>tm_isdst := 0\<rparr>"
proof -
  let ?y = "tm_year t + 1900" and ?r = "tm_mday t - 1"
  have v: "1970 \<le> ?y" "0 \<le> tm_mon t" "tm_mon t < 12" "0 \<le> ?r" "?r < libc_days_in_month (tm_mon t) ?y" using ok by (simp_all add: date_ok_def)
  note fits = month_fits [OF v(2-5)]
  have b0: "0 \<le> before_month (tm_mon t) ?y" by (auto simp: before_month_def libc_days_in_month_def month_days_def nth_Cons' intro!: sum_list_nonneg)
  have yl: "year_loop 1970 (day_number t) = (?y, before_month (tm_mon t) ?y + ?r)"
    using year_loop_before [OF v(1), of "before_month (tm_mon t) ?y + ?r"] v(4) b0 fits
    by (simp add: day_number_def year_loop.simps [of ?y] add.assoc)
  have ml: "month_loop ?y 0 (before_month (tm_mon t) ?y + ?r) = (tm_mon t, ?r)"
    using month_loop_before [OF v(2-4)] v by (simp add: month_loop.simps [of ?y "tm_mon t"])
  have s: "fst (mktime t) smod 60 = tm_sec t" "fst (mktime t) sdiv 60 smod 60 = tm_min t"
    "fst (mktime t) sdiv 60 sdiv 60 smod 24 = tm_hour t" "fst (mktime t) sdiv 60 sdiv 60 sdiv 24 = day_number t"
    unfolding mktime_days(1) using split_seconds [OF day_number_bounds [OF ok]] ok by (simp_all add: date_ok_def)
  have w: "(day_number t + 4) smod 7 = day_of_week ?y (tm_mon t + 1) (tm_mday t)"
    using day_of_week_counts [OF v(1-3)] day_number_bounds [OF ok] by (simp add: smod_pos day_number_def)
  have i: "to_int (day_number t) = day_number t" "to_int (day_number t + 4) = day_number t + 4"
    using day_number_bounds [OF ok] d by (simp_all add: to_int_small)
  show ?thesis
    by (simp add: gmtime_r_def Let_def s i yl ml w mktime_days(2))
qed

lemma gmtime_date:
  assumes "0 \<le> t" and "t < 2147483644 * 86400"
  shows "date_ok (gmtime_r t)" and "fst (mktime (gmtime_r t)) = t" and "day_number (gmtime_r t) < 2147483644" and "tm_isdst (gmtime_r t) = 0"
    and "tm_wday (gmtime_r t) = (day_number (gmtime_r t) + 4) mod 7" and "tm_yday (gmtime_r t) = before_month (tm_mon (gmtime_r t)) (tm_year (gmtime_r t) + 1900) + (tm_mday (gmtime_r t) - 1)"
proof -
  define d where "d = t sdiv 60 sdiv 60 sdiv 24"
  have d: "d = t div 86400" using assms by (simp add: d_def sdiv_pos pos_imp_zdiv_nonneg_iff zdiv_zmult2_eq [symmetric])
  have db: "0 \<le> d" "d < 2147483644" using assms by (simp_all add: d pos_imp_zdiv_nonneg_iff div_less_iff_less_mult)
  obtain y r where y: "year_loop 1970 d = (y, r)" by force
  have yo: "1970 \<le> y" "0 \<le> r" "r < year_days y" "d = before_year y + r" using year_loop_ok [OF _ db(1) y] by simp_all
  obtain m k where m: "month_loop y 0 r = (m, k)" by force
  have mo: "0 \<le> m" "m < 12" "0 \<le> k" "k < libc_days_in_month m y" "r = before_month m y + k" using month_loop_ok [OF _ _ yo(2) _ m] yo(3) by simp_all
  let ?g = "gmtime_r t"
  have g: "?g = \<lparr>tm_sec = t mod 60, tm_min = t div 60 mod 60, tm_hour = t div 3600 mod 24, tm_mday = k + 1, tm_mon = m, tm_year = y - 1900,
          tm_wday = (d + 4) mod 7, tm_yday = r, tm_isdst = 0\<rparr>"
    using assms db by (simp add: gmtime_r_def Let_def d [symmetric] to_int_small y m smod_pos sdiv_pos pos_imp_zdiv_nonneg_iff zdiv_zmult2_eq [symmetric])
  show "date_ok ?g" using yo mo by (simp add: g date_ok_def)
  have dn: "day_number ?g = d" using yo mo by (simp add: g day_number_def)
  then show "day_number ?g < 2147483644" using db by simp
  show "tm_isdst ?g = 0" "tm_wday ?g = (day_number ?g + 4) mod 7" using dn by (simp_all add: g)
  show "tm_yday ?g = before_month (tm_mon ?g) (tm_year ?g + 1900) + (tm_mday ?g - 1)" using mo by (simp add: g)
  have "t div 60 div 60 = t div 3600" "t div 3600 div 24 = d" by (simp_all add: d zdiv_zmult2_eq [symmetric])
  then have "t div 3600 * 60 + t div 60 mod 60 = t div 60" "d * 24 + t div 3600 mod 24 = t div 3600"
    using div_mult_mod_eq [of "t div 60" 60] div_mult_mod_eq [of "t div 3600" 24] by simp_all
  then have "d * 86400 + (t div 3600 mod 24) * 3600 + (t div 60 mod 60) * 60 + t mod 60 = t" using div_mult_mod_eq [of t 60] by linarith
  then show "fst (mktime ?g) = t" by (simp add: mktime_days(1) dn) (simp add: g)
qed

end
