(* ===== verification/Time_Keeping.thy ===== *)
theory Time_Keeping
  imports Calendar_Correct
begin

text \<open>
  Time from the chip to the text on the screen: the clocks of the kernel under any history of ticks
  and settings, the start from the CMOS clock, conversion to dates and back, and formatting.
\<close>

section \<open>Clocks under a history\<close>

definition nanos :: "timespec \<Rightarrow> int" where
  "nanos t = tv_sec t * 1000000000 + tv_nsec t"

definition normal :: "timespec \<Rightarrow> bool" where
  "normal t \<longleftrightarrow> 0 \<le> tv_nsec t \<and> tv_nsec t < 1000000000"

lemma to_int64_small: "0 \<le> x \<Longrightarrow> x < 9223372036854775808 \<Longrightarrow> to_int64 x = x"
  by (simp add: to_int64_def)

text \<open>A reading that \<open>n\<close> more ticks cannot take past the 64 bits of \<^verbatim>\<open>time_t\<close>.\<close>

definition room :: "nat \<Rightarrow> timespec \<Rightarrow> bool" where
  "room n t \<longleftrightarrow> 0 \<le> tv_sec t \<and> tv_sec t + int n < 9223372036854775808"

lemma room_Suc: "room (Suc n) t \<Longrightarrow> room n t"
  by (simp add: room_def)

lemma advance_nanos:
  assumes "normal t" and "room (Suc n) t"
  shows "nanos (advance t) = nanos t + 1000000" and "normal (advance t)" and "room n (advance t)"
proof -
  have "to_int64 (tv_sec t + 1) = tv_sec t + 1" using assms(2) by (intro to_int64_small) (simp_all add: room_def)
  then show "nanos (advance t) = nanos t + 1000000" "normal (advance t)" "room n (advance t)"
    using assms by (simp_all add: advance_def normal_def nanos_def room_def TICK_NS_def Let_def)
qed

datatype clock_call = Tick | Set "timespec option"

fun clock_exec :: "clock_call \<Rightarrow> clocks \<Rightarrow> clocks" where
  "clock_exec Tick c = timer_tick c"
| "clock_exec (Set t) c = snd (set_time t c)"

text \<open>The number of ticks, and the reading of the wall clock that a history should give.\<close>

definition ticks :: "clock_call list \<Rightarrow> nat" where
  "ticks cs = length (filter (\<lambda>c. c = Tick) cs)"

lemma ticks_simps [simp]: "ticks [] = 0" "ticks (Tick # cs) = Suc (ticks cs)" "ticks (Set t # cs) = ticks cs"
  by (simp_all add: ticks_def)

fun wall :: "clock_call list \<Rightarrow> int \<Rightarrow> int" where
  "wall [] n = n"
| "wall (Tick # cs) n = wall cs (n + 1000000)"
| "wall (Set t # cs) n = wall cs (case t of Some t \<Rightarrow> if 0 \<le> tv_sec t \<and> normal t then nanos t else n | None \<Rightarrow> n)"

lemma clock_run:
  assumes "normal (system_time c)" and "normal (monotonic_time c)"
    and "room (ticks cs) (system_time c)" and "room (ticks cs) (monotonic_time c)"
    and "\<And>t. Set (Some t) \<in> set cs \<Longrightarrow> 0 \<le> tv_sec t \<Longrightarrow> room (ticks cs) t"
  shows "let c' = fold clock_exec cs c
    in nanos (monotonic_time c') = nanos (monotonic_time c) + 1000000 * int (ticks cs) \<and> nanos (system_time c') = wall cs (nanos (system_time c)) \<and>
       normal (system_time c') \<and> normal (monotonic_time c') \<and> boot_ticks c' = boot_ticks c + of_nat (ticks cs)"
  using assms
proof (induction cs arbitrary: c)
  case Nil
  then show ?case by simp
next
  case (Cons a cs)
  show ?case
  proof (cases a)
    case Tick
    note r = Cons.prems(3,4) [unfolded Tick ticks_simps]
    have "room (ticks cs) t" if "Set (Some t) \<in> set cs" "0 \<le> tv_sec t" for t
      using Cons.prems(5) [of t] that room_Suc by (simp add: Tick)
    then show ?thesis using Cons.IH [of "timer_tick c"] Tick
        advance_nanos [OF Cons.prems(1) r(1)] advance_nanos [OF Cons.prems(2) r(2)]
      by (simp add: timer_tick_def Let_def)
  next
    case (Set t)
    note p = Cons.prems [unfolded Set ticks_simps]
    show ?thesis
    proof (cases t)
      case None
      then show ?thesis using Set Cons.IH [of c] p by (simp add: set_time_def)
    next
      case (Some u)
      show ?thesis
      proof (cases "0 \<le> tv_sec u \<and> normal u")
        case True
        then have "clock_exec a c = c\<lparr>system_time := u\<rparr>" using Set Some by (simp add: set_time_def normal_def)
        then show ?thesis using Set Some True Cons.IH [of "c\<lparr>system_time := u\<rparr>"] p by simp
      next
        case False
        then have "clock_exec a c = c" using Set Some by (auto simp: set_time_def normal_def)
        then show ?thesis using Set Some False Cons.IH [of c] p by auto
      qed
    qed
  qed
qed

section \<open>Starting from the chip\<close>

text \<open>How a chip shows a number below 100: two decimal digits, or binary.\<close>

definition shown :: "bool \<Rightarrow> int \<Rightarrow> u8" where
  "shown binary n = (if binary then of_int n else of_int (n div 10 * 16 + n mod 10))"

lemma shown_table: "list_all (\<lambda>n. uint (bcd_to_bin (shown False n)) = n \<and> uint (shown True n) = n) [0..99]"
  by code_simp

lemma shown_value:
  assumes "0 \<le> n" and "n < 100"
  shows "uint (bcd_to_bin (shown False n)) = n" and "uint (shown True n) = n"
  using shown_table assms by (auto simp: list_all_iff)

definition steady :: "chip \<Rightarrow> bool \<Rightarrow> tm \<Rightarrow> bool" where
  "steady c binary t \<longleftrightarrow>
     (\<forall>n. cmos c n RTC_REG_SECONDS = shown binary (tm_sec t) \<and> cmos c n RTC_REG_MINUTES = shown binary (tm_min t) \<and>
       cmos c n RTC_REG_HOURS = shown binary (tm_hour t) \<and> cmos c n RTC_REG_DAY = shown binary (tm_mday t) \<and>
       cmos c n RTC_REG_MONTH = shown binary (tm_mon t + 1) \<and> cmos c n RTC_REG_YEAR = shown binary ((tm_year t + 1900) mod 100) \<and>
       cmos c n RTC_REG_CENTURY = shown binary ((tm_year t + 1900) div 100) \<and>
       (cmos c n RTC_REG_STATUS_B AND RTC_STATUS_B_BINARY \<noteq> 0) = binary) \<and>
     (\<exists>n \<ge> reads c. cmos c n RTC_REG_STATUS_A AND 0x80 = 0)"

lemma wait_returns:
  assumes "reads c \<le> n" and "cmos c n RTC_REG_STATUS_A AND 0x80 = 0"
  shows "\<exists>k. rtc_wait_update c = Some (c\<lparr>reads := k\<rparr>)"
  using assms
proof (induction "n - reads c" arbitrary: c)
  case 0
  then have "reads c = n" by simp
  then show ?case using "0.prems" by (subst rtc_wait_update.simps) (auto simp: rtc_read_register_def)
next
  case (Suc d)
  show ?case
  proof (cases "cmos c (reads c) RTC_REG_STATUS_A AND 0x80 = 0")
    case True
    then show ?thesis by (subst rtc_wait_update.simps) (auto simp: rtc_read_register_def)
  next
    case False
    have "\<exists>k. rtc_wait_update (c\<lparr>reads := reads c + 1\<rparr>) = Some (c\<lparr>reads := reads c + 1\<rparr>\<lparr>reads := k\<rparr>)"
      by (rule Suc.hyps(1)) (use Suc.hyps(2) Suc.prems in simp_all)
    then show ?thesis using False by (subst rtc_wait_update.simps) (auto simp: rtc_read_register_def)
  qed
qed

lemma rtc_reads_date:
  assumes st: "steady c binary t" and ok: "date_ok t" and y: "tm_year t + 1900 < 10000"
  obtains r c' where "rtc_read_time c = Some (r, c')" "uint (rt_second r) = tm_sec t" "uint (rt_minute r) = tm_min t" "uint (rt_hour r) = tm_hour t"
    "uint (rt_day r) = tm_mday t" "uint (rt_month r) = tm_mon t + 1" "uint (rt_year r) = tm_year t + 1900"
proof -
  let ?y = "tm_year t + 1900"
  obtain n where "reads c \<le> n" "cmos c n RTC_REG_STATUS_A AND 0x80 = 0" using st by (auto simp: steady_def)
  from wait_returns [OF this] obtain k where w: "rtc_wait_update c = Some (c\<lparr>reads := k\<rparr>)" by blast
  have dm: "libc_days_in_month m yy \<le> 31" for m yy by (auto simp: libc_days_in_month_def month_days_def nth_Cons')
  define val where "val n = (if binary then shown binary n else bcd_to_bin (shown binary n))" for n
  have v: "uint (val n) = n" if "0 \<le> n" "n < 100" for n using shown_value [OF that] by (simp add: val_def)
  have f: "0 \<le> tm_sec t" "tm_sec t < 100" "0 \<le> tm_min t" "tm_min t < 100" "0 \<le> tm_hour t" "tm_hour t < 100" "0 \<le> tm_mday t" "tm_mday t < 100"
    "0 \<le> tm_mon t + 1" "tm_mon t + 1 < 100" "0 \<le> ?y mod 100" "?y mod 100 < 100" "19 \<le> ?y div 100" "?y div 100 < 100"
    using ok y dm [of "tm_mon t" ?y] by (auto simp: date_ok_def)
  have c1: "val (?y div 100) \<noteq> 0" using v [of "?y div 100"] f by auto
  have "val x = 0" if "shown binary x = 0" for x using that by (cases binary) (simp_all add: val_def bcd_to_bin_def)
  then have c0: "shown binary (?y div 100) \<noteq> 0" using c1 by blast
  have yy: "uint (ucast (val (?y div 100)) * 100 + ucast (val (?y mod 100)) :: u16) = ?y"
  proof -
    have "uint (ucast (val (?y div 100)) * 100 + ucast (val (?y mod 100)) :: u16) = (?y div 100 * 100 + ?y mod 100) mod 65536"
      using v f by (simp add: uint_word_ariths unsigned_ucast_eq take_bit_eq_mod mod_simps)
    then show ?thesis using y ok by (simp add: date_ok_def)
  qed
  define r where "r = \<lparr>rt_second = val (tm_sec t), rt_minute = val (tm_min t), rt_hour = val (tm_hour t), rt_day = val (tm_mday t),
    rt_month = val (tm_mon t + 1), rt_year = ucast (val (?y div 100)) * 100 + ucast (val (?y mod 100))\<rparr>"
  have u8: "ucast (ucast (x :: u8) :: u16) = x" for x by (rule bit_word_eqI) (auto simp: bit_simps)
  have reg: "cmos c n RTC_REG_SECONDS = shown binary (tm_sec t)" "cmos c n RTC_REG_MINUTES = shown binary (tm_min t)"
    "cmos c n RTC_REG_HOURS = shown binary (tm_hour t)" "cmos c n RTC_REG_DAY = shown binary (tm_mday t)"
    "cmos c n RTC_REG_MONTH = shown binary (tm_mon t + 1)" "cmos c n RTC_REG_YEAR = shown binary (?y mod 100)"
    "cmos c n RTC_REG_CENTURY = shown binary (?y div 100)" "(cmos c n RTC_REG_STATUS_B AND RTC_STATUS_B_BINARY = 0) = (\<not> binary)" for n
    using st unfolding steady_def by auto
  have "\<exists>c'. rtc_read_time c = Some (r, c')"
  proof (cases binary)
    case True
    then show ?thesis using c1 by (simp add: rtc_read_time_def w rtc_read_register_def Let_def reg val_def r_def)
  next
    case False
    then show ?thesis using c0 c1 by (simp add: rtc_read_time_def w rtc_read_register_def Let_def reg val_def r_def u8)
  qed
  then show thesis using that v f yy by (auto simp: r_def)
qed

lemma before_year_le: "1970 \<le> y \<Longrightarrow> before_year y \<le> 366 * (y - 1970)"
proof (induction y rule: int_ge_induct)
  case (step y)
  then show ?case using before_year_Suc [of y] year_days_pos(2) [of y] by simp
qed simp

lemma days_match: "days_in_month (m + 1) y = libc_days_in_month m y"
  by (auto simp: days_in_month_def libc_days_in_month_def)

lemma epoch_days:
  assumes "0 \<le> tm_mon t"
  shows "days_since_epoch (tm_year t + 1900) (tm_mon t + 1) (tm_mday t) = day_number t"
proof -
  have "map (\<lambda>m. days_in_month m y) [1..k] = map (\<lambda>m. libc_days_in_month m y) [0..k - 1]" for y k
  proof -
    have "[1..k] = map (\<lambda>m. m + 1) [0..k - 1]" by (rule nth_equalityI) simp_all
    then show ?thesis by (simp add: days_match comp_def)
  qed
  then show ?thesis by (simp add: days_since_epoch_def Let_def foldl_sum day_number_def before_year_def before_month_def)
qed

section \<open>Numbers as text\<close>

lemma digit_char: "0 \<le> d \<Longrightarrow> d < 10 \<Longrightarrow> digit (char_of (nat (48 + d))) \<and> digit_value (char_of (nat (48 + d))) = d"
  by (auto simp: digit_def digit_value_def)

lemma digits_0 [simp]: "digits 0 = []"
  by (simp add: digits.simps)

lemma parse_digits: "\<forall>c \<in> set ds. digit c \<Longrightarrow> parse_int (ds @ rest) (length ds) r = foldl (\<lambda>a c. a * 10 + digit_value c) r ds"
  by (induction ds arbitrary: r) simp_all

lemma digits_ok:
  assumes "0 \<le> v"
  shows "(\<forall>c \<in> set (digits v). digit c) \<and> foldr (\<lambda>c a. a * 10 + digit_value c) (digits v) 0 = v"
  using assms
proof (induction v rule: digits.induct)
  case (1 v)
  show ?case
  proof (cases "v > 0")
    case True
    have "0 \<le> v sdiv 10" using True by (simp add: sdiv_pos)
    from "1.IH" [OF True this] show ?thesis using True digit_char [of "v mod 10"]
      by (simp add: digits.simps [of v] smod_pos sdiv_pos)
  next
    case False
    then have "v = 0" using "1.prems" by simp
    then show ?thesis by simp
  qed
qed

lemma digits_length: "0 \<le> v \<Longrightarrow> v < 10 ^ n \<Longrightarrow> length (digits v) \<le> n"
proof (induction n arbitrary: v)
  case 0
  then show ?case by (simp add: digits.simps [of v])
next
  case (Suc n)
  show ?case
  proof (cases "v > 0")
    case True
    have "v div 10 < 10 ^ n" using Suc.prems(2) by (simp add: div_less_iff_less_mult mult.commute)
    then have "length (digits (v div 10)) \<le> n" using Suc True by simp
    then show ?thesis using True by (simp add: digits.simps [of v] sdiv_pos)
  qed (simp add: digits.simps [of v])
qed

lemma zeros: "((\<lambda>a. a * 10 + digit_value CHR ''0'') ^^ n) 0 = 0"
  by (induction n) (simp_all add: digit_value_def)

text \<open>A padded number has the width asked for and reads back.\<close>

lemma append_int_parses:
  assumes "0 \<le> v" and "v < 10 ^ w" and "0 < w"
  shows "length (append_int v w CHR ''0'') = w" and "parse_int (append_int v w CHR ''0'' @ rest) w 0 = v"
proof -
  define ds where "ds = (if v = 0 then ''0'' else digits v)"
  have ds: "\<forall>c \<in> set ds. digit c" "foldr (\<lambda>c a. a * 10 + digit_value c) ds 0 = v" "length ds \<le> w"
    using digits_ok [OF assms(1)] digits_length [OF assms(1,2)] assms(3) by (auto simp: ds_def digit_def digit_value_def)
  let ?t = "ds @ replicate (w - length ds) CHR ''0''"
  have a: "append_int v w CHR ''0'' = rev ?t" by (simp add: append_int_def ds_def Let_def)
  show len: "length (append_int v w CHR ''0'') = w" using ds(3) by (simp add: a)
  have "\<forall>c \<in> set (rev ?t). digit c" using ds(1) by (auto simp: digit_def)
  from parse_digits [OF this, of rest 0] have "parse_int (append_int v w CHR ''0'' @ rest) w 0 = foldl (\<lambda>a c. a * 10 + digit_value c) 0 (rev ?t)"
    using len unfolding a by simp
  also have "\<dots> = foldr (\<lambda>c a. a * 10 + digit_value c) ?t 0" by (simp add: foldl_conv_foldr)
  also have "\<dots> = v" using ds(2) by (simp add: zeros)
  finally show "parse_int (append_int v w CHR ''0'' @ rest) w 0 = v" .
qed

section \<open>Properties\<close>

text \<open>
  C34. Converting seconds to a date and back is the identity for every time from 1970 on up to day
  2147483643, that is as long as the number of days, and the four added to it for the day of the week,
  fit the \<^verbatim>\<open>int\<close> of \<open>gmtime_r\<close>. The date is a valid one, and \<open>mktime\<close> leaves it as it is: the day of the week it
  computes by Zeller's congruence and the day of the year are those \<open>gmtime_r\<close> found by counting days.
\<close>

theorem calendar_roundtrip:
  assumes "0 \<le> t" and "t < 2147483644 * 86400"
  shows "mktime (gmtime_r t) = (t, gmtime_r t) \<and> date_ok (gmtime_r t)"
proof -
  let ?g = "gmtime_r t"
  note g = gmtime_date [OF assms]
  have "day_of_week (tm_year ?g + 1900) (tm_mon ?g + 1) (tm_mday ?g) = tm_wday ?g"
    using day_of_week_counts [of "tm_year ?g + 1900" "tm_mon ?g" "tm_mday ?g"] g(1,5) by (simp add: date_ok_def day_number_def)
  then have "snd (mktime ?g) = ?g" unfolding mktime_days(2) g(6) [symmetric] by simp
  then show ?thesis using g(1,2) by (simp add: prod_eq_iff)
qed

theorem calendar_roundtrip_witness: "fst (mktime (gmtime_r 1700000000)) = 1700000000 \<and> date_ok (gmtime_r 1700000000)"
  using calendar_roundtrip [of 1700000000] by simp

text \<open>
  C35. Starting from the chip: when the CMOS clock shows a valid date from 1970 to 9999, in binary or as
  decimal digits, and lets its update flag go, \<open>rtc_init\<close> returns, and what a program gets from the
  system call and \<open>gmtime_r\<close> is that date.
\<close>

theorem boot_date:
  assumes "steady c binary t" and "date_ok t" and "tm_year t + 1900 < 10000"
  shows "\<exists>k c'. rtc_init c k0 = Some (k, c') \<and> gmtime_r (fst (sys_time p k)) = (snd (mktime t))\<lparr>tm_isdst := 0\<rparr>"
proof -
  obtain r c' where r: "rtc_read_time c = Some (r, c')" "uint (rt_second r) = tm_sec t" "uint (rt_minute r) = tm_min t" "uint (rt_hour r) = tm_hour t"
    "uint (rt_day r) = tm_mday t" "uint (rt_month r) = tm_mon t + 1" "uint (rt_year r) = tm_year t + 1900"
    by (rule rtc_reads_date [OF assms])
  have m: "0 \<le> tm_mon t" using assms(2) by (simp add: date_ok_def)
  define k where "k = rtc_init_time (tm_year t + 1900) (tm_mon t + 1) (tm_mday t) (tm_hour t) (tm_min t) (tm_sec t) k0"
  have "get_time_seconds k = fst (mktime t)" by (simp add: k_def rtc_init_time_def get_time_seconds_def Let_def epoch_days [OF m] mktime_days(1))
  moreover have "day_number t < 2147483644"
  proof -
    have v: "0 \<le> tm_mon t" "tm_mon t < 12" "0 \<le> tm_mday t - 1" "tm_mday t - 1 < libc_days_in_month (tm_mon t) (tm_year t + 1900)"
      using assms(2) by (simp_all add: date_ok_def)
    have "before_year (tm_year t + 1900) \<le> 366 * (tm_year t + 1900 - 1970)"
      by (rule before_year_le) (use assms(2) in \<open>simp add: date_ok_def\<close>)
    then show ?thesis using month_fits [OF v] year_days_pos(2) [of "tm_year t + 1900"] assms(3) by (simp add: day_number_def)
  qed
  ultimately have "gmtime_r (fst (sys_time p k)) = (snd (mktime t))\<lparr>tm_isdst := 0\<rparr>"
    using gmtime_of_date [OF assms(2)] by (simp add: sys_time_def)
  moreover have "rtc_init c k0 = Some (k, c')" by (simp add: rtc_init_def r k_def)
  ultimately show ?thesis by blast
qed

text \<open>A chip that shows the 29th of February 2024, 23:59:58, in decimal digits, after two reads of an update in progress.\<close>

definition leap_day :: tm where
  "leap_day = \<lparr>tm_sec = 58, tm_min = 59, tm_hour = 23, tm_mday = 29, tm_mon = 1, tm_year = 124, tm_wday = 0, tm_yday = 0, tm_isdst = 0\<rparr>"

definition leap_chip :: chip where
  "leap_chip = \<lparr>cmos = (\<lambda>n r. if r = RTC_REG_STATUS_A then (if n < 2 then 0x80 else 0)
       else if r = RTC_REG_SECONDS then 0x58 else if r = RTC_REG_MINUTES then 0x59 else if r = RTC_REG_HOURS then 0x23
       else if r = RTC_REG_DAY then 0x29 else if r = RTC_REG_MONTH then 0x02 else if r = RTC_REG_YEAR then 0x24
       else if r = RTC_REG_CENTURY then 0x20 else 0), reads = 0\<rparr>"

theorem boot_date_witness:
  "\<exists>k c'. rtc_init leap_chip \<lparr>system_time = \<lparr>tv_sec = 0, tv_nsec = 0\<rparr>, monotonic_time = \<lparr>tv_sec = 0, tv_nsec = 0\<rparr>, boot_ticks = 0\<rparr> = Some (k, c') \<and>
    tm_mday (gmtime_r (fst (sys_time False k))) = 29 \<and> tm_wday (gmtime_r (fst (sys_time False k))) = 4"
proof -
  have s: "steady leap_chip False leap_day"
    unfolding steady_def
  proof (intro conjI allI)
    show "\<exists>n \<ge> reads leap_chip. cmos leap_chip n RTC_REG_STATUS_A AND 0x80 = 0" by (rule exI [of _ 2]) (simp add: leap_chip_def)
  qed (simp_all add: leap_chip_def leap_day_def shown_def RTC_REG_SECONDS_def RTC_REG_MINUTES_def RTC_REG_HOURS_def RTC_REG_DAY_def RTC_REG_MONTH_def
      RTC_REG_YEAR_def RTC_REG_CENTURY_def RTC_REG_STATUS_A_def RTC_REG_STATUS_B_def RTC_STATUS_B_BINARY_def)
  have o: "date_ok leap_day" "tm_year leap_day + 1900 < 10000"
    by (simp_all add: date_ok_def leap_day_def libc_days_in_month_def leap_iff)
  have w: "day_of_week 2024 2 29 = 4" by code_simp
  show ?thesis using boot_date [OF s o, of _ False] unfolding mktime_days(2) by (fastforce simp: leap_day_def w)
qed

text \<open>
  C36. The clocks under any history of timer ticks and calls of \<open>set_time\<close>, the kernel function behind the
  setting that the documentation reserves for root: the monotonic clock advances by one million
  nanoseconds for every tick and never otherwise, the wall clock shows the last setting \<open>set_time\<close> accepted plus the ticks
  since, and the nanoseconds of both stay below one second. The seconds are 64-bit: neither the
  first reading nor a time that is set may be so large that the ticks of the history overflow it.
\<close>

theorem clock_history:
  assumes "normal (get_time c)" and "room (ticks cs) (get_time c)"
    and "\<And>t. Set (Some t) \<in> set cs \<Longrightarrow> 0 \<le> tv_sec t \<Longrightarrow> room (ticks cs) t"
  shows "let c' = fold clock_exec cs (time_init c)
    in nanos (get_monotonic c') = nanos (get_time c) + 1000000 * int (ticks cs) \<and> nanos (get_time c') = wall cs (nanos (get_time c)) \<and>
       normal (get_time c') \<and> normal (get_monotonic c') \<and> timer_get_ms c' = timer_get_ms c + of_nat (ticks cs)"
  using clock_run [of "time_init c" cs] assms
  by (simp add: time_init_def get_monotonic_def get_time_def timer_get_ms_def Let_def)

theorem clock_history_witness:
  "let c' = fold clock_exec [Tick, Set (Some \<lparr>tv_sec = 5, tv_nsec = 999999999\<rparr>), Tick, Set (Some \<lparr>tv_sec = -1, tv_nsec = 0\<rparr>)]
     (time_init \<lparr>system_time = \<lparr>tv_sec = 3, tv_nsec = 0\<rparr>, monotonic_time = \<lparr>tv_sec = 0, tv_nsec = 0\<rparr>, boot_ticks = 0\<rparr>)
   in nanos (get_monotonic c') = 3002000000 \<and> nanos (get_time c') = 6000999999"
proof -
  let ?c = "\<lparr>system_time = \<lparr>tv_sec = 3, tv_nsec = 0\<rparr>, monotonic_time = \<lparr>tv_sec = 0, tv_nsec = 0\<rparr>, boot_ticks = 0\<rparr>"
  let ?cs = "[Tick, Set (Some \<lparr>tv_sec = 5, tv_nsec = 999999999\<rparr>), Tick, Set (Some \<lparr>tv_sec = -1, tv_nsec = 0\<rparr>)]"
  have "normal (get_time ?c)" "room (ticks ?cs) (get_time ?c)" by (simp_all add: normal_def room_def get_time_def)
  moreover have "room (ticks ?cs) t" if "Set (Some t) \<in> set ?cs" "0 \<le> tv_sec t" for t using that by (auto simp: room_def)
  ultimately have "let c' = fold clock_exec ?cs (time_init ?c)
    in nanos (get_monotonic c') = nanos (get_time ?c) + 1000000 * int (ticks ?cs) \<and> nanos (get_time c') = wall ?cs (nanos (get_time ?c)) \<and>
       normal (get_time c') \<and> normal (get_monotonic c') \<and> timer_get_ms c' = timer_get_ms ?c + of_nat (ticks ?cs)"
    by (rule clock_history)
  moreover have "nanos (get_time ?c) = 3000000000" "wall ?cs (nanos (get_time ?c)) = 6000999999" by (simp_all add: nanos_def normal_def get_time_def)
  moreover have "ticks ?cs = 2" by simp
  ultimately show ?thesis by (simp only: Let_def) simp
qed

text \<open>
  A date formatted as \<open>YYYY-MM-DD HH:mm:ss\<close> into a buffer of 20 bytes or more takes 19 characters, and
  reading the numbers at their places gives the fields back.
\<close>

theorem format_parses:
  assumes "date_ok t" and "tm_year t + 1900 < 10000" and "20 \<le> unat mx"
  shows "\<exists>out. format_time (Some t) (Some ''YYYY-MM-DD HH:mm:ss'') mx = (19, Some out) \<and> length out = 19 \<and>
    parse_int out 4 0 = tm_year t + 1900 \<and> parse_int (drop 5 out) 2 0 = tm_mon t + 1 \<and> parse_int (drop 8 out) 2 0 = tm_mday t \<and>
    parse_int (drop 11 out) 2 0 = tm_hour t \<and> parse_int (drop 14 out) 2 0 = tm_min t \<and> parse_int (drop 17 out) 2 0 = tm_sec t"
proof -
  let ?n = "\<lambda>v. append_int v 2 CHR ''0''" and ?z = "append_int (tm_year t + 1900) 4 CHR ''0''"
  let ?out = "?z @ CHR ''-'' # ?n (tm_mon t + 1) @ CHR ''-'' # ?n (tm_mday t) @ CHR '' '' # ?n (tm_hour t) @ CHR '':'' # ?n (tm_min t) @ CHR '':'' # ?n (tm_sec t)"
  have nz: "mx \<noteq> 0" "mx \<noteq> 1" "mx \<noteq> 5" "mx \<noteq> 6" "mx \<noteq> 8" "mx \<noteq> 9" "mx \<noteq> 11" "mx \<noteq> 12" "mx \<noteq> 14" "mx \<noteq> 15" "mx \<noteq> 17" "mx \<noteq> 18"
    using assms(3) by auto
  have "format_loop t ''YYYY-MM-DD HH:mm:ss'' (mx - 1) = ?out" using nz by (simp add: format_loop.simps)
  then have f: "format_time (Some t) (Some ''YYYY-MM-DD HH:mm:ss'') mx = (int (length ?out), Some ?out)" using nz(1) by (simp add: format_time_def Let_def)
  have dm: "libc_days_in_month m y \<le> 31" for m y by (auto simp: libc_days_in_month_def month_days_def nth_Cons')
  have r: "0 \<le> tm_mon t + 1" "tm_mon t + 1 < 100" "0 \<le> tm_mday t" "tm_mday t < 100" "0 \<le> tm_hour t" "tm_hour t < 100" "0 \<le> tm_min t" "tm_min t < 100"
    "0 \<le> tm_sec t" "tm_sec t < 100" "0 \<le> tm_year t + 1900" using assms(1) dm [of "tm_mon t" "tm_year t + 1900"] by (auto simp: date_ok_def)
  have z: "length ?z = 4" "parse_int (?z @ rest) 4 0 = tm_year t + 1900" for rest using append_int_parses [of "tm_year t + 1900" 4] r(11) assms(2) by simp_all
  have n: "length (?n v) = 2" "parse_int (?n v @ rest) 2 0 = v" if "0 \<le> v" "v < 100" for v rest using append_int_parses [of v 2] that by simp_all
  show ?thesis
    by (rule exI [of _ ?out]) (use r n(1) z(1) n(2) [of _ "[]"] in \<open>simp add: f z n\<close>)
qed

theorem format_parses_witness:
  "\<exists>out. format_time (Some leap_day) (Some ''YYYY-MM-DD HH:mm:ss'') 20 = (19, Some out) \<and> parse_int (drop 8 out) 2 0 = 29"
proof -
  have "date_ok leap_day" "tm_year leap_day + 1900 < 10000" by (simp_all add: date_ok_def leap_day_def libc_days_in_month_def leap_iff)
  then show ?thesis using format_parses [of leap_day 20] by (auto simp: leap_day_def)
qed

section \<open>Outside the limits\<close>

text \<open>
  The size left in the buffer is unsigned and is not compared with the length of an item: when it
  wraps, everything is written. The default format writes 22 characters and the terminator into a
  buffer of 10.
\<close>

lemma format_overruns: "format_time (Some leap_day) (Some ''DD-MM-YYYY HH:mm:ss A'') 10 = (22, Some ''29-02-2024 23:59:58 PM'')"
  by code_simp

text \<open>
  The largest time a call can set is accepted, and the ticks of the next second take it to the least
  number: the wall clock is then before 1970.
\<close>

lemma clock_wraps:
  "fst (set_time (Some \<lparr>tv_sec = 9223372036854775807, tv_nsec = 999000000\<rparr>) c) = 0 \<and>
   tv_sec (get_time (fold clock_exec [Set (Some \<lparr>tv_sec = 9223372036854775807, tv_nsec = 999000000\<rparr>), Tick] c)) = - 9223372036854775808"
  by (simp add: set_time_def timer_tick_def advance_def to_int64_def TICK_NS_def get_time_def Let_def)

text \<open>The system call sets the clock for every process: it only tests the pointer before it calls \<open>set_time\<close>.\<close>

lemma settimeofday_unchecked: "sys_settimeofday (Some t) c = set_time (Some t) c"
  by (simp add: sys_settimeofday_def)

text \<open>On the last four days an \<^verbatim>\<open>int\<close> can count, the day of the week is negative.\<close>

lemma weekday_of: "tm_wday (gmtime_r t) = to_int (to_int (t sdiv 60 sdiv 60 sdiv 24) + 4) smod 7"
  by (simp add: gmtime_r_def Let_def split: prod.split)

lemma weekday_wraps: "tm_wday (gmtime_r (2147483644 * 86400)) = -2"
  unfolding weekday_of by (simp add: to_int_def signed_modulo_int_def signed_divide_int_def)

text \<open>Before 1970 the remainders are negative: one second before the epoch is given second \<open>-1\<close> of the first of January 1970.\<close>

lemma before_epoch: "tm_sec (gmtime_r (-1)) = -1 \<and> tm_mday (gmtime_r (-1)) = 1 \<and> tm_year (gmtime_r (-1)) = 70"
  by code_simp

text \<open>\<open>sleep\<close> compares whole seconds: called one millisecond before a full second, \<open>sleep(1)\<close> returns at the full second.\<close>

lemma sleep_short:
  "sleep (\<lambda>n. if n = 0 then \<lparr>tv_sec = 0, tv_nsec = 999000000\<rparr> else \<lparr>tv_sec = 1, tv_nsec = 0\<rparr>) 1 = Some 2"
  by (simp add: sleep_def sleep_loop.simps)

end
