(* ===== verification/Cmdt_Run.thy ===== *)
theory Cmdt_Run
  imports Cmdt_Image Time_Keeping
begin

text \<open>
  The language of the program runtime: statements as a data type, their meaning on an environment
  and a terminal, their text, and that the interpreter gives the text of a program its meaning.
\<close>

section \<open>Statements and their meaning\<close>

datatype cmdt_value = Num u32 | Var string
datatype cmdt_part = Text string | Hole string
datatype cmdt_stmt = Declare string "cmdt_value option" | Assign string cmdt_value | Ask string string | Print "cmdt_part list"

type_synonym env = "string \<Rightarrow> u32 option"

definition decimal :: "u32 \<Rightarrow> string" where
  "decimal v =
     (if v = 0 then ''0''
      else if sint v < 0 then CHR ''-'' # rev (digits (- sint v)) else rev (digits (sint v)))"

text \<open>How a value is printed: in decimal, but for the least value the sign only.\<close>

definition printed :: "u32 \<Rightarrow> string" where
  "printed v = (if v = 0x80000000 then ''-'' else decimal v)"

primrec value_of :: "cmdt_value \<Rightarrow> env \<Rightarrow> u32 option" where
  "value_of (Num v) e = Some v"
| "value_of (Var x) e = e x"

fun parts_of :: "cmdt_part list \<Rightarrow> env \<Rightarrow> string option" where
  "parts_of [] e = Some []"
| "parts_of (Text t # ps) e = map_option (\<lambda>r. t @ r) (parts_of ps e)"
| "parts_of (Hole x # ps) e = (case e x of None \<Rightarrow> None | Some v \<Rightarrow> map_option (\<lambda>r. printed v @ r) (parts_of ps e))"

fun stmt_step :: "cmdt_stmt \<Rightarrow> env \<times> console \<Rightarrow> (env \<times> console) option" where
  "stmt_step (Declare x None) (e, c) = Some (e(x \<mapsto> 0), c)"
| "stmt_step (Declare x (Some a)) (e, c) = map_option (\<lambda>v. (e(x \<mapsto> v), c)) (value_of a e)"
| "stmt_step (Assign x a) (e, c) = (if x \<in> dom e then map_option (\<lambda>v. (e(x \<mapsto> v), c)) (value_of a e) else None)"
| "stmt_step (Ask prompt x) (e, c) =
     (let (line, c) = tty_readline (tty_print prompt c)
      in map_option (\<lambda>(v, _). (e(x \<mapsto> v), c)) (vm_parse_int line))"
| "stmt_step (Print ps) (e, c) = map_option (\<lambda>t. (e, tty_print t c)) (parts_of ps e)"

primrec run :: "cmdt_stmt list \<Rightarrow> env \<times> console \<Rightarrow> (env \<times> console) option" where
  "run [] s = Some s"
| "run (st # sts) s = (case stmt_step st s of None \<Rightarrow> None | Some s \<Rightarrow> run sts s)"

section \<open>The text of a program\<close>

primrec show_value :: "cmdt_value \<Rightarrow> string" where
  "show_value (Num v) = decimal v"
| "show_value (Var x) = x"

primrec show_part :: "cmdt_part \<Rightarrow> string" where
  "show_part (Text t) = t"
| "show_part (Hole x) = ''${'' @ x @ ''}''"

definition escaped :: "char \<Rightarrow> string" where
  "escaped c =
     (if c = CHR 0x0A then [CHR 0x5C, CHR ''n''] else if c = CHR 0x09 then [CHR 0x5C, CHR ''t'']
      else if c = CHR 0x0D then [CHR 0x5C, CHR ''r''] else if c = CHR 0x5C then [CHR 0x5C, CHR 0x5C]
      else if c = CHR 0x22 then [CHR 0x5C, CHR 0x22] else [c])"

definition quoted :: "string \<Rightarrow> string" where
  "quoted t = CHR 0x22 # concat (map escaped t) @ [CHR 0x22]"

fun show_stmt :: "cmdt_stmt \<Rightarrow> string" where
  "show_stmt (Declare x None) = ''int '' @ x"
| "show_stmt (Declare x (Some a)) = ''int '' @ x @ '' = '' @ show_value a"
| "show_stmt (Assign x a) = x @ '' = '' @ show_value a"
| "show_stmt (Ask prompt x) = ''dinput('' @ quoted prompt @ '','' @ x @ '')''"
| "show_stmt (Print ps) = ''cprintf('' @ quoted (concat (map show_part ps)) @ '')''"

definition show_program :: "cmdt_stmt list \<Rightarrow> string" where
  "show_program sts = concat (map (\<lambda>st. show_stmt st @ [CHR '';'', CHR 0x0A]) sts)"

text \<open>
  What can be written: names are identifiers of at most 31 characters, texts contain no semicolon, and
  a statement has at most 255 characters. The target of an assignment must not begin with a keyword.
\<close>

definition ident :: "string \<Rightarrow> bool" where
  "ident x \<longleftrightarrow> x \<noteq> [] \<and> vm_ident_start (hd x) \<and> (\<forall>c \<in> set x. vm_ident_char c) \<and> length x \<le> 31"

definition no_keyword :: "string \<Rightarrow> bool" where
  "no_keyword x \<longleftrightarrow> take 3 x \<noteq> ''int'' \<and> take 6 x \<noteq> ''dinput'' \<and> take 7 x \<noteq> ''cprintf''"

definition plain :: "string \<Rightarrow> bool" where
  "plain t \<longleftrightarrow> CHR '';'' \<notin> set t \<and> CHR 0x00 \<notin> set t"

primrec wf_value :: "cmdt_value \<Rightarrow> bool" where
  "wf_value (Num v) = True"
| "wf_value (Var x) = ident x"

primrec wf_part :: "cmdt_part \<Rightarrow> bool" where
  "wf_part (Text t) = (plain t \<and> CHR ''$'' \<notin> set t)"
| "wf_part (Hole x) = ident x"

fun wf_parts :: "cmdt_stmt \<Rightarrow> bool" where
  "wf_parts (Declare x None) = ident x"
| "wf_parts (Declare x (Some a)) = (ident x \<and> wf_value a)"
| "wf_parts (Assign x a) = (ident x \<and> no_keyword x \<and> wf_value a)"
| "wf_parts (Ask prompt x) = (plain prompt \<and> ident x)"
| "wf_parts (Print ps) = (\<forall>p \<in> set ps. wf_part p)"

definition wf_stmt :: "cmdt_stmt \<Rightarrow> bool" where
  "wf_stmt st \<longleftrightarrow> wf_parts st \<and> length (show_stmt st) \<le> 255"

fun targets :: "cmdt_stmt \<Rightarrow> string set" where
  "targets (Declare x _) = {x}"
| "targets (Ask _ x) = {x}"
| "targets _ = {}"

section \<open>Names, numbers and quoted text\<close>

lemma ident_start_facts:
  assumes "vm_ident_start c"
  shows "\<not> vm_is_space c" "c \<noteq> CHR ''-''" "\<not> digit c" "c \<noteq> CHR ''/''" "vm_ident_char c"
  using assms by (auto simp: vm_ident_start_def vm_is_space_def digit_def in_range_def vm_ident_char_def)

lemma ident_char_facts:
  assumes "vm_ident_char c"
  shows "c \<noteq> CHR '';''" "c \<noteq> CHR 0x0A" "c \<noteq> CHR 0x00" "c \<noteq> CHR ''}''" "c \<noteq> CHR ''$''"
  using assms by (auto simp: vm_ident_start_def in_range_def vm_ident_char_def)

lemma skip_space [simp]: "vm_skip_ws (CHR '' '' # t) = vm_skip_ws t" "vm_skip_ws [] = []"
  by (simp_all add: vm_skip_ws_def vm_is_space_def)

lemma skip_none: "t \<noteq> [] \<Longrightarrow> \<not> vm_is_space (hd t) \<Longrightarrow> vm_skip_ws t = t"
  by (cases t) (simp_all add: vm_skip_ws_def)

lemma ident_skip: "ident x \<Longrightarrow> vm_skip_ws (x @ r) = x @ r"
  using ident_start_facts by (intro skip_none) (auto simp: ident_def)

lemma ident_parses:
  assumes "ident x" and "r \<noteq> [] \<Longrightarrow> \<not> vm_ident_char (hd r)"
  shows "vm_parse_ident (x @ r) CMDT_MAX_NAME_LEN = Some (x, r)"
proof -
  have "takeWhile vm_ident_char (x @ r) = x"
    using assms by (cases r) (auto simp: ident_def takeWhile_append2)
  moreover have "hd (x @ r) = hd x" using assms(1) by (simp add: ident_def)
  ultimately show ?thesis using assms(1) by (simp add: vm_parse_ident_def ident_skip ident_def CMDT_MAX_NAME_LEN_def Let_def)
qed

lemma skip_ident: "vm_parse_ident (CHR '' '' # t) n = vm_parse_ident t n"
  by (simp add: vm_parse_ident_def)

lemma digits_read:
  assumes "\<forall>c \<in> set ds. digit c" and "r \<noteq> [] \<Longrightarrow> \<not> digit (hd r)"
  shows "digits_loop (ds @ r) (of_int v) = (of_int (foldl (\<lambda>a c. a * 10 + digit_value c) v ds), r)"
  using assms(1)
proof (induction ds arbitrary: v)
  case Nil
  then show ?case using assms(2) by (cases r) simp_all
next
  case (Cons c ds)
  then show ?case using Cons.IH [of "v * 10 + digit_value c"] by simp
qed

lemma number_digits:
  assumes "0 < v"
  shows "rev (digits v) \<noteq> []" "\<forall>c \<in> set (rev (digits v)). digit c" "foldl (\<lambda>a c. a * 10 + digit_value c) 0 (rev (digits v)) = v"
  using digits_ok [of v] assms by (simp_all add: foldl_conv_foldr) (simp add: digits.simps [of v])

lemma digit_facts:
  assumes "digit c"
  shows "\<not> vm_is_space c" "c \<noteq> CHR ''-''" "c \<noteq> CHR '';''" "c \<noteq> CHR 0x0A" "c \<noteq> CHR 0x00" "c \<noteq> CHR ''/''"
  using assms by (auto simp: digit_def vm_is_space_def)

lemma int_parses:
  assumes "\<forall>c \<in> set ds. digit c" "ds \<noteq> []" and "r \<noteq> [] \<Longrightarrow> \<not> digit (hd r)"
  shows "vm_parse_int (ds @ r) = Some (of_int (foldl (\<lambda>a c. a * 10 + digit_value c) 0 ds), r)"
    and "vm_parse_int (CHR ''-'' # ds @ r) = Some (- of_int (foldl (\<lambda>a c. a * 10 + digit_value c) 0 ds), r)"
proof -
  have h: "digit (hd ds)" using assms(1,2) by simp
  then have s: "vm_skip_ws (ds @ r) = ds @ r" "vm_skip_ws (CHR ''-'' # ds @ r) = CHR ''-'' # ds @ r"
    using assms(2) digit_facts(1) by (auto intro!: skip_none simp: vm_is_space_def)
  have d: "digits_loop (ds @ r) 0 = (of_int (foldl (\<lambda>a c. a * 10 + digit_value c) 0 ds), r)"
    using digits_read [OF assms(1,3), of 0] by simp
  show "vm_parse_int (ds @ r) = Some (of_int (foldl (\<lambda>a c. a * 10 + digit_value c) 0 ds), r)"
    "vm_parse_int (CHR ''-'' # ds @ r) = Some (- of_int (foldl (\<lambda>a c. a * 10 + digit_value c) 0 ds), r)"
    using h d assms(2) digit_facts(2) [OF h] by (simp_all add: vm_parse_int_def s at_char_def Let_def)
qed

lemma sint_of_int [simp]: "of_int (sint (v :: u32)) = v"
  by simp

lemma decimal_parses:
  assumes "r \<noteq> [] \<Longrightarrow> \<not> digit (hd r)"
  shows "vm_parse_int (decimal v @ r) = Some (v, r)"
proof -
  have z: "digit CHR ''0''" "digit_value CHR ''0'' = 0" by (simp_all add: digit_def digit_value_def)
  consider "v = 0" | "v \<noteq> 0" "sint v < 0" | "v \<noteq> 0" "0 < sint v"
    by (metis linorder_neqE sint_0 sint_of_int of_int_0)
  then show ?thesis
  proof cases
    case 1
    then show ?thesis using int_parses(1) [of "''0''" r] assms z by (simp add: decimal_def)
  next
    case 2
    then show ?thesis using int_parses(2) [of "rev (digits (- sint v))" r] assms number_digits [of "- sint v"]
      by (simp add: decimal_def)
  next
    case 3
    then show ?thesis using int_parses(1) [of "rev (digits (sint v))" r] assms number_digits [of "sint v"]
      by (simp add: decimal_def)
  qed
qed

lemma decimal_chars:
  "c \<in> set (decimal v) \<Longrightarrow> digit c \<or> c = CHR ''-''" "decimal v \<noteq> []"
proof -
  have z: "digit CHR ''0''" by (simp add: digit_def)
  have s: "v \<noteq> 0 \<Longrightarrow> \<not> sint v < 0 \<Longrightarrow> 0 < sint v" by (metis linorder_neqE sint_of_int of_int_0)
  show "c \<in> set (decimal v) \<Longrightarrow> digit c \<or> c = CHR ''-''" "decimal v \<noteq> []"
    using z s number_digits [of "sint v"] number_digits [of "- sint v"] by (auto simp: decimal_def split: if_splits)
qed

lemma int_text_printed: "int_text v = printed v"
proof -
  have len: "take 20 (digits w) = digits w" if "0 \<le> w" "w < 10 ^ 20" for w using digits_length [OF that] by simp
  have lo: "- 2147483648 \<le> sint v" "sint v < 2147483648" using sint_ge [of v] sint_lt [of v] by simp_all
  have ng: "sint (- v) = - sint v" if "v \<noteq> 0x80000000" 
  proof -
    have "sint v \<noteq> - 2147483648"
    proof
      assume "sint v = - 2147483648"
      then have "v = of_int (- 2147483648)" by (metis sint_of_int)
      then show False using that by simp
    qed
    then have "signed_take_bit 31 (- sint v) = - sint v" using lo by (intro signed_take_bit_int_eq_self) simp_all
    moreover have "- v = of_int (- sint v)" by simp
    ultimately show ?thesis using sint_sbintrunc' [of "- sint v", where 'a = 32] by simp
  qed
  have "digits (- 2147483648) = []" by (simp add: digits.simps)
  then show ?thesis using ng lo len by (cases "v = 0x80000000") (auto simp: int_text_def printed_def decimal_def)
qed

lemma quoted_parses:
  assumes "n + length t < out_len"
  shows "string_loop (concat (map escaped t) @ CHR 0x22 # r) n out_len = Some (t, r)"
  using assms
proof (induction t arbitrary: n)
  case (Cons c t)
  have u: "\<exists>d p. escaped c = d # p \<and> d \<noteq> CHR 0x22 \<and> unescape d (p @ q) = (c, q)" for q
    by (auto simp: escaped_def unescape_def at_char_def)
  obtain d p where dp: "escaped c = d # p" "d \<noteq> CHR 0x22"
    "unescape d (p @ (concat (map escaped t) @ CHR 0x22 # r)) = (c, concat (map escaped t) @ CHR 0x22 # r)"
    using u [of "concat (map escaped t) @ CHR 0x22 # r"] by blast
  then show ?case using Cons.IH [of "n + 1"] Cons.prems by simp
qed simp

lemma escaped_length: "length t \<le> length (concat (map escaped t))"
proof (induction t)
  case (Cons c t)
  then show ?case by (auto simp: escaped_def)
qed simp

lemma string_parses:
  assumes "length (quoted t) \<le> 255"
  shows "vm_parse_string (quoted t @ r) CMDT_MAX_LINE = Some (t, r)"
proof -
  have "0 + length t < CMDT_MAX_LINE" using assms escaped_length [of t] by (simp add: quoted_def CMDT_MAX_LINE_def)
  from quoted_parses [OF this] show ?thesis
    by (simp add: vm_parse_string_def quoted_def skip_none vm_is_space_def at_char_def Let_def)
qed

section \<open>Variables\<close>

definition vm_ok :: "cmdt_vm_state \<Rightarrow> bool" where
  "vm_ok vm \<longleftrightarrow> (\<forall>i < CMDT_MAX_VARS. \<forall>j < CMDT_MAX_VARS.
     var_used (vars vm i) \<longrightarrow> var_used (vars vm j) \<longrightarrow> var_name (vars vm i) = var_name (vars vm j) \<longrightarrow> i = j)"

definition env_of :: "cmdt_vm_state \<Rightarrow> env" where
  "env_of vm x = (case vm_find_var vm x of None \<Rightarrow> None | Some i \<Rightarrow> Some (var_value (vars vm i)))"

definition console_of :: "cmdt_vm_state \<Rightarrow> console" where
  "console_of vm = console.truncate vm"

lemma find_var_iff:
  assumes "vm_ok vm"
  shows "vm_find_var vm x = Some i \<longleftrightarrow> i < CMDT_MAX_VARS \<and> var_used (vars vm i) \<and> var_name (vars vm i) = x"
proof -
  have "\<not> (var_used (vars vm j) \<and> var_name (vars vm j) = x)"
    if "i < CMDT_MAX_VARS" "var_used (vars vm i)" "var_name (vars vm i) = x" "j < i" for j
    using assms that unfolding vm_ok_def by (metis less_irrefl less_trans)
  then show ?thesis unfolding vm_find_var_def find_from_Some_iff by auto
qed

lemma find_var_None: "vm_find_var vm x = None \<longleftrightarrow> (\<forall>i < CMDT_MAX_VARS. var_used (vars vm i) \<longrightarrow> var_name (vars vm i) \<noteq> x)"
  by (auto simp: vm_find_var_def find_from_None_iff)

lemma env_Some_iff:
  assumes "vm_ok vm"
  shows "env_of vm x = Some v \<longleftrightarrow> (\<exists>i < CMDT_MAX_VARS. var_used (vars vm i) \<and> var_name (vars vm i) = x \<and> var_value (vars vm i) = v)"
proof -
  have "env_of vm x = Some v \<longleftrightarrow> (\<exists>i. vm_find_var vm x = Some i \<and> var_value (vars vm i) = v)"
    by (auto simp: env_of_def split: option.split)
  then show ?thesis unfolding find_var_iff [OF assms] by blast
qed

lemma dom_env: "vm_ok vm \<Longrightarrow> dom (env_of vm) = (\<lambda>i. var_name (vars vm i)) ` {i. i < CMDT_MAX_VARS \<and> var_used (vars vm i)}"
  by (auto simp: dom_def env_Some_iff)

lemma env_full:
  assumes "vm_ok vm" and "\<forall>i < CMDT_MAX_VARS. var_used (vars vm i)"
  shows "card (dom (env_of vm)) = CMDT_MAX_VARS"
proof -
  have "inj_on (\<lambda>i. var_name (vars vm i)) {i. i < CMDT_MAX_VARS \<and> var_used (vars vm i)}"
    using assms(1) by (auto simp: inj_on_def vm_ok_def)
  moreover have "{i. i < CMDT_MAX_VARS \<and> var_used (vars vm i)} = {..<CMDT_MAX_VARS}" using assms(2) by auto
  ultimately show ?thesis by (simp add: dom_env [OF assms(1)] card_image)
qed

lemma set_var_env:
  assumes "vm_ok vm" and "i < CMDT_MAX_VARS" and "var_used (vars vm i)" and "var_name (vars vm i) = x"
  shows "vm_ok (set_var i v vm)" "env_of (set_var i v vm) = (env_of vm)(x \<mapsto> v)" "console_of (set_var i v vm) = console_of vm"
proof -
  have n: "var_used (vars (set_var i v vm) j) = var_used (vars vm j)" "var_name (vars (set_var i v vm) j) = var_name (vars vm j)" for j
    by (simp_all add: set_var_def)
  show ok: "vm_ok (set_var i v vm)" using assms(1) by (simp add: vm_ok_def n)
  have f: "vm_find_var (set_var i v vm) y = vm_find_var vm y" for y by (simp add: vm_find_var_def n)
  have vs: "var_value (vars (set_var i v vm) j) = (if j = i then v else var_value (vars vm j))" for j by (simp add: set_var_def)
  have xi: "vm_find_var vm x = Some i" using assms by (simp add: find_var_iff)
  have yi: "vm_find_var vm y \<noteq> Some i" if "y \<noteq> x" for y using that assms by (simp add: find_var_iff)
  show "env_of (set_var i v vm) = (env_of vm)(x \<mapsto> v)"
  proof
    fix y
    show "env_of (set_var i v vm) y = ((env_of vm)(x \<mapsto> v)) y"
      using xi yi [of y] by (cases "vm_find_var vm y") (auto simp: env_of_def f vs)
  qed
  show "console_of (set_var i v vm) = console_of vm" by (simp add: console_of_def set_var_def console.defs)
qed

lemma declare_env:
  assumes ok: "vm_ok vm" and x: "length x \<le> 31" and room: "x \<in> dom (env_of vm) \<or> card (dom (env_of vm)) < CMDT_MAX_VARS"
  shows "\<exists>vm'. declare_var x v vm = (0, vm') \<and> vm_ok vm' \<and> env_of vm' = (env_of vm)(x \<mapsto> v) \<and> console_of vm' = console_of vm"
proof (cases "vm_find_var vm x")
  case (Some i)
  then have "i < CMDT_MAX_VARS" "var_used (vars vm i)" "var_name (vars vm i) = x" using find_var_iff [OF ok] by auto
  from set_var_env [OF ok this] show ?thesis using Some by (simp add: declare_var_def vm_create_var_def)
next
  case None
  then have nd: "x \<notin> dom (env_of vm)" by (simp add: env_of_def dom_def)
  then obtain i where i: "find_from (\<lambda>i. \<not> var_used (vars vm i)) 0 CMDT_MAX_VARS = Some i"
    using room env_full [OF ok] by (cases "find_from (\<lambda>i. \<not> var_used (vars vm i)) 0 CMDT_MAX_VARS") (auto simp: find_from_None_iff)
  then have il: "i < CMDT_MAX_VARS" "\<not> var_used (vars vm i)" by (simp_all add: find_from_Some_iff)
  let ?w = "vm\<lparr>vars := (vars vm)(i := \<lparr>var_used = True, var_name = x, var_value = 0\<rparr>)\<rparr>"
  have w: "vm_ok ?w" using ok None il by (auto simp: vm_ok_def find_var_None)
  have "env_of ?w = (env_of vm)(x \<mapsto> 0)"
  proof
    fix y
    show "env_of ?w y = ((env_of vm)(x \<mapsto> 0)) y"
    proof (cases "y = x")
      case True
      then show ?thesis using il by (simp add: env_Some_iff [OF w]) (use il in auto)
    next
      case False
      then have "env_of ?w y = Some u \<longleftrightarrow> env_of vm y = Some u" for u
        using il by (auto simp: env_Some_iff [OF w] env_Some_iff [OF ok])
      then have "env_of ?w y = env_of vm y" by (metis not_None_eq)
      then show ?thesis using False by simp
    qed
  qed
  moreover have "console_of ?w = console_of vm" by (simp add: console_of_def console.defs)
  moreover have "declare_var x v vm = (0, set_var i v ?w)" using None i x by (simp add: declare_var_def vm_create_var_def CMDT_MAX_NAME_LEN_def)
  ultimately show ?thesis using set_var_env [OF w, of i x v] il(1) by simp
qed

lemma vars_cong: "vars vm' = vars vm \<Longrightarrow> vm_ok vm' = vm_ok vm \<and> env_of vm' = env_of vm"
  unfolding vm_ok_def env_of_def vm_find_var_def fun_eq_iff by (simp cong: option.case_cong)

lemma print_env [simp]:
  "vm_ok (tty_print t vm) = vm_ok vm" "env_of (tty_print t vm) = env_of vm" "console_of (tty_print t vm) = tty_print t (console_of vm)"
  "vm_ok (snd (tty_readline vm)) = vm_ok vm" "env_of (snd (tty_readline vm)) = env_of vm"
  "console_of (snd (tty_readline vm)) = snd (tty_readline (console_of vm))"
  using vars_cong [of "tty_print t vm" vm] vars_cong [of "snd (tty_readline vm)" vm]
  by (simp_all add: tty_print_def tty_readline_def console_of_def console.defs)

lemma same_line: "fst (tty_readline (tty_print t vm)) = fst (tty_readline (tty_print t (console_of vm)))"
  by (simp add: tty_readline_def tty_print_def console_of_def console.defs)

section \<open>Statements\<close>

text \<open>The interpreter does what the meaning of a statement says, or fails where it has none.\<close>

definition does :: "int \<times> cmdt_vm_state \<Rightarrow> (env \<times> console) option \<Rightarrow> bool" where
  "does r m \<longleftrightarrow> (case m of
     None \<Rightarrow> fst r = -1
   | Some (e, c) \<Rightarrow> fst r = 0 \<and> vm_ok (snd r) \<and> env_of (snd r) = e \<and> console_of (snd r) = c)"

definition room :: "string set \<Rightarrow> cmdt_vm_state \<Rightarrow> bool" where
  "room N vm \<longleftrightarrow> finite N \<and> card N \<le> CMDT_MAX_VARS \<and> dom (env_of vm) \<subseteq> N"

lemma declare_does:
  assumes "vm_ok vm" and "ident x" and "room N vm" and "x \<in> N"
  shows "does (declare_var x v vm) (Some ((env_of vm)(x \<mapsto> v), console_of vm))"
proof -
  have "x \<in> dom (env_of vm) \<or> card (dom (env_of vm)) < CMDT_MAX_VARS"
  proof (cases "x \<in> dom (env_of vm)")
    case False
    then have "dom (env_of vm) \<subset> N" using assms(3,4) by (auto simp: room_def)
    then have "card (dom (env_of vm)) < card N" using assms(3) by (intro psubset_card_mono) (simp_all add: room_def)
    then show ?thesis using assms(3) by (simp add: room_def)
  qed simp
  moreover have "length x \<le> 31" using assms(2) by (simp add: ident_def)
  ultimately obtain vm' where "declare_var x v vm = (0, vm')" "vm_ok vm'" "env_of vm' = (env_of vm)(x \<mapsto> v)" "console_of vm' = console_of vm"
    using declare_env [OF assms(1)] by blast
  then show ?thesis by (simp add: does_def)
qed

lemma value_parses:
  assumes "wf_value a"
  shows "vm_parse_value vm (CHR '' '' # show_value a) = map_option (\<lambda>v. (v, [])) (value_of a (env_of vm))"
proof (cases a)
  case (Num v)
  have "decimal v \<noteq> []" "\<not> vm_is_space (hd (decimal v))"
    using decimal_chars(1) [of "hd (decimal v)" v] decimal_chars(2) [of v] digit_facts(1) by (auto simp: vm_is_space_def)
  then show ?thesis using Num decimal_parses [of "[]" v] by (simp add: vm_parse_value_def skip_none)
next
  case (Var x)
  then have x: "ident x" using assms by simp
  then have "\<not> digit (hd x)" "hd x \<noteq> CHR ''-''" using ident_start_facts by (auto simp: ident_def)
  then have "vm_parse_int x = None" using ident_skip [OF x, of "[]"] by (simp add: vm_parse_int_def at_char_def Let_def split: prod.split)
  then show ?thesis using Var ident_skip [OF x, of "[]"] ident_parses [OF x, of "[]"]
    by (auto simp: vm_parse_value_def env_of_def split: option.split)
qed

lemma end_stmt [simp]: "vm_end_stmt []"
  by (simp add: vm_end_stmt_def)

lemma keyword_line:
  "vm_exec_line (''int '' @ t) vm = exec_int (''int '' @ t) vm"
  "vm_exec_line (''dinput('' @ t) vm = exec_dinput (''dinput('' @ t) vm"
  "vm_exec_line (''cprintf('' @ t) vm = exec_cprintf (''cprintf('' @ t) vm"
  by (simp_all add: vm_exec_line_def skip_none vm_is_space_def)

lemma no_ident: "\<not> vm_ident_char CHR '' ''" "\<not> vm_ident_char CHR '')''" "\<not> vm_is_space CHR ''=''" "\<not> vm_is_space CHR '','' "
    "\<not> vm_is_space CHR '')''" "\<not> vm_is_space CHR ''(''"
  by (simp_all add: vm_ident_char_def vm_ident_start_def in_range_def vm_is_space_def)

lemma line_declare:
  assumes "vm_ok vm" and "ident x" and "room N vm" and "x \<in> N"
  shows "does (vm_exec_line (show_stmt (Declare x None)) vm) (stmt_step (Declare x None) (env_of vm, console_of vm))"
proof -
  have "vm_exec_line (''int '' @ x) vm = declare_var x 0 vm"
    using ident_parses [OF assms(2), of "[]"]
    by (simp only: keyword_line) (simp add: exec_int_def skip_ident vm_is_space_def at_char_def)
  then show ?thesis using declare_does [OF assms] by simp
qed

lemma line_init:
  assumes "vm_ok vm" and "ident x" and "wf_value a" and "room N vm" and "x \<in> N"
  shows "does (vm_exec_line (show_stmt (Declare x (Some a))) vm) (stmt_step (Declare x (Some a)) (env_of vm, console_of vm))"
proof -
  have "vm_exec_line (''int '' @ x @ '' = '' @ show_value a) vm =
      (case value_of a (env_of vm) of None \<Rightarrow> (-1, vm) | Some v \<Rightarrow> declare_var x v vm)"
    using ident_parses [OF assms(2), of "'' = '' @ show_value a"] value_parses [OF assms(3), of vm] no_ident
    by (simp only: keyword_line) (auto simp: exec_int_def skip_ident vm_is_space_def at_char_def skip_none split: option.split)
  then show ?thesis using declare_does [OF assms(1,2,4,5)] by (auto simp: does_def split: option.split)
qed

lemma line_assign:
  assumes "vm_ok vm" and "ident x" and "no_keyword x" and "wf_value a"
  shows "does (vm_exec_line (show_stmt (Assign x a)) vm) (stmt_step (Assign x a) (env_of vm, console_of vm))"
proof -
  let ?t = "x @ '' = '' @ show_value a"
  have take: "take n ?t \<noteq> k" if "take n x \<noteq> k" "CHR '' '' \<notin> set k" "length k = n" for n k
  proof (cases "n \<le> length x")
    case False
    then have "take n ?t ! length x = CHR '' ''" "length x < length (take n ?t)" by (simp_all add: nth_append)
    then show ?thesis using that(2) by (metis nth_mem)
  qed (use that in simp)
  have "take 2 ?t \<noteq> ''//''"
    using assms(2) ident_start_facts(4) [of "hd x"] by (cases x) (auto simp: ident_def)
  then have "vm_exec_line ?t vm = exec_assign ?t vm"
    using assms(2,3) take by (simp add: vm_exec_line_def ident_skip no_keyword_def ident_def Let_def)
  also have "\<dots> = (case value_of a (env_of vm) of None \<Rightarrow> (-1, vm)
      | Some v \<Rightarrow> (case vm_find_var vm x of None \<Rightarrow> (-1, vm) | Some i \<Rightarrow> (0, set_var i v vm)))"
    using ident_parses [OF assms(2), of "'' = '' @ show_value a"] value_parses [OF assms(4), of vm] no_ident
    by (auto simp: exec_assign_def at_char_def skip_none split: option.split)
  finally have e: "vm_exec_line ?t vm = \<dots>" .
  show ?thesis
  proof (cases "vm_find_var vm x")
    case None
    then have "x \<notin> dom (env_of vm)" by (simp add: env_of_def dom_def)
    then show ?thesis using e None by (simp add: does_def split: option.split)
  next
    case (Some i)
    then have "i < CMDT_MAX_VARS" "var_used (vars vm i)" "var_name (vars vm i) = x" using find_var_iff [OF assms(1)] by auto
    note sv = set_var_env [OF assms(1) this]
    have "x \<in> dom (env_of vm)" using Some by (simp add: env_of_def dom_def)
    then show ?thesis using e Some sv by (cases "value_of a (env_of vm)") (simp_all add: does_def)
  qed
qed

lemma line_ask:
  assumes "vm_ok vm" and "ident x" and "room N vm" and "x \<in> N" and "length (show_stmt (Ask prompt x)) \<le> 255"
  shows "does (vm_exec_line (show_stmt (Ask prompt x)) vm) (stmt_step (Ask prompt x) (env_of vm, console_of vm))"
proof -
  let ?vm = "snd (tty_readline (tty_print prompt vm))"
  have q: "length (quoted prompt) \<le> 255" using assms(5) by simp
  have "vm_exec_line (''dinput('' @ quoted prompt @ '','' @ x @ '')'') vm =
      (case vm_parse_int (fst (tty_readline (tty_print prompt vm))) of None \<Rightarrow> (-1, ?vm) | Some (v, _) \<Rightarrow> declare_var x v ?vm)"
    using string_parses [OF q, of "'','' @ x @ '')''"] ident_parses [OF assms(2), of "'')''"] no_ident
    by (simp only: keyword_line) (auto simp: exec_dinput_def at_char_def skip_none Let_def split: option.split prod.split)
  moreover have "does (declare_var x v ?vm) (Some ((env_of vm)(x \<mapsto> v), console_of ?vm))" for v
    using declare_does [of ?vm x N v] assms(1-4) by (simp add: room_def)
  ultimately show ?thesis using same_line [of prompt vm]
    by (cases "tty_readline (tty_print prompt (console_of vm))") (auto simp: does_def split: option.split)
qed

lemma print_text: "CHR ''$'' \<notin> set t \<Longrightarrow> print_loop (t @ r) vm = print_loop r (tty_print t vm)"
proof (induction t arbitrary: vm)
  case (Cons c t)
  then have "print_loop ((c # t) @ r) vm = print_loop (t @ r) (tty_print [c] vm)" by (subst print_loop.simps) auto
  then show ?case using Cons by (simp add: tty_print_def)
qed (simp add: tty_print_def)

lemma print_hole:
  assumes "ident x"
  shows "print_loop (show_part (Hole x) @ r) vm =
    (case env_of vm x of None \<Rightarrow> (-1, vm) | Some v \<Rightarrow> print_loop r (tty_print (printed v) vm))"
proof -
  have "\<forall>c \<in> set x. c \<noteq> CHR ''}''" using assms ident_char_facts(4) by (auto simp: ident_def)
  then have "takeWhile (\<lambda>c. c \<noteq> CHR ''}'') (x @ CHR ''}'' # r) = x" "dropWhile (\<lambda>c. c \<noteq> CHR ''}'') (x @ CHR ''}'' # r) = CHR ''}'' # r"
    by (simp_all add: takeWhile_append2 dropWhile_append2)
  then show ?thesis using assms
    by (subst print_loop.simps)
      (simp add: at_char_def ident_def CMDT_MAX_NAME_LEN_def Let_def env_of_def vm_print_int_def int_text_printed split: option.split)
qed

lemma print_does:
  assumes "\<forall>p \<in> set ps. wf_part p" and "vm_ok vm"
  shows "does (print_loop (concat (map show_part ps)) vm) (stmt_step (Print ps) (env_of vm, console_of vm))"
  using assms
proof (induction ps arbitrary: vm)
  case Nil
  then show ?case by (simp add: print_loop.simps does_def tty_print_def)
next
  case (Cons p ps)
  have app: "tty_print s (tty_print t c) = tty_print (t @ s) c" for s t and c :: console by (simp add: tty_print_def)
  show ?case
  proof (cases p)
    case (Text t)
    then show ?thesis using Cons.IH [of "tty_print t vm"] Cons.prems print_text [of t]
      by (cases "parts_of ps (env_of vm)") (simp_all add: does_def app)
  next
    case (Hole x)
    then show ?thesis using Cons.IH [of "tty_print (printed v) vm" for v] Cons.prems print_hole [of x]
      by (cases "env_of vm x"; cases "parts_of ps (env_of vm)") (simp_all add: does_def app del: show_part.simps)
  qed
qed

lemma line_print:
  assumes "vm_ok vm" and "\<forall>p \<in> set ps. wf_part p" and "length (show_stmt (Print ps)) \<le> 255"
  shows "does (vm_exec_line (show_stmt (Print ps)) vm) (stmt_step (Print ps) (env_of vm, console_of vm))"
proof -
  have q: "length (quoted (concat (map show_part ps))) \<le> 255" using assms(3) by simp
  have "vm_exec_line (show_stmt (Print ps)) vm = print_loop (concat (map show_part ps)) vm"
    using string_parses [OF q, of "'')''"] no_ident
    by (simp only: keyword_line show_stmt.simps) (simp add: exec_cprintf_def at_char_def skip_none Let_def)
  then show ?thesis using print_does [OF assms(2,1)] by simp
qed

lemma line_does:
  assumes "wf_stmt st" and "vm_ok vm" and "room N vm" and "targets st \<subseteq> N"
  shows "does (vm_exec_line (show_stmt st) vm) (stmt_step st (env_of vm, console_of vm))"
proof (cases st)
  case (Declare x a)
  then show ?thesis using assms line_declare [of vm x N] line_init [of vm x _ N] by (cases a) (simp_all add: wf_stmt_def)
next
  case (Assign x a)
  then show ?thesis using assms line_assign [of vm x a] by (simp add: wf_stmt_def)
next
  case (Ask prompt x)
  then show ?thesis using assms line_ask [of vm x N prompt] by (simp add: wf_stmt_def)
next
  case (Print ps)
  then show ?thesis using assms line_print [of vm ps] by (simp add: wf_stmt_def)
qed

section \<open>Programs\<close>

text \<open>No character of a statement ends it or the source.\<close>

definition inner :: "char \<Rightarrow> bool" where
  "inner c \<longleftrightarrow> c \<noteq> CHR '';'' \<and> c \<noteq> CHR 0x0A \<and> c \<noteq> CHR 0x00"

definition unbroken :: "string \<Rightarrow> bool" where
  "unbroken t \<longleftrightarrow> (\<forall>c \<in> set t. inner c)"

lemma unbroken_append [simp]: "unbroken (s @ t) \<longleftrightarrow> unbroken s \<and> unbroken t" "unbroken (c # t) \<longleftrightarrow> inner c \<and> unbroken t" "unbroken []"
  by (auto simp: unbroken_def)

lemma unbroken_ident: "ident x \<Longrightarrow> unbroken x"
  using ident_char_facts by (simp add: ident_def unbroken_def inner_def)

lemma unbroken_decimal: "unbroken (decimal v)"
proof -
  have "inner c" if "c \<in> set (decimal v)" for c
    using decimal_chars(1) [OF that] digit_facts [of c] by (auto simp: inner_def)
  then show ?thesis by (simp add: unbroken_def)
qed

lemma unbroken_value: "wf_value a \<Longrightarrow> unbroken (show_value a)"
  by (cases a) (simp_all add: unbroken_ident unbroken_decimal)

lemma unbroken_escaped: "c \<noteq> CHR '';'' \<Longrightarrow> c \<noteq> CHR 0x00 \<Longrightarrow> unbroken (escaped c)"
  by (simp add: escaped_def inner_def)

lemma unbroken_quoted: "plain t \<Longrightarrow> unbroken (quoted t)"
proof -
  assume "plain t"
  then have "unbroken (concat (map escaped t))"
  proof (induction t)
    case (Cons c t)
    then have "c \<noteq> CHR '';''" "c \<noteq> CHR 0x00" "plain t" by (auto simp: plain_def)
    then show ?case using Cons.IH by (simp add: unbroken_escaped)
  qed simp
  then show "unbroken (quoted t)" by (simp add: quoted_def inner_def)
qed

lemma plain_ident: "ident x \<Longrightarrow> plain x"
  using unbroken_ident [of x] by (auto simp: unbroken_def plain_def inner_def)

lemma plain_parts: "\<forall>p \<in> set ps. wf_part p \<Longrightarrow> plain (concat (map show_part ps))"
proof (induction ps)
  case (Cons p ps)
  have "plain (show_part p)" using Cons.prems plain_ident by (cases p) (auto simp: plain_def)
  then show ?case using Cons by (simp add: plain_def)
qed (simp add: plain_def)

lemma unbroken_parts: "wf_parts st \<Longrightarrow> unbroken (show_stmt st)"
  by (induction st rule: show_stmt.induct) (simp_all add: unbroken_ident unbroken_value unbroken_quoted plain_parts inner_def)

lemma unbroken_stmt: "wf_stmt st \<Longrightarrow> unbroken (show_stmt st)"
  by (simp add: wf_stmt_def unbroken_parts)

lemma source_stmt:
  assumes "unbroken t" and "length (stmt @ t) \<le> 255"
  shows "source_loop (t @ CHR '';'' # r) stmt vm =
    (let (q, vm) = vm_exec_line (stmt @ t) vm in if q \<noteq> 0 then (-1, vm) else source_loop r [] vm)"
  using assms
proof (induction t arbitrary: stmt)
  case (Cons c t)
  then have "c \<noteq> CHR '';''" "c \<noteq> CHR 0x0A" "unbroken t" by (simp_all add: inner_def)
  then show ?case using Cons.IH [of "stmt @ [c]"] Cons.prems(2) by (simp add: CMDT_MAX_LINE_def)
qed simp

lemma empty_line [simp]: "vm_exec_line [] vm = (0, vm)"
  by (simp add: vm_exec_line_def)

lemma step_dom: "stmt_step st (e, c) = Some (e', c') \<Longrightarrow> dom e' \<subseteq> dom e \<union> targets st"
  by (induction st "(e, c)" rule: stmt_step.induct) (auto simp: Let_def split: if_splits prod.splits)

lemma source_does:
  assumes "\<forall>st \<in> set sts. wf_stmt st" and "\<forall>st \<in> set sts. targets st \<subseteq> N" and "vm_ok vm" and "room N vm"
  shows "does (source_loop (show_program sts) [] vm) (run sts (env_of vm, console_of vm))"
  using assms
proof (induction sts arbitrary: vm)
  case Nil
  then show ?case by (simp add: show_program_def does_def)
next
  case (Cons st sts)
  obtain q vm' where q: "vm_exec_line (show_stmt st) vm = (q, vm')" by (cases "vm_exec_line (show_stmt st) vm")
  have d: "does (q, vm') (stmt_step st (env_of vm, console_of vm))" using line_does [of st vm N] Cons.prems q by simp
  have w: "unbroken (show_stmt st)" "length ([] @ show_stmt st) \<le> 255" using Cons.prems(1) unbroken_stmt by (simp_all add: wf_stmt_def)
  have s: "source_loop (show_program (st # sts)) [] vm = (if q \<noteq> 0 then (-1, vm') else source_loop (show_program sts) [] vm')"
    using source_stmt [OF w, of "CHR 0x0A # show_program sts" vm] q by (simp add: show_program_def)
  show ?case
  proof (cases "stmt_step st (env_of vm, console_of vm)")
    case None
    then show ?thesis using d s by (simp add: does_def)
  next
    case (Some r)
    then obtain e c where r: "stmt_step st (env_of vm, console_of vm) = Some (e, c)" by (cases r) simp
    then have v: "q = 0" "vm_ok vm'" "env_of vm' = e" "console_of vm' = c" using d by (simp_all add: does_def)
    have "targets st \<subseteq> N" "dom (env_of vm) \<subseteq> N" using Cons.prems(2,4) by (simp_all add: room_def)
    then have "dom e \<subseteq> N" using step_dom [OF r] by blast
    then have "room N vm'" using Cons.prems(4) v(3) by (simp add: room_def)
    then show ?thesis using Cons.IH [of vm'] Cons.prems v r s by simp
  qed
qed

lemma exec_source_meaning:
  assumes "\<forall>st \<in> set sts. wf_stmt st" and "card (\<Union> (targets ` set sts)) \<le> CMDT_MAX_VARS"
  shows "case run sts (Map.empty, c) of
      Some (e, c') \<Rightarrow> vm_exec_source (show_program sts) c = (0, c')
    | None \<Rightarrow> fst (vm_exec_source (show_program sts) c) = -1"
proof -
  let ?N = "\<Union> (targets ` set sts)"
  let ?vm = "\<lparr>tty_out = tty_out c, tty_in = tty_in c, tty_echo = tty_echo c, tty_reads = tty_reads c, vars = (\<lambda>_. \<lparr>var_used = False, var_name = [], var_value = 0\<rparr>)\<rparr>"
  have ok: "vm_ok ?vm" by (simp add: vm_ok_def)
  have e: "env_of ?vm = Map.empty"
  proof
    fix x show "env_of ?vm x = None" by (simp add: env_of_def vm_find_var_def find_from_None_iff [THEN iffD2])
  qed
  have c: "console_of ?vm = c" by (simp add: console_of_def console.defs)
  have "finite (targets st)" for st by (cases st) simp_all
  then have "room ?N ?vm" using assms(2) by (simp add: room_def e)
  then have "does (source_loop (show_program sts) [] ?vm) (run sts (Map.empty, c))"
    using source_does [OF assms(1) _ ok, of ?N] e c by auto
  then show ?thesis
    by (cases "source_loop (show_program sts) [] ?vm") (auto simp: does_def vm_exec_source_def console_of_def split: option.splits)
qed

end
