(* ===== verification/Exec.thy ===== *)
theory Exec
  imports Cmdt_Run Proc_Correct File_Store
begin

text \<open>
  Executing a program: \<open>proc_exec\<close> of \<open>src/kernel/proc/exec.c\<close> over the process table, the kernel heap, the file
  system and the program runtime. The bytes of the file buffer are a value; its block on the heap is
  allocated and freed as in the code.
\<close>

section \<open>Model\<close>

definition to_bytes :: "string \<Rightarrow> u8 list" where "to_bytes t = map (\<lambda>c. of_nat (of_char c)) t"
definition to_chars :: "u8 list \<Rightarrow> string" where "to_chars bs = map (\<lambda>b. char_of (unat b)) bs"

fun cmdt_message :: "cmdt_error \<Rightarrow> klog_event list" where
  "cmdt_message Invalid_prefix = [Error ''cmdt: invalid record prefix'']"
| "cmdt_message Short_record = [Error ''cmdt: short record'']"
| "cmdt_message Header_hex = [Error ''cmdt: invalid header hex'']"
| "cmdt_message Truncated = [Error ''cmdt: truncated record'']"
| "cmdt_message Data_hex = [Error ''cmdt: invalid data hex'']"
| "cmdt_message Checksum_hex = [Error ''cmdt: invalid checksum field'']"
| "cmdt_message Checksum_mismatch = [Error ''cmdt: checksum mismatch'']"
| "cmdt_message Too_large = [Error ''cmdt: decoded image too large'']"
| "cmdt_message Bad_extended = [Error ''cmdt: bad extended linear record'']"
| "cmdt_message Overfull = []"

definition cmdt_exec_vm :: "string \<Rightarrow> string \<Rightarrow> kproc \<Rightarrow> console \<Rightarrow> int \<times> kproc \<times> console" where
  "cmdt_exec_vm path file_data s c =
     (case cmdt_decode_source file_data CMDT_MAX_SOURCE of
        Inl e \<Rightarrow> (-1, proc_klog (Error ''exec: CMDT decode failed'') (fold proc_klog (cmdt_message e) s), c)
      | Inr source \<Rightarrow>
          let s = proc_klog (Log ''exec: CMDT decoded; entering VM runtime'') s;
              (r, c) = vm_exec_source (to_chars (takeWhile (\<lambda>b. b \<noteq> 0) source)) c
          in if r \<noteq> 0 then (-1, proc_klog (Error ''exec: CMDT VM runtime failure'') s, c)
             else (0, proc_klog (Log path) s, c))"

text \<open>The part of a path behind its last slash.\<close>

definition base_name :: "string \<Rightarrow> string" where
  "base_name path = rev (takeWhile (\<lambda>c. c \<noteq> CHR ''/'') (rev path))"

text \<open>What happens once the file has been read; \<open>buf\<close> is the block of the file buffer.\<close>

definition exec_image :: "ptr \<Rightarrow> string \<Rightarrow> ptr \<Rightarrow> string \<Rightarrow> kproc \<Rightarrow> console \<Rightarrow> int \<times> kproc \<times> console" where
  "exec_image p path buf file_data s c =
     (let s = Proc.upd p (\<lambda>q. q\<lparr>pname := take (PROC_NAME_MAX - 1) (base_name path)\<rparr>) s;
          s = Proc.upd p (\<lambda>q. q\<lparr>pstate := PROC_RUNNING\<rparr>) s
      in if str_ends_with path ''.cmdt''
         then
           let (rc, s, c) = cmdt_exec_vm path file_data s c;
               s = Proc.upd p (\<lambda>q. q\<lparr>exit_code := (if rc = 0 then 0 else 1)\<rparr>) s;
               s = Proc.upd p (\<lambda>q. q\<lparr>pstate := PROC_ZOMBIE\<rparr>) s
           in (rc, s\<lparr>proc_heap := kfree buf (proc_heap s)\<rparr>, c)
         else
           let s = proc_klog (Error ''exec: only .cmdt is currently executable in this path'') s;
               s = Proc.upd p (\<lambda>q. q\<lparr>exit_code := 1\<rparr>) s;
               s = Proc.upd p (\<lambda>q. q\<lparr>pstate := PROC_ZOMBIE\<rparr>) s
           in (-1, s\<lparr>proc_heap := kfree buf (proc_heap s)\<rparr>, c))"

definition proc_exec :: "ptr \<Rightarrow> string option \<Rightarrow> bfs_instance \<Rightarrow> kproc \<Rightarrow> console \<Rightarrow> (int \<times> kproc \<times> console) option" where
  "proc_exec p path g_bfs s c =
     (case path of
        None \<Rightarrow> Some (-1, s, c)
      | Some path \<Rightarrow>
          if p = 0 then Some (-1, s, c)
          else
            do {
              (e, sz) \<leftarrow> bfs_file_size (to_bytes path) g_bfs;
              let file_size = (case sz of None \<Rightarrow> 0 | Some n \<Rightarrow> n);
              if e \<noteq> 0 \<or> file_size = 0 then Some (-1, proc_klog (Error ''exec: file not found or empty'') s, c)
              else
                do {
                  (buf, h) \<leftarrow> kmalloc (file_size + 1) (proc_heap s);
                  let s = s\<lparr>proc_heap := h\<rparr>;
                  if buf = 0 then Some (-1, proc_klog (Error ''exec: out of memory reading executable'') s, c)
                  else
                    do {
                      (e, n, bs) \<leftarrow> bfs_read_file (to_bytes path) file_size g_bfs;
                      case bs of
                        Some bs \<Rightarrow>
                          if e \<noteq> 0 \<or> n \<noteq> Some file_size
                          then let s = proc_klog (Error ''exec: failed to read executable file'') s
                               in Some (-1, s\<lparr>proc_heap := kfree buf (proc_heap s)\<rparr>, c)
                          else Some (exec_image p path buf (to_chars bs) s c)
                      | None \<Rightarrow>
                          let s = proc_klog (Error ''exec: failed to read executable file'') s
                          in Some (-1, s\<lparr>proc_heap := kfree buf (proc_heap s)\<rparr>, c)
                    }
                }
            })"

definition exec_init :: "kproc \<Rightarrow> kproc" where
  "exec_init s = proc_klog (Init_msg ''Exec subsystem initialized'') s"

section \<open>Bytes and characters\<close>

lemma chars_bytes [simp]: "to_chars (to_bytes t) = t"
  by (simp add: to_chars_def to_bytes_def comp_def unat_of_nat)

lemma bytes_length [simp]: "length (to_bytes t) = length t"
  by (simp add: to_bytes_def)

lemma bytes_nonzero: "CHR 0x00 \<notin> set t \<Longrightarrow> 0 \<notin> set (to_bytes t)"
proof -
  have "c = CHR 0x00" if "(of_nat (of_char c) :: u8) = 0" for c
  proof -
    have "unat (of_nat (of_char c) :: u8) = 0" using that by simp
    then have "(of_char c :: nat) = 0" by (simp add: unat_of_nat)
    then have "(of_char c :: nat) = of_char CHR 0x00" by simp
    then show ?thesis by (simp only: of_char_eq_iff)
  qed
  then show "CHR 0x00 \<notin> set t \<Longrightarrow> 0 \<notin> set (to_bytes t)" by (auto simp: to_bytes_def)
qed

section \<open>The buffer\<close>

lemma borrow_block:
  assumes "kheap_inv h"
  obtains (none) "kmalloc sz h = Some (0, h)"
  | (block) p h' where "kmalloc sz h = Some (p, h')" "p \<noteq> 0" "kheap_inv (kfree p h')" "live_ptrs (kfree p h') = live_ptrs h"
proof (cases "sz = 0 \<or> sz > KHEAP_MAX_ALLOC")
  case True
  then have "kmalloc sz h = Some (0, h)" by (auto simp: kmalloc_def)
  then show thesis by (rule none)
next
  case False
  then have sz: "sz \<noteq> 0" "sz \<le> KHEAP_MAX_ALLOC" by auto
  show thesis
  proof (cases rule: kmalloc_correct [OF assms sz])
    case 1
    then show thesis using none by blast
  next
    case (2 h' a s)
    have "a + 32 < 18446744073709551616" using live_block_addr_lt [of h' a s] 2 by simp
    then have nz: "adr (a + 32) \<noteq> 0" by (simp add: adr_eq_0_iff)
    then have ha: "heap_alloc sz h = (Some (adr (a + 32)), h')" using 2(1) by (simp add: heap_alloc_def)
    note f = heap.alloc_fresh [OF assms ha] and l = heap.alloc_live [OF assms ha]
    have "adr (a + 32) \<in> live_ptrs h'" using l by simp
    then show thesis using block [OF 2(1) nz] heap.free_inv [OF 2(2)] heap.free_live [OF 2(2)] l f by simp
  qed
qed

section \<open>Executing a stored program\<close>

lemma file_size_ok:
  assumes "mounted d t h" and "files d t (bfs_hash name) = Some bs"
  shows "bfs_file_size name d = Some (0, Some (of_nat (length bs)))" and "unat (of_nat (length bs) :: u64) = length bs"
proof -
  obtain v where v: "map_of (entries t) (bfs_hash name) = Some v" "bs = file_bytes (disk d) v" using assms(2) by (auto simp: files_def)
  then have "length bs = unat (value_size v)" by (simp add: file_bytes_def)
  then show "bfs_file_size name d = Some (0, Some (of_nat (length bs)))" "unat (of_nat (length bs) :: u64) = length bs"
    using v(1) by (simp_all add: bfs_file_size_def find_ok [OF assms(1)])
qed

lemma exec_file:
  assumes "mounted d t h" and "files d t (bfs_hash (to_bytes path)) = Some (to_bytes text)" and "text \<noteq> []" and "p \<noteq> 0"
  shows "proc_exec p (Some path) d s c =
    (case kmalloc (of_nat (length text) + 1) (proc_heap s) of
       None \<Rightarrow> None
     | Some (buf, h) \<Rightarrow>
         if buf = 0 then Some (-1, proc_klog (Error ''exec: out of memory reading executable'') (s\<lparr>proc_heap := h\<rparr>), c)
         else Some (exec_image p path buf text (s\<lparr>proc_heap := h\<rparr>) c))"
proof -
  note z = file_size_ok [OF assms(1,2), unfolded bytes_length]
  have "(of_nat (length text) :: u64) \<noteq> 0" using z(2) assms(3) by auto
  moreover have "bfs_read_file (to_bytes path) (of_nat (length text)) d = Some (0, Some (of_nat (length text)), Some (to_bytes text))"
    using read_ok [OF assms(1), of "to_bytes path"] assms(2) z(2) by simp
  ultimately show ?thesis using assms(4) z(1) by (auto simp: proc_exec_def Let_def split: option.split)
qed

lemma image_nonempty: "cmdt_image ds \<noteq> []"
  by (simp add: cmdt_image_def)

lemma program_image:
  assumes "\<forall>x \<in> set ds. length x < 256" and "concat ds = to_bytes (show_program sts)" and "length (concat ds) < CMDT_MAX_SOURCE"
    and "\<forall>st \<in> set sts. wf_stmt st"
    and "vm_exec_source (show_program sts) c = (r, c')"
  shows "\<exists>l. cmdt_exec_vm path (cmdt_image ds) s c = (if r \<noteq> 0 then -1 else 0, s\<lparr>proc_log := l\<rparr>, c')"
proof -
  have "unbroken (show_stmt st)" if "st \<in> set sts" for st using assms(4) that unbroken_stmt by blast
  then have "CHR 0x00 \<notin> set (show_program sts)" by (auto simp: show_program_def unbroken_def inner_def)
  then have nz: "\<forall>b \<in> set (concat ds). b \<noteq> 0" using bytes_nonzero assms(2) by metis
  have "takeWhile (\<lambda>b. b \<noteq> 0) (xs @ replicate n 0) = xs" if "\<forall>b \<in> set xs. b \<noteq> 0" for xs :: "u8 list" and n
    using that by (simp add: takeWhile_append2 takeWhile_replicate)
  from this [OF nz] have "takeWhile (\<lambda>b. b \<noteq> 0) (concat ds @ replicate (CMDT_MAX_SOURCE - length (concat ds)) 0) = concat ds" .
  then show ?thesis
    using decode_image [OF assms(1,3)] assms(2,5) by (simp add: cmdt_exec_vm_def CMDT_MAX_SOURCE_def proc_klog_def) blast
qed

text \<open>What executing changes of the processes and the heap.\<close>

lemma exec_image_state:
  assumes "str_ends_with path ''.cmdt''" and "cmdt_exec_vm path text' s' c = (rc, s'\<lparr>proc_log := l\<rparr>, c')"
    and "s' = Proc.upd p (\<lambda>q. q\<lparr>pname := take (PROC_NAME_MAX - 1) (base_name path), pstate := PROC_RUNNING\<rparr>) s"
  shows "exec_image p path buf text' s c =
    (rc, (Proc.upd p (\<lambda>q. q\<lparr>pname := take (PROC_NAME_MAX - 1) (base_name path), exit_code := (if rc = 0 then 0 else 1), pstate := PROC_ZOMBIE\<rparr>) s)
       \<lparr>proc_log := l, proc_heap := kfree buf (proc_heap s)\<rparr>, c')"
proof -
  have "Proc.upd p (\<lambda>q. q\<lparr>pstate := PROC_RUNNING\<rparr>) (Proc.upd p (\<lambda>q. q\<lparr>pname := take (PROC_NAME_MAX - 1) (base_name path)\<rparr>) s) = s'"
    by (simp add: assms(3) Proc.upd_def)
  then show ?thesis using assms(1,2) by (simp add: exec_image_def Let_def) (simp add: assms(3) Proc.upd_def)
qed

lemma finished_inv:
  assumes "proc_inv s" and "kheap_inv h" and "live_ptrs h = live_ptrs (proc_heap s)" and "\<And>q. pid (f q) = pid q"
  shows "proc_inv ((Proc.upd p f s)\<lparr>proc_log := l, proc_heap := h\<rparr>)" and "live_procs ((Proc.upd p f s)\<lparr>proc_log := l, proc_heap := h\<rparr>) = live_procs s"
  using assms by (auto simp: proc_inv_def pid_inv_def live_procs_def Proc.upd_def)

section \<open>Properties\<close>

text \<open>
  C39. Any bytes written as records of at most 255 bytes with an end record are decoded to exactly these
  bytes, followed by zeros up to the size of the buffer.
\<close>

theorem image_roundtrip:
  assumes "\<forall>x \<in> set ds. length x < 256" and "length (concat ds) < CMDT_MAX_SOURCE"
  shows "cmdt_decode_source (cmdt_image ds) CMDT_MAX_SOURCE = Inr (concat ds @ replicate (CMDT_MAX_SOURCE - length (concat ds)) 0)"
  by (rule decode_image) (use assms in \<open>simp_all add: CMDT_MAX_SOURCE_def\<close>)

theorem image_roundtrip_witness:
  "cmdt_decode_source (cmdt_image [[0x69, 0x6E], [0x74]]) CMDT_MAX_SOURCE = Inr ([0x69, 0x6E, 0x74] @ replicate 8189 0)"
  using image_roundtrip [of "[[0x69, 0x6E], [0x74]]"] by (simp add: CMDT_MAX_SOURCE_def)

text \<open>
  C40. An image in which one byte of a record differs from what was written, whether in the address,
  the type, the data or the checksum, is rejected: the checksum does not match, whatever follows.
\<close>

theorem changed_image_rejected:
  assumes "\<forall>x \<in> set ds. length x < 256" and "length (concat ds) < CMDT_MAX_SOURCE"
    and "length d < 256" and "0 < i" and "i < length (record_bytes a ty d)" and "b \<noteq> record_bytes a ty d ! i"
  shows "cmdt_decode_source (records 0 ds @ line_of ((record_bytes a ty d)[i := b]) @ CHR 0x0A # t) CMDT_MAX_SOURCE = Inl Checksum_mismatch"
  by (rule decode_changed) (use assms in \<open>simp_all add: CMDT_MAX_SOURCE_def\<close>)

theorem changed_image_rejected_witness:
  "cmdt_decode_source (records 0 [[0x69]] @ line_of ((record_bytes 1 0 [0x6E])[4 := 0x6F]) @ CHR 0x0A # ''anything'') CMDT_MAX_SOURCE = Inl Checksum_mismatch"
  by (rule changed_image_rejected) (simp_all add: CMDT_MAX_SOURCE_def record_bytes_def)

text \<open>
  C38. The interpreter gives the text of a program its meaning: for statements that can be written and at
  most 64 variables it returns 0 with the terminal the semantics prescribes, and fails exactly where
  the semantics has no result (an undeclared variable, or input that is no number).
\<close>

theorem interpreter_meaning:
  assumes "\<forall>st \<in> set sts. wf_stmt st" and "card (\<Union> (targets ` set sts)) \<le> CMDT_MAX_VARS"
  shows "case run sts (Map.empty, c) of
      Some (e, c') \<Rightarrow> vm_exec_source (show_program sts) c = (0, c')
    | None \<Rightarrow> fst (vm_exec_source (show_program sts) c) = -1"
  by (rule exec_source_meaning [OF assms])

text \<open>A program that asks for a number and prints it with its own one, and a terminal on which 12 is typed and echoed.\<close>

definition sample_program :: "cmdt_stmt list" where
  "sample_program = [Declare ''x'' (Some (Num 5)), Ask ''n?'' ''y'', Assign ''x'' (Var ''y''), Print [Text ''x='', Hole ''x'']]"

definition sample_console :: console where
  "sample_console = \<lparr>tty_out = [], tty_in = (\<lambda>_. ''12''), tty_echo = (\<lambda>_. ''12'' @ [CHR 0x0A]), tty_reads = 0\<rparr>"

lemma sample_ok: "\<forall>st \<in> set sample_program. wf_stmt st" "card (\<Union> (targets ` set sample_program)) \<le> CMDT_MAX_VARS"
proof -
  have "list_all wf_stmt sample_program" by code_simp
  then show "\<forall>st \<in> set sample_program. wf_stmt st" by (simp add: list_all_iff)
  show "card (\<Union> (targets ` set sample_program)) \<le> CMDT_MAX_VARS" by (simp add: sample_program_def CMDT_MAX_VARS_def)
qed

lemma sample_run: "map_option snd (run sample_program (Map.empty, sample_console)) = Some (sample_console\<lparr>tty_out := ''n?12'' @ CHR 0x0A # ''x=12'', tty_reads := 1\<rparr>)"
proof -
  have "vm_parse_int ''12'' = Some (12, [])" "printed 12 = ''12''" by code_simp+
  then show ?thesis by (simp add: sample_program_def sample_console_def tty_print_def tty_readline_def)
qed

theorem interpreter_meaning_witness:
  "vm_exec_source (show_program sample_program) sample_console = (0, sample_console\<lparr>tty_out := ''n?12'' @ CHR 0x0A # ''x=12'', tty_reads := 1\<rparr>)"
  using interpreter_meaning [OF sample_ok, of sample_console] sample_run by (auto split: option.splits)

text \<open>
  C37. Executing a stored program: when the file of the path holds the image of a program, \<open>proc_exec\<close> returns
  with the process table and the heap as before. Unless there is no memory for the file, the process
  becomes a zombie named after the file; its exit code and the terminal are those of the meaning of
  the program. No other process changes.
\<close>

theorem program_runs:
  assumes "mounted d t h" and "files d t (bfs_hash (to_bytes path)) = Some (to_bytes (cmdt_image ds))" and "str_ends_with path ''.cmdt''"
    and "\<forall>x \<in> set ds. length x < 256" and "concat ds = to_bytes (show_program sts)" and "length (concat ds) < CMDT_MAX_SOURCE"
    and "\<forall>st \<in> set sts. wf_stmt st" and "card (\<Union> (targets ` set sts)) \<le> CMDT_MAX_VARS"
    and "proc_inv s" and "p \<in> live_procs s"
  shows "\<exists>r s' c'. proc_exec p (Some path) d s c = Some (r, s', c') \<and> proc_inv s' \<and> live_procs s' = live_procs s \<and>
    live_ptrs (proc_heap s') = live_ptrs (proc_heap s) \<and> (\<forall>q. q \<noteq> p \<longrightarrow> pcb s' q = pcb s q) \<and>
    (if kmalloc (of_nat (length (cmdt_image ds)) + 1) (proc_heap s) = Some (0, proc_heap s)
     then r = -1 \<and> c' = c \<and> pcb s' p = pcb s p
     else pstate (pcb s' p) = PROC_ZOMBIE \<and> pname (pcb s' p) = take 31 (base_name path) \<and>
       (case run sts (Map.empty, c) of
          Some (e, c2) \<Rightarrow> r = 0 \<and> exit_code (pcb s' p) = 0 \<and> c' = c2
        | None \<Rightarrow> r = -1 \<and> exit_code (pcb s' p) = 1))"
proof -
  have p: "p \<noteq> 0" using assms(10) by (simp add: live_procs_def)
  have hv: "kheap_inv (proc_heap s)" using assms(9) by (simp add: proc_inv_def)
  note ex = exec_file [OF assms(1,2) image_nonempty p, of s c]
  show ?thesis
  proof (cases rule: borrow_block [OF hv, of "of_nat (length (cmdt_image ds)) + 1", case_names none block])
    case none
    have "proc_inv (proc_klog e s) = proc_inv s" "live_procs (proc_klog e s) = live_procs s" for e
      by (intro proc_inv_cong; simp add: proc_klog_def)+
    then show ?thesis using ex none assms(9) by (simp add: proc_klog_def)
  next
    case (block buf h')
    let ?s = "s\<lparr>proc_heap := h'\<rparr>"
    let ?u = "Proc.upd p (\<lambda>q. q\<lparr>pname := take (PROC_NAME_MAX - 1) (base_name path), pstate := PROC_RUNNING\<rparr>) ?s"
    obtain r c1 where v: "vm_exec_source (show_program sts) c = (r, c1)" by (cases "vm_exec_source (show_program sts) c")
    define rc :: int where "rc = (if r \<noteq> 0 then -1 else 0)"
    obtain l where "cmdt_exec_vm path (cmdt_image ds) ?u c = (rc, ?u\<lparr>proc_log := l\<rparr>, c1)"
      using program_image [OF assms(4-7) v, of path ?u] unfolding rc_def by blast
    note st = exec_image_state [OF assms(3) this refl, of buf]
    let ?f = "\<lambda>q. q\<lparr>pname := take (PROC_NAME_MAX - 1) (base_name path), exit_code := (if rc = 0 then 0 else 1), pstate := PROC_ZOMBIE\<rparr>"
    let ?t = "(Proc.upd p ?f s)\<lparr>proc_log := l, proc_heap := kfree buf h'\<rparr>"
    have t: "proc_exec p (Some path) d s c = Some (rc, ?t, c1)" using ex block(1,2) st by (simp add: Proc.upd_def)
    note inv = finished_inv [OF assms(9) block(3,4), where f = ?f and p = p and l = l]
    have "case run sts (Map.empty, c) of Some (e, c2) \<Rightarrow> rc = 0 \<and> c1 = c2 | None \<Rightarrow> rc = -1"
      using exec_source_meaning [OF assms(7,8), of c] v by (auto simp: rc_def split: option.splits)
    then show ?thesis using t inv block(1,2,4)
      by (intro exI [of _ rc] exI [of _ ?t] exI [of _ c1]) (auto simp: Proc.upd_def PROC_NAME_MAX_def split: option.splits)
  qed
qed

text \<open>A system with one process, and a disk on which the sample program is stored.\<close>

lemma one_process:
  obtains p s where "proc_create 0 boot_kproc = Some (p, s)" "proc_inv s" "p \<in> live_procs s"
    "\<And>n. n \<noteq> 0 \<Longrightarrow> unat n \<le> 1000 \<Longrightarrow> kmalloc n (proc_heap s) \<noteq> Some (0, proc_heap s)"
proof -
  have inv: "kheap_inv (proc_heap boot_kproc)" "pid_inv boot_kproc" using boot_kproc_inv(1) by (simp_all add: proc_inv_def)
  obtain p s where c: "proc_create 0 boot_kproc = Some (p, s)" "created 0 boot_kproc p s"
    using boot_create_succeeds by (cases rule: proc_create_cases [OF inv, of 0, case_names fail ok]) auto
  note i = created_inv [OF boot_kproc_inv(1) c(2)]
  have p: "p \<noteq> 0" using c(2) by (simp add: created_def)
  have h0: "proc_heap boot_kproc = one_page_heap" by (simp add: boot_kproc_def proc_init_def proc_table_init_def) (simp add: demo_def)
  have km: "kmalloc SIZEOF_PROCESS one_page_heap = Some (p, proc_heap s)"
    using c(1) p h0
    by (auto simp: proc_create_def proc_alloc_def Let_def bind_eq_Some_conv Proc.upd_def proc_klog_def inherit_def proc_alloc_csid_def
        proc_alloc_pid_def proc_table_add_def split: if_splits prod.splits option.splits)
  have rel: "kheap_rel (proc_heap s) [(1488, False), (2608, True)]"
    using kmalloc_refines [OF one_page_heap_rel, of SIZEOF_PROCESS] km
    by (simp add: SIZEOF_PROCESS_def needed_for_def carve_def KHEAP_MAX_ALLOC_def)
  have "kmalloc n (proc_heap s) \<noteq> Some (0, proc_heap s)" if n: "n \<noteq> 0" "unat n \<le> 1000" for n
  proof
    assume f: "kmalloc n (proc_heap s) = Some (0, proc_heap s)"
    have le: "n \<le> KHEAP_MAX_ALLOC" using n by (simp add: word_le_nat_alt KHEAP_MAX_ALLOC_def)
    have fit: "\<not> (s0 < needed_for (unat n))" if "(s0 :: nat) = 2608" for s0 using n that by (simp add: needed_for_def)
    have inv': "kheap_inv (proc_heap s)" using i(1) by (simp add: proc_inv_def)
    show False
    proof (cases rule: kmalloc_correct [OF inv' n(1) le, case_names fail ok])
      case (fail bs)
      then have "bs = [(1488, False), (2608, True)]" using kheap_rel_unique rel by blast
      then show False using fail(3) fit by simp
    next
      case (ok h a sz)
      then have "a + 32 < 18446744073709551616" using live_block_addr_lt [of h a sz] by simp
      then show False using ok(1) f by (simp add: adr_eq_0_iff)
    qed
  qed
  then show thesis using that [OF c(1) i(1)] i(2) by simp
qed

definition sample_path :: string where "sample_path = ''bin/p.cmdt''"

definition sample_chunks :: "u8 list list" where "sample_chunks = [to_bytes (show_program sample_program)]"

lemma sample_size: "length (show_program sample_program) < 100" "length (cmdt_image sample_chunks) \<le> 300" "str_ends_with sample_path ''.cmdt''"
proof -
  show n: "length (show_program sample_program) < 100" by code_simp
  have "length (line_of bs) = 1 + 2 * length bs" for bs by (simp add: line_of_def)
  moreover have "length (record_bytes a ty d) = length d + 5" for a ty d by (simp add: record_bytes_def Let_def)
  ultimately show "length (cmdt_image sample_chunks) \<le> 300" using n by (simp add: cmdt_image_def sample_chunks_def)
  show "str_ends_with sample_path ''.cmdt''" by code_simp
qed

lemma stored_program:
  obtains d t h where "mounted d t h" "files d t (bfs_hash (to_bytes sample_path)) = Some (to_bytes (cmdt_image sample_chunks))"
proof -
  obtain s where s: "mounted s (Leaf 1 []) 0" "unat (free_pages s) = 13" by (rule ram_disk_formatted) (rule that)
  let ?b = "to_bytes (cmdt_image sample_chunks)"
  have "length ?b < 4294967296" "room_for s (Leaf 1 []) (bfs_hash (to_bytes sample_path)) (length ?b)"
    using ram_disk_room [OF s(2)] sample_size(2) by simp_all
  from write_ok [OF s(1) this] show thesis using that by fastforce
qed

theorem program_runs_witness:
  "\<exists>p s d s'. proc_create 0 boot_kproc = Some (p, s) \<and>
     proc_exec p (Some sample_path) d s sample_console = Some (0, s', sample_console\<lparr>tty_out := ''n?12'' @ CHR 0x0A # ''x=12'', tty_reads := 1\<rparr>) \<and>
     pstate (pcb s' p) = PROC_ZOMBIE \<and> exit_code (pcb s' p) = 0 \<and> proc_inv s'"
proof -
  obtain p s where s: "proc_create 0 boot_kproc = Some (p, s)" "proc_inv s" "p \<in> live_procs s"
    "\<And>n. n \<noteq> 0 \<Longrightarrow> unat n \<le> 1000 \<Longrightarrow> kmalloc n (proc_heap s) \<noteq> Some (0, proc_heap s)" by (rule one_process) (rule that)
  obtain d t h where d: "mounted d t h" "files d t (bfs_hash (to_bytes sample_path)) = Some (to_bytes (cmdt_image sample_chunks))" by (rule stored_program)
  have w: "\<forall>x \<in> set sample_chunks. length x < 256" "concat sample_chunks = to_bytes (show_program sample_program)" "length (concat sample_chunks) < CMDT_MAX_SOURCE"
    using sample_size(1) by (simp_all add: sample_chunks_def CMDT_MAX_SOURCE_def)
  have "unat (of_nat (length (cmdt_image sample_chunks)) + 1 :: u64) = length (cmdt_image sample_chunks) + 1"
    using sample_size(2) by (simp add: unat_word_ariths unat_of_nat)
  then have "of_nat (length (cmdt_image sample_chunks)) + 1 \<noteq> (0 :: u64)" "unat (of_nat (length (cmdt_image sample_chunks)) + 1 :: u64) \<le> 1000"
    using sample_size(2) by auto
  note m = s(4) [OF this]
  obtain e where r: "run sample_program (Map.empty, sample_console) = Some (e, sample_console\<lparr>tty_out := ''n?12'' @ CHR 0x0A # ''x=12'', tty_reads := 1\<rparr>)"
    using sample_run by auto
  from program_runs [OF d sample_size(3) w sample_ok s(2,3), of sample_console] m show ?thesis
    using s(1) unfolding r by auto
qed

section \<open>Limits of the language\<close>

text \<open>A name that begins with a keyword can be declared and not assigned: the line is taken for a declaration.\<close>

lemma keyword_prefix: "fst (vm_exec_source ''int integer = 1;integer = 2'' sample_console) = -1"
  by code_simp

text \<open>The source is split at every semicolon, also in texts and comments.\<close>

lemma split_in_text: "fst (vm_exec_source (''cprintf('' @ CHR 0x22 # ''a;b'' @ CHR 0x22 # '')'') sample_console) = -1"
  by code_simp

lemma split_in_comment: "tty_out (snd (vm_exec_source (''// off; cprintf('' @ CHR 0x22 # ''hi'' @ CHR 0x22 # '')'') sample_console)) = ''hi''"
  by code_simp

text \<open>The least number is printed as a sign without digits.\<close>

lemma least_number: "tty_out (snd (vm_exec_source (''int x = -2147483648;cprintf('' @ CHR 0x22 # ''${x}'' @ CHR 0x22 # '')'') sample_console)) = ''-''"
  by code_simp

end
