(* ===== verification/Spec2Isabelle.thy ===== *)
theory Spec2Isabelle
  imports Address_Space Pipe SPM Proc_Wait Job Proc_Security File_Store Net_Paths Sasy_Swap Exec
begin

text \<open>
  A model of the core of the GraceOS kernel (\<open>src/kernel\<close>, \<open>src/lib/libc\<close>), x86\_64 build, and of its
  file system (\<open>src/drivers/storage/bfs.c\<close>), with the theorems that make them correct.

  \<^bold>\<open>The program.\<close> At boot \<open>kmain\<close> reads the Multiboot2 information, sets up the frame bitmap
  (\<open>pmm_init\<close>), the kernel heap (\<open>kheap_init\<close>) and the page tables (\<open>vmm_init\<close>), and then the process
  table, the scheduler, the pipes and the security tables. Processes are control blocks allocated
  from the heap, entered in a table by identifier and threaded through the run queue; the timer tick
  ages them, wakes sleepers and calls the scheduler. Exit, signals, job control and waiting move them
  between states. Every component logs through \<open>klog\<close>. Files live in BranchFS, a B+ tree of pages on a RAM
  disk or on the drive behind \<open>pmem.c\<close>.

  \<^bold>\<open>Shared theories.\<close> \<open>Prelude\<close> names the fixed-width integers and holds the word, loop and search
  lemmas. \<open>Allocator\<close> states the contract the allocators share as locales; it is interpreted by the
  frame bitmap, the heap, the pipe table, the handle table and the process table. \<open>Fifo\<close> states the
  contract of a bounded byte queue, interpreted by the pipes and by the receive buffer of TCP; \<open>Sched_Correct\<close> has the contract of a work
  queue, interpreted by the run queue; \<open>File_Store\<close> that of a store of files, interpreted by BranchFS.

  \<^bold>\<open>Memory.\<close>
  \<^item> \<open>PMM\<close>: \<open>pmm/bitmap.c\<close> and \<open>pmm/pmm.c\<close>. The bitmap is its byte array; \<open>used\<close> abstracts it to a set of
    frames, every bitmap operation is shown to be the set operation, and the counters agree with it.
  \<^item> \<open>KHeap\<close>: \<open>kheap.c\<close>. Block headers and footers are stores indexed by address. The pointer code
    refines operations on the list of blocks: allocations are apart, freeing coalesces, the heap
    \<open>kheap_init\<close> sets up is tiled after any history, and freeing everything gives back one block.
  \<^item> \<open>Multiboot\<close>: \<open>core/multiboot.c\<close>, the tag walks, partial and shown to return on terminated lists.
  \<^item> \<open>Phys_Alloc\<close>: \<open>pmm_alloc_page\<close>, the heap fallback, and the boot order of the two allocators.
  \<^item> \<open>VMM\<close>: \<open>vmm/vmm.c\<close>, page tables as words in a store. \<open>Page_Walk\<close> defines the translation a store
    describes by recursion over the levels and what a change of one entry does to it; \<open>VMM_Correct\<close>
    shows that \<open>vmm_translate\<close> computes it and what creating tables does; \<open>VMM_Map\<close> follows the mapping
    calls, \<open>VMM_Boot\<close> the range loop of \<open>vmm_init\<close>, and \<open>Address_Space\<close> states the results.
  \<^item> \<open>Handle\<close>: \<open>sasy/handle.c\<close> and the descriptors of \<open>sasy/types.h\<close>, the table of segment handles.
  \<^item> \<open>Sasy\<close>: \<open>sasy/sasy.c\<close>, \<open>swap.c\<close>, \<open>loader.c\<close>: segments with their frames and mappings, swapping to persistent
    memory, demand paging and shared code. \<open>Sasy_Space\<close> shows which steps leave the layout of the segments
    alone, \<open>Sasy_Correct\<close> has the invariant of layout and references and what each call does to it,
    \<open>Sasy_Life\<close> the registry of shared code, the histories of calls (\<open>sasy_reach\<close>: no wrapping sizes or
    identifiers, reference counts below their maximum, resizing that shrinks or is refused) and their theorems, with three
    places where the code breaks the invariant outside these limits. \<open>Sasy_Paging\<close> follows the mapping loops of a segment on the
    page tables of \<open>VMM_Map\<close>, and \<open>Sasy_Swap\<close> has the round trip of the contents through the device.

  \<^bold>\<open>Processes.\<close>
  \<^item> \<open>Proc\<close>: \<open>proc.h\<close>, \<open>context.c\<close>, \<open>table.c\<close>; one state record \<open>kproc\<close> with the control blocks as a store
    indexed by address, the table, the run queue ends, the heap and the clock.
  \<^item> \<open>Sched\<close>: \<open>sched.c\<close>. \<open>Run_Queue\<close> shows that the doubly linked queue represents a list and that the
    walks return; \<open>Sched_Correct\<close> has the refinement of the queue, the choice of the next process,
    aging, the tick, and three places where the code does not do what it means to.
  \<^item> \<open>Proc_Life\<close>: \<open>proc.c\<close>, \<open>zombie.c\<close>, \<open>wait.c\<close>; \<open>Proc_Correct\<close> and \<open>Proc_Wait\<close> show creation, exit and the
    collection of the exit status.
  \<^item> \<open>Job\<close>: \<open>job.c\<close>, job table and signals; that \<open>proc_kill\<close> ignores \<open>CAP_KILL\<close> is a lemma. \<open>Proc_Security\<close>: \<open>security.c\<close>, capabilities and \<open>doas\<close>.
  \<^item> \<open>SPM\<close>: \<open>spm/spm.c\<close>, users, capabilities by target pattern and the permission check, compared with the policy
    \<open>spm.h\<close> documents.
  \<^item> \<open>Pipe\<close>: \<open>proc/pipe.c\<close>, ring buffers as byte streams.

  \<^bold>\<open>File system.\<close>
  \<^item> \<open>BFS\<close>: \<open>bfs.c\<close>, \<open>bfs.h\<close> and \<open>pmem.c\<close>. The device is a store of pages, a page its 64-bit words; the
    superblock and the name table buffer are fields of the state.
  \<^item> \<open>BFS_Tree\<close>: trees as values, what it means that a device holds one, and that the search of the code
    is the lookup in it. \<open>BFS_Leaf\<close>, \<open>BFS_Split\<close>: changes of a leaf and the split of a leaf, on trees and on
    pages. \<open>BFS_Insert\<close>, \<open>BFS_Grow\<close>: the invariant \<open>fs_ok\<close> of a file system and that insertion keeps it and
    updates the map of entries, without a split, with a split under a parent with room, and with a new
    root. The predicate \<open>has_room\<close> is this side condition; the recursive split of a full inner node is
    modelled and not covered by it.
  \<^item> \<open>BFS_Blocks\<close>, \<open>BFS_Files\<close>, \<open>BFS_Store\<close>: bytes, runs of pages, extents that stay apart, and the
    operations on files against the map from name hashes to contents (\<open>mounted\<close>, \<open>files\<close>).
  \<^item> \<open>File_Store\<close>: the interface of a file store as a locale, its interpretation, and the theorems:
    refinement, round trips through reading and through mounting (RAM disk and drive), deletion, formatting, a full disk,
    and the format of a directory listing.

  \<^bold>\<open>Network.\<close>
  \<^item> \<open>Net\<close>: \<open>net/\<close> with \<open>ethernet.c\<close>, \<open>arp.c\<close>, \<open>ipv4.c\<close>, \<open>icmp.c\<close>, \<open>tcp.c\<close>; packets are byte lists, the card and the
    clock are parameters of the state. \<open>Net_Client\<close> has the operations other parts call: \<open>ping\<close>, the TCP
    client and the initialisation.
  \<^item> \<open>Net_Poll\<close>: polling reenters itself through address resolution. The number of frames still to come
    is fuel enough, and the locale \<open>net_invariant\<close> lifts what single steps keep to whole polls.
  \<^item> \<open>Net_Wait\<close>: the loops with a time limit as a locale, with the rule that they return; interpreted by
    the three waits of the code. \<open>Net_Checksum\<close>: byte order and the Internet checksum. \<open>TCP_Ring\<close>: the
    receive buffer as a queue.
  \<^item> \<open>TCP_Stream\<close>: a client reads a prefix of what the peer sent, on a network that loses, repeats and
    reorders segments. \<open>Net_Paths\<close>: packets, address resolution and echo from host to host.

  \<^bold>\<open>Time.\<close>
  \<^item> \<open>Clock\<close>: \<open>core/time.c\<close>, \<open>drivers/storage/rtc.c\<close> and \<open>sys/sys_time.c\<close>; the registers of the CMOS clock are a
    parameter. \<open>Calendar\<close>: \<open>lib/libc/time.c\<close> and \<open>timeprofile.c\<close>.
  \<^item> \<open>Calendar_Correct\<close>: the loops of \<open>gmtime_r\<close> invert the sums of \<open>mktime\<close>, and Zeller's congruence agrees
    with counting days. \<open>Time_Keeping\<close>: from the chip to the date a program sees, the clocks under any
    history, dates to text and back.

  \<^bold>\<open>Programs.\<close>
  \<^item> \<open>Cmdt\<close>: the program runtime of \<open>proc/exec.c\<close>, the decoder of images and the interpreter. \<open>Cmdt_Image\<close>: images
    as text with checksums. \<open>Cmdt_Run\<close>: the statements as a data type with their meaning and their text.
  \<^item> \<open>Exec\<close>: \<open>proc_exec\<close> over processes, heap, file system and runtime, and the theorems: round trip and
    error detection of images, the interpreter against the meaning, and a stored program run to its end.

  \<^bold>\<open>Base.\<close> \<open>KLog\<close>: \<open>log/klog.c\<close>, the ring of log characters and its readers. \<open>CString\<close>: \<open>lib/libc/string.c\<close>
  over a byte store.

  \<^bold>\<open>Conventions.\<close> C integers are words of their width; scheduler scores, job numbers and
  calendar fields are exact integers, where the theorems that use them bound their values. The seconds of the clocks wrap at 64 bits,
  the day count of \<open>gmtime_r\<close> and the sum under its day of the week at 32. A section under a lock is one step. Loops over pointers that need not end (heap chains,
  run queue, tag lists, the mapping and unmapping loops, the descent and the splits of the B+ tree) are \<open>partial_function\<close>s with option results, and the theorems
  state that they return on well-formed states; the waits of the network stack return when the clock keeps
  ticking. The only fuel is that of \<open>ethernet_poll\<close>, the number of frames to come. Strings in tables are the HOL
  strings their fields hold, which \<open>CString\<close> justifies. Output to the terminal and to ports is the
  sequence of calls made; what is typed at \<open>tty_readline\<close> and its echo are parameters.

  \<^bold>\<open>Not modelled.\<close> Assembly (boot, context switch, interrupt entry) and device drivers that only move
  bytes between ports and memory have no logic the model could state beyond the port accesses. The arm64
  port mirrors the x86\_64 code. The MP3 decoder and the LLM runtime are third-party code carried
  along; \<open>bfs_list\<close> and \<open>bfs_print_tree\<close> only print; user programs and the shell are clients of the system calls. \<open>fork.c\<close>, the unused ELF functions of \<open>exec.c\<close>, the HTTP
  client and the system call table are not modelled; the manifest lists them.
\<close>

end
